(* ===== verification/Tf_Prelude.thy ===== *)
theory Tf_Prelude
  imports Main "HOL-Library.Word" "HOL-Library.Sublist"
begin

unbundle bit_operations_syntax

text \<open>
  Shared vocabulary of the development: the fixed-width types of
  \<^verbatim>\<open>tensorflow/core/platform/types.h\<close>, the error codes of
  \<^verbatim>\<open>tensorflow::Status\<close>, C++'s truncating division, byte strings, and the generic
  lemmas on words, byte lists and association lists that the component theories use.
  Two interfaces live here because several components provide them: \<open>codec\<close> (a
  self-delimiting byte encoding) with its extension \<open>ordered_codec\<close>, and
  \<open>transition_system\<close> (an invariant kept by every operation of a component).
\<close>

section \<open>Types of the C++ program\<close>

type_synonym byte = "8 word"
type_synonym bytes = "byte list"
type_synonym uint16 = "16 word"
type_synonym uint32 = "32 word"
type_synonym uint64 = "64 word"

text \<open>
  \<open>tensorflow::error::Code\<close>, the codes that the modelled functions return. The
  message text of a \<open>Status\<close> is not modelled, only its code.
\<close>

datatype error_code =
    CANCELLED | UNKNOWN | INVALID_ARGUMENT | NOT_FOUND | ALREADY_EXISTS
  | RESOURCE_EXHAUSTED | FAILED_PRECONDITION | ABORTED | OUT_OF_RANGE
  | UNIMPLEMENTED | INTERNAL | DATA_LOSS

type_synonym 'a status_or = "error_code + 'a"

abbreviation Err :: "error_code \<Rightarrow> 'a status_or" where "Err \<equiv> Inl"
abbreviation Ok :: "'a \<Rightarrow> 'a status_or" where "Ok \<equiv> Inr"

fun is_ok :: "'a status_or \<Rightarrow> bool" where
  "is_ok (Inl _) = False"
| "is_ok (Inr _) = True"

text \<open>C++ integer division and remainder truncate towards zero.\<close>

definition cdiv :: "int \<Rightarrow> int \<Rightarrow> int" where
  "cdiv a b = sgn a * sgn b * (\<bar>a\<bar> div \<bar>b\<bar>)"

definition cmod :: "int \<Rightarrow> int \<Rightarrow> int" where
  "cmod a b = a - cdiv a b * b"

text \<open>
  The result of an addition, subtraction or multiplication on \<open>int64\<close>: two's complement wrap-around
  of the exact integer. The standard leaves signed overflow undefined; this is what the machine
  instructions of the supported platforms compute.
\<close>

definition int64_wrap :: "int \<Rightarrow> int" where
  "int64_wrap x = (x + 2 ^ 63) mod 2 ^ 64 - 2 ^ 63"

named_theorems codec_simps \<open>round-trip equations of the byte encodings\<close>
named_theorems inv_intros \<open>preservation of component invariants\<close>

section \<open>Words and bytes\<close>

lemma of_nat_split7:
  "(of_nat n :: 'a::len word) = of_nat (n mod 128) OR push_bit 7 (of_nat (n div 128))"
proof -
  have "n = take_bit 7 n OR push_bit 7 (drop_bit 7 n)"
    by (rule bit_eqI) (auto simp: bit_simps, metis not_less le_add_diff_inverse)
  then have "n = (n mod 128) OR push_bit 7 (n div 128)"
    by (simp add: take_bit_eq_mod drop_bit_eq_div)
  then have "(of_nat n :: 'a word) = of_nat ((n mod 128) OR push_bit 7 (n div 128))"
    by simp
  then show ?thesis
    by (simp only: of_nat_or_eq of_nat_push_bit)
qed

lemma sint_uint64: "sint w = (if uint w < 2 ^ 63 then uint w else uint w - 2 ^ 64)" for w :: uint64
proof -
  have b: "uint w < 2 ^ 64" "0 \<le> uint w" using uint_bounded [of w] by simp_all
  have "bit (uint w) 63 \<longleftrightarrow> \<not> uint w < 2 ^ 63"
  proof -
    have "uint w div 2 ^ 63 = (if uint w < 2 ^ 63 then 0 else 1)"
      using b by (auto simp: div_pos_pos_trivial intro!: int_div_pos_eq [of _ _ 1 "uint w - 2 ^ 63"])
    then show ?thesis by (simp add: bit_iff_odd)
  qed
  moreover have "take_bit 64 (uint w) = uint w" using b by (simp add: take_bit_int_eq_self)
  ultimately show ?thesis by (auto simp: sint_uint signed_take_bit_eq_take_bit_minus)
qed

lemma int64_wrap_id: "- (2 ^ 63) \<le> x \<Longrightarrow> x < 2 ^ 63 \<Longrightarrow> int64_wrap x = x"
  by (simp add: int64_wrap_def)

lemma int64_wrap_1 [simp]: "int64_wrap 1 = 1"
  by (simp add: int64_wrap_def)

lemma int64_wrap_over: "2 ^ 63 \<le> x \<Longrightarrow> x < 2 ^ 64 + 2 ^ 63 \<Longrightarrow> int64_wrap x = x - 2 ^ 64"
  using mod_add_self2 [of "x - 2 ^ 63" "2 ^ 64 :: int"] by (simp add: int64_wrap_def algebra_simps)

lemma int64_wrap_under: "- (2 ^ 64) - 2 ^ 63 \<le> x \<Longrightarrow> x < - (2 ^ 63) \<Longrightarrow> int64_wrap x = x + 2 ^ 64"
  using mod_add_self2 [of "x + 2 ^ 63" "2 ^ 64 :: int"] by (simp add: int64_wrap_def)

lemma int64_wrap_add: "int64_wrap (int64_wrap x + y) = int64_wrap (x + y)"
  by (simp add: int64_wrap_def mod_simps algebra_simps)

lemma int64_wrap_range: "- (2 ^ 63) \<le> int64_wrap x \<and> int64_wrap x < 2 ^ 63"
  by (simp add: int64_wrap_def)

lemma nth_list_update_if:
  "xs[i := v] ! k = (if i = k \<and> i < length xs then v else xs ! k)"
proof (induction xs arbitrary: i k)
  case (Cons x xs)
  then show ?case by (cases i; cases k) auto
qed simp

section \<open>Lexicographic comparison of byte strings\<close>

text \<open>
  \<open>StringPiece::compare\<close>, i.e. \<open>memcmp\<close> on the common prefix and then the shorter
  string first; the bytes compare as unsigned characters.
\<close>

fun compare :: "bytes \<Rightarrow> bytes \<Rightarrow> int" where
  "compare [] [] = 0"
| "compare [] (_ # _) = -1"
| "compare (_ # _) [] = 1"
| "compare (x # xs) (y # ys) =
     (if x < y then -1 else if y < x then 1 else compare xs ys)"

abbreviation bless :: "bytes \<Rightarrow> bytes \<Rightarrow> bool" where
  "bless xs ys \<equiv> compare xs ys < 0"

lemma compare_refl [simp]: "compare xs xs = 0"
  by (induction xs) auto

lemma compare_append_same [simp]: "compare (zs @ xs) (zs @ ys) = compare xs ys"
  by (induction zs) auto

lemma compare_zero_iff: "compare xs ys = 0 \<longleftrightarrow> xs = ys"
  by (induction xs ys rule: compare.induct) auto

lemma compare_antisym: "compare ys xs = - compare xs ys"
  by (induction xs ys rule: compare.induct) auto

lemma bless_trans: "bless xs ys \<Longrightarrow> bless ys zs \<Longrightarrow> bless xs zs"
proof (induction xs ys arbitrary: zs rule: compare.induct)
  case (2 y ys)
  then show ?case by (cases zs) auto
next
  case (4 x xs y ys)
  then show ?case by (cases zs) (auto split: if_splits)
qed auto

lemma bless_asym: "bless xs ys \<Longrightarrow> \<not> bless ys xs"
  using compare_antisym [of ys xs] by simp

lemma not_bless_cases: "\<not> bless ys xs \<Longrightarrow> xs = ys \<or> bless xs ys"
  using compare_antisym [of ys xs] compare_zero_iff [of xs ys] by linarith

lemma bless_le_trans: "\<not> bless ys xs \<Longrightarrow> bless ys zs \<Longrightarrow> bless xs zs"
  using not_bless_cases bless_trans by blast

lemma bless_less_le: "bless ys zs \<Longrightarrow> \<not> bless ys xs \<Longrightarrow> \<not> bless zs xs"
  using bless_trans by blast

text \<open>
  Two strings that first differ at a byte compare by that byte, whatever follows.
\<close>

lemma bless_diff: "x < y \<Longrightarrow> bless (zs @ x # xs) (zs @ y # ys)"
  by simp

section \<open>Self-delimiting encodings\<close>

text \<open>
  The contract between a writer \<open>put\<close>, which appends the encoding of a value, and a
  reader \<open>get\<close>, which consumes it from the front of the input: whatever follows the
  encoding is left in the input. From this law alone follow injectivity, unique parsing
  of a concatenation and the round trip of sequences and pairs.
\<close>

fun get_many :: "(bytes \<Rightarrow> ('a \<times> bytes) option) \<Rightarrow> nat \<Rightarrow> bytes \<Rightarrow> ('a list \<times> bytes) option" where
  "get_many get 0 src = Some ([], src)"
| "get_many get (Suc n) src =
     (case get src of
        None \<Rightarrow> None
      | Some (x, src') \<Rightarrow> map_option (\<lambda>(xs, r). (x # xs, r)) (get_many get n src'))"

definition put_pair :: "('a \<Rightarrow> bytes) \<Rightarrow> ('b \<Rightarrow> bytes) \<Rightarrow> 'a \<times> 'b \<Rightarrow> bytes" where
  "put_pair put1 put2 p = put1 (fst p) @ put2 (snd p)"

definition get_pair ::
  "(bytes \<Rightarrow> ('a \<times> bytes) option) \<Rightarrow> (bytes \<Rightarrow> ('b \<times> bytes) option) \<Rightarrow>
   bytes \<Rightarrow> (('a \<times> 'b) \<times> bytes) option" where
  "get_pair get1 get2 src =
     (case get1 src of
        None \<Rightarrow> None
      | Some (x, src') \<Rightarrow> map_option (\<lambda>(y, r). ((x, y), r)) (get2 src'))"

locale codec =
  fixes put :: "'a \<Rightarrow> bytes"
    and get :: "bytes \<Rightarrow> ('a \<times> bytes) option"
    and valid :: "'a \<Rightarrow> bool"
  assumes get_put: "valid x \<Longrightarrow> get (put x @ rest) = Some (x, rest)"
begin

lemma get_put_exact: "valid x \<Longrightarrow> get (put x) = Some (x, [])"
  using get_put [of x "[]"] by simp

lemma unique_parse:
  assumes "valid x" "valid y" "put x @ r = put y @ s"
  shows "x = y \<and> r = s"
proof -
  have "get (put y @ s) = Some (x, r)"
    using get_put [OF assms(1), of r] by (simp only: assms(3))
  with get_put [OF assms(2), of s] show ?thesis by simp
qed

lemma put_inject: "valid x \<Longrightarrow> valid y \<Longrightarrow> put x = put y \<longleftrightarrow> x = y"
  using unique_parse [of x y "[]" "[]"] by auto

lemma put_prefix_free: "valid x \<Longrightarrow> valid y \<Longrightarrow> prefix (put x) (put y) \<Longrightarrow> x = y"
  using unique_parse [of x y _ "[]"] by (auto simp: prefix_def)

lemma get_many_put:
  "list_all valid xs \<Longrightarrow> get_many get (length xs) (concat (map put xs) @ rest) = Some (xs, rest)"
  by (induction xs) (simp_all add: get_put)

end

lemma codec_pair:
  assumes "codec put1 get1 valid1" and "codec put2 get2 valid2"
  shows "codec (put_pair put1 put2) (get_pair get1 get2) (\<lambda>p. valid1 (fst p) \<and> valid2 (snd p))"
proof
  fix p rest
  assume "valid1 (fst p) \<and> valid2 (snd p)"
  then show "get_pair get1 get2 (put_pair put1 put2 p @ rest) = Some (p, rest)"
    using codec.get_put [OF assms(1)] codec.get_put [OF assms(2)]
    by (simp add: get_pair_def put_pair_def)
qed

text \<open>
  An ordered encoding also preserves the order of the values: the encodings differ at a
  byte that decides their order, so that whatever is appended cannot change it.
\<close>

locale ordered_codec = codec +
  fixes lt :: "'a \<Rightarrow> 'a \<Rightarrow> bool"
  assumes put_mono: "valid x \<Longrightarrow> valid y \<Longrightarrow> lt x y \<Longrightarrow> bless (put x @ r) (put y @ s)"
    and lt_total: "valid x \<Longrightarrow> valid y \<Longrightarrow> x \<noteq> y \<Longrightarrow> lt x y \<or> lt y x"
    and lt_asym: "lt x y \<Longrightarrow> \<not> lt y x"
begin

lemma bless_put_iff:
  assumes "valid x" "valid y"
  shows "bless (put x) (put y) \<longleftrightarrow> lt x y"
proof
  assume "lt x y"
  then show "bless (put x) (put y)" using put_mono [OF assms, of "[]" "[]"] by simp
next
  assume b: "bless (put x) (put y)"
  show "lt x y"
  proof (rule ccontr)
    assume "\<not> lt x y"
    with lt_total [OF assms] have "x = y \<or> lt y x" by blast
    with put_mono [OF assms(2,1), of "[]" "[]"] b compare_antisym [of "put x" "put y"]
    show False by auto
  qed
qed

text \<open>Sequences of the same length compare as the vectors of their items.\<close>

lemma bless_concat_iff:
  assumes "length xs = length ys" "list_all valid xs" "list_all valid ys"
  shows "bless (concat (map put xs)) (concat (map put ys)) \<longleftrightarrow>
    (\<exists>i < length xs. take i xs = take i ys \<and> lt (xs ! i) (ys ! i))"
  using assms
proof (induction xs ys rule: list_induct2)
  case Nil
  then show ?case by simp
next
  case (Cons x xs y ys)
  then have v: "valid x" "valid y" by simp_all
  let ?c = "\<lambda>xs. concat (map put xs)"
  have split: "(\<exists>i < length (x # xs). take i (x # xs) = take i (y # ys) \<and> lt ((x # xs) ! i) ((y # ys) ! i))
    \<longleftrightarrow> lt x y \<or> x = y \<and> (\<exists>i < length xs. take i xs = take i ys \<and> lt (xs ! i) (ys ! i))"
    by (auto simp: less_Suc_eq_0_disj)
  consider "x = y" | "lt x y" | "lt y x" using lt_total [OF v] by blast
  then show ?case
  proof cases
    case 1
    moreover have "\<not> lt y y" using lt_asym by blast
    ultimately show ?thesis using Cons unfolding split by simp
  next
    case 2
    then show ?thesis using put_mono [OF v 2] unfolding split by simp
  next
    case 3
    then show ?thesis
      using put_mono [OF v(2,1) 3, of "?c ys" "?c xs"] compare_antisym [of "?c (x # xs)" "?c (y # ys)"]
        lt_asym [OF 3] lt_asym [of x x]
      unfolding split by auto
  qed
qed

end

definition lex_pair :: "('a \<Rightarrow> 'a \<Rightarrow> bool) \<Rightarrow> ('b \<Rightarrow> 'b \<Rightarrow> bool) \<Rightarrow> 'a \<times> 'b \<Rightarrow> 'a \<times> 'b \<Rightarrow> bool" where
  "lex_pair lt1 lt2 p q \<longleftrightarrow> lt1 (fst p) (fst q) \<or> fst p = fst q \<and> lt2 (snd p) (snd q)"

lemma ordered_codec_pair:
  assumes "ordered_codec put1 get1 valid1 lt1" and "ordered_codec put2 get2 valid2 lt2"
  shows "ordered_codec (put_pair put1 put2) (get_pair get1 get2)
    (\<lambda>p. valid1 (fst p) \<and> valid2 (snd p)) (lex_pair lt1 lt2)"
proof -
  note c1 = ordered_codec.axioms(1) [OF assms(1)] and c2 = ordered_codec.axioms(1) [OF assms(2)]
  note m1 = ordered_codec.put_mono [OF assms(1)] and m2 = ordered_codec.put_mono [OF assms(2)]
  note t1 = ordered_codec.lt_total [OF assms(1)] and t2 = ordered_codec.lt_total [OF assms(2)]
  note a1 = ordered_codec.lt_asym [OF assms(1)] and a2 = ordered_codec.lt_asym [OF assms(2)]
  have i1: "\<not> lt1 a a" for a using a1 by blast
  show ?thesis
    by (intro ordered_codec.intro codec_pair [OF c1 c2] ordered_codec_axioms.intro)
      (auto simp: put_pair_def lex_pair_def prod_eq_iff i1 dest: a1 a2 t1 t2 intro: m1 m2)
qed

section \<open>Transition systems\<close>

text \<open>
  A component's state together with its operations as one step relation: an invariant
  that holds initially and is kept by every step holds in every reachable state.
\<close>

locale transition_system =
  fixes start :: "'s \<Rightarrow> bool"
    and step :: "'s \<Rightarrow> 's \<Rightarrow> bool"
    and inv :: "'s \<Rightarrow> bool"
  assumes inv_start: "start s \<Longrightarrow> inv s"
    and inv_step: "inv s \<Longrightarrow> step s t \<Longrightarrow> inv t"
begin

lemma inv_steps: "inv s \<Longrightarrow> step\<^sup>*\<^sup>* s t \<Longrightarrow> inv t"
  by (rotate_tac, induction rule: rtranclp_induct) (auto intro: inv_step)

lemma inv_reachable: "start s \<Longrightarrow> step\<^sup>*\<^sup>* s t \<Longrightarrow> inv t"
  by (blast intro: inv_start inv_steps)

end

end
