(* ===== verification/OrderedCode.thy ===== *)
theory OrderedCode
  imports Tf_Prelude
begin

text \<open>
  The order-preserving encodings of \<^verbatim>\<open>core/lib/strings/ordered_code.cc\<close> for strings and
  unsigned numbers. A pointer range \<open>[start, limit)\<close> is the list of its bytes; a reader
  returns the decoded value and the unread input, or \<open>None\<close> where the C++ returns false.
  The contract is the locale \<open>ordered_codec\<close>: encodings parse back, and comparing two
  encoded strings as bytes compares the encoded values, whatever follows them.
\<close>

section \<open>Model\<close>

abbreviation (input) kEscape1 :: byte where "kEscape1 \<equiv> 0"
abbreviation (input) kNullCharacter :: byte where "kNullCharacter \<equiv> 255"
abbreviation (input) kSeparator :: byte where "kSeparator \<equiv> 1"
abbreviation (input) kEscape2 :: byte where "kEscape2 \<equiv> 255"
abbreviation (input) kFFCharacter :: byte where "kFFCharacter \<equiv> 0"

definition IsSpecialByte :: "byte \<Rightarrow> bool" where
  "IsSpecialByte c \<longleftrightarrow> c + 1 < 2"

text \<open>The bytes before the first special byte, and the bytes from it on.\<close>

definition SkipToNextSpecialByte :: "bytes \<Rightarrow> bytes \<times> bytes" where
  "SkipToNextSpecialByte s = (takeWhile (\<lambda>c. \<not> IsSpecialByte c) s, dropWhile (\<lambda>c. \<not> IsSpecialByte c) s)"

function EncodeStringFragment :: "bytes \<Rightarrow> bytes" where
  "EncodeStringFragment s =
     (let (copy, rest) = SkipToNextSpecialByte s in
      case rest of
        [] \<Rightarrow> copy
      | c # rest \<Rightarrow>
          if c = kEscape1 then copy @ [kEscape1, kNullCharacter] @ EncodeStringFragment rest
          else copy @ [kEscape2, kFFCharacter] @ EncodeStringFragment rest)"
  by auto
termination
proof (relation "measure length")
  fix s p copy rest c rest'
  assume a: "p = SkipToNextSpecialByte s" "(copy, rest) = p" "rest = c # rest'"
  then have "c # rest' = dropWhile (\<lambda>c. \<not> IsSpecialByte c) s" by (simp add: SkipToNextSpecialByte_def)
  then have "length (c # rest') \<le> length s" using length_dropWhile_le [of "\<lambda>c. \<not> IsSpecialByte c" s] by simp
  then show "(rest', s) \<in> measure length" "(rest', s) \<in> measure length" by simp_all
qed simp

declare EncodeStringFragment.simps [simp del]

definition WriteString :: "bytes \<Rightarrow> bytes" where
  "WriteString s = EncodeStringFragment s @ [kEscape1, kSeparator]"

text \<open>
  The scan leaves out the last byte, so that the byte after an escape can always be read.
\<close>

function ReadStringInternal :: "bytes \<Rightarrow> bytes \<Rightarrow> (bytes \<times> bytes) option" where
  "ReadStringInternal src result =
     (let p = length (fst (SkipToNextSpecialByte (butlast src))) in
      if p \<ge> length src - 1 then None
      else
        let c = src ! p; nxt = src ! (p + 1); result = result @ take p src; rest = drop (p + 2) src in
        if c = kEscape1 then
          if nxt = kSeparator then Some (result, rest)
          else if nxt = kNullCharacter then ReadStringInternal rest (result @ [0])
          else None
        else
          if nxt = kFFCharacter then ReadStringInternal rest (result @ [255])
          else None)"
  by auto
termination
  by (relation "measure (\<lambda>(src, result). length src)") auto

declare ReadStringInternal.simps [simp del]

definition ReadString :: "bytes \<Rightarrow> (bytes \<times> bytes) option" where
  "ReadString src = ReadStringInternal src []"

text \<open>The loop of \<open>WriteNumIncreasing\<close> fills its buffer from the end.\<close>

function WriteNum_loop :: "uint64 \<Rightarrow> bytes \<Rightarrow> bytes" where
  "WriteNum_loop val buf =
     (if val > 0 then WriteNum_loop (drop_bit 8 val) (ucast (val AND 0xff) # buf) else buf)"
  by auto
termination
proof (relation "measure (\<lambda>(val, buf). unat val)")
  fix val :: uint64 and buf :: bytes
  assume "0 < val"
  then have "0 < unat val" by (simp add: unat_gt_0 word_gt_0)
  then show "((drop_bit 8 val, ucast (val AND 0xff) # buf), (val, buf)) \<in> measure (\<lambda>(val, buf). unat val)"
    by (simp only: in_measure prod.case) (subst unat_drop_bit_eq, simp add: drop_bit_eq_div)
qed simp

declare WriteNum_loop.simps [simp del]

definition WriteNumIncreasing :: "uint64 \<Rightarrow> bytes" where
  "WriteNumIncreasing val = (let buf = WriteNum_loop val [] in of_nat (length buf) # buf)"

definition ReadNumIncreasing :: "bytes \<Rightarrow> (uint64 \<times> bytes) option" where
  "ReadNumIncreasing src =
     (case src of
        [] \<Rightarrow> None
      | b # payload \<Rightarrow>
          let len = unat b in
          if len > length payload \<or> len > 8 then None
          else Some (foldl (\<lambda>tmp c. push_bit 8 tmp OR ucast c) 0 (take len payload), drop len payload))"

section \<open>Strings\<close>

lemma byte_less: "unat (b :: byte) < 256"
  using unsigned_less [of b, where 'a = nat] by simp

text \<open>The encoding byte by byte.\<close>

definition escape :: "byte \<Rightarrow> bytes" where
  "escape c = (if c = 0 then [0, 255] else if c = 255 then [255, 0] else [c])"

lemma IsSpecialByte_iff: "IsSpecialByte c \<longleftrightarrow> c = 0 \<or> c = 255"
proof -
  have small: "x < 2 \<longleftrightarrow> x = 0 \<or> x = 1" for x :: byte
  proof
    assume "x < 2"
    then have "unat x = 0 \<or> unat x = 1" by (auto simp: word_less_nat_alt)
    then show "x = 0 \<or> x = 1" using word_unat_eq_iff [of x 0] word_unat_eq_iff [of x 1] by auto
  qed auto
  have "c + 1 = 0 \<longleftrightarrow> c = 255" for c :: byte
  proof -
    have "(255::byte) + 1 = 0" by simp
    then show ?thesis by (metis add_right_cancel)
  qed
  then show ?thesis unfolding IsSpecialByte_def small by auto
qed

lemma concat_escape_plain: "\<forall>c \<in> set s. \<not> IsSpecialByte c \<Longrightarrow> concat (map escape s) = s"
  by (induction s) (auto simp: escape_def IsSpecialByte_iff)

lemma EncodeStringFragment_escape: "EncodeStringFragment s = concat (map escape s)"
proof (induction s rule: EncodeStringFragment.induct)
  case (1 s)
  let ?P = "\<lambda>c. \<not> IsSpecialByte c"
  have split: "concat (map escape s) = takeWhile ?P s @ concat (map escape (dropWhile ?P s))"
  proof -
    have "concat (map escape (takeWhile ?P s)) = takeWhile ?P s" by (rule concat_escape_plain) (auto dest: set_takeWhileD)
    moreover have "concat (map escape s) = concat (map escape (takeWhile ?P s @ dropWhile ?P s))" by simp
    ultimately show ?thesis by (simp only: map_append concat_append)
  qed
  show ?case
  proof (cases "dropWhile ?P s")
    case Nil
    then show ?thesis unfolding split EncodeStringFragment.simps [of s] SkipToNextSpecialByte_def Let_def
      by (simp only: prod.case list.case concat.simps list.map append_Nil2)
  next
    case (Cons c rest)
    then have "IsSpecialByte c" using hd_dropWhile [of ?P s] by simp
    moreover have "EncodeStringFragment rest = concat (map escape rest)"
      using 1 [OF refl _ Cons, of "takeWhile ?P s"] by (cases "c = 0") (simp_all add: SkipToNextSpecialByte_def)
    ultimately show ?thesis
      unfolding split EncodeStringFragment.simps [of s] SkipToNextSpecialByte_def Let_def Cons prod.case list.case
      by (auto simp: escape_def IsSpecialByte_iff)
  qed
qed

lemma WriteString_simps:
  "WriteString [] = [0, 1]" "WriteString (c # s) = escape c @ WriteString s"
  by (simp_all add: WriteString_def EncodeStringFragment_escape)

text \<open>Reading consumes one encoded byte after the other.\<close>

lemma ReadStringInternal_plain:
  assumes "\<not> IsSpecialByte c" "src \<noteq> []"
  shows "ReadStringInternal (c # src) result = ReadStringInternal src (result @ [c])"
  using assms by (subst (1 2) ReadStringInternal.simps) (auto simp: SkipToNextSpecialByte_def Let_def nth_Cons split: nat.splits)

lemma ReadStringInternal_special:
  "ReadStringInternal (0 # 255 # src) result = ReadStringInternal src (result @ [0])"
  "ReadStringInternal (255 # 0 # src) result = ReadStringInternal src (result @ [255])"
  "ReadStringInternal (0 # 1 # src) result = Some (result, src)"
  by (subst ReadStringInternal.simps, simp add: SkipToNextSpecialByte_def IsSpecialByte_iff)+

lemma ReadStringInternal_Write: "ReadStringInternal (WriteString s @ rest) result = Some (result @ s, rest)"
proof (induction s arbitrary: result)
  case Nil
  then show ?case by (simp add: WriteString_simps ReadStringInternal_special)
next
  case (Cons c s)
  have "WriteString s @ rest \<noteq> []" by (simp add: WriteString_def)
  then show ?case
    using Cons by (auto simp: WriteString_simps escape_def ReadStringInternal_special ReadStringInternal_plain IsSpecialByte_iff)
qed

lemma WriteString_mono: "bless x y \<Longrightarrow> bless (WriteString x @ r) (WriteString y @ s)"
proof (induction x y rule: compare.induct)
  case (2 c y)
  have "c \<noteq> 0 \<Longrightarrow> 0 < c" by (simp add: word_gt_0)
  then show ?case by (auto simp: WriteString_simps escape_def)
next
  case (4 c x d y)
  show ?case
  proof (cases "c = d")
    case True
    then show ?thesis using 4 by (simp add: WriteString_simps)
  next
    case False
    then have "c < d" using 4(2) by (auto split: if_splits)
    moreover have "d \<le> 255" using byte_less [of d] by (simp add: word_le_nat_alt)
    moreover have "c \<noteq> 0 \<Longrightarrow> 0 < c" by (simp add: word_gt_0)
    ultimately show ?thesis by (auto simp: WriteString_simps escape_def dest: leD)
  qed
qed (auto simp: compare.simps)

interpretation ordered_string: ordered_codec WriteString ReadString "\<lambda>_. True" bless
proof
  show "ReadString (WriteString s @ rest) = Some (s, rest)" for s rest
    by (simp add: ReadString_def ReadStringInternal_Write)
  show "bless (WriteString x @ r) (WriteString y @ s)" if "bless x y" for x y r s using that by (rule WriteString_mono)
  show "bless x y \<or> bless y x" if "x \<noteq> y" for x y
    using that compare_zero_iff [of x y] compare_antisym [of x y] by linarith
  show "\<not> bless y x" if "bless x y" for x y using that compare_antisym [of x y] by simp
qed

section \<open>Unsigned numbers\<close>

text \<open>The value of a big-endian byte string.\<close>

definition be_value :: "bytes \<Rightarrow> nat" where
  "be_value bs = foldl (\<lambda>a b. a * 256 + unat b) 0 bs"

lemma be_value_snoc: "be_value (bs @ [b]) = be_value bs * 256 + unat b"
  by (simp add: be_value_def)

lemma foldl_be: "foldl (\<lambda>a b. a * 256 + unat b) a bs = a * 256 ^ length bs + be_value bs" for bs :: bytes
proof (induction bs rule: rev_induct)
  case (snoc b bs)
  then show ?case by (simp add: be_value_def algebra_simps)
qed (simp add: be_value_def)

lemma be_value_Cons: "be_value (b # bs) = unat b * 256 ^ length bs + be_value bs"
  using foldl_be [of "unat b" bs] by (simp add: be_value_def)

lemma be_value_less: "be_value bs < 256 ^ length bs"
proof (induction bs rule: rev_induct)
  case (snoc b bs)
  then show ?case using byte_less [of b] by (simp add: be_value_snoc)
qed (simp add: be_value_def)

text \<open>Big-endian strings of the same length compare like their values.\<close>

lemma be_value_mono:
  assumes "length xs = length ys" "be_value xs < be_value ys"
  shows "bless (xs @ r) (ys @ s)"
  using assms
proof (induction xs ys rule: list_induct2)
  case (Cons x xs y ys)
  consider "x < y" | "x = y" | "y < x" by (rule linorder_cases)
  then show ?case
  proof cases
    case 2
    then show ?thesis using Cons by (simp add: be_value_Cons)
  next
    case 3
    then have "unat y + 1 \<le> unat x" by (simp add: word_less_nat_alt)
    then have "(unat y + 1) * 256 ^ length xs \<le> unat x * 256 ^ length xs" by (rule mult_le_mono1)
    then have "be_value (y # ys) < be_value (x # xs)"
      using be_value_less [of ys] Cons.hyps by (simp add: be_value_Cons)
    then show ?thesis using Cons.prems by simp
  qed simp
qed (simp add: be_value_def)

text \<open>The buffer that the loop fills: the big-endian digits of the value, without leading zeros.\<close>

function be_digits :: "nat \<Rightarrow> bytes" where
  "be_digits n = (if n = 0 then [] else be_digits (n div 256) @ [of_nat (n mod 256)])"
  by auto
termination by (relation "measure id") auto

declare be_digits.simps [simp del]

lemma be_digits_value: "be_value (be_digits n) = n"
proof (induction n rule: be_digits.induct)
  case (1 n)
  then show ?case by (subst be_digits.simps) (simp add: be_value_snoc be_value_def unat_of_nat)
qed

lemma be_digits_length_mono: "m \<le> n \<Longrightarrow> length (be_digits m) \<le> length (be_digits n)"
proof (induction n arbitrary: m rule: be_digits.induct)
  case (1 n)
  show ?case
  proof (cases "m = 0")
    case False
    then show ?thesis using 1 div_le_mono [OF 1(2), of 256] by (subst (1 2) be_digits.simps) auto
  qed (simp add: be_digits.simps [of 0])
qed

lemma be_digits_length: "n < 256 ^ k \<Longrightarrow> length (be_digits n) \<le> k"
proof (induction k arbitrary: n)
  case (Suc k)
  then show ?case by (subst be_digits.simps) (auto simp: less_mult_imp_div_less mult.commute)
qed (simp add: be_digits.simps)

lemma WriteNum_loop_digits: "WriteNum_loop val buf = be_digits (unat val) @ buf"
proof (induction val buf rule: WriteNum_loop.induct)
  case (1 val buf)
  have d: "unat (drop_bit 8 val) = unat val div 256" by (subst unat_drop_bit_eq) (simp add: drop_bit_eq_div)
  have b: "ucast (val AND 0xff) = (of_nat (unat val mod 256) :: byte)"
  proof -
    have "val AND 0xff = take_bit 8 val" by (simp add: take_bit_eq_mask mask_eq_exp_minus_1)
    moreover have "unat val mod 256 = take_bit 8 (unat val)" by (simp add: take_bit_eq_mod)
    ultimately show ?thesis by (auto simp: bit_simps intro!: bit_word_eqI)
  qed
  show ?case
  proof (cases "val > 0")
    case True
    then have "unat val \<noteq> 0" by (auto simp: unat_eq_zero word_gt_0)
    then show ?thesis using 1 True d b by (subst WriteNum_loop.simps, subst be_digits.simps) simp
  next
    case False
    then show ?thesis by (subst WriteNum_loop.simps, subst be_digits.simps) (simp add: word_gt_0)
  qed
qed

lemma read_be: "foldl (\<lambda>tmp c. push_bit 8 tmp OR ucast c) 0 bs = (of_nat (be_value bs) :: uint64)" for bs :: bytes
proof (induction bs rule: rev_induct)
  case (snoc b bs)
  have "(push_bit 8 v OR ucast b :: uint64) = v * 256 + ucast b" for v
  proof -
    have "push_bit 8 v AND ucast b = 0" by (rule bit_word_eqI) (auto simp: bit_simps dest: bit_imp_le_length)
    then show ?thesis by (simp add: disjunctive_add_eq_or [symmetric] push_bit_eq_mult mult.commute)
  qed
  then show ?case using snoc by (simp add: be_value_snoc)
qed (simp add: be_value_def)

lemma WriteNum_digits:
  "WriteNumIncreasing val = of_nat (length (be_digits (unat val))) # be_digits (unat val)"
  "length (be_digits (unat val)) \<le> 8"
proof -
  show "WriteNumIncreasing val = of_nat (length (be_digits (unat val))) # be_digits (unat val)"
    by (simp add: WriteNumIncreasing_def WriteNum_loop_digits Let_def)
  show "length (be_digits (unat val)) \<le> 8"
    using unsigned_less [of val, where 'a = nat] by (intro be_digits_length) simp
qed

interpretation ordered_num: ordered_codec WriteNumIncreasing ReadNumIncreasing "\<lambda>_. True" "(<)"
proof
  fix x y :: uint64 and r s
  let ?d = "\<lambda>v :: uint64. be_digits (unat v)"
  have len: "unat (of_nat (length (?d v)) :: byte) = length (?d v)" for v
    using WriteNum_digits(2) [of v] by (simp add: unat_of_nat)
  show "ReadNumIncreasing (WriteNumIncreasing x @ r) = Some (x, r)"
    using WriteNum_digits [of x] by (simp add: ReadNumIncreasing_def len read_be be_digits_value)
  assume xy: "x < y"
  have le: "length (?d x) \<le> length (?d y)" using xy by (intro be_digits_length_mono) (simp add: word_less_nat_alt)
  show "bless (WriteNumIncreasing x @ r) (WriteNumIncreasing y @ s)"
  proof (cases "length (?d x) = length (?d y)")
    case True
    moreover have "be_value (?d x) < be_value (?d y)" using xy by (simp add: be_digits_value word_less_nat_alt)
    ultimately show ?thesis using be_value_mono [of "?d x" "?d y" r s] by (simp add: WriteNum_digits(1))
  next
    case False
    then have "(of_nat (length (?d x)) :: byte) < of_nat (length (?d y))" using le len by (simp add: word_less_nat_alt)
    then show ?thesis by (simp add: WriteNum_digits(1))
  qed
qed auto

section \<open>Properties\<close>

text \<open>
  C32. Strings are encoded in an order-preserving and self-delimiting way: reading back what
  \<open>WriteString\<close> appended returns the string and leaves the rest of the input, and two
  encodings compare, whatever follows them, exactly like the strings.
\<close>

theorem WriteString_ordered:
  "ReadString (WriteString x @ r) = Some (x, r) \<and>
   (x \<noteq> y \<longrightarrow> (compare (WriteString x @ r) (WriteString y @ s) < 0 \<longleftrightarrow> compare x y < 0))"
proof -
  have "bless (WriteString x @ r) (WriteString y @ s) \<longleftrightarrow> bless x y" if "x \<noteq> y"
    using that ordered_string.lt_total [of x y] WriteString_mono [of x y r s] WriteString_mono [of y x s r]
      compare_antisym [of "WriteString x @ r" "WriteString y @ s"] compare_antisym [of x y] by auto
  then show ?thesis using ordered_string.get_put by blast
qed

theorem WriteString_ordered_witness:
  "ReadString (WriteString [7, 0, 255] @ [9]) = Some ([7, 0, 255], [9]) \<and>
   compare (WriteString [7] @ [255]) (WriteString [7, 0] @ []) < 0"
  using WriteString_ordered [of "[7, 0, 255]" "[9]" "[]" "[]"] WriteString_ordered [of "[7]" "[255]" "[7, 0]" "[]"] by simp

text \<open>
  Unsigned numbers: reading back returns the number and leaves the rest of the input,
  the encodings compare like the numbers, and they are one byte longer than the number's
  base-256 digits, hence between one and nine bytes.
\<close>

theorem WriteNumIncreasing_ordered:
  "ReadNumIncreasing (WriteNumIncreasing x @ r) = Some (x, r) \<and>
   (compare (WriteNumIncreasing x) (WriteNumIncreasing y) < 0 \<longleftrightarrow> x < y) \<and>
   length (WriteNumIncreasing x) \<in> {1..9} \<and> unat x < 256 ^ (length (WriteNumIncreasing x) - 1)"
proof -
  have "unat x < 256 ^ length (be_digits (unat x))" using be_value_less [of "be_digits (unat x)"] by (simp add: be_digits_value)
  then show ?thesis
    using ordered_num.get_put [of x r] ordered_num.bless_put_iff [of x y] WriteNum_digits [of x] by auto
qed

text \<open>
  C33. A key made of a string and then a number, the way several components build their
  keys, sorts by the string first and by the number next: the concatenation of ordered
  encodings compares lexicographically.
\<close>

theorem ordered_key_lexicographic:
  "compare (WriteString s @ WriteNumIncreasing m) (WriteString t @ WriteNumIncreasing n) < 0 \<longleftrightarrow>
   compare s t < 0 \<or> s = t \<and> m < n"
proof -
  have oc: "ordered_codec (put_pair WriteString WriteNumIncreasing) (get_pair ReadString ReadNumIncreasing)
      (\<lambda>p. True \<and> True) (lex_pair bless (<))"
    by (rule ordered_codec_pair) unfold_locales
  show ?thesis
    using ordered_codec.bless_put_iff [OF oc, of "(s, m)" "(t, n)"] by (simp add: put_pair_def lex_pair_def)
qed

end
