(* ===== verification/TensorShape.thy ===== *)
theory TensorShape
  imports Tf_Prelude "HOL-Library.Monad_Syntax"
begin

text \<open>
  \<open>TensorShape\<close> and \<open>PartialTensorShape\<close> of \<^verbatim>\<open>core/framework/tensor_shape.cc\<close>, with
  \<open>MultiplyWithoutOverflow\<close> of \<^verbatim>\<open>core/util/overflow.h\<close>. The template parameter
  \<open>kIsPartial\<close> is the argument \<open>partial\<close>. A shape packs its sizes into 16-bit cells, 32-bit
  cells or a vector of 64-bit integers; the arrays of the model hold the cells in use, so
  that writing cell \<open>nd\<close> of an array with \<open>nd\<close> cells in use appends. \<open>int64\<close> values are
  integers. \<open>None\<close> is a failed \<open>CHECK\<close>, which aborts the process. The data type field,
  iterators, assignment and printing are not modelled.
\<close>

section \<open>Model\<close>

definition MultiplyWithoutOverflow :: "int \<Rightarrow> int \<Rightarrow> int option" where
  "MultiplyWithoutOverflow x y =
     (let ux = word_of_int x :: uint64; uy = word_of_int y :: uint64; uxy = ux * uy in
      if drop_bit 32 (ux OR uy) \<noteq> 0 then
        if \<not> (x \<ge> 0 \<and> y \<ge> 0) then None
        else if ux \<noteq> 0 \<and> uxy div ux \<noteq> uy then Some (-1)
        else Some (sint uxy)
      else Some (sint uxy))"

datatype rep = REP16 "uint16 list" | REP32 "uint32 list" | REP_OUT_OF_LINE "int list"

record tensor_shape =
  shape_rep :: rep
  ndims_byte :: nat
  num_elements :: int

abbreviation (input) kMaxRep16 :: int where "kMaxRep16 \<equiv> 65534"
abbreviation (input) kMaxRep32 :: int where "kMaxRep32 \<equiv> 4294967294"
abbreviation (input) kUnknownRep16 :: uint16 where "kUnknownRep16 \<equiv> 65535"
abbreviation (input) kUnknownRep32 :: uint32 where "kUnknownRep32 \<equiv> 4294967295"
abbreviation (input) kUnknownRank :: nat where "kUnknownRank \<equiv> 255"
abbreviation (input) MaxDimensions :: nat where "MaxDimensions \<equiv> 254"

definition unknown_rank :: "bool \<Rightarrow> tensor_shape \<Rightarrow> bool" where
  "unknown_rank partial s \<longleftrightarrow> partial \<and> ndims_byte s = kUnknownRank"

definition shape_dims :: "bool \<Rightarrow> tensor_shape \<Rightarrow> int" where
  "shape_dims partial s = (if partial \<and> ndims_byte s = kUnknownRank then -1 else int (ndims_byte s))"

definition IsFullyDefined :: "bool \<Rightarrow> tensor_shape \<Rightarrow> bool" where
  "IsFullyDefined partial s \<longleftrightarrow> \<not> partial \<or> num_elements s \<noteq> -1"

text \<open>A cell of the packed representations: written and read.\<close>

definition cell16 :: "bool \<Rightarrow> int \<Rightarrow> uint16" where
  "cell16 partial sz = (if partial \<and> sz < 0 then kUnknownRep16 else word_of_int sz)"

definition cell32 :: "bool \<Rightarrow> int \<Rightarrow> uint32" where
  "cell32 partial sz = (if partial \<and> sz < 0 then kUnknownRep32 else word_of_int sz)"

definition read16 :: "bool \<Rightarrow> uint16 \<Rightarrow> int" where
  "read16 partial dim = (if partial \<and> dim = kUnknownRep16 then -1 else uint dim)"

definition read32 :: "bool \<Rightarrow> uint32 \<Rightarrow> int" where
  "read32 partial dim = (if partial \<and> dim = kUnknownRep32 then -1 else uint dim)"

definition dim_size :: "bool \<Rightarrow> tensor_shape \<Rightarrow> nat \<Rightarrow> int" where
  "dim_size partial s d =
     (if unknown_rank partial s then -1
      else case shape_rep s of
        REP16 dims \<Rightarrow> read16 partial (dims ! d)
      | REP32 dims \<Rightarrow> read32 partial (dims ! d)
      | REP_OUT_OF_LINE dims \<Rightarrow> dims ! d)"

text \<open>The sizes an iterator runs through; the end iterator fails a \<open>CHECK\<close> for an unknown rank.\<close>

definition AppendTo :: "bool \<Rightarrow> tensor_shape \<Rightarrow> int list option" where
  "AppendTo partial s =
     (if unknown_rank partial s then None else Some (map (dim_size partial s) [0..<ndims_byte s]))"

definition ClearAllButDataType :: "tensor_shape \<Rightarrow> tensor_shape" where
  "ClearAllButDataType s = \<lparr>shape_rep = REP16 [], ndims_byte = 0, num_elements = 1\<rparr>"

definition TensorShapeBase :: "bool \<Rightarrow> tensor_shape" where
  "TensorShapeBase partial =
     (if partial then \<lparr>shape_rep = REP16 [], ndims_byte = kUnknownRank, num_elements = -1\<rparr>
      else \<lparr>shape_rep = REP16 [], ndims_byte = 0, num_elements = 1\<rparr>)"

definition UnsafeAddDim :: "bool \<Rightarrow> tensor_shape \<Rightarrow> int \<Rightarrow> int \<Rightarrow> tensor_shape" where
  "UnsafeAddDim partial s sz new_num_elements =
     (let nd = ndims_byte s;
          change_rep =
            (let vals = map (dim_size partial s) [0..<nd] @ [sz];
                 can_be_rep32 = (length vals \<le> 3 \<and> list_all (\<lambda>v. \<not> v \<ge> kMaxRep32) vals)
             in if can_be_rep32 then REP32 (map (cell32 partial) vals) else REP_OUT_OF_LINE vals);
          r = (case shape_rep s of
                 REP16 dims \<Rightarrow> if nd < 6 \<and> sz < kMaxRep16 then REP16 (dims @ [cell16 partial sz]) else change_rep
               | REP32 dims \<Rightarrow> if nd < 3 \<and> sz < kMaxRep32 then REP32 (dims @ [cell32 partial sz]) else change_rep
               | REP_OUT_OF_LINE dims \<Rightarrow> REP_OUT_OF_LINE (dims @ [sz]))
      in \<lparr>shape_rep = r, ndims_byte = nd + 1, num_elements = new_num_elements\<rparr>)"

definition AddDim :: "bool \<Rightarrow> tensor_shape \<Rightarrow> int \<Rightarrow> tensor_shape option" where
  "AddDim partial s sz =
     (if \<not> partial \<and> \<not> sz \<ge> 0 then None
      else if unknown_rank partial s then Some s
      else if \<not> ndims_byte s < MaxDimensions then None
      else if partial \<and> (num_elements s < 0 \<or> sz < 0) then Some (UnsafeAddDim partial s sz (-1))
      else do {
        n \<leftarrow> MultiplyWithoutOverflow (num_elements s) sz;
        if \<not> 0 \<le> n then None else Some (UnsafeAddDim partial s sz n)
      })"

fun add_dims :: "bool \<Rightarrow> tensor_shape \<Rightarrow> int list \<Rightarrow> tensor_shape option" where
  "add_dims partial s [] = Some s"
| "add_dims partial s (v # vs) = do { s \<leftarrow> AddDim partial s v; add_dims partial s vs }"

text \<open>The constructor from a list of sizes, \<open>AppendShape\<close> and the two \<open>Concatenate\<close>s.\<close>

definition TensorShape_of :: "bool \<Rightarrow> int list \<Rightarrow> tensor_shape option" where
  "TensorShape_of partial dim_sizes =
     add_dims partial \<lparr>shape_rep = REP16 [], ndims_byte = 0, num_elements = 1\<rparr> dim_sizes"

definition AppendShape :: "bool \<Rightarrow> tensor_shape \<Rightarrow> tensor_shape \<Rightarrow> tensor_shape option" where
  "AppendShape partial s shape = do { vals \<leftarrow> AppendTo partial shape; add_dims partial s vals }"

definition Concatenate_dim :: "tensor_shape \<Rightarrow> int \<Rightarrow> tensor_shape option" where
  "Concatenate_dim s sz = AddDim True s sz"

definition Concatenate :: "tensor_shape \<Rightarrow> tensor_shape \<Rightarrow> tensor_shape option" where
  "Concatenate s shape =
     (if unknown_rank True s \<or> unknown_rank True shape then Some (TensorShapeBase True)
      else AppendShape True s shape)"

fun recompute_loop :: "bool \<Rightarrow> int \<Rightarrow> int list \<Rightarrow> int option" where
  "recompute_loop partial n [] = Some n"
| "recompute_loop partial n (v # vs) =
     (if partial \<and> v < 0 then Some (-1)
      else do {
        n \<leftarrow> MultiplyWithoutOverflow n v;
        if \<not> 0 \<le> n then None else recompute_loop partial n vs
      })"

definition RecomputeNumElements :: "bool \<Rightarrow> tensor_shape \<Rightarrow> tensor_shape option" where
  "RecomputeNumElements partial s =
     (if unknown_rank partial s then Some (s\<lparr>num_elements := -1\<rparr>)
      else do {
        vals \<leftarrow> AppendTo partial s;
        n \<leftarrow> recompute_loop partial 1 vals;
        Some (s\<lparr>num_elements := n\<rparr>)
      })"

definition InsertDim :: "bool \<Rightarrow> tensor_shape \<Rightarrow> int \<Rightarrow> int \<Rightarrow> tensor_shape option" where
  "InsertDim partial s d sz =
     (if \<not> d \<ge> 0 \<or> \<not> d \<le> shape_dims partial s then None
      else if \<not> partial \<and> \<not> sz \<ge> 0 then None
      else if \<not> shape_dims partial s < int MaxDimensions then None
      else do {
        vals \<leftarrow> AppendTo partial s;
        let vals = take (nat d) vals @ sz # drop (nat d) vals;
        add_dims partial (ClearAllButDataType s) vals
      })"

definition set_dim :: "bool \<Rightarrow> tensor_shape \<Rightarrow> int \<Rightarrow> int \<Rightarrow> tensor_shape option" where
  "set_dim partial s d sz =
     (if \<not> d \<ge> 0 \<or> \<not> d < shape_dims partial s \<or> \<not> sz \<ge> 0 then None
      else do {
        let upgrade = (do {
          vals \<leftarrow> AppendTo partial s;
          add_dims partial (ClearAllButDataType s) (vals[nat d := sz])
        });
        s \<leftarrow> (case shape_rep s of
               REP16 dims \<Rightarrow>
                 if sz < kMaxRep16 then Some (s\<lparr>shape_rep := REP16 (dims[nat d := cell16 partial sz])\<rparr>) else upgrade
             | REP32 dims \<Rightarrow>
                 if sz < kMaxRep32 then Some (s\<lparr>shape_rep := REP32 (dims[nat d := cell32 partial sz])\<rparr>) else upgrade
             | REP_OUT_OF_LINE dims \<Rightarrow> Some (s\<lparr>shape_rep := REP_OUT_OF_LINE (dims[nat d := sz])\<rparr>));
        RecomputeNumElements partial s
      })"

definition RemoveDim :: "bool \<Rightarrow> tensor_shape \<Rightarrow> int \<Rightarrow> tensor_shape option" where
  "RemoveDim partial s d =
     (if unknown_rank partial s then Some s
      else if \<not> d \<ge> 0 \<or> \<not> d < shape_dims partial s then None
      else do {
        vals \<leftarrow> AppendTo partial s;
        s \<leftarrow> add_dims partial (ClearAllButDataType s) (take (nat d) vals @ drop (Suc (nat d)) vals);
        RecomputeNumElements partial s
      })"

definition IsSameSize :: "tensor_shape \<Rightarrow> tensor_shape \<Rightarrow> bool" where
  "IsSameSize s b \<longleftrightarrow> shape_dims False b = shape_dims False s \<and>
     list_all (\<lambda>d. dim_size False s d = dim_size False b d) [0..<ndims_byte s]"

definition StartsWith :: "tensor_shape \<Rightarrow> tensor_shape \<Rightarrow> bool" where
  "StartsWith shape prefx \<longleftrightarrow> \<not> ndims_byte shape < ndims_byte prefx \<and>
     list_all (\<lambda>i. dim_size False shape i = dim_size False prefx i) [0..<ndims_byte prefx]"

definition EndsWith :: "tensor_shape \<Rightarrow> tensor_shape \<Rightarrow> bool" where
  "EndsWith shape suffx \<longleftrightarrow> \<not> ndims_byte shape < ndims_byte suffx \<and>
     list_all (\<lambda>i. dim_size False shape (ndims_byte shape - ndims_byte suffx + i) = dim_size False suffx i)
       [0..<ndims_byte suffx]"

text \<open>The validity checks on a proto, given by its \<open>unknown_rank\<close> flag and its sizes.\<close>

fun IsValid_loop :: "bool \<Rightarrow> int \<Rightarrow> int list \<Rightarrow> bool option" where
  "IsValid_loop partial n [] = Some True"
| "IsValid_loop partial n (d # ds) =
     (if d < (if partial then -1 else 0) then Some False
      else if d = -1 then IsValid_loop partial (-1) ds
      else if \<not> partial \<or> n \<ge> 0 then do {
        n \<leftarrow> MultiplyWithoutOverflow n d;
        if n < 0 then Some False else IsValid_loop partial n ds
      }
      else IsValid_loop partial n ds)"

definition IsValid :: "bool \<Rightarrow> bool \<Rightarrow> int list \<Rightarrow> bool option" where
  "IsValid partial proto_unknown_rank dims =
     (if partial \<and> proto_unknown_rank then Some (dims = [])
      else if length dims > MaxDimensions then Some False
      else IsValid_loop partial 1 dims)"

fun IsValidShape_loop :: "bool \<Rightarrow> int \<Rightarrow> int list \<Rightarrow> unit status_or option" where
  "IsValidShape_loop partial n [] = Some (Ok ())"
| "IsValidShape_loop partial n (d # ds) =
     (if d < (if partial then -1 else 0) then Some (Err INVALID_ARGUMENT)
      else if d = -1 then IsValidShape_loop partial (-1) ds
      else if \<not> partial \<or> n \<ge> 0 then do {
        n \<leftarrow> MultiplyWithoutOverflow n d;
        if n < 0 then Some (Err INVALID_ARGUMENT) else IsValidShape_loop partial n ds
      }
      else IsValidShape_loop partial n ds)"

definition IsValidShape :: "bool \<Rightarrow> bool \<Rightarrow> int list \<Rightarrow> unit status_or option" where
  "IsValidShape partial proto_unknown_rank dims =
     (if partial \<and> proto_unknown_rank then
        if length dims > 0 then Some (Err INVALID_ARGUMENT) else Some (Ok ())
      else if length dims > MaxDimensions then Some (Err INVALID_ARGUMENT)
      else IsValidShape_loop partial 1 dims)"

text \<open>The constructor from a proto, and the proto of a shape.\<close>

definition TensorShape_proto :: "bool \<Rightarrow> bool \<times> int list \<Rightarrow> tensor_shape option" where
  "TensorShape_proto partial proto =
     (let (proto_unknown_rank, dims) = proto in
      if partial \<and> proto_unknown_rank then
        Some \<lparr>shape_rep = REP16 [], ndims_byte = kUnknownRank, num_elements = -1\<rparr>
      else add_dims partial \<lparr>shape_rep = REP16 [], ndims_byte = 0, num_elements = 1\<rparr> dims)"

definition AsProto :: "bool \<Rightarrow> tensor_shape \<Rightarrow> bool \<times> int list" where
  "AsProto partial s =
     (if unknown_rank partial s then (True, [])
      else (False, map (dim_size partial s) [0..<ndims_byte s]))"

text \<open>The pointer and count of the C++ function are the list of sizes, so the count is not negative.\<close>

fun MakeShape_loop :: "bool \<Rightarrow> tensor_shape \<Rightarrow> int list \<Rightarrow> tensor_shape status_or option" where
  "MakeShape_loop partial out [] = Some (Ok out)"
| "MakeShape_loop partial out (dim # dims) =
     (if dim < 0 then
        if \<not> partial then Some (Err INVALID_ARGUMENT)
        else if dim < -1 then Some (Err INVALID_ARGUMENT)
        else MakeShape_loop partial (UnsafeAddDim partial out (-1) (-1)) dims
      else if num_elements out < 0 then MakeShape_loop partial (UnsafeAddDim partial out dim (-1)) dims
      else do {
        n \<leftarrow> MultiplyWithoutOverflow (num_elements out) dim;
        if n < 0 then Some (Err INVALID_ARGUMENT)
        else MakeShape_loop partial (UnsafeAddDim partial out dim n) dims
      })"

definition MakeShapeHelper :: "bool \<Rightarrow> int list \<Rightarrow> tensor_shape status_or option" where
  "MakeShapeHelper partial dims =
     (if length dims > MaxDimensions then Some (Err INVALID_ARGUMENT)
      else MakeShape_loop partial \<lparr>shape_rep = REP16 [], ndims_byte = 0, num_elements = 1\<rparr> dims)"

fun merge_loop :: "tensor_shape \<Rightarrow> (int \<times> int) list \<Rightarrow> tensor_shape status_or option" where
  "merge_loop result [] = Some (Ok result)"
| "merge_loop result ((dim0, dim1) # ds) =
     (if dim0 \<ge> 0 \<and> dim1 \<ge> 0 \<and> dim0 \<noteq> dim1 then Some (Err INVALID_ARGUMENT)
      else do {
        result \<leftarrow> AddDim True result (if dim0 \<ge> 0 then dim0 else dim1);
        merge_loop result ds
      })"

text \<open>The output shape is a new value here; the code \<open>CHECK\<close>s that it is not the receiver itself.\<close>

definition MergeWith :: "tensor_shape \<Rightarrow> tensor_shape \<Rightarrow> tensor_shape status_or option" where
  "MergeWith s shape =
     (if unknown_rank True s then Some (Ok shape)
      else if unknown_rank True shape then Some (Ok s)
      else if shape_dims True s \<noteq> shape_dims True shape then Some (Err INVALID_ARGUMENT)
      else merge_loop (ClearAllButDataType s)
             (map (\<lambda>i. (dim_size True s i, dim_size True shape i)) [0..<ndims_byte s]))"

definition IsIdenticalTo :: "tensor_shape \<Rightarrow> tensor_shape \<Rightarrow> bool" where
  "IsIdenticalTo s shape \<longleftrightarrow>
     (if unknown_rank True s \<or> unknown_rank True shape then unknown_rank True s = unknown_rank True shape
      else shape_dims True s = shape_dims True shape \<and>
        list_all (\<lambda>i. dim_size True s i = dim_size True shape i) [0..<ndims_byte s])"

definition IsCompatibleWith :: "tensor_shape \<Rightarrow> tensor_shape \<Rightarrow> bool" where
  "IsCompatibleWith s shape \<longleftrightarrow>
     unknown_rank True s \<or> unknown_rank True shape \<or>
     shape_dims True s = shape_dims True shape \<and>
     list_all (\<lambda>i. \<not> (dim_size True s i \<ge> 0 \<and> dim_size True shape i \<ge> 0 \<and>
                        dim_size True s i \<noteq> dim_size True shape i)) [0..<ndims_byte s]"

definition AsTensorShape :: "tensor_shape \<Rightarrow> tensor_shape option" where
  "AsTensorShape s = (if IsFullyDefined True s then Some s else None)"

definition AreCompatible :: "tensor_shape list \<Rightarrow> tensor_shape list \<Rightarrow> bool" where
  "AreCompatible shapes0 shapes1 \<longleftrightarrow> length shapes0 = length shapes1 \<and>
     list_all (\<lambda>i. IsCompatibleWith (shapes0 ! i) (shapes1 ! i)) [0..<length shapes0]"

definition AreIdentical :: "tensor_shape list \<Rightarrow> tensor_shape list \<Rightarrow> bool" where
  "AreIdentical shapes0 shapes1 \<longleftrightarrow> length shapes0 = length shapes1 \<and>
     list_all (\<lambda>i. IsIdenticalTo (shapes0 ! i) (shapes1 ! i)) [0..<length shapes0]"

section \<open>Multiplication with overflow check\<close>

lemma int_div_less: "0 < x \<Longrightarrow> a < x * y \<Longrightarrow> a div x < y" for a x y :: int
proof (rule ccontr)
  assume a: "0 < x" "a < x * y" "\<not> a div x < y"
  then have "y * x \<le> a div x * x" by (intro mult_right_mono) auto
  also have "\<dots> \<le> a" using div_mult_mod_eq [of a x] pos_mod_sign [OF a(1), of a] by linarith
  finally show False using a(2) by (simp add: mult.commute)
qed

lemma MultiplyWithoutOverflow_eq:
  assumes "0 \<le> x" "x < 2 ^ 63" "0 \<le> y" "y < 2 ^ 63"
  shows "\<exists>n. MultiplyWithoutOverflow x y = Some n \<and> (0 \<le> n \<longleftrightarrow> x * y < 2 ^ 63) \<and> (0 \<le> n \<longrightarrow> n = x * y)"
proof -
  let ?ux = "word_of_int x :: uint64" and ?uy = "word_of_int y :: uint64"
  have u: "uint ?ux = x" "uint ?uy = y" using assms by (simp_all add: uint_word_of_int)
  have uxy: "uint (?ux * ?uy) = x * y mod 2 ^ 64" by (simp add: uint_word_arith_bintrs u take_bit_eq_mod)
  have pos: "0 \<le> x * y" using assms by simp
  have fits: "(0 \<le> sint (?ux * ?uy) \<longleftrightarrow> x * y < 2 ^ 63) \<and> (0 \<le> sint (?ux * ?uy) \<longrightarrow> sint (?ux * ?uy) = x * y)"
    if "x * y < 2 ^ 64" using that pos uxy by (auto simp: sint_uint64)
  show ?thesis
  proof (cases "drop_bit 32 (?ux OR ?uy) = 0")
    case True
    then have z: "drop_bit 32 ?ux = 0" "drop_bit 32 ?uy = 0" by (simp_all add: drop_bit_or or_eq_0_iff)
    have "x div 2 ^ 32 = 0" "y div 2 ^ 32 = 0"
      using z [THEN arg_cong [where f = uint]] assms
      by (simp_all add: drop_bit_eq_div uint_div u)
    then have "x < 2 ^ 32" "y < 2 ^ 32" using assms by (auto simp: zdiv_eq_0_iff)
    then have "x * y < 2 ^ 32 * 2 ^ 32" using assms by (intro mult_strict_mono') auto
    then have "x * y < 2 ^ 64" by simp
    then show ?thesis using fits True by (simp add: MultiplyWithoutOverflow_def Let_def)
  next
    case False
    show ?thesis
    proof (cases "x * y < 2 ^ 64")
      case True
      have "?ux \<noteq> 0 \<Longrightarrow> ?ux * ?uy div ?ux = ?uy"
        using True pos u uxy by (auto simp: word_uint_eq_iff uint_div)
      then show ?thesis using False fits [OF True] assms by (auto simp: MultiplyWithoutOverflow_def Let_def)
    next
      case big: False
      have x0: "0 < x" using big assms by (cases "x = 0") auto
      have "x * y mod 2 ^ 64 < x * y" using big pos by (smt (verit) pos_mod_bound zero_less_power)
      then have "(x * y mod 2 ^ 64) div x < y" by (rule int_div_less [OF x0])
      then have "?ux * ?uy div ?ux \<noteq> ?uy" using u uxy by (auto simp: word_uint_eq_iff uint_div)
      moreover have "?ux \<noteq> 0" using x0 u by auto
      ultimately show ?thesis using False big assms by (auto simp: MultiplyWithoutOverflow_def Let_def)
    qed
  qed
qed

section \<open>Representation invariant\<close>

text \<open>The number of elements of a list of sizes, \<open>-1\<close> when a size is unknown.\<close>

definition elements :: "int list \<Rightarrow> int" where
  "elements ds = (if \<exists>d \<in> set ds. d < 0 then -1 else prod_list ds)"

definition sizes_ok :: "bool \<Rightarrow> int list \<Rightarrow> bool" where
  "sizes_ok partial ds \<longleftrightarrow> length ds \<le> 254 \<and> (\<forall>d \<in> set ds. (if partial then -1 else 0) \<le> d \<and> d < 2 ^ 63) \<and>
     elements ds < 2 ^ 63"

text \<open>\<open>shape_is partial s ds\<close>: \<open>s\<close> has known rank and the sizes \<open>ds\<close>, in whatever representation.\<close>

definition legal :: "bool \<Rightarrow> int list \<Rightarrow> bool" where
  "legal partial vs \<longleftrightarrow> (\<forall>v \<in> set vs. (if partial then -1 else 0) \<le> v \<and> v < 2 ^ 63)"

definition rep_is :: "bool \<Rightarrow> tensor_shape \<Rightarrow> int list \<Rightarrow> bool" where
  "rep_is partial s ds \<longleftrightarrow> ndims_byte s = length ds \<and> length ds \<le> 254 \<and> legal partial ds \<and>
     (case shape_rep s of
        REP16 c \<Rightarrow> length ds \<le> 6 \<and> c = map (cell16 partial) ds \<and> (\<forall>d \<in> set ds. d < 65534)
      | REP32 c \<Rightarrow> length ds \<le> 3 \<and> c = map (cell32 partial) ds \<and> (\<forall>d \<in> set ds. d < 4294967294)
      | REP_OUT_OF_LINE c \<Rightarrow> c = ds)"

definition shape_is :: "bool \<Rightarrow> tensor_shape \<Rightarrow> int list \<Rightarrow> bool" where
  "shape_is partial s ds \<longleftrightarrow> rep_is partial s ds \<and> elements ds < 2 ^ 63 \<and> num_elements s = elements ds"

lemma read16_cell16: "(if partial then -1 else 0) \<le> d \<Longrightarrow> d < 65534 \<Longrightarrow> read16 partial (cell16 partial d) = d"
  by (auto simp: read16_def cell16_def word_uint_eq_iff uint_word_of_int split: if_splits)

lemma read32_cell32: "(if partial then -1 else 0) \<le> d \<Longrightarrow> d < 4294967294 \<Longrightarrow> read32 partial (cell32 partial d) = d"
  by (auto simp: read32_def cell32_def word_uint_eq_iff uint_word_of_int split: if_splits)

lemma rep_is_known: "rep_is partial s ds \<Longrightarrow> \<not> unknown_rank partial s"
  by (auto simp: rep_is_def unknown_rank_def)

lemma dim_size_rep:
  assumes "rep_is partial s ds" "i < length ds"
  shows "dim_size partial s i = ds ! i"
  using assms rep_is_known [OF assms(1)] read16_cell16 [of partial "ds ! i"] read32_cell32 [of partial "ds ! i"]
  by (auto simp: rep_is_def dim_size_def legal_def split: rep.splits)

lemma dims_rep:
  assumes "rep_is partial s ds"
  shows "map (dim_size partial s) [0..<ndims_byte s] = ds"
proof (rule nth_equalityI)
  show "length (map (dim_size partial s) [0..<ndims_byte s]) = length ds" using assms by (simp add: rep_is_def)
  then show "map (dim_size partial s) [0..<ndims_byte s] ! i = ds ! i"
    if "i < length (map (dim_size partial s) [0..<ndims_byte s])" for i
    using that dim_size_rep [OF assms, of i] by simp
qed

lemma AppendTo_rep: "rep_is partial s ds \<Longrightarrow> AppendTo partial s = Some ds"
  using dims_rep rep_is_known by (auto simp: AppendTo_def)

lemma shape_is_rep: "shape_is partial s ds \<Longrightarrow> rep_is partial s ds"
  by (simp add: shape_is_def)

lemmas shape_is_known = rep_is_known [OF shape_is_rep]
  and dim_size_shape = dim_size_rep [OF shape_is_rep]
  and dims_shape = dims_rep [OF shape_is_rep]
  and AppendTo_shape = AppendTo_rep [OF shape_is_rep]

lemma shape_is_sizes: "shape_is partial s ds \<Longrightarrow> sizes_ok partial ds"
  by (simp add: shape_is_def rep_is_def sizes_ok_def legal_def)

lemma shape_dims_shape: "shape_is partial s ds \<Longrightarrow> shape_dims partial s = int (length ds)"
  by (auto simp: shape_is_def shape_dims_def rep_is_def)

lemma elements_snoc:
  "elements (ds @ [d]) = (if elements ds < 0 \<or> d < 0 then -1 else elements ds * d)"
proof -
  have "0 \<le> prod_list ds" if "\<forall>d \<in> set ds. 0 \<le> d" using that by (induction ds) auto
  then show ?thesis by (auto simp: elements_def not_less)
qed

lemma elements_nonneg: "0 \<le> elements ds \<or> elements ds = -1"
proof -
  have "0 \<le> prod_list ds" if "\<forall>d \<in> set ds. 0 \<le> d" using that by (induction ds) auto
  then show ?thesis by (auto simp: elements_def not_less)
qed

lemma UnsafeAddDim_shape:
  assumes "shape_is partial s ds" "sizes_ok partial (ds @ [d])"
  shows "shape_is partial (UnsafeAddDim partial s d (elements (ds @ [d]))) (ds @ [d])"
proof -
  show ?thesis
    using assms dims_shape [OF assms(1)]
    by (auto simp: UnsafeAddDim_def shape_is_def rep_is_def legal_def sizes_ok_def Let_def list_all_iff not_le split: rep.splits)
qed

lemma shape_is_empty: "shape_is partial \<lparr>shape_rep = REP16 [], ndims_byte = 0, num_elements = 1\<rparr> []"
  by (simp add: shape_is_def rep_is_def legal_def elements_def)

lemma sizes_ok_snocD: "sizes_ok partial (ds @ [d]) \<Longrightarrow> elements ds < 2 ^ 63 \<Longrightarrow> sizes_ok partial ds"
  by (auto simp: sizes_ok_def)

text \<open>
  Adding a dimension: it succeeds exactly when the new sizes are legal, and then the shape has
  exactly these sizes.
\<close>

lemma AddDim_shape:
  assumes s: "shape_is partial s ds" and d: "(if partial then -1 else 0) \<le> d" "d < 2 ^ 63"
  shows "if sizes_ok partial (ds @ [d]) then
      \<exists>s'. AddDim partial s d = Some s' \<and> shape_is partial s' (ds @ [d])
    else AddDim partial s d = None"
proof -
  have nd: "ndims_byte s = length ds" "num_elements s = elements ds" and ok: "sizes_ok partial ds"
    using s shape_is_sizes [OF s] by (auto simp: shape_is_def rep_is_def)
  show ?thesis
  proof (cases "length ds < 254")
    case False
    then show ?thesis using nd ok shape_is_known [OF s] by (auto simp: AddDim_def sizes_ok_def)
  next
    case room: True
    show ?thesis
    proof (cases "elements ds < 0 \<or> d < 0")
      case True
      then have e: "elements (ds @ [d]) = -1" by (simp add: elements_snoc)
      have "partial" using True d ok by (auto simp: elements_def sizes_ok_def split: if_splits) (metis not_le prod_list_nonneg)
      moreover have "sizes_ok partial (ds @ [d])" using ok room d e by (auto simp: sizes_ok_def)
      ultimately show ?thesis using True nd room shape_is_known [OF s] UnsafeAddDim_shape [OF s, of d] e d
        by (auto simp: AddDim_def)
    next
      case False
      then have e: "elements (ds @ [d]) = elements ds * d" by (simp add: elements_snoc)
      obtain n where n: "MultiplyWithoutOverflow (elements ds) d = Some n" "0 \<le> n \<longleftrightarrow> elements ds * d < 2 ^ 63"
        "0 \<le> n \<longrightarrow> n = elements ds * d"
        using MultiplyWithoutOverflow_eq [of "elements ds" d] False d ok by (auto simp: sizes_ok_def)
      have "sizes_ok partial (ds @ [d]) \<longleftrightarrow> elements ds * d < 2 ^ 63" using ok room d e by (auto simp: sizes_ok_def)
      then show ?thesis using n False nd room shape_is_known [OF s] UnsafeAddDim_shape [OF s, of d] e d
        by (auto simp: AddDim_def)
    qed
  qed
qed

section \<open>Sequences of dimensions\<close>

definition prefixes_ok :: "bool \<Rightarrow> int list \<Rightarrow> int list \<Rightarrow> bool" where
  "prefixes_ok partial ds vs \<longleftrightarrow> (\<forall>k \<le> length vs. sizes_ok partial (ds @ take k vs))"

lemma prefixes_ok_Nil: "prefixes_ok partial ds [] \<longleftrightarrow> sizes_ok partial ds"
  by (simp add: prefixes_ok_def)

lemma prefixes_ok_Cons:
  "prefixes_ok partial ds (v # vs) \<longleftrightarrow> sizes_ok partial ds \<and> prefixes_ok partial (ds @ [v]) vs"
proof -
  have "(\<forall>k \<le> Suc n. P k) \<longleftrightarrow> P 0 \<and> (\<forall>k \<le> n. P (Suc k))" for P :: "nat \<Rightarrow> bool" and n
    by (metis Suc_le_mono le0 not0_implies_Suc)
  from this [of "length vs" "\<lambda>k. sizes_ok partial (ds @ take k (v # vs))"]
  show ?thesis by (simp add: prefixes_ok_def)
qed

lemma prefixes_ok_head: "prefixes_ok partial ds vs \<Longrightarrow> sizes_ok partial ds"
  by (cases vs) (simp_all add: prefixes_ok_Nil prefixes_ok_Cons)

lemma add_dims_shape:
  assumes "shape_is partial s ds" "legal partial vs"
  shows "if prefixes_ok partial ds vs then \<exists>s'. add_dims partial s vs = Some s' \<and> shape_is partial s' (ds @ vs)
    else add_dims partial s vs = None"
  using assms
proof (induction vs arbitrary: s ds)
  case Nil
  then show ?case using shape_is_sizes by (simp add: prefixes_ok_Nil)
next
  case (Cons v vs)
  have v: "(if partial then -1 else 0) \<le> v" "v < 2 ^ 63" and vs: "legal partial vs" using Cons.prems(2) by (auto simp: legal_def)
  have ok: "sizes_ok partial ds" using shape_is_sizes [OF Cons.prems(1)] .
  show ?case
  proof (cases "sizes_ok partial (ds @ [v])")
    case True
    then obtain s' where s': "AddDim partial s v = Some s'" "shape_is partial s' (ds @ [v])"
      using AddDim_shape [OF Cons.prems(1) v] by auto
    then show ?thesis using Cons.IH [OF s'(2) vs] ok by (auto simp: prefixes_ok_Cons split: if_splits)
  next
    case False
    then have "\<not> prefixes_ok partial (ds @ [v]) vs" using prefixes_ok_head by blast
    then show ?thesis using AddDim_shape [OF Cons.prems(1) v] False ok by (simp add: prefixes_ok_Cons)
  qed
qed

lemma add_dims_fresh:
  assumes "legal partial vs"
  shows "if prefixes_ok partial [] vs then
      \<exists>s'. add_dims partial (ClearAllButDataType s) vs = Some s' \<and> shape_is partial s' vs
    else add_dims partial (ClearAllButDataType s) vs = None"
  using add_dims_shape [OF shape_is_empty assms] by (auto simp: ClearAllButDataType_def split: if_splits)

lemma sizes_ok_legal: "sizes_ok partial ds \<Longrightarrow> legal partial ds"
  by (simp add: sizes_ok_def legal_def)

lemma recompute_elements:
  assumes "legal partial (ds @ vs)" "0 \<le> elements ds" "elements ds < 2 ^ 63"
  shows "(\<forall>k \<le> length vs. elements (ds @ take k vs) < 2 ^ 63) \<Longrightarrow> recompute_loop partial (elements ds) vs = Some (elements (ds @ vs))"
  using assms
proof (induction vs arbitrary: ds)
  case (Cons v vs)
  have neg: "elements (ds @ v # vs) = -1" if "v < 0" using that by (auto simp: elements_def)
  have v: "(if partial then -1 else 0) \<le> v" "v < 2 ^ 63" using Cons.prems(2) by (auto simp: legal_def)
  have e: "elements (ds @ [v]) < 2 ^ 63" using Cons.prems(1) [rule_format, of 1] by simp
  show ?case
  proof (cases "v < 0")
    case True
    then show ?thesis using neg v by (auto split: if_splits)
  next
    case False
    then have es: "elements (ds @ [v]) = elements ds * v" using Cons.prems(3) by (simp add: elements_snoc)
    obtain n where n: "MultiplyWithoutOverflow (elements ds) v = Some n" "0 \<le> n \<longleftrightarrow> elements ds * v < 2 ^ 63"
      "0 \<le> n \<longrightarrow> n = elements ds * v"
      using MultiplyWithoutOverflow_eq [of "elements ds" v] False v Cons.prems by auto
    have "recompute_loop partial (elements (ds @ [v])) vs = Some (elements ((ds @ [v]) @ vs))"
    proof (rule Cons.IH)
      show "\<forall>k\<le>length vs. elements ((ds @ [v]) @ take k vs) < 2 ^ 63"
        using Cons.prems(1) by (metis Suc_le_mono append.assoc append_Cons append_Nil length_Cons take_Suc_Cons)
      show "0 \<le> elements (ds @ [v])" using es False Cons.prems(3) by simp
    qed (use Cons.prems e in auto)
    then show ?thesis using n es e False by simp
  qed
qed simp

lemma recompute_overflow:
  assumes "legal partial (ds @ vs)" "0 \<le> elements ds" "elements ds < 2 ^ 63"
    and "\<exists>k \<le> length vs. elements (ds @ take k vs) \<ge> 2 ^ 63"
  shows "recompute_loop partial (elements ds) vs = None"
  using assms
proof (induction vs arbitrary: ds)
  case (Cons v vs)
  have v: "(if partial then -1 else 0) \<le> v" "v < 2 ^ 63" using Cons.prems(1) by (auto simp: legal_def)
  obtain k where k: "k \<le> length (v # vs)" "elements (ds @ take k (v # vs)) \<ge> 2 ^ 63" using Cons.prems(4) by blast
  then obtain j where j: "k = Suc j" "j \<le> length vs" using Cons.prems(3) by (cases k) auto
  have kj: "elements ((ds @ [v]) @ take j vs) \<ge> 2 ^ 63" using k(2) j(1) by simp
  then have "\<not> v < 0" by (auto simp: elements_def split: if_splits)
  then have es: "elements (ds @ [v]) = elements ds * v" using Cons.prems(2) by (simp add: elements_snoc)
  obtain n where n: "MultiplyWithoutOverflow (elements ds) v = Some n" "0 \<le> n \<longleftrightarrow> elements ds * v < 2 ^ 63"
    "0 \<le> n \<longrightarrow> n = elements ds * v"
    using MultiplyWithoutOverflow_eq [of "elements ds" v] \<open>\<not> v < 0\<close> v Cons.prems(2,3) by auto
  show ?case
  proof (cases "elements ds * v < 2 ^ 63")
    case True
    have "recompute_loop partial (elements (ds @ [v])) vs = None"
      by (rule Cons.IH) (use Cons.prems es True \<open>\<not> v < 0\<close> j kj in \<open>auto intro: exI [of _ j]\<close>)
    then show ?thesis using n es True \<open>\<not> v < 0\<close> by simp
  qed (use n \<open>\<not> v < 0\<close> in simp)
qed simp

text \<open>Recomputing the number of elements: it succeeds exactly when no prefix overflows.\<close>

lemma Recompute_rep:
  assumes r: "rep_is partial s ds"
  shows "if prefixes_ok partial [] ds then
      \<exists>s'. RecomputeNumElements partial s = Some s' \<and> shape_is partial s' ds
    else RecomputeNumElements partial s = None"
proof -
  have l: "legal partial ([] @ ds)" "length ds \<le> 254" using r by (auto simp: rep_is_def)
  then have p: "prefixes_ok partial [] ds \<longleftrightarrow> (\<forall>k \<le> length ds. elements ([] @ take k ds) < 2 ^ 63)"
    by (auto simp: prefixes_ok_def sizes_ok_def legal_def dest: in_set_takeD)
  have e: "elements [] = 1" by (simp add: elements_def)
  have run: "RecomputeNumElements partial s = recompute_loop partial 1 ds \<bind> (\<lambda>n. Some (s\<lparr>num_elements := n\<rparr>))"
    using AppendTo_rep [OF r] rep_is_known [OF r] by (simp add: RecomputeNumElements_def)
  show ?thesis
  proof (cases "prefixes_ok partial [] ds")
    case True
    then have "recompute_loop partial 1 ds = Some (elements ds)"
      using recompute_elements [OF l(1)] p e by simp
    moreover have "elements ds < 2 ^ 63" using True [unfolded p, rule_format, of "length ds"] by simp
    ultimately show ?thesis using True run r by (auto simp: shape_is_def rep_is_def)
  next
    case False
    then have "recompute_loop partial 1 ds = None" using recompute_overflow [OF l(1)] p e by (auto simp: not_less)
    then show ?thesis using False run by simp
  qed
qed

lemma legal_list:
  "legal partial ds \<Longrightarrow> legal partial (take n ds)" "legal partial ds \<Longrightarrow> legal partial (drop n ds)"
  "legal partial (ds @ es) \<longleftrightarrow> legal partial ds \<and> legal partial es"
  "legal partial (v # ds) \<longleftrightarrow> ((if partial then -1 else 0) \<le> v \<and> v < 2 ^ 63) \<and> legal partial ds"
  by (auto simp: legal_def dest: in_set_takeD in_set_dropD)

lemma shape_is_legal: "shape_is partial s ds \<Longrightarrow> legal partial ds"
  by (simp add: shape_is_def rep_is_def)

lemma set_dim_shape:
  assumes s: "shape_is partial s ds" and d: "d < length ds" and v: "0 \<le> v" "v < 2 ^ 63"
  shows "if prefixes_ok partial [] (ds[d := v]) then
      \<exists>s'. set_dim partial s (int d) v = Some s' \<and> shape_is partial s' (ds[d := v])
    else set_dim partial s (int d) v = None"
proof -
  let ?ds = "ds[d := v]"
  have l: "legal partial ?ds" "legal partial ds"
    using shape_is_legal [OF s] v by (auto simp: legal_def dest: set_update_subset_insert [THEN subsetD])
  have small: "\<forall>x \<in> set ?ds. x < m" if "\<forall>x \<in> set ds. x < m" "v < m" for m
    using that by (auto dest: set_update_subset_insert [THEN subsetD])
  have upd: "rep_is partial (s\<lparr>shape_rep := r\<rparr>) ?ds"
    if "case shape_rep s of
          REP16 c \<Rightarrow> v < 65534 \<and> r = REP16 (c[d := cell16 partial v])
        | REP32 c \<Rightarrow> v < 4294967294 \<and> r = REP32 (c[d := cell32 partial v])
        | REP_OUT_OF_LINE c \<Rightarrow> r = REP_OUT_OF_LINE (c[d := v])" for r
  proof -
    have r: "rep_is partial s ds" by (rule shape_is_rep [OF s])
    show ?thesis
    proof (cases "shape_rep s")
      case (REP16 c)
      with r that small [of 65534] l(1) show ?thesis by (simp add: rep_is_def map_update)
    next
      case (REP32 c)
      with r that small [of 4294967294] l(1) show ?thesis by (simp add: rep_is_def map_update)
    next
      case (REP_OUT_OF_LINE c)
      with r that l(1) show ?thesis by (simp add: rep_is_def)
    qed
  qed
  have upgrade: "if prefixes_ok partial [] ?ds then
      \<exists>s'. (add_dims partial (ClearAllButDataType s) ?ds \<bind> RecomputeNumElements partial) = Some s' \<and> shape_is partial s' ?ds
    else (add_dims partial (ClearAllButDataType s) ?ds \<bind> RecomputeNumElements partial) = None"
    using add_dims_fresh [OF l(1), of s] Recompute_rep [of partial _ ?ds] shape_is_rep by (fastforce split: if_splits)
  have "int d < shape_dims partial s" using shape_dims_shape [OF s] d by simp
  then show ?thesis
    using AppendTo_shape [OF s] v upgrade Recompute_rep [OF upd] by (cases "shape_rep s") (auto simp: set_dim_def)
qed

lemma RemoveDim_shape:
  assumes s: "shape_is partial s ds" and d: "d < length ds"
  shows "if prefixes_ok partial [] (take d ds @ drop (Suc d) ds) then
      \<exists>s'. RemoveDim partial s (int d) = Some s' \<and> shape_is partial s' (take d ds @ drop (Suc d) ds)
    else RemoveDim partial s (int d) = None"
proof -
  have l: "legal partial (take d ds @ drop (Suc d) ds)" using shape_is_legal [OF s] by (simp add: legal_list)
  show ?thesis
    using add_dims_fresh [OF l, of s] Recompute_rep [of partial _ "take d ds @ drop (Suc d) ds"] shape_is_rep
      AppendTo_shape [OF s] shape_is_known [OF s] shape_dims_shape [OF s] d
    by (fastforce simp: RemoveDim_def split: if_splits)
qed

lemma InsertDim_shape:
  assumes s: "shape_is partial s ds" and d: "d \<le> length ds" and v: "(if partial then -1 else 0) \<le> v" "v < 2 ^ 63"
  shows "if prefixes_ok partial [] (take d ds @ v # drop d ds) then
      \<exists>s'. InsertDim partial s (int d) v = Some s' \<and> shape_is partial s' (take d ds @ v # drop d ds)
    else InsertDim partial s (int d) v = None"
proof -
  have l: "legal partial (take d ds @ v # drop d ds)" using shape_is_legal [OF s] v by (simp add: legal_list)
  have "length ds < 254" if "prefixes_ok partial [] (take d ds @ v # drop d ds)"
    using that [unfolded prefixes_ok_def, rule_format, of "Suc (length ds)"] d by (simp add: sizes_ok_def)
  then show ?thesis
    using add_dims_fresh [OF l, of s] AppendTo_shape [OF s] shape_dims_shape [OF s] d v
    by (auto simp: InsertDim_def split: if_splits)
qed


section \<open>Validation of untrusted sizes\<close>

abbreviation (input) int64s :: "int list \<Rightarrow> bool" where
  "int64s vs \<equiv> \<forall>v \<in> set vs. - (2 ^ 63) \<le> v \<and> v < 2 ^ 63"

lemma partial_of_unknown: "sizes_ok partial ds \<Longrightarrow> elements ds < 0 \<Longrightarrow> partial"
  by (auto simp: elements_def sizes_ok_def split: if_splits) (metis not_le prod_list_nonneg)

lemma sizes_ok_snoc:
  assumes "sizes_ok partial ds" "length ds < 254" "v < 2 ^ 63"
  shows "sizes_ok partial (ds @ [v]) \<longleftrightarrow>
    (if partial then -1 else 0) \<le> v \<and> (elements ds < 0 \<or> v < 0 \<or> elements ds * v < 2 ^ 63)"
  using assms by (auto simp: sizes_ok_def elements_snoc)

lemma Multiply_step:
  assumes "sizes_ok partial ds" "0 \<le> elements ds" "0 \<le> v" "v < 2 ^ 63"
  obtains n where "MultiplyWithoutOverflow (elements ds) v = Some n" "n < 0 \<longleftrightarrow> \<not> elements ds * v < 2 ^ 63"
    "elements ds * v < 2 ^ 63 \<Longrightarrow> n = elements ds * v"
  using MultiplyWithoutOverflow_eq [of "elements ds" v] assms by (auto simp: sizes_ok_def)

lemma IsValid_loop_eq:
  assumes "sizes_ok partial ds" "length (ds @ vs) \<le> 254" "int64s vs"
  shows "IsValid_loop partial (elements ds) vs = Some (prefixes_ok partial ds vs)"
  using assms
proof (induction vs arbitrary: ds)
  case Nil
  then show ?case by (simp add: prefixes_ok_Nil)
next
  case (Cons v vs)
  have v: "v < 2 ^ 63" and room: "length ds < 254" using Cons.prems by auto
  note ok = sizes_ok_snoc [OF Cons.prems(1) room v]
  note step = prefixes_ok_Cons [of partial ds v vs]
  have bad: "\<not> prefixes_ok partial ds (v # vs)" if "\<not> sizes_ok partial (ds @ [v])"
    using that step prefixes_ok_head by blast
  have IH: "IsValid_loop partial (elements (ds @ [v])) vs = Some (prefixes_ok partial ds (v # vs))" if "sizes_ok partial (ds @ [v])"
    using Cons.IH [OF that] Cons.prems step by simp
  consider "v < (if partial then -1 else 0)" | "partial" "v = -1" | "0 \<le> v" "elements ds < 0" | "0 \<le> v" "0 \<le> elements ds"
    by (cases partial) force+
  then show ?case
  proof cases
    case 1
    then show ?thesis using bad ok by auto
  next
    case 2
    then show ?thesis using IH ok by (simp add: elements_snoc)
  next
    case 3
    moreover have "elements ds = -1" using 3 elements_nonneg [of ds] by linarith
    ultimately show ?thesis using IH ok partial_of_unknown [OF Cons.prems(1)] by (simp add: elements_snoc)
  next
    case 4
    obtain n where n: "MultiplyWithoutOverflow (elements ds) v = Some n" "n < 0 \<longleftrightarrow> \<not> elements ds * v < 2 ^ 63"
      "elements ds * v < 2 ^ 63 \<Longrightarrow> n = elements ds * v"
      using Multiply_step [OF Cons.prems(1) 4(2,1) v] by blast
    show ?thesis using 4 n ok IH bad by (cases "elements ds * v < 2 ^ 63") (auto simp: elements_snoc)
  qed
qed

lemma IsValidShape_loop_eq:
  "IsValidShape_loop partial n ds = map_option (\<lambda>ok. if ok then Ok () else Err INVALID_ARGUMENT) (IsValid_loop partial n ds)"
  by (induction partial n ds rule: IsValid_loop.induct) (auto split: Option.bind_splits)

lemma IsValidShape_eq:
  "IsValidShape partial u ds = map_option (\<lambda>ok. if ok then Ok () else Err INVALID_ARGUMENT) (IsValid partial u ds)"
  by (auto simp: IsValidShape_def IsValid_def IsValidShape_loop_eq)

lemma MakeShape_loop_step:
  assumes s: "shape_is partial out ds" and room: "length ds < 254" and v: "v < 2 ^ 63"
  shows "if sizes_ok partial (ds @ [v]) then
      \<exists>s'. (\<forall>vs. MakeShape_loop partial out (v # vs) = MakeShape_loop partial s' vs) \<and>
        AddDim partial out v = Some s' \<and> shape_is partial s' (ds @ [v])
    else \<forall>vs. MakeShape_loop partial out (v # vs) = Some (Err INVALID_ARGUMENT)"
proof -
  note so = shape_is_sizes [OF s]
  note ok = sizes_ok_snoc [OF so room v]
  have nd: "num_elements out = elements ds" "ndims_byte out = length ds" using s by (simp_all add: shape_is_def rep_is_def)
  note add = AddDim_def shape_is_known [OF s] nd
  note keep = UnsafeAddDim_shape [OF s, of v]
  consider "v < (if partial then -1 else 0)" | "partial" "v = -1" | "0 \<le> v" "elements ds < 0" | "0 \<le> v" "0 \<le> elements ds"
    by (cases partial) force+
  then show ?thesis
  proof cases
    case 1
    then show ?thesis using ok by (auto split: if_splits)
  next
    case 2
    then show ?thesis using ok room keep shape_is_known [OF s] by (simp add: elements_snoc add)
  next
    case 3
    then show ?thesis using ok room keep partial_of_unknown [OF so] shape_is_known [OF s] by (simp add: elements_snoc add)
  next
    case 4
    obtain n where n: "MultiplyWithoutOverflow (elements ds) v = Some n" "n < 0 \<longleftrightarrow> \<not> elements ds * v < 2 ^ 63"
      "elements ds * v < 2 ^ 63 \<Longrightarrow> n = elements ds * v"
      using Multiply_step [OF so 4(2,1) v] by blast
    show ?thesis using 4 n ok room keep shape_is_known [OF s] by (cases "elements ds * v < 2 ^ 63") (auto simp: elements_snoc add)
  qed
qed

lemma MakeShape_loop_eq:
  assumes "shape_is partial out ds" "length (ds @ vs) \<le> 254" "int64s vs"
  shows "if prefixes_ok partial ds vs then
      \<exists>s'. MakeShape_loop partial out vs = Some (Ok s') \<and> add_dims partial out vs = Some s' \<and> shape_is partial s' (ds @ vs)
    else MakeShape_loop partial out vs = Some (Err INVALID_ARGUMENT)"
  using assms
proof (induction vs arbitrary: out ds)
  case Nil
  then show ?case using shape_is_sizes by (simp add: prefixes_ok_Nil)
next
  case (Cons v vs)
  have v: "v < 2 ^ 63" and room: "length ds < 254" and ok: "sizes_ok partial ds"
    using Cons.prems shape_is_sizes by auto
  note step = MakeShape_loop_step [OF Cons.prems(1) room v]
  show ?case
  proof (cases "sizes_ok partial (ds @ [v])")
    case True
    then obtain s' where s': "\<forall>vs. MakeShape_loop partial out (v # vs) = MakeShape_loop partial s' vs"
      "AddDim partial out v = Some s'" "shape_is partial s' (ds @ [v])" using step by auto
    have "if prefixes_ok partial (ds @ [v]) vs then
        \<exists>s''. MakeShape_loop partial s' vs = Some (Ok s'') \<and> add_dims partial s' vs = Some s'' \<and> shape_is partial s'' ((ds @ [v]) @ vs)
      else MakeShape_loop partial s' vs = Some (Err INVALID_ARGUMENT)"
      by (rule Cons.IH [OF s'(3)]) (use Cons.prems in auto)
    moreover have "prefixes_ok partial ds (v # vs) \<longleftrightarrow> prefixes_ok partial (ds @ [v]) vs"
      using ok by (simp add: prefixes_ok_Cons)
    moreover have "MakeShape_loop partial out (v # vs) = MakeShape_loop partial s' vs" using s'(1) by blast
    moreover have "add_dims partial out (v # vs) = add_dims partial s' vs" using s'(2) by simp
    ultimately show ?thesis by (simp only: append_assoc append_Cons append_Nil)
  next
    case False
    then have "\<not> prefixes_ok partial ds (v # vs)" using prefixes_ok_head prefixes_ok_Cons by blast
    moreover have "MakeShape_loop partial out (v # vs) = Some (Err INVALID_ARGUMENT)" using step False by presburger
    ultimately show ?thesis by presburger
  qed
qed

lemma too_long_not_ok: "254 < length vs \<Longrightarrow> \<not> prefixes_ok partial [] vs"
  by (auto simp: prefixes_ok_def sizes_ok_def intro!: exI [of _ "length vs"])

section \<open>Smaller sizes\<close>

lemma prod_list_le:
  "list_all2 (\<lambda>v d. 0 \<le> v \<and> v \<le> d) vs ds \<Longrightarrow> 0 \<le> prod_list vs \<and> prod_list vs \<le> prod_list ds" for vs :: "int list"
  by (induction rule: list_all2_induct) (auto intro: mult_mono)

lemma elements_known: "\<forall>d \<in> set ds. 0 \<le> d \<Longrightarrow> elements ds = prod_list ds"
  by (auto simp: elements_def)

lemma list_all2_le_sets:
  "list_all2 (\<lambda>v d. 0 \<le> v \<and> v \<le> d) vs ds \<Longrightarrow> v \<in> set vs \<Longrightarrow> 0 \<le> v \<and> (\<exists>d \<in> set ds. v \<le> d)"
  "list_all2 (\<lambda>v d. 0 \<le> v \<and> v \<le> d) vs ds \<Longrightarrow> d \<in> set ds \<Longrightarrow> 0 \<le> (d :: int)"
  by (fastforce simp: list_all2_conv_all_nth in_set_conv_nth)+

text \<open>Sizes bounded by the sizes of a legal shape are legal.\<close>

lemma sizes_ok_le:
  assumes "list_all2 (\<lambda>v d. 0 \<le> v \<and> v \<le> d) vs ds" "sizes_ok partial ds"
  shows "sizes_ok partial vs"
proof -
  have "elements vs = prod_list vs" "elements ds = prod_list ds"
    using list_all2_le_sets [OF assms(1)] by (auto intro!: elements_known)
  then show ?thesis using assms prod_list_le [OF assms(1)] list_all2_le_sets(1) [OF assms(1)] list_all2_lengthD [OF assms(1)]
    by (fastforce simp: sizes_ok_def)
qed

lemma prefixes_ok_le:
  assumes "list_all2 (\<lambda>v d. 0 \<le> v \<and> v \<le> d) vs ds" "prefixes_ok partial [] ds"
  shows "prefixes_ok partial [] vs"
  unfolding prefixes_ok_def
proof (intro allI impI)
  fix k assume "k \<le> length vs"
  then have "k \<le> length ds" using list_all2_lengthD [OF assms(1)] by simp
  then have "sizes_ok partial (take k ds)" using assms(2) [unfolded prefixes_ok_def, rule_format, of k] by simp
  with sizes_ok_le [OF list_all2_takeI [OF assms(1), of k]] show "sizes_ok partial ([] @ take k vs)" by simp
qed

section \<open>Merging partial shapes\<close>

definition compatible_dims :: "int list \<Rightarrow> int list \<Rightarrow> bool" where
  "compatible_dims ds es \<longleftrightarrow> length ds = length es \<and>
     list_all2 (\<lambda>d e. d < 0 \<or> e < 0 \<or> d = e) ds es"

definition merge_dims :: "int list \<Rightarrow> int list \<Rightarrow> int list" where
  "merge_dims ds es = map2 (\<lambda>d e. if d \<ge> 0 then d else e) ds es"

lemma IsCompatibleWith_shape:
  assumes "shape_is True s ds" "shape_is True t es"
  shows "IsCompatibleWith s t \<longleftrightarrow> compatible_dims ds es"
proof -
  have n: "ndims_byte s = length ds" using assms(1) by (simp add: shape_is_def rep_is_def)
  show ?thesis
    using shape_is_known [OF assms(1)] shape_is_known [OF assms(2)] dim_size_shape [OF assms(1)] dim_size_shape [OF assms(2)]
    by (auto simp: IsCompatibleWith_def compatible_dims_def shape_dims_shape [OF assms(1)] shape_dims_shape [OF assms(2)]
        list_all2_conv_all_nth list_all_iff n) force+
qed

lemma merge_loop_ok:
  assumes "shape_is True r rs" "legal True ds" "legal True es" "list_all2 (\<lambda>d e. d < 0 \<or> e < 0 \<or> d = e) ds es"
  shows "merge_loop r (zip ds es) = map_option Ok (add_dims True r (merge_dims ds es))"
  using assms(4,2,3,1)
proof (induction arbitrary: r rs rule: list_all2_induct)
  case (Cons d ds e es)
  let ?v = "if d \<ge> 0 then d else e"
  have v: "(if True then -1 else 0) \<le> ?v" "?v < 2 ^ 63" and l: "legal True ds" "legal True es"
    using Cons.prems by (auto simp: legal_def)
  have cond: "\<not> (d \<ge> 0 \<and> e \<ge> 0 \<and> d \<noteq> e)" using Cons.hyps by auto
  have m: "merge_dims (d # ds) (e # es) = ?v # merge_dims ds es" by (simp add: merge_dims_def)
  show ?case
  proof (cases "AddDim True r ?v")
    case None
    then show ?thesis using cond m by simp
  next
    case (Some s')
    then have "shape_is True s' (rs @ [?v])" using AddDim_shape [OF Cons.prems(3) v] by (simp split: if_splits)
    then show ?thesis using Cons.IH [OF l] Some cond m by (simp del: merge_loop.simps add: merge_loop.simps [of r]) presburger
  qed
qed (simp add: merge_dims_def)

lemma merge_loop_conflict:
  assumes "length ds = length es" "\<not> list_all2 (\<lambda>d e. d < 0 \<or> e < 0 \<or> d = e) ds es"
  shows "merge_loop r (zip ds es) \<in> {None, Some (Err INVALID_ARGUMENT)}"
  using assms
proof (induction ds es arbitrary: r rule: list_induct2)
  case (Cons d ds e es)
  then show ?case by (cases "AddDim True r (if d \<ge> 0 then d else e)") auto
qed simp

lemma MergeWith_known:
  assumes "shape_is True s ds" "shape_is True t es"
  shows "MergeWith s t = (if length ds \<noteq> length es then Some (Err INVALID_ARGUMENT)
    else merge_loop (ClearAllButDataType s) (zip ds es))"
proof -
  have n: "ndims_byte s = length ds" using assms(1) by (simp add: shape_is_def rep_is_def)
  have "map (\<lambda>i. (dim_size True s i, dim_size True t i)) [0..<length ds] = zip ds es" if "length ds = length es"
    using that dim_size_shape [OF assms(1)] dim_size_shape [OF assms(2)] by (intro nth_equalityI) auto
  then show ?thesis
    by (auto simp: MergeWith_def shape_is_known [OF assms(1)] shape_is_known [OF assms(2)]
        shape_dims_shape [OF assms(1)] shape_dims_shape [OF assms(2)] n)
qed

lemma set_zip_both: "(a, b) \<in> set (zip xs ys) \<Longrightarrow> a \<in> set xs \<and> b \<in> set ys"
  by (blast dest: set_zip_leftD set_zip_rightD)

lemma legal_merge: "legal True ds \<Longrightarrow> legal True es \<Longrightarrow> legal True (merge_dims ds es)"
  by (auto simp: legal_def merge_dims_def dest!: set_zip_both)

section \<open>Properties\<close>

text \<open>
  Validation and construction agree: for any 64-bit sizes, \<open>IsValid\<close> and \<open>IsValidShape\<close> answer whether every
  prefix of the sizes is legal (at most 254 dimensions, no negative size except \<open>-1\<close> in a
  partial shape, no overflowing number of elements). In that case \<open>MakeShapeHelper\<close> and the
  constructor both succeed with the same shape, which has exactly these sizes and the right
  number of elements in one of the three packed representations; otherwise \<open>MakeShapeHelper\<close>
  reports \<open>INVALID_ARGUMENT\<close>. None of the checks aborts.
\<close>

theorem shape_construction:
  assumes "\<forall>v \<in> set dims. - (2 ^ 63) \<le> v \<and> v < 2 ^ 63"
  shows "IsValid partial False dims = Some (prefixes_ok partial [] dims) \<and>
    IsValidShape partial False dims = Some (if prefixes_ok partial [] dims then Ok () else Err INVALID_ARGUMENT) \<and>
    (if prefixes_ok partial [] dims then
       \<exists>s. MakeShapeHelper partial dims = Some (Ok s) \<and> TensorShape_of partial dims = Some s \<and> shape_is partial s dims
     else MakeShapeHelper partial dims = Some (Err INVALID_ARGUMENT))"
proof (cases "length dims \<le> 254")
  case True
  have e: "sizes_ok partial []" "elements [] = 1" by (simp_all add: sizes_ok_def elements_def)
  have "IsValid partial False dims = Some (prefixes_ok partial [] dims)"
    using IsValid_loop_eq [OF e(1), of dims] assms True e(2) by (auto simp: IsValid_def)
  moreover have "MakeShapeHelper partial dims = MakeShape_loop partial \<lparr>shape_rep = REP16 [], ndims_byte = 0, num_elements = 1\<rparr> dims"
    using True by (simp add: MakeShapeHelper_def)
  ultimately show ?thesis
    using MakeShape_loop_eq [OF shape_is_empty, of dims partial] True assms by (auto simp: TensorShape_of_def IsValidShape_eq split: if_splits)
next
  case False
  then show ?thesis using too_long_not_ok by (auto simp: IsValidShape_eq IsValid_def MakeShapeHelper_def)
qed

theorem shape_construction_witness:
  "prefixes_ok True [] [2, -1, 70000] \<and> IsValid True False [2, -1, 70000] = Some True"
proof -
  have p: "prefixes_ok True [] [2, -1, 70000]"
    by (simp add: prefixes_ok_Cons prefixes_ok_Nil sizes_ok_def elements_def)
  then show ?thesis using shape_construction [of "[2, -1, 70000]" True] by auto
qed

text \<open>
  \<open>MultiplyWithoutOverflow\<close> on non-negative 64-bit integers never aborts, returns the exact product
  when it fits in 63 bits and a negative number otherwise, on the cheap path and on the division path.
\<close>

theorem MultiplyWithoutOverflow_bounds:
  assumes "0 \<le> x" "x < 2 ^ 63" "0 \<le> y" "y < 2 ^ 63"
  shows "\<exists>n. MultiplyWithoutOverflow x y = Some n \<and> - (2 ^ 63) \<le> n \<and> n < 2 ^ 63 \<and>
    (if x * y < 2 ^ 63 then n = x * y else n < 0)"
proof -
  obtain n where n: "MultiplyWithoutOverflow x y = Some n" "0 \<le> n \<longleftrightarrow> x * y < 2 ^ 63" "0 \<le> n \<longrightarrow> n = x * y"
    using MultiplyWithoutOverflow_eq [OF assms] by blast
  moreover have "- (2 ^ 63) \<le> n" "n < 2 ^ 63"
    using n(1) sint_greater_eq [of "word_of_int x * word_of_int y :: uint64"]
      sint_lt [of "word_of_int x * word_of_int y :: uint64"]
    by (auto simp: MultiplyWithoutOverflow_def Let_def split: if_splits)
  ultimately show ?thesis by auto
qed

theorem MultiplyWithoutOverflow_bounds_witness:
  "\<exists>n. MultiplyWithoutOverflow (2 ^ 40) (2 ^ 23) = Some n \<and> n < 0"
  using MultiplyWithoutOverflow_bounds [of "2 ^ 40" "2 ^ 23"] by auto

text \<open>
  A shape survives the trip through its proto: \<open>AsProto\<close> lists the sizes of a shape whatever its
  representation, the proto of a legal shape passes \<open>IsValid\<close>, and the constructor rebuilds a shape
  of the same sizes and number of elements, identical under \<open>IsIdenticalTo\<close>.
\<close>

theorem proto_roundtrip:
  assumes "shape_is True s ds" "prefixes_ok True [] ds"
  shows "AsProto True s = (False, ds) \<and> IsValid True False ds = Some True \<and>
    (\<exists>s'. TensorShape_proto True (AsProto True s) = Some s' \<and> shape_is True s' ds \<and> IsIdenticalTo s s' \<and>
      num_elements s' = num_elements s)"
proof -
  have a: "AsProto True s = (False, ds)"
    using shape_is_known [OF assms(1)] dims_shape [OF assms(1)] by (simp add: AsProto_def)
  have l: "int64s ds" "length ds \<le> 254" using shape_is_sizes [OF assms(1)] by (auto simp: sizes_ok_def)
  have v: "IsValid True False ds = Some True"
    using IsValid_loop_eq [of True "[]" ds] l assms(2) by (simp add: IsValid_def sizes_ok_def elements_def)
  obtain s' where s': "TensorShape_proto True (AsProto True s) = Some s'" "shape_is True s' ds"
    using add_dims_shape [OF shape_is_empty, of True ds] shape_is_legal [OF assms(1)] assms(2) a
    by (auto simp: TensorShape_proto_def)
  have "IsIdenticalTo s s'"
    using shape_is_known [OF assms(1)] shape_is_known [OF s'(2)] dim_size_shape [OF assms(1)] dim_size_shape [OF s'(2)] assms(1)
    by (auto simp: IsIdenticalTo_def shape_dims_shape [OF assms(1)] shape_dims_shape [OF s'(2)] list_all_iff shape_is_def rep_is_def)
  then show ?thesis using a v s' assms(1) by (auto simp: shape_is_def)
qed

theorem proto_roundtrip_witness:
  "\<exists>s s'. AsProto True s = (False, [3, -1]) \<and> TensorShape_proto True (False, [3, -1]) = Some s' \<and> IsIdenticalTo s s'"
proof -
  let ?s = "\<lparr>shape_rep = REP_OUT_OF_LINE [3, -1], ndims_byte = 2, num_elements = -1\<rparr>"
  have s: "shape_is True ?s [3, -1]" by (simp add: shape_is_def rep_is_def legal_def elements_def)
  have "prefixes_ok True [] [3, -1]" by (simp add: prefixes_ok_Cons prefixes_ok_Nil sizes_ok_def elements_def)
  from proto_roundtrip [OF s this] show ?thesis by metis
qed

text \<open>
  The number of elements of a shape is the product of its sizes and fits in 64 bits, whatever
  sequence of additions, insertions, removals and assignments built it: every one of them, applied
  to a shape with sizes \<open>ds\<close>, either aborts or yields a shape with exactly the intended sizes,
  and it aborts exactly when some prefix of the new sizes is not a legal shape.
\<close>

theorem dim_updates:
  assumes "shape_is partial s ds" "d < length ds" "0 \<le> v" "v < 2 ^ 63"
  shows "(if prefixes_ok partial [] (ds[d := v]) then
      \<exists>s'. set_dim partial s (int d) v = Some s' \<and> shape_is partial s' (ds[d := v])
    else set_dim partial s (int d) v = None) \<and>
    (if prefixes_ok partial [] (take d ds @ drop (Suc d) ds) then
      \<exists>s'. RemoveDim partial s (int d) = Some s' \<and> shape_is partial s' (take d ds @ drop (Suc d) ds)
    else RemoveDim partial s (int d) = None) \<and>
    (if prefixes_ok partial [] (take d ds @ v # drop d ds) then
      \<exists>s'. InsertDim partial s (int d) v = Some s' \<and> shape_is partial s' (take d ds @ v # drop d ds)
    else InsertDim partial s (int d) v = None)"
  by (intro conjI set_dim_shape RemoveDim_shape InsertDim_shape) (use assms in auto)

theorem dim_updates_witness:
  "\<exists>s. shape_is False s [3, 70000] \<and>
     (\<exists>s'. set_dim False s (int 0) 5000000000 = Some s' \<and> shape_is False s' [5000000000, 70000])"
proof -
  let ?s = "\<lparr>shape_rep = REP32 [3, 70000], ndims_byte = 2, num_elements = 210000\<rparr>"
  have s: "shape_is False ?s [3, 70000]"
    by (simp add: shape_is_def rep_is_def legal_def elements_def cell32_def)
  have "prefixes_ok False [] ([3, 70000][0 := 5000000000])"
    by (simp add: prefixes_ok_Cons prefixes_ok_Nil sizes_ok_def elements_def)
  then show ?thesis using s dim_updates [OF s, of 0 5000000000] by auto
qed

text \<open>
  C31. Merging two partial shapes of known rank succeeds exactly when \<open>IsCompatibleWith\<close> holds and
  the merged sizes form a legal shape, and then yields the merged sizes; compatible shapes whose
  merged sizes overflow abort, incompatible ones never yield a shape.
\<close>

theorem MergeWith_spec:
  assumes "shape_is True s ds" "shape_is True t es"
  shows "(IsCompatibleWith s t \<longleftrightarrow> compatible_dims ds es) \<and>
    (if \<not> IsCompatibleWith s t then MergeWith s t \<in> {None, Some (Err INVALID_ARGUMENT)}
     else if prefixes_ok True [] (merge_dims ds es) then
       \<exists>r. MergeWith s t = Some (Ok r) \<and> shape_is True r (merge_dims ds es)
     else MergeWith s t = None)"
proof -
  note l = shape_is_legal [OF assms(1)] shape_is_legal [OF assms(2)]
  note m = MergeWith_known [OF assms]
  have c: "IsCompatibleWith s t \<longleftrightarrow> compatible_dims ds es" by (rule IsCompatibleWith_shape [OF assms])
  show ?thesis
  proof (cases "compatible_dims ds es")
    case True
    then have "merge_loop (ClearAllButDataType s) (zip ds es) = map_option Ok (add_dims True (ClearAllButDataType s) (merge_dims ds es))"
      using merge_loop_ok [OF _ l] shape_is_empty by (auto simp: compatible_dims_def ClearAllButDataType_def)
    then show ?thesis using True c m add_dims_fresh [OF legal_merge [OF l], of s]
      by (auto simp: compatible_dims_def split: if_splits)
  next
    case False
    then show ?thesis using c m merge_loop_conflict [of ds es] by (auto simp: compatible_dims_def)
  qed
qed

theorem MergeWith_spec_witness:
  "\<exists>s t r. shape_is True s [2, -1] \<and> shape_is True t [-1, 7] \<and> MergeWith s t = Some (Ok r) \<and> shape_is True r [2, 7]"
proof -
  let ?s = "\<lparr>shape_rep = REP16 [2, 65535], ndims_byte = 2, num_elements = -1\<rparr>"
  let ?t = "\<lparr>shape_rep = REP16 [65535, 7], ndims_byte = 2, num_elements = -1\<rparr>"
  have s: "shape_is True ?s [2, -1]" and t: "shape_is True ?t [-1, 7]"
    by (simp_all add: shape_is_def rep_is_def legal_def elements_def cell16_def)
  have "prefixes_ok True [] (merge_dims [2, -1] [-1, 7])" "merge_dims [2, -1] [-1, 7] = [2, 7]" "compatible_dims [2, -1] [-1, 7]"
    by (simp_all add: prefixes_ok_Cons prefixes_ok_Nil sizes_ok_def elements_def merge_dims_def compatible_dims_def)
  then have "\<exists>r. MergeWith ?s ?t = Some (Ok r) \<and> shape_is True r [2, 7]"
    using MergeWith_spec [OF s t] by (auto split: if_splits)
  then show ?thesis using s t by blast
qed

text \<open>
  Two compatible partial shapes that the checks accept one by one can abort the process when
  they are merged, although the function returns a status.
\<close>

theorem MergeWith_aborts:
  "\<exists>s t. MakeShapeHelper True [2 ^ 40, -1] = Some (Ok s) \<and> MakeShapeHelper True [-1, 2 ^ 40] = Some (Ok t) \<and>
     IsCompatibleWith s t \<and> MergeWith s t = None"
proof -
  have p: "prefixes_ok True [] [2 ^ 40, -1]" "prefixes_ok True [] [-1, 2 ^ 40]"
    "\<not> prefixes_ok True [] (merge_dims [2 ^ 40, -1] [-1, 2 ^ 40])" "compatible_dims [2 ^ 40, -1] [-1, 2 ^ 40]"
    by (simp_all add: prefixes_ok_Cons prefixes_ok_Nil sizes_ok_def elements_def merge_dims_def compatible_dims_def)
  obtain s t where st: "MakeShapeHelper True [2 ^ 40, -1] = Some (Ok s)" "shape_is True s [2 ^ 40, -1]"
    "MakeShapeHelper True [-1, 2 ^ 40] = Some (Ok t)" "shape_is True t [-1, 2 ^ 40]"
    using MakeShape_loop_eq [OF shape_is_empty, of "[2 ^ 40, -1]" True]
      MakeShape_loop_eq [OF shape_is_empty, of "[-1, 2 ^ 40]" True] p
    by (auto simp: MakeShapeHelper_def simp del: MakeShape_loop.simps)
  have c: "IsCompatibleWith s t" using IsCompatibleWith_shape [OF st(2,4)] p(4) by simp
  have "merge_loop (ClearAllButDataType s) (zip [2 ^ 40, -1] [-1, 2 ^ 40])
      = map_option Ok (add_dims True (ClearAllButDataType s) (merge_dims [2 ^ 40, -1] [-1, 2 ^ 40]))"
    using merge_loop_ok [OF _ shape_is_legal [OF st(2)] shape_is_legal [OF st(4)]] shape_is_empty p(4)
    by (auto simp: compatible_dims_def ClearAllButDataType_def simp del: merge_loop.simps)
  then have "MergeWith s t = None"
    using MergeWith_known [OF st(2,4)] add_dims_fresh [OF legal_merge [OF shape_is_legal [OF st(2)] shape_is_legal [OF st(4)]], of s] p(3)
    by (simp del: merge_loop.simps zip_Cons_Cons)
  then show ?thesis using st c by blast
qed

end
