(* ===== verification/StridedSlice.thy ===== *)
theory StridedSlice
  imports TensorShape
begin

text \<open>
  Validation of a strided slice, \<^verbatim>\<open>core/util/strided_slice_op.cc\<close>: the sparse specification (begin,
  end and strides tensors with five masks) becomes a dense one, each dimension gets its canonical
  interval, and the shape of the result is built with the operations of \<open>TensorShape\<close>. The masks
  are 32-bit words; shifting by 32 or more, which C++ leaves undefined, reads and sets no bit here,
  and the properties ask for fewer than 32 dimensions. The output vectors are empty on entry.
  \<open>None\<close> is a failed \<open>CHECK\<close>, a fatal log message or the resizing to a negative rank.
\<close>

section \<open>Model\<close>

datatype index_dtype = DT_INT32 | DT_INT64 | DT_OTHER

record index_tensor =
  tensor_rank :: nat
  tensor_dtype :: index_dtype
  tensor_flat :: "int list"

definition IsVector :: "index_tensor \<Rightarrow> bool" where
  "IsVector t \<longleftrightarrow> tensor_rank t = 1"

definition NumElements :: "index_tensor \<Rightarrow> nat" where
  "NumElements t = length (tensor_flat t)"

definition flat :: "index_dtype \<Rightarrow> index_tensor \<Rightarrow> int list option" where
  "flat T t = (if tensor_dtype t = T then Some (tensor_flat t) else None)"

abbreviation (input) kShrinkAxis :: int where "kShrinkAxis \<equiv> -1"
abbreviation (input) kNewAxis :: int where "kNewAxis \<equiv> -2"

record sparse_spec =
  sp_dims :: nat
  num_add_axis_after_ellipsis :: nat
  begin_tensor :: "index_tensor option"
  end_tensor :: "index_tensor option"
  strides_tensor :: index_tensor
  sp_begin_mask :: uint32
  sp_end_mask :: uint32
  sp_ellipsis_mask :: uint32
  sp_new_axis_mask :: uint32
  sp_shrink_axis_mask :: uint32

record dense_spec =
  ds_dims :: nat
  ds_begin_mask :: uint32
  ds_end_mask :: uint32
  begin_valid :: bool
  end_valid :: bool
  ds_begin :: "int list"
  ds_end :: "int list"
  ds_strides :: "int list"
  final_shape_gather_indices :: "int list"
  ds_shrink_axis_mask :: uint32
  full_index :: nat  \<comment> \<open>the loop variable of \<open>BuildDenseSpec\<close>\<close>

text \<open>\<open>(1 << i) & mask\<close> and \<open>mask |= (1 << i)\<close>.\<close>

definition mask_bit :: "uint32 \<Rightarrow> nat \<Rightarrow> bool" where
  "mask_bit m i \<longleftrightarrow> push_bit i 1 AND m \<noteq> 0"

definition mask_set :: "bool \<Rightarrow> nat \<Rightarrow> uint32 \<Rightarrow> uint32" where
  "mask_set b i m = (if b then m OR push_bit i 1 else m)"

definition ellipsis_step :: "nat \<Rightarrow> dense_spec \<Rightarrow> dense_spec" where
  "ellipsis_step k d =
     d\<lparr>ds_begin := (ds_begin d)[k := 0], ds_end := (ds_end d)[k := 0], ds_strides := (ds_strides d)[k := 1],
       ds_begin_mask := mask_set True k (ds_begin_mask d), ds_end_mask := mask_set True k (ds_end_mask d),
       final_shape_gather_indices := final_shape_gather_indices d @ [int k], full_index := Suc k\<rparr>"

definition next_index :: "sparse_spec \<Rightarrow> nat \<Rightarrow> nat \<Rightarrow> int" where
  "next_index sp dims i =
     min (int dims - (int (sp_dims sp) - int i) + 1 + int (num_add_axis_after_ellipsis sp)) (int dims)"

definition real_axis :: "sparse_spec \<Rightarrow> index_dtype \<Rightarrow> nat \<Rightarrow> dense_spec \<Rightarrow> dense_spec option" where
  "real_axis sp T i d = do {
     b \<leftarrow> (case begin_tensor sp of None \<Rightarrow> Some (ds_begin d)
          | Some t \<Rightarrow> flat T t \<bind> (\<lambda>f. Some ((ds_begin d)[full_index d := f ! i])));
     e \<leftarrow> (case end_tensor sp of None \<Rightarrow> Some (ds_end d)
          | Some t \<Rightarrow> flat T t \<bind> (\<lambda>f. Some ((ds_end d)[full_index d := f ! i])));
     s \<leftarrow> flat T (strides_tensor sp);
     let shrink = mask_bit (sp_shrink_axis_mask sp) i;
     Some (d\<lparr>ds_begin := b, ds_end := e, ds_strides := (ds_strides d)[full_index d := s ! i],
       ds_begin_mask := mask_set (mask_bit (sp_begin_mask sp) i) (full_index d) (ds_begin_mask d),
       ds_end_mask := mask_set (mask_bit (sp_end_mask sp) i) (full_index d) (ds_end_mask d),
       ds_shrink_axis_mask := mask_set shrink (full_index d) (ds_shrink_axis_mask d),
       final_shape_gather_indices :=
         final_shape_gather_indices d @ [if shrink then kShrinkAxis else int (full_index d)],
       full_index := Suc (full_index d)\<rparr>)
   }"

fun build_loop :: "sparse_spec \<Rightarrow> index_dtype \<Rightarrow> nat list \<Rightarrow> dense_spec \<Rightarrow> dense_spec status_or option" where
  "build_loop sp T [] d = Some (Ok d)"
| "build_loop sp T (i # is) d =
     (if mask_bit (sp_ellipsis_mask sp) i then
        build_loop sp T is (fold ellipsis_step [full_index d..<nat (next_index sp (ds_dims d) i)] d)
      else if mask_bit (sp_new_axis_mask sp) i then
        build_loop sp T is (d\<lparr>final_shape_gather_indices := final_shape_gather_indices d @ [kNewAxis]\<rparr>)
      else if full_index d = length (ds_begin d) then Some (Err INVALID_ARGUMENT)
      else real_axis sp T i d \<bind> build_loop sp T is)"

definition BuildDenseSpec :: "index_dtype \<Rightarrow> sparse_spec \<Rightarrow> nat \<Rightarrow> dense_spec status_or option" where
  "BuildDenseSpec T sp dims =
     build_loop sp T [0..<sp_dims sp]
       \<lparr>ds_dims = dims, ds_begin_mask = 0, ds_end_mask = 0,
        begin_valid = (begin_tensor sp \<noteq> None), end_valid = (end_tensor sp \<noteq> None),
        ds_begin = replicate dims 0, ds_end = replicate dims 0, ds_strides = replicate dims 0,
        final_shape_gather_indices = [], ds_shrink_axis_mask = 0, full_index = 0\<rparr>"

text \<open>The bounds of a dimension: index \<open>False\<close> for the begin and \<open>True\<close> for the end.\<close>

definition valid_range :: "int \<Rightarrow> int \<Rightarrow> bool \<Rightarrow> int" where
  "valid_range stride dim c = (if c then if stride > 0 then dim else dim - 1 else if stride > 0 then 0 else -1)"

definition canonical :: "int \<Rightarrow> int \<Rightarrow> bool \<Rightarrow> int \<Rightarrow> bool \<Rightarrow> int" where
  "canonical stride dim masked x c =
     (if masked then if stride > 0 then valid_range stride dim c else valid_range stride dim (\<not> c)
      else
        let x_fwd = if x < 0 then dim + x else x in
        if x_fwd < valid_range stride dim False then valid_range stride dim False
        else if x_fwd > valid_range stride dim True then valid_range stride dim True else x_fwd)"

record slice_out =
  processing_shape :: tensor_shape
  final_shape :: tensor_shape
  is_identity :: bool
  is_simple_slice :: bool
  slice_dim0 :: bool
  out_begin :: "int list"
  out_end :: "int list"

definition slice_size :: "int \<Rightarrow> int \<Rightarrow> int" where
  "slice_size interval_length stride =
     (if interval_length = 0 \<or> ((interval_length < 0) \<noteq> (stride < 0)) then 0
      else cdiv interval_length stride + (if cmod interval_length stride \<noteq> 0 then 1 else 0))"

text \<open>
  The body of the loop over the dimensions once the stride and the size are known: the new begin
  and end, and the size to add. \<open>valid\<close> says that both the begin and the end tensor are given.
  For a shrunk axis the code computes \<open>begin_i + 1\<close> before it checks the index; where that
  overflows the index is out of range, so that the exact sum of the model makes no difference.
\<close>

definition slice_interval ::
  "bool \<Rightarrow> bool \<Rightarrow> bool \<Rightarrow> bool \<Rightarrow> int \<Rightarrow> int \<Rightarrow> int \<Rightarrow> int \<Rightarrow> (int \<times> int \<times> int) status_or" where
  "slice_interval valid shrink bmask emask b e stride dim =
     (if shrink \<and> stride \<le> 0 then Err INVALID_ARGUMENT
      else if valid then
        if shrink then
          let x_fwd = if b < 0 then dim + b else b in
          if x_fwd < 0 \<or> x_fwd \<ge> dim then Err INVALID_ARGUMENT
          else Ok (x_fwd, x_fwd + 1, slice_size ((x_fwd + 1) - x_fwd) stride)
        else
          let b = canonical stride dim bmask b False; e = canonical stride dim emask e True in
          Ok (b, e, slice_size (e - b) stride)
      else if shrink then Ok (b, e, slice_size 1 stride)
      else if bmask \<and> emask \<and> dim > 0 then Ok (b, e, slice_size (if stride < 0 then - dim else dim) stride)
      else Ok (b, e, -1))"

definition slice_dim :: "dense_spec \<Rightarrow> tensor_shape \<Rightarrow> nat \<Rightarrow> slice_out \<Rightarrow> slice_out status_or option" where
  "slice_dim d input i r =
     (let stride = ds_strides d ! i; dim = dim_size True input i; shrink = mask_bit (ds_shrink_axis_mask d) i;
          bmask = mask_bit (ds_begin_mask d) i; emask = mask_bit (ds_end_mask d) i;
          valid = begin_valid d \<and> end_valid d in
      if stride = 0 then Some (Err INVALID_ARGUMENT)
      else if dim = -1 then do {
        s \<leftarrow> AddDim True (processing_shape r) (if shrink then 1 else -1);
        Some (Ok (r\<lparr>processing_shape := s\<rparr>))
      }
      else case slice_interval valid shrink bmask emask (out_begin r ! i) (out_end r ! i) stride dim of
        Inl err \<Rightarrow> Some (Err err)
      | Inr (b, e, sz) \<Rightarrow>
          let take_all = (if valid then stride = 1 \<and> b = 0 \<and> e = dim else stride = 1 \<and> bmask \<and> emask);
              dim0_all = (if valid then take_all else bmask \<and> emask) in
          do {
            s \<leftarrow> AddDim True (processing_shape r) sz;
            Some (Ok (r\<lparr>processing_shape := s, is_identity := is_identity r \<and> take_all,
              is_simple_slice := is_simple_slice r \<and> stride = 1,
              slice_dim0 := slice_dim0 r \<and> ((i = 0 \<and> stride = 1) \<or> dim0_all),
              out_begin := (out_begin r)[i := b], out_end := (out_end r)[i := e]\<rparr>))
          })"

fun slice_dims :: "dense_spec \<Rightarrow> tensor_shape \<Rightarrow> nat list \<Rightarrow> slice_out \<Rightarrow> slice_out status_or option" where
  "slice_dims d input [] r = Some (Ok r)"
| "slice_dims d input (i # is) r =
     (case slice_dim d input i r of
        None \<Rightarrow> None
      | Some (Inl err) \<Rightarrow> Some (Err err)
      | Some (Inr r) \<Rightarrow> slice_dims d input is r)"

fun gather_final :: "tensor_shape \<Rightarrow> int list \<Rightarrow> tensor_shape \<Rightarrow> tensor_shape option" where
  "gather_final processing [] final = Some final"
| "gather_final processing (g # gs) final =
     (if g \<ge> 0 then AddDim True final (dim_size True processing (nat g)) \<bind> gather_final processing gs
      else if g = kNewAxis then AddDim True final 1 \<bind> gather_final processing gs
      else gather_final processing gs final)"

text \<open>Step 1: whether an ellipsis is seen, and how many new axes follow it.\<close>

fun count_axes :: "uint32 \<Rightarrow> uint32 \<Rightarrow> nat list \<Rightarrow> bool \<Rightarrow> nat \<Rightarrow> bool \<times> nat" where
  "count_axes ellipsis_mask new_axis_mask [] seen n = (seen, n)"
| "count_axes ellipsis_mask new_axis_mask (i # is) seen n =
     count_axes ellipsis_mask new_axis_mask is (seen \<or> mask_bit ellipsis_mask i)
       (if seen \<and> mask_bit new_axis_mask i then n + 1 else n)"

definition make_sparse :: "index_tensor option \<Rightarrow> index_tensor option \<Rightarrow> index_tensor \<Rightarrow>
    uint32 \<Rightarrow> uint32 \<Rightarrow> uint32 \<Rightarrow> uint32 \<Rightarrow> uint32 \<Rightarrow> sparse_spec" where
  "make_sparse b e s begin_mask end_mask ellipsis_mask new_axis_mask shrink_axis_mask =
     (let n = NumElements s; (seen, add) = count_axes ellipsis_mask new_axis_mask [0..<n] False 0 in
      \<lparr>sp_dims = (if seen then n else n + 1), num_add_axis_after_ellipsis = add,
       begin_tensor = b, end_tensor = e, strides_tensor = s, sp_begin_mask = begin_mask, sp_end_mask = end_mask,
       sp_ellipsis_mask = mask_set (\<not> seen) n ellipsis_mask,
       sp_new_axis_mask = new_axis_mask, sp_shrink_axis_mask = shrink_axis_mask\<rparr>)"

definition ValidateStridedSliceOp :: "index_tensor option \<Rightarrow> index_tensor option \<Rightarrow> index_tensor \<Rightarrow> tensor_shape \<Rightarrow>
    uint32 \<Rightarrow> uint32 \<Rightarrow> uint32 \<Rightarrow> uint32 \<Rightarrow> uint32 \<Rightarrow> (slice_out \<times> int list) status_or option" where
  "ValidateStridedSliceOp b e s input begin_mask end_mask ellipsis_mask new_axis_mask shrink_axis_mask =
     (let begin_is_wrong = (case b of None \<Rightarrow> False
            | Some t \<Rightarrow> \<not> (IsVector t \<and> NumElements t = NumElements s \<and> NumElements t < 32));
          end_is_wrong = (case e of None \<Rightarrow> False | Some t \<Rightarrow> \<not> (IsVector t \<and> NumElements t = NumElements s)) in
      if begin_is_wrong \<or> end_is_wrong \<or> \<not> IsVector s then Some (Err INVALID_ARGUMENT)
      else if ellipsis_mask \<noteq> 0 \<and> ellipsis_mask AND (ellipsis_mask - 1) \<noteq> 0 then Some (Err INVALID_ARGUMENT)
      else if unknown_rank True input then None
      else if tensor_dtype s = DT_OTHER then None
      else
        let sp = make_sparse b e s begin_mask end_mask ellipsis_mask new_axis_mask shrink_axis_mask in
        case BuildDenseSpec (tensor_dtype s) sp (ndims_byte input) of
          None \<Rightarrow> None
        | Some (Inl err) \<Rightarrow> Some (Err err)
        | Some (Inr d) \<Rightarrow>
            let empty = \<lparr>shape_rep = REP16 [], ndims_byte = 0, num_elements = 1\<rparr> in
            case slice_dims d input [0..<ndims_byte input]
                   \<lparr>processing_shape = empty, final_shape = empty, is_identity = True, is_simple_slice = True,
                    slice_dim0 = True, out_begin = ds_begin d, out_end = ds_end d\<rparr> of
              None \<Rightarrow> None
            | Some (Inl err) \<Rightarrow> Some (Err err)
            | Some (Inr r) \<Rightarrow> do {
                f \<leftarrow> gather_final (processing_shape r) (final_shape_gather_indices d) (final_shape r);
                Some (Ok (r\<lparr>final_shape := f\<rparr>, ds_strides d))
              })"

text \<open>The second overload: the shapes of the result must be fully known.\<close>

definition ValidateStridedSliceOp_full :: "index_tensor option \<Rightarrow> index_tensor option \<Rightarrow> index_tensor \<Rightarrow> tensor_shape \<Rightarrow>
    uint32 \<Rightarrow> uint32 \<Rightarrow> uint32 \<Rightarrow> uint32 \<Rightarrow> uint32 \<Rightarrow> (slice_out \<times> int list) status_or option" where
  "ValidateStridedSliceOp_full b e s input begin_mask end_mask ellipsis_mask new_axis_mask shrink_axis_mask =
     (case ValidateStridedSliceOp b e s input begin_mask end_mask ellipsis_mask new_axis_mask shrink_axis_mask of
        Some (Inr (r, strides)) \<Rightarrow>
          if AsTensorShape (processing_shape r) = None \<or> AsTensorShape (final_shape r) = None then Some (Err INTERNAL)
          else Some (Ok (r, strides))
      | x \<Rightarrow> x)"


section \<open>One dimension\<close>

lemma cdiv_cmod_pos:
  assumes "0 < a" "0 < b"
  shows "cdiv a b = a div b" "cmod a b = a mod b" "cdiv (- a) (- b) = a div b" "cmod (- a) (- b) = - (a mod b)"
  using assms by (simp_all add: cdiv_def cmod_def algebra_simps minus_div_mult_eq_mod)

lemma div_count: "0 < s \<Longrightarrow> 0 < L \<Longrightarrow> (j < L div s + (if L mod s \<noteq> 0 then 1 else 0) \<longleftrightarrow> j * s < L)" for s L j :: int
proof -
  assume s: "0 < s" and "0 < L"
  define q r where "q = L div s" and "r = L mod s"
  have L: "L = q * s + r" and r: "0 \<le> r" "r < s" using s by (simp_all add: q_def r_def)
  show ?thesis
  proof (cases "r = 0")
    case True
    then show ?thesis using L s unfolding q_def [symmetric] r_def [symmetric] by simp
  next
    case False
    have "j \<le> q" if "j * s < q * s + r"
    proof (rule ccontr)
      assume "\<not> j \<le> q"
      then have "(q + 1) * s \<le> j * s" using s by (intro mult_right_mono) auto
      then show False using that r by (simp add: algebra_simps)
    qed
    moreover have "j * s < q * s + r" if "j \<le> q"
      using mult_right_mono [OF that, of s] s False r by linarith
    ultimately show ?thesis using False L unfolding q_def [symmetric] r_def [symmetric] by auto
  qed
qed

text \<open>The computed size counts the steps that stay on the near side of the end.\<close>

lemma slice_size_count:
  assumes "stride \<noteq> 0" "0 \<le> j"
  shows "j < slice_size L stride \<longleftrightarrow> (if stride > 0 then j * stride < L else L < j * stride)"
proof -
  consider "0 < stride" "0 < L" | "stride < 0" "L < 0" | "0 < stride" "L \<le> 0" | "stride < 0" "0 \<le> L"
    using assms by linarith
  then show ?thesis
  proof cases
    case 1
    then show ?thesis using div_count [of stride L j] by (simp add: slice_size_def cdiv_cmod_pos)
  next
    case 2
    then show ?thesis using div_count [of "- stride" "- L" j] cdiv_cmod_pos(3,4) [of "- L" "- stride"]
      by (simp add: slice_size_def)
  next
    case 3
    have "\<not> j * stride < L" using mult_nonneg_nonneg [of j stride] 3 assms by linarith
    with 3 show ?thesis using assms by (auto simp: slice_size_def)
  next
    case 4
    have "\<not> L < j * stride" using mult_nonneg_nonpos [of j stride] 4 assms by linarith
    with 4 show ?thesis using assms by (auto simp: slice_size_def)
  qed
qed

lemma slice_size_nonneg: "stride \<noteq> 0 \<Longrightarrow> 0 \<le> slice_size L stride"
  using cdiv_cmod_pos(1) [of L stride] cdiv_cmod_pos(3) [of "- L" "- stride"]
    pos_imp_zdiv_nonneg_iff [of "- stride" "- L"]
  by (auto simp: slice_size_def pos_imp_zdiv_nonneg_iff)

lemma canonical_range:
  assumes "0 \<le> dim" "stride \<noteq> 0"
  shows "(if stride > 0 then 0 else -1) \<le> canonical stride dim m x c"
    "canonical stride dim m x c \<le> (if stride > 0 then dim else dim - 1)"
  using assms by (auto simp: canonical_def valid_range_def Let_def)

lemma slice_interval_bounds:
  assumes ok: "slice_interval True shrink bm em b e stride dim = Ok (b', e', sz)" and "stride \<noteq> 0" "0 \<le> dim"
  shows "0 \<le> sz" "sz \<le> dim" "shrink \<Longrightarrow> sz = 1"
    "0 \<le> j \<Longrightarrow> j < sz \<longleftrightarrow> (if stride > 0 then b' + j * stride < e' else e' < b' + j * stride)"
    "0 \<le> j \<Longrightarrow> j < sz \<Longrightarrow> 0 \<le> b' + j * stride \<and> b' + j * stride < dim"
proof -
  have sz: "sz = slice_size (e' - b') stride" and
    r: "(if stride > 0 then 0 else -1) \<le> b'" "(if stride > 0 then 0 else -1) \<le> e'"
    "b' \<le> (if stride > 0 then dim else dim - 1)" "e' \<le> (if stride > 0 then dim else dim - 1)"
    using ok canonical_range [OF assms(3,2)] assms(2) by (auto simp: slice_interval_def Let_def split: if_splits)
  show z: "0 \<le> sz" using slice_size_nonneg [OF assms(2)] sz by simp
  show c: "j < sz \<longleftrightarrow> (if stride > 0 then b' + j * stride < e' else e' < b' + j * stride)" if "0 \<le> j" for j
    using slice_size_count [OF assms(2) that] sz by auto
  show bd: "0 \<le> b' + j * stride \<and> b' + j * stride < dim" if "0 \<le> j" "j < sz" for j
  proof (cases "stride > 0")
    case True
    moreover have "0 \<le> j * stride" using True that(1) by simp
    ultimately show ?thesis using c [OF that(1)] that(2) r by auto
  next
    case False
    moreover have "j * stride \<le> 0" using False that(1) by (simp add: mult_nonneg_nonpos)
    ultimately show ?thesis using c [OF that(1)] that(2) r by auto
  qed
  show "sz \<le> dim"
  proof (cases "sz \<le> 0")
    case False
    then have l: "0 \<le> b' + (sz - 1) * stride" "b' + (sz - 1) * stride < dim" and f: "0 \<le> b'" "b' < dim"
      using bd [of "sz - 1"] bd [of 0] by auto
    show ?thesis
    proof (cases "stride > 0")
      case True
      then have "sz - 1 \<le> (sz - 1) * stride" using False mult_left_mono [of 1 stride "sz - 1"] by simp
      then show ?thesis using l(2) f(1) by linarith
    next
      case neg: False
      then have "(sz - 1) * stride \<le> - (sz - 1)" using False assms(2) mult_left_mono [of stride "- 1" "sz - 1"] by simp
      then show ?thesis using l(1) f(2) by linarith
    qed
  qed (use assms(3) in linarith)
  show "sz = 1" if shrink
  proof -
    have "e' = b' + 1" "0 < stride" using ok that by (auto simp: slice_interval_def Let_def split: if_splits)
    then show ?thesis using c [of 0] c [of 1] z by auto
  qed
qed

text \<open>What is inferred without the begin and end tensors is what they would give.\<close>

lemma slice_interval_infer:
  assumes "slice_interval False shrink bm em b0 e0 stride dim = Ok (b1, e1, k)" "k \<noteq> -1"
    and "slice_interval True shrink bm em b e stride dim = Ok (b', e', sz)"
    and "stride \<noteq> 0"
  shows "sz = k"
  using assms by (auto simp: slice_interval_def canonical_def valid_range_def Let_def split: if_splits)

lemma slice_interval_True_no_error:
  "slice_interval True False bm em b e stride dim = Ok (canonical stride dim bm b False, canonical stride dim em e True,
     slice_size (canonical stride dim em e True - canonical stride dim bm b False) stride)"
  by (simp add: slice_interval_def Let_def)


section \<open>The dense specification\<close>

lemma mask_bit_iff: "mask_bit m i \<longleftrightarrow> bit m i"
proof -
  have "push_bit i 1 AND m = (if bit m i then push_bit i 1 else 0)"
    by (rule bit_word_eqI) (auto simp: bit_simps)
  moreover have "(push_bit i 1 :: uint32) \<noteq> 0" if "bit m i"
  proof -
    have "i < 32" using that by (auto dest: bit_imp_le_length)
    then have b: "bit (push_bit i 1 :: uint32) i" by (simp add: bit_simps)
    show ?thesis
    proof
      assume z: "(push_bit i 1 :: uint32) = 0"
      show False using b unfolding z by simp
    qed
  qed
  ultimately show ?thesis by (auto simp: mask_bit_def)
qed

lemma mask_bit_set: "f < 32 \<Longrightarrow> mask_bit (mask_set b f m) i \<longleftrightarrow> b \<and> i = f \<or> mask_bit m i"
  by (auto simp: mask_bit_iff mask_set_def bit_simps)

text \<open>Clearing the lowest bit of a word leaves nothing exactly when at most one bit is set.\<close>

lemma single_bit:
  fixes m :: uint32
  assumes "m AND (m - 1) = 0" "bit m i" "bit m j"
  shows "i = j"
proof -
  have no: False if ij: "i < j" and bi: "bit m i" and bj: "bit m j" for i j
  proof -
    have m0: "m \<noteq> 0" using bi by auto
    have j: "j < 32" using bj by (auto dest: bit_imp_le_length)
    have "take_bit j (unat m) \<noteq> 0"
    proof
      assume "take_bit j (unat m) = 0"
      then have "\<not> bit (take_bit j (unat m)) i" by simp
      then show False using ij bi by (simp add: bit_take_bit_iff bit_unsigned_iff)
    qed
    then have "0 < unat m mod 2 ^ j" by (simp add: take_bit_eq_mod)
    moreover have lt: "unat m mod 2 ^ j < 2 ^ j" by (rule mod_less_divisor) simp
    ultimately have "unat m - 1 = (unat m mod 2 ^ j - 1) + unat m div 2 ^ j * 2 ^ j"
      using div_mult_mod_eq [of "unat m" "2 ^ j"] by linarith
    moreover have "unat m mod 2 ^ j - 1 < 2 ^ j" using lt by (rule less_imp_diff_less)
    ultimately have "(unat m - 1) div 2 ^ j = unat m div 2 ^ j" by simp
    then have "bit (unat m - 1) j \<longleftrightarrow> bit (unat m) j" by (simp add: bit_iff_odd)
    moreover have "unat (m - 1) = unat m - 1" using m0 by (simp add: unat_minus_one)
    moreover have "bit (unat m) j" using bj by (simp add: bit_unsigned_iff)
    ultimately have "bit (unat (m - 1)) j" by simp
    then have "bit (m - 1) j" by (simp add: bit_unsigned_iff)
    then have "bit (m AND (m - 1)) j" using bj by (simp add: bit_simps)
    then show False using assms(1) by simp
  qed
  show ?thesis using no [of i j] no [of j i] assms by (cases i j rule: linorder_cases) auto
qed

text \<open>
  The gather list covers the first \<open>f\<close> dimensions in order: each of them once or dropped as shrunk,
  with new axes in between.
\<close>

inductive gather_ok :: "(nat \<Rightarrow> bool) \<Rightarrow> int list \<Rightarrow> nat \<Rightarrow> bool" for S where
  gather_Nil: "gather_ok S [] 0"
| gather_axis: "gather_ok S g f \<Longrightarrow> gather_ok S (g @ [int f]) (Suc f)"
| gather_shrink: "gather_ok S g f \<Longrightarrow> S f \<Longrightarrow> gather_ok S (g @ [-1]) (Suc f)"
| gather_new: "gather_ok S g f \<Longrightarrow> gather_ok S (g @ [-2]) f"

lemma gather_ok_mono: "gather_ok S g f \<Longrightarrow> (\<And>i. i < f \<Longrightarrow> S i \<Longrightarrow> S' i) \<Longrightarrow> gather_ok S' g f"
  by (induction rule: gather_ok.induct) (auto intro: gather_ok.intros)

definition dense_inv :: "nat \<Rightarrow> nat \<Rightarrow> dense_spec \<Rightarrow> bool" where
  "dense_inv n news d \<longleftrightarrow> ds_dims d = n \<and> length (ds_begin d) = n \<and> length (ds_end d) = n \<and> length (ds_strides d) = n \<and>
     full_index d \<le> n \<and> gather_ok (mask_bit (ds_shrink_axis_mask d)) (final_shape_gather_indices d) (full_index d) \<and>
     length (final_shape_gather_indices d) \<le> full_index d + news"

lemma dense_inv_mono: "dense_inv n a d \<Longrightarrow> a \<le> b \<Longrightarrow> dense_inv n b d"
  by (simp add: dense_inv_def)

lemma ellipsis_fill:
  assumes "dense_inv n news d" "full_index d \<le> m" "m \<le> n"
  shows "dense_inv n news (fold ellipsis_step [full_index d..<m] d) \<and>
    full_index (fold ellipsis_step [full_index d..<m] d) = m \<and>
    begin_valid (fold ellipsis_step [full_index d..<m] d) = begin_valid d \<and>
    end_valid (fold ellipsis_step [full_index d..<m] d) = end_valid d"
  using assms(2,3)
proof (induction m rule: dec_induct)
  case base
  then show ?case using assms(1) by simp
next
  case (step m)
  let ?d = "fold ellipsis_step [full_index d..<m] d"
  have IH: "dense_inv n news ?d" "full_index ?d = m" "begin_valid ?d = begin_valid d" "end_valid ?d = end_valid d"
    using step by auto
  have f: "fold ellipsis_step [full_index d..<Suc m] d = ellipsis_step m ?d" using step by simp
  have "gather_ok (mask_bit (ds_shrink_axis_mask ?d)) (final_shape_gather_indices ?d) m" using IH by (simp add: dense_inv_def)
  from gather_axis [OF this] show ?case unfolding f using IH step.prems by (simp add: dense_inv_def ellipsis_step_def)
qed

lemma new_axis_inv:
  "dense_inv n news d \<Longrightarrow> dense_inv n (Suc news) (d\<lparr>final_shape_gather_indices := final_shape_gather_indices d @ [-2]\<rparr>)"
  by (auto simp: dense_inv_def intro: gather_new)

lemma real_axis_inv:
  assumes "dense_inv n news d" "full_index d < n" "n < 32" "real_axis sp T i d = Some d'"
  shows "dense_inv n news d' \<and> full_index d' = Suc (full_index d) \<and> begin_valid d' = begin_valid d \<and> end_valid d' = end_valid d"
proof -
  let ?f = "full_index d" and ?sh = "mask_bit (sp_shrink_axis_mask sp) i"
  let ?m = "mask_set ?sh ?f (ds_shrink_axis_mask d)"
  have "gather_ok (mask_bit ?m) (final_shape_gather_indices d) ?f"
    by (rule gather_ok_mono [of "mask_bit (ds_shrink_axis_mask d)"]) (use assms in \<open>auto simp: dense_inv_def mask_bit_set\<close>)
  then have "gather_ok (mask_bit ?m) (final_shape_gather_indices d @ [if ?sh then -1 else int ?f]) (Suc ?f)"
    using assms by (auto simp: mask_bit_set intro: gather_ok.intros)
  then show ?thesis using assms
    by (auto simp: real_axis_def dense_inv_def Let_def split: option.splits Option.bind_splits)
qed

abbreviation (input) is_real :: "sparse_spec \<Rightarrow> nat \<Rightarrow> bool" where
  "is_real sp i \<equiv> \<not> mask_bit (sp_ellipsis_mask sp) i \<and> \<not> mask_bit (sp_new_axis_mask sp) i"

lemma build_no_ellipsis:
  assumes "dense_inv n news d" "n < 32" "\<forall>i \<in> set is. \<not> mask_bit (sp_ellipsis_mask sp) i"
    and "build_loop sp T is d = Some (Ok d')"
  shows "dense_inv n (news + length is) d' \<and> full_index d' = full_index d + length (filter (is_real sp) is) \<and>
    begin_valid d' = begin_valid d \<and> end_valid d' = end_valid d"
  using assms
proof (induction "is" arbitrary: d news)
  case (Cons i "is")
  have lo: "full_index d \<le> n" "length (ds_begin d) = n" using Cons.prems(1) by (auto simp: dense_inv_def)
  show ?case
  proof (cases "mask_bit (sp_new_axis_mask sp) i")
    case True
    then show ?thesis using Cons.IH [OF new_axis_inv [OF Cons.prems(1)]] Cons.prems by auto
  next
    case False
    then obtain d1 where d1: "full_index d < n" "real_axis sp T i d = Some d1" "build_loop sp T is d1 = Some (Ok d')"
      using Cons.prems lo by (auto split: if_splits Option.bind_splits)
    then have i1: "dense_inv n news d1" "full_index d1 = Suc (full_index d)"
      "begin_valid d1 = begin_valid d" "end_valid d1 = end_valid d"
      using real_axis_inv [OF Cons.prems(1) d1(1) Cons.prems(2) d1(2)] by auto
    have "dense_inv n (news + length is) d'" using Cons.IH [OF i1(1)] Cons.prems d1 by auto
    then have "dense_inv n (news + length (i # is)) d'" by (auto simp: dense_inv_def)
    then show ?thesis using Cons.IH [OF i1(1)] Cons.prems d1 i1 False by auto
  qed
qed simp

lemma build_loop_append:
  "build_loop sp T (is @ js) d = (case build_loop sp T is d of
     None \<Rightarrow> None | Some (Inl err) \<Rightarrow> Some (Inl err) | Some (Inr d') \<Rightarrow> build_loop sp T js d')"
  by (induction sp T "is" d rule: build_loop.induct) (auto split: Option.bind_splits)


lemma upt_split: "p < n \<Longrightarrow> [0..<n] = [0..<p] @ p # [Suc p..<n]"
  using upt_add_eq_append [of 0 p "n - p"] by (simp add: upt_conv_Cons)

lemma count_seen:
  "count_axes e m is True k = (True, k + length (filter (mask_bit m) is))"
  by (induction "is" arbitrary: k) auto

lemma count_unseen:
  "\<forall>i \<in> set is. \<not> mask_bit e i \<Longrightarrow> count_axes e m (is @ js) False k = count_axes e m js False k"
  by (induction "is") auto

lemma filter_real_length:
  "\<forall>i \<in> set is. \<not> mask_bit (sp_ellipsis_mask sp) i \<Longrightarrow>
     length (filter (is_real sp) is) + length (filter (mask_bit (sp_new_axis_mask sp)) is) = length is"
  by (induction "is") auto

text \<open>There is exactly one ellipsis, and the number of new axes after it is what was counted.\<close>

lemma make_sparse_split:
  assumes sp: "sp = make_sparse b e s bm em el na sh" and n: "NumElements s < 32" and single: "el \<noteq> 0 \<Longrightarrow> el AND (el - 1) = 0"
  obtains p where "p < sp_dims sp" "mask_bit (sp_ellipsis_mask sp) p"
    "\<forall>i \<in> set [0..<p]. \<not> mask_bit (sp_ellipsis_mask sp) i" "\<forall>i \<in> set [Suc p..<sp_dims sp]. \<not> mask_bit (sp_ellipsis_mask sp) i"
    "num_add_axis_after_ellipsis sp = length (filter (mask_bit (sp_new_axis_mask sp)) [Suc p..<sp_dims sp])"
    "sp_dims sp \<le> 32"
proof (cases "\<exists>p < NumElements s. mask_bit el p")
  case True
  then obtain p where p: "p < NumElements s" "mask_bit el p" by blast
  have u: "\<not> mask_bit el i" if "i \<noteq> p" for i
    using single_bit [of el i p] single that p(2) by (cases "el = 0") (auto simp: mask_bit_iff)
  have split: "[0..<NumElements s] = [0..<p] @ p # [Suc p..<NumElements s]"
    by (rule upt_split [OF p(1)])
  have "count_axes el na [0..<NumElements s] False 0 = (True, length (filter (mask_bit na) [Suc p..<NumElements s]))"
    unfolding split by (subst count_unseen) (use u p in \<open>auto simp: count_seen\<close>)
  then have f: "sp_dims sp = NumElements s" "num_add_axis_after_ellipsis sp = length (filter (mask_bit na) [Suc p..<NumElements s])"
    "sp_ellipsis_mask sp = el" "sp_new_axis_mask sp = na"
    by (simp_all add: sp make_sparse_def mask_set_def Let_def)
  show ?thesis by (rule that [of p]) (use f p u n in auto)
next
  case False
  then have "count_axes el na [0..<NumElements s] False 0 = (False, 0)"
    using count_unseen [of "[0..<NumElements s]" el na "[]" 0] by auto
  then have f: "sp_dims sp = Suc (NumElements s)" "num_add_axis_after_ellipsis sp = 0"
    "sp_ellipsis_mask sp = mask_set True (NumElements s) el"
    by (simp_all add: sp make_sparse_def Let_def)
  show ?thesis by (rule that [of "NumElements s"]) (use f False n in \<open>auto simp: mask_bit_set\<close>)
qed

lemma make_sparse_sel:
  "begin_tensor (make_sparse b e s bm em el na sh) = b" "end_tensor (make_sparse b e s bm em el na sh) = e"
  "strides_tensor (make_sparse b e s bm em el na sh) = s"
  by (simp_all add: make_sparse_def Let_def split: prod.splits)

lemma BuildDenseSpec_inv:
  assumes sp: "sp = make_sparse b e s bm em el na sh" and n: "NumElements s < 32" and single: "el \<noteq> 0 \<Longrightarrow> el AND (el - 1) = 0"
    and dims: "dims < 32" and d: "BuildDenseSpec T sp dims = Some (Ok d)"
  shows "dense_inv dims 32 d \<and> full_index d = dims \<and> begin_valid d = (b \<noteq> None) \<and> end_valid d = (e \<noteq> None)"
proof -
  obtain p where p: "p < sp_dims sp" "mask_bit (sp_ellipsis_mask sp) p"
    "\<forall>i \<in> set [0..<p]. \<not> mask_bit (sp_ellipsis_mask sp) i" "\<forall>i \<in> set [Suc p..<sp_dims sp]. \<not> mask_bit (sp_ellipsis_mask sp) i"
    "num_add_axis_after_ellipsis sp = length (filter (mask_bit (sp_new_axis_mask sp)) [Suc p..<sp_dims sp])"
    "sp_dims sp \<le> 32"
    using make_sparse_split [OF sp n single] by blast
  have split: "[0..<sp_dims sp] = [0..<p] @ p # [Suc p..<sp_dims sp]"
    by (rule upt_split [OF p(1)])
  let ?d0 = "\<lparr>ds_dims = dims, ds_begin_mask = 0, ds_end_mask = 0,
        begin_valid = (begin_tensor sp \<noteq> None), end_valid = (end_tensor sp \<noteq> None),
        ds_begin = replicate dims 0, ds_end = replicate dims 0, ds_strides = replicate dims 0,
        final_shape_gather_indices = [], ds_shrink_axis_mask = 0, full_index = 0\<rparr>"
  let ?rest = "[Suc p..<sp_dims sp]" let ?real = "length (filter (is_real sp) ?rest)"
  have i0: "dense_inv dims 0 ?d0" by (simp add: dense_inv_def gather_Nil)
  obtain d1 where d1: "build_loop sp T [0..<p] ?d0 = Some (Ok d1)" "build_loop sp T (p # ?rest) d1 = Some (Ok d)"
    using d unfolding BuildDenseSpec_def split build_loop_append by (auto split: option.splits sum.splits simp del: build_loop.simps)
  have i1: "dense_inv dims p d1" "begin_valid d1 = (b \<noteq> None)" "end_valid d1 = (e \<noteq> None)"
    using build_no_ellipsis [OF i0 dims p(3) d1(1)] by (auto simp: sp make_sparse_sel)
  have nx: "next_index sp dims p = int dims - int ?real"
    using filter_real_length [OF p(4)] p(1,5) by (simp add: next_index_def)
  let ?m = "nat (int dims - int ?real)"
  have dd: "ds_dims d1 = dims" "full_index d1 \<le> dims" using i1 by (auto simp: dense_inv_def)
  let ?d2 = "fold ellipsis_step [full_index d1..<?m] d1"
  have run: "build_loop sp T ?rest ?d2 = Some (Ok d)" using d1(2) p(2) nx dd by simp
  show ?thesis
  proof (cases "full_index d1 \<le> ?m")
    case True
    then have i2: "dense_inv dims p ?d2" "full_index ?d2 = ?m" "begin_valid ?d2 = (b \<noteq> None)" "end_valid ?d2 = (e \<noteq> None)"
      using ellipsis_fill [OF i1(1) True] i1 by auto
    note l = build_no_ellipsis [OF i2(1) dims p(4) run]
    have "full_index d \<le> dims" using l by (auto simp: dense_inv_def)
    moreover have "dense_inv dims 32 d" by (rule dense_inv_mono [OF conjunct1 [OF l]]) (use p(1,6) in simp)
    ultimately show ?thesis using l i2 by auto
  next
    case False
    then have e2: "?d2 = d1" by simp
    have "full_index d = full_index d1 + ?real" "full_index d \<le> dims"
      using build_no_ellipsis [OF i1(1) dims p(4) run [unfolded e2]] unfolding dense_inv_def by blast+
    then show ?thesis using False by linarith
  qed
qed

lemma build_loop_runs:
  assumes "tensor_dtype (strides_tensor sp) = T" "\<forall>t \<in> set_option (begin_tensor sp). tensor_dtype t = T"
    "\<forall>t \<in> set_option (end_tensor sp). tensor_dtype t = T"
  shows "build_loop sp T is d \<noteq> None"
proof -
  have "\<exists>d'. real_axis sp T i d = Some d'" for i d
    using assms by (auto simp: real_axis_def flat_def Let_def split: option.splits)
  then have r: "real_axis sp T i d \<noteq> None" for i d by (metis option.distinct(1))
  show ?thesis
  proof (induction "is" arbitrary: d)
    case (Cons i "is")
    then show ?case using r [of i d] by auto
  qed simp
qed


section \<open>The loop over the dimensions\<close>

text \<open>
  What holds of dimension \<open>i\<close> after the loop has passed it: the selected indices are those between
  the canonical begin and end, and all lie in the dimension.
\<close>

definition dim_ok :: "dense_spec \<Rightarrow> int list \<Rightarrow> slice_out \<Rightarrow> int list \<Rightarrow> nat \<Rightarrow> bool" where
  "dim_ok d ds r vs i \<longleftrightarrow>
     (let b = out_begin r ! i; e = out_end r ! i; stride = ds_strides d ! i; n = ds ! i; sz = vs ! i in
      stride \<noteq> 0 \<and> 0 \<le> sz \<and> sz \<le> n \<and> (mask_bit (ds_shrink_axis_mask d) i \<longrightarrow> sz = 1) \<and>
      (\<forall>j \<ge> 0. (j < sz \<longleftrightarrow> (if stride > 0 then b + j * stride < e else e < b + j * stride)) \<and>
         (j < sz \<longrightarrow> 0 \<le> b + j * stride \<and> b + j * stride < n)) \<and>
      (is_identity r \<longrightarrow> stride = 1 \<and> b = 0 \<and> sz = n) \<and>
      (slice_dim0 r \<longrightarrow> stride = 1 \<and> (0 < i \<longrightarrow> b = 0 \<and> sz = n)))"

lemma dim_okD:
  assumes "dim_ok d ds r vs i"
  shows "ds_strides d ! i \<noteq> 0" "0 \<le> vs ! i" "vs ! i \<le> ds ! i" "mask_bit (ds_shrink_axis_mask d) i \<Longrightarrow> vs ! i = 1"
  using assms unfolding dim_ok_def Let_def by blast+

definition slice_inv :: "dense_spec \<Rightarrow> int list \<Rightarrow> nat \<Rightarrow> slice_out \<Rightarrow> int list \<Rightarrow> bool" where
  "slice_inv d ds k r vs \<longleftrightarrow> shape_is True (processing_shape r) vs \<and> length vs = k \<and>
     length (out_begin r) = length ds \<and> length (out_end r) = length ds \<and>
     final_shape r = \<lparr>shape_rep = REP16 [], ndims_byte = 0, num_elements = 1\<rparr> \<and> (\<forall>i < k. dim_ok d ds r vs i)"

lemma slice_inv_le:
  assumes "slice_inv d ds k r vs" "k \<le> length ds"
  shows "list_all2 (\<lambda>v d. 0 \<le> v \<and> v \<le> d) vs (take k ds)"
  using assms by (auto simp: slice_inv_def dim_ok_def list_all2_conv_all_nth Let_def)

lemma slice_dim_step:
  assumes inv: "slice_inv d ds k r vs" and k: "k < length ds"
    and input: "shape_is True input ds" "\<forall>n \<in> set ds. 0 \<le> n" "prefixes_ok True [] ds"
    and valid: "begin_valid d" "end_valid d" and step: "slice_dim d input k r = res"
  shows "(\<exists>err. res = Some (Err err)) \<or> (\<exists>r' v. res = Some (Ok r') \<and> slice_inv d ds (Suc k) r' (vs @ [v]))"
proof -
  let ?st = "ds_strides d ! k" and ?sh = "mask_bit (ds_shrink_axis_mask d) k" and ?n = "ds ! k"
  let ?bm = "mask_bit (ds_begin_mask d) k" and ?em = "mask_bit (ds_end_mask d) k"
  let ?iv = "slice_interval True ?sh ?bm ?em (out_begin r ! k) (out_end r ! k) ?st ?n"
  have n: "dim_size True input k = ?n" "0 \<le> ?n" using dim_size_shape [OF input(1)] k input(2) by auto
  show ?thesis
  proof (cases "?st = 0 \<or> (\<exists>err. ?iv = Err err)")
    case True
    then show ?thesis using step n valid by (auto simp: slice_dim_def Let_def)
  next
    case False
    then obtain b e sz where iv: "?iv = Ok (b, e, sz)" and st: "?st \<noteq> 0" by (cases ?iv) auto
    note bd = slice_interval_bounds [OF iv st n(2)]
    have le: "list_all2 (\<lambda>v d. 0 \<le> v \<and> v \<le> d) (vs @ [sz]) (take (Suc k) ds)"
      using slice_inv_le [OF inv] k bd(1,2) by (auto simp: take_Suc_conv_app_nth intro: list_all2_appendI)
    have "sizes_ok True (take (Suc k) ds)" using input(3) k by (simp add: prefixes_ok_def Suc_leI)
    from sizes_ok_le [OF le this] have ok: "sizes_ok True (vs @ [sz])" .
    then have sb: "sz < 2 ^ 63" by (simp add: sizes_ok_def)
    obtain s' where s': "AddDim True (processing_shape r) sz = Some s'" "shape_is True s' (vs @ [sz])"
      using AddDim_shape [of True "processing_shape r" vs sz] inv ok sb bd(1) by (auto simp: slice_inv_def)
    let ?all = "?st = 1 \<and> b = 0 \<and> e = ?n"
    let ?r = "r\<lparr>processing_shape := s', is_identity := is_identity r \<and> ?all, is_simple_slice := is_simple_slice r \<and> ?st = 1,
      slice_dim0 := slice_dim0 r \<and> ((k = 0 \<and> ?st = 1) \<or> ?all), out_begin := (out_begin r)[k := b], out_end := (out_end r)[k := e]\<rparr>"
    have res: "res = Some (Ok ?r)" using step n valid iv st s'(1) by (simp add: slice_dim_def Let_def)
    have lens: "length vs = k" "length (out_begin r) = length ds" "length (out_end r) = length ds" using inv by (auto simp: slice_inv_def)
    have "dim_ok d ds ?r (vs @ [sz]) i" if "i < k" for i
    proof -
      have "dim_ok d ds r vs i" using inv that by (simp add: slice_inv_def)
      then show ?thesis using that lens by (simp add: dim_ok_def Let_def nth_append)
    qed
    moreover have "dim_ok d ds ?r (vs @ [sz]) k"
    proof -
      have "sz = ?n" if "?all" using bd(4) [of sz] bd(4) [of ?n] bd(1,2) n(2) that by auto
      then show ?thesis using bd st lens k by (auto simp: dim_ok_def Let_def nth_append)
    qed
    ultimately have "slice_inv d ds (Suc k) ?r (vs @ [sz])"
      using inv s'(2) lens by (auto simp: slice_inv_def less_Suc_eq)
    then show ?thesis using res by blast
  qed
qed

lemma slice_dims_append:
  "slice_dims d input (is @ js) r = (case slice_dims d input is r of
     None \<Rightarrow> None | Some (Inl err) \<Rightarrow> Some (Inl err) | Some (Inr r') \<Rightarrow> slice_dims d input js r')"
  by (induction d input "is" r rule: slice_dims.induct) (auto split: option.splits sum.splits)

lemma slice_dims_inv:
  assumes "slice_inv d ds 0 r []" "shape_is True input ds" "\<forall>n \<in> set ds. 0 \<le> n" "prefixes_ok True [] ds"
    and "begin_valid d" "end_valid d" "k \<le> length ds"
  shows "(\<exists>err. slice_dims d input [0..<k] r = Some (Err err)) \<or>
    (\<exists>r' vs. slice_dims d input [0..<k] r = Some (Ok r') \<and> slice_inv d ds k r' vs)"
  using assms(7)
proof (induction k)
  case 0
  then show ?case using assms(1) by auto
next
  case (Suc k)
  then consider (err) err where "slice_dims d input [0..<k] r = Some (Err err)"
    | (ok) r' vs where "slice_dims d input [0..<k] r = Some (Ok r')" "slice_inv d ds k r' vs" by auto
  then show ?case
  proof cases
    case err
    then show ?thesis by (simp add: slice_dims_append)
  next
    case ok
    have "k < length ds" using Suc.prems by simp
    from slice_dim_step [OF ok(2) this assms(2-6) refl] show ?thesis using ok(1) by (auto simp: slice_dims_append)
  qed
qed

section \<open>The final shape\<close>

lemma gather_final_append:
  "gather_final p (g @ h) s = gather_final p g s \<bind> gather_final p h"
  by (induction p g s rule: gather_final.induct) (auto split: Option.bind_splits)

lemma gather_final_shape:
  assumes "gather_ok S g f" "f \<le> length vs" "\<forall>i < f. S i \<longrightarrow> vs ! i = 1" "\<forall>v \<in> set vs. 0 \<le> v"
    and "prefixes_ok True [] vs" "shape_is True p vs" "length g \<le> 254"
  shows "\<exists>s fs. gather_final p g \<lparr>shape_rep = REP16 [], ndims_byte = 0, num_elements = 1\<rparr> = Some s \<and> shape_is True s fs \<and>
    (\<forall>v \<in> set fs. 0 \<le> v) \<and> prod_list fs = prod_list (take f vs) \<and> length fs \<le> length g"
  using assms
proof (induction rule: gather_ok.induct)
  case gather_Nil
  then show ?case using shape_is_empty by fastforce
next
  case (gather_axis g f)
  then obtain s fs where s: "gather_final p g \<lparr>shape_rep = REP16 [], ndims_byte = 0, num_elements = 1\<rparr> = Some s" "shape_is True s fs"
    "\<forall>v \<in> set fs. 0 \<le> v" "prod_list fs = prod_list (take f vs)" "length fs \<le> length g" by auto
  have f: "f < length vs" using gather_axis.prems by simp
  have ok: "sizes_ok True (take (Suc f) vs)" using gather_axis.prems by (simp add: prefixes_ok_def)
  have v: "vs ! f < 2 ^ 63" "0 \<le> vs ! f" using ok f gather_axis.prems(3) by (auto simp: sizes_ok_def take_Suc_conv_app_nth)
  have e: "elements (fs @ [vs ! f]) = prod_list (take (Suc f) vs)" "elements (take (Suc f) vs) = prod_list (take (Suc f) vs)"
    using s(3,4) v f elements_known [of "fs @ [vs ! f]"] elements_known [of "take (Suc f) vs"] gather_axis.prems(3)
    by (auto simp: take_Suc_conv_app_nth dest: in_set_takeD)
  have "sizes_ok True (fs @ [vs ! f])"
    using shape_is_sizes [OF s(2)] ok e v s(5) gather_axis.prems(6) by (auto simp: sizes_ok_def)
  then obtain s' where "AddDim True s (vs ! f) = Some s'" "shape_is True s' (fs @ [vs ! f])"
    using AddDim_shape [OF s(2), of "vs ! f"] v by auto
  then show ?case using s v f dim_size_shape [OF gather_axis.prems(5) f]
    by (auto simp: gather_final_append take_Suc_conv_app_nth intro!: exI [of _ "fs @ [vs ! f]"])
next
  case (gather_shrink g f)
  then show ?case by (fastforce simp: gather_final_append take_Suc_conv_app_nth)
next
  case (gather_new g f)
  then obtain s fs where s: "gather_final p g \<lparr>shape_rep = REP16 [], ndims_byte = 0, num_elements = 1\<rparr> = Some s" "shape_is True s fs"
    "\<forall>v \<in> set fs. 0 \<le> v" "prod_list fs = prod_list (take f vs)" "length fs \<le> length g" by auto
  have "elements (fs @ [1]) = elements fs" using s(3) by (simp add: elements_known)
  then have "sizes_ok True (fs @ [1])"
    using shape_is_sizes [OF s(2)] s(5) gather_new.prems(6) by (auto simp: sizes_ok_def)
  then obtain s' where "AddDim True s 1 = Some s'" "shape_is True s' (fs @ [1])"
    using AddDim_shape [OF s(2), of 1] by auto
  then show ?case using s by (auto simp: gather_final_append intro!: exI [of _ "fs @ [1]"])
qed


section \<open>Inference without the index tensors\<close>

text \<open>Two dense specifications that differ only in their begin and end indices.\<close>

definition same_spec :: "dense_spec \<Rightarrow> dense_spec \<Rightarrow> bool" where
  "same_spec d0 d \<longleftrightarrow> ds_dims d0 = ds_dims d \<and> ds_begin_mask d0 = ds_begin_mask d \<and> ds_end_mask d0 = ds_end_mask d \<and>
     ds_shrink_axis_mask d0 = ds_shrink_axis_mask d \<and> ds_strides d0 = ds_strides d \<and>
     final_shape_gather_indices d0 = final_shape_gather_indices d \<and> full_index d0 = full_index d \<and>
     length (ds_begin d0) = length (ds_begin d)"

lemma same_ellipsis: "same_spec d0 d \<Longrightarrow> same_spec (fold ellipsis_step ks d0) (fold ellipsis_step ks d)"
  by (induction ks arbitrary: d0 d) (auto simp: same_spec_def ellipsis_step_def)

lemma same_build:
  assumes "same_spec d0 d" "sp0 = sp\<lparr>begin_tensor := b0, end_tensor := e0\<rparr>"
    and "build_loop sp0 T is d0 = Some (Ok d0')" "build_loop sp T is d = Some (Ok d')"
  shows "same_spec d0' d'"
  using assms
proof (induction "is" arbitrary: d0 d)
  case (Cons i "is")
  have sel: "sp_ellipsis_mask sp0 = sp_ellipsis_mask sp" "sp_new_axis_mask sp0 = sp_new_axis_mask sp"
    "\<And>n. next_index sp0 n i = next_index sp n i" using Cons.prems(2) by (auto simp: next_index_def)
  have eqs: "full_index d0 = full_index d" "ds_dims d0 = ds_dims d" "length (ds_begin d0) = length (ds_begin d)"
    using Cons.prems(1) by (auto simp: same_spec_def)
  have axis: "same_spec e0 e" if "real_axis sp0 T i d0 = Some e0" "real_axis sp T i d = Some e" for e0 e
    using that Cons.prems(1,2) by (auto simp: real_axis_def same_spec_def Let_def split: option.splits Option.bind_splits)
  consider "mask_bit (sp_ellipsis_mask sp) i" | "\<not> mask_bit (sp_ellipsis_mask sp) i" "mask_bit (sp_new_axis_mask sp) i"
    | "\<not> mask_bit (sp_ellipsis_mask sp) i" "\<not> mask_bit (sp_new_axis_mask sp) i" by blast
  then show ?case
  proof cases
    case 1
    show ?thesis
      by (rule Cons.IH [OF same_ellipsis [OF Cons.prems(1)] Cons.prems(2)]) (use 1 sel eqs Cons.prems(3,4) in auto)
  next
    case 2
    have "same_spec (d0\<lparr>final_shape_gather_indices := final_shape_gather_indices d0 @ [-2]\<rparr>)
      (d\<lparr>final_shape_gather_indices := final_shape_gather_indices d @ [-2]\<rparr>)"
      using Cons.prems(1) by (simp add: same_spec_def)
    from Cons.IH [OF this Cons.prems(2)] show ?thesis using 2 sel Cons.prems(3,4) by simp
  next
    case 3
    then show ?thesis using Cons.IH [OF axis Cons.prems(2)] sel eqs Cons.prems(3,4)
      by (auto split: if_splits Option.bind_splits)
  qed
qed simp

lemma slice_size_le: "stride \<noteq> 0 \<Longrightarrow> slice_size L stride \<le> \<bar>L\<bar>"
proof (rule ccontr)
  assume s: "stride \<noteq> 0" and "\<not> slice_size L stride \<le> \<bar>L\<bar>"
  then have "\<bar>L\<bar> < slice_size L stride" by simp
  then have *: "if stride > 0 then \<bar>L\<bar> * stride < L else L < \<bar>L\<bar> * stride" using slice_size_count [OF s, of "\<bar>L\<bar>" L] by simp
  show False
  proof (cases "stride > 0")
    case True
    then show False using * mult_left_mono [of 1 stride "\<bar>L\<bar>"] by simp
  next
    case False
    then show False using * s mult_left_mono [of stride "- 1" "\<bar>L\<bar>"] by simp
  qed
qed

text \<open>The sizes inferred for the first \<open>k\<close> dimensions agree with the sizes of the actual slice.\<close>

definition agree :: "int list \<Rightarrow> int list \<Rightarrow> bool" where
  "agree us vs \<longleftrightarrow> list_all2 (\<lambda>u v. u = -1 \<or> u = v) us vs"

lemma agree_snoc: "agree us vs \<Longrightarrow> u = -1 \<or> u = v \<Longrightarrow> agree (us @ [u]) (vs @ [v])"
  by (auto simp: agree_def intro: list_all2_appendI)

lemma slice_dim_known:
  assumes "slice_dim d input k r = Some (Ok r')" "dim_size True input k \<noteq> -1"
  shows "\<exists>b e sz. slice_interval (begin_valid d \<and> end_valid d) (mask_bit (ds_shrink_axis_mask d) k)
      (mask_bit (ds_begin_mask d) k) (mask_bit (ds_end_mask d) k) (out_begin r ! k) (out_end r ! k)
      (ds_strides d ! k) (dim_size True input k) = Ok (b, e, sz) \<and>
    AddDim True (processing_shape r) sz = Some (processing_shape r') \<and> final_shape r' = final_shape r"
proof -
  let ?iv = "slice_interval (begin_valid d \<and> end_valid d) (mask_bit (ds_shrink_axis_mask d) k)
      (mask_bit (ds_begin_mask d) k) (mask_bit (ds_end_mask d) k) (out_begin r ! k) (out_end r ! k)
      (ds_strides d ! k) (dim_size True input k)"
  have st: "ds_strides d ! k \<noteq> 0" using assms by (auto simp: slice_dim_def Let_def)
  obtain b e sz where iv: "?iv = Ok (b, e, sz)"
    using assms st by (cases ?iv) (auto simp: slice_dim_def Let_def)
  obtain s where "AddDim True (processing_shape r) sz = Some s"
    using assms st iv by (cases "AddDim True (processing_shape r) sz") (simp_all add: slice_dim_def Let_def)
  then show ?thesis using iv assms st by (auto simp: slice_dim_def Let_def)
qed

lemma infer_step:
  assumes same: "same_spec d0 d" and nv: "\<not> (begin_valid d0 \<and> end_valid d0)"
    and p0: "shape_is True (processing_shape r0) us" and inv: "slice_inv d ds k r vs" and a: "agree us vs"
    and k: "k < length ds" and in0: "shape_is True input0 ds0" "length ds0 = length ds" "ds0 ! k = -1 \<or> ds0 ! k = ds ! k"
    and input: "shape_is True input ds" "\<forall>n \<in> set ds. 0 \<le> n" "prefixes_ok True [] ds" and valid: "begin_valid d" "end_valid d"
    and step0: "slice_dim d0 input0 k r0 = Some (Ok r0')" and step: "slice_dim d input k r = Some (Ok r')"
    and inv': "slice_inv d ds (Suc k) r' (vs @ [v])"
  shows "\<exists>u. shape_is True (processing_shape r0') (us @ [u]) \<and> agree (us @ [u]) (vs @ [v]) \<and> final_shape r0' = final_shape r0"
proof -
  let ?st = "ds_strides d ! k" and ?sh = "mask_bit (ds_shrink_axis_mask d) k"
  let ?bm = "mask_bit (ds_begin_mask d) k" and ?em = "mask_bit (ds_end_mask d) k"
  have n: "dim_size True input k = ds ! k" "dim_size True input0 k = ds0 ! k" "0 \<le> ds ! k" "ds ! k < 2 ^ 63"
    using dim_size_shape [OF input(1)] dim_size_shape [OF in0(1)] k in0(2) input(2) shape_is_sizes [OF input(1)]
    by (auto simp: sizes_ok_def)
  have len: "length vs = k" "length us = k" using inv a by (auto simp: slice_inv_def agree_def dest: list_all2_lengthD)
  have dk: "dim_ok d ds r' (vs @ [v]) k" using inv' by (simp add: slice_inv_def)
  have at: "(vs @ [v]) ! k = v" using nth_append_length [of vs v "[]"] len(1) by simp
  have st: "?st \<noteq> 0" and shv: "?sh \<Longrightarrow> v = 1" and vb: "0 \<le> v" "v \<le> ds ! k" using dim_okD [OF dk] unfolding at by blast+
  have put: "\<exists>u. shape_is True s (us @ [u]) \<and> agree (us @ [u]) (vs @ [v])"
    if "AddDim True (processing_shape r0) u = Some s" "u = -1 \<or> u = v" "u = -1 \<or> 0 \<le> u" "u < 2 ^ 63" for s u
    using AddDim_shape [OF p0, of u] that a by (auto simp: agree_def split: if_splits intro!: exI [of _ u] list_all2_appendI)
  have eqs: "ds_strides d0 = ds_strides d" "ds_shrink_axis_mask d0 = ds_shrink_axis_mask d"
    "ds_begin_mask d0 = ds_begin_mask d" "ds_end_mask d0 = ds_end_mask d" using same by (auto simp: same_spec_def)
  have vv: "0 \<le> v" "v < 2 ^ 63" using vb n(4) by linarith+
  show ?thesis
  proof (cases "ds0 ! k = -1")
    case True
    then obtain s where s: "AddDim True (processing_shape r0) (if ?sh then 1 else -1) = Some s" "r0' = r0\<lparr>processing_shape := s\<rparr>"
      using step0 n(2) st eqs by (auto simp: slice_dim_def Let_def split: Option.bind_splits)
    then show ?thesis using put [of "if ?sh then 1 else -1" s] shv by (cases ?sh) auto
  next
    case False
    then have dn: "ds0 ! k = ds ! k" using in0(3) by blast
    obtain b0 e0 u s where iv0: "slice_interval False ?sh ?bm ?em (out_begin r0 ! k) (out_end r0 ! k) ?st (ds ! k) = Ok (b0, e0, u)"
      and s: "AddDim True (processing_shape r0) u = Some s" "processing_shape r0' = s" "final_shape r0' = final_shape r0"
      using slice_dim_known [OF step0] n dn False eqs nv by auto
    obtain b e sz s2 where iv: "slice_interval True ?sh ?bm ?em (out_begin r ! k) (out_end r ! k) ?st (ds ! k) = Ok (b, e, sz)"
      and s2: "AddDim True (processing_shape r) sz = Some s2" "processing_shape r' = s2"
      using slice_dim_known [OF step] n valid by (auto simp: n(1))
    note bd = slice_interval_bounds(1,2) [OF iv st n(3)]
    have "shape_is True s2 (vs @ [sz])"
      using AddDim_shape [of True "processing_shape r" vs sz] inv s2 bd n(4) by (auto simp: slice_inv_def split: if_splits)
    then have "sz = v" using inv' s2(2) dims_shape [of True s2] by (metis slice_inv_def butlast_snoc last_snoc)
    then have "u = -1 \<or> u = v" using slice_interval_infer [OF iv0 _ iv st] by blast
    then show ?thesis using put [OF s(1)] vv s by auto
  qed
qed

lemma infer_dims:
  assumes same: "same_spec d0 d" and nv: "\<not> (begin_valid d0 \<and> end_valid d0)"
    and start: "shape_is True (processing_shape r0) []" "slice_inv d ds 0 r []"
    and in0: "shape_is True input0 ds0" "list_all2 (\<lambda>u v. u = -1 \<or> u = v) ds0 ds"
    and input: "shape_is True input ds" "\<forall>n \<in> set ds. 0 \<le> n" "prefixes_ok True [] ds" and valid: "begin_valid d" "end_valid d"
    and "slice_dims d0 input0 [0..<k] r0 = Some (Ok r0')" "slice_dims d input [0..<k] r = Some (Ok r')" "k \<le> length ds"
  shows "\<exists>us vs. shape_is True (processing_shape r0') us \<and> slice_inv d ds k r' vs \<and> agree us vs \<and> final_shape r0' = final_shape r0"
  using assms(12-14)
proof (induction k arbitrary: r0' r')
  case 0
  then show ?case using start by (auto simp: agree_def)
next
  case (Suc k)
  obtain q0 q where q: "slice_dims d0 input0 [0..<k] r0 = Some (Ok q0)" "slice_dim d0 input0 k q0 = Some (Ok r0')"
    "slice_dims d input [0..<k] r = Some (Ok q)" "slice_dim d input k q = Some (Ok r')"
    using Suc.prems by (auto simp: slice_dims_append split: option.splits sum.splits)
  obtain us vs where I: "shape_is True (processing_shape q0) us" "slice_inv d ds k q vs" "agree us vs" "final_shape q0 = final_shape r0"
    using Suc.IH [OF q(1,3)] Suc.prems(3) by auto
  have k: "k < length ds" using Suc.prems(3) by simp
  obtain v where v: "slice_inv d ds (Suc k) r' (vs @ [v])" using slice_dim_step [OF I(2) k input valid q(4)] by auto
  have "length ds0 = length ds" "ds0 ! k = -1 \<or> ds0 ! k = ds ! k" using in0(2) k by (auto simp: list_all2_conv_all_nth)
  from infer_step [OF same nv I(1,2,3) k in0(1) this input valid q(2,4) v] show ?case using v I(4) by fastforce
qed

lemma infer_gather:
  assumes "shape_is True p0 us" "shape_is True p vs" "agree us vs" "gather_ok S g f" "f \<le> length vs" "\<forall>u \<in> set us. u < 2 ^ 63"
    and "shape_is True s0 fs0" "shape_is True s fs" "agree fs0 fs"
    and "gather_final p0 g s0 = Some t0" "gather_final p g s = Some t"
  shows "\<exists>gs0 gs. shape_is True t0 gs0 \<and> shape_is True t gs \<and> agree gs0 gs"
  using assms(4,5,10,11)
proof (induction arbitrary: t0 t rule: gather_ok.induct)
  case gather_Nil
  then show ?case using assms by auto
next
  case (gather_axis g f)
  have f: "f < length vs" "f < length us" using gather_axis.prems(1) assms(3) by (auto simp: agree_def dest: list_all2_lengthD)
  obtain q0 q where q: "gather_final p0 g s0 = Some q0" "gather_final p g s = Some q" "AddDim True q0 (us ! f) = Some t0" "AddDim True q (vs ! f) = Some t"
    using gather_axis.prems dim_size_shape [OF assms(1) f(2)] dim_size_shape [OF assms(2) f(1)]
    by (auto simp: gather_final_append split: Option.bind_splits)
  obtain gs0 gs where g: "shape_is True q0 gs0" "shape_is True q gs" "agree gs0 gs" using gather_axis.IH [OF _ q(1,2)] gather_axis.prems(1) by auto
  have b: "-1 \<le> us ! f" "us ! f < 2 ^ 63" "-1 \<le> vs ! f" "vs ! f < 2 ^ 63" "us ! f = -1 \<or> us ! f = vs ! f"
    using shape_is_sizes [OF assms(1)] shape_is_sizes [OF assms(2)] f assms(3)
    by (auto simp: sizes_ok_def agree_def list_all2_conv_all_nth)
  have "shape_is True t0 (gs0 @ [us ! f])" "shape_is True t (gs @ [vs ! f])"
    using AddDim_shape [OF g(1), of "us ! f"] AddDim_shape [OF g(2), of "vs ! f"] q(3,4) b by (auto split: if_splits)
  then show ?case using agree_snoc [OF g(3) b(5)] by blast
next
  case (gather_shrink g f)
  then show ?case by (auto simp: gather_final_append split: Option.bind_splits)
next
  case (gather_new g f)
  obtain q0 q where q: "gather_final p0 g s0 = Some q0" "gather_final p g s = Some q" "AddDim True q0 1 = Some t0" "AddDim True q 1 = Some t"
    using gather_new.prems by (auto simp: gather_final_append split: Option.bind_splits)
  obtain gs0 gs where g: "shape_is True q0 gs0" "shape_is True q gs" "agree gs0 gs" using gather_new.IH [OF _ q(1,2)] gather_new.prems(1) by auto
  have "shape_is True t0 (gs0 @ [1])" "shape_is True t (gs @ [1])"
    using AddDim_shape [OF g(1), of 1] AddDim_shape [OF g(2), of 1] q(3,4) by (auto split: if_splits)
  then show ?case using agree_snoc [OF g(3), of 1 1] by blast
qed

lemma agree_compatible: "agree us vs \<Longrightarrow> compatible_dims us vs"
  by (auto simp: agree_def compatible_dims_def list_all2_conv_all_nth)


section \<open>Properties\<close>

lemma Validate_cases:
  assumes "ValidateStridedSliceOp b e s input bm em el na sh = Some (Ok (r, strides))"
  obtains d r1 where
    "\<forall>t \<in> set_option b. IsVector t \<and> NumElements t = NumElements s \<and> NumElements t < 32"
    "el \<noteq> 0 \<Longrightarrow> el AND (el - 1) = 0"
    "BuildDenseSpec (tensor_dtype s) (make_sparse b e s bm em el na sh) (ndims_byte input) = Some (Ok d)"
    "slice_dims d input [0..<ndims_byte input]
       \<lparr>processing_shape = \<lparr>shape_rep = REP16 [], ndims_byte = 0, num_elements = 1\<rparr>,
        final_shape = \<lparr>shape_rep = REP16 [], ndims_byte = 0, num_elements = 1\<rparr>, is_identity = True, is_simple_slice = True,
        slice_dim0 = True, out_begin = ds_begin d, out_end = ds_end d\<rparr> = Some (Ok r1)"
    "gather_final (processing_shape r1) (final_shape_gather_indices d) (final_shape r1) = Some (final_shape r)"
    "r = r1\<lparr>final_shape := final_shape r\<rparr>" "strides = ds_strides d"
  using assms unfolding ValidateStridedSliceOp_def Let_def
  by (auto split: if_splits option.splits sum.splits Option.bind_splits)


abbreviation (input) empty_shape :: tensor_shape where
  "empty_shape \<equiv> \<lparr>shape_rep = REP16 [], ndims_byte = 0, num_elements = 1\<rparr>"

lemma slice_inv_start:
  "dense_inv (length ds) m d \<Longrightarrow> slice_inv d ds 0 \<lparr>processing_shape = empty_shape, final_shape = empty_shape,
     is_identity = i, is_simple_slice = j, slice_dim0 = k, out_begin = ds_begin d, out_end = ds_end d\<rparr> []"
  by (simp add: slice_inv_def dense_inv_def shape_is_empty)

text \<open>A slice with both index tensors over a fully known shape never aborts.\<close>

lemma Validate_known:
  assumes types: "tensor_dtype bt = tensor_dtype s" "tensor_dtype et = tensor_dtype s" "tensor_dtype s \<noteq> DT_OTHER"
    and input: "shape_is True input ds" "\<forall>n \<in> set ds. 0 \<le> n" "prefixes_ok True [] ds" "length ds < 32"
  shows "(\<exists>err. ValidateStridedSliceOp (Some bt) (Some et) s input bm em el na sh = Some (Err err)) \<or>
    (\<exists>r d vs fs. ValidateStridedSliceOp (Some bt) (Some et) s input bm em el na sh = Some (Ok (r, ds_strides d)) \<and>
       shape_is True (processing_shape r) vs \<and> length vs = length ds \<and> (\<forall>i < length ds. dim_ok d ds r vs i) \<and>
       shape_is True (final_shape r) fs \<and> (\<forall>v \<in> set fs. 0 \<le> v) \<and> prod_list fs = prod_list vs)"
    (is "?E \<or> ?O")
proof (rule disjCI)
  let ?V = "ValidateStridedSliceOp (Some bt) (Some et) s input bm em el na sh"
  let ?sp = "make_sparse (Some bt) (Some et) s bm em el na sh" and ?T = "tensor_dtype s"
  let ?r0 = "\<lambda>d. \<lparr>processing_shape = empty_shape, final_shape = empty_shape, is_identity = True, is_simple_slice = True,
        slice_dim0 = True, out_begin = ds_begin d, out_end = ds_end d\<rparr>"
  assume noerr: "\<not> ?O"
  have nd: "ndims_byte input = length ds" "\<not> unknown_rank True input"
    using input(1) shape_is_known by (auto simp: shape_is_def rep_is_def)
  show ?E
  proof (cases "IsVector bt \<and> NumElements bt = NumElements s \<and> NumElements bt < 32 \<and> IsVector et \<and>
      NumElements et = NumElements s \<and> IsVector s \<and> (el = 0 \<or> el AND (el - 1) = 0)")
    case False
    then show ?thesis by (auto simp: ValidateStridedSliceOp_def Let_def)
  next
    case True
    then have n: "NumElements s < 32" and single: "el \<noteq> 0 \<Longrightarrow> el AND (el - 1) = 0" by auto
    have cond: "\<not> (el \<noteq> 0 \<and> el AND (el - 1) \<noteq> 0)" using single by blast
    have V: "?V = (case BuildDenseSpec ?T ?sp (length ds) of None \<Rightarrow> None | Some (Inl err) \<Rightarrow> Some (Err err)
      | Some (Inr d) \<Rightarrow> (case slice_dims d input [0..<length ds] (?r0 d) of None \<Rightarrow> None | Some (Inl err) \<Rightarrow> Some (Err err)
          | Some (Inr r) \<Rightarrow> gather_final (processing_shape r) (final_shape_gather_indices d) (final_shape r)
              \<bind> (\<lambda>f. Some (Ok (r\<lparr>final_shape := f\<rparr>, ds_strides d)))))"
      using True nd(2) types(3) cond unfolding ValidateStridedSliceOp_def Let_def nd(1) by auto
    have "BuildDenseSpec ?T ?sp (length ds) \<noteq> None"
      unfolding BuildDenseSpec_def by (rule build_loop_runs) (use types in \<open>auto simp: make_sparse_sel\<close>)
    then consider (err) err where "BuildDenseSpec ?T ?sp (length ds) = Some (Err err)"
      | (ok) d where "BuildDenseSpec ?T ?sp (length ds) = Some (Ok d)"
      by (metis not_None_eq sum.exhaust)
    then show ?thesis
    proof cases
      case err
      then show ?thesis using V by simp
    next
      case (ok d)
      note D = BuildDenseSpec_inv [OF refl n single input(4) ok]
      have inv0: "slice_inv d ds 0 (?r0 d) []" by (rule slice_inv_start [of ds 32]) (use D in blast)
      have valid: "begin_valid d" "end_valid d" using D by auto
      have "(\<exists>err. slice_dims d input [0..<length ds] (?r0 d) = Some (Err err)) \<or>
        (\<exists>r vs. slice_dims d input [0..<length ds] (?r0 d) = Some (Ok r) \<and> slice_inv d ds (length ds) r vs)"
        by (rule slice_dims_inv [OF inv0 input(1-3) valid order_refl])
      then show ?thesis
      proof (elim disjE exE conjE)
        fix err assume "slice_dims d input [0..<length ds] (?r0 d) = Some (Err err)"
        then show ?thesis using V ok by simp
      next
        fix r vs assume r: "slice_dims d input [0..<length ds] (?r0 d) = Some (Ok r)" and inv: "slice_inv d ds (length ds) r vs"
        have le: "list_all2 (\<lambda>v d. 0 \<le> v \<and> v \<le> d) vs ds" using slice_inv_le [OF inv] by simp
        have p: "shape_is True (processing_shape r) vs" "length vs = length ds" "final_shape r = empty_shape"
          using inv by (auto simp: slice_inv_def)
        have g: "gather_ok (mask_bit (ds_shrink_axis_mask d)) (final_shape_gather_indices d) (length ds)"
          "length (final_shape_gather_indices d) \<le> 254" using D input(4) by (auto simp: dense_inv_def)
        have one: "\<forall>i < length ds. mask_bit (ds_shrink_axis_mask d) i \<longrightarrow> vs ! i = 1"
          using inv dim_okD(4) by (auto simp: slice_inv_def)
        obtain f fs where f: "gather_final (processing_shape r) (final_shape_gather_indices d) empty_shape = Some f"
          "shape_is True f fs" "\<forall>v \<in> set fs. 0 \<le> v" "prod_list fs = prod_list (take (length ds) vs)"
          using gather_final_shape [OF g(1) _ one _ prefixes_ok_le [OF le input(3)] p(1) g(2)] p(2) list_all2_le_sets(1) [OF le]
          by auto
        have "?V = Some (Ok (r\<lparr>final_shape := f\<rparr>, ds_strides d))" using V ok r f(1) p(3) by simp
        moreover have "\<forall>i < length ds. dim_ok d ds (r\<lparr>final_shape := f\<rparr>) vs i"
          using inv by (simp add: slice_inv_def dim_ok_def)
        ultimately have ?O using p f by (intro exI [of _ "r\<lparr>final_shape := f\<rparr>"] exI [of _ d] exI [of _ vs] exI [of _ fs]) simp
        then show ?thesis using noerr by blast
      qed
    qed
  qed
qed

lemmas slice_eval = ValidateStridedSliceOp_def IsVector_def NumElements_def unknown_rank_def make_sparse_def mask_bit_def
  mask_set_def BuildDenseSpec_def real_axis_def flat_def next_index_def slice_dim_def slice_interval_def canonical_def
  valid_range_def slice_size_def cdiv_def cmod_def dim_size_def read16_def AddDim_def MultiplyWithoutOverflow_def
  UnsafeAddDim_def cell16_def Let_def

text \<open>
  C23. A strided slice of a fully known shape of fewer than 32 dimensions, with begin, end and strides of
  one supported type, never aborts, and when it is
  accepted it stays in bounds: in every dimension the number of selected positions is exactly the
  number of strides that fit between the canonical begin and end, every selected position lies in
  the dimension, the final shape has as many elements as the processing shape (shrunk axes drop
  only sizes one, new axes add only sizes one), and a slice flagged as the identity takes every
  position of every dimension.
\<close>

theorem strided_slice_in_bounds:
  assumes "tensor_dtype bt = tensor_dtype s" "tensor_dtype et = tensor_dtype s" "tensor_dtype s \<noteq> DT_OTHER"
    and "shape_is True input ds" "\<forall>n \<in> set ds. 0 \<le> n" "prefixes_ok True [] ds" "length ds < 32"
  shows "(\<exists>err. ValidateStridedSliceOp (Some bt) (Some et) s input bm em el na sh = Some (Err err)) \<or>
    (\<exists>r strides vs fs. ValidateStridedSliceOp (Some bt) (Some et) s input bm em el na sh = Some (Ok (r, strides)) \<and>
       shape_is True (processing_shape r) vs \<and> length vs = length ds \<and>
       shape_is True (final_shape r) fs \<and> num_elements (final_shape r) = num_elements (processing_shape r) \<and>
       (\<forall>i < length ds. strides ! i \<noteq> 0 \<and> 0 \<le> vs ! i \<and> vs ! i \<le> ds ! i \<and>
         (\<forall>j \<ge> 0. (j < vs ! i \<longleftrightarrow> (if strides ! i > 0 then out_begin r ! i + j * strides ! i < out_end r ! i
                                  else out_end r ! i < out_begin r ! i + j * strides ! i)) \<and>
           (j < vs ! i \<longrightarrow> 0 \<le> out_begin r ! i + j * strides ! i \<and> out_begin r ! i + j * strides ! i < ds ! i)) \<and>
         (is_identity r \<longrightarrow> strides ! i = 1 \<and> out_begin r ! i = 0 \<and> vs ! i = ds ! i) \<and>
         (slice_dim0 r \<longrightarrow> strides ! i = 1 \<and> (0 < i \<longrightarrow> out_begin r ! i = 0 \<and> vs ! i = ds ! i))))"
  using Validate_known [OF assms, of bm em el na sh]
proof (rule disjE)
  assume "\<exists>r d vs fs. ValidateStridedSliceOp (Some bt) (Some et) s input bm em el na sh = Some (Ok (r, ds_strides d)) \<and>
       shape_is True (processing_shape r) vs \<and> length vs = length ds \<and> (\<forall>i < length ds. dim_ok d ds r vs i) \<and>
       shape_is True (final_shape r) fs \<and> (\<forall>v \<in> set fs. 0 \<le> v) \<and> prod_list fs = prod_list vs"
  then obtain r d vs fs where r: "ValidateStridedSliceOp (Some bt) (Some et) s input bm em el na sh = Some (Ok (r, ds_strides d))"
    "shape_is True (processing_shape r) vs" "length vs = length ds" "\<forall>i < length ds. dim_ok d ds r vs i"
    "shape_is True (final_shape r) fs" "\<forall>v \<in> set fs. 0 \<le> v" "prod_list fs = prod_list vs" by blast
  have "\<forall>v \<in> set vs. 0 \<le> v" using r(3,4) dim_okD(2) by (metis in_set_conv_nth)
  then have "num_elements (final_shape r) = num_elements (processing_shape r)"
    using r(2,5,6,7) elements_known by (simp add: shape_is_def)
  then show ?thesis using r unfolding dim_ok_def Let_def
    by (intro disjI2 exI [of _ r] exI [of _ "ds_strides d"] exI [of _ vs] exI [of _ fs]) blast
qed blast


theorem strided_slice_in_bounds_witness:
  "\<exists>r strides vs. ValidateStridedSliceOp (Some \<lparr>tensor_rank = 1, tensor_dtype = DT_INT32, tensor_flat = [-1]\<rparr>)
      (Some \<lparr>tensor_rank = 1, tensor_dtype = DT_INT32, tensor_flat = [0]\<rparr>)
      \<lparr>tensor_rank = 1, tensor_dtype = DT_INT32, tensor_flat = [-2]\<rparr>
      \<lparr>shape_rep = REP16 [6], ndims_byte = 1, num_elements = 6\<rparr> 0 1 0 0 0 = Some (Ok (r, strides)) \<and>
    shape_is True (processing_shape r) vs \<and> length vs = 1 \<and>
    (\<forall>j \<ge> 0. j < vs ! 0 \<longrightarrow> 0 \<le> out_begin r ! 0 + j * strides ! 0 \<and> out_begin r ! 0 + j * strides ! 0 < 6)"
proof -
  let ?bt = "\<lparr>tensor_rank = 1, tensor_dtype = DT_INT32, tensor_flat = [-1]\<rparr> :: index_tensor"
  let ?et = "\<lparr>tensor_rank = 1, tensor_dtype = DT_INT32, tensor_flat = [0]\<rparr> :: index_tensor"
  let ?s = "\<lparr>tensor_rank = 1, tensor_dtype = DT_INT32, tensor_flat = [-2]\<rparr> :: index_tensor"
  let ?in = "\<lparr>shape_rep = REP16 [6], ndims_byte = 1, num_elements = 6\<rparr> :: tensor_shape"
  let ?V = "ValidateStridedSliceOp (Some ?bt) (Some ?et) ?s ?in 0 1 0 0 0"
  have i: "shape_is True ?in [6]" by (simp add: shape_is_def rep_is_def legal_def elements_def cell16_def)
  have p: "prefixes_ok True [] [6]" by (simp add: prefixes_ok_Cons prefixes_ok_Nil sizes_ok_def elements_def)
  have "?V \<noteq> Some (Err err)" for err
    by (simp add: slice_eval)
  with strided_slice_in_bounds [of ?bt ?s ?et ?in "[6]" 0 1 0 0 0, OF _ _ _ i _ p]
  obtain r strides vs where "?V = Some (Ok (r, strides))" "shape_is True (processing_shape r) vs" "length vs = 1"
    "\<forall>j \<ge> 0. j < vs ! 0 \<longrightarrow> 0 \<le> out_begin r ! 0 + j * strides ! 0 \<and> out_begin r ! 0 + j * strides ! 0 < 6"
    by auto
  then show ?thesis by blast
qed

text \<open>
  C24. Shape inference is sound: when the index tensors are not known (one or both of them) and the
  input shape is only partly known, the shapes inferred from the strides and the masks agree, size by
  size, with the shapes computed for the actual indices and the actual input: every inferred size is
  unknown or equal, and the ranks are the same.
\<close>

theorem strided_slice_inference:
  assumes V0: "ValidateStridedSliceOp b0 e0 s input0 bm em el na sh = Some (Ok (r0, strides0))" "b0 = None \<or> e0 = None"
    and V: "ValidateStridedSliceOp (Some bt) (Some et) s input bm em el na sh = Some (Ok (r, strides))"
    and in0: "shape_is True input0 ds0" "list_all2 (\<lambda>u v. u = -1 \<or> u = v) ds0 ds"
    and input: "shape_is True input ds" "\<forall>n \<in> set ds. 0 \<le> n" "prefixes_ok True [] ds" "length ds < 32"
  shows "strides0 = strides \<and>
    (\<exists>us vs fs0 fs. shape_is True (processing_shape r0) us \<and> shape_is True (processing_shape r) vs \<and>
       list_all2 (\<lambda>u v. u = -1 \<or> u = v) us vs \<and>
       shape_is True (final_shape r0) fs0 \<and> shape_is True (final_shape r) fs \<and>
       list_all2 (\<lambda>u v. u = -1 \<or> u = v) fs0 fs) \<and>
    IsCompatibleWith (final_shape r0) (final_shape r)"
proof -
  obtain d0 q0 where d0: "BuildDenseSpec (tensor_dtype s) (make_sparse b0 e0 s bm em el na sh) (ndims_byte input0) = Some (Ok d0)"
    "slice_dims d0 input0 [0..<ndims_byte input0] \<lparr>processing_shape = empty_shape, final_shape = empty_shape, is_identity = True,
       is_simple_slice = True, slice_dim0 = True, out_begin = ds_begin d0, out_end = ds_end d0\<rparr> = Some (Ok q0)"
    "gather_final (processing_shape q0) (final_shape_gather_indices d0) (final_shape q0) = Some (final_shape r0)"
    "r0 = q0\<lparr>final_shape := final_shape r0\<rparr>" "strides0 = ds_strides d0"
    using Validate_cases [OF V0(1)] by blast
  obtain d q where n: "\<forall>t \<in> set_option (Some bt). IsVector t \<and> NumElements t = NumElements s \<and> NumElements t < 32"
    and single: "el \<noteq> 0 \<Longrightarrow> el AND (el - 1) = 0"
    and d: "BuildDenseSpec (tensor_dtype s) (make_sparse (Some bt) (Some et) s bm em el na sh) (ndims_byte input) = Some (Ok d)"
    "slice_dims d input [0..<ndims_byte input] \<lparr>processing_shape = empty_shape, final_shape = empty_shape, is_identity = True,
       is_simple_slice = True, slice_dim0 = True, out_begin = ds_begin d, out_end = ds_end d\<rparr> = Some (Ok q)"
    "gather_final (processing_shape q) (final_shape_gather_indices d) (final_shape q) = Some (final_shape r)"
    "r = q\<lparr>final_shape := final_shape r\<rparr>" "strides = ds_strides d"
    using Validate_cases [OF V] by blast
  have n': "NumElements s < 32" using n by auto
  have nd: "ndims_byte input0 = length ds" "ndims_byte input = length ds"
    using in0 input(1) by (auto simp: shape_is_def rep_is_def dest: list_all2_lengthD)
  note D0 = BuildDenseSpec_inv [OF refl n' single input(4) d0(1) [unfolded nd]]
  note D = BuildDenseSpec_inv [OF refl n' single input(4) d(1) [unfolded nd]]
  have sp0: "make_sparse b0 e0 s bm em el na sh = (make_sparse (Some bt) (Some et) s bm em el na sh)\<lparr>begin_tensor := b0, end_tensor := e0\<rparr>"
    by (simp add: make_sparse_def Let_def split: prod.splits)
  have len: "sp_dims (make_sparse b0 e0 s bm em el na sh) = sp_dims (make_sparse (Some bt) (Some et) s bm em el na sh)"
    by (simp add: sp0)
  have same: "same_spec d0 d"
    by (rule same_build [OF _ sp0 d0(1) [unfolded nd BuildDenseSpec_def len] d(1) [unfolded nd BuildDenseSpec_def]])
      (simp add: same_spec_def)
  have nv: "\<not> (begin_valid d0 \<and> end_valid d0)" using D0 V0(2) by auto
  obtain us vs where uv: "shape_is True (processing_shape q0) us" "slice_inv d ds (length ds) q vs" "agree us vs" "final_shape q0 = empty_shape"
    using infer_dims [OF same nv _ slice_inv_start [of ds 32] in0 input(1-3) _ _ d0(2) [unfolded nd] d(2) [unfolded nd]] D shape_is_empty
    by auto
  have p: "shape_is True (processing_shape q) vs" "final_shape q = empty_shape" "length vs = length ds" using uv(2) by (auto simp: slice_inv_def)
  have g: "gather_ok (mask_bit (ds_shrink_axis_mask d)) (final_shape_gather_indices d) (length ds)" using D by (auto simp: dense_inv_def)
  have "\<exists>gs0 gs. shape_is True (final_shape r0) gs0 \<and> shape_is True (final_shape r) gs \<and> agree gs0 gs"
  proof (rule infer_gather [OF uv(1) p(1) uv(3) g _ _ shape_is_empty shape_is_empty])
    show "\<forall>u \<in> set us. u < 2 ^ 63" using shape_is_sizes [OF uv(1)] by (simp add: sizes_ok_def)
    show "gather_final (processing_shape q0) (final_shape_gather_indices d) empty_shape = Some (final_shape r0)"
      using d0(3) same uv(4) by (simp add: same_spec_def)
  qed (use d(3) p in \<open>auto simp: agree_def\<close>)
  then obtain fs0 fs where f: "shape_is True (final_shape r0) fs0" "shape_is True (final_shape r) fs" "agree fs0 fs" by blast
  moreover have "processing_shape r0 = processing_shape q0" "processing_shape r = processing_shape q"
    using arg_cong [OF d0(4), of processing_shape] arg_cong [OF d(4), of processing_shape] by simp_all
  moreover have "strides0 = strides" using same d0(5) d(5) by (simp add: same_spec_def)
  moreover have "IsCompatibleWith (final_shape r0) (final_shape r)"
    using IsCompatibleWith_shape [OF f(1,2)] agree_compatible [OF f(3)] by blast
  ultimately show ?thesis using uv(1,3) p(1) unfolding agree_def
    by (intro conjI exI [of _ us] exI [of _ vs] exI [of _ fs0] exI [of _ fs]) simp_all
qed


theorem strided_slice_inference_witness:
  "\<exists>r0 r fs0 fs st st'. ValidateStridedSliceOp None None \<lparr>tensor_rank = 1, tensor_dtype = DT_INT32, tensor_flat = [2]\<rparr>
      \<lparr>shape_rep = REP16 [6], ndims_byte = 1, num_elements = 6\<rparr> 1 1 0 0 0 = Some (Ok (r0, st)) \<and>
    ValidateStridedSliceOp (Some \<lparr>tensor_rank = 1, tensor_dtype = DT_INT32, tensor_flat = [4]\<rparr>)
      (Some \<lparr>tensor_rank = 1, tensor_dtype = DT_INT32, tensor_flat = [1]\<rparr>) \<lparr>tensor_rank = 1, tensor_dtype = DT_INT32, tensor_flat = [2]\<rparr>
      \<lparr>shape_rep = REP16 [6], ndims_byte = 1, num_elements = 6\<rparr> 1 1 0 0 0 = Some (Ok (r, st')) \<and>
    shape_is True (final_shape r0) fs0 \<and> shape_is True (final_shape r) fs \<and> list_all2 (\<lambda>u v. u = -1 \<or> u = v) fs0 fs"
proof -
  let ?t = "\<lambda>x. \<lparr>tensor_rank = 1, tensor_dtype = DT_INT32, tensor_flat = [x]\<rparr> :: index_tensor"
  let ?in = "\<lparr>shape_rep = REP16 [6], ndims_byte = 1, num_elements = 6\<rparr> :: tensor_shape"
  have i: "shape_is True ?in [6]" by (simp add: shape_is_def rep_is_def legal_def elements_def cell16_def)
  have p: "prefixes_ok True [] [6]" by (simp add: prefixes_ok_Cons prefixes_ok_Nil sizes_ok_def elements_def)
  obtain r0 st0 where V0: "ValidateStridedSliceOp None None (?t 2) ?in 1 1 0 0 0 = Some (Ok (r0, st0))"
    by (simp add: slice_eval)
  obtain r st where V: "ValidateStridedSliceOp (Some (?t 4)) (Some (?t 1)) (?t 2) ?in 1 1 0 0 0 = Some (Ok (r, st))"
    by (simp add: slice_eval)
  from strided_slice_inference [OF V0 _ V i _ i _ p]
  obtain fs0 fs where "shape_is True (final_shape r0) fs0 \<and> shape_is True (final_shape r) fs \<and> list_all2 (\<lambda>u v. u = -1 \<or> u = v) fs0 fs"
    by auto
  with V0 V show ?thesis by blast
qed

end
