(* ===== verification/BCast.thy ===== *)
theory BCast
  imports TensorShape
begin

text \<open>
  The broadcasting helper \<open>BCast\<close> of \<^verbatim>\<open>core/util/bcast.cc\<close>. \<open>Vec\<close> is a list of integers and its
  products wrap around as \<open>int64_wrap\<close> says. The theorems ask that the product of the non-zero sizes of the
  result is an \<open>int64\<close>, which for a result without an empty dimension is its number of
  elements; without that the products of the code can wrap, as the last lemma shows. \<open>None\<close> is a failed
  \<open>CHECK\<close>. The reference is numpy's rule: align the shapes at their last dimension, let a
  dimension of size one stretch, and read element \<open>k\<close> of the result from the position whose
  coordinates agree wherever the operand is not stretched.
\<close>

section \<open>Model\<close>

datatype dim_state = DIM_UNKNOWN | SAME | X_ONE | Y_ONE

record bcast =
  bvalid :: bool
  x_reshape :: "int list"
  x_bcast :: "int list"
  y_reshape :: "int list"
  y_bcast :: "int list"
  result_shape :: "int list"
  output_shape :: "int list"
  grad_x_reduce_idx :: "int list"
  grad_y_reduce_idx :: "int list"

definition empty_bcast :: bcast where
  "empty_bcast = \<lparr>bvalid = True, x_reshape = [], x_bcast = [], y_reshape = [], y_bcast = [], result_shape = [],
     output_shape = [], grad_x_reduce_idx = [], grad_y_reduce_idx = []\<rparr>"

text \<open>\<open>v.back() *= d\<close>\<close>

definition scale_back :: "int list \<Rightarrow> int \<Rightarrow> int list" where
  "scale_back v d = butlast v @ [int64_wrap (last v * d)]"

definition push_dims :: "bcast \<Rightarrow> int \<Rightarrow> int \<Rightarrow> int \<Rightarrow> int \<Rightarrow> int \<Rightarrow> bcast" where
  "push_dims b o_i x_i bx_i y_i by_i =
     b\<lparr>x_reshape := x_reshape b @ [x_i], x_bcast := x_bcast b @ [bx_i], y_reshape := y_reshape b @ [y_i],
       y_bcast := y_bcast b @ [by_i], result_shape := result_shape b @ [o_i]\<rparr>"

definition merge_dims_back :: "bcast \<Rightarrow> int \<Rightarrow> int \<Rightarrow> int \<Rightarrow> int \<Rightarrow> int \<Rightarrow> bcast" where
  "merge_dims_back b o_i x_i bx_i y_i by_i =
     b\<lparr>x_reshape := scale_back (x_reshape b) x_i, x_bcast := scale_back (x_bcast b) bx_i,
       y_reshape := scale_back (y_reshape b) y_i, y_bcast := scale_back (y_bcast b) by_i,
       result_shape := scale_back (result_shape b) o_i\<rparr>"

fun bcast_loop :: "bool \<Rightarrow> int \<Rightarrow> dim_state \<Rightarrow> int \<Rightarrow> (int \<times> int) list \<Rightarrow> bcast \<Rightarrow> bcast option" where
  "bcast_loop opt n prev i [] b = Some b"
| "bcast_loop opt n prev i ((x_i, y_i) # xys) b =
     (if \<not> x_i \<ge> 0 \<or> \<not> y_i \<ge> 0 then None
      else if \<not> (x_i = y_i \<or> x_i = 1 \<or> y_i = 1) then Some (b\<lparr>bvalid := False\<rparr>)
      else
        let (o_i, bx_i, by_i, curr) =
              (if x_i = y_i then (x_i, 1, 1, SAME)
               else if x_i = 1 then (y_i, y_i, 1, X_ONE)
               else (x_i, 1, x_i, Y_ONE));
            b = (case curr of
                   X_ONE \<Rightarrow> b\<lparr>grad_x_reduce_idx := grad_x_reduce_idx b @ [n - 1 - i]\<rparr>
                 | Y_ONE \<Rightarrow> b\<lparr>grad_y_reduce_idx := grad_y_reduce_idx b @ [n - 1 - i]\<rparr>
                 | _ \<Rightarrow> b);
            b = b\<lparr>output_shape := output_shape b @ [o_i]\<rparr> in
        if curr = SAME \<and> x_i = 1 then
          let b = b\<lparr>grad_x_reduce_idx := grad_x_reduce_idx b @ [n - 1 - i],
                    grad_y_reduce_idx := grad_y_reduce_idx b @ [n - 1 - i]\<rparr> in
          bcast_loop opt n prev (i + 1) xys (if \<not> opt then push_dims b o_i x_i bx_i y_i by_i else b)
        else if opt \<and> prev = curr then
          bcast_loop opt n curr (i + 1) xys (merge_dims_back b o_i x_i bx_i y_i by_i)
        else bcast_loop opt n curr (i + 1) xys (push_dims b o_i x_i bx_i y_i by_i))"

definition reverse_all :: "bcast \<Rightarrow> bcast" where
  "reverse_all b =
     \<lparr>bvalid = bvalid b, x_reshape = rev (x_reshape b), x_bcast = rev (x_bcast b), y_reshape = rev (y_reshape b),
      y_bcast = rev (y_bcast b), result_shape = rev (result_shape b), output_shape = rev (output_shape b),
      grad_x_reduce_idx = rev (grad_x_reduce_idx b), grad_y_reduce_idx = rev (grad_y_reduce_idx b)\<rparr>"

text \<open>\<open>v.resize(n, 1)\<close> for a vector that does not shrink.\<close>

definition resize1 :: "int list \<Rightarrow> nat \<Rightarrow> int list" where
  "resize1 v n = v @ replicate (n - length v) 1"

definition BCast :: "int list \<Rightarrow> int list \<Rightarrow> bool \<Rightarrow> bcast option" where
  "BCast sx sy opt =
     (if sx = sy \<and> opt then
        let elems = fold (\<lambda>dim e. int64_wrap (e * dim)) sx 1 in
        Some (empty_bcast\<lparr>output_shape := sx, result_shape := [elems], x_reshape := [elems], y_reshape := [elems],
                x_bcast := [1], y_bcast := [1]\<rparr>)
      else do {
        let (x, y) = (if length sx > length sy then (rev sx, resize1 (rev sy) (length sx))
                      else (resize1 (rev sx) (length sy), rev sy));
        b \<leftarrow> bcast_loop opt (int (length x)) DIM_UNKNOWN 0 (zip x y) empty_bcast;
        if \<not> bvalid b then Some b
        else Some (reverse_all (if result_shape b = [] then push_dims b 1 1 1 1 1 else b))
      })"

definition FromShape :: "tensor_shape \<Rightarrow> int list" where
  "FromShape s = map (dim_size False s) [0..<ndims_byte s]"

definition ToShape :: "int list \<Rightarrow> tensor_shape option" where
  "ToShape vec = TensorShape_of False vec"

section \<open>Reference semantics\<close>

definition align :: "int list \<Rightarrow> nat \<Rightarrow> int list" where
  "align s n = replicate (n - length s) 1 @ s"

definition numpy_compatible :: "int list \<Rightarrow> int list \<Rightarrow> bool" where
  "numpy_compatible sx sy \<longleftrightarrow>
     (let n = max (length sx) (length sy) in list_all2 (\<lambda>x y. x = y \<or> x = 1 \<or> y = 1) (align sx n) (align sy n))"

definition numpy_shape :: "int list \<Rightarrow> int list \<Rightarrow> int list" where
  "numpy_shape sx sy =
     (let n = max (length sx) (length sy) in map2 (\<lambda>x y. if x = 1 then y else x) (align sx n) (align sy n))"

text \<open>
  The flat position read for flat position \<open>k\<close> of the result, dimensions innermost first: numpy's
  rule over pairs (operand size, result size), and a reshape followed by Eigen's \<open>broadcast\<close> over
  pairs (reshaped size, number of copies).
\<close>

fun numpy_index :: "(int \<times> int) list \<Rightarrow> int \<Rightarrow> int" where
  "numpy_index [] k = 0"
| "numpy_index ((x, d) # xs) k = (if x = 1 then 0 else k mod d) + x * numpy_index xs (k div d)"

fun bcast_index :: "(int \<times> int) list \<Rightarrow> int \<Rightarrow> int" where
  "bcast_index [] k = 0"
| "bcast_index ((r, m) # xs) k = (k mod (r * m)) mod r + r * bcast_index xs (k div (r * m))"

section \<open>Index computations\<close>

abbreviation (input) nonneg :: "(int \<times> int) list \<Rightarrow> bool" where
  "nonneg xs \<equiv> \<forall>(a, b) \<in> set xs. 0 \<le> a \<and> 0 \<le> b"

lemma bcast_index_append:
  "nonneg xs \<Longrightarrow> nonneg ys \<Longrightarrow>
   bcast_index (xs @ ys) k = bcast_index xs k + prod_list (map fst xs) * bcast_index ys (k div prod_list (map (\<lambda>(r, m). r * m) xs))"
proof (induction xs arbitrary: k)
  case (Cons a xs)
  obtain r m where a: "a = (r, m)" by (cases a)
  have "0 \<le> prod_list (map (\<lambda>(r, m). r * m) xs)" using Cons.prems by (intro prod_list_nonneg) fastforce
  then show ?case using Cons a by (simp add: algebra_simps zdiv_zmult2_eq)
qed simp

lemma numpy_index_append:
  "nonneg xs \<Longrightarrow> nonneg ys \<Longrightarrow>
   numpy_index (xs @ ys) k = numpy_index xs k + prod_list (map fst xs) * numpy_index ys (k div prod_list (map snd xs))"
proof (induction xs arbitrary: k)
  case (Cons a xs)
  obtain x d where a: "a = (x, d)" by (cases a)
  have "0 \<le> prod_list (map snd xs)" using Cons.prems by (intro prod_list_nonneg) fastforce
  then show ?case using Cons a by (simp add: algebra_simps zdiv_zmult2_eq)
qed simp

text \<open>Two neighbouring dimensions that are both copied or both not copied can be merged.\<close>

lemma bcast_index_merge:
  assumes "0 \<le> r1" "0 \<le> r2" "0 \<le> m1" "0 \<le> m2" "m1 = 1 \<and> m2 = 1 \<or> r1 = 1 \<and> r2 = 1"
  shows "bcast_index ((r1 * r2, m1 * m2) # xs) k = bcast_index ((r1, m1) # (r2, m2) # xs) k"
  using assms(5)
proof (elim disjE conjE)
  assume m: "m1 = 1" "m2 = 1"
  have "bcast_index ((r1 * r2, 1) # xs) k = k mod (r1 * r2) + r1 * r2 * bcast_index xs (k div (r1 * r2))" by simp
  also have "\<dots> = k mod r1 + r1 * (k div r1 mod r2 + r2 * bcast_index xs (k div r1 div r2))"
    using assms(2) by (simp add: zdiv_zmult2_eq zmod_zmult2_eq algebra_simps)
  finally show ?thesis by (simp add: m)
qed (use assms in \<open>simp add: zdiv_zmult2_eq\<close>)


text \<open>
  One operand: the reshape \<open>rs\<close> and copies \<open>ms\<close> built for its first dimensions \<open>zs\<close> against the
  result sizes \<open>ds\<close>.
\<close>

definition side :: "int list \<Rightarrow> int list \<Rightarrow> int list \<Rightarrow> int list \<Rightarrow> bool" where
  "side rs ms zs ds \<longleftrightarrow> length rs = length ms \<and> length zs = length ds \<and> nonneg (zip rs ms) \<and> nonneg (zip zs ds) \<and>
     prod_list rs = prod_list zs \<and> prod_list (map2 (*) rs ms) = prod_list ds \<and>
     (\<forall>k. bcast_index (zip rs ms) k = numpy_index (zip zs ds) k)"

lemma map_fst_zip_eq: "length xs = length ys \<Longrightarrow> map fst (zip xs ys) = xs" "length xs = length ys \<Longrightarrow> map snd (zip xs ys) = ys"
  by simp_all

lemma side_numpy_snoc:
  assumes "side rs ms zs ds" "0 \<le> r" "0 \<le> d"
  shows "numpy_index (zip (zs @ [r]) (ds @ [d])) k =
    bcast_index (zip rs ms) k + prod_list rs * (if r = 1 then 0 else (k div prod_list ds) mod d)"
proof -
  have l: "length zs = length ds" and n: "nonneg (zip zs ds)" and p: "prod_list rs = prod_list zs"
    and e: "numpy_index (zip zs ds) k = bcast_index (zip rs ms) k"
    using assms(1) by (auto simp: side_def)
  have "zip (zs @ [r]) (ds @ [d]) = zip zs ds @ [(r, d)]" using l by simp
  then show ?thesis using numpy_index_append [OF n, of "[(r, d)]" k] assms(2,3) e by (simp add: l p)
qed

lemma side_bcast_snoc:
  assumes "side rs ms zs ds" "0 \<le> r" "0 \<le> m"
  shows "bcast_index (zip (rs @ [r]) (ms @ [m])) k =
    bcast_index (zip rs ms) k + prod_list rs * (((k div prod_list ds) mod (r * m)) mod r)"
proof -
  have l: "length rs = length ms" and n: "nonneg (zip rs ms)" and p: "prod_list (map2 (*) rs ms) = prod_list ds"
    using assms(1) by (auto simp: side_def)
  have "zip (rs @ [r]) (ms @ [m]) = zip rs ms @ [(r, m)]" using l by simp
  then show ?thesis using bcast_index_append [OF n, of "[(r, m)]" k] assms(2,3) p by (simp add: l)
qed

lemma side_push:
  assumes s: "side rs ms zs ds" and b: "0 \<le> r" "0 \<le> m" "r = 1 \<or> m = 1"
  shows "side (rs @ [r]) (ms @ [m]) (zs @ [r]) (ds @ [r * m])"
proof -
  have "bcast_index (zip (rs @ [r]) (ms @ [m])) k = numpy_index (zip (zs @ [r]) (ds @ [r * m])) k" for k
    using side_numpy_snoc [OF s b(1), of "r * m" k] side_bcast_snoc [OF s b(1,2), of k] b by auto
  then show ?thesis using s b by (auto simp: side_def)
qed

lemma side_skip:
  assumes s: "side rs ms zs ds"
  shows "side rs ms (zs @ [1]) (ds @ [1])"
  using s side_numpy_snoc [OF s, of 1 1] by (auto simp: side_def)

lemma side_merge:
  assumes s: "side (rs @ [r']) (ms @ [m']) zs ds" and b: "0 \<le> r" "0 \<le> m"
    and run: "m' = 1 \<and> m = 1 \<or> r' = 1 \<and> r = 1"
  shows "side (rs @ [r' * r]) (ms @ [m' * m]) (zs @ [r]) (ds @ [r * m])"
proof -
  have l: "length rs = length ms" and n: "nonneg (zip rs ms)" "0 \<le> r'" "0 \<le> m'" using s by (auto simp: side_def)
  have push: "side ((rs @ [r']) @ [r]) ((ms @ [m']) @ [m]) (zs @ [r]) (ds @ [r * m])"
    by (rule side_push [OF s b]) (use run in blast)
  have z: "zip (rs @ [r' * r]) (ms @ [m' * m]) = zip rs ms @ [(r' * r, m' * m)]"
    "zip ((rs @ [r']) @ [r]) ((ms @ [m']) @ [m]) = zip rs ms @ [(r', m'), (r, m)]" using l by simp_all
  have "bcast_index (zip rs ms @ [(r' * r, m' * m)]) k = bcast_index (zip rs ms @ [(r', m'), (r, m)]) k" for k
    using bcast_index_append [OF n(1), of "[(r' * r, m' * m)]" k] bcast_index_append [OF n(1), of "[(r', m'), (r, m)]" k]
      bcast_index_merge [OF n(2) b(1) n(3) b(2) run, of "[]"] n b
    by (simp del: bcast_index.simps)
  then show ?thesis using push n b unfolding side_def z by (auto simp: l algebra_simps)
qed

section \<open>The loop\<close>

definition ones :: "int \<Rightarrow> int list \<Rightarrow> int list" where
  "ones n xs = map (\<lambda>j. n - 1 - int j) (filter (\<lambda>j. xs ! j = 1) [0..<length xs])"

lemma ones_snoc: "ones n (xs @ [x]) = ones n xs @ (if x = 1 then [n - 1 - int (length xs)] else [])"
proof -
  have "filter (\<lambda>j. (xs @ [x]) ! j = 1) [0..<length xs] = filter (\<lambda>j. xs ! j = 1) [0..<length xs]"
    by (rule filter_cong) (auto simp: nth_append)
  then show ?thesis by (simp add: ones_def)
qed

definition out_dim :: "int \<Rightarrow> int \<Rightarrow> int" where
  "out_dim x y = (if x = 1 then y else x)"

text \<open>
  The product of the sizes of the result, empty dimensions left out, bounds every number that the
  loop stores, so that no product wraps.
\<close>

definition cap :: "int list \<Rightarrow> int" where
  "cap ds = prod_list (map (max 1) ds)"

lemma cap_simps [simp]: "cap [] = 1" "cap (d # ds) = max 1 d * cap ds" "cap (ds @ es) = cap ds * cap es"
  by (simp_all add: cap_def)

lemma cap_ge_1: "1 \<le> cap ds"
proof (induction ds)
  case (Cons d ds)
  then show ?case using mult_mono [of 1 "max 1 d" 1 "cap ds"] by simp
qed simp

lemma le_mult_1: "a \<le> p \<Longrightarrow> 0 \<le> p \<Longrightarrow> 1 \<le> m \<Longrightarrow> a \<le> p * m" for a p m :: int
  using mult_left_mono [of 1 m p] by simp

lemma cap_prefix: "cap (ds @ es) < m \<Longrightarrow> cap ds < m"
  using le_mult_1 [OF order_refl, of "cap ds" "cap es"] cap_ge_1 [of ds] cap_ge_1 [of es] unfolding cap_simps by linarith

lemma prod_le_cap: "\<forall>d \<in> set ds. 0 \<le> d \<Longrightarrow> 0 \<le> prod_list ds \<and> prod_list ds \<le> cap ds"
proof (induction ds)
  case (Cons d ds)
  then show ?case using mult_mono [of d "max 1 d" "prod_list ds" "cap ds"] by simp
qed simp

lemma cap_rev: "cap (rev ds) = cap ds"
  by (induction ds) simp_all

definition within :: "int \<Rightarrow> int list \<Rightarrow> bool" where
  "within p v \<longleftrightarrow> (\<forall>a \<in> set v. 0 \<le> a \<and> a \<le> p)"

lemma within_mono: "within p v \<Longrightarrow> 1 \<le> p \<Longrightarrow> 1 \<le> m \<Longrightarrow> within (p * m) v"
  using le_mult_1 by (fastforce simp: within_def)

lemma within_push:
  assumes "within p v" "1 \<le> p" "0 \<le> d" "d \<le> m" "1 \<le> m"
  shows "within (p * m) (v @ [d])"
  using within_mono [OF assms(1,2,5)] mult_mono [of 1 p d m] assms by (auto simp: within_def)

lemma within_scale:
  assumes "within p (v @ [a])" "1 \<le> p" "0 \<le> d" "d \<le> m" "1 \<le> m" "p * m < 2 ^ 63"
  shows "scale_back (v @ [a]) d = v @ [a * d]" "within (p * m) (v @ [a * d])"
proof -
  have a: "0 \<le> a" "a \<le> p" using assms(1) by (auto simp: within_def)
  have ad: "0 \<le> a * d" "a * d \<le> p * m" using mult_mono [of a p d m] a assms by auto
  then show "scale_back (v @ [a]) d = v @ [a * d]" using assms(6) by (simp add: scale_back_def int64_wrap_id)
  have "within p v" using assms(1) by (simp add: within_def)
  from within_mono [OF this assms(2,5)] ad show "within (p * m) (v @ [a * d])" by (auto simp: within_def)
qed

definition bounded :: "bcast \<Rightarrow> bool" where
  "bounded b \<longleftrightarrow> within (cap (output_shape b)) (x_reshape b) \<and> within (cap (output_shape b)) (x_bcast b) \<and>
     within (cap (output_shape b)) (y_reshape b) \<and> within (cap (output_shape b)) (y_bcast b) \<and>
     within (cap (output_shape b)) (result_shape b)"

definition run_ok :: "dim_state \<Rightarrow> bcast \<Rightarrow> bool" where
  "run_ok prev b \<longleftrightarrow> (prev \<noteq> DIM_UNKNOWN \<longrightarrow> x_reshape b \<noteq> []) \<and>
     (case prev of DIM_UNKNOWN \<Rightarrow> True
      | SAME \<Rightarrow> last (x_bcast b) = 1 \<and> last (y_bcast b) = 1
      | X_ONE \<Rightarrow> last (x_reshape b) = 1 \<and> last (y_bcast b) = 1
      | Y_ONE \<Rightarrow> last (x_bcast b) = 1 \<and> last (y_reshape b) = 1)"

definition binv :: "int \<Rightarrow> int list \<Rightarrow> int list \<Rightarrow> bcast \<Rightarrow> bool" where
  "binv n xs ys b \<longleftrightarrow> bvalid b \<and> length xs = length ys \<and> output_shape b = map2 out_dim xs ys \<and>
     side (x_reshape b) (x_bcast b) xs (output_shape b) \<and> side (y_reshape b) (y_bcast b) ys (output_shape b) \<and>
     length (x_reshape b) = length (y_reshape b) \<and>
     result_shape b = map2 (*) (x_reshape b) (x_bcast b) \<and> result_shape b = map2 (*) (y_reshape b) (y_bcast b) \<and>
     grad_x_reduce_idx b = ones n xs \<and> grad_y_reduce_idx b = ones n ys \<and> bounded b"

lemma binv_bounded: "binv n xs ys b \<Longrightarrow> bounded b"
  by (simp add: binv_def)

lemma factor_le:
  fixes x m d :: int
  assumes "0 \<le> x" "0 \<le> m" "x = 1 \<or> m = 1" "x * m = d"
  shows "x \<le> max 1 d" "m \<le> max 1 d"
  using assms by auto

lemma bounded_push:
  assumes "bounded b" "0 \<le> x" "0 \<le> bx" "x = 1 \<or> bx = 1" "0 \<le> y" "0 \<le> by'" "y = 1 \<or> by' = 1" "x * bx = d" "y * by' = d"
  shows "bounded (push_dims (b\<lparr>output_shape := output_shape b @ [d], grad_x_reduce_idx := gx, grad_y_reduce_idx := gy\<rparr>) d x bx y by')"
proof -
  note f = factor_le [OF assms(2-4,8)] factor_le [OF assms(5-7,9)]
  have d: "0 \<le> d" "d \<le> max 1 d" using assms(2,3,8) by auto
  show ?thesis using assms(1-3,5,6) f d cap_ge_1 [of "output_shape b"] by (simp add: bounded_def push_dims_def within_push)
qed

lemma binv_push:
  assumes "binv n xs ys b" "0 \<le> x" "0 \<le> bx" "x = 1 \<or> bx = 1" "0 \<le> y" "0 \<le> by'" "y = 1 \<or> by' = 1"
    "x * bx = out_dim x y" "y * by' = out_dim x y" "gx = ones n (xs @ [x])" "gy = ones n (ys @ [y])"
  shows "binv n (xs @ [x]) (ys @ [y])
    (push_dims (b\<lparr>output_shape := output_shape b @ [out_dim x y], grad_x_reduce_idx := gx, grad_y_reduce_idx := gy\<rparr>)
      (out_dim x y) x bx y by')"
proof -
  have sd: "side (x_reshape b) (x_bcast b) xs (output_shape b)" "side (y_reshape b) (y_bcast b) ys (output_shape b)"
    using assms(1) by (auto simp: binv_def)
  then have lens: "length (x_reshape b) = length (x_bcast b)" "length (y_reshape b) = length (y_bcast b)" by (auto simp: side_def)
  have "side (x_reshape b @ [x]) (x_bcast b @ [bx]) (xs @ [x]) (output_shape b @ [out_dim x y])"
    using side_push [OF sd(1) assms(2-4)] assms(8) by simp
  moreover have "side (y_reshape b @ [y]) (y_bcast b @ [by']) (ys @ [y]) (output_shape b @ [out_dim x y])"
    using side_push [OF sd(2) assms(5-7)] assms(9) by simp
  moreover have "map2 (*) (x_reshape b) (x_bcast b) = map2 (*) (y_reshape b) (y_bcast b)"
    using assms(1) unfolding binv_def by metis
  moreover note bounded_push [OF binv_bounded [OF assms(1)] assms(2-9)]
  ultimately show ?thesis using assms(1,8-11) lens unfolding binv_def by (simp add: push_dims_def)
qed

lemma binv_merge:
  assumes "binv n xs ys b" "0 \<le> x" "0 \<le> bx" "0 \<le> y" "0 \<le> by'" "x_reshape b \<noteq> []"
    "last (x_bcast b) = 1 \<and> bx = 1 \<or> last (x_reshape b) = 1 \<and> x = 1"
    "last (y_bcast b) = 1 \<and> by' = 1 \<or> last (y_reshape b) = 1 \<and> y = 1"
    "x * bx = out_dim x y" "y * by' = out_dim x y" "gx = ones n (xs @ [x])" "gy = ones n (ys @ [y])"
    "cap (output_shape b @ [out_dim x y]) < 2 ^ 63"
  shows "binv n (xs @ [x]) (ys @ [y])
    (merge_dims_back (b\<lparr>output_shape := output_shape b @ [out_dim x y], grad_x_reduce_idx := gx, grad_y_reduce_idx := gy\<rparr>)
      (out_dim x y) x bx y by')"
proof -
  have sd: "side (x_reshape b) (x_bcast b) xs (output_shape b)" "side (y_reshape b) (y_bcast b) ys (output_shape b)"
    and ln: "length (x_reshape b) = length (y_reshape b)" "length xs = length ys"
    using assms(1) by (auto simp: binv_def)
  then have ne: "x_bcast b \<noteq> []" "y_reshape b \<noteq> []" "y_bcast b \<noteq> []" using assms(6) by (auto simp: side_def)
  obtain xr r xb m yr r' yb m' where parts: "x_reshape b = xr @ [r]" "x_bcast b = xb @ [m]" "y_reshape b = yr @ [r']" "y_bcast b = yb @ [m']"
    using assms(6) ne by (metis rev_exhaust)
  have lens: "length xr = length xb" "length yr = length yb" "length xr = length yr" using sd ln(1) parts by (auto simp: side_def)
  have sx: "side (xr @ [r * x]) (xb @ [m * bx]) (xs @ [x]) (output_shape b @ [x * bx])"
    by (rule side_merge) (use sd assms parts in auto)
  have sy: "side (yr @ [r' * y]) (yb @ [m' * by']) (ys @ [y]) (output_shape b @ [y * by'])"
    by (rule side_merge) (use sd assms parts in auto)
  have res: "result_shape b = map2 (*) xr xb @ [r * m]" "result_shape b = map2 (*) yr yb @ [r' * m']"
    using assms(1) parts lens by (auto simp: binv_def)
  then have rm: "map2 (*) xr xb = map2 (*) yr yb" "r * m = r' * m'" by (metis append1_eq_conv)+
  let ?d = "out_dim x y" and ?p = "cap (output_shape b)"
  have c: "1 \<le> ?p" "1 \<le> max 1 ?d" "?p * max 1 ?d < 2 ^ 63" using cap_ge_1 assms(13) by simp_all
  have xb: "x = 1 \<or> bx = 1" "y = 1 \<or> by' = 1" using assms(7,8) by blast+
  note f = factor_le [OF assms(2,3) xb(1) assms(9)] factor_le [OF assms(4,5) xb(2) assms(10)]
  have d: "0 \<le> ?d" "?d \<le> max 1 ?d" using assms(2,3,9) by (metis mult_nonneg_nonneg) simp
  have up: "within ?p (xr @ [r])" "within ?p (xb @ [m])" "within ?p (yr @ [r'])" "within ?p (yb @ [m'])" "within ?p (map2 (*) xr xb @ [r * m])"
    using binv_bounded [OF assms(1)] unfolding bounded_def parts res(1) by blast+
  note sc = within_scale [OF up(1) c(1) assms(2) f(1) c(2,3)] within_scale [OF up(2) c(1) assms(3) f(2) c(2,3)]
    within_scale [OF up(3) c(1) assms(4) f(3) c(2,3)] within_scale [OF up(4) c(1) assms(5) f(4) c(2,3)]
    within_scale [OF up(5) c(1) d c(2,3)]
  let ?b = "merge_dims_back (b\<lparr>output_shape := output_shape b @ [?d], grad_x_reduce_idx := gx, grad_y_reduce_idx := gy\<rparr>) ?d x bx y by'"
  have fields: "x_reshape ?b = xr @ [r * x]" "x_bcast ?b = xb @ [m * bx]" "y_reshape ?b = yr @ [r' * y]" "y_bcast ?b = yb @ [m' * by']"
    "result_shape ?b = map2 (*) xr xb @ [r * m * ?d]" "output_shape ?b = output_shape b @ [?d]" "bvalid ?b = bvalid b"
    "grad_x_reduce_idx ?b = gx" "grad_y_reduce_idx ?b = gy"
    by (simp_all add: merge_dims_back_def parts res(1) sc)
  have "bounded ?b" unfolding bounded_def fields using sc c(2) by simp
  moreover have "map2 (*) xr xb @ [r * m * ?d] = map2 (*) (xr @ [r * x]) (xb @ [m * bx])"
    using lens by (simp add: assms(9) [symmetric] algebra_simps)
  moreover have "map2 (*) xr xb @ [r * m * ?d] = map2 (*) (yr @ [r' * y]) (yb @ [m' * by'])"
    unfolding rm assms(10) [symmetric] using lens by (simp add: algebra_simps)
  ultimately show ?thesis using assms(1,9-12) sx sy lens ln parts unfolding binv_def fields by simp
qed

lemma binv_skip:
  assumes "binv n xs ys b" "gx = ones n (xs @ [1])" "gy = ones n (ys @ [1])"
  shows "binv n (xs @ [1]) (ys @ [1])
    (b\<lparr>output_shape := output_shape b @ [1], grad_x_reduce_idx := gx, grad_y_reduce_idx := gy\<rparr>)"
  using assms side_skip by (auto simp: binv_def out_dim_def bounded_def)


lemma binv_run_push:
  "st = SAME \<Longrightarrow> run_ok st (push_dims b d x 1 y 1)"
  "st = X_ONE \<Longrightarrow> x = 1 \<Longrightarrow> run_ok st (push_dims b d x m y 1)"
  "st = Y_ONE \<Longrightarrow> y = 1 \<Longrightarrow> run_ok st (push_dims b d x 1 y m)"
  by (simp_all add: run_ok_def push_dims_def)

lemma run_ok_merge:
  "run_ok SAME b \<Longrightarrow> run_ok SAME (merge_dims_back b d x 1 y 1)"
  "run_ok X_ONE b \<Longrightarrow> x = 1 \<Longrightarrow> run_ok X_ONE (merge_dims_back b d x m y 1)"
  "run_ok Y_ONE b \<Longrightarrow> y = 1 \<Longrightarrow> run_ok Y_ONE (merge_dims_back b d x 1 y m)"
  by (simp_all add: run_ok_def merge_dims_back_def scale_back_def)

lemma bcast_loop_inv:
  assumes "binv n xs ys b" "opt \<Longrightarrow> run_ok prev b" "\<forall>(x, y) \<in> set xys. 0 \<le> x \<and> 0 \<le> y" "i = int (length xs)"
    "cap (output_shape b @ map (\<lambda>(x, y). out_dim x y) xys) < 2 ^ 63"
  shows "\<exists>b'. bcast_loop opt n prev i xys b = Some b' \<and>
    (if \<forall>(x, y) \<in> set xys. x = y \<or> x = 1 \<or> y = 1 then binv n (xs @ map fst xys) (ys @ map snd xys) b' else \<not> bvalid b')"
  using assms
proof (induction xys arbitrary: xs ys b prev i)
  case (Cons xy xys)
  obtain x y where xy: "xy = (x, y)" by (cases xy)
  have pos: "0 \<le> x" "0 \<le> y" "\<forall>(x, y) \<in> set xys. 0 \<le> x \<and> 0 \<le> y" using Cons.prems(3) xy by auto
  have ln: "length xs = length ys" and gr: "grad_x_reduce_idx b = ones n xs" "grad_y_reduce_idx b = ones n ys"
    using Cons.prems(1) by (auto simp: binv_def)
  let ?b = "b\<lparr>output_shape := output_shape b @ [out_dim x y], grad_x_reduce_idx := ones n (xs @ [x]), grad_y_reduce_idx := ones n (ys @ [y])\<rparr>"
  have step: ?case if "binv n (xs @ [x]) (ys @ [y]) b1" "opt \<Longrightarrow> run_ok st b1"
    "bcast_loop opt n prev i (xy # xys) b = bcast_loop opt n st (i + 1) xys b1" "x = y \<or> x = 1 \<or> y = 1" for b1 st
  proof -
    have "output_shape b1 = output_shape b @ [out_dim x y]" using that(1) Cons.prems(1) ln by (simp add: binv_def)
    then have bd: "cap (output_shape b1 @ map (\<lambda>(x, y). out_dim x y) xys) < 2 ^ 63" using Cons.prems(5) by (simp add: xy mult.assoc)
    have "i + 1 = int (length (xs @ [x]))" using Cons.prems(4) by simp
    from Cons.IH [OF that(1,2) pos(3) this bd] obtain b' where b': "bcast_loop opt n st (i + 1) xys b1 = Some b'"
      "if \<forall>(x, y) \<in> set xys. x = y \<or> x = 1 \<or> y = 1 then binv n ((xs @ [x]) @ map fst xys) ((ys @ [y]) @ map snd xys) b'
       else \<not> bvalid b'" by blast
    then show ?thesis unfolding that(3) using that(4) by (intro exI [of _ b']) (auto simp: xy split: if_splits)
  qed
  have cp: "cap (output_shape b @ [out_dim x y]) < 2 ^ 63"
    using cap_prefix [of "output_shape b @ [out_dim x y]" "map (\<lambda>(x, y). out_dim x y) xys"] Cons.prems(5) by (simp add: xy mult.assoc)
  have run: "run_ok p ?b = run_ok p b" for p by (simp add: run_ok_def split: dim_state.split)
  consider "\<not> (x = y \<or> x = 1 \<or> y = 1)" | "x = y" "x = 1" | "x = y" "x \<noteq> 1" | "x \<noteq> y" "x = 1" | "x \<noteq> y" "y = 1" "x \<noteq> 1" by blast
  then show ?case
  proof cases
    case 1
    then show ?thesis using pos xy by auto
  next
    case 2
    have g: "ones n (xs @ [x]) = ones n xs @ [n - 1 - i]" "ones n (ys @ [y]) = ones n ys @ [n - 1 - i]"
      using 2 Cons.prems(4) ln by (simp_all add: ones_snoc)
    show ?thesis
    proof (cases opt)
      case True
      show ?thesis
        by (rule step [of ?b prev]) (use 2 True binv_skip [OF Cons.prems(1) refl refl] run Cons.prems(2) pos xy g gr in \<open>simp_all add: out_dim_def\<close>)
    next
      case False
      show ?thesis
        by (rule step [of "push_dims ?b (out_dim x y) x 1 y 1" prev])
          (use 2 False binv_push [OF Cons.prems(1), of x 1 y 1] pos xy g gr in \<open>simp_all add: out_dim_def\<close>)
    qed
  next
    case 3
    have g: "ones n (xs @ [x]) = ones n xs" "ones n (ys @ [y]) = ones n ys" using 3 by (simp_all add: ones_snoc)
    show ?thesis
    proof (cases "opt \<and> prev = SAME")
      case True
      then have r: "run_ok SAME b" using Cons.prems(2) by simp
      have m: "binv n (xs @ [x]) (ys @ [y]) (merge_dims_back ?b (out_dim x y) x 1 y 1)"
        by (rule binv_merge [OF Cons.prems(1)]) (use 3 r pos cp in \<open>auto simp: run_ok_def out_dim_def\<close>)
      have "run_ok SAME (merge_dims_back ?b (out_dim x y) x 1 y 1)" by (rule run_ok_merge(1)) (use 3 r run in simp_all)
      moreover have "bcast_loop opt n prev i (xy # xys) b = bcast_loop opt n SAME (i + 1) xys (merge_dims_back ?b (out_dim x y) x 1 y 1)"
        using 3 True pos xy g gr by (cases b) (auto simp: out_dim_def Let_def)
      ultimately show ?thesis by (rule step [OF m]) (use 3 in blast)
    next
      case False
      have m: "binv n (xs @ [x]) (ys @ [y]) (push_dims ?b (out_dim x y) x 1 y 1)"
        by (rule binv_push [OF Cons.prems(1)]) (use 3 pos in \<open>auto simp: out_dim_def\<close>)
      have "run_ok SAME (push_dims ?b (out_dim x y) x 1 y 1)" by (rule binv_run_push(1)) (use 3 in simp_all)
      moreover have "bcast_loop opt n prev i (xy # xys) b = bcast_loop opt n SAME (i + 1) xys (push_dims ?b (out_dim x y) x 1 y 1)"
        using 3 False pos xy g gr by (cases b) (auto simp: out_dim_def Let_def)
      ultimately show ?thesis by (rule step [OF m]) (use 3 in blast)
    qed
  next
    case 4
    have g: "ones n (xs @ [x]) = ones n xs @ [n - 1 - i]" "ones n (ys @ [y]) = ones n ys"
      using 4 Cons.prems(4) by (simp_all add: ones_snoc)
    show ?thesis
    proof (cases "opt \<and> prev = X_ONE")
      case True
      then have r: "run_ok X_ONE b" using Cons.prems(2) by simp
      have m: "binv n (xs @ [x]) (ys @ [y]) (merge_dims_back ?b (out_dim x y) x y y 1)"
        by (rule binv_merge [OF Cons.prems(1)]) (use 4 r pos cp in \<open>auto simp: run_ok_def out_dim_def\<close>)
      have "run_ok X_ONE (merge_dims_back ?b (out_dim x y) x y y 1)" by (rule run_ok_merge(2)) (use 4 r run in simp_all)
      moreover have "bcast_loop opt n prev i (xy # xys) b = bcast_loop opt n X_ONE (i + 1) xys (merge_dims_back ?b (out_dim x y) x y y 1)"
        using 4 True pos xy g gr by (cases b) (auto simp: out_dim_def Let_def)
      ultimately show ?thesis by (rule step [OF m]) (use 4 in blast)
    next
      case False
      have m: "binv n (xs @ [x]) (ys @ [y]) (push_dims ?b (out_dim x y) x y y 1)"
        by (rule binv_push [OF Cons.prems(1)]) (use 4 pos in \<open>auto simp: out_dim_def\<close>)
      have "run_ok X_ONE (push_dims ?b (out_dim x y) x y y 1)" by (rule binv_run_push(2)) (use 4 in simp_all)
      moreover have "bcast_loop opt n prev i (xy # xys) b = bcast_loop opt n X_ONE (i + 1) xys (push_dims ?b (out_dim x y) x y y 1)"
        using 4 False pos xy g gr by (cases b) (auto simp: out_dim_def Let_def)
      ultimately show ?thesis by (rule step [OF m]) (use 4 in blast)
    qed
  next
    case 5
    have g: "ones n (xs @ [x]) = ones n xs" "ones n (ys @ [y]) = ones n ys @ [n - 1 - i]"
      using 5 Cons.prems(4) ln by (simp_all add: ones_snoc)
    show ?thesis
    proof (cases "opt \<and> prev = Y_ONE")
      case True
      then have r: "run_ok Y_ONE b" using Cons.prems(2) by simp
      have m: "binv n (xs @ [x]) (ys @ [y]) (merge_dims_back ?b (out_dim x y) x 1 y x)"
        by (rule binv_merge [OF Cons.prems(1)]) (use 5 r pos cp in \<open>auto simp: run_ok_def out_dim_def\<close>)
      have "run_ok Y_ONE (merge_dims_back ?b (out_dim x y) x 1 y x)" by (rule run_ok_merge(3)) (use 5 r run in simp_all)
      moreover have "bcast_loop opt n prev i (xy # xys) b = bcast_loop opt n Y_ONE (i + 1) xys (merge_dims_back ?b (out_dim x y) x 1 y x)"
        using 5 True pos xy g gr by (cases b) (auto simp: out_dim_def Let_def)
      ultimately show ?thesis by (rule step [OF m]) (use 5 in blast)
    next
      case False
      have m: "binv n (xs @ [x]) (ys @ [y]) (push_dims ?b (out_dim x y) x 1 y x)"
        by (rule binv_push [OF Cons.prems(1)]) (use 5 pos in \<open>auto simp: out_dim_def\<close>)
      have "run_ok Y_ONE (push_dims ?b (out_dim x y) x 1 y x)" by (rule binv_run_push(3)) (use 5 in simp_all)
      moreover have "bcast_loop opt n prev i (xy # xys) b = bcast_loop opt n Y_ONE (i + 1) xys (push_dims ?b (out_dim x y) x 1 y x)"
        using 5 False pos xy g gr by (cases b) (auto simp: out_dim_def Let_def)
      ultimately show ?thesis by (rule step [OF m]) (use 5 in blast)
    qed
  qed
qed (auto simp: binv_def)


section \<open>Properties\<close>

lemma align_length: "length s \<le> n \<Longrightarrow> length (align s n) = n"
  by (simp add: align_def)

lemma rev_resize1: "rev (resize1 (rev s) n) = align s n"
  by (simp add: resize1_def align_def)

lemma resize1_rev: "resize1 (rev s) n = rev (align s n)"
  by (simp add: resize1_def align_def)

lemma align_self: "align s (length s) = s"
  by (simp add: align_def)

lemma BCast_general:
  assumes "\<not> (sx = sy \<and> opt)"
  shows "BCast sx sy opt = (let n = max (length sx) (length sy) in
    bcast_loop opt (int n) DIM_UNKNOWN 0 (zip (rev (align sx n)) (rev (align sy n))) empty_bcast \<bind> (\<lambda>b.
      if \<not> bvalid b then Some b
      else Some (reverse_all (if result_shape b = [] then push_dims b 1 1 1 1 1 else b))))"
proof (cases "length sx > length sy")
  case True
  then have "max (length sx) (length sy) = length sx" by simp
  then show ?thesis using True by (simp add: BCast_def if_not_P [OF assms] Let_def resize1_rev align_self align_length)
next
  case False
  then have "max (length sx) (length sy) = length sy" by simp
  then show ?thesis using False by (simp add: BCast_def if_not_P [OF assms] Let_def resize1_rev align_self align_length)
qed

lemma binv_empty: "binv n [] [] empty_bcast"
  by (simp add: binv_def empty_bcast_def side_def ones_def bounded_def within_def)

lemma binv_final:
  assumes "binv n xs ys b"
  shows "binv n xs ys (if result_shape b = [] then push_dims b 1 1 1 1 1 else b)"
proof (cases "result_shape b = []")
  case True
  have sd: "side (x_reshape b) (x_bcast b) xs (output_shape b)" "side (y_reshape b) (y_bcast b) ys (output_shape b)"
    "length (x_reshape b) = length (y_reshape b)" "result_shape b = map2 (*) (x_reshape b) (x_bcast b)"
    using assms by (auto simp: binv_def)
  then have e: "x_reshape b = []" "x_bcast b = []" "y_reshape b = []" "y_bcast b = []" using True by (auto simp: side_def zip_eq_Nil_iff)
  have "side [1] [1] xs (output_shape b)" "side [1] [1] ys (output_shape b)"
    using sd(1,2) by (simp_all add: side_def e)
  then show ?thesis using assms True e cap_ge_1 [of "output_shape b"] by (simp add: binv_def push_dims_def bounded_def within_def)
qed (use assms in simp)

lemma map2_rev: "length xs = length ys \<Longrightarrow> map2 f (rev xs) (rev ys) = rev (map2 f xs ys)"
  by (simp add: zip_rev rev_map)

lemma ones_rev:
  assumes "n = int (length xs)"
  shows "rev (ones n (rev xs)) = map int (filter (\<lambda>j. xs ! j = 1) [0..<length xs])"
  using assms
proof (induction xs arbitrary: n)
  case (Cons x xs)
  have up: "[0..<length (x # xs)] = 0 # map Suc [0..<length xs]" by (simp add: upt_conv_Cons map_Suc_upt del: upt_Suc)
  have "ones n ys = map (\<lambda>v. v + 1) (ones (n - 1) ys)" for ys by (simp add: ones_def)
  then have "rev (ones n (rev xs)) = map (\<lambda>v. v + 1) (map int (filter (\<lambda>j. xs ! j = 1) [0..<length xs]))"
    using Cons.IH [of "n - 1"] Cons.prems by (simp add: rev_map)
  then show ?case unfolding up using Cons.prems by (simp add: ones_snoc filter_map comp_def add.commute)
qed (simp add: ones_def)

lemma compatible_pairs:
  "length xs = length ys \<Longrightarrow> (\<forall>(x, y) \<in> set (zip (rev xs) (rev ys)). x = y \<or> x = 1 \<or> y = 1) \<longleftrightarrow>
     list_all2 (\<lambda>x y. x = y \<or> x = 1 \<or> y = (1::int)) xs ys"
  by (simp add: zip_rev list_all2_iff)

text \<open>What the constructor yields, on either path.\<close>

lemma BCast_result:
  assumes pos: "\<forall>d \<in> set sx \<union> set sy. 0 \<le> d" and cp: "cap (numpy_shape sx sy) < 2 ^ 63"
  defines "n \<equiv> max (length sx) (length sy)"
  shows "\<exists>b. BCast sx sy opt = Some b \<and> (bvalid b \<longleftrightarrow> numpy_compatible sx sy) \<and>
    (bvalid b \<longrightarrow> output_shape b = numpy_shape sx sy \<and>
       side (rev (x_reshape b)) (rev (x_bcast b)) (rev (align sx n)) (rev (output_shape b)) \<and>
       side (rev (y_reshape b)) (rev (y_bcast b)) (rev (align sy n)) (rev (output_shape b)) \<and>
       result_shape b = map2 (*) (x_reshape b) (x_bcast b) \<and> result_shape b = map2 (*) (y_reshape b) (y_bcast b) \<and>
       (\<not> (sx = sy \<and> opt) \<longrightarrow>
         grad_x_reduce_idx b = map int (filter (\<lambda>j. align sx n ! j = 1) [0..<n]) \<and>
         grad_y_reduce_idx b = map int (filter (\<lambda>j. align sy n ! j = 1) [0..<n])))"
proof (cases "sx = sy \<and> opt")
  case True
  let ?p = "prod_list sx"
  have n: "n = length sx" using True by (simp add: n_def)
  have f: "fold (\<lambda>dim e. int64_wrap (e * dim)) zs a = a * prod_list zs"
    if "\<forall>d \<in> set zs. 0 \<le> d" "0 \<le> a" "a * cap zs < 2 ^ 63" for zs and a :: int
    using that
  proof (induction zs arbitrary: a)
    case (Cons z zs)
    have "0 \<le> a * z" "a * z \<le> a * max 1 z" using Cons.prems mult_left_mono [of z "max 1 z" a] by auto
    moreover have "a * z * cap zs \<le> a * max 1 z * cap zs" using calculation cap_ge_1 [of zs] by (intro mult_right_mono) auto
    moreover have "a * z \<le> a * z * cap zs" by (rule le_mult_1 [OF order_refl]) (use calculation cap_ge_1 [of zs] in auto)
    ultimately have b: "0 \<le> a * z" "a * z < 2 ^ 63" "a * z * cap zs < 2 ^ 63" using Cons.prems(3) by (simp_all add: mult.assoc)
    then have "int64_wrap (a * z) = a * z" by (intro int64_wrap_id) auto
    then show ?case using Cons.IH [of "a * z"] Cons.prems(1) b by (simp add: mult.assoc)
  qed simp
  have same: "list_all2 (\<lambda>x y. x = y \<or> x = 1 \<or> y = 1) sx sx" "map2 (\<lambda>x y. if x = 1 then y else x) sx sx = sx"
    by (auto simp: list_all2_same intro: nth_equalityI)
  have "numpy_shape sx sy = sx" using True same(2) by (simp add: numpy_shape_def Let_def align_self)
  then have fs: "fold (\<lambda>dim e. int64_wrap (e * dim)) sx 1 = ?p" using f [of sx 1] pos cp by simp
  have B: "BCast sx sy opt = Some (empty_bcast\<lparr>output_shape := sx, result_shape := [?p], x_reshape := [?p], y_reshape := [?p],
                x_bcast := [1], y_bcast := [1]\<rparr>)" using True fs by (simp add: BCast_def Let_def)
  have idx: "numpy_index (zip zs zs) k = k mod prod_list zs" if "\<forall>d \<in> set zs. 0 \<le> d" for zs k
    using that
  proof (induction zs arbitrary: k)
    case (Cons z zs)
    have "0 \<le> prod_list zs" using Cons.prems by (auto intro!: prod_list_nonneg)
    then show ?case using Cons by (auto simp: zmod_zmult2_eq)
  qed simp
  have p0: "0 \<le> ?p" using pos by (auto intro!: prod_list_nonneg)
  have "side [?p] [1] (rev sx) (rev sx)"
    using idx [of "rev sx"] pos p0 by (auto simp: side_def prod_list.rev dest!: set_zip_both)
  then show ?thesis using B True n same by (auto simp: numpy_compatible_def numpy_shape_def Let_def align_self empty_bcast_def)
next
  case False
  let ?x = "align sx n" and ?y = "align sy n"
  have len: "length ?x = n" "length ?y = n" by (simp_all add: align_length n_def)
  have "\<forall>d \<in> set ?x \<union> set ?y. 0 \<le> d" using pos by (auto simp: align_def)
  then have nn: "\<forall>(x, y) \<in> set (zip (rev ?x) (rev ?y)). 0 \<le> x \<and> 0 \<le> y" by (auto dest!: set_zip_both)
  have "map (\<lambda>(x, y). out_dim x y) (zip (rev ?x) (rev ?y)) = rev (numpy_shape sx sy)"
    using len by (simp add: numpy_shape_def n_def [symmetric] Let_def map2_rev out_dim_def)
  then have bd: "cap (output_shape empty_bcast @ map (\<lambda>(x, y). out_dim x y) (zip (rev ?x) (rev ?y))) < 2 ^ 63"
    using cp by (simp add: empty_bcast_def cap_rev)
  obtain b where b: "bcast_loop opt (int n) DIM_UNKNOWN 0 (zip (rev ?x) (rev ?y)) empty_bcast = Some b"
    "if numpy_compatible sx sy then binv (int n) (rev ?x) (rev ?y) b else \<not> bvalid b"
    using bcast_loop_inv [OF binv_empty _ nn, of opt DIM_UNKNOWN 0 "int n"] len bd
    by (auto simp: run_ok_def compatible_pairs numpy_compatible_def n_def [symmetric] Let_def split: if_splits)
  let ?b = "if result_shape b = [] then push_dims b 1 1 1 1 1 else b"
  have B: "BCast sx sy opt = (if \<not> bvalid b then Some b else Some (reverse_all ?b))"
    using BCast_general [OF False] b(1) by (simp add: n_def Let_def)
  show ?thesis
  proof (cases "numpy_compatible sx sy")
    case compat: True
    then have "binv (int n) (rev ?x) (rev ?y) b" using b(2) by simp
    from binv_final [OF this] have bi: "binv (int n) (rev ?x) (rev ?y) ?b" .
    have v: "bvalid b" using b(2) compat by (simp add: binv_def)
    have o: "output_shape ?b = rev (numpy_shape sx sy)"
      using bi len by (simp add: binv_def numpy_shape_def n_def [symmetric] Let_def map2_rev out_dim_def)
    have ln: "length (x_reshape ?b) = length (x_bcast ?b)" "length (y_reshape ?b) = length (y_bcast ?b)"
      using bi by (auto simp: binv_def side_def)
    have res: "result_shape ?b = map2 (*) (x_reshape ?b) (x_bcast ?b)" "result_shape ?b = map2 (*) (y_reshape ?b) (y_bcast ?b)"
      using bi unfolding binv_def by blast+
    have gr: "grad_x_reduce_idx ?b = ones (int n) (rev ?x)" "grad_y_reduce_idx ?b = ones (int n) (rev ?y)"
      using bi unfolding binv_def by blast+
    have "side (x_reshape ?b) (x_bcast ?b) (rev ?x) (output_shape ?b)" "side (y_reshape ?b) (y_bcast ?b) (rev ?y) (output_shape ?b)"
      using bi unfolding binv_def by blast+
    moreover have "rev (ones (int n) (rev ?x)) = map int (filter (\<lambda>j. ?x ! j = 1) [0..<n])"
      "rev (ones (int n) (rev ?y)) = map int (filter (\<lambda>j. ?y ! j = 1) [0..<n])"
      using ones_rev [of "int n" ?x] ones_rev [of "int n" ?y] len by simp_all
    moreover have "bvalid ?b" using bi by (simp add: binv_def)
    ultimately show ?thesis using B v compat o res [THEN arg_cong, of rev] gr ln
      by (simp only: not_True_eq_False if_False) (auto simp: reverse_all_def map2_rev)
  next
    case False
    then show ?thesis using B b(2) by auto
  qed
qed


text \<open>
  C25. Broadcasting follows numpy's rule. For shapes without negative sizes, where the product of the
  non-zero sizes of the broadcast shape is below \<open>2^63\<close>, the constructor never
  aborts and accepts exactly the pairs numpy accepts; then the output shape is numpy's, and
  reshaping an operand to \<open>x_reshape\<close> and copying it \<open>x_bcast\<close> times reads, for every flat position
  of the result, the very element numpy reads, with or without the merging of dimensions. The
  reshapes keep the number of elements and both operands are expanded to \<open>result_shape\<close>.
\<close>

theorem BCast_numpy:
  assumes "\<forall>d \<in> set sx \<union> set sy. 0 \<le> d" "prod_list (map (max 1) (numpy_shape sx sy)) < 2 ^ 63"
  shows "\<exists>b. BCast sx sy opt = Some b \<and> (bvalid b \<longleftrightarrow> numpy_compatible sx sy) \<and>
    (bvalid b \<longrightarrow> output_shape b = numpy_shape sx sy \<and>
       (let n = max (length sx) (length sy) in
        (\<forall>k. bcast_index (rev (zip (x_reshape b) (x_bcast b))) k = numpy_index (rev (zip (align sx n) (output_shape b))) k) \<and>
        (\<forall>k. bcast_index (rev (zip (y_reshape b) (y_bcast b))) k = numpy_index (rev (zip (align sy n) (output_shape b))) k)) \<and>
       prod_list (x_reshape b) = prod_list sx \<and> prod_list (y_reshape b) = prod_list sy \<and>
       prod_list (result_shape b) = prod_list (output_shape b) \<and>
       result_shape b = map2 (*) (x_reshape b) (x_bcast b) \<and> result_shape b = map2 (*) (y_reshape b) (y_bcast b))"
proof -
  let ?n = "max (length sx) (length sy)"
  obtain b where b: "BCast sx sy opt = Some b" "bvalid b \<longleftrightarrow> numpy_compatible sx sy"
    "bvalid b \<longrightarrow> output_shape b = numpy_shape sx sy \<and>
       side (rev (x_reshape b)) (rev (x_bcast b)) (rev (align sx ?n)) (rev (output_shape b)) \<and>
       side (rev (y_reshape b)) (rev (y_bcast b)) (rev (align sy ?n)) (rev (output_shape b)) \<and>
       result_shape b = map2 (*) (x_reshape b) (x_bcast b) \<and> result_shape b = map2 (*) (y_reshape b) (y_bcast b)"
    using BCast_result [OF assms [folded cap_def], of opt] by blast
  have al: "prod_list (align s m) = prod_list s" for s m by (induction "m - length s") (simp_all add: align_def)
  have unrev: "(\<forall>k. bcast_index (rev (zip rs ms)) k = numpy_index (rev (zip zs ds)) k) \<and> prod_list rs = prod_list zs \<and>
      prod_list (map2 (*) rs ms) = prod_list ds"
    if "side (rev rs) (rev ms) (rev zs) (rev ds)" for rs ms zs ds
    using that by (auto simp: side_def zip_rev map2_rev rev_map [symmetric] prod_list.rev)
  show ?thesis
  proof (intro exI [of _ b] conjI impI)
    assume "bvalid b"
    with b(3) have f: "output_shape b = numpy_shape sx sy"
      "side (rev (x_reshape b)) (rev (x_bcast b)) (rev (align sx ?n)) (rev (output_shape b))"
      "side (rev (y_reshape b)) (rev (y_bcast b)) (rev (align sy ?n)) (rev (output_shape b))"
      "result_shape b = map2 (*) (x_reshape b) (x_bcast b)" "result_shape b = map2 (*) (y_reshape b) (y_bcast b)" by blast+
    note u = unrev [OF f(2)] unrev [OF f(3)]
    show "output_shape b = numpy_shape sx sy" by (fact f(1))
    show "let n = ?n in
        (\<forall>k. bcast_index (rev (zip (x_reshape b) (x_bcast b))) k = numpy_index (rev (zip (align sx n) (output_shape b))) k) \<and>
        (\<forall>k. bcast_index (rev (zip (y_reshape b) (y_bcast b))) k = numpy_index (rev (zip (align sy n) (output_shape b))) k)"
      unfolding Let_def using u by blast
    show "prod_list (x_reshape b) = prod_list sx" "prod_list (y_reshape b) = prod_list sy" using u al by auto
    show "prod_list (result_shape b) = prod_list (output_shape b)" unfolding f(4) using u(1) by blast
    show "result_shape b = map2 (*) (x_reshape b) (x_bcast b)" "result_shape b = map2 (*) (y_reshape b) (y_bcast b)"
      by (fact f(4)) (fact f(5))
  qed (use b in blast)+
qed

theorem BCast_numpy_witness:
  "\<exists>b. BCast [2, 1, 3] [4, 1] True = Some b \<and> bvalid b \<and> output_shape b = [2, 4, 3] \<and> prod_list (result_shape b) = 24"
proof -
  have "numpy_compatible [2, 1, 3] [4, 1]" "numpy_shape [2, 1, 3] [4, 1] = [2, 4, 3]"
    by (simp_all add: numpy_compatible_def numpy_shape_def align_def)
  with BCast_numpy [of "[2, 1, 3]" "[4, 1]" True] show ?thesis by auto
qed

text \<open>
  The axes over which a gradient is summed are exactly the aligned dimensions of size one,
  in increasing order, unless the fast path for equal shapes was taken.
\<close>

theorem BCast_grad_reduce:
  assumes "\<forall>d \<in> set sx \<union> set sy. 0 \<le> d" "prod_list (map (max 1) (numpy_shape sx sy)) < 2 ^ 63"
    and "numpy_compatible sx sy" "sx \<noteq> sy \<or> \<not> opt"
  shows "\<exists>b. BCast sx sy opt = Some b \<and>
    (let n = max (length sx) (length sy) in
     grad_x_reduce_idx b = map int (filter (\<lambda>j. align sx n ! j = 1) [0..<n]) \<and>
     grad_y_reduce_idx b = map int (filter (\<lambda>j. align sy n ! j = 1) [0..<n]))"
  using BCast_result [OF assms(1,2) [folded cap_def], of opt] assms(3,4) unfolding Let_def by blast

theorem BCast_grad_reduce_witness:
  "\<exists>b. BCast [2, 1, 3] [4, 1] True = Some b \<and> grad_x_reduce_idx b = [1] \<and> grad_y_reduce_idx b = [0, 2]"
proof -
  have c: "numpy_compatible [2, 1, 3] [4, 1]" "numpy_shape [2, 1, 3] [4, 1] = [2, 4, 3]"
    by (simp_all add: numpy_compatible_def numpy_shape_def align_def)
  have "filter (\<lambda>j. align [2, 1, 3] 3 ! j = 1) [0..<3] = [1]" "filter (\<lambda>j. align [4, 1] 3 ! j = 1) [0..<3] = [0, 2]"
    by (simp_all add: align_def upt_rec numeral_3_eq_3)
  with BCast_grad_reduce [of "[2, 1, 3]" "[4, 1]" True] c show ?thesis by (auto simp: Let_def align_def)
qed

text \<open>
  Without the bound the products wrap: two legal shapes of no elements make the number of copies of
  the second operand the product of two sizes modulo \<open>2^64\<close>, for instance zero.
\<close>

lemma BCast_wraps:
  assumes "1 < a" "1 < c"
  shows "map_option y_bcast (BCast [0, a, c] [0, 1, 1] True) = Some [1, int64_wrap (c * a)]"
  using assms by (simp add: BCast_def Let_def empty_bcast_def push_dims_def merge_dims_back_def scale_back_def reverse_all_def resize1_def)

end
