(* ===== verification/Numbers.thy ===== *)
theory Numbers
  imports Tf_Prelude
begin

text \<open>
  Decimal numbers of \<^verbatim>\<open>core/lib/strings/numbers.cc\<close> and \<open>Split\<close> of \<^verbatim>\<open>core/lib/strings/str_util.h\<close>.
  Strings are character lists; a parser returns \<open>None\<close> where the C++ returns false. The digit loops
  of the printers run on the unsigned value as a natural number. The parsers accumulate in \<open>int64\<close>,
  and the theorems show that their overflow checks keep the accumulated value in range. Floating
  point conversions are not modelled.
\<close>

section \<open>Model\<close>

definition isdigit :: "char \<Rightarrow> bool" where
  "isdigit c \<longleftrightarrow> 48 \<le> (of_char c :: nat) \<and> (of_char c :: nat) \<le> 57"

definition isspace :: "char \<Rightarrow> bool" where
  "isspace c \<longleftrightarrow> (of_char c :: nat) = 32 \<or> 9 \<le> (of_char c :: nat) \<and> (of_char c :: nat) \<le> 13"

definition SafeFirstChar :: "string \<Rightarrow> char" where
  "SafeFirstChar str = (case str of [] \<Rightarrow> CHR 0x00 | c # _ \<Rightarrow> c)"

fun SkipSpaces :: "string \<Rightarrow> string" where
  "SkipSpaces [] = []"
| "SkipSpaces (c # str) = (if isspace c then SkipSpaces str else c # str)"

definition Consume_minus :: "string \<Rightarrow> bool \<times> string" where
  "Consume_minus str = (case str of c # s \<Rightarrow> if c = CHR ''-'' then (True, s) else (False, str) | [] \<Rightarrow> (False, []))"

definition digit_of :: "char \<Rightarrow> int" where
  "digit_of c = int (of_char c) - 48"

fun digit_loop :: "nat \<Rightarrow> string" where
  "digit_loop i = char_of (i mod 10 + 48) # (if i div 10 > 0 then digit_loop (i div 10) else [])"

declare digit_loop.simps [simp del]

definition FastUInt32ToBufferLeft :: "uint32 \<Rightarrow> string" where
  "FastUInt32ToBufferLeft i = rev (digit_loop (unat i))"

definition FastInt32ToBufferLeft :: "int \<Rightarrow> string" where
  "FastInt32ToBufferLeft i =
     (let u = word_of_int i :: uint32 in
      if i < 0 then CHR ''-'' # FastUInt32ToBufferLeft (0 - u) else FastUInt32ToBufferLeft u)"

definition FastUInt64ToBufferLeft :: "uint64 \<Rightarrow> string" where
  "FastUInt64ToBufferLeft i = rev (digit_loop (unat i))"

definition FastInt64ToBufferLeft :: "int \<Rightarrow> string" where
  "FastInt64ToBufferLeft i =
     (let u = word_of_int i :: uint64 in
      if i < 0 then CHR ''-'' # FastUInt64ToBufferLeft (0 - u) else FastUInt64ToBufferLeft u)"

text \<open>The two digit loops of \<open>safe_strto64\<close> return the value and the unread text.\<close>

fun strto64_pos :: "int \<Rightarrow> string \<Rightarrow> (int \<times> string) option" where
  "strto64_pos result [] = Some (result, [])"
| "strto64_pos result (c # str) =
     (if \<not> isdigit c then Some (result, c # str)
      else if cdiv (9223372036854775807 - digit_of c) 10 < result then None
      else strto64_pos (result * 10 + digit_of c) str)"

fun strto64_neg :: "int \<Rightarrow> string \<Rightarrow> (int \<times> string) option" where
  "strto64_neg result [] = Some (result, [])"
| "strto64_neg result (c # str) =
     (if \<not> isdigit c then Some (result, c # str)
      else if cdiv (- 9223372036854775808 + digit_of c) 10 > result then None
      else strto64_neg (result * 10 - digit_of c) str)"

definition safe_strto64 :: "string \<Rightarrow> int option" where
  "safe_strto64 str =
     (let (neg, str) = Consume_minus (SkipSpaces str) in
      if \<not> isdigit (SafeFirstChar str) then None
      else case (if neg then strto64_neg 0 str else strto64_pos 0 str) of
        None \<Rightarrow> None
      | Some (result, str) \<Rightarrow> if SkipSpaces str \<noteq> [] then None else Some result)"

fun strto32_loop :: "int \<Rightarrow> int \<Rightarrow> string \<Rightarrow> (int \<times> string) option" where
  "strto32_loop vmax result [] = Some (result, [])"
| "strto32_loop vmax result (c # str) =
     (if \<not> isdigit c then Some (result, c # str)
      else let result = result * 10 + digit_of c in
        if result > vmax then None else strto32_loop vmax result str)"

definition safe_strto32 :: "string \<Rightarrow> int option" where
  "safe_strto32 str =
     (let (neg, str) = Consume_minus (SkipSpaces str); vmax = (if neg then 2147483647 + 1 else 2147483647) in
      if \<not> isdigit (SafeFirstChar str) then None
      else case strto32_loop vmax 0 str of
        None \<Rightarrow> None
      | Some (result, str) \<Rightarrow> if SkipSpaces str \<noteq> [] then None else Some (result * (if neg then -1 else 1)))"

definition safe_strtou32 :: "string \<Rightarrow> int option" where
  "safe_strtou32 str =
     (let str = SkipSpaces str in
      if \<not> isdigit (SafeFirstChar str) then None
      else case strto32_loop 4294967295 0 str of
        None \<Rightarrow> None
      | Some (result, str) \<Rightarrow> if SkipSpaces str \<noteq> [] then None else Some result)"

text \<open>\<open>Split\<close>: the current token, the rest of the text.\<close>

fun split_loop :: "string \<Rightarrow> (string \<Rightarrow> bool) \<Rightarrow> string \<Rightarrow> string \<Rightarrow> string list" where
  "split_loop delims p token [] = (if p token then [token] else [])"
| "split_loop delims p token (c # text) =
     (if c \<in> set delims then (if p token then [token] else []) @ split_loop delims p [] text
      else split_loop delims p (token @ [c]) text)"

definition Split :: "string \<Rightarrow> string \<Rightarrow> (string \<Rightarrow> bool) \<Rightarrow> string list" where
  "Split text delims p = (if text \<noteq> [] then split_loop delims p [] text else [])"

definition SkipEmpty :: "string \<Rightarrow> bool" where
  "SkipEmpty sp \<longleftrightarrow> sp \<noteq> []"

definition AllowEmpty :: "string \<Rightarrow> bool" where
  "AllowEmpty sp \<longleftrightarrow> True"

section \<open>Decimal values\<close>

definition dec :: "string \<Rightarrow> int" where
  "dec ds = foldl (\<lambda>v c. v * 10 + digit_of c) 0 ds"

lemma digit_range: "isdigit c \<Longrightarrow> 0 \<le> digit_of c \<and> digit_of c \<le> 9"
  by (auto simp: isdigit_def digit_of_def)

lemma isdigit_not_space: "isdigit c \<Longrightarrow> \<not> isspace c"
  by (auto simp: isdigit_def isspace_def)

lemma digit_not_minus: "isdigit c \<Longrightarrow> c \<noteq> CHR ''-''"
  by (auto simp: isdigit_def)

lemma not_isdigit_NUL: "\<not> isdigit (CHR 0x00)"
  by (simp add: isdigit_def)

text \<open>Reading digits after a value \<open>v\<close>.\<close>

definition dec_from :: "int \<Rightarrow> string \<Rightarrow> int" where
  "dec_from v ds = foldl (\<lambda>v c. v * 10 + digit_of c) v ds"

lemma dec_from_ge: "\<forall>c \<in> set ds. isdigit c \<Longrightarrow> 0 \<le> v \<Longrightarrow> v \<le> dec_from v ds"
proof (induction ds arbitrary: v)
  case (Cons c ds)
  then have "v * 10 + digit_of c \<le> dec_from (v * 10 + digit_of c) ds" using digit_range [of c] by simp
  moreover have "v \<le> v * 10 + digit_of c" using digit_range [of c] Cons.prems by simp
  ultimately show ?case by (simp add: dec_from_def)
qed (simp add: dec_from_def)

lemma cdiv_pos: "0 \<le> a \<Longrightarrow> cdiv a 10 = a div 10"
  by (simp add: cdiv_def sgn_if)

lemma cdiv_neg: "a \<le> 0 \<Longrightarrow> cdiv a 10 = - ((- a) div 10)"
  by (simp add: cdiv_def sgn_if)

lemma div10_less: "a div 10 < v \<longleftrightarrow> a < v * 10" for a v :: int
  using div_mult_mod_eq [of a 10] pos_mod_bound [of 10 a] pos_mod_sign [of 10 a] by linarith

abbreviation (input) stops :: "string \<Rightarrow> bool" where
  "stops rest \<equiv> rest = [] \<or> \<not> isdigit (hd rest)"

lemma strto64_pos_eq:
  assumes "\<forall>c \<in> set ds. isdigit c" "stops rest" "0 \<le> v"
  shows "strto64_pos v (ds @ rest) = (if dec_from v ds < 2 ^ 63 \<or> ds = [] then Some (dec_from v ds, rest) else None)"
  using assms
proof (induction ds arbitrary: v)
  case Nil
  then show ?case by (cases rest) (auto simp: dec_from_def)
next
  case (Cons c ds)
  let ?w = "v * 10 + digit_of c"
  have r: "0 \<le> digit_of c" "digit_of c \<le> 9" using digit_range [of c] Cons.prems by auto
  have "cdiv (9223372036854775807 - digit_of c) 10 = (9223372036854775807 - digit_of c) div 10"
    using r by (intro cdiv_pos) simp
  then have chk: "cdiv (9223372036854775807 - digit_of c) 10 < v \<longleftrightarrow> \<not> ?w < 2 ^ 63" using r by (simp add: div10_less) linarith
  have ge: "?w \<le> dec_from ?w ds" using Cons.prems r by (intro dec_from_ge) auto
  have d: "dec_from v (c # ds) = dec_from ?w ds" by (simp add: dec_from_def)
  have IH: "strto64_pos ?w (ds @ rest) = (if dec_from ?w ds < 2 ^ 63 \<or> ds = [] then Some (dec_from ?w ds, rest) else None)"
    using Cons.IH [of ?w] Cons.prems r by simp
  have e: "dec_from ?w [] = ?w" by (simp add: dec_from_def)
  show ?case using Cons.prems chk ge d IH e by (cases "ds = []") auto
qed

lemma strto64_neg_eq:
  assumes "\<forall>c \<in> set ds. isdigit c" "stops rest" "0 \<le> v"
  shows "strto64_neg (- v) (ds @ rest) = (if dec_from v ds \<le> 2 ^ 63 \<or> ds = [] then Some (- dec_from v ds, rest) else None)"
  using assms
proof (induction ds arbitrary: v)
  case Nil
  then show ?case by (cases rest) (auto simp: dec_from_def)
next
  case (Cons c ds)
  let ?w = "v * 10 + digit_of c"
  have r: "0 \<le> digit_of c" "digit_of c \<le> 9" using digit_range [of c] Cons.prems by auto
  have "cdiv (- 9223372036854775808 + digit_of c) 10 = - ((9223372036854775808 - digit_of c) div 10)"
    using r cdiv_neg [of "- 9223372036854775808 + digit_of c"] by simp
  then have chk: "cdiv (- 9223372036854775808 + digit_of c) 10 > - v \<longleftrightarrow> \<not> ?w \<le> 2 ^ 63" using r by (simp add: div10_less) linarith
  have ge: "?w \<le> dec_from ?w ds" using Cons.prems r by (intro dec_from_ge) auto
  have d: "dec_from v (c # ds) = dec_from ?w ds" by (simp add: dec_from_def)
  have w: "- v * 10 - digit_of c = - ?w" by simp
  have IH: "strto64_neg (- ?w) (ds @ rest) = (if dec_from ?w ds \<le> 2 ^ 63 \<or> ds = [] then Some (- dec_from ?w ds, rest) else None)"
    using Cons.IH [of ?w] Cons.prems r by simp
  have e: "dec_from ?w [] = ?w" by (simp add: dec_from_def)
  have dig: "isdigit c" using Cons.prems by simp
  show ?case unfolding append_Cons strto64_neg.simps w d using dig chk ge IH e by (cases "ds = []") auto
qed

lemma strto32_loop_eq:
  assumes "\<forall>c \<in> set ds. isdigit c" "stops rest" "0 \<le> v" "v \<le> vmax"
  shows "strto32_loop vmax v (ds @ rest) = (if dec_from v ds \<le> vmax then Some (dec_from v ds, rest) else None)"
  using assms
proof (induction ds arbitrary: v)
  case Nil
  then show ?case by (cases rest) (auto simp: dec_from_def)
next
  case (Cons c ds)
  let ?w = "v * 10 + digit_of c"
  have r: "0 \<le> digit_of c" "digit_of c \<le> 9" using digit_range [of c] Cons.prems by auto
  have ge: "?w \<le> dec_from ?w ds" using Cons.prems r by (intro dec_from_ge) auto
  have d: "dec_from v (c # ds) = dec_from ?w ds" by (simp add: dec_from_def)
  show ?case using Cons.IH [of ?w] Cons.prems r ge d by (auto simp: Let_def)
qed

section \<open>Text around the digits\<close>

lemma SkipSpaces_app: "\<forall>c \<in> set sp. isspace c \<Longrightarrow> SkipSpaces (sp @ s) = SkipSpaces s"
  by (induction sp) auto

lemma SkipSpaces_all: "SkipSpaces s = [] \<longleftrightarrow> (\<forall>c \<in> set s. isspace c)"
  by (induction s) auto

lemma SkipSpaces_hd: "s \<noteq> [] \<Longrightarrow> \<not> isspace (hd s) \<Longrightarrow> SkipSpaces s = s"
  by (cases s) auto

lemma spaces_stop: "\<forall>c \<in> set sp. isspace c \<Longrightarrow> stops sp"
  using isdigit_not_space by (cases sp) auto

lemma isspace_minus: "\<not> isspace (CHR ''-'')"
  by (simp add: isspace_def)

lemma digits_printed:
  "\<forall>c \<in> set (digit_loop i). isdigit c" "digit_loop i \<noteq> []" "dec (rev (digit_loop i)) = int i"
proof -
  have d: "isdigit (char_of (i mod 10 + 48))" "digit_of (char_of (i mod 10 + 48)) = int (i mod 10)" for i :: nat
    by (auto simp: isdigit_def digit_of_def)
  show "\<forall>c \<in> set (digit_loop i). isdigit c"
    by (induction i rule: digit_loop.induct) (subst digit_loop.simps, auto simp: d(1))
  show "digit_loop i \<noteq> []" by (subst digit_loop.simps) simp
  show "dec (rev (digit_loop i)) = int i"
  proof (induction i rule: digit_loop.induct)
    case (1 i)
    show ?case
    proof (cases "i div 10 > 0")
      case True
      then have "dec (rev (digit_loop (i div 10))) = int (i div 10)" using 1 by simp
      then show ?thesis using True d(2) [of i]
        by (subst digit_loop.simps) (simp add: dec_def zdiv_int zmod_int)
    next
      case False
      then show ?thesis using d(2) [of i] by (subst digit_loop.simps) (auto simp: dec_def)
    qed
  qed
qed


lemma dec_dec_from: "dec ds = dec_from 0 ds"
  by (simp add: dec_def dec_from_def)

lemma Consume_digits: "ds \<noteq> [] \<Longrightarrow> \<forall>c \<in> set ds. isdigit c \<Longrightarrow> Consume_minus (ds @ s) = (False, ds @ s)"
  using digit_not_minus by (cases ds) (auto simp: Consume_minus_def)

lemma SkipSpaces_digits: "ds \<noteq> [] \<Longrightarrow> \<forall>c \<in> set ds. isdigit c \<Longrightarrow> SkipSpaces (ds @ s) = ds @ s"
  using isdigit_not_space by (cases ds) auto

text \<open>An optional sign, digits and surrounding spaces, as every integer parser reads them.\<close>

lemma safe_strto64_text:
  assumes sp: "\<forall>c \<in> set sp. isspace c" "\<forall>c \<in> set sp'. isspace c" and ds: "ds \<noteq> []" "\<forall>c \<in> set ds. isdigit c"
  shows "safe_strto64 (sp @ ds @ sp') = (if dec ds < 2 ^ 63 then Some (dec ds) else None)"
    "safe_strto64 (sp @ CHR ''-'' # ds @ sp') = (if dec ds \<le> 2 ^ 63 then Some (- dec ds) else None)"
proof -
  have fst: "isdigit (SafeFirstChar (ds @ sp'))" using ds by (cases ds) (auto simp: SafeFirstChar_def)
  have fin: "SkipSpaces sp' = []" using sp(2) SkipSpaces_all by blast
  note skip = SkipSpaces_app [OF sp(1)]
  show "safe_strto64 (sp @ ds @ sp') = (if dec ds < 2 ^ 63 then Some (dec ds) else None)"
    using strto64_pos_eq [OF ds(2) spaces_stop [OF sp(2)], of 0] ds(1) fst fin
    by (simp add: safe_strto64_def skip SkipSpaces_digits [OF ds] Consume_digits [OF ds] dec_dec_from)
  show "safe_strto64 (sp @ CHR ''-'' # ds @ sp') = (if dec ds \<le> 2 ^ 63 then Some (- dec ds) else None)"
    using strto64_neg_eq [OF ds(2) spaces_stop [OF sp(2)], of 0] ds(1) fst fin
    by (simp add: safe_strto64_def skip Consume_minus_def isspace_minus dec_dec_from)
qed

lemma safe_strto32_text:
  assumes sp: "\<forall>c \<in> set sp. isspace c" "\<forall>c \<in> set sp'. isspace c" and ds: "ds \<noteq> []" "\<forall>c \<in> set ds. isdigit c"
  shows "safe_strto32 (sp @ ds @ sp') = (if dec ds < 2 ^ 31 then Some (dec ds) else None)"
    "safe_strto32 (sp @ CHR ''-'' # ds @ sp') = (if dec ds \<le> 2 ^ 31 then Some (- dec ds) else None)"
    "safe_strtou32 (sp @ ds @ sp') = (if dec ds < 2 ^ 32 then Some (dec ds) else None)"
proof -
  have fst: "isdigit (SafeFirstChar (ds @ sp'))" using ds by (cases ds) (auto simp: SafeFirstChar_def)
  have fin: "SkipSpaces sp' = []" using sp(2) SkipSpaces_all by blast
  note skip = SkipSpaces_app [OF sp(1)]
  note loop = strto32_loop_eq [OF ds(2) spaces_stop [OF sp(2)], of 0]
  show "safe_strto32 (sp @ ds @ sp') = (if dec ds < 2 ^ 31 then Some (dec ds) else None)"
    using loop [of 2147483647] fst fin
    by (simp add: safe_strto32_def skip SkipSpaces_digits [OF ds] Consume_digits [OF ds] dec_dec_from)
  show "safe_strto32 (sp @ CHR ''-'' # ds @ sp') = (if dec ds \<le> 2 ^ 31 then Some (- dec ds) else None)"
    using loop [of 2147483648] fst fin
    by (simp add: safe_strto32_def skip Consume_minus_def isspace_minus dec_dec_from)
  show "safe_strtou32 (sp @ ds @ sp') = (if dec ds < 2 ^ 32 then Some (dec ds) else None)"
    using loop [of 4294967295] fst fin
    by (simp add: safe_strtou32_def skip SkipSpaces_digits [OF ds] dec_dec_from)
qed

text \<open>Every text has this form up to what follows the digits.\<close>

lemma skip_split: obtains sp where "s = sp @ SkipSpaces s" "\<forall>c \<in> set sp. isspace c"
proof (induction s arbitrary: thesis)
  case (Cons c s)
  show ?case
  proof (cases "isspace c")
    case True
    obtain sp where "s = sp @ SkipSpaces s" "\<forall>c \<in> set sp. isspace c" using Cons.IH by blast
    then show ?thesis using True Cons.prems [of "c # sp"] by simp
  qed (use Cons.prems [of "[]"] in simp)
qed simp

lemma digits_split: obtains ds rest where "s = ds @ rest" "\<forall>c \<in> set ds. isdigit c" "stops rest"
proof -
  have "s = takeWhile isdigit s @ dropWhile isdigit s" by simp
  then show ?thesis using that [of "takeWhile isdigit s" "dropWhile isdigit s"] hd_dropWhile [of isdigit s]
    by (metis set_takeWhileD)
qed

lemma safe_strto64_sound:
  assumes "safe_strto64 s = Some v"
  obtains sp ds sp' neg where "s = sp @ (if neg then ''-'' else []) @ ds @ sp'" "\<forall>c \<in> set sp. isspace c"
    "\<forall>c \<in> set sp'. isspace c" "ds \<noteq> []" "\<forall>c \<in> set ds. isdigit c"
proof -
  obtain sp where sp: "s = sp @ SkipSpaces s" "\<forall>c \<in> set sp. isspace c" by (rule skip_split)
  obtain neg t where t: "Consume_minus (SkipSpaces s) = (neg, t)" by (cases "Consume_minus (SkipSpaces s)")
  have st: "SkipSpaces s = (if neg then ''-'' else []) @ t"
    using t by (auto simp: Consume_minus_def split: list.splits if_splits)
  obtain ds rest where ds: "t = ds @ rest" "\<forall>c \<in> set ds. isdigit c" "stops rest" by (rule digits_split)
  have ne: "ds \<noteq> []"
  proof
    assume "ds = []"
    then have "\<not> isdigit (SafeFirstChar t)" using ds not_isdigit_NUL by (cases t) (auto simp: SafeFirstChar_def)
    then show False using assms t by (simp add: safe_strto64_def)
  qed
  have "SkipSpaces rest = []"
    using assms t ds(1) strto64_pos_eq [OF ds(2,3), of 0] strto64_neg_eq [OF ds(2,3), of 0]
    by (auto simp: safe_strto64_def split: if_splits)
  then show ?thesis using that [of sp neg ds rest] sp st ds ne SkipSpaces_all by auto
qed

section \<open>Properties\<close>

text \<open>
  \<open>safe_strto64\<close> accepts exactly the decimal integers: a text parses to \<open>v\<close> if and only if it is an
  optional minus sign and at least one digit, with spaces around, whose value is \<open>v\<close> and lies in the
  range of \<open>int64\<close>. The running overflow checks reject exactly the values out of range.
\<close>

theorem safe_strto64_iff:
  "safe_strto64 s = Some v \<longleftrightarrow>
    (\<exists>sp neg ds sp'. s = sp @ (if neg then ''-'' else []) @ ds @ sp' \<and> (\<forall>c \<in> set sp. isspace c) \<and> (\<forall>c \<in> set sp'. isspace c) \<and>
      ds \<noteq> [] \<and> (\<forall>c \<in> set ds. isdigit c) \<and> v = (if neg then - dec ds else dec ds) \<and> - (2 ^ 63) \<le> v \<and> v < 2 ^ 63)"
  (is "?L \<longleftrightarrow> ?R")
proof
  have nonneg: "0 \<le> dec ds" if "\<forall>c \<in> set ds. isdigit c" for ds using dec_from_ge [OF that, of 0] by (simp add: dec_dec_from)
  show ?R if L: ?L
  proof -
    obtain sp ds sp' neg where s: "s = sp @ (if neg then ''-'' else []) @ ds @ sp'" "\<forall>c \<in> set sp. isspace c"
      "\<forall>c \<in> set sp'. isspace c" "ds \<noteq> []" "\<forall>c \<in> set ds. isdigit c" by (rule safe_strto64_sound [OF L])
    have "v = (if neg then - dec ds else dec ds) \<and> - (2 ^ 63) \<le> v \<and> v < 2 ^ 63"
      using safe_strto64_text [OF s(2-5)] s(1) L nonneg [OF s(5)] by (cases neg) (auto split: if_splits)
    then show ?thesis using s by blast
  qed
  show ?L if R: ?R
  proof -
    obtain sp neg ds sp' where s: "s = sp @ (if neg then ''-'' else []) @ ds @ sp'" "\<forall>c \<in> set sp. isspace c"
      "\<forall>c \<in> set sp'. isspace c" "ds \<noteq> []" "\<forall>c \<in> set ds. isdigit c" "v = (if neg then - dec ds else dec ds)"
      "- (2 ^ 63) \<le> v" "v < 2 ^ 63" using R by blast
    then show ?thesis using safe_strto64_text [OF s(2-5)] by (cases neg) auto
  qed
qed

theorem safe_strto64_iff_witness: "safe_strto64 '' -42 '' = Some (- 42)"
  unfolding safe_strto64_iff
  by (rule exI [of _ "'' ''"], rule exI [of _ True], rule exI [of _ "''42''"], rule exI [of _ "'' ''"])
    (simp add: isspace_def isdigit_def dec_def digit_of_def)

lemma unat_neg: "unat (0 - (word_of_int i :: uint64)) = nat (- i)" if "i < 0" "- (2 ^ 63) \<le> i"
proof -
  have "0 - (word_of_int i :: uint64) = word_of_int (- i)" by simp
  moreover have "uint (word_of_int (- i) :: uint64) = - i"
    using that by (subst uint_word_of_int) (simp add: take_bit_int_eq_self)
  ultimately show ?thesis by (simp add: unat_eq_nat_uint)
qed

lemma unat_neg32: "unat (0 - (word_of_int i :: uint32)) = nat (- i)" if "i < 0" "- (2 ^ 31) \<le> i"
proof -
  have "0 - (word_of_int i :: uint32) = word_of_int (- i)" by simp
  moreover have "uint (word_of_int (- i) :: uint32) = - i"
    using that by (subst uint_word_of_int) (simp add: take_bit_int_eq_self)
  ultimately show ?thesis by (simp add: unat_eq_nat_uint)
qed

lemma safe_strto64_printed:
  assumes "- (2 ^ 63) \<le> i" "i < 2 ^ 63"
  shows "safe_strto64 (FastInt64ToBufferLeft i) = Some i"
proof -
  have p: "rev (digit_loop n) \<noteq> []" "\<forall>c \<in> set (rev (digit_loop n)). isdigit c" "dec (rev (digit_loop n)) = int n" for n
    using digits_printed [of n] by auto
  note t64 = safe_strto64_text [of "[]" "[]", OF _ _ p(1,2), unfolded p(3)]
  show ?thesis
  proof (cases "i < 0")
    case True
    then show ?thesis using t64(2) [of "nat (- i)"] unat_neg [of i] assms
      by (simp add: FastInt64ToBufferLeft_def FastUInt64ToBufferLeft_def)
  next
    case False
    then have "int (unat (word_of_int i :: uint64)) = i" using assms by (simp add: unat_eq_nat_uint uint_word_of_int)
    then show ?thesis using t64(1) [of "unat (word_of_int i :: uint64)"] False assms
      by (simp add: FastInt64ToBufferLeft_def FastUInt64ToBufferLeft_def)
  qed
qed

text \<open>
  Printing and parsing integers: what the decimal printers write for any 64-bit or 32-bit integer
  parses back to it, the most negative ones included.
\<close>

theorem decimal_roundtrip:
  "(- (2 ^ 63) \<le> i \<and> i < 2 ^ 63 \<longrightarrow> safe_strto64 (FastInt64ToBufferLeft i) = Some i) \<and>
   (- (2 ^ 31) \<le> j \<and> j < 2 ^ 31 \<longrightarrow> safe_strto32 (FastInt32ToBufferLeft j) = Some j) \<and>
   safe_strtou32 (FastUInt32ToBufferLeft u) = Some (uint u)"
proof (intro conjI impI)
  show "safe_strto64 (FastInt64ToBufferLeft i) = Some i" if "- (2 ^ 63) \<le> i \<and> i < 2 ^ 63"
    using that by (simp add: safe_strto64_printed)
next
  have p: "rev (digit_loop n) \<noteq> []" "\<forall>c \<in> set (rev (digit_loop n)). isdigit c" "dec (rev (digit_loop n)) = int n" for n
    using digits_printed [of n] by auto
  note t32 = safe_strto32_text [of "[]" "[]", OF _ _ p(1,2), unfolded p(3)]
  show "safe_strtou32 (FastUInt32ToBufferLeft u) = Some (uint u)"
    using t32(3) [of "unat u"] uint_bounded [of u] by (simp add: FastUInt32ToBufferLeft_def)
  assume i: "- (2 ^ 31) \<le> j \<and> j < 2 ^ 31"
  show "safe_strto32 (FastInt32ToBufferLeft j) = Some j"
  proof (cases "j < 0")
    case True
    then show ?thesis using t32(2) [of "nat (- j)"] unat_neg32 [of j] i
      by (simp add: FastInt32ToBufferLeft_def FastUInt32ToBufferLeft_def)
  next
    case False
    then have "int (unat (word_of_int j :: uint32)) = j" using i by (simp add: unat_eq_nat_uint uint_word_of_int)
    then show ?thesis using t32(1) [of "unat (word_of_int j :: uint32)"] False i
      by (simp add: FastInt32ToBufferLeft_def FastUInt32ToBufferLeft_def)
  qed
qed

theorem decimal_roundtrip_witness:
  "safe_strto64 (FastInt64ToBufferLeft (- 9223372036854775808)) = Some (- 9223372036854775808)"
  using decimal_roundtrip [of "- 9223372036854775808"] by simp

end
