(* ===== verification/TensorSlice.thy ===== *)
theory TensorSlice
  imports Numbers TensorShape
begin

text \<open>
  Slices of tensors, \<^verbatim>\<open>core/framework/tensor_slice.cc\<close> and \<^verbatim>\<open>tensor_slice.h\<close>. A slice denotes the set of
  index vectors it contains, and its operations are proved against that set. \<open>int64\<close> values are
  integers, and sums and differences of them wrap around as \<open>int64_wrap\<close> says. The code does not
  guard \<open>start + length\<close> against overflow, so that the theorems ask for slices whose ends are
  \<open>int64\<close> values; what happens otherwise is proved in \<open>TensorSliceSet\<close>. \<open>Intersect\<close> and \<open>SliceTensorShape\<close> return their output argument with the result.
\<close>

section \<open>Model\<close>

record tensor_slice =
  starts :: "int list"
  lengths :: "int list"

abbreviation (input) kFullExtent :: int where "kFullExtent \<equiv> -1"

definition slice_dims :: "tensor_slice \<Rightarrow> nat" where
  "slice_dims s = length (starts s)"

definition start_at :: "tensor_slice \<Rightarrow> nat \<Rightarrow> int" where
  "start_at s d = starts s ! d"

definition length_at :: "tensor_slice \<Rightarrow> nat \<Rightarrow> int" where
  "length_at s d = lengths s ! d"

definition end_at :: "tensor_slice \<Rightarrow> nat \<Rightarrow> int" where
  "end_at s d = int64_wrap (start_at s d + length_at s d)"

definition set_start :: "tensor_slice \<Rightarrow> nat \<Rightarrow> int \<Rightarrow> tensor_slice" where
  "set_start s d x = s\<lparr>starts := (starts s)[d := x]\<rparr>"

definition set_length :: "tensor_slice \<Rightarrow> nat \<Rightarrow> int \<Rightarrow> tensor_slice" where
  "set_length s d x = s\<lparr>lengths := (lengths s)[d := x]\<rparr>"

definition IsFullAt :: "tensor_slice \<Rightarrow> nat \<Rightarrow> bool" where
  "IsFullAt s d \<longleftrightarrow> lengths s ! d = kFullExtent \<and> starts s ! d = 0"

definition IsFull :: "tensor_slice \<Rightarrow> bool" where
  "IsFull s \<longleftrightarrow> list_all (IsFullAt s) [0..<slice_dims s]"

definition SetFullSlice :: "nat \<Rightarrow> tensor_slice" where
  "SetFullSlice dim = \<lparr>starts = replicate dim 0, lengths = replicate dim kFullExtent\<rparr>"

definition Clear_slice :: tensor_slice where
  "Clear_slice = \<lparr>starts = [], lengths = []\<rparr>"

definition Extend_slice :: "tensor_slice \<Rightarrow> nat \<Rightarrow> tensor_slice" where
  "Extend_slice s dim =
     \<lparr>starts = starts s @ replicate (dim - slice_dims s) 0, lengths = lengths s @ replicate (dim - slice_dims s) kFullExtent\<rparr>"

text \<open>A proto extent is its start and, when it is set, its length.\<close>

definition GetExtentLength :: "int \<times> int option \<Rightarrow> int" where
  "GetExtentLength e = (case snd e of None \<Rightarrow> -1 | Some l \<Rightarrow> l)"

definition TensorSlice_proto :: "(int \<times> int option) list \<Rightarrow> tensor_slice" where
  "TensorSlice_proto proto = \<lparr>starts = map fst proto, lengths = map GetExtentLength proto\<rparr>"

definition slice_AsProto :: "tensor_slice \<Rightarrow> (int \<times> int option) list" where
  "slice_AsProto s =
     map (\<lambda>d. if \<not> IsFullAt s d then (starts s ! d, Some (lengths s ! d)) else (0, None)) [0..<slice_dims s]"

fun parse_items :: "string list \<Rightarrow> tensor_slice \<Rightarrow> tensor_slice status_or" where
  "parse_items [] sl = Ok sl"
| "parse_items (x # items) sl =
     (if x = ''-'' then
        parse_items items (sl\<lparr>starts := starts sl @ [0], lengths := lengths sl @ [kFullExtent]\<rparr>)
      else
        case Split x '','' SkipEmpty of
          [a, b] \<Rightarrow>
            (case (safe_strto64 a, safe_strto64 b) of
               (Some s, Some l) \<Rightarrow>
                 if s < 0 \<or> l \<le> 0 then Err INVALID_ARGUMENT
                 else parse_items items (sl\<lparr>starts := starts sl @ [s], lengths := lengths sl @ [l]\<rparr>)
             | _ \<Rightarrow> Err INVALID_ARGUMENT)
        | _ \<Rightarrow> Err INVALID_ARGUMENT)"

definition Parse :: "string \<Rightarrow> tensor_slice status_or" where
  "Parse str = parse_items (Split str '':'' SkipEmpty) Clear_slice"

fun join_items :: "bool \<Rightarrow> string list \<Rightarrow> string" where
  "join_items first [] = []"
| "join_items first (x # items) = (if \<not> first then '':'' else []) @ x @ join_items False items"

definition debug_item :: "tensor_slice \<Rightarrow> nat \<Rightarrow> string" where
  "debug_item s d =
     (if IsFullAt s d then ''-''
      else FastInt64ToBufferLeft (starts s ! d) @ '','' @ FastInt64ToBufferLeft (lengths s ! d))"

definition DebugString :: "tensor_slice \<Rightarrow> string" where
  "DebugString s = join_items True (map (debug_item s) [0..<slice_dims s])"

fun intersect_loop :: "tensor_slice \<Rightarrow> tensor_slice \<Rightarrow> nat list \<Rightarrow> tensor_slice \<Rightarrow> bool \<times> tensor_slice" where
  "intersect_loop this other [] result = (True, result)"
| "intersect_loop this other (d # ds) result =
     (if IsFullAt this d then
        intersect_loop this other ds (set_length (set_start result d (start_at other d)) d (length_at other d))
      else if IsFullAt other d then
        intersect_loop this other ds (set_length (set_start result d (start_at this d)) d (length_at this d))
      else
        let s = max (start_at this d) (start_at other d);
            l = int64_wrap (min (end_at this d) (end_at other d) - s) in
        if l > 0 then intersect_loop this other ds (set_length (set_start result d s) d l)
        else (False, Clear_slice))"

definition Intersect :: "tensor_slice \<Rightarrow> tensor_slice \<Rightarrow> tensor_slice \<Rightarrow> bool \<times> tensor_slice" where
  "Intersect this other result =
     (if slice_dims this \<noteq> slice_dims other then (False, result)
      else intersect_loop this other [0..<slice_dims this] (SetFullSlice (slice_dims this)))"

definition Overlaps :: "tensor_slice \<Rightarrow> tensor_slice \<Rightarrow> bool" where
  "Overlaps this other = fst (Intersect this other Clear_slice)"

definition slice_eq :: "tensor_slice \<Rightarrow> tensor_slice \<Rightarrow> bool" where
  "slice_eq s t \<longleftrightarrow> slice_dims s = slice_dims t \<and> starts s = starts t \<and> lengths s = lengths t"

definition relative_step :: "tensor_slice \<Rightarrow> tensor_slice \<Rightarrow> nat \<Rightarrow> tensor_slice \<Rightarrow> tensor_slice" where
  "relative_step this sub d r =
     (if IsFullAt this d then set_length (set_start r d (start_at sub d)) d (length_at sub d)
      else set_length (set_start r d (int64_wrap (start_at sub d - start_at this d))) d (length_at sub d))"

definition ComputeRelative :: "tensor_slice \<Rightarrow> tensor_slice \<Rightarrow> tensor_slice" where
  "ComputeRelative this sub = fold (relative_step this sub) [0..<slice_dims this] (SetFullSlice (slice_dims this))"

definition cover_step :: "tensor_slice \<Rightarrow> nat \<Rightarrow> tensor_slice \<Rightarrow> tensor_slice" where
  "cover_step other d s =
     (if \<not> IsFullAt s d then
        if IsFullAt other d then set_length (set_start s d 0) d kFullExtent
        else
          let new_end = max (end_at s d) (end_at other d);
              s = set_start s d (min (start_at s d) (start_at other d)) in
          set_length s d (int64_wrap (new_end - start_at s d))
      else s)"

definition UpdateToCover :: "tensor_slice \<Rightarrow> tensor_slice \<Rightarrow> tensor_slice" where
  "UpdateToCover s other = fold (cover_step other) [0..<slice_dims s] s"

fun slice_shape_loop :: "tensor_slice \<Rightarrow> tensor_shape \<Rightarrow> nat list \<Rightarrow> tensor_shape \<Rightarrow> tensor_shape status_or option" where
  "slice_shape_loop s shape [] result = Some (Ok result)"
| "slice_shape_loop s shape (d # ds) result =
     (if IsFullAt s d then AddDim False result (dim_size False shape d) \<bind> slice_shape_loop s shape ds
      else if end_at s d \<le> dim_size False shape d then
        AddDim False result (length_at s d) \<bind> slice_shape_loop s shape ds
      else Some (Err INTERNAL))"

definition SliceTensorShape :: "tensor_slice \<Rightarrow> tensor_shape \<Rightarrow> tensor_shape status_or option" where
  "SliceTensorShape s shape =
     (if shape_dims False shape \<noteq> int (slice_dims s) then Some (Err INTERNAL)
      else slice_shape_loop s shape [0..<slice_dims s] \<lparr>shape_rep = REP16 [], ndims_byte = 0, num_elements = 1\<rparr>)"

section \<open>The set of indices of a slice\<close>

text \<open>A dimension is full, or it starts at a non-negative index and is not empty.\<close>

definition slice_wf :: "tensor_slice \<Rightarrow> bool" where
  "slice_wf s \<longleftrightarrow> length (lengths s) = length (starts s) \<and>
     (\<forall>d < slice_dims s. IsFullAt s d \<or> 0 \<le> start_at s d \<and> 0 < length_at s d)"

text \<open>The index after the last one of a dimension; the code computes it when it is an \<open>int64\<close>.\<close>

definition stop_at :: "tensor_slice \<Rightarrow> nat \<Rightarrow> int" where
  "stop_at s d = start_at s d + length_at s d"

definition slice_ok :: "tensor_slice \<Rightarrow> bool" where
  "slice_ok s \<longleftrightarrow> slice_wf s \<and> (\<forall>d < slice_dims s. IsFullAt s d \<or> stop_at s d < 2 ^ 63)"

lemma slice_ok_wf: "slice_ok s \<Longrightarrow> slice_wf s"
  by (simp add: slice_ok_def)

lemma slice_ok_lens: "slice_ok s \<Longrightarrow> length (lengths s) = length (starts s)"
  by (simp add: slice_ok_def slice_wf_def)

lemma slice_ok_dim:
  assumes "slice_ok s" "d < slice_dims s" "\<not> IsFullAt s d"
  shows "0 \<le> start_at s d" "0 < length_at s d" "stop_at s d < 2 ^ 63" "start_at s d < stop_at s d" "end_at s d = stop_at s d"
proof -
  show b: "0 \<le> start_at s d" "0 < length_at s d" "stop_at s d < 2 ^ 63"
    using assms by (auto simp: slice_ok_def slice_wf_def)
  then show "start_at s d < stop_at s d" by (simp add: stop_at_def)
  show "end_at s d = stop_at s d" unfolding end_at_def stop_at_def using b by (intro int64_wrap_id) (auto simp: stop_at_def)
qed

lemma slice_ok_start:
  assumes "slice_ok s" "d < slice_dims s"
  shows "0 \<le> start_at s d" "start_at s d < 2 ^ 63"
  using slice_ok_dim [OF assms] by (cases "IsFullAt s d"; simp add: IsFullAt_def start_at_def)+

definition in_dim :: "tensor_slice \<Rightarrow> nat \<Rightarrow> int \<Rightarrow> bool" where
  "in_dim s d x \<longleftrightarrow> IsFullAt s d \<or> start_at s d \<le> x \<and> x < stop_at s d"

definition in_slice :: "tensor_slice \<Rightarrow> int list \<Rightarrow> bool" where
  "in_slice s idx \<longleftrightarrow> length idx = slice_dims s \<and> (\<forall>d < slice_dims s. in_dim s d (idx ! d))"

lemmas slice_fields = slice_dims_def start_at_def length_at_def end_at_def stop_at_def set_start_def set_length_def

text \<open>The extent that each operation writes to dimension \<open>d\<close>, given the extents of its arguments.\<close>

definition put_dim :: "tensor_slice \<Rightarrow> nat \<Rightarrow> int \<times> int \<Rightarrow> tensor_slice" where
  "put_dim s d e = s\<lparr>starts := (starts s)[d := fst e], lengths := (lengths s)[d := snd e]\<rparr>"

lemma put_dim_set: "set_length (set_start s d a) d b = put_dim s d (a, b)"
  by (simp add: put_dim_def set_start_def set_length_def)

lemma put_dim_at:
  "length (lengths s) = length (starts s) \<Longrightarrow> d < slice_dims s \<Longrightarrow>
   starts (put_dim s d e) ! k = (if k = d then fst e else starts s ! k) \<and>
   lengths (put_dim s d e) ! k = (if k = d then snd e else lengths s ! k)"
  by (simp add: put_dim_def slice_dims_def nth_list_update)

lemma put_dim_len:
  "length (starts (put_dim s d e)) = length (starts s)" "length (lengths (put_dim s d e)) = length (lengths s)"
  "slice_dims (put_dim s d e) = slice_dims s"
  by (simp_all add: put_dim_def slice_dims_def)

text \<open>A loop that writes one extent per dimension builds the slice of these extents.\<close>

definition slice_of :: "nat \<Rightarrow> (nat \<Rightarrow> int \<times> int) \<Rightarrow> tensor_slice" where
  "slice_of n f = \<lparr>starts = map (\<lambda>d. fst (f d)) [0..<n], lengths = map (\<lambda>d. snd (f d)) [0..<n]\<rparr>"

lemma slice_of_dims: "slice_dims (slice_of n f) = n" "length (lengths (slice_of n f)) = n" "length (starts (slice_of n f)) = n"
  by (simp_all add: slice_of_def slice_dims_def)

lemma slice_of_at: "d < n \<Longrightarrow> start_at (slice_of n f) d = fst (f d)" "d < n \<Longrightarrow> length_at (slice_of n f) d = snd (f d)"
  by (simp_all add: slice_of_def start_at_def length_at_def)

lemma fold_put_dim:
  assumes "length (lengths s) = n" "length (starts s) = n" "m \<le> n"
  shows "fold (\<lambda>d s. put_dim s d (f d)) [0..<m] s =
    \<lparr>starts = map (\<lambda>d. fst (f d)) [0..<m] @ drop m (starts s), lengths = map (\<lambda>d. snd (f d)) [0..<m] @ drop m (lengths s)\<rparr>"
  using assms(3)
proof (induction m)
  case (Suc m)
  have "drop m xs = xs ! m # drop (Suc m) xs" if "length xs = n" for xs :: "int list"
    using that Suc.prems by (simp add: Cons_nth_drop_Suc)
  then show ?case using Suc assms(1,2) by (simp add: put_dim_def list_update_append)
qed simp

lemma fold_put_slice_of:
  assumes "length (lengths s) = n" "length (starts s) = n"
  shows "fold (\<lambda>d s. put_dim s d (f d)) [0..<n] s = slice_of n f"
  using fold_put_dim [OF assms order_refl] assms by (simp add: slice_of_def)


lemma in_slice_ext:
  "in_slice (slice_of n f) idx \<longleftrightarrow> length idx = n \<and>
     (\<forall>d < n. f d = (0, -1) \<or> fst (f d) \<le> idx ! d \<and> idx ! d < fst (f d) + snd (f d))"
  by (auto simp: in_slice_def in_dim_def slice_of_dims IsFullAt_def stop_at_def slice_of_at prod_eq_iff
      simp flip: start_at_def length_at_def)

lemma slice_ok_ext:
  assumes "\<forall>d < n. f d = (0, -1) \<or> 0 \<le> fst (f d) \<and> 0 < snd (f d) \<and> fst (f d) + snd (f d) < 2 ^ 63"
  shows "slice_ok (slice_of n f)"
proof -
  have "IsFullAt (slice_of n f) d \<or>
      0 \<le> start_at (slice_of n f) d \<and> 0 < length_at (slice_of n f) d \<and> stop_at (slice_of n f) d < 2 ^ 63" if d: "d < n" for d
    using assms [rule_format, OF d] d unfolding IsFullAt_def stop_at_def
    by (auto simp: slice_of_at prod_eq_iff simp flip: start_at_def length_at_def)
  then show ?thesis unfolding slice_ok_def slice_wf_def slice_of_dims by blast
qed

lemma IsFullAt_ext: "IsFullAt s d \<longleftrightarrow> (start_at s d, length_at s d) = (0, -1)"
  by (auto simp: IsFullAt_def start_at_def length_at_def)

text \<open>A well-formed slice has a point, and one with any chosen admissible coordinate.\<close>

lemma slice_point:
  assumes "slice_ok s" "d < slice_dims s" "in_dim s d x"
  obtains idx where "in_slice s idx" "idx ! d = x"
proof -
  let ?idx = "map (\<lambda>k. if k = d then x else if IsFullAt s k then 0 else start_at s k) [0..<slice_dims s]"
  have "in_dim s k (?idx ! k)" if "k < slice_dims s" for k
    using slice_ok_dim(4) [OF assms(1) that] assms(3) that by (simp add: in_dim_def)
  then have "in_slice s ?idx" by (simp add: in_slice_def)
  then show ?thesis using that [of ?idx] assms(2) by simp
qed

section \<open>Operations on slices as operations on extents\<close>

definition inter_ext :: "tensor_slice \<Rightarrow> tensor_slice \<Rightarrow> nat \<Rightarrow> int \<times> int" where
  "inter_ext s t d =
     (if IsFullAt s d then (start_at t d, length_at t d) else if IsFullAt t d then (start_at s d, length_at s d)
      else (max (start_at s d) (start_at t d), int64_wrap (min (end_at s d) (end_at t d) - max (start_at s d) (start_at t d))))"

definition inter_ok :: "tensor_slice \<Rightarrow> tensor_slice \<Rightarrow> nat \<Rightarrow> bool" where
  "inter_ok s t d \<longleftrightarrow> IsFullAt s d \<or> IsFullAt t d \<or> 0 < snd (inter_ext s t d)"

lemma inter_exact:
  assumes s: "slice_ok s" "d < slice_dims s" and t: "slice_ok t" "d < slice_dims t"
    and n: "\<not> IsFullAt s d" "\<not> IsFullAt t d"
  shows "inter_ext s t d = (max (start_at s d) (start_at t d), min (stop_at s d) (stop_at t d) - max (start_at s d) (start_at t d))"
    "inter_ok s t d \<longleftrightarrow> max (start_at s d) (start_at t d) < min (stop_at s d) (stop_at t d)"
proof -
  note b = slice_ok_dim [OF s n(1)] slice_ok_dim [OF t n(2)]
  have "int64_wrap (min (stop_at s d) (stop_at t d) - max (start_at s d) (start_at t d)) =
      min (stop_at s d) (stop_at t d) - max (start_at s d) (start_at t d)"
    using b slice_ok_start(2) [OF s] slice_ok_start(2) [OF t] by (intro int64_wrap_id) linarith+
  then show e: "inter_ext s t d = (max (start_at s d) (start_at t d), min (stop_at s d) (stop_at t d) - max (start_at s d) (start_at t d))"
    unfolding inter_ext_def b(5,10) using n by simp
  show "inter_ok s t d \<longleftrightarrow> max (start_at s d) (start_at t d) < min (stop_at s d) (stop_at t d)"
    unfolding inter_ok_def e using n by simp
qed

lemma intersect_loop_eq:
  "intersect_loop s t ds r =
     (if \<forall>d \<in> set ds. inter_ok s t d then (True, fold (\<lambda>d r. put_dim r d (inter_ext s t d)) ds r) else (False, Clear_slice))"
proof (induction ds arbitrary: r)
  case (Cons d ds)
  have "intersect_loop s t (d # ds) r =
      (if inter_ok s t d then intersect_loop s t ds (put_dim r d (inter_ext s t d)) else (False, Clear_slice))"
    by (cases "IsFullAt s d"; cases "IsFullAt t d") (simp_all add: put_dim_set inter_ok_def inter_ext_def Let_def)
  then show ?case using Cons.IH by (simp del: intersect_loop.simps)
qed simp

lemma Intersect_eq:
  "slice_dims s = slice_dims t \<Longrightarrow> Intersect s t r =
     (if \<forall>d < slice_dims s. inter_ok s t d then (True, slice_of (slice_dims s) (inter_ext s t)) else (False, Clear_slice))"
  by (auto simp: Intersect_def intersect_loop_eq SetFullSlice_def intro!: fold_put_slice_of)

lemma Intersect_dims: "fst (Intersect s t r) \<Longrightarrow> slice_dims s = slice_dims t"
  by (auto simp: Intersect_def split: if_splits)

definition rel_ext :: "tensor_slice \<Rightarrow> tensor_slice \<Rightarrow> nat \<Rightarrow> int \<times> int" where
  "rel_ext s sub d = (if IsFullAt s d then start_at sub d else int64_wrap (start_at sub d - start_at s d), length_at sub d)"

lemma ComputeRelative_eq: "ComputeRelative s sub = slice_of (slice_dims s) (rel_ext s sub)"
proof -
  have "relative_step s sub = (\<lambda>d r. put_dim r d (rel_ext s sub d))"
    by (intro ext) (simp add: relative_step_def put_dim_set rel_ext_def)
  then show ?thesis by (simp add: ComputeRelative_def SetFullSlice_def fold_put_slice_of)
qed

definition cover_ext :: "tensor_slice \<Rightarrow> tensor_slice \<Rightarrow> nat \<Rightarrow> int \<times> int" where
  "cover_ext s t d =
     (if IsFullAt s d \<or> IsFullAt t d then (0, -1)
      else (min (start_at s d) (start_at t d), int64_wrap (max (end_at s d) (end_at t d) - min (start_at s d) (start_at t d))))"

lemma cover_exact:
  assumes s: "slice_ok s" "d < slice_dims s" and t: "slice_ok t" "d < slice_dims t"
    and n: "\<not> IsFullAt s d" "\<not> IsFullAt t d"
  shows "cover_ext s t d = (min (start_at s d) (start_at t d), max (stop_at s d) (stop_at t d) - min (start_at s d) (start_at t d))"
proof -
  note b = slice_ok_dim [OF s n(1)] slice_ok_dim [OF t n(2)]
  have "int64_wrap (max (stop_at s d) (stop_at t d) - min (start_at s d) (start_at t d)) =
      max (stop_at s d) (stop_at t d) - min (start_at s d) (start_at t d)"
    using b slice_ok_start(2) [OF s] slice_ok_start(2) [OF t] by (intro int64_wrap_id) linarith+
  then show ?thesis unfolding cover_ext_def b(5,10) using n by simp
qed

lemma cover_step_put:
  assumes "d < slice_dims s" "length (lengths s) = length (starts s)"
  shows "cover_step t d s = put_dim s d (cover_ext s t d)"
proof (cases "IsFullAt s d")
  case True
  then have "(starts s)[d := 0] = starts s" "(lengths s)[d := -1] = lengths s"
    using list_update_id [of "starts s" d] list_update_id [of "lengths s" d] by (simp_all add: IsFullAt_def)
  then show ?thesis using True by (simp add: cover_step_def cover_ext_def put_dim_def)
next
  case False
  then show ?thesis using assms by (simp add: cover_step_def cover_ext_def put_dim_def slice_fields Let_def)
qed

lemma cover_ext_cong: "starts s ! d = starts s' ! d \<Longrightarrow> lengths s ! d = lengths s' ! d \<Longrightarrow> cover_ext s t d = cover_ext s' t d"
  by (simp add: cover_ext_def IsFullAt_def start_at_def end_at_def length_at_def)

lemma UpdateToCover_eq:
  assumes "length (lengths s) = length (starts s)"
  shows "UpdateToCover s t = slice_of (slice_dims s) (cover_ext s t)"
proof -
  have l: "length (lengths s) = slice_dims s" "length (starts s) = slice_dims s" using assms by (auto simp: slice_dims_def)
  have "fold (cover_step t) [0..<m] s = fold (\<lambda>d r. put_dim r d (cover_ext s t d)) [0..<m] s" if "m \<le> slice_dims s" for m
    using that
  proof (induction m)
    case (Suc m)
    let ?r = "fold (\<lambda>d r. put_dim r d (cover_ext s t d)) [0..<m] s"
    have r: "?r = \<lparr>starts = map (\<lambda>d. fst (cover_ext s t d)) [0..<m] @ drop m (starts s),
        lengths = map (\<lambda>d. snd (cover_ext s t d)) [0..<m] @ drop m (lengths s)\<rparr>"
      using fold_put_dim [OF l, of m] Suc.prems by simp
    have lr: "m < slice_dims ?r" "length (lengths ?r) = length (starts ?r)"
      unfolding r using assms Suc.prems by (simp_all add: slice_dims_def)
    have "starts ?r ! m = starts s ! m" "lengths ?r ! m = lengths s ! m"
      unfolding r using assms Suc.prems by (simp_all add: nth_append slice_dims_def)
    then have "cover_ext ?r t m = cover_ext s t m" by (rule cover_ext_cong)
    moreover have "fold (cover_step t) [0..<m] s = ?r" using Suc by simp
    ultimately show ?case using cover_step_put [OF lr, of t] Suc.prems by simp
  qed simp
  then show ?thesis using fold_put_slice_of [OF l] by (simp add: UpdateToCover_def)
qed

section \<open>Printing and parsing\<close>

lemma split_loop_app:
  "\<forall>c \<in> set x. c \<notin> set delims \<Longrightarrow> split_loop delims p t (x @ rest) = split_loop delims p (t @ x) rest"
  by (induction x arbitrary: t) auto

lemma SkipEmpty_simps [simp]: "\<not> SkipEmpty []" "SkipEmpty (c # s)"
  by (simp_all add: SkipEmpty_def)

lemma SkipEmpty_ne: "t \<noteq> [] \<Longrightarrow> SkipEmpty t"
  by (simp add: SkipEmpty_def)

lemma Split_join:
  assumes "\<forall>x \<in> set items. x \<noteq> [] \<and> CHR '':'' \<notin> set x"
  shows "Split (join_items True items) '':'' SkipEmpty = items"
proof -
  have rest: "split_loop '':'' SkipEmpty t (join_items False items) = (if t = [] then [] else [t]) @ items" for t
    using assms
  proof (induction items arbitrary: t)
    case (Cons x items)
    have "split_loop '':'' SkipEmpty [] (x @ join_items False items) = x # items"
      using split_loop_app [of x "'':''" SkipEmpty "[]" "join_items False items"] Cons.IH [of x] Cons.prems by auto
    then show ?case by (cases t) simp_all
  qed (auto simp: SkipEmpty_ne)
  show ?thesis
  proof (cases items)
    case Nil
    then show ?thesis by (simp add: Split_def)
  next
    case (Cons x xs)
    have "split_loop '':'' SkipEmpty [] (join_items False items) = items" using rest [of "[]"] by simp
    then show ?thesis using Cons assms by (auto simp: Split_def)
  qed
qed

lemma printed_chars: "c \<in> set (FastInt64ToBufferLeft i) \<Longrightarrow> isdigit c \<or> c = CHR ''-''" "FastInt64ToBufferLeft i \<noteq> []"
  using digits_printed by (auto simp: FastInt64ToBufferLeft_def FastUInt64ToBufferLeft_def Let_def split: if_splits)

lemma printed_no_delim: "CHR '':'' \<notin> set (FastInt64ToBufferLeft i)" "CHR '','' \<notin> set (FastInt64ToBufferLeft i)"
  using printed_chars(1) [of "CHR '':''" i] printed_chars(1) [of "CHR '',''" i] by (auto simp: isdigit_def)

lemma Split_pair:
  "Split (FastInt64ToBufferLeft a @ '','' @ FastInt64ToBufferLeft b) '','' SkipEmpty = [FastInt64ToBufferLeft a, FastInt64ToBufferLeft b]"
proof -
  have "split_loop '','' SkipEmpty [] (FastInt64ToBufferLeft a @ '','' @ FastInt64ToBufferLeft b)
      = FastInt64ToBufferLeft a # split_loop '','' SkipEmpty [] (FastInt64ToBufferLeft b @ [])"
    using split_loop_app [of "FastInt64ToBufferLeft a" "'',''" SkipEmpty "[]" "'','' @ FastInt64ToBufferLeft b"]
      printed_no_delim(2) [of a] printed_chars(2) [of a] by (auto simp: SkipEmpty_ne)
  also have "split_loop '','' SkipEmpty [] (FastInt64ToBufferLeft b @ []) = [FastInt64ToBufferLeft b]"
    using split_loop_app [of "FastInt64ToBufferLeft b" "'',''" SkipEmpty "[]" "[]"]
      printed_no_delim(2) [of b] printed_chars(2) [of b] by (auto simp: SkipEmpty_ne)
  finally show ?thesis by (simp add: Split_def)
qed


definition slice_int64 :: "tensor_slice \<Rightarrow> bool" where
  "slice_int64 s \<longleftrightarrow> (\<forall>d < slice_dims s. start_at s d < 2 ^ 63 \<and> length_at s d < 2 ^ 63)"

lemma slice_ok_int64: "slice_ok s \<Longrightarrow> slice_int64 s"
proof -
  assume s: "slice_ok s"
  have "start_at s d < 2 ^ 63 \<and> length_at s d < 2 ^ 63" if d: "d < slice_dims s" for d
    using slice_ok_dim [OF s d] by (cases "IsFullAt s d") (auto simp: IsFullAt_ext stop_at_def)
  then show ?thesis by (simp add: slice_int64_def)
qed

lemma debug_item_chars: "debug_item s d \<noteq> [] \<and> CHR '':'' \<notin> set (debug_item s d)"
  using printed_no_delim(1) printed_chars(2) by (auto simp: debug_item_def)

lemma parse_items_debug:
  assumes "slice_wf s" "slice_int64 s" "\<forall>d \<in> set ds. d < slice_dims s"
  shows "parse_items (map (debug_item s) ds) acc =
    Ok (acc\<lparr>starts := starts acc @ map ((!) (starts s)) ds, lengths := lengths acc @ map ((!) (lengths s)) ds\<rparr>)"
  using assms(3)
proof (induction ds arbitrary: acc)
  case (Cons d ds)
  have d: "d < slice_dims s" using Cons.prems by simp
  have IH: "parse_items (map (debug_item s) ds) acc' =
      Ok (acc'\<lparr>starts := starts acc' @ map ((!) (starts s)) ds, lengths := lengths acc' @ map ((!) (lengths s)) ds\<rparr>)" for acc'
    using Cons by simp
  show ?case
  proof (cases "IsFullAt s d")
    case True
    then have "debug_item s d = ''-''" by (simp add: debug_item_def)
    then show ?thesis using True by (simp add: IH IsFullAt_def)
  next
    case False
    have b: "0 \<le> starts s ! d" "0 < lengths s ! d" "starts s ! d < 2 ^ 63" "lengths s ! d < 2 ^ 63"
      using assms(1,2) d False by (auto simp: slice_wf_def slice_int64_def start_at_def length_at_def)
    then have rt: "safe_strto64 (FastInt64ToBufferLeft (starts s ! d)) = Some (starts s ! d)"
      "safe_strto64 (FastInt64ToBufferLeft (lengths s ! d)) = Some (lengths s ! d)"
      by (simp_all add: safe_strto64_printed)
    have di: "debug_item s d = FastInt64ToBufferLeft (starts s ! d) @ '','' @ FastInt64ToBufferLeft (lengths s ! d)"
      using False by (simp add: debug_item_def)
    moreover have "debug_item s d \<noteq> ''-''"
      unfolding di using printed_chars(2) by (cases "FastInt64ToBufferLeft (starts s ! d)") auto
    ultimately show ?thesis using b rt Split_pair by (simp add: IH)
  qed
qed simp

lemma Parse_DebugString:
  assumes "slice_wf s" "slice_int64 s"
  shows "Parse (DebugString s) = Ok s"
proof -
  have "map ((!) (starts s)) [0..<slice_dims s] = starts s" "map ((!) (lengths s)) [0..<slice_dims s] = lengths s"
    using assms(1) by (auto simp: slice_wf_def slice_dims_def intro: nth_equalityI)
  then show ?thesis using parse_items_debug [OF assms, of "[0..<slice_dims s]" Clear_slice]
      Split_join [of "map (debug_item s) [0..<slice_dims s]"] debug_item_chars
    by (simp add: Parse_def DebugString_def Clear_slice_def)
qed

lemma DebugString_inj:
  "slice_wf s \<Longrightarrow> slice_int64 s \<Longrightarrow> slice_wf t \<Longrightarrow> slice_int64 t \<Longrightarrow> DebugString s = DebugString t \<Longrightarrow> s = t"
  using Parse_DebugString by (metis Inr_inject)

lemma DebugString_inj_ok: "slice_ok s \<Longrightarrow> slice_ok t \<Longrightarrow> DebugString s = DebugString t \<Longrightarrow> s = t"
  by (rule DebugString_inj [OF slice_ok_wf slice_ok_int64 slice_ok_wf slice_ok_int64])

section \<open>Slicing a shape\<close>

definition fits :: "tensor_slice \<Rightarrow> int list \<Rightarrow> bool" where
  "fits s ds \<longleftrightarrow> length ds = slice_dims s \<and> (\<forall>d < slice_dims s. IsFullAt s d \<or> stop_at s d \<le> ds ! d)"

definition slice_size_at :: "tensor_slice \<Rightarrow> int list \<Rightarrow> nat \<Rightarrow> int" where
  "slice_size_at s ds d = (if IsFullAt s d then ds ! d else length_at s d)"

definition slice_sizes :: "tensor_slice \<Rightarrow> int list \<Rightarrow> int list" where
  "slice_sizes s ds = map (slice_size_at s ds) [0..<slice_dims s]"

lemma slice_shape_loop_append:
  "slice_shape_loop s shape (xs @ ys) r = (case slice_shape_loop s shape xs r of
     None \<Rightarrow> None | Some (Inl err) \<Rightarrow> Some (Inl err) | Some (Inr r') \<Rightarrow> slice_shape_loop s shape ys r')"
  by (induction s shape xs r rule: slice_shape_loop.induct) (auto split: Option.bind_splits)

lemma slice_shape_prefix:
  assumes shape: "shape_is False shape ds" "prefixes_ok False [] ds" and s: "slice_ok s" and n: "length ds = slice_dims s"
    and "k \<le> slice_dims s"
  shows "if \<forall>d < k. IsFullAt s d \<or> stop_at s d \<le> ds ! d then
      \<exists>r. slice_shape_loop s shape [0..<k] \<lparr>shape_rep = REP16 [], ndims_byte = 0, num_elements = 1\<rparr> = Some (Ok r) \<and>
        shape_is False r (map (slice_size_at s ds) [0..<k])
    else slice_shape_loop s shape [0..<k] \<lparr>shape_rep = REP16 [], ndims_byte = 0, num_elements = 1\<rparr> = Some (Err INTERNAL)"
  using assms(5)
proof (induction k)
  case 0
  then show ?case using shape_is_empty by simp
next
  case (Suc k)
  let ?e = "\<lparr>shape_rep = REP16 [], ndims_byte = 0, num_elements = 1\<rparr> :: tensor_shape"
  have k: "k < length ds" using Suc.prems n by simp
  have pos: "\<forall>d \<in> set ds. 0 \<le> d" using shape_is_legal [OF shape(1)] by (auto simp: legal_def)
  have dk: "dim_size False shape k = ds ! k" by (rule dim_size_shape [OF shape(1) k])
  have ek: "\<not> IsFullAt s k \<Longrightarrow> end_at s k = stop_at s k" using slice_ok_dim(5) [OF s] k n by simp
  show ?case
  proof (cases "\<forall>d < k. IsFullAt s d \<or> stop_at s d \<le> ds ! d")
    case False
    then show ?thesis using Suc by (auto simp: slice_shape_loop_append less_Suc_eq)
  next
    case True
    then obtain r where r: "slice_shape_loop s shape [0..<k] ?e = Some (Ok r)" "shape_is False r (map (slice_size_at s ds) [0..<k])"
      using Suc by auto
    show ?thesis
    proof (cases "IsFullAt s k \<or> stop_at s k \<le> ds ! k")
      case False
      then show ?thesis using r(1) dk ek by (auto simp: slice_shape_loop_append)
    next
      case fit: True
      have le: "0 \<le> slice_size_at s ds d \<and> slice_size_at s ds d \<le> ds ! d" if "d < Suc k" for d
      proof -
        have "d < slice_dims s" "0 \<le> ds ! d" "IsFullAt s d \<or> stop_at s d \<le> ds ! d"
          using that k n pos True fit by (auto simp: less_Suc_eq)
        then show ?thesis using slice_ok_dim [OF s, of d] by (auto simp: slice_size_at_def stop_at_def)
      qed
      have "list_all2 (\<lambda>v d. 0 \<le> v \<and> v \<le> d) (map (slice_size_at s ds) [0..<Suc k]) (take (Suc k) ds)"
        unfolding list_all2_conv_all_nth using le k by (simp add: less_Suc_eq_le nth_append split: if_splits)
      moreover have "sizes_ok False (take (Suc k) ds)" using shape(2) [unfolded prefixes_ok_def, rule_format, of "Suc k"] k by simp
      ultimately have ok: "sizes_ok False (map (slice_size_at s ds) [0..<k] @ [slice_size_at s ds k])"
        using sizes_ok_le by fastforce
      then have "slice_size_at s ds k < 2 ^ 63" by (simp add: sizes_ok_def)
      then obtain r' where "AddDim False r (slice_size_at s ds k) = Some r'" "shape_is False r' (map (slice_size_at s ds) [0..<k] @ [slice_size_at s ds k])"
        using AddDim_shape [OF r(2), of "slice_size_at s ds k"] ok le [of k] by auto
      then show ?thesis using r(1) fit True dk ek
        by (auto simp: slice_shape_loop_append less_Suc_eq slice_size_at_def split: if_splits)
    qed
  qed
qed

lemma SliceTensorShape_eq:
  assumes shape: "shape_is False shape ds" "prefixes_ok False [] ds" and s: "slice_ok s"
  shows "if fits s ds then \<exists>r. SliceTensorShape s shape = Some (Ok r) \<and> shape_is False r (slice_sizes s ds)
    else SliceTensorShape s shape = Some (Err INTERNAL)"
proof (cases "length ds = slice_dims s")
  case True
  then show ?thesis using slice_shape_prefix [OF shape s True order_refl] shape_dims_shape [OF shape(1)]
    by (simp add: SliceTensorShape_def fits_def slice_sizes_def)
next
  case False
  then show ?thesis using shape_dims_shape [OF shape(1)] by (simp add: SliceTensorShape_def fits_def)
qed

text \<open>The elements of a tensor of sizes \<open>ds\<close> that a slice contains, and how many they are.\<close>

definition slice_points :: "tensor_slice \<Rightarrow> int list \<Rightarrow> int list set" where
  "slice_points s ds = {idx. in_slice s idx \<and> list_all2 (\<lambda>x n. 0 \<le> x \<and> x < n) idx ds}"

lemma card_box:
  "\<forall>(a, l) \<in> set es. 0 \<le> l \<Longrightarrow> finite {idx. list_all2 (\<lambda>x (a, l). a \<le> x \<and> x < a + l) idx es} \<and>
     int (card {idx. list_all2 (\<lambda>x (a, l). a \<le> x \<and> x < a + l) idx es}) = prod_list (map snd es)" for es :: "(int \<times> int) list"
proof (induction es)
  case (Cons e es)
  obtain a l where e: "e = (a, l)" by (cases e)
  let ?S = "{idx. list_all2 (\<lambda>x (a, l). a \<le> x \<and> x < a + l) idx es}"
  have eq: "{idx. list_all2 (\<lambda>x (a, l). a \<le> x \<and> x < a + l) idx (e # es)} = (\<lambda>(x, xs). x # xs) ` ({a..<a + l} \<times> ?S)"
    by (auto simp: e list_all2_Cons2 image_iff)
  have inj: "inj_on (\<lambda>(x, xs). x # xs) ({a..<a + l} \<times> ?S)" by (auto simp: inj_on_def)
  have IH: "finite ?S" "int (card ?S) = prod_list (map snd es)" using Cons by auto
  have "int (card ({a..<a + l} \<times> ?S)) = l * prod_list (map snd es)"
    using IH Cons.prems e by (simp add: card_cartesian_product)
  then show ?case unfolding eq using IH card_image [OF inj] e by simp
qed simp

lemma slice_points_box:
  assumes "fits s ds" "slice_ok s" "\<forall>d \<in> set ds. 0 \<le> d"
  shows "slice_points s ds = {idx. list_all2 (\<lambda>x (a, l). a \<le> x \<and> x < a + l) idx
    (map (\<lambda>d. (if IsFullAt s d then 0 else start_at s d, slice_size_at s ds d)) [0..<slice_dims s])}"
proof (rule set_eqI)
  fix idx
  define lo where "lo d = (if IsFullAt s d then 0 else start_at s d)" for d
  have n: "length ds = slice_dims s" using assms(1) by (simp add: fits_def)
  have "in_dim s d x \<and> 0 \<le> x \<and> x < ds ! d \<longleftrightarrow> lo d \<le> x \<and> x < lo d + slice_size_at s ds d" if "d < slice_dims s" for d x
    using that assms(1) slice_ok_dim [OF assms(2) that] by (auto simp: in_dim_def slice_size_at_def fits_def stop_at_def lo_def)
  then have "length idx = slice_dims s \<and> (\<forall>d < slice_dims s. in_dim s d (idx ! d) \<and> 0 \<le> idx ! d \<and> idx ! d < ds ! d) \<longleftrightarrow>
    length idx = slice_dims s \<and> (\<forall>d < slice_dims s. lo d \<le> idx ! d \<and> idx ! d < lo d + slice_size_at s ds d)" by blast
  moreover have "idx \<in> slice_points s ds \<longleftrightarrow>
    length idx = slice_dims s \<and> (\<forall>d < slice_dims s. in_dim s d (idx ! d) \<and> 0 \<le> idx ! d \<and> idx ! d < ds ! d)"
    using n by (auto simp: slice_points_def in_slice_def list_all2_conv_all_nth)
  ultimately show "idx \<in> slice_points s ds \<longleftrightarrow> idx \<in> {idx. list_all2 (\<lambda>x (a, l). a \<le> x \<and> x < a + l) idx
      (map (\<lambda>d. (if IsFullAt s d then 0 else start_at s d, slice_size_at s ds d)) [0..<slice_dims s])}"
    unfolding lo_def [symmetric] by (auto simp: list_all2_conv_all_nth)
qed

lemma slice_points_card:
  assumes "fits s ds" "slice_ok s" "\<forall>d \<in> set ds. 0 \<le> d"
  shows "finite (slice_points s ds)" "int (card (slice_points s ds)) = prod_list (slice_sizes s ds)"
proof -
  let ?es = "map (\<lambda>d. (if IsFullAt s d then 0 else start_at s d, slice_size_at s ds d)) [0..<slice_dims s]"
  have "\<forall>(a, l) \<in> set ?es. 0 \<le> l" using assms slice_ok_dim(2) [OF assms(2)] by (force simp: slice_size_at_def fits_def)
  from card_box [OF this] show "finite (slice_points s ds)" "int (card (slice_points s ds)) = prod_list (slice_sizes s ds)"
    unfolding slice_points_box [OF assms] by (simp_all add: slice_sizes_def comp_def)
qed


section \<open>Intersection and hull\<close>

lemma slice_nonempty: "slice_ok s \<Longrightarrow> \<exists>idx. in_slice s idx"
  by (rule exI [of _ "map (\<lambda>d. if IsFullAt s d then 0 else start_at s d) [0..<slice_dims s]"])
    (auto simp: in_slice_def in_dim_def slice_ok_dim(4))

lemma inter_dim:
  assumes "slice_ok s" "slice_ok t" "d < slice_dims s" "d < slice_dims t" "inter_ok s t d"
  shows "inter_ext s t d = (0, -1) \<or> 0 \<le> fst (inter_ext s t d) \<and> 0 < snd (inter_ext s t d) \<and>
      fst (inter_ext s t d) + snd (inter_ext s t d) < 2 ^ 63"
    "(inter_ext s t d = (0, -1) \<or> fst (inter_ext s t d) \<le> x \<and> x < fst (inter_ext s t d) + snd (inter_ext s t d)) \<longleftrightarrow>
       in_dim s d x \<and> in_dim t d x"
proof -
  consider "IsFullAt s d" "IsFullAt t d" | "IsFullAt s d" "\<not> IsFullAt t d" | "\<not> IsFullAt s d" "IsFullAt t d" | "\<not> IsFullAt s d" "\<not> IsFullAt t d"
    by blast
  note cs = this
  show "inter_ext s t d = (0, -1) \<or> 0 \<le> fst (inter_ext s t d) \<and> 0 < snd (inter_ext s t d) \<and>
      fst (inter_ext s t d) + snd (inter_ext s t d) < 2 ^ 63"
    using cs
  proof cases
    case 4
    then show ?thesis using inter_exact [OF assms(1,3,2,4) 4] assms(5) slice_ok_dim [OF assms(1,3)] slice_ok_dim [OF assms(2,4)] by auto
  qed (use slice_ok_dim [OF assms(1,3)] slice_ok_dim [OF assms(2,4)] in \<open>auto simp: inter_ext_def IsFullAt_ext stop_at_def\<close>)
  show "(inter_ext s t d = (0, -1) \<or> fst (inter_ext s t d) \<le> x \<and> x < fst (inter_ext s t d) + snd (inter_ext s t d)) \<longleftrightarrow>
       in_dim s d x \<and> in_dim t d x"
    using cs
  proof cases
    case 4
    then show ?thesis using inter_exact [OF assms(1,3,2,4) 4] assms(5) slice_ok_dim [OF assms(1,3)] by (auto simp: in_dim_def)
  qed (use slice_ok_dim [OF assms(1,3)] slice_ok_dim [OF assms(2,4)] in \<open>auto simp: inter_ext_def in_dim_def IsFullAt_ext stop_at_def\<close>)
qed

lemma Intersect_spec:
  assumes "slice_ok s" "slice_ok t"
  shows "fst (Intersect s t r) \<longleftrightarrow> (\<exists>idx. in_slice s idx \<and> in_slice t idx)"
    "fst (Intersect s t r) \<Longrightarrow> slice_ok (snd (Intersect s t r)) \<and>
       (\<forall>idx. in_slice (snd (Intersect s t r)) idx \<longleftrightarrow> in_slice s idx \<and> in_slice t idx)"
proof -
  let ?n = "slice_dims s"
  have good: "slice_ok (slice_of ?n (inter_ext s t)) \<and>
      (\<forall>idx. in_slice (slice_of ?n (inter_ext s t)) idx \<longleftrightarrow> in_slice s idx \<and> in_slice t idx)"
    if n: "?n = slice_dims t" and ok: "\<forall>d < ?n. inter_ok s t d"
  proof
    show "slice_ok (slice_of ?n (inter_ext s t))"
      by (rule slice_ok_ext) (use inter_dim(1) [OF assms] n ok in auto)
    show "\<forall>idx. in_slice (slice_of ?n (inter_ext s t)) idx \<longleftrightarrow> in_slice s idx \<and> in_slice t idx"
    proof
      fix idx
      have "(inter_ext s t d = (0, -1) \<or> fst (inter_ext s t d) \<le> idx ! d \<and> idx ! d < fst (inter_ext s t d) + snd (inter_ext s t d)) \<longleftrightarrow>
          in_dim s d (idx ! d) \<and> in_dim t d (idx ! d)" if "d < ?n" for d
        using inter_dim(2) [OF assms, of d "idx ! d"] that n ok by simp
      then show "in_slice (slice_of ?n (inter_ext s t)) idx \<longleftrightarrow> in_slice s idx \<and> in_slice t idx"
        unfolding in_slice_ext in_slice_def [of s] in_slice_def [of t] using n by auto
    qed
  qed
  show "slice_ok (snd (Intersect s t r)) \<and> (\<forall>idx. in_slice (snd (Intersect s t r)) idx \<longleftrightarrow> in_slice s idx \<and> in_slice t idx)"
    if "fst (Intersect s t r)"
    using that good Intersect_dims [OF that] by (auto simp: Intersect_eq split: if_splits)
  show "fst (Intersect s t r) \<longleftrightarrow> (\<exists>idx. in_slice s idx \<and> in_slice t idx)"
  proof
    assume a: "fst (Intersect s t r)"
    note n = Intersect_dims [OF a]
    have ok: "\<forall>d < ?n. inter_ok s t d" using a by (auto simp: Intersect_eq [OF n] split: if_splits)
    let ?u = "slice_of ?n (inter_ext s t)"
    have "\<exists>idx. in_slice ?u idx" using slice_nonempty good [OF n ok] by blast
    then show "\<exists>idx. in_slice s idx \<and> in_slice t idx" using good [OF n ok] by blast
  next
    assume "\<exists>idx. in_slice s idx \<and> in_slice t idx"
    then obtain idx where i: "in_slice s idx" "in_slice t idx" by blast
    then have n: "?n = slice_dims t" by (simp add: in_slice_def)
    have "inter_ok s t d" if "d < ?n" for d
    proof (cases "IsFullAt s d \<or> IsFullAt t d")
      case False
      then show ?thesis using inter_exact(2) [OF assms(1) _ assms(2)] i that n by (force simp: in_slice_def in_dim_def)
    qed (auto simp: inter_ok_def)
    then show "fst (Intersect s t r)" by (simp add: Intersect_eq [OF n])
  qed
qed

lemma Overlaps_spec: "slice_ok s \<Longrightarrow> slice_ok t \<Longrightarrow> Overlaps s t \<longleftrightarrow> (\<exists>idx. in_slice s idx \<and> in_slice t idx)"
  unfolding Overlaps_def by (rule Intersect_spec(1))

lemma UpdateToCover_spec:
  assumes s: "slice_ok s" and t: "slice_ok t" and n: "slice_dims s = slice_dims t"
  shows "slice_ok (UpdateToCover s t)" "slice_dims (UpdateToCover s t) = slice_dims s"
    "in_slice s idx \<or> in_slice t idx \<Longrightarrow> in_slice (UpdateToCover s t) idx"
proof -
  have u: "UpdateToCover s t = slice_of (slice_dims s) (cover_ext s t)" by (rule UpdateToCover_eq [OF slice_ok_lens [OF s]])
  have e: "(IsFullAt s d \<or> IsFullAt t d) \<and> cover_ext s t d = (0, -1) \<or> \<not> IsFullAt s d \<and> \<not> IsFullAt t d \<and> cover_ext s t d =
      (min (start_at s d) (start_at t d), max (stop_at s d) (stop_at t d) - min (start_at s d) (start_at t d))" if "d < slice_dims s" for d
    using cover_exact [OF s that t] that n by (auto simp: cover_ext_def)
  have "cover_ext s t d = (0, -1) \<or> 0 \<le> fst (cover_ext s t d) \<and> 0 < snd (cover_ext s t d) \<and>
      fst (cover_ext s t d) + snd (cover_ext s t d) < 2 ^ 63" if d: "d < slice_dims s" for d
    using e [OF d] slice_ok_dim [OF s d] slice_ok_dim [OF t] d n by auto
  then have "\<forall>d < slice_dims s. cover_ext s t d = (0, -1) \<or> 0 \<le> fst (cover_ext s t d) \<and> 0 < snd (cover_ext s t d) \<and>
      fst (cover_ext s t d) + snd (cover_ext s t d) < 2 ^ 63" by blast
  then show "slice_ok (UpdateToCover s t)" unfolding u by (rule slice_ok_ext)
  show "slice_dims (UpdateToCover s t) = slice_dims s" unfolding u by (rule slice_of_dims)
  show "in_slice (UpdateToCover s t) idx" if "in_slice s idx \<or> in_slice t idx"
    using that n e unfolding u in_slice_ext by (force simp: in_slice_def in_dim_def)
qed

text \<open>A well-formed slice that contains another contains it dimension by dimension.\<close>

lemma subset_dim:
  assumes "slice_ok s" "\<forall>idx. in_slice s idx \<longrightarrow> in_slice u idx" "d < slice_dims s" "in_dim s d x"
  shows "in_dim u d x"
proof -
  obtain idx where "in_slice s idx" "idx ! d = x" using slice_point [OF assms(1,3,4)] by blast
  then show ?thesis using assms(2,3) by (auto simp: in_slice_def)
qed

lemma full_dim_full:
  assumes "slice_ok u" "d < slice_dims u" "\<And>x. in_dim u d x"
  shows "IsFullAt u d"
  using assms(3) [of "start_at u d - 1"] by (simp add: in_dim_def)

lemma slice_dims_eq: "slice_ok s \<Longrightarrow> \<forall>idx. in_slice s idx \<longrightarrow> in_slice u idx \<Longrightarrow> slice_dims u = slice_dims s"
proof -
  assume s: "slice_ok s" and sub: "\<forall>idx. in_slice s idx \<longrightarrow> in_slice u idx"
  have "\<exists>idx. in_slice s idx" by (rule slice_nonempty [OF s])
  then show ?thesis using sub by (auto simp: in_slice_def)
qed

lemma UpdateToCover_least:
  assumes s: "slice_ok s" and t: "slice_ok t" and n: "slice_dims s = slice_dims t" and u: "slice_ok u"
    and sub: "\<forall>idx. in_slice s idx \<longrightarrow> in_slice u idx" "\<forall>idx. in_slice t idx \<longrightarrow> in_slice u idx"
    and idx: "in_slice (UpdateToCover s t) idx"
  shows "in_slice u idx"
proof -
  have un: "slice_dims u = slice_dims s" by (rule slice_dims_eq [OF s sub(1)])
  have c: "UpdateToCover s t = slice_of (slice_dims s) (cover_ext s t)" by (rule UpdateToCover_eq [OF slice_ok_lens [OF s]])
  have "in_dim u d (idx ! d)" if d: "d < slice_dims s" for d
  proof (cases "IsFullAt s d \<or> IsFullAt t d")
    case True
    then have "in_dim u d x" for x using subset_dim [OF s sub(1) d, of x] subset_dim [OF t sub(2), of d x] d n by (auto simp: in_dim_def)
    then show ?thesis .
  next
    case False
    have pos: "0 < length_at s d" "0 < length_at t d" using False slice_ok_dim(2) [OF s d] slice_ok_dim(2) [OF t] d n by auto
    then have b: "in_dim s d (start_at s d)" "in_dim s d (stop_at s d - 1)" "in_dim t d (start_at t d)" "in_dim t d (stop_at t d - 1)"
      by (auto simp: in_dim_def stop_at_def)
    have dt: "d < slice_dims t" using d n by simp
    note m = subset_dim [OF s sub(1) d b(1)] subset_dim [OF s sub(1) d b(2)]
      subset_dim [OF t sub(2) dt b(3)] subset_dim [OF t sub(2) dt b(4)]
    have e: "cover_ext s t d = (min (start_at s d) (start_at t d), max (stop_at s d) (stop_at t d) - min (start_at s d) (start_at t d))"
      using False cover_exact [OF s d t] d n by simp
    have "cover_ext s t d = (0, -1) \<or> fst (cover_ext s t d) \<le> idx ! d \<and> idx ! d < fst (cover_ext s t d) + snd (cover_ext s t d)"
      using idx d unfolding c in_slice_ext by blast
    then have "min (start_at s d) (start_at t d) \<le> idx ! d" "idx ! d < max (stop_at s d) (stop_at t d)"
      using pos unfolding e by (auto simp: stop_at_def)
    then show ?thesis using m by (auto simp: in_dim_def)
  qed
  then show ?thesis using idx un unfolding c in_slice_ext in_slice_def [of u] by simp
qed


lemma ComputeRelative_spec:
  assumes s: "slice_ok s" and sub: "slice_ok sub" "\<forall>idx. in_slice sub idx \<longrightarrow> in_slice s idx"
    and n: "length idx = slice_dims s"
  shows "in_slice (ComputeRelative s sub) (map (\<lambda>d. idx ! d - (if IsFullAt s d then 0 else start_at s d)) [0..<slice_dims s])
    \<longleftrightarrow> in_slice sub idx"
proof -
  have dims: "slice_dims sub = slice_dims s" using slice_dims_eq [OF sub] by simp
  define off where "off d = (if IsFullAt s d then 0 else start_at s d)" for d
  have per: "(rel_ext s sub d = (0, -1) \<or> fst (rel_ext s sub d) \<le> x - off d \<and>
      x - off d < fst (rel_ext s sub d) + snd (rel_ext s sub d)) \<longleftrightarrow> in_dim sub d x"
    if d: "d < slice_dims s" for d x
  proof -
    have full: "IsFullAt s d" if "IsFullAt sub d"
      by (rule full_dim_full [OF s d]) (use subset_dim [OF sub, of d] that d dims in \<open>auto simp: in_dim_def\<close>)
    have l: "IsFullAt sub d \<or> 0 < length_at sub d" using slice_ok_dim(2) [OF sub(1), of d] d dims by auto
    have "rel_ext s sub d = (start_at sub d - off d, length_at sub d)"
      using slice_ok_start [OF s d] slice_ok_start [OF sub(1), of d] d dims by (auto simp: rel_ext_def off_def intro!: int64_wrap_id)
    then show ?thesis using full l by (auto simp: in_dim_def IsFullAt_ext stop_at_def off_def split: if_splits)
  qed
  show ?thesis unfolding ComputeRelative_eq in_slice_ext in_slice_def [of sub] dims off_def [symmetric] using per n by simp
qed

section \<open>Properties\<close>

text \<open>
  Intersecting slices: \<open>Intersect\<close> returns true exactly when the two slices have an index in common,
  and then its result is a well-formed slice that contains exactly the common indices.
\<close>

theorem tensor_slice_intersect:
  assumes "slice_ok s" "slice_ok t"
  shows "(fst (Intersect s t r) \<longleftrightarrow> (\<exists>idx. in_slice s idx \<and> in_slice t idx)) \<and>
    (fst (Intersect s t r) \<longrightarrow> slice_ok (snd (Intersect s t r)) \<and>
       (\<forall>idx. in_slice (snd (Intersect s t r)) idx \<longleftrightarrow> in_slice s idx \<and> in_slice t idx))"
  using Intersect_spec [OF assms] by blast

theorem tensor_slice_intersect_witness:
  "\<not> fst (Intersect \<lparr>starts = [0, 2], lengths = [-1, 3]\<rparr> \<lparr>starts = [1, 5], lengths = [4, 2]\<rparr> Clear_slice) \<and>
   \<not> (\<exists>idx. in_slice \<lparr>starts = [0, 2], lengths = [-1, 3]\<rparr> idx \<and> in_slice \<lparr>starts = [1, 5], lengths = [4, 2]\<rparr> idx)"
proof -
  let ?s = "\<lparr>starts = [0, 2], lengths = [-1, 3]\<rparr> :: tensor_slice" and ?t = "\<lparr>starts = [1, 5], lengths = [4, 2]\<rparr> :: tensor_slice"
  have "slice_ok ?s" "slice_ok ?t" by (auto simp: slice_ok_def slice_wf_def slice_fields IsFullAt_def nth_Cons split: nat.splits)
  moreover have "\<not> fst (Intersect ?s ?t Clear_slice)"
    by (simp add: Intersect_def slice_fields IsFullAt_def SetFullSlice_def upt_rec Clear_slice_def int64_wrap_def)
  ultimately show ?thesis using tensor_slice_intersect [of ?s ?t Clear_slice] by blast
qed

text \<open>
  The hull: \<open>UpdateToCover\<close> yields the least well-formed slice that contains both slices.
\<close>

theorem tensor_slice_hull:
  assumes "slice_ok s" "slice_ok t" "slice_dims s = slice_dims t"
  shows "slice_ok (UpdateToCover s t) \<and>
    (\<forall>idx. in_slice s idx \<or> in_slice t idx \<longrightarrow> in_slice (UpdateToCover s t) idx) \<and>
    (\<forall>u. slice_ok u \<and> (\<forall>idx. in_slice s idx \<or> in_slice t idx \<longrightarrow> in_slice u idx) \<longrightarrow>
       (\<forall>idx. in_slice (UpdateToCover s t) idx \<longrightarrow> in_slice u idx))"
  using UpdateToCover_spec [OF assms] UpdateToCover_least [OF assms] by blast

theorem tensor_slice_hull_witness:
  "slice_ok (UpdateToCover \<lparr>starts = [2], lengths = [3]\<rparr> \<lparr>starts = [7], lengths = [1]\<rparr>) \<and>
   in_slice (UpdateToCover \<lparr>starts = [2], lengths = [3]\<rparr> \<lparr>starts = [7], lengths = [1]\<rparr>) [2] \<and>
   in_slice (UpdateToCover \<lparr>starts = [2], lengths = [3]\<rparr> \<lparr>starts = [7], lengths = [1]\<rparr>) [7]"
proof -
  let ?s = "\<lparr>starts = [2], lengths = [3]\<rparr> :: tensor_slice" and ?t = "\<lparr>starts = [7], lengths = [1]\<rparr> :: tensor_slice"
  have "slice_ok ?s" "slice_ok ?t" "slice_dims ?s = slice_dims ?t" by (auto simp: slice_ok_def slice_wf_def slice_fields)
  note h = tensor_slice_hull [OF this]
  have "in_slice ?s [2]" "in_slice ?t [7]" by (simp_all add: in_slice_def in_dim_def slice_fields)
  with h show ?thesis by blast
qed

text \<open>
  Slices print and parse back: \<open>Parse\<close> accepts what \<open>DebugString\<close> writes for a well-formed slice of
  64-bit extents and returns the same slice, and so does the proto; in particular the printed form
  identifies the slice.
\<close>

theorem tensor_slice_text_roundtrip:
  assumes "slice_wf s" "slice_int64 s"
  shows "Parse (DebugString s) = Ok s \<and> TensorSlice_proto (slice_AsProto s) = s"
proof -
  have l: "length (lengths s) = length (starts s)" using assms(1) by (simp add: slice_wf_def)
  have "TensorSlice_proto (slice_AsProto s) = \<lparr>starts = starts s, lengths = lengths s\<rparr>"
    using l by (auto simp: TensorSlice_proto_def slice_AsProto_def GetExtentLength_def IsFullAt_def slice_dims_def intro!: nth_equalityI)
  then show ?thesis using Parse_DebugString [OF assms] by simp
qed

theorem tensor_slice_text_roundtrip_witness:
  "Parse (DebugString \<lparr>starts = [0, 14], lengths = [-1, 3]\<rparr>) = Ok \<lparr>starts = [0, 14], lengths = [-1, 3]\<rparr>"
  using tensor_slice_text_roundtrip [of "\<lparr>starts = [0, 14], lengths = [-1, 3]\<rparr>"]
  by (auto simp: slice_wf_def slice_int64_def slice_fields IsFullAt_def nth_Cons split: nat.splits)

end
