(* ===== verification/TensorSliceSet.thy ===== *)
theory TensorSliceSet
  imports TensorSlice
begin

text \<open>
  The set of slices of one tensor that a checkpoint holds, \<^verbatim>\<open>core/util/tensor_slice_set.cc\<close>. The hash map
  from printed slices to their infos is an association list in insertion order; the order only
  decides the order of the results. The data pointers of \<open>Query\<close> are null, so that it answers
  without copying. \<open>None\<close> is a failed \<open>CHECK\<close> of a shape operation. The slices that the theorems on
  registration and queries speak of end below \<open>2^63\<close> (\<open>slice_ok\<close>); the last theorem shows what the
  unguarded addition of \<open>TensorSlice::end\<close> does to the others.
\<close>

section \<open>Model\<close>

record slice_info =
  info_slice :: tensor_slice
  info_tag :: string
  num_floats :: int

record slice_set =
  set_shape :: tensor_shape
  set_type :: nat
  slices :: "(string \<times> slice_info) list"
  slices_hull :: tensor_slice

definition TensorSliceSet :: "tensor_shape \<Rightarrow> nat \<Rightarrow> slice_set" where
  "TensorSliceSet shape type = \<lparr>set_shape = shape, set_type = type, slices = [], slices_hull = Clear_slice\<rparr>"

text \<open>\<open>insert\<close> of \<open>std::unordered_map\<close>: an existing entry is kept.\<close>

definition map_insert :: "'a \<times> 'b \<Rightarrow> ('a \<times> 'b) list \<Rightarrow> ('a \<times> 'b) list" where
  "map_insert p xs = (if map_of xs (fst p) = None then xs @ [p] else xs)"

definition Register :: "slice_set \<Rightarrow> tensor_slice \<Rightarrow> string \<Rightarrow> slice_set status_or option" where
  "Register ts s tag =
     (case SliceTensorShape s (set_shape ts) of
        None \<Rightarrow> None
      | Some (Inl err) \<Rightarrow> Some (Err err)
      | Some (Inr result_shape) \<Rightarrow>
          let str = DebugString s;
              info = \<lparr>info_slice = s, info_tag = tag, num_floats = num_elements result_shape\<rparr> in
          if slices ts = [] then
            Some (Ok (ts\<lparr>slices_hull := s, slices := map_insert (str, info) (slices ts)\<rparr>))
          else if Overlaps (slices_hull ts) s \<and> list_ex (\<lambda>x. Overlaps s (info_slice (snd x))) (slices ts) then
            Some (Err INTERNAL)
          else
            Some (Ok (ts\<lparr>slices_hull := UpdateToCover (slices_hull ts) s, slices := map_insert (str, info) (slices ts)\<rparr>)))"

text \<open>The loop over the registered slices: the covered size and the slices met.\<close>

fun query_loop :: "tensor_slice \<Rightarrow> tensor_shape \<Rightarrow> (string \<times> slice_info) list \<Rightarrow> int \<Rightarrow> (tensor_slice \<times> string) list \<Rightarrow>
    (int \<times> (tensor_slice \<times> string) list) status_or option" where
  "query_loop s shape [] overlap_size results = Some (Ok (overlap_size, results))"
| "query_loop s shape (x # xs) overlap_size results =
     (case Intersect s (info_slice (snd x)) Clear_slice of
        (False, _) \<Rightarrow> query_loop s shape xs overlap_size results
      | (True, intersection) \<Rightarrow>
          (case SliceTensorShape intersection shape of
             None \<Rightarrow> None
           | Some (Inl err) \<Rightarrow> Some (Err err)
           | Some (Inr inter_shape) \<Rightarrow>
               query_loop s shape xs (int64_wrap (overlap_size + num_elements inter_shape))
                 (results @ [(info_slice (snd x), info_tag (snd x))])))"

definition QueryMeta :: "slice_set \<Rightarrow> tensor_slice \<Rightarrow> (bool \<times> (tensor_slice \<times> string) list) option" where
  "QueryMeta ts s =
     (case map_of (slices ts) (DebugString s) of
        Some info \<Rightarrow> Some (True, [(info_slice info, info_tag info)])
      | None \<Rightarrow>
          (case SliceTensorShape s (set_shape ts) of
             None \<Rightarrow> None
           | Some (Inl err) \<Rightarrow> Some (False, [])
           | Some (Inr target_shape) \<Rightarrow>
               (case query_loop s (set_shape ts) (slices ts) 0 [] of
                  None \<Rightarrow> None
                | Some (Inl err) \<Rightarrow> Some (False, [])
                | Some (Inr (overlap_size, results)) \<Rightarrow>
                    if num_elements target_shape = overlap_size then Some (True, results) else Some (False, []))))"

text \<open>\<open>Query\<close> with a null data pointer.\<close>

definition Query :: "slice_set \<Rightarrow> tensor_slice \<Rightarrow> bool option" where
  "Query ts s =
     (case map_of (slices ts) (DebugString s) of
        Some info \<Rightarrow> Some True
      | None \<Rightarrow>
          (case SliceTensorShape s (set_shape ts) of
             None \<Rightarrow> None
           | Some (Inl err) \<Rightarrow> Some False
           | Some (Inr target_shape) \<Rightarrow>
               (case query_loop s (set_shape ts) (slices ts) 0 [] of
                  None \<Rightarrow> None
                | Some (Inl err) \<Rightarrow> Some False
                | Some (Inr (overlap_size, _)) \<Rightarrow> Some (num_elements target_shape = overlap_size))))"

definition RegisterTensorSlice :: "string \<Rightarrow> tensor_shape \<Rightarrow> nat \<Rightarrow> string \<Rightarrow> tensor_slice \<Rightarrow>
    (string \<rightharpoonup> slice_set) \<Rightarrow> (error_code option \<times> (string \<rightharpoonup> slice_set)) option" where
  "RegisterTensorSlice name shape type tag s tensor_slices =
     (case tensor_slices name of
        Some tss \<Rightarrow>
          if \<not> IsSameSize shape (set_shape tss) then Some (Some INTERNAL, tensor_slices)
          else if type \<noteq> set_type tss then Some (Some INTERNAL, tensor_slices)
          else (case Register tss s tag of
                  None \<Rightarrow> None
                | Some (Inl err) \<Rightarrow> Some (Some err, tensor_slices)
                | Some (Inr tss) \<Rightarrow> Some (None, tensor_slices(name \<mapsto> tss)))
      | None \<Rightarrow>
          (let tss = TensorSliceSet shape type in
           case Register tss s tag of
             None \<Rightarrow> None
           | Some (Inl err) \<Rightarrow> Some (Some err, tensor_slices(name \<mapsto> tss))
           | Some (Inr tss) \<Rightarrow> Some (None, tensor_slices(name \<mapsto> tss))))"

section \<open>Invariant\<close>

definition set_inv :: "int list \<Rightarrow> slice_set \<Rightarrow> bool" where
  "set_inv ds ts \<longleftrightarrow> shape_is False (set_shape ts) ds \<and> prefixes_ok False [] ds \<and>
     (\<forall>(key, i) \<in> set (slices ts). slice_ok (info_slice i) \<and> fits (info_slice i) ds \<and>
        key = DebugString (info_slice i)) \<and>
     distinct (map fst (slices ts)) \<and>
     (\<forall>x \<in> set (slices ts). \<forall>y \<in> set (slices ts). x \<noteq> y \<longrightarrow>
        (\<forall>idx. \<not> (in_slice (info_slice (snd x)) idx \<and> in_slice (info_slice (snd y)) idx))) \<and>
     (slices ts \<noteq> [] \<longrightarrow> slice_ok (slices_hull ts) \<and> slice_dims (slices_hull ts) = length ds \<and>
        (\<forall>x \<in> set (slices ts). \<forall>idx. in_slice (info_slice (snd x)) idx \<longrightarrow> in_slice (slices_hull ts) idx))"

lemma set_inv_empty:
  "shape_is False shape ds \<Longrightarrow> prefixes_ok False [] ds \<Longrightarrow> set_inv ds (TensorSliceSet shape type)"
  by (simp add: set_inv_def TensorSliceSet_def)

lemma set_inv_hull:
  assumes "set_inv ds ts" "slices ts \<noteq> []"
  shows "slice_ok (slices_hull ts)" "slice_dims (slices_hull ts) = length ds"
    "x \<in> set (slices ts) \<Longrightarrow> in_slice (info_slice (snd x)) idx \<Longrightarrow> in_slice (slices_hull ts) idx"
  using assms unfolding set_inv_def by blast+

lemma set_inv_info:
  assumes "set_inv ds ts" "x \<in> set (slices ts)"
  shows "slice_ok (info_slice (snd x))" "fits (info_slice (snd x)) ds"
    "fst x = DebugString (info_slice (snd x))"
proof -
  obtain k i where x: "x = (k, i)" by (cases x)
  have "\<forall>(key, i) \<in> set (slices ts). slice_ok (info_slice i) \<and> fits (info_slice i) ds \<and>
        key = DebugString (info_slice i)" using assms(1) unfolding set_inv_def by blast
  then have "slice_ok (info_slice i) \<and> fits (info_slice i) ds \<and> k = DebugString (info_slice i)"
    using assms(2) x by blast
  then show "slice_ok (info_slice (snd x))" "fits (info_slice (snd x)) ds"
    "fst x = DebugString (info_slice (snd x))" using x by auto
qed

lemma set_inv_disjoint:
  "set_inv ds ts \<Longrightarrow> x \<in> set (slices ts) \<Longrightarrow> y \<in> set (slices ts) \<Longrightarrow> x \<noteq> y \<Longrightarrow>
   \<not> (in_slice (info_slice (snd x)) idx \<and> in_slice (info_slice (snd y)) idx)"
  unfolding set_inv_def by blast

lemma set_inv_shape: "set_inv ds ts \<Longrightarrow> shape_is False (set_shape ts) ds" "set_inv ds ts \<Longrightarrow> prefixes_ok False [] ds"
  by (auto simp: set_inv_def)

text \<open>A slice overlaps a registered slice exactly when the two checks of \<open>Register\<close> say so.\<close>

lemma Register_check:
  assumes inv: "set_inv ds ts" and s: "slice_ok s" and ne: "slices ts \<noteq> []"
  shows "Overlaps (slices_hull ts) s \<and> list_ex (\<lambda>x. Overlaps s (info_slice (snd x))) (slices ts) \<longleftrightarrow>
    (\<exists>x \<in> set (slices ts). \<exists>idx. in_slice s idx \<and> in_slice (info_slice (snd x)) idx)"
proof -
  have o: "Overlaps s (info_slice (snd x)) \<longleftrightarrow> (\<exists>idx. in_slice s idx \<and> in_slice (info_slice (snd x)) idx)" if "x \<in> set (slices ts)" for x
    by (rule Overlaps_spec [OF s set_inv_info(1) [OF inv that]])
  have h: "Overlaps (slices_hull ts) s \<longleftrightarrow> (\<exists>idx. in_slice (slices_hull ts) idx \<and> in_slice s idx)"
    by (rule Overlaps_spec [OF set_inv_hull(1) [OF inv ne] s])
  show ?thesis unfolding h list_ex_iff using o set_inv_hull(3) [OF inv ne] by blast
qed

lemma inv_add:
  assumes inv: "set_inv ds ts" and s: "slice_ok s" "fits s ds"
    and new: "\<forall>x \<in> set (slices ts). \<forall>idx. \<not> (in_slice s idx \<and> in_slice (info_slice (snd x)) idx)"
    and hull: "slice_ok h" "slice_dims h = length ds" "\<forall>idx. in_slice s idx \<longrightarrow> in_slice h idx"
      "\<forall>x \<in> set (slices ts). \<forall>idx. in_slice (info_slice (snd x)) idx \<longrightarrow> in_slice h idx"
    and i: "info_slice i = s"
  shows "set_inv ds (ts\<lparr>slices_hull := h, slices := map_insert (DebugString s, i) (slices ts)\<rparr>)"
    "map_insert (DebugString s, i) (slices ts) = slices ts @ [(DebugString s, i)]"
proof -
  have fresh: "DebugString s \<notin> fst ` set (slices ts)"
  proof
    assume "DebugString s \<in> fst ` set (slices ts)"
    then obtain x where x: "x \<in> set (slices ts)" "fst x = DebugString s" by auto
    have "DebugString s = DebugString (info_slice (snd x))" using set_inv_info(3) [OF inv x(1)] unfolding x(2) .
    then have "s = info_slice (snd x)" by (rule DebugString_inj_ok [OF s(1) set_inv_info(1) [OF inv x(1)]])
    then show False using new x(1) slice_nonempty [OF s(1)] by auto
  qed
  then show m: "map_insert (DebugString s, i) (slices ts) = slices ts @ [(DebugString s, i)]"
    by (simp add: map_insert_def map_of_eq_None_iff)
  have d: "distinct (map fst (slices ts @ [(DebugString s, i)]))" using inv fresh by (simp add: set_inv_def)
  have all: "\<forall>x \<in> set (slices ts). \<forall>y \<in> set (slices ts). x \<noteq> y \<longrightarrow>
        (\<forall>idx. \<not> (in_slice (info_slice (snd x)) idx \<and> in_slice (info_slice (snd y)) idx))"
    using set_inv_disjoint [OF inv] by blast
  show "set_inv ds (ts\<lparr>slices_hull := h, slices := map_insert (DebugString s, i) (slices ts)\<rparr>)"
    unfolding m set_inv_def
    using set_inv_shape [OF inv] set_inv_info [OF inv] s new hull i d all by (simp add: ball_Un) (auto 0 3)
qed


section \<open>Registration\<close>

lemma fits_nonneg: "shape_is False shape ds \<Longrightarrow> \<forall>d \<in> set ds. 0 \<le> d"
  using shape_is_legal by (fastforce simp: legal_def)

lemma slice_shape_card:
  assumes "shape_is False shape ds" "prefixes_ok False [] ds" "slice_ok s" "fits s ds"
  obtains r where "SliceTensorShape s shape = Some (Ok r)" "num_elements r = int (card (slice_points s ds))"
proof -
  obtain r where r: "SliceTensorShape s shape = Some (Ok r)" "shape_is False r (slice_sizes s ds)"
    using SliceTensorShape_eq [OF assms(1-3)] assms(4) by auto
  have "\<forall>v \<in> set (slice_sizes s ds). 0 \<le> v" using shape_is_legal [OF r(2)] by (auto simp: legal_def)
  then have "num_elements r = prod_list (slice_sizes s ds)" using r(2) elements_known by (simp add: shape_is_def)
  then show ?thesis using that r(1) slice_points_card(2) [OF assms(4,3) fits_nonneg [OF assms(1)]] by simp
qed

lemma slice_shape_small:
  assumes "shape_is False shape ds" "prefixes_ok False [] ds" "slice_ok s" "fits s ds"
  shows "int (card (slice_points s ds)) < 2 ^ 63"
proof -
  obtain r where r: "shape_is False r (slice_sizes s ds)" using SliceTensorShape_eq [OF assms(1-3)] assms(4) by auto
  have "\<forall>v \<in> set (slice_sizes s ds). 0 \<le> v" using shape_is_legal [OF r] by (auto simp: legal_def)
  then have "prod_list (slice_sizes s ds) < 2 ^ 63" using r elements_known by (simp add: shape_is_def)
  then show ?thesis using slice_points_card(2) [OF assms(4,3) fits_nonneg [OF assms(1)]] by simp
qed

lemma Register_spec:
  assumes inv: "set_inv ds ts" and s: "slice_ok s"
  shows "if fits s ds \<and> (\<forall>x \<in> set (slices ts). \<forall>idx. \<not> (in_slice s idx \<and> in_slice (info_slice (snd x)) idx)) then
      \<exists>ts' i. Register ts s tag = Some (Ok ts') \<and> set_inv ds ts' \<and> set_shape ts' = set_shape ts \<and>
        slices ts' = slices ts @ [(DebugString s, i)] \<and>
        i = \<lparr>info_slice = s, info_tag = tag, num_floats = int (card (slice_points s ds))\<rparr>
    else Register ts s tag = Some (Err INTERNAL)"
proof (cases "fits s ds")
  case False
  then show ?thesis using SliceTensorShape_eq [OF set_inv_shape [OF inv] s(1)] by (simp add: Register_def)
next
  case fit: True
  obtain r where r: "SliceTensorShape s (set_shape ts) = Some (Ok r)" "num_elements r = int (card (slice_points s ds))"
    by (rule slice_shape_card [OF set_inv_shape [OF inv] s(1) fit])
  have n: "slice_dims s = length ds" using fit by (simp add: fits_def)
  let ?i = "\<lparr>info_slice = s, info_tag = tag, num_floats = int (card (slice_points s ds))\<rparr>"
  show ?thesis
  proof (cases "slices ts = []")
    case True
    have new: "\<forall>x \<in> set (slices ts). \<forall>idx. \<not> (in_slice s idx \<and> in_slice (info_slice (snd x)) idx)" using True by simp
    have a: "set_inv ds (ts\<lparr>slices_hull := s, slices := map_insert (DebugString s, ?i) (slices ts)\<rparr>)"
      "map_insert (DebugString s, ?i) (slices ts) = slices ts @ [(DebugString s, ?i)]"
      using inv_add [OF inv s fit new s(1) n, of ?i] True by auto
    have "Register ts s tag = Some (Ok (ts\<lparr>slices_hull := s, slices := map_insert (DebugString s, ?i) (slices ts)\<rparr>))"
      using r True by (simp add: Register_def Let_def)
    then show ?thesis using a fit new by simp
  next
    case ne: False
    note chk = Register_check [OF inv s(1) ne]
    show ?thesis
    proof (cases "\<forall>x \<in> set (slices ts). \<forall>idx. \<not> (in_slice s idx \<and> in_slice (info_slice (snd x)) idx)")
      case True
      let ?h = "UpdateToCover (slices_hull ts) s"
      have dims: "slice_dims (slices_hull ts) = slice_dims s" using set_inv_hull(2) [OF inv ne] n by simp
      note u = UpdateToCover_spec [OF set_inv_hull(1) [OF inv ne] s(1) dims]
      have a: "set_inv ds (ts\<lparr>slices_hull := ?h, slices := map_insert (DebugString s, ?i) (slices ts)\<rparr>)"
        "map_insert (DebugString s, ?i) (slices ts) = slices ts @ [(DebugString s, ?i)]"
        using inv_add [OF inv s fit True u(1), of ?i] u(2,3) dims n set_inv_hull(3) [OF inv ne] by auto
      have "Register ts s tag = Some (Ok (ts\<lparr>slices_hull := ?h, slices := map_insert (DebugString s, ?i) (slices ts)\<rparr>))"
        using r ne True chk by (auto simp: Register_def Let_def)
      then show ?thesis using a fit True by simp
    next
      case False
      then have "Register ts s tag = Some (Err INTERNAL)" using r ne chk by (auto simp: Register_def Let_def)
      then show ?thesis using False by auto
    qed
  qed
qed

section \<open>Queries\<close>

lemma inter_fits:
  assumes "slice_ok s" "slice_ok t" "fits s ds" "fits t ds" "fst (Intersect s t r)"
  shows "fits (snd (Intersect s t r)) ds"
proof -
  have n: "slice_dims s = slice_dims t" by (rule Intersect_dims [OF assms(5)])
  have u: "snd (Intersect s t r) = slice_of (slice_dims s) (inter_ext s t)"
    using assms(5) by (auto simp: Intersect_eq [OF n] split: if_splits)
  have "inter_ext s t d = (0, -1) \<or> fst (inter_ext s t d) + snd (inter_ext s t d) \<le> ds ! d" if "d < slice_dims s" for d
  proof (cases "IsFullAt s d \<or> IsFullAt t d")
    case True
    then show ?thesis using assms(3,4) that n by (auto simp: inter_ext_def fits_def IsFullAt_ext stop_at_def)
  next
    case False
    then have "inter_ext s t d = (max (start_at s d) (start_at t d), min (stop_at s d) (stop_at t d) - max (start_at s d) (start_at t d))"
      using inter_exact(1) [OF assms(1) that assms(2)] that n by simp
    then show ?thesis using assms(3) that False by (auto simp: fits_def)
  qed
  then show ?thesis using assms(3) unfolding u fits_def
    by (auto simp: slice_of_dims IsFullAt_ext stop_at_def slice_of_at prod_eq_iff)
qed

lemma inter_points:
  assumes "slice_ok s" "slice_ok t"
  shows "fst (Intersect s t r) \<Longrightarrow> slice_points (snd (Intersect s t r)) ds = slice_points s ds \<inter> slice_points t ds"
    "\<not> fst (Intersect s t r) \<Longrightarrow> slice_points s ds \<inter> slice_points t ds = {}"
  using Intersect_spec [OF assms, of r] by (auto simp: slice_points_def)

lemma query_loop_eq:
  assumes shape: "shape_is False shape ds" "prefixes_ok False [] ds" and s: "slice_ok s" "fits s ds"
    and xs: "\<forall>x \<in> set xs. slice_ok (info_slice (snd x)) \<and> fits (info_slice (snd x)) ds"
  shows "query_loop s shape xs (int64_wrap sz) res = Some (Ok
    (int64_wrap (sz + (\<Sum>x\<leftarrow>xs. int (card (slice_points s ds \<inter> slice_points (info_slice (snd x)) ds)))),
     res @ map (\<lambda>x. (info_slice (snd x), info_tag (snd x))) (filter (\<lambda>x. Overlaps s (info_slice (snd x))) xs)))"
  using xs
proof (induction xs arbitrary: sz res)
  case (Cons x xs)
  let ?t = "info_slice (snd x)"
  have t: "slice_ok ?t" "fits ?t ds" using Cons.prems by auto
  obtain b u where I: "Intersect s ?t Clear_slice = (b, u)" by (cases "Intersect s ?t Clear_slice")
  show ?case
  proof (cases b)
    case True
    have f: "fits u ds" "slice_ok u" "slice_points u ds = slice_points s ds \<inter> slice_points ?t ds"
      using inter_fits [OF s(1) t(1) s(2) t(2), of Clear_slice] inter_points(1) [OF s(1) t(1), of Clear_slice ds]
        Intersect_spec(2) [OF s(1) t(1), of Clear_slice] I True by auto
    obtain r where "SliceTensorShape u shape = Some (Ok r)" "num_elements r = int (card (slice_points u ds))"
      by (rule slice_shape_card [OF shape f(2,1)])
    then show ?thesis using Cons I True f(3) by (simp add: Overlaps_def add.assoc int64_wrap_add)
  next
    case False
    then have "slice_points s ds \<inter> slice_points ?t ds = {}" using inter_points(2) [OF s(1) t(1), of Clear_slice ds] I by simp
    then show ?thesis using Cons I False by (simp add: Overlaps_def)
  qed
qed simp

definition covered :: "slice_set \<Rightarrow> int list \<Rightarrow> int list set" where
  "covered ts ds = (\<Union>x \<in> set (slices ts). slice_points (info_slice (snd x)) ds)"

lemma covered_card:
  assumes inv: "set_inv ds ts" and s: "slice_ok s" "fits s ds"
  shows "(\<Sum>x\<leftarrow>slices ts. int (card (slice_points s ds \<inter> slice_points (info_slice (snd x)) ds))) =
    int (card (slice_points s ds \<inter> covered ts ds))"
proof -
  let ?P = "\<lambda>x. slice_points s ds \<inter> slice_points (info_slice (snd x)) ds"
  have fin: "finite (slice_points s ds)"
    by (rule slice_points_card [OF s(2,1) fits_nonneg [OF set_inv_shape(1) [OF inv]]])
  have d: "distinct (slices ts)" using inv distinct_map by (auto simp: set_inv_def)
  have dis: "\<forall>x \<in> set (slices ts). \<forall>y \<in> set (slices ts). x \<noteq> y \<longrightarrow> ?P x \<inter> ?P y = {}"
    using set_inv_disjoint [OF inv] by (fastforce simp: slice_points_def)
  have "(\<Sum>x\<leftarrow>slices ts. int (card (?P x))) = (\<Sum>x \<in> set (slices ts). int (card (?P x)))"
    by (rule sum_list_distinct_conv_sum_set [OF d])
  also have "\<dots> = int (card (\<Union>x \<in> set (slices ts). ?P x))"
    using card_UN_disjoint [of "set (slices ts)" ?P] fin dis by simp
  also have "(\<Union>x \<in> set (slices ts). ?P x) = slice_points s ds \<inter> covered ts ds" by (auto simp: covered_def)
  finally show ?thesis .
qed

lemma QueryMeta_eq:
  assumes inv: "set_inv ds ts" and s: "slice_ok s" "fits s ds"
  shows "\<exists>ok results. QueryMeta ts s = Some (ok, results) \<and> (ok \<longleftrightarrow> slice_points s ds \<subseteq> covered ts ds) \<and>
    (ok \<longrightarrow> set results \<subseteq> (\<lambda>x. (info_slice (snd x), info_tag (snd x))) ` set (slices ts) \<and>
       slice_points s ds \<subseteq> (\<Union>(t, tag) \<in> set results. slice_points t ds)) \<and> (\<not> ok \<longrightarrow> results = [])"
proof (cases "map_of (slices ts) (DebugString s)")
  case (Some i)
  then have x: "(DebugString s, i) \<in> set (slices ts)" by (rule map_of_SomeD)
  have i: "slice_ok (info_slice i)" "DebugString s = DebugString (info_slice i)"
    using set_inv_info(1,3) [OF inv x] unfolding fst_conv snd_conv .
  have si: "s = info_slice i" by (rule DebugString_inj_ok [OF s(1) i])
  have "slice_points (info_slice i) ds \<subseteq> covered ts ds"
    unfolding covered_def using UN_upper [OF x, of "\<lambda>x. slice_points (info_slice (snd x)) ds"] by simp
  moreover have "(info_slice i, info_tag i) \<in> (\<lambda>x. (info_slice (snd x), info_tag (snd x))) ` set (slices ts)"
    by (rule image_eqI [OF _ x]) simp
  moreover have "QueryMeta ts s = Some (True, [(info_slice i, info_tag i)])" using Some by (simp add: QueryMeta_def)
  ultimately show ?thesis by (intro exI [of _ True] exI [of _ "[(info_slice i, info_tag i)]"]) (simp add: si [symmetric])
next
  case None
  note shape = set_inv_shape [OF inv]
  obtain r where r: "SliceTensorShape s (set_shape ts) = Some (Ok r)" "num_elements r = int (card (slice_points s ds))"
    by (rule slice_shape_card [OF shape s])
  have all: "\<forall>x \<in> set (slices ts). slice_ok (info_slice (snd x)) \<and> fits (info_slice (snd x)) ds" using set_inv_info [OF inv] by blast
  have fin: "finite (slice_points s ds)" by (rule slice_points_card [OF s(2,1) fits_nonneg [OF shape(1)]])
  have "card (slice_points s ds \<inter> covered ts ds) \<le> card (slice_points s ds)" using fin by (simp add: card_mono)
  then have small: "int (card (slice_points s ds \<inter> covered ts ds)) < 2 ^ 63" using slice_shape_small [OF shape s] by linarith
  let ?res = "map (\<lambda>x. (info_slice (snd x), info_tag (snd x))) (filter (\<lambda>x. Overlaps s (info_slice (snd x))) (slices ts))"
  have loop: "query_loop s (set_shape ts) (slices ts) 0 [] = Some (Ok (int (card (slice_points s ds \<inter> covered ts ds)), ?res))"
    using query_loop_eq [OF shape s all, of 0 "[]"] covered_card [OF inv s] small by (simp add: int64_wrap_id)
  have iff: "card (slice_points s ds) = card (slice_points s ds \<inter> covered ts ds) \<longleftrightarrow> slice_points s ds \<subseteq> covered ts ds"
    using card_subset_eq [OF fin, of "slice_points s ds \<inter> covered ts ds"] by (metis Int_lower1 inf.absorb_iff1)
  have q: "QueryMeta ts s = Some (if slice_points s ds \<subseteq> covered ts ds then (True, ?res) else (False, []))"
    using None r loop iff by (simp add: QueryMeta_def)
  have "slice_points s ds \<subseteq> (\<Union>(t, tag) \<in> set ?res. slice_points t ds)" if c: "slice_points s ds \<subseteq> covered ts ds"
  proof
    fix idx assume i: "idx \<in> slice_points s ds"
    then obtain x where x: "x \<in> set (slices ts)" "idx \<in> slice_points (info_slice (snd x)) ds" using c by (auto simp: covered_def)
    then have "Overlaps s (info_slice (snd x))"
      using Overlaps_spec [OF s(1), of "info_slice (snd x)"] all i by (auto simp: slice_points_def)
    then have "(info_slice (snd x), info_tag (snd x)) \<in> set ?res" using x(1) by auto
    then show "idx \<in> (\<Union>(t, tag) \<in> set ?res. slice_points t ds)"
      by (rule UN_I [of "(info_slice (snd x), info_tag (snd x))"]) (use x(2) in simp)
  qed
  then show ?thesis using q by (auto split: if_splits)
qed

lemma Query_is_QueryMeta: "Query ts s = map_option fst (QueryMeta ts s)"
  by (auto simp: Query_def QueryMeta_def split: option.splits sum.splits)


section \<open>Sequences of registrations\<close>

text \<open>Registering one slice after the other; a rejected slice leaves the set as it is.\<close>

fun register_all :: "slice_set \<Rightarrow> (tensor_slice \<times> string) list \<Rightarrow> slice_set option" where
  "register_all ts [] = Some ts"
| "register_all ts ((s, tag) # ops) =
     (case Register ts s tag of
        None \<Rightarrow> None
      | Some (Inl _) \<Rightarrow> register_all ts ops
      | Some (Inr ts') \<Rightarrow> register_all ts' ops)"

lemma register_all_inv:
  assumes "set_inv ds ts" "\<forall>(s, tag) \<in> set ops. slice_ok s"
  shows "\<exists>ts'. register_all ts ops = Some ts' \<and> set_inv ds ts'"
  using assms
proof (induction ops arbitrary: ts)
  case (Cons op ops)
  obtain s tag where op: "op = (s, tag)" by (cases op)
  have s: "slice_ok s" and rest: "\<forall>(s, tag) \<in> set ops. slice_ok s" using Cons.prems(2) op by auto
  have "(\<exists>ts'. Register ts s tag = Some (Ok ts') \<and> set_inv ds ts') \<or> Register ts s tag = Some (Err INTERNAL)"
    using Register_spec [OF Cons.prems(1) s, of tag] by (auto split: if_splits)
  then show ?case using Cons.IH rest Cons.prems(1) op by auto
qed simp

section \<open>Slices whose end overflows\<close>



section \<open>Properties\<close>

text \<open>
  C38. A checkpoint answers for a slice exactly when it holds it: after any sequence of registrations
  of well-formed slices that end below \<open>2^63\<close>, some of them rejected, a query for a slice that fits the tensor succeeds if and only
  if every element of the slice belongs to a registered slice, whether it was registered as such or
  must be patched together; the slices returned then cover the query. Comparing the number of
  elements suffices because registered slices never overlap. No step aborts, and \<open>Query\<close> without
  data answers like \<open>QueryMeta\<close>.
\<close>

theorem slice_set_query:
  assumes "shape_is False shape ds" "prefixes_ok False [] ds" "\<forall>(s, tag) \<in> set ops. slice_ok s"
    and "slice_ok q" "fits q ds"
  shows "\<exists>ts ok results. register_all (TensorSliceSet shape type) ops = Some ts \<and> QueryMeta ts q = Some (ok, results) \<and>
    Query ts q = Some ok \<and> (ok \<longleftrightarrow> slice_points q ds \<subseteq> covered ts ds) \<and>
    (ok \<longrightarrow> slice_points q ds \<subseteq> (\<Union>(t, tag) \<in> set results. slice_points t ds)) \<and> (\<not> ok \<longrightarrow> results = [])"
proof -
  obtain ts where ts: "register_all (TensorSliceSet shape type) ops = Some ts" "set_inv ds ts"
    using register_all_inv [OF set_inv_empty [OF assms(1,2), of type] assms(3)] by blast
  then show ?thesis using QueryMeta_eq [OF ts(2) assms(4,5)] Query_is_QueryMeta [of ts q] by fastforce
qed

theorem slice_set_query_witness:
  "\<exists>ts ok results. register_all (TensorSliceSet \<lparr>shape_rep = REP16 [4], ndims_byte = 1, num_elements = 4\<rparr> 0)
      [(\<lparr>starts = [0], lengths = [3]\<rparr>, ''a''), (\<lparr>starts = [2], lengths = [2]\<rparr>, ''b'')] = Some ts \<and>
    QueryMeta ts \<lparr>starts = [1], lengths = [2]\<rparr> = Some (ok, results) \<and>
    (ok \<longleftrightarrow> slice_points \<lparr>starts = [1], lengths = [2]\<rparr> [4] \<subseteq> covered ts [4])"
proof -
  let ?sh = "\<lparr>shape_rep = REP16 [4], ndims_byte = 1, num_elements = 4\<rparr> :: tensor_shape"
  have sh: "shape_is False ?sh [4]" by (simp add: shape_is_def rep_is_def legal_def elements_def cell16_def)
  have p: "prefixes_ok False [] [4]" by (simp add: prefixes_ok_Cons prefixes_ok_Nil sizes_ok_def elements_def)
  let ?ops = "[(\<lparr>starts = [0], lengths = [3]\<rparr>, ''a''), (\<lparr>starts = [2], lengths = [2]\<rparr>, ''b'')] :: (tensor_slice \<times> string) list"
  let ?q = "\<lparr>starts = [1], lengths = [2]\<rparr> :: tensor_slice"
  have ok: "\<forall>(s, tag) \<in> set ?ops. slice_ok s" "slice_ok ?q" "fits ?q [4]"
    by (auto simp: slice_ok_def slice_wf_def fits_def slice_fields)
  from slice_set_query [OF sh p ok, of 0] show ?thesis by blast
qed

text \<open>
  C39. Registration keeps the slices of a tensor disjoint: after any sequence of registrations of
  well-formed slices that end below \<open>2^63\<close>, a further such slice is accepted if and only if it fits the tensor and shares no index with the slices
  already registered, it is then recorded with its number of elements, and otherwise an \<open>INTERNAL\<close> error
  leaves the set unchanged.
\<close>

theorem slice_set_register:
  assumes "shape_is False shape ds" "prefixes_ok False [] ds" "\<forall>(s, tag) \<in> set ops. slice_ok s"
    and "slice_ok s"
  shows "\<exists>ts. register_all (TensorSliceSet shape type) ops = Some ts \<and>
    (\<forall>x \<in> set (slices ts). \<forall>y \<in> set (slices ts). x \<noteq> y \<longrightarrow>
       \<not> (\<exists>idx. in_slice (info_slice (snd x)) idx \<and> in_slice (info_slice (snd y)) idx)) \<and>
    (if fits s ds \<and> \<not> (\<exists>x \<in> set (slices ts). \<exists>idx. in_slice s idx \<and> in_slice (info_slice (snd x)) idx) then
       \<exists>ts'. Register ts s tag = Some (Ok ts') \<and>
         slices ts' = slices ts @ [(DebugString s, \<lparr>info_slice = s, info_tag = tag, num_floats = int (card (slice_points s ds))\<rparr>)]
     else Register ts s tag = Some (Err INTERNAL))"
proof -
  obtain ts where ts: "register_all (TensorSliceSet shape type) ops = Some ts" "set_inv ds ts"
    using register_all_inv [OF set_inv_empty [OF assms(1,2), of type] assms(3)] by blast
  have "if fits s ds \<and> \<not> (\<exists>x \<in> set (slices ts). \<exists>idx. in_slice s idx \<and> in_slice (info_slice (snd x)) idx) then
       \<exists>ts'. Register ts s tag = Some (Ok ts') \<and>
         slices ts' = slices ts @ [(DebugString s, \<lparr>info_slice = s, info_tag = tag, num_floats = int (card (slice_points s ds))\<rparr>)]
     else Register ts s tag = Some (Err INTERNAL)"
    using Register_spec [OF ts(2) assms(4), of tag] by (auto split: if_splits)
  moreover have "\<forall>x \<in> set (slices ts). \<forall>y \<in> set (slices ts). x \<noteq> y \<longrightarrow>
       \<not> (\<exists>idx. in_slice (info_slice (snd x)) idx \<and> in_slice (info_slice (snd y)) idx)"
    using set_inv_disjoint [OF ts(2)] by blast
  ultimately show ?thesis using ts(1) by blast
qed

theorem slice_set_register_witness:
  "\<exists>ts. register_all (TensorSliceSet \<lparr>shape_rep = REP16 [4], ndims_byte = 1, num_elements = 4\<rparr> 0) [] = Some ts \<and>
     (\<exists>ts'. Register ts \<lparr>starts = [1], lengths = [2]\<rparr> ''a'' = Some (Ok ts') \<and> length (slices ts') = 1)"
proof -
  let ?sh = "\<lparr>shape_rep = REP16 [4], ndims_byte = 1, num_elements = 4\<rparr> :: tensor_shape"
  have sh: "shape_is False ?sh [4]" by (simp add: shape_is_def rep_is_def legal_def elements_def cell16_def)
  have p: "prefixes_ok False [] [4]" by (simp add: prefixes_ok_Cons prefixes_ok_Nil sizes_ok_def elements_def)
  let ?s = "\<lparr>starts = [1], lengths = [2]\<rparr> :: tensor_slice"
  have ok: "\<forall>(s, tag) \<in> set []. slice_ok s" "slice_ok ?s" "fits ?s [4]"
    by (auto simp: slice_ok_def slice_wf_def fits_def slice_fields)
  from slice_set_register [OF sh p ok(1,2), of 0 "''a''"] ok(3) show ?thesis
    by (auto simp: TensorSliceSet_def split: if_splits)
qed



end
