(* ===== verification/Coding.thy ===== *)
theory Coding
  imports Tf_Prelude
begin

text \<open>
  \<^verbatim>\<open>core/lib/core/coding.cc\<close>, \<^verbatim>\<open>coding.h\<close> and
  \<^verbatim>\<open>raw_coding.h\<close>: fixed-width little-endian integers and varints. A writer
  that stores through \<open>char* dst\<close> is the function that returns the bytes it stores, a
  reader over \<open>[p, limit)\<close> takes the bytes of that range and returns the value with the
  bytes after the returned pointer, \<open>None\<close> standing for \<open>nullptr\<close>. The constant
  \<open>port::kLittleEndian\<close> of the platform is the argument \<open>le\<close>.
\<close>

section \<open>Fixed-width integers\<close>

text \<open>
  The bytes that \<open>memcpy\<close> copies from an integer on a little-endian host, and the
  integer it makes of such bytes.
\<close>

definition memcpy_from :: "nat \<Rightarrow> 'a::len word \<Rightarrow> bytes" where
  "memcpy_from n v = map (\<lambda>i. ucast (drop_bit (8 * i) v)) [0..<n]"

fun memcpy_to :: "bytes \<Rightarrow> 'a::len word" where
  "memcpy_to [] = 0"
| "memcpy_to (b # bs) = ucast b OR push_bit 8 (memcpy_to bs)"

definition EncodeFixed16 :: "bool \<Rightarrow> uint16 \<Rightarrow> bytes" where
  "EncodeFixed16 le v =
     (if le then memcpy_from 2 v
      else [ucast (v AND 0xff), ucast (drop_bit 8 v AND 0xff)])"

definition EncodeFixed32 :: "bool \<Rightarrow> uint32 \<Rightarrow> bytes" where
  "EncodeFixed32 le v =
     (if le then memcpy_from 4 v
      else [ucast (v AND 0xff), ucast (drop_bit 8 v AND 0xff),
            ucast (drop_bit 16 v AND 0xff), ucast (drop_bit 24 v AND 0xff)])"

definition EncodeFixed64 :: "bool \<Rightarrow> uint64 \<Rightarrow> bytes" where
  "EncodeFixed64 le v =
     (if le then memcpy_from 8 v
      else [ucast (v AND 0xff), ucast (drop_bit 8 v AND 0xff),
            ucast (drop_bit 16 v AND 0xff), ucast (drop_bit 24 v AND 0xff),
            ucast (drop_bit 32 v AND 0xff), ucast (drop_bit 40 v AND 0xff),
            ucast (drop_bit 48 v AND 0xff), ucast (drop_bit 56 v AND 0xff)])"

text \<open>The \<open>Put\<close> routines append to the string \<open>dst\<close>.\<close>

definition PutFixed16 :: "bool \<Rightarrow> bytes \<Rightarrow> uint16 \<Rightarrow> bytes" where
  "PutFixed16 le dst v = dst @ EncodeFixed16 le v"

definition PutFixed32 :: "bool \<Rightarrow> bytes \<Rightarrow> uint32 \<Rightarrow> bytes" where
  "PutFixed32 le dst v = dst @ EncodeFixed32 le v"

definition PutFixed64 :: "bool \<Rightarrow> bytes \<Rightarrow> uint64 \<Rightarrow> bytes" where
  "PutFixed64 le dst v = dst @ EncodeFixed64 le v"

text \<open>
  The readers do no bounds check: \<open>None\<close> where they would read past the bytes given.
\<close>

definition DecodeFixed16 :: "bool \<Rightarrow> bytes \<Rightarrow> uint16 option" where
  "DecodeFixed16 le p =
     (if length p < 2 then None
      else Some (if le then memcpy_to (take 2 p)
                 else ucast (p ! 0) OR push_bit 8 (ucast (p ! 1))))"

definition DecodeFixed32 :: "bool \<Rightarrow> bytes \<Rightarrow> uint32 option" where
  "DecodeFixed32 le p =
     (if length p < 4 then None
      else Some (if le then memcpy_to (take 4 p)
                 else ucast (p ! 0) OR push_bit 8 (ucast (p ! 1)) OR
                      push_bit 16 (ucast (p ! 2)) OR push_bit 24 (ucast (p ! 3))))"

definition DecodeFixed64 :: "bool \<Rightarrow> bytes \<Rightarrow> uint64 option" where
  "DecodeFixed64 le p =
     (if length p < 8 then None
      else if le then Some (memcpy_to (take 8 p))
      else (case (DecodeFixed32 le p, DecodeFixed32 le (drop 4 p)) of
              (Some lo, Some hi) \<Rightarrow> Some (push_bit 32 (ucast hi) OR ucast lo)
            | _ \<Rightarrow> None))"

section \<open>Varints\<close>

definition EncodeVarint32 :: "uint32 \<Rightarrow> bytes" where
  "EncodeVarint32 v =
     (let B = 128 in
      if v < push_bit 7 1 then [ucast v]
      else if v < push_bit 14 1 then [ucast (v OR B), ucast (drop_bit 7 v)]
      else if v < push_bit 21 1 then
        [ucast (v OR B), ucast (drop_bit 7 v OR B), ucast (drop_bit 14 v)]
      else if v < push_bit 28 1 then
        [ucast (v OR B), ucast (drop_bit 7 v OR B), ucast (drop_bit 14 v OR B),
         ucast (drop_bit 21 v)]
      else
        [ucast (v OR B), ucast (drop_bit 7 v OR B), ucast (drop_bit 14 v OR B),
         ucast (drop_bit 21 v OR B), ucast (drop_bit 28 v)])"

definition PutVarint32 :: "bytes \<Rightarrow> uint32 \<Rightarrow> bytes" where
  "PutVarint32 dst v = dst @ EncodeVarint32 v"

lemma drop_bit7_unat_less: "128 \<le> v \<Longrightarrow> unat (drop_bit 7 v) < unat (v :: uint64)"
  unfolding word_le_nat_alt by (subst unat_drop_bit_eq) (simp add: drop_bit_eq_div)

function EncodeVarint64 :: "uint64 \<Rightarrow> bytes" where
  "EncodeVarint64 v =
     (if 128 \<le> v then ucast ((v AND 127) OR 128) # EncodeVarint64 (drop_bit 7 v)
      else [ucast v])"
  by pat_completeness auto
termination
  by (relation "measure unat") (auto simp: drop_bit7_unat_less)

declare EncodeVarint64.simps [simp del]

definition PutVarint64 :: "bytes \<Rightarrow> uint64 \<Rightarrow> bytes" where
  "PutVarint64 dst v = dst @ EncodeVarint64 v"

function VarintLength_loop :: "uint64 \<Rightarrow> int \<Rightarrow> int" where
  "VarintLength_loop v len =
     (if 128 \<le> v then VarintLength_loop (drop_bit 7 v) (len + 1) else len)"
  by pat_completeness auto
termination
  by (relation "measure (unat \<circ> fst)") (auto simp: drop_bit7_unat_less)

declare VarintLength_loop.simps [simp del]

definition VarintLength :: "uint64 \<Rightarrow> int" where
  "VarintLength v = VarintLength_loop v 1"

text \<open>
  The loop shared by \<open>GetVarint32PtrFallback\<close> (bound 28) and \<open>GetVarint64Ptr\<close>
  (bound 63), at the width of \<open>result\<close>.
\<close>

fun GetVarint_loop :: "nat \<Rightarrow> nat \<Rightarrow> 'a::len word \<Rightarrow> bytes \<Rightarrow> ('a word \<times> bytes) option" where
  "GetVarint_loop bound shift result [] = None"
| "GetVarint_loop bound shift result (b # p) =
     (if shift \<le> bound then
        (let byte = ucast b in
         if byte AND 128 \<noteq> 0
         then GetVarint_loop bound (shift + 7) (result OR push_bit shift (byte AND 127)) p
         else Some (result OR push_bit shift byte, p))
      else None)"

definition GetVarint32PtrFallback :: "bytes \<Rightarrow> (uint32 \<times> bytes) option" where
  "GetVarint32PtrFallback p = GetVarint_loop 28 0 0 p"

definition GetVarint32Ptr :: "bytes \<Rightarrow> (uint32 \<times> bytes) option" where
  "GetVarint32Ptr p =
     (case p of
        b # p' \<Rightarrow> (let result = ucast b in
                   if result AND 128 = 0 then Some (result, p') else GetVarint32PtrFallback p)
      | [] \<Rightarrow> GetVarint32PtrFallback p)"

definition GetVarint64Ptr :: "bytes \<Rightarrow> (uint64 \<times> bytes) option" where
  "GetVarint64Ptr p = GetVarint_loop 63 0 0 p"

text \<open>
  The \<open>StringPiece\<close> versions return whether a value was read and leave the input alone
  when none was.
\<close>

definition GetVarint32 :: "bytes \<Rightarrow> bool \<times> bytes \<times> uint32 option" where
  "GetVarint32 input =
     (case GetVarint32Ptr input of
        None \<Rightarrow> (False, input, None)
      | Some (v, q) \<Rightarrow> (True, q, Some v))"

definition GetVarint64 :: "bytes \<Rightarrow> bool \<times> bytes \<times> uint64 option" where
  "GetVarint64 input =
     (case GetVarint64Ptr input of
        None \<Rightarrow> (False, input, None)
      | Some (v, q) \<Rightarrow> (True, q, Some v))"

section \<open>Fixed-width round trips\<close>

lemma upt_2: "[0..<2] = [0, 1::nat]" and upt_4: "[0..<4] = [0, 1, 2, 3::nat]"
  and upt_8: "[0..<8] = [0, 1, 2, 3, 4, 5, 6, 7::nat]"
  by (simp_all add: upt_rec)

lemma take_2: "take 2 (a # b # r) = [a, b]"
  and take_4: "take 4 (a # b # c # d # r) = [a, b, c, d]"
  and take_8: "take 8 (a # b # c # d # e # f # g # h # r) = [a, b, c, d, e, f, g, h]"
  by (simp_all add: eval_nat_numeral)

lemma ucast_and_ff: "(ucast ((v :: 'a::len word) AND 0xff) :: byte) = ucast v"
  by (rule bit_word_eqI) (auto simp: bit_simps numeral_eq_Suc less_Suc_eq dest: bit_imp_le_length)

lemma EncodeFixed_endian:
  "EncodeFixed16 False = EncodeFixed16 True"
  "EncodeFixed32 False = EncodeFixed32 True"
  "EncodeFixed64 False = EncodeFixed64 True"
  by (simp_all add: fun_eq_iff EncodeFixed16_def EncodeFixed32_def EncodeFixed64_def
      memcpy_from_def upt_2 upt_4 upt_8 ucast_and_ff)

lemma length_EncodeFixed [simp]:
  "length (EncodeFixed16 le v) = 2" "length (EncodeFixed32 le w) = 4" "length (EncodeFixed64 le x) = 8"
  by (simp_all add: EncodeFixed16_def EncodeFixed32_def EncodeFixed64_def memcpy_from_def)

lemma memcpy_from_Suc: "memcpy_from (Suc n) v = ucast v # memcpy_from n (drop_bit 8 v)"
  by (simp add: memcpy_from_def map_upt_Suc drop_bit_drop_bit add.commute del: upt_Suc)

lemma memcpy_round_trip: "memcpy_to (memcpy_from n v) = take_bit (8 * n) (v :: 'a::len word)"
proof (induction n arbitrary: v)
  case 0
  then show ?case by (simp add: memcpy_from_def)
next
  case (Suc n)
  have "ucast (ucast v :: byte) OR push_bit 8 (take_bit (8 * n) (drop_bit 8 v)) = take_bit (8 * Suc n) v"
    by (rule bit_word_eqI) (auto simp: bit_simps not_less dest: bit_imp_le_length)
  then show ?case by (simp add: memcpy_from_Suc Suc.IH)
qed

lemma length_memcpy_from [simp]: "length (memcpy_from n v) = n"
  by (simp add: memcpy_from_def)

lemma ucast_push_byte:
  "k \<le> 24 \<Longrightarrow> (ucast (push_bit k (ucast (b :: byte) :: uint32)) :: uint64) = push_bit k (ucast b)"
  by (rule bit_word_eqI) (auto simp: bit_simps dest: bit_imp_le_length)

lemma ucast_byte32: "(ucast (ucast (b :: byte) :: uint32) :: uint64) = ucast b"
  by (rule bit_word_eqI) (auto simp: bit_simps dest: bit_imp_le_length)

lemma ucast_or32: "(ucast ((a :: uint32) OR b) :: uint64) = ucast a OR ucast b"
  by (rule bit_word_eqI) (auto simp: bit_simps)

lemma length_ge_split:
  "2 \<le> length p \<Longrightarrow> \<exists>a b r. p = a # b # r"
  "4 \<le> length p \<Longrightarrow> \<exists>a b c d r. p = a # b # c # d # r"
  "8 \<le> length p \<Longrightarrow> \<exists>a b c d e f g h r. p = a # b # c # d # e # f # g # h # r"
  by (auto simp: numeral_eq_Suc Suc_le_length_iff)

lemma DecodeFixed_endian:
  "DecodeFixed16 False p = DecodeFixed16 True p"
  "DecodeFixed32 False p = DecodeFixed32 True p"
  "DecodeFixed64 False p = DecodeFixed64 True p"
  subgoal
    by (cases "2 \<le> length p") (auto simp: DecodeFixed16_def take_2 not_less dest: length_ge_split)
  subgoal
    by (cases "4 \<le> length p")
      (auto simp: DecodeFixed32_def take_4 not_less push_bit_or or.assoc dest!: length_ge_split)
  subgoal
    by (cases "8 \<le> length p")
      (auto simp: DecodeFixed64_def DecodeFixed32_def take_8 not_less push_bit_or or.assoc ucast_or32
        ucast_push_byte ucast_byte32 or.commute or.left_commute dest!: length_ge_split)
  done

lemma EncodeFixed_memcpy:
  "EncodeFixed16 le v = memcpy_from 2 v" "EncodeFixed32 le w = memcpy_from 4 w"
  "EncodeFixed64 le x = memcpy_from 8 x"
  using EncodeFixed_endian
  by (cases le; simp add: EncodeFixed16_def EncodeFixed32_def EncodeFixed64_def)+

lemma DecodeFixed_memcpy:
  "DecodeFixed16 le p = (if length p < 2 then None else Some (memcpy_to (take 2 p)))"
  "DecodeFixed32 le p = (if length p < 4 then None else Some (memcpy_to (take 4 p)))"
  "DecodeFixed64 le p = (if length p < 8 then None else Some (memcpy_to (take 8 p)))"
  using DecodeFixed_endian [of p]
  by (cases le; simp add: DecodeFixed16_def DecodeFixed32_def DecodeFixed64_def)+

lemma DecodeFixed_EncodeFixed [codec_simps]:
  "DecodeFixed16 le (EncodeFixed16 le' v @ rest) = Some v"
  "DecodeFixed32 le (EncodeFixed32 le' w @ rest) = Some w"
  "DecodeFixed64 le (EncodeFixed64 le' x @ rest) = Some x"
  by (simp_all add: EncodeFixed_memcpy DecodeFixed_memcpy memcpy_round_trip take_bit_word_eq_self)

text \<open>Consuming readers built from the pointer-level ones.\<close>

definition get_fixed32 :: "bytes \<Rightarrow> (uint32 \<times> bytes) option" where
  "get_fixed32 src = map_option (\<lambda>v. (v, drop 4 src)) (DecodeFixed32 True src)"

definition get_fixed64 :: "bytes \<Rightarrow> (uint64 \<times> bytes) option" where
  "get_fixed64 src = map_option (\<lambda>v. (v, drop 8 src)) (DecodeFixed64 True src)"

interpretation fixed32: codec "EncodeFixed32 le" get_fixed32 "\<lambda>_. True"
  by unfold_locales (simp add: get_fixed32_def codec_simps)

interpretation fixed64: codec "EncodeFixed64 le" get_fixed64 "\<lambda>_. True"
  by unfold_locales (simp add: get_fixed64_def codec_simps)

section \<open>Varint round trips\<close>

text \<open>The reference encoding: base 128, least significant group first, as naturals.\<close>

fun varint :: "nat \<Rightarrow> bytes" where
  "varint n = (if 128 \<le> n then of_nat (n mod 128 + 128) # varint (n div 128) else [of_nat n])"

declare varint.simps [simp del]

lemma and_128_iff: "(w :: 'a::len word) AND 128 = 0 \<longleftrightarrow> \<not> bit w 7"
  using and_exp_eq_0_iff_not_bit [of w 7] by simp

lemma and_127_eq: "(w :: 'a::len word) AND 127 = take_bit 7 w"
  by (simp add: take_bit_eq_mask mask_eq_exp_minus_1)

lemma bit_byte_7: "bit (of_nat m :: byte) 7 \<longleftrightarrow> odd (m div 128)"
proof -
  have "bit (of_nat m :: byte) 7 \<longleftrightarrow> bit m 7" by (simp add: bit_simps)
  then show ?thesis by (simp only: bit_iff_odd) simp
qed

lemma ucast_byte_of_nat:
  "m < 256 \<Longrightarrow> 8 \<le> LENGTH('a::len) \<Longrightarrow> (ucast (of_nat m :: byte) :: 'a word) = of_nat m"
  by (simp add: unsigned_of_nat take_bit_nat_eq_self)

lemma continuation_byte:
  fixes n :: nat
  assumes "8 \<le> LENGTH('a::len)"
  defines "b \<equiv> (ucast (of_nat (n mod 128 + 128) :: byte) :: 'a word)"
  shows "b AND 128 \<noteq> 0" and "b AND 127 = of_nat (n mod 128)"
proof -
  have "(n mod 128 + 128) div 128 = 1" by simp
  then have odd_cont: "odd ((n mod 128 + 128) div 128)" by (simp only: odd_one not_False_eq_True)
  have "bit b 7 \<longleftrightarrow> bit (of_nat (n mod 128 + 128) :: byte) 7"
    using assms by (simp add: bit_simps)
  then show "b AND 128 \<noteq> 0" unfolding and_128_iff bit_byte_7 using odd_cont by blast
  have "b = of_nat (n mod 128 + 128)"
    unfolding b_def by (rule ucast_byte_of_nat) (use assms in \<open>simp_all add: add_less_le_mono\<close>)
  then have "b AND 127 = of_nat (take_bit 7 (n mod 128 + 128))"
    using assms by (simp add: and_127_eq take_bit_of_nat del: of_nat_add)
  then show "b AND 127 = of_nat (n mod 128)"
    by (simp add: take_bit_eq_mod)
qed

lemma final_byte:
  assumes "8 \<le> LENGTH('a::len)" "n < 128"
  shows "(ucast (of_nat n :: byte) :: 'a word) AND 128 = 0"
    and "(ucast (of_nat n :: byte) :: 'a word) = of_nat n"
proof -
  have "\<not> bit (ucast (of_nat n :: byte) :: 'a word) 7"
    unfolding bit_ucast_iff bit_byte_7 using assms(2) by simp
  then show "(ucast (of_nat n :: byte) :: 'a word) AND 128 = 0" unfolding and_128_iff .
qed (use assms in \<open>simp add: ucast_byte_of_nat\<close>)

text \<open>
  The loop reads back a varint that fits the word from the current shift on: it never
  runs out of shifts before the final byte.
\<close>

lemma GetVarint_loop_varint:
  assumes "8 \<le> LENGTH('a::len)" "LENGTH('a) \<le> bound + 7"
    and "7 dvd bound" "7 dvd shift" "shift \<le> bound" "n * 2 ^ shift < 2 ^ LENGTH('a)"
  shows "GetVarint_loop bound shift (result :: 'a word) (varint n @ rest) =
    Some (result OR push_bit shift (of_nat n), rest)"
  using assms
proof (induction n arbitrary: shift result rule: varint.induct)
  case (1 n)
  show ?case
  proof (cases "128 \<le> n")
    case False
    then show ?thesis using 1(2,6)
      using final_byte [OF 1(2), of n] by (simp add: varint.simps [of n] Let_def)
  next
    case True
    have "2 ^ (shift + 7) \<le> n * 2 ^ shift" using True by (simp add: power_add)
    then have "(2::nat) ^ (shift + 7) < 2 ^ (bound + 7)"
      using 1(7) power_increasing [OF 1(3), of "2::nat"] by linarith
    then have "shift < bound" by simp
    with 1(4,5) have next_shift: "shift + 7 \<le> bound"
      by (auto elim!: dvdE)
    have "n div 128 * 2 ^ (shift + 7) \<le> n * 2 ^ shift"
      by (simp add: power_add)
    then have fits: "n div 128 * 2 ^ (shift + 7) < 2 ^ LENGTH('a)" using 1(7) by linarith
    have "GetVarint_loop bound shift result (varint n @ rest) =
      GetVarint_loop bound (shift + 7) (result OR push_bit shift (of_nat (n mod 128))) (varint (n div 128) @ rest)"
      using True 1(6) continuation_byte [OF 1(2), of n] by (simp add: varint.simps [of n])
    also have "\<dots> = Some (result OR push_bit shift (of_nat (n mod 128)) OR push_bit (shift + 7) (of_nat (n div 128)), rest)"
      using 1(1) [OF True 1(2,3,4) _ next_shift fits] 1(5) by (simp add: or.assoc)
    also have "\<dots> = Some (result OR push_bit shift (of_nat n), rest)"
      by (subst of_nat_split7 [of n]) (simp add: push_bit_or or.assoc add.commute)
    finally show ?thesis .
  qed
qed

lemma bit_128:
  "bit (128 :: 'a::len word) n \<longleftrightarrow> n = 7 \<and> 7 < LENGTH('a)"
  "bit (128 :: nat) n \<longleftrightarrow> n = 7" "bit (128 :: int) n \<longleftrightarrow> n = 7"
proof -
  have "(128 :: 'a word) = 2 ^ 7" "(128 :: nat) = 2 ^ 7" "(128 :: int) = 2 ^ 7" by simp_all
  then show "bit (128 :: 'a::len word) n \<longleftrightarrow> n = 7 \<and> 7 < LENGTH('a)"
    "bit (128 :: nat) n \<longleftrightarrow> n = 7" "bit (128 :: int) n \<longleftrightarrow> n = 7"
    by (auto simp only: bit_exp_iff possible_bit_word possible_bit_def)
qed

lemma byte_or_128:
  assumes "8 \<le> LENGTH('a::len)"
  shows "(ucast ((v :: 'a word) OR 128) :: byte) = of_nat (unat v mod 128 + 128)"
    and "(ucast ((v AND 127) OR 128) :: byte) = of_nat (unat v mod 128 + 128)"
proof -
  have "take_bit 7 (unat v) AND 2 ^ 7 = 0"
    by (simp only: and_exp_eq_0_iff_not_bit) (simp add: bit_simps)
  from disjunctive_add_eq_or [OF this] have "unat v mod 128 + 128 = take_bit 7 (unat v) OR 128"
    by (simp add: take_bit_eq_mod)
  then have r: "(of_nat (unat v mod 128 + 128) :: byte) = of_nat (take_bit 7 (unat v) OR 128)"
    by simp
  show "(ucast (v OR 128) :: byte) = of_nat (unat v mod 128 + 128)"
    unfolding r using assms by (intro bit_word_eqI) (auto simp: bit_simps bit_128)
  show "(ucast ((v AND 127) OR 128) :: byte) = of_nat (unat v mod 128 + 128)"
    unfolding r and_127_eq using assms by (intro bit_word_eqI) (auto simp: bit_simps bit_128)
qed

lemma EncodeVarint64_varint: "EncodeVarint64 v = varint (unat v)"
proof (induction v rule: EncodeVarint64.induct)
  case (1 v)
  have ge: "128 \<le> v \<longleftrightarrow> 128 \<le> unat v" by (simp add: word_le_nat_alt)
  have byte: "(ucast ((v AND 127) OR 128) :: byte) = of_nat (unat v mod 128 + 128)"
    by (rule byte_or_128) simp
  have "unat (drop_bit 7 v) = unat v div 128"
    by (simp only: unat_drop_bit_eq) (simp add: drop_bit_eq_div)
  with 1 ge byte show ?case
    by (simp add: EncodeVarint64.simps [of v] varint.simps [of "unat v"])
qed

lemma EncodeVarint32_varint: "EncodeVarint32 v = varint (unat v)"
proof -
  define n where "n = unat v"
  have n32: "n < 2 ^ 32" using unsigned_less [of v, where 'a = nat] by (simp add: n_def)
  have d: "(ucast (drop_bit k v) :: byte) = of_nat (n div 2 ^ k)" for k
  proof -
    have "unat (drop_bit k v) = n div 2 ^ k"
      unfolding n_def by (subst unat_drop_bit_eq) (rule drop_bit_eq_div)
    then show ?thesis by (metis of_nat_unat)
  qed
  have b: "(ucast (drop_bit k v OR 128) :: byte) = of_nat (n div 2 ^ k mod 128 + 128)" for k
  proof -
    have "unat (drop_bit k v) = n div 2 ^ k"
      unfolding n_def by (subst unat_drop_bit_eq) (rule drop_bit_eq_div)
    then show ?thesis using byte_or_128(1) [of "drop_bit k v"] by simp
  qed
  note bs = d [of 0] d [of 7] d [of 14] d [of 21] d [of 28] b [of 0] b [of 7] b [of 14] b [of 21]
  note vs = varint.simps [of n] varint.simps [of "n div 128"] varint.simps [of "n div 16384"]
    varint.simps [of "n div 2097152"] varint.simps [of "n div 268435456"]
  have lts: "v < 128 \<longleftrightarrow> n < 128" "v < 16384 \<longleftrightarrow> n < 16384" "v < 2097152 \<longleftrightarrow> n < 2097152"
    "v < 268435456 \<longleftrightarrow> n < 268435456"
    by (simp_all add: word_less_nat_alt n_def)
  have les: "128 \<le> n div 128 \<longleftrightarrow> 16384 \<le> n" "128 \<le> n div 16384 \<longleftrightarrow> 2097152 \<le> n"
    "128 \<le> n div 2097152 \<longleftrightarrow> 268435456 \<le> n" "\<not> 128 \<le> n div 268435456"
    using n32 by (simp_all add: less_eq_div_iff_mult_less_eq)
  have divs: "n div 128 div 128 = n div 16384" "n div 16384 div 128 = n div 2097152"
    "n div 2097152 div 128 = n div 268435456"
    by (simp_all flip: div_mult2_eq)
  consider "n < 2 ^ 7" | "2 ^ 7 \<le> n" "n < 2 ^ 14" | "2 ^ 14 \<le> n" "n < 2 ^ 21"
    | "2 ^ 21 \<le> n" "n < 2 ^ 28" | "2 ^ 28 \<le> n" by linarith
  then show ?thesis
    unfolding EncodeVarint32_def Let_def
    by cases (use bs n32 in \<open>simp_all add: vs lts les divs flip: n_def\<close>)
qed

interpretation varint32: codec EncodeVarint32 GetVarint32Ptr "\<lambda>_. True"
proof
  fix v :: uint32 and rest
  have "unat v * 2 ^ 0 < 2 ^ LENGTH(32)" using unsigned_less [of v, where 'a = nat] by simp
  then have fallback: "GetVarint32PtrFallback (EncodeVarint32 v @ rest) = Some (v, rest)"
    using GetVarint_loop_varint [of 28 0 "unat v" "0 :: uint32" rest]
    by (simp add: GetVarint32PtrFallback_def EncodeVarint32_varint)
  show "GetVarint32Ptr (EncodeVarint32 v @ rest) = Some (v, rest)"
    using fallback
    by (auto simp: GetVarint32Ptr_def GetVarint32PtrFallback_def Let_def split: list.splits if_splits)
qed

interpretation varint64: codec EncodeVarint64 GetVarint64Ptr "\<lambda>_. True"
proof
  fix v :: uint64 and rest
  have "unat v * 2 ^ 0 < 2 ^ LENGTH(64)" using unsigned_less [of v, where 'a = nat] by simp
  then show "GetVarint64Ptr (EncodeVarint64 v @ rest) = Some (v, rest)"
    using GetVarint_loop_varint [of 63 0 "unat v" "0 :: uint64" rest]
    by (simp add: GetVarint64Ptr_def EncodeVarint64_varint)
qed

lemma VarintLength_loop_varint: "VarintLength_loop v l = l - 1 + int (length (varint (unat v)))"
proof (induction v l rule: VarintLength_loop.induct)
  case (1 v l)
  have ge: "128 \<le> v \<longleftrightarrow> 128 \<le> unat v" by (simp add: word_le_nat_alt)
  have "unat (drop_bit 7 v) = unat v div 128"
    by (subst unat_drop_bit_eq) (simp add: drop_bit_eq_div)
  with 1 ge show ?case
    by (simp add: VarintLength_loop.simps [of v l] varint.simps [of "unat v"])
qed

lemma length_varint_le: "n < 128 ^ k \<Longrightarrow> 0 < k \<Longrightarrow> length (varint n) \<le> k"
proof (induction n arbitrary: k rule: varint.induct)
  case (1 n)
  show ?case
  proof (cases "128 \<le> n")
    case True
    with 1(2,3) obtain j where k: "k = Suc j" "0 < j" by (cases k; cases "k - 1") auto
    with 1(2) have "n div 128 < 128 ^ j" by (simp add: less_mult_imp_div_less mult.commute)
    with 1(1) [OF True] k True show ?thesis by (simp add: varint.simps [of n])
  next
    case False
    with 1(3) show ?thesis by (simp add: varint.simps [of n])
  qed
qed

text \<open>A run of continuation bytes longer than the loop's bound has no value.\<close>

lemma GetVarint_loop_overlong:
  assumes "list_all (\<lambda>b. bit b 7) (take k p)" "k \<le> length p" "bound < shift + 7 * k"
    and "8 \<le> LENGTH('a::len)"
  shows "GetVarint_loop bound shift (r :: 'a word) p = None"
  using assms
proof (induction p arbitrary: k shift r)
  case Nil
  then show ?case by simp
next
  case (Cons b p)
  show ?case
  proof (cases k)
    case 0
    with Cons.prems show ?thesis by simp
  next
    case (Suc j)
    with Cons.prems have "bit b 7" by simp
    with Cons.prems(4) have "(ucast b :: 'a word) AND 128 \<noteq> 0" by (simp add: and_128_iff bit_ucast_iff)
    moreover have "GetVarint_loop bound (shift + 7) r' p = None" for r' :: "'a word"
      using Cons.prems Suc by (intro Cons.IH [of j "shift + 7"]) auto
    ultimately show ?thesis by (simp add: Let_def)
  qed
qed

section \<open>Properties\<close>

text \<open>
  The unrolled 32-bit varint writer produces exactly the bytes of the 64-bit loop on
  the zero-extended value, so the two writers are one format.
\<close>

theorem EncodeVarint32_is_EncodeVarint64: "EncodeVarint32 v = EncodeVarint64 (ucast v)"
proof -
  have "unat v < 2 ^ 32" using unsigned_less [of v, where 'a = nat] by simp
  then have "unat (ucast v :: uint64) = unat v"
    by (simp add: unsigned_ucast_eq take_bit_nat_eq_self)
  then show ?thesis by (simp only: EncodeVarint32_varint EncodeVarint64_varint)
qed

text \<open>
  A varint that \<open>PutVarint32\<close> or \<open>PutVarint64\<close> appended is read back by the
  matching \<open>GetVarint\<close>, which consumes exactly its bytes and leaves the rest of the
  input.
\<close>

theorem GetVarint_PutVarint:
  "GetVarint32 (PutVarint32 [] v @ rest) = (True, rest, Some v) \<and>
   GetVarint64 (PutVarint64 [] w @ rest) = (True, rest, Some w)"
  by (simp add: GetVarint32_def GetVarint64_def PutVarint32_def PutVarint64_def
      varint32.get_put varint64.get_put)

text \<open>
  \<open>VarintLength\<close> is the number of bytes the writers store, which is between 1 and
  the sizes of their buffers: 5 bytes for 32-bit values and 10 bytes for 64-bit values.
\<close>

theorem VarintLength_correct:
  "VarintLength w = int (length (EncodeVarint64 w)) \<and>
   length (EncodeVarint64 w) \<in> {1..10} \<and> length (EncodeVarint32 v) \<in> {1..5}"
proof -
  have "unat w < 128 ^ 10" "unat v < 128 ^ 5"
    using unsigned_less [of w, where 'a = nat] unsigned_less [of v, where 'a = nat] by simp_all
  moreover have "1 \<le> length (varint n)" for n by (simp add: varint.simps [of n])
  ultimately show ?thesis
    by (simp add: VarintLength_def VarintLength_loop_varint EncodeVarint64_varint
        EncodeVarint32_varint length_varint_le)
qed

text \<open>
  Malformed input is refused: a 32-bit varint with five continuation bytes, or a
  64-bit one with ten, has no value and the input is left unread.
\<close>

theorem GetVarint_overlong:
  assumes "length p5 = 5" "list_all (\<lambda>b. bit b 7) p5"
    and "length p10 = 10" "list_all (\<lambda>b. bit b 7) p10"
  shows "GetVarint32 (p5 @ rest) = (False, p5 @ rest, None) \<and>
    GetVarint64 (p10 @ rest) = (False, p10 @ rest, None)"
proof -
  have "GetVarint_loop 28 0 (0 :: uint32) (p5 @ rest) = None"
    using assms by (intro GetVarint_loop_overlong [where k = 5]) auto
  moreover obtain b p' where "p5 = b # p'" "bit b 7" using assms(1,2) by (cases p5) auto
  ultimately have "GetVarint32Ptr (p5 @ rest) = None"
    by (simp add: GetVarint32Ptr_def GetVarint32PtrFallback_def Let_def and_128_iff bit_ucast_iff)
  moreover have "GetVarint64Ptr (p10 @ rest) = None"
    unfolding GetVarint64Ptr_def using assms by (intro GetVarint_loop_overlong [where k = 10]) auto
  ultimately show ?thesis by (simp add: GetVarint32_def GetVarint64_def)
qed

theorem GetVarint_overlong_witness:
  "GetVarint32 (replicate 5 0x80 @ [1]) = (False, replicate 5 0x80 @ [1], None) \<and>
   GetVarint64 (replicate 10 0xff @ [1]) = (False, replicate 10 0xff @ [1], None)"
  by (rule GetVarint_overlong) (simp_all add: list_all_iff)

end
