(* ===== verification/Crc32c.thy ===== *)
theory Crc32c
  imports Coding
begin

text \<open>
  \<^verbatim>\<open>core/lib/hash/crc32c.cc\<close>, \<^verbatim>\<open>crc32c.h\<close> and
  \<^verbatim>\<open>crc32c_accelerate.cc\<close>: the checksum of records, table blocks and checkpoint
  entries. \<open>Extend\<close> is written three ways in the sources: byte by byte or four bytes at
  a time over precomputed tables, and with the SSE4.2 instruction. The buffer is its address
  (on which the split into steps depends) and its bytes; addresses are natural numbers, i.e.
  no buffer ends in the last seven bytes of the address space. The two SSE4.2 intrinsics are
  arguments of \<open>AcceleratedExtend\<close>.
\<close>

section \<open>Tables\<close>

definition table0 :: "uint32 list" where
  "table0 = [
    0x0, 0xf26b8303, 0xe13b70f7, 0x1350f3f4, 0xc79a971f, 0x35f1141c, 0x26a1e7e8, 0xd4ca64eb,
    0x8ad958cf, 0x78b2dbcc, 0x6be22838, 0x9989ab3b, 0x4d43cfd0, 0xbf284cd3, 0xac78bf27, 0x5e133c24,
    0x105ec76f, 0xe235446c, 0xf165b798, 0x30e349b, 0xd7c45070, 0x25afd373, 0x36ff2087, 0xc494a384,
    0x9a879fa0, 0x68ec1ca3, 0x7bbcef57, 0x89d76c54, 0x5d1d08bf, 0xaf768bbc, 0xbc267848, 0x4e4dfb4b,
    0x20bd8ede, 0xd2d60ddd, 0xc186fe29, 0x33ed7d2a, 0xe72719c1, 0x154c9ac2, 0x61c6936, 0xf477ea35,
    0xaa64d611, 0x580f5512, 0x4b5fa6e6, 0xb93425e5, 0x6dfe410e, 0x9f95c20d, 0x8cc531f9, 0x7eaeb2fa,
    0x30e349b1, 0xc288cab2, 0xd1d83946, 0x23b3ba45, 0xf779deae, 0x5125dad, 0x1642ae59, 0xe4292d5a,
    0xba3a117e, 0x4851927d, 0x5b016189, 0xa96ae28a, 0x7da08661, 0x8fcb0562, 0x9c9bf696, 0x6ef07595,
    0x417b1dbc, 0xb3109ebf, 0xa0406d4b, 0x522bee48, 0x86e18aa3, 0x748a09a0, 0x67dafa54, 0x95b17957,
    0xcba24573, 0x39c9c670, 0x2a993584, 0xd8f2b687, 0xc38d26c, 0xfe53516f, 0xed03a29b, 0x1f682198,
    0x5125dad3, 0xa34e59d0, 0xb01eaa24, 0x42752927, 0x96bf4dcc, 0x64d4cecf, 0x77843d3b, 0x85efbe38,
    0xdbfc821c, 0x2997011f, 0x3ac7f2eb, 0xc8ac71e8, 0x1c661503, 0xee0d9600, 0xfd5d65f4, 0xf36e6f7,
    0x61c69362, 0x93ad1061, 0x80fde395, 0x72966096, 0xa65c047d, 0x5437877e, 0x4767748a, 0xb50cf789,
    0xeb1fcbad, 0x197448ae, 0xa24bb5a, 0xf84f3859, 0x2c855cb2, 0xdeeedfb1, 0xcdbe2c45, 0x3fd5af46,
    0x7198540d, 0x83f3d70e, 0x90a324fa, 0x62c8a7f9, 0xb602c312, 0x44694011, 0x5739b3e5, 0xa55230e6,
    0xfb410cc2, 0x92a8fc1, 0x1a7a7c35, 0xe811ff36, 0x3cdb9bdd, 0xceb018de, 0xdde0eb2a, 0x2f8b6829,
    0x82f63b78, 0x709db87b, 0x63cd4b8f, 0x91a6c88c, 0x456cac67, 0xb7072f64, 0xa457dc90, 0x563c5f93,
    0x82f63b7, 0xfa44e0b4, 0xe9141340, 0x1b7f9043, 0xcfb5f4a8, 0x3dde77ab, 0x2e8e845f, 0xdce5075c,
    0x92a8fc17, 0x60c37f14, 0x73938ce0, 0x81f80fe3, 0x55326b08, 0xa759e80b, 0xb4091bff, 0x466298fc,
    0x1871a4d8, 0xea1a27db, 0xf94ad42f, 0xb21572c, 0xdfeb33c7, 0x2d80b0c4, 0x3ed04330, 0xccbbc033,
    0xa24bb5a6, 0x502036a5, 0x4370c551, 0xb11b4652, 0x65d122b9, 0x97baa1ba, 0x84ea524e, 0x7681d14d,
    0x2892ed69, 0xdaf96e6a, 0xc9a99d9e, 0x3bc21e9d, 0xef087a76, 0x1d63f975, 0xe330a81, 0xfc588982,
    0xb21572c9, 0x407ef1ca, 0x532e023e, 0xa145813d, 0x758fe5d6, 0x87e466d5, 0x94b49521, 0x66df1622,
    0x38cc2a06, 0xcaa7a905, 0xd9f75af1, 0x2b9cd9f2, 0xff56bd19, 0xd3d3e1a, 0x1e6dcdee, 0xec064eed,
    0xc38d26c4, 0x31e6a5c7, 0x22b65633, 0xd0ddd530, 0x417b1db, 0xf67c32d8, 0xe52cc12c, 0x1747422f,
    0x49547e0b, 0xbb3ffd08, 0xa86f0efc, 0x5a048dff, 0x8ecee914, 0x7ca56a17, 0x6ff599e3, 0x9d9e1ae0,
    0xd3d3e1ab, 0x21b862a8, 0x32e8915c, 0xc083125f, 0x144976b4, 0xe622f5b7, 0xf5720643, 0x7198540,
    0x590ab964, 0xab613a67, 0xb831c993, 0x4a5a4a90, 0x9e902e7b, 0x6cfbad78, 0x7fab5e8c, 0x8dc0dd8f,
    0xe330a81a, 0x115b2b19, 0x20bd8ed, 0xf0605bee, 0x24aa3f05, 0xd6c1bc06, 0xc5914ff2, 0x37faccf1,
    0x69e9f0d5, 0x9b8273d6, 0x88d28022, 0x7ab90321, 0xae7367ca, 0x5c18e4c9, 0x4f48173d, 0xbd23943e,
    0xf36e6f75, 0x105ec76, 0x12551f82, 0xe03e9c81, 0x34f4f86a, 0xc69f7b69, 0xd5cf889d, 0x27a40b9e,
    0x79b737ba, 0x8bdcb4b9, 0x988c474d, 0x6ae7c44e, 0xbe2da0a5, 0x4c4623a6, 0x5f16d052, 0xad7d5351]"

definition table1 :: "uint32 list" where
  "table1 = [
    0x0, 0x13a29877, 0x274530ee, 0x34e7a899, 0x4e8a61dc, 0x5d28f9ab, 0x69cf5132, 0x7a6dc945,
    0x9d14c3b8, 0x8eb65bcf, 0xba51f356, 0xa9f36b21, 0xd39ea264, 0xc03c3a13, 0xf4db928a, 0xe7790afd,
    0x3fc5f181, 0x2c6769f6, 0x1880c16f, 0xb225918, 0x714f905d, 0x62ed082a, 0x560aa0b3, 0x45a838c4,
    0xa2d13239, 0xb173aa4e, 0x859402d7, 0x96369aa0, 0xec5b53e5, 0xfff9cb92, 0xcb1e630b, 0xd8bcfb7c,
    0x7f8be302, 0x6c297b75, 0x58ced3ec, 0x4b6c4b9b, 0x310182de, 0x22a31aa9, 0x1644b230, 0x5e62a47,
    0xe29f20ba, 0xf13db8cd, 0xc5da1054, 0xd6788823, 0xac154166, 0xbfb7d911, 0x8b507188, 0x98f2e9ff,
    0x404e1283, 0x53ec8af4, 0x670b226d, 0x74a9ba1a, 0xec4735f, 0x1d66eb28, 0x298143b1, 0x3a23dbc6,
    0xdd5ad13b, 0xcef8494c, 0xfa1fe1d5, 0xe9bd79a2, 0x93d0b0e7, 0x80722890, 0xb4958009, 0xa737187e,
    0xff17c604, 0xecb55e73, 0xd852f6ea, 0xcbf06e9d, 0xb19da7d8, 0xa23f3faf, 0x96d89736, 0x857a0f41,
    0x620305bc, 0x71a19dcb, 0x45463552, 0x56e4ad25, 0x2c896460, 0x3f2bfc17, 0xbcc548e, 0x186eccf9,
    0xc0d23785, 0xd370aff2, 0xe797076b, 0xf4359f1c, 0x8e585659, 0x9dface2e, 0xa91d66b7, 0xbabffec0,
    0x5dc6f43d, 0x4e646c4a, 0x7a83c4d3, 0x69215ca4, 0x134c95e1, 0xee0d96, 0x3409a50f, 0x27ab3d78,
    0x809c2506, 0x933ebd71, 0xa7d915e8, 0xb47b8d9f, 0xce1644da, 0xddb4dcad, 0xe9537434, 0xfaf1ec43,
    0x1d88e6be, 0xe2a7ec9, 0x3acdd650, 0x296f4e27, 0x53028762, 0x40a01f15, 0x7447b78c, 0x67e52ffb,
    0xbf59d487, 0xacfb4cf0, 0x981ce469, 0x8bbe7c1e, 0xf1d3b55b, 0xe2712d2c, 0xd69685b5, 0xc5341dc2,
    0x224d173f, 0x31ef8f48, 0x50827d1, 0x16aabfa6, 0x6cc776e3, 0x7f65ee94, 0x4b82460d, 0x5820de7a,
    0xfbc3faf9, 0xe861628e, 0xdc86ca17, 0xcf245260, 0xb5499b25, 0xa6eb0352, 0x920cabcb, 0x81ae33bc,
    0x66d73941, 0x7575a136, 0x419209af, 0x523091d8, 0x285d589d, 0x3bffc0ea, 0xf186873, 0x1cbaf004,
    0xc4060b78, 0xd7a4930f, 0xe3433b96, 0xf0e1a3e1, 0x8a8c6aa4, 0x992ef2d3, 0xadc95a4a, 0xbe6bc23d,
    0x5912c8c0, 0x4ab050b7, 0x7e57f82e, 0x6df56059, 0x1798a91c, 0x43a316b, 0x30dd99f2, 0x237f0185,
    0x844819fb, 0x97ea818c, 0xa30d2915, 0xb0afb162, 0xcac27827, 0xd960e050, 0xed8748c9, 0xfe25d0be,
    0x195cda43, 0xafe4234, 0x3e19eaad, 0x2dbb72da, 0x57d6bb9f, 0x447423e8, 0x70938b71, 0x63311306,
    0xbb8de87a, 0xa82f700d, 0x9cc8d894, 0x8f6a40e3, 0xf50789a6, 0xe6a511d1, 0xd242b948, 0xc1e0213f,
    0x26992bc2, 0x353bb3b5, 0x1dc1b2c, 0x127e835b, 0x68134a1e, 0x7bb1d269, 0x4f567af0, 0x5cf4e287,
    0x4d43cfd, 0x1776a48a, 0x23910c13, 0x30339464, 0x4a5e5d21, 0x59fcc556, 0x6d1b6dcf, 0x7eb9f5b8,
    0x99c0ff45, 0x8a626732, 0xbe85cfab, 0xad2757dc, 0xd74a9e99, 0xc4e806ee, 0xf00fae77, 0xe3ad3600,
    0x3b11cd7c, 0x28b3550b, 0x1c54fd92, 0xff665e5, 0x759baca0, 0x663934d7, 0x52de9c4e, 0x417c0439,
    0xa6050ec4, 0xb5a796b3, 0x81403e2a, 0x92e2a65d, 0xe88f6f18, 0xfb2df76f, 0xcfca5ff6, 0xdc68c781,
    0x7b5fdfff, 0x68fd4788, 0x5c1aef11, 0x4fb87766, 0x35d5be23, 0x26772654, 0x12908ecd, 0x13216ba,
    0xe64b1c47, 0xf5e98430, 0xc10e2ca9, 0xd2acb4de, 0xa8c17d9b, 0xbb63e5ec, 0x8f844d75, 0x9c26d502,
    0x449a2e7e, 0x5738b609, 0x63df1e90, 0x707d86e7, 0xa104fa2, 0x19b2d7d5, 0x2d557f4c, 0x3ef7e73b,
    0xd98eedc6, 0xca2c75b1, 0xfecbdd28, 0xed69455f, 0x97048c1a, 0x84a6146d, 0xb041bcf4, 0xa3e32483]"

definition table2 :: "uint32 list" where
  "table2 = [
    0x0, 0xa541927e, 0x4f6f520d, 0xea2ec073, 0x9edea41a, 0x3b9f3664, 0xd1b1f617, 0x74f06469,
    0x38513ec5, 0x9d10acbb, 0x773e6cc8, 0xd27ffeb6, 0xa68f9adf, 0x3ce08a1, 0xe9e0c8d2, 0x4ca15aac,
    0x70a27d8a, 0xd5e3eff4, 0x3fcd2f87, 0x9a8cbdf9, 0xee7cd990, 0x4b3d4bee, 0xa1138b9d, 0x45219e3,
    0x48f3434f, 0xedb2d131, 0x79c1142, 0xa2dd833c, 0xd62de755, 0x736c752b, 0x9942b558, 0x3c032726,
    0xe144fb14, 0x4405696a, 0xae2ba919, 0xb6a3b67, 0x7f9a5f0e, 0xdadbcd70, 0x30f50d03, 0x95b49f7d,
    0xd915c5d1, 0x7c5457af, 0x967a97dc, 0x333b05a2, 0x47cb61cb, 0xe28af3b5, 0x8a433c6, 0xade5a1b8,
    0x91e6869e, 0x34a714e0, 0xde89d493, 0x7bc846ed, 0xf382284, 0xaa79b0fa, 0x40577089, 0xe516e2f7,
    0xa9b7b85b, 0xcf62a25, 0xe6d8ea56, 0x43997828, 0x37691c41, 0x92288e3f, 0x78064e4c, 0xdd47dc32,
    0xc76580d9, 0x622412a7, 0x880ad2d4, 0x2d4b40aa, 0x59bb24c3, 0xfcfab6bd, 0x16d476ce, 0xb395e4b0,
    0xff34be1c, 0x5a752c62, 0xb05bec11, 0x151a7e6f, 0x61ea1a06, 0xc4ab8878, 0x2e85480b, 0x8bc4da75,
    0xb7c7fd53, 0x12866f2d, 0xf8a8af5e, 0x5de93d20, 0x29195949, 0x8c58cb37, 0x66760b44, 0xc337993a,
    0x8f96c396, 0x2ad751e8, 0xc0f9919b, 0x65b803e5, 0x1148678c, 0xb409f5f2, 0x5e273581, 0xfb66a7ff,
    0x26217bcd, 0x8360e9b3, 0x694e29c0, 0xcc0fbbbe, 0xb8ffdfd7, 0x1dbe4da9, 0xf7908dda, 0x52d11fa4,
    0x1e704508, 0xbb31d776, 0x511f1705, 0xf45e857b, 0x80aee112, 0x25ef736c, 0xcfc1b31f, 0x6a802161,
    0x56830647, 0xf3c29439, 0x19ec544a, 0xbcadc634, 0xc85da25d, 0x6d1c3023, 0x8732f050, 0x2273622e,
    0x6ed23882, 0xcb93aafc, 0x21bd6a8f, 0x84fcf8f1, 0xf00c9c98, 0x554d0ee6, 0xbf63ce95, 0x1a225ceb,
    0x8b277743, 0x2e66e53d, 0xc448254e, 0x6109b730, 0x15f9d359, 0xb0b84127, 0x5a968154, 0xffd7132a,
    0xb3764986, 0x1637dbf8, 0xfc191b8b, 0x595889f5, 0x2da8ed9c, 0x88e97fe2, 0x62c7bf91, 0xc7862def,
    0xfb850ac9, 0x5ec498b7, 0xb4ea58c4, 0x11abcaba, 0x655baed3, 0xc01a3cad, 0x2a34fcde, 0x8f756ea0,
    0xc3d4340c, 0x6695a672, 0x8cbb6601, 0x29faf47f, 0x5d0a9016, 0xf84b0268, 0x1265c21b, 0xb7245065,
    0x6a638c57, 0xcf221e29, 0x250cde5a, 0x804d4c24, 0xf4bd284d, 0x51fcba33, 0xbbd27a40, 0x1e93e83e,
    0x5232b292, 0xf77320ec, 0x1d5de09f, 0xb81c72e1, 0xccec1688, 0x69ad84f6, 0x83834485, 0x26c2d6fb,
    0x1ac1f1dd, 0xbf8063a3, 0x55aea3d0, 0xf0ef31ae, 0x841f55c7, 0x215ec7b9, 0xcb7007ca, 0x6e3195b4,
    0x2290cf18, 0x87d15d66, 0x6dff9d15, 0xc8be0f6b, 0xbc4e6b02, 0x190ff97c, 0xf321390f, 0x5660ab71,
    0x4c42f79a, 0xe90365e4, 0x32da597, 0xa66c37e9, 0xd29c5380, 0x77ddc1fe, 0x9df3018d, 0x38b293f3,
    0x7413c95f, 0xd1525b21, 0x3b7c9b52, 0x9e3d092c, 0xeacd6d45, 0x4f8cff3b, 0xa5a23f48, 0xe3ad36,
    0x3ce08a10, 0x99a1186e, 0x738fd81d, 0xd6ce4a63, 0xa23e2e0a, 0x77fbc74, 0xed517c07, 0x4810ee79,
    0x4b1b4d5, 0xa1f026ab, 0x4bdee6d8, 0xee9f74a6, 0x9a6f10cf, 0x3f2e82b1, 0xd50042c2, 0x7041d0bc,
    0xad060c8e, 0x8479ef0, 0xe2695e83, 0x4728ccfd, 0x33d8a894, 0x96993aea, 0x7cb7fa99, 0xd9f668e7,
    0x9557324b, 0x3016a035, 0xda386046, 0x7f79f238, 0xb899651, 0xaec8042f, 0x44e6c45c, 0xe1a75622,
    0xdda47104, 0x78e5e37a, 0x92cb2309, 0x378ab177, 0x437ad51e, 0xe63b4760, 0xc158713, 0xa954156d,
    0xe5f54fc1, 0x40b4ddbf, 0xaa9a1dcc, 0xfdb8fb2, 0x7b2bebdb, 0xde6a79a5, 0x3444b9d6, 0x91052ba8]"

definition table3 :: "uint32 list" where
  "table3 = [
    0x0, 0xdd45aab8, 0xbf672381, 0x62228939, 0x7b2231f3, 0xa6679b4b, 0xc4451272, 0x1900b8ca,
    0xf64463e6, 0x2b01c95e, 0x49234067, 0x9466eadf, 0x8d665215, 0x5023f8ad, 0x32017194, 0xef44db2c,
    0xe964b13d, 0x34211b85, 0x560392bc, 0x8b463804, 0x924680ce, 0x4f032a76, 0x2d21a34f, 0xf06409f7,
    0x1f20d2db, 0xc2657863, 0xa047f15a, 0x7d025be2, 0x6402e328, 0xb9474990, 0xdb65c0a9, 0x6206a11,
    0xd725148b, 0xa60be33, 0x6842370a, 0xb5079db2, 0xac072578, 0x71428fc0, 0x136006f9, 0xce25ac41,
    0x2161776d, 0xfc24ddd5, 0x9e0654ec, 0x4343fe54, 0x5a43469e, 0x8706ec26, 0xe524651f, 0x3861cfa7,
    0x3e41a5b6, 0xe3040f0e, 0x81268637, 0x5c632c8f, 0x45639445, 0x98263efd, 0xfa04b7c4, 0x27411d7c,
    0xc805c650, 0x15406ce8, 0x7762e5d1, 0xaa274f69, 0xb327f7a3, 0x6e625d1b, 0xc40d422, 0xd1057e9a,
    0xaba65fe7, 0x76e3f55f, 0x14c17c66, 0xc984d6de, 0xd0846e14, 0xdc1c4ac, 0x6fe34d95, 0xb2a6e72d,
    0x5de23c01, 0x80a796b9, 0xe2851f80, 0x3fc0b538, 0x26c00df2, 0xfb85a74a, 0x99a72e73, 0x44e284cb,
    0x42c2eeda, 0x9f874462, 0xfda5cd5b, 0x20e067e3, 0x39e0df29, 0xe4a57591, 0x8687fca8, 0x5bc25610,
    0xb4868d3c, 0x69c32784, 0xbe1aebd, 0xd6a40405, 0xcfa4bccf, 0x12e11677, 0x70c39f4e, 0xad8635f6,
    0x7c834b6c, 0xa1c6e1d4, 0xc3e468ed, 0x1ea1c255, 0x7a17a9f, 0xdae4d027, 0xb8c6591e, 0x6583f3a6,
    0x8ac7288a, 0x57828232, 0x35a00b0b, 0xe8e5a1b3, 0xf1e51979, 0x2ca0b3c1, 0x4e823af8, 0x93c79040,
    0x95e7fa51, 0x48a250e9, 0x2a80d9d0, 0xf7c57368, 0xeec5cba2, 0x3380611a, 0x51a2e823, 0x8ce7429b,
    0x63a399b7, 0xbee6330f, 0xdcc4ba36, 0x181108e, 0x1881a844, 0xc5c402fc, 0xa7e68bc5, 0x7aa3217d,
    0x52a0c93f, 0x8fe56387, 0xedc7eabe, 0x30824006, 0x2982f8cc, 0xf4c75274, 0x96e5db4d, 0x4ba071f5,
    0xa4e4aad9, 0x79a10061, 0x1b838958, 0xc6c623e0, 0xdfc69b2a, 0x2833192, 0x60a1b8ab, 0xbde41213,
    0xbbc47802, 0x6681d2ba, 0x4a35b83, 0xd9e6f13b, 0xc0e649f1, 0x1da3e349, 0x7f816a70, 0xa2c4c0c8,
    0x4d801be4, 0x90c5b15c, 0xf2e73865, 0x2fa292dd, 0x36a22a17, 0xebe780af, 0x89c50996, 0x5480a32e,
    0x8585ddb4, 0x58c0770c, 0x3ae2fe35, 0xe7a7548d, 0xfea7ec47, 0x23e246ff, 0x41c0cfc6, 0x9c85657e,
    0x73c1be52, 0xae8414ea, 0xcca69dd3, 0x11e3376b, 0x8e38fa1, 0xd5a62519, 0xb784ac20, 0x6ac10698,
    0x6ce16c89, 0xb1a4c631, 0xd3864f08, 0xec3e5b0, 0x17c35d7a, 0xca86f7c2, 0xa8a47efb, 0x75e1d443,
    0x9aa50f6f, 0x47e0a5d7, 0x25c22cee, 0xf8878656, 0xe1873e9c, 0x3cc29424, 0x5ee01d1d, 0x83a5b7a5,
    0xf90696d8, 0x24433c60, 0x4661b559, 0x9b241fe1, 0x8224a72b, 0x5f610d93, 0x3d4384aa, 0xe0062e12,
    0xf42f53e, 0xd2075f86, 0xb025d6bf, 0x6d607c07, 0x7460c4cd, 0xa9256e75, 0xcb07e74c, 0x16424df4,
    0x106227e5, 0xcd278d5d, 0xaf050464, 0x7240aedc, 0x6b401616, 0xb605bcae, 0xd4273597, 0x9629f2f,
    0xe6264403, 0x3b63eebb, 0x59416782, 0x8404cd3a, 0x9d0475f0, 0x4041df48, 0x22635671, 0xff26fcc9,
    0x2e238253, 0xf36628eb, 0x9144a1d2, 0x4c010b6a, 0x5501b3a0, 0x88441918, 0xea669021, 0x37233a99,
    0xd867e1b5, 0x5224b0d, 0x6700c234, 0xba45688c, 0xa345d046, 0x7e007afe, 0x1c22f3c7, 0xc167597f,
    0xc747336e, 0x1a0299d6, 0x782010ef, 0xa565ba57, 0xbc65029d, 0x6120a825, 0x302211c, 0xde478ba4,
    0x31035088, 0xec46fa30, 0x8e647309, 0x5321d9b1, 0x4a21617b, 0x9764cbc3, 0xf54642fa, 0x2803e842]"

section \<open>The portable routine\<close>

definition LE_LOAD32 :: "bool \<Rightarrow> bytes \<Rightarrow> uint32 option" where
  "LE_LOAD32 le p = DecodeFixed32 le p"

text \<open>
  The two macros: the new value of \<open>l\<close> and the bytes after the advanced \<open>p\<close>. \<open>None\<close>
  is a read past the end of the buffer.
\<close>

fun STEP1 :: "uint32 \<times> bytes \<Rightarrow> (uint32 \<times> bytes) option" where
  "STEP1 (l, []) = None"
| "STEP1 (l, b # p) =
     (let c = (l AND 0xff) XOR ucast b
      in Some (table0 ! unat c XOR drop_bit 8 l, p))"

fun STEP4 :: "bool \<Rightarrow> uint32 \<times> bytes \<Rightarrow> (uint32 \<times> bytes) option" where
  "STEP4 le (l, p) =
     (case LE_LOAD32 le p of
        None \<Rightarrow> None
      | Some w \<Rightarrow>
          (let c = l XOR w
           in Some (table3 ! unat (c AND 0xff) XOR table2 ! unat (drop_bit 8 c AND 0xff) XOR
                    table1 ! unat (drop_bit 16 c AND 0xff) XOR table0 ! unat (drop_bit 24 c),
                    drop 4 p)))"

text \<open>\<open>while (p != x) STEP1\<close>, \<open>x - p\<close> being the number of steps.\<close>

fun step1_loop :: "nat \<Rightarrow> uint32 \<times> bytes \<Rightarrow> (uint32 \<times> bytes) option" where
  "step1_loop 0 s = Some s"
| "step1_loop (Suc n) s = Option.bind (STEP1 s) (step1_loop n)"

fun step16_loop :: "bool \<Rightarrow> nat \<Rightarrow> uint32 \<times> bytes \<Rightarrow> (uint32 \<times> bytes) option" where
  "step16_loop le n s =
     (if n \<ge> 16 then
        Option.bind (STEP4 le s) (\<lambda>s. Option.bind (STEP4 le s) (\<lambda>s.
        Option.bind (STEP4 le s) (\<lambda>s. Option.bind (STEP4 le s) (step16_loop le (n - 16)))))
      else Some s)"

fun step4_loop :: "bool \<Rightarrow> nat \<Rightarrow> uint32 \<times> bytes \<Rightarrow> (uint32 \<times> bytes) option" where
  "step4_loop le n s = (if n \<ge> 4 then Option.bind (STEP4 le s) (step4_loop le (n - 4)) else Some s)"

declare step16_loop.simps [simp del] step4_loop.simps [simp del]

text \<open>The code after the test of \<open>can_accelerate\<close>.\<close>

definition PortableExtend :: "bool \<Rightarrow> nat \<Rightarrow> uint32 \<Rightarrow> bytes \<Rightarrow> uint32 option" where
  "PortableExtend le pval crc buf =
     (let e = pval + length buf;
          l = crc XOR 0xffffffff;
          x = push_bit 2 (drop_bit 2 (pval + 3))
      in Option.bind (if x \<le> e then step1_loop (x - pval) (l, buf) else Some (l, buf)) (\<lambda>s.
         Option.bind (step16_loop le (length (snd s)) s) (\<lambda>s.
         Option.bind (step4_loop le (length (snd s)) s) (\<lambda>s.
         Option.bind (step1_loop (length (snd s)) s) (\<lambda>(l, _). Some (l XOR 0xffffffff))))))"

section \<open>The SSE4.2 routine\<close>

record intrinsics =
  mm_crc32_u8 :: "uint32 \<Rightarrow> byte \<Rightarrow> uint32"
  mm_crc32_u64 :: "uint64 \<Rightarrow> uint64 \<Rightarrow> uint64"

fun sse1_loop :: "intrinsics \<Rightarrow> nat \<Rightarrow> uint32 \<times> bytes \<Rightarrow> (uint32 \<times> bytes) option" where
  "sse1_loop hw 0 s = Some s"
| "sse1_loop hw (Suc n) (l, []) = None"
| "sse1_loop hw (Suc n) (l, b # p) = sse1_loop hw n (mm_crc32_u8 hw l b, p)"

text \<open>The 64-bit loads are those of a little-endian host: SSE4.2 exists only on x86.\<close>

fun sse16_loop :: "intrinsics \<Rightarrow> uint64 \<Rightarrow> bytes \<Rightarrow> uint64 \<times> bytes" where
  "sse16_loop hw l64 p =
     (if length p \<ge> 16 then
        (let l64 = mm_crc32_u64 hw l64 (memcpy_to (take 8 p));
             l64 = mm_crc32_u64 hw l64 (memcpy_to (take 8 (drop 8 p)))
         in sse16_loop hw l64 (drop 16 p))
      else (l64, p))"

declare sse16_loop.simps [simp del]

definition AcceleratedExtend :: "intrinsics \<Rightarrow> nat \<Rightarrow> uint32 \<Rightarrow> bytes \<Rightarrow> uint32 option" where
  "AcceleratedExtend hw pval crc buf =
     (let e = pval + length buf;
          l = crc XOR 0xffffffff;
          x = push_bit 3 (drop_bit 3 (pval + 7))
      in Option.bind (if x \<le> e then sse1_loop hw (x - pval) (l, buf) else Some (l, buf)) (\<lambda>(l, p).
           (let (l64, p) = sse16_loop hw (ucast l) p
            in Option.bind (sse1_loop hw (length p) (ucast l64, p))
                 (\<lambda>(l, _). Some (l XOR 0xffffffff)))))"

text \<open>
  \<open>CanAccelerate\<close> is false without the instruction; \<open>accel\<close> holds the intrinsics of
  a processor that has it.
\<close>

definition ExtendCrc :: "bool \<Rightarrow> intrinsics option \<Rightarrow> nat \<Rightarrow> uint32 \<Rightarrow> bytes \<Rightarrow> uint32 option" where
  "ExtendCrc le accel pval crc buf =
     (case accel of Some hw \<Rightarrow> AcceleratedExtend hw pval crc buf
      | None \<Rightarrow> PortableExtend le pval crc buf)"

definition Value :: "bool \<Rightarrow> intrinsics option \<Rightarrow> nat \<Rightarrow> bytes \<Rightarrow> uint32 option" where
  "Value le accel pval buf = ExtendCrc le accel pval 0 buf"

definition kMaskDelta :: uint32 where "kMaskDelta = 0xa282ead8"

definition Mask :: "uint32 \<Rightarrow> uint32" where
  "Mask crc = (drop_bit 15 crc OR push_bit 17 crc) + kMaskDelta"

definition Unmask :: "uint32 \<Rightarrow> uint32" where
  "Unmask masked_crc =
     (let rot = masked_crc - kMaskDelta in drop_bit 17 rot OR push_bit 15 rot)"

section \<open>The reference: one bit at a time\<close>

text \<open>
  CRC-32C with the reflected Castagnoli polynomial: the register is shifted right and the
  polynomial is subtracted whenever a one falls out.
\<close>

definition crc_bit :: "uint32 \<Rightarrow> uint32" where
  "crc_bit l = drop_bit 1 l XOR (if odd l then 0x82f63b78 else 0)"

definition crc_byte :: "uint32 \<Rightarrow> byte \<Rightarrow> uint32" where
  "crc_byte l b = (crc_bit ^^ 8) (l XOR ucast b)"

definition crc32c :: "uint32 \<Rightarrow> bytes \<Rightarrow> uint32" where
  "crc32c crc bs = foldl crc_byte (crc XOR 0xffffffff) bs XOR 0xffffffff"

text \<open>The documented behaviour of the two instructions.\<close>

definition crc_instructions :: "intrinsics \<Rightarrow> bool" where
  "crc_instructions hw \<longleftrightarrow>
     (\<forall>l b. mm_crc32_u8 hw l b = crc_byte l b) \<and>
     (\<forall>l w. mm_crc32_u64 hw l w = ucast (foldl crc_byte (ucast l) (memcpy_from 8 w)))"

section \<open>Linearity\<close>

lemma crc_bit_xor: "crc_bit (x XOR y) = crc_bit x XOR crc_bit y"
  by (rule bit_word_eqI) (auto simp: crc_bit_def bit_simps even_xor_iff)

lemma crc_pow_xor: "(crc_bit ^^ n) (x XOR y) = (crc_bit ^^ n) x XOR (crc_bit ^^ n) y"
  by (induction n) (simp_all add: crc_bit_xor)

lemma crc_pow_shift: "take_bit n x = 0 \<Longrightarrow> (crc_bit ^^ n) x = drop_bit n x"
proof (induction n arbitrary: x)
  case (Suc n)
  have ev: "even x" using Suc.prems by (metis even_take_bit_eq even_zero nat.distinct(1))
  have "take_bit n (drop_bit 1 x) = drop_bit 1 (take_bit (Suc n) x)"
    by (simp add: take_bit_drop_bit)
  then have "(crc_bit ^^ n) (drop_bit 1 x) = drop_bit n (drop_bit 1 x)"
    using Suc by simp
  moreover have "crc_bit x = drop_bit 1 x" using ev by (simp add: crc_bit_def)
  ultimately show ?case
    by (simp add: funpow_Suc_right drop_bit_drop_bit del: funpow.simps)
qed simp

section \<open>The tables\<close>

text \<open>
  A table of a linear function is spanned by its values at the eight powers of two, so
  each table is checked with one XOR per entry.
\<close>

definition span :: "uint32 list \<Rightarrow> uint32 list" where
  "span bs = foldl (\<lambda>T b. T @ map (\<lambda>t. t XOR b) T) [0] bs"

lemma of_nat_add_power:
  "i < 2 ^ n \<Longrightarrow> (of_nat (i + 2 ^ n) :: uint32) = of_nat i XOR 2 ^ n"
proof -
  assume i: "i < 2 ^ n"
  have "i AND 2 ^ n = 0"
    using i by (simp add: and_exp_eq_0_iff_not_bit bit_iff_odd)
  then have "i + 2 ^ n = i XOR 2 ^ n" by (rule disjunctive_add_eq_xor)
  then show ?thesis
    by (simp add: of_nat_xor_eq)
qed

lemma span_linear:
  fixes g :: "uint32 \<Rightarrow> uint32"
  assumes lin: "\<And>x y. g (x XOR y) = g x XOR g y"
  shows "span (map (\<lambda>j. g (2 ^ j)) [0..<n]) = map (\<lambda>i. g (of_nat i)) [0..<2 ^ n]"
proof (induction n)
  case 0
  have "g 0 = 0" using lin [of 0 0] by simp
  then show ?case by (simp add: span_def)
next
  case (Suc n)
  have up: "[0..<2 ^ Suc n] = [0..<2 ^ n] @ map (\<lambda>i. i + 2 ^ n) [0..<2 ^ n]"
    by (simp add: map_add_upt mult_2 upt_add_eq_append [of 0 "2 ^ n" "2 ^ n"])
  have "span (map (\<lambda>j. g (2 ^ j)) [0..<Suc n]) =
      span (map (\<lambda>j. g (2 ^ j)) [0..<n]) @ map (\<lambda>t. t XOR g (2 ^ n)) (span (map (\<lambda>j. g (2 ^ j)) [0..<n]))"
    by (simp add: span_def)
  also have "\<dots> = map (\<lambda>i. g (of_nat i)) [0..<2 ^ Suc n]"
    unfolding Suc.IH up by (simp add: of_nat_add_power lin del: upt_Suc of_nat_add)
  finally show ?case .
qed

lemma table_spans:
  "table0 = span [0xf26b8303, 0xe13b70f7, 0xc79a971f, 0x8ad958cf, 0x105ec76f, 0x20bd8ede, 0x417b1dbc, 0x82f63b78]"
  "table1 = span [0x13a29877, 0x274530ee, 0x4e8a61dc, 0x9d14c3b8, 0x3fc5f181, 0x7f8be302, 0xff17c604, 0xfbc3faf9]"
  "table2 = span [0xa541927e, 0x4f6f520d, 0x9edea41a, 0x38513ec5, 0x70a27d8a, 0xe144fb14, 0xc76580d9, 0x8b277743]"
  "table3 = span [0xdd45aab8, 0xbf672381, 0x7b2231f3, 0xf64463e6, 0xe964b13d, 0xd725148b, 0xaba65fe7, 0x52a0c93f]"
  by (simp_all add: span_def table0_def table1_def table2_def table3_def)

lemma table_lookup:
  assumes "T = span (map (\<lambda>j. (crc_bit ^^ n) (2 ^ j)) [0..<8])" "x < 256"
  shows "T ! unat x = (crc_bit ^^ n) x"
proof -
  have "unat x < 2 ^ 8" using assms(2) by (simp add: word_less_nat_alt)
  moreover have "T = map (\<lambda>i. (crc_bit ^^ n) (of_nat i)) [0..<2 ^ 8]"
    unfolding assms(1) by (rule span_linear) (rule crc_pow_xor)
  ultimately show ?thesis by (simp del: upt_Suc)
qed

lemma crc_pow_eval:
  "(crc_bit ^^ numeral k) x = (crc_bit ^^ pred_numeral k) (crc_bit x)"
  "crc_bit (numeral m) = drop_bit 1 (numeral m) XOR (if odd (numeral m :: uint32) then 0x82f63b78 else 0)"
  "crc_bit 1 = 0x82f63b78"
  by (simp_all add: crc_bit_def numeral_eq_Suc funpow_Suc_right del: funpow.simps)

lemma table_entries:
  assumes "x < 256"
  shows "table0 ! unat x = (crc_bit ^^ 8) x" "table1 ! unat x = (crc_bit ^^ 16) x"
    "table2 ! unat x = (crc_bit ^^ 24) x" "table3 ! unat x = (crc_bit ^^ 32) x"
  by (rule table_lookup [OF _ assms]; simp add: table_spans upt_8 crc_pow_eval)+

section \<open>Steps\<close>

lemma xor_split_low:
  "l = push_bit n (drop_bit n l) XOR (take_bit n l :: uint32)"
  by (rule bit_word_eqI) (auto simp: bit_simps)

lemma and_ff: "(l AND 0xff :: uint32) = take_bit 8 l"
  by (simp add: take_bit_eq_mask mask_eq_exp_minus_1)

lemma take_bit_8_less: "(take_bit 8 x :: uint32) < 256"
proof -
  have "unat (take_bit 8 x) < 256" unfolding unsigned_take_bit_eq by (simp add: take_bit_eq_mod)
  then show ?thesis by (simp add: word_less_nat_alt)
qed

lemma drop_bit_24_less: "(drop_bit 24 x :: uint32) < 256"
proof -
  have "unat (drop_bit 24 x) < 256"
    using unsigned_less [of x, where 'a = nat] unfolding unsigned_drop_bit_eq
    by (simp add: drop_bit_eq_div take_bit_eq_mod)
  then show ?thesis by (simp add: word_less_nat_alt)
qed

lemma crc_pow_drop:
  "(crc_bit ^^ (n + m)) l = (crc_bit ^^ n) (drop_bit m l) XOR (crc_bit ^^ (n + m)) (take_bit m l)"
proof -
  have "(crc_bit ^^ (n + m)) l =
      (crc_bit ^^ (n + m)) (push_bit m (drop_bit m l)) XOR (crc_bit ^^ (n + m)) (take_bit m l)"
    by (subst xor_split_low [of l m]) (rule crc_pow_xor)
  moreover have "(crc_bit ^^ m) (push_bit m (drop_bit m l)) = drop_bit m (push_bit m (drop_bit m l))"
    by (rule crc_pow_shift) (simp add: take_bit_push_bit)
  moreover have "drop_bit m (push_bit m (drop_bit m l)) = drop_bit m l"
    by (rule bit_word_eqI) (auto simp: bit_simps dest: bit_imp_le_length)
  ultimately show ?thesis by (simp add: funpow_add)
qed

lemma STEP1_crc: "STEP1 (l, b # p) = Some (crc_byte l b, p)"
proof -
  have low: "(l AND 0xff) XOR ucast b = take_bit 8 (l XOR ucast b)"
    unfolding and_ff by (rule bit_word_eqI) (auto simp: bit_simps dest: bit_imp_le_length)
  have high: "drop_bit 8 l = drop_bit 8 (l XOR ucast b)"
    by (rule bit_word_eqI) (auto simp: bit_simps dest: bit_imp_le_length)
  have "table0 ! unat (take_bit 8 (l XOR ucast b)) XOR drop_bit 8 (l XOR ucast b) = crc_byte l b"
    using crc_pow_drop [of 0 8 "l XOR ucast b"]
    by (simp only: table_entries [OF take_bit_8_less] crc_byte_def xor.commute funpow_0 add_0)
  then show ?thesis unfolding STEP1.simps Let_def low high [symmetric] by simp
qed

text \<open>Up to four bytes at once: the checksum of a little-endian word.\<close>

lemma bit_memcpy_to: "bit (memcpy_to bs :: 'a::len word) n \<Longrightarrow> n < 8 * length bs"
proof (induction bs arbitrary: n)
  case (Cons b bs)
  then show ?case
    using Cons.IH [of "n - 8"] by (force simp: bit_simps dest: bit_imp_le_length)
qed simp

lemma crc_bytes_word:
  "length bs \<le> 4 \<Longrightarrow> foldl crc_byte l bs = (crc_bit ^^ (8 * length bs)) (l XOR memcpy_to bs)"
proof (induction bs arbitrary: l)
  case (Cons b bs)
  let ?M = "memcpy_to bs :: uint32"
  have M: "bit ?M n \<Longrightarrow> n < 24" for n
    using bit_memcpy_to [of bs n, where 'a = 32] Cons.prems by simp
  have p: "ucast b OR push_bit 8 ?M = ucast b XOR push_bit 8 ?M"
    by (rule bit_word_eqI) (auto simp: bit_simps dest: bit_imp_le_length)
  have "drop_bit 8 (push_bit 8 ?M) = ?M"
    by (rule bit_word_eqI) (auto simp: bit_simps dest: M)
  then have "(crc_bit ^^ 8) (push_bit 8 ?M) = ?M"
    by (subst crc_pow_shift) (simp_all add: take_bit_push_bit)
  then have "crc_byte l b XOR ?M = (crc_bit ^^ 8) (l XOR (ucast b XOR push_bit 8 ?M))"
    by (simp add: crc_byte_def crc_pow_xor xor.assoc)
  moreover have "foldl crc_byte (crc_byte l b) bs = (crc_bit ^^ (8 * length bs)) (crc_byte l b XOR ?M)"
    using Cons by simp
  moreover have "(crc_bit ^^ (8 * length bs)) ((crc_bit ^^ 8) x) = (crc_bit ^^ (8 * length (b # bs))) x" for x
    by (simp add: funpow_add add.commute [of 8])
  ultimately show ?case by (simp only: foldl_Cons memcpy_to.simps p)
qed simp

lemma STEP4_crc:
  assumes "4 \<le> length p"
  shows "STEP4 le (l, p) = Some (foldl crc_byte l (take 4 p), drop 4 p)"
proof -
  have load: "LE_LOAD32 le p = Some (memcpy_to (take 4 p))"
    using assms DecodeFixed_endian(2) [of p]
    by (cases le) (simp_all only: LE_LOAD32_def DecodeFixed32_def if_True not_less [symmetric] if_False)
  let ?c = "l XOR memcpy_to (take 4 p)"
  have "(crc_bit ^^ 32) ?c = (crc_bit ^^ 32) (take_bit 8 ?c) XOR (crc_bit ^^ 24) (take_bit 8 (drop_bit 8 ?c)) XOR
      (crc_bit ^^ 16) (take_bit 8 (drop_bit 16 ?c)) XOR (crc_bit ^^ 8) (drop_bit 24 ?c)"
    using crc_pow_drop [of 24 8 ?c] crc_pow_drop [of 16 8 "drop_bit 8 ?c"] crc_pow_drop [of 8 8 "drop_bit 16 ?c"]
    by (simp add: drop_bit_drop_bit ac_simps)
  then show ?thesis using assms
    by (simp add: load Let_def and_ff table_entries take_bit_8_less drop_bit_24_less crc_bytes_word)
qed

section \<open>Loops\<close>

lemma step1_loop_crc:
  "n \<le> length p \<Longrightarrow> step1_loop n (l, p) = Some (foldl crc_byte l (take n p), drop n p)"
proof (induction n arbitrary: l p)
  case (Suc n)
  then obtain b q where "p = b # q" by (cases p) auto
  with Suc show ?case by (simp add: STEP1_crc del: STEP1.simps)
qed simp

lemma foldl_take_drop: "foldl f (foldl f l (take m p)) (take n (drop m p)) = foldl f l (take (m + n) p)"
  by (simp add: take_add)

lemma step4_loop_crc:
  "n = length p \<Longrightarrow> \<exists>k \<le> n. step4_loop le n (l, p) = Some (foldl crc_byte l (take k p), drop k p)"
proof (induction n arbitrary: l p rule: less_induct)
  case (less n)
  show ?case
  proof (cases "4 \<le> n")
    case True
    then have lt: "n - 4 < n" by linarith
    obtain k where k: "k \<le> n - 4" "step4_loop le (n - 4) (foldl crc_byte l (take 4 p), drop 4 p) =
        Some (foldl crc_byte (foldl crc_byte l (take 4 p)) (take k (drop 4 p)), drop k (drop 4 p))"
      using less.IH [OF lt, of "drop 4 p" "foldl crc_byte l (take 4 p)"] less.prems by (auto simp del: drop_drop)
    have "step4_loop le n (l, p) = step4_loop le (n - 4) (foldl crc_byte l (take 4 p), drop 4 p)"
      using True less.prems by (subst step4_loop.simps) (simp add: STEP4_crc del: STEP4.simps)
    with k True show ?thesis
      by (intro exI [of _ "4 + k"]) (simp add: foldl_take_drop add.commute [of k])
  qed (intro exI [of _ 0], auto simp: step4_loop.simps)
qed

lemma step16_loop_crc:
  "n = length p \<Longrightarrow> \<exists>k \<le> n. step16_loop le n (l, p) = Some (foldl crc_byte l (take k p), drop k p)"
proof (induction n arbitrary: l p rule: less_induct)
  case (less n)
  show ?case
  proof (cases "16 \<le> n")
    case True
    then have lt: "n - 16 < n" by linarith
    obtain k where k: "k \<le> n - 16" "step16_loop le (n - 16) (foldl crc_byte l (take 16 p), drop 16 p) =
        Some (foldl crc_byte (foldl crc_byte l (take 16 p)) (take k (drop 16 p)), drop k (drop 16 p))"
      using less.IH [OF lt, of "drop 16 p" "foldl crc_byte l (take 16 p)"] less.prems by (auto simp del: drop_drop)
    have "step16_loop le n (l, p) = step16_loop le (n - 16) (foldl crc_byte l (take 16 p), drop 16 p)"
      using True less.prems
      by (subst step16_loop.simps) (simp add: STEP4_crc foldl_take_drop del: STEP4.simps)
    with k True show ?thesis
      by (intro exI [of _ "16 + k"]) (simp add: foldl_take_drop add.commute [of k])
  qed (intro exI [of _ 0], auto simp: step16_loop.simps)
qed

lemma PortableExtend_crc: "PortableExtend le pval crc buf = Some (crc32c crc buf)"
proof -
  let ?x = "push_bit 2 (drop_bit 2 (pval + 3))" and ?l = "crc XOR 0xffffffff"
  obtain i where i: "i \<le> length buf"
    "(if ?x \<le> pval + length buf then step1_loop (?x - pval) (?l, buf) else Some (?l, buf)) =
      Some (foldl crc_byte ?l (take i buf), drop i buf)"
    using step1_loop_crc [of "?x - pval" buf ?l]
    by (cases "?x \<le> pval + length buf") (auto intro: that [of 0] that [of "?x - pval"])
  obtain j where j: "j \<le> length (drop i buf)" "step16_loop le (length (drop i buf)) (foldl crc_byte ?l (take i buf), drop i buf) =
      Some (foldl crc_byte (foldl crc_byte ?l (take i buf)) (take j (drop i buf)), drop j (drop i buf))"
    using step16_loop_crc [OF refl] by blast
  let ?m = "i + j"
  obtain k where k: "k \<le> length (drop ?m buf)" "step4_loop le (length (drop ?m buf)) (foldl crc_byte ?l (take ?m buf), drop ?m buf) =
      Some (foldl crc_byte (foldl crc_byte ?l (take ?m buf)) (take k (drop ?m buf)), drop k (drop ?m buf))"
    using step4_loop_crc [OF refl] by blast
  have e: "step1_loop (length (drop (?m + k) buf)) (foldl crc_byte ?l (take (?m + k) buf), drop (?m + k) buf) =
      Some (foldl crc_byte ?l buf, [])"
    by (subst step1_loop_crc) (simp_all add: foldl_append [symmetric] del: foldl_append)
  show ?thesis
    using i(2) j(2) k(2) e
    by (simp add: PortableExtend_def crc32c_def Let_def foldl_take_drop add.commute [of j i] add.commute [of k] add.assoc)
qed

text \<open>The SSE4.2 loop, with the instructions behaving as documented.\<close>

lemma sse1_loop_crc:
  assumes "crc_instructions hw"
  shows "n \<le> length p \<Longrightarrow> sse1_loop hw n (l, p) = Some (foldl crc_byte l (take n p), drop n p)"
proof (induction n arbitrary: l p)
  case (Suc n)
  then obtain b q where "p = b # q" by (cases p) auto
  with Suc assms show ?case by (simp add: crc_instructions_def)
qed simp

lemma memcpy_from_to:
  "8 * length bs \<le> LENGTH('a) \<Longrightarrow> memcpy_from (length bs) (memcpy_to bs :: 'a::len word) = bs"
proof (induction bs)
  case (Cons b bs)
  have "drop_bit 8 (ucast b OR push_bit 8 (memcpy_to bs :: 'a word)) = memcpy_to bs"
    using Cons.prems by (intro bit_word_eqI) (auto simp: bit_simps dest: bit_memcpy_to bit_imp_le_length)
  moreover have "ucast (ucast b OR push_bit 8 (memcpy_to bs :: 'a word)) = b"
    using Cons.prems by (intro bit_word_eqI) (auto simp: bit_simps)
  ultimately show ?case using Cons by (simp add: memcpy_from_Suc)
qed (simp add: memcpy_from_def)

lemma memcpy_from_to_8: "length bs = 8 \<Longrightarrow> memcpy_from 8 (memcpy_to bs :: uint64) = bs"
  using memcpy_from_to [of bs, where 'a = 64] by simp

lemma ucast_32_64: "ucast (ucast l :: uint64) = (l :: uint32)"
  by (rule bit_word_eqI) (auto simp: bit_simps)

lemma sse16_loop_crc:
  assumes hw: "crc_instructions hw"
  shows "\<exists>k \<le> length p. sse16_loop hw (ucast (l :: uint32)) p = (ucast (foldl crc_byte l (take k p)), drop k p)"
proof (induction "length p" arbitrary: l p rule: less_induct)
  case less
  show ?case
  proof (cases "16 \<le> length p")
    case True
    let ?l = "foldl crc_byte l (take 16 p)"
    have lt: "length (drop 16 p) < length p" using True by simp
    obtain k where k: "k \<le> length p - 16"
      "sse16_loop hw (ucast ?l) (drop 16 p) = (ucast (foldl crc_byte ?l (take k (drop 16 p))), drop k (drop 16 p))"
      using less [OF lt, of ?l] by (auto simp del: drop_drop)
    have "sse16_loop hw (ucast l) p = sse16_loop hw (ucast ?l) (drop 16 p)"
      using True hw
      by (subst sse16_loop.simps) (simp add: crc_instructions_def memcpy_from_to_8 ucast_32_64 Let_def foldl_take_drop)
    with k True show ?thesis
      by (intro exI [of _ "16 + k"]) (simp add: foldl_take_drop add.commute [of k])
  qed (intro exI [of _ 0], auto simp: sse16_loop.simps)
qed

lemma AcceleratedExtend_crc:
  assumes "crc_instructions hw"
  shows "AcceleratedExtend hw pval crc buf = Some (crc32c crc buf)"
proof -
  let ?x = "push_bit 3 (drop_bit 3 (pval + 7))" and ?l = "crc XOR 0xffffffff"
  obtain i where i: "i \<le> length buf"
    "(if ?x \<le> pval + length buf then sse1_loop hw (?x - pval) (?l, buf) else Some (?l, buf)) =
      Some (foldl crc_byte ?l (take i buf), drop i buf)"
    using sse1_loop_crc [OF assms, of "?x - pval" buf ?l]
    by (cases "?x \<le> pval + length buf") (auto intro: that [of 0] that [of "?x - pval"])
  obtain j where j: "j \<le> length (drop i buf)" "sse16_loop hw (ucast (foldl crc_byte ?l (take i buf))) (drop i buf) =
      (ucast (foldl crc_byte (foldl crc_byte ?l (take i buf)) (take j (drop i buf))), drop j (drop i buf))"
    using sse16_loop_crc [OF assms] by blast
  have e: "sse1_loop hw (length (drop (i + j) buf)) (foldl crc_byte ?l (take (i + j) buf), drop (i + j) buf) =
      Some (foldl crc_byte ?l buf, [])"
    by (subst sse1_loop_crc [OF assms]) (simp_all add: foldl_append [symmetric] del: foldl_append)
  show ?thesis
    using i(2) j(2) e
    by (simp add: ucast_32_64 AcceleratedExtend_def crc32c_def Let_def foldl_take_drop add.commute [of j i] split_beta)
qed

definition accel_ok :: "intrinsics option \<Rightarrow> bool" where
  "accel_ok accel \<longleftrightarrow> (\<forall>hw. accel = Some hw \<longrightarrow> crc_instructions hw)"

lemma Extend_crc: "accel_ok accel \<Longrightarrow> ExtendCrc le accel pval crc buf = Some (crc32c crc buf)"
  by (auto simp: ExtendCrc_def accel_ok_def PortableExtend_crc AcceleratedExtend_crc split: option.split)

lemma crc32c_append: "crc32c crc (a @ b) = crc32c (crc32c crc a) b"
  by (simp add: crc32c_def xor.assoc)

lemma Unmask_Mask [simp]: "Unmask (Mask c) = c"
  unfolding Mask_def Unmask_def Let_def
  by (simp, rule bit_word_eqI) (auto simp: bit_simps dest: bit_imp_le_length intro: ccontr)

section \<open>Detected errors\<close>

lemma xor_cancel: "x XOR z = y XOR z \<longleftrightarrow> x = (y :: 'a::len word)" "z XOR x = z XOR y \<longleftrightarrow> x = y"
  by (auto simp: bit_eq_iff bit_simps)

lemma crc_bit_zero: "crc_bit d = 0 \<Longrightarrow> d = 0"
proof -
  assume z: "crc_bit d = 0"
  have "\<not> bit (crc_bit d) 31" using z by simp
  then have ev: "even d"
    by (auto simp: crc_bit_def bit_simps split: if_splits dest: bit_imp_le_length)
  then have "drop_bit 1 d = 0" using z by (simp add: crc_bit_def)
  moreover have "take_bit 1 d = 0" using ev by (simp add: take_bit_Suc even_iff_mod_2_eq_zero)
  ultimately show ?thesis using bits_ident [of 1 d] by simp
qed

lemma crc_bit_inj: "crc_bit x = crc_bit y \<Longrightarrow> x = y"
  using crc_bit_zero [of "x XOR y"] xor_cancel(1) [of x y y] by (simp add: crc_bit_xor)

lemma crc_pow_inj: "(crc_bit ^^ n) x = (crc_bit ^^ n) y \<Longrightarrow> x = y"
  by (induction n) (auto dest: crc_bit_inj)

lemma crc_byte_inj: "crc_byte l b = crc_byte l' b \<Longrightarrow> l = l'"
  unfolding crc_byte_def by (drule crc_pow_inj) (simp add: xor_cancel)

lemma crc_bytes_inj: "foldl crc_byte l bs = foldl crc_byte l' bs \<Longrightarrow> l = l'"
  by (induction bs arbitrary: l l') (auto dest: crc_byte_inj)

lemma crc32c_burst:
  assumes "length x = length y" "length x \<le> 4" "crc32c crc (a @ x @ z) = crc32c crc (a @ y @ z)"
  shows "x = y"
proof -
  let ?l = "foldl crc_byte (crc XOR 0xffffffff) a"
  have "foldl crc_byte (foldl crc_byte ?l x) z = foldl crc_byte (foldl crc_byte ?l y) z"
    using assms(3) unfolding crc32c_def foldl_append by (simp only: xor_cancel)
  then have "foldl crc_byte ?l x = foldl crc_byte ?l y" by (rule crc_bytes_inj)
  then have "?l XOR memcpy_to x = ?l XOR (memcpy_to y :: uint32)"
    using assms(1,2) crc_pow_inj by (simp add: crc_bytes_word)
  then have "memcpy_to x = (memcpy_to y :: uint32)" by (simp only: xor_cancel)
  then have "memcpy_from (length x) (memcpy_to x :: uint32) = memcpy_from (length y) (memcpy_to y :: uint32)"
    using assms(1) by (rule arg_cong2 [of _ _ _ _ memcpy_from, rotated])
  then show ?thesis using assms(1,2) by (subst (asm) (1 2) memcpy_from_to) simp_all
qed

text \<open>
  C37. The checksum does not depend on how it is computed: for every buffer, address and host,
  the table-driven code of \<open>Extend\<close> and, given that the two instructions do what their
  documentation says, the SSE4.2 code never read past the buffer and both return the bitwise
  CRC-32C; extending over a second buffer is the checksum of the concatenation; and
  \<open>Unmask\<close> undoes \<open>Mask\<close>.
\<close>

theorem Extend_crc32c:
  assumes "crc_instructions hw"
  shows "ExtendCrc le None pval crc buf = Some (crc32c crc buf) \<and>
    ExtendCrc le (Some hw) pval' crc buf = ExtendCrc le None pval crc buf \<and>
    Option.bind (ExtendCrc le None pval crc buf) (\<lambda>c. ExtendCrc le None q c rest) = ExtendCrc le None r crc (buf @ rest) \<and>
    Unmask (Mask crc) = crc"
  using assms by (simp add: Extend_crc accel_ok_def crc32c_append)

theorem Extend_crc32c_witness:
  "ExtendCrc True None 5 0 [0x31, 0x32, 0x33, 0x34, 0x35, 0x36, 0x37, 0x38, 0x39] = Some 0xe3069283"
proof -
  let ?hw = "\<lparr>mm_crc32_u8 = crc_byte,
    mm_crc32_u64 = \<lambda>l w. ucast (foldl crc_byte (ucast l) (memcpy_from 8 w))\<rparr>"
  let ?bs = "[0x31, 0x32, 0x33, 0x34, 0x35, 0x36, 0x37, 0x38, 0x39]"
  have hw: "crc_instructions ?hw" by (simp add: crc_instructions_def)
  have "ExtendCrc True None 5 0 ?bs = Some (crc32c 0 ?bs)"
    using Extend_crc32c [OF hw, of True 5 0 ?bs] by blast
  then show ?thesis by (simp add: crc32c_def crc_byte_def crc_pow_eval)
qed

end
