(* ===== verification/PosixFile.thy ===== *)
theory PosixFile
  imports Tf_Prelude
begin

text \<open>
  The file interfaces \<open>RandomAccessFile\<close> and \<open>WritableFile\<close> of
  \<^verbatim>\<open>core/platform/file_system.h\<close> as locales, and their implementation over
  \<open>pread\<close> and \<open>fwrite\<close> in
  \<^verbatim>\<open>core/platform/posix/posix_file_system.cc\<close>. The two system calls are arguments.
  \<open>pread k t off n\<close> is the \<open>t\<close>-th call made during the \<open>k\<close>-th \<open>Read\<close> of a file:
  it may transfer fewer bytes than asked for and it may be interrupted.
\<close>

section \<open>Interfaces\<close>

text \<open>
  \<open>read k off n\<close> is the status and the bytes of the \<open>k\<close>-th read, \<open>None\<close> if it never
  returns. What every file promises: a successful read has stored exactly the \<open>n\<close> bytes
  at the offset.
\<close>

type_synonym read_fun = "nat \<Rightarrow> uint64 \<Rightarrow> nat \<Rightarrow> (error_code option \<times> bytes) option"

locale random_access_file =
  fixes read :: read_fun and content :: bytes
  assumes read_ok_exact: "read k off n = Some (None, bs) \<Longrightarrow> 0 < n \<Longrightarrow>
      bs = take n (drop (unat off) content) \<and> length bs = n"
    and file_size: "length content < 2 ^ 63"

text \<open>A file whose device does not fail: reads return, and stop short only at its end.\<close>

locale reliable_file = random_access_file +
  assumes read_within: "unat off + n \<le> length content \<Longrightarrow> read k off n = Some (None, take n (drop (unat off) content))"
    and read_past: "length content < unat off + n \<Longrightarrow> 0 < n \<Longrightarrow> unat off < 2 ^ 63 \<Longrightarrow>
      read k off n = Some (Some OUT_OF_RANGE, drop (unat off) content)"

type_synonym 'f append_fun = "'f \<Rightarrow> bytes \<Rightarrow> error_code option \<times> 'f"

locale writable_file =
  fixes Append :: "'f append_fun" and contents :: "'f \<Rightarrow> bytes"
  assumes append_ok: "Append f data = (None, f') \<Longrightarrow> contents f' = contents f @ data"
    and append_prefix: "Append f data = (st, f') \<Longrightarrow> prefix (contents f) (contents f')"

section \<open>PosixRandomAccessFile\<close>

datatype pread_result = Transferred bytes | Interrupted | Failed error_code

type_synonym pread_fun = "nat \<Rightarrow> nat \<Rightarrow> int \<Rightarrow> nat \<Rightarrow> pread_result"

partial_function (option) Read_loop ::
    "(nat \<Rightarrow> int \<Rightarrow> nat \<Rightarrow> pread_result) \<Rightarrow> nat \<Rightarrow> uint64 \<Rightarrow> nat \<Rightarrow> bytes \<Rightarrow> (error_code option \<times> bytes) option" where
  "Read_loop pread t offset n dst =
     (if n > 0 then
        (case pread t (sint offset) n of
           Transferred bs \<Rightarrow>
             (if bs \<noteq> [] then Read_loop pread (Suc t) (offset + of_nat (length bs)) (n - length bs) (dst @ bs)
              else Some (Some OUT_OF_RANGE, dst))
         | Interrupted \<Rightarrow> Read_loop pread (Suc t) offset n dst
         | Failed e \<Rightarrow> Some (Some e, dst))
      else Some (None, dst))"

definition Read :: "pread_fun \<Rightarrow> read_fun" where
  "Read pread k offset n = Read_loop (pread k) 0 offset n []"

text \<open>
  What POSIX says of \<open>pread\<close> on a regular file: the bytes transferred are the next
  bytes of the file, at most \<open>n\<close> of them, and none only at or after the end of the file.
  A device without errors neither fails nor is interrupted for ever.
\<close>

definition pread_regular :: "bytes \<Rightarrow> pread_fun \<Rightarrow> bool" where
  "pread_regular content pread \<longleftrightarrow> length content < 2 ^ 63 \<and>
     (\<forall>k t off n bs. 0 < n \<longrightarrow> pread k t off n = Transferred bs \<longrightarrow>
        0 \<le> off \<and> prefix bs (take n (drop (nat off) content)) \<and> (bs = [] \<longrightarrow> length content \<le> nat off))"

definition pread_reliable :: "pread_fun \<Rightarrow> bool" where
  "pread_reliable pread \<longleftrightarrow>
     (\<forall>k t off n. 0 \<le> off \<longrightarrow> (\<forall>e. pread k t off n \<noteq> Failed e)) \<and>
     (\<forall>k t off n. \<exists>t' \<ge> t. pread k t' off n \<noteq> Interrupted)"

section \<open>PosixWritableFile\<close>

text \<open>
  The stream is the list of bytes handed to it so far; \<open>fwrite\<close> tells how many of the
  bytes it took, and \<open>errno\<close> (as an error code) after a short count.
\<close>

definition posix_Append :: "(bytes \<Rightarrow> bytes \<Rightarrow> nat \<times> error_code) \<Rightarrow> bytes append_fun" where
  "posix_Append fwrite f data =
     (let (r, errno) = fwrite f data; f' = f @ take r data
      in if r \<noteq> length data then (Some errno, f') else (None, f'))"

interpretation posix_writable: writable_file "posix_Append fwrite" "\<lambda>f. f"
  by unfold_locales (auto simp: posix_Append_def Let_def split: prod.splits if_splits)

section \<open>The read loop\<close>

lemma sint_offset: "0 \<le> sint (off :: uint64) \<Longrightarrow> sint off = int (unat off)"
  using uint_bounded [of off] by (auto simp: sint_uint64 split: if_splits)

lemma sint_offset_small: "unat (off :: uint64) < 2 ^ 63 \<Longrightarrow> sint off = int (unat off)"
proof -
  assume "unat off < 2 ^ 63"
  then have "int (unat off) < int (2 ^ 63)" by (simp only: of_nat_less_iff)
  then have "uint off < 2 ^ 63" by simp
  then show ?thesis by (simp add: sint_uint64)
qed

text \<open>A transfer of some bytes advances the offset inside the file.\<close>

lemma pread_step:
  fixes off :: uint64
  assumes "pread_regular content pread" "pread k t (sint off) n = Transferred bs" "0 < n"
  shows "prefix bs (take n (drop (unat off) content))"
    and "bs = [] \<Longrightarrow> length content \<le> unat off"
    and "bs \<noteq> [] \<Longrightarrow> unat (off + of_nat (length bs)) = unat off + length bs"
    and "unat off < 2 ^ 63" "length bs \<le> n"
proof -
  have p: "0 \<le> sint off" "prefix bs (take n (drop (nat (sint off)) content))"
    "bs = [] \<longrightarrow> length content \<le> nat (sint off)" "length content < 2 ^ 63"
    using assms unfolding pread_regular_def by blast+
  have s: "nat (sint off) = unat off" using sint_offset [OF p(1)] by simp
  have "sint off < 2 ^ 63" using sint_lt [of off] by simp
  then have "int (unat off) < int (2 ^ 63)" unfolding sint_offset [OF p(1)] by simp
  then show "unat off < 2 ^ 63" by (simp only: of_nat_less_iff)
  show pre: "prefix bs (take n (drop (unat off) content))" and "bs = [] \<Longrightarrow> length content \<le> unat off"
    using p s by simp_all
  have len: "length bs \<le> length (take n (drop (unat off) content))"
    using pre by (rule prefix_length_le)
  then show "length bs \<le> n" by simp
  show "unat (off + of_nat (length bs)) = unat off + length bs" if "bs \<noteq> []"
  proof -
    have "0 < length bs" using that by simp
    then have "unat off + length bs < 2 ^ 63" using len p(4) unfolding length_take length_drop by linarith
    then show ?thesis by (simp add: unat_word_ariths unat_of_nat take_bit_nat_eq_self)
  qed
qed

lemma take_prefix_drop:
  assumes "prefix bs (take n xs)"
  shows "take n xs = bs @ take (n - length bs) (drop (length bs) xs)"
proof -
  obtain zs where zs: "take n xs = bs @ zs" using assms by (auto elim: prefixE)
  then have "drop (length bs) (take n xs) = zs" by simp
  then have "zs = take (n - length bs) (drop (length bs) xs)" by (simp add: drop_take)
  with zs show ?thesis by simp
qed

lemma Read_loop_ok:
  assumes "Read_loop pr t off n dst = Some r" "pr = pread k" "fst r = None" "pread_regular content pread"
  shows "snd r = dst @ take n (drop (unat off) content) \<and> length (snd r) = length dst + n"
  using assms(2-)
proof (induction pr t off n dst r rule: Read_loop.raw_induct)
  case (1 rec pr t off n dst r)
  have pr: "pr = pread k" and ok: "fst r = None" and reg: "pread_regular content pread"
    using 1 by blast+
  note step = 1(2) and IH = 1(1) [OF _ pr ok reg]
  show ?case
  proof (cases "n = 0")
    case False
    then have n: "0 < n" by simp
    show ?thesis
    proof (cases "pr t (sint off) n")
      case (Transferred cs)
      note p = pread_step [OF reg Transferred [unfolded pr] n]
      have ne: "cs \<noteq> []" using step ok n Transferred by auto
      then have "rec pr (Suc t) (off + of_nat (length cs)) (n - length cs) (dst @ cs) = Some r"
        using step n Transferred by simp
      note r = IH [OF this, unfolded p(3) [OF ne]]
      have "take n (drop (unat off) content) = cs @ take (n - length cs) (drop (unat off + length cs) content)"
        using take_prefix_drop [OF p(1)] by (simp add: add.commute)
      then have "snd r = dst @ take n (drop (unat off) content)" using r by simp
      moreover have "length (snd r) = length (dst @ cs) + (n - length cs)" using r by blast
      then have "length (snd r) = length dst + n" using p(5) by simp
      ultimately show ?thesis by blast
    next
      case Interrupted
      then have "rec pr (Suc t) off n dst = Some r" using step n by simp
      then show ?thesis by (rule IH)
    qed (use step ok n in auto)
  qed (use step in auto)
qed (fact assms(1))

lemma Read_loop_interrupted:
  assumes "\<forall>u. t \<le> u \<and> u < t' \<longrightarrow> pr u (sint off) n = Interrupted" "t \<le> t'" "0 < n"
  shows "Read_loop pr t off n dst = Read_loop pr t' off n dst"
  using assms
proof (induction "t' - t" arbitrary: t)
  case (Suc d)
  have "Read_loop pr t off n dst = Read_loop pr (Suc t) off n dst"
    using Suc.prems Suc.hyps(2) by (subst Read_loop.simps) simp
  also have "\<dots> = Read_loop pr t' off n dst"
    using Suc.prems Suc.hyps(2) by (intro Suc.hyps(1)) auto
  finally show ?case .
qed simp

lemma Read_loop_returns:
  assumes reg: "pread_regular content pread" and rel: "pread_reliable pread"
  shows "0 < n \<longrightarrow> unat off < 2 ^ 63 \<Longrightarrow> Read_loop (pread k) t off n dst =
    Some (if 0 < n \<and> length content < unat off + n then Some OUT_OF_RANGE else None,
          dst @ take n (drop (unat off) content))"
proof (induction n arbitrary: t off dst rule: less_induct)
  case (less n)
  show ?case
  proof (cases "n = 0")
    case False
    then have n: "0 < n" and off: "unat off < 2 ^ 63" using less.prems by simp_all
    let ?P = "\<lambda>u. t \<le> u \<and> pread k u (sint off) n \<noteq> Interrupted"
    have ex: "\<exists>u. ?P u" using rel unfolding pread_reliable_def by blast
    define u where "u = Least ?P"
    have u: "t \<le> u" "pread k u (sint off) n \<noteq> Interrupted" using LeastI_ex [OF ex] unfolding u_def by blast+
    have before: "\<forall>v. t \<le> v \<and> v < u \<longrightarrow> pread k v (sint off) n = Interrupted"
      using not_less_Least [of _ ?P] unfolding u_def by blast
    have skip: "Read_loop (pread k) t off n dst = Read_loop (pread k) u off n dst"
      by (rule Read_loop_interrupted [where pr = "pread k", OF before u(1) n])
    have "0 \<le> sint off" using sint_offset_small [OF off] by simp
    then obtain cs where cs: "pread k u (sint off) n = Transferred cs"
      using u(2) rel unfolding pread_reliable_def by (metis pread_result.exhaust)
    note p = pread_step [OF reg cs n]
    show ?thesis
    proof (cases "cs = []")
      case True
      then show ?thesis using p(2) n cs by (simp add: skip, subst Read_loop.simps) simp
    next
      case False
      have lt: "n - length cs < n" using False n by simp
      have "length cs \<le> length content - unat off" using prefix_length_le [OF p(1)] by simp
      then have le: "unat off + length cs \<le> length content" using False by (cases "unat off \<le> length content") auto
      have small: "0 < n - length cs \<longrightarrow> unat (off + of_nat (length cs)) < 2 ^ 63"
        using le reg unfolding p(3) [OF False] pread_regular_def by simp
      have "Read_loop (pread k) u off n dst =
          Read_loop (pread k) (Suc u) (off + of_nat (length cs)) (n - length cs) (dst @ cs)"
        using cs False n by (subst Read_loop.simps) simp
      also have "\<dots> = Some (if 0 < n - length cs \<and> length content < unat off + length cs + (n - length cs)
            then Some OUT_OF_RANGE else None,
          (dst @ cs) @ take (n - length cs) (drop (unat off + length cs) content))"
        using less.IH [OF lt small] unfolding p(3) [OF False] .
      also have "(dst @ cs) @ take (n - length cs) (drop (unat off + length cs) content) =
          dst @ take n (drop (unat off) content)"
        using take_prefix_drop [OF p(1)] by (simp add: add.commute)
      finally show ?thesis using skip p(5) le n by auto
    qed
  qed (subst Read_loop.simps, simp)
qed

section \<open>The Posix file implements the interface\<close>

locale posix_file =
  fixes pread :: pread_fun and content :: bytes
  assumes regular: "pread_regular content pread"

locale reliable_posix_file = posix_file +
  assumes reliable: "pread_reliable pread"

sublocale posix_file \<subseteq> random_access_file "Read pread" content
proof unfold_locales
  show "bs = take n (drop (unat off) content) \<and> length bs = n"
    if "Read pread k off n = Some (None, bs)" for k off n bs
    using Read_loop_ok [OF that [unfolded Read_def] refl fst_conv regular, unfolded snd_conv append_Nil list.size add_0] .
  show "length content < 2 ^ 63" using regular by (simp add: pread_regular_def)
qed

sublocale reliable_posix_file \<subseteq> reliable_file "Read pread" content
proof unfold_locales
  show "Read pread k off n = Some (None, take n (drop (unat off) content))"
    if "unat off + n \<le> length content" for k off n
    using that regular Read_loop_returns [OF regular reliable, of n off k 0 "[]"]
    by (simp add: Read_def pread_regular_def)
  show "Read pread k off n = Some (Some OUT_OF_RANGE, drop (unat off) content)"
    if "length content < unat off + n" "0 < n" "unat off < 2 ^ 63" for k off n
    using that Read_loop_returns [OF regular reliable, of n off k 0 "[]"] by (simp add: Read_def)
qed

text \<open>
  A \<open>pread\<close> that satisfies the hypotheses in an unfriendly way: every second call is
  interrupted and the others transfer at most three bytes.
\<close>

definition slow_pread :: "bytes \<Rightarrow> pread_fun" where
  "slow_pread content k t off n =
     (if off < 0 then Failed INVALID_ARGUMENT
      else if even t then Interrupted else Transferred (take (min 3 n) (drop (nat off) content)))"

lemma slow_pread_regular:
  assumes "length content < 2 ^ 63"
  shows "pread_regular content (slow_pread content)"
proof -
  have "prefix (take (min 3 n) xs) (take n xs)" for n and xs :: bytes
    by (metis min.commute take_is_prefix take_take)
  moreover have "take (min 3 n) xs = [] \<longleftrightarrow> n = 0 \<or> xs = []" for n and xs :: bytes by auto
  ultimately show ?thesis
    using assms by (auto simp: pread_regular_def slow_pread_def split: if_splits)
qed

lemma slow_pread_reliable: "pread_reliable (slow_pread content)"
proof -
  have "\<exists>t' \<ge> t. slow_pread content k t' off n \<noteq> Interrupted" for k t off n
    by (rule exI [of _ "if even t then Suc t else t"]) (simp add: slow_pread_def)
  then show ?thesis by (simp add: pread_reliable_def) (simp add: slow_pread_def)
qed

text \<open>Both interfaces hold of a \<open>Read\<close> over it, for every content a file can have.\<close>

definition file_content :: "bytes \<Rightarrow> bytes" where
  "file_content bs = take (2 ^ 63 - 1) bs"

interpretation slow: reliable_posix_file "slow_pread (file_content bs)" "file_content bs"
  by unfold_locales (simp_all add: slow_pread_regular slow_pread_reliable file_content_def)

end
