(* ===== verification/RecordIO.thy ===== *)
theory RecordIO
  imports Crc32c PosixFile "HOL-Library.Monad_Syntax"
begin

text \<open>
  Record files: \<open>RecordWriter\<close> and \<open>RecordReader\<close> of
  \<^verbatim>\<open>core/lib/io/record_writer.cc\<close> and \<^verbatim>\<open>record_reader.cc\<close> without
  compression. A record is its length, the masked checksum of the length, its bytes and
  their masked checksum. The client lemmas are proved against the file interfaces of
  \<open>PosixFile\<close> and then used for the Posix files. Memory allocation is taken to succeed.
\<close>

section \<open>Writer\<close>

text \<open>
  What the code depends on of the machine: byte order, the SSE4.2 instructions if there are
  any, and where a buffer lies in memory.
\<close>

record host =
  kLittleEndian :: bool
  sse42 :: "intrinsics option"
  address :: "bytes \<Rightarrow> nat"

definition crc_value :: "host \<Rightarrow> bytes \<Rightarrow> uint32 option" where
  "crc_value h data = Value (kLittleEndian h) (sse42 h) (address h data) data"

definition MaskedCrc :: "host \<Rightarrow> bytes \<Rightarrow> uint32 option" where
  "MaskedCrc h data = map_option Mask (crc_value h data)"

text \<open>\<open>TF_RETURN_IF_ERROR\<close> after each of the first two appends.\<close>

definition WriteRecord :: "host \<Rightarrow> 'f append_fun \<Rightarrow> 'f \<Rightarrow> bytes \<Rightarrow> (error_code option \<times> 'f) option" where
  "WriteRecord h Append dest data =
     do {
       let len = EncodeFixed64 (kLittleEndian h) (of_nat (length data));
       len_crc \<leftarrow> MaskedCrc h len;
       let header = len @ EncodeFixed32 (kLittleEndian h) len_crc;
       data_crc \<leftarrow> MaskedCrc h data;
       let footer = EncodeFixed32 (kLittleEndian h) data_crc;
       Some (case Append dest header of
               (Some e, f) \<Rightarrow> (Some e, f)
             | (None, f) \<Rightarrow> (case Append f data of
                               (Some e, f) \<Rightarrow> (Some e, f)
                             | (None, f) \<Rightarrow> Append f footer))
     }"

text \<open>A client that writes a list of records and stops at the first error.\<close>

primrec write_records :: "host \<Rightarrow> 'f append_fun \<Rightarrow> 'f \<Rightarrow> bytes list \<Rightarrow> (error_code option \<times> 'f) option" where
  "write_records h Append f [] = Some (None, f)"
| "write_records h Append f (d # ds) =
     (case WriteRecord h Append f d of
        None \<Rightarrow> None
      | Some (Some e, f') \<Rightarrow> Some (Some e, f')
      | Some (None, f') \<Rightarrow> write_records h Append f' ds)"

section \<open>Reader\<close>

text \<open>\<open>None\<close>: the file never answers, or bytes outside the buffer are read.\<close>

definition record_too_large :: "uint64 \<Rightarrow> bool" where
  "record_too_large n \<longleftrightarrow> n \<ge> (2 ^ 64 - 1) - 4"

definition ReadChecksummed :: "host \<Rightarrow> read_fun \<Rightarrow> nat \<Rightarrow> uint64 \<Rightarrow> uint64 \<Rightarrow> bytes status_or option" where
  "ReadChecksummed h read k offset n =
     (if record_too_large n then Some (Err DATA_LOSS)
      else
        (let expected = unat (n + 4)
         in do {
              (s, data) \<leftarrow> read k offset expected;
              case s of
                Some e \<Rightarrow> Some (Err e)
              | None \<Rightarrow>
                  if length data \<noteq> expected
                  then Some (Err (if data = [] then OUT_OF_RANGE else DATA_LOSS))
                  else do {
                    masked_crc \<leftarrow> DecodeFixed32 (kLittleEndian h) (drop (unat n) data);
                    crc \<leftarrow> crc_value h (take (unat n) data);
                    Some (if Unmask masked_crc \<noteq> crc then Err DATA_LOSS else Ok (take (unat n) data))
                  }
            }))"

definition ReadRecord :: "host \<Rightarrow> read_fun \<Rightarrow> uint64 \<Rightarrow> (uint64 \<times> bytes) status_or option" where
  "ReadRecord h read offset =
     do {
       s \<leftarrow> ReadChecksummed h read 0 offset 8;
       case s of
         Inl e \<Rightarrow> Some (Err e)
       | Inr lbuf \<Rightarrow>
           do {
             len \<leftarrow> DecodeFixed64 (kLittleEndian h) lbuf;
             s \<leftarrow> ReadChecksummed h read 1 (offset + 12) len;
             case s of
               Inl e \<Rightarrow> Some (Err (if e = OUT_OF_RANGE then DATA_LOSS else e))
             | Inr data \<Rightarrow> Some (Ok (offset + (12 + len + 4), data))
           }
     }"

section \<open>The format\<close>

definition crc_trailer :: "bytes \<Rightarrow> bytes" where
  "crc_trailer bs = memcpy_from 4 (Mask (crc32c 0 bs))"

definition record_header :: "bytes \<Rightarrow> bytes" where
  "record_header data = memcpy_from 8 (of_nat (length data) :: uint64)"

definition record_bytes :: "bytes \<Rightarrow> bytes" where
  "record_bytes data = record_header data @ crc_trailer (record_header data) @ data @ crc_trailer data"

abbreviation host_ok :: "host \<Rightarrow> bool" where
  "host_ok h \<equiv> accel_ok (sse42 h)"

lemma length_format [simp]: "length (crc_trailer bs) = 4" "length (record_header d) = 8"
  by (simp_all add: crc_trailer_def record_header_def)

lemma length_record_bytes [simp]: "length (record_bytes d) = 16 + length d"
  by (simp add: record_bytes_def)

lemma crc_value_eq: "host_ok h \<Longrightarrow> crc_value h bs = Some (crc32c 0 bs)"
  by (simp add: crc_value_def Value_def Extend_crc)

lemma MaskedCrc_eq: "host_ok h \<Longrightarrow> MaskedCrc h bs = Some (Mask (crc32c 0 bs))"
  by (simp add: MaskedCrc_def crc_value_eq)

lemma Mask_Unmask [simp]: "Mask (Unmask c) = c"
proof -
  have "drop_bit 15 (drop_bit 17 r OR push_bit 15 r) OR push_bit 17 (drop_bit 17 r OR push_bit 15 r) = r" for r :: uint32
    by (rule bit_word_eqI) (auto simp: bit_simps dest: bit_imp_le_length intro: ccontr)
  then show ?thesis by (simp add: Mask_def Unmask_def Let_def)
qed

text \<open>A stored checksum is accepted exactly when it is the one the writer stores.\<close>

lemma trailer_check:
  assumes "length t = 4"
  shows "Unmask (memcpy_to t) = crc32c 0 bs \<longleftrightarrow> t = crc_trailer bs"
proof -
  have "Unmask (memcpy_to t) = crc32c 0 bs \<longleftrightarrow> memcpy_to t = Mask (crc32c 0 bs)"
    by (metis Mask_Unmask Unmask_Mask)
  also have "\<dots> \<longleftrightarrow> t = crc_trailer bs"
    using assms memcpy_from_to [of t, where 'a = 32] memcpy_round_trip [of 4 "Mask (crc32c 0 bs)"]
    by (auto simp: crc_trailer_def take_bit_word_eq_self)
  finally show ?thesis .
qed

lemma trailer_inj: "crc_trailer x = crc_trailer y \<Longrightarrow> crc32c 0 x = crc32c 0 y"
  using trailer_check [of "crc_trailer x" x] trailer_check [of "crc_trailer x" y] by simp

lemma small_size: "\<not> record_too_large n \<Longrightarrow> unat (n + 4) = unat n + 4"
  by (simp add: record_too_large_def not_le word_less_nat_alt unat_word_ariths)

text \<open>The operations with the checksums evaluated.\<close>

lemma WriteRecord_eq:
  "host_ok h \<Longrightarrow> WriteRecord h Append f data =
     Some (case Append f (record_header data @ crc_trailer (record_header data)) of
             (Some e, f) \<Rightarrow> (Some e, f)
           | (None, f) \<Rightarrow> (case Append f data of
                             (Some e, f) \<Rightarrow> (Some e, f)
                           | (None, f) \<Rightarrow> Append f (crc_trailer data)))"
  unfolding record_header_def crc_trailer_def
  by (simp add: WriteRecord_def MaskedCrc_eq EncodeFixed_memcpy Let_def)

lemma ReadChecksummed_eq:
  assumes "host_ok h" "\<not> record_too_large n"
  shows "ReadChecksummed h read k off n =
     (case read k off (unat n + 4) of
        None \<Rightarrow> None
      | Some (Some e, _) \<Rightarrow> Some (Err e)
      | Some (None, bs) \<Rightarrow>
          Some (if length bs \<noteq> unat n + 4 then Err (if bs = [] then OUT_OF_RANGE else DATA_LOSS)
                else if drop (unat n) bs = crc_trailer (take (unat n) bs) then Ok (take (unat n) bs)
                else Err DATA_LOSS))"
proof -
  have c: "Unmask (memcpy_to (drop (unat n) bs)) = crc32c 0 (take (unat n) bs) \<longleftrightarrow>
      drop (unat n) bs = crc_trailer (take (unat n) bs)" if "length bs = unat n + 4" for bs
    by (rule trailer_check) (simp add: that)
  have d: "DecodeFixed32 (kLittleEndian h) (drop (unat n) bs) = Some (memcpy_to (drop (unat n) bs))"
    if "length bs = unat n + 4" for bs
    using that by (simp add: DecodeFixed_memcpy)
  have ok: "Option.bind (DecodeFixed32 (kLittleEndian h) (drop (unat n) bs)) (\<lambda>m.
        Some (if Unmask m \<noteq> crc32c 0 (take (unat n) bs) then Err DATA_LOSS else Ok (take (unat n) bs))) =
      Some (if drop (unat n) bs = crc_trailer (take (unat n) bs) then Ok (take (unat n) bs) else Err DATA_LOSS)"
    if "length bs = unat n + 4" for bs
    unfolding d [OF that] bind.bind_lunit c [OF that, symmetric] by simp
  show ?thesis
  proof (cases "\<exists>bs. read k off (unat n + 4) = Some (None, bs) \<and> length bs = unat n + 4")
    case True
    then obtain bs where bs: "read k off (unat n + 4) = Some (None, bs)" "length bs = unat n + 4" by blast
    show ?thesis
      using assms(2) unfolding ReadChecksummed_def small_size [OF assms(2)] Let_def crc_value_eq [OF assms(1)] bs(1)
      by (simp add: ok bs(2))
  next
    case False
    then show ?thesis
      using assms(2) unfolding ReadChecksummed_def small_size [OF assms(2)] Let_def
      by (auto split: option.split)
  qed
qed

lemma drop_split: "drop i xs = take n (drop i xs) @ drop (i + n) xs"
  using append_take_drop_id [of n "drop i xs"] by (simp add: add.commute)

section \<open>Writing to any file\<close>

context writable_file
begin

lemma WriteRecord_ok:
  assumes "host_ok h" "WriteRecord h Append f data = Some (None, f')"
  shows "contents f' = contents f @ record_bytes data"
  using assms(2) unfolding WriteRecord_eq [OF assms(1)]
  by (auto simp: record_bytes_def split: prod.splits option.splits dest!: append_ok)

lemma WriteRecord_prefix:
  assumes "host_ok h"
  shows "\<exists>st f'. WriteRecord h Append f data = Some (st, f') \<and> prefix (contents f) (contents f')"
proof -
  have step: "\<exists>st f'. Append f x = (st, f') \<and> prefix (contents f) (contents f')" for f x
    using append_prefix by (metis surj_pair)
  obtain st1 f1 where f1: "Append f (record_header data @ crc_trailer (record_header data)) = (st1, f1)"
    "prefix (contents f) (contents f1)" using step by blast
  obtain st2 f2 where f2: "Append f1 data = (st2, f2)" "prefix (contents f1) (contents f2)" using step by blast
  obtain st3 f3 where f3: "Append f2 (crc_trailer data) = (st3, f3)" "prefix (contents f2) (contents f3)"
    using step by blast
  have "prefix (contents f) (contents f2)" "prefix (contents f) (contents f3)"
    using f1(2) f2(2) f3(2) prefix_order.trans by blast+
  then show ?thesis
    unfolding WriteRecord_eq [OF assms] using f1 f2(1) f3(1) by (cases st1; cases st2) simp_all
qed

lemma write_records_ok:
  "host_ok h \<Longrightarrow> write_records h Append f ds = Some (None, f') \<Longrightarrow>
    contents f' = contents f @ concat (map record_bytes ds)"
  by (induction ds arbitrary: f)
    (auto dest: WriteRecord_ok split: option.splits prod.splits)

end

section \<open>Reading from any file\<close>

context random_access_file
begin

lemma ReadChecksummed_ok:
  assumes h: "host_ok h" and r: "ReadChecksummed h read k off n = Some (Inr d)"
  shows "length d = unat n \<and> take (unat n + 4) (drop (unat off) content) = d @ crc_trailer d"
proof -
  have small: "\<not> record_too_large n" using r by (auto simp: ReadChecksummed_def)
  obtain bs where bs: "read k off (unat n + 4) = Some (None, bs)" "length bs = unat n + 4"
    "d = take (unat n) bs" "drop (unat n) bs = crc_trailer d"
    using r unfolding ReadChecksummed_eq [OF h small]
    by (auto split: if_splits option.splits prod.splits)
  have "bs = d @ crc_trailer d" using bs(3,4) append_take_drop_id [of "unat n" bs] by simp
  then show ?thesis using read_ok_exact [OF bs(1)] bs(2,3) by simp
qed

lemma ReadRecord_ok:
  assumes h: "host_ok h" and r: "ReadRecord h read off = Some (Inr (off', d))"
  shows "\<exists>rest. drop (unat off) content = record_bytes d @ rest"
    and "unat off' = unat off + length (record_bytes d)"
proof -
  obtain lbuf len where l: "ReadChecksummed h read 0 off 8 = Some (Inr lbuf)"
    "DecodeFixed64 (kLittleEndian h) lbuf = Some len" "ReadChecksummed h read 1 (off + 12) len = Some (Inr d)"
    "off' = off + (12 + len + 4)"
    using r by (auto simp: ReadRecord_def split: bind_splits sum.splits)
  note c1 = ReadChecksummed_ok [OF h l(1)] and c2 = ReadChecksummed_ok [OF h l(3)]
  have lb: "length lbuf = 8" "take 12 (drop (unat off) content) = lbuf @ crc_trailer lbuf" using c1 by simp_all
  have "length (take 12 (drop (unat off) content)) = 12" unfolding lb(2) using lb(1) by simp
  then have in1: "unat off + 12 \<le> length content" by simp
  have "len = memcpy_to lbuf" using l(2) lb(1) by (simp add: DecodeFixed_memcpy)
  then have hd: "lbuf = record_header d"
    using lb(1) memcpy_from_to [of lbuf, where 'a = 64] c2 by (simp add: record_header_def)
  have off12: "unat (off + 12) = unat off + 12"
    using in1 file_size by (simp add: unat_word_ariths)
  have tl: "take (length d + 4) (drop (unat off + 12) content) = d @ crc_trailer d"
    using c2 unfolding off12 by simp
  have "drop (unat off) content = take 12 (drop (unat off) content) @ drop (unat off + 12) content"
    by (rule drop_split)
  also have "drop (unat off + 12) content = (d @ crc_trailer d) @ drop (unat off + 12 + (length d + 4)) content"
    unfolding tl [symmetric] by (rule drop_split)
  finally have all: "drop (unat off) content = record_bytes d @ drop (unat off + 12 + (length d + 4)) content"
    unfolding lb(2) hd record_bytes_def by simp
  then show "\<exists>rest. drop (unat off) content = record_bytes d @ rest" by blast
  have "length (drop (unat off) content) \<ge> 16 + length d" unfolding all by simp
  then have "unat off + (16 + unat len) < 2 ^ 63" using file_size c2 by simp
  then show "unat off' = unat off + length (record_bytes d)"
    using c2 unfolding l(4) by (simp add: unat_word_ariths)
qed

end

section \<open>Reading from a file that does not fail\<close>

context reliable_file
begin

lemma ReadChecksummed_within:
  assumes "host_ok h" "\<not> record_too_large n" "drop (unat off) content = d @ t @ rest" "length d = unat n" "length t = 4"
    "unat off \<le> length content"
  shows "ReadChecksummed h read k off n = Some (if t = crc_trailer d then Ok d else Err DATA_LOSS)"
proof -
  have "length (drop (unat off) content) = unat n + 4 + length rest" using assms(3-5) by simp
  then have "unat off + (unat n + 4) \<le> length content" using assms(6) by simp
  then have "read k off (unat n + 4) = Some (None, d @ t)"
    using assms(3-5) by (simp add: read_within)
  then show ?thesis
    unfolding ReadChecksummed_eq [OF assms(1,2)] using assms(4,5) by simp
qed

lemma ReadChecksummed_past:
  assumes "host_ok h" "length content < unat off + unat n + 4" "unat off < 2 ^ 63"
  shows "ReadChecksummed h read k off n = Some (Err (if record_too_large n then DATA_LOSS else OUT_OF_RANGE))"
proof (cases "record_too_large n")
  case False
  then show ?thesis
    unfolding ReadChecksummed_eq [OF assms(1) False] using assms(2,3) by (simp add: read_past)
qed (simp add: ReadChecksummed_def)

lemma small_len: "len < 2 ^ 63 \<Longrightarrow> \<not> record_too_large (of_nat len)" "len < 2 ^ 63 \<Longrightarrow> unat (of_nat len :: uint64) = len"
  by (simp_all add: record_too_large_def not_le word_less_nat_alt unat_of_nat take_bit_nat_eq_self)

text \<open>Behind an intact header the data decide.\<close>

lemma ReadRecord_header:
  assumes h: "host_ok h" and len: "length d < 2 ^ 63" and off: "unat off \<le> length content"
    and c: "drop (unat off) content = record_header d @ crc_trailer (record_header d) @ rest"
  shows "unat (off + 12) = unat off + 12" "drop (unat (off + 12)) content = rest" "unat (off + 12) \<le> length content"
    and "ReadRecord h read off =
      (case ReadChecksummed h read 1 (off + 12) (of_nat (length d)) of
         None \<Rightarrow> None
       | Some (Inl e) \<Rightarrow> Some (Err (if e = OUT_OF_RANGE then DATA_LOSS else e))
       | Some (Inr data) \<Rightarrow> Some (Ok (off + (16 + of_nat (length d)), data)))"
proof -
  have "length (drop (unat off) content) \<ge> 12" unfolding c by simp
  then have in12: "unat off + 12 \<le> length content" using off by simp
  then show off12: "unat (off + 12) = unat off + 12" using file_size by (simp add: unat_word_ariths)
  then show "unat (off + 12) \<le> length content" using in12 by simp
  have "drop 12 (drop (unat off) content) = rest" unfolding c by simp
  then show "drop (unat (off + 12)) content = rest" unfolding off12 by (simp add: add.commute)
  have "ReadChecksummed h read 0 off 8 = Some (Ok (record_header d))"
    using ReadChecksummed_within [OF h _ c, of 8] off by (simp add: record_too_large_def)
  moreover have "DecodeFixed64 (kLittleEndian h) (record_header d) = Some (of_nat (length d))"
    by (simp add: DecodeFixed_memcpy) (simp add: record_header_def memcpy_round_trip take_bit_word_eq_self)
  ultimately show "ReadRecord h read off =
      (case ReadChecksummed h read 1 (off + 12) (of_nat (length d)) of
         None \<Rightarrow> None
       | Some (Inl e) \<Rightarrow> Some (Err (if e = OUT_OF_RANGE then DATA_LOSS else e))
       | Some (Inr data) \<Rightarrow> Some (Ok (off + (16 + of_nat (length d)), data)))"
    by (simp add: ReadRecord_def split: option.split sum.split)
qed

lemma ReadRecord_data:
  assumes h: "host_ok h" and off: "unat off \<le> length content" and d: "length d = length d'"
    and c: "drop (unat off) content = record_header d @ crc_trailer (record_header d) @ d' @ t @ rest" and t: "length t = 4"
  shows "ReadRecord h read off =
    Some (if t = crc_trailer d' then Ok (off + (16 + of_nat (length d')), d') else Err DATA_LOSS)"
proof -
  have "length (drop (unat off) content) \<ge> length d" unfolding c using d by simp
  then have len: "length d < 2 ^ 63" using file_size by simp
  note H = ReadRecord_header [OF h len off c]
  have "ReadChecksummed h read 1 (off + 12) (of_nat (length d)) =
      Some (if t = crc_trailer d' then Ok d' else Err DATA_LOSS)"
    using ReadChecksummed_within [OF h _ H(2) _ t H(3)] small_len [OF len] d by simp
  then show ?thesis unfolding H(4) using d by (simp add: add.assoc)
qed

lemma ReadRecord_truncated:
  assumes h: "host_ok h" and off: "unat off \<le> length content" and d: "length d < 2 ^ 63"
    and c: "drop (unat off) content = take m (record_bytes d)" "m < length (record_bytes d)"
  shows "ReadRecord h read off = Some (Err (if m < 12 then OUT_OF_RANGE else DATA_LOSS))"
proof -
  have "length (drop (unat off) content) = m" using c by simp
  then have m: "length content = unat off + m" using off by simp
  show ?thesis
  proof (cases "m < 12")
    case True
    then have "ReadChecksummed h read 0 off 8 = Some (Err OUT_OF_RANGE)"
      using m file_size off by (subst ReadChecksummed_past [OF h]) (simp_all add: record_too_large_def)
    then show ?thesis using True by (simp add: ReadRecord_def)
  next
    case False
    then have c': "drop (unat off) content =
        record_header d @ crc_trailer (record_header d) @ take (m - 12) (d @ crc_trailer d)"
      using c(1) by (simp add: record_bytes_def)
    note H = ReadRecord_header [OF h d off c']
    have "ReadChecksummed h read 1 (off + 12) (of_nat (length d)) = Some (Err OUT_OF_RANGE)"
      using m c(2) False file_size small_len [OF d] H(3) unfolding H(1)
      by (subst ReadChecksummed_past [OF h]) (simp_all add: H(1))
    then show ?thesis unfolding H(4) using False by simp
  qed
qed

end

section \<open>Record files on Posix\<close>

context posix_file
begin

lemma posix_random_access: "random_access_file (Read pread) content"
  by unfold_locales

end

context reliable_posix_file
begin

lemma posix_reliable: "reliable_file (Read pread) content"
  by unfold_locales

end

lemma posix_file_interfaces:
  "pread_regular content pread \<Longrightarrow> random_access_file (Read pread) content"
  "pread_regular content pread \<Longrightarrow> pread_reliable pread \<Longrightarrow> reliable_file (Read pread) content"
  by (auto intro!: posix_file.posix_random_access reliable_posix_file.posix_reliable posix_file.intro
      reliable_posix_file.intro reliable_posix_file_axioms.intro)

definition record_offset :: "bytes list \<Rightarrow> nat \<Rightarrow> uint64" where
  "record_offset ds i = of_nat (length (concat (map record_bytes (take i ds))))"

lemma record_offset:
  assumes "length (concat (map record_bytes ds)) < 2 ^ 63"
  shows "unat (record_offset ds i) = length (concat (map record_bytes (take i ds)))"
    and "drop (unat (record_offset ds i)) (concat (map record_bytes ds)) = concat (map record_bytes (drop i ds))"
    and "i < length ds \<Longrightarrow> record_offset ds (Suc i) = record_offset ds i + (16 + of_nat (length (ds ! i)))"
proof -
  have split: "concat (map record_bytes ds) = concat (map record_bytes (take i ds)) @ concat (map record_bytes (drop i ds))"
    by (simp flip: concat_append map_append)
  then have "length (concat (map record_bytes (take i ds))) < 2 ^ 63"
    using assms by simp
  then show u: "unat (record_offset ds i) = length (concat (map record_bytes (take i ds)))"
    unfolding record_offset_def unat_of_nat by (simp add: take_bit_nat_eq_self)
  show "drop (unat (record_offset ds i)) (concat (map record_bytes ds)) = concat (map record_bytes (drop i ds))"
    unfolding u split by simp
  show "record_offset ds (Suc i) = record_offset ds i + (16 + of_nat (length (ds ! i)))" if "i < length ds"
    using that by (simp add: record_offset_def take_Suc_conv_app_nth)
qed

text \<open>
  C34. A record file reads back what was written: if every record was written successfully to
  an empty file (through \<open>fwrite\<close>), then reading the file sequentially through a
  \<open>pread\<close> that may transfer few bytes at a time and be interrupted returns each record
  at its offset with the offset of the next, and OUT_OF_RANGE after the last.
\<close>

theorem record_file_roundtrip:
  assumes h: "host_ok h" and w: "write_records h (posix_Append fwrite) [] ds = Some (None, content)"
    and p: "pread_regular content pread" "pread_reliable pread"
  shows "(\<forall>i < length ds. ReadRecord h (Read pread) (record_offset ds i) = Some (Ok (record_offset ds (Suc i), ds ! i))) \<and>
    ReadRecord h (Read pread) (record_offset ds (length ds)) = Some (Err OUT_OF_RANGE)"
proof
  have c: "content = concat (map record_bytes ds)" using posix_writable.write_records_ok [OF h w] by simp
  have small: "length (concat (map record_bytes ds)) < 2 ^ 63" using p(1) c by (simp add: pread_regular_def)
  note o = record_offset [OF small, folded c] and r = posix_file_interfaces(2) [OF p]
  have within: "unat (record_offset ds i) \<le> length content" for i
    unfolding o c by (metis append_take_drop_id concat_append le_add1 length_append map_append)
  show "\<forall>i < length ds. ReadRecord h (Read pread) (record_offset ds i) = Some (Ok (record_offset ds (Suc i), ds ! i))"
  proof (intro allI impI)
    fix i assume i: "i < length ds"
    have "drop (unat (record_offset ds i)) content = record_header (ds ! i) @ crc_trailer (record_header (ds ! i)) @
        ds ! i @ crc_trailer (ds ! i) @ concat (map record_bytes (drop (Suc i) ds))"
      unfolding o(2) using i by (simp add: Cons_nth_drop_Suc [symmetric] record_bytes_def)
    from reliable_file.ReadRecord_data [OF r h within refl this]
    show "ReadRecord h (Read pread) (record_offset ds i) = Some (Ok (record_offset ds (Suc i), ds ! i))"
      by (simp add: o(3) [OF i])
  qed
  have "drop (unat (record_offset ds (length ds))) content = take 0 (record_bytes [])" unfolding o(2) by simp
  from reliable_file.ReadRecord_truncated [OF r h within _ this]
  show "ReadRecord h (Read pread) (record_offset ds (length ds)) = Some (Err OUT_OF_RANGE)" by simp
qed

text \<open>
  C35. The reader returns only records that are in the file: whatever the device does (short
  transfers, interruptions, errors), a record that \<open>ReadRecord\<close> returns is stored at
  the offset in the format the writer uses, and the new offset is its end. A record whose data
  were altered within four consecutive bytes is reported as DATA_LOSS.
\<close>

theorem record_file_sound:
  assumes h: "host_ok h" and p: "pread_regular content pread"
  shows "(\<forall>off off' d. ReadRecord h (Read pread) off = Some (Ok (off', d)) \<longrightarrow>
      (\<exists>rest. drop (unat off) content = record_bytes d @ rest) \<and> unat off' = unat off + length (record_bytes d)) \<and>
    (\<forall>off x y a z rest. pread_reliable pread \<and> length x = length y \<and> length x \<le> 4 \<and> x \<noteq> y \<and> unat off \<le> length content \<and>
      drop (unat off) content = record_header (a @ x @ z) @ crc_trailer (record_header (a @ x @ z)) @
        (a @ y @ z) @ crc_trailer (a @ x @ z) @ rest \<longrightarrow>
      ReadRecord h (Read pread) off = Some (Err DATA_LOSS))"
proof (intro conjI allI impI; (elim conjE)?)
  fix off off' d
  assume "ReadRecord h (Read pread) off = Some (Ok (off', d))"
  note r = random_access_file.ReadRecord_ok [OF posix_file_interfaces(1) [OF p] h this]
  show "\<exists>rest. drop (unat off) content = record_bytes d @ rest" by (rule r)
  show "unat off' = unat off + length (record_bytes d)" by (rule r)
next
  fix off :: uint64 and x y a z rest :: bytes
  assume a: "pread_reliable pread" "length x = length y" "length x \<le> 4" "x \<noteq> y" "unat off \<le> length content"
    and c: "drop (unat off) content = record_header (a @ x @ z) @ crc_trailer (record_header (a @ x @ z)) @
        (a @ y @ z) @ crc_trailer (a @ x @ z) @ rest"
  have "crc_trailer (a @ x @ z) \<noteq> crc_trailer (a @ y @ z)"
    using crc32c_burst [OF a(2,3), of 0 a z] a(4) trailer_inj by blast
  then show "ReadRecord h (Read pread) off = Some (Err DATA_LOSS)"
    using reliable_file.ReadRecord_data [OF posix_file_interfaces(2) [OF p a(1)] h a(5) _ c] a(2) by simp
qed

text \<open>
  C36. A file that ends inside a record: if at least the header (12 bytes) is there, the reader
  reports DATA_LOSS; if the file was cut within the header it reports OUT_OF_RANGE, exactly
  as at a proper end of file, because \<open>Read\<close> already fails with that code before the
  test for a truncated record is reached.
\<close>

theorem record_file_truncated:
  assumes h: "host_ok h" and p: "pread_regular content pread" "pread_reliable pread"
    and c: "content = pre @ take m (record_bytes d)" "m < length (record_bytes d)" "length d < 2 ^ 63"
  shows "ReadRecord h (Read pread) (of_nat (length pre)) = Some (Err (if m < 12 then OUT_OF_RANGE else DATA_LOSS))"
proof -
  have "length pre < 2 ^ 63" using p(1) c(1) by (simp add: pread_regular_def)
  then have u: "unat (of_nat (length pre) :: uint64) = length pre" unfolding unat_of_nat by (simp add: take_bit_nat_eq_self)
  show ?thesis
    by (rule reliable_file.ReadRecord_truncated [OF posix_file_interfaces(2) [OF p] h _ c(3) _ c(2)])
      (simp_all add: u c(1))
qed

section \<open>A host and two records\<close>

definition host0 :: host where
  "host0 = \<lparr>kLittleEndian = True, sse42 = None, address = (\<lambda>_. 3)\<rparr>"

definition two_records :: bytes where
  "two_records = record_bytes [1, 2, 3, 4, 5] @ record_bytes [6]"

lemma host0_ok: "host_ok host0"
  by (simp add: host0_def accel_ok_def)

lemma slow_file_ok:
  "length content < 2 ^ 63 \<Longrightarrow> pread_regular content (slow_pread content) \<and> pread_reliable (slow_pread content)"
  by (simp add: slow_pread_regular slow_pread_reliable)

theorem record_file_roundtrip_witness:
  "ReadRecord host0 (Read (slow_pread two_records)) 21 = Some (Ok (38, [6])) \<and>
   ReadRecord host0 (Read (slow_pread two_records)) 38 = Some (Err OUT_OF_RANGE)"
proof -
  let ?ds = "[[1, 2, 3, 4, 5], [6]] :: bytes list" and ?fwrite = "\<lambda>f d. (length d, UNKNOWN)"
  have w: "write_records host0 (posix_Append ?fwrite) [] ?ds = Some (None, two_records)"
    by (simp add: WriteRecord_eq [OF host0_ok] posix_Append_def two_records_def record_bytes_def)
  have small: "length two_records < 2 ^ 63" by (simp add: two_records_def)
  have o: "record_offset ?ds 1 = 21" "record_offset ?ds 2 = 38" by (simp_all add: record_offset_def)
  from record_file_roundtrip [OF host0_ok w, of "slow_pread two_records"] slow_file_ok [OF small]
  show ?thesis using o by (force simp: numeral_2_eq_2)
qed

theorem record_file_sound_witness:
  "ReadRecord host0 (Read (slow_pread (record_header [1, 2] @ crc_trailer (record_header [1, 2]) @ [1, 3] @ crc_trailer [1, 2]))) 0 =
     Some (Err DATA_LOSS)"
proof -
  let ?c = "record_header [1, 2] @ crc_trailer (record_header [1, 2]) @ [1, 3] @ crc_trailer [1, 2]"
  have p: "pread_regular ?c (slow_pread ?c)" "pread_reliable (slow_pread ?c)" using slow_file_ok [of ?c] by simp_all
  have "pread_reliable (slow_pread ?c) \<and> length [2 :: byte] = length [3 :: byte] \<and> length [2 :: byte] \<le> 4 \<and> [2 :: byte] \<noteq> [3] \<and>
      unat (0 :: uint64) \<le> length ?c \<and> drop (unat (0 :: uint64)) ?c =
        record_header ([1] @ [2] @ []) @ crc_trailer (record_header ([1] @ [2] @ [])) @
        ([1] @ [3] @ []) @ crc_trailer ([1] @ [2] @ []) @ []"
    using p(2) by simp
  with record_file_sound [OF host0_ok p(1)] show ?thesis by blast
qed

theorem record_file_truncated_witness:
  "ReadRecord host0 (Read (slow_pread (take 7 (record_bytes [1, 2])))) 0 = Some (Err OUT_OF_RANGE) \<and>
   ReadRecord host0 (Read (slow_pread (take 15 (record_bytes [1, 2])))) 0 = Some (Err DATA_LOSS)"
proof -
  have c: "take m (record_bytes [1, 2]) = [] @ take m (record_bytes [1, 2])" for m by simp
  have p: "pread_regular (take m (record_bytes [1, 2])) (slow_pread (take m (record_bytes [1, 2])))" for m
    using slow_file_ok [of "take m (record_bytes [1, 2])"] by simp
  show ?thesis
    using record_file_truncated [OF host0_ok p slow_pread_reliable c, of 7]
      record_file_truncated [OF host0_ok p slow_pread_reliable c, of 15] by simp
qed

end
