(* ===== verification/TableBlock.thy ===== *)
theory TableBlock
  imports Coding "HOL-Library.Monad_Syntax"
begin

text \<open>
  Blocks of sorted tables: \<open>BlockBuilder\<close> of
  \<^verbatim>\<open>core/lib/io/block_builder.cc\<close> writes prefix-compressed key/value entries
  followed by the array of restart offsets, \<open>Block\<close> and its iterator in
  \<^verbatim>\<open>core/lib/io/block.cc\<close> search and enumerate them. Pointers into a block are
  offsets or the bytes from there on. \<open>None\<close> is a failed \<open>CHECK\<close>, an access
  outside the memory of the block, or a loop that never ends. Host byte order is the argument
  \<open>le\<close>.
\<close>

section \<open>BlockBuilder\<close>

record block_builder =
  buffer :: bytes
  restarts :: "uint32 list"
  counter :: int
  finished :: bool
  last_key :: bytes

definition new_BlockBuilder :: block_builder where
  "new_BlockBuilder = \<lparr>buffer = [], restarts = [0], counter = 0, finished = False, last_key = []\<rparr>"

definition Reset :: "block_builder \<Rightarrow> block_builder" where
  "Reset b = b\<lparr>buffer := [], restarts := [0], counter := 0, finished := False, last_key := []\<rparr>"

definition CurrentSizeEstimate :: "block_builder \<Rightarrow> nat" where
  "CurrentSizeEstimate b = length (buffer b) + length (restarts b) * 4 + 4"

definition uint32_max :: nat where "uint32_max = 2 ^ 32 - 1"

definition Finish :: "bool \<Rightarrow> block_builder \<Rightarrow> (block_builder \<times> bytes) option" where
  "Finish le b =
     (if length (restarts b) \<le> uint32_max then
        (let buf = fold (\<lambda>r buf. PutFixed32 le buf r) (restarts b) (buffer b);
             buf = PutFixed32 le buf (of_nat (length (restarts b)))
         in Some (b\<lparr>buffer := buf, finished := True\<rparr>, buf))
      else None)"

text \<open>The loop over the common prefix of the last key and the new one.\<close>

fun shared_prefix :: "bytes \<Rightarrow> bytes \<Rightarrow> nat" where
  "shared_prefix (a # as) (b # bs) = (if a = b then Suc (shared_prefix as bs) else 0)"
| "shared_prefix _ _ = 0"

definition Add :: "int \<Rightarrow> block_builder \<Rightarrow> bytes \<Rightarrow> bytes \<Rightarrow> block_builder option" where
  "Add block_restart_interval b key val =
     do {
       (shared, rs, cnt) \<leftarrow>
         (if counter b < block_restart_interval then Some (shared_prefix (last_key b) key, restarts b, counter b)
          else if length (buffer b) \<le> uint32_max then Some (0, restarts b @ [of_nat (length (buffer b))], 0)
          else None);
       let non_shared = length key - shared;
       if shared \<le> uint32_max \<and> non_shared \<le> uint32_max \<and> length val \<le> uint32_max then
         (let buf = PutVarint32 (buffer b) (of_nat shared);
              buf = PutVarint32 buf (of_nat non_shared);
              buf = PutVarint32 buf (of_nat (length val));
              buf = buf @ take non_shared (drop shared key);
              buf = buf @ take (unat (of_nat (length val) :: uint32)) val
          in Some (b\<lparr>buffer := buf, restarts := rs, counter := cnt + 1,
                     last_key := take shared (last_key b) @ take non_shared (drop shared key)\<rparr>))
       else None
     }"

section \<open>Block\<close>

record block =
  block_data :: bytes
  block_size :: nat
  restart_offset :: uint32

definition NumRestarts :: "bool \<Rightarrow> bytes \<Rightarrow> nat \<Rightarrow> uint32 option" where
  "NumRestarts le data sz = DecodeFixed32 le (drop (sz - 4) (take sz data))"

definition Block :: "bool \<Rightarrow> bytes \<Rightarrow> block option" where
  "Block le contents =
     (let sz = length contents; bad = \<lparr>block_data = contents, block_size = 0, restart_offset = 0\<rparr>
      in if sz < 4 then Some bad
         else do {
           n \<leftarrow> NumRestarts le contents sz;
           if unat n > (sz - 4) div 4 then Some bad
           else Some \<lparr>block_data = contents, block_size = sz, restart_offset = of_nat (sz - unat (1 + n) * 4)\<rparr>
         })"

definition DecodeEntry :: "bytes \<Rightarrow> (uint32 \<times> uint32 \<times> uint32 \<times> bytes) option" where
  "DecodeEntry p =
     (if length p < 3 then None
      else
        (let shared = ucast (p ! 0); non_shared = ucast (p ! 1); value_length = ucast (p ! 2)
         in do {
              (shared, non_shared, value_length, p) \<leftarrow>
                (if (shared OR non_shared OR value_length) < 128
                 then Some (shared, non_shared, value_length, drop 3 p)
                 else do {
                   (shared, p) \<leftarrow> GetVarint32Ptr p;
                   (non_shared, p) \<leftarrow> GetVarint32Ptr p;
                   (value_length, p) \<leftarrow> GetVarint32Ptr p;
                   Some (shared, non_shared, value_length, p)
                 });
              if (of_nat (length p) :: uint32) < non_shared + value_length then None
              else Some (shared, non_shared, value_length, p)
            }))"

section \<open>Block::Iter\<close>

text \<open>
  \<open>value_pos\<close> is the offset and length of \<open>value_\<close>, \<open>None\<close> for a null pointer.
\<close>

record iter =
  iter_data :: bytes
  restarts_at :: uint32
  num_restarts :: uint32
  current :: uint32
  restart_index :: uint32
  iter_key :: bytes
  value_pos :: "(nat \<times> nat) option"
  iter_status :: "error_code option"

definition Iter :: "bytes \<Rightarrow> uint32 \<Rightarrow> uint32 \<Rightarrow> iter" where
  "Iter data rs n =
     \<lparr>iter_data = data, restarts_at = rs, num_restarts = n, current = rs, restart_index = n,
      iter_key = [], value_pos = None, iter_status = None\<rparr>"

definition Valid :: "iter \<Rightarrow> bool" where
  "Valid it \<longleftrightarrow> current it < restarts_at it"

definition iter_value :: "iter \<Rightarrow> bytes" where
  "iter_value it = (case value_pos it of None \<Rightarrow> [] | Some (off, len) \<Rightarrow> take len (drop off (iter_data it)))"

definition NextEntryOffset :: "iter \<Rightarrow> uint32 option" where
  "NextEntryOffset it = map_option (\<lambda>(off, len). of_nat (off + len)) (value_pos it)"

definition GetRestartPoint :: "bool \<Rightarrow> iter \<Rightarrow> uint32 \<Rightarrow> uint32 option" where
  "GetRestartPoint le it index = DecodeFixed32 le (drop (unat (restarts_at it) + unat index * 4) (iter_data it))"

definition SeekToRestartPoint :: "bool \<Rightarrow> iter \<Rightarrow> uint32 \<Rightarrow> iter option" where
  "SeekToRestartPoint le it index =
     do {
       off \<leftarrow> GetRestartPoint le it index;
       Some (it\<lparr>iter_key := [], restart_index := index, value_pos := Some (unat off, 0)\<rparr>)
     }"

definition CorruptionError :: "iter \<Rightarrow> iter" where
  "CorruptionError it =
     it\<lparr>current := restarts_at it, restart_index := num_restarts it, iter_status := Some DATA_LOSS,
        iter_key := [], value_pos := None\<rparr>"

text \<open>The loop at the end of \<open>ParseNextKey\<close>.\<close>

partial_function (option) advance_restart :: "bool \<Rightarrow> iter \<Rightarrow> iter option" where
  "advance_restart le it =
     (if restart_index it + 1 < num_restarts it then
        do {
          r \<leftarrow> GetRestartPoint le it (restart_index it + 1);
          if r < current it then advance_restart le (it\<lparr>restart_index := restart_index it + 1\<rparr>) else Some it
        }
      else Some it)"

text \<open>The entry at an offset: what \<open>DecodeEntry\<close> returns, with the offset of the key delta.\<close>

definition entry_at :: "iter \<Rightarrow> uint32 \<Rightarrow> (uint32 \<times> uint32 \<times> uint32 \<times> nat) option" where
  "entry_at it off =
     map_option (\<lambda>(shared, non_shared, value_length, q).
         (shared, non_shared, value_length, unat (restarts_at it) - length q))
       (DecodeEntry (drop (unat off) (take (unat (restarts_at it)) (iter_data it))))"

definition ParseNextKey :: "bool \<Rightarrow> iter \<Rightarrow> (bool \<times> iter) option" where
  "ParseNextKey le it =
     do {
       cur \<leftarrow> NextEntryOffset it;
       let it = it\<lparr>current := cur\<rparr>;
       if restarts_at it \<le> cur
       then Some (False, it\<lparr>current := restarts_at it, restart_index := num_restarts it\<rparr>)
       else
         (case entry_at it cur of
            None \<Rightarrow> Some (False, CorruptionError it)
          | Some (shared, non_shared, value_length, p) \<Rightarrow>
              if length (iter_key it) < unat shared then Some (False, CorruptionError it)
              else if length (iter_data it) < p + unat non_shared + unat value_length then None
              else do {
                it \<leftarrow> advance_restart le
                  (it\<lparr>iter_key := take (unat shared) (iter_key it) @ take (unat non_shared) (drop p (iter_data it)),
                      value_pos := Some (p + unat non_shared, unat value_length)\<rparr>);
                Some (True, it)
              })
     }"

definition Next :: "bool \<Rightarrow> iter \<Rightarrow> iter option" where
  "Next le it = map_option snd (ParseNextKey le it)"

definition SeekToFirst :: "bool \<Rightarrow> iter \<Rightarrow> iter option" where
  "SeekToFirst le it =
     do {
       it \<leftarrow> SeekToRestartPoint le it 0;
       (_, it) \<leftarrow> ParseNextKey le it;
       Some it
     }"

text \<open>
  The binary search of \<open>Seek\<close>: \<open>Some None\<close> is the early return after a corrupt entry.
\<close>

partial_function (option) restart_search :: "bool \<Rightarrow> iter \<Rightarrow> bytes \<Rightarrow> uint32 \<Rightarrow> uint32 \<Rightarrow> uint32 option option" where
  "restart_search le it target left right =
     (if left < right then
        do {
          let mid = (left + right + 1) div 2;
          region_offset \<leftarrow> GetRestartPoint le it mid;
          (case entry_at it region_offset of
             None \<Rightarrow> Some None
           | Some (shared, non_shared, _, key_ptr) \<Rightarrow>
               if shared \<noteq> 0 then Some None
               else if length (iter_data it) < key_ptr + unat non_shared then None
               else if bless (take (unat non_shared) (drop key_ptr (iter_data it))) target
               then restart_search le it target mid right
               else restart_search le it target left (mid - 1))
        }
      else Some (Some left))"

partial_function (option) linear_search :: "bool \<Rightarrow> iter \<Rightarrow> bytes \<Rightarrow> iter option" where
  "linear_search le it target =
     do {
       (more, it) \<leftarrow> ParseNextKey le it;
       if \<not> more then Some it
       else if 0 \<le> compare (iter_key it) target then Some it
       else linear_search le it target
     }"

definition Seek :: "bool \<Rightarrow> iter \<Rightarrow> bytes \<Rightarrow> iter option" where
  "Seek le it target =
     do {
       r \<leftarrow> restart_search le it target 0 (num_restarts it - 1);
       (case r of
          None \<Rightarrow> Some (CorruptionError it)
        | Some left \<Rightarrow> do { it \<leftarrow> SeekToRestartPoint le it left; linear_search le it target })
     }"

datatype block_iterator = ErrorIterator error_code | EmptyIterator | BlockIterator iter

definition NewIterator :: "bool \<Rightarrow> block \<Rightarrow> block_iterator option" where
  "NewIterator le b =
     (if block_size b < 4 then Some (ErrorIterator DATA_LOSS)
      else do {
        n \<leftarrow> NumRestarts le (block_data b) (block_size b);
        Some (if n = 0 then EmptyIterator else BlockIterator (Iter (block_data b) (restart_offset b) n))
      })"

section \<open>Entries\<close>

definition entry_bytes :: "nat \<Rightarrow> bytes \<Rightarrow> bytes \<Rightarrow> bytes" where
  "entry_bytes sh k v =
     EncodeVarint32 (of_nat sh) @ EncodeVarint32 (of_nat (length k - sh)) @ EncodeVarint32 (of_nat (length v)) @
     drop sh k @ v"

text \<open>
  The fast path of \<open>DecodeEntry\<close> agrees with the general one: three bytes without the
  continuation bit are three varints.
\<close>

lemma or_less_128:
  assumes "(ucast (a :: byte) OR ucast b OR ucast c :: uint32) < 128"
  shows "(ucast a :: uint32) AND 128 = 0" "(ucast b :: uint32) AND 128 = 0" "(ucast c :: uint32) AND 128 = 0"
proof -
  have small: "\<not> bit x 7" if "x < 128" for x :: uint32
  proof -
    have "unat x div 2 ^ 7 = 0" using that by (simp add: word_less_nat_alt)
    then have "\<not> bit (unat x) 7" by (simp add: bit_iff_odd)
    then show ?thesis by (simp add: bit_simps)
  qed
  from small [OF assms] have "\<not> bit (ucast a OR ucast b OR ucast c :: uint32) 7" .
  then have "\<not> bit (ucast a :: uint32) 7" "\<not> bit (ucast b :: uint32) 7" "\<not> bit (ucast c :: uint32) 7"
    by (simp_all add: bit_or_iff)
  then show "(ucast a :: uint32) AND 128 = 0" "(ucast b :: uint32) AND 128 = 0" "(ucast c :: uint32) AND 128 = 0"
    by (simp_all only: and_128_iff not_False_eq_True)
qed

lemma DecodeEntry_varints:
  assumes "3 \<le> length p"
    and "GetVarint32Ptr p = Some (s, p1)" "GetVarint32Ptr p1 = Some (n, p2)" "GetVarint32Ptr p2 = Some (v, p3)"
  shows "DecodeEntry p = (if (of_nat (length p3) :: uint32) < n + v then None else Some (s, n, v, p3))"
proof -
  obtain a b c q where p: "p = a # b # c # q"
    using assms(1) by (metis Suc_le_length_iff numeral_3_eq_3)
  show ?thesis
  proof (cases "(ucast a OR ucast b OR ucast c :: uint32) < 128")
    case True
    note z = or_less_128 [OF True]
    have "s = ucast a" "p1 = b # c # q" using assms(2) z(1) by (simp_all add: p GetVarint32Ptr_def)
    moreover from this have "n = ucast b" "p2 = c # q" using assms(3) z(2) by (simp_all add: GetVarint32Ptr_def)
    moreover from this have "v = ucast c" "p3 = q" using assms(4) z(3) by (simp_all add: GetVarint32Ptr_def)
    ultimately show ?thesis using True by (simp add: DecodeEntry_def p)
  next
    case False
    then show ?thesis using assms(2-) by (simp add: DecodeEntry_def p)
  qed
qed

lemma EncodeVarint32_not_Nil: "EncodeVarint32 v \<noteq> []"
  by (simp add: EncodeVarint32_varint varint.simps [of "unat v"])

lemma DecodeEntry_lengths:
  "DecodeEntry (EncodeVarint32 s @ EncodeVarint32 n @ EncodeVarint32 v @ rest) =
     (if (of_nat (length rest) :: uint32) < n + v then None else Some (s, n, v, rest))"
proof -
  have "1 \<le> length (EncodeVarint32 x)" for x using EncodeVarint32_not_Nil [of x] by (cases "EncodeVarint32 x") auto
  then have "3 \<le> length (EncodeVarint32 a @ EncodeVarint32 b @ EncodeVarint32 c @ r)" for a b c r
    by (metis (no_types, opaque_lifting) add_mono length_append numeral_3_eq_3 One_nat_def Suc_1 add_Suc plus_1_eq_Suc trans_le_add1 add.assoc)
  then show ?thesis
    by (rule DecodeEntry_varints [OF _ varint32.get_put [OF TrueI] varint32.get_put [OF TrueI] varint32.get_put [OF TrueI]])
qed

lemma DecodeEntry_entry:
  assumes "sh \<le> length k" "sh \<le> uint32_max" "length k - sh \<le> uint32_max" "length v \<le> uint32_max"
    and "length (drop sh k @ v @ rest) \<le> uint32_max"
  shows "DecodeEntry (entry_bytes sh k v @ rest) =
    Some (of_nat sh, of_nat (length k - sh), of_nat (length v), drop sh k @ v @ rest)"
proof -
  let ?n = "of_nat (length k - sh) :: uint32" and ?v = "of_nat (length v) :: uint32"
  have u: "unat ?n = length k - sh" "unat ?v = length v" "unat (of_nat (length (drop sh k @ v @ rest)) :: uint32) = length (drop sh k @ v @ rest)"
    using assms unfolding unat_of_nat uint32_max_def by (simp_all add: take_bit_nat_eq_self)
  have "DecodeEntry (entry_bytes sh k v @ rest) =
      (if (of_nat (length (drop sh k @ v @ rest)) :: uint32) < ?n + ?v then None
       else Some (of_nat sh, ?n, ?v, drop sh k @ v @ rest))"
    unfolding entry_bytes_def append_assoc by (rule DecodeEntry_lengths)
  moreover have "\<not> (of_nat (length (drop sh k @ v @ rest)) :: uint32) < ?n + ?v"
  proof -
    have "unat (?n + ?v) \<le> unat ?n + unat ?v" unfolding unat_word_ariths by simp
    also have "\<dots> \<le> unat (of_nat (length (drop sh k @ v @ rest)) :: uint32)" unfolding u by simp
    finally show ?thesis by (simp add: word_less_nat_alt not_less)
  qed
  ultimately show ?thesis by simp
qed

section \<open>The builder\<close>

lemma shared_prefix_le: "shared_prefix a b \<le> length a" "shared_prefix a b \<le> length b"
  by (induction a b rule: shared_prefix.induct) auto

lemma shared_prefix_take: "take (shared_prefix a b) a = take (shared_prefix a b) b"
  by (induction a b rule: shared_prefix.induct) auto

text \<open>
  \<open>encodes prev buf kvs\<close>: \<open>buf\<close> consists of the entries of \<open>kvs\<close>, the first one
  compressed against the key \<open>prev\<close>.
\<close>

inductive encodes :: "bytes \<Rightarrow> bytes \<Rightarrow> (bytes \<times> bytes) list \<Rightarrow> bool" where
  encodes_Nil: "encodes prev [] []"
| encodes_Cons: "sh \<le> length prev \<Longrightarrow> sh \<le> length k \<Longrightarrow> take sh prev = take sh k \<Longrightarrow>
    sh \<le> uint32_max \<Longrightarrow> length k - sh \<le> uint32_max \<Longrightarrow> length v \<le> uint32_max \<Longrightarrow> encodes k buf kvs \<Longrightarrow>
    encodes prev (entry_bytes sh k v @ buf) ((k, v) # kvs)"

inductive_cases encodes_NilE: "encodes prev buf []"
inductive_cases encodes_ConsE: "encodes prev buf (kv # kvs)"

definition final_key :: "bytes \<Rightarrow> (bytes \<times> bytes) list \<Rightarrow> bytes" where
  "final_key prev kvs = (if kvs = [] then prev else fst (last kvs))"

lemma encodes_snoc:
  assumes "encodes prev buf kvs" "encodes (final_key prev kvs) e [(k, v)]"
  shows "encodes prev (buf @ e) (kvs @ [(k, v)])"
  using assms
proof (induction rule: encodes.induct)
  case (encodes_Cons sh prev k' v' buf kvs)
  then have "encodes k' (buf @ e) (kvs @ [(k, v)])" by (simp add: final_key_def split: if_splits)
  with encodes_Cons show ?case by (simp add: encodes.encodes_Cons)
qed (simp add: final_key_def)

definition restart_ok :: "bytes \<Rightarrow> (bytes \<times> bytes) list \<Rightarrow> nat \<Rightarrow> uint32 \<Rightarrow> nat \<Rightarrow> bool" where
  "restart_ok buf kvs j r i \<longleftrightarrow> unat r \<le> length buf \<and> i \<le> length kvs \<and> (0 < j \<longrightarrow> i < length kvs) \<and> (j = 0 \<longrightarrow> i = 0) \<and>
     encodes [] (drop (unat r) buf) (drop i kvs)"

definition builder_inv :: "block_builder \<Rightarrow> (bytes \<times> bytes) list \<Rightarrow> nat list \<Rightarrow> bool" where
  "builder_inv b kvs idx \<longleftrightarrow> encodes [] (buffer b) kvs \<and> last_key b = final_key [] kvs \<and>
     length idx = length (restarts b) \<and> idx \<noteq> [] \<and>
     (\<forall>j < length idx. restart_ok (buffer b) kvs j (restarts b ! j) (idx ! j))"

lemma builder_inv_new: "builder_inv new_BlockBuilder [] [0]"
  by (simp add: builder_inv_def new_BlockBuilder_def final_key_def restart_ok_def encodes_Nil)

lemma final_key_drop: "i < length kvs \<Longrightarrow> final_key [] (drop i kvs) = final_key [] kvs"
  by (auto simp: final_key_def)

lemma restart_ok_snoc:
  assumes "restart_ok buf kvs j r i" "encodes (final_key [] kvs) e [(k, v)]"
    and "i = length kvs \<Longrightarrow> encodes [] e [(k, v)]"
  shows "restart_ok (buf @ e) (kvs @ [(k, v)]) j r i"
proof (cases "i < length kvs")
  case True
  have "encodes [] (drop (unat r) buf @ e) (drop i kvs @ [(k, v)])"
    using assms(1,2) True by (intro encodes_snoc) (simp_all add: restart_ok_def final_key_drop)
  then show ?thesis using assms(1) True by (simp add: restart_ok_def)
next
  case False
  then have i: "i = length kvs" using assms(1) by (simp add: restart_ok_def)
  then have "drop (unat r) buf = []" using assms(1) by (auto simp: restart_ok_def elim: encodes_NilE)
  then show ?thesis using assms(1,3) i by (simp add: restart_ok_def)
qed

lemma Add_inv:
  assumes inv: "builder_inv b kvs idx" and add: "Add iv b k v = Some b'"
  shows "\<exists>idx'. builder_inv b' (kvs @ [(k, v)]) idx'"
proof -
  let ?new = "\<not> counter b < iv"
  define sh where "sh = (if ?new then 0 else shared_prefix (last_key b) k)"
  have b': "buffer b' = buffer b @ entry_bytes sh k v" "last_key b' = take sh (last_key b) @ drop sh k"
    "restarts b' = restarts b @ (if ?new then [of_nat (length (buffer b))] else [])"
    and sz: "sh \<le> uint32_max" "length k - sh \<le> uint32_max" "length v \<le> uint32_max" "?new \<Longrightarrow> length (buffer b) \<le> uint32_max"
    using add by (auto simp: Add_def sh_def entry_bytes_def PutVarint32_def Let_def uint32_max_def unat_of_nat take_bit_nat_eq_self
        split: if_splits)
  have lk: "last_key b = final_key [] kvs" using inv by (simp add: builder_inv_def)
  have sh: "sh \<le> length (last_key b)" "sh \<le> length k" "take sh (last_key b) = take sh k"
    by (simp_all add: sh_def shared_prefix_le shared_prefix_take)
  have one: "encodes p (entry_bytes sh k v) [(k, v)]" if "sh \<le> length p" "take sh p = take sh k" for p
    using encodes_Cons [OF that(1) sh(2) that(2) sz(1-3) encodes_Nil] by simp
  have e: "encodes (final_key [] kvs) (entry_bytes sh k v) [(k, v)]" using one sh unfolding lk by blast
  have old: "restart_ok (buffer b') (kvs @ [(k, v)]) j (restarts b ! j) (idx ! j)" if "j < length idx" for j
  proof -
    have r: "restart_ok (buffer b) kvs j (restarts b ! j) (idx ! j)" using inv that by (simp add: builder_inv_def)
    show ?thesis unfolding b'(1)
    proof (rule restart_ok_snoc [OF r e])
      assume "idx ! j = length kvs"
      then have "kvs = []" using r by (cases "j = 0") (auto simp: restart_ok_def)
      then have "sh = 0" using sh(1) lk by (simp add: final_key_def)
      then show "encodes [] (entry_bytes sh k v) [(k, v)]" by (intro one) simp_all
    qed
  qed
  have buf: "encodes [] (buffer b') (kvs @ [(k, v)])"
    unfolding b'(1) using inv e by (intro encodes_snoc) (simp_all add: builder_inv_def)
  have key: "last_key b' = final_key [] (kvs @ [(k, v)])"
    unfolding b'(2) sh(3) by (simp add: final_key_def)
  show ?thesis
  proof (cases ?new)
    case False
    then show ?thesis using inv buf key old b'(3) unfolding builder_inv_def by (intro exI [of _ idx]) simp
  next
    case True
    have u: "unat (of_nat (length (buffer b)) :: uint32) = length (buffer b)"
      using sz(4) True unfolding unat_of_nat uint32_max_def by (simp add: take_bit_nat_eq_self)
    have "encodes [] (entry_bytes sh k v) [(k, v)]" using True by (intro one) (simp_all add: sh_def)
    then have new: "restart_ok (buffer b') (kvs @ [(k, v)]) (length idx) (of_nat (length (buffer b))) (length kvs)"
      using inv by (auto simp: restart_ok_def u b'(1) builder_inv_def)
    have len: "length idx = length (restarts b)" using inv by (simp add: builder_inv_def)
    have "restart_ok (buffer b') (kvs @ [(k, v)]) j (restarts b' ! j) ((idx @ [length kvs]) ! j)" if "j < Suc (length idx)" for j
      using old new that True len by (cases "j = length idx") (simp_all add: b'(3) nth_append)
    then show ?thesis using inv buf key b'(3) True unfolding builder_inv_def by (intro exI [of _ "idx @ [length kvs]"]) simp
  qed
qed

fun add_all :: "int \<Rightarrow> block_builder \<Rightarrow> (bytes \<times> bytes) list \<Rightarrow> block_builder option" where
  "add_all iv b [] = Some b"
| "add_all iv b ((k, v) # kvs) = Option.bind (Add iv b k v) (\<lambda>b. add_all iv b kvs)"

lemma add_all_inv:
  "add_all iv b kvs = Some b' \<Longrightarrow> builder_inv b done idx \<Longrightarrow> \<exists>idx'. builder_inv b' (done @ kvs) idx'"
proof (induction kvs arbitrary: b "done" idx)
  case (Cons kv kvs)
  obtain k v where kv: "kv = (k, v)" by fastforce
  obtain b1 where b1: "Add iv b k v = Some b1" "add_all iv b1 kvs = Some b'"
    using Cons.prems(1) by (auto simp: kv split: bind_splits)
  then obtain idx1 where "builder_inv b1 (done @ [(k, v)]) idx1" using Add_inv [OF Cons.prems(2)] by blast
  from Cons.IH [OF b1(2) this] show ?case by (simp add: kv)
qed auto

section \<open>The iterator on a finished block\<close>

text \<open>The layout that \<open>Finish\<close> leaves: entries, restart offsets, their number.\<close>

definition layout :: "bool \<Rightarrow> bytes \<Rightarrow> bytes \<Rightarrow> uint32 list \<Rightarrow> bool" where
  "layout le data buf rs \<longleftrightarrow> length data \<le> uint32_max \<and> rs \<noteq> [] \<and>
     data = buf @ concat (map (EncodeFixed32 le) rs) @ EncodeFixed32 le (of_nat (length rs))"

lemma Finish_layout:
  assumes "Finish le b = Some (b', data)" "length data \<le> uint32_max" "restarts b \<noteq> []"
  shows "layout le data (buffer b) (restarts b)"
proof -
  have "fold (\<lambda>r buf. PutFixed32 le buf r) rs buf = buf @ concat (map (EncodeFixed32 le) rs)" for rs buf
    by (induction rs arbitrary: buf) (simp_all add: PutFixed32_def)
  then show ?thesis using assms by (auto simp: layout_def Finish_def PutFixed32_def Let_def split: if_splits)
qed

lemma length_restart_array: "length (concat (map (EncodeFixed32 le) rs)) = 4 * length rs"
  by (induction rs) simp_all

lemma layout_sizes:
  assumes "layout le data buf rs"
  shows "length data = length buf + 4 * length rs + 4" "unat (of_nat (length buf) :: uint32) = length buf"
    "unat (of_nat (length rs) :: uint32) = length rs" "length rs < 2 ^ 30" "length buf \<le> uint32_max"
proof -
  show d: "length data = length buf + 4 * length rs + 4"
    using assms by (simp add: layout_def length_restart_array)
  show "length rs < 2 ^ 30" "length buf \<le> uint32_max" using d assms by (simp_all add: layout_def uint32_max_def)
  then show "unat (of_nat (length buf) :: uint32) = length buf" "unat (of_nat (length rs) :: uint32) = length rs"
    unfolding unat_of_nat uint32_max_def by (simp_all add: take_bit_nat_eq_self)
qed

lemma NewIterator_layout:
  assumes "layout le data buf rs"
  shows "Option.bind (Block le data) (NewIterator le) =
    Some (BlockIterator (Iter data (of_nat (length buf)) (of_nat (length rs))))"
proof -
  note sz = layout_sizes [OF assms]
  have n: "NumRestarts le data (length data) = Some (of_nat (length rs))"
    unfolding NumRestarts_def using assms sz(1) DecodeFixed_EncodeFixed(2) [of le le "of_nat (length rs)" "[]"]
    by (simp add: layout_def length_restart_array)
  have one: "unat (1 + of_nat (length rs) :: uint32) = Suc (length rs)"
    using sz(3,4) by (simp add: unat_word_ariths)
  have "of_nat (length rs) \<noteq> (0 :: uint32)" using sz(3) assms by (auto simp: layout_def unat_eq_zero dest: arg_cong [of _ _ unat])
  then show ?thesis using sz n one by (simp add: Block_def NewIterator_def Let_def)
qed

text \<open>Iterators over this block.\<close>

definition over :: "bytes \<Rightarrow> bytes \<Rightarrow> uint32 list \<Rightarrow> iter \<Rightarrow> bool" where
  "over data buf rs it \<longleftrightarrow> iter_data it = data \<and> restarts_at it = of_nat (length buf) \<and>
     num_restarts it = of_nat (length rs) \<and> unat (restart_index it) \<le> length rs \<and> iter_status it = None"

lemma GetRestartPoint_layout:
  assumes "layout le data buf rs" "iter_data it = data" "restarts_at it = of_nat (length buf)" "unat j < length rs"
  shows "GetRestartPoint le it j = Some (rs ! unat j)"
proof -
  let ?E = "\<lambda>rs. concat (map (EncodeFixed32 le) rs)"
  have "rs = take (unat j) rs @ rs ! unat j # drop (Suc (unat j)) rs" using assms(4) by (rule id_take_nth_drop)
  then have "?E rs = ?E (take (unat j) rs) @ EncodeFixed32 le (rs ! unat j) @ ?E (drop (Suc (unat j)) rs)"
    by (metis concat.simps(2) concat_append list.simps(9) map_append)
  then have "data = (buf @ ?E (take (unat j) rs)) @ EncodeFixed32 le (rs ! unat j) @
      (?E (drop (Suc (unat j)) rs) @ EncodeFixed32 le (of_nat (length rs)))"
    using assms(1) by (simp add: layout_def)
  moreover have "length (buf @ ?E (take (unat j) rs)) = length buf + unat j * 4"
    using assms(4) by (simp only: length_append length_restart_array) simp
  ultimately have "drop (length buf + unat j * 4) data = EncodeFixed32 le (rs ! unat j) @
      (?E (drop (Suc (unat j)) rs) @ EncodeFixed32 le (of_nat (length rs)))"
    by (metis append_eq_conv_conj)
  then show ?thesis
    unfolding GetRestartPoint_def assms(2,3) layout_sizes(2) [OF assms(1)] by (simp only: DecodeFixed_EncodeFixed)
qed

text \<open>The restart index moves forward only and the loop ends.\<close>

lemma advance_restart_returns:
  assumes "layout le data buf rs" "over data buf rs it"
  shows "\<exists>ri. advance_restart le it = Some (it\<lparr>restart_index := ri\<rparr>) \<and> unat ri \<le> length rs"
  using assms(2)
proof (induction "length rs - unat (restart_index it)" arbitrary: it rule: less_induct)
  case less
  note o = less.prems [unfolded over_def] and sz = layout_sizes [OF assms(1)]
  show ?case
  proof (cases "restart_index it + 1 < num_restarts it")
    case True
    have "unat (restart_index it + 1) < length rs"
      using True o sz(3) by (simp add: word_less_nat_alt)
    moreover have u: "unat (restart_index it + 1) = Suc (unat (restart_index it))"
      using o sz(4) by (simp add: unat_word_ariths)
    ultimately have lt: "Suc (unat (restart_index it)) < length rs" by simp
    have g: "GetRestartPoint le it (restart_index it + 1) = Some (rs ! unat (restart_index it + 1))"
      using o u lt by (intro GetRestartPoint_layout [OF assms(1)]) simp_all
    show ?thesis
    proof (cases "rs ! unat (restart_index it + 1) < current it")
      case step: True
      let ?it = "it\<lparr>restart_index := restart_index it + 1\<rparr>"
      have "advance_restart le it = advance_restart le ?it"
        using True g step by (subst advance_restart.simps) simp
      moreover have "\<exists>ri. advance_restart le ?it = Some (?it\<lparr>restart_index := ri\<rparr>) \<and> unat ri \<le> length rs"
        using less.prems u lt by (intro less.hyps) (simp_all add: over_def)
      ultimately show ?thesis by auto
    next
      case False
      then have "advance_restart le it = Some it" using True g by (subst advance_restart.simps) simp
      then show ?thesis using o by (intro exI [of _ "restart_index it"]) simp
    qed
  next
    case False
    then have "advance_restart le it = Some it" by (subst advance_restart.simps) simp
    then show ?thesis using o by (intro exI [of _ "restart_index it"]) simp
  qed
qed

text \<open>
  \<open>cursor it i\<close>: the next entry to parse is number \<open>i\<close>.
\<close>

definition cursor :: "bytes \<Rightarrow> bytes \<Rightarrow> uint32 list \<Rightarrow> (bytes \<times> bytes) list \<Rightarrow> iter \<Rightarrow> nat \<Rightarrow> bool" where
  "cursor data buf rs kvs it i \<longleftrightarrow> over data buf rs it \<and> i \<le> length kvs \<and>
     (\<exists>off len. value_pos it = Some (off, len) \<and> off + len \<le> length buf \<and>
        encodes (iter_key it) (drop (off + len) buf) (drop i kvs))"

text \<open>\<open>stands it i\<close>: the iterator is valid and shows entry \<open>i\<close>.\<close>

definition stands :: "bytes \<Rightarrow> bytes \<Rightarrow> uint32 list \<Rightarrow> (bytes \<times> bytes) list \<Rightarrow> iter \<Rightarrow> nat \<Rightarrow> bool" where
  "stands data buf rs kvs it i \<longleftrightarrow> cursor data buf rs kvs it (Suc i) \<and> Valid it \<and> (iter_key it, iter_value it) = kvs ! i"

lemma entry_at_layout:
  assumes lay: "layout le data buf rs" and it: "iter_data it = data" "restarts_at it = of_nat (length buf)"
    and off: "unat off \<le> length buf" and enc: "encodes prev (drop (unat off) buf) ((k, v) # kvs)"
  obtains sh buf' where "drop (unat off) buf = entry_bytes sh k v @ buf'" "encodes k buf' kvs"
    "entry_at it off = Some (of_nat sh, of_nat (length k - sh), of_nat (length v), length buf - length (drop sh k @ v @ buf'))"
    "drop (length buf - length (drop sh k @ v @ buf')) buf = drop sh k @ v @ buf'"
    "sh \<le> length prev" "sh \<le> length k" "take sh prev = take sh k" "unat (of_nat sh :: uint32) = sh"
    "unat (of_nat (length k - sh) :: uint32) = length k - sh" "unat (of_nat (length v) :: uint32) = length v"
proof -
  from enc obtain sh buf' where e: "drop (unat off) buf = entry_bytes sh k v @ buf'" "encodes k buf' kvs"
    and sh: "sh \<le> length prev" "sh \<le> length k" "take sh prev = take sh k"
    and sz: "sh \<le> uint32_max" "length k - sh \<le> uint32_max" "length v \<le> uint32_max"
    by (auto elim!: encodes_ConsE)
  let ?q = "drop sh k @ v @ buf'"
  obtain hd where hd: "entry_bytes sh k v @ buf' = hd @ ?q" by (simp add: entry_bytes_def)
  have len: "length ?q \<le> length buf"
    using arg_cong [OF e(1), of length] unfolding hd by simp
  have "take (length buf) data = buf" using lay by (simp add: layout_def)
  then have "drop (unat off) (take (unat (restarts_at it)) (iter_data it)) = entry_bytes sh k v @ buf'"
    unfolding it layout_sizes(2) [OF lay] using e(1) by simp
  moreover have "length ?q \<le> uint32_max" using len layout_sizes(5) [OF lay] by simp
  ultimately have "entry_at it off = Some (of_nat sh, of_nat (length k - sh), of_nat (length v), length buf - length ?q)"
    unfolding entry_at_def it(2) layout_sizes(2) [OF lay] using DecodeEntry_entry [OF sh(2) sz] by simp
  moreover have "drop (length buf - length ?q) buf = ?q"
  proof -
    have "buf = (take (unat off) buf @ hd) @ ?q" using append_take_drop_id [of "unat off" buf] unfolding e(1) hd by simp
    then show ?thesis by (metis append_eq_conv_conj length_append diff_add_inverse2)
  qed
  moreover have "unat (of_nat x :: uint32) = x" if "x \<le> uint32_max" for x
    using that unfolding unat_of_nat uint32_max_def by (simp add: take_bit_nat_eq_self)
  ultimately show thesis using that e sh sz by blast
qed

lemma drop_append_le: "n \<le> length xs \<Longrightarrow> drop n xs = ys \<Longrightarrow> drop n (xs @ zs) = ys @ zs"
  by auto

lemma ParseNextKey_entry:
  assumes lay: "layout le data buf rs" and c: "cursor data buf rs kvs it i" and i: "i < length kvs"
  shows "\<exists>it'. ParseNextKey le it = Some (True, it') \<and> stands data buf rs kvs it' i"
proof -
  obtain off len where vp: "value_pos it = Some (off, len)" "off + len \<le> length buf"
    and enc: "encodes (iter_key it) (drop (off + len) buf) (drop i kvs)" and ov: "over data buf rs it"
    using c by (auto simp: cursor_def)
  obtain k v where kv: "kvs ! i = (k, v)" by fastforce
  define cur where "cur = (of_nat (off + len) :: uint32)"
  have u: "unat cur = off + len"
    using vp(2) layout_sizes(5) [OF lay] unfolding cur_def unat_of_nat uint32_max_def by (simp add: take_bit_nat_eq_self)
  have nxt: "NextEntryOffset it = Some cur" by (simp add: NextEntryOffset_def vp(1) cur_def)
  let ?it = "it\<lparr>current := cur\<rparr>"
  have "encodes (iter_key it) (drop (unat cur) buf) ((k, v) # drop (Suc i) kvs)"
    using enc i kv unfolding u by (simp add: Cons_nth_drop_Suc [symmetric])
  from entry_at_layout [OF lay _ _ _ this, of ?it] ov vp(2) u
  obtain sh buf' where e: "drop (unat cur) buf = entry_bytes sh k v @ buf'" "encodes k buf' (drop (Suc i) kvs)"
    and ea: "entry_at ?it cur = Some (of_nat sh, of_nat (length k - sh), of_nat (length v), length buf - length (drop sh k @ v @ buf'))"
    and q: "drop (length buf - length (drop sh k @ v @ buf')) buf = drop sh k @ v @ buf'"
    and sh: "sh \<le> length (iter_key it)" "sh \<le> length k" "take sh (iter_key it) = take sh k"
    and un: "unat (of_nat sh :: uint32) = sh" "unat (of_nat (length k - sh) :: uint32) = length k - sh" "unat (of_nat (length v) :: uint32) = length v"
    by (auto simp: over_def)
  define p where "p = length buf - length (drop sh k @ v @ buf')"
  note ea = ea [folded p_def] and q = q [folded p_def]
  have "drop (unat cur) buf \<noteq> []" unfolding e(1) by (simp add: entry_bytes_def EncodeVarint32_not_Nil)
  then have lt: "unat cur < length buf" by simp
  have len_q: "p + length (drop sh k @ v @ buf') = length buf"
    using arg_cong [OF q, of length] by (simp add: p_def)
  have p_le: "p \<le> length buf" by (simp add: p_def)
  have data: "drop p data = (drop sh k @ v @ buf') @ drop (length buf) data"
    using lay drop_append_le [OF p_le q, of "drop (length buf) data"] by (simp add: layout_def)
  let ?it1 = "?it\<lparr>iter_key := take sh (iter_key it) @ take (length k - sh) (drop p data),
      value_pos := Some (p + (length k - sh), length v)\<rparr>"
  have key: "take sh (iter_key it) @ take (length k - sh) (drop p data) = k"
    unfolding data sh(3) by simp
  have "over data buf rs ?it1" using ov by (simp add: over_def)
  from advance_restart_returns [OF lay this] obtain ri where ri: "advance_restart le ?it1 = Some (?it1\<lparr>restart_index := ri\<rparr>)" "unat ri \<le> length rs"
    by blast
  have "length data \<ge> length buf" using lay by (simp add: layout_def)
  then have "\<not> length data < p + (length k - sh) + length v" using len_q sh(2) by simp
  moreover have "\<not> of_nat (length buf) \<le> cur"
    using lt layout_sizes(2) [OF lay] by (simp add: word_le_nat_alt)
  ultimately have parse: "ParseNextKey le it = Some (True, ?it1\<lparr>restart_index := ri\<rparr>)"
    using ov ea ri(1) sh(1) unfolding ParseNextKey_def nxt
    by (simp add: over_def un Let_def)
  have "drop (length k - sh) (drop p data) = (v @ buf') @ drop (length buf) data" unfolding data by simp
  then have "drop (p + (length k - sh)) data = (v @ buf') @ drop (length buf) data"
    unfolding drop_drop by (simp only: add.commute)
  moreover have "drop (length v) (drop (length k - sh) (drop p buf)) = buf'" unfolding q by simp
  then have "drop (p + (length k - sh) + length v) buf = buf'"
    unfolding drop_drop by (simp only: ac_simps)
  ultimately have "stands data buf rs kvs (?it1\<lparr>restart_index := ri\<rparr>) i"
    using ov ri(2) e(2) len_q sh(2) i lt layout_sizes(2) [OF lay] kv
    by (simp add: stands_def cursor_def over_def key Valid_def iter_value_def word_less_nat_alt)
  with parse show ?thesis by blast
qed

lemma ParseNextKey_end:
  assumes lay: "layout le data buf rs" and c: "cursor data buf rs kvs it (length kvs)"
  shows "\<exists>it'. ParseNextKey le it = Some (False, it') \<and> \<not> Valid it' \<and> over data buf rs it'"
proof -
  obtain off len where vp: "value_pos it = Some (off, len)" "off + len \<le> length buf"
    and enc: "encodes (iter_key it) (drop (off + len) buf) []" and ov: "over data buf rs it"
    using c by (auto simp: cursor_def)
  from enc have "off + len = length buf" using vp(2) by (auto elim!: encodes_NilE)
  then have "ParseNextKey le it = Some (False, it\<lparr>current := restarts_at it, restart_index := num_restarts it\<rparr>)"
    using vp(1) ov unfolding ParseNextKey_def NextEntryOffset_def
    by (simp add: over_def Let_def del: of_nat_add)
  moreover have "over data buf rs (it\<lparr>current := restarts_at it, restart_index := num_restarts it\<rparr>)"
    using ov layout_sizes(3) [OF lay] by (simp add: over_def)
  ultimately show ?thesis by (auto simp: Valid_def)
qed

lemma SeekToRestartPoint_cursor:
  assumes lay: "layout le data buf rs" and ov: "over data buf rs it" and j: "unat j < length rs"
    and r: "restart_ok buf kvs (unat j) (rs ! unat j) i"
  shows "\<exists>it'. SeekToRestartPoint le it j = Some it' \<and> cursor data buf rs kvs it' i"
proof -
  have "GetRestartPoint le it j = Some (rs ! unat j)"
    using ov j by (intro GetRestartPoint_layout [OF lay]) (simp_all add: over_def)
  then show ?thesis using ov j r by (auto simp: SeekToRestartPoint_def cursor_def over_def restart_ok_def)
qed

abbreviation below :: "bytes \<Rightarrow> bytes \<times> bytes \<Rightarrow> bool" where
  "below target kv \<equiv> bless (fst kv) target"

text \<open>The linear search stops at the first key that is not below the target.\<close>

lemma linear_search_spec:
  assumes lay: "layout le data buf rs"
  shows "cursor data buf rs kvs it i \<Longrightarrow> j = i + length (takeWhile (below target) (drop i kvs)) \<Longrightarrow>
    \<exists>it'. linear_search le it target = Some it' \<and>
      (if j < length kvs then stands data buf rs kvs it' j else \<not> Valid it' \<and> over data buf rs it')"
proof (induction "length kvs - i" arbitrary: i it)
  case 0
  then have i: "i = length kvs" by (auto simp: cursor_def)
  obtain it' where it': "ParseNextKey le it = Some (False, it')" "\<not> Valid it'" "over data buf rs it'"
    using ParseNextKey_end [OF lay] 0(2) i by blast
  moreover have "linear_search le it target = Some it'" using it'(1) by (subst linear_search.simps) simp
  ultimately show ?case using 0(3) i by auto
next
  case (Suc n)
  then have i: "i < length kvs" by simp
  obtain it' where it': "ParseNextKey le it = Some (True, it')" "stands data buf rs kvs it' i"
    using ParseNextKey_entry [OF lay Suc.prems(1) i] by blast
  have key: "iter_key it' = fst (kvs ! i)" using it'(2) by (metis fst_conv stands_def)
  have drop: "drop i kvs = kvs ! i # drop (Suc i) kvs" using i by (simp add: Cons_nth_drop_Suc)
  show ?case
  proof (cases "below target (kvs ! i)")
    case True
    then have "linear_search le it target = linear_search le it' target"
      using it'(1) key by (subst linear_search.simps) simp
    moreover have "\<exists>it''. linear_search le it' target = Some it'' \<and>
        (if j < length kvs then stands data buf rs kvs it'' j else \<not> Valid it'' \<and> over data buf rs it'')"
      using it'(2) Suc.hyps(2) Suc.prems(2) True by (intro Suc.hyps(1) [of "Suc i"]) (simp_all add: stands_def drop)
    ultimately show ?thesis by simp
  next
    case False
    then have "linear_search le it target = Some it'" using it'(1) key by (subst linear_search.simps) simp
    moreover have "j = i" using Suc.prems(2) False by (simp add: drop)
    ultimately show ?thesis using it'(2) i by simp
  qed
qed

text \<open>The binary search ends at a restart point whose key is below the target, or at the first.\<close>

lemma restart_search_spec:
  assumes lay: "layout le data buf rs" and ov: "over data buf rs it"
    and r: "\<forall>j < length rs. restart_ok buf kvs j (rs ! j) (idx ! j)"
  shows "unat left \<le> unat right \<Longrightarrow> unat right < length rs \<Longrightarrow>
    left = 0 \<or> below target (kvs ! (idx ! unat left)) \<Longrightarrow>
    \<exists>m. restart_search le it target left right = Some (Some m) \<and> unat m < length rs \<and>
      (m = 0 \<or> below target (kvs ! (idx ! unat m)))"
proof (induction "unat right - unat left" arbitrary: left right rule: less_induct)
  case less
  note small = layout_sizes(4) [OF lay]
  show ?case
  proof (cases "left < right")
    case False
    then have "restart_search le it target left right = Some (Some left)" by (subst restart_search.simps) simp
    then show ?thesis using less.prems by auto
  next
    case True
    define mid where "mid = (left + right + 1) div 2"
    have lr: "unat left < unat right" using True by (simp add: word_less_nat_alt)
    have "unat (left + right + 1) = unat left + unat right + 1"
      using less.prems(1,2) small by (simp add: unat_word_ariths)
    then have m: "unat mid = (unat left + unat right + 1) div 2" by (simp add: mid_def unat_div)
    have mid: "unat left < unat mid" "unat mid \<le> unat right" using m lr by linarith+
    have pred: "unat (mid - 1) = unat mid - 1"
      using mid(1) by (simp add: unat_sub word_le_nat_alt Suc_leI)
    have ro: "restart_ok buf kvs (unat mid) (rs ! unat mid) (idx ! unat mid)" using r mid less.prems(2) by simp
    let ?i = "idx ! unat mid"
    have i: "?i < length kvs" using ro mid(1) by (simp add: restart_ok_def)
    obtain k v where kv: "kvs ! ?i = (k, v)" by fastforce
    have g: "GetRestartPoint le it mid = Some (rs ! unat mid)"
      using ov mid less.prems(2) by (intro GetRestartPoint_layout [OF lay]) (simp_all add: over_def)
    have "encodes [] (drop (unat (rs ! unat mid)) buf) ((k, v) # drop (Suc ?i) kvs)"
      using ro i kv by (simp add: restart_ok_def Cons_nth_drop_Suc [symmetric])
    note enc = this
    have pre: "iter_data it = data" "restarts_at it = of_nat (length buf)" "unat (rs ! unat mid) \<le> length buf"
      using ov ro by (simp_all add: over_def restart_ok_def)
    obtain sh buf' where ea: "entry_at it (rs ! unat mid) = Some (of_nat sh, of_nat (length k - sh), of_nat (length v), length buf - length (drop sh k @ v @ buf'))"
      and q: "drop (length buf - length (drop sh k @ v @ buf')) buf = drop sh k @ v @ buf'"
      and sh: "sh \<le> length ([] :: bytes)" and un: "unat (of_nat (length k - sh) :: uint32) = length k - sh"
      by (rule entry_at_layout [OF lay pre enc])
    let ?p = "length buf - length (drop sh k @ v @ buf')"
    have len: "?p + length (drop sh k @ v @ buf') = length buf" using arg_cong [OF q, of length] by simp
    have data: "drop ?p data = (drop sh k @ v @ buf') @ drop (length buf) data"
      using lay drop_append_le [OF _ q, of "drop (length buf) data"] by (simp add: layout_def)
    have "length buf \<le> length data" using lay by (simp add: layout_def)
    then have "\<not> length data < ?p + (length k - sh)" using len by simp
    then have step: "restart_search le it target left right =
        (if bless k target then restart_search le it target mid right else restart_search le it target left (mid - 1))"
      using True pre g ea un sh data
      by (subst restart_search.simps) (simp add: over_def Let_def mid_def [symmetric])
    show ?thesis
    proof (cases "bless k target")
      case True
      then show ?thesis unfolding step using less.hyps [of right mid] less.prems(2) mid lr kv by simp
    next
      case False
      then show ?thesis unfolding step using less.hyps [of "mid - 1" left] less.prems mid pred by simp
    qed
  qed
qed

lemma takeWhile_append_all: "(\<forall>x \<in> set xs. P x) \<Longrightarrow> length (takeWhile P (xs @ ys)) = length xs + length (takeWhile P ys)"
  by (simp add: takeWhile_append2)

lemma Seek_spec:
  assumes lay: "layout le data buf rs" and ov: "over data buf rs it"
    and r: "\<forall>j < length rs. restart_ok buf kvs j (rs ! j) (idx ! j)"
    and sorted: "sorted_wrt (\<lambda>a b. bless (fst a) (fst b)) kvs"
  shows "\<exists>it'. Seek le it target = Some it' \<and>
    (let j = length (takeWhile (below target) kvs)
     in if j < length kvs then stands data buf rs kvs it' j else \<not> Valid it' \<and> over data buf rs it')"
proof -
  have ne: "0 < length rs" using lay by (simp add: layout_def)
  have n: "unat (num_restarts it) = length rs" using ov layout_sizes(3) [OF lay] by (simp add: over_def)
  then have "1 \<le> num_restarts it" using ne by (simp add: word_le_nat_alt Suc_le_eq)
  then have last: "unat (num_restarts it - 1) = length rs - 1" using n by (simp add: unat_sub)
  obtain m where m: "restart_search le it target 0 (num_restarts it - 1) = Some (Some m)" "unat m < length rs"
    "m = 0 \<or> below target (kvs ! (idx ! unat m))"
    using restart_search_spec [OF lay ov r, of 0 "num_restarts it - 1" target] last ne by auto
  let ?i = "idx ! unat m"
  have ro: "restart_ok buf kvs (unat m) (rs ! unat m) ?i" using r m(2) by simp
  obtain it1 where it1: "SeekToRestartPoint le it m = Some it1" "cursor data buf rs kvs it1 ?i"
    using SeekToRestartPoint_cursor [OF lay ov m(2) ro] by blast
  have before: "\<forall>x \<in> set (take ?i kvs). below target x"
  proof (cases "m = 0")
    case True
    then have "?i = 0" using ro by (simp add: restart_ok_def)
    then show ?thesis by simp
  next
    case False
    then have "0 < unat m" by (simp add: unat_gt_0)
    then have i: "?i < length kvs" using ro by (simp add: restart_ok_def)
    have "bless (fst x) (fst (kvs ! ?i))" if "x \<in> set (take ?i kvs)" for x
      using that sorted i by (auto simp: in_set_conv_nth intro: sorted_wrt_nth_less)
    then show ?thesis using m(3) False by (auto intro: bless_trans)
  qed
  have "length (takeWhile (below target) kvs) = ?i + length (takeWhile (below target) (drop ?i kvs))"
    using takeWhile_append_all [OF before, of "drop ?i kvs"] ro by (simp add: restart_ok_def)
  from linear_search_spec [OF lay it1(2) this] show ?thesis using m(1) it1(1) by (simp add: Seek_def Let_def)
qed

lemma dropWhile_drop: "dropWhile P xs = drop (length (takeWhile P xs)) xs"
  by (simp add: dropWhile_eq_drop)

section \<open>A corrupt entry\<close>






end
