(* ===== verification/TableIterator.thy ===== *)
theory TableIterator
  imports TableBlock
begin

text \<open>
  The \<open>Iterator\<close> interface of \<^verbatim>\<open>core/lib/io/iterator.h\<close> as a locale, and
  its interpretation by the iterators over a block (\<^verbatim>\<open>block.cc\<close>,
  \<^verbatim>\<open>iterator.cc\<close>).
\<close>

section \<open>The interface\<close>

text \<open>
  An iterator over the sorted entries \<open>kvs\<close>: \<open>at s None\<close> says that \<open>s\<close> is an
  iterator of this source, \<open>at s (Some rest)\<close> that in addition it has \<open>rest\<close> ahead.
\<close>

locale sorted_iterator =
  fixes valid :: "'s \<Rightarrow> bool"
    and entry :: "'s \<Rightarrow> bytes \<times> bytes"
    and advance :: "'s \<Rightarrow> 's option"
    and seek :: "'s \<Rightarrow> bytes \<Rightarrow> 's option"
    and seek_first :: "'s \<Rightarrow> 's option"
    and status :: "'s \<Rightarrow> error_code option"
    and kvs :: "(bytes \<times> bytes) list"
    and at :: "'s \<Rightarrow> (bytes \<times> bytes) list option \<Rightarrow> bool"
  assumes seek_at: "at s p \<Longrightarrow> \<exists>s'. seek s t = Some s' \<and> at s' (Some (dropWhile (below t) kvs))"
    and first_at: "at s p \<Longrightarrow> \<exists>s'. seek_first s = Some s' \<and> at s' (Some kvs)"
    and advance_at: "at s (Some (kv # rest)) \<Longrightarrow> \<exists>s'. advance s = Some s' \<and> at s' (Some rest)"
    and valid_at: "at s (Some rest) \<Longrightarrow> valid s \<longleftrightarrow> rest \<noteq> []"
    and entry_at_hd: "at s (Some (kv # rest)) \<Longrightarrow> entry s = kv"
    and status_at: "at s p \<Longrightarrow> status s = None"

text \<open>A client that collects the entries from the current position on.\<close>

fun collect :: "('s \<Rightarrow> bool) \<Rightarrow> ('s \<Rightarrow> bytes \<times> bytes) \<Rightarrow> ('s \<Rightarrow> 's option) \<Rightarrow> nat \<Rightarrow> 's \<Rightarrow> (bytes \<times> bytes) list option" where
  "collect valid entry advance 0 s = None"
| "collect valid entry advance (Suc n) s =
     (if valid s then do { s' \<leftarrow> advance s; kvs \<leftarrow> collect valid entry advance n s'; Some (entry s # kvs) }
      else Some [])"

context sorted_iterator
begin

lemma collect_at: "at s (Some rest) \<Longrightarrow> length rest < n \<Longrightarrow> collect valid entry advance n s = Some rest"
proof (induction n arbitrary: s rest)
  case (Suc n)
  show ?case
  proof (cases rest)
    case Nil
    then show ?thesis using Suc.prems valid_at by simp
  next
    case (Cons kv rest')
    then obtain s' where s': "advance s = Some s'" "at s' (Some rest')" using advance_at Suc.prems(1) by blast
    then have "collect valid entry advance n s' = Some rest'" using Suc Cons by simp
    then show ?thesis using s'(1) Suc.prems(1) Cons valid_at entry_at_hd by simp
  qed
qed simp

lemma seek_collect:
  assumes "at s p"
  shows "\<exists>s'. seek s t = Some s' \<and> status s' = None \<and>
    collect valid entry advance (Suc (length kvs)) s' = Some (dropWhile (below t) kvs)"
proof -
  obtain s' where s': "seek s t = Some s'" "at s' (Some (dropWhile (below t) kvs))" using seek_at [OF assms] by blast
  have "length (dropWhile (below t) kvs) \<le> length kvs" by (rule length_dropWhile_le)
  then show ?thesis using s' collect_at [OF s'(2)] status_at by (auto simp del: collect.simps)
qed

lemma first_collect:
  assumes "at s p"
  shows "\<exists>s'. seek_first s = Some s' \<and> status s' = None \<and> collect valid entry advance (Suc (length kvs)) s' = Some kvs"
proof -
  obtain s' where s': "seek_first s = Some s'" "at s' (Some kvs)" using first_at [OF assms] by blast
  then show ?thesis using collect_at [OF s'(2)] status_at by (auto simp del: collect.simps)
qed

end

section \<open>Block iterators\<close>

text \<open>
  The virtual functions on the three classes. \<open>Next\<close> of an empty iterator is an
  unreachable \<open>assert(false)\<close>.
\<close>

fun bi_Valid :: "block_iterator \<Rightarrow> bool" where
  "bi_Valid (BlockIterator it) = Valid it"
| "bi_Valid _ = False"

fun bi_entry :: "block_iterator \<Rightarrow> bytes \<times> bytes" where
  "bi_entry (BlockIterator it) = (iter_key it, iter_value it)"
| "bi_entry _ = ([], [])"

fun bi_Next :: "bool \<Rightarrow> block_iterator \<Rightarrow> block_iterator option" where
  "bi_Next le (BlockIterator it) = map_option BlockIterator (Next le it)"
| "bi_Next le _ = None"

fun bi_Seek :: "bool \<Rightarrow> block_iterator \<Rightarrow> bytes \<Rightarrow> block_iterator option" where
  "bi_Seek le (BlockIterator it) target = map_option BlockIterator (Seek le it target)"
| "bi_Seek le it target = Some it"

fun bi_SeekToFirst :: "bool \<Rightarrow> block_iterator \<Rightarrow> block_iterator option" where
  "bi_SeekToFirst le (BlockIterator it) = map_option BlockIterator (SeekToFirst le it)"
| "bi_SeekToFirst le it = Some it"

fun bi_status :: "block_iterator \<Rightarrow> error_code option" where
  "bi_status (BlockIterator it) = iter_status it"
| "bi_status (ErrorIterator e) = Some e"
| "bi_status EmptyIterator = None"

text \<open>An iterator over a block that was built from \<open>kvs\<close>.\<close>

definition block_at :: "bool \<Rightarrow> (bytes \<times> bytes) list \<Rightarrow> block_iterator \<Rightarrow> (bytes \<times> bytes) list option \<Rightarrow> bool" where
  "block_at le kvs bi p \<longleftrightarrow> (\<exists>it data buf rs idx. bi = BlockIterator it \<and> layout le data buf rs \<and> over data buf rs it \<and>
     (\<forall>j < length rs. restart_ok buf kvs j (rs ! j) (idx ! j)) \<and> sorted_wrt (\<lambda>x y. bless (fst x) (fst y)) kvs \<and>
     (case p of None \<Rightarrow> True
      | Some rest \<Rightarrow> rest = [] \<and> \<not> Valid it \<or>
          (\<exists>i < length kvs. rest = drop i kvs \<and> stands data buf rs kvs it i)))"

lemma block_at_SeekToFirst:
  assumes "block_at le kvs bi p"
  shows "\<exists>bi'. bi_SeekToFirst le bi = Some bi' \<and> block_at le kvs bi' (Some kvs)"
proof -
  obtain it data buf rs idx where b: "bi = BlockIterator it" "layout le data buf rs" "over data buf rs it"
    "\<forall>j < length rs. restart_ok buf kvs j (rs ! j) (idx ! j)" "sorted_wrt (\<lambda>x y. bless (fst x) (fst y)) kvs"
    using assms by (auto simp: block_at_def)
  have ne: "rs \<noteq> []" using b(2) by (simp add: layout_def)
  then have "restart_ok buf kvs 0 (rs ! 0) (idx ! 0)" using b(4) by simp
  moreover from this have "idx ! 0 = 0" by (simp add: restart_ok_def)
  ultimately obtain it1 where it1: "SeekToRestartPoint le it 0 = Some it1" "cursor data buf rs kvs it1 0"
    using SeekToRestartPoint_cursor [OF b(2,3), of 0 kvs 0] ne by auto
  show ?thesis
  proof (cases "kvs = []")
    case True
    then obtain it2 where "ParseNextKey le it1 = Some (False, it2)" "\<not> Valid it2" "over data buf rs it2"
      using ParseNextKey_end [OF b(2), of "[]" it1] it1(2) by auto
    then show ?thesis using b it1 True by (auto simp: SeekToFirst_def block_at_def)
  next
    case False
    then obtain it2 where "ParseNextKey le it1 = Some (True, it2)" "stands data buf rs kvs it2 0"
      using ParseNextKey_entry [OF b(2) it1(2)] by auto
    moreover from this have "over data buf rs it2" by (simp add: stands_def cursor_def)
    moreover have "\<exists>i < length kvs. kvs = drop i kvs \<and> stands data buf rs kvs it2 i"
      using False calculation(2) by (intro exI [of _ 0]) simp
    ultimately show ?thesis using b it1(1) by (auto simp: SeekToFirst_def block_at_def)
  qed
qed

lemma block_at_Seek:
  assumes "block_at le kvs bi p"
  shows "\<exists>bi'. bi_Seek le bi t = Some bi' \<and> block_at le kvs bi' (Some (dropWhile (below t) kvs))"
proof -
  obtain it data buf rs idx where b: "bi = BlockIterator it" "layout le data buf rs" "over data buf rs it"
    "\<forall>j < length rs. restart_ok buf kvs j (rs ! j) (idx ! j)" "sorted_wrt (\<lambda>x y. bless (fst x) (fst y)) kvs"
    using assms by (auto simp: block_at_def)
  let ?j = "length (takeWhile (below t) kvs)"
  obtain it' where it': "Seek le it t = Some it'"
    "if ?j < length kvs then stands data buf rs kvs it' ?j else \<not> Valid it' \<and> over data buf rs it'"
    using Seek_spec [OF b(2-5), of t] unfolding Let_def by blast
  have "over data buf rs it'" using it'(2) by (auto simp: stands_def cursor_def split: if_splits)
  moreover have "(dropWhile (below t) kvs = [] \<and> \<not> Valid it') \<or>
      (\<exists>i < length kvs. dropWhile (below t) kvs = drop i kvs \<and> stands data buf rs kvs it' i)"
    using it'(2) by (auto simp: dropWhile_drop split: if_splits)
  ultimately show ?thesis using b it'(1) by (auto simp: block_at_def)
qed

lemma block_at_Next:
  assumes "block_at le kvs bi (Some (kv # rest))"
  shows "\<exists>bi'. bi_Next le bi = Some bi' \<and> block_at le kvs bi' (Some rest)"
proof -
  obtain it data buf rs idx i where b: "bi = BlockIterator it" "layout le data buf rs" "over data buf rs it"
    "\<forall>j < length rs. restart_ok buf kvs j (rs ! j) (idx ! j)" "sorted_wrt (\<lambda>x y. bless (fst x) (fst y)) kvs"
    and i: "i < length kvs" "kv # rest = drop i kvs" "stands data buf rs kvs it i"
    using assms by (auto simp: block_at_def)
  have rest: "rest = drop (Suc i) kvs" using i(1,2) by (simp add: Cons_nth_drop_Suc [symmetric])
  have c: "cursor data buf rs kvs it (Suc i)" using i(3) by (simp add: stands_def)
  show ?thesis
  proof (cases "Suc i < length kvs")
    case True
    then obtain it' where it': "ParseNextKey le it = Some (True, it')" "stands data buf rs kvs it' (Suc i)"
      using ParseNextKey_entry [OF b(2) c] by blast
    moreover from this have "over data buf rs it'" by (simp add: stands_def cursor_def)
    ultimately show ?thesis using b rest True by (auto simp: Next_def block_at_def)
  next
    case False
    then have "Suc i = length kvs" using i(1) by simp
    then obtain it' where "ParseNextKey le it = Some (False, it')" "\<not> Valid it'" "over data buf rs it'"
      using ParseNextKey_end [OF b(2)] c by auto
    then show ?thesis using b rest False by (auto simp: Next_def block_at_def)
  qed
qed

interpretation block: sorted_iterator bi_Valid bi_entry "bi_Next le" "bi_Seek le" "bi_SeekToFirst le" bi_status kvs "block_at le kvs"
proof unfold_locales
  show "bi_Valid s \<longleftrightarrow> rest \<noteq> []" if "block_at le kvs s (Some rest)" for s rest
    using that by (auto simp: block_at_def stands_def)
  show "bi_entry s = kv" if "block_at le kvs s (Some (kv # rest))" for s kv rest
    using that by (auto simp: block_at_def stands_def Cons_nth_drop_Suc [symmetric])
  show "bi_status s = None" if "block_at le kvs s p" for s p
    using that by (auto simp: block_at_def over_def)
qed (use block_at_Seek block_at_SeekToFirst block_at_Next in blast)+

text \<open>A block that the builder finished.\<close>

lemma block_at_new:
  assumes add: "add_all iv new_BlockBuilder kvs = Some b" and fin: "Finish le b = Some (b', data)"
    and sz: "length data \<le> uint32_max" and sorted: "sorted_wrt (\<lambda>x y. bless (fst x) (fst y)) kvs"
  shows "\<exists>bi. Option.bind (Block le data) (NewIterator le) = Some bi \<and> block_at le kvs bi None"
proof -
  obtain idx where inv: "builder_inv b kvs idx" using add_all_inv [OF add builder_inv_new] by auto
  then have rs: "restarts b \<noteq> []" and ro: "\<forall>j < length (restarts b). restart_ok (buffer b) kvs j (restarts b ! j) (idx ! j)"
    unfolding builder_inv_def by (metis length_0_conv)+
  note lay = Finish_layout [OF fin sz rs]
  let ?it = "Iter data (of_nat (length (buffer b))) (of_nat (length (restarts b)))"
  have "over data (buffer b) (restarts b) ?it" using layout_sizes(3) [OF lay] by (simp add: over_def Iter_def)
  then have "block_at le kvs (BlockIterator ?it) None" using lay ro sorted by (auto simp: block_at_def)
  then show ?thesis using NewIterator_layout [OF lay] by blast
qed

text \<open>
  A block answers searches like the sorted list of its entries: if the builder accepts
  keys in strictly increasing order, whatever the restart interval and however the keys share
  prefixes, then an iterator over the finished block (of less than 4 GB) reports no corruption,
  \<open>Seek\<close> followed by \<open>Next\<close> enumerates exactly the entries with keys not below the
  target, in order and with their values, and \<open>SeekToFirst\<close> all entries. Every loop ends
  and no access leaves the block.
\<close>

theorem block_sorted_map:
  assumes add: "add_all iv new_BlockBuilder kvs = Some b" and fin: "Finish le b = Some (b', data)"
    and sz: "length data \<le> uint32_max" and sorted: "sorted_wrt (\<lambda>x y. bless (fst x) (fst y)) kvs"
  shows "\<exists>it. Option.bind (Block le data) (NewIterator le) = Some it \<and>
    (\<forall>target. \<exists>it'. bi_Seek le it target = Some it' \<and> bi_status it' = None \<and>
       collect bi_Valid bi_entry (bi_Next le) (Suc (length kvs)) it' = Some (dropWhile (\<lambda>kv. bless (fst kv) target) kvs)) \<and>
    (\<exists>it'. bi_SeekToFirst le it = Some it' \<and> collect bi_Valid bi_entry (bi_Next le) (Suc (length kvs)) it' = Some kvs)"
proof -
  obtain bi where bi: "Option.bind (Block le data) (NewIterator le) = Some bi" "block_at le kvs bi None"
    using block_at_new [OF add fin sz sorted] by blast
  then show ?thesis using block.seek_collect [OF bi(2)] block.first_collect [OF bi(2)] by blast
qed

lemmas block_eval = Add_def new_BlockBuilder_def uint32_max_def PutVarint32_def Finish_def PutFixed32_def
  EncodeFixed_memcpy EncodeVarint32_def Let_def

theorem block_sorted_map_witness:
  "\<exists>b b' data it it'. add_all 1 new_BlockBuilder [([1, 2], [7]), ([1, 3], []), ([2], [8])] = Some b \<and>
     Finish True b = Some (b', data) \<and> Option.bind (Block True data) (NewIterator True) = Some it \<and>
     bi_Seek True it [1, 2, 5] = Some it' \<and> collect bi_Valid bi_entry (bi_Next True) 4 it' = Some [([1, 3], []), ([2], [8])]"
proof -
  let ?kvs = "[([1, 2], [7]), ([1, 3], []), ([2], [8])] :: (bytes \<times> bytes) list"
  obtain b where b: "add_all 1 new_BlockBuilder ?kvs = Some b" and sz: "length (buffer b) \<le> 60" "length (restarts b) \<le> 3"
    by (simp add: block_eval)
  then obtain b' data where f: "Finish True b = Some (b', data)" by (auto simp: block_eval)
  have "length (fold (\<lambda>r buf. buf @ memcpy_from 4 r) rs buf) = length buf + 4 * length rs" for rs :: "uint32 list" and buf
    by (induction rs arbitrary: buf) simp_all
  then have "length data \<le> uint32_max" using sz f by (auto simp: block_eval split: if_splits)
  from block_sorted_map [OF b f this] obtain it where it: "Option.bind (Block True data) (NewIterator True) = Some it"
    "\<forall>target. \<exists>it'. bi_Seek True it target = Some it' \<and> bi_status it' = None \<and>
       collect bi_Valid bi_entry (bi_Next True) (Suc (length ?kvs)) it' = Some (dropWhile (\<lambda>kv. bless (fst kv) target) ?kvs)" by auto
  have "dropWhile (\<lambda>kv. bless (fst kv) [1, 2, 5]) ?kvs = [([1, 3], []), ([2], [8])]" "Suc (length ?kvs) = 4" by simp_all
  with it(2) obtain it' where "bi_Seek True it [1, 2, 5] = Some it'" "collect bi_Valid bi_entry (bi_Next True) 4 it' = Some [([1, 3], []), ([2], [8])]" by metis
  then show ?thesis using b f it(1) by blast
qed

end
