(* ===== verification/TableFormat.thy ===== *)
theory TableFormat
  imports RecordIO TableIterator
begin

text \<open>
  \<^verbatim>\<open>core/lib/io/format.cc\<close>: block handles, the footer of a table file and the
  reading of a checksummed, possibly compressed block. The compression library behind
  \<open>port::Snappy_*\<close> is an argument.
\<close>

section \<open>Block handles and footer\<close>

record block_handle =
  handle_offset :: uint64
  handle_size :: uint64

definition new_BlockHandle :: block_handle where
  "new_BlockHandle = \<lparr>handle_offset = NOT 0, handle_size = NOT 0\<rparr>"

definition handle_EncodeTo :: "bytes \<Rightarrow> block_handle \<Rightarrow> bytes" where
  "handle_EncodeTo dst bh = PutVarint64 (PutVarint64 dst (handle_offset bh)) (handle_size bh)"

definition handle_DecodeFrom :: "bytes \<Rightarrow> (block_handle \<times> bytes) status_or" where
  "handle_DecodeFrom input =
     (case GetVarint64 input of
        (True, input, Some off) \<Rightarrow>
          (case GetVarint64 input of
             (True, input, Some sz) \<Rightarrow> Ok (\<lparr>handle_offset = off, handle_size = sz\<rparr>, input)
           | _ \<Rightarrow> Err DATA_LOSS)
      | _ \<Rightarrow> Err DATA_LOSS)"

definition kMaxEncodedLength :: nat where "kMaxEncodedLength = 10 + 10"

definition kEncodedLength :: nat where "kEncodedLength = 2 * kMaxEncodedLength + 8"

definition kTableMagicNumber :: uint64 where "kTableMagicNumber = 0xdb4775248b80fb57"

definition kBlockTrailerSize :: uint64 where "kBlockTrailerSize = 5"

record footer =
  metaindex_handle :: block_handle
  index_handle :: block_handle

text \<open>\<open>string::resize\<close>, which pads with zero bytes.\<close>

definition resize :: "nat \<Rightarrow> bytes \<Rightarrow> bytes" where
  "resize n s = take n s @ replicate (n - length s) 0"

definition footer_EncodeTo :: "bool \<Rightarrow> bytes \<Rightarrow> footer \<Rightarrow> bytes" where
  "footer_EncodeTo le dst ft =
     (let dst = handle_EncodeTo dst (metaindex_handle ft);
          dst = handle_EncodeTo dst (index_handle ft);
          dst = resize (2 * kMaxEncodedLength) dst;
          dst = PutFixed32 le dst (ucast (kTableMagicNumber AND 0xffffffff))
      in PutFixed32 le dst (ucast (drop_bit 32 kTableMagicNumber)))"

text \<open>\<open>None\<close>: the magic number is read past the end of the input.\<close>

definition footer_DecodeFrom :: "bool \<Rightarrow> bytes \<Rightarrow> (footer \<times> bytes) status_or option" where
  "footer_DecodeFrom le input =
     do {
       let magic_ptr = drop (kEncodedLength - 8) input;
       magic_lo \<leftarrow> DecodeFixed32 le magic_ptr;
       magic_hi \<leftarrow> DecodeFixed32 le (drop 4 magic_ptr);
       let magic = push_bit 32 (ucast magic_hi) OR ucast magic_lo;
       Some (if magic \<noteq> kTableMagicNumber then Err DATA_LOSS
             else (case handle_DecodeFrom input of
                     Inl e \<Rightarrow> Err e
                   | Inr (meta, rest) \<Rightarrow>
                       (case handle_DecodeFrom rest of
                          Inl e \<Rightarrow> Err e
                        | Inr (index, rest) \<Rightarrow>
                            Ok (\<lparr>metaindex_handle = meta, index_handle = index\<rparr>, drop 8 magic_ptr))))
     }"

section \<open>Reading a block\<close>

datatype compression_type = kNoCompression | kSnappyCompression

primrec type_byte :: "compression_type \<Rightarrow> byte" where
  "type_byte kNoCompression = 0"
| "type_byte kSnappyCompression = 1"

record snappy =
  Snappy_Compress :: "bytes \<Rightarrow> bytes option"
  Snappy_GetUncompressedLength :: "bytes \<Rightarrow> nat option"
  Snappy_Uncompress :: "bytes \<Rightarrow> bytes option"

definition ReadBlock :: "host \<Rightarrow> snappy \<Rightarrow> read_fun \<Rightarrow> nat \<Rightarrow> block_handle \<Rightarrow> bytes status_or option" where
  "ReadBlock h sn read k handle =
     (let n = handle_size handle; wanted = unat (n + kBlockTrailerSize)
      in do {
           (s, data) \<leftarrow> read k (handle_offset handle) wanted;
           case s of
             Some e \<Rightarrow> Some (Err e)
           | None \<Rightarrow>
               if length data \<noteq> wanted then Some (Err DATA_LOSS)
               else do {
                 stored_crc \<leftarrow> DecodeFixed32 (kLittleEndian h) (drop (unat n + 1) data);
                 actual \<leftarrow> crc_value h (take (unat n + 1) data);
                 if actual \<noteq> Unmask stored_crc then Some (Err DATA_LOSS)
                 else Some
                   (if data ! unat n = type_byte kNoCompression then Ok (take (unat n) data)
                    else if data ! unat n = type_byte kSnappyCompression then
                      (case Snappy_GetUncompressedLength sn (take (unat n) data) of
                         None \<Rightarrow> Err DATA_LOSS
                       | Some ulength \<Rightarrow>
                           (case Snappy_Uncompress sn (take (unat n) data) of
                              None \<Rightarrow> Err DATA_LOSS
                            | Some ubuf \<Rightarrow> Ok (take ulength ubuf)))
                    else Err DATA_LOSS)
               }
         })"

section \<open>Round trips\<close>

lemma handle_roundtrip: "handle_DecodeFrom (handle_EncodeTo [] bh @ rest) = Ok (bh, rest)"
  by (simp add: handle_DecodeFrom_def handle_EncodeTo_def PutVarint64_def GetVarint64_def varint64.get_put)

lemma handle_EncodeTo_append: "handle_EncodeTo dst bh = dst @ handle_EncodeTo [] bh"
  by (simp add: handle_EncodeTo_def PutVarint64_def)

lemma handle_EncodeTo_inj: "handle_EncodeTo [] a = handle_EncodeTo [] b \<Longrightarrow> a = b"
  using handle_roundtrip [of a "[]"] handle_roundtrip [of b "[]"] by simp

lemma length_handle: "length (handle_EncodeTo [] bh) \<le> kMaxEncodedLength"
proof -
  have v: "length (EncodeVarint64 v) \<le> 10" for v :: uint64
  proof -
    have "unat v < 128 ^ 10" using unsigned_less [of v, where 'a = nat] by simp
    then show ?thesis unfolding EncodeVarint64_varint by (rule length_varint_le) simp
  qed
  show ?thesis using v [of "handle_offset bh"] v [of "handle_size bh"]
    by (simp add: handle_EncodeTo_def PutVarint64_def kMaxEncodedLength_def)
qed

lemma footer_roundtrip:
  "footer_DecodeFrom le (footer_EncodeTo le [] ft) = Some (Ok (ft, []))" and length_footer: "length (footer_EncodeTo le [] ft) = kEncodedLength"
proof -
  let ?m = "handle_EncodeTo [] (metaindex_handle ft)" and ?i = "handle_EncodeTo [] (index_handle ft)"
  have len: "length (?m @ ?i) \<le> 40" using length_handle [of "metaindex_handle ft"] length_handle [of "index_handle ft"]
    by (simp add: kMaxEncodedLength_def)
  have enc: "footer_EncodeTo le [] ft = (?m @ ?i @ replicate (40 - length (?m @ ?i)) 0) @
      EncodeFixed32 le 0x8b80fb57 @ EncodeFixed32 le 0xdb477524"
    unfolding footer_EncodeTo_def Let_def handle_EncodeTo_append [of "?m"] using len
    by (simp add: resize_def PutFixed32_def kMaxEncodedLength_def kTableMagicNumber_def)
  show "length (footer_EncodeTo le [] ft) = kEncodedLength"
    unfolding enc using len by (simp add: kEncodedLength_def kMaxEncodedLength_def)
  have magic: "drop (kEncodedLength - 8) (footer_EncodeTo le [] ft) = EncodeFixed32 le 0x8b80fb57 @ EncodeFixed32 le 0xdb477524"
    unfolding enc using len by (simp add: kEncodedLength_def kMaxEncodedLength_def)
  have lo: "DecodeFixed32 le (EncodeFixed32 le 0x8b80fb57 @ EncodeFixed32 le 0xdb477524) = Some 0x8b80fb57"
    and hi: "DecodeFixed32 le (drop 4 (EncodeFixed32 le 0x8b80fb57 @ EncodeFixed32 le 0xdb477524)) = Some 0xdb477524"
    using DecodeFixed_EncodeFixed(2) [of le le "0xdb477524" "[]"] by (simp_all add: DecodeFixed_EncodeFixed)
  have num: "push_bit 32 (ucast (0xdb477524 :: uint32)) OR ucast (0x8b80fb57 :: uint32) = kTableMagicNumber"
    by (simp add: kTableMagicNumber_def)
  have h: "handle_DecodeFrom (footer_EncodeTo le [] ft) = Ok (metaindex_handle ft, ?i @ replicate (40 - length (?m @ ?i)) 0 @
      EncodeFixed32 le 0x8b80fb57 @ EncodeFixed32 le 0xdb477524)"
    unfolding enc using handle_roundtrip [of "metaindex_handle ft"] by simp
  show "footer_DecodeFrom le (footer_EncodeTo le [] ft) = Some (Ok (ft, []))"
    unfolding footer_DecodeFrom_def Let_def magic lo hi
    by (simp add: num [symmetric] h handle_roundtrip)
qed

text \<open>A block as \<open>WriteRawBlock\<close> stores it, and what the reader makes of it.\<close>

definition stored :: "byte \<Rightarrow> bytes \<Rightarrow> bytes" where
  "stored t c = c @ [t] @ crc_trailer (c @ [t])"

definition decodes :: "snappy \<Rightarrow> byte \<Rightarrow> bytes \<Rightarrow> bytes \<Rightarrow> bool" where
  "decodes sn t c raw \<longleftrightarrow> t = type_byte kNoCompression \<and> c = raw \<or>
     t = type_byte kSnappyCompression \<and> Snappy_Compress sn raw = Some c"

text \<open>What the library documents: decompressing gives back what was compressed.\<close>

definition snappy_ok :: "snappy \<Rightarrow> bool" where
  "snappy_ok sn \<longleftrightarrow> (\<forall>raw c. Snappy_Compress sn raw = Some c \<longrightarrow>
     Snappy_GetUncompressedLength sn c = Some (length raw) \<and> Snappy_Uncompress sn c = Some raw)"

lemma length_stored [simp]: "length (stored t c) = length c + 5"
  by (simp add: stored_def)

lemma stored_parts [simp]:
  "take (Suc (length c)) (stored t c) = c @ [t]" "take (length c) (stored t c) = c" "stored t c ! length c = t"
  by (simp_all add: stored_def nth_append)

context reliable_file
begin

lemma ReadBlock_stored:
  assumes h: "host_ok h" and sn: "snappy_ok sn" and d: "decodes sn t c raw"
    and off: "drop off content = stored t c @ rest" "off \<le> length content"
  shows "ReadBlock h sn read k \<lparr>handle_offset = of_nat off, handle_size = of_nat (length c)\<rparr> = Some (Ok raw)"
proof -
  have "length (drop off content) = length c + 5 + length rest" unfolding off(1) by simp
  then have len: "off + (length c + 5) \<le> length content" using off(2) by simp
  then have u: "unat (of_nat off :: uint64) = off" "unat (of_nat (length c) :: uint64) = length c"
    using file_size unfolding unat_of_nat by (simp_all add: take_bit_nat_eq_self)
  have u5: "unat (of_nat (length c) + kBlockTrailerSize :: uint64) = length c + 5"
    using len file_size u(2) by (simp add: unat_word_ariths kBlockTrailerSize_def)
  have r: "read k (of_nat off) (length c + 5) = Some (None, stored t c)"
    using read_within [of "of_nat off" "length c + 5" k] len u(1) off(1) by simp
  have dec: "DecodeFixed32 (kLittleEndian h) (drop (Suc (length c)) (stored t c)) = Some (memcpy_to (crc_trailer (c @ [t])))"
    by (simp add: stored_def DecodeFixed_memcpy)
  have crc: "Unmask (memcpy_to (crc_trailer (c @ [t]))) = crc32c 0 (c @ [t])"
    using trailer_check [of "crc_trailer (c @ [t])" "c @ [t]"] by simp
  show ?thesis
    using d sn unfolding ReadBlock_def Let_def block_handle.select_convs u u5 r
    by (auto simp: dec crc crc_value_eq [OF h] decodes_def snappy_ok_def)
qed

end

text \<open>
  A handle whose size is within five bytes of the top of the range makes \<open>ReadBlock\<close>
  allocate and request fewer bytes than it then inspects.
\<close>

lemma ReadBlock_wraps:
  assumes "read k off 0 = Some (None, [])"
  shows "ReadBlock h sn read k \<lparr>handle_offset = off, handle_size = 2 ^ 64 - 5\<rparr> = None"
  using assms by (simp add: ReadBlock_def kBlockTrailerSize_def Let_def DecodeFixed_memcpy)

end
