(* ===== verification/TableBuilder.thy ===== *)
theory TableBuilder
  imports TableFormat
begin

text \<open>
  \<^verbatim>\<open>core/lib/io/table_builder.cc\<close>: writing a sorted table. Entries go to the
  current data block; a full block is written to the file and its handle is entered into the
  index block under a key that separates it from the next block. \<open>None\<close> is a failed
  \<open>CHECK\<close> of a block builder.
\<close>

section \<open>Separators\<close>

definition FindShortestSeparator :: "bytes \<Rightarrow> bytes \<Rightarrow> bytes" where
  "FindShortestSeparator start limit =
     (let diff_index = shared_prefix start limit
      in if diff_index \<ge> min (length start) (length limit) then start
         else
           (let diff_byte = start ! diff_index
            in if diff_byte < 0xff \<and> unat diff_byte + 1 < unat (limit ! diff_index)
               then take (diff_index + 1) (start[diff_index := diff_byte + 1])
               else start))"

fun FindShortSuccessor :: "bytes \<Rightarrow> bytes" where
  "FindShortSuccessor [] = []"
| "FindShortSuccessor (b # key) = (if b \<noteq> 0xff then [b + 1] else b # FindShortSuccessor key)"

section \<open>State\<close>

record table_options =
  block_size_opt :: uint64
  restart_interval :: int
  compression :: compression_type

record 'f table_builder =
  tb_options :: table_options
  tb_file :: 'f
  tb_offset :: uint64
  tb_status :: "error_code option"
  data_block :: block_builder
  index_block :: block_builder
  tb_last_key :: bytes
  num_entries :: int
  closed :: bool
  pending_index_entry :: bool
  pending_handle :: block_handle

definition new_TableBuilder :: "table_options \<Rightarrow> 'f \<Rightarrow> 'f table_builder" where
  "new_TableBuilder opt f =
     \<lparr>tb_options = opt, tb_file = f, tb_offset = 0, tb_status = None, data_block = new_BlockBuilder,
      index_block = new_BlockBuilder, tb_last_key = [], num_entries = 0, closed = False,
      pending_index_entry = False, pending_handle = new_BlockHandle\<rparr>"

section \<open>Writing blocks\<close>

definition WriteRawBlock :: "host \<Rightarrow> 'f append_fun \<Rightarrow> 'f table_builder \<Rightarrow> bytes \<Rightarrow> compression_type \<Rightarrow>
    ('f table_builder \<times> block_handle) option" where
  "WriteRawBlock h Append r block_contents type =
     (let handle = \<lparr>handle_offset = tb_offset r, handle_size = of_nat (length block_contents)\<rparr>
      in case Append (tb_file r) block_contents of
           (Some e, f) \<Rightarrow> Some (r\<lparr>tb_file := f, tb_status := Some e\<rparr>, handle)
         | (None, f) \<Rightarrow>
             do {
               crc \<leftarrow> crc_value h block_contents;
               crc \<leftarrow> ExtendCrc (kLittleEndian h) (sse42 h) (address h [type_byte type]) crc [type_byte type];
               let trailer = type_byte type # EncodeFixed32 (kLittleEndian h) (Mask crc);
               Some (case Append f trailer of
                       (Some e, f) \<Rightarrow> (r\<lparr>tb_file := f, tb_status := Some e\<rparr>, handle)
                     | (None, f) \<Rightarrow>
                         (r\<lparr>tb_file := f, tb_status := None,
                            tb_offset := tb_offset r + (of_nat (length block_contents) + kBlockTrailerSize)\<rparr>, handle))
             })"

definition WriteBlock :: "host \<Rightarrow> snappy \<Rightarrow> 'f append_fun \<Rightarrow> 'f table_builder \<Rightarrow> block_builder \<Rightarrow>
    ('f table_builder \<times> block_builder \<times> block_handle) option" where
  "WriteBlock h sn Append r block =
     do {
       (block, raw) \<leftarrow> Finish (kLittleEndian h) block;
       let (block_contents, type) =
         (case compression (tb_options r) of
            kNoCompression \<Rightarrow> (raw, kNoCompression)
          | kSnappyCompression \<Rightarrow>
              (case Snappy_Compress sn raw of
                 Some compressed \<Rightarrow>
                   if length compressed < length raw - length raw div 8 then (compressed, kSnappyCompression)
                   else (raw, kNoCompression)
               | None \<Rightarrow> (raw, kNoCompression)));
       (r, handle) \<leftarrow> WriteRawBlock h Append r block_contents type;
       Some (r, Reset block, handle)
     }"

definition Flush :: "host \<Rightarrow> snappy \<Rightarrow> 'f append_fun \<Rightarrow> 'f table_builder \<Rightarrow> 'f table_builder option" where
  "Flush h sn Append r =
     (if tb_status r \<noteq> None then Some r
      else if buffer (data_block r) = [] then Some r
      else do {
        (r, block, handle) \<leftarrow> WriteBlock h sn Append r (data_block r);
        let r = r\<lparr>data_block := block, pending_handle := handle\<rparr>;
        Some (if tb_status r = None then r\<lparr>pending_index_entry := True\<rparr> else r)
      })"

section \<open>Adding entries and finishing\<close>

text \<open>The entry of the pending block, under the given key.\<close>

definition add_index_entry :: "'f table_builder \<Rightarrow> bytes \<Rightarrow> 'f table_builder option" where
  "add_index_entry r key =
     do {
       let r = r\<lparr>tb_last_key := key\<rparr>;
       let handle_encoding = handle_EncodeTo [] (pending_handle r);
       b \<leftarrow> Add 1 (index_block r) (tb_last_key r) handle_encoding;
       Some (r\<lparr>index_block := b, pending_index_entry := False\<rparr>)
     }"

definition tb_Add :: "host \<Rightarrow> snappy \<Rightarrow> 'f append_fun \<Rightarrow> 'f table_builder \<Rightarrow> bytes \<Rightarrow> bytes \<Rightarrow> 'f table_builder option" where
  "tb_Add h sn Append r key val =
     (if tb_status r \<noteq> None then Some r
      else do {
        r \<leftarrow> (if num_entries r > 0 \<and> of_nat (length key + length val) \<ge> 2 * block_size_opt (tb_options r)
              then Flush h sn Append r else Some r);
        r \<leftarrow> (if pending_index_entry r then add_index_entry r (FindShortestSeparator (tb_last_key r) key) else Some r);
        let r = r\<lparr>tb_last_key := key, num_entries := num_entries r + 1\<rparr>;
        b \<leftarrow> Add (restart_interval (tb_options r)) (data_block r) key val;
        let r = r\<lparr>data_block := b\<rparr>;
        if of_nat (CurrentSizeEstimate (data_block r)) \<ge> block_size_opt (tb_options r)
        then Flush h sn Append r else Some r
      })"

definition tb_Finish :: "host \<Rightarrow> snappy \<Rightarrow> 'f append_fun \<Rightarrow> 'f table_builder \<Rightarrow> 'f table_builder option" where
  "tb_Finish h sn Append r =
     do {
       r \<leftarrow> Flush h sn Append r;
       let r = r\<lparr>closed := True\<rparr>;
       (r, metaindex_block_handle) \<leftarrow>
         (if tb_status r = None then
            do { (r, _, handle) \<leftarrow> WriteBlock h sn Append r new_BlockBuilder; Some (r, handle) }
          else Some (r, new_BlockHandle));
       (r, index_block_handle) \<leftarrow>
         (if tb_status r = None then
            do {
              r \<leftarrow> (if pending_index_entry r then add_index_entry r (FindShortSuccessor (tb_last_key r)) else Some r);
              (r, block, handle) \<leftarrow> WriteBlock h sn Append r (index_block r);
              Some (r\<lparr>index_block := block\<rparr>, handle)
            }
          else Some (r, new_BlockHandle));
       Some (if tb_status r = None then
               (let footer_encoding = footer_EncodeTo (kLittleEndian h) []
                      \<lparr>metaindex_handle = metaindex_block_handle, index_handle = index_block_handle\<rparr>
                in case Append (tb_file r) footer_encoding of
                     (Some e, f) \<Rightarrow> r\<lparr>tb_file := f, tb_status := Some e\<rparr>
                   | (None, f) \<Rightarrow> r\<lparr>tb_file := f, tb_offset := tb_offset r + of_nat (length footer_encoding)\<rparr>)
             else r)
     }"

definition Abandon :: "'f table_builder \<Rightarrow> 'f table_builder" where
  "Abandon r = r\<lparr>closed := True\<rparr>"

definition FileSize :: "'f table_builder \<Rightarrow> uint64" where
  "FileSize r = tb_offset r"

section \<open>Separators separate\<close>

lemma shared_prefix_differ:
  "shared_prefix a b < length a \<Longrightarrow> shared_prefix a b < length b \<Longrightarrow> a ! shared_prefix a b \<noteq> b ! shared_prefix a b"
  by (induction a b rule: shared_prefix.induct) auto

lemma FindShortestSeparator_between:
  assumes "bless start limit"
  shows "\<not> bless (FindShortestSeparator start limit) start" "bless (FindShortestSeparator start limit) limit"
    and "length (FindShortestSeparator start limit) \<le> length start"
proof -
  let ?i = "shared_prefix start limit" and ?s = "FindShortestSeparator start limit"
  have "\<not> bless ?s start \<and> bless ?s limit \<and> length ?s \<le> length start"
  proof (cases "?i < min (length start) (length limit) \<and> start ! ?i < 0xff \<and> unat (start ! ?i) + 1 < unat (limit ! ?i)")
    case False
    then have "?s = start" by (auto simp: FindShortestSeparator_def Let_def)
    then show ?thesis using assms by simp
  next
    case True
    then have i: "?i < length start" "?i < length limit" by simp_all
    have s: "?s = take ?i start @ [start ! ?i + 1]"
      using True by (simp add: FindShortestSeparator_def Let_def take_Suc_conv_app_nth min_le_iff_disj)
    have u: "unat (start ! ?i + 1) = unat (start ! ?i) + 1"
      using True by (simp add: word_less_nat_alt unat_word_ariths)
    have "start = take ?i start @ start ! ?i # drop (Suc ?i) start" using i(1) by (rule id_take_nth_drop)
    moreover have "bless (take ?i start @ start ! ?i # drop (Suc ?i) start) (take ?i start @ [start ! ?i + 1])"
      by (rule bless_diff) (simp add: word_less_nat_alt u)
    ultimately have "bless start ?s" unfolding s by metis
    moreover have "limit = take ?i start @ limit ! ?i # drop (Suc ?i) limit"
      using id_take_nth_drop [OF i(2)] shared_prefix_take [of start limit] by simp
    moreover have "bless (take ?i start @ [start ! ?i + 1]) (take ?i start @ limit ! ?i # drop (Suc ?i) limit)"
      using True u by (intro bless_diff) (simp add: word_less_nat_alt)
    ultimately have "bless start ?s" "bless ?s limit" unfolding s by (simp, metis)
    then show ?thesis using i(1) bless_asym by (simp add: s)
  qed
  then show "\<not> bless ?s start" "bless ?s limit" "length ?s \<le> length start" by simp_all
qed

lemma FindShortSuccessor_above:
  "\<not> bless (FindShortSuccessor key) key" "length (FindShortSuccessor key) \<le> length key"
proof (induction key)
  case (Cons b key)
  {
    case 1
    have "b < b + 1" if "b \<noteq> 0xff"
    proof -
      have "unat b \<noteq> 255" using that by (simp add: word_unat_eq_iff)
      then have "unat (b + 1) = unat b + 1" using unsigned_less [of b, where 'a = nat] by (simp add: unat_word_ariths)
      then show ?thesis by (simp add: word_less_nat_alt)
    qed
    then show ?case using Cons by (auto dest: less_asym)
  next
    case 2
    show ?case using Cons by simp
  }
qed simp_all

end
