(* ===== verification/TableWrite.thy ===== *)
theory TableWrite
  imports TableBuilder
begin

text \<open>
  The invariant of the table builder: what the file, the index block and the current data
  block hold after any number of additions without an error.
\<close>

section \<open>Blocks in the file\<close>

definition built :: "bool \<Rightarrow> int \<Rightarrow> (bytes \<times> bytes) list \<Rightarrow> bytes \<Rightarrow> bool" where
  "built le iv kvs raw \<longleftrightarrow> (\<exists>b b'. add_all iv new_BlockBuilder kvs = Some b \<and> Finish le b = Some (b', raw))"

definition block_in :: "bool \<Rightarrow> int \<Rightarrow> snappy \<Rightarrow> bytes \<Rightarrow> (bytes \<times> bytes) list \<Rightarrow> nat \<Rightarrow> nat \<Rightarrow> bool" where
  "block_in le iv sn content kvs off len \<longleftrightarrow>
     (\<exists>raw t c rest. built le iv kvs raw \<and> decodes sn t c raw \<and> drop off content = stored t c @ rest \<and>
        off \<le> length content \<and> length c = len)"

lemma block_in_append:
  assumes "block_in le iv sn content kvs off len"
  shows "block_in le iv sn (content @ ys) kvs off len"
proof -
  obtain raw t c rest where b: "built le iv kvs raw" "decodes sn t c raw" "drop off content = stored t c @ rest"
    "off \<le> length content" "length c = len"
    using assms by (auto simp: block_in_def)
  then have "drop off (content @ ys) = stored t c @ (rest @ ys)" "off \<le> length (content @ ys)" by simp_all
  with b show ?thesis unfolding block_in_def by blast
qed

lemma block_in_new:
  assumes "built le iv kvs raw" "decodes sn t c raw"
  shows "block_in le iv sn (content @ stored t c) kvs (length content) (length c)"
proof -
  have "drop (length content) (content @ stored t c) = stored t c @ []" "length content \<le> length (content @ stored t c)" by simp_all
  with assms show ?thesis unfolding block_in_def by blast
qed

lemma block_in_less: "block_in le iv sn content kvs off len \<Longrightarrow> off < length content"
proof -
  assume "block_in le iv sn content kvs off len"
  then obtain t c rest where "drop off content = stored t c @ rest" by (auto simp: block_in_def)
  then have "length (drop off content) = length (stored t c @ rest)" by simp
  then show ?thesis by simp
qed

lemma Reset_new: "Reset b = new_BlockBuilder"
  by (simp add: Reset_def new_BlockBuilder_def)

lemma add_all_append: "add_all iv b (xs @ ys) = Option.bind (add_all iv b xs) (\<lambda>b. add_all iv b ys)"
  by (induction iv b xs rule: add_all.induct) (simp_all split: bind_splits)

lemma buffer_empty:
  assumes "add_all iv new_BlockBuilder kvs = Some b"
  shows "buffer b = [] \<longleftrightarrow> kvs = []"
proof -
  obtain idx where "builder_inv b kvs idx" using add_all_inv [OF assms builder_inv_new] by auto
  then have "encodes [] (buffer b) kvs" by (simp add: builder_inv_def)
  then show ?thesis by cases (auto simp: entry_bytes_def EncodeVarint32_not_Nil)
qed

type_synonym blk = "(bytes \<times> bytes) list \<times> nat \<times> nat"

abbreviation blk_entries :: "blk \<Rightarrow> (bytes \<times> bytes) list" where "blk_entries \<equiv> fst"
abbreviation blk_offset :: "blk \<Rightarrow> nat" where "blk_offset b \<equiv> fst (snd b)"
abbreviation blk_size :: "blk \<Rightarrow> nat" where "blk_size b \<equiv> snd (snd b)"

definition blk_handle :: "blk \<Rightarrow> block_handle" where
  "blk_handle b = \<lparr>handle_offset = of_nat (blk_offset b), handle_size = of_nat (blk_size b)\<rparr>"

text \<open>An index entry separates its block from the later ones.\<close>

definition separates :: "bytes \<times> bytes \<Rightarrow> blk list \<Rightarrow> nat \<Rightarrow> bool" where
  "separates ie bs i \<longleftrightarrow> i < length bs \<and> snd ie = handle_EncodeTo [] (blk_handle (bs ! i)) \<and>
     (\<forall>kv \<in> set (blk_entries (bs ! i)). \<not> bless (fst ie) (fst kv)) \<and>
     (\<forall>j < length bs. i < j \<longrightarrow> (\<forall>kv \<in> set (blk_entries (bs ! j)). bless (fst ie) (fst kv))) \<and>
     length (fst ie) \<le> length (fst (last (blk_entries (bs ! i))))"

definition blocks_ok :: "bool \<Rightarrow> int \<Rightarrow> snappy \<Rightarrow> bytes \<Rightarrow> blk list \<Rightarrow> bool" where
  "blocks_ok le iv sn content bs \<longleftrightarrow> sorted_wrt (<) (map blk_offset bs) \<and>
     (\<forall>b \<in> set bs. blk_entries b \<noteq> [] \<and> block_in le iv sn content (blk_entries b) (blk_offset b) (blk_size b))"

lemma blocks_ok_append: "blocks_ok le iv sn content bs \<Longrightarrow> blocks_ok le iv sn (content @ ys) bs"
  by (auto simp: blocks_ok_def block_in_append)

lemma blocks_ok_snoc:
  assumes "blocks_ok le iv sn content bs" "built le iv cur raw" "decodes sn t c raw" "cur \<noteq> []"
  shows "blocks_ok le iv sn (content @ stored t c) (bs @ [(cur, length content, length c)])"
  using assms block_in_less
  by (fastforce simp: blocks_ok_def block_in_append block_in_new sorted_wrt_append)

section \<open>The invariant\<close>

abbreviation kv_sorted :: "(bytes \<times> bytes) list \<Rightarrow> bool" where
  "kv_sorted kvs \<equiv> sorted_wrt (\<lambda>x y. bless (fst x) (fst y)) kvs"

definition tb_inv :: "host \<Rightarrow> snappy \<Rightarrow> ('f \<Rightarrow> bytes) \<Rightarrow> 'f table_builder \<Rightarrow> (bytes \<times> bytes) list \<Rightarrow>
    (bytes \<times> bytes) list \<Rightarrow> blk list \<Rightarrow> (bytes \<times> bytes) list \<Rightarrow> bool" where
  "tb_inv h sn contents r kvs ies bs cur \<longleftrightarrow>
     tb_status r = None \<and> tb_offset r = of_nat (length (contents (tb_file r))) \<and>
     add_all (restart_interval (tb_options r)) new_BlockBuilder cur = Some (data_block r) \<and>
     add_all 1 new_BlockBuilder ies = Some (index_block r) \<and>
     kvs = concat (map blk_entries bs) @ cur \<and>
     blocks_ok (kLittleEndian h) (restart_interval (tb_options r)) sn (contents (tb_file r)) bs \<and>
     (\<forall>i < length ies. separates (ies ! i) bs i \<and> (\<forall>kv \<in> set cur. bless (fst (ies ! i)) (fst kv))) \<and>
     (if pending_index_entry r
      then cur = [] \<and> length bs = Suc (length ies) \<and> pending_handle r = blk_handle (last bs)
      else length bs = length ies \<and> (cur = [] \<longrightarrow> bs = []))"

definition last_ok :: "'f table_builder \<Rightarrow> (bytes \<times> bytes) list \<Rightarrow> bool" where
  "last_ok r kvs \<longleftrightarrow> kvs \<noteq> [] \<longrightarrow> tb_last_key r = fst (last kvs)"

lemma tb_inv_new:
  "contents f = [] \<Longrightarrow> tb_inv h sn contents (new_TableBuilder opt f) [] [] [] []"
  by (simp add: tb_inv_def new_TableBuilder_def blocks_ok_def)

text \<open>The stored trailer is the one the reader checks.\<close>

context writable_file
begin

lemma WriteRawBlock_ok:
  assumes h: "host_ok h" and w: "WriteRawBlock h Append r c ty = Some (r', handle)" "tb_status r' = None"
  shows "\<exists>f'. contents f' = contents (tb_file r) @ stored (type_byte ty) c \<and>
    r' = r\<lparr>tb_file := f', tb_status := None, tb_offset := tb_offset r + of_nat (length (stored (type_byte ty) c))\<rparr> \<and>
    handle = \<lparr>handle_offset = tb_offset r, handle_size = of_nat (length c)\<rparr>"
proof -
  obtain st f1 where f1: "Append (tb_file r) c = (st, f1)" by fastforce
  have st: "st = None" using w f1 by (cases st) (auto simp: WriteRawBlock_def Let_def)
  have crc: "crc_value h c = Some (crc32c 0 c)" "ExtendCrc (kLittleEndian h) (sse42 h) a (crc32c 0 c) [type_byte ty] = Some (crc32c 0 (c @ [type_byte ty]))" for a
    using h by (simp_all add: crc_value_eq Extend_crc crc32c_append)
  let ?tr = "type_byte ty # EncodeFixed32 (kLittleEndian h) (Mask (crc32c 0 (c @ [type_byte ty])))"
  obtain st2 f2 where f2: "Append f1 ?tr = (st2, f2)" by fastforce
  have st2: "st2 = None" using w f1 st f2 by (cases st2) (auto simp: WriteRawBlock_def Let_def crc)
  have "?tr = [type_byte ty] @ crc_trailer (c @ [type_byte ty])" by (simp add: EncodeFixed_memcpy crc_trailer_def)
  then have "contents f2 = contents (tb_file r) @ stored (type_byte ty) c"
    using append_ok [OF f1 [unfolded st]] append_ok [OF f2 [unfolded st2]] by (simp add: stored_def)
  then show ?thesis using w f1 f2 st st2
    by (auto simp: WriteRawBlock_def Let_def crc kBlockTrailerSize_def)
qed

lemma WriteBlock_ok:
  assumes h: "host_ok h" and w: "WriteBlock h sn Append r block = Some (r', block', handle)" "tb_status r' = None"
  shows "\<exists>b' raw t c f'. Finish (kLittleEndian h) block = Some (b', raw) \<and> decodes sn t c raw \<and>
    contents f' = contents (tb_file r) @ stored t c \<and> block' = new_BlockBuilder \<and>
    r' = r\<lparr>tb_file := f', tb_status := None, tb_offset := tb_offset r + of_nat (length (stored t c))\<rparr> \<and>
    handle = \<lparr>handle_offset = tb_offset r, handle_size = of_nat (length c)\<rparr>"
proof -
  obtain b' raw where fin: "Finish (kLittleEndian h) block = Some (b', raw)"
    using w(1) by (auto simp: WriteBlock_def split: bind_splits)
  define ct where "ct = (case compression (tb_options r) of
            kNoCompression \<Rightarrow> (raw, kNoCompression)
          | kSnappyCompression \<Rightarrow>
              (case Snappy_Compress sn raw of
                 Some compressed \<Rightarrow>
                   if length compressed < length raw - length raw div 8 then (compressed, kSnappyCompression)
                   else (raw, kNoCompression)
               | None \<Rightarrow> (raw, kNoCompression)))"
  obtain c ty where c: "ct = (c, ty)" by fastforce
  have d: "decodes sn (type_byte ty) c raw"
    using c by (auto simp: ct_def decodes_def split: compression_type.splits option.splits if_splits)
  have "WriteRawBlock h Append r c ty = Some (r', handle)" "block' = new_BlockBuilder"
    using w(1) fin c [unfolded ct_def] unfolding WriteBlock_def by (auto simp: Reset_new split: bind_splits)
  then show ?thesis using WriteRawBlock_ok [OF h _ w(2)] fin d by blast
qed

lemma Flush_inv:
  assumes h: "host_ok h" and inv: "tb_inv h sn contents r kvs ies bs cur"
    and f: "Flush h sn Append r = Some r'" "tb_status r' = None"
  shows "\<exists>bs'. tb_inv h sn contents r' kvs ies bs' [] \<and> num_entries r' = num_entries r \<and> tb_options r' = tb_options r \<and> tb_last_key r' = tb_last_key r"
proof (cases "cur = []")
  case True
  then have "data_block r = new_BlockBuilder" "tb_status r = None" using inv by (simp_all add: tb_inv_def)
  then have "r' = r" using f(1) by (simp add: Flush_def new_BlockBuilder_def)
  then show ?thesis using inv True by blast
next
  case False
  have st: "tb_status r = None" "\<not> pending_index_entry r" using inv False by (auto simp: tb_inv_def split: if_splits)
  have "buffer (data_block r) \<noteq> []" using inv False buffer_empty unfolding tb_inv_def by blast
  then obtain r1 block handle where w: "WriteBlock h sn Append r (data_block r) = Some (r1, block, handle)"
    and r': "r' = (if tb_status r1 = None then r1\<lparr>data_block := block, pending_handle := handle, pending_index_entry := True\<rparr>
       else r1\<lparr>data_block := block, pending_handle := handle\<rparr>)"
    using f(1) st(1) by (auto simp: Flush_def Let_def split: bind_splits if_splits)
  have st1: "tb_status r1 = None" using f(2) r' by (auto split: if_splits)
  obtain b' raw t c f' where b: "Finish (kLittleEndian h) (data_block r) = Some (b', raw)" "decodes sn t c raw"
    "contents f' = contents (tb_file r) @ stored t c" "block = new_BlockBuilder"
    "r1 = r\<lparr>tb_file := f', tb_status := None, tb_offset := tb_offset r + of_nat (length (stored t c))\<rparr>"
    "handle = \<lparr>handle_offset = tb_offset r, handle_size = of_nat (length c)\<rparr>"
    using WriteBlock_ok [OF h w st1] by blast
  let ?off = "length (contents (tb_file r))" and ?iv = "restart_interval (tb_options r)"
  let ?bs = "bs @ [(cur, ?off, length c)]"
  have "built (kLittleEndian h) ?iv cur raw" using inv b(1) by (auto simp: built_def tb_inv_def)
  then have "blocks_ok (kLittleEndian h) ?iv sn (contents f') ?bs"
    using inv b(2,3) False by (auto simp: tb_inv_def intro: blocks_ok_snoc)
  moreover have "separates (ies ! i) ?bs i" if i: "i < length ies" for i
  proof -
    have s: "separates (ies ! i) bs i" "\<forall>kv \<in> set cur. bless (fst (ies ! i)) (fst kv)" using inv i by (auto simp: tb_inv_def)
    have ib: "i < length bs" using s(1) by (simp add: separates_def)
    have "\<forall>j < length ?bs. i < j \<longrightarrow> (\<forall>kv \<in> set (blk_entries (?bs ! j)). bless (fst (ies ! i)) (fst kv))"
      using s by (auto simp: separates_def nth_append less_Suc_eq)
    then show ?thesis using s(1) ib by (simp add: separates_def nth_append)
  qed
  moreover have "blk_handle (cur, ?off, length c) = handle" using inv b(6) by (simp add: blk_handle_def tb_inv_def)
  ultimately have "tb_inv h sn contents r' kvs ies ?bs []"
    using inv False b(3,4) st st1 unfolding r' by (simp add: tb_inv_def b(5))
  then show ?thesis using r' st1 by (intro exI [of _ ?bs]) (simp add: b(5))
qed

end

text \<open>Entering the pending block into the index.\<close>

lemma add_index_inv:
  assumes inv: "tb_inv h sn contents r kvs ies bs []" and p: "pending_index_entry r"
    and sep: "\<forall>kv \<in> set (blk_entries (last bs)). \<not> bless sep (fst kv)" "length sep \<le> length (fst (last (blk_entries (last bs))))"
    and a: "add_index_entry r sep = Some r'"
  defines "ies' \<equiv> ies @ [(sep, handle_EncodeTo [] (blk_handle (last bs)))]"
  shows "tb_status r' = None" "tb_offset r' = tb_offset r" "tb_file r' = tb_file r" "tb_options r' = tb_options r"
    "data_block r' = data_block r" "\<not> pending_index_entry r'" "length bs = length ies'"
    "add_all 1 new_BlockBuilder ies' = Some (index_block r')" "\<forall>i < length ies'. separates (ies' ! i) bs i"
    "num_entries r' = num_entries r"
proof -
  have len: "length bs = Suc (length ies)" "pending_handle r = blk_handle (last bs)" using inv p by (simp_all add: tb_inv_def)
  then show "length bs = length ies'" by (simp add: ies'_def)
  show "tb_status r' = None" "tb_offset r' = tb_offset r" "tb_file r' = tb_file r" "tb_options r' = tb_options r"
    "data_block r' = data_block r" "\<not> pending_index_entry r'" "num_entries r' = num_entries r"
    using a inv by (auto simp: add_index_entry_def tb_inv_def split: bind_splits)
  show "add_all 1 new_BlockBuilder ies' = Some (index_block r')"
    using a inv len(2) by (auto simp: add_index_entry_def tb_inv_def ies'_def add_all_append split: bind_splits)
  have lastb: "last bs = bs ! length ies" using len(1) by (metis diff_Suc_1 last_conv_nth list.size(3) nat.distinct(1))
  show "\<forall>i < length ies'. separates (ies' ! i) bs i"
  proof (intro allI impI)
    fix i assume "i < length ies'"
    then consider "i < length ies" | "i = length ies" by (auto simp: ies'_def less_Suc_eq)
    then show "separates (ies' ! i) bs i"
    proof cases
      case 1
      then show ?thesis using inv by (simp add: tb_inv_def ies'_def nth_append)
    next
      case 2
      then show ?thesis using sep len(1) lastb by (auto simp: separates_def ies'_def nth_append)
    qed
  qed
qed

text \<open>Every key that is already in the index is below a new one.\<close>

lemma index_below_new:
  assumes inv: "tb_inv h sn contents r kvs ies bs cur" and k: "\<forall>kv \<in> set kvs. bless (fst kv) k" and i: "i < length ies"
  shows "bless (fst (ies ! i)) k"
proof (cases "cur = []")
  case False
  then obtain kv where "kv \<in> set cur" by (cases cur) auto
  moreover from this have "bless (fst (ies ! i)) (fst kv)" using inv i by (auto simp: tb_inv_def)
  moreover have "kv \<in> set kvs" using inv calculation(1) by (auto simp: tb_inv_def)
  ultimately show ?thesis using k bless_trans by blast
next
  case True
  then have len: "length bs = Suc (length ies)" using inv i by (auto simp: tb_inv_def split: if_splits)
  have "bs ! length ies \<in> set bs" using len by simp
  moreover from this have "blk_entries (bs ! length ies) \<noteq> []" using inv by (auto simp: tb_inv_def blocks_ok_def)
  then obtain kv where kv: "kv \<in> set (blk_entries (bs ! length ies))" by (cases "blk_entries (bs ! length ies)") auto
  have "bless (fst (ies ! i)) (fst kv)" using inv i kv len by (auto simp: tb_inv_def separates_def)
  moreover have "kv \<in> set kvs" using inv kv calculation(1) by (auto simp: tb_inv_def)
  ultimately show ?thesis using k bless_trans by blast
qed

lemma last_entry_max:
  assumes "kv_sorted kvs" "kv \<in> set kvs"
  shows "\<not> bless (fst (last kvs)) (fst kv)"
proof -
  obtain xs y where "kvs = xs @ [y]" using assms(2) by (cases kvs rule: rev_cases) auto
  then show ?thesis using assms by (auto simp: sorted_wrt_append dest: bless_asym)
qed

lemma sep_last_block:
  assumes inv: "tb_inv h sn contents r kvs ies bs []" and p: "pending_index_entry r" and l: "last_ok r kvs" and srt: "kv_sorted kvs"
    and sep: "\<not> bless sep (tb_last_key r)" "length sep \<le> length (tb_last_key r)"
  shows "\<forall>kv \<in> set (blk_entries (last bs)). \<not> bless sep (fst kv)" "length sep \<le> length (fst (last (blk_entries (last bs))))"
proof -
  have bs: "bs \<noteq> []" "kvs = concat (map blk_entries bs)" using inv p by (auto simp: tb_inv_def)
  then have lb: "last bs \<in> set bs" by simp
  then have ne: "blk_entries (last bs) \<noteq> []" using inv by (auto simp: tb_inv_def blocks_ok_def)
  have "kvs = concat (map blk_entries (butlast bs @ [last bs]))" using bs by simp
  then have "kvs = concat (map blk_entries (butlast bs)) @ blk_entries (last bs)"
    by (simp only: map_append concat_append list.map concat.simps append_Nil2)
  then have lst: "last kvs = last (blk_entries (last bs))" "kvs \<noteq> []" using ne by simp_all
  then have key: "tb_last_key r = fst (last kvs)" using l by (simp add: last_ok_def)
  then show "length sep \<le> length (fst (last (blk_entries (last bs))))" using sep(2) lst by simp
  show "\<forall>kv \<in> set (blk_entries (last bs)). \<not> bless sep (fst kv)"
  proof
    fix kv assume "kv \<in> set (blk_entries (last bs))"
    then have "kv \<in> set kvs" using bs(2) lb by auto
    then have "\<not> bless (fst (last kvs)) (fst kv)" by (rule last_entry_max [OF srt])
    then show "\<not> bless sep (fst kv)" using sep(1) key bless_trans not_bless_cases by metis
  qed
qed

context writable_file
begin

lemma tb_Add_inv:
  assumes h: "host_ok h" and inv: "tb_inv h sn contents r kvs ies bs cur" and l: "last_ok r kvs"
    and srt: "kv_sorted (kvs @ [(k, v)])"
    and a: "tb_Add h sn Append r k v = Some r'" "tb_status r' = None"
  shows "\<exists>ies' bs' cur'. tb_inv h sn contents r' (kvs @ [(k, v)]) ies' bs' cur' \<and> last_ok r' (kvs @ [(k, v)]) \<and> tb_options r' = tb_options r"
proof -
  have k: "\<forall>kv \<in> set kvs. bless (fst kv) k" and srt0: "kv_sorted kvs" using srt by (auto simp: sorted_wrt_append)
  have st: "tb_status r = None" using inv by (simp add: tb_inv_def)
  define big where "big \<longleftrightarrow> num_entries r > 0 \<and> of_nat (length k + length v) \<ge> 2 * block_size_opt (tb_options r)"
  obtain r1 where r1: "(if big then Flush h sn Append r else Some r) = Some r1"
    using a(1) st unfolding tb_Add_def big_def by (auto split: bind_splits)
  obtain r2 where r2: "(if pending_index_entry r1 then add_index_entry r1 (FindShortestSeparator (tb_last_key r1) k) else Some r1) = Some r2"
    using a(1) st r1 unfolding tb_Add_def big_def by (auto split: bind_splits)
  let ?r = "r2\<lparr>tb_last_key := k, num_entries := num_entries r2 + 1\<rparr>"
  obtain b where b: "Add (restart_interval (tb_options r2)) (data_block r2) k v = Some b"
    using a(1) st r1 r2 unfolding tb_Add_def big_def by (auto split: bind_splits)
  have r': "(if of_nat (CurrentSizeEstimate b) \<ge> block_size_opt (tb_options r2) then Flush h sn Append (?r\<lparr>data_block := b\<rparr>)
      else Some (?r\<lparr>data_block := b\<rparr>)) = Some r'"
    using a(1) st r1 r2 b unfolding tb_Add_def big_def by (simp add: Let_def)
  have st2: "tb_status r2 = None"
    using r' a(2) by (auto simp: Flush_def split: if_splits)
  have st1: "tb_status r1 = None"
    using r2 st2 by (auto simp: add_index_entry_def split: if_splits bind_splits)
  obtain bs1 cur1 where inv1: "tb_inv h sn contents r1 kvs ies bs1 cur1" and l1: "last_ok r1 kvs" and o1: "tb_options r1 = tb_options r"
  proof (cases big)
    case True
    then show ?thesis using Flush_inv [OF h inv _ st1] r1 l that by (auto simp: last_ok_def)
  next
    case False
    then show ?thesis using r1 inv l that by auto
  qed
  obtain ies2 where inv2: "tb_inv h sn contents (?r\<lparr>data_block := b\<rparr>) (kvs @ [(k, v)]) ies2 bs1 (cur1 @ [(k, v)])" and o2: "tb_options r2 = tb_options r1"
  proof (cases "pending_index_entry r1")
    case False
    then have [simp]: "r2 = r1" using r2 by simp
    have "add_all (restart_interval (tb_options r1)) new_BlockBuilder (cur1 @ [(k, v)]) = Some b"
      using inv1 b by (simp add: tb_inv_def add_all_append)
    moreover have "\<forall>i < length ies. bless (fst (ies ! i)) k" using index_below_new [OF inv1 k] by blast
    ultimately show ?thesis using inv1 False by (intro that [of ies]) (auto simp: tb_inv_def)
  next
    case True
    then have c: "cur1 = []" using inv1 by (simp add: tb_inv_def)
    have "bs1 \<noteq> []" using inv1 True by (auto simp: tb_inv_def)
    then have "last bs1 \<in> set bs1" by simp
    moreover from this have "blk_entries (last bs1) \<noteq> []" using inv1 unfolding tb_inv_def blocks_ok_def by blast
    ultimately have ne: "kvs \<noteq> []" using inv1 by (auto simp: tb_inv_def)
    then have lk: "tb_last_key r1 = fst (last kvs)" using l1 by (simp add: last_ok_def)
    then have lt: "bless (tb_last_key r1) k" using k ne by simp
    let ?sep = "FindShortestSeparator (tb_last_key r1) k" and ?e = "handle_EncodeTo [] (blk_handle (last bs1))"
    note f = FindShortestSeparator_between [OF lt]
    note sep = sep_last_block [OF inv1 [unfolded c] True l1 srt0 f(1,3)]
    have add: "add_index_entry r1 ?sep = Some r2" using r2 True by simp
    note s = add_index_inv [OF inv1 [unfolded c] True sep add]
    have "add_all (restart_interval (tb_options r2)) new_BlockBuilder [(k, v)] = Some b"
      using inv1 b s(4,5) c by (simp add: tb_inv_def)
    moreover have "\<forall>i < length (ies @ [(?sep, ?e)]). bless (fst ((ies @ [(?sep, ?e)]) ! i)) k"
      using index_below_new [OF inv1 k] f(2) by (auto simp: nth_append less_Suc_eq)
    ultimately show ?thesis using inv1 s c by (intro that [of "ies @ [(?sep, ?e)]"]) (auto simp: tb_inv_def)
  qed
  show ?thesis
  proof (cases "of_nat (CurrentSizeEstimate b) \<ge> block_size_opt (tb_options r2)")
    case True
    then have "Flush h sn Append (?r\<lparr>data_block := b\<rparr>) = Some r'" using r' by simp
    from Flush_inv [OF h inv2 this a(2)] show ?thesis using o1 o2 by (auto simp: last_ok_def)
  next
    case False
    then show ?thesis using r' inv2 o1 o2 by (auto simp: last_ok_def)
  qed
qed

end

text \<open>A client that adds a list of entries.\<close>

fun tb_add_all :: "host \<Rightarrow> snappy \<Rightarrow> 'f append_fun \<Rightarrow> 'f table_builder \<Rightarrow> (bytes \<times> bytes) list \<Rightarrow> 'f table_builder option" where
  "tb_add_all h sn Append r [] = Some r"
| "tb_add_all h sn Append r ((k, v) # kvs) = Option.bind (tb_Add h sn Append r k v) (\<lambda>r. tb_add_all h sn Append r kvs)"

lemma tb_add_all_error: "tb_status r \<noteq> None \<Longrightarrow> tb_add_all h sn Append r kvs = Some r"
  by (induction kvs) (auto simp: tb_Add_def)

context writable_file
begin

lemma tb_add_all_inv:
  "host_ok h \<Longrightarrow> tb_inv h sn contents r prev ies bs cur \<Longrightarrow> last_ok r prev \<Longrightarrow> kv_sorted (prev @ kvs) \<Longrightarrow>
   tb_add_all h sn Append r kvs = Some r' \<Longrightarrow> tb_status r' = None \<Longrightarrow>
   \<exists>ies' bs' cur'. tb_inv h sn contents r' (prev @ kvs) ies' bs' cur' \<and> last_ok r' (prev @ kvs) \<and> tb_options r' = tb_options r"
proof (induction kvs arbitrary: r prev ies bs cur)
  case (Cons kv kvs)
  obtain k v where kv: "kv = (k, v)" by fastforce
  obtain r1 where r1: "tb_Add h sn Append r k v = Some r1" "tb_add_all h sn Append r1 kvs = Some r'"
    using Cons.prems(5) by (auto simp: kv split: bind_splits)
  have st: "tb_status r1 = None" using r1(2) tb_add_all_error Cons.prems(6) by fastforce
  have srt: "kv_sorted (prev @ [(k, v)])" using Cons.prems(4) by (auto simp: kv sorted_wrt_append)
  obtain ies1 bs1 cur1 where inv1: "tb_inv h sn contents r1 (prev @ [(k, v)]) ies1 bs1 cur1" "last_ok r1 (prev @ [(k, v)])" "tb_options r1 = tb_options r"
    using tb_Add_inv [OF Cons.prems(1-3) srt r1(1) st] by blast
  from Cons.IH [OF Cons.prems(1) inv1(1,2) _ r1(2) Cons.prems(6)] Cons.prems(4) inv1(3) show ?case by (simp add: kv)
qed auto

end

section \<open>A finished table\<close>

text \<open>Data blocks, an index block that separates them, and a footer that points to the index.\<close>

definition table_file :: "bool \<Rightarrow> int \<Rightarrow> snappy \<Rightarrow> bytes \<Rightarrow> (bytes \<times> bytes) list \<Rightarrow> bool" where
  "table_file le iv sn content kvs \<longleftrightarrow>
     (\<exists>pre meta ioff ilen ies bs.
        content = pre @ footer_EncodeTo le [] \<lparr>metaindex_handle = meta,
          index_handle = \<lparr>handle_offset = of_nat ioff, handle_size = of_nat ilen\<rparr>\<rparr> \<and>
        block_in le 1 sn pre ies ioff ilen \<and> blocks_ok le iv sn pre bs \<and> kvs = concat (map blk_entries bs) \<and>
        length ies = length bs \<and> (\<forall>i < length ies. separates (ies ! i) bs i))"

context writable_file
begin

lemma tb_Finish_ok:
  assumes h: "host_ok h" and inv: "tb_inv h sn contents r kvs ies bs cur" and l: "last_ok r kvs" and srt: "kv_sorted kvs"
    and f: "tb_Finish h sn Append r = Some r'" "tb_status r' = None"
  shows "table_file (kLittleEndian h) (restart_interval (tb_options r)) sn (contents (tb_file r')) kvs"
proof -
  let ?le = "kLittleEndian h" and ?iv = "restart_interval (tb_options r)"
  obtain r1 where r1: "Flush h sn Append r = Some r1" using f(1) by (auto simp: tb_Finish_def Let_def split: bind_splits)
  have st1: "tb_status r1 = None" using f r1 by (auto simp: tb_Finish_def Let_def split: bind_splits if_splits)
  let ?r1 = "r1\<lparr>closed := True\<rparr>"
  obtain r2 mb mh where m: "WriteBlock h sn Append ?r1 new_BlockBuilder = Some (r2, mb, mh)"
    using f(1) r1 st1 by (auto simp: tb_Finish_def Let_def split: bind_splits)
  have st2: "tb_status r2 = None" using f r1 st1 m by (auto simp: tb_Finish_def Let_def split: bind_splits if_splits)
  obtain r3 where r3: "(if pending_index_entry r2 then add_index_entry r2 (FindShortSuccessor (tb_last_key r2)) else Some r2) = Some r3"
    using f(1) r1 st1 m st2 by (auto simp: tb_Finish_def Let_def split: bind_splits)
  obtain r4 ib ih where w: "WriteBlock h sn Append r3 (index_block r3) = Some (r4, ib, ih)"
    using f(1) r1 st1 m st2 r3 by (auto simp: tb_Finish_def Let_def split: bind_splits)
  let ?ft = "footer_EncodeTo ?le [] \<lparr>metaindex_handle = mh, index_handle = ih\<rparr>"
  have fin: "tb_Finish h sn Append r = Some (if tb_status r4 = None then
      (case Append (tb_file r4) ?ft of
         (Some e, f) \<Rightarrow> r4\<lparr>index_block := ib, tb_file := f, tb_status := Some e\<rparr>
       | (None, f) \<Rightarrow> r4\<lparr>index_block := ib, tb_file := f, tb_offset := tb_offset r4 + of_nat (length ?ft)\<rparr>)
      else r4\<lparr>index_block := ib\<rparr>)"
    using r1 st1 m st2 r3 w by (simp add: tb_Finish_def Let_def cong: option.case_cong prod.case_cong)
  have st4: "tb_status r4 = None" using fin f by (auto split: if_splits)
  obtain sa fa where a: "Append (tb_file r4) ?ft = (sa, fa)" by fastforce
  have sa: "sa = None" using fin f st4 a by (cases sa) auto
  have r': "contents (tb_file r') = contents (tb_file r4) @ ?ft"
    using fin f st4 a sa append_ok by auto
  obtain bs1 where inv1: "tb_inv h sn contents r1 kvs ies bs1 []" "tb_options r1 = tb_options r" "tb_last_key r1 = tb_last_key r"
    using Flush_inv [OF h inv r1 st1] by blast
  obtain f2 raw2 t2 c2 where w2: "contents f2 = contents (tb_file r1) @ stored t2 c2"
    "r2 = ?r1\<lparr>tb_file := f2, tb_status := None, tb_offset := tb_offset r1 + of_nat (length (stored t2 c2))\<rparr>"
    using WriteBlock_ok [OF h m st2] by auto
  have inv2: "tb_inv h sn contents r2 kvs ies bs1 []"
    using inv1(1) w2 blocks_ok_append by (auto simp: tb_inv_def)
  have l2: "last_ok r2 kvs" using l w2(2) inv1(3) by (simp add: last_ok_def)
  obtain ies3 where s3: "length bs1 = length ies3" "add_all 1 new_BlockBuilder ies3 = Some (index_block r3)"
    "\<forall>i < length ies3. separates (ies3 ! i) bs1 i" "tb_file r3 = tb_file r2" "tb_offset r3 = tb_offset r2"
  proof (cases "pending_index_entry r2")
    case False
    then show ?thesis using that [of ies] r3 inv2 by (auto simp: tb_inv_def)
  next
    case True
    note sep = sep_last_block [OF inv2 True l2 srt FindShortSuccessor_above]
    have "add_index_entry r2 (FindShortSuccessor (tb_last_key r2)) = Some r3" using r3 True by simp
    note s = add_index_inv [OF inv2 True sep this]
    show ?thesis by (rule that [OF s(7,8,9,3,2)])
  qed
  obtain b4 raw t c f4 where w4: "Finish ?le (index_block r3) = Some (b4, raw)" "decodes sn t c raw"
    "contents f4 = contents (tb_file r3) @ stored t c" "tb_file r4 = f4" "ih = \<lparr>handle_offset = tb_offset r3, handle_size = of_nat (length c)\<rparr>"
    using WriteBlock_ok [OF h w st4] by auto
  let ?pre = "contents (tb_file r4)" and ?ioff = "length (contents (tb_file r2))"
  have "built ?le 1 ies3 raw" using s3(2) w4(1) by (auto simp: built_def)
  then have i: "block_in ?le 1 sn ?pre ies3 ?ioff (length c)"
    using block_in_new [of ?le 1 ies3 raw sn t c "contents (tb_file r2)"] w4 s3(4) by simp
  have "blocks_ok ?le ?iv sn (contents (tb_file r2)) bs1" using inv2 w2(2) inv1(2) by (simp add: tb_inv_def)
  then have b: "blocks_ok ?le ?iv sn ?pre bs1" using w4(3,4) s3(4) blocks_ok_append by simp
  have "tb_offset r3 = of_nat ?ioff" using inv2 s3(5) by (simp add: tb_inv_def)
  then have ih: "ih = \<lparr>handle_offset = of_nat ?ioff, handle_size = of_nat (length c)\<rparr>" using w4(5) by simp
  have "kvs = concat (map blk_entries bs1)" using inv2 by (simp add: tb_inv_def)
  then show ?thesis
    unfolding table_file_def r' using i b s3 ih by (metis (no_types, lifting))
qed

end

section \<open>Block sizes\<close>

definition table_size :: "(bytes \<times> bytes) list \<Rightarrow> nat" where
  "table_size kvs = sum_list (map (\<lambda>(k, v). length k + length v + 39) kvs) + 8"

lemma length_EncodeVarint32: "length (EncodeVarint32 v) \<le> 5"
proof -
  have "unat v < 128 ^ 5" using unsigned_less [of v, where 'a = nat] by simp
  then show ?thesis unfolding EncodeVarint32_varint by (rule length_varint_le) simp
qed

lemma Add_size:
  assumes "Add iv b k v = Some b'"
  shows "length (buffer b') \<le> length (buffer b) + length k + length v + 15" "length (restarts b') \<le> Suc (length (restarts b))"
proof -
  define sh where "sh = (if counter b < iv then shared_prefix (last_key b) k else 0)"
  have "buffer b' = buffer b @ entry_bytes sh k v"
    using assms by (auto simp: Add_def sh_def entry_bytes_def PutVarint32_def Let_def uint32_max_def unat_of_nat take_bit_nat_eq_self
        split: if_splits)
  moreover have "length (entry_bytes sh k v) \<le> length k + length v + 15"
    using length_EncodeVarint32 [of "of_nat sh"] length_EncodeVarint32 [of "of_nat (length k - sh)"] length_EncodeVarint32 [of "of_nat (length v)"]
    by (simp add: entry_bytes_def)
  ultimately show "length (buffer b') \<le> length (buffer b) + length k + length v + 15" by simp
  show "length (restarts b') \<le> Suc (length (restarts b))" using assms by (auto simp: Add_def Let_def split: if_splits)
qed

lemma add_all_size:
  "add_all iv b kvs = Some b' \<Longrightarrow>
    length (buffer b') + 4 * length (restarts b') \<le>
      length (buffer b) + 4 * length (restarts b) + sum_list (map (\<lambda>(k, v). length k + length v + 19) kvs)"
proof (induction kvs arbitrary: b)
  case (Cons kv kvs)
  obtain k v where kv: "kv = (k, v)" by fastforce
  obtain b1 where b1: "Add iv b k v = Some b1" "add_all iv b1 kvs = Some b'"
    using Cons.prems by (auto simp: kv split: bind_splits)
  show ?case using Cons.IH [OF b1(2)] Add_size [OF b1(1)] by (simp add: kv)
qed simp

lemma built_size:
  assumes "built le iv kvs raw"
  shows "length raw \<le> sum_list (map (\<lambda>(k, v). length k + length v + 19) kvs) + 8"
proof -
  obtain b b' where b: "add_all iv new_BlockBuilder kvs = Some b" "Finish le b = Some (b', raw)" using assms by (auto simp: built_def)
  have "length (fold (\<lambda>r buf. PutFixed32 le buf r) rs buf) = length buf + 4 * length rs" for rs buf
    by (induction rs arbitrary: buf) (simp_all add: PutFixed32_def)
  then have "length raw = length (buffer b) + 4 * length (restarts b) + 4"
    using b(2) by (auto simp: Finish_def Let_def PutFixed32_def split: if_splits)
  then show ?thesis using add_all_size [OF b(1)] by (simp add: new_BlockBuilder_def)
qed

end
