(* ===== verification/TwoLevelIterator.thy ===== *)
theory TwoLevelIterator
  imports TableIterator
begin

text \<open>
  \<^verbatim>\<open>core/lib/io/two_level_iterator.cc\<close>: an iterator over a sequence of blocks,
  driven by an index iterator whose values are block handles. The callback
  \<open>block_function_\<close> with its \<open>arg_\<close> is the argument \<open>f\<close>. The result is again an
  interpretation of \<open>sorted_iterator\<close>.
\<close>

section \<open>The iterator\<close>

record two_level =
  index_iter :: block_iterator
  data_iter :: "block_iterator option"
  data_block_handle :: bytes
  tl_error :: "error_code option"

definition NewTwoLevelIterator :: "block_iterator \<Rightarrow> two_level" where
  "NewTwoLevelIterator it = \<lparr>index_iter = it, data_iter = None, data_block_handle = [], tl_error = None\<rparr>"

definition tl_Valid :: "two_level \<Rightarrow> bool" where
  "tl_Valid w = (case data_iter w of None \<Rightarrow> False | Some it \<Rightarrow> bi_Valid it)"

definition tl_entry :: "two_level \<Rightarrow> bytes \<times> bytes" where
  "tl_entry w = (case data_iter w of None \<Rightarrow> ([], []) | Some it \<Rightarrow> bi_entry it)"

definition tl_status :: "two_level \<Rightarrow> error_code option" where
  "tl_status w =
     (if bi_status (index_iter w) \<noteq> None then bi_status (index_iter w)
      else case data_iter w of
             None \<Rightarrow> tl_error w
           | Some it \<Rightarrow> if bi_status it \<noteq> None then bi_status it else tl_error w)"

definition SaveError :: "two_level \<Rightarrow> error_code option \<Rightarrow> two_level" where
  "SaveError w s = (if tl_error w = None \<and> s \<noteq> None then w\<lparr>tl_error := s\<rparr> else w)"

definition SetDataIterator :: "two_level \<Rightarrow> block_iterator option \<Rightarrow> two_level" where
  "SetDataIterator w it =
     (let w = (case data_iter w of None \<Rightarrow> w | Some old \<Rightarrow> SaveError w (bi_status old))
      in w\<lparr>data_iter := it\<rparr>)"

definition InitDataBlock :: "(bytes \<Rightarrow> block_iterator option) \<Rightarrow> two_level \<Rightarrow> two_level option" where
  "InitDataBlock f w =
     (if \<not> bi_Valid (index_iter w) then Some (SetDataIterator w None)
      else
        (let handle = snd (bi_entry (index_iter w))
         in if data_iter w \<noteq> None \<and> compare handle (data_block_handle w) = 0 then Some w
            else do {
              it \<leftarrow> f handle;
              Some (SetDataIterator (w\<lparr>data_block_handle := handle\<rparr>) (Some it))
            }))"

text \<open>\<open>if (data_iter_ != nullptr) data_iter_->op\<close>\<close>

definition on_data :: "(block_iterator \<Rightarrow> block_iterator option) \<Rightarrow> two_level \<Rightarrow> two_level option" where
  "on_data oper w =
     (case data_iter w of
        None \<Rightarrow> Some w
      | Some it \<Rightarrow> map_option (\<lambda>it. w\<lparr>data_iter := Some it\<rparr>) (oper it))"

partial_function (option) SkipEmptyDataBlocksForward ::
    "bool \<Rightarrow> (bytes \<Rightarrow> block_iterator option) \<Rightarrow> two_level \<Rightarrow> two_level option" where
  "SkipEmptyDataBlocksForward le f w =
     (if tl_Valid w then Some w
      else if \<not> bi_Valid (index_iter w) then Some (SetDataIterator w None)
      else do {
        it \<leftarrow> bi_Next le (index_iter w);
        w \<leftarrow> InitDataBlock f (w\<lparr>index_iter := it\<rparr>);
        w \<leftarrow> on_data (bi_SeekToFirst le) w;
        SkipEmptyDataBlocksForward le f w
      })"

definition tl_Seek :: "bool \<Rightarrow> (bytes \<Rightarrow> block_iterator option) \<Rightarrow> two_level \<Rightarrow> bytes \<Rightarrow> two_level option" where
  "tl_Seek le f w target =
     do {
       it \<leftarrow> bi_Seek le (index_iter w) target;
       w \<leftarrow> InitDataBlock f (w\<lparr>index_iter := it\<rparr>);
       w \<leftarrow> on_data (\<lambda>it. bi_Seek le it target) w;
       SkipEmptyDataBlocksForward le f w
     }"

definition tl_SeekToFirst :: "bool \<Rightarrow> (bytes \<Rightarrow> block_iterator option) \<Rightarrow> two_level \<Rightarrow> two_level option" where
  "tl_SeekToFirst le f w =
     do {
       it \<leftarrow> bi_SeekToFirst le (index_iter w);
       w \<leftarrow> InitDataBlock f (w\<lparr>index_iter := it\<rparr>);
       w \<leftarrow> on_data (bi_SeekToFirst le) w;
       SkipEmptyDataBlocksForward le f w
     }"

definition tl_Next :: "bool \<Rightarrow> (bytes \<Rightarrow> block_iterator option) \<Rightarrow> two_level \<Rightarrow> two_level option" where
  "tl_Next le f w =
     (case data_iter w of
        None \<Rightarrow> None
      | Some it \<Rightarrow> do { it \<leftarrow> bi_Next le it; SkipEmptyDataBlocksForward le f (w\<lparr>data_iter := Some it\<rparr>) })"

section \<open>Partitioned sources\<close>

text \<open>
  \<open>partition le f ies blocks\<close>: the index entries \<open>ies\<close> are separators and handles of the
  non-empty \<open>blocks\<close>; a separator is at least every key of its block and below every key
  of the later blocks; the callback returns for each handle a fresh iterator of its block.
\<close>

definition partition :: "bool \<Rightarrow> (bytes \<Rightarrow> block_iterator option) \<Rightarrow> (bytes \<times> bytes) list \<Rightarrow> (bytes \<times> bytes) list list \<Rightarrow> bool" where
  "partition le f ies blocks \<longleftrightarrow> length ies = length blocks \<and> distinct (map snd ies) \<and>
     (\<forall>i < length blocks. blocks ! i \<noteq> [] \<and>
        (\<exists>it. f (snd (ies ! i)) = Some it \<and> block_at le (blocks ! i) it None) \<and>
        (\<forall>kv \<in> set (blocks ! i). \<not> bless (fst (ies ! i)) (fst kv)) \<and>
        (\<forall>j < length blocks. i < j \<longrightarrow> (\<forall>kv \<in> set (blocks ! j). bless (fst (ies ! i)) (fst kv))))"

text \<open>The invariant of the members between operations.\<close>

definition tl_inv :: "bool \<Rightarrow> (bytes \<times> bytes) list \<Rightarrow> (bytes \<times> bytes) list list \<Rightarrow> two_level \<Rightarrow> bool" where
  "tl_inv le ies blocks w \<longleftrightarrow> (\<exists>p. block_at le ies (index_iter w) p) \<and> tl_error w = None \<and>
     (\<forall>it. data_iter w = Some it \<longrightarrow>
        (\<exists>i < length blocks. data_block_handle w = snd (ies ! i) \<and> (\<exists>p. block_at le (blocks ! i) it p)))"

text \<open>The index is at block \<open>i\<close> and the data iterator has \<open>r\<close> of it ahead.\<close>

definition in_block :: "bool \<Rightarrow> (bytes \<times> bytes) list \<Rightarrow> (bytes \<times> bytes) list list \<Rightarrow> two_level \<Rightarrow> nat \<Rightarrow> (bytes \<times> bytes) list \<Rightarrow> bool" where
  "in_block le ies blocks w i r \<longleftrightarrow> i < length blocks \<and> block_at le ies (index_iter w) (Some (drop i ies)) \<and>
     tl_error w = None \<and> data_block_handle w = snd (ies ! i) \<and>
     (\<exists>it. data_iter w = Some it \<and> block_at le (blocks ! i) it (Some r))"

definition tl_at :: "bool \<Rightarrow> (bytes \<Rightarrow> block_iterator option) \<Rightarrow> (bytes \<times> bytes) list \<Rightarrow> two_level \<Rightarrow> (bytes \<times> bytes) list option \<Rightarrow> bool" where
  "tl_at le f kvs w p \<longleftrightarrow> (\<exists>ies blocks. partition le f ies blocks \<and> kvs = concat blocks \<and> tl_inv le ies blocks w \<and>
     (case p of None \<Rightarrow> True
      | Some rest \<Rightarrow> rest = [] \<and> data_iter w = None \<or>
          (\<exists>i r. rest = r @ concat (drop (Suc i) blocks) \<and> r \<noteq> [] \<and> in_block le ies blocks w i r)))"

lemma in_block_inv: "in_block le ies blocks w i r \<Longrightarrow> tl_inv le ies blocks w"
  by (auto simp: in_block_def tl_inv_def) blast

lemma partition_len: "partition le f ies blocks \<Longrightarrow> length ies = length blocks"
  by (simp add: partition_def)

text \<open>Positioning the index and initialising the block.\<close>

lemma InitDataBlock_end:
  assumes "tl_inv le ies blocks w" "block_at le ies it (Some [])"
  shows "\<exists>w'. InitDataBlock f (w\<lparr>index_iter := it\<rparr>) = Some w' \<and> tl_inv le ies blocks w' \<and>
    data_iter w' = None \<and> index_iter w' = it"
proof -
  have "\<not> bi_Valid it" using block.valid_at [OF assms(2)] by simp
  then have "InitDataBlock f (w\<lparr>index_iter := it\<rparr>) = Some (SetDataIterator (w\<lparr>index_iter := it\<rparr>) None)"
    by (simp add: InitDataBlock_def)
  moreover have "bi_status d = None" if "data_iter w = Some d" for d
    using assms(1) that block.status_at unfolding tl_inv_def by blast
  ultimately show ?thesis using assms
    by (auto simp: tl_inv_def SetDataIterator_def SaveError_def Let_def split: option.split)
qed

lemma InitDataBlock_block:
  assumes part: "partition le f ies blocks" and inv: "tl_inv le ies blocks w"
    and i: "i < length blocks" and at: "block_at le ies it (Some (drop i ies))"
  shows "\<exists>w' d p. InitDataBlock f (w\<lparr>index_iter := it\<rparr>) = Some w' \<and> index_iter w' = it \<and> tl_error w' = None \<and>
    data_block_handle w' = snd (ies ! i) \<and> data_iter w' = Some d \<and> block_at le (blocks ! i) d p"
proof -
  have li: "i < length ies" using part i by (simp add: partition_def)
  then have d: "drop i ies = ies ! i # drop (Suc i) ies" by (simp add: Cons_nth_drop_Suc)
  have v: "bi_Valid it" "bi_entry it = ies ! i"
    using block.valid_at [OF at] block.entry_at_hd [OF at [unfolded d]] d by simp_all
  show ?thesis
  proof (cases "data_iter w \<noteq> None \<and> compare (snd (ies ! i)) (data_block_handle w) = 0")
    case True
    then obtain dt where dt: "data_iter w = Some dt" "data_block_handle w = snd (ies ! i)"
      by (auto simp: compare_zero_iff)
    then obtain j p where j: "j < length blocks" "snd (ies ! i) = snd (ies ! j)" "block_at le (blocks ! j) dt p"
      using inv by (auto simp: tl_inv_def)
    have "map snd ies ! i = map snd ies ! j" "distinct (map snd ies)" using j part i by (simp_all add: partition_def)
    then have "i = j" using j(1) i part by (metis length_map nth_eq_iff_index_eq partition_def)
    then show ?thesis using True v inv dt j by (auto simp: InitDataBlock_def tl_inv_def)
  next
    case False
    obtain dt where dt: "f (snd (ies ! i)) = Some dt" "block_at le (blocks ! i) dt None"
      using part i by (auto simp: partition_def)
    have "bi_status old = None" if "data_iter w = Some old" for old
      using inv that block.status_at unfolding tl_inv_def by blast
    then show ?thesis using False v inv dt
      by (auto simp: InitDataBlock_def Let_def tl_inv_def SetDataIterator_def SaveError_def split: option.split)
  qed
qed

lemma enter_block:
  assumes part: "partition le f ies blocks" and inv: "tl_inv le ies blocks w"
    and i: "i < length blocks" and at: "block_at le ies it (Some (drop i ies))"
    and oper: "\<And>d p. block_at le (blocks ! i) d p \<Longrightarrow> \<exists>d'. oper d = Some d' \<and> block_at le (blocks ! i) d' (Some r)"
  shows "\<exists>w1 w2. InitDataBlock f (w\<lparr>index_iter := it\<rparr>) = Some w1 \<and> on_data oper w1 = Some w2 \<and> in_block le ies blocks w2 i r"
proof -
  obtain w1 d p where w1: "InitDataBlock f (w\<lparr>index_iter := it\<rparr>) = Some w1" "index_iter w1 = it" "tl_error w1 = None"
    "data_block_handle w1 = snd (ies ! i)" "data_iter w1 = Some d" "block_at le (blocks ! i) d p"
    using InitDataBlock_block [OF part inv i at] by blast
  obtain d' where d': "oper d = Some d'" "block_at le (blocks ! i) d' (Some r)" using oper [OF w1(6)] by blast
  then show ?thesis using w1 i at by (auto simp: on_data_def in_block_def)
qed

lemma Skip_valid:
  assumes "in_block le ies blocks w i r" "r \<noteq> []"
  shows "SkipEmptyDataBlocksForward le f w = Some w"
proof -
  have "tl_Valid w" using assms block.valid_at by (auto simp: in_block_def tl_Valid_def)
  then show ?thesis by (subst SkipEmptyDataBlocksForward.simps) simp
qed

lemma Skip_end:
  assumes "tl_inv le ies blocks w" "data_iter w = None" "block_at le ies (index_iter w) (Some [])"
  shows "SkipEmptyDataBlocksForward le f w = Some w"
proof -
  have "\<not> bi_Valid (index_iter w)" using block.valid_at [OF assms(3)] by simp
  then show ?thesis using assms(2)
    by (subst SkipEmptyDataBlocksForward.simps) (simp add: tl_Valid_def SetDataIterator_def)
qed

text \<open>What is ahead once exhausted blocks are skipped.\<close>

definition ahead :: "bool \<Rightarrow> (bytes \<times> bytes) list \<Rightarrow> (bytes \<times> bytes) list list \<Rightarrow> two_level \<Rightarrow> (bytes \<times> bytes) list \<Rightarrow> bool" where
  "ahead le ies blocks w rest \<longleftrightarrow> tl_inv le ies blocks w \<and>
     (rest = [] \<and> data_iter w = None \<or>
      (\<exists>i r. rest = r @ concat (drop (Suc i) blocks) \<and> r \<noteq> [] \<and> in_block le ies blocks w i r))"

lemma Skip_ahead:
  assumes part: "partition le f ies blocks" and ib: "in_block le ies blocks w i r"
  shows "\<exists>w'. SkipEmptyDataBlocksForward le f w = Some w' \<and> ahead le ies blocks w' (r @ concat (drop (Suc i) blocks))"
proof (cases "r = []")
  case False
  then show ?thesis using Skip_valid [OF ib] in_block_inv [OF ib] ib by (auto simp: ahead_def)
next
  case True
  have i: "i < length blocks" "block_at le ies (index_iter w) (Some (drop i ies))" and inv: "tl_inv le ies blocks w"
    using ib in_block_inv by (auto simp: in_block_def)
  have d: "drop i ies = ies ! i # drop (Suc i) ies" using i(1) partition_len [OF part] by (simp add: Cons_nth_drop_Suc)
  have nv: "\<not> tl_Valid w" using ib True block.valid_at by (auto simp: in_block_def tl_Valid_def)
  have iv: "bi_Valid (index_iter w)" using block.valid_at [OF i(2)] d by simp
  obtain it where it: "bi_Next le (index_iter w) = Some it" "block_at le ies it (Some (drop (Suc i) ies))"
    using block.advance_at [OF i(2) [unfolded d]] by blast
  show ?thesis
  proof (cases "Suc i < length blocks")
    case more: True
    obtain w1 w2 where w: "InitDataBlock f (w\<lparr>index_iter := it\<rparr>) = Some w1" "on_data (bi_SeekToFirst le) w1 = Some w2"
      "in_block le ies blocks w2 (Suc i) (blocks ! Suc i)"
      using enter_block [OF part inv more it(2), of "bi_SeekToFirst le"] block.first_at by blast
    have ne: "blocks ! Suc i \<noteq> []" using part more by (simp add: partition_def)
    have "SkipEmptyDataBlocksForward le f w = SkipEmptyDataBlocksForward le f w2"
      using nv iv it(1) w by (subst SkipEmptyDataBlocksForward.simps) simp
    also have "\<dots> = Some w2" by (rule Skip_valid [OF w(3) ne])
    finally have "SkipEmptyDataBlocksForward le f w = Some w2" .
    moreover have "concat (drop (Suc i) blocks) = blocks ! Suc i @ concat (drop (Suc (Suc i)) blocks)"
      using more by (simp add: Cons_nth_drop_Suc [symmetric])
    ultimately show ?thesis using True w(3) in_block_inv [OF w(3)] ne by (auto simp: ahead_def)
  next
    case False
    then have e: "drop (Suc i) ies = []" "drop (Suc i) blocks = []" using partition_len [OF part] by simp_all
    obtain w1 where w1: "InitDataBlock f (w\<lparr>index_iter := it\<rparr>) = Some w1" "tl_inv le ies blocks w1"
      "data_iter w1 = None" "index_iter w1 = it"
      using InitDataBlock_end [OF inv it(2) [unfolded e]] by blast
    have "SkipEmptyDataBlocksForward le f w = SkipEmptyDataBlocksForward le f w1"
      using nv iv it(1) w1 by (subst SkipEmptyDataBlocksForward.simps) (simp add: on_data_def)
    also have "\<dots> = Some w1" using Skip_end [OF w1(2,3)] it(2) e w1(4) by simp
    finally show ?thesis using True e w1 by (auto simp: ahead_def)
  qed
qed

text \<open>All keys of the blocks before the index position are below the target.\<close>

lemma dropWhile_partition:
  fixes t :: bytes
  assumes part: "partition le f ies blocks"
  defines "i \<equiv> length (takeWhile (below t) ies)"
  shows "dropWhile (below t) (concat blocks) =
    (if i < length blocks then dropWhile (below t) (blocks ! i) @ concat (drop (Suc i) blocks) else [])"
proof -
  have len: "length ies = length blocks" by (rule partition_len [OF part])
  have before: "\<forall>kv \<in> set (concat (take i blocks)). below t kv"
  proof (intro ballI)
    fix kv assume "kv \<in> set (concat (take i blocks))"
    then obtain b where "b \<in> set (take i blocks)" and kv: "kv \<in> set b" by auto
    then obtain j where j: "j < i" "j < length blocks" "b = blocks ! j" by (auto simp: in_set_conv_nth)
    note j = j(1,2) kv [unfolded j(3)]
    have "takeWhile (below t) ies ! j = ies ! j" using j(1) by (simp add: i_def takeWhile_nth)
    then have "below t (ies ! j)" using j(1) by (metis i_def nth_mem set_takeWhileD)
    moreover have "\<not> bless (fst (ies ! j)) (fst kv)" using part j(2,3) by (auto simp: partition_def)
    ultimately show "below t kv" using bless_le_trans by blast
  qed
  have split: "concat blocks = concat (take i blocks) @ concat (drop i blocks)"
    by (simp flip: concat_append)
  have 1: "dropWhile (below t) (concat blocks) = dropWhile (below t) (concat (drop i blocks))"
    unfolding split by (rule dropWhile_append2) (use before in blast)
  show ?thesis
  proof (cases "i < length blocks")
    case False
    then show ?thesis using 1 by simp
  next
    case True
    have nb: "\<not> below t (ies ! i)" using True len unfolding i_def by (metis nth_length_takeWhile)
    have after: "\<not> below t kv" if "kv \<in> set (blocks ! j)" "i < j" "j < length blocks" for j kv
    proof -
      have "bless (fst (ies ! i)) (fst kv)" using part that True by (auto simp: partition_def)
      with nb show ?thesis using bless_trans by blast
    qed
    have d: "drop i blocks = blocks ! i # drop (Suc i) blocks" using True by (simp add: Cons_nth_drop_Suc)
    have hd: "dropWhile (below t) (concat (drop (Suc i) blocks)) = concat (drop (Suc i) blocks)"
    proof (cases "concat (drop (Suc i) blocks)")
      case (Cons kv rest)
      then have "kv \<in> set (concat (drop (Suc i) blocks))" by simp
      then obtain b where b: "b \<in> set (drop (Suc i) blocks)" "kv \<in> set b" by auto
      then obtain m where "m < length blocks - Suc i" "b = blocks ! (Suc i + m)" by (auto simp: in_set_conv_nth)
      then have "i < Suc i + m" "Suc i + m < length blocks" "kv \<in> set (blocks ! (Suc i + m))" using b(2) by simp_all
      then show ?thesis using Cons after by simp
    next
      case Nil
      show ?thesis unfolding Nil by simp
    qed
    have "dropWhile (below t) (blocks ! i @ ys) = dropWhile (below t) (blocks ! i) @ ys" if "dropWhile (below t) ys = ys" for ys
      using that by (simp add: dropWhile_append dropWhile_eq_Nil_conv)
    then show ?thesis using True 1 hd d by simp
  qed
qed

section \<open>The two-level iterator is a sorted iterator\<close>

lemma tl_at_ahead:
  assumes "partition le f ies blocks" "ahead le ies blocks w rest"
  shows "tl_at le f (concat blocks) w (Some rest)"
  using assms unfolding tl_at_def ahead_def option.case by blast

lemma tl_at_Seek:
  assumes "tl_at le f kvs w p"
  shows "\<exists>w'. tl_Seek le f w t = Some w' \<and> tl_at le f kvs w' (Some (dropWhile (below t) kvs))"
proof -
  obtain ies blocks where part: "partition le f ies blocks" and kvs: "kvs = concat blocks" and inv: "tl_inv le ies blocks w"
    using assms unfolding tl_at_def by blast
  let ?i = "length (takeWhile (below t) ies)"
  obtain p' where "block_at le ies (index_iter w) p'" using inv by (auto simp: tl_inv_def)
  from block.seek_at [OF this, of t] obtain it where it: "bi_Seek le (index_iter w) t = Some it"
    "block_at le ies it (Some (drop ?i ies))" by (auto simp: dropWhile_drop)
  show ?thesis
  proof (cases "?i < length blocks")
    case True
    obtain w1 w2 where w: "InitDataBlock f (w\<lparr>index_iter := it\<rparr>) = Some w1" "on_data (\<lambda>d. bi_Seek le d t) w1 = Some w2"
      "in_block le ies blocks w2 ?i (dropWhile (below t) (blocks ! ?i))"
      using enter_block [OF part inv True it(2), of "\<lambda>d. bi_Seek le d t"] block.seek_at by blast
    obtain w' where "SkipEmptyDataBlocksForward le f w2 = Some w'"
      "ahead le ies blocks w' (dropWhile (below t) (blocks ! ?i) @ concat (drop (Suc ?i) blocks))"
      using Skip_ahead [OF part w(3)] by blast
    then show ?thesis using it w tl_at_ahead [OF part] True
      by (simp add: tl_Seek_def kvs dropWhile_partition [OF part])
  next
    case False
    then have "drop ?i ies = []" using partition_len [OF part] by simp
    with it(2) obtain w1 where w1: "InitDataBlock f (w\<lparr>index_iter := it\<rparr>) = Some w1" "tl_inv le ies blocks w1"
      "data_iter w1 = None" "index_iter w1 = it" "block_at le ies it (Some [])"
      using InitDataBlock_end [OF inv, of it f] by auto
    have "SkipEmptyDataBlocksForward le f w1 = Some w1" using Skip_end [OF w1(2,3)] w1(4,5) by simp
    moreover have "ahead le ies blocks w1 []" using w1 by (simp add: ahead_def)
    ultimately show ?thesis using it w1(1,3) tl_at_ahead [OF part] False
      by (simp add: tl_Seek_def on_data_def kvs dropWhile_partition [OF part])
  qed
qed

lemma tl_at_SeekToFirst:
  assumes "tl_at le f kvs w p"
  shows "\<exists>w'. tl_SeekToFirst le f w = Some w' \<and> tl_at le f kvs w' (Some kvs)"
proof -
  obtain ies blocks where part: "partition le f ies blocks" and kvs: "kvs = concat blocks" and inv: "tl_inv le ies blocks w"
    using assms unfolding tl_at_def by blast
  obtain p' where "block_at le ies (index_iter w) p'" using inv by (auto simp: tl_inv_def)
  from block.first_at [OF this] obtain it where it: "bi_SeekToFirst le (index_iter w) = Some it" "block_at le ies it (Some ies)" by blast
  show ?thesis
  proof (cases "blocks = []")
    case True
    then have "ies = []" using partition_len [OF part] by simp
    with it(2) obtain w1 where w1: "InitDataBlock f (w\<lparr>index_iter := it\<rparr>) = Some w1" "tl_inv le ies blocks w1"
      "data_iter w1 = None" "index_iter w1 = it" "block_at le ies it (Some [])"
      using InitDataBlock_end [OF inv, of it f] by auto
    have "SkipEmptyDataBlocksForward le f w1 = Some w1" using Skip_end [OF w1(2,3)] w1(4,5) by simp
    moreover have "ahead le ies blocks w1 []" using w1 by (simp add: ahead_def)
    ultimately show ?thesis using it w1(1,3) tl_at_ahead [OF part] True
      by (simp add: tl_SeekToFirst_def on_data_def kvs)
  next
    case False
    then have 0: "0 < length blocks" "block_at le ies it (Some (drop 0 ies))" using it(2) by simp_all
    obtain w1 w2 where w: "InitDataBlock f (w\<lparr>index_iter := it\<rparr>) = Some w1" "on_data (bi_SeekToFirst le) w1 = Some w2"
      "in_block le ies blocks w2 0 (blocks ! 0)"
      using enter_block [OF part inv 0, of "bi_SeekToFirst le"] block.first_at by blast
    obtain w' where "SkipEmptyDataBlocksForward le f w2 = Some w'" "ahead le ies blocks w' (blocks ! 0 @ concat (drop 1 blocks))"
      using Skip_ahead [OF part w(3)] by auto
    moreover have "concat blocks = blocks ! 0 @ concat (drop 1 blocks)" using False by (cases blocks) simp_all
    ultimately show ?thesis using it w tl_at_ahead [OF part] by (simp add: tl_SeekToFirst_def kvs)
  qed
qed

lemma tl_at_Next:
  assumes "tl_at le f kvs w (Some (kv # rest))"
  shows "\<exists>w'. tl_Next le f w = Some w' \<and> tl_at le f kvs w' (Some rest)"
proof -
  obtain ies blocks i r where part: "partition le f ies blocks" and kvs: "kvs = concat blocks"
    and r: "kv # rest = r @ concat (drop (Suc i) blocks)" "r \<noteq> []" and ib: "in_block le ies blocks w i r"
    using assms unfolding tl_at_def by auto
  obtain r' where r': "r = kv # r'" "rest = r' @ concat (drop (Suc i) blocks)" using r by (cases r) auto
  obtain d where d: "data_iter w = Some d" "block_at le (blocks ! i) d (Some (kv # r'))"
    using ib r'(1) by (auto simp: in_block_def)
  from block.advance_at [OF d(2)] obtain d' where d': "bi_Next le d = Some d'" "block_at le (blocks ! i) d' (Some r')" by blast
  have "in_block le ies blocks (w\<lparr>data_iter := Some d'\<rparr>) i r'" using ib d'(2) by (simp add: in_block_def)
  from Skip_ahead [OF part this] tl_at_ahead [OF part] show ?thesis
    using d(1) d'(1) r'(2) by (auto simp: tl_Next_def kvs)
qed

interpretation two_level: sorted_iterator tl_Valid tl_entry "tl_Next le f" "tl_Seek le f" "tl_SeekToFirst le f" tl_status kvs "tl_at le f kvs"
proof unfold_locales
  show "tl_Valid w \<longleftrightarrow> rest \<noteq> []" if "tl_at le f kvs w (Some rest)" for w rest
    using that by (auto simp: tl_at_def in_block_def tl_Valid_def block.valid_at)
  show "tl_entry w = kv" if "tl_at le f kvs w (Some (kv # rest))" for w kv rest
  proof -
    from that obtain ies blocks i r where r: "kv # rest = r @ concat (drop (Suc i) blocks)" "r \<noteq> []" and ib: "in_block le ies blocks w i r"
      unfolding tl_at_def by auto
    then obtain r' where "r = kv # r'" by (cases r) auto
    with ib show ?thesis by (auto simp: in_block_def tl_entry_def block.entry_at_hd)
  qed
  show "tl_status w = None" if "tl_at le f kvs w p" for w p
  proof -
    from that obtain ies blocks where inv: "tl_inv le ies blocks w" unfolding tl_at_def by blast
    then have "bi_status (index_iter w) = None" "\<And>d. data_iter w = Some d \<Longrightarrow> bi_status d = None" "tl_error w = None"
      using block.status_at unfolding tl_inv_def by blast+
    then show ?thesis by (simp add: tl_status_def split: option.split)
  qed
qed (use tl_at_Seek tl_at_SeekToFirst tl_at_Next in blast)+

end
