(* ===== verification/TableReader.thy ===== *)
theory TableReader
  imports TableWrite TwoLevelIterator
begin

text \<open>
  \<^verbatim>\<open>core/lib/io/table.cc\<close>: opening a table file, the callback that turns an
  index value into an iterator over a data block, and lookups, and what they return on a file
  that holds a table. The reads of a table are numbered by their place in the code: footer, index
  block, data block.
\<close>

section \<open>Table\<close>

record table =
  rep_metaindex_handle :: block_handle
  rep_index_block :: block

definition Open :: "host \<Rightarrow> snappy \<Rightarrow> read_fun \<Rightarrow> uint64 \<Rightarrow> table status_or option" where
  "Open h sn read sz =
     (if sz < of_nat kEncodedLength then Some (Err DATA_LOSS)
      else do {
        (s, footer_input) \<leftarrow> read 0 (sz - of_nat kEncodedLength) kEncodedLength;
        case s of
          Some e \<Rightarrow> Some (Err e)
        | None \<Rightarrow>
            do {
              ft \<leftarrow> footer_DecodeFrom (kLittleEndian h) footer_input;
              case ft of
                Inl e \<Rightarrow> Some (Err e)
              | Inr (ft, _) \<Rightarrow>
                  do {
                    c \<leftarrow> ReadBlock h sn read 1 (index_handle ft);
                    case c of
                      Inl e \<Rightarrow> Some (Err e)
                    | Inr contents \<Rightarrow>
                        do {
                          b \<leftarrow> Block (kLittleEndian h) contents;
                          Some (Ok \<lparr>rep_metaindex_handle = metaindex_handle ft, rep_index_block = b\<rparr>)
                        }
                  }
            }
      })"

definition BlockReader :: "host \<Rightarrow> snappy \<Rightarrow> read_fun \<Rightarrow> bytes \<Rightarrow> block_iterator option" where
  "BlockReader h sn read index_value =
     (case handle_DecodeFrom index_value of
        Inl e \<Rightarrow> Some (ErrorIterator e)
      | Inr (handle, _) \<Rightarrow>
          do {
            c \<leftarrow> ReadBlock h sn read 2 handle;
            case c of
              Inl e \<Rightarrow> Some (ErrorIterator e)
            | Inr contents \<Rightarrow> do { b \<leftarrow> Block (kLittleEndian h) contents; NewIterator (kLittleEndian h) b }
          })"

definition table_NewIterator :: "host \<Rightarrow> table \<Rightarrow> two_level option" where
  "table_NewIterator h t = map_option NewTwoLevelIterator (NewIterator (kLittleEndian h) (rep_index_block t))"

text \<open>The status, and the entry that \<open>saver\<close> was called with, if it was.\<close>

definition InternalGet :: "host \<Rightarrow> snappy \<Rightarrow> read_fun \<Rightarrow> table \<Rightarrow> bytes \<Rightarrow> (error_code option \<times> (bytes \<times> bytes) option) option" where
  "InternalGet h sn read t k =
     do {
       iiter \<leftarrow> NewIterator (kLittleEndian h) (rep_index_block t);
       iiter \<leftarrow> bi_Seek (kLittleEndian h) iiter k;
       (s, saved) \<leftarrow>
         (if bi_Valid iiter then
            do {
              block_iter \<leftarrow> BlockReader h sn read (snd (bi_entry iiter));
              block_iter \<leftarrow> bi_Seek (kLittleEndian h) block_iter k;
              Some (bi_status block_iter, if bi_Valid block_iter then Some (bi_entry block_iter) else None)
            }
          else Some (None, None));
       Some (if s = None then bi_status iiter else s, saved)
     }"

definition ApproximateOffsetOf :: "host \<Rightarrow> table \<Rightarrow> bytes \<Rightarrow> uint64 option" where
  "ApproximateOffsetOf h t key =
     do {
       index_iter \<leftarrow> NewIterator (kLittleEndian h) (rep_index_block t);
       index_iter \<leftarrow> bi_Seek (kLittleEndian h) index_iter key;
       Some (if bi_Valid index_iter then
               (case handle_DecodeFrom (snd (bi_entry index_iter)) of
                  Inr (handle, _) \<Rightarrow> handle_offset handle
                | Inl _ \<Rightarrow> handle_offset (rep_metaindex_handle t))
             else handle_offset (rep_metaindex_handle t))
     }"

section \<open>The blocks of a table partition its entries\<close>

lemma separators_sorted:
  assumes ne: "\<forall>b \<in> set bs. blk_entries b \<noteq> []" and len: "length ies = length bs" and sep: "\<forall>i < length ies. separates (ies ! i) bs i"
  shows "kv_sorted ies"
  unfolding sorted_wrt_iff_nth_less
proof (intro allI impI)
  fix i j assume ij: "i < j" "j < length ies"
  then have "bs ! j \<in> set bs" using len by simp
  then obtain kv where kv: "kv \<in> set (blk_entries (bs ! j))" using ne by (metis list.set_intros(1) list.exhaust)
  have "separates (ies ! i) bs i" "separates (ies ! j) bs j" using sep ij by simp_all
  then have "bless (fst (ies ! i)) (fst kv)" "\<not> bless (fst (ies ! j)) (fst kv)" using kv ij len by (auto simp: separates_def)
  then show "bless (fst (ies ! i)) (fst (ies ! j))" using not_bless_cases bless_trans by metis
qed

lemma sorted_wrt_part: "sorted_wrt P (concat (map g bs)) \<Longrightarrow> b \<in> set bs \<Longrightarrow> sorted_wrt P (g b)"
  by (induction bs) (auto simp: sorted_wrt_append)

lemma sum_list_part:
  fixes g :: "bytes \<times> bytes \<Rightarrow> nat"
  assumes "b \<in> set bs"
  shows "sum_list (map g (blk_entries b)) \<le> sum_list (map g (concat (map blk_entries bs)))"
  using assms by (induction bs) auto

lemma index_size:
  assumes ne: "\<forall>b \<in> set bs. blk_entries b \<noteq> []" and len: "length ies = length bs" and sep: "\<forall>i < length ies. separates (ies ! i) bs i"
  shows "sum_list (map (\<lambda>(k, v). length k + length v + 19) ies) + 8 \<le> table_size (concat (map blk_entries bs))"
proof -
  let ?g = "\<lambda>(k, v). length k + length v + (39 :: nat)"
  have each: "(\<lambda>(k, v). length k + length v + 19) (ies ! i) \<le> sum_list (map ?g (blk_entries (bs ! i)))" if "i < length ies" for i
  proof -
    have s: "separates (ies ! i) bs i" using sep that by simp
    have "bs ! i \<in> set bs" using len that by simp
    then have "last (blk_entries (bs ! i)) \<in> set (blk_entries (bs ! i))" using ne by simp
    then have "?g (last (blk_entries (bs ! i))) \<le> sum_list (map ?g (blk_entries (bs ! i)))"
      by (intro member_le_sum_list) auto
    moreover have "length (snd (ies ! i)) \<le> 20" using s length_handle by (simp add: separates_def kMaxEncodedLength_def)
    ultimately show ?thesis using s by (auto simp: separates_def split_beta)
  qed
  have "sum_list (map (\<lambda>(k, v). length k + length v + 19) ies) \<le> sum_list (map (\<lambda>b. sum_list (map ?g (blk_entries b))) bs)"
    using each len by (simp add: sum_list_sum_nth) (intro sum_mono, simp)
  also have "\<dots> = sum_list (map ?g (concat (map blk_entries bs)))"
    by (induction bs) simp_all
  finally show ?thesis by (simp add: table_size_def)
qed

lemma sum_list_weaken:
  "sum_list (map (\<lambda>(k, v). length k + length v + (19 :: nat)) kvs) + 8 \<le> table_size kvs"
  unfolding table_size_def by (intro add_right_mono sum_list_mono) auto

lemma handles_distinct:
  assumes ok: "blocks_ok le iv sn pre bs" and small: "length pre < 2 ^ 63"
    and len: "length ies = length bs" and sep: "\<forall>i < length ies. separates (ies ! i) bs i"
  shows "distinct (map snd ies)"
  unfolding distinct_conv_nth
proof (intro allI impI)
  fix i j assume ij: "i < length (map snd ies)" "j < length (map snd ies)" "i \<noteq> j"
  then have i: "i < length bs" and j: "j < length bs" using len by simp_all
  have srt: "sorted_wrt (<) (map blk_offset bs)" using ok by (simp add: blocks_ok_def)
  have lt: "blk_offset (bs ! a) < blk_offset (bs ! b)" if "a < b" "b < length bs" for a b
    using sorted_wrt_nth_less [OF srt that(1)] that by simp
  have ne: "blk_offset (bs ! i) \<noteq> blk_offset (bs ! j)"
    using lt [of i j] lt [of j i] i j ij(3) by (cases "i < j") auto
  have off: "blk_offset (bs ! m) < 2 ^ 63" if "m < length bs" for m
  proof -
    have "bs ! m \<in> set bs" using that by simp
    then have "block_in le iv sn pre (blk_entries (bs ! m)) (blk_offset (bs ! m)) (blk_size (bs ! m))"
      using ok by (simp add: blocks_ok_def)
    from block_in_less [OF this] show ?thesis using small by linarith
  qed
  have un: "unat (of_nat x :: uint64) = x" if "x < 2 ^ 63" for x
    using that unfolding unat_of_nat by (simp add: take_bit_nat_eq_self)
  have "(of_nat (blk_offset (bs ! i)) :: uint64) \<noteq> of_nat (blk_offset (bs ! j))"
    using un [OF off [OF i]] un [OF off [OF j]] ne by metis
  then have "blk_handle (bs ! i) \<noteq> blk_handle (bs ! j)" by (simp add: blk_handle_def)
  moreover have "snd (ies ! i) = handle_EncodeTo [] (blk_handle (bs ! i))" "snd (ies ! j) = handle_EncodeTo [] (blk_handle (bs ! j))"
    using sep i j len by (simp_all add: separates_def)
  ultimately show "map snd ies ! i \<noteq> map snd ies ! j"
    using ij handle_EncodeTo_inj by auto
qed

context reliable_file
begin

lemma ReadBlock_in:
  assumes h: "host_ok h" and sn: "snappy_ok sn" and b: "block_in (kLittleEndian h) iv sn content kvs off len"
    and srt: "kv_sorted kvs" and sz: "sum_list (map (\<lambda>(k, v). length k + length v + 19) kvs) + 8 \<le> uint32_max"
  shows "\<exists>raw blk bi. ReadBlock h sn read k \<lparr>handle_offset = of_nat off, handle_size = of_nat len\<rparr> = Some (Ok raw) \<and>
    Block (kLittleEndian h) raw = Some blk \<and> NewIterator (kLittleEndian h) blk = Some bi \<and> block_at (kLittleEndian h) kvs bi None"
proof -
  obtain raw t c rest where r: "built (kLittleEndian h) iv kvs raw" "decodes sn t c raw" "drop off content = stored t c @ rest"
    "off \<le> length content" "length c = len" using b by (auto simp: block_in_def)
  obtain b1 b2 where b1: "add_all iv new_BlockBuilder kvs = Some b1" "Finish (kLittleEndian h) b1 = Some (b2, raw)"
    using r(1) by (auto simp: built_def)
  have "length raw \<le> uint32_max" using built_size [OF r(1)] sz by simp
  from block_at_new [OF b1 this srt] obtain bi where bi: "Option.bind (Block (kLittleEndian h) raw) (NewIterator (kLittleEndian h)) = Some bi"
    "block_at (kLittleEndian h) kvs bi None" by blast
  then obtain blk where "Block (kLittleEndian h) raw = Some blk" "NewIterator (kLittleEndian h) blk = Some bi"
    by (auto split: bind_splits)
  moreover have "ReadBlock h sn read k \<lparr>handle_offset = of_nat off, handle_size = of_nat len\<rparr> = Some (Ok raw)"
    using ReadBlock_stored [OF h sn r(2,3,4)] r(5) by simp
  ultimately show ?thesis using bi(2) by blast
qed

lemma table_opens:
  assumes h: "host_ok h" and sn: "snappy_ok sn" and tf: "table_file (kLittleEndian h) iv sn content kvs"
    and srt: "kv_sorted kvs" and sz: "table_size kvs \<le> uint32_max"
  shows "\<exists>t bi ies blocks. Open h sn read (of_nat (length content)) = Some (Ok t) \<and>
    NewIterator (kLittleEndian h) (rep_index_block t) = Some bi \<and> block_at (kLittleEndian h) ies bi None \<and>
    partition (kLittleEndian h) (BlockReader h sn read) ies blocks \<and> kvs = concat blocks"
proof -
  let ?le = "kLittleEndian h"
  obtain pre meta ioff ilen ies bs where t: "content = pre @ footer_EncodeTo ?le [] \<lparr>metaindex_handle = meta,
        index_handle = \<lparr>handle_offset = of_nat ioff, handle_size = of_nat ilen\<rparr>\<rparr>"
    "block_in ?le 1 sn pre ies ioff ilen" "blocks_ok ?le iv sn pre bs" "kvs = concat (map blk_entries bs)"
    "length ies = length bs" "\<forall>i < length ies. separates (ies ! i) bs i"
    using tf by (auto simp: table_file_def)
  let ?ft = "footer_EncodeTo ?le [] \<lparr>metaindex_handle = meta, index_handle = \<lparr>handle_offset = of_nat ioff, handle_size = of_nat ilen\<rparr>\<rparr>"
  have ne: "\<forall>b \<in> set bs. blk_entries b \<noteq> []" using t(3) by (simp add: blocks_ok_def)
  have flen: "length ?ft = 48" by (simp add: length_footer kEncodedLength_def kMaxEncodedLength_def)
  have clen: "length content = length pre + 48" unfolding t(1) using flen by simp
  have pre63: "length pre < 2 ^ 63" using clen file_size by simp
  have u: "unat (of_nat (length content) :: uint64) = length content" "unat (of_nat (length pre) :: uint64) = length pre"
    using file_size pre63 unfolding unat_of_nat by (simp_all add: take_bit_nat_eq_self)
  have size: "\<not> (of_nat (length content) :: uint64) < of_nat kEncodedLength"
    using clen u(1) by (simp add: word_less_nat_alt kEncodedLength_def kMaxEncodedLength_def)
  have start: "(of_nat (length content) :: uint64) - of_nat kEncodedLength = of_nat (length pre)"
    by (simp add: clen kEncodedLength_def kMaxEncodedLength_def)
  have "take 48 (drop (length pre) content) = ?ft" unfolding t(1) using flen by simp
  then have rd: "read 0 (of_nat (length pre)) kEncodedLength = Some (None, ?ft)"
    using read_within [of "of_nat (length pre)" 48 0] u(2) clen flen by (simp add: kEncodedLength_def kMaxEncodedLength_def)
  have isz: "sum_list (map (\<lambda>(k, v). length k + length v + 19) ies) + 8 \<le> uint32_max"
    using index_size [OF ne t(5,6)] sz t(4) by simp
  have "block_in ?le 1 sn content ies ioff ilen" unfolding t(1) by (rule block_in_append [OF t(2)])
  from ReadBlock_in [OF h sn this separators_sorted [OF ne t(5,6)] isz, of 1]
  obtain raw blk bi where i: "ReadBlock h sn read 1 \<lparr>handle_offset = of_nat ioff, handle_size = of_nat ilen\<rparr> = Some (Ok raw)"
    "Block ?le raw = Some blk" "NewIterator ?le blk = Some bi" "block_at ?le ies bi None" by blast
  have opened: "Open h sn read (of_nat (length content)) = Some (Ok \<lparr>rep_metaindex_handle = meta, rep_index_block = blk\<rparr>)"
    unfolding Open_def start using size rd i(1,2) by (simp add: footer_roundtrip)
  have blocks: "blk_entries (bs ! i) \<noteq> [] \<and> (\<exists>it. BlockReader h sn read (snd (ies ! i)) = Some it \<and> block_at ?le (blk_entries (bs ! i)) it None)"
    if "i < length bs" for i
  proof -
    have m: "bs ! i \<in> set bs" using that by simp
    then have "block_in ?le iv sn pre (blk_entries (bs ! i)) (blk_offset (bs ! i)) (blk_size (bs ! i))" using t(3) by (simp add: blocks_ok_def)
    then have b: "block_in ?le iv sn content (blk_entries (bs ! i)) (blk_offset (bs ! i)) (blk_size (bs ! i))"
      unfolding t(1) by (rule block_in_append)
    have "sum_list (map (\<lambda>(k, v). length k + length v + 19) (blk_entries (bs ! i))) + 8 \<le> uint32_max"
      using sum_list_part [OF m, of "\<lambda>(k, v). length k + length v + 19"] sum_list_weaken [of kvs] sz t(4) by simp
    moreover have "kv_sorted (blk_entries (bs ! i))"
      using sorted_wrt_part [OF _ m] srt unfolding t(4) by blast
    ultimately obtain raw' blk' bi' where r: "ReadBlock h sn read 2 \<lparr>handle_offset = of_nat (blk_offset (bs ! i)), handle_size = of_nat (blk_size (bs ! i))\<rparr> = Some (Ok raw')"
      "Block ?le raw' = Some blk'" "NewIterator ?le blk' = Some bi'" "block_at ?le (blk_entries (bs ! i)) bi' None"
      using ReadBlock_in [OF h sn b, of 2] by blast
    have "snd (ies ! i) = handle_EncodeTo [] (blk_handle (bs ! i))" using t(5,6) that by (simp add: separates_def)
    then have "BlockReader h sn read (snd (ies ! i)) = Some bi'"
      using r handle_roundtrip [of "blk_handle (bs ! i)" "[]"] by (simp add: BlockReader_def blk_handle_def)
    then show ?thesis using r(4) ne m by blast
  qed
  have "distinct (map snd ies)" using handles_distinct [OF t(3) pre63 t(5,6)] .
  then have "partition ?le (BlockReader h sn read) ies (map blk_entries bs)"
    using blocks t(5,6) by (auto simp: partition_def separates_def)
  then show ?thesis using opened i(3,4) t(4) by (intro exI [of _ "\<lparr>rep_metaindex_handle = meta, rep_index_block = blk\<rparr>"] exI [of _ bi] exI [of _ ies] exI [of _ "map blk_entries bs"]) simp
qed

end

section \<open>Lookups\<close>

lemma dropWhile_hit:
  assumes "kv_sorted kvs" "(k, v) \<in> set kvs"
  shows "\<exists>rest. dropWhile (below k) kvs = (k, v) # rest"
  using assms by (induction kvs) auto

text \<open>The block the index points to holds the key, if any block does.\<close>

lemma partition_hit:
  assumes part: "partition le f ies blocks" and kv: "(k, v) \<in> set (concat blocks)"
  defines "i \<equiv> length (takeWhile (below k) ies)"
  shows "i < length blocks \<and> (k, v) \<in> set (blocks ! i)"
proof -
  have len: "length ies = length blocks" by (rule partition_len [OF part])
  obtain j where j: "j < length blocks" "(k, v) \<in> set (blocks ! j)" using kv by (metis UN_E in_set_conv_nth set_concat)
  have "\<not> bless (fst (ies ! j)) (fst (k, v))" using part j unfolding partition_def by blast
  then have "\<not> bless (fst (ies ! j)) k" by simp
  moreover have "below k (ies ! m)" if "m < i" for m
    using that unfolding i_def by (metis nth_mem set_takeWhileD takeWhile_nth)
  ultimately have ij: "i \<le> j" using not_le by blast
  have i: "i < length ies" using ij j(1) len by simp
  then have "\<not> below k (ies ! i)" unfolding i_def by (rule nth_length_takeWhile)
  moreover have "i < j \<longrightarrow> bless (fst (ies ! i)) (fst (k, v))" using part j i len unfolding partition_def by metis
  ultimately have "\<not> i < j" by simp
  then show ?thesis using ij j by auto
qed

lemma InternalGet_partition:
  assumes part: "partition (kLittleEndian h) (BlockReader h sn read) ies blocks" and srt: "kv_sorted (concat blocks)"
    and bi: "NewIterator (kLittleEndian h) (rep_index_block t) = Some bi" "block_at (kLittleEndian h) ies bi None"
  shows "\<exists>res. InternalGet h sn read t k = Some (None, res) \<and> (\<forall>v. (k, v) \<in> set (concat blocks) \<longrightarrow> res = Some (k, v)) \<and>
    (res = None \<or> (\<exists>e rest. res = Some e \<and> dropWhile (below k) (concat blocks) = e # rest))"
proof -
  let ?le = "kLittleEndian h" and ?i = "length (takeWhile (below k) ies)" and ?dw = "dropWhile (below k) (concat blocks)"
  note dw = dropWhile_partition [OF part, of k]
  have len: "length ies = length blocks" by (rule partition_len [OF part])
  from block.seek_at [OF bi(2), of k] obtain it where it: "bi_Seek ?le bi k = Some it" "block_at ?le ies it (Some (drop ?i ies))"
    by (auto simp: dropWhile_drop)
  show ?thesis
  proof (cases "?i < length blocks")
    case False
    then have "\<not> bi_Valid it" using block.valid_at [OF it(2)] len by simp
    moreover have "(k, v) \<notin> set (concat blocks)" for v using partition_hit [OF part] False by blast
    ultimately show ?thesis using bi(1) it(1) block.status_at [OF it(2)] by (simp add: InternalGet_def)
  next
    case True
    then have d: "drop ?i ies = ies ! ?i # drop (Suc ?i) ies" using len by (simp add: Cons_nth_drop_Suc)
    have ix: "bi_Valid it" "bi_entry it = ies ! ?i" using block.valid_at [OF it(2)] block.entry_at_hd it(2) d by auto
    obtain bl where bl: "BlockReader h sn read (snd (ies ! ?i)) = Some bl" "block_at ?le (blocks ! ?i) bl None"
      using part True by (auto simp: partition_def)
    from block.seek_at [OF bl(2), of k] obtain bl' where bl': "bi_Seek ?le bl k = Some bl'"
      "block_at ?le (blocks ! ?i) bl' (Some (dropWhile (below k) (blocks ! ?i)))" by blast
    have g: "InternalGet h sn read t k = Some (None, if bi_Valid bl' then Some (bi_entry bl') else None)"
      using bi(1) it(1) ix bl(1) bl'(1) block.status_at [OF it(2)] block.status_at [OF bl'(2)] by (simp add: InternalGet_def)
    show ?thesis
    proof (cases "dropWhile (below k) (blocks ! ?i)")
      case Nil
      then have "(k, v) \<notin> set (blocks ! ?i)" for v by (auto simp: dropWhile_eq_Nil_conv)
      then have "(k, v) \<notin> set (concat blocks)" for v using partition_hit [OF part, of k v] by blast
      then show ?thesis using g block.valid_at [OF bl'(2)] Nil by simp
    next
      case (Cons e rest)
      then have r: "bi_Valid bl'" "bi_entry bl' = e" using block.valid_at [OF bl'(2)] block.entry_at_hd bl'(2) by auto
      have "?dw = e # rest @ concat (drop (Suc ?i) blocks)" using dw True Cons by simp
      moreover from this have "e = (k, v)" if "(k, v) \<in> set (concat blocks)" for v using dropWhile_hit [OF srt that] by auto
      ultimately show ?thesis using g r by auto
    qed
  qed
qed

end
