(* ===== verification/TableSystem.thy ===== *)
theory TableSystem
  imports TableReader
begin

text \<open>
  The table writer, the file, the checksums, the blocks and the two-level iterator together:
  building a table ends without a failed \<open>CHECK\<close>, and a table that was written is read as
  the sorted list of its entries.
\<close>

section \<open>Building a table ends\<close>

definition builder_size :: "block_builder \<Rightarrow> nat" where
  "builder_size b = length (buffer b) + 4 * length (restarts b)"

lemma Add_total:
  assumes "builder_size b \<le> uint32_max" "length k \<le> uint32_max" "length v \<le> uint32_max"
  shows "\<exists>b'. Add iv b k v = Some b' \<and> builder_size b' \<le> builder_size b + length k + length v + 19"
proof -
  have "shared_prefix a k \<le> length k" for a by (induction a k rule: shared_prefix.induct) auto
  then have "shared_prefix (last_key b) k \<le> uint32_max" using assms(2) order_trans by blast
  then have "Add iv b k v \<noteq> None"
    using assms by (simp add: Add_def Let_def builder_size_def) linarith
  then obtain b' where b': "Add iv b k v = Some b'" by blast
  then show ?thesis using Add_size [OF b'] by (auto simp: builder_size_def)
qed

text \<open>No write fails.\<close>

definition writes_ok :: "'f append_fun \<Rightarrow> bool" where
  "writes_ok Append \<longleftrightarrow> (\<forall>f d. fst (Append f d) = None)"

lemma WriteRawBlock_total:
  assumes h: "host_ok h"
  shows "\<exists>f s off handle. WriteRawBlock h Append r c ty = Some (r\<lparr>tb_file := f, tb_status := s, tb_offset := off\<rparr>, handle) \<and>
    (writes_ok Append \<longrightarrow> s = None)"
proof -
  have crc: "crc_value h c = Some (crc32c 0 c)" "ExtendCrc (kLittleEndian h) (sse42 h) a (crc32c 0 c) [type_byte ty] = Some (crc32c 0 (c @ [type_byte ty]))" for a
    using h by (simp_all add: crc_value_eq Extend_crc crc32c_append)
  let ?tr = "type_byte ty # EncodeFixed32 (kLittleEndian h) (Mask (crc32c 0 (c @ [type_byte ty])))"
  obtain s f where f: "Append (tb_file r) c = (s, f)" by fastforce
  obtain s' f' where f': "Append f ?tr = (s', f')" by fastforce
  have ok: "writes_ok Append \<Longrightarrow> s = None \<and> s' = None" using f f' unfolding writes_ok_def by (metis fst_conv)
  have r: "r\<lparr>tb_file := g, tb_status := e\<rparr> = r\<lparr>tb_file := g, tb_status := e, tb_offset := tb_offset r\<rparr>" for g e by simp
  show ?thesis
  proof (cases s)
    case (Some e)
    then show ?thesis using f ok by (auto simp: WriteRawBlock_def Let_def intro: r)
  next
    case None
    then show ?thesis using f f' ok by (cases s') (auto simp: WriteRawBlock_def Let_def crc intro: r)
  qed
qed

lemma WriteBlock_total:
  assumes h: "host_ok h" and sz: "builder_size b \<le> uint32_max"
  shows "\<exists>f s off handle. WriteBlock h sn Append r b = Some (r\<lparr>tb_file := f, tb_status := s, tb_offset := off\<rparr>, new_BlockBuilder, handle) \<and>
    (writes_ok Append \<longrightarrow> s = None)"
proof -
  obtain b' raw where "Finish (kLittleEndian h) b = Some (b', raw)" using sz by (auto simp: Finish_def builder_size_def Let_def)
  moreover obtain c ty where "(case compression (tb_options r) of
      kNoCompression \<Rightarrow> (raw, kNoCompression)
    | kSnappyCompression \<Rightarrow>
        (case Snappy_Compress sn raw of
           Some compressed \<Rightarrow>
             if length compressed < length raw - length raw div 8 then (compressed, kSnappyCompression)
             else (raw, kNoCompression)
         | None \<Rightarrow> (raw, kNoCompression))) = (c, ty)" by fastforce
  moreover obtain f s off handle where "WriteRawBlock h Append r c ty = Some (r\<lparr>tb_file := f, tb_status := s, tb_offset := off\<rparr>, handle)"
    "writes_ok Append \<longrightarrow> s = None" using WriteRawBlock_total [OF h, of Append r c ty] by blast
  ultimately show ?thesis by (simp add: WriteBlock_def Reset_new) blast
qed

text \<open>
  \<open>n\<close> bounds the sizes of the two blocks. The key of the block that is not in the index yet
  is accounted for.
\<close>

definition tb_small :: "'f table_builder \<Rightarrow> nat \<Rightarrow> bool" where
  "tb_small r n \<longleftrightarrow> builder_size (data_block r) \<le> n \<and> builder_size (index_block r) \<le> n \<and>
     (pending_index_entry r \<or> buffer (data_block r) \<noteq> [] \<longrightarrow> builder_size (index_block r) + length (tb_last_key r) + 39 \<le> n)"

lemma builder_size_new: "builder_size new_BlockBuilder = 4"
  by (simp add: builder_size_def new_BlockBuilder_def)

lemma Flush_total:
  assumes h: "host_ok h" and small: "tb_small r n" "4 \<le> n" "n \<le> uint32_max"
  shows "\<exists>r'. Flush h sn Append r = Some r' \<and> tb_small r' n \<and> (writes_ok Append \<and> tb_status r = None \<longrightarrow> tb_status r' = None)"
proof (cases "tb_status r = None \<and> buffer (data_block r) \<noteq> []")
  case False
  then show ?thesis using small by (auto simp: Flush_def)
next
  case True
  have "builder_size (data_block r) \<le> uint32_max" using small by (simp add: tb_small_def)
  from WriteBlock_total [OF h this, of sn Append r] obtain f s off handle where
    w: "WriteBlock h sn Append r (data_block r) = Some (r\<lparr>tb_file := f, tb_status := s, tb_offset := off\<rparr>, new_BlockBuilder, handle)"
      "writes_ok Append \<longrightarrow> s = None" by blast
  then show ?thesis using True small
    by (cases s) (auto simp: Flush_def Let_def tb_small_def builder_size_new)
qed

lemma add_index_total:
  assumes small: "tb_small r n" "n \<le> uint32_max" and p: "pending_index_entry r" and sep: "length sep \<le> length (tb_last_key r)"
  shows "\<exists>b. add_index_entry r sep = Some (r\<lparr>tb_last_key := sep, index_block := b, pending_index_entry := False\<rparr>) \<and> builder_size b \<le> n"
proof -
  let ?e = "handle_EncodeTo [] (pending_handle r)"
  have e: "length ?e \<le> 20" using length_handle by (simp add: kMaxEncodedLength_def)
  have n: "builder_size (index_block r) + length (tb_last_key r) + 39 \<le> n" using small(1) p by (simp add: tb_small_def)
  obtain b where "Add 1 (index_block r) sep ?e = Some b" "builder_size b \<le> builder_size (index_block r) + length sep + length ?e + 19"
    using Add_total [of "index_block r" sep ?e 1] n e sep small(2) by auto
  then show ?thesis using n e sep by (auto simp: add_index_entry_def)
qed

lemma length_FindShortestSeparator: "length (FindShortestSeparator a b) \<le> length a"
  by (auto simp: FindShortestSeparator_def Let_def)

lemma tb_Add_total:
  assumes h: "host_ok h" and small: "tb_small r n" "4 \<le> n" and n: "n + length k + length v + 39 \<le> uint32_max"
  shows "\<exists>r'. tb_Add h sn Append r k v = Some r' \<and> tb_small r' (n + length k + length v + 39) \<and>
    (writes_ok Append \<and> tb_status r = None \<longrightarrow> tb_status r' = None)"
proof (cases "tb_status r")
  case (Some e)
  then show ?thesis using small by (auto simp: tb_Add_def tb_small_def)
next
  case None
  define big where "big \<longleftrightarrow> num_entries r > 0 \<and> of_nat (length k + length v) \<ge> 2 * block_size_opt (tb_options r)"
  obtain r1 where r1: "(if big then Flush h sn Append r else Some r) = Some r1" "tb_small r1 n"
    "writes_ok Append \<Longrightarrow> tb_status r1 = None"
    using Flush_total [OF h small, of sn Append] n small(1) None by (cases big) auto
  obtain r2 where r2: "(if pending_index_entry r1 then add_index_entry r1 (FindShortestSeparator (tb_last_key r1) k) else Some r1) = Some r2"
    "builder_size (index_block r2) \<le> n" "data_block r2 = data_block r1" "tb_status r2 = tb_status r1" "\<not> pending_index_entry r2"
  proof (cases "pending_index_entry r1")
    case True
    then show ?thesis using add_index_total [OF r1(2) _ True length_FindShortestSeparator, of k] n that by auto
  next
    case False
    then show ?thesis using r1(2) that [of r1] by (simp add: tb_small_def)
  qed
  have d: "builder_size (data_block r2) \<le> n" using r1(2) r2(3) by (simp add: tb_small_def)
  obtain b where b: "Add (restart_interval (tb_options r2)) (data_block r2) k v = Some b"
    "builder_size b \<le> builder_size (data_block r2) + length k + length v + 19"
    using Add_total [of "data_block r2" k v] d n by (meson add_leE order_trans le_add1)
  let ?r = "r2\<lparr>tb_last_key := k, num_entries := num_entries r2 + 1, data_block := b\<rparr>" and ?n = "n + length k + length v + 39"
  have s: "tb_small ?r ?n" using b(2) d r2(2) by (simp add: tb_small_def)
  have "tb_Add h sn Append r k v = (if of_nat (CurrentSizeEstimate b) \<ge> block_size_opt (tb_options r2) then Flush h sn Append ?r else Some ?r)"
    using None r1(1) r2(1) b(1) by (simp add: tb_Add_def big_def Let_def)
  then show ?thesis using Flush_total [OF h s _ n, of sn Append] s small(2) r1(3) r2(4) by (auto split: if_splits)
qed

lemma tb_add_all_total:
  assumes h: "host_ok h"
  shows "tb_small r n \<Longrightarrow> 4 \<le> n \<Longrightarrow> n + sum_list (map (\<lambda>(k, v). length k + length v + 39) kvs) \<le> uint32_max \<Longrightarrow>
    \<exists>r'. tb_add_all h sn Append r kvs = Some r' \<and> tb_small r' (n + sum_list (map (\<lambda>(k, v). length k + length v + 39) kvs)) \<and>
      (writes_ok Append \<and> tb_status r = None \<longrightarrow> tb_status r' = None)"
proof (induction kvs arbitrary: r n)
  case (Cons kv kvs)
  obtain k v where kv: "kv = (k, v)" by fastforce
  obtain r1 where r1: "tb_Add h sn Append r k v = Some r1" "tb_small r1 (n + length k + length v + 39)"
    "writes_ok Append \<and> tb_status r = None \<longrightarrow> tb_status r1 = None"
    using tb_Add_total [OF h Cons.prems(1,2), of k v sn Append] Cons.prems(3) by (auto simp: kv)
  from Cons.IH [OF r1(2)] Cons.prems(2,3) r1(1,3) show ?case by (auto simp: kv ac_simps)
qed simp

lemma tb_Finish_total:
  assumes h: "host_ok h" and small: "tb_small r n" "4 \<le> n" "n \<le> uint32_max"
  shows "\<exists>r'. tb_Finish h sn Append r = Some r' \<and> (writes_ok Append \<and> tb_status r = None \<longrightarrow> tb_status r' = None)"
proof -
  obtain r1 where r1: "Flush h sn Append r = Some r1" "tb_small r1 n" "writes_ok Append \<and> tb_status r = None \<longrightarrow> tb_status r1 = None"
    using Flush_total [OF h small, of sn Append] by blast
  show ?thesis
  proof (cases "tb_status r1")
    case (Some e)
    then show ?thesis using r1 by (auto simp: tb_Finish_def Let_def)
  next
    case None
    let ?r1 = "r1\<lparr>closed := True\<rparr>"
    have "builder_size new_BlockBuilder \<le> uint32_max" by (simp add: builder_size_new uint32_max_def)
    from WriteBlock_total [OF h this, of sn Append ?r1] obtain f s off mh where
      m: "WriteBlock h sn Append ?r1 new_BlockBuilder = Some (?r1\<lparr>tb_file := f, tb_status := s, tb_offset := off\<rparr>, new_BlockBuilder, mh)"
        "writes_ok Append \<longrightarrow> s = None" by blast
    let ?r2 = "?r1\<lparr>tb_file := f, tb_status := s, tb_offset := off\<rparr>"
    have s2: "tb_small ?r2 n" using r1(2) by (simp add: tb_small_def)
    show ?thesis
    proof (cases s)
      case (Some e)
      then show ?thesis using r1 None m by (auto simp: tb_Finish_def Let_def)
    next
      case s: None
      obtain r3 where r3: "(if pending_index_entry ?r2 then add_index_entry ?r2 (FindShortSuccessor (tb_last_key ?r2)) else Some ?r2) = Some r3"
        "builder_size (index_block r3) \<le> n"
        using add_index_total [OF s2 small(3) _ FindShortSuccessor_above(2)] s2
        by (cases "pending_index_entry ?r2") (auto simp: tb_small_def)
      have "builder_size (index_block r3) \<le> uint32_max" using r3(2) small(3) by simp
      from WriteBlock_total [OF h this, of sn Append r3] obtain f4 s4 off4 ih where
        w: "WriteBlock h sn Append r3 (index_block r3) = Some (r3\<lparr>tb_file := f4, tb_status := s4, tb_offset := off4\<rparr>, new_BlockBuilder, ih)"
          "writes_ok Append \<longrightarrow> s4 = None" by blast
      let ?ft = "footer_EncodeTo (kLittleEndian h) [] \<lparr>metaindex_handle = mh, index_handle = ih\<rparr>"
      obtain s5 f5 where f5: "Append f4 ?ft = (s5, f5)" by fastforce
      have "writes_ok Append \<Longrightarrow> s5 = None" using f5 unfolding writes_ok_def by (metis fst_conv)
      then show ?thesis using r1(1) None m(1) s r3(1) w f5
        by (cases s4; cases s5) (auto simp: tb_Finish_def Let_def)
    qed
  qed
qed

lemma table_builds_size:
  assumes h: "host_ok h" and sz: "table_size kvs \<le> uint32_max"
  shows "\<exists>r r'. tb_add_all h sn Append (new_TableBuilder opt f) kvs = Some r \<and> tb_Finish h sn Append r = Some r' \<and>
    (writes_ok Append \<longrightarrow> tb_status r' = None)"
proof -
  let ?n = "4 + sum_list (map (\<lambda>(k, v). length k + length v + 39) kvs)"
  have small: "tb_small (new_TableBuilder opt f) 4" by (simp add: tb_small_def new_TableBuilder_def builder_size_new) (simp add: new_BlockBuilder_def)
  have n: "?n \<le> uint32_max" using sz by (simp add: table_size_def)
  from tb_add_all_total [OF h small _ n, of sn Append] obtain r where r: "tb_add_all h sn Append (new_TableBuilder opt f) kvs = Some r"
    "tb_small r ?n" "writes_ok Append \<longrightarrow> tb_status r = None" by (auto simp: new_TableBuilder_def)
  from tb_Finish_total [OF h r(2) _ n, of sn Append] r show ?thesis by auto
qed

section \<open>A table is the sorted list of its entries\<close>

text \<open>
  C20. A table file behaves like the sorted list of the entries that were added. If a table is
  built from keys in strictly increasing order, whatever the block size, the restart interval and
  the compression, and no write fails, then, through any \<open>pread\<close> that makes progress, the
  file opens; its iterator reports no error, \<open>Seek\<close> followed by \<open>Next\<close> enumerates
  exactly the entries with keys not below the target and \<open>SeekToFirst\<close> all entries; and a
  lookup hands a stored key with its value to the callback, and otherwise nothing or the first
  entry with a larger key. Every loop ends, and no \<open>CHECK\<close> fails while reading. The sizes
  of the keys and values, with 39 bytes for each entry, add up to less than 4 GB.
\<close>

theorem table_sorted_map:
  assumes h: "host_ok h" and sn: "snappy_ok sn"
    and add: "tb_add_all h sn (posix_Append fwrite) (new_TableBuilder opt []) kvs = Some r"
    and fin: "tb_Finish h sn (posix_Append fwrite) r = Some r'" and ok: "tb_status r' = None"
    and srt: "sorted_wrt (\<lambda>x y. bless (fst x) (fst y)) kvs" and sz: "table_size kvs \<le> uint32_max"
    and p: "pread_regular (tb_file r') pread" "pread_reliable pread"
  shows "\<exists>t w. Open h sn (Read pread) (of_nat (length (tb_file r'))) = Some (Ok t) \<and> table_NewIterator h t = Some w \<and>
    (let le = kLittleEndian h; f = BlockReader h sn (Read pread); entries = collect tl_Valid tl_entry (tl_Next le f) (Suc (length kvs)) in
      (\<forall>target. \<exists>w'. tl_Seek le f w target = Some w' \<and> tl_status w' = None \<and>
         entries w' = Some (dropWhile (\<lambda>kv. bless (fst kv) target) kvs)) \<and>
      (\<exists>w'. tl_SeekToFirst le f w = Some w' \<and> tl_status w' = None \<and> entries w' = Some kvs) \<and>
      (\<forall>k. \<exists>res. InternalGet h sn (Read pread) t k = Some (None, res) \<and> (\<forall>v. (k, v) \<in> set kvs \<longrightarrow> res = Some (k, v)) \<and>
         (res = None \<or> (\<exists>e rest. res = Some e \<and> dropWhile (\<lambda>kv. bless (fst kv) k) kvs = e # rest))))"
proof -
  let ?le = "kLittleEndian h" and ?f = "BlockReader h sn (Read pread)"
  have st: "tb_status r = None"
  proof (cases "tb_status r")
    case (Some e)
    then have "tb_Finish h sn (posix_Append fwrite) r = Some (r\<lparr>closed := True\<rparr>)" by (simp add: tb_Finish_def Flush_def Let_def)
    then show ?thesis using fin ok by auto
  qed
  have inv0: "tb_inv h sn (\<lambda>f. f) (new_TableBuilder opt []) [] [] [] []" by (simp add: tb_inv_new)
  obtain ies bs cur where inv: "tb_inv h sn (\<lambda>f. f) r kvs ies bs cur" "last_ok r kvs"
    using posix_writable.tb_add_all_inv [OF h inv0 _ _ add st] srt by (auto simp: last_ok_def)
  note tf = posix_writable.tb_Finish_ok [OF h inv srt fin ok]
  obtain t bi ies blocks where t: "Open h sn (Read pread) (of_nat (length (tb_file r'))) = Some (Ok t)"
    "NewIterator ?le (rep_index_block t) = Some bi" "block_at ?le ies bi None" "partition ?le ?f ies blocks" "kvs = concat blocks"
    using reliable_file.table_opens [OF posix_file_interfaces(2) [OF p] h sn tf srt sz] by blast
  have w: "table_NewIterator h t = Some (NewTwoLevelIterator bi)" using t(2) by (simp add: table_NewIterator_def)
  have "tl_at ?le ?f kvs (NewTwoLevelIterator bi) None"
    using t(3-5) by (auto simp: tl_at_def tl_inv_def NewTwoLevelIterator_def)
  note it = two_level.seek_collect [OF this] two_level.first_collect [OF this]
  have "kv_sorted (concat blocks)" using srt t(5) by simp
  note get = InternalGet_partition [OF t(4) this t(2,3), folded t(5)]
  show ?thesis unfolding Let_def using t(1) w it get by blast
qed

text \<open>
  C21. Building a table ends: if the sizes of the keys and values, with 39 bytes for each
  entry, add up to less than 4 GB, then adding the entries in any order and finishing the table
  returns, whatever the options and however the writes fail. No \<open>CHECK\<close> of the block
  builders fails, neither for a data block nor for the index, and if no write fails the status
  of the finished table is OK.
\<close>

theorem table_builds:
  assumes h: "host_ok h" and sz: "table_size kvs \<le> uint32_max"
  shows "\<exists>r r'. tb_add_all h sn Append (new_TableBuilder opt f) kvs = Some r \<and> tb_Finish h sn Append r = Some r' \<and>
    ((\<forall>f d. fst (Append f d) = None) \<longrightarrow> tb_status r' = None)"
  by (rule table_builds_size [OF assms, unfolded writes_ok_def])

section \<open>Witnesses\<close>

definition snappy0 :: snappy where
  "snappy0 = \<lparr>Snappy_Compress = (\<lambda>_. None), Snappy_GetUncompressedLength = (\<lambda>_. None), Snappy_Uncompress = (\<lambda>_. None)\<rparr>"

definition options0 :: table_options where
  "options0 = \<lparr>block_size_opt = 1, restart_interval = 16, compression = kSnappyCompression\<rparr>"

definition entries0 :: "(bytes \<times> bytes) list" where
  "entries0 = [([1, 2], [7]), ([2], [8])]"

definition fwrite0 :: "bytes \<Rightarrow> bytes \<Rightarrow> nat \<times> error_code" where
  "fwrite0 f d = (length d, UNKNOWN)"

lemma writes0: "fst (posix_Append fwrite0 f d) = None"
  by (simp add: posix_Append_def fwrite0_def)

lemma entries0_ok: "table_size entries0 \<le> uint32_max" "sorted_wrt (\<lambda>x y. bless (fst x) (fst y)) entries0"
  by (simp_all add: table_size_def entries0_def uint32_max_def)

theorem table_builds_witness:
  "\<exists>r r'. tb_add_all host0 snappy0 (posix_Append fwrite0) (new_TableBuilder options0 []) entries0 = Some r \<and>
     tb_Finish host0 snappy0 (posix_Append fwrite0) r = Some r' \<and> tb_status r' = None"
  using table_builds [OF host0_ok entries0_ok(1), of snappy0 "posix_Append fwrite0" options0 "[]"] writes0 by blast

lemma WriteRawBlock0:
  "WriteRawBlock host0 (posix_Append fwrite0) r c ty =
     Some (r\<lparr>tb_file := tb_file r @ stored (type_byte ty) c, tb_status := None, tb_offset := tb_offset r + (of_nat (length c) + 5)\<rparr>,
       \<lparr>handle_offset = tb_offset r, handle_size = of_nat (length c)\<rparr>)"
proof -
  have "EncodeFixed32 True (Mask (crc32c (crc32c 0 x) y)) = crc_trailer (x @ y)" for x y
    by (simp add: EncodeFixed_memcpy crc_trailer_def crc32c_append)
  then show ?thesis using host0_ok
    by (simp add: WriteRawBlock_def Let_def posix_Append_def fwrite0_def crc_value_eq Extend_crc stored_def kBlockTrailerSize_def)
      (simp add: host0_def)
qed

text \<open>Each entry fills a block; the two writes and the end of the table are evaluated one by one.\<close>

definition builder0 :: "bytes \<Rightarrow> uint64 \<Rightarrow> block_builder \<Rightarrow> bytes \<Rightarrow> int \<Rightarrow> block_handle \<Rightarrow> bytes table_builder" where
  "builder0 f off ib k n ph = \<lparr>tb_options = options0, tb_file = f, tb_offset = off, tb_status = None, data_block = new_BlockBuilder,
     index_block = ib, tb_last_key = k, num_entries = n, closed = False, pending_index_entry = True, pending_handle = ph\<rparr>"

definition index0 :: block_builder where
  "index0 = \<lparr>buffer = [0, 2, 2, 1, 2, 0, 14], restarts = [0], counter = 1, finished = False, last_key = [1, 2]\<rparr>"

lemma small_varint: "v < 128 \<Longrightarrow> EncodeVarint64 v = [ucast v]"
  using not_less by (subst EncodeVarint64.simps) auto

lemmas table_eval = tb_Add_def Flush_def WriteBlock_def WriteRawBlock0 options0_def snappy0_def add_index_entry_def
  block_eval CurrentSizeEstimate_def Reset_def builder0_def index0_def handle_EncodeTo_def PutVarint64_def small_varint

lemma add0_first:
  "\<exists>f. tb_Add host0 snappy0 (posix_Append fwrite0) (new_TableBuilder options0 []) [1, 2] [7] =
     Some (builder0 f 19 new_BlockBuilder [1, 2] 1 \<lparr>handle_offset = 0, handle_size = 14\<rparr>) \<and> length f = 19"
  by (simp add: table_eval new_TableBuilder_def)

lemma add0_second:
  "\<exists>f'. tb_Add host0 snappy0 (posix_Append fwrite0) (builder0 f 19 new_BlockBuilder [1, 2] 1 \<lparr>handle_offset = 0, handle_size = 14\<rparr>) [2] [8] =
     Some (builder0 f' 37 index0 [2] 2 \<lparr>handle_offset = 19, handle_size = 13\<rparr>) \<and> length f' = length f + 18"
  by (simp add: table_eval FindShortestSeparator_def)

lemma finish0:
  "\<exists>r'. tb_Finish host0 snappy0 (posix_Append fwrite0) (builder0 f 37 index0 [2] 2 \<lparr>handle_offset = 19, handle_size = 13\<rparr>) = Some r' \<and>
     tb_status r' = None \<and> length (tb_file r') = length f + 91"
  by (simp add: table_eval tb_Finish_def posix_Append_def fwrite0_def length_footer kEncodedLength_def kMaxEncodedLength_def)

theorem table_sorted_map_witness:
  "\<exists>r r' t w w'. tb_add_all host0 snappy0 (posix_Append fwrite0) (new_TableBuilder options0 []) entries0 = Some r \<and>
     tb_Finish host0 snappy0 (posix_Append fwrite0) r = Some r' \<and>
     Open host0 snappy0 (Read (slow_pread (tb_file r'))) (of_nat (length (tb_file r'))) = Some (Ok t) \<and> table_NewIterator host0 t = Some w \<and>
     InternalGet host0 snappy0 (Read (slow_pread (tb_file r'))) t [2] = Some (None, Some ([2], [8])) \<and>
     (let f = BlockReader host0 snappy0 (Read (slow_pread (tb_file r')))
      in tl_Seek (kLittleEndian host0) f w [1, 5] = Some w' \<and>
         collect tl_Valid tl_entry (tl_Next (kLittleEndian host0) f) 3 w' = Some [([2], [8])])"
proof -
  obtain f where f: "tb_Add host0 snappy0 (posix_Append fwrite0) (new_TableBuilder options0 []) [1, 2] [7] =
      Some (builder0 f 19 new_BlockBuilder [1, 2] 1 \<lparr>handle_offset = 0, handle_size = 14\<rparr>)" "length f = 19" using add0_first by blast
  obtain f' where f': "tb_Add host0 snappy0 (posix_Append fwrite0) (builder0 f 19 new_BlockBuilder [1, 2] 1 \<lparr>handle_offset = 0, handle_size = 14\<rparr>) [2] [8] =
      Some (builder0 f' 37 index0 [2] 2 \<lparr>handle_offset = 19, handle_size = 13\<rparr>)" "length f' = 37" using add0_second [of f] f(2) by auto
  let ?r = "builder0 f' 37 index0 [2] 2 \<lparr>handle_offset = 19, handle_size = 13\<rparr>"
  obtain r' where r': "tb_Finish host0 snappy0 (posix_Append fwrite0) ?r = Some r'" "tb_status r' = None" "length (tb_file r') = 128"
    using finish0 [of f'] f'(2) by auto
  have r: "tb_add_all host0 snappy0 (posix_Append fwrite0) (new_TableBuilder options0 []) entries0 = Some ?r"
    using f(1) f'(1) by (simp add: entries0_def)
  have sn: "snappy_ok snappy0" by (simp add: snappy_ok_def snappy0_def)
  have p: "pread_regular (tb_file r') (slow_pread (tb_file r'))" "pread_reliable (slow_pread (tb_file r'))"
    using slow_file_ok [of "tb_file r'"] r'(3) by simp_all
  have e: "([2], [8]) \<in> set entries0" "dropWhile (\<lambda>kv. bless (fst kv) [1, 5]) entries0 = [([2], [8])]" "Suc (length entries0) = 3"
    by (simp_all add: entries0_def)
  obtain t w where t: "Open host0 snappy0 (Read (slow_pread (tb_file r'))) (of_nat (length (tb_file r'))) = Some (Ok t)" "table_NewIterator host0 t = Some w"
    "\<forall>target. \<exists>w'. tl_Seek (kLittleEndian host0) (BlockReader host0 snappy0 (Read (slow_pread (tb_file r')))) w target = Some w' \<and> tl_status w' = None \<and>
       collect tl_Valid tl_entry (tl_Next (kLittleEndian host0) (BlockReader host0 snappy0 (Read (slow_pread (tb_file r'))))) (Suc (length entries0)) w' =
         Some (dropWhile (\<lambda>kv. bless (fst kv) target) entries0)"
    "\<forall>k. \<exists>res. InternalGet host0 snappy0 (Read (slow_pread (tb_file r'))) t k = Some (None, res) \<and> (\<forall>v. (k, v) \<in> set entries0 \<longrightarrow> res = Some (k, v))"
    using table_sorted_map [OF host0_ok sn r r'(1,2) entries0_ok(2,1) p] unfolding Let_def by blast
  obtain w' where w': "tl_Seek (kLittleEndian host0) (BlockReader host0 snappy0 (Read (slow_pread (tb_file r')))) w [1, 5] = Some w'"
    "collect tl_Valid tl_entry (tl_Next (kLittleEndian host0) (BlockReader host0 snappy0 (Read (slow_pread (tb_file r'))))) 3 w' = Some [([2], [8])]"
    using t(3) e(2,3) by metis
  have "InternalGet host0 snappy0 (Read (slow_pread (tb_file r'))) t [2] = Some (None, Some ([2], [8]))" using t(4) e(1) by fastforce
  then show ?thesis unfolding Let_def using r r'(1) t(1,2) w' by blast
qed

end
