(* ===== verification/GraphCycles.thy ===== *)
theory GraphCycles
  imports Tf_Prelude "HOL-Library.Monad_Syntax"
begin

text \<open>
  \<^verbatim>\<open>compiler/jit/graphcycles/graphcycles.cc\<close>: incremental cycle detection by the
  algorithm of Pearce and Kelly, which the JIT uses to merge clusters of operations. Nodes are
  numbers; the back of the vectors \<open>stack_\<close> and \<open>free_nodes_\<close> is the head of the list.
  The operations of \<open>std::unordered_set\<close> are an argument, so that the order in which edges
  are visited is arbitrary. \<open>None\<close> is an access outside \<open>nodes_\<close> or a failed check.
\<close>

section \<open>State\<close>

record 's node_set =
  ns_empty :: 's
  ns_insert :: "int \<Rightarrow> 's \<Rightarrow> 's"
  ns_erase :: "int \<Rightarrow> 's \<Rightarrow> 's"
  ns_elems :: "'s \<Rightarrow> int list"

record ('s, 'd) node =
  rank :: int
  visited :: bool
  data :: "'d option"
  n_in :: 's
  n_out :: 's

record ('s, 'd) rep =
  nodes :: "('s, 'd) node list"
  free_nodes :: "int list"
  deltaf :: "int list"
  deltab :: "int list"
  list_ :: "int list"
  merged :: "int list"
  stack :: "int list"

definition GraphCycles :: "('s, 'd) rep" where
  "GraphCycles = \<lparr>nodes = [], free_nodes = [], deltaf = [], deltab = [], list_ = [], merged = [], stack = []\<rparr>"

text \<open>\<open>nodes_[x]\<close> as a value and as the target of an assignment.\<close>

definition node_at :: "('s, 'd) node list \<Rightarrow> int \<Rightarrow> ('s, 'd) node option" where
  "node_at ns x = (if 0 \<le> x \<and> x < int (length ns) then Some (ns ! nat x) else None)"

definition set_node :: "('s, 'd) node list \<Rightarrow> int \<Rightarrow> ('s, 'd) node \<Rightarrow> ('s, 'd) node list" where
  "set_node ns x n = ns[nat x := n]"

section \<open>Nodes and edges\<close>

definition NewNode :: "'s node_set \<Rightarrow> ('s, 'd) rep \<Rightarrow> (int \<times> ('s, 'd) rep) option" where
  "NewNode S r =
     (case free_nodes r of
        [] \<Rightarrow>
          (let n = \<lparr>rank = int (length (nodes r)), visited = False, data = None, n_in = ns_empty S, n_out = ns_empty S\<rparr>
           in Some (rank n, r\<lparr>nodes := nodes r @ [n]\<rparr>))
      | x # rest \<Rightarrow>
          do {
            n \<leftarrow> node_at (nodes r) x;
            Some (x, r\<lparr>nodes := set_node (nodes r) x (n\<lparr>data := None\<rparr>), free_nodes := rest\<rparr>)
          })"

text \<open>\<open>for (auto y : ys) nodes_[y]->in.erase(node)\<close>, and the same for \<open>out\<close>.\<close>

fun erase_in :: "'s node_set \<Rightarrow> int \<Rightarrow> int list \<Rightarrow> ('s, 'd) node list \<Rightarrow> ('s, 'd) node list option" where
  "erase_in S x [] ns = Some ns"
| "erase_in S x (y # ys) ns =
     do { n \<leftarrow> node_at ns y; erase_in S x ys (set_node ns y (n\<lparr>n_in := ns_erase S x (n_in n)\<rparr>)) }"

fun erase_out :: "'s node_set \<Rightarrow> int \<Rightarrow> int list \<Rightarrow> ('s, 'd) node list \<Rightarrow> ('s, 'd) node list option" where
  "erase_out S x [] ns = Some ns"
| "erase_out S x (y # ys) ns =
     do { n \<leftarrow> node_at ns y; erase_out S x ys (set_node ns y (n\<lparr>n_out := ns_erase S x (n_out n)\<rparr>)) }"

definition RemoveNode :: "'s node_set \<Rightarrow> ('s, 'd) rep \<Rightarrow> int \<Rightarrow> ('s, 'd) rep option" where
  "RemoveNode S r x =
     do {
       n \<leftarrow> node_at (nodes r) x;
       ns \<leftarrow> erase_in S x (ns_elems S (n_out n)) (nodes r);
       n \<leftarrow> node_at ns x;
       ns \<leftarrow> erase_out S x (ns_elems S (n_in n)) ns;
       n \<leftarrow> node_at ns x;
       Some (r\<lparr>nodes := set_node ns x (n\<lparr>n_in := ns_empty S, n_out := ns_empty S\<rparr>), free_nodes := x # free_nodes r\<rparr>)
     }"

definition GetNodeData :: "('s, 'd) rep \<Rightarrow> int \<Rightarrow> 'd option option" where
  "GetNodeData r x = map_option data (node_at (nodes r) x)"

definition SetNodeData :: "('s, 'd) rep \<Rightarrow> int \<Rightarrow> 'd option \<Rightarrow> ('s, 'd) rep option" where
  "SetNodeData r x d = do { n \<leftarrow> node_at (nodes r) x; Some (r\<lparr>nodes := set_node (nodes r) x (n\<lparr>data := d\<rparr>)\<rparr>) }"

definition HasEdge :: "'s node_set \<Rightarrow> ('s, 'd) rep \<Rightarrow> int \<Rightarrow> int \<Rightarrow> bool option" where
  "HasEdge S r x y = do { n \<leftarrow> node_at (nodes r) x; Some (y \<in> set (ns_elems S (n_out n))) }"

definition RemoveEdge :: "'s node_set \<Rightarrow> ('s, 'd) rep \<Rightarrow> int \<Rightarrow> int \<Rightarrow> ('s, 'd) rep option" where
  "RemoveEdge S r x y =
     do {
       n \<leftarrow> node_at (nodes r) x;
       let ns = set_node (nodes r) x (n\<lparr>n_out := ns_erase S y (n_out n)\<rparr>);
       n \<leftarrow> node_at ns y;
       Some (r\<lparr>nodes := set_node ns y (n\<lparr>n_in := ns_erase S x (n_in n)\<rparr>)\<rparr>)
     }"

section \<open>Depth-first searches\<close>

text \<open>
  The loop over the edges of a node: \<open>stop\<close> is the test for a cycle, \<open>keep\<close> the bound on
  the ranks that are searched. The result is false when the search stops.
\<close>

fun dfs_edges :: "(int \<Rightarrow> bool) \<Rightarrow> (int \<Rightarrow> bool) \<Rightarrow> ('s, 'd) node list \<Rightarrow> int list \<Rightarrow> int list \<Rightarrow> (bool \<times> int list) option" where
  "dfs_edges stop keep ns [] st = Some (True, st)"
| "dfs_edges stop keep ns (w # ws) st =
     do {
       nw \<leftarrow> node_at ns w;
       if stop (rank nw) then Some (False, st)
       else dfs_edges stop keep ns ws (if \<not> visited nw \<and> keep (rank nw) then w # st else st)
     }"

lemma filter_set_node:
  assumes "node_at ns x = Some n" "P n" "\<not> P n'"
  shows "length (filter P (set_node ns x n')) < length (filter P ns)"
proof -
  have x: "nat x < length ns" "n = ns ! nat x" using assms(1) by (auto simp: node_at_def split: if_splits)
  have "length (filter P (take (nat x) ns @ n' # drop (Suc (nat x)) ns)) < length (filter P (take (nat x) ns @ n # drop (Suc (nat x)) ns))"
    using assms by simp
  then show ?thesis using x by (simp add: set_node_def upd_conv_take_nth_drop id_take_nth_drop [symmetric])
qed

function (sequential) dfs_loop :: "(('s, 'd) node \<Rightarrow> int list) \<Rightarrow> (int \<Rightarrow> bool) \<Rightarrow> (int \<Rightarrow> bool) \<Rightarrow> ('s, 'd) node list \<Rightarrow>
    int list \<Rightarrow> int list \<Rightarrow> (bool \<times> ('s, 'd) node list \<times> int list \<times> int list) option" where
  "dfs_loop nxt stop keep ns delta [] = Some (True, ns, delta, [])"
| "dfs_loop nxt stop keep ns delta (n # st) =
     do {
       nn \<leftarrow> node_at ns n;
       if visited nn then dfs_loop nxt stop keep ns delta st
       else do {
         let ns = set_node ns n (nn\<lparr>visited := True\<rparr>);
         let delta = delta @ [n];
         (ok, st) \<leftarrow> dfs_edges stop keep ns (nxt nn) st;
         if ok then dfs_loop nxt stop keep ns delta st else Some (False, ns, delta, st)
       }
     }"
  by pat_completeness auto
termination
  by (relation "measures [\<lambda>(_, _, _, ns, _, _). length (filter (\<lambda>n. \<not> visited n) ns), \<lambda>(_, _, _, _, _, st). length st]")
    (auto intro: filter_set_node)

definition ForwardDFS :: "'s node_set \<Rightarrow> ('s, 'd) rep \<Rightarrow> int \<Rightarrow> int \<Rightarrow> (bool \<times> ('s, 'd) rep) option" where
  "ForwardDFS S r n upper_bound =
     do {
       (ok, ns, df, st) \<leftarrow> dfs_loop (\<lambda>nn. ns_elems S (n_out nn)) (\<lambda>k. k = upper_bound) (\<lambda>k. k < upper_bound) (nodes r) [] [n];
       Some (ok, r\<lparr>nodes := ns, deltaf := df, stack := st\<rparr>)
     }"

definition BackwardDFS :: "'s node_set \<Rightarrow> ('s, 'd) rep \<Rightarrow> int \<Rightarrow> int \<Rightarrow> ('s, 'd) rep option" where
  "BackwardDFS S r n lower_bound =
     do {
       (_, ns, db, st) \<leftarrow> dfs_loop (\<lambda>nn. ns_elems S (n_in nn)) (\<lambda>k. False) (\<lambda>k. lower_bound < k) (nodes r) [] [n];
       Some (r\<lparr>nodes := ns, deltab := db, stack := st\<rparr>)
     }"

section \<open>Reordering\<close>

text \<open>\<open>std::sort\<close> by rank; the ranks of different nodes are different.\<close>

definition Sort :: "('s, 'd) node list \<Rightarrow> int list \<Rightarrow> int list" where
  "Sort ns delta = sort_key (\<lambda>w. rank (ns ! nat w)) delta"

fun MoveToList :: "('s, 'd) node list \<Rightarrow> int list \<Rightarrow> int list \<Rightarrow> (('s, 'd) node list \<times> int list \<times> int list) option" where
  "MoveToList ns [] dst = Some (ns, [], dst)"
| "MoveToList ns (w # src) dst =
     do {
       nw \<leftarrow> node_at ns w;
       (ns', ranks, dst') \<leftarrow> MoveToList (set_node ns w (nw\<lparr>visited := False\<rparr>)) src (dst @ [w]);
       Some (ns', rank nw # ranks, dst')
     }"

fun std_merge :: "int list \<Rightarrow> int list \<Rightarrow> int list" where
  "std_merge [] ys = ys"
| "std_merge (x # xs) [] = x # xs"
| "std_merge (x # xs) (y # ys) = (if y < x then y # std_merge (x # xs) ys else x # std_merge xs (y # ys))"

fun assign_ranks :: "('s, 'd) node list \<Rightarrow> int list \<Rightarrow> int list \<Rightarrow> ('s, 'd) node list option" where
  "assign_ranks ns (w # ws) (k # ks) = do { n \<leftarrow> node_at ns w; assign_ranks (set_node ns w (n\<lparr>rank := k\<rparr>)) ws ks }"
| "assign_ranks ns [] ks = Some ns"
| "assign_ranks ns ws [] = None"

definition Reorder :: "('s, 'd) rep \<Rightarrow> ('s, 'd) rep option" where
  "Reorder r =
     do {
       let db = Sort (nodes r) (deltab r);
       let df = Sort (nodes r) (deltaf r);
       (ns, db, l) \<leftarrow> MoveToList (nodes r) db [];
       (ns, df, l) \<leftarrow> MoveToList ns df l;
       let m = std_merge db df;
       ns \<leftarrow> assign_ranks ns l m;
       Some (r\<lparr>nodes := ns, deltab := db, deltaf := df, list_ := l, merged := m\<rparr>)
     }"

fun ClearVisitedBits :: "('s, 'd) node list \<Rightarrow> int list \<Rightarrow> ('s, 'd) node list option" where
  "ClearVisitedBits ns [] = Some ns"
| "ClearVisitedBits ns (w # ws) = do { n \<leftarrow> node_at ns w; ClearVisitedBits (set_node ns w (n\<lparr>visited := False\<rparr>)) ws }"

section \<open>InsertEdge\<close>

definition InsertEdge :: "'s node_set \<Rightarrow> ('s, 'd) rep \<Rightarrow> int \<Rightarrow> int \<Rightarrow> (bool \<times> ('s, 'd) rep) option" where
  "InsertEdge S r x y =
     (if x = y then Some (False, r)
      else do {
        nx \<leftarrow> node_at (nodes r) x;
        if y \<in> set (ns_elems S (n_out nx)) then Some (True, r)
        else do {
          let ns = set_node (nodes r) x (nx\<lparr>n_out := ns_insert S y (n_out nx)\<rparr>);
          ny \<leftarrow> node_at ns y;
          let r = r\<lparr>nodes := set_node ns y (ny\<lparr>n_in := ns_insert S x (n_in ny)\<rparr>)\<rparr>;
          if rank nx \<le> rank ny then Some (True, r)
          else do {
            (ok, r) \<leftarrow> ForwardDFS S r y (rank nx);
            if \<not> ok then
              do {
                nx \<leftarrow> node_at (nodes r) x;
                let ns = set_node (nodes r) x (nx\<lparr>n_out := ns_erase S y (n_out nx)\<rparr>);
                ny \<leftarrow> node_at ns y;
                let ns = set_node ns y (ny\<lparr>n_in := ns_erase S x (n_in ny)\<rparr>);
                ns \<leftarrow> ClearVisitedBits ns (deltaf r);
                Some (False, r\<lparr>nodes := ns\<rparr>)
              }
            else
              do {
                r \<leftarrow> BackwardDFS S r x (rank ny);
                r \<leftarrow> Reorder r;
                Some (True, r)
              }
          }
        }
      })"

section \<open>Paths\<close>

fun find_edges :: "int list \<Rightarrow> int set \<Rightarrow> int list \<Rightarrow> int set \<times> int list" where
  "find_edges [] seen st = (seen, st)"
| "find_edges (w # ws) seen st = (if w \<notin> seen then find_edges ws (insert w seen) (w # st) else find_edges ws seen st)"

text \<open>The loop returns the length of the path and the array \<open>path\<close>; \<open>None\<close> if it is too short.\<close>

partial_function (option) find_loop :: "'s node_set \<Rightarrow> ('s, 'd) node list \<Rightarrow> int \<Rightarrow> int \<Rightarrow> int list \<Rightarrow> int set \<Rightarrow> int \<Rightarrow> int list \<Rightarrow>
    (int \<times> int list \<times> int list) option" where
  "find_loop S ns y max_path_len st seen path_len path =
     (case st of
        [] \<Rightarrow> Some (0, path, [])
      | n # st \<Rightarrow>
          if n < 0 then find_loop S ns y max_path_len st seen (path_len - 1) path
          else if path_len < max_path_len \<and> \<not> (0 \<le> path_len \<and> path_len < int (length path)) then None
          else
            (let path = (if path_len < max_path_len then path[nat path_len := n] else path);
                 path_len = path_len + 1;
                 st = (-1) # st
             in if n = y then Some (path_len, path, st)
                else do {
                  nn \<leftarrow> node_at ns n;
                  let (seen, st) = find_edges (ns_elems S (n_out nn)) seen st;
                  find_loop S ns y max_path_len st seen path_len path
                }))"

definition FindPath :: "'s node_set \<Rightarrow> ('s, 'd) rep \<Rightarrow> int \<Rightarrow> int \<Rightarrow> int \<Rightarrow> int list \<Rightarrow> (int \<times> int list \<times> ('s, 'd) rep) option" where
  "FindPath S r x y max_path_len path =
     do {
       (n, path, st) \<leftarrow> find_loop S (nodes r) y max_path_len [x] {} 0 path;
       Some (n, path, r\<lparr>stack := st\<rparr>)
     }"

definition IsReachable :: "'s node_set \<Rightarrow> ('s, 'd) rep \<Rightarrow> int \<Rightarrow> int \<Rightarrow> (bool \<times> ('s, 'd) rep) option" where
  "IsReachable S r x y = do { (n, _, r) \<leftarrow> FindPath S r x y 0 []; Some (n > 0, r) }"

definition IsReachableNonConst :: "'s node_set \<Rightarrow> ('s, 'd) rep \<Rightarrow> int \<Rightarrow> int \<Rightarrow> (bool \<times> ('s, 'd) rep) option" where
  "IsReachableNonConst S r x y =
     (if x = y then Some (True, r)
      else do {
        nx \<leftarrow> node_at (nodes r) x;
        ny \<leftarrow> node_at (nodes r) y;
        if rank nx \<ge> rank ny then Some (False, r)
        else do {
          (ok, r) \<leftarrow> ForwardDFS S r x (rank ny);
          ns \<leftarrow> ClearVisitedBits (nodes r) (deltaf r);
          Some (\<not> ok, r\<lparr>nodes := ns\<rparr>)
        }
      })"

section \<open>ContractEdge\<close>

fun insert_from :: "'s node_set \<Rightarrow> ('s, 'd) rep \<Rightarrow> int \<Rightarrow> int list \<Rightarrow> ('s, 'd) rep option" where
  "insert_from S r a [] = Some r"
| "insert_from S r a (y # ys) = do { (_, r) \<leftarrow> InsertEdge S r a y; insert_from S r a ys }"

fun insert_to :: "'s node_set \<Rightarrow> ('s, 'd) rep \<Rightarrow> int list \<Rightarrow> int \<Rightarrow> ('s, 'd) rep option" where
  "insert_to S r [] a = Some r"
| "insert_to S r (y # ys) a = do { (_, r) \<leftarrow> InsertEdge S r y a; insert_to S r ys a }"

text \<open>The sets of \<open>b\<close> are moved out, which leaves empty sets.\<close>

definition ContractEdge :: "'s node_set \<Rightarrow> ('s, 'd) rep \<Rightarrow> int \<Rightarrow> int \<Rightarrow> (bool \<times> ('s, 'd) rep) option" where
  "ContractEdge S r a b =
     do {
       e \<leftarrow> HasEdge S r a b;
       if \<not> e then None
       else do {
         r \<leftarrow> RemoveEdge S r a b;
         (reachable, r) \<leftarrow> IsReachableNonConst S r a b;
         if reachable then do { (_, r) \<leftarrow> InsertEdge S r a b; Some (False, r) }
         else do {
           nb \<leftarrow> node_at (nodes r) b;
           let outs = ns_elems S (n_out nb);
           let ins = ns_elems S (n_in nb);
           let ns = set_node (nodes r) b (nb\<lparr>n_out := ns_empty S, n_in := ns_empty S\<rparr>);
           ns \<leftarrow> erase_in S b outs ns;
           ns \<leftarrow> erase_out S b ins ns;
           let r = r\<lparr>nodes := ns, free_nodes := b # free_nodes r\<rparr>;
           r \<leftarrow> insert_from S r a outs;
           r \<leftarrow> insert_to S r ins a;
           Some (True, r)
         }
       }
     }"

definition Successors :: "'s node_set \<Rightarrow> ('s, 'd) rep \<Rightarrow> int \<Rightarrow> int set option" where
  "Successors S r x = map_option (\<lambda>n. set (ns_elems S (n_out n))) (node_at (nodes r) x)"

section \<open>CheckInvariants\<close>

fun check_out :: "('s, 'd) node list \<Rightarrow> ('s, 'd) node \<Rightarrow> int list \<Rightarrow> unit option" where
  "check_out ns nx [] = Some ()"
| "check_out ns nx (y # ys) = do { ny \<leftarrow> node_at ns y; if rank nx \<ge> rank ny then None else check_out ns nx ys }"

fun check_nodes :: "'s node_set \<Rightarrow> ('s, 'd) node list \<Rightarrow> int set \<Rightarrow> ('s, 'd) node list \<Rightarrow> unit option" where
  "check_nodes S ns ranks [] = Some ()"
| "check_nodes S ns ranks (nx # rest) =
     (if visited nx \<or> rank nx \<in> ranks then None
      else do { check_out ns nx (ns_elems S (n_out nx)); check_nodes S ns (insert (rank nx) ranks) rest })"

definition CheckInvariants :: "'s node_set \<Rightarrow> ('s, 'd) rep \<Rightarrow> bool option" where
  "CheckInvariants S r = do { check_nodes S (nodes r) {} (nodes r); Some True }"

end
