(* ===== verification/GraphCyclesDfs.thy ===== *)
theory GraphCyclesDfs
  imports GraphCycles
begin

text \<open>
  Lemmas on the node vector, the depth-first searches and the reassignment of ranks of
  \<^verbatim>\<open>graphcycles.cc\<close>, apart from any invariant of the graph.
\<close>

section \<open>The node vector\<close>

abbreviation ids :: "('s, 'd) node list \<Rightarrow> int set" where
  "ids ns \<equiv> {0..<int (length ns)}"

definition nd :: "('s, 'd) node list \<Rightarrow> int \<Rightarrow> ('s, 'd) node" where
  "nd ns x = ns ! nat x"

lemma node_at_nd [simp]: "x \<in> ids ns \<Longrightarrow> node_at ns x = Some (nd ns x)"
  by (simp add: node_at_def nd_def)

lemma node_at_None: "x \<notin> ids ns \<Longrightarrow> node_at ns x = None"
  by (auto simp: node_at_def)

lemma length_set_node [simp]: "length (set_node ns x n) = length ns"
  by (simp add: set_node_def)

lemma nd_set_node [simp]:
  "x \<in> ids ns \<Longrightarrow> y \<in> ids ns \<Longrightarrow> nd (set_node ns x n) y = (if y = x then n else nd ns y)"
  by (auto simp: nd_def set_node_def nth_list_update nat_eq_iff)

lemma nd_eqI: "length ns = length ns' \<Longrightarrow> (\<And>x. x \<in> ids ns \<Longrightarrow> nd ns x = nd ns' x) \<Longrightarrow> ns = ns'"
proof (rule nth_equalityI)
  fix i assume "length ns = length ns'" "\<And>x. x \<in> ids ns \<Longrightarrow> nd ns x = nd ns' x" "i < length ns"
  then have "nd ns (int i) = nd ns' (int i)" by simp
  then show "ns ! i = ns' ! i" by (simp add: nd_def)
qed

text \<open>The ranks, as a function that depends on the nodes only.\<close>

definition rk :: "('s, 'd) node list \<Rightarrow> int \<Rightarrow> int" where
  "rk ns w = (if w \<in> ids ns then rank (nd ns w) else 0)"

lemma rank_nd: "w \<in> ids ns \<Longrightarrow> rank (nd ns w) = rk ns w"
  by (simp add: rk_def)

lemma rk_eqI: "length ns' = length ns \<Longrightarrow> (\<And>w. w \<in> ids ns \<Longrightarrow> rank (nd ns' w) = rank (nd ns w)) \<Longrightarrow> rk ns' = rk ns"
  by (auto simp: rk_def fun_eq_iff)

text \<open>The same nodes but for the visited markers, which are added for the nodes of \<open>V\<close>.\<close>

definition marked :: "('s, 'd) node list \<Rightarrow> ('s, 'd) node list \<Rightarrow> int set \<Rightarrow> bool" where
  "marked ns ns' V \<longleftrightarrow> length ns' = length ns \<and>
     (\<forall>w \<in> ids ns. nd ns' w = (nd ns w)\<lparr>visited := visited (nd ns w) \<or> w \<in> V\<rparr>)"

lemma marked_refl: "marked ns ns {}"
  by (simp add: marked_def)

lemma marked_step:
  assumes "n \<in> ids ns" "marked (set_node ns n ((nd ns n)\<lparr>visited := True\<rparr>)) ns' V"
  shows "marked ns ns' (insert n V)"
  using assms by (auto simp: marked_def)

section \<open>Depth-first search\<close>

text \<open>\<open>nx\<close> and \<open>g\<close> are the edges and the ranks, which a search does not change.\<close>

definition agrees :: "(('s, 'd) node \<Rightarrow> int list) \<Rightarrow> ('s, 'd) node list \<Rightarrow> (int \<Rightarrow> int set) \<Rightarrow> (int \<Rightarrow> int) \<Rightarrow> bool" where
  "agrees nxt ns nx g \<longleftrightarrow> (\<forall>w \<in> ids ns. set (nxt (nd ns w)) = nx w \<and> rank (nd ns w) = g w \<and> nx w \<subseteq> ids ns)"

definition blind :: "(('s, 'd) node \<Rightarrow> int list) \<Rightarrow> bool" where
  "blind nxt \<longleftrightarrow> (\<forall>n b. nxt (n\<lparr>visited := b\<rparr>) = nxt n)"

lemma agrees_visit:
  assumes "agrees nxt ns nx g" "blind nxt" "n \<in> ids ns"
  shows "agrees nxt (set_node ns n ((nd ns n)\<lparr>visited := b\<rparr>)) nx g"
  using assms by (auto simp: agrees_def blind_def)

lemma dfs_edges_spec:
  assumes "set ws \<subseteq> ids ns"
  shows "\<exists>ok st'. dfs_edges stop keep ns ws st = Some (ok, st') \<and>
    (if ok then (\<forall>w \<in> set ws. \<not> stop (rank (nd ns w))) \<and>
       set st' = set st \<union> {w \<in> set ws. \<not> visited (nd ns w) \<and> keep (rank (nd ns w))}
     else \<exists>w \<in> set ws. stop (rank (nd ns w)))"
  using assms
proof (induction ws arbitrary: st)
  case (Cons w ws)
  then have w: "w \<in> ids ns" by simp
  show ?case
  proof (cases "stop (rank (nd ns w))")
    case True
    then show ?thesis using w by auto
  next
    case False
    let ?st = "if \<not> visited (nd ns w) \<and> keep (rank (nd ns w)) then w # st else st"
    obtain ok st' where "dfs_edges stop keep ns ws ?st = Some (ok, st')"
      "if ok then (\<forall>w \<in> set ws. \<not> stop (rank (nd ns w))) \<and>
         set st' = set ?st \<union> {w \<in> set ws. \<not> visited (nd ns w) \<and> keep (rank (nd ns w))}
       else \<exists>w \<in> set ws. stop (rank (nd ns w))" using Cons by fastforce
    then show ?thesis using w False by (auto split: if_splits)
  qed
qed auto

text \<open>The edges a search follows.\<close>

definition kept :: "(int \<Rightarrow> int set) \<Rightarrow> (int \<Rightarrow> int) \<Rightarrow> (int \<Rightarrow> bool) \<Rightarrow> (int \<times> int) set" where
  "kept nx g keep = {(u, w). w \<in> nx u \<and> keep (g w)}"

text \<open>
  A search from \<open>st\<close> marks the nodes \<open>new\<close>, all reachable over kept edges; unless it
  stops, nothing is left to mark.
\<close>

definition searched :: "(int \<Rightarrow> int set) \<Rightarrow> (int \<Rightarrow> int) \<Rightarrow> (int \<Rightarrow> bool) \<Rightarrow> (int \<Rightarrow> bool) \<Rightarrow> ('s, 'd) node list \<Rightarrow>
    int list \<Rightarrow> bool \<Rightarrow> ('s, 'd) node list \<Rightarrow> int list \<Rightarrow> bool" where
  "searched nx g stop keep ns st ok ns' new \<longleftrightarrow> marked ns ns' (set new) \<and> distinct new \<and>
     (\<forall>w \<in> set new. w \<in> ids ns \<and> \<not> visited (nd ns w) \<and> (\<exists>s \<in> set st. (s, w) \<in> (kept nx g keep)\<^sup>*)) \<and>
     (if ok then (\<forall>w \<in> set st. visited (nd ns' w)) \<and>
        (\<forall>u \<in> set new. \<forall>w \<in> nx u. \<not> stop (g w) \<and> (keep (g w) \<longrightarrow> visited (nd ns' w)))
      else \<exists>u \<in> set new. \<exists>w \<in> nx u. stop (g w))"

lemma dfs_loop_spec:
  assumes "blind nxt" "agrees nxt ns nx g" "set st \<subseteq> ids ns"
  shows "\<exists>ok ns' new st'. dfs_loop nxt stop keep ns delta st = Some (ok, ns', delta @ new, st') \<and>
    searched nx g stop keep ns st ok ns' new"
  using assms
proof (induction nxt stop keep ns delta st rule: dfs_loop.induct)
  case (1 nxt stop keep ns delta)
  then show ?case by (auto simp: searched_def marked_refl)
next
  case (2 nxt stop keep ns delta n st)
  have n: "n \<in> ids ns" and at: "node_at ns n = Some (nd ns n)" and st: "set st \<subseteq> ids ns" using 2(5) by simp_all
  show ?case
  proof (cases "visited (nd ns n)")
    case True
    obtain ok ns' new st' where r: "dfs_loop nxt stop keep ns delta st = Some (ok, ns', delta @ new, st')"
      "searched nx g stop keep ns st ok ns' new"
      using 2(1) [OF at True 2(3,4) st] by blast
    moreover have "visited (nd ns' n)" using r(2) True n by (auto simp: searched_def marked_def)
    ultimately show ?thesis using True at by (auto simp: searched_def)
  next
    case False
    let ?ns = "set_node ns n ((nd ns n)\<lparr>visited := True\<rparr>)"
    have ag: "agrees nxt ?ns nx g" by (rule agrees_visit [OF 2(4,3) n])
    have nx: "set (nxt (nd ns n)) = nx n" "nx n \<subseteq> ids ns" using 2(4) n by (auto simp: agrees_def)
    have g: "rank (nd ?ns w) = g w" if "w \<in> ids ns" for w using ag that by (simp add: agrees_def)
    have sub: "set (nxt (nd ns n)) \<subseteq> ids ?ns" using nx by simp
    obtain ok1 st1 where e: "dfs_edges stop keep ?ns (nxt (nd ns n)) st = Some (ok1, st1)"
      "if ok1 then (\<forall>w \<in> set (nxt (nd ns n)). \<not> stop (rank (nd ?ns w))) \<and>
         set st1 = set st \<union> {w \<in> set (nxt (nd ns n)). \<not> visited (nd ?ns w) \<and> keep (rank (nd ?ns w))}
       else \<exists>w \<in> set (nxt (nd ns n)). stop (rank (nd ?ns w))"
      using dfs_edges_spec [OF sub, of stop keep st] by blast
    have gn: "rank (nd ?ns w) = g w" if "w \<in> nx n" for w using g nx(2) that by blast
    show ?thesis
    proof (cases ok1)
      case stopped: False
      have "\<exists>w \<in> nx n. stop (g w)" using e(2) stopped nx(1) gn by auto
      moreover have "marked ns ?ns {n}" using n by (auto simp: marked_def)
      ultimately have "searched nx g stop keep ns (n # st) False ?ns [n]"
        using n False by (auto simp: searched_def)
      then show ?thesis using at False e(1) stopped by auto
    next
      case True
      have st1: "set st1 = set st \<union> {w \<in> nx n. \<not> visited (nd ?ns w) \<and> keep (g w)}" and ns1: "\<forall>w \<in> nx n. \<not> stop (g w)"
        using e(2) True nx(1) gn by auto
      have "set st1 \<subseteq> ids ?ns" using st1 st nx(2) by auto
      with 2(2) [OF at False refl refl e(1) _ True 2(3) ag] obtain ok ns' new st' where
        r: "dfs_loop nxt stop keep ?ns (delta @ [n]) st1 = Some (ok, ns', (delta @ [n]) @ new, st')"
          "searched nx g stop keep ?ns st1 ok ns' new" by blast
      have m: "marked ns ns' (set (n # new))" using marked_step [OF n] r(2) by (simp add: searched_def)
      have vn: "visited (nd ns' n)" using m n by (simp add: marked_def)
      have new: "w \<in> ids ns \<and> \<not> visited (nd ns w) \<and> w \<noteq> n \<and> (\<exists>s \<in> set (n # st). (s, w) \<in> (kept nx g keep)\<^sup>*)" if w: "w \<in> set new" for w
      proof -
        from r(2) w have "w \<in> ids ns" "\<not> visited (nd ?ns w)" and "\<exists>s \<in> set st1. (s, w) \<in> (kept nx g keep)\<^sup>*" by (auto simp: searched_def)
        then obtain s where s: "s \<in> set st1" "(s, w) \<in> (kept nx g keep)\<^sup>*" by blast
        have "\<exists>s \<in> set (n # st). (s, w) \<in> (kept nx g keep)\<^sup>*"
        proof (cases "s \<in> set st")
          case False
          then have "(n, s) \<in> kept nx g keep" using s(1) st1 by (auto simp: kept_def)
          then show ?thesis using s(2) by (meson converse_rtrancl_into_rtrancl list.set_intros(1))
        qed (use s in auto)
        then show ?thesis using \<open>w \<in> ids ns\<close> \<open>\<not> visited (nd ?ns w)\<close> n by (auto split: if_splits)
      qed
      have d: "distinct (n # new)" using r(2) new by (auto simp: searched_def)
      have ok: "if ok then (\<forall>w \<in> set (n # st). visited (nd ns' w)) \<and>
          (\<forall>u \<in> set (n # new). \<forall>w \<in> nx u. \<not> stop (g w) \<and> (keep (g w) \<longrightarrow> visited (nd ns' w)))
        else \<exists>u \<in> set (n # new). \<exists>w \<in> nx u. stop (g w)"
      proof (cases ok)
        case True
        have v: "visited (nd ns' w)" if "w \<in> nx n" "keep (g w)" for w
        proof (cases "visited (nd ?ns w)")
          case True
          then show ?thesis using r(2) nx(2) that(1) by (auto simp: searched_def marked_def)
        next
          case False
          then have "w \<in> set st1" using st1 that by blast
          then show ?thesis using r(2) \<open>ok\<close> by (simp add: searched_def)
        qed
        then show ?thesis using True r(2) st1 vn ns1 by (auto simp: searched_def)
      qed (use r(2) in \<open>auto simp: searched_def\<close>)
      have "searched nx g stop keep ns (n # st) ok ns' (n # new)"
        unfolding searched_def using m d ok new n False by auto
      then show ?thesis using at False e(1) True r(1) by auto
    qed
  qed
qed

section \<open>Clearing markers\<close>

definition unmarked :: "('s, 'd) node list \<Rightarrow> ('s, 'd) node list \<Rightarrow> int set \<Rightarrow> bool" where
  "unmarked ns ns' V \<longleftrightarrow> length ns' = length ns \<and>
     (\<forall>w \<in> ids ns. nd ns' w = (nd ns w)\<lparr>visited := visited (nd ns w) \<and> w \<notin> V\<rparr>)"

lemma unmarked_step:
  assumes "n \<in> ids ns" "unmarked (set_node ns n ((nd ns n)\<lparr>visited := False\<rparr>)) ns' V"
  shows "unmarked ns ns' (insert n V)"
  using assms by (auto simp: unmarked_def)

lemma unmarked_trans: "unmarked ns ns1 V \<Longrightarrow> unmarked ns1 ns2 W \<Longrightarrow> unmarked ns ns2 (V \<union> W)"
  by (auto simp: unmarked_def)

lemma ClearVisitedBits_spec:
  "set ws \<subseteq> ids ns \<Longrightarrow> \<exists>ns'. ClearVisitedBits ns ws = Some ns' \<and> unmarked ns ns' (set ws)"
proof (induction ws arbitrary: ns)
  case (Cons w ws)
  then have w: "w \<in> ids ns" by simp
  with Cons.IH [of "set_node ns w ((nd ns w)\<lparr>visited := False\<rparr>)"] Cons.prems obtain ns' where "ClearVisitedBits (set_node ns w ((nd ns w)\<lparr>visited := False\<rparr>)) ws = Some ns'"
    "unmarked (set_node ns w ((nd ns w)\<lparr>visited := False\<rparr>)) ns' (set ws)" by auto
  then show ?case using w unmarked_step [OF w] by auto
qed (simp add: unmarked_def)

lemma MoveToList_spec:
  "set src \<subseteq> ids ns \<Longrightarrow>
     \<exists>ns'. MoveToList ns src dst = Some (ns', map (\<lambda>w. rank (nd ns w)) src, dst @ src) \<and> unmarked ns ns' (set src)"
proof (induction src arbitrary: ns dst)
  case (Cons w src)
  let ?ns = "set_node ns w ((nd ns w)\<lparr>visited := False\<rparr>)"
  have w: "w \<in> ids ns" "set src \<subseteq> ids ns" using Cons.prems by simp_all
  with Cons.IH [of ?ns "dst @ [w]"] obtain ns' where
    r: "MoveToList ?ns src (dst @ [w]) = Some (ns', map (\<lambda>w. rank (nd ?ns w)) src, (dst @ [w]) @ src)" "unmarked ?ns ns' (set src)" by auto
  have "map (\<lambda>v. rank (nd ?ns v)) src = map (\<lambda>v. rank (nd ns v)) src" using w by (intro map_cong) auto
  then show ?case using w r unmarked_step [OF w(1) r(2)] by auto
qed (simp add: unmarked_def)

lemma assign_ranks_spec:
  assumes "set ws \<subseteq> ids ns" "distinct ws" "length ks = length ws"
  shows "\<exists>ns'. assign_ranks ns ws ks = Some ns' \<and> length ns' = length ns \<and>
    (\<forall>i < length ws. nd ns' (ws ! i) = (nd ns (ws ! i))\<lparr>rank := ks ! i\<rparr>) \<and> (\<forall>w \<in> ids ns - set ws. nd ns' w = nd ns w)"
  using assms
proof (induction ws arbitrary: ns ks)
  case (Cons w ws)
  then obtain k ks' where ks: "ks = k # ks'" "length ks' = length ws" by (cases ks) auto
  let ?ns = "set_node ns w ((nd ns w)\<lparr>rank := k\<rparr>)"
  have w: "w \<in> ids ns" "set ws \<subseteq> ids ns" "w \<notin> set ws" "distinct ws" using Cons.prems by simp_all
  with Cons.IH [of ?ns ks'] ks obtain ns' where r: "assign_ranks ?ns ws ks' = Some ns'" "length ns' = length ns"
    "\<forall>i < length ws. nd ns' (ws ! i) = (nd ?ns (ws ! i))\<lparr>rank := ks' ! i\<rparr>" "\<forall>v \<in> ids ns - set ws. nd ns' v = nd ?ns v" by auto
  have "nd ?ns (ws ! i) = nd ns (ws ! i)" if "i < length ws" for i
  proof -
    have "ws ! i \<in> set ws" using that by simp
    then have "ws ! i \<noteq> w" "ws ! i \<in> ids ns" using w by blast+
    then show ?thesis using w(1) by simp
  qed
  then have "nd ns' ((w # ws) ! i) = (nd ns ((w # ws) ! i))\<lparr>rank := ks ! i\<rparr>" if "i < length (w # ws)" for i
    using that r(3,4) w ks by (cases i) auto
  moreover have "nd ns' v = nd ns v" if "v \<in> ids ns - set (w # ws)" for v using r(4) that w(1) by auto
  ultimately show ?case using r(1,2) w(1) ks by auto
qed simp

section \<open>Reassigning ranks\<close>

lemma set_std_merge [simp]: "set (std_merge xs ys) = set xs \<union> set ys"
  by (induction xs ys rule: std_merge.induct) auto

lemma length_std_merge [simp]: "length (std_merge xs ys) = length xs + length ys"
  by (induction xs ys rule: std_merge.induct) auto

lemma sorted_std_merge:
  "sorted_wrt (<) xs \<Longrightarrow> sorted_wrt (<) ys \<Longrightarrow> set xs \<inter> set ys = {} \<Longrightarrow> sorted_wrt (<) (std_merge xs ys)"
  by (induction xs ys rule: std_merge.induct) (fastforce simp: not_less order_le_less)+

lemma std_merge_le: "sorted_wrt (<) xs \<Longrightarrow> i < length xs \<Longrightarrow> std_merge xs ys ! i \<le> xs ! i"
proof (induction xs ys arbitrary: i rule: std_merge.induct)
  case (3 x xs y ys)
  show ?case
  proof (cases "y < x")
    case True
    show ?thesis
    proof (cases i)
      case (Suc j)
      then have j: "j < length (x # xs)" "std_merge (x # xs) ys ! j \<le> (x # xs) ! j" using 3 True by auto
      moreover have "(x # xs) ! j \<le> (x # xs) ! i"
        using sorted_wrt_nth_less [OF 3(3), of j i] Suc 3(4) by simp
      ultimately show ?thesis using True Suc by simp
    qed (use True in simp)
  next
    case False
    then show ?thesis using 3 by (cases i) auto
  qed
qed simp_all

lemma std_merge_ge:
  "sorted_wrt (<) xs \<Longrightarrow> sorted_wrt (<) ys \<Longrightarrow> j < length ys \<Longrightarrow> ys ! j \<le> std_merge xs ys ! (length xs + j)"
proof (induction xs ys arbitrary: j rule: std_merge.induct)
  case (3 x xs y ys)
  show ?case
  proof (cases "y < x")
    case True
    show ?thesis
    proof (cases j)
      case 0
      have "std_merge (x # xs) ys ! length xs \<in> set (std_merge (x # xs) ys)" by (rule nth_mem) simp
      moreover have "\<forall>z \<in> set (std_merge (x # xs) ys). y \<le> z" using 3(3,4) True by auto
      ultimately have "y \<le> std_merge (x # xs) ys ! length xs" by blast
      then show ?thesis using True 0 by simp
    next
      case (Suc k)
      then show ?thesis using 3 True by auto
    qed
  next
    case False
    then show ?thesis using 3 by auto
  qed
qed simp_all

definition reranked :: "(int \<Rightarrow> int) \<Rightarrow> (int \<Rightarrow> int) \<Rightarrow> int set \<Rightarrow> int set \<Rightarrow> bool" where
  "reranked g g' B F \<longleftrightarrow> g' ` (B \<union> F) = g ` (B \<union> F) \<and> inj_on g' (B \<union> F) \<and> (\<forall>w. w \<notin> B \<union> F \<longrightarrow> g' w = g w) \<and>
     (\<forall>u \<in> B. g' u \<le> g u) \<and> (\<forall>u \<in> F. g u \<le> g' u) \<and> (\<forall>u \<in> B. \<forall>v \<in> F. g' u < g' v) \<and>
     (\<forall>u \<in> B. \<forall>v \<in> B. g u < g v \<longrightarrow> g' u < g' v) \<and> (\<forall>u \<in> F. \<forall>v \<in> F. g u < g v \<longrightarrow> g' u < g' v)"

lemma sorted_less_iff:
  assumes "sorted_wrt (<) (xs :: int list)" "i < length xs" "j < length xs"
  shows "xs ! i < xs ! j \<longleftrightarrow> i < j"
  using assms sorted_wrt_nth_less [OF assms(1)] by (metis linorder_neqE_nat order_less_asym)

lemma reranked_merge:
  assumes bs: "sorted_wrt (<) (map g bs)" and fs: "sorted_wrt (<) (map g fs)"
    and inj: "inj_on g (set (bs @ fs))" and d: "distinct (bs @ fs)"
    and new: "\<forall>i < length (bs @ fs). g' ((bs @ fs) ! i) = std_merge (map g bs) (map g fs) ! i"
    and old: "\<forall>w. w \<notin> set (bs @ fs) \<longrightarrow> g' w = g w"
  shows "reranked g g' (set bs) (set fs)"
proof -
  let ?m = "std_merge (map g bs) (map g fs)" and ?l = "bs @ fs"
  have "set (map g bs) \<inter> set (map g fs) = {}" using inj d by (auto dest: inj_onD)
  then have srt: "sorted_wrt (<) ?m" using sorted_std_merge [OF bs fs] by blast
  have len: "length ?m = length ?l" by simp
  have m: "map g' ?l = ?m" by (rule nth_equalityI) (use new len in \<open>simp_all only: length_map nth_map\<close>)
  have img: "g' ` (set bs \<union> set fs) = g ` (set bs \<union> set fs)"
    using arg_cong [OF m, of set] by (simp add: image_Un)
  have "distinct (map g' ?l)" unfolding m using srt by (simp only: strict_sorted_iff)
  then have inj': "inj_on g' (set bs \<union> set fs)" by (simp only: distinct_map set_append)
  have b: "g' (bs ! i) = ?m ! i" if "i < length bs" for i
    using new [rule_format, of i] that by (simp add: nth_append)
  have f: "g' (fs ! j) = ?m ! (length bs + j)" if "j < length fs" for j
    using new [rule_format, of "length bs + j"] that by (simp add: nth_append)
  have 1: "\<forall>u \<in> set bs. g' u \<le> g u"
  proof
    fix u assume "u \<in> set bs"
    then obtain i where "i < length bs" "u = bs ! i" by (auto simp: in_set_conv_nth)
    then show "g' u \<le> g u" using std_merge_le [OF bs, of i] b by simp
  qed
  have 2: "\<forall>u \<in> set fs. g u \<le> g' u"
  proof
    fix u assume "u \<in> set fs"
    then obtain i where "i < length fs" "u = fs ! i" by (auto simp: in_set_conv_nth)
    then show "g u \<le> g' u" using std_merge_ge [OF bs fs, of i] f by simp
  qed
  have 3: "\<forall>u \<in> set bs. \<forall>v \<in> set fs. g' u < g' v"
  proof (intro ballI)
    fix u v assume "u \<in> set bs" "v \<in> set fs"
    then obtain i j where "i < length bs" "u = bs ! i" "j < length fs" "v = fs ! j" by (auto simp: in_set_conv_nth)
    then show "g' u < g' v" using b f sorted_wrt_nth_less [OF srt, of i "length bs + j"] by simp
  qed
  have 4: "\<forall>u \<in> set bs. \<forall>v \<in> set bs. g u < g v \<longrightarrow> g' u < g' v"
  proof (intro ballI impI)
    fix u v assume "u \<in> set bs" "v \<in> set bs" and lt: "g u < g v"
    then obtain i j where ij: "i < length bs" "u = bs ! i" "j < length bs" "v = bs ! j" by (auto simp: in_set_conv_nth)
    then have "i < j" using lt sorted_less_iff [OF bs, of i j] by simp
    then show "g' u < g' v" using ij b sorted_wrt_nth_less [OF srt, of i j] by simp
  qed
  have 5: "\<forall>u \<in> set fs. \<forall>v \<in> set fs. g u < g v \<longrightarrow> g' u < g' v"
  proof (intro ballI impI)
    fix u v assume "u \<in> set fs" "v \<in> set fs" and lt: "g u < g v"
    then obtain i j where ij: "i < length fs" "u = fs ! i" "j < length fs" "v = fs ! j" by (auto simp: in_set_conv_nth)
    then have "i < j" using lt sorted_less_iff [OF fs, of i j] by simp
    then show "g' u < g' v" using ij f sorted_wrt_nth_less [OF srt, of "length bs + i" "length bs + j"] by simp
  qed
  show ?thesis unfolding reranked_def using img inj' old 1 2 3 4 5 by simp
qed

lemma Sort_strict:
  assumes "inj_on (rk ns) (set delta)" "distinct delta" "set delta \<subseteq> ids ns"
  shows "sorted_wrt (<) (map (rk ns) (Sort ns delta))" "set (Sort ns delta) = set delta" "distinct (Sort ns delta)"
proof -
  have eq: "map (rk ns) (Sort ns delta) = map (\<lambda>w. rank (ns ! nat w)) (Sort ns delta)"
    using assms(3) by (intro map_cong) (auto simp: rk_def nd_def Sort_def)
  have "sorted (map (rk ns) (Sort ns delta))" by (subst eq) (simp only: Sort_def sorted_sort_key)
  moreover have "distinct (map (rk ns) (Sort ns delta))" using assms(1,2) by (simp add: Sort_def distinct_map)
  ultimately show "sorted_wrt (<) (map (rk ns) (Sort ns delta))" by (simp only: strict_sorted_iff)
  show "set (Sort ns delta) = set delta" "distinct (Sort ns delta)" using assms(2) by (simp_all add: Sort_def)
qed

lemma Reorder_spec:
  assumes sub: "set (deltab r) \<union> set (deltaf r) \<subseteq> ids (nodes r)" and d: "distinct (deltab r @ deltaf r)"
    and inj: "inj_on (rk (nodes r)) (set (deltab r) \<union> set (deltaf r))"
  shows "\<exists>r'. Reorder r = Some r' \<and> free_nodes r' = free_nodes r \<and> length (nodes r') = length (nodes r) \<and>
    reranked (rk (nodes r)) (rk (nodes r')) (set (deltab r)) (set (deltaf r)) \<and>
    (\<forall>w \<in> ids (nodes r). nd (nodes r') w = (nd (nodes r) w)
       \<lparr>rank := rk (nodes r') w, visited := visited (nd (nodes r) w) \<and> w \<notin> set (deltab r) \<union> set (deltaf r)\<rparr>)"
proof -
  let ?ns = "nodes r" and ?B = "set (deltab r)" and ?F = "set (deltaf r)" and ?g = "rk (nodes r)"
  let ?bs = "Sort ?ns (deltab r)" and ?fs = "Sort ?ns (deltaf r)"
  have "inj_on ?g ?B" "inj_on ?g ?F" using inj by (auto intro: inj_on_subset)
  then have b: "sorted_wrt (<) (map ?g ?bs)" "set ?bs = ?B" "distinct ?bs"
    and f: "sorted_wrt (<) (map ?g ?fs)" "set ?fs = ?F" "distinct ?fs"
    using Sort_strict [of ?ns] d sub by auto
  have ranks: "map (\<lambda>w. rank (nd ns1 w)) ws = map ?g ws" if "unmarked ?ns ns1 V" "set ws \<subseteq> ids ?ns" for ns1 V ws
    using that by (intro map_cong) (auto simp: unmarked_def rk_def)
  have "unmarked ?ns ?ns {}" by (simp add: unmarked_def)
  then obtain ns1 where 1: "MoveToList ?ns ?bs [] = Some (ns1, map ?g ?bs, ?bs)" "unmarked ?ns ns1 ?B"
    using MoveToList_spec [of ?bs ?ns "[]"] ranks [of ?ns "{}" ?bs] sub b(2) by auto
  have "set ?fs \<subseteq> ids ns1" using sub f(2) 1(2) by (simp add: unmarked_def)
  then obtain ns2 where 2: "MoveToList ns1 ?fs ?bs = Some (ns2, map ?g ?fs, ?bs @ ?fs)" "unmarked ns1 ns2 ?F"
    using MoveToList_spec [of ?fs ns1 ?bs] ranks [OF 1(2), of ?fs] sub f(2) by auto
  have u: "unmarked ?ns ns2 (?B \<union> ?F)" by (rule unmarked_trans [OF 1(2) 2(2)])
  let ?l = "?bs @ ?fs" and ?m = "std_merge (map ?g ?bs) (map ?g ?fs)"
  have l: "set ?l = ?B \<union> ?F" "distinct ?l" using b f d by auto
  have "set ?l \<subseteq> ids ns2" using l(1) sub u by (simp add: unmarked_def)
  then obtain ns3 where 3: "assign_ranks ns2 ?l ?m = Some ns3" "length ns3 = length ns2"
    "\<forall>i < length ?l. nd ns3 (?l ! i) = (nd ns2 (?l ! i))\<lparr>rank := ?m ! i\<rparr>" "\<forall>w \<in> ids ns2 - set ?l. nd ns3 w = nd ns2 w"
    using assign_ranks_spec [OF _ l(2), of ns2 ?m] by auto
  have len: "length ns2 = length ?ns" using u by (simp add: unmarked_def)
  then have ids3: "ids ns3 = ids ?ns" "ids ns2 = ids ?ns" using 3(2) by simp_all
  have new: "\<forall>i < length ?l. rk ns3 (?l ! i) = ?m ! i"
  proof (intro allI impI)
    fix i assume i: "i < length ?l"
    then have "?l ! i \<in> ids ns3" using sub l(1) ids3(1) nth_mem by blast
    then show "rk ns3 (?l ! i) = ?m ! i" using 3(3) i rank_nd by fastforce
  qed
  have old: "\<forall>w. w \<notin> set ?l \<longrightarrow> rk ns3 w = ?g w"
    using 3(4) u ids3 by (auto simp: rk_def unmarked_def)
  have "inj_on ?g (set ?l)" using inj l(1) by simp
  then have re: "reranked ?g (rk ns3) ?B ?F" using reranked_merge [OF b(1) f(1) _ l(2) new old] b(2) f(2) by simp
  have nd3: "nd ns3 w = (nd ns2 w)\<lparr>rank := rk ns3 w\<rparr>" if w: "w \<in> ids ?ns" for w
  proof (cases "w \<in> set ?l")
    case True
    then obtain i where i: "i < length ?l" "w = ?l ! i" by (metis in_set_conv_nth)
    then show ?thesis using 3(3) new by auto
  next
    case False
    then have "nd ns3 w = nd ns2 w" using 3(4) w ids3 by simp
    then show ?thesis using w ids3 rank_nd [of w ns3] by simp
  qed
  have "nd ns3 w = (nd ?ns w)\<lparr>rank := rk ns3 w, visited := visited (nd ?ns w) \<and> w \<notin> ?B \<union> ?F\<rparr>" if "w \<in> ids ?ns" for w
    using nd3 [OF that] u that by (simp add: unmarked_def)
  moreover define r' where "r' = r\<lparr>nodes := ns3, deltab := map ?g ?bs, deltaf := map ?g ?fs, list_ := ?l, merged := ?m\<rparr>"
  moreover have "Reorder r = Some r'" using 1(1) 2(1) 3(1) by (simp add: Reorder_def Let_def r'_def)
  ultimately show ?thesis using re 3(2) len by (intro exI [of _ r']) simp
qed

section \<open>The new order is topological\<close>

definition topo :: "(int \<times> int) set \<Rightarrow> (int \<Rightarrow> int) \<Rightarrow> bool" where
  "topo E g \<longleftrightarrow> (\<forall>(u, v) \<in> E. g u < g v)"

lemma topo_path: "topo E g \<Longrightarrow> (u, v) \<in> E\<^sup>* \<Longrightarrow> g u \<le> g v"
  by (rotate_tac, induction rule: rtrancl_induct) (auto simp: topo_def)

lemma topo_trancl: "topo E g \<Longrightarrow> (u, v) \<in> E\<^sup>+ \<Longrightarrow> g u < g v"
  by (rotate_tac, induction rule: trancl_induct) (auto simp: topo_def)

lemma topo_acyclic: "topo E g \<Longrightarrow> acyclic E"
  unfolding acyclic_def using topo_trancl by blast

text \<open>What the two searches for a new edge \<open>(x, y)\<close> have found.\<close>

definition affected :: "(int \<times> int) set \<Rightarrow> (int \<Rightarrow> int) \<Rightarrow> int \<Rightarrow> int \<Rightarrow> int set \<Rightarrow> int set \<Rightarrow> bool" where
  "affected E g x y B F \<longleftrightarrow> x \<in> B \<and> y \<in> F \<and>
     (\<forall>u \<in> F. (y, u) \<in> E\<^sup>* \<and> g u < g x) \<and> (\<forall>u \<in> F. \<forall>w. (u, w) \<in> E \<longrightarrow> g w < g x \<longrightarrow> w \<in> F) \<and>
     (\<forall>u \<in> B. (u, x) \<in> E\<^sup>* \<and> g y < g u) \<and> (\<forall>u \<in> B. \<forall>w. (w, u) \<in> E \<longrightarrow> g y < g w \<longrightarrow> w \<in> B \<union> F)"

lemma topo_reranked:
  assumes topo: "topo E g" and inj: "inj_on g V" and E: "E \<subseteq> V \<times> V" and xy: "x \<in> V" "y \<in> V"
    and nc: "(y, x) \<notin> E\<^sup>*" and a: "affected E g x y B F" and r: "reranked g g' B F"
  shows "topo (insert (x, y) E) g'"
  unfolding topo_def
proof (intro ballI, clarify)
  fix u v assume uv: "(u, v) \<in> insert (x, y) E"
  have F: "\<And>u. u \<in> F \<Longrightarrow> (y, u) \<in> E\<^sup>*" "\<And>u. u \<in> F \<Longrightarrow> g u < g x" "\<And>u w. u \<in> F \<Longrightarrow> (u, w) \<in> E \<Longrightarrow> g w < g x \<Longrightarrow> w \<in> F"
    and B: "\<And>u. u \<in> B \<Longrightarrow> (u, x) \<in> E\<^sup>*" "\<And>u. u \<in> B \<Longrightarrow> g y < g u" "\<And>u w. u \<in> B \<Longrightarrow> (w, u) \<in> E \<Longrightarrow> g y < g w \<Longrightarrow> w \<in> B \<union> F"
    and xB: "x \<in> B" "y \<in> F"
    using a unfolding affected_def by blast+
  have img: "g' w \<in> g ` (B \<union> F)" if "w \<in> B \<union> F" for w using r that unfolding reranked_def by blast
  have ub: "g' w \<le> g x" if "w \<in> F" for w
  proof -
    obtain z where "z \<in> B \<union> F" "g' w = g z" using img [of w] \<open>w \<in> F\<close> by auto
    then show ?thesis using F(2) topo_path [OF topo B(1)] by (auto dest: less_imp_le)
  qed
  have lb: "g y \<le> g' w" if "w \<in> B" for w
  proof -
    obtain z where "z \<in> B \<union> F" "g' w = g z" using img [of w] \<open>w \<in> B\<close> by auto
    then show ?thesis using B(2) topo_path [OF topo F(1)] by (auto dest: less_imp_le)
  qed
  have same: "g' w = g w" if "w \<notin> B \<union> F" for w using r that unfolding reranked_def by blast
  have mono: "\<And>u. u \<in> B \<Longrightarrow> g' u \<le> g u" "\<And>u. u \<in> F \<Longrightarrow> g u \<le> g' u" "\<And>u v. u \<in> B \<Longrightarrow> v \<in> F \<Longrightarrow> g' u < g' v"
    "\<And>u v. u \<in> B \<Longrightarrow> v \<in> B \<Longrightarrow> g u < g v \<Longrightarrow> g' u < g' v" "\<And>u v. u \<in> F \<Longrightarrow> v \<in> F \<Longrightarrow> g u < g v \<Longrightarrow> g' u < g' v"
    using r unfolding reranked_def by blast+
  show "g' u < g' v"
  proof (cases "(u, v) = (x, y)")
    case True
    then show ?thesis using mono(3) xB by simp
  next
    case False
    then have e: "(u, v) \<in> E" and V: "u \<in> V" "v \<in> V" using uv E by auto
    have lt: "g u < g v" using topo e by (auto simp: topo_def)
    have FB: "\<not> (u \<in> F \<and> v \<in> B)"
    proof
      assume "u \<in> F \<and> v \<in> B"
      then have "(y, u) \<in> E\<^sup>*" "(v, x) \<in> E\<^sup>*" using F(1) B(1) by blast+
      then show False using e nc by (meson converse_rtrancl_into_rtrancl rtrancl_trans)
    qed
    consider "u \<in> B" "v \<in> B" | "u \<in> B" "v \<in> F" | "u \<in> F" "v \<in> F" | "u \<notin> B \<union> F" "v \<notin> B \<union> F"
      | "u \<in> F" "v \<notin> B \<union> F" | "u \<in> B" "v \<notin> B \<union> F" | "u \<notin> B \<union> F" "v \<in> B" | "u \<notin> B \<union> F" "v \<in> F" using FB by blast
    then show ?thesis
    proof cases
      case 5
      then have "\<not> g v < g x" using F(3) e by blast
      moreover have "v \<noteq> x" using 5 xB by blast
      then have "g v \<noteq> g x" using inj V xy by (auto dest: inj_onD)
      ultimately show ?thesis using ub [OF 5(1)] same [OF 5(2)] by simp
    next
      case 7
      then have "\<not> g y < g u" using B(3) e by blast
      moreover have "u \<noteq> y" using 7 xB by blast
      then have "g u \<noteq> g y" using inj V xy by (auto dest: inj_onD)
      ultimately show ?thesis using lb [OF 7(2)] same [OF 7(1)] by simp
    next
      case 6
      then show ?thesis using mono(1) [OF 6(1)] same [OF 6(2)] lt by simp
    next
      case 8
      then show ?thesis using mono(2) [OF 8(2)] same [OF 8(1)] lt by simp
    qed (use mono same lt in auto)
  qed
qed

end
