(* ===== verification/GraphCyclesInv.thy ===== *)
theory GraphCyclesInv
  imports GraphCyclesDfs
begin

text \<open>
  The invariant of \<open>GraphCycles\<close>: both edge sets of a node agree, the ranks are a
  permutation of the node numbers and increase along the edges, no marker is set, and free nodes
  have no edges; and what \<open>InsertEdge\<close> and the reachability test do in terms of the graph.
\<close>

section \<open>The interface of the edge sets\<close>

locale unordered_set =
  fixes S :: "'s node_set"
  assumes elems_empty [simp]: "ns_elems S (ns_empty S) = []"
    and elems_insert [simp]: "set (ns_elems S (ns_insert S x s)) = insert x (set (ns_elems S s))"
    and elems_erase [simp]: "set (ns_elems S (ns_erase S x s)) = set (ns_elems S s) - {x}"

section \<open>The graph\<close>

definition outs :: "'s node_set \<Rightarrow> ('s, 'd) node list \<Rightarrow> int \<Rightarrow> int set" where
  "outs S ns x = set (ns_elems S (n_out (nd ns x)))"

definition ins :: "'s node_set \<Rightarrow> ('s, 'd) node list \<Rightarrow> int \<Rightarrow> int set" where
  "ins S ns x = set (ns_elems S (n_in (nd ns x)))"

definition edges :: "'s node_set \<Rightarrow> ('s, 'd) node list \<Rightarrow> (int \<times> int) set" where
  "edges S ns = {(x, y). x \<in> ids ns \<and> y \<in> outs S ns x}"

definition wf_nodes :: "'s node_set \<Rightarrow> ('s, 'd) node list \<Rightarrow> bool" where
  "wf_nodes S ns \<longleftrightarrow> (\<forall>x \<in> ids ns. outs S ns x \<subseteq> ids ns \<and> ins S ns x \<subseteq> ids ns \<and> \<not> visited (nd ns x)) \<and>
     (\<forall>x \<in> ids ns. \<forall>y \<in> ids ns. y \<in> outs S ns x \<longleftrightarrow> x \<in> ins S ns y) \<and> inj_on (rk ns) (ids ns) \<and> rk ns ` ids ns = ids ns"

definition gc_inv :: "'s node_set \<Rightarrow> ('s, 'd) rep \<Rightarrow> bool" where
  "gc_inv S r \<longleftrightarrow> wf_nodes S (nodes r) \<and> topo (edges S (nodes r)) (rk (nodes r)) \<and>
     distinct (free_nodes r) \<and> set (free_nodes r) \<subseteq> ids (nodes r) \<and>
     (\<forall>x \<in> set (free_nodes r). outs S (nodes r) x = {} \<and> ins S (nodes r) x = {})"

definition live_nodes :: "('s, 'd) rep \<Rightarrow> int set" where
  "live_nodes r = ids (nodes r) - set (free_nodes r)"

text \<open>What operations on edges leave alone.\<close>

definition same_nodes :: "('s, 'd) rep \<Rightarrow> ('s, 'd) rep \<Rightarrow> bool" where
  "same_nodes r r' \<longleftrightarrow> length (nodes r') = length (nodes r) \<and> free_nodes r' = free_nodes r \<and>
     (\<forall>w \<in> ids (nodes r). data (nd (nodes r') w) = data (nd (nodes r) w))"

lemma same_nodes_refl [simp]: "same_nodes r r"
  by (simp add: same_nodes_def)

lemma same_nodes_trans: "same_nodes r r1 \<Longrightarrow> same_nodes r1 r2 \<Longrightarrow> same_nodes r r2"
  by (simp add: same_nodes_def)

lemma same_nodes_live: "same_nodes r r' \<Longrightarrow> live_nodes r' = live_nodes r"
  by (simp add: same_nodes_def live_nodes_def)

lemma edges_iff: "x \<in> ids ns \<Longrightarrow> (x, y) \<in> edges S ns \<longleftrightarrow> y \<in> outs S ns x"
  by (simp add: edges_def)

lemma wf_nodesD:
  assumes "wf_nodes S ns"
  shows "edges S ns \<subseteq> ids ns \<times> ids ns" "inj_on (rk ns) (ids ns)" "\<And>x. x \<in> ids ns \<Longrightarrow> \<not> visited (nd ns x)"
    "\<And>x. x \<in> ids ns \<Longrightarrow> outs S ns x \<subseteq> ids ns" "\<And>x. x \<in> ids ns \<Longrightarrow> ins S ns x \<subseteq> ids ns"
    "\<And>x y. y \<in> ids ns \<Longrightarrow> x \<in> ins S ns y \<longleftrightarrow> (x, y) \<in> edges S ns"
proof -
  note wf = assms [unfolded wf_nodes_def]
  show "edges S ns \<subseteq> ids ns \<times> ids ns" using wf by (auto simp: edges_def)
  show "inj_on (rk ns) (ids ns)" using wf by blast
  show o: "\<not> visited (nd ns x)" "outs S ns x \<subseteq> ids ns" "ins S ns x \<subseteq> ids ns" if "x \<in> ids ns" for x using wf that by blast+
  show "x \<in> ins S ns y \<longleftrightarrow> (x, y) \<in> edges S ns" if "y \<in> ids ns" for x y
  proof
    assume "x \<in> ins S ns y"
    moreover from this have "x \<in> ids ns" using o(3) [OF that] by blast
    ultimately show "(x, y) \<in> edges S ns" using wf that unfolding edges_iff [OF \<open>x \<in> ids ns\<close>] by blast
  next
    assume "(x, y) \<in> edges S ns"
    then have "x \<in> ids ns" "y \<in> outs S ns x" by (auto simp: edges_def)
    then show "x \<in> ins S ns y" using wf that by blast
  qed
qed

lemma marked_edges:
  assumes "marked ns ns' V"
  shows "length ns' = length ns" "edges S ns' = edges S ns" "rk ns' = rk ns"
    "x \<in> ids ns \<Longrightarrow> ins S ns' x = ins S ns x" "x \<in> ids ns \<Longrightarrow> outs S ns' x = outs S ns x"
    "x \<in> ids ns \<Longrightarrow> data (nd ns' x) = data (nd ns x)" "x \<in> ids ns \<Longrightarrow> visited (nd ns' x) \<longleftrightarrow> visited (nd ns x) \<or> x \<in> V"
  using assms by (auto simp: marked_def edges_def outs_def ins_def rk_def fun_eq_iff)

section \<open>Forward and backward search\<close>

lemma rtrancl_avoid: "(s, t) \<in> E\<^sup>* \<longleftrightarrow> (s, t) \<in> {(u, v). (u, v) \<in> E \<and> u \<noteq> t}\<^sup>*"
proof
  assume "(s, t) \<in> E\<^sup>*"
  then show "(s, t) \<in> {(u, v). (u, v) \<in> E \<and> u \<noteq> t}\<^sup>*"
  proof (induction rule: converse_rtrancl_induct)
    case (step u w)
    then show ?case by (cases "u = t") (auto intro: converse_rtrancl_into_rtrancl)
  qed simp
next
  assume "(s, t) \<in> {(u, v). (u, v) \<in> E \<and> u \<noteq> t}\<^sup>*"
  then show "(s, t) \<in> E\<^sup>*" by (rule rtrancl_mono [THEN subsetD, rotated]) auto
qed

text \<open>The search from \<open>s\<close> for the node \<open>t\<close>; edges that leave \<open>t\<close> are not followed.\<close>

lemma ForwardDFS_spec:
  assumes wf: "wf_nodes S (nodes r)" and st: "s \<in> ids (nodes r)" "t \<in> ids (nodes r)" "rk (nodes r) s < rk (nodes r) t"
    and topo: "topo E (rk (nodes r))" and E: "E = {(u, v). (u, v) \<in> edges S (nodes r) \<and> u \<noteq> t}"
  shows "\<exists>ok r' F. ForwardDFS S r s (rk (nodes r) t) = Some (ok, r') \<and> deltaf r' = F \<and> free_nodes r' = free_nodes r \<and>
    marked (nodes r) (nodes r') (set F) \<and> distinct F \<and> set F \<subseteq> ids (nodes r) \<and> (ok \<longleftrightarrow> (s, t) \<notin> E\<^sup>*) \<and>
    (ok \<longrightarrow> s \<in> set F \<and> (\<forall>u \<in> set F. (s, u) \<in> E\<^sup>* \<and> rk (nodes r) u < rk (nodes r) t) \<and>
       (\<forall>u \<in> set F. \<forall>w. (u, w) \<in> E \<longrightarrow> rk (nodes r) w < rk (nodes r) t \<longrightarrow> w \<in> set F))"
proof -
  let ?ns = "nodes r" and ?nxt = "\<lambda>nn. ns_elems S (n_out nn)"
  let ?ub = "rk ?ns t"
  note wf' = wf_nodesD [OF wf]
  have "agrees ?nxt ?ns (outs S ?ns) (rk ?ns)" using wf'(4) by (auto simp: agrees_def outs_def rank_nd)
  moreover have "blind ?nxt" by (simp add: blind_def)
  ultimately obtain ok ns' F st' where d: "dfs_loop ?nxt (\<lambda>k. k = ?ub) (\<lambda>k. k < ?ub) ?ns [] [s] = Some (ok, ns', F, st')"
    and sr: "searched (outs S ?ns) (rk ?ns) (\<lambda>k. k = ?ub) (\<lambda>k. k < ?ub) ?ns [s] ok ns' F"
    using dfs_loop_spec [of ?nxt ?ns "outs S ?ns" "rk ?ns" "[s]" "\<lambda>k. k = ?ub" "\<lambda>k. k < ?ub" "[]"] st(1) by auto
  let ?K = "kept (outs S ?ns) (rk ?ns) (\<lambda>k. k < ?ub)"
  have m: "marked ?ns ns' (set F)" "distinct F" "set F \<subseteq> ids ?ns" using sr by (auto simp: searched_def)
  have path: "w \<in> ids ?ns \<and> rk ?ns w < ?ub \<and> (s, w) \<in> E\<^sup>*" if "(s, w) \<in> ?K\<^sup>*" for w
    using that
  proof (induction rule: rtrancl_induct)
    case (step u w)
    then have "u \<noteq> t" "(u, w) \<in> edges S ?ns" "rk ?ns w < ?ub" by (auto simp: kept_def edges_iff)
    then show ?case using step.IH wf'(1) E by (auto intro: rtrancl_into_rtrancl)
  qed (use st in auto)
  then have F: "w \<in> ids ?ns \<and> rk ?ns w < ?ub \<and> (s, w) \<in> E\<^sup>*" if "w \<in> set F" for w
    using sr that by (auto simp: searched_def)
  have step: "(u, w) \<in> E" if "u \<in> set F" "w \<in> outs S ?ns u" for u w
    using F [OF that(1)] that(2) E by (auto simp: edges_iff)
  have stepD: "w \<in> outs S ?ns u \<and> w \<in> ids ?ns" if "(u, w) \<in> E" "u \<in> set F" for u w
  proof -
    have "(u, w) \<in> edges S ?ns" using that(1) E by blast
    then show ?thesis using wf'(1) by (auto simp: edges_def)
  qed
  have stop: "(s, t) \<in> E\<^sup>*" if nok: "\<not> ok"
  proof -
    obtain u w where uw: "u \<in> set F" "w \<in> outs S ?ns u" "rk ?ns w = ?ub" using sr nok by (auto simp: searched_def)
    then have e: "(u, w) \<in> E" by (simp add: step)
    then have "w = t" using stepD [OF e uw(1)] wf'(2) uw(3) st(2) by (auto dest: inj_onD)
    then show ?thesis using F [OF uw(1)] e by auto
  qed
  have closed: "rk ?ns w \<noteq> ?ub \<and> (rk ?ns w < ?ub \<longrightarrow> w \<in> set F)" if ok "u \<in> set F" "(u, w) \<in> E" for u w
  proof -
    have w: "w \<in> outs S ?ns u" "w \<in> ids ?ns" using stepD that(2,3) by blast+
    then have "rk ?ns w \<noteq> ?ub \<and> (rk ?ns w < ?ub \<longrightarrow> visited (nd ns' w))" using sr that(1,2) by (auto simp: searched_def)
    then show ?thesis using marked_edges(7) [OF m(1) w(2)] wf'(3) [OF w(2)] by blast
  qed
  have s: "s \<in> set F" if ok
  proof -
    have "visited (nd ns' s)" using sr that by (simp add: searched_def)
    then show ?thesis using marked_edges(7) [OF m(1) st(1)] wf'(3) [OF st(1)] by blast
  qed
  have "(s, t) \<notin> E\<^sup>*" if ok
  proof
    assume "(s, t) \<in> E\<^sup>*"
    moreover have "v \<notin> set F" if "(v, t) \<in> E\<^sup>*" for v
      using that
    proof (induction rule: converse_rtrancl_induct)
      case base
      then show ?case using F by blast
    next
      case (step u w)
      have "rk ?ns w \<le> ?ub" by (rule topo_path [OF topo step(2)])
      then show ?case using closed [OF \<open>ok\<close>] step by force
    qed
    ultimately show False using s that by blast
  qed
  then have iff: "ok \<longleftrightarrow> (s, t) \<notin> E\<^sup>*" using stop by blast
  define r' where "r' = r\<lparr>nodes := ns', deltaf := F, stack := st'\<rparr>"
  show ?thesis
  proof (intro exI conjI impI ballI allI)
    show "ForwardDFS S r s ?ub = Some (ok, r')" using d by (simp add: ForwardDFS_def r'_def)
    show "deltaf r' = F" "free_nodes r' = free_nodes r" "marked ?ns (nodes r') (set F)" using m(1) by (simp_all add: r'_def)
    show "distinct F" "set F \<subseteq> ids ?ns" "ok \<longleftrightarrow> (s, t) \<notin> E\<^sup>*" by (fact m(2) m(3) iff)+
    show "s \<in> set F" if ok using s that .
    show "(s, u) \<in> E\<^sup>*" "rk ?ns u < ?ub" if "u \<in> set F" for u using F [OF that] by simp_all
    show "w \<in> set F" if ok "u \<in> set F" "(u, w) \<in> E" "rk ?ns w < ?ub" for u w using closed [OF that(1-3)] that(4) by simp
  qed
qed

lemma BackwardDFS_spec:
  assumes ins: "\<forall>u \<in> ids (nodes r). ins S (nodes r) u \<subseteq> ids (nodes r)"
    and s: "s \<in> ids (nodes r)" "\<not> visited (nd (nodes r) s)"
  shows "\<exists>r' B. BackwardDFS S r s lb = Some r' \<and> deltab r' = B \<and> deltaf r' = deltaf r \<and> free_nodes r' = free_nodes r \<and>
    marked (nodes r) (nodes r') (set B) \<and> distinct B \<and> s \<in> set B \<and>
    (\<forall>w \<in> set B. w \<in> ids (nodes r) \<and> \<not> visited (nd (nodes r) w) \<and> (s, w) \<in> (kept (ins S (nodes r)) (rk (nodes r)) (\<lambda>k. lb < k))\<^sup>*) \<and>
    (\<forall>u \<in> set B. \<forall>w \<in> ins S (nodes r) u. lb < rk (nodes r) w \<longrightarrow> visited (nd (nodes r') w))"
proof -
  let ?ns = "nodes r" and ?nxt = "\<lambda>nn. ns_elems S (n_in nn)"
  have "agrees ?nxt ?ns (ins S ?ns) (rk ?ns)" using ins by (auto simp: agrees_def ins_def rank_nd)
  moreover have "blind ?nxt" by (simp add: blind_def)
  ultimately obtain ok ns' B st' where d: "dfs_loop ?nxt (\<lambda>k. False) (\<lambda>k. lb < k) ?ns [] [s] = Some (ok, ns', B, st')"
    and sr: "searched (ins S ?ns) (rk ?ns) (\<lambda>k. False) (\<lambda>k. lb < k) ?ns [s] ok ns' B"
    using dfs_loop_spec [of ?nxt ?ns "ins S ?ns" "rk ?ns" "[s]" "\<lambda>k. False" "\<lambda>k. lb < k" "[]"] s(1) by auto
  have ok: ok using sr by (auto simp: searched_def split: if_splits)
  have m: "marked ?ns ns' (set B)" using sr by (simp add: searched_def)
  have "visited (nd ns' s)" using sr ok by (simp add: searched_def)
  then have "s \<in> set B" using marked_edges(7) [OF m s(1)] s(2) by blast
  moreover define r' where "r' = r\<lparr>nodes := ns', deltab := B, stack := st'\<rparr>"
  moreover have "BackwardDFS S r s lb = Some r'" using d by (simp add: BackwardDFS_def r'_def)
  ultimately show ?thesis using sr ok m by (intro exI [of _ r'] exI [of _ B]) (simp add: searched_def)
qed

section \<open>Adding and removing an edge\<close>

definition link :: "'s node_set \<Rightarrow> ('s, 'd) node list \<Rightarrow> int \<Rightarrow> int \<Rightarrow> ('s, 'd) node list" where
  "link S ns x y =
     (let ns = set_node ns x ((nd ns x)\<lparr>n_out := ns_insert S y (n_out (nd ns x))\<rparr>)
      in set_node ns y ((nd ns y)\<lparr>n_in := ns_insert S x (n_in (nd ns y))\<rparr>))"

definition unlink :: "'s node_set \<Rightarrow> ('s, 'd) node list \<Rightarrow> int \<Rightarrow> int \<Rightarrow> ('s, 'd) node list" where
  "unlink S ns x y =
     (let ns = set_node ns x ((nd ns x)\<lparr>n_out := ns_erase S y (n_out (nd ns x))\<rparr>)
      in set_node ns y ((nd ns y)\<lparr>n_in := ns_erase S x (n_in (nd ns y))\<rparr>))"

text \<open>The same nodes with other edges.\<close>

definition regraph :: "'s node_set \<Rightarrow> ('s, 'd) node list \<Rightarrow> ('s, 'd) node list \<Rightarrow> (int \<times> int) set \<Rightarrow> bool" where
  "regraph S ns ns' E \<longleftrightarrow> length ns' = length ns \<and>
     rk ns' = rk ns \<and>
     (\<forall>z \<in> ids ns. visited (nd ns' z) = visited (nd ns z) \<and> data (nd ns' z) = data (nd ns z) \<and>
        outs S ns' z = {w. (z, w) \<in> E} \<and> ins S ns' z = {w. (w, z) \<in> E})"

lemma regraph_edges:
  assumes "regraph S ns ns' E" "E \<subseteq> ids ns \<times> ids ns"
  shows "edges S ns' = E"
  using assms unfolding regraph_def edges_def by auto

lemma regraph_wf:
  assumes "wf_nodes S ns" "regraph S ns ns' E" "E \<subseteq> ids ns \<times> ids ns"
  shows "wf_nodes S ns'"
proof -
  have "inj_on (rk ns') (ids ns')" "rk ns' ` ids ns' = ids ns'"
    using assms(1,2) by (simp_all add: wf_nodes_def regraph_def)
  then show ?thesis using assms by (auto simp: wf_nodes_def regraph_def)
qed

context unordered_set
begin

lemma regraph_link:
  assumes "wf_nodes S ns" "x \<in> ids ns" "y \<in> ids ns"
  shows "regraph S ns (link S ns x y) (insert (x, y) (edges S ns))"
proof -
  note wf = wf_nodesD [OF assms(1)]
  have "outs S ns z = {w. (z, w) \<in> edges S ns}" "ins S ns z = {w. (w, z) \<in> edges S ns}" if "z \<in> ids ns" for z
    using wf(6) [OF that] edges_iff [OF that] by auto
  then show ?thesis using assms(2,3) by (auto simp: regraph_def link_def Let_def outs_def ins_def intro: rk_eqI)
qed

lemma regraph_unlink:
  assumes "wf_nodes S ns" "x \<in> ids ns" "y \<in> ids ns"
  shows "regraph S ns (unlink S ns x y) (edges S ns - {(x, y)})"
proof -
  note wf = wf_nodesD [OF assms(1)]
  have "outs S ns z = {w. (z, w) \<in> edges S ns}" "ins S ns z = {w. (w, z) \<in> edges S ns}" if "z \<in> ids ns" for z
    using wf(6) [OF that] edges_iff [OF that] by auto
  then show ?thesis using assms(2,3) by (auto simp: regraph_def unlink_def Let_def outs_def ins_def intro: rk_eqI)
qed

end

section \<open>InsertEdge\<close>

text \<open>What both searches for a new edge against the order have found.\<close>

lemma searches_affected:
  assumes E: "E \<subseteq> V \<times> V" and xy: "x \<in> V" "g y < g x"
    and F: "y \<in> F" "\<And>u. u \<in> F \<Longrightarrow> (y, u) \<in> E\<^sup>* \<and> g u < g x" "\<And>u w. u \<in> F \<Longrightarrow> (u, w) \<in> E \<Longrightarrow> g w < g x \<Longrightarrow> w \<in> F"
    and B: "x \<in> B" "\<And>u. u \<in> B \<Longrightarrow> (x, u) \<in> (kept nx g (\<lambda>k. g y < k))\<^sup>*"
      "\<And>u w. u \<in> B \<Longrightarrow> w \<in> nx u \<Longrightarrow> g y < g w \<Longrightarrow> w \<in> B \<union> F"
    and nx: "\<And>u. u \<in> V \<Longrightarrow> nx u = {w. (w, u) \<in> insert (x, y) E}"
  shows "affected E g x y B F"
proof -
  have path: "u \<in> V \<and> g y < g u \<and> (u, x) \<in> E\<^sup>*" if "(x, u) \<in> (kept nx g (\<lambda>k. g y < k))\<^sup>*" for u
    using that
  proof (induction rule: rtrancl_induct)
    case (step u w)
    then have "w \<in> nx u" "g y < g w" "u \<noteq> y" by (auto simp: kept_def)
    then have "(w, u) \<in> E" using nx step.IH by auto
    then show ?case using step.IH \<open>g y < g w\<close> E by (auto intro: converse_rtrancl_into_rtrancl)
  qed (use xy in auto)
  have cl: "w \<in> B \<union> F" if "u \<in> B" "(w, u) \<in> E" "g y < g w" for u w
  proof -
    have "w \<in> nx u" using nx [of u] path [OF B(2) [OF that(1)]] that(2) by simp
    then show ?thesis using B(3) that(1,3) by blast
  qed
  show ?thesis unfolding affected_def
  proof (intro conjI ballI allI impI)
    show "x \<in> B" "y \<in> F" by (fact B(1) F(1))+
    show "(y, u) \<in> E\<^sup>*" "g u < g x" if "u \<in> F" for u using F(2) [OF that] by simp_all
    show "w \<in> F" if "u \<in> F" "(u, w) \<in> E" "g w < g x" for u w by (rule F(3) [OF that])
    show "(u, x) \<in> E\<^sup>*" "g y < g u" if "u \<in> B" for u using path [OF B(2) [OF that]] by simp_all
    show "w \<in> B \<union> F" if "u \<in> B" "(w, u) \<in> E" "g y < g w" for u w by (rule cl [OF that])
  qed
qed

lemma reranked_bij:
  assumes r: "reranked g g' B F" and inj: "inj_on g V" and img: "g ` V = V" and sub: "B \<union> F \<subseteq> V"
  shows "inj_on g' V \<and> g' ` V = V"
proof -
  let ?A = "B \<union> F"
  have same: "g' w = g w" if "w \<notin> ?A" for w using r that unfolding reranked_def by blast
  have img': "g' ` ?A = g ` ?A" and inj': "inj_on g' ?A" using r unfolding reranked_def by blast+
  have in_A: "u \<in> ?A \<longleftrightarrow> v \<in> ?A" if "u \<in> V" "v \<in> V" "g' u = g' v" for u v
  proof -
    have "w \<in> ?A" if w: "w \<in> V" "g' w \<in> g ` ?A" for w
    proof (rule ccontr)
      assume n: "w \<notin> ?A"
      then obtain z where "z \<in> ?A" "g w = g z" using w(2) same by auto
      then show False using inj w(1) sub n by (auto dest: inj_onD)
    qed
    then show ?thesis using that img' by (metis imageI)
  qed
  have "inj_on g' V"
  proof (rule inj_onI)
    fix u v assume uv: "u \<in> V" "v \<in> V" "g' u = g' v"
    show "u = v"
    proof (cases "u \<in> ?A")
      case True
      then show ?thesis using in_A [OF uv] inj' uv(3) by (blast dest: inj_onD)
    next
      case False
      then show ?thesis using in_A [OF uv] same inj uv by (metis inj_onD)
    qed
  qed
  moreover have "g' ` V = V"
  proof -
    have "g' ` V = g' ` ?A \<union> g' ` (V - ?A)" using sub by blast
    also have "g' ` (V - ?A) = g ` (V - ?A)" using same by (intro image_cong) auto
    also have "g' ` ?A \<union> g ` (V - ?A) = g ` V" using sub unfolding img' by blast
    finally show ?thesis using img by simp
  qed
  ultimately show ?thesis by blast
qed

context unordered_set
begin

lemma free_link:
  assumes inv: "gc_inv S r" and xy: "x \<in> live_nodes r" "y \<in> live_nodes r"
    and e: "edges S ns' \<subseteq> insert (x, y) (edges S (nodes r))" and wf: "wf_nodes S ns'" "length ns' = length (nodes r)"
    and z: "z \<in> set (free_nodes r)"
  shows "outs S ns' z = {}" "ins S ns' z = {}"
proof -
  have zid: "z \<in> ids (nodes r)" "z \<in> ids ns'" using inv z wf(2) by (auto simp: gc_inv_def)
  have no: "(z, w) \<notin> edges S (nodes r)" "(w, z) \<notin> edges S (nodes r)" for w
    using inv z zid edges_iff [OF zid(1)] wf_nodesD(6) [of S "nodes r" z w] by (auto simp: gc_inv_def)
  have "z \<noteq> x" "z \<noteq> y" using xy z by (auto simp: live_nodes_def)
  then show "outs S ns' z = {}" "ins S ns' z = {}"
    using e no edges_iff [OF zid(2)] wf_nodesD(6) [OF wf(1) zid(2)] by blast+
qed

lemma InsertEdge_reorders:
  fixes r :: "('s, 'd) rep" and x y :: int
  defines "E \<equiv> edges S (nodes r)" and "ns1 \<equiv> link S (nodes r) x y" and "g \<equiv> rk (nodes r)"
  assumes inv: "gc_inv S r" and xy: "x \<in> ids (nodes r)" "y \<in> ids (nodes r)" "g y < g x" and nc: "(y, x) \<notin> E\<^sup>*"
    and F: "deltaf r2 = F" "free_nodes r2 = free_nodes r" "marked ns1 (nodes r2) (set F)" "distinct F" "set F \<subseteq> ids ns1"
      "y \<in> set F" "\<forall>u \<in> set F. (y, u) \<in> E\<^sup>* \<and> g u < g x"
      "\<forall>u \<in> set F. \<forall>w. (u, w) \<in> E \<longrightarrow> g w < g x \<longrightarrow> w \<in> set F"
  shows "\<exists>r3 r'. BackwardDFS S r2 x (g y) = Some r3 \<and> Reorder r3 = Some r' \<and>
    wf_nodes S (nodes r') \<and> same_nodes r r' \<and> edges S (nodes r') = insert (x, y) E \<and> topo (insert (x, y) E) (rk (nodes r'))"
proof -
  let ?ns = "nodes r"
  have wf: "wf_nodes S ?ns" and topo: "topo E g" using inv by (simp_all add: gc_inv_def E_def g_def)
  note wf' = wf_nodesD [OF wf]
  have E: "E \<subseteq> ids ?ns \<times> ids ?ns" using wf'(1) by (simp add: E_def)
  then have E1: "insert (x, y) E \<subseteq> ids ?ns \<times> ids ?ns" using xy by auto
  have rg: "regraph S ?ns ns1 (insert (x, y) E)" using regraph_link [OF wf xy(1,2)] by (simp add: ns1_def E_def)
  have wf1: "wf_nodes S ns1" by (rule regraph_wf [OF wf rg E1])
  have ids1: "ids ns1 = ids ?ns" using rg by (simp add: regraph_def)
  note m = marked_edges [OF F(3)]
  have ids2: "ids (nodes r2) = ids ?ns" using m(1) ids1 by simp
  have g2: "rk (nodes r2) = g" using m(3) rg by (simp add: regraph_def g_def)
  have ins2: "ins S (nodes r2) u = {w. (w, u) \<in> insert (x, y) E}" if "u \<in> ids ?ns" for u
    using m(4) that rg ids1 by (auto simp: regraph_def)
  have xF: "x \<notin> set F" using F(7) by blast
  have vis2: "visited (nd (nodes r2) w) \<longleftrightarrow> w \<in> set F" if "w \<in> ids ?ns" for w
    using m(7) [of w] wf_nodesD(3) [OF wf1, of w] that ids1 by auto
  have in2: "\<forall>u \<in> ids (nodes r2). ins S (nodes r2) u \<subseteq> ids (nodes r2)" using ins2 E1 unfolding ids2 by blast
  have x2: "x \<in> ids (nodes r2)" "\<not> visited (nd (nodes r2) x)" using xy(1) ids2 vis2 xF by blast+
  obtain r3 B where b: "BackwardDFS S r2 x (g y) = Some r3" "deltab r3 = B" "deltaf r3 = F" "free_nodes r3 = free_nodes r"
      "marked (nodes r2) (nodes r3) (set B)" "distinct B" "x \<in> set B"
    and B: "\<forall>w \<in> set B. w \<in> ids ?ns \<and> \<not> visited (nd (nodes r2) w) \<and> (x, w) \<in> (kept (ins S (nodes r2)) g (\<lambda>k. g y < k))\<^sup>*"
      "\<forall>u \<in> set B. \<forall>w \<in> ins S (nodes r2) u. g y < g w \<longrightarrow> visited (nd (nodes r3) w)"
    using BackwardDFS_spec [OF in2 x2, of "g y"] F(1,2) unfolding g2 ids2 by metis
  note m3 = marked_edges [OF b(5)]
  have ids3: "ids (nodes r3) = ids ?ns" using m3(1) ids2 by simp
  have vis3: "visited (nd (nodes r3) w) \<longleftrightarrow> w \<in> set B \<union> set F" if "w \<in> ids ?ns" for w
    using m3(7) [of w] vis2 [OF that] that ids2 by auto
  have disj: "set B \<inter> set F = {}" using B(1) vis2 by blast
  have cl: "w \<in> set B \<union> set F" if "u \<in> set B" "w \<in> ins S (nodes r2) u" "g y < g w" for u w
  proof -
    have "u \<in> ids (nodes r2)" using B(1) that(1) ids2 by blast
    then have "w \<in> ids ?ns" using in2 that(2) unfolding ids2 by blast
    then show ?thesis using B(2) that vis3 by blast
  qed
  have aff: "affected E g x y (set B) (set F)"
    by (rule searches_affected [OF E xy(1,3) F(6) _ _ b(7) _ cl ins2]) (use B(1) F(7,8) in blast)+
  have g3: "rk (nodes r3) = g" using m3(3) g2 by simp
  have BF: "set B \<union> set F \<subseteq> ids ?ns" using B(1) F(5) ids1 by blast
  then have sub: "set (deltab r3) \<union> set (deltaf r3) \<subseteq> ids (nodes r3)" using b(2,3) ids3 by simp
  have inj: "inj_on g (ids ?ns)" using wf'(2) by (simp add: g_def)
  then have inj3: "inj_on (rk (nodes r3)) (set (deltab r3) \<union> set (deltaf r3))"
    using BF inj_on_subset unfolding g3 b(2,3) by blast
  have "distinct (deltab r3 @ deltaf r3)" using b(2,3,6) F(4) disj by simp
  from Reorder_spec [OF sub this inj3] obtain r' where r': "Reorder r3 = Some r'" "free_nodes r' = free_nodes r3"
    "length (nodes r') = length (nodes r3)" "reranked g (rk (nodes r')) (set B) (set F)"
    "\<forall>w \<in> ids ?ns. nd (nodes r') w = (nd (nodes r3) w)\<lparr>rank := rk (nodes r') w, visited := visited (nd (nodes r3) w) \<and> w \<notin> set B \<union> set F\<rparr>"
    unfolding g3 ids3 b(2,3) by blast
  have ids': "ids (nodes r') = ids ?ns" using r'(3) ids3 by simp
  have topo': "topo (insert (x, y) E) (rk (nodes r'))" by (rule topo_reranked [OF topo inj E xy(1,2) nc aff r'(4)])
  have graph: "outs S (nodes r') w = {z. (w, z) \<in> insert (x, y) E} \<and> ins S (nodes r') w = {z. (z, w) \<in> insert (x, y) E} \<and>
      \<not> visited (nd (nodes r') w) \<and> data (nd (nodes r') w) = data (nd ?ns w)" if w: "w \<in> ids ?ns" for w
  proof -
    have "outs S (nodes r') w = outs S (nodes r3) w" "ins S (nodes r') w = ins S (nodes r3) w" "\<not> visited (nd (nodes r') w)"
      "data (nd (nodes r') w) = data (nd (nodes r3) w)"
      using r'(5) w vis3 [OF w] by (auto simp: outs_def ins_def)
    then show ?thesis using m3(4,5,6) [of w] m(4,5,6) [of w] w ids1 ids2 rg by (simp add: regraph_def)
  qed
  have perm: "inj_on (rk (nodes r')) (ids ?ns) \<and> rk (nodes r') ` ids ?ns = ids ?ns"
    by (rule reranked_bij [OF r'(4) inj _ BF]) (use wf in \<open>simp add: wf_nodes_def g_def\<close>)
  have "edges S (nodes r') = insert (x, y) E"
  proof -
    have "(u, v) \<in> edges S (nodes r') \<longleftrightarrow> (u, v) \<in> insert (x, y) E" for u v
    proof (cases "u \<in> ids ?ns")
      case True
      then show ?thesis using graph [OF True] ids' by (simp add: edges_def)
    next
      case False
      then show ?thesis using E1 ids' unfolding edges_def by blast
    qed
    then show ?thesis by auto
  qed
  moreover have "wf_nodes S (nodes r')" unfolding wf_nodes_def ids'
  proof (intro conjI ballI)
    fix u assume u: "u \<in> ids ?ns"
    have gu: "outs S (nodes r') u = {z. (u, z) \<in> insert (x, y) E}" "ins S (nodes r') u = {z. (z, u) \<in> insert (x, y) E}"
      "\<not> visited (nd (nodes r') u)" using graph [OF u] by simp_all
    show "outs S (nodes r') u \<subseteq> ids ?ns" unfolding gu(1) using E1 by blast
    show "ins S (nodes r') u \<subseteq> ids ?ns" unfolding gu(2) using E1 by blast
    show "\<not> visited (nd (nodes r') u)" by (fact gu(3))
    show "v \<in> outs S (nodes r') u \<longleftrightarrow> u \<in> ins S (nodes r') v" if "v \<in> ids ?ns" for v
      using graph [OF u] graph [OF that] by simp
  qed (use perm in blast)+
  moreover have "length (nodes r3) = length ?ns" using m3(1) m(1) rg by (simp add: regraph_def)
  then have "same_nodes r r'" using r'(2,3) b(4) graph by (simp add: same_nodes_def)
  ultimately show ?thesis using b(1) r'(1) topo' by blast
qed

text \<open>An edge that closes a cycle is taken out again.\<close>

lemma InsertEdge_undoes:
  fixes r :: "('s, 'd) rep" and x y :: int
  defines "ns1 \<equiv> link S (nodes r) x y"
  assumes inv: "gc_inv S r" and xy: "x \<in> ids (nodes r)" "y \<in> ids (nodes r)" "x \<noteq> y" and ne: "(x, y) \<notin> edges S (nodes r)"
    and F: "marked ns1 ns2 (set F)" "set F \<subseteq> ids ns1" "length ns1 = length (nodes r)" "regraph S (nodes r) ns1 (insert (x, y) (edges S (nodes r)))"
  shows "\<exists>ns'. ClearVisitedBits (unlink S ns2 x y) F = Some ns' \<and> regraph S (nodes r) ns' (edges S (nodes r))"
proof -
  let ?ns = "nodes r" and ?E = "edges S (nodes r)"
  have wf: "wf_nodes S ?ns" using inv by (simp add: gc_inv_def)
  have ids2: "ids ns2 = ids ?ns" "ids ns1 = ids ?ns" using F(1,3) by (simp_all add: marked_def)
  let ?ns3 = "unlink S ns2 x y"
  have len3: "length ?ns3 = length ?ns" using ids2 F(1,3) by (simp add: unlink_def Let_def marked_def)
  obtain ns' where c: "ClearVisitedBits ?ns3 F = Some ns'" "unmarked ?ns3 ns' (set F)"
    using ClearVisitedBits_spec [of F ?ns3] F(2,3) len3 by auto
  have n3: "outs S ?ns3 z = {w. (z, w) \<in> ?E} \<and> ins S ?ns3 z = {w. (w, z) \<in> ?E} \<and> rank (nd ?ns3 z) = rank (nd ns2 z) \<and>
      data (nd ?ns3 z) = data (nd ns2 z) \<and> visited (nd ?ns3 z) = visited (nd ns2 z)" if z: "z \<in> ids ?ns" for z
  proof -
    have "outs S ns2 z = {w. (z, w) \<in> insert (x, y) ?E}" "ins S ns2 z = {w. (w, z) \<in> insert (x, y) ?E}"
      using marked_edges(4,5) [OF F(1), of z S] F(4) z ids2 by (simp_all add: regraph_def)
    then show ?thesis using xy z ids2 ne by (auto simp: unlink_def Let_def outs_def ins_def)
  qed
  have z': "nd ns' z = (nd ?ns3 z)\<lparr>visited := visited (nd ns2 z) \<and> z \<notin> set F\<rparr>" if "z \<in> ids ?ns" for z
    using c(2) that len3 n3 [OF that] by (simp add: unmarked_def)
  have v2: "visited (nd ns2 z) \<longleftrightarrow> z \<in> set F" "rank (nd ns2 z) = rank (nd ?ns z)" "data (nd ns2 z) = data (nd ?ns z)" if z: "z \<in> ids ?ns" for z
  proof -
    show "visited (nd ns2 z) \<longleftrightarrow> z \<in> set F"
      using marked_edges(7) [OF F(1), of z] wf_nodesD(3) [OF wf z] F(4) z ids2 by (simp add: regraph_def)
    have "rk ns2 z = rk ?ns z" using marked_edges(3) [OF F(1)] F(4) by (simp add: regraph_def)
    then show "rank (nd ns2 z) = rank (nd ?ns z)" using z ids2 by (simp add: rk_def)
    show "data (nd ns2 z) = data (nd ?ns z)" using marked_edges(6) [OF F(1), of z] F(4) z ids2 by (simp add: regraph_def)
  qed
  have len': "length ns' = length ?ns" using c(2) len3 by (simp add: unmarked_def)
  have "rk ns' = rk ?ns" by (rule rk_eqI [OF len']) (simp add: z' n3 v2)
  then have "regraph S ?ns ns' ?E"
    using len' z' n3 v2 wf_nodesD(3) [OF wf] by (simp add: regraph_def outs_def ins_def)
  then show ?thesis using c(1) by blast
qed

lemma gc_inv_link:
  assumes inv: "gc_inv S r" and xy: "x \<in> live_nodes r" "y \<in> live_nodes r" and wf: "wf_nodes S (nodes r')"
    and e: "edges S (nodes r') \<subseteq> insert (x, y) (edges S (nodes r))" and topo: "topo (edges S (nodes r')) (rk (nodes r'))" and same: "same_nodes r r'"
  shows "gc_inv S r'"
proof -
  have len: "length (nodes r') = length (nodes r)" "free_nodes r' = free_nodes r" using same by (simp_all add: same_nodes_def)
  then show ?thesis using inv wf topo free_link [OF inv xy e wf len(1)] by (auto simp: gc_inv_def)
qed

lemma InsertEdge_spec:
  assumes inv: "gc_inv S r" and xy: "x \<in> live_nodes r" "y \<in> live_nodes r"
  defines "E \<equiv> edges S (nodes r)"
  shows "\<exists>r'. InsertEdge S r x y = Some (x \<noteq> y \<and> (y, x) \<notin> E\<^sup>*, r') \<and> gc_inv S r' \<and> same_nodes r r' \<and>
    edges S (nodes r') = (if x \<noteq> y \<and> (y, x) \<notin> E\<^sup>* then insert (x, y) E else E)"
proof -
  let ?ns = "nodes r" and ?ns1 = "link S (nodes r) x y"
  have ids: "x \<in> ids ?ns" "y \<in> ids ?ns" using xy by (simp_all add: live_nodes_def)
  have wf: "wf_nodes S ?ns" and topo: "topo E (rk ?ns)" using inv by (simp_all add: gc_inv_def E_def)
  have E: "E \<subseteq> ids ?ns \<times> ids ?ns" using wf_nodesD(1) [OF wf] by (simp add: E_def)
  have at: "node_at ?ns x = Some (nd ?ns x)" using ids by simp
  consider "x = y" | "x \<noteq> y" "(x, y) \<in> E" | "x \<noteq> y" "(x, y) \<notin> E" by blast
  then show ?thesis
  proof cases
    case 1
    then show ?thesis using inv by (auto simp: InsertEdge_def E_def)
  next
    case 2
    have "(y, x) \<notin> E\<^sup>*"
    proof
      assume "(y, x) \<in> E\<^sup>*"
      then have "(x, x) \<in> E\<^sup>+" using 2(2) by (rule rtrancl_into_trancl2 [rotated])
      then show False using topo_trancl [OF topo] by blast
    qed
    moreover have "InsertEdge S r x y = Some (True, r)" using 2 at ids by (simp add: InsertEdge_def E_def edges_def outs_def)
    ultimately show ?thesis using 2 inv by (auto simp: E_def)
  next
    case 3
    have E1: "insert (x, y) E \<subseteq> ids ?ns \<times> ids ?ns" using E ids by auto
    have rg: "regraph S ?ns ?ns1 (insert (x, y) E)" using regraph_link [OF wf ids] by (simp add: E_def)
    have wf1: "wf_nodes S ?ns1" by (rule regraph_wf [OF wf rg E1])
    have e1: "edges S ?ns1 = insert (x, y) E" by (rule regraph_edges [OF rg E1])
    have rk1: "rk ?ns1 = rk ?ns" "length ?ns1 = length ?ns" using rg by (simp_all add: regraph_def)
    let ?r1 = "r\<lparr>nodes := ?ns1\<rparr>"
    have ranks: "rank (nd ?ns x) = rk ?ns x" "rank (nd ?ns y) = rk ?ns y" using ids by (simp_all add: rk_def)
    have nout: "y \<notin> set (ns_elems S (n_out (nd ?ns x)))" using 3(2) ids by (simp add: E_def edges_def outs_def)
    have neq: "rk ?ns x \<noteq> rk ?ns y" using wf_nodesD(2) [OF wf] ids 3(1) by (auto dest: inj_onD)
    show ?thesis
    proof (cases "rk ?ns x \<le> rk ?ns y")
      case True
      have ie: "InsertEdge S r x y = Some (True, ?r1)"
        using 3 ids nout True ranks by (simp add: InsertEdge_def link_def Let_def)
      have "topo (insert (x, y) E) (rk ?ns)" using topo True neq by (auto simp: topo_def)
      then have t1: "topo (edges S (nodes ?r1)) (rk (nodes ?r1))" using e1 rk1 by simp
      have same: "same_nodes r ?r1" using rg by (simp add: same_nodes_def regraph_def)
      have "(y, x) \<notin> E\<^sup>*" using topo_path [OF topo, of y x] True neq by auto
      moreover have "gc_inv S ?r1" using gc_inv_link [OF inv xy, of ?r1] wf1 e1 t1 same by (simp add: E_def)
      ultimately show ?thesis using ie same e1 3(1) by (intro exI [of _ ?r1]) simp
    next
      case False
      then have lt: "rk ?ns y < rk ?ns x" by simp
      let ?E0 = "{(u, v). (u, v) \<in> E \<and> u \<noteq> x}"
      have E0: "?E0 = {(u, v). (u, v) \<in> edges S (nodes ?r1) \<and> u \<noteq> x}" using e1 by auto
      have "topo ?E0 (rk (nodes ?r1))" using topo rk1 by (auto simp: topo_def)
      from ForwardDFS_spec [of S ?r1 y x, OF _ _ _ _ this E0] wf1 ids lt rk1 obtain ok r2 F where
        f: "ForwardDFS S ?r1 y (rk ?ns x) = Some (ok, r2)" "deltaf r2 = F" "free_nodes r2 = free_nodes r"
          "marked ?ns1 (nodes r2) (set F)" "distinct F" "set F \<subseteq> ids ?ns1" "ok \<longleftrightarrow> (y, x) \<notin> ?E0\<^sup>*"
        and fo: "ok \<longrightarrow> y \<in> set F \<and> (\<forall>u \<in> set F. (y, u) \<in> ?E0\<^sup>* \<and> rk ?ns u < rk ?ns x) \<and>
          (\<forall>u \<in> set F. \<forall>w. (u, w) \<in> ?E0 \<longrightarrow> rk ?ns w < rk ?ns x \<longrightarrow> w \<in> set F)" by auto
      have ok: "ok \<longleftrightarrow> (y, x) \<notin> E\<^sup>*" unfolding f(7) using rtrancl_avoid [of y x E] by blast
      have ids2: "x \<in> ids (nodes r2)" "y \<in> ids (nodes r2)" using marked_edges(1) [OF f(4)] rk1 ids by simp_all
      show ?thesis
      proof (cases ok)
        case True
        have sub: "(y, u) \<in> E\<^sup>*" if "(y, u) \<in> ?E0\<^sup>*" for u by (rule rtrancl_mono [THEN subsetD, OF _ that]) auto
        have F1: "y \<in> set F" and F2: "\<forall>u \<in> set F. (y, u) \<in> E\<^sup>* \<and> rk ?ns u < rk ?ns x"
          and F3: "\<forall>u \<in> set F. \<forall>w. (u, w) \<in> E \<longrightarrow> rk ?ns w < rk ?ns x \<longrightarrow> w \<in> set F"
          using fo True sub by (blast, blast, force)
        have nc: "(y, x) \<notin> (edges S ?ns)\<^sup>*" using ok True by (simp add: E_def)
        from InsertEdge_reorders [OF inv ids lt nc f(2-6) F1 F2 [unfolded E_def] F3 [unfolded E_def]] obtain r3 r' where
          r: "BackwardDFS S r2 x (rk ?ns y) = Some r3" "Reorder r3 = Some r'" "wf_nodes S (nodes r')" "same_nodes r r'"
            "edges S (nodes r') = insert (x, y) E" "topo (insert (x, y) E) (rk (nodes r'))" by (auto simp: E_def)
        have "InsertEdge S r x y = Some (True, r')"
          using 3 ids nout False ranks f(1) True r(1,2) by (simp add: InsertEdge_def link_def Let_def)
        moreover have "gc_inv S r'" using gc_inv_link [OF inv xy r(3)] r(4-6) by (simp add: E_def)
        ultimately show ?thesis using True ok r(4,5) 3(1) by (intro exI [of _ r']) simp
      next
        case no: False
        obtain ns' where u: "ClearVisitedBits (unlink S (nodes r2) x y) F = Some ns'" "regraph S ?ns ns' E"
          using InsertEdge_undoes [OF inv ids 3(1) _ f(4,6) rk1(2)] rg 3(2) by (auto simp: E_def)
        define r' where "r' = r2\<lparr>nodes := ns'\<rparr>"
        have "InsertEdge S r x y = Some (False, r')"
          using 3 ids nout False ranks f(1,2) no u(1) ids2 by (simp add: InsertEdge_def link_def unlink_def Let_def r'_def)
        moreover have w': "wf_nodes S (nodes r')" "edges S (nodes r') = E" "same_nodes r r'" "rk (nodes r') = rk ?ns"
          using regraph_wf [OF wf u(2) E] regraph_edges [OF u(2) E] u(2) f(3) by (simp_all add: r'_def same_nodes_def regraph_def)
        moreover have "gc_inv S r'"
          by (rule gc_inv_link [OF inv xy w'(1) _ _ w'(3)]) (use w'(2,4) topo in \<open>auto simp: E_def\<close>)
        ultimately show ?thesis using no ok by (intro exI [of _ r']) simp
      qed
    qed
  qed
qed

end

end
