(* ===== verification/GraphCyclesOps.thy ===== *)
theory GraphCyclesOps
  imports GraphCyclesInv
begin

text \<open>
  The other operations of \<open>GraphCycles\<close> in terms of the graph: creating and removing nodes,
  removing edges, reachability, paths and contraction.
\<close>

section \<open>Nodes and edges\<close>

lemma CheckInvariants_inv:
  assumes "gc_inv S r"
  shows "CheckInvariants S r = Some True"
proof -
  let ?ns = "nodes r"
  have wf: "wf_nodes S ?ns" and topo: "topo (edges S ?ns) (rk ?ns)" using assms by (simp_all add: gc_inv_def)
  have out: "check_out ?ns nx ys = Some ()" if "set ys \<subseteq> ids ?ns" "\<forall>y \<in> set ys. rank nx < rk ?ns y" for nx ys
    using that by (induction ys) (auto simp: rk_def)
  have node: "check_out ?ns (nd ?ns x) (ns_elems S (n_out (nd ?ns x))) = Some ()" if x: "x \<in> ids ?ns" for x
  proof (rule out)
    show sub: "set (ns_elems S (n_out (nd ?ns x))) \<subseteq> ids ?ns" using wf_nodesD(4) [OF wf x] by (simp add: outs_def)
    show "\<forall>y \<in> set (ns_elems S (n_out (nd ?ns x))). rank (nd ?ns x) < rk ?ns y"
      using topo x by (auto simp: topo_def edges_def outs_def rank_nd)
  qed
  have "check_nodes S ?ns (rk ?ns ` {0..<int i}) (drop i ?ns) = Some ()" if "i \<le> length ?ns" for i
    using that
  proof (induction rule: inc_induct)
    case (step i)
    have i: "int i \<in> ids ?ns" "?ns ! i = nd ?ns (int i)" using step by (simp_all add: nd_def)
    have "{0..<int (Suc i)} = insert (int i) {0..<int i}" by auto
    then have ins: "rk ?ns ` {0..<int (Suc i)} = insert (rank (nd ?ns (int i))) (rk ?ns ` {0..<int i})" using i(1) by (simp add: rank_nd)
    have "rk ?ns (int i) \<notin> rk ?ns ` {0..<int i}"
    proof
      assume "rk ?ns (int i) \<in> rk ?ns ` {0..<int i}"
      then obtain j where j: "j \<in> {0..<int i}" "rk ?ns (int i) = rk ?ns j" by blast
      then have "j \<in> ids ?ns" using step.hyps by auto
      then show False using j inj_onD [OF wf_nodesD(2) [OF wf], of "int i" j] i(1) by auto
    qed
    then show ?case using step wf_nodesD(3) [OF wf i(1)] node [OF i(1)] i ins
      by (simp add: Cons_nth_drop_Suc [symmetric] rank_nd)
  qed simp
  from this [of 0] show ?thesis by (simp add: CheckInvariants_def)
qed

text \<open>The graph without the edges of \<open>x\<close>.\<close>

definition isolated :: "(int \<times> int) set \<Rightarrow> int \<Rightarrow> (int \<times> int) set" where
  "isolated E x = {(u, v). (u, v) \<in> E \<and> u \<noteq> x \<and> v \<noteq> x}"

context unordered_set
begin

lemma gc_inv_regraph:
  assumes inv: "gc_inv S r" and rg: "regraph S (nodes r) (nodes r') E" and E: "E \<subseteq> edges S (nodes r)" and fr: "free_nodes r' = free_nodes r"
  shows "gc_inv S r' \<and> same_nodes r r' \<and> edges S (nodes r') = E"
proof -
  have wf: "wf_nodes S (nodes r)" using inv by (simp add: gc_inv_def)
  have sub: "E \<subseteq> ids (nodes r) \<times> ids (nodes r)" using wf_nodesD(1) [OF wf] E by blast
  have e: "edges S (nodes r') = E" by (rule regraph_edges [OF rg sub])
  have t: "topo E (rk (nodes r'))" using inv E rg by (auto simp: gc_inv_def topo_def regraph_def)
  have free: "outs S (nodes r') z = {} \<and> ins S (nodes r') z = {}" if z: "z \<in> set (free_nodes r)" for z
  proof -
    have zid: "z \<in> ids (nodes r)" using inv z by (auto simp: gc_inv_def)
    have "(z, w) \<notin> edges S (nodes r)" "(w, z) \<notin> edges S (nodes r)" for w
      using inv z edges_iff [OF zid] wf_nodesD(6) [OF wf zid] by (auto simp: gc_inv_def)
    then show ?thesis using rg zid E by (auto simp: regraph_def)
  qed
  then have "gc_inv S r'" using inv regraph_wf [OF wf rg sub] t e fr rg by (auto simp: gc_inv_def regraph_def)
  then show ?thesis using rg fr e by (auto simp: same_nodes_def regraph_def)
qed

lemma RemoveEdge_spec:
  assumes inv: "gc_inv S r" and xy: "x \<in> ids (nodes r)" "y \<in> ids (nodes r)"
  shows "\<exists>r'. RemoveEdge S r x y = Some r' \<and> gc_inv S r' \<and> same_nodes r r' \<and> edges S (nodes r') = edges S (nodes r) - {(x, y)}"
proof -
  let ?r' = "r\<lparr>nodes := unlink S (nodes r) x y\<rparr>"
  have "RemoveEdge S r x y = Some ?r'" using xy by (simp add: RemoveEdge_def unlink_def Let_def)
  moreover have "regraph S (nodes r) (nodes ?r') (edges S (nodes r) - {(x, y)})"
    using regraph_unlink [OF _ xy] inv by (simp add: gc_inv_def)
  ultimately show ?thesis using gc_inv_regraph [OF inv, of ?r'] by auto
qed

lemma NewNode_spec:
  fixes r :: "('s, 'd) rep"
  assumes inv: "gc_inv S r"
  shows "\<exists>x r'. NewNode S r = Some (x, r') \<and> gc_inv S r' \<and> x \<notin> live_nodes r \<and> live_nodes r' = insert x (live_nodes r) \<and>
    edges S (nodes r') = edges S (nodes r) \<and> data (nd (nodes r') x) = None \<and> (\<forall>w \<in> live_nodes r. data (nd (nodes r') w) = data (nd (nodes r) w))"
proof (cases "free_nodes r")
  case Nil
  let ?n = "\<lparr>rank = int (length (nodes r)), visited = False, data = None, n_in = ns_empty S, n_out = ns_empty S\<rparr> :: ('s, 'd) node"
  let ?ns = "nodes r" and ?ns' = "nodes r @ [?n]"
  have wf: "wf_nodes S ?ns" using inv by (simp add: gc_inv_def)
  have ids': "ids ?ns' = insert (int (length ?ns)) (ids ?ns)" by auto
  have old: "nd ?ns' w = nd ?ns w" if "w \<in> ids ?ns" for w using that by (simp add: nd_def nth_append nat_less_iff)
  have new: "nd ?ns' (int (length ?ns)) = ?n" by (simp add: nd_def)
  have o: "outs S ?ns' w = (if w = int (length ?ns) then {} else outs S ?ns w)" "ins S ?ns' w = (if w = int (length ?ns) then {} else ins S ?ns w)"
    if "w \<in> ids ?ns'" for w
    using that old [of w] new unfolding ids' by (auto simp: outs_def ins_def)
  have rk': "rk ?ns' w = (if w = int (length ?ns) then int (length ?ns) else rk ?ns w)" if "w \<in> ids ?ns'" for w
    using that old [of w] new unfolding ids' by (auto simp: rk_def)
  have e: "edges S ?ns' = edges S ?ns" using o unfolding edges_def ids' by auto
  have img: "rk ?ns ` ids ?ns = ids ?ns" using wf by (simp add: wf_nodes_def)
  have rk_old: "\<forall>w \<in> ids ?ns. rk ?ns' w = rk ?ns w" using rk' unfolding ids' by auto
  have "rk ?ns' ` ids ?ns' = ids ?ns'"
  proof -
    have "rk ?ns' ` ids ?ns = ids ?ns" using rk_old img by (metis (no_types, lifting) image_cong)
    moreover have "rk ?ns' (int (length ?ns)) = int (length ?ns)" using rk' by (simp add: ids')
    ultimately show ?thesis unfolding ids' by simp
  qed
  moreover from this have "inj_on (rk ?ns') (ids ?ns')" by (simp add: eq_card_imp_inj_on)
  moreover have "outs S ?ns' w \<subseteq> ids ?ns' \<and> ins S ?ns' w \<subseteq> ids ?ns' \<and> \<not> visited (nd ?ns' w)" if "w \<in> ids ?ns'" for w
    using o [OF that] that old [of w] new wf_nodesD(3,4,5) [OF wf, of w] unfolding ids' by (auto split: if_splits)
  moreover have "v \<in> outs S ?ns' u \<longleftrightarrow> u \<in> ins S ?ns' v" if uv: "u \<in> ids ?ns'" "v \<in> ids ?ns'" for u v
  proof (cases "u \<in> ids ?ns \<and> v \<in> ids ?ns")
    case True
    then show ?thesis using o uv wf by (auto simp: wf_nodes_def)
  next
    case False
    have "int (length ?ns) \<notin> outs S ?ns w" "int (length ?ns) \<notin> ins S ?ns w" if "w \<in> ids ?ns" for w
      using wf_nodesD(4,5) [OF wf that] by auto
    then show ?thesis using False o uv unfolding ids' by (auto split: if_splits)
  qed
  ultimately have wf': "wf_nodes S ?ns'" unfolding wf_nodes_def by blast
  have "topo (edges S ?ns') (rk ?ns')"
    using inv rk_old wf_nodesD(1) [OF wf] unfolding e gc_inv_def topo_def by fastforce
  then have "gc_inv S (r\<lparr>nodes := ?ns'\<rparr>)" using wf' Nil by (simp add: gc_inv_def)
  moreover have "NewNode S r = Some (int (length ?ns), r\<lparr>nodes := ?ns'\<rparr>)" using Nil by (simp add: NewNode_def)
  ultimately show ?thesis using e new old Nil by (intro exI [of _ "int (length ?ns)"] exI [of _ "r\<lparr>nodes := ?ns'\<rparr>"]) (auto simp: live_nodes_def)
next
  case (Cons x rest)
  let ?ns = "nodes r"
  let ?ns' = "set_node ?ns x ((nd ?ns x)\<lparr>data := None\<rparr>)"
  have x: "x \<in> ids ?ns" "x \<notin> set rest" "distinct rest" using inv Cons by (auto simp: gc_inv_def)
  have nd': "nd ?ns' w = (if w = x then (nd ?ns x)\<lparr>data := None\<rparr> else nd ?ns w)" if "w \<in> ids ?ns" for w using x that by simp
  have rk': "rk ?ns' = rk ?ns" by (rule rk_eqI) (use nd' in auto)
  have o: "outs S ?ns' w = outs S ?ns w" "ins S ?ns' w = ins S ?ns w" "visited (nd ?ns' w) = visited (nd ?ns w)" if "w \<in> ids ?ns" for w
    using nd' [OF that] by (auto simp: outs_def ins_def)
  have e: "edges S ?ns' = edges S ?ns" using o by (auto simp: edges_def)
  have "wf_nodes S ?ns'" using inv o rk' by (auto simp: gc_inv_def wf_nodes_def)
  then have "gc_inv S (r\<lparr>nodes := ?ns', free_nodes := rest\<rparr>)" using inv o rk' e Cons x by (auto simp: gc_inv_def)
  moreover have "NewNode S r = Some (x, r\<lparr>nodes := ?ns', free_nodes := rest\<rparr>)" using Cons x(1) by (simp add: NewNode_def)
  ultimately show ?thesis using e nd' x Cons
    by (intro exI [of _ x] exI [of _ "r\<lparr>nodes := ?ns', free_nodes := rest\<rparr>"]) (auto simp: live_nodes_def)
qed

lemma IsReachableNonConst_spec:
  assumes inv: "gc_inv S r" and xy: "x \<in> ids (nodes r)" "y \<in> ids (nodes r)"
  shows "\<exists>r'. IsReachableNonConst S r x y = Some ((x, y) \<in> (edges S (nodes r))\<^sup>*, r') \<and> gc_inv S r' \<and> same_nodes r r' \<and>
    edges S (nodes r') = edges S (nodes r)"
proof -
  let ?ns = "nodes r" and ?E = "edges S (nodes r)"
  have wf: "wf_nodes S ?ns" and topo: "topo ?E (rk ?ns)" using inv by (simp_all add: gc_inv_def)
  have ranks: "rank (nd ?ns x) = rk ?ns x" "rank (nd ?ns y) = rk ?ns y" using xy by (simp_all add: rk_def)
  consider "x = y" | "x \<noteq> y" "rk ?ns y \<le> rk ?ns x" | "x \<noteq> y" "rk ?ns x < rk ?ns y" by linarith
  then show ?thesis
  proof cases
    case 1
    then show ?thesis using inv by (simp add: IsReachableNonConst_def)
  next
    case 2
    have "(x, y) \<notin> ?E\<^sup>*"
    proof
      assume "(x, y) \<in> ?E\<^sup>*"
      then have "(x, y) \<in> ?E\<^sup>+" using 2(1) by (simp add: rtrancl_eq_or_trancl)
      then show False using topo_trancl [OF topo] 2(2) by fastforce
    qed
    then show ?thesis using inv 2 xy ranks by (simp add: IsReachableNonConst_def)
  next
    case 3
    let ?D = "{(u, v). (u, v) \<in> ?E \<and> u \<noteq> y}"
    have "topo ?D (rk ?ns)" using topo by (auto simp: topo_def)
    from ForwardDFS_spec [OF wf xy 3(2) this refl] obtain ok r2 F where
      f: "ForwardDFS S r x (rk ?ns y) = Some (ok, r2)" "deltaf r2 = F" "free_nodes r2 = free_nodes r"
        "marked ?ns (nodes r2) (set F)" "set F \<subseteq> ids ?ns" "ok \<longleftrightarrow> (x, y) \<notin> ?D\<^sup>*" by blast
    have reach: "\<not> ok \<longleftrightarrow> (x, y) \<in> ?E\<^sup>*" using f(6) rtrancl_avoid [of x y ?E] by blast
    have len: "length (nodes r2) = length ?ns" using f(4) by (simp add: marked_def)
    then obtain ns' where c: "ClearVisitedBits (nodes r2) F = Some ns'" "unmarked (nodes r2) ns' (set F)"
      using ClearVisitedBits_spec [of F "nodes r2"] f(5) by auto
    have "nd ns' w = nd ?ns w" if w: "w \<in> ids ?ns" for w
    proof -
      have "nd (nodes r2) w = (nd ?ns w)\<lparr>visited := w \<in> set F\<rparr>" using f(4) w wf_nodesD(3) [OF wf w] by (simp add: marked_def)
      then show ?thesis using c(2) w len wf_nodesD(3) [OF wf w] by (simp add: unmarked_def)
    qed
    then have ns': "ns' = ?ns" using c(2) len by (intro nd_eqI) (simp_all add: unmarked_def)
    have "IsReachableNonConst S r x y = Some (\<not> ok, r2\<lparr>nodes := ?ns\<rparr>)"
      using 3 xy ranks f(1,2) c(1) ns' by (simp add: IsReachableNonConst_def)
    moreover have "gc_inv S (r2\<lparr>nodes := ?ns\<rparr>)" "same_nodes r (r2\<lparr>nodes := ?ns\<rparr>)"
      using inv f(3) by (simp_all add: gc_inv_def same_nodes_def)
    ultimately show ?thesis using reach by (intro exI [of _ "r2\<lparr>nodes := ?ns\<rparr>"]) simp
  qed
qed

section \<open>Removing nodes\<close>

lemma erase_in_spec:
  "set ys \<subseteq> ids ns \<Longrightarrow> \<exists>ns'. erase_in S x ys ns = Some ns' \<and> length ns' = length ns \<and> rk ns' = rk ns \<and>
    (\<forall>z \<in> ids ns. visited (nd ns' z) = visited (nd ns z) \<and> data (nd ns' z) = data (nd ns z) \<and> n_out (nd ns' z) = n_out (nd ns z) \<and>
       ins S ns' z = (if z \<in> set ys then ins S ns z - {x} else ins S ns z))"
proof (induction ys arbitrary: ns)
  case (Cons y ys)
  let ?ns = "set_node ns y ((nd ns y)\<lparr>n_in := ns_erase S x (n_in (nd ns y))\<rparr>)"
  have y: "y \<in> ids ns" "set ys \<subseteq> ids ?ns" using Cons.prems by simp_all
  have rk1: "rk ?ns = rk ns" by (rule rk_eqI) (use y in auto)
  have i: "ins S ?ns z = (if z = y then ins S ns y - {x} else ins S ns z)" if "z \<in> ids ns" for z
    using y that by (auto simp: ins_def)
  obtain ns' where n: "erase_in S x ys ?ns = Some ns'" "length ns' = length ?ns" "rk ns' = rk ?ns"
    "\<forall>z \<in> ids ?ns. visited (nd ns' z) = visited (nd ?ns z) \<and> data (nd ns' z) = data (nd ?ns z) \<and> n_out (nd ns' z) = n_out (nd ?ns z) \<and>
       ins S ns' z = (if z \<in> set ys then ins S ?ns z - {x} else ins S ?ns z)" using Cons.IH [OF y(2)] by blast
  have "erase_in S x (y # ys) ns = Some ns'" using n(1) y(1) by simp
  moreover have "\<forall>z \<in> ids ns. visited (nd ns' z) = visited (nd ns z) \<and> data (nd ns' z) = data (nd ns z) \<and> n_out (nd ns' z) = n_out (nd ns z) \<and>
       ins S ns' z = (if z \<in> set (y # ys) then ins S ns z - {x} else ins S ns z)" using n(4) i y(1) by auto
  ultimately show ?case using n(2,3) rk1 by auto
qed simp

lemma erase_out_spec:
  "set ys \<subseteq> ids ns \<Longrightarrow> \<exists>ns'. erase_out S x ys ns = Some ns' \<and> length ns' = length ns \<and> rk ns' = rk ns \<and>
    (\<forall>z \<in> ids ns. visited (nd ns' z) = visited (nd ns z) \<and> data (nd ns' z) = data (nd ns z) \<and> n_in (nd ns' z) = n_in (nd ns z) \<and>
       outs S ns' z = (if z \<in> set ys then outs S ns z - {x} else outs S ns z))"
proof (induction ys arbitrary: ns)
  case (Cons y ys)
  let ?ns = "set_node ns y ((nd ns y)\<lparr>n_out := ns_erase S x (n_out (nd ns y))\<rparr>)"
  have y: "y \<in> ids ns" "set ys \<subseteq> ids ?ns" using Cons.prems by simp_all
  have rk1: "rk ?ns = rk ns" by (rule rk_eqI) (use y in auto)
  have i: "outs S ?ns z = (if z = y then outs S ns y - {x} else outs S ns z)" if "z \<in> ids ns" for z
    using y that by (auto simp: outs_def)
  obtain ns' where n: "erase_out S x ys ?ns = Some ns'" "length ns' = length ?ns" "rk ns' = rk ?ns"
    "\<forall>z \<in> ids ?ns. visited (nd ns' z) = visited (nd ?ns z) \<and> data (nd ns' z) = data (nd ?ns z) \<and> n_in (nd ns' z) = n_in (nd ?ns z) \<and>
       outs S ns' z = (if z \<in> set ys then outs S ?ns z - {x} else outs S ?ns z)" using Cons.IH [OF y(2)] by blast
  have "erase_out S x (y # ys) ns = Some ns'" using n(1) y(1) by simp
  moreover have "\<forall>z \<in> ids ns. visited (nd ns' z) = visited (nd ns z) \<and> data (nd ns' z) = data (nd ns z) \<and> n_in (nd ns' z) = n_in (nd ns z) \<and>
       outs S ns' z = (if z \<in> set (y # ys) then outs S ns z - {x} else outs S ns z)" using n(4) i y(1) by auto
  ultimately show ?case using n(2,3) rk1 by auto
qed simp

lemma gc_inv_isolated:
  assumes inv: "gc_inv S r" and x: "x \<in> live_nodes r" and rg: "regraph S (nodes r) ns' (isolated (edges S (nodes r)) x)"
  defines "r' \<equiv> r\<lparr>nodes := ns', free_nodes := x # free_nodes r\<rparr>"
  shows "gc_inv S r' \<and> live_nodes r' = live_nodes r - {x} \<and> edges S (nodes r') = isolated (edges S (nodes r)) x \<and>
    (\<forall>w \<in> ids (nodes r). data (nd (nodes r') w) = data (nd (nodes r) w))"
proof -
  let ?r = "r\<lparr>nodes := ns'\<rparr>"
  have "isolated (edges S (nodes r)) x \<subseteq> edges S (nodes r)" by (auto simp: isolated_def)
  with gc_inv_regraph [OF inv, of ?r] rg have i: "gc_inv S ?r" "same_nodes r ?r" "edges S (nodes ?r) = isolated (edges S (nodes r)) x" by auto
  have xid: "x \<in> ids (nodes r)" "x \<notin> set (free_nodes r)" using x by (simp_all add: live_nodes_def)
  have "outs S ns' x = {}" "ins S ns' x = {}" using rg xid(1) by (auto simp: regraph_def isolated_def)
  then have "gc_inv S r'" using i(1) xid rg by (auto simp: gc_inv_def r'_def regraph_def)
  then show ?thesis using i(2,3) by (auto simp: r'_def live_nodes_def same_nodes_def)
qed

lemma RemoveNode_spec:
  assumes inv: "gc_inv S r" and x: "x \<in> live_nodes r"
  shows "\<exists>r'. RemoveNode S r x = Some r' \<and> gc_inv S r' \<and> live_nodes r' = live_nodes r - {x} \<and> edges S (nodes r') = isolated (edges S (nodes r)) x \<and>
    (\<forall>w \<in> ids (nodes r). data (nd (nodes r') w) = data (nd (nodes r) w))"
proof -
  let ?ns = "nodes r" and ?E = "edges S (nodes r)"
  have wf: "wf_nodes S ?ns" using inv by (simp add: gc_inv_def)
  have xid: "x \<in> ids ?ns" using x by (simp add: live_nodes_def)
  have irr: "(x, x) \<notin> ?E" using inv by (auto simp: gc_inv_def topo_def)
  obtain ns1 where n1: "erase_in S x (ns_elems S (n_out (nd ?ns x))) ?ns = Some ns1" "length ns1 = length ?ns" "rk ns1 = rk ?ns"
    "\<forall>z \<in> ids ?ns. visited (nd ns1 z) = visited (nd ?ns z) \<and> data (nd ns1 z) = data (nd ?ns z) \<and> n_out (nd ns1 z) = n_out (nd ?ns z) \<and>
       ins S ns1 z = (if z \<in> outs S ?ns x then ins S ?ns z - {x} else ins S ?ns z)"
    using erase_in_spec [of "ns_elems S (n_out (nd ?ns x))" ?ns x] wf_nodesD(4) [OF wf xid] by (auto simp: outs_def)
  have x1: "x \<in> ids ns1" using xid n1(2) by simp
  have "ins S ns1 x \<subseteq> ids ns1" using n1(2,4) wf_nodesD(5) [OF wf xid] xid by (auto split: if_splits)
  then obtain ns2 where n2: "erase_out S x (ns_elems S (n_in (nd ns1 x))) ns1 = Some ns2" "length ns2 = length ns1" "rk ns2 = rk ns1"
    "\<forall>z \<in> ids ns1. visited (nd ns2 z) = visited (nd ns1 z) \<and> data (nd ns2 z) = data (nd ns1 z) \<and> n_in (nd ns2 z) = n_in (nd ns1 z) \<and>
       outs S ns2 z = (if z \<in> ins S ns1 x then outs S ns1 z - {x} else outs S ns1 z)"
    using erase_out_spec [of "ns_elems S (n_in (nd ns1 x))" ns1 x] by (auto simp: ins_def)
  let ?ns3 = "set_node ns2 x ((nd ns2 x)\<lparr>n_in := ns_empty S, n_out := ns_empty S\<rparr>)"
  have x2: "x \<in> ids ns2" using x1 n2(2) by simp
  have rk3: "rk ?ns3 = rk ?ns" unfolding n1(3) [symmetric] n2(3) [symmetric] by (rule rk_eqI) (use x2 in auto)
  have O: "outs S ?ns z = {w. (z, w) \<in> ?E}" "ins S ?ns z = {w. (w, z) \<in> ?E}" if "z \<in> ids ?ns" for z
    using wf_nodesD(6) [OF wf that] edges_iff [OF that] by auto
  have o3: "outs S ?ns3 z = {w. (z, w) \<in> isolated ?E x}" "ins S ?ns3 z = {w. (w, z) \<in> isolated ?E x}"
    "visited (nd ?ns3 z) = visited (nd ?ns z)" "data (nd ?ns3 z) = data (nd ?ns z)" if z: "z \<in> ids ?ns" for z
  proof -
    have z2: "z \<in> ids ns2" "z \<in> ids ns1" using z n1(2) n2(2) by simp_all
    have i1: "ins S ns1 z = {w. (w, z) \<in> ?E \<and> w \<noteq> x}" using n1(4) z O [OF z] O [OF xid] by auto
    have ix: "ins S ns1 x = {w. (w, x) \<in> ?E}" using n1(4) xid O [OF xid] irr by auto
    have o1: "outs S ns1 z = {w. (z, w) \<in> ?E}" using n1(4) z O [OF z] by (simp add: outs_def)
    have o2: "outs S ns2 z = {w. (z, w) \<in> ?E \<and> w \<noteq> x}" using n2(4) z2 o1 ix by auto
    have i2: "ins S ns2 z = {w. (w, z) \<in> ?E \<and> w \<noteq> x}" using n2(4) z2 i1 by (simp add: ins_def)
    show "outs S ?ns3 z = {w. (z, w) \<in> isolated ?E x}" using o2 x2 z2(1) by (auto simp: outs_def isolated_def)
    show "ins S ?ns3 z = {w. (w, z) \<in> isolated ?E x}" using i2 x2 z2(1) by (auto simp: ins_def isolated_def)
    show "visited (nd ?ns3 z) = visited (nd ?ns z)" "data (nd ?ns3 z) = data (nd ?ns z)" using n1(4) n2(4) z z2 x2 by auto
  qed
  have "regraph S ?ns ?ns3 (isolated ?E x)" unfolding regraph_def using rk3 n1(2) n2(2) o3 by simp
  note i = gc_inv_isolated [OF inv x this]
  have "RemoveNode S r x = Some (r\<lparr>nodes := ?ns3, free_nodes := x # free_nodes r\<rparr>)"
    using n1(1) n2(1) xid x1 x2 by (simp add: RemoveNode_def)
  then show ?thesis using i by blast
qed

end

end
