(* ===== verification/GraphCyclesPath.thy ===== *)
theory GraphCyclesPath
  imports GraphCyclesOps
begin

text \<open>
  \<open>FindPath\<close> ends with a path when there is one, and \<open>ContractEdge\<close> merges two nodes
  exactly when the result has no cycle.
\<close>

section \<open>FindPath\<close>

lemma find_edges_spec:
  "\<exists>new. find_edges ws seen st = (seen \<union> set ws, new @ st) \<and> set new = set ws - seen \<and> distinct new"
proof (induction ws arbitrary: seen st)
  case (Cons w ws)
  show ?case
  proof (cases "w \<in> seen")
    case True
    with Cons [of seen st] show ?thesis by auto
  next
    case False
    obtain new where "find_edges ws (insert w seen) (w # st) = (insert w seen \<union> set ws, new @ w # st)"
      "set new = set ws - insert w seen" "distinct new" using Cons [of "insert w seen" "w # st"] by auto
    then show ?thesis using False by (intro exI [of _ "new @ [w]"]) auto
  qed
qed simp

text \<open>
  The markers on the stack separate the pending successors of the nodes of the current path, here
  with its last node first.
\<close>

fun stack_ok :: "(int \<times> int) set \<Rightarrow> int \<Rightarrow> int list \<Rightarrow> int list \<Rightarrow> bool" where
  "stack_ok E x [] st \<longleftrightarrow> set st \<subseteq> {x}"
| "stack_ok E x (p # ps) st \<longleftrightarrow> (case ps of [] \<Rightarrow> p = x | q # _ \<Rightarrow> (q, p) \<in> E) \<and>
     (\<exists>cs st'. st = cs @ (-1) # st' \<and> (\<forall>c \<in> set cs. (p, c) \<in> E) \<and> stack_ok E x ps st')"

lemma stack_ok_push:
  "stack_ok E x ps st' \<Longrightarrow> \<forall>c \<in> set cs. (p, c) \<in> E \<Longrightarrow> (case ps of [] \<Rightarrow> p = x | q # _ \<Rightarrow> (q, p) \<in> E) \<Longrightarrow>
     stack_ok E x (p # ps) (cs @ (-1) # st')"
  by auto

definition walk :: "(int \<times> int) set \<Rightarrow> int \<Rightarrow> int \<Rightarrow> int list \<Rightarrow> bool" where
  "walk E x y qs \<longleftrightarrow> qs \<noteq> [] \<and> hd qs = x \<and> last qs = y \<and> successively (\<lambda>u v. (u, v) \<in> E) qs"

lemma stack_ok_walk: "stack_ok E x ps st \<Longrightarrow> ps \<noteq> [] \<Longrightarrow> walk E x (hd ps) (rev ps)"
proof (induction ps arbitrary: st)
  case (Cons p ps)
  show ?case
  proof (cases ps)
    case Nil
    then show ?thesis using Cons.prems by (simp add: walk_def)
  next
    case (Cons q qs)
    with Cons.prems(1) obtain st' where "stack_ok E x ps st'" "(q, p) \<in> E" by auto
    moreover from this have "walk E x q (rev ps)" using Cons.IH [of st'] Cons by simp
    moreover have "rev (p # ps) = rev ps @ [p]" "rev ps \<noteq> []" using Cons by simp_all
    ultimately show ?thesis unfolding walk_def by (simp only: list.sel(1) last_snoc hd_append2 successively_append_iff) simp
  qed
qed simp

lemma walk_reaches: "walk E x y qs \<Longrightarrow> (x, y) \<in> E\<^sup>*"
proof (induction qs arbitrary: x)
  case (Cons q qs)
  then show ?case by (cases qs) (auto simp: walk_def intro: converse_rtrancl_into_rtrancl)
qed (simp add: walk_def)

definition found :: "(int \<times> int) set \<Rightarrow> int \<Rightarrow> int \<Rightarrow> int \<Rightarrow> int \<Rightarrow> int list \<Rightarrow> bool" where
  "found E x y max_path_len n path \<longleftrightarrow>
     (if (x, y) \<in> E\<^sup>* then \<exists>qs. walk E x y qs \<and> n = int (length qs) \<and> (\<forall>i < min (length qs) (nat max_path_len). path ! i = qs ! i)
      else n = 0)"

definition loop_size :: "('s, 'd) node list \<Rightarrow> int list \<Rightarrow> int set \<Rightarrow> nat" where
  "loop_size ns st seen = sum_list (map (\<lambda>s. if s < 0 then 1 else 2) st) + 2 * card (ids ns - seen)"

lemma find_loop_spec:
  assumes wf: "wf_nodes S ns" and x: "x \<in> ids ns"
  defines "E \<equiv> edges S ns"
  shows "stack_ok E x ps st \<Longrightarrow> \<forall>s \<in> set st. s = -1 \<or> s \<in> ids ns \<Longrightarrow> insert x seen = X \<union> {s \<in> set st. 0 \<le> s} \<Longrightarrow> y \<notin> X \<Longrightarrow>
    \<forall>u \<in> X. u \<in> ids ns \<and> (\<forall>w. (u, w) \<in> E \<longrightarrow> w \<in> seen) \<Longrightarrow> nat mx \<le> length path \<Longrightarrow>
    \<forall>i < min (length ps) (nat mx). path ! i = rev ps ! i \<Longrightarrow>
    \<exists>n path' st'. find_loop S ns y mx st seen (int (length ps)) path = Some (n, path', st') \<and> found E x y mx n path'"
proof (induction "loop_size ns st seen" arbitrary: st seen ps X path rule: less_induct)
  case less
  note IH = less(1) and ok = less(2) and ids = less(3) and seen = less(4) and y = less(5) and cl = less(6) and len = less(7) and path = less(8)
  show ?case
  proof (cases st)
    case Nil
    then have X: "insert x seen = X" using seen by simp
    have "v \<in> X" if "(x, v) \<in> E\<^sup>*" for v using that
    proof (induction rule: rtrancl_induct)
      case (step u w)
      then show ?case using cl X by blast
    qed (use X in blast)
    then have "(x, y) \<notin> E\<^sup>*" using y by blast
    then show ?thesis using Nil by (subst find_loop.simps) (simp add: found_def)
  next
    case (Cons n st0)
    show ?thesis
    proof (cases "n < 0")
      case True
      then have n: "n = -1" using ids Cons by auto
      then have "n \<noteq> x" using x by auto
      then obtain p ps' where ps: "ps = p # ps'" using ok Cons by (cases ps) auto
      then obtain cs st' where c: "st = cs @ (-1) # st'" "\<forall>c \<in> set cs. (p, c) \<in> E" "stack_ok E x ps' st'" using ok by auto
      have "cs = []"
      proof (cases cs)
        case (Cons c cs')
        then have "(p, -1) \<in> E" using c \<open>st = n # st0\<close> n by auto
        then show ?thesis using wf_nodesD(1) [OF wf] by (auto simp: E_def)
      qed
      then have st0: "stack_ok E x ps' st0" using c Cons n by simp
      have smaller: "loop_size ns st0 seen < loop_size ns st seen" using Cons True by (simp add: loop_size_def)
      have "rev ps ! i = rev ps' ! i" if "i < length ps'" for i using that by (simp add: ps nth_append)
      then have "\<forall>i < min (length ps') (nat mx). path ! i = rev ps' ! i" using path ps by auto
      moreover have "\<forall>s \<in> set st0. s = -1 \<or> s \<in> ids ns" using ids Cons by simp
      moreover have "{s \<in> set st. 0 \<le> s} = {s \<in> set st0. 0 \<le> s}" using Cons True by auto
      then have "insert x seen = X \<union> {s \<in> set st0. 0 \<le> s}" using seen by simp
      ultimately obtain k path' st' where
        "find_loop S ns y mx st0 seen (int (length ps')) path = Some (k, path', st')" "found E x y mx k path'"
        using IH [OF smaller st0 _ _ y cl len] by blast
      then show ?thesis using Cons True ps by (subst find_loop.simps) simp
    next
      case False
      then have n: "n \<in> ids ns" using ids Cons by auto
      have ok': "stack_ok E x (n # ps) ((-1) # st0)"
      proof (cases ps)
        case Nil
        then show ?thesis using ok Cons stack_ok_push [of E x "[]" st0 "[]" n] by simp
      next
        case (Cons p ps')
        then obtain cs st' where c: "st = cs @ (-1) # st'" "\<forall>c \<in> set cs. (p, c) \<in> E" "stack_ok E x ps' st'"
          "case ps' of [] \<Rightarrow> p = x | q # _ \<Rightarrow> (q, p) \<in> E" using ok by auto
        then obtain cs' where cs: "cs = n # cs'" using \<open>st = n # st0\<close> False by (cases cs) auto
        then have "st0 = cs' @ (-1) # st'" using c(1) \<open>st = n # st0\<close> by simp
        then have "stack_ok E x ps st0" using stack_ok_push [OF c(3) _ c(4), of cs'] c(2) cs Cons by simp
        then show ?thesis using stack_ok_push [of E x ps st0 "[]" n] c(2) cs Cons by simp
      qed
      let ?path = "if int (length ps) < mx then path[nat (int (length ps)) := n] else path"
      have path': "\<forall>i < min (length (n # ps)) (nat mx). ?path ! i = rev (n # ps) ! i"
      proof (intro allI impI)
        fix i assume i: "i < min (length (n # ps)) (nat mx)"
        show "?path ! i = rev (n # ps) ! i"
        proof (cases "i = length ps")
          case True
          moreover from this have "int (length ps) < mx" using i by simp
          ultimately show ?thesis using i len by (simp add: nth_append)
        next
          case False
          then have "i < length ps" using i by simp
          then show ?thesis using i path by (simp add: nth_append)
        qed
      qed
      show ?thesis
      proof (cases "n = y")
        case True
        have w: "walk E x y (rev (n # ps))" using stack_ok_walk [OF ok'] True by simp
        then have "found E x y mx (int (length (rev (n # ps)))) ?path"
          unfolding found_def using walk_reaches [OF w] path' by (intro if_P [THEN iffD2] exI [of _ "rev (n # ps)"]) auto
        then show ?thesis using Cons False True len by (subst find_loop.simps) (auto simp: Let_def add.commute)
      next
        case ny: False
        let ?ws = "ns_elems S (n_out (nd ns n))"
        have ws: "set ?ws = {w. (n, w) \<in> E}" using edges_iff [OF n] by (auto simp: E_def outs_def)
        obtain new where new: "find_edges ?ws seen ((-1) # st0) = (seen \<union> set ?ws, new @ (-1) # st0)" "set new = set ?ws - seen" "distinct new"
          using find_edges_spec by blast
        have sub: "set ?ws \<subseteq> ids ns" using ws wf_nodesD(1) [OF wf] by (auto simp: E_def)
        let ?st = "new @ (-1) # st0" and ?seen = "seen \<union> set ?ws"
        have "ids ns - ?seen = (ids ns - seen) - set new" using new(2) by blast
        moreover have "card ((ids ns - seen) - set new) = card (ids ns - seen) - card (set new)"
          by (rule card_Diff_subset) (use new(2) sub in auto)
        moreover have "card (set new) \<le> card (ids ns - seen)" by (rule card_mono) (use new(2) sub in auto)
        moreover have "card (set new) = length new" using new(3) by (rule distinct_card)
        moreover have "sum_list (map (\<lambda>s. if s < 0 then 1 else 2) new) = 2 * length new"
        proof -
          have "\<forall>s \<in> set new. 0 \<le> s" using new(2) sub by auto
          then show ?thesis by (induction new) auto
        qed
        ultimately have smaller: "loop_size ns ?st ?seen < loop_size ns st seen" using Cons False by (simp add: loop_size_def)
        have "stack_ok E x ps st0" "case ps of [] \<Rightarrow> n = x | q # _ \<Rightarrow> (q, n) \<in> E" using ok' wf_nodesD(1) [OF wf, folded E_def] by (auto simp: Cons_eq_append_conv)
        then have okn: "stack_ok E x (n # ps) ?st" using stack_ok_push [of E x ps st0 new n] new(2) ws by auto
        have idsn: "\<forall>s \<in> set ?st. s = -1 \<or> s \<in> ids ns" using ids Cons new(2) sub by auto
        have seenn: "insert x ?seen = insert n X \<union> {s \<in> set ?st. 0 \<le> s}"
        proof -
          have "\<forall>s \<in> set new. 0 \<le> s" using new(2) sub by auto
          then have "{s \<in> set ?st. 0 \<le> s} = (set ?ws - seen) \<union> {s \<in> set st0. 0 \<le> s}" using new(2) by auto
          moreover have "{s \<in> set st. 0 \<le> s} = insert n {s \<in> set st0. 0 \<le> s}" using Cons False by auto
          then have "insert x seen = insert n X \<union> {s \<in> set st0. 0 \<le> s}" using seen by simp
          ultimately show ?thesis by blast
        qed
        have cln: "\<forall>u \<in> insert n X. u \<in> ids ns \<and> (\<forall>w. (u, w) \<in> E \<longrightarrow> w \<in> ?seen)" using cl n ws by blast
        have yn: "y \<notin> insert n X" using y ny by blast
        have lenn: "nat mx \<le> length ?path" using len by simp
        from IH [OF smaller okn idsn seenn yn cln lenn path'] obtain k path1 st1 where
          "find_loop S ns y mx ?st ?seen (int (length (n # ps))) ?path = Some (k, path1, st1)" "found E x y mx k path1" by blast
        then show ?thesis using Cons False ny n new(1) len
          by (subst find_loop.simps) (auto simp: Let_def add.commute)
      qed
    qed
  qed
qed

lemma FindPath_spec:
  assumes wf: "wf_nodes S (nodes r)" and x: "x \<in> ids (nodes r)" and len: "nat mx \<le> length path"
  shows "\<exists>n path' st'. FindPath S r x y mx path = Some (n, path', r\<lparr>stack := st'\<rparr>) \<and> found (edges S (nodes r)) x y mx n path'"
proof -
  have "insert x {} = {} \<union> {s \<in> set [x]. 0 \<le> s}" using x by auto
  from find_loop_spec [OF wf x _ _ this _ _ len, of "[]" y] x show ?thesis by (auto simp: FindPath_def)
qed

lemma IsReachable_spec:
  assumes "wf_nodes S (nodes r)" "x \<in> ids (nodes r)"
  shows "\<exists>st'. IsReachable S r x y = Some ((x, y) \<in> (edges S (nodes r))\<^sup>*, r\<lparr>stack := st'\<rparr>)"
proof -
  obtain n path' st' where f: "FindPath S r x y 0 [] = Some (n, path', r\<lparr>stack := st'\<rparr>)" "found (edges S (nodes r)) x y 0 n path'"
    using FindPath_spec [OF assms, of 0 "[]" y] by auto
  have "0 < n \<longleftrightarrow> (x, y) \<in> (edges S (nodes r))\<^sup>*" using f(2) by (auto simp: found_def walk_def split: if_splits)
  then show ?thesis using f(1) by (intro exI [of _ st']) (simp add: IsReachable_def)
qed

section \<open>Contracting an edge\<close>

text \<open>The edges after node \<open>b\<close> has been merged into node \<open>a\<close>.\<close>

definition merge_into :: "(int \<times> int) set \<Rightarrow> int \<Rightarrow> int \<Rightarrow> (int \<times> int) set" where
  "merge_into E a b = (\<lambda>(u, v). (if u = b then a else u, if v = b then a else v)) ` (E - {(a, b)})"

lemma merge_into_eq:
  assumes "(a, a) \<notin> E" "(b, b) \<notin> E" "(b, a) \<notin> E" "a \<noteq> b"
  shows "merge_into E a b = isolated (E - {(a, b)}) b \<union> {a} \<times> {v. (b, v) \<in> E} \<union> {u. (u, b) \<in> E \<and> u \<noteq> a} \<times> {a}"
proof -
  have "merge_into E a b \<subseteq> isolated (E - {(a, b)}) b \<union> {a} \<times> {v. (b, v) \<in> E} \<union> {u. (u, b) \<in> E \<and> u \<noteq> a} \<times> {a}"
    using assms by (auto simp: merge_into_def isolated_def split: if_splits)
  moreover have "(u, v) \<in> merge_into E a b" if "(u, v) \<in> isolated (E - {(a, b)}) b" for u v
    using that by (force simp: merge_into_def isolated_def)
  moreover have "(a, v) \<in> merge_into E a b" if "(b, v) \<in> E" for v
    using that assms unfolding merge_into_def by (intro image_eqI [of _ _ "(b, v)"]) auto
  moreover have "(u, a) \<in> merge_into E a b" if "(u, b) \<in> E" "u \<noteq> a" for u
    using that assms unfolding merge_into_def by (intro image_eqI [of _ _ "(u, b)"]) auto
  ultimately show ?thesis by auto
qed

lemma merge_into_acyclic:
  assumes ac: "acyclic E" and ab: "(a, b) \<in> E" and no: "(a, b) \<notin> (E - {(a, b)})\<^sup>*"
  shows "acyclic (merge_into E a b)"
proof -
  let ?D = "E - {(a, b)}" and ?M = "merge_into E a b" and ?h = "\<lambda>u. if u = b then a else u"
  have D: "(u, v) \<in> E\<^sup>+" if "(u, v) \<in> ?D\<^sup>+" for u v by (rule trancl_mono [OF that]) auto
  have M: "\<exists>u' v'. (u', v') \<in> ?D \<and> u = ?h u' \<and> v = ?h v'" if "(u, v) \<in> ?M" for u v
  proof -
    from that obtain p where "p \<in> ?D" "(u, v) = (\<lambda>(u, v). (?h u, ?h v)) p" unfolding merge_into_def by blast
    then show ?thesis by (intro exI [of _ "fst p"] exI [of _ "snd p"]) (simp add: split_beta)
  qed
  have from_a: "\<exists>s q'. s \<in> {a, b} \<and> (s, q') \<in> ?D\<^sup>+ \<and> q = ?h q'" if "(a, q) \<in> ?M\<^sup>+" for q
    using that
  proof (induction rule: trancl_induct)
    case (base q)
    then show ?case using M [OF base] by (auto split: if_splits)
  next
    case (step q z)
    obtain u v where uv: "(u, v) \<in> ?D" "q = ?h u" "z = ?h v" using M [OF step(2)] by blast
    show ?case
    proof (cases "u \<in> {a, b}")
      case True
      then show ?thesis using uv by blast
    next
      case False
      then have "u = q" using uv(2) by auto
      moreover obtain s q' where "s \<in> {a, b}" "(s, q') \<in> ?D\<^sup>+" "q = ?h q'" using step.IH by blast
      ultimately have "(s, v) \<in> ?D\<^sup>+" using False uv(1) by (auto split: if_splits intro: trancl_into_trancl)
      then show ?thesis using \<open>s \<in> {a, b}\<close> uv(3) by blast
    qed
  qed
  have aa: "(a, a) \<notin> ?M\<^sup>+"
  proof
    assume "(a, a) \<in> ?M\<^sup>+"
    then obtain s q where sq: "s \<in> {a, b}" "q \<in> {a, b}" "(s, q) \<in> ?D\<^sup>+" using from_a by (metis insertCI)
    have "(a, b) \<notin> ?D\<^sup>+" using no by (auto dest: trancl_into_rtrancl)
    moreover have "(b, a) \<notin> ?D\<^sup>+" using D [of b a] ab ac unfolding acyclic_def by (meson trancl_into_trancl)
    moreover have "(u, u) \<notin> ?D\<^sup>+" for u using D [of u u] ac unfolding acyclic_def by blast
    ultimately show False using sq by blast
  qed
  have avoid: "(u, v) \<in> ?D\<^sup>+ \<or> (u, a) \<in> ?M\<^sup>* \<and> (a, v) \<in> ?M\<^sup>*" if "(u, v) \<in> ?M\<^sup>+" for u v
    using that
  proof (induction rule: trancl_induct)
    case (base v)
    then show ?case using M [OF base] by (auto split: if_splits)
  next
    case (step v w)
    from M [OF step(2)] consider "(v, w) \<in> ?D" | "v = a" | "w = a" by (auto split: if_splits)
    then show ?case
    proof cases
      case 1
      then show ?thesis using step by (meson rtrancl_into_rtrancl trancl_into_trancl)
    next
      case 2
      then show ?thesis using step by (meson r_into_rtrancl trancl_into_rtrancl)
    next
      case 3
      then show ?thesis using step by (meson rtrancl.rtrancl_refl rtrancl_into_rtrancl trancl_into_rtrancl)
    qed
  qed
  show ?thesis unfolding acyclic_def
  proof (intro allI notI)
    fix z assume z: "(z, z) \<in> ?M\<^sup>+"
    then have "(z, z) \<in> ?D\<^sup>+ \<or> (z, a) \<in> ?M\<^sup>* \<and> (a, z) \<in> ?M\<^sup>*" by (rule avoid)
    then show False
    proof
      assume "(z, z) \<in> ?D\<^sup>+"
      then show False using D ac unfolding acyclic_def by blast
    next
      assume "(z, a) \<in> ?M\<^sup>* \<and> (a, z) \<in> ?M\<^sup>*"
      then have "(a, a) \<in> ?M\<^sup>+" using z by (meson rtrancl_trancl_trancl trancl_rtrancl_trancl)
      then show False using aa by blast
    qed
  qed
qed

context unordered_set
begin

text \<open>Edges of an acyclic graph are all inserted.\<close>

lemma InsertEdge_acyclic:
  assumes inv: "gc_inv S r" and xy: "x \<in> live_nodes r" "y \<in> live_nodes r" and G: "acyclic G" "edges S (nodes r) \<subseteq> G" "(x, y) \<in> G"
  shows "\<exists>r'. InsertEdge S r x y = Some (True, r') \<and> gc_inv S r' \<and> same_nodes r r' \<and> edges S (nodes r') = insert (x, y) (edges S (nodes r))"
proof -
  have "(y, x) \<notin> (edges S (nodes r))\<^sup>*"
  proof
    assume "(y, x) \<in> (edges S (nodes r))\<^sup>*"
    then have "(y, x) \<in> G\<^sup>*" using G(2) by (meson rtrancl_mono subsetD)
    then have "(x, x) \<in> G\<^sup>+" using G(3) by (rule rtrancl_into_trancl2 [rotated])
    then show False using G(1) by (simp add: acyclic_def)
  qed
  moreover from this have "x \<noteq> y" by auto
  ultimately show ?thesis using InsertEdge_spec [OF inv xy] by auto
qed

lemma insert_from_spec:
  "gc_inv S r \<Longrightarrow> a \<in> live_nodes r \<Longrightarrow> set ys \<subseteq> live_nodes r \<Longrightarrow> acyclic G \<Longrightarrow> edges S (nodes r) \<union> {a} \<times> set ys \<subseteq> G \<Longrightarrow>
   \<exists>r'. insert_from S r a ys = Some r' \<and> gc_inv S r' \<and> same_nodes r r' \<and> edges S (nodes r') = edges S (nodes r) \<union> {a} \<times> set ys"
proof (induction ys arbitrary: r)
  case (Cons y ys)
  then obtain r1 where r1: "InsertEdge S r a y = Some (True, r1)" "gc_inv S r1" "same_nodes r r1" "edges S (nodes r1) = insert (a, y) (edges S (nodes r))"
    using InsertEdge_acyclic [of r a y G] by auto
  have l: "live_nodes r1 = live_nodes r" by (rule same_nodes_live [OF r1(3)])
  from Cons.IH [OF r1(2), unfolded l] Cons.prems r1(4) obtain r2 where
    "insert_from S r1 a ys = Some r2" "gc_inv S r2" "same_nodes r1 r2" "edges S (nodes r2) = edges S (nodes r1) \<union> {a} \<times> set ys" by auto
  then show ?case using r1 same_nodes_trans [OF r1(3)] by auto
qed simp

lemma insert_to_spec:
  "gc_inv S r \<Longrightarrow> a \<in> live_nodes r \<Longrightarrow> set ys \<subseteq> live_nodes r \<Longrightarrow> acyclic G \<Longrightarrow> edges S (nodes r) \<union> set ys \<times> {a} \<subseteq> G \<Longrightarrow>
   \<exists>r'. insert_to S r ys a = Some r' \<and> gc_inv S r' \<and> same_nodes r r' \<and> edges S (nodes r') = edges S (nodes r) \<union> set ys \<times> {a}"
proof (induction ys arbitrary: r)
  case (Cons y ys)
  then obtain r1 where r1: "InsertEdge S r y a = Some (True, r1)" "gc_inv S r1" "same_nodes r r1" "edges S (nodes r1) = insert (y, a) (edges S (nodes r))"
    using InsertEdge_acyclic [of r y a G] by auto
  have l: "live_nodes r1 = live_nodes r" by (rule same_nodes_live [OF r1(3)])
  from Cons.IH [OF r1(2), unfolded l] Cons.prems r1(4) obtain r2 where
    "insert_to S r1 ys a = Some r2" "gc_inv S r2" "same_nodes r1 r2" "edges S (nodes r2) = edges S (nodes r1) \<union> set ys \<times> {a}" by auto
  then show ?case using r1 same_nodes_trans [OF r1(3)] by auto
qed simp

text \<open>Moving the edge sets out of \<open>b\<close> and erasing it from its neighbours isolates it.\<close>

lemma move_out_spec:
  assumes inv: "gc_inv S r" and b: "b \<in> ids (nodes r)"
  defines "nb \<equiv> nd (nodes r) b"
  shows "\<exists>ns1 ns2. erase_in S b (ns_elems S (n_out nb)) (set_node (nodes r) b (nb\<lparr>n_out := ns_empty S, n_in := ns_empty S\<rparr>)) = Some ns1 \<and>
    erase_out S b (ns_elems S (n_in nb)) ns1 = Some ns2 \<and> regraph S (nodes r) ns2 (isolated (edges S (nodes r)) b)"
proof -
  let ?ns = "nodes r" and ?E = "edges S (nodes r)"
  let ?nz = "set_node ?ns b (nb\<lparr>n_out := ns_empty S, n_in := ns_empty S\<rparr>)"
  have wf: "wf_nodes S ?ns" using inv by (simp add: gc_inv_def)
  have O: "outs S ?ns z = {w. (z, w) \<in> ?E}" "ins S ?ns z = {w. (w, z) \<in> ?E}" if "z \<in> ids ?ns" for z
    using wf_nodesD(6) [OF wf that] edges_iff [OF that] by auto
  have rk0: "rk ?nz = rk ?ns" by (rule rk_eqI) (use b in \<open>auto simp: nb_def\<close>)
  have o0: "outs S ?nz z = (if z = b then {} else {w. (z, w) \<in> ?E})" "ins S ?nz z = (if z = b then {} else {w. (w, z) \<in> ?E})" if "z \<in> ids ?ns" for z
    using b that O [OF that] by (auto simp: outs_def ins_def)
  have nb: "set (ns_elems S (n_out nb)) = {w. (b, w) \<in> ?E}" "set (ns_elems S (n_in nb)) = {w. (w, b) \<in> ?E}"
    using O [OF b] by (auto simp: outs_def ins_def nb_def)
  have sub: "?E \<subseteq> ids ?ns \<times> ids ?ns" by (rule wf_nodesD(1) [OF wf])
  have "set (ns_elems S (n_out nb)) \<subseteq> ids ?nz" using nb(1) sub by auto
  from erase_in_spec [OF this, of b] obtain ns1 where
    n1: "erase_in S b (ns_elems S (n_out nb)) ?nz = Some ns1" "length ns1 = length ?ns" "rk ns1 = rk ?ns"
    "\<forall>z \<in> ids ?ns. visited (nd ns1 z) = visited (nd ?nz z) \<and> data (nd ns1 z) = data (nd ?nz z) \<and> n_out (nd ns1 z) = n_out (nd ?nz z) \<and>
       ins S ns1 z = (if (b, z) \<in> ?E then ins S ?nz z - {b} else ins S ?nz z)" using nb(1) rk0 by auto
  have "set (ns_elems S (n_in nb)) \<subseteq> ids ns1" using nb(2) sub n1(2) by auto
  from erase_out_spec [OF this, of b] obtain ns2 where
    n2: "erase_out S b (ns_elems S (n_in nb)) ns1 = Some ns2" "length ns2 = length ?ns" "rk ns2 = rk ?ns"
    "\<forall>z \<in> ids ?ns. visited (nd ns2 z) = visited (nd ns1 z) \<and> data (nd ns2 z) = data (nd ns1 z) \<and> n_in (nd ns2 z) = n_in (nd ns1 z) \<and>
       outs S ns2 z = (if (z, b) \<in> ?E then outs S ns1 z - {b} else outs S ns1 z)" using nb(2) n1(2,3) by auto
  have "outs S ns2 z = {w. (z, w) \<in> isolated ?E b} \<and> ins S ns2 z = {w. (w, z) \<in> isolated ?E b} \<and>
      visited (nd ns2 z) = visited (nd ?ns z) \<and> data (nd ns2 z) = data (nd ?ns z)" if z: "z \<in> ids ?ns" for z
  proof -
    have "outs S ns1 z = outs S ?nz z" "ins S ns2 z = ins S ns1 z" using n1(4) n2(4) z by (simp_all add: outs_def ins_def)
    then have "outs S ns2 z = {w. (z, w) \<in> isolated ?E b}" "ins S ns2 z = {w. (w, z) \<in> isolated ?E b}"
      using n1(4) n2(4) z o0 [OF z] by (auto simp: isolated_def split: if_splits)
    moreover have "visited (nd ns2 z) = visited (nd ?ns z)" "data (nd ns2 z) = data (nd ?ns z)"
      using n1(4) n2(4) z b by (auto simp: nb_def)
    ultimately show ?thesis by blast
  qed
  then have "regraph S ?ns ns2 (isolated ?E b)" unfolding regraph_def using n2(2,3) by blast
  then show ?thesis using n1(1) n2(1) by blast
qed

lemma ContractEdge_spec:
  assumes inv: "gc_inv S r" and ab: "a \<in> live_nodes r" "b \<in> live_nodes r" "(a, b) \<in> edges S (nodes r)"
  defines "E \<equiv> edges S (nodes r)"
  shows "\<exists>r'. ContractEdge S r a b = Some ((a, b) \<notin> (E - {(a, b)})\<^sup>*, r') \<and> gc_inv S r' \<and>
    (if (a, b) \<in> (E - {(a, b)})\<^sup>* then same_nodes r r' \<and> edges S (nodes r') = E
     else live_nodes r' = live_nodes r - {b} \<and> edges S (nodes r') = merge_into E a b \<and> (\<forall>w \<in> ids (nodes r). data (nd (nodes r') w) = data (nd (nodes r) w)))"
proof -
  let ?ns = "nodes r"
  have ids: "a \<in> ids ?ns" "b \<in> ids ?ns" using ab by (simp_all add: live_nodes_def)
  have topo: "topo E (rk ?ns)" using inv by (simp add: gc_inv_def E_def)
  have ac: "acyclic E" by (rule topo_acyclic [OF topo])
  have abE: "(a, b) \<in> E" using ab(3) by (simp add: E_def)
  have irr: "(u, u) \<notin> E" for u using topo by (auto simp: topo_def)
  have ba: "(b, a) \<notin> E"
  proof
    assume "(b, a) \<in> E"
    then have "(a, a) \<in> E\<^sup>+" using abE by (meson r_into_trancl trancl_trans)
    then show False using ac by (simp add: acyclic_def)
  qed
  have has: "HasEdge S r a b = Some True" using ids ab(3) by (simp add: HasEdge_def edges_def outs_def)
  obtain r1 where r1: "RemoveEdge S r a b = Some r1" "gc_inv S r1" "same_nodes r r1" "edges S (nodes r1) = E - {(a, b)}"
    using RemoveEdge_spec [OF inv ids] by (auto simp: E_def)
  have ids1: "a \<in> ids (nodes r1)" "b \<in> ids (nodes r1)" using r1(3) ids by (simp_all add: same_nodes_def)
  obtain r2 where r2: "IsReachableNonConst S r1 a b = Some ((a, b) \<in> (E - {(a, b)})\<^sup>*, r2)" "gc_inv S r2" "same_nodes r1 r2" "edges S (nodes r2) = E - {(a, b)}"
    using IsReachableNonConst_spec [OF r1(2) ids1] r1(4) by auto
  have same2: "same_nodes r r2" by (rule same_nodes_trans [OF r1(3) r2(3)])
  have l2: "live_nodes r2 = live_nodes r" by (rule same_nodes_live [OF same2])
  show ?thesis
  proof (cases "(a, b) \<in> (E - {(a, b)})\<^sup>*")
    case True
    obtain r3 where r3: "InsertEdge S r2 a b = Some (True, r3)" "gc_inv S r3" "same_nodes r2 r3" "edges S (nodes r3) = insert (a, b) (E - {(a, b)})"
      using InsertEdge_acyclic [OF r2(2) _ _ ac, of a b] ab l2 r2(4) abE by auto
    have "edges S (nodes r3) = E" using r3(4) abE by (simp add: insert_absorb)
    then show ?thesis using True has r1(1) r2(1) r3(1,2) same_nodes_trans [OF same2 r3(3)] by (auto simp: ContractEdge_def)
  next
    case False
    let ?D = "E - {(a, b)}"
    have b2: "b \<in> ids (nodes r2)" using ids same2 by (simp add: same_nodes_def)
    let ?nb = "nd (nodes r2) b"
    obtain ns1 ns2 where m: "erase_in S b (ns_elems S (n_out ?nb)) (set_node (nodes r2) b (?nb\<lparr>n_out := ns_empty S, n_in := ns_empty S\<rparr>)) = Some ns1"
      "erase_out S b (ns_elems S (n_in ?nb)) ns1 = Some ns2" "regraph S (nodes r2) ns2 (isolated ?D b)"
      using move_out_spec [OF r2(2) b2] r2(4) by auto
    define r3 where "r3 = r2\<lparr>nodes := ns2, free_nodes := b # free_nodes r2\<rparr>"
    have r3: "gc_inv S r3" "live_nodes r3 = live_nodes r - {b}" "edges S (nodes r3) = isolated ?D b" "\<forall>w \<in> ids (nodes r2). data (nd (nodes r3) w) = data (nd (nodes r2) w)"
      using gc_inv_isolated [OF r2(2), of b ns2] m(3) ab(2) l2 r2(4) by (auto simp: r3_def)
    have wf2: "wf_nodes S (nodes r2)" using r2(2) by (simp add: gc_inv_def)
    have nb: "set (ns_elems S (n_out ?nb)) = {w. (b, w) \<in> ?D}" "set (ns_elems S (n_in ?nb)) = {w. (w, b) \<in> ?D}"
      using wf_nodesD(6) [OF wf2 b2] edges_iff [OF b2] r2(4) by (auto simp: outs_def ins_def)
    have live_nodes: "{w. (b, w) \<in> ?D} \<subseteq> live_nodes r3" "{w. (w, b) \<in> ?D} \<subseteq> live_nodes r3" "a \<in> live_nodes r3"
    proof -
      have "u \<in> live_nodes r \<and> v \<in> live_nodes r" if "(u, v) \<in> E" for u v
      proof -
        have i: "u \<in> ids ?ns" "v \<in> ids ?ns" using that wf_nodesD(1) [of S ?ns] inv by (auto simp: E_def gc_inv_def)
        then show ?thesis using that inv edges_iff [OF i(1), of v S] wf_nodesD(6) [of S ?ns v u]
          by (auto simp: live_nodes_def gc_inv_def E_def)
      qed
      then show "{w. (b, w) \<in> ?D} \<subseteq> live_nodes r3" "{w. (w, b) \<in> ?D} \<subseteq> live_nodes r3" using irr r3(2) by blast+
      show "a \<in> live_nodes r3" using r3(2) ab(1) irr abE by auto
    qed
    have M: "merge_into E a b = isolated ?D b \<union> {a} \<times> {w. (b, w) \<in> ?D} \<union> {w. (w, b) \<in> ?D} \<times> {a}"
      using merge_into_eq [of a E b] irr ba abE by auto
    have acM: "acyclic (merge_into E a b)" by (rule merge_into_acyclic [OF ac abE False])
    obtain r4 where r4: "insert_from S r3 a (ns_elems S (n_out ?nb)) = Some r4" "gc_inv S r4" "same_nodes r3 r4"
      "edges S (nodes r4) = isolated ?D b \<union> {a} \<times> {w. (b, w) \<in> ?D}"
      using insert_from_spec [OF r3(1) live_nodes(3) _ acM, of "ns_elems S (n_out ?nb)"] live_nodes(1) nb(1) r3(3) M by auto
    have l4: "live_nodes r4 = live_nodes r3" by (rule same_nodes_live [OF r4(3)])
    obtain r5 where r5: "insert_to S r4 (ns_elems S (n_in ?nb)) a = Some r5" "gc_inv S r5" "same_nodes r4 r5" "edges S (nodes r5) = merge_into E a b"
      using insert_to_spec [OF r4(2) _ _ acM, of a "ns_elems S (n_in ?nb)"] live_nodes(2,3) l4 nb(2) r4(4) M by auto
    have "ContractEdge S r a b = Some (True, r5)"
      using has r1(1) r2(1) False b2 m(1,2) r4(1) r5(1) by (simp add: ContractEdge_def r3_def)
    moreover have same35: "same_nodes r3 r5" by (rule same_nodes_trans [OF r4(3) r5(3)])
    moreover have "live_nodes r5 = live_nodes r - {b}" using same_nodes_live [OF same35] r3(2) by simp
    moreover have "\<forall>w \<in> ids ?ns. data (nd (nodes r5) w) = data (nd ?ns w)"
    proof -
      have "ids (nodes r3) = ids ?ns" "ids (nodes r2) = ids ?ns" using m(3) same2 by (auto simp: r3_def regraph_def same_nodes_def)
      then show ?thesis using same35 same2 r3(4) unfolding same_nodes_def by metis
    qed
    ultimately show ?thesis using False r5(2,4) by auto
  qed
qed

end

end
