(* ===== verification/GraphCyclesSystem.thy ===== *)
theory GraphCyclesSystem
  imports GraphCyclesPath "HOL-Library.Multiset"
begin

text \<open>
  \<open>GraphCycles\<close> as its clients see it: an acyclic graph with labelled nodes. Every
  sequence of calls on nodes that exist refines this abstract graph.
\<close>

section \<open>The abstract graph\<close>

record 'd digraph =
  verts :: "int set"
  arcs :: "(int \<times> int) set"
  label_of :: "int \<Rightarrow> 'd option"

datatype 'd call =
    NewCall
  | RemoveNodeCall int
  | InsertCall int int
  | RemoveEdgeCall int int
  | ContractCall int int
  | ReachableCall int int
  | ReachableNonConstCall int int
  | HasEdgeCall int int
  | SuccessorsCall int
  | GetDataCall int
  | SetDataCall int "'d option"

datatype 'd answer = NodeAnswer int | NoAnswer | BoolAnswer bool | SetAnswer "int set" | DataAnswer "'d option"

text \<open>The nodes of a call exist, and an edge to contract exists.\<close>

fun legal_call :: "'d call \<Rightarrow> 'd digraph \<Rightarrow> bool" where
  "legal_call NewCall g = True"
| "legal_call (RemoveNodeCall x) g = (x \<in> verts g)"
| "legal_call (InsertCall x y) g = (x \<in> verts g \<and> y \<in> verts g)"
| "legal_call (RemoveEdgeCall x y) g = (x \<in> verts g \<and> y \<in> verts g)"
| "legal_call (ContractCall a b) g = ((a, b) \<in> arcs g)"
| "legal_call (ReachableCall x y) g = (x \<in> verts g \<and> y \<in> verts g)"
| "legal_call (ReachableNonConstCall x y) g = (x \<in> verts g \<and> y \<in> verts g)"
| "legal_call (HasEdgeCall x y) g = (x \<in> verts g \<and> y \<in> verts g)"
| "legal_call (SuccessorsCall x) g = (x \<in> verts g)"
| "legal_call (GetDataCall x) g = (x \<in> verts g)"
| "legal_call (SetDataCall x d) g = (x \<in> verts g)"

fun graph_step :: "'d call \<Rightarrow> 'd digraph \<Rightarrow> 'd answer \<Rightarrow> 'd digraph \<Rightarrow> bool" where
  "graph_step NewCall g a g' = (\<exists>x. a = NodeAnswer x \<and> x \<notin> verts g \<and> g' = g\<lparr>verts := insert x (verts g)\<rparr>)"
| "graph_step (RemoveNodeCall x) g a g' = (a = NoAnswer \<and>
     g' = g\<lparr>verts := verts g - {x}, arcs := {(u, v) \<in> arcs g. u \<noteq> x \<and> v \<noteq> x}, label_of := (label_of g)(x := None)\<rparr>)"
| "graph_step (InsertCall x y) g a g' = (a = BoolAnswer (acyclic (insert (x, y) (arcs g))) \<and>
     g' = (if acyclic (insert (x, y) (arcs g)) then g\<lparr>arcs := insert (x, y) (arcs g)\<rparr> else g))"
| "graph_step (RemoveEdgeCall x y) g a g' = (a = NoAnswer \<and> g' = g\<lparr>arcs := arcs g - {(x, y)}\<rparr>)"
| "graph_step (ContractCall x y) g a g' = (a = BoolAnswer (acyclic (merge_into (arcs g) x y)) \<and>
     g' = (if acyclic (merge_into (arcs g) x y)
           then g\<lparr>verts := verts g - {y}, arcs := merge_into (arcs g) x y, label_of := (label_of g)(y := None)\<rparr> else g))"
| "graph_step (ReachableCall x y) g a g' = (a = BoolAnswer ((x, y) \<in> (arcs g)\<^sup>*) \<and> g' = g)"
| "graph_step (ReachableNonConstCall x y) g a g' = (a = BoolAnswer ((x, y) \<in> (arcs g)\<^sup>*) \<and> g' = g)"
| "graph_step (HasEdgeCall x y) g a g' = (a = BoolAnswer ((x, y) \<in> arcs g) \<and> g' = g)"
| "graph_step (SuccessorsCall x) g a g' = (a = SetAnswer {y. (x, y) \<in> arcs g} \<and> g' = g)"
| "graph_step (GetDataCall x) g a g' = (a = DataAnswer (label_of g x) \<and> g' = g)"
| "graph_step (SetDataCall x d) g a g' = (a = NoAnswer \<and> g' = g\<lparr>label_of := (label_of g)(x := d)\<rparr>)"

section \<open>The implementation\<close>

fun exec_call :: "'s node_set \<Rightarrow> 'd call \<Rightarrow> ('s, 'd) rep \<Rightarrow> ('d answer \<times> ('s, 'd) rep) option" where
  "exec_call S NewCall r = map_option (\<lambda>(x, r). (NodeAnswer x, r)) (NewNode S r)"
| "exec_call S (RemoveNodeCall x) r = map_option (\<lambda>r. (NoAnswer, r)) (RemoveNode S r x)"
| "exec_call S (InsertCall x y) r = map_option (\<lambda>(b, r). (BoolAnswer b, r)) (InsertEdge S r x y)"
| "exec_call S (RemoveEdgeCall x y) r = map_option (\<lambda>r. (NoAnswer, r)) (RemoveEdge S r x y)"
| "exec_call S (ContractCall x y) r = map_option (\<lambda>(b, r). (BoolAnswer b, r)) (ContractEdge S r x y)"
| "exec_call S (ReachableCall x y) r = map_option (\<lambda>(b, r). (BoolAnswer b, r)) (IsReachable S r x y)"
| "exec_call S (ReachableNonConstCall x y) r = map_option (\<lambda>(b, r). (BoolAnswer b, r)) (IsReachableNonConst S r x y)"
| "exec_call S (HasEdgeCall x y) r = map_option (\<lambda>b. (BoolAnswer b, r)) (HasEdge S r x y)"
| "exec_call S (SuccessorsCall x) r = map_option (\<lambda>s. (SetAnswer s, r)) (Successors S r x)"
| "exec_call S (GetDataCall x) r = map_option (\<lambda>d. (DataAnswer d, r)) (GetNodeData r x)"
| "exec_call S (SetDataCall x d) r = map_option (\<lambda>r. (NoAnswer, r)) (SetNodeData r x d)"

definition graph_of :: "'s node_set \<Rightarrow> ('s, 'd) rep \<Rightarrow> 'd digraph" where
  "graph_of S r = \<lparr>verts = live_nodes r, arcs = edges S (nodes r), label_of = (\<lambda>w. if w \<in> live_nodes r then data (nd (nodes r) w) else None)\<rparr>"

inductive reachable :: "'s node_set \<Rightarrow> ('s, 'd) rep \<Rightarrow> bool" for S where
  init: "reachable S GraphCycles"
| step: "reachable S r \<Longrightarrow> legal_call c (graph_of S r) \<Longrightarrow> exec_call S c r = Some (a, r') \<Longrightarrow> reachable S r'"

lemma graph_of_same: "same_nodes r r' \<Longrightarrow> graph_of S r' = (graph_of S r)\<lparr>arcs := edges S (nodes r')\<rparr>"
  by (auto simp: graph_of_def live_nodes_def same_nodes_def fun_eq_iff)

lemma graph_of_drop:
  assumes "live_nodes r' = live_nodes r - {x}" "\<forall>w \<in> ids (nodes r). data (nd (nodes r') w) = data (nd (nodes r) w)"
  shows "graph_of S r' = (graph_of S r)\<lparr>verts := live_nodes r - {x}, arcs := edges S (nodes r'), label_of := (label_of (graph_of S r))(x := None)\<rparr>"
  using assms by (auto simp: graph_of_def live_nodes_def fun_eq_iff)

lemma merge_into_acyclic_iff:
  assumes ac: "acyclic E" and ab: "(a, b) \<in> E"
  shows "acyclic (merge_into E a b) \<longleftrightarrow> (a, b) \<notin> (E - {(a, b)})\<^sup>*"
proof
  let ?h = "\<lambda>u. if u = b then a else u"
  assume M: "acyclic (merge_into E a b)"
  show "(a, b) \<notin> (E - {(a, b)})\<^sup>*"
  proof
    assume "(a, b) \<in> (E - {(a, b)})\<^sup>*"
    moreover have "a \<noteq> b" using ac ab unfolding acyclic_def by blast
    ultimately have "(a, b) \<in> (E - {(a, b)})\<^sup>+" by (simp add: rtrancl_eq_or_trancl)
    moreover have "(?h u, ?h v) \<in> (merge_into E a b)\<^sup>+" if "(u, v) \<in> (E - {(a, b)})\<^sup>+" for u v
      using that
    proof (induction rule: trancl_induct)
      case (base v)
      then have "(?h u, ?h v) \<in> merge_into E a b" unfolding merge_into_def by (intro image_eqI [of _ _ "(u, v)"]) simp_all
      then show ?case by blast
    next
      case (step v w)
      then have "(?h v, ?h w) \<in> merge_into E a b" unfolding merge_into_def by (intro image_eqI [of _ _ "(v, w)"]) simp_all
      then show ?case using step.IH by (meson trancl_into_trancl)
    qed
    ultimately have "(?h a, ?h b) \<in> (merge_into E a b)\<^sup>+" by blast
    then show False using M by (simp add: acyclic_def split: if_splits)
  qed
qed (rule merge_into_acyclic [OF ac ab])

context unordered_set
begin

lemma gc_inv_init: "gc_inv S GraphCycles"
  by (simp add: gc_inv_def wf_nodes_def GraphCycles_def topo_def edges_def)

lemma edge_live:
  assumes "gc_inv S r" "(a, b) \<in> edges S (nodes r)"
  shows "a \<in> live_nodes r \<and> b \<in> live_nodes r"
proof -
  have wf: "wf_nodes S (nodes r)" using assms(1) by (simp add: gc_inv_def)
  have i: "a \<in> ids (nodes r)" "b \<in> ids (nodes r)" using assms(2) wf_nodesD(1) [OF wf] by auto
  then show ?thesis using assms edges_iff [OF i(1), of b S] wf_nodesD(6) [OF wf i(2), of a] by (auto simp: live_nodes_def gc_inv_def)
qed

lemma exec_call_refines:
  fixes r :: "('s, 'd) rep"
  assumes inv: "gc_inv S r" and legal_call: "legal_call c (graph_of S r)"
  shows "\<exists>a r'. exec_call S c r = Some (a, r') \<and> gc_inv S r' \<and> graph_step c (graph_of S r) a (graph_of S r')"
proof -
  let ?E = "edges S (nodes r)"
  have wf: "wf_nodes S (nodes r)" and ac: "acyclic ?E" using inv topo_acyclic by (auto simp: gc_inv_def)
  have ids: "x \<in> ids (nodes r)" if "x \<in> live_nodes r" for x using that by (simp add: live_nodes_def)
  have g: "verts (graph_of S r) = live_nodes r" "arcs (graph_of S r) = ?E" by (simp_all add: graph_of_def)
  have same: "(graph_of S r)\<lparr>arcs := ?E\<rparr> = graph_of S r" by (simp add: graph_of_def)
  show ?thesis
  proof (cases c)
    case NewCall
    obtain x r' where n: "NewNode S r = Some (x, r')" "gc_inv S r'" "x \<notin> live_nodes r" "live_nodes r' = insert x (live_nodes r)" "edges S (nodes r') = ?E"
      "data (nd (nodes r') x) = None" "\<forall>w \<in> live_nodes r. data (nd (nodes r') w) = data (nd (nodes r) w)" using NewNode_spec [OF inv] by blast
    then have "graph_of S r' = (graph_of S r)\<lparr>verts := insert x (live_nodes r)\<rparr>" by (auto simp: graph_of_def fun_eq_iff)
    then show ?thesis using NewCall n(1-3) by (simp add: g)
  next
    case (RemoveNodeCall x)
    then obtain r' where n: "RemoveNode S r x = Some r'" "gc_inv S r'" "live_nodes r' = live_nodes r - {x}" "edges S (nodes r') = isolated ?E x"
      "\<forall>w \<in> ids (nodes r). data (nd (nodes r') w) = data (nd (nodes r) w)" using RemoveNode_spec [OF inv, of x] legal_call by (auto simp: g)
    show ?thesis using RemoveNodeCall n(1,2) graph_of_drop [OF n(3,5)] n(4) by (simp add: g isolated_def)
  next
    case (InsertCall x y)
    then have xy: "x \<in> live_nodes r" "y \<in> live_nodes r" using legal_call by (simp_all add: g)
    have iff: "acyclic (insert (x, y) ?E) \<longleftrightarrow> x \<noteq> y \<and> (y, x) \<notin> ?E\<^sup>*" using ac by (auto simp: acyclic_insert)
    obtain r' where i: "InsertEdge S r x y = Some (acyclic (insert (x, y) ?E), r')" "gc_inv S r'" "same_nodes r r'"
      "edges S (nodes r') = (if acyclic (insert (x, y) ?E) then insert (x, y) ?E else ?E)"
      using InsertEdge_spec [OF inv xy] unfolding iff by blast
    then show ?thesis using InsertCall same graph_of_same [OF i(3), of S] by (simp add: g)
  next
    case (RemoveEdgeCall x y)
    then obtain r' where "RemoveEdge S r x y = Some r'" "gc_inv S r'" "same_nodes r r'" "edges S (nodes r') = ?E - {(x, y)}"
      using RemoveEdge_spec [OF inv ids ids, of x y] legal_call by (auto simp: g)
    then show ?thesis using RemoveEdgeCall graph_of_same by (fastforce simp: g)
  next
    case (ContractCall x y)
    then have e: "(x, y) \<in> ?E" using legal_call by (simp add: g)
    note iff = merge_into_acyclic_iff [OF ac e] and l = edge_live [OF inv e]
    obtain r' where c: "ContractEdge S r x y = Some ((x, y) \<notin> (?E - {(x, y)})\<^sup>*, r')" "gc_inv S r'"
      "if (x, y) \<in> (?E - {(x, y)})\<^sup>* then same_nodes r r' \<and> edges S (nodes r') = ?E
       else live_nodes r' = live_nodes r - {y} \<and> edges S (nodes r') = merge_into ?E x y \<and> (\<forall>w \<in> ids (nodes r). data (nd (nodes r') w) = data (nd (nodes r) w))"
      using ContractEdge_spec [OF inv conjunct1 [OF l] conjunct2 [OF l] e] by blast
    show ?thesis
    proof (cases "(x, y) \<in> (?E - {(x, y)})\<^sup>*")
      case True
      then have "graph_of S r' = graph_of S r" using c(3) graph_of_same [of r r' S] same by simp
      then show ?thesis using ContractCall c(1,2) iff True by (simp add: g)
    next
      case False
      then show ?thesis using ContractCall c iff graph_of_drop [of r' r y S] by (simp add: g)
    qed
  next
    case (ReachableCall x y)
    then obtain st where "IsReachable S r x y = Some ((x, y) \<in> ?E\<^sup>*, r\<lparr>stack := st\<rparr>)"
      using IsReachable_spec [OF wf ids, of x y] legal_call by (auto simp: g)
    moreover have "graph_of S (r\<lparr>stack := st\<rparr>) = graph_of S r" "gc_inv S (r\<lparr>stack := st\<rparr>)"
      using inv by (auto simp: graph_of_def live_nodes_def gc_inv_def fun_eq_iff)
    ultimately show ?thesis using ReachableCall by (simp add: g)
  next
    case (ReachableNonConstCall x y)
    then obtain r' where "IsReachableNonConst S r x y = Some ((x, y) \<in> ?E\<^sup>*, r')" "gc_inv S r'" "same_nodes r r'" "edges S (nodes r') = ?E"
      using IsReachableNonConst_spec [OF inv ids ids, of x y] legal_call by (auto simp: g)
    moreover from this have "graph_of S r' = graph_of S r" using graph_of_same [of r r' S] same by simp
    ultimately show ?thesis using ReachableNonConstCall by (simp add: g)
  next
    case (HasEdgeCall x y)
    then have "HasEdge S r x y = Some ((x, y) \<in> ?E)" using legal_call ids [of x] by (simp add: g HasEdge_def edges_def outs_def)
    then show ?thesis using HasEdgeCall inv by (simp add: g)
  next
    case (SuccessorsCall x)
    then have "Successors S r x = Some {y. (x, y) \<in> ?E}" using legal_call ids [of x] by (simp add: g Successors_def edges_def outs_def)
    then show ?thesis using SuccessorsCall inv by (simp add: g)
  next
    case (GetDataCall x)
    then have "GetNodeData r x = Some (label_of (graph_of S r) x)" using legal_call ids [of x] by (simp add: graph_of_def GetNodeData_def)
    then show ?thesis using GetDataCall inv by simp
  next
    case (SetDataCall x d)
    then have x: "x \<in> live_nodes r" "x \<in> ids (nodes r)" using legal_call ids by (simp_all add: g)
    let ?r = "r\<lparr>nodes := set_node (nodes r) x ((nd (nodes r) x)\<lparr>data := d\<rparr>)\<rparr>"
    have nd': "nd (nodes ?r) w = (if w = x then (nd (nodes r) x)\<lparr>data := d\<rparr> else nd (nodes r) w)" if "w \<in> ids (nodes r)" for w using x that by simp
    have o: "outs S (nodes ?r) w = outs S (nodes r) w" "ins S (nodes ?r) w = ins S (nodes r) w" "visited (nd (nodes ?r) w) = visited (nd (nodes r) w)"
      if "w \<in> ids (nodes r)" for w using nd' [OF that] by (auto simp: outs_def ins_def)
    have rk': "rk (nodes ?r) = rk (nodes r)" by (rule rk_eqI) (use nd' in auto)
    have e: "edges S (nodes ?r) = ?E" using o by (auto simp: edges_def)
    have "wf_nodes S (nodes ?r)" using wf o rk' by (auto simp: wf_nodes_def)
    then have "gc_inv S ?r" using inv o rk' e by (auto simp: gc_inv_def)
    moreover have "graph_of S ?r = (graph_of S r)\<lparr>label_of := (label_of (graph_of S r))(x := d)\<rparr>"
      using e nd' x by (auto simp: graph_of_def live_nodes_def fun_eq_iff)
    ultimately show ?thesis using SetDataCall x by (simp add: SetNodeData_def)
  qed
qed

lemma reachable_inv: "reachable S r \<Longrightarrow> gc_inv S r"
proof (induction rule: reachable.induct)
  case (step r c a r')
  then show ?case using exec_call_refines [of r c] by auto
qed (rule gc_inv_init)

end

section \<open>Properties\<close>

text \<open>An implementation of the sets by lists without repetitions.\<close>

definition list_set :: "int list node_set" where
  "list_set = \<lparr>ns_empty = [], ns_insert = (\<lambda>x s. if x \<in> set s then s else s @ [x]), ns_erase = removeAll, ns_elems = (\<lambda>s. s)\<rparr>"

interpretation list_nodes: unordered_set list_set
  by unfold_locales (auto simp: list_set_def)

text \<open>
  C10. The class is an acyclic graph with labelled nodes: for any implementation of the edge sets,
  in every state that calls on existing nodes can produce, each further call returns and does what
  the abstract graph does. In particular \<open>InsertEdge\<close> accepts an edge exactly when the graph
  stays acyclic and otherwise changes nothing, \<open>ContractEdge\<close> merges the ends of an edge
  exactly when the merged graph is acyclic, and both reachability tests are exact.
\<close>

theorem graph_cycles_refines:
  assumes "unordered_set S" "reachable S r" "legal_call c (graph_of S r)"
  shows "\<exists>a r'. exec_call S c r = Some (a, r') \<and> graph_step c (graph_of S r) a (graph_of S r') \<and> reachable S r'"
proof -
  have "gc_inv S r" by (rule unordered_set.reachable_inv [OF assms(1,2)])
  from unordered_set.exec_call_refines [OF assms(1) this assms(3)] show ?thesis
    using reachable.step [OF assms(2,3)] by blast
qed

text \<open>
  C11. The ranks are a topological order: in every reachable state the graph is acyclic,
  \<open>CheckInvariants\<close> finds nothing wrong, the ranks of the nodes are a permutation of their
  numbers, and the rank grows along every path.
\<close>

theorem graph_cycles_invariant:
  assumes "unordered_set S" "reachable S r"
  shows "CheckInvariants S r = Some True \<and> acyclic (edges S (nodes r)) \<and>
    mset (map rank (nodes r)) = mset (map int [0..<length (nodes r)]) \<and>
    (\<forall>x y. (x, y) \<in> (edges S (nodes r))\<^sup>+ \<longrightarrow> rk (nodes r) x < rk (nodes r) y)"
proof -
  have inv: "gc_inv S r" by (rule unordered_set.reachable_inv [OF assms])
  then have topo: "topo (edges S (nodes r)) (rk (nodes r))" and wf: "wf_nodes S (nodes r)" by (simp_all add: gc_inv_def)
  let ?ns = "nodes r"
  have m: "map rank ?ns = map (\<lambda>i. rk ?ns (int i)) [0..<length ?ns]"
    by (rule nth_equalityI) (simp_all add: rk_def nd_def)
  have inj: "inj_on (\<lambda>i. rk ?ns (int i)) {0..<length ?ns}"
  proof (rule inj_onI)
    fix i j assume "i \<in> {0..<length ?ns}" "j \<in> {0..<length ?ns}" "rk ?ns (int i) = rk ?ns (int j)"
    then show "i = j" using inj_onD [OF wf_nodesD(2) [OF wf], of "int i" "int j"] by simp
  qed
  have I: "ids ?ns = int ` {0..<length ?ns}" by (simp add: image_int_atLeastLessThan)
  have "(\<lambda>i. rk ?ns (int i)) ` {0..<length ?ns} = rk ?ns ` ids ?ns" unfolding I by (simp only: image_image)
  also have "\<dots> = int ` {0..<length ?ns}" using wf by (simp add: wf_nodes_def image_int_atLeastLessThan)
  finally have "set (map rank ?ns) = set (map int [0..<length ?ns])" unfolding m by simp
  moreover have "distinct (map rank ?ns)" unfolding m using inj by (simp add: distinct_map)
  ultimately have "mset (map rank ?ns) = mset (map int [0..<length ?ns])"
    by (intro set_eq_iff_mset_eq_distinct [THEN iffD1]) (simp_all add: distinct_map)
  then show ?thesis using CheckInvariants_inv [OF inv] topo_acyclic [OF topo] topo_trancl [OF topo] by blast
qed

text \<open>
  C12. \<open>FindPath\<close> finds a path: from an existing node, with room for \<open>mx\<close> nodes, it
  returns 0 when the target is not reachable and otherwise the number of nodes of a path to it,
  whose first \<open>mx\<close> nodes are in the array.
\<close>

theorem FindPath_finds:
  assumes "unordered_set S" "reachable S r" "x \<in> live_nodes r" "nat mx \<le> length path"
  shows "\<exists>n path' r'. FindPath S r x y mx path = Some (n, path', r') \<and> nodes r' = nodes r \<and>
    (if (x, y) \<in> (edges S (nodes r))\<^sup>*
     then \<exists>qs. qs \<noteq> [] \<and> hd qs = x \<and> last qs = y \<and> successively (\<lambda>u v. (u, v) \<in> edges S (nodes r)) qs \<and>
       n = int (length qs) \<and> (\<forall>i < min (length qs) (nat mx). path' ! i = qs ! i)
     else n = 0)"
proof -
  have "wf_nodes S (nodes r)" using unordered_set.reachable_inv [OF assms(1,2)] by (simp add: gc_inv_def)
  moreover have "x \<in> ids (nodes r)" using assms(3) by (simp add: live_nodes_def)
  ultimately obtain n path' st' where "FindPath S r x y mx path = Some (n, path', r\<lparr>stack := st'\<rparr>)" "found (edges S (nodes r)) x y mx n path'"
    using FindPath_spec assms(4) by blast
  then show ?thesis
    by (intro exI [of _ n] exI [of _ path'] exI [of _ "r\<lparr>stack := st'\<rparr>"], cases "(x, y) \<in> (edges S (nodes r))\<^sup>*")
      (auto simp: found_def walk_def)
qed

section \<open>Witnesses\<close>

text \<open>Two nodes, then an edge against the order of their creation.\<close>

definition node0 :: "int \<Rightarrow> int list \<Rightarrow> int list \<Rightarrow> (int list, nat) node" where
  "node0 k i out = \<lparr>rank = k, visited = False, data = None, n_in = i, n_out = out\<rparr>"

definition rep0 :: "(int list, nat) rep" where
  "rep0 = GraphCycles\<lparr>nodes := [node0 0 [] [], node0 1 [] []]\<rparr>"

definition rep1 :: "(int list, nat) rep" where
  "rep1 = rep0\<lparr>nodes := [node0 1 [1] [], node0 0 [] [0]], deltaf := [0], deltab := [1], list_ := [1, 0], merged := [0, 1]\<rparr>"

lemmas graph_eval = exec_call.simps NewNode_def InsertEdge_def ForwardDFS_def BackwardDFS_def Reorder_def Sort_def
  node_at_def set_node_def rep0_def rep1_def node0_def GraphCycles_def list_set_def Let_def

lemma rep1_eval:
  "exec_call list_set NewCall (GraphCycles :: (int list, nat) rep) = Some (NodeAnswer 0, GraphCycles\<lparr>nodes := [node0 0 [] []]\<rparr>)"
  "exec_call list_set NewCall (GraphCycles\<lparr>nodes := [node0 0 [] []]\<rparr>) = Some (NodeAnswer 1, rep0)"
  "exec_call list_set (InsertCall 1 0) rep0 = Some (BoolAnswer True, rep1)"
  by (simp_all add: graph_eval)

lemma reachable_rep1: "reachable list_set rep0" "reachable list_set rep1"
proof -
  show r0: "reachable list_set rep0"
    by (rule reachable.step [OF reachable.step [OF reachable.init _ rep1_eval(1)] _ rep1_eval(2)]) simp_all
  have "legal_call (InsertCall 1 0) (graph_of list_set rep0)" by (simp add: graph_of_def live_nodes_def rep0_def GraphCycles_def)
  then show "reachable list_set rep1" by (rule reachable.step [OF r0 _ rep1_eval(3)])
qed

lemma graph_rep1: "live_nodes rep1 = {0, 1}" "edges list_set (nodes rep1) = {(1, 0)}"
proof -
  have ids: "ids (nodes rep1) = {0, 1}" by (auto simp: rep1_def)
  then show "live_nodes rep1 = {0, 1}" by (simp add: live_nodes_def rep1_def rep0_def GraphCycles_def)
  have "outs list_set (nodes rep1) 0 = {}" "outs list_set (nodes rep1) 1 = {0}"
    by (simp_all add: outs_def nd_def rep1_def node0_def list_set_def)
  then show "edges list_set (nodes rep1) = {(1, 0)}" unfolding edges_def ids by auto
qed

theorem graph_cycles_refines_witness:
  "\<exists>r'. exec_call list_set (InsertCall 0 1) rep1 = Some (BoolAnswer False, r') \<and> graph_of list_set r' = graph_of list_set rep1"
proof -
  have g: "verts (graph_of list_set rep1) = {0, 1}" "arcs (graph_of list_set rep1) = {(1, 0)}"
    by (simp_all only: graph_of_def digraph.simps graph_rep1)
  have "legal_call (InsertCall 0 1) (graph_of list_set rep1)" by (simp add: g)
  from graph_cycles_refines [OF list_nodes.unordered_set_axioms reachable_rep1(2) this] obtain a r' where
    r: "exec_call list_set (InsertCall 0 1) rep1 = Some (a, r')"
      "graph_step (InsertCall 0 1) (graph_of list_set rep1) a (graph_of list_set r')" by blast
  have "\<not> acyclic (insert (0, 1) {(1, 0 :: int)})" by (simp add: acyclic_insert) blast
  then show ?thesis using r by (simp add: g)
qed

theorem graph_cycles_invariant_witness:
  "CheckInvariants list_set rep1 = Some True \<and> acyclic (edges list_set (nodes rep1)) \<and> rk (nodes rep1) 1 < rk (nodes rep1) 0"
proof -
  have "(1, 0) \<in> (edges list_set (nodes rep1))\<^sup>+" by (simp add: graph_rep1 r_into_trancl)
  then show ?thesis using graph_cycles_invariant [OF list_nodes.unordered_set_axioms reachable_rep1(2)] by blast
qed

theorem FindPath_finds_witness:
  "\<exists>n path r. FindPath list_set rep1 1 0 2 [7, 7] = Some (n, path, r) \<and> 0 < n \<and> path ! 0 = 1"
proof -
  have "(1, 0) \<in> (edges list_set (nodes rep1))\<^sup>*" by (simp add: graph_rep1 r_into_rtrancl)
  moreover have "1 \<in> live_nodes rep1" "nat 2 \<le> length [7, 7 :: int]" by (simp_all add: graph_rep1)
  ultimately obtain n path r qs where f: "FindPath list_set rep1 1 0 2 [7, 7] = Some (n, path, r)" "qs \<noteq> []" "hd qs = 1"
    "n = int (length qs)" "\<forall>i < min (length qs) (nat 2). path ! i = qs ! i"
    using FindPath_finds [OF list_nodes.unordered_set_axioms reachable_rep1(2), of 1 2 "[7, 7]" 0] by auto
  then have "0 < n" "path ! 0 = 1" by (auto simp: hd_conv_nth)
  then show ?thesis using f(1) by blast
qed

end
