(* ===== verification/Bfc_Region.thy ===== *)
theory Bfc_Region
  imports Tf_Prelude "HOL-Library.Monad_Syntax"
begin

text \<open>
  \<open>BFCAllocator::AllocationRegion\<close> and \<open>BFCAllocator::RegionManager\<close> of
  \<^verbatim>\<open>core/common_runtime/bfc_allocator.h\<close>: the table from addresses to chunk
  handles. An address is its \<open>uintptr_t\<close> value as a natural number, a \<open>ChunkHandle\<close> is
  an index and \<open>kInvalidChunkHandle\<close> is \<open>None\<close>. A result of type \<open>'a option\<close> is
  \<open>None\<close> where the program aborts (\<open>CHECK\<close>, \<open>LOG(FATAL)\<close>) or reads outside an array.
  \<open>std::upper_bound\<close> on the vector sorted by end address is the index of the first
  region whose end lies after the address.
\<close>

section \<open>Model\<close>

abbreviation (input) kMinAllocationBits :: nat where "kMinAllocationBits \<equiv> 8"
abbreviation (input) kMinAllocationSize :: nat where "kMinAllocationSize \<equiv> 256"

type_synonym chunk_handle = nat

record region =
  r_ptr :: nat
  memory_size :: nat
  end_ptr :: nat
  handles :: "chunk_handle option list"

definition AllocationRegion :: "nat \<Rightarrow> nat \<Rightarrow> region" where
  "AllocationRegion p sz =
     \<lparr>r_ptr = p, memory_size = sz, end_ptr = p + sz,
      handles = replicate ((sz + kMinAllocationSize - 1) div kMinAllocationSize) None\<rparr>"

text \<open>The difference of the two addresses is an unsigned 64-bit value, its quotient is cast to \<open>int\<close>.\<close>

definition IndexFor :: "region \<Rightarrow> nat \<Rightarrow> nat option" where
  "IndexFor r p =
     (let d = (p + 2 ^ 64 - r_ptr r) mod 2 ^ 64;
          i = (d div 2 ^ kMinAllocationBits) mod 2 ^ 32
      in if i < 2 ^ 31 then Some i else None)"

definition region_get_handle :: "region \<Rightarrow> nat \<Rightarrow> chunk_handle option option" where
  "region_get_handle r p = do {
     i \<leftarrow> IndexFor r p;
     if i < length (handles r) then Some (handles r ! i) else None
   }"

definition region_set_handle :: "region \<Rightarrow> nat \<Rightarrow> chunk_handle option \<Rightarrow> region option" where
  "region_set_handle r p h = do {
     i \<leftarrow> IndexFor r p;
     if i < length (handles r) then Some (r\<lparr>handles := (handles r)[i := h]\<rparr>) else None
   }"

definition upper_bound :: "region list \<Rightarrow> nat \<Rightarrow> nat" where
  "upper_bound rs p = length (takeWhile (\<lambda>r. \<not> p < end_ptr r) rs)"

definition AddAllocationRegion :: "region list \<Rightarrow> nat \<Rightarrow> nat \<Rightarrow> region list" where
  "AddAllocationRegion rs p sz =
     (let entry = upper_bound rs p
      in take entry rs @ AllocationRegion p sz # drop entry rs)"

definition RegionFor :: "region list \<Rightarrow> nat \<Rightarrow> nat option" where
  "RegionFor rs p =
     (let entry = upper_bound rs p in if entry < length rs then Some entry else None)"

definition get_handle :: "region list \<Rightarrow> nat \<Rightarrow> chunk_handle option option" where
  "get_handle rs p = do { i \<leftarrow> RegionFor rs p; region_get_handle (rs ! i) p }"

definition set_handle :: "region list \<Rightarrow> nat \<Rightarrow> chunk_handle option \<Rightarrow> region list option" where
  "set_handle rs p h = do {
     i \<leftarrow> RegionFor rs p;
     r \<leftarrow> region_set_handle (rs ! i) p h;
     Some (rs[i := r])
   }"

definition erase_handle :: "region list \<Rightarrow> nat \<Rightarrow> region list option" where
  "erase_handle rs p = set_handle rs p None"

section \<open>Well-formed tables\<close>

definition region_ok :: "region \<Rightarrow> bool" where
  "region_ok r \<longleftrightarrow> end_ptr r = r_ptr r + memory_size r \<and> 0 < memory_size r \<and>
     256 dvd memory_size r \<and> memory_size r \<le> 2 ^ 39 \<and> end_ptr r < 2 ^ 64 \<and>
     length (handles r) = memory_size r div 256"

definition regions_ok :: "region list \<Rightarrow> bool" where
  "regions_ok rs \<longleftrightarrow> list_all region_ok rs \<and> sorted_wrt (\<lambda>r r'. end_ptr r \<le> r_ptr r') rs"

text \<open>An address a chunk may start at: inside a region, at a multiple of 256 from its base.\<close>

definition in_region :: "region \<Rightarrow> nat \<Rightarrow> bool" where
  "in_region r p \<longleftrightarrow> r_ptr r \<le> p \<and> p < end_ptr r \<and> 256 dvd (p - r_ptr r)"

definition addressable :: "region list \<Rightarrow> nat \<Rightarrow> bool" where
  "addressable rs p \<longleftrightarrow> (\<exists>r \<in> set rs. in_region r p)"

lemma IndexFor_in_region:
  assumes "region_ok r" "in_region r p"
  shows "IndexFor r p = Some ((p - r_ptr r) div 256)" and "(p - r_ptr r) div 256 < length (handles r)"
proof -
  have b: "r_ptr r \<le> p" "p - r_ptr r < memory_size r" "memory_size r \<le> 2 ^ 39" "p < 2 ^ 64"
    using assms by (auto simp: region_ok_def in_region_def)
  then have "p + 2 ^ 64 - r_ptr r = (p - r_ptr r) + 2 ^ 64" by simp
  moreover have "p - r_ptr r < 2 ^ 64" using b by linarith
  ultimately have "(p + 2 ^ 64 - r_ptr r) mod 2 ^ 64 = p - r_ptr r"
    by (simp only: mod_add_self2 mod_less)
  moreover have "(p - r_ptr r) div 256 < 2 ^ 31"
    using b by (simp add: less_mult_imp_div_less)
  ultimately show "IndexFor r p = Some ((p - r_ptr r) div 256)"
    by (simp add: IndexFor_def)
  show "(p - r_ptr r) div 256 < length (handles r)"
    using assms b by (auto simp: region_ok_def elim!: dvdE intro: less_mult_imp_div_less)
qed

lemma in_region_index_inject:
  assumes "in_region r p" "in_region r q" "(p - r_ptr r) div 256 = (q - r_ptr r) div 256"
  shows "p = q"
  using assms by (auto simp: in_region_def elim!: dvdE)

lemma region_get_set:
  assumes "region_ok r" "in_region r p"
  shows "\<exists>r'. region_set_handle r p h = Some r' \<and> r_ptr r' = r_ptr r \<and> end_ptr r' = end_ptr r \<and>
    memory_size r' = memory_size r \<and> region_ok r' \<and>
    (\<forall>q. in_region r q \<longrightarrow> region_get_handle r' q = (if p = q then Some h else region_get_handle r q))"
proof -
  let ?i = "(p - r_ptr r) div 256" and ?r' = "r\<lparr>handles := (handles r)[(p - r_ptr r) div 256 := h]\<rparr>"
  have ok': "region_ok ?r'" using assms(1) by (simp add: region_ok_def)
  have "region_get_handle ?r' q = (if p = q then Some h else region_get_handle r q)" if q: "in_region r q" for q
  proof -
    have q': "in_region ?r' q" using q by (simp add: in_region_def)
    show ?thesis
      using IndexFor_in_region [OF assms(1) q] IndexFor_in_region [OF ok' q'] IndexFor_in_region [OF assms]
        in_region_index_inject [OF assms(2) q]
      by (auto simp: region_get_handle_def nth_list_update)
  qed
  moreover have "region_set_handle r p h = Some ?r'"
    using IndexFor_in_region [OF assms] by (simp add: region_set_handle_def)
  ultimately show ?thesis using ok' by auto
qed

lemma regions_ok_nth: "regions_ok rs \<Longrightarrow> i < length rs \<Longrightarrow> region_ok (rs ! i)"
  by (auto simp: regions_ok_def list_all_length)

lemma upper_bound_nth:
  assumes "regions_ok rs" "i < length rs" "r_ptr (rs ! i) \<le> p" "p < end_ptr (rs ! i)"
  shows "upper_bound rs p = i"
proof -
  have "end_ptr (rs ! j) \<le> r_ptr (rs ! i)" if "j < i" for j
    using assms(1,2) that by (auto simp: regions_ok_def sorted_wrt_iff_nth_less)
  then have "takeWhile (\<lambda>r. \<not> p < end_ptr r) rs = take i rs"
    using assms(3,4) by (intro takeWhile_eq_take_P_nth) (auto, meson le_trans not_le)
  then show ?thesis using assms(2) by (simp add: upper_bound_def)
qed

lemma addressable_nth:
  assumes "regions_ok rs" "addressable rs p"
  obtains i where "i < length rs" "in_region (rs ! i) p" "RegionFor rs p = Some i"
proof -
  from assms(2) obtain i where i: "i < length rs" "in_region (rs ! i) p"
    by (auto simp: addressable_def in_set_conv_nth)
  then have "RegionFor rs p = Some i"
    using upper_bound_nth [OF assms(1), of i p] by (auto simp: RegionFor_def in_region_def)
  with i show thesis by (rule that)
qed

section \<open>The table as a map from addresses to handles\<close>

text \<open>
  What the allocator relies on: on a well-formed table every addressable address can be
  read and written, a write is seen at its own address only and changes neither the
  regions nor the addressable addresses.
\<close>

locale handle_table =
  fixes get :: "'t \<Rightarrow> nat \<Rightarrow> chunk_handle option option"
    and set :: "'t \<Rightarrow> nat \<Rightarrow> chunk_handle option \<Rightarrow> 't option"
    and ok :: "'t \<Rightarrow> bool"
    and dom_addr :: "'t \<Rightarrow> nat \<Rightarrow> bool"
    and bounds :: "'t \<Rightarrow> (nat \<times> nat) list"
  assumes get_defined: "ok t \<Longrightarrow> dom_addr t p \<Longrightarrow> \<exists>h. get t p = Some h"
    and set_defined: "ok t \<Longrightarrow> dom_addr t p \<Longrightarrow> \<exists>t'. set t p h = Some t'"
    and get_set: "ok t \<Longrightarrow> dom_addr t p \<Longrightarrow> dom_addr t q \<Longrightarrow> set t p h = Some t' \<Longrightarrow>
      get t' q = (if p = q then Some h else get t q)"
    and set_ok: "ok t \<Longrightarrow> dom_addr t p \<Longrightarrow> set t p h = Some t' \<Longrightarrow> ok t'"
    and set_dom: "ok t \<Longrightarrow> dom_addr t p \<Longrightarrow> set t p h = Some t' \<Longrightarrow> dom_addr t' q = dom_addr t q"
    and set_bounds: "ok t \<Longrightarrow> dom_addr t p \<Longrightarrow> set t p h = Some t' \<Longrightarrow> bounds t' = bounds t"
begin

lemma set_obtain:
  assumes "ok t" "dom_addr t p"
  obtains t' where "set t p h = Some t'" "ok t'" "dom_addr t' = dom_addr t" "bounds t' = bounds t"
    and "\<And>q. dom_addr t q \<Longrightarrow> get t' q = (if p = q then Some h else get t q)"
proof -
  from set_defined [OF assms] obtain t' where t': "set t p h = Some t'" by blast
  show thesis
    by (rule that [OF t' set_ok [OF assms t'] _ set_bounds [OF assms t']])
      (use get_set [OF assms _ t'] set_dom [OF assms t'] in auto)
qed

end

definition region_bounds :: "region list \<Rightarrow> (nat \<times> nat) list" where
  "region_bounds rs = map (\<lambda>r. (r_ptr r, memory_size r)) rs"

definition handle_update ::
  "region list \<Rightarrow> nat \<Rightarrow> chunk_handle option \<Rightarrow> region list \<Rightarrow> nat \<Rightarrow> region \<Rightarrow> bool" where
  "handle_update rs p h rs' i r' \<longleftrightarrow> i < length rs \<and> in_region (rs ! i) p \<and> rs' = rs[i := r'] \<and>
     r_ptr r' = r_ptr (rs ! i) \<and> end_ptr r' = end_ptr (rs ! i) \<and>
     memory_size r' = memory_size (rs ! i) \<and> region_ok r' \<and> regions_ok rs' \<and>
     (\<forall>q. in_region (rs ! i) q \<longrightarrow>
        region_get_handle r' q = (if p = q then Some h else region_get_handle (rs ! i) q))"

lemma set_handle_update:
  assumes "regions_ok rs" "addressable rs p" "set_handle rs p h = Some rs'"
  shows "\<exists>i r'. handle_update rs p h rs' i r'"
proof -
  obtain i where i: "i < length rs" "in_region (rs ! i) p" "RegionFor rs p = Some i"
    using assms(1,2) by (rule addressable_nth)
  obtain r' where r': "region_set_handle (rs ! i) p h = Some r'" "r_ptr r' = r_ptr (rs ! i)"
    "end_ptr r' = end_ptr (rs ! i)" "memory_size r' = memory_size (rs ! i)" "region_ok r'"
    "\<forall>q. in_region (rs ! i) q \<longrightarrow>
       region_get_handle r' q = (if p = q then Some h else region_get_handle (rs ! i) q)"
    using region_get_set [OF regions_ok_nth [OF assms(1) i(1)] i(2), of h] by blast
  have rs': "rs' = rs[i := r']" using assms(3) i(3) r'(1) by (simp add: set_handle_def)
  have "regions_ok rs'"
    using assms(1) i(1) r'(2,3,5) unfolding rs' regions_ok_def
    by (auto simp: list_all_length nth_list_update sorted_wrt_iff_nth_less)
  with i r' rs' show ?thesis unfolding handle_update_def by blast
qed

lemma get_handle_addressable:
  assumes "regions_ok rs" "i < length rs" "in_region (rs ! i) q"
  shows "get_handle rs q = region_get_handle (rs ! i) q"
  using upper_bound_nth [OF assms(1,2), of q] assms(2,3)
  by (simp add: get_handle_def RegionFor_def in_region_def)

lemma in_region_cong:
  "r_ptr r' = r_ptr r \<Longrightarrow> end_ptr r' = end_ptr r \<Longrightarrow> in_region r' q = in_region r q"
  by (simp add: in_region_def)

interpretation region_table: handle_table get_handle set_handle regions_ok addressable region_bounds
proof
  fix rs p h assume a: "regions_ok rs" "addressable rs p"
  then obtain i where i: "i < length rs" "in_region (rs ! i) p" "RegionFor rs p = Some i"
    by (rule addressable_nth)
  have ok: "region_ok (rs ! i)" using a(1) i(1) by (rule regions_ok_nth)
  show "\<exists>h. get_handle rs p = Some h"
    using IndexFor_in_region [OF ok i(2)] i(3) by (simp add: get_handle_def region_get_handle_def)
  show "\<exists>rs'. set_handle rs p h = Some rs'"
    using IndexFor_in_region [OF ok i(2)] i(3) by (simp add: set_handle_def region_set_handle_def)
next
  fix rs p q h rs'
  assume a: "regions_ok rs" "addressable rs p" "addressable rs q" "set_handle rs p h = Some rs'"
  obtain i r' where u: "handle_update rs p h rs' i r'"
    using set_handle_update [OF a(1,2,4)] by blast
  from a(1,3) obtain j where j: "j < length rs" "in_region (rs ! j) q" by (rule addressable_nth)
  have q': "in_region (rs' ! j) q" and j': "j < length rs'" and ok': "regions_ok rs'"
    using j u by (auto simp: handle_update_def nth_list_update in_region_def)
  note gets = get_handle_addressable [OF ok' j' q'] get_handle_addressable [OF a(1) j]
  have "i = j" if "p = q"
    using upper_bound_nth [OF a(1), of i p] upper_bound_nth [OF a(1) j(1), of q] u j(2) that
    by (auto simp: handle_update_def in_region_def)
  then show "get_handle rs' q = (if p = q then Some h else get_handle rs q)"
    unfolding gets using u j by (auto simp: handle_update_def nth_list_update)
next
  fix rs p h rs' q
  assume a: "regions_ok rs" "addressable rs p" "set_handle rs p h = Some rs'"
  obtain i r' where u: "handle_update rs p h rs' i r'"
    using set_handle_update [OF a] by blast
  show "regions_ok rs'" using u unfolding handle_update_def by blast
  have "in_region (rs' ! k) q = in_region (rs ! k) q" for k
    using u by (cases "k = i") (auto simp: handle_update_def in_region_def)
  moreover have "length rs' = length rs" using u by (simp add: handle_update_def)
  ultimately show "addressable rs' q = addressable rs q"
    by (simp add: addressable_def in_set_conv_nth Bex_def) metis
  show "region_bounds rs' = region_bounds rs"
    using u by (auto simp: handle_update_def region_bounds_def nth_list_update intro!: nth_equalityI)
qed

section \<open>Adding a region\<close>

lemma AddAllocationRegion_set:
  "set (AddAllocationRegion rs p n) = insert (AllocationRegion p n) (set rs)"
proof -
  have "set rs = set (take (upper_bound rs p) rs) \<union> set (drop (upper_bound rs p) rs)"
    by (metis append_take_drop_id set_append)
  then show ?thesis by (auto simp: AddAllocationRegion_def Let_def)
qed

text \<open>A block the sub-allocator may hand out: of a legal size and apart from every region.\<close>

definition fresh_block :: "region list \<Rightarrow> nat \<Rightarrow> nat \<Rightarrow> bool" where
  "fresh_block rs p n \<longleftrightarrow> 0 < n \<and> 256 dvd n \<and> n \<le> 2 ^ 39 \<and> p + n < 2 ^ 64 \<and>
     (\<forall>r \<in> set rs. p + n \<le> r_ptr r \<or> end_ptr r \<le> p)"

lemma region_ok_AllocationRegion:
  "0 < n \<Longrightarrow> 256 dvd n \<Longrightarrow> n \<le> 2 ^ 39 \<Longrightarrow> p + n < 2 ^ 64 \<Longrightarrow> region_ok (AllocationRegion p n)"
  by (auto simp: region_ok_def AllocationRegion_def elim!: dvdE)

lemma regions_ok_Add:
  assumes "regions_ok rs" "fresh_block rs p n"
  shows "regions_ok (AddAllocationRegion rs p n)"
proof -
  let ?u = "upper_bound rs p" and ?P = "\<lambda>r. \<not> p < end_ptr r"
  have tw: "take ?u rs = takeWhile ?P rs" "drop ?u rs = dropWhile ?P rs"
    by (simp_all add: upper_bound_def takeWhile_eq_take dropWhile_eq_drop flip: takeWhile_eq_take)
  have sorted: "sorted_wrt (\<lambda>r r'. end_ptr r \<le> r_ptr r') (takeWhile ?P rs @ dropWhile ?P rs)"
    using assms(1) by (simp add: regions_ok_def)
  have pos: "r_ptr r < end_ptr r" if "r \<in> set rs" for r
    using assms(1) that by (auto simp: regions_ok_def region_ok_def list_all_iff)
  have before: "end_ptr r \<le> p" if "r \<in> set (takeWhile ?P rs)" for r
    using set_takeWhileD [OF that] by simp
  have after: "p + n \<le> r_ptr r" if r: "r \<in> set (dropWhile ?P rs)" for r
  proof -
    obtain x xs where x: "dropWhile ?P rs = x # xs" using r by (cases "dropWhile ?P rs") auto
    then have "x \<in> set rs" "p < end_ptr x"
      using set_dropWhileD [of x ?P rs] hd_dropWhile [of ?P rs] by auto
    then have "p + n \<le> r_ptr x" using assms(2) by (auto simp: fresh_block_def)
    moreover have "r_ptr x \<le> r_ptr r"
      using r x sorted pos [OF \<open>x \<in> set rs\<close>] by (auto simp: sorted_wrt_append) 
    ultimately show ?thesis by simp
  qed
  have "list_all region_ok (AddAllocationRegion rs p n)"
    using assms region_ok_AllocationRegion [of n p] AddAllocationRegion_set [of rs p n]
    by (auto simp: regions_ok_def fresh_block_def list_all_iff)
  moreover have "sorted_wrt (\<lambda>r r'. end_ptr r \<le> r_ptr r') (AddAllocationRegion rs p n)"
    using sorted before after le_trans [OF before order_trans [OF le_add1 after]]
    unfolding AddAllocationRegion_def Let_def tw sorted_wrt_append
    by (auto simp: AllocationRegion_def)
  ultimately show ?thesis by (simp add: regions_ok_def)
qed

lemma addressable_Add:
  "addressable (AddAllocationRegion rs p n) q \<longleftrightarrow>
   addressable rs q \<or> in_region (AllocationRegion p n) q"
  by (auto simp: addressable_def AddAllocationRegion_set)

lemma get_handle_mem:
  assumes "regions_ok rs" "r \<in> set rs" "in_region r q"
  shows "get_handle rs q = region_get_handle r q"
  using assms get_handle_addressable [OF assms(1)] by (auto simp: in_set_conv_nth)

lemma get_handle_Add:
  assumes "regions_ok rs" "fresh_block rs p n"
  shows "addressable rs q \<Longrightarrow> get_handle (AddAllocationRegion rs p n) q = get_handle rs q"
    and "in_region (AllocationRegion p n) q \<Longrightarrow>
      \<not> addressable rs q \<and> get_handle (AddAllocationRegion rs p n) q = Some None"
proof -
  note ok' = regions_ok_Add [OF assms]
  show "get_handle (AddAllocationRegion rs p n) q = get_handle rs q" if "addressable rs q"
    using that get_handle_mem [OF ok', of _ q] get_handle_mem [OF assms(1), of _ q]
    by (auto simp: addressable_def AddAllocationRegion_set)
  assume q: "in_region (AllocationRegion p n) q"
  have ok: "region_ok (AllocationRegion p n)"
    using assms(2) region_ok_AllocationRegion by (auto simp: fresh_block_def)
  have "region_get_handle (AllocationRegion p n) q = Some None"
    using IndexFor_in_region [OF ok q] by (simp add: region_get_handle_def AllocationRegion_def)
  then have "get_handle (AddAllocationRegion rs p n) q = Some None"
    using get_handle_mem [OF ok' _ q] by (simp add: AddAllocationRegion_set)
  moreover have "\<not> addressable rs q"
    using assms(2) q by (fastforce simp: addressable_def in_region_def fresh_block_def AllocationRegion_def)
  ultimately show "\<not> addressable rs q \<and> get_handle (AddAllocationRegion rs p n) q = Some None" by blast
qed

end
