(* ===== verification/Bfc_Allocator.thy ===== *)
theory Bfc_Allocator
  imports Bfc_Region
begin

text \<open>
  \<open>BFCAllocator\<close> of \<^verbatim>\<open>core/common_runtime/bfc_allocator.cc\<close> and
  \<^verbatim>\<open>bfc_allocator.h\<close>: the best-fit-with-coalescing allocator. The record
  \<open>bfc\<close> holds the fields of the class; every method is a function on it. Results of
  type \<open>'a option\<close> are \<open>None\<close> where the process aborts on a \<open>CHECK\<close>, indexes the chunk
  vector out of range or does not return. \<open>DCHECK\<close>s, logging and the region visitors
  are left out. \<open>size_t\<close> arithmetic that can wrap is written with \<open>mod 2 ^ 64\<close>.
  The sub-allocator is code outside the class hierarchy modelled here: its \<open>Alloc\<close> is
  the argument \<open>sub_alloc\<close>, which may change the sub-allocator's own state.
\<close>

section \<open>Sizes and bins\<close>

abbreviation (input) kNumBins :: nat where "kNumBins \<equiv> 21"

definition RoundedBytes :: "nat \<Rightarrow> nat" where
  "RoundedBytes bytes =
     kMinAllocationSize * ((bytes + kMinAllocationSize - 1) mod 2 ^ 64 div kMinAllocationSize)"

text \<open>
  The position of the highest set bit, and GCC's builtin that counts leading zeros of a
  non-zero 64-bit value.
\<close>

fun log2_floor :: "nat \<Rightarrow> nat" where
  "log2_floor n = (if n < 2 then 0 else Suc (log2_floor (n div 2)))"

declare log2_floor.simps [simp del]

definition builtin_clzll :: "nat \<Rightarrow> nat" where
  "builtin_clzll n = 63 - log2_floor n"

definition Log2FloorNonZero :: "nat \<Rightarrow> nat" where
  "Log2FloorNonZero n = 63 XOR builtin_clzll n"

text \<open>The branch of \<open>Log2FloorNonZero\<close> for other compilers.\<close>

fun Log2FloorNonZero_portable_loop :: "nat \<Rightarrow> nat \<Rightarrow> nat" where
  "Log2FloorNonZero_portable_loop n r =
     (if n > 0 then Log2FloorNonZero_portable_loop (n div 2) (r + 1) else r)"

declare Log2FloorNonZero_portable_loop.simps [simp del]

definition Log2FloorNonZero_portable :: "nat \<Rightarrow> nat" where
  "Log2FloorNonZero_portable n = Log2FloorNonZero_portable_loop n 0"

definition BinNumToSize :: "nat \<Rightarrow> nat" where
  "BinNumToSize index = 256 * 2 ^ index"

definition BinNumForSize :: "nat \<Rightarrow> nat" where
  "BinNumForSize bytes =
     (let v = max bytes 256 div 2 ^ kMinAllocationBits in min (kNumBins - 1) (Log2FloorNonZero v))"

section \<open>State\<close>

record chunk =
  c_size :: nat
  requested_size :: nat
  allocation_id :: int
  c_ptr :: nat
  c_prev :: "chunk_handle option"
  c_next :: "chunk_handle option"
  bin_num :: "nat option"

definition new_Chunk :: chunk where
  "new_Chunk = \<lparr>c_size = 0, requested_size = 0, allocation_id = -1, c_ptr = 0,
     c_prev = None, c_next = None, bin_num = None\<rparr>"

definition in_use :: "chunk \<Rightarrow> bool" where
  "in_use c \<longleftrightarrow> allocation_id c \<noteq> -1"

record allocator_stats =
  num_allocs :: int
  bytes_in_use :: int
  max_bytes_in_use :: int
  max_alloc_size :: int
  bytes_limit :: int

record 's bfc =
  suballocator :: 's
  memory_limit :: nat
  curr_region_allocation_bytes :: nat
  total_region_allocated_bytes :: nat
  started_backpedal :: bool
  regions :: "region list"
  chunks :: "chunk list"
  free_chunks_list :: "chunk_handle option"
  bins :: "nat \<Rightarrow> chunk_handle list"
  next_allocation_id :: int
  stats :: allocator_stats

text \<open>The constructor, with the \<open>CHECK\<close>s it makes on its bin arithmetic.\<close>

definition bin_checks :: "nat \<Rightarrow> bool" where
  "bin_checks b =
     (let bin_size = BinNumToSize b in
      BinNumForSize bin_size = b \<and> BinNumForSize (bin_size + 255) = b \<and>
      BinNumForSize (bin_size * 2 - 1) = b \<and>
      (b + 1 < kNumBins \<longrightarrow> BinNumForSize (bin_size * 2) \<noteq> b))"

definition BFCAllocator :: "'s \<Rightarrow> nat \<Rightarrow> bool \<Rightarrow> 's bfc option" where
  "BFCAllocator sub total_memory allow_growth =
     (if list_all bin_checks [0..<kNumBins] then
        Some \<lparr>suballocator = sub, memory_limit = total_memory,
          curr_region_allocation_bytes =
            (if allow_growth then RoundedBytes (min total_memory 1048576)
             else RoundedBytes total_memory),
          total_region_allocated_bytes = 0, started_backpedal = False, regions = [],
          chunks = [], free_chunks_list = None, bins = (\<lambda>_. []), next_allocation_id = 1,
          stats = \<lparr>num_allocs = 0, bytes_in_use = 0, max_bytes_in_use = 0,
                   max_alloc_size = 0, bytes_limit = int total_memory\<rparr>\<rparr>
      else None)"

section \<open>Chunk handles and bins\<close>

definition ChunkFromHandle :: "'s bfc \<Rightarrow> chunk_handle \<Rightarrow> chunk option" where
  "ChunkFromHandle s h = (if h < length (chunks s) then Some (chunks s ! h) else None)"

text \<open>A write through the pointer \<open>ChunkFromHandle\<close> returned.\<close>

definition write_chunk :: "chunk_handle \<Rightarrow> (chunk \<Rightarrow> chunk) \<Rightarrow> 's bfc \<Rightarrow> 's bfc" where
  "write_chunk h f s = s\<lparr>chunks := (chunks s)[h := f (chunks s ! h)]\<rparr>"

definition AllocateChunk :: "'s bfc \<Rightarrow> (chunk_handle \<times> 's bfc) option" where
  "AllocateChunk s =
     (case free_chunks_list s of
        Some h \<Rightarrow> do {
          c \<leftarrow> ChunkFromHandle s h;
          Some (h, s\<lparr>free_chunks_list := c_next c\<rparr>)
        }
      | None \<Rightarrow> Some (length (chunks s), s\<lparr>chunks := chunks s @ [new_Chunk]\<rparr>))"

definition DeallocateChunk :: "'s bfc \<Rightarrow> chunk_handle \<Rightarrow> 's bfc option" where
  "DeallocateChunk s h = do {
     c \<leftarrow> ChunkFromHandle s h;
     let s = write_chunk h (\<lambda>c. c\<lparr>c_next := free_chunks_list s\<rparr>) s;
     Some (s\<lparr>free_chunks_list := Some h\<rparr>)
   }"

text \<open>
  A bin is a \<open>std::set\<close> of handles ordered by size and then address: the list of its
  elements in iteration order. \<open>insert\<close> leaves an equivalent element in place and
  \<open>erase\<close> by key removes the elements equivalent to the key.
\<close>

definition ChunkComparator :: "chunk list \<Rightarrow> chunk_handle \<Rightarrow> chunk_handle \<Rightarrow> bool" where
  "ChunkComparator cs ha hb =
     (let a = cs ! ha; b = cs ! hb in
      if c_size a \<noteq> c_size b then c_size a < c_size b else c_ptr a < c_ptr b)"

fun set_insert :: "(chunk_handle \<Rightarrow> chunk_handle \<Rightarrow> bool) \<Rightarrow> chunk_handle \<Rightarrow> chunk_handle list \<Rightarrow> chunk_handle list" where
  "set_insert lt h [] = [h]"
| "set_insert lt h (x # xs) =
     (if lt h x then h # x # xs else if lt x h then x # set_insert lt h xs else x # xs)"

definition set_erase :: "(chunk_handle \<Rightarrow> chunk_handle \<Rightarrow> bool) \<Rightarrow> chunk_handle \<Rightarrow> chunk_handle list \<Rightarrow> chunk_handle list" where
  "set_erase lt h xs = filter (\<lambda>x. lt x h \<or> lt h x) xs"

definition InsertFreeChunkIntoBin :: "'s bfc \<Rightarrow> chunk_handle \<Rightarrow> 's bfc option" where
  "InsertFreeChunkIntoBin s h = do {
     c \<leftarrow> ChunkFromHandle s h;
     if in_use c \<or> bin_num c \<noteq> None then None
     else do {
       let b = BinNumForSize (c_size c);
       let s = write_chunk h (\<lambda>c. c\<lparr>bin_num := Some b\<rparr>) s;
       Some (s\<lparr>bins := (bins s)(b := set_insert (ChunkComparator (chunks s)) h (bins s b))\<rparr>)
     }
   }"

text \<open>Removal at an iterator of bin \<open>b\<close>, and removal by key.\<close>

definition RemoveFreeChunkIterFromBin :: "'s bfc \<Rightarrow> nat \<Rightarrow> chunk_handle \<Rightarrow> 's bfc option" where
  "RemoveFreeChunkIterFromBin s b h = do {
     c \<leftarrow> ChunkFromHandle s h;
     if in_use c \<or> bin_num c = None then None
     else Some (write_chunk h (\<lambda>c. c\<lparr>bin_num := None\<rparr>)
                  (s\<lparr>bins := (bins s)(b := remove1 h (bins s b))\<rparr>))
   }"

definition RemoveFreeChunkFromBin :: "'s bfc \<Rightarrow> chunk_handle \<Rightarrow> 's bfc option" where
  "RemoveFreeChunkFromBin s h = do {
     c \<leftarrow> ChunkFromHandle s h;
     b \<leftarrow> bin_num c;
     let left = set_erase (ChunkComparator (chunks s)) h (bins s b);
     if in_use c \<or> length left = length (bins s b) then None
     else Some (write_chunk h (\<lambda>c. c\<lparr>bin_num := None\<rparr>) (s\<lparr>bins := (bins s)(b := left)\<rparr>))
   }"

section \<open>Splitting, merging, extending\<close>

definition SplitChunk :: "'s bfc \<Rightarrow> chunk_handle \<Rightarrow> nat \<Rightarrow> 's bfc option" where
  "SplitChunk s h num_bytes = do {
     (h_new_chunk, s) \<leftarrow> AllocateChunk s;
     c \<leftarrow> ChunkFromHandle s h;
     if in_use c \<or> bin_num c \<noteq> None then None
     else do {
       let new_ptr = c_ptr c + num_bytes;
       let s = write_chunk h_new_chunk (\<lambda>n. n\<lparr>c_ptr := new_ptr\<rparr>) s;
       rs \<leftarrow> set_handle (regions s) new_ptr (Some h_new_chunk);
       let s = s\<lparr>regions := rs\<rparr>;
       let s = write_chunk h_new_chunk (\<lambda>n. n\<lparr>c_size := c_size c - num_bytes\<rparr>) s;
       let s = write_chunk h (\<lambda>c. c\<lparr>c_size := num_bytes\<rparr>) s;
       let s = write_chunk h_new_chunk (\<lambda>n. n\<lparr>allocation_id := -1\<rparr>) s;
       let h_neighbor = c_next c;
       let s = write_chunk h_new_chunk (\<lambda>n. n\<lparr>c_prev := Some h, c_next := h_neighbor\<rparr>) s;
       let s = write_chunk h (\<lambda>c. c\<lparr>c_next := Some h_new_chunk\<rparr>) s;
       s \<leftarrow> (case h_neighbor of
              None \<Rightarrow> Some s
            | Some hb \<Rightarrow> do {
                c_neighbor \<leftarrow> ChunkFromHandle s hb;
                Some (write_chunk hb (\<lambda>c. c\<lparr>c_prev := Some h_new_chunk\<rparr>) s)
              });
       InsertFreeChunkIntoBin s h_new_chunk
     }
   }"

definition DeleteChunk :: "'s bfc \<Rightarrow> chunk_handle \<Rightarrow> 's bfc option" where
  "DeleteChunk s h = do {
     c \<leftarrow> ChunkFromHandle s h;
     rs \<leftarrow> erase_handle (regions s) (c_ptr c);
     DeallocateChunk (s\<lparr>regions := rs\<rparr>) h
   }"

definition Merge :: "'s bfc \<Rightarrow> chunk_handle \<Rightarrow> chunk_handle \<Rightarrow> 's bfc option" where
  "Merge s h1 h2 = do {
     c1 \<leftarrow> ChunkFromHandle s h1;
     c2 \<leftarrow> ChunkFromHandle s h2;
     if in_use c1 \<or> in_use c2 then None
     else do {
       let h3 = c_next c2;
       let s = write_chunk h1 (\<lambda>c. c\<lparr>c_next := h3\<rparr>) s;
       if c_prev c2 \<noteq> Some h1 then None
       else do {
         s \<leftarrow> (case h3 of
                None \<Rightarrow> Some s
              | Some h3 \<Rightarrow> do {
                  c3 \<leftarrow> ChunkFromHandle s h3;
                  Some (write_chunk h3 (\<lambda>c. c\<lparr>c_prev := Some h1\<rparr>) s)
                });
         let s = write_chunk h1 (\<lambda>c. c\<lparr>c_size := c_size c + c_size c2\<rparr>) s;
         DeleteChunk s h2
       }
     }
   }"

text \<open>The two coalescing blocks of \<open>FreeAndMaybeCoalesce\<close>.\<close>

definition coalesce_next :: "'s bfc \<Rightarrow> chunk_handle \<Rightarrow> 's bfc option" where
  "coalesce_next s h = do {
     c \<leftarrow> ChunkFromHandle s h;
     (case c_next c of
        None \<Rightarrow> Some s
      | Some hn \<Rightarrow> do {
          cnext \<leftarrow> ChunkFromHandle s hn;
          if \<not> in_use cnext then do {
            s \<leftarrow> RemoveFreeChunkFromBin s hn;
            c \<leftarrow> ChunkFromHandle s h;
            hn' \<leftarrow> c_next c;
            Merge s h hn'
          } else Some s
        })
   }"

definition coalesce_prev :: "'s bfc \<Rightarrow> chunk_handle \<Rightarrow> (chunk_handle \<times> 's bfc) option" where
  "coalesce_prev s h = do {
     c \<leftarrow> ChunkFromHandle s h;
     (case c_prev c of
        None \<Rightarrow> Some (h, s)
      | Some hp \<Rightarrow> do {
          cprev \<leftarrow> ChunkFromHandle s hp;
          if \<not> in_use cprev then do {
            s \<leftarrow> RemoveFreeChunkFromBin s hp;
            c \<leftarrow> ChunkFromHandle s h;
            hp' \<leftarrow> c_prev c;
            s \<leftarrow> Merge s hp' h;
            Some (hp, s)
          } else Some (h, s)
        })
   }"

definition FreeAndMaybeCoalesce :: "'s bfc \<Rightarrow> chunk_handle \<Rightarrow> 's bfc option" where
  "FreeAndMaybeCoalesce s h = do {
     c \<leftarrow> ChunkFromHandle s h;
     if \<not> in_use c \<or> bin_num c \<noteq> None then None
     else do {
       let s = write_chunk h (\<lambda>c. c\<lparr>allocation_id := -1\<rparr>) s;
       let s = s\<lparr>stats := (stats s)\<lparr>bytes_in_use := bytes_in_use (stats s) - int (c_size c)\<rparr>\<rparr>;
       s \<leftarrow> coalesce_next s h;
       (chunk_to_reassign, s) \<leftarrow> coalesce_prev s h;
       InsertFreeChunkIntoBin s chunk_to_reassign
     }
   }"

section \<open>Growing the arena\<close>

text \<open>
  Single-precision arithmetic on sizes. \<open>round_float\<close> rounds a natural number to the 24
  significant bits of a \<open>float\<close> (to nearest, ties to even); the factor \<open>0.9f\<close> is
  \<open>15099494 / 2 ^ 24\<close>. The product is rounded to \<open>float\<close> and truncated when it is
  converted back to \<open>size_t\<close>.
\<close>

definition round_float :: "nat \<Rightarrow> nat" where
  "round_float n =
     (if n < 2 ^ 24 then n
      else let e = log2_floor n - 23; q = n div 2 ^ e; r = n mod 2 ^ e in
        if 2 * r > 2 ^ e \<or> (2 * r = 2 ^ e \<and> odd q) then (q + 1) * 2 ^ e else q * 2 ^ e)"

definition times_kBackpedalFactor :: "nat \<Rightarrow> nat" where
  "times_kBackpedalFactor bytes = round_float (round_float bytes * 15099494) div 2 ^ 24"

partial_function (option) grow_loop :: "nat \<Rightarrow> nat \<Rightarrow> nat option" where
  "grow_loop rounded_bytes cur =
     (if rounded_bytes > cur then grow_loop rounded_bytes (cur * 2 mod 2 ^ 64) else Some cur)"

partial_function (option) backpedal_loop ::
  "('s \<Rightarrow> nat \<Rightarrow> nat option \<times> 's) \<Rightarrow> nat \<Rightarrow> nat option \<Rightarrow> nat \<Rightarrow> 's \<Rightarrow> (nat option \<times> nat \<times> 's) option" where
  "backpedal_loop sub_alloc rounded_bytes mem_addr bytes sub =
     (if mem_addr = None \<and> bytes > rounded_bytes then
        backpedal_loop sub_alloc rounded_bytes (fst (sub_alloc sub bytes))
          (RoundedBytes (times_kBackpedalFactor bytes)) (snd (sub_alloc sub bytes))
      else Some (mem_addr, bytes, sub))"

declare grow_loop.simps [code] backpedal_loop.simps [code]

text \<open>
  The part of \<open>Extend\<close> that obtains memory: the address, if any, the number of bytes the
  region will have, and the state with the sub-allocator and \<open>started_backpedal_\<close>.
\<close>

definition obtain_memory ::
  "('s \<Rightarrow> nat \<Rightarrow> nat option \<times> 's) \<Rightarrow> 's bfc \<Rightarrow> nat \<Rightarrow> nat \<Rightarrow> (nat option \<times> nat \<times> 's bfc) option" where
  "obtain_memory sub_alloc s rounded_bytes bytes = do {
     let (mem_addr, sub) = sub_alloc (suballocator s) bytes;
     let s = s\<lparr>suballocator := sub\<rparr>;
     if mem_addr = None \<and> \<not> started_backpedal s then do {
       let s = s\<lparr>started_backpedal := True\<rparr>;
       let bytes = RoundedBytes (times_kBackpedalFactor bytes);
       (mem_addr, bytes, sub) \<leftarrow> backpedal_loop sub_alloc rounded_bytes mem_addr bytes (suballocator s);
       Some (mem_addr, bytes, s\<lparr>suballocator := sub\<rparr>)
     } else Some (mem_addr, bytes, s)
   }"

text \<open>The part of \<open>Extend\<close> that records the new region as one free chunk.\<close>

definition add_region_chunk :: "'s bfc \<Rightarrow> nat \<Rightarrow> nat \<Rightarrow> 's bfc option" where
  "add_region_chunk s mem_addr bytes = do {
     let s = s\<lparr>regions := AddAllocationRegion (regions s) mem_addr bytes\<rparr>;
     (h, s) \<leftarrow> AllocateChunk s;
     let s = write_chunk h (\<lambda>c. c\<lparr>c_ptr := mem_addr, c_size := bytes, allocation_id := -1,
                                   c_prev := None, c_next := None\<rparr>) s;
     rs \<leftarrow> set_handle (regions s) mem_addr (Some h);
     InsertFreeChunkIntoBin (s\<lparr>regions := rs\<rparr>) h
   }"

definition Extend ::
  "('s \<Rightarrow> nat \<Rightarrow> nat option \<times> 's) \<Rightarrow> 's bfc \<Rightarrow> nat \<Rightarrow> (bool \<times> 's bfc) option" where
  "Extend sub_alloc s rounded_bytes = do {
     let available_bytes = (memory_limit s + 2 ^ 64 - total_region_allocated_bytes s) mod 2 ^ 64;
     let available_bytes = available_bytes div kMinAllocationSize * kMinAllocationSize;
     if rounded_bytes > available_bytes then Some (False, s)
     else do {
       let increased_allocation = (rounded_bytes > curr_region_allocation_bytes s);
       cur \<leftarrow> grow_loop rounded_bytes (curr_region_allocation_bytes s);
       let s = s\<lparr>curr_region_allocation_bytes := cur\<rparr>;
       (mem_addr, bytes, s) \<leftarrow> obtain_memory sub_alloc s rounded_bytes (min cur available_bytes);
       (case mem_addr of
          None \<Rightarrow> Some (False, s)
        | Some mem_addr \<Rightarrow> do {
            let s = (if increased_allocation then s
                     else s\<lparr>curr_region_allocation_bytes := cur * 2 mod 2 ^ 64\<rparr>);
            let s = s\<lparr>total_region_allocated_bytes :=
                        (total_region_allocated_bytes s + bytes) mod 2 ^ 64\<rparr>;
            s \<leftarrow> add_region_chunk s mem_addr bytes;
            Some (True, s)
          })
     }
   }"

section \<open>Allocation and deallocation\<close>

text \<open>The nested loop of \<open>FindChunkPtr\<close>: the first fitting chunk of the first bin that has one.\<close>

fun search_bins :: "'s bfc \<Rightarrow> nat \<Rightarrow> nat list \<Rightarrow> (nat \<times> chunk_handle) option" where
  "search_bins s rounded_bytes [] = None"
| "search_bins s rounded_bytes (b # bs) =
     (case List.find (\<lambda>h. c_size (chunks s ! h) \<ge> rounded_bytes) (bins s b) of
        Some h \<Rightarrow> Some (b, h)
      | None \<Rightarrow> search_bins s rounded_bytes bs)"

text \<open>The tail of \<open>FindChunkPtr\<close>, once the chunk has been taken out of its bin and split.\<close>

definition grant_chunk :: "'s bfc \<Rightarrow> chunk_handle \<Rightarrow> nat \<Rightarrow> (nat option \<times> 's bfc) option" where
  "grant_chunk s h num_bytes = do {
     c \<leftarrow> ChunkFromHandle s h;
     let s = write_chunk h (\<lambda>c. c\<lparr>requested_size := num_bytes\<rparr>) s;
     let s = write_chunk h (\<lambda>c. c\<lparr>allocation_id := next_allocation_id s\<rparr>) s;
     let s = s\<lparr>next_allocation_id := next_allocation_id s + 1\<rparr>;
     let st = stats s;
     let st = st\<lparr>num_allocs := num_allocs st + 1\<rparr>;
     let st = st\<lparr>bytes_in_use := bytes_in_use st + int (c_size c)\<rparr>;
     let st = st\<lparr>max_bytes_in_use := max (max_bytes_in_use st) (bytes_in_use st)\<rparr>;
     let st = st\<lparr>max_alloc_size := max (max_alloc_size st) (int (c_size c))\<rparr>;
     Some (Some (c_ptr c), s\<lparr>stats := st\<rparr>)
   }"

definition FindChunkPtr :: "'s bfc \<Rightarrow> nat \<Rightarrow> nat \<Rightarrow> nat \<Rightarrow> (nat option \<times> 's bfc) option" where
  "FindChunkPtr s b rounded_bytes num_bytes =
     (case search_bins s rounded_bytes [b..<kNumBins] of
        None \<Rightarrow> Some (None, s)
      | Some (b, h) \<Rightarrow> do {
          s \<leftarrow> RemoveFreeChunkIterFromBin s b h;
          c \<leftarrow> ChunkFromHandle s h;
          s \<leftarrow> (if c_size c \<ge> rounded_bytes * 2 mod 2 ^ 64 then SplitChunk s h rounded_bytes else Some s);
          grant_chunk s h num_bytes
        })"

definition AllocateRawInternal ::
  "('s \<Rightarrow> nat \<Rightarrow> nat option \<times> 's) \<Rightarrow> 's bfc \<Rightarrow> nat \<Rightarrow> (nat option \<times> 's bfc) option" where
  "AllocateRawInternal sub_alloc s num_bytes =
     (if num_bytes = 0 then Some (None, s)
      else do {
        let rounded_bytes = RoundedBytes num_bytes;
        let b = BinNumForSize rounded_bytes;
        (ptr, s) \<leftarrow> FindChunkPtr s b rounded_bytes num_bytes;
        if ptr \<noteq> None then Some (ptr, s)
        else do {
          (extended, s) \<leftarrow> Extend sub_alloc s rounded_bytes;
          if extended then FindChunkPtr s b rounded_bytes num_bytes else Some (None, s)
        }
      })"

definition DeallocateRawInternal :: "'s bfc \<Rightarrow> nat option \<Rightarrow> 's bfc option" where
  "DeallocateRawInternal s ptr =
     (case ptr of
        None \<Rightarrow> Some s
      | Some p \<Rightarrow> do {
          ho \<leftarrow> get_handle (regions s) p;
          h \<leftarrow> ho;
          FreeAndMaybeCoalesce s h
        })"

text \<open>The queries on an allocated pointer; \<open>None\<close> is the failed \<open>CHECK\<close>.\<close>

definition chunk_of_ptr :: "'s bfc \<Rightarrow> nat \<Rightarrow> chunk option" where
  "chunk_of_ptr s p = do {
     ho \<leftarrow> get_handle (regions s) p;
     h \<leftarrow> ho;
     ChunkFromHandle s h
   }"

definition RequestedSize :: "'s bfc \<Rightarrow> nat \<Rightarrow> nat option" where
  "RequestedSize s p = map_option requested_size (chunk_of_ptr s p)"

definition AllocatedSize :: "'s bfc \<Rightarrow> nat \<Rightarrow> nat option" where
  "AllocatedSize s p = map_option c_size (chunk_of_ptr s p)"

definition AllocationId :: "'s bfc \<Rightarrow> nat \<Rightarrow> int option" where
  "AllocationId s p = map_option allocation_id (chunk_of_ptr s p)"

end
