(* ===== verification/Bfc_Invariant.thy ===== *)
theory Bfc_Invariant
  imports Bfc_Allocator
begin

text \<open>
  The representation invariant of the BFC allocator and its preservation by every
  operation. \<open>L\<close> is the set of handles of the chunks that partition the regions, \<open>X\<close>
  the free chunks that are momentarily in no bin: inside an operation a chunk is taken out
  of its bin, split, merged or granted, and between operations \<open>X\<close> is empty.
\<close>

section \<open>The invariant\<close>

definition links_ok :: "chunk list \<Rightarrow> nat set \<Rightarrow> bool" where
  "links_ok C L \<longleftrightarrow> (\<forall>h \<in> L.
     (\<forall>n. c_next (C ! h) = Some n \<longrightarrow>
        n \<in> L \<and> c_prev (C ! n) = Some h \<and> c_ptr (C ! n) = c_ptr (C ! h) + c_size (C ! h)) \<and>
     (\<forall>p. c_prev (C ! h) = Some p \<longrightarrow> p \<in> L \<and> c_next (C ! p) = Some h))"

definition chunk_in :: "(nat \<times> nat) \<Rightarrow> chunk \<Rightarrow> bool" where
  "chunk_in r c \<longleftrightarrow> fst r \<le> c_ptr c \<and> c_ptr c + c_size c \<le> fst r + snd r \<and> 256 dvd (c_ptr c - fst r) \<and>
     (c_next c = None \<longleftrightarrow> c_ptr c + c_size c = fst r + snd r) \<and> (c_prev c = None \<longleftrightarrow> c_ptr c = fst r)"

definition space_ok :: "(nat \<times> nat) set \<Rightarrow> chunk list \<Rightarrow> nat set \<Rightarrow> bool" where
  "space_ok B C L \<longleftrightarrow> (\<forall>h \<in> L. 0 < c_size (C ! h) \<and> 256 dvd c_size (C ! h) \<and> (\<exists>r \<in> B. chunk_in r (C ! h)))"

definition disjoint_chunks :: "chunk \<Rightarrow> chunk \<Rightarrow> bool" where
  "disjoint_chunks c d \<longleftrightarrow> c_ptr c + c_size c \<le> c_ptr d \<or> c_ptr d + c_size d \<le> c_ptr c"

definition disjoint_ok :: "chunk list \<Rightarrow> nat set \<Rightarrow> bool" where
  "disjoint_ok C L \<longleftrightarrow> (\<forall>h \<in> L. \<forall>k \<in> L. h \<noteq> k \<longrightarrow> disjoint_chunks (C ! h) (C ! k))"

definition table_ok :: "region list \<Rightarrow> chunk list \<Rightarrow> nat set \<Rightarrow> bool" where
  "table_ok rs C L \<longleftrightarrow> (\<forall>h \<in> L. get_handle rs (c_ptr (C ! h)) = Some (Some h)) \<and>
     (\<forall>p k. addressable rs p \<longrightarrow> get_handle rs p = Some (Some k) \<longrightarrow> k \<in> L \<and> c_ptr (C ! k) = p)"

definition bins_ok :: "(nat \<Rightarrow> nat list) \<Rightarrow> chunk list \<Rightarrow> nat set \<Rightarrow> nat set \<Rightarrow> bool" where
  "bins_ok bn C L X \<longleftrightarrow> (\<forall>b. sorted_wrt (ChunkComparator C) (bn b)) \<and>
     (\<forall>b h. h \<in> set (bn b) \<longleftrightarrow>
        h \<in> L \<and> h \<notin> X \<and> \<not> in_use (C ! h) \<and> b = BinNumForSize (c_size (C ! h))) \<and>
     (\<forall>h \<in> L. bin_num (C ! h) =
        (if in_use (C ! h) \<or> h \<in> X then None else Some (BinNumForSize (c_size (C ! h)))))"

definition coalesced :: "chunk list \<Rightarrow> nat set \<Rightarrow> nat set \<Rightarrow> bool" where
  "coalesced C L X \<longleftrightarrow> (\<forall>h \<in> L. \<forall>n. c_next (C ! h) = Some n \<longrightarrow>
     in_use (C ! h) \<or> in_use (C ! n) \<or> h \<in> X \<or> n \<in> X)"

definition ids_ok :: "chunk list \<Rightarrow> nat set \<Rightarrow> int \<Rightarrow> bool" where
  "ids_ok C L nid \<longleftrightarrow> 0 < nid \<and> (\<forall>h \<in> L. in_use (C ! h) \<longrightarrow>
     0 < allocation_id (C ! h) \<and> allocation_id (C ! h) < nid \<and> requested_size (C ! h) \<le> c_size (C ! h)) \<and>
     (\<forall>h \<in> L. \<forall>k \<in> L. in_use (C ! h) \<longrightarrow> in_use (C ! k) \<longrightarrow>
        allocation_id (C ! h) = allocation_id (C ! k) \<longrightarrow> h = k)"

definition used :: "chunk list \<Rightarrow> nat set \<Rightarrow> nat set" where
  "used C L = {h \<in> L. in_use (C ! h)}"

fun chain :: "chunk list \<Rightarrow> nat option \<Rightarrow> nat list \<Rightarrow> bool" where
  "chain C head [] \<longleftrightarrow> head = None"
| "chain C head (h # hs) \<longleftrightarrow> head = Some h \<and> chain C (c_next (C ! h)) hs"

definition free_list_ok :: "chunk list \<Rightarrow> nat option \<Rightarrow> nat set \<Rightarrow> bool" where
  "free_list_ok C head F \<longleftrightarrow> (\<exists>hs. chain C head hs \<and> distinct hs \<and> set hs = F) \<and>
     (\<forall>h \<in> F. h < length C \<and> bin_num (C ! h) = None \<and> \<not> in_use (C ! h))"

definition heap_ok :: "region list \<Rightarrow> chunk list \<Rightarrow> (nat \<Rightarrow> nat list) \<Rightarrow> nat set \<Rightarrow> nat set \<Rightarrow> bool" where
  "heap_ok rs C bn L X \<longleftrightarrow> L \<subseteq> {..<length C} \<and> X \<subseteq> L \<and> (\<forall>h \<in> X. \<not> in_use (C ! h)) \<and>
     regions_ok rs \<and> links_ok C L \<and> space_ok (set (region_bounds rs)) C L \<and> disjoint_ok C L \<and>
     table_ok rs C L \<and> bins_ok bn C L X \<and> coalesced C L X \<and>
     (\<Sum>h \<in> L. c_size (C ! h)) = (\<Sum>r \<leftarrow> region_bounds rs. snd r)"

definition bfc_inv :: "'s bfc \<Rightarrow> nat set \<Rightarrow> nat set \<Rightarrow> bool" where
  "bfc_inv s L X \<longleftrightarrow> heap_ok (regions s) (chunks s) (bins s) L X \<and>
     free_list_ok (chunks s) (free_chunks_list s) ({..<length (chunks s)} - L) \<and>
     ids_ok (chunks s) L (next_allocation_id s) \<and>
     bytes_in_use (stats s) = (\<Sum>h \<in> used (chunks s) L. int (c_size (chunks s ! h)))"

lemmas heap_defs = links_ok_def space_ok_def disjoint_ok_def table_ok_def bins_ok_def coalesced_def

section \<open>Basic consequences\<close>

lemma heap_okD:
  assumes "heap_ok rs C bn L X"
  shows "L \<subseteq> {..<length C}" "X \<subseteq> L" "\<And>h. h \<in> X \<Longrightarrow> \<not> in_use (C ! h)" "regions_ok rs" "links_ok C L"
    "space_ok (set (region_bounds rs)) C L" "disjoint_ok C L" "table_ok rs C L" "bins_ok bn C L X"
    "coalesced C L X" "(\<Sum>h \<in> L. c_size (C ! h)) = (\<Sum>r \<leftarrow> region_bounds rs. snd r)"
  using assms unfolding heap_ok_def by blast+

lemma heap_okI:
  assumes "L \<subseteq> {..<length C}" "X \<subseteq> L" "\<And>h. h \<in> X \<Longrightarrow> \<not> in_use (C ! h)" "regions_ok rs" "links_ok C L"
    "space_ok (set (region_bounds rs)) C L" "disjoint_ok C L" "table_ok rs C L" "bins_ok bn C L X"
    "coalesced C L X" "(\<Sum>h \<in> L. c_size (C ! h)) = (\<Sum>r \<leftarrow> region_bounds rs. snd r)"
  shows "heap_ok rs C bn L X"
  using assms unfolding heap_ok_def by blast

lemma addressable_chunk:
  assumes "heap_ok rs C bn L X" "h \<in> L"
  shows "addressable rs (c_ptr (C ! h))"
proof -
  have s: "0 < c_size (C ! h)" "\<exists>r \<in> set (region_bounds rs). chunk_in r (C ! h)"
    using assms by (auto simp: heap_ok_def space_ok_def)
  then obtain r where r: "r \<in> set rs" "chunk_in (r_ptr r, memory_size r) (C ! h)"
    by (auto simp: region_bounds_def)
  moreover have "end_ptr r = r_ptr r + memory_size r"
    using assms(1) r(1) by (auto simp: heap_ok_def regions_ok_def list_all_iff region_ok_def)
  ultimately show ?thesis using s(1)
    by (auto simp: addressable_def in_region_def chunk_in_def intro!: bexI [of _ r])
qed

lemma heap_ptr_inject:
  assumes "heap_ok rs C bn L X" "h \<in> L" "k \<in> L" "c_ptr (C ! h) = c_ptr (C ! k)"
  shows "h = k"
proof -
  have "get_handle rs (c_ptr (C ! h)) = Some (Some h)" "get_handle rs (c_ptr (C ! k)) = Some (Some k)"
    using heap_okD(8) [OF assms(1)] assms(2,3) unfolding table_ok_def by blast+
  with assms(4) show ?thesis by (metis option.inject)
qed

lemma comparator_total:
  assumes "heap_ok rs C bn L X" "h \<in> L" "k \<in> L" "h \<noteq> k"
  shows "ChunkComparator C h k \<or> ChunkComparator C k h"
proof -
  have "c_ptr (C ! h) \<noteq> c_ptr (C ! k)" using heap_ptr_inject [OF assms(1-3)] assms(4) by blast
  then show ?thesis by (auto simp: ChunkComparator_def Let_def)
qed

lemma comparator_asym: "ChunkComparator C h k \<Longrightarrow> \<not> ChunkComparator C k h"
  by (auto simp: ChunkComparator_def Let_def split: if_splits)

lemma comparator_trans: "ChunkComparator C h k \<Longrightarrow> ChunkComparator C k l \<Longrightarrow> ChunkComparator C h l"
  by (auto simp: ChunkComparator_def Let_def split: if_splits)

lemma comparator_cong:
  "c_size (C' ! h) = c_size (C ! h) \<Longrightarrow> c_ptr (C' ! h) = c_ptr (C ! h) \<Longrightarrow>
   c_size (C' ! k) = c_size (C ! k) \<Longrightarrow> c_ptr (C' ! k) = c_ptr (C ! k) \<Longrightarrow>
   ChunkComparator C' h k = ChunkComparator C h k"
  by (simp add: ChunkComparator_def Let_def)

lemma sorted_comparator_cong:
  assumes "sorted_wrt (ChunkComparator C) hs"
    and "\<And>h. h \<in> set hs \<Longrightarrow> c_size (C' ! h) = c_size (C ! h) \<and> c_ptr (C' ! h) = c_ptr (C ! h)"
  shows "sorted_wrt (ChunkComparator C') hs"
  using assms(1) by (rule sorted_wrt_mono_rel [rotated]) (use assms(2) comparator_cong in blast)

lemma bins_okD:
  assumes "bins_ok bn C L X"
  shows "sorted_wrt (ChunkComparator C) (bn b)"
    "k \<in> set (bn b) \<longleftrightarrow> k \<in> L \<and> k \<notin> X \<and> \<not> in_use (C ! k) \<and> b = BinNumForSize (c_size (C ! k))"
    "k \<in> L \<Longrightarrow> bin_num (C ! k) = (if in_use (C ! k) \<or> k \<in> X then None else Some (BinNumForSize (c_size (C ! k))))"
  using assms unfolding bins_ok_def by blast+

lemma bins_okI:
  assumes "\<And>b. sorted_wrt (ChunkComparator C) (bn b)"
    "\<And>k b. k \<in> set (bn b) \<longleftrightarrow> k \<in> L \<and> k \<notin> X \<and> \<not> in_use (C ! k) \<and> b = BinNumForSize (c_size (C ! k))"
    "\<And>k. k \<in> L \<Longrightarrow> bin_num (C ! k) = (if in_use (C ! k) \<or> k \<in> X then None else Some (BinNumForSize (c_size (C ! k))))"
  shows "bins_ok bn C L X"
  using assms unfolding bins_ok_def by blast

lemma set_set_insert:
  assumes "\<And>x. x \<in> set hs \<Longrightarrow> x \<noteq> h \<Longrightarrow> lt x h \<or> lt h x" and "\<And>x. x \<in> set hs \<Longrightarrow> x \<noteq> h"
  shows "set (set_insert lt h hs) = insert h (set hs)"
  using assms by (induction hs) auto

lemma sorted_set_insert:
  assumes "sorted_wrt (ChunkComparator C) hs"
    and "\<And>x. x \<in> set hs \<Longrightarrow> ChunkComparator C x h \<or> ChunkComparator C h x"
    and "h \<notin> set hs"
  shows "sorted_wrt (ChunkComparator C) (set_insert (ChunkComparator C) h hs)"
  using assms
proof (induction hs)
  case (Cons x hs)
  then have "set (set_insert (ChunkComparator C) h hs) = insert h (set hs)"
    by (intro set_set_insert) auto
  with Cons show ?case by (auto intro: comparator_trans)
qed simp

lemma set_erase_eq:
  assumes "sorted_wrt (ChunkComparator C) hs" "\<And>x. x \<in> set hs \<Longrightarrow> x \<noteq> h \<Longrightarrow> ChunkComparator C x h \<or> ChunkComparator C h x"
  shows "set_erase (ChunkComparator C) h hs = filter (\<lambda>x. x \<noteq> h) hs"
proof -
  have "\<not> ChunkComparator C h h" by (simp add: ChunkComparator_def)
  then show ?thesis unfolding set_erase_def using assms(2) by (intro filter_cong) auto
qed

lemma sorted_comparator_distinct: "sorted_wrt (ChunkComparator C) hs \<Longrightarrow> distinct hs"
  by (induction hs) (auto dest: comparator_asym)

lemma chain_cong:
  "chain C head hs \<Longrightarrow> (\<And>h. h \<in> set hs \<Longrightarrow> c_next (C' ! h) = c_next (C ! h)) \<Longrightarrow> chain C' head hs"
  by (induction hs arbitrary: head) auto

lemma free_list_ok_cong:
  assumes "free_list_ok C head F" "length C' = length C"
    and "\<And>h. h \<in> F \<Longrightarrow> C' ! h = C ! h"
  shows "free_list_ok C' head F"
  using assms(1,2) assms(3) [THEN arg_cong [where f = c_next]] assms(3) unfolding free_list_ok_def
  by (metis chain_cong)

lemma ChunkFromHandle_live [simp]:
  "heap_ok (regions s) (chunks s) bn L X \<Longrightarrow> h \<in> L \<Longrightarrow> ChunkFromHandle s h = Some (chunks s ! h)"
  by (auto simp: heap_ok_def ChunkFromHandle_def)

lemma heap_ok_finite: "heap_ok rs C bn L X \<Longrightarrow> finite L"
  by (auto simp: heap_ok_def intro: finite_subset)

section \<open>Removal from a bin\<close>

text \<open>Both removals take a binned chunk out of its bin and change nothing else.\<close>

definition unbin :: "'s bfc \<Rightarrow> nat \<Rightarrow> 's bfc" where
  "unbin s h = write_chunk h (\<lambda>c. c\<lparr>bin_num := None\<rparr>)
     (s\<lparr>bins := (\<lambda>b. filter (\<lambda>x. x \<noteq> h) (bins s b))\<rparr>)"

lemma heap_ok_unbin:
  assumes "heap_ok rs C bn L X" "h \<in> L" "\<not> in_use (C ! h)"
  shows "heap_ok rs (C[h := (C ! h)\<lparr>bin_num := None\<rparr>]) (\<lambda>b. filter (\<lambda>x. x \<noteq> h) (bn b)) L (insert h X)"
proof -
  let ?C = "C[h := (C ! h)\<lparr>bin_num := None\<rparr>]"
  note d = heap_okD [OF assms(1)]
  have h: "h < length C" using d(1) assms(2) by auto
  have same: "c_next (?C ! k) = c_next (C ! k)" "c_prev (?C ! k) = c_prev (C ! k)" "c_ptr (?C ! k) = c_ptr (C ! k)"
    "c_size (?C ! k) = c_size (C ! k)" "in_use (?C ! k) = in_use (C ! k)"
    "allocation_id (?C ! k) = allocation_id (C ! k)" "bin_num (?C ! k) = (if k = h then None else bin_num (C ! k))"
    for k using h by (auto simp: nth_list_update in_use_def)
  have bins: "bins_ok (\<lambda>b. filter (\<lambda>x. x \<noteq> h) (bn b)) ?C L (insert h X)"
  proof -
    have "sorted_wrt (ChunkComparator ?C) (filter (\<lambda>x. x \<noteq> h) (bn b))" for b
      using d(9) same by (intro sorted_comparator_cong [OF sorted_wrt_filter]) (auto simp: bins_ok_def)
    then show ?thesis using d(9) assms by (auto simp: bins_ok_def same)
  qed
  show ?thesis
  proof (rule heap_okI)
    show "links_ok ?C L" using d(5) unfolding links_ok_def same .
    show "space_ok (set (region_bounds rs)) ?C L" using d(6) unfolding space_ok_def chunk_in_def same .
    show "disjoint_ok ?C L" using d(7) unfolding disjoint_ok_def disjoint_chunks_def same .
    show "table_ok rs ?C L" using d(8) unfolding table_ok_def same .
    show "coalesced ?C L (insert h X)" using d(10) unfolding coalesced_def same by blast
    show "(\<Sum>h \<in> L. c_size (?C ! h)) = (\<Sum>r \<leftarrow> region_bounds rs. snd r)" using d(11) unfolding same .
  qed (use assms d(1-4) bins in \<open>auto simp: in_use_def nth_list_update\<close>)
qed

lemma used_cong: "(\<And>h. h \<in> L \<Longrightarrow> in_use (C' ! h) = in_use (C ! h)) \<Longrightarrow> used C' L = used C L"
  by (auto simp: used_def)

lemma ids_ok_cong:
  assumes "ids_ok C L nid"
    and "\<And>h. h \<in> L \<Longrightarrow> allocation_id (C' ! h) = allocation_id (C ! h) \<and>
      (in_use (C ! h) \<longrightarrow> requested_size (C' ! h) = requested_size (C ! h) \<and> c_size (C' ! h) = c_size (C ! h))"
  shows "ids_ok C' L nid"
proof -
  have "in_use (C' ! h) = in_use (C ! h)" if "h \<in> L" for h using assms(2) [OF that] by (simp add: in_use_def)
  with assms show ?thesis unfolding ids_ok_def by (metis (no_types, lifting))
qed

lemma bfc_inv_cong:
  assumes inv: "bfc_inv s L X"
    and heap: "heap_ok (regions s') (chunks s') (bins s') L X'"
    and fields: "free_chunks_list s' = free_chunks_list s" "next_allocation_id s' = next_allocation_id s"
      "bytes_in_use (stats s') = bytes_in_use (stats s)" "length (chunks s') = length (chunks s)"
    and outside: "\<And>h. h \<notin> L \<Longrightarrow> chunks s' ! h = chunks s ! h"
    and inside: "\<And>h. h \<in> L \<Longrightarrow> allocation_id (chunks s' ! h) = allocation_id (chunks s ! h) \<and>
      (in_use (chunks s ! h) \<longrightarrow> requested_size (chunks s' ! h) = requested_size (chunks s ! h) \<and>
         c_size (chunks s' ! h) = c_size (chunks s ! h))"
  shows "bfc_inv s' L X'"
proof -
  have iu: "in_use (chunks s' ! h) = in_use (chunks s ! h)" if "h \<in> L" for h
    using inside [OF that] by (simp add: in_use_def)
  have "free_list_ok (chunks s') (free_chunks_list s') ({..<length (chunks s')} - L)"
  proof -
    have "free_list_ok (chunks s) (free_chunks_list s) ({..<length (chunks s)} - L)"
      using inv by (simp add: bfc_inv_def)
    then show ?thesis unfolding fields(1,4) by (rule free_list_ok_cong) (use fields(4) outside in auto)
  qed
  moreover have "ids_ok (chunks s') L (next_allocation_id s')"
  proof -
    have "ids_ok (chunks s) L (next_allocation_id s)" using inv by (simp add: bfc_inv_def)
    then show ?thesis unfolding fields(2) by (rule ids_ok_cong) (rule inside)
  qed
  moreover have "bytes_in_use (stats s') = (\<Sum>h \<in> used (chunks s') L. int (c_size (chunks s' ! h)))"
    using inv fields inside used_cong [of L "chunks s'" "chunks s", OF iu]
    by (auto simp: bfc_inv_def used_def intro!: sum.cong)
  ultimately show ?thesis using heap by (simp add: bfc_inv_def)
qed

lemma bfc_inv_heap: "bfc_inv s L X \<Longrightarrow> heap_ok (regions s) (chunks s) (bins s) L X"
  by (simp add: bfc_inv_def)

lemma bfc_inv_unbin:
  assumes "bfc_inv s L X" "h \<in> L" "\<not> in_use (chunks s ! h)"
  shows "bfc_inv (unbin s h) L (insert h X)"
proof (rule bfc_inv_cong [OF assms(1)])
  show "heap_ok (regions (unbin s h)) (chunks (unbin s h)) (bins (unbin s h)) L (insert h X)"
    using heap_ok_unbin [OF bfc_inv_heap [OF assms(1)] assms(2,3)] by (simp add: unbin_def write_chunk_def)
qed (use assms(2) in \<open>auto simp: unbin_def write_chunk_def nth_list_update_if\<close>)

lemma unbin_simps [simp]:
  "c_next (chunks (unbin s h) ! k) = c_next (chunks s ! k)" "c_prev (chunks (unbin s h) ! k) = c_prev (chunks s ! k)"
  "c_ptr (chunks (unbin s h) ! k) = c_ptr (chunks s ! k)" "c_size (chunks (unbin s h) ! k) = c_size (chunks s ! k)"
  "in_use (chunks (unbin s h) ! k) = in_use (chunks s ! k)"
  "allocation_id (chunks (unbin s h) ! k) = allocation_id (chunks s ! k)"
  "requested_size (chunks (unbin s h) ! k) = requested_size (chunks s ! k)"
  "length (chunks (unbin s h)) = length (chunks s)" "regions (unbin s h) = regions s"
  "next_allocation_id (unbin s h) = next_allocation_id s" "stats (unbin s h) = stats s"
  by (simp_all add: unbin_def write_chunk_def in_use_def nth_list_update_if)

lemma RemoveFreeChunk_unbin:
  assumes "bfc_inv s L X" "h \<in> L" "h \<notin> X" "\<not> in_use (chunks s ! h)"
  shows "RemoveFreeChunkFromBin s h = Some (unbin s h)"
    and "RemoveFreeChunkIterFromBin s (BinNumForSize (c_size (chunks s ! h))) h = Some (unbin s h)"
proof -
  note heap = bfc_inv_heap [OF assms(1)]
  note b = heap_okD(9) [OF heap, unfolded bins_ok_def]
  let ?b = "BinNumForSize (c_size (chunks s ! h))" and ?lt = "ChunkComparator (chunks s)"
  have h: "bin_num (chunks s ! h) = Some ?b" "h \<in> set (bins s ?b)" using b assms(2-4) by auto
  have others: "filter (\<lambda>x. x \<noteq> h) (bins s b') = bins s b'" if "b' \<noteq> ?b" for b'
    using b that by (intro filter_True) auto
  have sorted: "sorted_wrt ?lt (bins s ?b)" using b by blast
  have erase: "set_erase ?lt h (bins s ?b) = filter (\<lambda>x. x \<noteq> h) (bins s ?b)"
    using b by (intro set_erase_eq [OF sorted] comparator_total [OF heap]) (auto simp: assms(2))
  have len: "length (filter (\<lambda>x. x \<noteq> h) (bins s ?b)) < length (bins s ?b)"
    using h(2) by (auto intro!: length_filter_less)
  have bins: "(bins s)(?b := filter (\<lambda>x. x \<noteq> h) (bins s ?b)) = (\<lambda>b. filter (\<lambda>x. x \<noteq> h) (bins s b))"
    using others by (auto simp: fun_eq_iff)
  show "RemoveFreeChunkFromBin s h = Some (unbin s h)"
    using heap assms(2,4) h(1) erase len bins
    by (simp add: RemoveFreeChunkFromBin_def unbin_def)
  have "remove1 h (bins s ?b) = filter (\<lambda>x. x \<noteq> h) (bins s ?b)"
    using sorted_comparator_distinct [OF sorted]
    by (simp add: distinct_remove1_removeAll removeAll_filter_not_eq) (rule filter_cong, auto)
  then show "RemoveFreeChunkIterFromBin s ?b h = Some (unbin s h)"
    using heap assms(2,4) h(1) bins by (simp add: RemoveFreeChunkIterFromBin_def unbin_def)
qed

section \<open>Insertion into a bin\<close>

lemma heap_ok_bin:
  assumes "heap_ok rs C bn L X" "h \<in> X"
    and nbr: "\<And>n. c_next (C ! h) = Some n \<Longrightarrow> in_use (C ! n) \<or> n \<in> X - {h}"
      "\<And>p. c_prev (C ! h) = Some p \<Longrightarrow> in_use (C ! p) \<or> p \<in> X - {h}"
  defines "b \<equiv> BinNumForSize (c_size (C ! h))"
  defines "C' \<equiv> C[h := (C ! h)\<lparr>bin_num := Some b\<rparr>]"
  shows "heap_ok rs C' (bn(b := set_insert (ChunkComparator C') h (bn b))) L (X - {h})"
proof -
  note d = heap_okD [OF assms(1)]
  have hL: "h \<in> L" "\<not> in_use (C ! h)" and h: "h < length C" using d(1,2) d(3) assms(2) by auto
  have same: "c_next (C' ! k) = c_next (C ! k)" "c_prev (C' ! k) = c_prev (C ! k)" "c_ptr (C' ! k) = c_ptr (C ! k)"
    "c_size (C' ! k) = c_size (C ! k)" "in_use (C' ! k) = in_use (C ! k)"
    "bin_num (C' ! k) = (if k = h then Some b else bin_num (C ! k))"
    for k using h by (auto simp: C'_def nth_list_update_if in_use_def)
  let ?ins = "set_insert (ChunkComparator C') h (bn b)"
  have notin: "h \<notin> set (bn b')" and mem: "x \<in> set (bn b') \<Longrightarrow> x \<in> L" for b' x
    using d(9) assms(2) by (auto simp: bins_ok_def)
  have total: "ChunkComparator C' x h \<or> ChunkComparator C' h x" if "x \<in> set (bn b)" for x
  proof -
    have "x \<noteq> h" using that notin by blast
    then have "ChunkComparator C x h \<or> ChunkComparator C h x"
      by (rule comparator_total [OF assms(1) mem [OF that] hL(1)])
    then show ?thesis using comparator_cong [of C' x C h] comparator_cong [of C' h C x] same by simp
  qed
  have sorted: "sorted_wrt (ChunkComparator C') (bn b')" for b'
  proof -
    have "sorted_wrt (ChunkComparator C) (bn b')" using d(9) unfolding bins_ok_def by blast
    then show ?thesis by (rule sorted_comparator_cong) (simp add: same)
  qed
  have ins: "sorted_wrt (ChunkComparator C') ?ins" "set ?ins = insert h (set (bn b))"
    using sorted_set_insert [OF sorted total notin] set_set_insert [of "bn b" h] total notin by auto
  have bins: "bins_ok (bn(b := ?ins)) C' L (X - {h})"
    unfolding bins_ok_def same
  proof (intro conjI allI ballI)
    fix b'
    show "sorted_wrt (ChunkComparator C') ((bn(b := ?ins)) b')" using ins(1) sorted by simp
    fix k
    have "k \<in> set (bn b') \<longleftrightarrow> k \<in> L \<and> k \<notin> X \<and> \<not> in_use (C ! k) \<and> b' = BinNumForSize (c_size (C ! k))"
      using d(9) unfolding bins_ok_def by blast
    then show "k \<in> set ((bn(b := ?ins)) b') \<longleftrightarrow>
      k \<in> L \<and> k \<notin> X - {h} \<and> \<not> in_use (C ! k) \<and> b' = BinNumForSize (c_size (C ! k))"
      using ins(2) hL assms(2) by (cases "k = h"; cases "b' = b") (auto simp: b_def)
  next
    fix k assume "k \<in> L"
    then have "bin_num (C ! k) = (if in_use (C ! k) \<or> k \<in> X then None else Some (BinNumForSize (c_size (C ! k))))"
      using d(9) unfolding bins_ok_def by blast
    then show "(if k = h then Some b else bin_num (C ! k)) =
      (if in_use (C ! k) \<or> k \<in> X - {h} then None else Some (BinNumForSize (c_size (C ! k))))"
      using hL(2) by (simp add: b_def)
  qed
  show ?thesis
  proof (rule heap_okI)
    show "links_ok C' L" using d(5) unfolding links_ok_def same .
    show "space_ok (set (region_bounds rs)) C' L" using d(6) unfolding space_ok_def chunk_in_def same .
    show "disjoint_ok C' L" using d(7) unfolding disjoint_ok_def disjoint_chunks_def same .
    show "table_ok rs C' L" using d(8) unfolding table_ok_def same .
    show "coalesced C' L (X - {h})" using d(10) d(5) nbr unfolding coalesced_def links_ok_def same by blast
    show "(\<Sum>h \<in> L. c_size (C' ! h)) = (\<Sum>r \<leftarrow> region_bounds rs. snd r)" using d(11) unfolding same .
    show "L \<subseteq> {..<length C'}" using d(1) by (simp add: C'_def)
  qed (use d(2-4) bins in \<open>auto simp: same\<close>)
qed

lemma bfc_inv_insert:
  assumes "bfc_inv s L X" "h \<in> X"
    and nbr: "\<And>n. c_next (chunks s ! h) = Some n \<Longrightarrow> in_use (chunks s ! n) \<or> n \<in> X - {h}"
      "\<And>p. c_prev (chunks s ! h) = Some p \<Longrightarrow> in_use (chunks s ! p) \<or> p \<in> X - {h}"
  shows "\<exists>s'. InsertFreeChunkIntoBin s h = Some s' \<and> bfc_inv s' L (X - {h}) \<and> regions s' = regions s \<and>
    next_allocation_id s' = next_allocation_id s \<and> stats s' = stats s \<and>
    (\<forall>k. c_ptr (chunks s' ! k) = c_ptr (chunks s ! k) \<and> c_size (chunks s' ! k) = c_size (chunks s ! k) \<and>
      allocation_id (chunks s' ! k) = allocation_id (chunks s ! k) \<and>
      requested_size (chunks s' ! k) = requested_size (chunks s ! k))"
proof -
  note heap = bfc_inv_heap [OF assms(1)]
  let ?b = "BinNumForSize (c_size (chunks s ! h))"
  let ?C = "(chunks s)[h := (chunks s ! h)\<lparr>bin_num := Some ?b\<rparr>]"
  let ?s = "s\<lparr>chunks := ?C, bins := (bins s)(?b := set_insert (ChunkComparator ?C) h (bins s ?b))\<rparr>"
  have hL: "h \<in> L" "\<not> in_use (chunks s ! h)" using heap_okD(2,3) [OF heap] assms(2) by auto
  have "bin_num (chunks s ! h) = None"
    using heap_okD(9) [OF heap] hL assms(2) by (auto simp: bins_ok_def)
  then have "InsertFreeChunkIntoBin s h = Some ?s"
    using heap hL by (simp add: InsertFreeChunkIntoBin_def write_chunk_def Let_def)
  moreover have "bfc_inv ?s L (X - {h})"
    by (rule bfc_inv_cong [OF assms(1)])
      (use heap_ok_bin [OF heap assms(2) nbr] hL(1) in \<open>auto simp: nth_list_update_if\<close>)
  ultimately show ?thesis by (auto simp: nth_list_update_if)
qed

section \<open>Merging\<close>

lemma region_bounds_unique:
  assumes "regions_ok rs" "r \<in> set (region_bounds rs)" "r' \<in> set (region_bounds rs)"
    and "fst r \<le> p" "p < fst r + snd r" "fst r' \<le> p" "p < fst r' + snd r'"
  shows "r = r'"
proof -
  have e: "end_ptr (rs ! i) = r_ptr (rs ! i) + memory_size (rs ! i)" if "i < length rs" for i
    using regions_ok_nth [OF assms(1) that] by (simp add: region_ok_def)
  obtain i j where ij: "i < length rs" "r = (r_ptr (rs ! i), memory_size (rs ! i))"
    "j < length rs" "r' = (r_ptr (rs ! j), memory_size (rs ! j))"
    using assms(2,3) by (auto simp: region_bounds_def in_set_conv_nth)
  have "upper_bound rs p = i" "upper_bound rs p = j"
    using upper_bound_nth [OF assms(1), of _ p] ij e assms(4-7) by auto
  with ij show ?thesis by simp
qed

text \<open>The fields of the chunks after \<open>h2\<close> was merged into its predecessor \<open>h1\<close>.\<close>

definition merged :: "chunk list \<Rightarrow> nat \<Rightarrow> nat \<Rightarrow> nat \<Rightarrow> chunk \<Rightarrow> bool" where
  "merged C h1 h2 k c \<longleftrightarrow>
     c_next c = (if k = h1 then c_next (C ! h2) else c_next (C ! k)) \<and>
     c_size c = (if k = h1 then c_size (C ! h1) + c_size (C ! h2) else c_size (C ! k)) \<and>
     c_prev c = (if c_next (C ! h2) = Some k then Some h1 else c_prev (C ! k)) \<and>
     c_ptr c = c_ptr (C ! k) \<and> bin_num c = bin_num (C ! k) \<and>
     allocation_id c = allocation_id (C ! k) \<and> requested_size c = requested_size (C ! k)"

lemma links_next:
  "links_ok C L \<Longrightarrow> h \<in> L \<Longrightarrow> c_next (C ! h) = Some n \<Longrightarrow>
   n \<in> L \<and> c_prev (C ! n) = Some h \<and> c_ptr (C ! n) = c_ptr (C ! h) + c_size (C ! h)"
  unfolding links_ok_def by blast

lemma links_prev: "links_ok C L \<Longrightarrow> h \<in> L \<Longrightarrow> c_prev (C ! h) = Some p \<Longrightarrow> p \<in> L \<and> c_next (C ! p) = Some h"
  unfolding links_ok_def by blast

lemma links_merge:
  assumes links: "links_ok C L" and h1: "h1 \<in> L" and nx: "c_next (C ! h1) = Some h2"
    and m: "\<And>k. k \<in> L - {h2} \<Longrightarrow> merged C h1 h2 k (C' ! k)"
    and pos: "0 < c_size (C ! h2)"
  shows "links_ok C' (L - {h2})"
  unfolding links_ok_def
proof (intro ballI conjI allI impI)
  note h2 = links_next [OF links h1 nx]
  have self: "c_next (C ! h2) \<noteq> Some h2" using links_next [OF links, of h2 h2] h2 pos by auto
  have h12: "h1 \<noteq> h2" using self nx by auto
  fix k assume k: "k \<in> L - {h2}"
  note mk = m [OF k, unfolded merged_def]
  { fix n assume n: "c_next (C' ! k) = Some n"
    have "n \<in> L - {h2} \<and> c_prev (C' ! n) = Some k \<and> c_ptr (C' ! n) = c_ptr (C' ! k) + c_size (C' ! k)"
    proof (cases "k = h1")
      case True
      then have n': "c_next (C ! h2) = Some n" using mk n by simp
      note nn = links_next [OF links conjunct1 [OF h2] n']
      have nL: "n \<in> L - {h2}" using nn pos by auto
      show ?thesis using m [OF nL] mk nL nn n' h2 True by (simp add: merged_def)
    next
      case False
      then have n': "c_next (C ! k) = Some n" using mk n by simp
      have "k \<in> L" using k by simp
      note nn = links_next [OF links this n']
      have nL: "n \<in> L - {h2}" using nn h2 False by auto
      have "c_next (C ! h2) \<noteq> Some n" using links_next [OF links conjunct1 [OF h2], of n] nn k by auto
      then show ?thesis using m [OF nL] mk nL nn False by (simp add: merged_def)
    qed
    then show "n \<in> L - {h2}" "c_prev (C' ! n) = Some k" "c_ptr (C' ! n) = c_ptr (C' ! k) + c_size (C' ! k)"
      by blast+
  }
  fix p assume p: "c_prev (C' ! k) = Some p"
  have "p \<in> L - {h2} \<and> c_next (C' ! p) = Some k"
  proof (cases "c_next (C ! h2) = Some k")
    case True
    then have "p = h1" using mk p by simp
    then show ?thesis using m [of h1] h1 h12 True by (simp add: merged_def)
  next
    case False
    then have p': "c_prev (C ! k) = Some p" using mk p by simp
    have "k \<in> L" using k by simp
    note pp = links_prev [OF links this p']
    have pL: "p \<in> L - {h2}" using pp False by auto
    have "p \<noteq> h1" using pp nx k by auto
    then show ?thesis using m [OF pL] pp pL by (simp add: merged_def)
  qed
  then show "p \<in> L - {h2}" "c_next (C' ! p) = Some k" by blast+
qed

lemma space_next_same_region:
  assumes heap: "heap_ok rs C bn L X" and "h \<in> L" "c_next (C ! h) = Some n" "r \<in> set (region_bounds rs)" "chunk_in r (C ! h)"
  shows "chunk_in r (C ! n)"
proof -
  note d = heap_okD [OF heap]
  note n = links_next [OF d(5) assms(2,3)]
  from n d(6) obtain r' where r': "r' \<in> set (region_bounds rs)" "chunk_in r' (C ! n)" "0 < c_size (C ! n)"
    by (auto simp: space_ok_def)
  have "c_ptr (C ! h) + c_size (C ! h) \<noteq> fst r + snd r"
    using assms(3,5) by (auto simp: chunk_in_def)
  then have "r = r'"
    using region_bounds_unique [OF d(4) assms(4) r'(1), of "c_ptr (C ! n)"] assms(5) r'(2,3) n
    by (simp add: chunk_in_def)
  with r' show ?thesis by simp
qed

lemma space_merge:
  assumes heap: "heap_ok rs C bn L X" and h1: "h1 \<in> L" and nx: "c_next (C ! h1) = Some h2"
    and m: "\<And>k. k \<in> L - {h2} \<Longrightarrow> merged C h1 h2 k (C' ! k)"
  shows "space_ok (set (region_bounds rs)) C' (L - {h2})"
  unfolding space_ok_def
proof
  note d = heap_okD [OF heap]
  note h2 = links_next [OF d(5) h1 nx]
  fix k assume k: "k \<in> L - {h2}"
  note mk = m [OF k, unfolded merged_def]
  from k d(6) obtain r where r: "r \<in> set (region_bounds rs)" "chunk_in r (C ! k)" "0 < c_size (C ! k)" "256 dvd c_size (C ! k)"
    by (auto simp: space_ok_def)
  have pv: "c_prev (C' ! k) = None \<longleftrightarrow> c_prev (C ! k) = None"
    using mk links_next [OF d(5), of h2 k] h2 by auto
  have "chunk_in r (C' ! k) \<and> 256 dvd c_size (C' ! k)"
  proof (cases "k = h1")
    case True
    with r have "chunk_in r (C ! h2)" using space_next_same_region [OF heap h1 nx] by blast
    moreover have "256 dvd c_size (C ! h2)" using d(6) h2 by (auto simp: space_ok_def)
    ultimately show ?thesis using r mk True pv h2 by (simp add: chunk_in_def add.assoc)
  next
    case False
    then show ?thesis using r mk pv by (simp add: chunk_in_def)
  qed
  then show "0 < c_size (C' ! k) \<and> 256 dvd c_size (C' ! k) \<and> (\<exists>r \<in> set (region_bounds rs). chunk_in r (C' ! k))"
    using r mk by auto
qed

lemma disjoint_merge:
  assumes heap: "heap_ok rs C bn L X" and h1: "h1 \<in> L" and nx: "c_next (C ! h1) = Some h2"
    and m: "\<And>k. k \<in> L - {h2} \<Longrightarrow> merged C h1 h2 k (C' ! k)"
  shows "disjoint_ok C' (L - {h2})"
proof -
  note d = heap_okD [OF heap]
  note h2 = links_next [OF d(5) h1 nx]
  have pos: "0 < c_size (C ! k)" if "k \<in> L" for k using d(6) that by (auto simp: space_ok_def)
  have disj: "disjoint_chunks (C ! h) (C ! k)" if "h \<in> L" "k \<in> L" "h \<noteq> k" for h k
    using d(7) that by (auto simp: disjoint_ok_def)
  have one: "disjoint_chunks (C' ! h1) (C' ! k)" if "k \<in> L - {h2}" "k \<noteq> h1" "h1 \<noteq> h2" for k
    using m [OF that(1)] m [of h1] disj [of h1 k] disj [of h2 k] pos [of k] that h1 h2
    by (auto simp: merged_def disjoint_chunks_def)
  have "h1 \<noteq> h2" using h2 pos [OF h1] by auto
  have sym: "disjoint_chunks c e \<longleftrightarrow> disjoint_chunks e c" for c e by (auto simp: disjoint_chunks_def)
  show ?thesis
    unfolding disjoint_ok_def
  proof (intro ballI impI)
    fix h k assume hk: "h \<in> L - {h2}" "k \<in> L - {h2}" "h \<noteq> k"
    consider "h = h1" | "k = h1" | "h \<noteq> h1" "k \<noteq> h1" by blast
    then show "disjoint_chunks (C' ! h) (C' ! k)"
    proof cases
      case 3
      then show ?thesis using disj [of h k] m [OF hk(1)] m [OF hk(2)] hk
        by (auto simp: merged_def disjoint_chunks_def)
    qed (use one hk sym \<open>h1 \<noteq> h2\<close> in auto)
  qed
qed

text \<open>What a write to the table at one address does to the facts about it.\<close>

definition table_write :: "region list \<Rightarrow> nat \<Rightarrow> nat option \<Rightarrow> region list \<Rightarrow> bool" where
  "table_write rs p h rs' \<longleftrightarrow> regions_ok rs' \<and> region_bounds rs' = region_bounds rs \<and>
     addressable rs' = addressable rs \<and>
     (\<forall>q. addressable rs q \<longrightarrow> get_handle rs' q = (if p = q then Some h else get_handle rs q))"

lemma set_handle_table_write:
  assumes "regions_ok rs" "addressable rs p"
  shows "\<exists>rs'. set_handle rs p h = Some rs' \<and> table_write rs p h rs'"
  using region_table.set_obtain [OF assms, of h] unfolding table_write_def by metis

lemma bins_merge:
  assumes b: "bins_ok bn C L X" and "h1 \<in> X" "h2 \<in> X"
    and m: "\<And>k. k \<in> L - {h2} \<Longrightarrow> merged C h1 h2 k (C' ! k)"
  shows "bins_ok bn C' (L - {h2}) (X - {h2})"
  unfolding bins_ok_def
proof (intro conjI allI ballI)
  have iu: "in_use (C' ! k) = in_use (C ! k)" "bin_num (C' ! k) = bin_num (C ! k)" "c_ptr (C' ! k) = c_ptr (C ! k)"
    "k \<noteq> h1 \<Longrightarrow> c_size (C' ! k) = c_size (C ! k)" if "k \<in> L - {h2}" for k
    using m [OF that] by (auto simp: merged_def in_use_def)
  have mem: "k \<in> set (bn b) \<longleftrightarrow> k \<in> L \<and> k \<notin> X \<and> \<not> in_use (C ! k) \<and> b = BinNumForSize (c_size (C ! k))" for k b
    using b unfolding bins_ok_def by blast
  fix b'
  have "sorted_wrt (ChunkComparator C) (bn b')" using b unfolding bins_ok_def by blast
  then show "sorted_wrt (ChunkComparator C') (bn b')"
    by (rule sorted_comparator_cong) (use iu mem assms(2,3) in blast)
  fix k
  show "k \<in> set (bn b') \<longleftrightarrow> k \<in> L - {h2} \<and> k \<notin> X - {h2} \<and> \<not> in_use (C' ! k) \<and> b' = BinNumForSize (c_size (C' ! k))"
    using iu [of k] mem [of k b'] assms(2,3) by (cases "k = h1"; cases "k \<in> L - {h2}") auto
next
  fix k assume k: "k \<in> L - {h2}"
  have "bin_num (C ! k) = (if in_use (C ! k) \<or> k \<in> X then None else Some (BinNumForSize (c_size (C ! k))))"
    using b k unfolding bins_ok_def by blast
  then show "bin_num (C' ! k) =
    (if in_use (C' ! k) \<or> k \<in> X - {h2} then None else Some (BinNumForSize (c_size (C' ! k))))"
    using m [OF k] assms(2) k by (auto simp: merged_def in_use_def)
qed

lemma heap_ok_merge:
  assumes heap: "heap_ok rs C bn L X" and h: "h1 \<in> X" "h2 \<in> X" and nx: "c_next (C ! h1) = Some h2"
    and len: "length C' = length C"
    and m: "\<And>k. k \<in> L - {h2} \<Longrightarrow> merged C h1 h2 k (C' ! k)"
    and tw: "table_write rs (c_ptr (C ! h2)) None rs'"
  shows "heap_ok rs' C' bn (L - {h2}) (X - {h2})"
proof (rule heap_okI)
  note d = heap_okD [OF heap]
  note t = tw [unfolded table_write_def]
  have hL: "h1 \<in> L" "h2 \<in> L" using h d(2) by auto
  have pos: "0 < c_size (C ! h2)" using d(6) hL by (auto simp: space_ok_def)
  show "links_ok C' (L - {h2})" by (rule links_merge [OF d(5) hL(1) nx m pos])
  show "space_ok (set (region_bounds rs')) C' (L - {h2})" using space_merge [OF heap hL(1) nx m] t by simp
  show "disjoint_ok C' (L - {h2})" by (rule disjoint_merge [OF heap hL(1) nx m])
  show "bins_ok bn C' (L - {h2}) (X - {h2})" by (rule bins_merge [OF d(9) h m])
  show "table_ok rs' C' (L - {h2})"
    unfolding table_ok_def
  proof (intro conjI ballI allI impI)
    fix k assume k: "k \<in> L - {h2}"
    then have "c_ptr (C ! k) \<noteq> c_ptr (C ! h2)" using heap_ptr_inject [OF heap, of k h2] hL by blast
    moreover have "get_handle rs (c_ptr (C ! k)) = Some (Some k)" "addressable rs (c_ptr (C ! k))"
      "c_ptr (C' ! k) = c_ptr (C ! k)"
      using d(8) k addressable_chunk [OF heap, of k] m [OF k] unfolding table_ok_def merged_def by blast+
    ultimately show "get_handle rs' (c_ptr (C' ! k)) = Some (Some k)" using t by metis
  next
    fix p k assume pk: "addressable rs' p" "get_handle rs' p = Some (Some k)"
    then have p: "addressable rs p" "p \<noteq> c_ptr (C ! h2)" "get_handle rs p = Some (Some k)"
      using t by (auto split: if_splits)
    then have "k \<in> L" "c_ptr (C ! k) = p" using d(8) unfolding table_ok_def by blast+
    with p m [of k] show "k \<in> L - {h2}" "c_ptr (C' ! k) = p" by (auto simp: merged_def)
  qed
  show "coalesced C' (L - {h2}) (X - {h2})"
    unfolding coalesced_def
  proof (intro ballI allI impI)
    fix k n assume k: "k \<in> L - {h2}" and n: "c_next (C' ! k) = Some n"
    have "k = h1 \<or> c_next (C ! k) = Some n" using m [OF k] n by (auto simp: merged_def split: if_splits)
    moreover have "n \<in> L - {h2}"
      using links_merge [OF d(5) hL(1) nx m pos] k n by (auto dest: links_next)
    ultimately show "in_use (C' ! k) \<or> in_use (C' ! n) \<or> k \<in> X - {h2} \<or> n \<in> X - {h2}"
      using d(10) k m [OF k] m [of n] h unfolding coalesced_def merged_def in_use_def by auto
  qed
  have h12: "h1 \<noteq> h2" using nx links_next [OF d(5) hL(1) nx] pos by auto
  have fin: "finite L" using heap by (rule heap_ok_finite)
  have "(\<Sum>k \<in> L - {h2}. c_size (C' ! k)) = c_size (C' ! h1) + (\<Sum>k \<in> L - {h2} - {h1}. c_size (C' ! k))"
    using fin hL h12 by (subst sum.remove [of _ h1]) auto
  also have "(\<Sum>k \<in> L - {h2} - {h1}. c_size (C' ! k)) = (\<Sum>k \<in> L - {h2} - {h1}. c_size (C ! k))"
    using m by (intro sum.cong) (auto simp: merged_def)
  also have "c_size (C' ! h1) = c_size (C ! h2) + c_size (C ! h1)" using m [of h1] hL h12 by (simp add: merged_def)
  also have "c_size (C ! h2) + c_size (C ! h1) + (\<Sum>k \<in> L - {h2} - {h1}. c_size (C ! k)) = (\<Sum>k \<in> L. c_size (C ! k))"
    using fin hL h12 by (simp add: sum.remove [of L h2] sum.remove [of "L - {h2}" h1])
  finally show "(\<Sum>h \<in> L - {h2}. c_size (C' ! h)) = (\<Sum>r \<leftarrow> region_bounds rs'. snd r)"
    using d(11) t by simp
  show "regions_ok rs'" using t by simp
  show "\<not> in_use (C' ! k)" if "k \<in> X - {h2}" for k
    using that d(2) d(3) [of k] m [of k] by (auto simp: merged_def in_use_def)
qed (use heap_okD [OF heap] len in auto)

lemma free_list_push:
  assumes "free_list_ok C head F" "h \<notin> F" "h < length C" "length C' = length C"
    and "\<And>k. k \<in> F \<Longrightarrow> C' ! k = C ! k" "c_next (C' ! h) = head" "bin_num (C' ! h) = None" "\<not> in_use (C' ! h)"
  shows "free_list_ok C' (Some h) (insert h F)"
proof -
  from assms(1) obtain hs where hs: "chain C head hs" "distinct hs" "set hs = F"
    by (auto simp: free_list_ok_def)
  then have "chain C' (Some h) (h # hs)"
    using assms(5,6) chain_cong [of C head hs C'] by simp
  then have "\<exists>hs'. chain C' (Some h) hs' \<and> distinct hs' \<and> set hs' = insert h F"
    using hs assms(2) by (intro exI [of _ "h # hs"]) auto
  with assms show ?thesis by (auto simp: free_list_ok_def)
qed

text \<open>The frame of an operation: the granted chunks keep address, size, requested size and id.\<close>

definition frame :: "'s bfc \<Rightarrow> nat set \<Rightarrow> 's bfc \<Rightarrow> nat set \<Rightarrow> bool" where
  "frame s L s' L' \<longleftrightarrow> used (chunks s') L' = used (chunks s) L \<and>
     region_bounds (regions s') = region_bounds (regions s) \<and>
     (\<forall>k \<in> used (chunks s) L. c_ptr (chunks s' ! k) = c_ptr (chunks s ! k) \<and>
        c_size (chunks s' ! k) = c_size (chunks s ! k) \<and>
        requested_size (chunks s' ! k) = requested_size (chunks s ! k) \<and>
        allocation_id (chunks s' ! k) = allocation_id (chunks s ! k))"

lemma frame_refl: "frame s L s L"
  by (simp add: frame_def)

lemma frame_trans: "frame s L t M \<Longrightarrow> frame t M u N \<Longrightarrow> frame s L u N"
  by (auto simp: frame_def)

lemma Merge_result:
  assumes inv: "bfc_inv s L X" and h: "h1 \<in> X" "h2 \<in> X" and nx: "c_next (chunks s ! h1) = Some h2"
  shows "\<exists>C' rs'. Merge s h1 h2 = Some (s\<lparr>regions := rs', chunks := C', free_chunks_list := Some h2\<rparr>) \<and>
    length C' = length (chunks s) \<and> (\<forall>k. k \<notin> L \<longrightarrow> C' ! k = chunks s ! k) \<and>
    C' ! h2 = (chunks s ! h2)\<lparr>c_next := free_chunks_list s\<rparr> \<and>
    (\<forall>k \<in> L - {h2}. merged (chunks s) h1 h2 k (C' ! k)) \<and>
    table_write (regions s) (c_ptr (chunks s ! h2)) None rs'"
proof -
  note heap = bfc_inv_heap [OF inv]
  note d = heap_okD [OF heap]
  let ?C = "chunks s" and ?h3 = "c_next (chunks s ! h2)"
  have hL: "h1 \<in> L" "h2 \<in> L" using h d(2) by auto
  have lt: "h1 < length ?C" "h2 < length ?C" using hL d(1) by auto
  have free: "\<not> in_use (?C ! h1)" "\<not> in_use (?C ! h2)" using h d(3) by auto
  note h2 = links_next [OF d(5) hL(1) nx]
  have pos: "0 < c_size (?C ! h1)" using d(6) hL by (auto simp: space_ok_def)
  have h12: "h1 \<noteq> h2" using h2 pos by auto
  have h3: "h3 \<in> L" "h3 < length ?C" "h3 \<noteq> h2" if "?h3 = Some h3" for h3
    using links_next [OF d(5) hL(2) that] d(1) d(6) hL by (auto simp: space_ok_def)
  define C2 where "C2 = (let C1 = ?C[h1 := (?C ! h1)\<lparr>c_next := ?h3\<rparr>] in
    case ?h3 of None \<Rightarrow> C1 | Some h3 \<Rightarrow> C1[h3 := (C1 ! h3)\<lparr>c_prev := Some h1\<rparr>])"
  define C4 where "C4 = C2[h1 := (C2 ! h1)\<lparr>c_size := c_size (C2 ! h1) + c_size (?C ! h2)\<rparr>,
    h2 := (C2 ! h2)\<lparr>c_next := free_chunks_list s\<rparr>]"
  have C2: "length C2 = length ?C" "C2 ! h2 = ?C ! h2"
    "C2 ! k = (?C ! k)\<lparr>c_next := (if k = h1 then ?h3 else c_next (?C ! k)),
       c_prev := (if ?h3 = Some k then Some h1 else c_prev (?C ! k))\<rparr>" for k
    using lt h12 h3 by (auto simp: C2_def Let_def nth_list_update_if split: option.split)
  have "length C4 = length ?C" by (simp add: C4_def C2(1))
  moreover have "C4 ! k = ?C ! k" if "k \<notin> L" for k
    using that hL h3 by (auto simp: C4_def nth_list_update_if C2)
  moreover have "C4 ! h2 = (?C ! h2)\<lparr>c_next := free_chunks_list s\<rparr>"
    using lt C2(1,2) by (simp add: C4_def nth_list_update_if)
  moreover have "merged ?C h1 h2 k (C4 ! k)" if "k \<in> L - {h2}" for k
    using that lt h12 by (auto simp: C4_def merged_def nth_list_update_if C2)
  moreover obtain rs' where rs': "set_handle (regions s) (c_ptr (?C ! h2)) None = Some rs'"
    and tw: "table_write (regions s) (c_ptr (?C ! h2)) None rs'"
    using set_handle_table_write [OF d(4) addressable_chunk [OF heap hL(2)]] by blast
  moreover have "Merge s h1 h2 = Some (s\<lparr>regions := rs', chunks := C4, free_chunks_list := Some h2\<rparr>)"
    using lt free h2 rs' h3 h12 unfolding C4_def C2_def
    by (cases ?h3) (simp_all add: Merge_def ChunkFromHandle_def write_chunk_def Let_def DeleteChunk_def
        erase_handle_def DeallocateChunk_def nth_list_update_if)
  ultimately show ?thesis by blast
qed

lemma bfc_inv_insert_frame:
  assumes "bfc_inv s L X" "h \<in> X"
    and nbr: "\<And>n. c_next (chunks s ! h) = Some n \<Longrightarrow> in_use (chunks s ! n) \<or> n \<in> X - {h}"
      "\<And>p. c_prev (chunks s ! h) = Some p \<Longrightarrow> in_use (chunks s ! p) \<or> p \<in> X - {h}"
  shows "\<exists>s'. InsertFreeChunkIntoBin s h = Some s' \<and> bfc_inv s' L (X - {h}) \<and> frame s L s' L"
proof -
  obtain s' where s': "InsertFreeChunkIntoBin s h = Some s'" "bfc_inv s' L (X - {h})" "regions s' = regions s"
    "\<forall>k. c_ptr (chunks s' ! k) = c_ptr (chunks s ! k) \<and> c_size (chunks s' ! k) = c_size (chunks s ! k) \<and>
      allocation_id (chunks s' ! k) = allocation_id (chunks s ! k) \<and>
      requested_size (chunks s' ! k) = requested_size (chunks s ! k)"
    using bfc_inv_insert [OF assms] by blast
  then have "used (chunks s') L = used (chunks s) L" by (simp add: used_def in_use_def)
  with s' show ?thesis by (auto simp: frame_def)
qed

lemma bfc_inv_Merge:
  assumes inv: "bfc_inv s L X" and h: "h1 \<in> X" "h2 \<in> X" and nx: "c_next (chunks s ! h1) = Some h2"
  shows "\<exists>s'. Merge s h1 h2 = Some s' \<and> bfc_inv s' (L - {h2}) (X - {h2}) \<and> frame s L s' (L - {h2}) \<and>
    (\<forall>k \<in> L - {h2}. merged (chunks s) h1 h2 k (chunks s' ! k))"
proof -
  note heap = bfc_inv_heap [OF inv]
  note d = heap_okD [OF heap]
  obtain C' rs' where r: "Merge s h1 h2 = Some (s\<lparr>regions := rs', chunks := C', free_chunks_list := Some h2\<rparr>)"
    and len: "length C' = length (chunks s)" and same: "\<And>k. k \<notin> L \<Longrightarrow> C' ! k = chunks s ! k"
    and C'2: "C' ! h2 = (chunks s ! h2)\<lparr>c_next := free_chunks_list s\<rparr>"
    and m: "\<And>k. k \<in> L - {h2} \<Longrightarrow> merged (chunks s) h1 h2 k (C' ! k)"
    and tw: "table_write (regions s) (c_ptr (chunks s ! h2)) None rs'"
    using Merge_result [OF assms] by blast
  let ?C = "chunks s" and ?s' = "s\<lparr>regions := rs', chunks := C', free_chunks_list := Some h2\<rparr>"
  have hL: "h1 \<in> L" "h2 \<in> L" and lt: "h2 < length ?C" using h d(1,2) by auto
  have free: "\<not> in_use (?C ! h1)" "\<not> in_use (?C ! h2)" using h d(3) by auto
  have "in_use (C' ! k) = in_use (?C ! k)" if "k \<in> L - {h2}" for k
    using m [OF that] by (simp add: merged_def in_use_def)
  then have used: "used C' (L - {h2}) = used ?C L" using free by (auto simp: used_def)
  have sz: "c_size (C' ! k) = c_size (?C ! k)" if k: "k \<in> used ?C L" for k
  proof -
    have "k \<in> L - {h2}" "k \<noteq> h1" using k free by (auto simp: used_def)
    then show ?thesis using m [of k] by (simp add: merged_def)
  qed
  have "heap_ok rs' C' (bins s) (L - {h2}) (X - {h2})"
    by (rule heap_ok_merge [OF heap h nx len m tw])
  moreover have "free_list_ok C' (Some h2) ({..<length C'} - (L - {h2}))"
  proof -
    have "bin_num (?C ! h2) = None" using d(9) hL h free unfolding bins_ok_def by simp
    then have "free_list_ok C' (Some h2) (insert h2 ({..<length ?C} - L))"
      using inv hL lt free same C'2 len
      by (intro free_list_push [of ?C "free_chunks_list s"]) (auto simp: bfc_inv_def in_use_def)
    moreover have "insert h2 ({..<length ?C} - L) = {..<length C'} - (L - {h2})" using lt len by auto
    ultimately show ?thesis by simp
  qed
  moreover have "ids_ok C' (L - {h2}) (next_allocation_id s)"
  proof -
    have "ids_ok ?C (L - {h2}) (next_allocation_id s)" using inv by (auto simp: bfc_inv_def ids_ok_def)
    then show ?thesis
    proof (rule ids_ok_cong)
      fix k assume k: "k \<in> L - {h2}"
      show "allocation_id (C' ! k) = allocation_id (?C ! k) \<and> (in_use (?C ! k) \<longrightarrow>
        requested_size (C' ! k) = requested_size (?C ! k) \<and> c_size (C' ! k) = c_size (?C ! k))"
        using m [OF k] sz [of k] k by (auto simp: merged_def used_def)
    qed
  qed
  moreover have "bytes_in_use (stats s) = (\<Sum>h \<in> used C' (L - {h2}). int (c_size (C' ! h)))"
    using inv used sz by (simp add: bfc_inv_def)
  ultimately have "bfc_inv ?s' (L - {h2}) (X - {h2})" by (simp add: bfc_inv_def)
  moreover have "frame s L ?s' (L - {h2})"
  proof -
    have "k \<in> L - {h2}" if "k \<in> used ?C L" for k using that free by (auto simp: used_def)
    with m sz used tw show ?thesis by (simp add: frame_def table_write_def merged_def)
  qed
  ultimately show ?thesis using m r by auto
qed

section \<open>Freeing a chunk\<close>

definition release :: "'s bfc \<Rightarrow> nat \<Rightarrow> 's bfc" where
  "release s h = s\<lparr>chunks := (chunks s)[h := (chunks s ! h)\<lparr>allocation_id := -1\<rparr>],
     stats := (stats s)\<lparr>bytes_in_use := bytes_in_use (stats s) - int (c_size (chunks s ! h))\<rparr>\<rparr>"

lemma bfc_inv_release:
  assumes inv: "bfc_inv s L {}" and h: "h \<in> L" "in_use (chunks s ! h)"
  shows "bfc_inv (release s h) L {h}" and "used (chunks (release s h)) L = used (chunks s) L - {h}"
proof -
  note heap = bfc_inv_heap [OF inv]
  note d = heap_okD [OF heap]
  let ?C = "chunks s" and ?C' = "chunks (release s h)"
  have lt: "h < length ?C" using d(1) h by auto
  have same: "c_next (?C' ! k) = c_next (?C ! k)" "c_prev (?C' ! k) = c_prev (?C ! k)" "c_ptr (?C' ! k) = c_ptr (?C ! k)"
    "c_size (?C' ! k) = c_size (?C ! k)" "bin_num (?C' ! k) = bin_num (?C ! k)"
    "requested_size (?C' ! k) = requested_size (?C ! k)"
    "in_use (?C' ! k) = (k \<noteq> h \<and> in_use (?C ! k))" "k \<noteq> h \<Longrightarrow> ?C' ! k = ?C ! k"
    for k using lt by (auto simp: release_def nth_list_update_if in_use_def)
  have bins: "bins_ok (bins s) ?C' L {h}"
  proof (rule bins_okI)
    fix b k
    show "sorted_wrt (ChunkComparator ?C') (bins s b)"
      using bins_okD(1) [OF d(9)] by (rule sorted_comparator_cong) (simp add: same)
    show "k \<in> set (bins s b) \<longleftrightarrow> k \<in> L \<and> k \<notin> {h} \<and> \<not> in_use (?C' ! k) \<and> b = BinNumForSize (c_size (?C' ! k))"
      using bins_okD(2) [OF d(9), of k b] h same by auto
    show "bin_num (?C' ! k) = (if in_use (?C' ! k) \<or> k \<in> {h} then None else Some (BinNumForSize (c_size (?C' ! k))))"
      if "k \<in> L" using bins_okD(3) [OF d(9) that] h same by auto
  qed
  have "heap_ok (regions s) ?C' (bins s) L {h}"
  proof (rule heap_okI)
    show "links_ok ?C' L" using d(5) unfolding links_ok_def same .
    show "space_ok (set (region_bounds (regions s))) ?C' L" using d(6) unfolding space_ok_def chunk_in_def same .
    show "disjoint_ok ?C' L" using d(7) unfolding disjoint_ok_def disjoint_chunks_def same .
    show "table_ok (regions s) ?C' L" using d(8) unfolding table_ok_def same .
    show "coalesced ?C' L {h}" using d(10) unfolding coalesced_def same by blast
    show "(\<Sum>h \<in> L. c_size (?C' ! h)) = (\<Sum>r \<leftarrow> region_bounds (regions s). snd r)" using d(11) unfolding same .
    show "L \<subseteq> {..<length ?C'}" using d(1) by (simp add: release_def)
  qed (use d(4) h bins same in auto)
  moreover show used: "used ?C' L = used ?C L - {h}" by (auto simp: used_def same)
  moreover have "free_list_ok ?C' (free_chunks_list s) ({..<length ?C'} - L)"
  proof -
    have "free_list_ok ?C (free_chunks_list s) ({..<length ?C'} - L)"
      using inv by (simp add: bfc_inv_def release_def)
    then show ?thesis
      by (rule free_list_ok_cong) (use h in \<open>auto simp: release_def nth_list_update_if\<close>)
  qed
  moreover have "ids_ok ?C' L (next_allocation_id s)"
    using inv unfolding bfc_inv_def ids_ok_def same by (metis same(8))
  moreover have "(\<Sum>k \<in> used ?C' L. int (c_size (?C' ! k))) =
    (\<Sum>k \<in> used ?C L. int (c_size (?C ! k))) - int (c_size (?C ! h))"
    unfolding used same using h heap_ok_finite [OF heap] by (subst sum_diff1) (auto simp: used_def)
  ultimately show "bfc_inv (release s h) L {h}"
    using inv by (simp add: bfc_inv_def release_def)
qed

text \<open>
  A free chunk that is in a bin has no free neighbours, except those the operation holds.
\<close>

lemma binned_neighbours:
  assumes heap: "heap_ok rs C bn L X" and h: "h \<in> L" "h \<notin> X" "\<not> in_use (C ! h)"
  shows "c_next (C ! h) = Some n \<Longrightarrow> in_use (C ! n) \<or> n \<in> X"
    and "c_prev (C ! h) = Some p \<Longrightarrow> in_use (C ! p) \<or> p \<in> X"
  using heap_okD(5,10) [OF heap] h unfolding links_ok_def coalesced_def by blast+

lemma next_in_front:
  assumes heap: "heap_ok rs C bn L X" and "h \<in> L" "c_next (C ! h) = Some n"
  shows "n \<in> L" "c_ptr (C ! h) < c_ptr (C ! n)" "c_prev (C ! n) = Some h"
  using links_next [OF heap_okD(5) [OF heap] assms(2,3)] heap_okD(6) [OF heap] assms(2)
  by (auto simp: space_ok_def)

lemma frame_unbin: "frame s L (unbin s h) L"
  by (simp add: frame_def used_def)

lemma in_use_frame:
  "frame s L s' L' \<Longrightarrow> k \<in> L \<Longrightarrow> in_use (chunks s ! k) \<Longrightarrow> k \<in> L' \<and> in_use (chunks s' ! k)"
  by (auto simp: frame_def used_def set_eq_iff)

lemma coalesce_next_ok:
  assumes inv: "bfc_inv s L {h}"
  shows "\<exists>s' L'. coalesce_next s h = Some s' \<and> bfc_inv s' L' {h} \<and> frame s L s' L' \<and>
    (\<forall>n. c_next (chunks s' ! h) = Some n \<longrightarrow> in_use (chunks s' ! n))"
proof -
  note heap = bfc_inv_heap [OF inv]
  have h: "h \<in> L" using heap_okD(2) [OF heap] by simp
  consider (last) "c_next (chunks s ! h) = None"
    | (taken) n where "c_next (chunks s ! h) = Some n" "in_use (chunks s ! n)"
    | (free) n where "c_next (chunks s ! h) = Some n" "\<not> in_use (chunks s ! n)" by (cases "c_next (chunks s ! h)") auto
  then show ?thesis
  proof cases
    case last
    then show ?thesis using inv heap h frame_refl by (auto simp: coalesce_next_def)
  next
    case taken
    then show ?thesis using inv heap h frame_refl next_in_front [OF heap h] by (auto simp: coalesce_next_def)
  next
    case (free n)
    note n = next_in_front [OF heap h free(1)]
    have nX: "n \<notin> {h}" using n by auto
    let ?t = "unbin s n"
    have t: "bfc_inv ?t L {n, h}" using bfc_inv_unbin [OF inv n(1) free(2)] .
    obtain s' where s': "Merge ?t h n = Some s'" "bfc_inv s' (L - {n}) ({n, h} - {n})" "frame ?t L s' (L - {n})"
      "\<forall>k \<in> L - {n}. merged (chunks ?t) h n k (chunks s' ! k)"
      using bfc_inv_Merge [OF t, of h n] free(1) by auto
    have "coalesce_next s h = Some s'"
      using heap h n(1) free s'(1) RemoveFreeChunk_unbin(1) [OF inv n(1) nX free(2)] bfc_inv_heap [OF t]
      by (simp add: coalesce_next_def)
    moreover have "{n, h} - {n} = {h}" using nX by auto
    moreover have fr: "frame s L s' (L - {n})" using frame_trans [OF frame_unbin s'(3)] .
    moreover have "in_use (chunks s' ! m)" if m: "c_next (chunks s' ! h) = Some m" for m
    proof -
      have "c_next (chunks s ! n) = Some m" using s'(4) h nX m by (auto simp: merged_def)
      then have "in_use (chunks s ! m)" "m \<in> L"
        using binned_neighbours(1) [OF heap n(1) nX free(2)] next_in_front [OF heap n(1)] n(2) by auto
      then show ?thesis using in_use_frame [OF fr] by blast
    qed
    ultimately show ?thesis using s'(2) by auto
  qed
qed

lemma coalesce_prev_ok:
  assumes inv: "bfc_inv s L {h}" and nx: "\<forall>n. c_next (chunks s ! h) = Some n \<longrightarrow> in_use (chunks s ! n)"
  shows "\<exists>s' L' h'. coalesce_prev s h = Some (h', s') \<and> bfc_inv s' L' {h'} \<and> frame s L s' L' \<and>
    (\<forall>n. c_next (chunks s' ! h') = Some n \<longrightarrow> in_use (chunks s' ! n)) \<and>
    (\<forall>p. c_prev (chunks s' ! h') = Some p \<longrightarrow> in_use (chunks s' ! p))"
proof -
  note heap = bfc_inv_heap [OF inv]
  have h: "h \<in> L" using heap_okD(2) [OF heap] by simp
  have prev: "p \<in> L" "c_next (chunks s ! p) = Some h" if "c_prev (chunks s ! h) = Some p" for p
    using links_prev [OF heap_okD(5) [OF heap] h that] by auto
  consider (first) "c_prev (chunks s ! h) = None"
    | (taken) p where "c_prev (chunks s ! h) = Some p" "in_use (chunks s ! p)"
    | (free) p where "c_prev (chunks s ! h) = Some p" "\<not> in_use (chunks s ! p)" by (cases "c_prev (chunks s ! h)") auto
  then show ?thesis
  proof cases
    case first
    then show ?thesis using inv heap h nx frame_refl by (auto simp: coalesce_prev_def)
  next
    case taken
    then show ?thesis using inv heap h nx prev frame_refl by (auto simp: coalesce_prev_def)
  next
    case (free p)
    note p = prev [OF free(1)]
    have pX: "p \<notin> {h}" using next_in_front [OF heap p] by auto
    let ?t = "unbin s p"
    have t: "bfc_inv ?t L {p, h}" using bfc_inv_unbin [OF inv p(1) free(2)] .
    obtain s' where s': "Merge ?t p h = Some s'" "bfc_inv s' (L - {h}) ({p, h} - {h})" "frame ?t L s' (L - {h})"
      "\<forall>k \<in> L - {h}. merged (chunks ?t) p h k (chunks s' ! k)"
      using bfc_inv_Merge [OF t, of p h] p(2) by auto
    have "coalesce_prev s h = Some (p, s')"
      using heap h p(1) free s'(1) RemoveFreeChunk_unbin(1) [OF inv p(1) pX free(2)] bfc_inv_heap [OF t]
      by (simp add: coalesce_prev_def)
    moreover have "{p, h} - {h} = {p}" using pX by auto
    moreover have fr: "frame s L s' (L - {h})" using frame_trans [OF frame_unbin s'(3)] .
    moreover have "in_use (chunks s' ! m)" if m: "c_next (chunks s' ! p) = Some m" for m
    proof -
      have "c_next (chunks s ! h) = Some m" using s'(4) p(1) pX m by (auto simp: merged_def)
      then show ?thesis using nx next_in_front [OF heap h] in_use_frame [OF fr] by blast
    qed
    moreover have "in_use (chunks s' ! q)" if q: "c_prev (chunks s' ! p) = Some q" for q
    proof -
      have "c_next (chunks s ! h) \<noteq> Some p"
        using next_in_front(2) [OF heap p] next_in_front(2) [OF heap h] by force
      then have q': "c_prev (chunks s ! p) = Some q" using s'(4) p(1) pX q by (auto simp: merged_def)
      note qL = links_prev [OF heap_okD(5) [OF heap] p(1) q']
      have "q \<noteq> h" using qL p(2) next_in_front(2) [OF heap, of q p] next_in_front(2) [OF heap p] by auto
      then show ?thesis
        using binned_neighbours(2) [OF heap p(1) pX free(2) q'] qL in_use_frame [OF fr] by blast
    qed
    ultimately show ?thesis using s'(2) by auto
  qed
qed

lemma FreeAndMaybeCoalesce_ok:
  assumes inv: "bfc_inv s L {}" and h: "h \<in> L" "in_use (chunks s ! h)"
  shows "\<exists>s' L'. FreeAndMaybeCoalesce s h = Some s' \<and> bfc_inv s' L' {} \<and> frame (release s h) L s' L'"
proof -
  note heap = bfc_inv_heap [OF inv]
  let ?r = "release s h"
  have r: "bfc_inv ?r L {h}" by (rule bfc_inv_release [OF inv h])
  obtain s1 L1 where s1: "coalesce_next ?r h = Some s1" "bfc_inv s1 L1 {h}" "frame ?r L s1 L1"
    "\<forall>n. c_next (chunks s1 ! h) = Some n \<longrightarrow> in_use (chunks s1 ! n)"
    using coalesce_next_ok [OF r] by blast
  obtain s2 L2 h2 where s2: "coalesce_prev s1 h = Some (h2, s2)" "bfc_inv s2 L2 {h2}" "frame s1 L1 s2 L2"
    "\<forall>n. c_next (chunks s2 ! h2) = Some n \<longrightarrow> in_use (chunks s2 ! n)"
    "\<forall>p. c_prev (chunks s2 ! h2) = Some p \<longrightarrow> in_use (chunks s2 ! p)"
    using coalesce_prev_ok [OF s1(2,4)] by blast
  obtain s3 where s3: "InsertFreeChunkIntoBin s2 h2 = Some s3" "bfc_inv s3 L2 ({h2} - {h2})"
    "frame s2 L2 s3 L2"
    using bfc_inv_insert_frame [OF s2(2), of h2] s2(4,5) by auto
  have "bin_num (chunks s ! h) = None"
    using bins_okD(3) [OF heap_okD(9) [OF heap] h(1)] h(2) by simp
  then have "FreeAndMaybeCoalesce s h = Some s3"
    using heap h s1(1) s2(1) s3(1) by (simp add: FreeAndMaybeCoalesce_def write_chunk_def release_def)
  then show ?thesis using s3(2,3) frame_trans [OF frame_trans [OF s1(3) s2(3)]] by auto
qed

end
