(* ===== verification/Bfc_Split.thy ===== *)
theory Bfc_Split
  imports Bfc_Invariant
begin

text \<open>
  Preservation of the allocator's invariant by the operations that make chunks: taking a
  handle from the free list, splitting a chunk, granting a chunk, and recording a new
  region.
\<close>

section \<open>Taking a chunk handle\<close>

text \<open>
  \<open>AllocateChunk\<close> returns a handle outside the live ones and leaves every live chunk as it
  is. The handle's record is recycled or new: in neither case in use or in a bin.
\<close>

definition handle_taken :: "'s bfc \<Rightarrow> nat set \<Rightarrow> nat \<Rightarrow> 's bfc \<Rightarrow> bool" where
  "handle_taken s L h s' \<longleftrightarrow> h \<notin> L \<and> h < length (chunks s') \<and> length (chunks s) \<le> length (chunks s') \<and>
     (\<forall>k < length (chunks s). chunks s' ! k = chunks s ! k) \<and>
     \<not> in_use (chunks s' ! h) \<and> bin_num (chunks s' ! h) = None \<and>
     free_list_ok (chunks s') (free_chunks_list s') ({..<length (chunks s')} - insert h L)"

lemma chain_head: "chain C (Some h) hs \<Longrightarrow> \<exists>hs'. hs = h # hs' \<and> chain C (c_next (C ! h)) hs'"
  by (cases hs) auto

lemma chain_None: "chain C None hs \<Longrightarrow> hs = []"
  by (cases hs) auto

lemma AllocateChunk_taken:
  assumes f: "free_list_ok (chunks s) (free_chunks_list s) ({..<length (chunks s)} - L)"
    and L: "L \<subseteq> {..<length (chunks s)}"
  shows "\<exists>h C' f'. AllocateChunk s = Some (h, s\<lparr>chunks := C', free_chunks_list := f'\<rparr>) \<and>
    handle_taken s L h (s\<lparr>chunks := C', free_chunks_list := f'\<rparr>)"
proof (cases "free_chunks_list s")
  case (Some h)
  with f obtain hs where hs: "chain (chunks s) (c_next (chunks s ! h)) hs" "distinct (h # hs)"
    "set (h # hs) = {..<length (chunks s)} - L"
    by (auto simp: free_list_ok_def dest!: chain_head)
  then have rest: "set hs = {..<length (chunks s)} - insert h L" by auto
  have h: "h \<notin> L" "h < length (chunks s)" using hs(3) by (auto simp: set_eq_iff)
  have "handle_taken s L h (s\<lparr>free_chunks_list := c_next (chunks s ! h)\<rparr>)"
    using f h hs rest by (auto simp: handle_taken_def free_list_ok_def)
  moreover have "AllocateChunk s = Some (h, s\<lparr>free_chunks_list := c_next (chunks s ! h)\<rparr>)"
    using Some h by (simp add: AllocateChunk_def ChunkFromHandle_def)
  moreover have "s\<lparr>chunks := chunks s, free_chunks_list := f'\<rparr> = s\<lparr>free_chunks_list := f'\<rparr>" for f' by simp
  ultimately show ?thesis by metis
next
  case None
  let ?h = "length (chunks s)"
  let ?s = "s\<lparr>chunks := chunks s @ [new_Chunk], free_chunks_list := free_chunks_list s\<rparr>"
  have "{..<length (chunks s)} - L = {}" using f None by (auto simp: free_list_ok_def dest!: chain_None)
  then have "L = {..<?h}" using L by auto
  then have "handle_taken s L ?h ?s"
    using None by (auto simp: handle_taken_def free_list_ok_def nth_append new_Chunk_def in_use_def
        intro!: exI [of _ "[]"])
  moreover have "AllocateChunk s = Some (?h, ?s)" using None by (simp add: AllocateChunk_def)
  ultimately show ?thesis by blast
qed

section \<open>Splitting\<close>

text \<open>The fields of the chunks after the tail of \<open>h\<close> from byte \<open>n\<close> on became chunk \<open>hn\<close>.\<close>

definition split_off :: "chunk list \<Rightarrow> nat \<Rightarrow> nat \<Rightarrow> nat \<Rightarrow> chunk list \<Rightarrow> bool" where
  "split_off C h hn n C' \<longleftrightarrow>
     c_ptr (C' ! hn) = c_ptr (C ! h) + n \<and> c_size (C' ! hn) = c_size (C ! h) - n \<and>
     c_prev (C' ! hn) = Some h \<and> c_next (C' ! hn) = c_next (C ! h) \<and>
     bin_num (C' ! hn) = None \<and> allocation_id (C' ! hn) = -1 \<and>
     c_size (C' ! h) = n \<and> c_next (C' ! h) = Some hn"

definition split_rest :: "chunk list \<Rightarrow> nat \<Rightarrow> nat \<Rightarrow> nat \<Rightarrow> chunk \<Rightarrow> bool" where
  "split_rest C h hn k c \<longleftrightarrow>
     (k \<noteq> h \<longrightarrow> c_size c = c_size (C ! k) \<and> c_next c = c_next (C ! k)) \<and>
     c_prev c = (if c_next (C ! h) = Some k then Some hn else c_prev (C ! k)) \<and>
     c_ptr c = c_ptr (C ! k) \<and> bin_num c = bin_num (C ! k) \<and>
     allocation_id c = allocation_id (C ! k) \<and> requested_size c = requested_size (C ! k)"

lemma links_split:
  assumes links: "links_ok C L" and h: "h \<in> L" "hn \<notin> L"
    and so: "split_off C h hn n C'" "\<And>k. k \<in> L \<Longrightarrow> split_rest C h hn k (C' ! k)"
    and n: "n < c_size (C ! h)"
  shows "links_ok C' (insert hn L)"
  unfolding links_ok_def
proof (intro ballI conjI allI impI)
  note new = so(1) [unfolded split_off_def]
  note rest = so(2) [unfolded split_rest_def]
  fix k assume k: "k \<in> insert hn L"
  { fix m assume m: "c_next (C' ! k) = Some m"
    consider (hn) "k = hn" | (h) "k = h" | (other) "k \<in> L" "k \<noteq> h" "k \<noteq> hn" using k h by blast
    then have "m \<in> insert hn L \<and> c_prev (C' ! m) = Some k \<and> c_ptr (C' ! m) = c_ptr (C' ! k) + c_size (C' ! k)"
    proof cases
      case hn
      then have "c_next (C ! h) = Some m" using m new by simp
      note l = links_next [OF links h(1) this]
      show ?thesis using l rest [of m] hn new \<open>c_next (C ! h) = Some m\<close> n by auto
    next
      case h
      then show ?thesis using m new rest [of h] assms(2) by auto
    next
      case other
      then have m': "c_next (C ! k) = Some m" using rest [of k] m by simp
      note l = links_next [OF links other(1) m']
      have "c_next (C ! h) \<noteq> Some m" using links_next [OF links h(1), of m] l other by auto
      then show ?thesis using l rest [of m] rest [of k] other by auto
    qed }
  then show "\<And>m. c_next (C' ! k) = Some m \<Longrightarrow> m \<in> insert hn L"
    "\<And>m. c_next (C' ! k) = Some m \<Longrightarrow> c_prev (C' ! m) = Some k"
    "\<And>m. c_next (C' ! k) = Some m \<Longrightarrow> c_ptr (C' ! m) = c_ptr (C' ! k) + c_size (C' ! k)" by blast+
  fix p assume p: "c_prev (C' ! k) = Some p"
  have "p \<in> insert hn L \<and> c_next (C' ! p) = Some k"
  proof (cases "k = hn")
    case True
    then show ?thesis using p new h by auto
  next
    case False
    then have kL: "k \<in> L" using k by simp
    show ?thesis
    proof (cases "c_next (C ! h) = Some k")
      case True
      then show ?thesis using rest [OF kL] p new by simp
    next
      case nk: False
      then have "c_prev (C ! k) = Some p" using rest [OF kL] p by simp
      note l = links_prev [OF links kL this]
      then have "p \<noteq> h" using nk by auto
      then show ?thesis using l rest [of p] by simp
    qed
  qed
  then show "p \<in> insert hn L" "c_next (C' ! p) = Some k" by blast+
qed

lemma space_split:
  assumes heap: "heap_ok rs C bn L X" and h: "h \<in> L" "hn \<notin> L"
    and so: "split_off C h hn n C'" "\<And>k. k \<in> L \<Longrightarrow> split_rest C h hn k (C' ! k)"
    and n: "0 < n" "n < c_size (C ! h)" "256 dvd n"
  shows "space_ok (set (region_bounds rs)) C' (insert hn L)"
  unfolding space_ok_def
proof (intro ballI)
  note new = so(1) [unfolded split_off_def]
  note rest = so(2) [unfolded split_rest_def]
  note d = heap_okD [OF heap]
  fix k assume k: "k \<in> insert hn L"
  obtain r where r: "r \<in> set (region_bounds rs)" "chunk_in r (C ! h)" "256 dvd c_size (C ! h)"
    using d(6) h unfolding space_ok_def by blast
  consider (hn) "k = hn" | (h) "k = h" | (other) "k \<in> L" "k \<noteq> h" "k \<noteq> hn" using k h by blast
  then show "0 < c_size (C' ! k) \<and> 256 dvd c_size (C' ! k) \<and> (\<exists>r\<in>set (region_bounds rs). chunk_in r (C' ! k))"
  proof cases
    case hn
    have c: "fst r \<le> c_ptr (C ! h)" "c_ptr (C ! h) + c_size (C ! h) \<le> fst r + snd r" "256 dvd (c_ptr (C ! h) - fst r)"
      "c_next (C ! h) = None \<longleftrightarrow> c_ptr (C ! h) + c_size (C ! h) = fst r + snd r"
      using r(2) unfolding chunk_in_def by blast+
    have "c_ptr (C ! h) + n - fst r = (c_ptr (C ! h) - fst r) + n" using c(1) by simp
    then have "256 dvd (c_ptr (C' ! hn) - fst r)" using new c(3) n(3) by (metis dvd_add)
    moreover have "c_ptr (C' ! hn) + c_size (C' ! hn) = c_ptr (C ! h) + c_size (C ! h)" using new n(2) by simp
    moreover have "c_prev (C' ! hn) \<noteq> None" "c_ptr (C' ! hn) \<noteq> fst r" "fst r \<le> c_ptr (C' ! hn)"
      using new c(1) n(1) by simp_all
    ultimately have "chunk_in r (C' ! hn)" using c new unfolding chunk_in_def by metis
    then show ?thesis using hn new n r by (auto simp: dvd_diff_nat)
  next
    case h
    have "c_next (C ! h) \<noteq> Some h" using links_next [OF d(5) assms(2), of h] n by auto
    then have "chunk_in r (C' ! h)" using r(2) n new rest [OF assms(2)] by (auto simp: chunk_in_def)
    then show ?thesis using h new n r by auto
  next
    case other
    obtain q where q: "q \<in> set (region_bounds rs)" "chunk_in q (C ! k)" "0 < c_size (C ! k)" "256 dvd c_size (C ! k)"
      using d(6) other unfolding space_ok_def by blast
    have "c_prev (C' ! k) = None \<longleftrightarrow> c_prev (C ! k) = None"
      using rest [OF other(1)] links_next [OF d(5) assms(2), of k] by auto
    then have "chunk_in q (C' ! k)" using q(2) rest [OF other(1)] other by (auto simp: chunk_in_def)
    then show ?thesis using q rest [OF other(1)] other by auto
  qed
qed

lemma disjoint_split:
  assumes disj: "disjoint_ok C L" and h: "h \<in> L" "hn \<notin> L"
    and so: "split_off C h hn n C'" "\<And>k. k \<in> L \<Longrightarrow> split_rest C h hn k (C' ! k)"
    and n: "n < c_size (C ! h)"
  shows "disjoint_ok C' (insert hn L)"
proof -
  note new = so(1) [unfolded split_off_def]
  note rest = so(2) [unfolded split_rest_def]
  have sym: "disjoint_chunks c e \<longleftrightarrow> disjoint_chunks e c" for c e by (auto simp: disjoint_chunks_def)
  have old: "disjoint_chunks (C ! a) (C ! b)" if "a \<in> L" "b \<in> L" "a \<noteq> b" for a b
    using disj that unfolding disjoint_ok_def by blast
  have hn: "disjoint_chunks (C' ! hn) (C' ! k)" if k: "k \<in> L" for k
    using old [OF h(1) k] rest [OF k] new n by (cases "k = h") (auto simp: disjoint_chunks_def)
  have inL: "disjoint_chunks (C' ! a) (C' ! b)" if "a \<in> L" "b \<in> L" "a \<noteq> b" for a b
    using old [OF that] rest [OF that(1)] rest [OF that(2)] new n that
    by (cases "a = h"; cases "b = h") (auto simp: disjoint_chunks_def)
  show ?thesis unfolding disjoint_ok_def using hn inL sym by blast
qed

lemma bins_split:
  assumes b: "bins_ok bn C L X" and h: "h \<in> X" "hn \<notin> L" "X \<subseteq> L"
    and so: "split_off C h hn n C'" "\<And>k. k \<in> L \<Longrightarrow> split_rest C h hn k (C' ! k)"
  shows "bins_ok bn C' (insert hn L) (insert hn X)"
proof (rule bins_okI)
  note new = so(1) [unfolded split_off_def]
  have rest: "in_use (C' ! k) = in_use (C ! k)" "bin_num (C' ! k) = bin_num (C ! k)" "c_ptr (C' ! k) = c_ptr (C ! k)"
    "k \<noteq> h \<Longrightarrow> c_size (C' ! k) = c_size (C ! k)" if "k \<in> L" for k
    using so(2) [OF that] by (auto simp: split_rest_def in_use_def)
  fix k b'
  show "sorted_wrt (ChunkComparator C') (bn b')"
    using bins_okD(1) [OF b] by (rule sorted_comparator_cong) (use rest bins_okD(2) [OF b] h(1) in blast)
  show "k \<in> set (bn b') \<longleftrightarrow> k \<in> insert hn L \<and> k \<notin> insert hn X \<and> \<not> in_use (C' ! k) \<and> b' = BinNumForSize (c_size (C' ! k))"
    using bins_okD(2) [OF b, of k b'] rest [of k] h by (cases "k = h"; cases "k \<in> L") auto
  assume k: "k \<in> insert hn L"
  show "bin_num (C' ! k) =
    (if in_use (C' ! k) \<or> k \<in> insert hn X then None else Some (BinNumForSize (c_size (C' ! k))))"
  proof (cases "k = hn")
    case True
    then show ?thesis using new by simp
  next
    case False
    then have "k \<in> L" using k by simp
    then show ?thesis using bins_okD(3) [OF b, of k] rest [of k] h False by (cases "k = h") auto
  qed
qed

lemma split_sum:
  assumes "finite L" "h \<in> L" "hn \<notin> L" "n \<le> c_size (C ! h)"
    and so: "split_off C h hn n C'" "\<And>k. k \<in> L \<Longrightarrow> split_rest C h hn k (C' ! k)"
  shows "(\<Sum>k \<in> insert hn L. c_size (C' ! k)) = (\<Sum>k \<in> L. c_size (C ! k))"
proof -
  have "(\<Sum>k \<in> insert hn L. c_size (C' ! k)) = c_size (C' ! hn) + (c_size (C' ! h) + (\<Sum>k \<in> L - {h}. c_size (C' ! k)))"
    using assms(1-3) by (simp add: sum.remove)
  also have "(\<Sum>k \<in> L - {h}. c_size (C' ! k)) = (\<Sum>k \<in> L - {h}. c_size (C ! k))"
    using so(2) by (intro sum.cong) (auto simp: split_rest_def)
  also have "c_size (C' ! hn) + (c_size (C' ! h) + (\<Sum>k \<in> L - {h}. c_size (C ! k))) = (\<Sum>k \<in> L. c_size (C ! k))"
    using assms(1,2,4) so(1) by (simp add: split_off_def sum.remove [of L h])
  finally show ?thesis .
qed

lemma table_split:
  assumes heap: "heap_ok rs C bn L X" and h: "h \<in> L" "hn \<notin> L"
    and so: "split_off C h hn n C'" "\<And>k. k \<in> L \<Longrightarrow> split_rest C h hn k (C' ! k)"
    and n: "0 < n" "n < c_size (C ! h)"
    and tw: "table_write rs (c_ptr (C ! h) + n) (Some hn) rs'" and addr: "addressable rs (c_ptr (C ! h) + n)"
  shows "table_ok rs' C' (insert hn L)"
proof -
  note d = heap_okD [OF heap]
  note t = tw [unfolded table_write_def]
  have old: "get_handle rs (c_ptr (C ! k)) = Some (Some k)" "addressable rs (c_ptr (C ! k))"
    "c_ptr (C' ! k) = c_ptr (C ! k)" if "k \<in> L" for k
    using d(8) that addressable_chunk [OF heap that] so(2) [OF that] unfolding table_ok_def split_rest_def by blast+
  have new: "c_ptr (C' ! hn) = c_ptr (C ! h) + n" using so(1) by (simp add: split_off_def)
  have apart: "c_ptr (C ! k) \<noteq> c_ptr (C ! h) + n" if k: "k \<in> L" for k
  proof (cases "k = h")
    case False
    then have "disjoint_chunks (C ! k) (C ! h)" using d(7) k h(1) unfolding disjoint_ok_def by blast
    moreover have "0 < c_size (C ! k)" using d(6) k unfolding space_ok_def by blast
    ultimately show ?thesis using n by (auto simp: disjoint_chunks_def)
  qed (use n in simp)
  show ?thesis
    unfolding table_ok_def
  proof (intro conjI ballI allI impI)
    fix k assume "k \<in> insert hn L"
    then show "get_handle rs' (c_ptr (C' ! k)) = Some (Some k)"
      using old [of k] apart [of k] new t addr by auto
  next
    fix p k assume p: "addressable rs' p" "get_handle rs' p = Some (Some k)"
    then have "p = c_ptr (C ! h) + n \<and> k = hn \<or> addressable rs p \<and> get_handle rs p = Some (Some k)"
      using t by (auto split: if_splits)
    then have "p = c_ptr (C ! h) + n \<and> k = hn \<or> k \<in> L \<and> c_ptr (C ! k) = p"
      using d(8) unfolding table_ok_def by blast
    then show "k \<in> insert hn L" "c_ptr (C' ! k) = p" using old(3) new by auto
  qed
qed

lemma heap_ok_split:
  assumes heap: "heap_ok rs C bn L X" and h: "h \<in> X" "hn \<notin> L"
    and len: "length C \<le> length C'" "hn < length C'"
    and so: "split_off C h hn n C'" "\<And>k. k \<in> L \<Longrightarrow> split_rest C h hn k (C' ! k)"
    and n: "0 < n" "n < c_size (C ! h)" "256 dvd n"
    and tw: "table_write rs (c_ptr (C ! h) + n) (Some hn) rs'" and addr: "addressable rs (c_ptr (C ! h) + n)"
  shows "heap_ok rs' C' bn (insert hn L) (insert hn X)"
proof (rule heap_okI)
  note d = heap_okD [OF heap]
  note t = tw [unfolded table_write_def]
  have hL: "h \<in> L" using h d(2) by auto
  have iu: "in_use (C' ! k) = in_use (C ! k)" if "k \<in> L" for k
    using so(2) [OF that] by (simp add: split_rest_def in_use_def)
  show "links_ok C' (insert hn L)" by (rule links_split [OF d(5) hL h(2) so n(2)])
  show "space_ok (set (region_bounds rs')) C' (insert hn L)"
    using space_split [OF heap hL h(2) so n] t by simp
  show "disjoint_ok C' (insert hn L)" by (rule disjoint_split [OF d(7) hL h(2) so n(2)])
  show "table_ok rs' C' (insert hn L)" by (rule table_split [OF heap hL h(2) so n(1,2) tw addr])
  show "bins_ok bn C' (insert hn L) (insert hn X)" by (rule bins_split [OF d(9) h d(2) so])
  show "(\<Sum>k \<in> insert hn L. c_size (C' ! k)) = (\<Sum>r \<leftarrow> region_bounds rs'. snd r)"
    using split_sum [OF heap_ok_finite [OF heap] hL h(2) less_imp_le [OF n(2)] so] d(11) t by simp
  show "coalesced C' (insert hn L) (insert hn X)"
    unfolding coalesced_def
  proof (intro ballI allI impI)
    fix k m assume k: "k \<in> insert hn L" and m: "c_next (C' ! k) = Some m"
    consider "k = hn \<or> k = h" | (other) "k \<in> L" "k \<noteq> h" using k by blast
    then show "in_use (C' ! k) \<or> in_use (C' ! m) \<or> k \<in> insert hn X \<or> m \<in> insert hn X"
    proof cases
      case other
      then have m': "c_next (C ! k) = Some m" using so(2) [OF other(1)] m by (simp add: split_rest_def)
      then have "m \<in> L" using links_next [OF d(5) other(1)] by blast
      with other m' show ?thesis using d(10) iu unfolding coalesced_def by blast
    qed (use h in auto)
  qed
  show "\<not> in_use (C' ! k)" if "k \<in> insert hn X" for k
  proof (cases "k = hn")
    case True
    then show ?thesis using so(1) by (simp add: split_off_def in_use_def)
  next
    case False
    then have "k \<in> X" using that by simp
    then show ?thesis using d(3) [of k] d(2) iu [of k] by blast
  qed
  show "insert hn L \<subseteq> {..<length C'}" using d(1) len by auto
  show "insert hn X \<subseteq> insert hn L" using d(2) by auto
  show "regions_ok rs'" using t by blast
qed

lemma addressable_inside:
  assumes heap: "heap_ok rs C bn L X" and h: "h \<in> L" and n: "n < c_size (C ! h)" "256 dvd n"
  shows "addressable rs (c_ptr (C ! h) + n)"
proof -
  obtain r where r: "r \<in> set rs" "chunk_in (r_ptr r, memory_size r) (C ! h)"
    using heap_okD(6) [OF heap] h by (auto simp: space_ok_def region_bounds_def)
  have e: "end_ptr r = r_ptr r + memory_size r"
    using heap_okD(4) [OF heap] r(1) by (auto simp: regions_ok_def list_all_iff region_ok_def)
  have c: "r_ptr r \<le> c_ptr (C ! h)" "c_ptr (C ! h) + c_size (C ! h) \<le> r_ptr r + memory_size r"
    "256 dvd (c_ptr (C ! h) - r_ptr r)" using r(2) by (auto simp: chunk_in_def)
  then have "c_ptr (C ! h) + n - r_ptr r = (c_ptr (C ! h) - r_ptr r) + n" by simp
  then have "256 dvd (c_ptr (C ! h) + n - r_ptr r)" using c(3) n(2) by (metis dvd_add)
  then have "in_region r (c_ptr (C ! h) + n)" using c e n(1) by (simp add: in_region_def)
  with r(1) show ?thesis by (auto simp: addressable_def)
qed

lemma SplitChunk_result:
  assumes inv: "bfc_inv s L X" and h: "h \<in> X" and n: "n < c_size (chunks s ! h)" "256 dvd n"
  shows "\<exists>hn C' rs' f'. SplitChunk s h n =
      InsertFreeChunkIntoBin (s\<lparr>free_chunks_list := f', regions := rs', chunks := C'\<rparr>) hn \<and>
    hn \<notin> L \<and> hn < length C' \<and> length (chunks s) \<le> length C' \<and> split_off (chunks s) h hn n C' \<and>
    (\<forall>k \<in> L. split_rest (chunks s) h hn k (C' ! k)) \<and>
    table_write (regions s) (c_ptr (chunks s ! h) + n) (Some hn) rs' \<and>
    free_list_ok C' f' ({..<length C'} - insert hn L)"
proof -
  note heap = bfc_inv_heap [OF inv]
  note d = heap_okD [OF heap]
  let ?C = "chunks s" and ?nb = "c_next (chunks s ! h)" and ?p = "c_ptr (chunks s ! h) + n"
  have hL: "h \<in> L" "\<not> in_use (?C ! h)" using h d(2,3) by auto
  have lt: "h < length ?C" using hL d(1) by auto
  have bn: "bin_num (?C ! h) = None" using bins_okD(3) [OF d(9) hL(1)] h by simp
  have "free_list_ok ?C (free_chunks_list s) ({..<length ?C} - L)" using inv by (simp add: bfc_inv_def)
  then obtain hn C0 f' where a: "AllocateChunk s = Some (hn, s\<lparr>chunks := C0, free_chunks_list := f'\<rparr>)"
    and taken: "handle_taken s L hn (s\<lparr>chunks := C0, free_chunks_list := f'\<rparr>)"
    using AllocateChunk_taken [OF _ d(1)] by blast
  have hn: "hn \<notin> L" "hn < length C0" "length ?C \<le> length C0" "\<And>k. k < length ?C \<Longrightarrow> C0 ! k = ?C ! k"
    "bin_num (C0 ! hn) = None" "free_list_ok C0 f' ({..<length C0} - insert hn L)"
    using taken by (auto simp: handle_taken_def)
  have hh: "h \<noteq> hn" "h < length C0" "C0 ! h = ?C ! h" using hL(1) hn lt by auto
  have nb: "b \<in> L" "b \<noteq> hn" "b \<noteq> h" "b < length C0" "C0 ! b = ?C ! b" if "?nb = Some b" for b
  proof -
    note l = links_next [OF d(5) hL(1) that]
    show "b \<in> L" "b \<noteq> hn" "b \<noteq> h" using l hn(1) n(1) by auto
    then show "b < length C0" "C0 ! b = ?C ! b" using d(1) hn(3,4) by auto
  qed
  obtain rs' where rs': "set_handle (regions s) ?p (Some hn) = Some rs'"
    and tw: "table_write (regions s) ?p (Some hn) rs'"
    using set_handle_table_write [OF d(4) addressable_inside [OF heap hL(1) n]] by blast
  define C6 where "C6 = C0[hn := (C0 ! hn)\<lparr>c_ptr := ?p, c_size := c_size (?C ! h) - n, allocation_id := -1,
    c_prev := Some h, c_next := ?nb\<rparr>, h := (C0 ! h)\<lparr>c_size := n, c_next := Some hn\<rparr>]"
  define C7 where "C7 = (case ?nb of None \<Rightarrow> C6 | Some b \<Rightarrow> C6[b := (C6 ! b)\<lparr>c_prev := Some hn\<rparr>])"
  have C7: "length C7 = length C0" "C7 ! hn = (C0 ! hn)\<lparr>c_ptr := ?p, c_size := c_size (?C ! h) - n, allocation_id := -1,
      c_prev := Some h, c_next := ?nb\<rparr>" "C7 ! h = (?C ! h)\<lparr>c_size := n, c_next := Some hn\<rparr>"
    using hn hh nb by (auto simp: C7_def C6_def nth_list_update_if split: option.split)
  have rest: "C7 ! k = (C0 ! k)\<lparr>c_prev := (if ?nb = Some k then Some hn else c_prev (C0 ! k))\<rparr>"
    if "k \<noteq> h" "k \<noteq> hn" for k
    using that hn(2) hh nb by (auto simp: C7_def C6_def nth_list_update_if split: option.split)
  have "C0[hn := a, h := b, hn := c, h := e] = C0[hn := c, h := e]" for a b c e
    using hh(1) by (intro nth_equalityI) (auto simp: nth_list_update_if)
  then have "SplitChunk s h n = InsertFreeChunkIntoBin (s\<lparr>free_chunks_list := f', regions := rs', chunks := C7\<rparr>) hn"
    using a hn hh hL(2) bn rs' nb unfolding C7_def C6_def
    by (cases ?nb) (simp_all add: SplitChunk_def ChunkFromHandle_def write_chunk_def Let_def nth_list_update_if)
  moreover have "split_off ?C h hn n C7" using C7 hn(5) by (simp add: split_off_def)
  moreover have "split_rest ?C h hn k (C7 ! k)" if k: "k \<in> L" for k
  proof (cases "k = h")
    case True
    then show ?thesis using C7(3) nb by (auto simp: split_rest_def)
  next
    case False
    have "k \<noteq> hn" "C0 ! k = ?C ! k" using k hn(1,4) d(1) by auto
    then show ?thesis using rest [OF False] by (simp add: split_rest_def)
  qed
  moreover have "free_list_ok C7 f' ({..<length C7} - insert hn L)"
  proof -
    have "C7 ! k = C0 ! k" if k: "k \<notin> L" "k \<noteq> hn" for k
    proof -
      have "k \<noteq> h" "?nb \<noteq> Some k" using k(1) hL(1) nb(1) by auto
      then show ?thesis using rest [of k] k(2) by simp
    qed
    note same = this
    have "free_list_ok C0 f' ({..<length C7} - insert hn L)" using hn(6) C7(1) by simp
    then show ?thesis by (rule free_list_ok_cong) (use C7(1) same in auto)
  qed
  moreover have "hn < length C7" "length ?C \<le> length C7" using hn(2,3) C7(1) by simp_all
  ultimately show ?thesis using hn(1) tw
    by (intro exI [of _ hn] exI [of _ C7] exI [of _ rs'] exI [of _ f'] conjI ballI)
qed

lemma SplitChunk_ok:
  assumes inv: "bfc_inv s L X" and h: "h \<in> X" and n: "0 < n" "n < c_size (chunks s ! h)" "256 dvd n"
    and nbr: "\<And>b. c_next (chunks s ! h) = Some b \<Longrightarrow> in_use (chunks s ! b) \<or> b \<in> X"
  shows "\<exists>s' hn. SplitChunk s h n = Some s' \<and> hn \<notin> L \<and> bfc_inv s' (insert hn L) X \<and> frame s L s' (insert hn L) \<and>
    c_size (chunks s' ! h) = n \<and> c_ptr (chunks s' ! h) = c_ptr (chunks s ! h) \<and>
    next_allocation_id s' = next_allocation_id s \<and> stats s' = stats s"
proof -
  note heap = bfc_inv_heap [OF inv]
  note d = heap_okD [OF heap]
  obtain hn C' rs' f' where r: "SplitChunk s h n =
      InsertFreeChunkIntoBin (s\<lparr>free_chunks_list := f', regions := rs', chunks := C'\<rparr>) hn"
    and hn: "hn \<notin> L" "hn < length C'" "length (chunks s) \<le> length C'"
    and so: "split_off (chunks s) h hn n C'" "\<And>k. k \<in> L \<Longrightarrow> split_rest (chunks s) h hn k (C' ! k)"
    and tw: "table_write (regions s) (c_ptr (chunks s ! h) + n) (Some hn) rs'"
    and fl: "free_list_ok C' f' ({..<length C'} - insert hn L)"
    using SplitChunk_result [OF inv h n(2,3)] by blast
  let ?t = "s\<lparr>free_chunks_list := f', regions := rs', chunks := C'\<rparr>"
  have hL: "h \<in> L" "\<not> in_use (chunks s ! h)" using h d(2,3) by auto
  have heap': "heap_ok rs' C' (bins s) (insert hn L) (insert hn X)"
    by (rule heap_ok_split [OF heap h hn(1,3,2) so n tw addressable_inside [OF heap hL(1) n(2,3)]])
  have same: "allocation_id (C' ! k) = allocation_id (chunks s ! k)" "in_use (C' ! k) = in_use (chunks s ! k)"
    "requested_size (C' ! k) = requested_size (chunks s ! k)" "c_ptr (C' ! k) = c_ptr (chunks s ! k)"
    "k \<noteq> h \<Longrightarrow> c_size (C' ! k) = c_size (chunks s ! k)" if "k \<in> L" for k
    using so(2) [OF that] by (auto simp: split_rest_def in_use_def)
  have new: "\<not> in_use (C' ! hn)" "c_prev (C' ! hn) = Some h" "c_next (C' ! hn) = c_next (chunks s ! h)" "c_size (C' ! h) = n"
    using so(1) by (auto simp: split_off_def in_use_def)
  have used: "used C' (insert hn L) = used (chunks s) L" using same(2) new(1) by (auto simp: used_def)
  have usz: "c_size (C' ! k) = c_size (chunks s ! k)" if "k \<in> used (chunks s) L" for k
    using that same(5) [of k] hL(2) by (auto simp: used_def)
  have "ids_ok C' (insert hn L) (next_allocation_id s)"
    using inv same new(1) usz unfolding bfc_inv_def ids_ok_def used_def by (auto; metis)
  moreover have "bytes_in_use (stats s) = (\<Sum>k \<in> used C' (insert hn L). int (c_size (C' ! k)))"
    using inv used usz by (simp add: bfc_inv_def)
  ultimately have inv': "bfc_inv ?t (insert hn L) (insert hn X)" using heap' fl by (simp add: bfc_inv_def)
  have XL: "hn \<notin> X" "insert hn X - {hn} = X" using d(2) hn(1) by auto
  have nb: "in_use (C' ! b) \<or> b \<in> insert hn X - {hn}" if "c_next (chunks s ! h) = Some b" for b
    using nbr [OF that] same(2) [of b] links_next [OF d(5) hL(1) that] XL by auto
  obtain s' where s': "InsertFreeChunkIntoBin ?t hn = Some s'" "bfc_inv s' (insert hn L) (insert hn X - {hn})"
    "regions s' = rs'" "next_allocation_id s' = next_allocation_id s" "stats s' = stats s"
    "\<And>k. c_ptr (chunks s' ! k) = c_ptr (C' ! k) \<and> c_size (chunks s' ! k) = c_size (C' ! k) \<and>
      allocation_id (chunks s' ! k) = allocation_id (C' ! k) \<and> requested_size (chunks s' ! k) = requested_size (C' ! k)"
    using bfc_inv_insert [OF inv', of hn] new nb h XL by auto
  have "frame s L s' (insert hn L)"
  proof -
    have "used (chunks s') (insert hn L) = used (chunks s) L"
      using used s'(6) by (simp add: used_def in_use_def)
    then show ?thesis using s'(3,6) same usz tw by (auto simp: frame_def table_write_def used_def)
  qed
  then show ?thesis using r s' hn(1) XL(2) new(4) same(4) [OF hL(1)] by auto
qed

end
