(* ===== verification/Bfc_Grant.thy ===== *)
theory Bfc_Grant
  imports Bfc_Split
begin

text \<open>
  Granting a chunk, the arithmetic of the bins, the best-fit search and \<open>FindChunkPtr\<close>.
\<close>

section \<open>Granting a chunk\<close>

text \<open>The state after chunk \<open>h\<close> was granted: one more used chunk, the others as they were.\<close>

definition granted :: "'s bfc \<Rightarrow> nat set \<Rightarrow> nat \<Rightarrow> nat \<Rightarrow> 's bfc \<Rightarrow> nat set \<Rightarrow> bool" where
  "granted s L h req s' L' \<longleftrightarrow> used (chunks s') L' = insert h (used (chunks s) L) \<and> h \<notin> used (chunks s) L \<and>
     region_bounds (regions s') = region_bounds (regions s) \<and>
     requested_size (chunks s' ! h) = req \<and> req \<le> c_size (chunks s' ! h) \<and>
     allocation_id (chunks s' ! h) = next_allocation_id s \<and>
     next_allocation_id s' = next_allocation_id s + 1 \<and>
     num_allocs (stats s') = num_allocs (stats s) + 1 \<and>
     max_bytes_in_use (stats s') = max (max_bytes_in_use (stats s)) (bytes_in_use (stats s')) \<and>
     (\<forall>k \<in> used (chunks s) L. c_ptr (chunks s' ! k) = c_ptr (chunks s ! k) \<and>
        c_size (chunks s' ! k) = c_size (chunks s ! k) \<and>
        requested_size (chunks s' ! k) = requested_size (chunks s ! k) \<and>
        allocation_id (chunks s' ! k) = allocation_id (chunks s ! k))"

lemma grant_heap:
  assumes heap: "heap_ok rs C bn L {h}" and h: "h \<in> L"
    and C': "C' = C[h := (C ! h)\<lparr>requested_size := req, allocation_id := i\<rparr>]" and i: "i \<noteq> -1"
  shows "heap_ok rs C' bn L {}"
proof -
  note d = heap_okD [OF heap]
  have lt: "h < length C" using d(1) h by auto
  have same: "c_next (C' ! k) = c_next (C ! k)" "c_prev (C' ! k) = c_prev (C ! k)" "c_ptr (C' ! k) = c_ptr (C ! k)"
    "c_size (C' ! k) = c_size (C ! k)" "bin_num (C' ! k) = bin_num (C ! k)"
    "in_use (C' ! k) = (k = h \<or> in_use (C ! k))" for k
    using lt i by (auto simp: C' nth_list_update_if in_use_def)
  have bins: "bins_ok bn C' L {}"
  proof (rule bins_okI)
    fix b k
    show "sorted_wrt (ChunkComparator C') (bn b)"
      using bins_okD(1) [OF d(9)] by (rule sorted_comparator_cong) (simp add: same)
    show "k \<in> set (bn b) \<longleftrightarrow> k \<in> L \<and> k \<notin> {} \<and> \<not> in_use (C' ! k) \<and> b = BinNumForSize (c_size (C' ! k))"
      using bins_okD(2) [OF d(9), of k b] same by auto
    show "bin_num (C' ! k) = (if in_use (C' ! k) \<or> k \<in> {} then None else Some (BinNumForSize (c_size (C' ! k))))"
      if "k \<in> L" using bins_okD(3) [OF d(9) that] same by auto
  qed
  show ?thesis
  proof (rule heap_okI)
    show "links_ok C' L" using d(5) unfolding links_ok_def same .
    show "space_ok (set (region_bounds rs)) C' L" using d(6) unfolding space_ok_def chunk_in_def same .
    show "disjoint_ok C' L" using d(7) unfolding disjoint_ok_def disjoint_chunks_def same .
    show "table_ok rs C' L" using d(8) unfolding table_ok_def same .
    show "coalesced C' L {}" using d(10) unfolding coalesced_def same by blast
    show "(\<Sum>h \<in> L. c_size (C' ! h)) = (\<Sum>r \<leftarrow> region_bounds rs. snd r)" using d(11) unfolding same .
    show "L \<subseteq> {..<length C'}" using d(1) by (simp add: C')
  qed (use d(4) bins in auto)
qed

lemma ids_ok_grant:
  assumes ids: "ids_ok C L i" and h: "allocation_id (C' ! h) = i" "requested_size (C' ! h) \<le> c_size (C' ! h)"
    and k: "\<And>k. k \<noteq> h \<Longrightarrow> C' ! k = C ! k"
  shows "ids_ok C' L (i + 1)"
proof -
  have old: "0 < i" "\<And>k. k \<in> L \<Longrightarrow> in_use (C ! k) \<Longrightarrow>
      0 < allocation_id (C ! k) \<and> allocation_id (C ! k) < i \<and> requested_size (C ! k) \<le> c_size (C ! k)"
    "\<And>k m. k \<in> L \<Longrightarrow> m \<in> L \<Longrightarrow> in_use (C ! k) \<Longrightarrow> in_use (C ! m) \<Longrightarrow>
      allocation_id (C ! k) = allocation_id (C ! m) \<Longrightarrow> k = m"
    using ids unfolding ids_ok_def by blast+
  have bound: "0 < allocation_id (C' ! m) \<and> allocation_id (C' ! m) < i + 1 \<and> requested_size (C' ! m) \<le> c_size (C' ! m)"
    if m: "m \<in> L" "in_use (C' ! m)" for m
  proof (cases "m = h")
    case False
    then show ?thesis using old(2) [OF m(1)] m(2) k [OF False] by simp
  qed (use h old(1) in simp)
  have inj: "m = m'" if "m \<in> L" "m' \<in> L" "in_use (C' ! m)" "in_use (C' ! m')"
    "allocation_id (C' ! m) = allocation_id (C' ! m')" for m m'
  proof (cases "m = h \<or> m' = h")
    case True
    then show ?thesis
      using that h(1) k [of m] k [of m'] old(2) [of m] old(2) [of m'] by (cases "m = m'") auto
  next
    case False
    then show ?thesis using that old(3) k by simp
  qed
  show ?thesis unfolding ids_ok_def using old(1) bound inj by (intro conjI ballI impI) auto
qed

lemma grant_ok:
  assumes inv: "bfc_inv s L {h}" and req: "req \<le> c_size (chunks s ! h)"
  shows "\<exists>s'. grant_chunk s h req = Some (Some (c_ptr (chunks s ! h)), s') \<and> bfc_inv s' L {} \<and>
    granted s L h req s' L \<and> c_ptr (chunks s' ! h) = c_ptr (chunks s ! h) \<and>
    c_size (chunks s' ! h) = c_size (chunks s ! h) \<and> regions s' = regions s"
proof -
  note heap = bfc_inv_heap [OF inv]
  note d = heap_okD [OF heap]
  let ?C = "chunks s" and ?i = "next_allocation_id s"
  define C' where "C' = ?C[h := (?C ! h)\<lparr>requested_size := req, allocation_id := ?i\<rparr>]"
  have h: "h \<in> L" "\<not> in_use (?C ! h)" using d(2) d(3) by auto
  have lt: "h < length ?C" using d(1) h by auto
  have ids: "ids_ok ?C L ?i" using inv by (simp add: bfc_inv_def)
  then have pos: "0 < ?i" by (simp add: ids_ok_def)
  have C'h: "requested_size (C' ! h) = req" "allocation_id (C' ! h) = ?i" "c_ptr (C' ! h) = c_ptr (?C ! h)"
    "c_size (C' ! h) = c_size (?C ! h)" "in_use (C' ! h)"
    and C'k: "\<And>k. k \<noteq> h \<Longrightarrow> C' ! k = ?C ! k" and len: "length C' = length ?C"
    using lt pos by (auto simp: C'_def in_use_def)
  have used: "used C' L = insert h (used ?C L)" "h \<notin> used ?C L"
    using h C'h(5) C'k by (auto simp: used_def) (metis)
  have keep: "C' ! k = ?C ! k" if "k \<in> used ?C L" for k using that used(2) C'k by metis
  have fin: "finite (used ?C L)" using heap_ok_finite [OF heap] by (auto simp: used_def)
  obtain s' where s': "grant_chunk s h req = Some (Some (c_ptr (?C ! h)), s')"
    "chunks s' = C'" "regions s' = regions s" "bins s' = bins s" "free_chunks_list s' = free_chunks_list s"
    "next_allocation_id s' = ?i + 1" "num_allocs (stats s') = num_allocs (stats s) + 1"
    "bytes_in_use (stats s') = bytes_in_use (stats s) + int (c_size (?C ! h))"
    "max_bytes_in_use (stats s') = max (max_bytes_in_use (stats s)) (bytes_in_use (stats s'))"
    using lt by (simp add: grant_chunk_def ChunkFromHandle_def write_chunk_def Let_def C'_def nth_list_update_if)
  have "free_list_ok C' (free_chunks_list s) ({..<length C'} - L)"
  proof -
    have "free_list_ok ?C (free_chunks_list s) ({..<length C'} - L)" using inv len by (simp add: bfc_inv_def)
    then show ?thesis by (rule free_list_ok_cong) (simp add: len, metis C'k h(1) DiffD2)
  qed
  moreover have "ids_ok C' L (?i + 1)"
    using ids_ok_grant [OF ids C'h(2)] C'k C'h(1,4) req by simp
  moreover have "(\<Sum>k \<in> used C' L. int (c_size (C' ! k))) =
      (\<Sum>k \<in> used ?C L. int (c_size (?C ! k))) + int (c_size (?C ! h))"
  proof -
    have "(\<Sum>k \<in> used ?C L. int (c_size (C' ! k))) = (\<Sum>k \<in> used ?C L. int (c_size (?C ! k)))"
      using keep by (intro sum.cong) auto
    then show ?thesis using fin used(2) C'h by (simp add: used(1))
  qed
  ultimately have "bfc_inv s' L {}"
    using grant_heap [OF heap h(1) C'_def] pos inv s' by (simp add: bfc_inv_def)
  moreover have "granted s L h req s' L"
    using s' used C'h keep req by (simp add: granted_def)
  ultimately show ?thesis using s' C'h by auto
qed

section \<open>Bin arithmetic\<close>

lemma log2_floor_bounds: "0 < n \<Longrightarrow> 2 ^ log2_floor n \<le> n \<and> n < 2 * 2 ^ log2_floor n"
proof (induction n rule: log2_floor.induct)
  case (1 n)
  show ?case
  proof (cases "n < 2")
    case True
    then show ?thesis using 1 by (subst (1 2) log2_floor.simps) auto
  next
    case False
    then have "0 < n div 2" by auto
    with 1(1) [OF False] have "2 ^ log2_floor (n div 2) \<le> n div 2 \<and> n div 2 < 2 * 2 ^ log2_floor (n div 2)" by blast
    then show ?thesis using False by (subst (1 2) log2_floor.simps) auto
  qed
qed

lemma log2_floor_mono: "m \<le> n \<Longrightarrow> log2_floor m \<le> log2_floor n"
proof (induction m arbitrary: n rule: log2_floor.induct)
  case (1 m)
  then show ?case
    using div_le_mono [OF 1(2), of 2] by (subst (1 2) log2_floor.simps) auto
qed

lemma log2_floor_unique:
  assumes "2 ^ k \<le> n" "n < 2 * 2 ^ k"
  shows "log2_floor n = k"
proof -
  have "0 < n" using assms(1) by (metis gr0I le_zero_eq power_not_zero zero_neq_numeral)
  note b = log2_floor_bounds [OF this]
  have "(2::nat) ^ k < 2 ^ Suc (log2_floor n)" "(2::nat) ^ log2_floor n < 2 ^ Suc k"
    using le_less_trans [OF assms(1) conjunct2 [OF b]] le_less_trans [OF conjunct1 [OF b] assms(2)]
    unfolding power_Suc by blast+
  then have "k < Suc (log2_floor n)" "log2_floor n < Suc k" by (simp_all only: power_strict_increasing_iff one_less_numeral_iff semiring_norm)
  then show ?thesis by simp
qed

lemma xor_63: "k < 64 \<Longrightarrow> (63::nat) XOR (63 - k) = k"
proof -
  have "list_all (\<lambda>k. (63::nat) XOR (63 - k) = k) [0..<64]" by code_simp
  then show "k < 64 \<Longrightarrow> (63::nat) XOR (63 - k) = k" by (simp add: list_all_iff)
qed

lemma Log2FloorNonZero_log2: "0 < n \<Longrightarrow> n < 2 ^ 64 \<Longrightarrow> Log2FloorNonZero n = log2_floor n"
proof -
  assume n: "0 < n" "n < 2 ^ 64"
  have "(2::nat) ^ log2_floor n < 2 ^ 64" using log2_floor_bounds [OF n(1)] n(2) by linarith
  then have "log2_floor n < 64" by (rule power_less_imp_less_exp [rotated]) simp
  then show ?thesis by (simp add: Log2FloorNonZero_def builtin_clzll_def xor_63)
qed

lemma BinNumForSize_log2:
  assumes "n < 2 ^ 64"
  shows "BinNumForSize n = min 20 (log2_floor (max n 256 div 256))"
proof -
  have "0 < max n 256 div 256" "max n 256 div 256 < 2 ^ 64" using assms by auto
  then show ?thesis by (simp add: BinNumForSize_def Log2FloorNonZero_log2)
qed

lemma BinNumForSize_mono: "m \<le> n \<Longrightarrow> n < 2 ^ 64 \<Longrightarrow> BinNumForSize m \<le> BinNumForSize n"
  by (simp add: BinNumForSize_log2 min.coboundedI2 min_le_iff_disj log2_floor_mono div_le_mono)

lemma BinNumForSize_less: "BinNumForSize n < 21"
  by (simp add: BinNumForSize_def Let_def)

section \<open>The best-fit search\<close>

lemma search_bins_Some:
  "search_bins s r bs = Some (b, h) \<Longrightarrow>
   (\<exists>pre post. bs = pre @ b # post \<and> (\<forall>b' \<in> set pre. \<forall>k \<in> set (bins s b'). c_size (chunks s ! k) < r)) \<and>
   (\<exists>hs hs'. bins s b = hs @ h # hs' \<and> (\<forall>k \<in> set hs. c_size (chunks s ! k) < r)) \<and> r \<le> c_size (chunks s ! h)"
proof (induction bs)
  case (Cons b' bs)
  show ?case
  proof (cases "List.find (\<lambda>h. r \<le> c_size (chunks s ! h)) (bins s b')")
    case None
    then have "\<forall>k \<in> set (bins s b'). c_size (chunks s ! k) < r" by (auto simp: find_None_iff)
    moreover obtain pre post where "bs = pre @ b # post" "\<forall>b' \<in> set pre. \<forall>k \<in> set (bins s b'). c_size (chunks s ! k) < r"
      using Cons None by auto
    ultimately have "b' # bs = (b' # pre) @ b # post \<and>
      (\<forall>b'' \<in> set (b' # pre). \<forall>k \<in> set (bins s b''). c_size (chunks s ! k) < r)" by simp
    then show ?thesis using Cons None by (metis option.simps(4) search_bins.simps(2))
  next
    case (Some k)
    then have "b' = b" "k = h" using Cons.prems by auto
    with Some obtain i where i: "i < length (bins s b)" "r \<le> c_size (chunks s ! h)" "h = bins s b ! i"
      "\<And>j. j < i \<Longrightarrow> c_size (chunks s ! (bins s b ! j)) < r" unfolding find_Some_iff by (metis not_le)
    have "bins s b = take i (bins s b) @ h # drop (Suc i) (bins s b)" using id_take_nth_drop [OF i(1)] i(3) by simp
    moreover have "\<forall>k \<in> set (take i (bins s b)). c_size (chunks s ! k) < r" using i(1,4) by (auto simp: in_set_conv_nth)
    moreover have "b' # bs = [] @ b # bs" using \<open>b' = b\<close> by simp
    ultimately show ?thesis using i(2) by (metis empty_iff empty_set)
  qed
qed simp

lemma search_bins_None:
  "search_bins s r bs = None \<Longrightarrow> b \<in> set bs \<Longrightarrow> k \<in> set (bins s b) \<Longrightarrow> c_size (chunks s ! k) < r"
  by (induction bs) (auto split: option.splits simp: find_None_iff not_le)

text \<open>A chunk of a well-formed heap is smaller than the address space.\<close>

lemma chunk_size_bound:
  assumes heap: "heap_ok rs C bn L X" and k: "k \<in> L"
  shows "c_size (C ! k) \<le> 2 ^ 39" "0 < c_size (C ! k)" "256 dvd c_size (C ! k)"
proof -
  obtain r where r: "r \<in> set rs" "chunk_in (r_ptr r, memory_size r) (C ! k)"
    using heap_okD(6) [OF heap] k by (auto simp: space_ok_def region_bounds_def)
  have "region_ok r" using heap_okD(4) [OF heap] r(1) by (auto simp: regions_ok_def list_all_iff)
  then show "c_size (C ! k) \<le> 2 ^ 39" using r(2) by (auto simp: chunk_in_def region_ok_def)
  show "0 < c_size (C ! k)" "256 dvd c_size (C ! k)"
    using heap_okD(6) [OF heap] k unfolding space_ok_def by blast+
qed

text \<open>The chunk found is the smallest free chunk that fits, the lowest one among equals.\<close>

lemma search_best_fit:
  assumes inv: "bfc_inv s L {}" and found: "search_bins s r [BinNumForSize r..<21] = Some (b, h)"
  shows "h \<in> L" "\<not> in_use (chunks s ! h)" "b = BinNumForSize (c_size (chunks s ! h))" "r \<le> c_size (chunks s ! h)"
    and "\<And>k. k \<in> L \<Longrightarrow> \<not> in_use (chunks s ! k) \<Longrightarrow> r \<le> c_size (chunks s ! k) \<Longrightarrow>
      k = h \<or> ChunkComparator (chunks s) h k"
proof -
  note heap = bfc_inv_heap [OF inv]
  note bo = heap_okD(9) [OF heap]
  let ?sz = "\<lambda>k. c_size (chunks s ! k)"
  obtain pre post where bs: "[BinNumForSize r..<21] = pre @ b # post"
    "\<And>b' k. b' \<in> set pre \<Longrightarrow> k \<in> set (bins s b') \<Longrightarrow> ?sz k < r"
    using search_bins_Some [OF found] by blast
  obtain hs hs' where hs: "bins s b = hs @ h # hs'" "\<And>k. k \<in> set hs \<Longrightarrow> ?sz k < r"
    using search_bins_Some [OF found] by blast
  show r: "r \<le> ?sz h" using search_bins_Some [OF found] by blast
  have "h \<in> set (bins s b)" by (simp add: hs(1))
  then show h: "h \<in> L" "\<not> in_use (chunks s ! h)" "b = BinNumForSize (?sz h)" using bins_okD(2) [OF bo] by auto
  fix k assume k: "k \<in> L" "\<not> in_use (chunks s ! k)" "r \<le> ?sz k"
  then have kb: "k \<in> set (bins s (BinNumForSize (?sz k)))" using bins_okD(2) [OF bo] by auto
  have small: "?sz m < 2 ^ 64" if "m \<in> L" for m using chunk_size_bound(1) [OF heap that] by simp
  have "BinNumForSize (?sz k) \<in> set [BinNumForSize r..<21]"
    using BinNumForSize_mono [OF k(3) small [OF k(1)]] BinNumForSize_less by simp
  then consider (pre) "BinNumForSize (?sz k) \<in> set pre" | (same) "BinNumForSize (?sz k) = b"
    | (post) "BinNumForSize (?sz k) \<in> set post" unfolding bs(1) by auto
  then show "k = h \<or> ChunkComparator (chunks s) h k"
  proof cases
    case pre
    then show ?thesis using bs(2) [OF pre kb] k(3) by simp
  next
    case same
    then consider "k \<in> set hs" | "k = h" | "k \<in> set hs'" using kb hs(1) by auto
    then show ?thesis
      using hs bins_okD(1) [OF bo, of b] k(3) by cases (auto simp: sorted_wrt_append dest: leD)
  next
    case post
    have "sorted_wrt (<) (pre @ b # post)" unfolding bs(1) [symmetric] by (rule sorted_wrt_upt)
    then have "b < BinNumForSize (?sz k)" using post by (auto simp: sorted_wrt_append)
    then have "?sz h < ?sz k" using BinNumForSize_mono [OF _ small [OF h(1)], of "?sz k"] h(3) by (meson not_le)
    then show ?thesis by (simp add: ChunkComparator_def)
  qed
qed

lemma granted_frame:
  assumes "frame s L t M" "granted t M h req s' L'" "next_allocation_id t = next_allocation_id s" "stats t = stats s"
  shows "granted s L h req s' L'"
  using assms unfolding frame_def granted_def by auto

lemma FindChunkPtr_none:
  assumes inv: "bfc_inv s L {}" and none: "search_bins s r [BinNumForSize r..<21] = None"
  shows "FindChunkPtr s (BinNumForSize r) r req = Some (None, s)"
    and "k \<in> L \<Longrightarrow> \<not> in_use (chunks s ! k) \<Longrightarrow> c_size (chunks s ! k) < r"
proof -
  note heap = bfc_inv_heap [OF inv]
  show "FindChunkPtr s (BinNumForSize r) r req = Some (None, s)" using none by (simp add: FindChunkPtr_def)
  assume k: "k \<in> L" "\<not> in_use (chunks s ! k)"
  let ?b = "BinNumForSize (c_size (chunks s ! k))"
  have "k \<in> set (bins s ?b)" using bins_okD(2) [OF heap_okD(9) [OF heap]] k by auto
  moreover have "?b \<in> set [BinNumForSize r..<21]" if "r \<le> c_size (chunks s ! k)"
    using BinNumForSize_mono [OF that] chunk_size_bound(1) [OF heap k(1)] BinNumForSize_less by simp
  ultimately show "c_size (chunks s ! k) < r" using search_bins_None [OF none] by (meson not_le)
qed

lemma FindChunkPtr_some:
  assumes inv: "bfc_inv s L {}" and found: "search_bins s r [BinNumForSize r..<21] = Some (b, h)"
    and r: "0 < r" "256 dvd r" "req \<le> r"
  shows "\<exists>s' L'. FindChunkPtr s (BinNumForSize r) r req = Some (Some (c_ptr (chunks s ! h)), s') \<and>
    bfc_inv s' L' {} \<and> granted s L h req s' L' \<and> c_ptr (chunks s' ! h) = c_ptr (chunks s ! h) \<and>
    c_size (chunks s' ! h) = (if 2 * r \<le> c_size (chunks s ! h) then r else c_size (chunks s ! h))"
proof -
  note heap = bfc_inv_heap [OF inv]
  note f = search_best_fit [OF inv found]
  let ?t = "unbin s h" and ?sz = "c_size (chunks s ! h)"
  have rm: "RemoveFreeChunkIterFromBin s b h = Some ?t"
    using RemoveFreeChunk_unbin(2) [OF inv f(1) _ f(2)] f(3) by simp
  have t: "bfc_inv ?t L {h}" using bfc_inv_unbin [OF inv f(1,2)] .
  note theap = bfc_inv_heap [OF t]
  have wrap: "r * 2 mod 2 ^ 64 = 2 * r" using f(4) chunk_size_bound(1) [OF heap f(1)] by simp
  have start: "FindChunkPtr s (BinNumForSize r) r req =
    (if 2 * r \<le> ?sz then SplitChunk ?t h r else Some ?t) \<bind> (\<lambda>s. grant_chunk s h req)"
    using found rm ChunkFromHandle_live [OF theap f(1)] wrap by (simp add: FindChunkPtr_def)
  show ?thesis
  proof (cases "2 * r \<le> ?sz")
    case True
    have nb: "in_use (chunks ?t ! n) \<or> n \<in> {h}" if "c_next (chunks ?t ! h) = Some n" for n
      using binned_neighbours(1) [OF heap f(1) _ f(2)] that by simp
    obtain u hn where u: "SplitChunk ?t h r = Some u" "bfc_inv u (insert hn L) {h}" "frame ?t L u (insert hn L)"
      "c_size (chunks u ! h) = r" "c_ptr (chunks u ! h) = c_ptr (chunks ?t ! h)"
      "next_allocation_id u = next_allocation_id ?t" "stats u = stats ?t"
      using SplitChunk_ok [OF t, of h r] r nb True by auto
    obtain s' where s': "grant_chunk u h req = Some (Some (c_ptr (chunks u ! h)), s')" "bfc_inv s' (insert hn L) {}"
      "granted u (insert hn L) h req s' (insert hn L)" "c_ptr (chunks s' ! h) = c_ptr (chunks u ! h)"
      "c_size (chunks s' ! h) = c_size (chunks u ! h)"
      using grant_ok [OF u(2), of req] r(3) u(4) by auto
    have "granted s L h req s' (insert hn L)"
      by (rule granted_frame [OF frame_trans [OF frame_unbin u(3)] s'(3)]) (simp_all add: u)
    then show ?thesis using start True u s' by auto
  next
    case False
    obtain s' where s': "grant_chunk ?t h req = Some (Some (c_ptr (chunks ?t ! h)), s')" "bfc_inv s' L {}"
      "granted ?t L h req s' L" "c_ptr (chunks s' ! h) = c_ptr (chunks ?t ! h)"
      "c_size (chunks s' ! h) = c_size (chunks ?t ! h)"
      using grant_ok [OF t, of req] r(3) f(4) by auto
    have "granted s L h req s' L" by (rule granted_frame [OF frame_unbin s'(3)]) simp_all
    then show ?thesis using start False s' by auto
  qed
qed

end
