(* ===== verification/Bfc_Extend.thy ===== *)
theory Bfc_Extend
  imports Bfc_Grant
begin

text \<open>
  Growing the arena: \<open>Extend\<close> records a block obtained from the sub-allocator as a new
  region with one free chunk. The arithmetic of the growth and of the backpedalling is
  bounded here, and the cases in which the two loops return are identified.
\<close>

section \<open>Recording a region\<close>

lemma region_bounds_Add:
  "set (region_bounds (AddAllocationRegion rs p n)) = insert (p, n) (set (region_bounds rs))"
  "(\<Sum>r \<leftarrow> region_bounds (AddAllocationRegion rs p n). snd r) = n + (\<Sum>r \<leftarrow> region_bounds rs. snd r)"
proof -
  show "set (region_bounds (AddAllocationRegion rs p n)) = insert (p, n) (set (region_bounds rs))"
    using AddAllocationRegion_set [of rs p n] by (simp add: region_bounds_def AllocationRegion_def)
  let ?u = "upper_bound rs p"
  have "(\<Sum>r \<leftarrow> region_bounds rs. snd r) = (\<Sum>r \<leftarrow> take ?u rs @ drop ?u rs. memory_size r)"
    by (simp add: region_bounds_def comp_def)
  then show "(\<Sum>r \<leftarrow> region_bounds (AddAllocationRegion rs p n). snd r) = n + (\<Sum>r \<leftarrow> region_bounds rs. snd r)"
    by (simp add: region_bounds_def AddAllocationRegion_def AllocationRegion_def Let_def comp_def del: append_take_drop_id)
qed

text \<open>The chunk list after a block of \<open>n\<close> bytes at \<open>p\<close> was recorded as chunk \<open>h\<close>.\<close>

definition block_added :: "chunk list \<Rightarrow> nat set \<Rightarrow> nat \<Rightarrow> nat \<Rightarrow> nat \<Rightarrow> chunk list \<Rightarrow> bool" where
  "block_added C L h p n C' \<longleftrightarrow> h \<notin> L \<and> h < length C' \<and> length C \<le> length C' \<and> (\<forall>k \<in> L. C' ! k = C ! k) \<and>
     c_ptr (C' ! h) = p \<and> c_size (C' ! h) = n \<and> allocation_id (C' ! h) = -1 \<and>
     c_prev (C' ! h) = None \<and> c_next (C' ! h) = None \<and> bin_num (C' ! h) = None"

lemma block_added_disjoint:
  assumes heap: "heap_ok rs C bn L {}" and fresh: "fresh_block rs p n" and k: "k \<in> L"
  shows "c_ptr (C ! k) + c_size (C ! k) \<le> p \<or> p + n \<le> c_ptr (C ! k)"
proof -
  obtain r where r: "r \<in> set rs" "chunk_in (r_ptr r, memory_size r) (C ! k)"
    using heap_okD(6) [OF heap] k by (auto simp: space_ok_def region_bounds_def)
  have "end_ptr r = r_ptr r + memory_size r"
    using heap_okD(4) [OF heap] r(1) by (auto simp: regions_ok_def list_all_iff region_ok_def)
  moreover have "p + n \<le> r_ptr r \<or> end_ptr r \<le> p" using fresh r(1) by (simp add: fresh_block_def)
  ultimately show ?thesis using r(2) by (auto simp: chunk_in_def)
qed

lemma table_add:
  assumes heap: "heap_ok rs C bn L {}" and fresh: "fresh_block rs p n" and b: "block_added C L h p n C'"
    and tw: "table_write (AddAllocationRegion rs p n) p (Some h) rs'"
  shows "table_ok rs' C' (insert h L)"
proof -
  note d = heap_okD [OF heap]
  note t = tw [unfolded table_write_def]
  note bb = b [unfolded block_added_def]
  note g = get_handle_Add [OF d(4) fresh]
  have inp: "in_region (AllocationRegion p n) p"
    using fresh by (simp add: fresh_block_def in_region_def AllocationRegion_def)
  have old: "get_handle rs' (c_ptr (C ! k)) = Some (Some k)" if k: "k \<in> L" for k
  proof -
    note a = addressable_chunk [OF heap k]
    have "c_ptr (C ! k) \<noteq> p" using a g(2) [OF inp] by auto
    moreover have "addressable (AddAllocationRegion rs p n) (c_ptr (C ! k))" using a by (simp add: addressable_Add)
    ultimately have "get_handle rs' (c_ptr (C ! k)) = get_handle (AddAllocationRegion rs p n) (c_ptr (C ! k))"
      using t by auto
    then show ?thesis using g(1) [OF a] d(8) k unfolding table_ok_def by simp
  qed
  have new: "get_handle rs' p = Some (Some h)" using t inp by (simp add: addressable_Add)
  have rev: "q = p \<and> k = h \<or> k \<in> L \<and> c_ptr (C ! k) = q"
    if q: "addressable (AddAllocationRegion rs p n) q" "get_handle rs' q = Some (Some k)" for q k
  proof (cases "q = p")
    case True
    then show ?thesis using q new by simp
  next
    case False
    then have gq: "get_handle (AddAllocationRegion rs p n) q = Some (Some k)" using q t by auto
    then have "addressable rs q" using q(1) g(2) [of q] by (auto simp: addressable_Add)
    then show ?thesis using gq g(1) [of q] d(8) unfolding table_ok_def by metis
  qed
  show ?thesis unfolding table_ok_def
  proof (intro conjI ballI allI impI)
    show "get_handle rs' (c_ptr (C' ! k)) = Some (Some k)" if "k \<in> insert h L" for k
      using that old [of k] new bb by auto
    fix q k assume "addressable rs' q" "get_handle rs' q = Some (Some k)"
    with rev [of q k] t have "q = p \<and> k = h \<or> k \<in> L \<and> c_ptr (C ! k) = q" by simp
    then show "k \<in> insert h L" "c_ptr (C' ! k) = q" using bb by auto
  qed
qed

lemma heap_ok_add:
  assumes heap: "heap_ok rs C bn L {}" and fresh: "fresh_block rs p n" and b: "block_added C L h p n C'"
    and tw: "table_write (AddAllocationRegion rs p n) p (Some h) rs'"
  shows "heap_ok rs' C' bn (insert h L) {h}"
proof (rule heap_okI)
  note d = heap_okD [OF heap]
  note t = tw [unfolded table_write_def]
  note bb = b [unfolded block_added_def]
  have old: "C' ! k = C ! k" if "k \<in> L" for k using bb that by blast
  have oldn: "c_next (C' ! k) = Some m \<Longrightarrow> C' ! m = C ! m \<and> C' ! k = C ! k \<and> k \<in> L \<and> m \<in> L"
    "c_prev (C' ! k) = Some m \<Longrightarrow> C' ! m = C ! m \<and> C' ! k = C ! k \<and> k \<in> L \<and> m \<in> L"
    if "k \<in> insert h L" for k m
    using that bb old links_next [OF d(5), of k m] links_prev [OF d(5), of k m] by auto
  show "links_ok C' (insert h L)"
    unfolding links_ok_def
  proof (intro ballI conjI allI impI)
    fix k m assume k: "k \<in> insert h L"
    { assume "c_next (C' ! k) = Some m"
      with oldn(1) [OF k this] links_next [OF d(5), of k m]
      have "m \<in> L \<and> c_prev (C' ! m) = Some k \<and> c_ptr (C' ! m) = c_ptr (C' ! k) + c_size (C' ! k)" by auto }
    then show "c_next (C' ! k) = Some m \<Longrightarrow> m \<in> insert h L" "c_next (C' ! k) = Some m \<Longrightarrow> c_prev (C' ! m) = Some k"
      "c_next (C' ! k) = Some m \<Longrightarrow> c_ptr (C' ! m) = c_ptr (C' ! k) + c_size (C' ! k)" by blast+
    { assume "c_prev (C' ! k) = Some m"
      with oldn(2) [OF k this] links_prev [OF d(5), of k m] have "m \<in> L \<and> c_next (C' ! m) = Some k" by auto }
    then show "c_prev (C' ! k) = Some m \<Longrightarrow> m \<in> insert h L" "c_prev (C' ! k) = Some m \<Longrightarrow> c_next (C' ! m) = Some k" by blast+
  qed
  have rb: "set (region_bounds rs') = insert (p, n) (set (region_bounds rs))"
    "(\<Sum>r \<leftarrow> region_bounds rs'. snd r) = n + (\<Sum>r \<leftarrow> region_bounds rs. snd r)"
    using t region_bounds_Add by simp_all
  show "space_ok (set (region_bounds rs')) C' (insert h L)"
    using d(6) old bb fresh unfolding space_ok_def rb(1) by (auto simp: chunk_in_def fresh_block_def)
  show "disjoint_ok C' (insert h L)"
    using d(7) old bb block_added_disjoint [OF heap fresh] unfolding disjoint_ok_def disjoint_chunks_def by auto
  show "table_ok rs' C' (insert h L)" by (rule table_add [OF assms])
  show "bins_ok bn C' (insert h L) {h}"
  proof (rule bins_okI)
    fix b k
    show "sorted_wrt (ChunkComparator C') (bn b)"
      using bins_okD(1) [OF d(9)] by (rule sorted_comparator_cong) (use old bins_okD(2) [OF d(9)] in auto)
    show "k \<in> set (bn b) \<longleftrightarrow> k \<in> insert h L \<and> k \<notin> {h} \<and> \<not> in_use (C' ! k) \<and> b = BinNumForSize (c_size (C' ! k))"
      using bins_okD(2) [OF d(9), of k b] old [of k] bb by auto
    show "bin_num (C' ! k) = (if in_use (C' ! k) \<or> k \<in> {h} then None else Some (BinNumForSize (c_size (C' ! k))))"
      if "k \<in> insert h L" using bins_okD(3) [OF d(9), of k] old [of k] bb that by auto
  qed
  show "coalesced C' (insert h L) {h}"
    unfolding coalesced_def
  proof (intro ballI allI impI)
    fix k m assume "k \<in> insert h L" "c_next (C' ! k) = Some m"
    with oldn(1) [OF this] d(10) show "in_use (C' ! k) \<or> in_use (C' ! m) \<or> k \<in> {h} \<or> m \<in> {h}"
      unfolding coalesced_def by auto
  qed
  have "(\<Sum>k \<in> L. c_size (C' ! k)) = (\<Sum>k \<in> L. c_size (C ! k))" using old by simp
  then show "(\<Sum>k \<in> insert h L. c_size (C' ! k)) = (\<Sum>r \<leftarrow> region_bounds rs'. snd r)"
    using heap_ok_finite [OF heap] bb d(11) rb(2) by simp
  show "\<not> in_use (C' ! k)" if "k \<in> {h}" for k using that bb by (simp add: in_use_def)
  show "insert h L \<subseteq> {..<length C'}" using d(1) bb by auto
qed (use tw in \<open>auto simp: table_write_def\<close>)

lemma add_region_chunk_ok:
  assumes inv: "bfc_inv s L {}" and fresh: "fresh_block (regions s) p n"
  shows "\<exists>s' h. add_region_chunk s p n = Some s' \<and> h \<notin> L \<and> bfc_inv s' (insert h L) {} \<and>
    used (chunks s') (insert h L) = used (chunks s) L \<and>
    (\<forall>k \<in> used (chunks s) L. c_ptr (chunks s' ! k) = c_ptr (chunks s ! k) \<and>
        c_size (chunks s' ! k) = c_size (chunks s ! k) \<and>
        requested_size (chunks s' ! k) = requested_size (chunks s ! k) \<and>
        allocation_id (chunks s' ! k) = allocation_id (chunks s ! k)) \<and>
    set (region_bounds (regions s')) = insert (p, n) (set (region_bounds (regions s))) \<and>
    (\<Sum>r \<leftarrow> region_bounds (regions s'). snd r) = n + (\<Sum>r \<leftarrow> region_bounds (regions s). snd r) \<and>
    c_size (chunks s' ! h) = n \<and> \<not> in_use (chunks s' ! h) \<and>
    next_allocation_id s' = next_allocation_id s \<and> stats s' = stats s"
proof -
  note heap = bfc_inv_heap [OF inv]
  note d = heap_okD [OF heap]
  let ?C = "chunks s" and ?rs = "AddAllocationRegion (regions s) p n"
  have "free_list_ok ?C (free_chunks_list s) ({..<length ?C} - L)" using inv by (simp add: bfc_inv_def)
  then obtain h C0 f' where a: "AllocateChunk (s\<lparr>regions := ?rs\<rparr>) = Some (h, s\<lparr>regions := ?rs, chunks := C0, free_chunks_list := f'\<rparr>)"
    and taken: "handle_taken (s\<lparr>regions := ?rs\<rparr>) L h (s\<lparr>regions := ?rs, chunks := C0, free_chunks_list := f'\<rparr>)"
    using AllocateChunk_taken [of "s\<lparr>regions := ?rs\<rparr>" L] d(1) by auto
  have hn: "h \<notin> L" "h < length C0" "length ?C \<le> length C0" "\<And>k. k < length ?C \<Longrightarrow> C0 ! k = ?C ! k"
    "bin_num (C0 ! h) = None" "free_list_ok C0 f' ({..<length C0} - insert h L)"
    using taken by (auto simp: handle_taken_def)
  define C' where "C' = C0[h := (C0 ! h)\<lparr>c_ptr := p, c_size := n, allocation_id := -1, c_prev := None, c_next := None\<rparr>]"
  have C': "C' ! k = C0 ! k" if "k \<noteq> h" for k using that by (simp add: C'_def)
  have oldL: "C' ! k = ?C ! k" if "k \<in> L" for k
  proof -
    have "k \<noteq> h" "k < length ?C" using that hn(1) d(1) by auto
    then show ?thesis using C' hn(4) by simp
  qed
  have b: "block_added ?C L h p n C'" using hn oldL by (simp add: block_added_def C'_def)
  have "addressable ?rs p" using fresh by (simp add: addressable_Add in_region_def AllocationRegion_def fresh_block_def)
  then obtain rs' where rs': "set_handle ?rs p (Some h) = Some rs'" "table_write ?rs p (Some h) rs'"
    using set_handle_table_write [OF regions_ok_Add [OF d(4) fresh]] by blast
  let ?t = "s\<lparr>free_chunks_list := f', chunks := C', regions := rs'\<rparr>"
  have run: "add_region_chunk s p n = InsertFreeChunkIntoBin ?t h"
    using a hn(2) rs'(1) by (simp add: add_region_chunk_def Let_def write_chunk_def C'_def)
  have free: "\<not> in_use (C' ! h)" using b by (simp add: block_added_def in_use_def)
  have used: "used C' (insert h L) = used ?C L" using free oldL by (auto simp: used_def)
  have keep: "C' ! k = ?C ! k" if "k \<in> used ?C L" for k using that oldL by (simp add: used_def)
  have "free_list_ok C' f' ({..<length C'} - insert h L)"
  proof -
    have "free_list_ok C0 f' ({..<length C'} - insert h L)" using hn(6) by (simp add: C'_def)
    then show ?thesis by (rule free_list_ok_cong) (simp add: C'_def, metis C' DiffD2 insertCI)
  qed
  moreover have "ids_ok C' (insert h L) (next_allocation_id s)"
    using inv free oldL unfolding bfc_inv_def ids_ok_def by auto
  moreover have "(\<Sum>k \<in> used C' (insert h L). int (c_size (C' ! k))) = (\<Sum>k \<in> used ?C L. int (c_size (?C ! k)))"
    unfolding used using keep by simp
  ultimately have t: "bfc_inv ?t (insert h L) {h}"
    using inv heap_ok_add [OF heap fresh b rs'(2)] by (simp add: bfc_inv_def)
  have lone: "c_next (chunks ?t ! h) = None" "c_prev (chunks ?t ! h) = None" using b by (auto simp: block_added_def)
  obtain s' where s': "InsertFreeChunkIntoBin ?t h = Some s'" "bfc_inv s' (insert h L) ({h} - {h})" "regions s' = rs'"
    "next_allocation_id s' = next_allocation_id s" "stats s' = stats s"
    and fld: "\<And>k. c_ptr (chunks s' ! k) = c_ptr (C' ! k) \<and> c_size (chunks s' ! k) = c_size (C' ! k) \<and>
      allocation_id (chunks s' ! k) = allocation_id (C' ! k) \<and> requested_size (chunks s' ! k) = requested_size (C' ! k)"
    using bfc_inv_insert [OF t, of h] lone by auto
  have "used (chunks s') (insert h L) = used ?C L" unfolding used [symmetric] using fld by (simp add: used_def in_use_def)
  moreover have "set (region_bounds rs') = insert (p, n) (set (region_bounds (regions s)))"
    "(\<Sum>r \<leftarrow> region_bounds rs'. snd r) = n + (\<Sum>r \<leftarrow> region_bounds (regions s). snd r)"
    using rs'(2) region_bounds_Add by (simp_all add: table_write_def)
  moreover have "c_size (chunks s' ! h) = n" "\<not> in_use (chunks s' ! h)" using b fld by (simp_all add: block_added_def in_use_def)
  ultimately show ?thesis using run s' fld keep hn(1) by auto
qed

section \<open>Arithmetic of the growth\<close>

lemma RoundedBytes_bounds:
  assumes "n + 255 < 2 ^ 64"
  shows "n \<le> RoundedBytes n" "RoundedBytes n < n + 256" "256 dvd RoundedBytes n"
proof -
  have eq: "RoundedBytes n = 256 * ((n + 255) div 256)" using assms by (simp add: RoundedBytes_def)
  have "256 * ((n + 255) div 256) + (n + 255) mod 256 = n + 255" "(n + 255) mod 256 < 256"
    by (rule mult_div_mod_eq) simp
  then show "n \<le> RoundedBytes n" "RoundedBytes n < n + 256" unfolding eq by linarith+
  show "256 dvd RoundedBytes n" unfolding eq by simp
qed

lemma RoundedBytes_le:
  assumes "n \<le> m" "256 dvd m" "m + 255 < 2 ^ 64"
  shows "RoundedBytes n \<le> m"
proof -
  have n: "n + 255 < 2 ^ 64" using assms by simp
  obtain j k where "m = 256 * j" "RoundedBytes n = 256 * k" using assms(2) RoundedBytes_bounds(3) [OF n] by (auto elim!: dvdE)
  moreover have "RoundedBytes n < n + 256" by (rule RoundedBytes_bounds(2) [OF n])
  ultimately show ?thesis using assms(1) by simp
qed

lemma round_float_upper: "round_float n * 2 ^ 24 \<le> n * (2 ^ 24 + 1)"
proof (cases "n < 2 ^ 24")
  case True
  then show ?thesis by (simp add: round_float_def)
next
  case False
  define e where "e = log2_floor n - 23"
  define q where "q = n div 2 ^ e"
  define r where "r = n mod 2 ^ e"
  have n: "n = q * 2 ^ e + r" by (simp add: q_def r_def div_mult_mod_eq)
  have "log2_floor (2 ^ 24) \<le> log2_floor n" using False by (intro log2_floor_mono) simp
  moreover have "log2_floor (2 ^ 24) = 24" by (rule log2_floor_unique) simp_all
  ultimately have "e + 23 = log2_floor n" by (simp add: e_def)
  then have le: "2 ^ e * 2 ^ 23 \<le> n" using log2_floor_bounds [of n] False by (metis gr0I power_add zero_less_numeral zero_less_power)
  have "2 * round_float n \<le> 2 * n + 2 ^ e"
    using False n unfolding round_float_def Let_def e_def [symmetric] q_def [symmetric] r_def [symmetric]
    by (auto simp: algebra_simps)
  then show ?thesis using le by simp
qed

lemma round_float_lower: "n \<le> 2 * round_float n"
proof (cases "n < 2 ^ 24")
  case True
  then show ?thesis by (simp add: round_float_def)
next
  case False
  define e where "e = log2_floor n - 23"
  have "2 ^ e \<le> (2::nat) ^ log2_floor n" by (intro power_increasing) (simp_all add: e_def)
  moreover have "0 < n" using False by (cases n) auto
  ultimately have "2 ^ e \<le> n" using log2_floor_bounds [of n] by (meson le_trans)
  then have q: "1 \<le> n div 2 ^ e" by (simp add: div_greater_zero_iff Suc_le_eq)
  have "n = n div 2 ^ e * 2 ^ e + n mod 2 ^ e" "n mod 2 ^ e < 2 ^ e" by (simp_all add: div_mult_mod_eq)
  moreover have "1 * 2 ^ e \<le> n div 2 ^ e * 2 ^ e" using q by (rule mult_right_mono) simp
  ultimately have "n \<le> 2 * (n div 2 ^ e * 2 ^ e)" by linarith
  moreover have "n div 2 ^ e * 2 ^ e \<le> round_float n"
    using False by (auto simp: round_float_def Let_def e_def)
  ultimately show ?thesis by linarith
qed

lemma times_backpedal_upper: "times_kBackpedalFactor b * 2 ^ 72 \<le> b * ((2 ^ 24 + 1) ^ 2 * 15099494)"
proof -
  let ?x = "round_float b" and ?y = "round_float (round_float b * 15099494)"
  have "times_kBackpedalFactor b * 2 ^ 72 \<le> ?y * 2 ^ 24 * 2 ^ 24"
    using div_times_less_eq_dividend [of ?y "2 ^ 24"] by (simp add: times_kBackpedalFactor_def)
  also have "\<dots> \<le> ?x * 15099494 * (2 ^ 24 + 1) * 2 ^ 24" by (intro mult_right_mono round_float_upper) simp
  also have "\<dots> = ?x * 2 ^ 24 * (15099494 * (2 ^ 24 + 1))" by simp
  also have "\<dots> \<le> b * (2 ^ 24 + 1) * (15099494 * (2 ^ 24 + 1))" by (intro mult_right_mono round_float_upper) simp
  finally show ?thesis by (simp add: power2_eq_square algebra_simps)
qed

lemma backpedal_le:
  assumes "256 dvd b" "b \<le> 2 ^ 62"
  shows "RoundedBytes (times_kBackpedalFactor b) \<le> b" "256 dvd RoundedBytes (times_kBackpedalFactor b)"
proof -
  have le: "times_kBackpedalFactor b \<le> b" using times_backpedal_upper [of b] by simp
  then show "RoundedBytes (times_kBackpedalFactor b) \<le> b" using assms by (intro RoundedBytes_le) auto
  show "256 dvd RoundedBytes (times_kBackpedalFactor b)" using le assms by (intro RoundedBytes_bounds) auto
qed

lemmas backpedal_eval = RoundedBytes_def times_kBackpedalFactor_def round_float_def Let_def log2_floor.simps

lemma backpedal_shrinks:
  assumes "256 dvd b" "2560 \<le> b" "b \<le> 2 ^ 62"
  shows "RoundedBytes (times_kBackpedalFactor b) < b"
proof (cases "b = 2560")
  case True
  have "RoundedBytes (times_kBackpedalFactor 2560) < 2560" by (simp add: backpedal_eval)
  then show ?thesis using True by simp
next
  case False
  then have "2816 \<le> b" using assms(1,2) by (auto elim!: dvdE)
  then have "times_kBackpedalFactor b \<le> b - 256" using times_backpedal_upper [of b] by simp
  moreover have "256 dvd b - 256" using assms(1) by (simp add: dvd_diff_nat)
  ultimately have "RoundedBytes (times_kBackpedalFactor b) \<le> b - 256" using assms(3) by (intro RoundedBytes_le) auto
  then show ?thesis using assms(2) by simp
qed

lemma backpedal_stalls: "k \<in> {1..9} \<Longrightarrow> RoundedBytes (times_kBackpedalFactor (256 * k)) = 256 * k"
proof -
  assume "k \<in> {1..9}"
  then consider "k = 1" | "k = 2" | "k = 3" | "k = 4" | "k = 5" | "k = 6" | "k = 7" | "k = 8" | "k = 9" by force
  then show ?thesis by cases (simp_all add: backpedal_eval)
qed

lemma backpedal_pos:
  assumes "256 dvd b" "0 < b" "b \<le> 2 ^ 62"
  shows "0 < RoundedBytes (times_kBackpedalFactor b)"
proof -
  let ?x = "round_float b" and ?y = "round_float (round_float b * 15099494)"
  have "256 \<le> b" using assms(1,2) by (auto elim!: dvdE)
  then have "128 \<le> ?x" using round_float_lower [of b] by simp
  then have "2 ^ 24 \<le> ?y" using round_float_lower [of "?x * 15099494"] by simp
  then have "0 < times_kBackpedalFactor b" by (simp add: times_kBackpedalFactor_def div_greater_zero_iff)
  moreover have "times_kBackpedalFactor b \<le> b" using times_backpedal_upper [of b] by simp
  ultimately show ?thesis using RoundedBytes_bounds(1) [of "times_kBackpedalFactor b"] assms(3) by simp
qed

lemma grow_loop_returns:
  assumes "0 < cur" "r \<le> 2 ^ 62"
  shows "\<exists>c. grow_loop r cur = Some c \<and> r \<le> c \<and> cur \<le> c \<and> (c = cur \<or> c < 2 * r) \<and> cur dvd c"
  using assms(1)
proof (induction "r - cur" arbitrary: cur rule: less_induct)
  case less
  show ?case
  proof (cases "r > cur")
    case True
    then have wrap: "cur * 2 mod 2 ^ 64 = cur * 2" using assms(2) by simp
    obtain c where "grow_loop r (cur * 2) = Some c" "r \<le> c" "cur * 2 \<le> c" "c = cur * 2 \<or> c < 2 * r" "cur * 2 dvd c"
      using less(1) [of "cur * 2"] less(2) True diff_less_mono2 [of cur "cur * 2" r] by auto
    then show ?thesis using True wrap dvd_mult_left [of cur 2 c] by (subst grow_loop.simps) auto
  next
    case False
    then show ?thesis by (subst grow_loop.simps) auto
  qed
qed

section \<open>Obtaining memory\<close>

text \<open>
  What the allocator relies on in its sub-allocator: a block it returns lies in the address
  space and apart from the blocks it has handed out before, and a failed request hands out
  nothing. \<open>owned\<close> reads the blocks handed out so far from the sub-allocator's state.
\<close>

definition apart :: "nat \<times> nat \<Rightarrow> nat \<times> nat \<Rightarrow> bool" where
  "apart a b \<longleftrightarrow> fst a + snd a \<le> fst b \<or> fst b + snd b \<le> fst a"

definition sub_allocator_ok :: "('s \<Rightarrow> nat \<Rightarrow> nat option \<times> 's) \<Rightarrow> ('s \<Rightarrow> (nat \<times> nat) set) \<Rightarrow> bool" where
  "sub_allocator_ok sub_alloc owned \<longleftrightarrow>
     (\<forall>sub n p sub'. 0 < n \<longrightarrow> sub_alloc sub n = (Some p, sub') \<longrightarrow>
        p + n < 2 ^ 64 \<and> (\<forall>b \<in> owned sub. apart (p, n) b) \<and> owned sub' = insert (p, n) (owned sub)) \<and>
     (\<forall>sub n sub'. sub_alloc sub n = (None, sub') \<longrightarrow> owned sub' = owned sub)"

text \<open>The outcome of a series of requests: nothing, or one block of at most \<open>n\<close> and at least \<open>b\<close> bytes.\<close>

definition obtained :: "(nat \<times> nat) set \<Rightarrow> nat \<Rightarrow> nat option \<Rightarrow> nat \<Rightarrow> (nat \<times> nat) set \<Rightarrow> bool" where
  "obtained A n m b A' \<longleftrightarrow> 256 dvd b \<and> 0 < b \<and> b \<le> n \<and>
     (case m of None \<Rightarrow> A' = A
      | Some p \<Rightarrow> \<exists>k. b \<le> k \<and> p + k < 2 ^ 64 \<and> (\<forall>x \<in> A. apart (p, k) x) \<and> A' = insert (p, k) A)"

lemma obtained_mono: "obtained A n m b A' \<Longrightarrow> n \<le> n' \<Longrightarrow> obtained A n' m b A'"
  by (auto simp: obtained_def)

lemma sub_alloc_obtained:
  assumes "sub_allocator_ok sub_alloc owned" "0 < n" "256 dvd b" "0 < b" "b \<le> n"
  shows "obtained (owned sub) n (fst (sub_alloc sub n)) b (owned (snd (sub_alloc sub n)))"
proof (cases "fst (sub_alloc sub n)")
  case None
  then have "sub_alloc sub n = (None, snd (sub_alloc sub n))" by (metis prod.collapse)
  with None assms show ?thesis unfolding sub_allocator_ok_def obtained_def by auto
next
  case (Some p)
  then have "sub_alloc sub n = (Some p, snd (sub_alloc sub n))" by (metis prod.collapse)
  then have "p + n < 2 ^ 64 \<and> (\<forall>x \<in> owned sub. apart (p, n) x) \<and> owned (snd (sub_alloc sub n)) = insert (p, n) (owned sub)"
    using assms(1,2) unfolding sub_allocator_ok_def by blast
  with Some assms(3-5) show ?thesis unfolding obtained_def by auto
qed

lemmas backpedal_induct = backpedal_loop.raw_induct [rotated, consumes 1, case_names 1]

lemma backpedal_loop_obtained:
  assumes "backpedal_loop sub_alloc r m b sub = Some y" "sub_allocator_ok sub_alloc owned"
    and "256 dvd b" "0 < b" "b \<le> 2 ^ 62"
  shows "(m = None \<longrightarrow> obtained (owned sub) b (fst y) (fst (snd y)) (owned (snd (snd y)))) \<and> (m \<noteq> None \<longrightarrow> y = (m, b, sub))"
  using assms
proof (induction rule: backpedal_induct)
  case (1 loop sub_alloc r m b sub y)
  show ?case
  proof (cases "m = None \<and> r < b")
    case True
    let ?m = "fst (sub_alloc sub b)" and ?b = "RoundedBytes (times_kBackpedalFactor b)" and ?sub = "snd (sub_alloc sub b)"
    have b: "256 dvd ?b" "0 < ?b" "?b \<le> b" using backpedal_le backpedal_pos 1(4-6) by auto
    have "loop sub_alloc r ?m ?b ?sub = Some y" using 1(2) True by simp
    from 1(1) [OF this 1(3) b(1,2)] b(3) 1(6)
    have ih: "?m = None \<Longrightarrow> obtained (owned ?sub) ?b (fst y) (fst (snd y)) (owned (snd (snd y)))" "?m \<noteq> None \<Longrightarrow> y = (?m, ?b, ?sub)"
      by auto
    have so: "obtained (owned sub) b ?m ?b (owned ?sub)" by (rule sub_alloc_obtained [OF 1(3) 1(5) b])
    show ?thesis
    proof (cases "?m = None")
      case none: True
      then have "owned ?sub = owned sub" using so by (simp add: obtained_def)
      then show ?thesis using True obtained_mono [OF ih(1) [OF none] b(3)] by simp
    next
      case False
      then show ?thesis using True ih(2) so by simp
    qed
  next
    case False
    then have "y = (m, b, sub)" using 1(2) by (simp split: if_splits)
    then show ?thesis using 1(4,5) by (auto simp: obtained_def)
  qed
qed

text \<open>
  A block that the loop obtains is larger than the number of bytes that the loop returns with it,
  which has been reduced once more.
\<close>

lemma backpedal_loop_granted:
  assumes "backpedal_loop sub_alloc r None b sub = Some (Some p, b', sub')" "sub_allocator_ok sub_alloc owned"
    and "256 dvd b" "b \<le> 2 ^ 62" "2304 \<le> r"
  shows "\<exists>k. r < k \<and> k \<le> b \<and> b' = RoundedBytes (times_kBackpedalFactor k) \<and> b' < k \<and> owned sub' = insert (p, k) (owned sub)"
  using assms(1,3,4)
proof (induction b arbitrary: sub rule: less_induct)
  case (less b)
  let ?m = "fst (sub_alloc sub b)" and ?b = "RoundedBytes (times_kBackpedalFactor b)" and ?sub = "snd (sub_alloc sub b)"
  have "r < b" using less.prems(1) by (subst (asm) backpedal_loop.simps) (auto split: if_splits)
  then have run: "backpedal_loop sub_alloc r ?m ?b ?sub = Some (Some p, b', sub')"
    using less.prems(1) by (subst (asm) backpedal_loop.simps) simp
  have "2560 \<le> b" using \<open>r < b\<close> less.prems(2) assms(5) by (auto elim!: dvdE)
  note b = backpedal_le [OF less.prems(2,3)] backpedal_shrinks [OF less.prems(2) this less.prems(3)]
  show ?case
  proof (cases ?m)
    case None
    have "owned ?sub = owned sub" using None assms(2) unfolding sub_allocator_ok_def by (metis prod.collapse)
    moreover have "\<exists>k. r < k \<and> k \<le> ?b \<and> b' = RoundedBytes (times_kBackpedalFactor k) \<and> b' < k \<and> owned sub' = insert (p, k) (owned ?sub)"
      using less.IH [OF b(3) _ b(2)] run None b(1) less.prems(3) by simp
    ultimately show ?thesis using b(1) by (metis order_trans)
  next
    case (Some q)
    then have "q = p" "b' = ?b" "sub' = ?sub" using run by (subst (asm) backpedal_loop.simps, simp)+
    moreover have "owned ?sub = insert (q, b) (owned sub)"
      using Some assms(2) \<open>r < b\<close> unfolding sub_allocator_ok_def by (metis gr_zeroI not_less_zero prod.collapse)
    ultimately show ?thesis using b(3) \<open>r < b\<close> by auto
  qed
qed

lemma backpedal_loop_returns:
  assumes "256 dvd b" "b \<le> 2 ^ 62" "2304 \<le> r"
  shows "\<exists>y. backpedal_loop sub_alloc r m b sub = Some y"
  using assms
proof (induction b arbitrary: m sub rule: less_induct)
  case (less b)
  show ?case
  proof (cases "m = None \<and> r < b")
    case True
    then have "2560 \<le> b" using less.prems by (auto elim!: dvdE)
    note b = backpedal_shrinks [OF less.prems(1) this less.prems(2)] backpedal_le(2) [OF less.prems(1,2)]
    have "\<exists>y. backpedal_loop sub_alloc r m' (RoundedBytes (times_kBackpedalFactor b)) sub' = Some y" for m' sub'
      using less.IH [OF b] b(1) less.prems(2,3) by simp
    then show ?thesis using True by (subst backpedal_loop.simps) simp
  qed (subst backpedal_loop.simps, auto)
qed

text \<open>
  With at most 2304 bytes requested and more than \<open>rounded_bytes\<close>, one round of the loop leaves the request
  as it is: against a sub-allocator that keeps failing the loop does not return.
\<close>

lemma backpedal_loop_diverges:
  assumes "k \<in> {1..9}" "r < 256 * k" "\<And>sub n. fst (sub_alloc sub n) = None"
  shows "backpedal_loop sub_alloc r None (256 * k) sub = None"
proof (rule ccontr)
  assume "backpedal_loop sub_alloc r None (256 * k) sub \<noteq> None"
  then obtain y where "backpedal_loop sub_alloc r None (256 * k) sub = Some y" by blast
  moreover have "backpedal_loop sub_alloc r m b sub = Some y \<Longrightarrow> m = None \<Longrightarrow> b = 256 * k \<Longrightarrow> r < 256 * k \<Longrightarrow>
    (\<And>sub n. fst (sub_alloc sub n) = None) \<Longrightarrow> False" for m b
  proof (induction rule: backpedal_induct)
    case (1 loop sub_alloc r m b sub y)
    then have "loop sub_alloc r None (256 * k) (snd (sub_alloc sub b)) = Some y"
      using backpedal_stalls [OF assms(1)] by simp
    then show False by (rule 1(1)) (use 1 in auto)
  qed
  ultimately show False using assms(2,3) by blast
qed

lemma obtain_memory_obtained:
  assumes run: "obtain_memory sub_alloc s r n = Some (m, b, s')" and sub_ok: "sub_allocator_ok sub_alloc owned"
    and n: "256 dvd n" "0 < n" "n \<le> 2 ^ 62"
  shows "\<exists>sub. s' = s\<lparr>suballocator := sub, started_backpedal := started_backpedal s'\<rparr> \<and>
      obtained (owned (suballocator s)) n m b (owned sub)"
    and "started_backpedal s \<Longrightarrow> started_backpedal s'"
    and "started_backpedal s' \<or> b = n \<and> m \<noteq> None" and "started_backpedal s \<Longrightarrow> b = n"
    and "started_backpedal s' = started_backpedal s \<Longrightarrow> b = n"
proof -
  let ?m = "fst (sub_alloc (suballocator s) n)" and ?sub = "snd (sub_alloc (suballocator s) n)"
  let ?b = "RoundedBytes (times_kBackpedalFactor n)"
  have b: "256 dvd ?b" "0 < ?b" "?b \<le> n" "?b \<le> 2 ^ 62" using backpedal_le backpedal_pos n by (auto intro: le_trans)
  have first: "obtained (owned (suballocator s)) n ?m n (owned ?sub)"
    by (rule sub_alloc_obtained [OF sub_ok n(2,1,2)]) simp
  have "(\<exists>sub. s' = s\<lparr>suballocator := sub, started_backpedal := started_backpedal s'\<rparr> \<and>
      obtained (owned (suballocator s)) n m b (owned sub)) \<and> (started_backpedal s \<longrightarrow> started_backpedal s' \<and> b = n) \<and>
      (started_backpedal s' \<or> b = n \<and> m \<noteq> None) \<and> (started_backpedal s' = started_backpedal s \<longrightarrow> b = n)"
  proof (cases "?m = None \<and> \<not> started_backpedal s")
    case True
    obtain y where y: "backpedal_loop sub_alloc r ?m ?b ?sub = Some y" "m = fst y" "b = fst (snd y)"
      "s' = s\<lparr>suballocator := snd (snd y), started_backpedal := True\<rparr>"
      using run True by (auto simp: obtain_memory_def Let_def split_beta bind_eq_Some_conv)
    have "obtained (owned ?sub) ?b m b (owned (snd (snd y)))"
      using backpedal_loop_obtained [OF y(1) sub_ok b(1,2,4)] True y by simp
    moreover have "owned ?sub = owned (suballocator s)" using first True by (simp add: obtained_def)
    ultimately have "obtained (owned (suballocator s)) n m b (owned (snd (snd y)))" using obtained_mono [OF _ b(3)] by simp
    then show ?thesis using y(4) True by auto
  next
    case False
    then have "m = ?m" "b = n" "s' = s\<lparr>suballocator := ?sub\<rparr>"
      using run by (auto simp: obtain_memory_def Let_def split_beta)
    then show ?thesis using first False by auto
  qed
  then show "\<exists>sub. s' = s\<lparr>suballocator := sub, started_backpedal := started_backpedal s'\<rparr> \<and>
      obtained (owned (suballocator s)) n m b (owned sub)"
    and "started_backpedal s \<Longrightarrow> started_backpedal s'"
    and "started_backpedal s' \<or> b = n \<and> m \<noteq> None" and "started_backpedal s \<Longrightarrow> b = n"
    and "started_backpedal s' = started_backpedal s \<Longrightarrow> b = n" by blast+
qed

lemma obtain_memory_backpedalled:
  assumes "obtain_memory sub_alloc s r n = Some (Some p, b, s')" "sub_allocator_ok sub_alloc owned" "256 dvd n" "n \<le> 2 ^ 62" "2304 \<le> r"
    and "\<not> started_backpedal s" "started_backpedal s'"
  shows "\<exists>k. r < k \<and> k < n \<and> b = RoundedBytes (times_kBackpedalFactor k) \<and> b < k \<and>
    owned (suballocator s') = insert (p, k) (owned (suballocator s))"
proof -
  let ?m = "fst (sub_alloc (suballocator s) n)" and ?sub = "snd (sub_alloc (suballocator s) n)"
  let ?b = "RoundedBytes (times_kBackpedalFactor n)"
  have m: "?m = None" using assms(1,6,7) by (auto simp: obtain_memory_def Let_def split_beta split: if_splits)
  then have l: "backpedal_loop sub_alloc r None ?b ?sub = Some (Some p, b, suballocator s')"
    using assms(1,6) by (auto simp: obtain_memory_def Let_def split_beta bind_eq_Some_conv)
  note b = backpedal_le [OF assms(3,4)]
  obtain k where k: "r < k" "k \<le> ?b" "b = RoundedBytes (times_kBackpedalFactor k)" "b < k" "owned (suballocator s') = insert (p, k) (owned ?sub)"
    using backpedal_loop_granted [OF l assms(2) b(2) _ assms(5)] b(1) assms(4) by auto
  have "2560 \<le> n" using k(1,2) b(1) assms(3,5) by (auto elim!: dvdE)
  then have "k < n" using backpedal_shrinks [OF assms(3) _ assms(4)] k(2) by simp
  moreover have "owned ?sub = owned (suballocator s)" using m assms(2) unfolding sub_allocator_ok_def by (metis prod.collapse)
  ultimately show ?thesis using k by auto
qed

lemma obtain_memory_returns:
  assumes "2304 \<le> r \<or> started_backpedal s \<or> fst (sub_alloc (suballocator s) n) \<noteq> None" "256 dvd n" "n \<le> 2 ^ 62"
  shows "\<exists>y. obtain_memory sub_alloc s r n = Some y"
proof (cases "fst (sub_alloc (suballocator s) n) = None \<and> \<not> started_backpedal s")
  case True
  then have "2304 \<le> r" using assms(1) by metis
  moreover have "256 dvd RoundedBytes (times_kBackpedalFactor n)" "RoundedBytes (times_kBackpedalFactor n) \<le> 2 ^ 62"
    using backpedal_le assms(2,3) by (auto intro: le_trans)
  ultimately obtain y where "backpedal_loop sub_alloc r None (RoundedBytes (times_kBackpedalFactor n))
      (snd (sub_alloc (suballocator s) n)) = Some y"
    using backpedal_loop_returns by metis
  with True show ?thesis by (auto simp: obtain_memory_def Let_def split_beta)
qed (auto simp: obtain_memory_def Let_def split_beta)

end
