(* ===== verification/Bfc_Properties.thy ===== *)
theory Bfc_Properties
  imports Bfc_Extend
begin

text \<open>
  The whole operations of the BFC allocator, from the constructor over \<open>AllocateRaw\<close> and
  \<open>DeallocateRaw\<close> to every reachable state. The abstract state is the map \<open>live\<close> from the
  addresses of the live allocations to their size, requested size and id: an allocation
  adds one entry, a deallocation removes one, and nothing else changes it.
\<close>

section \<open>The abstract state\<close>

definition live :: "'s bfc \<Rightarrow> nat \<Rightarrow> (nat \<times> nat \<times> int) option" where
  "live s p = (case chunk_of_ptr s p of
     Some c \<Rightarrow> if in_use c \<and> c_ptr c = p then Some (c_size c, requested_size c, allocation_id c) else None
   | None \<Rightarrow> None)"

lemma live_iff:
  assumes inv: "bfc_inv s L {}"
  shows "live s p = Some v \<longleftrightarrow> (\<exists>h \<in> used (chunks s) L. c_ptr (chunks s ! h) = p \<and>
    v = (c_size (chunks s ! h), requested_size (chunks s ! h), allocation_id (chunks s ! h)))"
proof
  note heap = bfc_inv_heap [OF inv]
  assume "live s p = Some v"
  then obtain h where h: "h < length (chunks s)" "in_use (chunks s ! h)" "c_ptr (chunks s ! h) = p"
    "v = (c_size (chunks s ! h), requested_size (chunks s ! h), allocation_id (chunks s ! h))"
    by (auto simp: live_def chunk_of_ptr_def ChunkFromHandle_def bind_eq_Some_conv split: option.splits if_splits)
  have "free_list_ok (chunks s) (free_chunks_list s) ({..<length (chunks s)} - L)" using inv by (simp add: bfc_inv_def)
  then have "h \<in> L" using h(1,2) by (auto simp: free_list_ok_def)
  then show "\<exists>h \<in> used (chunks s) L. c_ptr (chunks s ! h) = p \<and>
    v = (c_size (chunks s ! h), requested_size (chunks s ! h), allocation_id (chunks s ! h))"
    using h by (auto simp: used_def)
next
  note heap = bfc_inv_heap [OF inv]
  assume "\<exists>h \<in> used (chunks s) L. c_ptr (chunks s ! h) = p \<and>
    v = (c_size (chunks s ! h), requested_size (chunks s ! h), allocation_id (chunks s ! h))"
  then obtain h where h: "h \<in> L" "in_use (chunks s ! h)" "c_ptr (chunks s ! h) = p"
    "v = (c_size (chunks s ! h), requested_size (chunks s ! h), allocation_id (chunks s ! h))"
    by (auto simp: used_def)
  have "get_handle (regions s) p = Some (Some h)" using heap_okD(8) [OF heap] h unfolding table_ok_def by blast
  then show "live s p = Some v" using h heap by (simp add: live_def chunk_of_ptr_def)
qed

lemma live_eq:
  assumes "bfc_inv s L {}" "bfc_inv s' L' {}"
    and "\<And>p v. (\<exists>h \<in> used (chunks s') L'. c_ptr (chunks s' ! h) = p \<and>
      v = (c_size (chunks s' ! h), requested_size (chunks s' ! h), allocation_id (chunks s' ! h))) \<longleftrightarrow> f p = Some v"
  shows "live s' = f"
proof
  fix p
  show "live s' p = f p"
    using live_iff [OF assms(2), of p] assms(3) [of p] by (cases "live s' p"; cases "f p") auto
qed

text \<open>The same granted chunks with the same fields.\<close>

definition keeps :: "'s bfc \<Rightarrow> nat set \<Rightarrow> 's bfc \<Rightarrow> nat set \<Rightarrow> bool" where
  "keeps s L s' L' \<longleftrightarrow> used (chunks s') L' = used (chunks s) L \<and>
     (\<forall>k \<in> used (chunks s) L. c_ptr (chunks s' ! k) = c_ptr (chunks s ! k) \<and>
        c_size (chunks s' ! k) = c_size (chunks s ! k) \<and>
        requested_size (chunks s' ! k) = requested_size (chunks s ! k) \<and>
        allocation_id (chunks s' ! k) = allocation_id (chunks s ! k))"

lemma frame_keeps: "frame s L s' L' \<longleftrightarrow> keeps s L s' L' \<and> region_bounds (regions s') = region_bounds (regions s)"
  by (auto simp: frame_def keeps_def)

lemma live_keeps:
  assumes "bfc_inv s L {}" "bfc_inv s' L' {}" "keeps s L s' L'"
  shows "live s' = live s"
proof (rule live_eq [OF assms(1,2)])
  show "(\<exists>h\<in>used (chunks s') L'. c_ptr (chunks s' ! h) = p \<and>
      v = (c_size (chunks s' ! h), requested_size (chunks s' ! h), allocation_id (chunks s' ! h))) \<longleftrightarrow> live s p = Some v" for p v
    using assms(3) unfolding live_iff [OF assms(1)] keeps_def by auto
qed

lemma live_granted:
  assumes inv: "bfc_inv s L {}" "bfc_inv s' L' {}" and g: "granted s L h req s' L'"
  shows "live s' = (live s)(c_ptr (chunks s' ! h) \<mapsto> (c_size (chunks s' ! h), req, next_allocation_id s))"
    and "live s (c_ptr (chunks s' ! h)) = None"
proof -
  note gg = g [unfolded granted_def]
  have hL: "h \<in> L'" and usub: "used (chunks s) L \<subseteq> L'"
    using gg unfolding used_def set_eq_iff by blast+
  have other: "c_ptr (chunks s ! k) \<noteq> c_ptr (chunks s' ! h)" if k: "k \<in> used (chunks s) L" for k
  proof -
    have "k \<noteq> h" "c_ptr (chunks s' ! k) = c_ptr (chunks s ! k)" "k \<in> L'" using gg k usub by auto
    then show ?thesis using heap_ptr_inject [OF bfc_inv_heap [OF inv(2)] _ hL, of k] by auto
  qed
  show none: "live s (c_ptr (chunks s' ! h)) = None"
    using live_iff [OF inv(1), of "c_ptr (chunks s' ! h)"] other by (cases "live s (c_ptr (chunks s' ! h))") auto
  show "live s' = (live s)(c_ptr (chunks s' ! h) \<mapsto> (c_size (chunks s' ! h), req, next_allocation_id s))"
  proof (rule live_eq [OF inv])
    fix p v
    show "(\<exists>h \<in> used (chunks s') L'. c_ptr (chunks s' ! h) = p \<and>
        v = (c_size (chunks s' ! h), requested_size (chunks s' ! h), allocation_id (chunks s' ! h))) \<longleftrightarrow>
      ((live s)(c_ptr (chunks s' ! h) \<mapsto> (c_size (chunks s' ! h), req, next_allocation_id s))) p = Some v"
      using gg other live_iff [OF inv(1), of p v] by auto
  qed
qed

section \<open>Deallocation\<close>

lemma live_release:
  assumes inv: "bfc_inv s L {}" "bfc_inv s' L' {}" and h: "h \<in> used (chunks s) L"
    and fr: "frame (release s h) L s' L'"
  shows "live s' = (live s)(c_ptr (chunks s ! h) := None)"
proof (rule live_eq [OF inv])
  have hL: "h \<in> L" "in_use (chunks s ! h)" using h by (auto simp: used_def)
  have u: "used (chunks s') L' = used (chunks s) L - {h}"
    using fr bfc_inv_release(2) [OF inv(1) hL] by (simp add: frame_def)
  have lt: "h < length (chunks s)" using heap_okD(1) [OF bfc_inv_heap [OF inv(1)]] hL by auto
  have same: "c_ptr (chunks s' ! k) = c_ptr (chunks s ! k)" "c_size (chunks s' ! k) = c_size (chunks s ! k)"
    "requested_size (chunks s' ! k) = requested_size (chunks s ! k)" "allocation_id (chunks s' ! k) = allocation_id (chunks s ! k)"
    if k: "k \<in> used (chunks s) L - {h}" for k
  proof -
    have "chunks (release s h) ! k = chunks s ! k" using k lt by (simp add: release_def)
    moreover have "k \<in> used (chunks (release s h)) L" using bfc_inv_release(2) [OF inv(1) hL] k by simp
    ultimately show "c_ptr (chunks s' ! k) = c_ptr (chunks s ! k)" "c_size (chunks s' ! k) = c_size (chunks s ! k)"
      "requested_size (chunks s' ! k) = requested_size (chunks s ! k)" "allocation_id (chunks s' ! k) = allocation_id (chunks s ! k)"
      using fr by (auto simp: frame_def)
  qed
  have other: "c_ptr (chunks s ! k) \<noteq> c_ptr (chunks s ! h)" if "k \<in> used (chunks s) L - {h}" for k
    using heap_ptr_inject [OF bfc_inv_heap [OF inv(1)], of k h] that hL by (auto simp: used_def)
  fix p v
  show "(\<exists>k \<in> used (chunks s') L'. c_ptr (chunks s' ! k) = p \<and>
      v = (c_size (chunks s' ! k), requested_size (chunks s' ! k), allocation_id (chunks s' ! k))) \<longleftrightarrow>
    ((live s)(c_ptr (chunks s ! h) := None)) p = Some v"
  proof (cases "p = c_ptr (chunks s ! h)")
    case True
    then show ?thesis using u same other by auto
  next
    case False
    then show ?thesis using u same live_iff [OF inv(1), of p v] h by auto
  qed
qed

lemma DeallocateRaw_ok:
  assumes inv: "bfc_inv s L {}" and p: "live s p = Some v"
  shows "\<exists>s' L'. DeallocateRawInternal s (Some p) = Some s' \<and> bfc_inv s' L' {} \<and>
    live s' = (live s)(p := None) \<and> region_bounds (regions s') = region_bounds (regions s)"
proof -
  note heap = bfc_inv_heap [OF inv]
  obtain h where h: "h \<in> used (chunks s) L" "c_ptr (chunks s ! h) = p" using live_iff [OF inv] p by auto
  have hL: "h \<in> L" "in_use (chunks s ! h)" using h by (auto simp: used_def)
  obtain s' L' where s': "FreeAndMaybeCoalesce s h = Some s'" "bfc_inv s' L' {}" "frame (release s h) L s' L'"
    using FreeAndMaybeCoalesce_ok [OF inv hL] by blast
  have "get_handle (regions s) p = Some (Some h)"
    using heap_okD(8) [OF heap] hL(1) h(2) unfolding table_ok_def by blast
  moreover have "region_bounds (regions s') = region_bounds (regions s)"
    using s'(3) by (simp add: frame_def release_def)
  ultimately show ?thesis using s' live_release [OF inv s'(2) h(1) s'(3)] h(2) by (auto simp: DeallocateRawInternal_def)
qed

section \<open>Fields the heap operations leave alone\<close>

definition arena :: "'s bfc \<Rightarrow> 's \<times> nat \<times> nat \<times> nat \<times> bool" where
  "arena s = (suballocator s, memory_limit s, curr_region_allocation_bytes s, total_region_allocated_bytes s,
     started_backpedal s)"

lemma arena_simps [simp]:
  "arena (s\<lparr>chunks := C\<rparr>) = arena s" "arena (s\<lparr>regions := rs\<rparr>) = arena s" "arena (s\<lparr>bins := bn\<rparr>) = arena s"
  "arena (s\<lparr>free_chunks_list := f\<rparr>) = arena s" "arena (s\<lparr>next_allocation_id := i\<rparr>) = arena s"
  "arena (s\<lparr>stats := st\<rparr>) = arena s" "arena (write_chunk h g s) = arena s"
  by (simp_all add: arena_def write_chunk_def)

lemma AllocateChunk_arena: "AllocateChunk s = Some (h, s') \<Longrightarrow> arena s' = arena s"
  by (auto simp: AllocateChunk_def bind_eq_Some_conv split: option.splits)

lemma Insert_arena: "InsertFreeChunkIntoBin s h = Some s' \<Longrightarrow> arena s' = arena s"
  by (auto simp: InsertFreeChunkIntoBin_def bind_eq_Some_conv Let_def split: if_splits)

lemma Remove_arena:
  "RemoveFreeChunkFromBin s h = Some s' \<Longrightarrow> arena s' = arena s"
  "RemoveFreeChunkIterFromBin s b h = Some s' \<Longrightarrow> arena s' = arena s"
  by (auto simp: RemoveFreeChunkFromBin_def RemoveFreeChunkIterFromBin_def bind_eq_Some_conv Let_def split: if_splits)

lemma SplitChunk_arena: "SplitChunk s h n = Some s' \<Longrightarrow> arena s' = arena s"
  by (auto simp: SplitChunk_def bind_eq_Some_conv Let_def split: if_splits option.splits
      dest!: AllocateChunk_arena Insert_arena)

lemma Merge_arena: "Merge s h1 h2 = Some s' \<Longrightarrow> arena s' = arena s"
  by (auto simp: Merge_def DeleteChunk_def DeallocateChunk_def bind_eq_Some_conv Let_def split: if_splits option.splits)

lemma coalesce_arena:
  "coalesce_next s h = Some s' \<Longrightarrow> arena s' = arena s"
  "coalesce_prev s h = Some (h', s') \<Longrightarrow> arena s' = arena s"
  by (auto simp: coalesce_next_def coalesce_prev_def bind_eq_Some_conv split: if_splits option.splits
      dest!: Remove_arena Merge_arena)

lemma Free_arena: "FreeAndMaybeCoalesce s h = Some s' \<Longrightarrow> arena s' = arena s"
  by (auto simp: FreeAndMaybeCoalesce_def bind_eq_Some_conv Let_def split: if_splits
      dest!: coalesce_arena Insert_arena)

lemma Deallocate_arena: "DeallocateRawInternal s p = Some s' \<Longrightarrow> arena s' = arena s"
  by (auto simp: DeallocateRawInternal_def bind_eq_Some_conv split: option.splits dest!: Free_arena)

lemma FindChunkPtr_arena: "FindChunkPtr s b r req = Some (p, s') \<Longrightarrow> arena s' = arena s"
  by (auto simp: FindChunkPtr_def grant_chunk_def bind_eq_Some_conv Let_def split: option.splits if_splits
      dest!: Remove_arena SplitChunk_arena)

lemma add_region_arena: "add_region_chunk s p n = Some s' \<Longrightarrow> arena s' = arena s"
  by (auto simp: add_region_chunk_def bind_eq_Some_conv Let_def dest!: AllocateChunk_arena Insert_arena)

section \<open>Extending the arena\<close>

text \<open>
  The bookkeeping of the arena: the bytes of the regions never exceed the limit, and the
  size of the next region, which doubles with every region, stays far below \<open>2 ^ 64\<close>. Once
  the limit is used up the size is not doubled again, and a region smaller than asked for
  is obtained at most once; these two cases account for the factors 8 and 4.
\<close>

definition growth_factor :: "'s bfc \<Rightarrow> nat" where
  "growth_factor s =
     (if memory_limit s < total_region_allocated_bytes s + 256 then 8 else if started_backpedal s then 4 else 2)"

definition growth_ok :: "'s bfc \<Rightarrow> bool" where
  "growth_ok s \<longleftrightarrow> memory_limit s \<le> 2 ^ 39 \<and>
     total_region_allocated_bytes s = (\<Sum>r \<leftarrow> region_bounds (regions s). snd r) \<and>
     total_region_allocated_bytes s \<le> memory_limit s \<and> 0 < curr_region_allocation_bytes s \<and>
     256 dvd curr_region_allocation_bytes s \<and>
     curr_region_allocation_bytes s \<le> growth_factor s * (memory_limit s + 256)"

definition regions_owned :: "(nat \<times> nat) set \<Rightarrow> (nat \<times> nat) set \<Rightarrow> bool" where
  "regions_owned A B \<longleftrightarrow> (\<forall>r \<in> B. \<exists>b \<in> A. fst b \<le> fst r \<and> fst r + snd r \<le> fst b + snd b)"

definition bfc_ok :: "('s \<Rightarrow> nat \<Rightarrow> nat option \<times> 's) \<Rightarrow> ('s \<Rightarrow> (nat \<times> nat) set) \<Rightarrow> 's bfc \<Rightarrow> bool" where
  "bfc_ok sub_alloc owned s \<longleftrightarrow> sub_allocator_ok sub_alloc owned \<and> (\<exists>L. bfc_inv s L {}) \<and> growth_ok s \<and>
     regions_owned (owned (suballocator s)) (set (region_bounds (regions s)))"

lemma bfc_inv_arena:
  "regions s' = regions s \<Longrightarrow> chunks s' = chunks s \<Longrightarrow> bins s' = bins s \<Longrightarrow> free_chunks_list s' = free_chunks_list s \<Longrightarrow>
   next_allocation_id s' = next_allocation_id s \<Longrightarrow> stats s' = stats s \<Longrightarrow> bfc_inv s' L X = bfc_inv s L X"
  by (simp add: bfc_inv_def)

lemma bfc_ok_arena:
  assumes "bfc_ok sub_alloc owned s" "bfc_inv s' L' {}" "arena s' = arena s"
    "region_bounds (regions s') = region_bounds (regions s)"
  shows "bfc_ok sub_alloc owned s'"
  using assms by (auto simp: bfc_ok_def growth_ok_def growth_factor_def arena_def)

text \<open>A block obtained from the sub-allocator is apart from every region.\<close>

lemma obtained_fresh:
  assumes "obtained A n (Some p) b A'" "regions_ok rs" "regions_owned A (set (region_bounds rs))" "b \<le> 2 ^ 39"
  shows "fresh_block rs p b" and "regions_owned A' (insert (p, b) (set (region_bounds rs)))"
proof -
  obtain k where k: "b \<le> k" "p + k < 2 ^ 64" "\<forall>x \<in> A. apart (p, k) x" "A' = insert (p, k) A"
    "256 dvd b" "0 < b" using assms(1) by (auto simp: obtained_def)
  have "p + b \<le> r_ptr r \<or> end_ptr r \<le> p" if r: "r \<in> set rs" for r
  proof -
    have e: "end_ptr r = r_ptr r + memory_size r" using assms(2) r by (auto simp: regions_ok_def list_all_iff region_ok_def)
    have "(r_ptr r, memory_size r) \<in> set (region_bounds rs)" using r by (simp add: region_bounds_def)
    then obtain x where x: "x \<in> A" "fst x \<le> r_ptr r" "r_ptr r + memory_size r \<le> fst x + snd x"
      using assms(3) by (auto simp: regions_owned_def)
    then have "apart (p, k) x" using k(3) by blast
    then show ?thesis using x k(1) e by (auto simp: apart_def)
  qed
  then show "fresh_block rs p b" using k assms(4) by (simp add: fresh_block_def)
  show "regions_owned A' (insert (p, b) (set (region_bounds rs)))"
    using assms(3) k by (auto simp: regions_owned_def)
qed

lemma available_bytes_eq:
  assumes g: "growth_ok s"
  shows "(memory_limit s + 2 ^ 64 - total_region_allocated_bytes s) mod 2 ^ 64 =
    memory_limit s - total_region_allocated_bytes s"
proof -
  have lim: "total_region_allocated_bytes s \<le> memory_limit s" "memory_limit s \<le> 2 ^ 39"
    using g unfolding growth_ok_def by blast+
  then have "memory_limit s + 2 ^ 64 - total_region_allocated_bytes s =
      (memory_limit s - total_region_allocated_bytes s) + 2 ^ 64" by linarith
  moreover have "memory_limit s - total_region_allocated_bytes s < 2 ^ 64" using lim by simp
  ultimately show "(memory_limit s + 2 ^ 64 - total_region_allocated_bytes s) mod 2 ^ 64 =
      memory_limit s - total_region_allocated_bytes s" by (simp only: mod_add_self2 mod_less)
qed

text \<open>The part of \<open>Extend\<close> after the memory was obtained.\<close>

lemma Extend_unfold:
  assumes run: "Extend sub_alloc s r = Some (e, s')" and g: "growth_ok s"
  defines "avail \<equiv> (memory_limit s - total_region_allocated_bytes s) div 256 * 256"
  shows "(avail < r \<and> \<not> e \<and> s' = s) \<or>
    (\<exists>cur m b t. r \<le> avail \<and> grow_loop r (curr_region_allocation_bytes s) = Some cur \<and>
       obtain_memory sub_alloc (s\<lparr>curr_region_allocation_bytes := cur\<rparr>) r (min cur avail) = Some (m, b, t) \<and>
       (case m of None \<Rightarrow> \<not> e \<and> s' = t
        | Some p \<Rightarrow> e \<and> add_region_chunk (t\<lparr>
             curr_region_allocation_bytes := (if r > curr_region_allocation_bytes s then cur else cur * 2 mod 2 ^ 64),
             total_region_allocated_bytes := (total_region_allocated_bytes t + b) mod 2 ^ 64\<rparr>) p b = Some s'))"
proof -
  have av: "(memory_limit s + 2 ^ 64 - total_region_allocated_bytes s) mod 2 ^ 64 div 256 * 256 = avail"
    unfolding avail_def available_bytes_eq [OF g] ..
  show ?thesis
  proof (cases "avail < r")
    case True
    then show ?thesis using run av by (simp add: Extend_def Let_def)
  next
    case False
    obtain cur m b t where cur: "grow_loop r (curr_region_allocation_bytes s) = Some cur"
      and om: "obtain_memory sub_alloc (s\<lparr>curr_region_allocation_bytes := cur\<rparr>) r (min cur avail) = Some (m, b, t)"
      using run av False by (auto simp: Extend_def Let_def bind_eq_Some_conv)
    have "curr_region_allocation_bytes t = cur"
      using om by (auto simp: obtain_memory_def Let_def split_beta bind_eq_Some_conv split: if_splits)
    then have "t\<lparr>curr_region_allocation_bytes := cur\<rparr> = t" by (cases t) simp
    then have "case m of None \<Rightarrow> \<not> e \<and> s' = t
        | Some p \<Rightarrow> e \<and> add_region_chunk (t\<lparr>
             curr_region_allocation_bytes := (if r > curr_region_allocation_bytes s then cur else cur * 2 mod 2 ^ 64),
             total_region_allocated_bytes := (total_region_allocated_bytes t + b) mod 2 ^ 64\<rparr>) p b = Some s'"
      using run av False cur om
      by (cases m; cases "curr_region_allocation_bytes s < r")
        (auto simp: Extend_def Let_def bind_eq_Some_conv)
    then show ?thesis using cur om False by (meson not_le)
  qed
qed

lemma round_down: "(n::nat) div 256 * 256 \<le> n" "n < n div 256 * 256 + 256"
  using dividend_less_div_times [of 256 n] by (auto simp: add.commute)

text \<open>The arithmetic of one growth step: the bounds of the new bookkeeping.\<close>

lemma growth_step:
  fixes limit total cur b r avail :: nat
  assumes "limit \<le> 2 ^ 39" "total \<le> limit" and avail: "avail = (limit - total) div 256 * 256" and r: "0 < r" "r \<le> avail"
    and cur: "cur \<le> f * (limit + 256)" "f = (if st then 4 else 2)"
    and b: "b \<le> min cur avail" and st': "st \<longrightarrow> st'" "st' = st \<Longrightarrow> b = min cur avail"
  shows "total + b \<le> limit" "cur * 2 mod 2 ^ 64 = cur * 2"
    "cur * 2 \<le> (if limit < total + b + 256 then 8 else if st' then 4 else 2) * (limit + 256)"
proof -
  note av = round_down [of "limit - total", folded avail]
  show "total + b \<le> limit" using av(1) b assms(2) by linarith
  have f: "f \<le> 4" using cur(2) by simp
  then have c4: "cur \<le> 4 * (limit + 256)" using cur(1) mult_le_mono1 [of f 4 "limit + 256"] by linarith
  then show "cur * 2 mod 2 ^ 64 = cur * 2" using assms(1) by simp
  show "cur * 2 \<le> (if limit < total + b + 256 then 8 else if st' then 4 else 2) * (limit + 256)"
  proof (cases "st' = st \<and> cur \<le> avail")
    case True
    then show ?thesis using av(1) by auto
  next
    case False
    show ?thesis
    proof (cases "limit < total + b + 256")
      case True
      then show ?thesis using c4 by simp
    next
      case room: False
      have "st' \<noteq> st"
      proof
        assume "st' = st"
        then have "b = avail" using st'(2) False by simp
        then show False using room av(2) by linarith
      qed
      then have "st'" "f = 2" using st'(1) cur(2) by auto
      then show ?thesis using room cur(1) by simp
    qed
  qed
qed

definition growth_ok_for :: "'s bfc \<Rightarrow> nat \<Rightarrow> bool" where
  "growth_ok_for u b \<longleftrightarrow> memory_limit u \<le> 2 ^ 39 \<and>
     total_region_allocated_bytes u = (\<Sum>r \<leftarrow> region_bounds (regions u). snd r) + b \<and>
     total_region_allocated_bytes u \<le> memory_limit u \<and> 0 < curr_region_allocation_bytes u \<and>
     256 dvd curr_region_allocation_bytes u \<and>
     curr_region_allocation_bytes u \<le> growth_factor u * (memory_limit u + 256)"

lemma region_recorded:
  assumes inv: "bfc_inv u L {}" and g: "growth_ok_for u b" and sub_ok: "sub_allocator_ok sub_alloc owned"
    and ob: "obtained A n (Some p) b (owned (suballocator u))" and ro: "regions_owned A (set (region_bounds (regions u)))"
    and add: "add_region_chunk u p b = Some s'"
  shows "\<exists>L'. bfc_inv s' L' {} \<and> bfc_ok sub_alloc owned s' \<and> keeps u L s' L' \<and>
    next_allocation_id s' = next_allocation_id u \<and> stats s' = stats u \<and> memory_limit s' = memory_limit u"
proof -
  have "b \<le> 2 ^ 39" using g unfolding growth_ok_for_def by linarith
  note fresh = obtained_fresh [OF ob heap_okD(4) [OF bfc_inv_heap [OF inv]] ro this]
  obtain h where s': "bfc_inv s' (insert h L) {}" "used (chunks s') (insert h L) = used (chunks u) L"
    "\<forall>k \<in> used (chunks u) L. c_ptr (chunks s' ! k) = c_ptr (chunks u ! k) \<and>
      c_size (chunks s' ! k) = c_size (chunks u ! k) \<and> requested_size (chunks s' ! k) = requested_size (chunks u ! k) \<and>
      allocation_id (chunks s' ! k) = allocation_id (chunks u ! k)"
    "set (region_bounds (regions s')) = insert (p, b) (set (region_bounds (regions u)))"
    "(\<Sum>r \<leftarrow> region_bounds (regions s'). snd r) = b + (\<Sum>r \<leftarrow> region_bounds (regions u). snd r)"
    "next_allocation_id s' = next_allocation_id u" "stats s' = stats u"
    using add_region_chunk_ok [OF inv fresh(1)] add by auto
  have "arena s' = arena u" by (rule add_region_arena [OF add])
  then have ar: "suballocator s' = suballocator u" "memory_limit s' = memory_limit u"
    "total_region_allocated_bytes s' = total_region_allocated_bytes u"
    "curr_region_allocation_bytes s' = curr_region_allocation_bytes u" "growth_factor s' = growth_factor u"
    by (auto simp: arena_def growth_factor_def)
  have "growth_ok s'" using g unfolding growth_ok_def growth_ok_for_def ar s'(5) by simp
  then have "bfc_ok sub_alloc owned s'" using sub_ok fresh(2) s' ar unfolding bfc_ok_def by auto
  moreover have "keeps u L s' (insert h L)" using s' by (simp add: keeps_def)
  ultimately show ?thesis using s' ar(2) by auto
qed

lemma Extend_ok:
  assumes ok: "bfc_ok sub_alloc owned s" and inv: "bfc_inv s L {}" and r: "256 dvd r" "0 < r"
    and run: "Extend sub_alloc s r = Some (e, s')"
  shows "\<exists>L'. bfc_inv s' L' {} \<and> bfc_ok sub_alloc owned s' \<and> keeps s L s' L' \<and>
    next_allocation_id s' = next_allocation_id s \<and> stats s' = stats s \<and> memory_limit s' = memory_limit s"
proof -
  define avail where "avail = (memory_limit s - total_region_allocated_bytes s) div 256 * 256"
  have sub_ok: "sub_allocator_ok sub_alloc owned" and g: "growth_ok s"
    and ro: "regions_owned (owned (suballocator s)) (set (region_bounds (regions s)))"
    using ok by (auto simp: bfc_ok_def)
  have g': "memory_limit s \<le> 2 ^ 39" "total_region_allocated_bytes s = (\<Sum>r \<leftarrow> region_bounds (regions s). snd r)"
    "total_region_allocated_bytes s \<le> memory_limit s" "0 < curr_region_allocation_bytes s"
    "256 dvd curr_region_allocation_bytes s" "curr_region_allocation_bytes s \<le> growth_factor s * (memory_limit s + 256)"
    using g unfolding growth_ok_def by blast+
  have triv: "keeps s L s L" by (simp add: keeps_def)
  consider (full) "s' = s" | (more) cur m b t where "r \<le> avail" "grow_loop r (curr_region_allocation_bytes s) = Some cur"
      "obtain_memory sub_alloc (s\<lparr>curr_region_allocation_bytes := cur\<rparr>) r (min cur avail) = Some (m, b, t)"
      "case m of None \<Rightarrow> \<not> e \<and> s' = t
        | Some p \<Rightarrow> e \<and> add_region_chunk (t\<lparr>
             curr_region_allocation_bytes := (if r > curr_region_allocation_bytes s then cur else cur * 2 mod 2 ^ 64),
             total_region_allocated_bytes := (total_region_allocated_bytes t + b) mod 2 ^ 64\<rparr>) p b = Some s'"
    using Extend_unfold [OF run g] unfolding avail_def by blast
  then show ?thesis
  proof cases
    case full
    then show ?thesis using ok inv triv by auto
  next
    case more
    have av: "avail \<le> memory_limit s" "memory_limit s - total_region_allocated_bytes s < avail + 256" "256 dvd avail"
      using round_down [of "memory_limit s - total_region_allocated_bytes s"] unfolding avail_def by auto
    have "256 \<le> r" using r by (auto elim!: dvdE)
    then have fac: "growth_factor s = (if started_backpedal s then 4 else 2)"
      using more(1) round_down(1) [of "memory_limit s - total_region_allocated_bytes s"]
      unfolding growth_factor_def avail_def by auto
    have cur: "r \<le> cur" "curr_region_allocation_bytes s \<le> cur" "cur = curr_region_allocation_bytes s \<or> cur < 2 * r"
      "256 dvd cur"
      using grow_loop_returns [OF g'(4), of r] more(1,2) av(1) g'(1,5) by (auto intro: dvd_trans)
    have curb: "cur \<le> growth_factor s * (memory_limit s + 256)"
      using cur(3) g'(6) more(1) av(1) fac by (auto split: if_splits)
    have n: "256 dvd min cur avail" "0 < min cur avail" "min cur avail \<le> 2 ^ 62"
      using cur(1,4) av r more(1) g'(1) by (auto simp: min_def)
    note om = obtain_memory_obtained [OF more(3) sub_ok n]
    obtain sub where t: "t = s\<lparr>curr_region_allocation_bytes := cur, suballocator := sub, started_backpedal := started_backpedal t\<rparr>"
      "obtained (owned (suballocator s)) (min cur avail) m b (owned sub)" using om(1) by auto
    have tt: "regions t = regions s" "chunks t = chunks s" "memory_limit t = memory_limit s" "suballocator t = sub"
      "total_region_allocated_bytes t = total_region_allocated_bytes s" "curr_region_allocation_bytes t = cur"
      "next_allocation_id t = next_allocation_id s" "stats t = stats s" "bfc_inv t L {}"
      using inv by (subst t(1), simp add: bfc_inv_def)+
    have st: "started_backpedal s \<longrightarrow> started_backpedal t" "started_backpedal t = started_backpedal s \<Longrightarrow> b = min cur avail"
      using om(2,5) by auto
    have b: "b \<le> min cur avail" "0 < b" using t(2) by (auto simp: obtained_def)
    note step = growth_step [OF g'(1,3) avail_def r(2) more(1) curb fac b(1) st]
    show ?thesis
    proof (cases m)
      case None
      then have s': "s' = t" and own: "owned sub = owned (suballocator s)"
        using more(4) t(2) by (auto simp: obtained_def)
      have "growth_factor s \<le> growth_factor t" using st(1) tt by (auto simp: growth_factor_def)
      then have "cur \<le> growth_factor t * (memory_limit s + 256)" using le_trans [OF curb mult_le_mono1] by blast
      then have "growth_ok t" using g' tt cur unfolding growth_ok_def by auto
      then have "bfc_ok sub_alloc owned t" using sub_ok ro tt own unfolding bfc_ok_def by auto
      then show ?thesis using s' tt triv by (auto simp: keeps_def)
    next
      case (Some p)
      define u where "u = t\<lparr>curr_region_allocation_bytes := (if r > curr_region_allocation_bytes s then cur else cur * 2 mod 2 ^ 64),
        total_region_allocated_bytes := (total_region_allocated_bytes t + b) mod 2 ^ 64\<rparr>"
      have add: "add_region_chunk u p b = Some s'" using more(4) Some unfolding u_def by simp
      have uu: "regions u = regions s" "chunks u = chunks s" "bfc_inv u L {}" "next_allocation_id u = next_allocation_id s"
        "stats u = stats s" "suballocator u = sub" "memory_limit u = memory_limit s" "started_backpedal u = started_backpedal t"
        "total_region_allocated_bytes u = total_region_allocated_bytes s + b"
        "curr_region_allocation_bytes u = (if r > curr_region_allocation_bytes s then cur else cur * 2)"
        using tt step(1,2) g'(1) by (auto simp: u_def bfc_inv_def)
      have gf: "growth_factor u = (if memory_limit s < total_region_allocated_bytes s + b + 256 then 8 else if started_backpedal t then 4 else 2)"
        by (simp add: growth_factor_def uu add.assoc)
      have "growth_ok_for u b" unfolding growth_ok_for_def gf uu using g' cur step by auto
      then show ?thesis
        using region_recorded [OF uu(3) _ sub_ok t(2) [unfolded Some, folded uu(6)] _ add] ro uu by (auto simp: keeps_def)
    qed
  qed
qed

section \<open>Allocation\<close>

lemma RoundedBytes_ok:
  assumes "0 < n" "n + 255 < 2 ^ 64"
  shows "0 < RoundedBytes n" "256 dvd RoundedBytes n" "n \<le> RoundedBytes n"
  using RoundedBytes_bounds [OF assms(2)] assms(1) by auto

text \<open>What one allocation does to the abstract state.\<close>

definition alloc_effect :: "'s bfc \<Rightarrow> nat \<Rightarrow> nat option \<Rightarrow> 's bfc \<Rightarrow> bool" where
  "alloc_effect s n res s' \<longleftrightarrow>
     (case res of
        None \<Rightarrow> live s' = live s \<and> next_allocation_id s' = next_allocation_id s \<and> stats s' = stats s
      | Some p \<Rightarrow> live s p = None \<and> next_allocation_id s' = next_allocation_id s + 1 \<and>
          num_allocs (stats s') = num_allocs (stats s) + 1 \<and>
          max_bytes_in_use (stats s') = max (max_bytes_in_use (stats s)) (bytes_in_use (stats s')) \<and>
          (\<exists>sz. n \<le> sz \<and> live s' = (live s)(p \<mapsto> (sz, n, next_allocation_id s))))"

lemma FindChunkPtr_effect:
  assumes ok: "bfc_ok sub_alloc owned s" and inv: "bfc_inv s L {}" and n: "0 < n" "n + 255 < 2 ^ 64"
  shows "\<exists>res s' L'. FindChunkPtr s (BinNumForSize (RoundedBytes n)) (RoundedBytes n) n = Some (res, s') \<and>
    bfc_inv s' L' {} \<and> bfc_ok sub_alloc owned s' \<and> alloc_effect s n res s' \<and> (res = None \<longrightarrow> s' = s)"
proof (cases "search_bins s (RoundedBytes n) [BinNumForSize (RoundedBytes n)..<21]")
  case None
  then show ?thesis using FindChunkPtr_none(1) [OF inv None] ok inv by (auto simp: alloc_effect_def)
next
  case (Some bh)
  obtain b h where "bh = (b, h)" by (cases bh)
  then have found: "search_bins s (RoundedBytes n) [BinNumForSize (RoundedBytes n)..<21] = Some (b, h)" using Some by simp
  obtain s' L' where s': "FindChunkPtr s (BinNumForSize (RoundedBytes n)) (RoundedBytes n) n = Some (Some (c_ptr (chunks s ! h)), s')"
    "bfc_inv s' L' {}" "granted s L h n s' L'" "c_ptr (chunks s' ! h) = c_ptr (chunks s ! h)"
    using FindChunkPtr_some [OF inv found RoundedBytes_ok [OF n]] by blast
  have "bfc_ok sub_alloc owned s'"
    using bfc_ok_arena [OF ok s'(2) FindChunkPtr_arena [OF s'(1)]] s'(3) by (simp add: granted_def)
  moreover have "alloc_effect s n (Some (c_ptr (chunks s ! h))) s'"
    using live_granted [OF inv s'(2,3)] s'(3,4) by (auto simp: alloc_effect_def granted_def)
  ultimately show ?thesis using s'(1,2) by blast
qed

lemma AllocateRaw_effect:
  assumes ok: "bfc_ok sub_alloc owned s" and n: "n + 255 < 2 ^ 64"
    and run: "AllocateRawInternal sub_alloc s n = Some (res, s')"
  shows "bfc_ok sub_alloc owned s' \<and> alloc_effect s n res s'"
proof (cases "n = 0")
  case True
  then show ?thesis using run ok by (simp add: AllocateRawInternal_def alloc_effect_def)
next
  case False
  then have n0: "0 < n" by simp
  obtain L where inv: "bfc_inv s L {}" using ok by (auto simp: bfc_ok_def)
  let ?r = "RoundedBytes n"
  obtain res1 s1 L1 where f1: "FindChunkPtr s (BinNumForSize ?r) ?r n = Some (res1, s1)" "bfc_ok sub_alloc owned s1"
    "alloc_effect s n res1 s1" "res1 = None \<longrightarrow> s1 = s"
    using FindChunkPtr_effect [OF ok inv n0 n] by blast
  show ?thesis
  proof (cases res1)
    case (Some p)
    then show ?thesis using run f1 n0 by (simp add: AllocateRawInternal_def Let_def)
  next
    case None
    obtain e s2 where e: "Extend sub_alloc s ?r = Some (e, s2)"
      "(if e then FindChunkPtr s2 (BinNumForSize ?r) ?r n else Some (None, s2)) = Some (res, s')"
      using run f1 None n0 by (auto simp: AllocateRawInternal_def Let_def bind_eq_Some_conv)
    note ro = RoundedBytes_ok [OF n0 n]
    obtain L2 where s2: "bfc_inv s2 L2 {}" "bfc_ok sub_alloc owned s2" "keeps s L s2 L2"
      "next_allocation_id s2 = next_allocation_id s" "stats s2 = stats s"
      using Extend_ok [OF ok inv ro(2,1) e(1)] by blast
    note l = live_keeps [OF inv s2(1,3)]
    show ?thesis
      using e(2) FindChunkPtr_effect [OF s2(2,1) n0 n] s2 l
      by (cases e) (auto simp: alloc_effect_def split: option.splits)
  qed
qed

text \<open>
  An allocation returns (with an address or with null) when the request is larger than
  2048 bytes, when the arena has backpedalled before, or when the sub-allocator does not fail.
\<close>

lemma Extend_returns:
  assumes ok: "bfc_ok sub_alloc owned s" and r: "256 dvd r" "0 < r"
    and c: "2304 \<le> r \<or> started_backpedal s \<or> (\<forall>m. 0 < m \<and> m \<le> memory_limit s \<longrightarrow> fst (sub_alloc (suballocator s) m) \<noteq> None)"
  shows "\<exists>y. Extend sub_alloc s r = Some y"
proof -
  define avail where "avail = (memory_limit s + 2 ^ 64 - total_region_allocated_bytes s) mod 2 ^ 64 div 256 * 256"
  obtain L where inv: "bfc_inv s L {}" using ok by (auto simp: bfc_ok_def)
  have sub_ok: "sub_allocator_ok sub_alloc owned" and g: "growth_ok s"
    and ro: "regions_owned (owned (suballocator s)) (set (region_bounds (regions s)))"
    using ok by (auto simp: bfc_ok_def)
  have g': "memory_limit s \<le> 2 ^ 39" "total_region_allocated_bytes s \<le> memory_limit s" "0 < curr_region_allocation_bytes s"
    "256 dvd curr_region_allocation_bytes s" using g unfolding growth_ok_def by blast+
  have av: "avail \<le> 2 ^ 39" "256 dvd avail"
    using g'(1) round_down(1) [of "memory_limit s - total_region_allocated_bytes s"]
    unfolding avail_def available_bytes_eq [OF g] by auto
  show ?thesis
  proof (cases "avail < r")
    case True
    then have "Extend sub_alloc s r = Some (False, s)" by (simp add: Extend_def Let_def avail_def)
    then show ?thesis by blast
  next
    case False
    obtain cur where cur: "grow_loop r (curr_region_allocation_bytes s) = Some cur" "256 dvd cur" "r \<le> cur"
      using grow_loop_returns [OF g'(3), of r] False av(1) g'(4) by (auto intro: dvd_trans)
    have n: "256 dvd min cur avail" "0 < min cur avail" "min cur avail \<le> 2 ^ 62" "min cur avail \<le> 2 ^ 39"
      using cur av False r(2) by (auto simp: min_def)
    let ?s = "s\<lparr>curr_region_allocation_bytes := cur\<rparr>"
    have "avail \<le> memory_limit s"
      using round_down(1) [of "memory_limit s - total_region_allocated_bytes s"] unfolding avail_def available_bytes_eq [OF g] by simp
    then have "2304 \<le> r \<or> started_backpedal ?s \<or> fst (sub_alloc (suballocator ?s) (min cur avail)) \<noteq> None" using c n(2) by auto
    then obtain m b t where om: "obtain_memory sub_alloc ?s r (min cur avail) = Some (m, b, t)"
      using obtain_memory_returns [OF _ n(1,3)] by (metis prod_cases3)
    obtain sub where t: "t = ?s\<lparr>suballocator := sub, started_backpedal := started_backpedal t\<rparr>"
      "obtained (owned (suballocator s)) (min cur avail) m b (owned sub)"
      using obtain_memory_obtained(1) [OF om sub_ok n(1-3)] by auto
    have tt: "regions t = regions s" "bfc_inv t L {}" using inv by (subst t(1), simp add: bfc_inv_def)+
    have add: "\<exists>s'. add_region_chunk (t\<lparr>curr_region_allocation_bytes := x, total_region_allocated_bytes := y\<rparr>) p b = Some s'"
      "\<exists>s'. add_region_chunk (t\<lparr>total_region_allocated_bytes := y\<rparr>) p b = Some s'"
      if "m = Some p" for p x y
    proof -
      have "b \<le> 2 ^ 39" using t(2) n(4) by (auto simp: obtained_def)
      then have "fresh_block (regions s) p b"
        using obtained_fresh(1) [OF t(2) [unfolded that] heap_okD(4) [OF bfc_inv_heap [OF inv]] ro] by simp
      then show "\<exists>s'. add_region_chunk (t\<lparr>curr_region_allocation_bytes := x, total_region_allocated_bytes := y\<rparr>) p b = Some s'"
        "\<exists>s'. add_region_chunk (t\<lparr>total_region_allocated_bytes := y\<rparr>) p b = Some s'"
        using add_region_chunk_ok [of "t\<lparr>curr_region_allocation_bytes := x, total_region_allocated_bytes := y\<rparr>" L p b]
          add_region_chunk_ok [of "t\<lparr>total_region_allocated_bytes := y\<rparr>" L p b] tt by (auto simp: bfc_inv_def)
    qed
    show ?thesis
      using False cur(1) om add unfolding Extend_def Let_def avail_def [symmetric]
      by (cases m; cases "curr_region_allocation_bytes s < r") (auto simp: bind_eq_Some_conv)
  qed
qed

lemma binned_free:
  assumes inv: "bfc_inv s L {}" and h: "h < length (chunks s)" "bin_num (chunks s ! h) \<noteq> None"
  shows "h \<in> L" "\<not> in_use (chunks s ! h)"
proof -
  have fl: "free_list_ok (chunks s) (free_chunks_list s) ({..<length (chunks s)} - L)" using inv by (simp add: bfc_inv_def)
  show hL: "h \<in> L" using fl h by (auto simp: free_list_ok_def)
  show "\<not> in_use (chunks s ! h)"
    using bins_okD(3) [OF heap_okD(9) [OF bfc_inv_heap [OF inv]] hL] h(2) by (auto split: if_splits)
qed

lemma FindChunkPtr_refused:
  assumes ok: "bfc_ok sub_alloc owned s" and inv: "bfc_inv s L {}" and n: "0 < n" "n + 255 < 2 ^ 64"
    and run: "FindChunkPtr s (BinNumForSize (RoundedBytes n)) (RoundedBytes n) n = Some (None, s')"
    and h: "h < length (chunks s)" "bin_num (chunks s ! h) \<noteq> None"
  shows "c_size (chunks s ! h) < RoundedBytes n"
proof (cases "search_bins s (RoundedBytes n) [BinNumForSize (RoundedBytes n)..<21]")
  case None
  then show ?thesis using FindChunkPtr_none(2) [OF inv None] binned_free [OF inv h] by simp
next
  case (Some bh)
  obtain b k where "search_bins s (RoundedBytes n) [BinNumForSize (RoundedBytes n)..<21] = Some (b, k)" using Some by (cases bh) simp
  then show ?thesis using FindChunkPtr_some [OF inv _ RoundedBytes_ok [OF n]] run by fastforce
qed

lemma AllocateRaw_returns:
  assumes ok: "bfc_ok sub_alloc owned s" and n: "n + 255 < 2 ^ 64"
    and c: "2048 < n \<or> started_backpedal s \<or>
      (\<exists>h < length (chunks s). bin_num (chunks s ! h) \<noteq> None \<and> RoundedBytes n \<le> c_size (chunks s ! h)) \<or>
      (\<forall>m. 0 < m \<and> m \<le> memory_limit s \<longrightarrow> fst (sub_alloc (suballocator s) m) \<noteq> None)"
  shows "\<exists>y. AllocateRawInternal sub_alloc s n = Some y"
proof (cases "n = 0")
  case False
  then have n0: "0 < n" by simp
  obtain L where inv: "bfc_inv s L {}" using ok by (auto simp: bfc_ok_def)
  let ?r = "RoundedBytes n"
  obtain res1 s1 where f1: "FindChunkPtr s (BinNumForSize ?r) ?r n = Some (res1, s1)" "res1 = None \<longrightarrow> s1 = s"
    using FindChunkPtr_effect [OF ok inv n0 n] by blast
  note ro = RoundedBytes_ok [OF n0 n]
  have big: "2304 \<le> ?r" if "2048 < n" using that ro by (auto elim!: dvdE)
  show ?thesis
  proof (cases res1)
    case None
    then have f0: "FindChunkPtr s (BinNumForSize ?r) ?r n = Some (None, s)" using f1 by simp
    have "2048 < n \<or> started_backpedal s \<or> (\<forall>m. 0 < m \<and> m \<le> memory_limit s \<longrightarrow> fst (sub_alloc (suballocator s) m) \<noteq> None)"
      using c FindChunkPtr_refused [OF ok inv n0 n f0] by (meson not_le)
    then obtain e s2 where e: "Extend sub_alloc s ?r = Some (e, s2)"
      using Extend_returns [OF ok ro(2,1)] big by (metis surj_pair)
    obtain L2 where s2: "bfc_inv s2 L2 {}" "bfc_ok sub_alloc owned s2" using Extend_ok [OF ok inv ro(2,1) e] by blast
    then show ?thesis using f0 e n0 FindChunkPtr_effect [OF s2(2,1) n0 n]
      by (cases e) (auto simp: AllocateRawInternal_def Let_def)
  qed (use f1 n0 in \<open>auto simp: AllocateRawInternal_def Let_def\<close>)
qed (simp add: AllocateRawInternal_def)

lemma AllocateRaw_refused:
  assumes ok: "bfc_ok sub_alloc owned s" and n: "0 < n" "n + 255 < 2 ^ 64"
    and run: "AllocateRawInternal sub_alloc s n = Some (None, s')"
    and h: "h < length (chunks s)" "bin_num (chunks s ! h) \<noteq> None"
  shows "c_size (chunks s ! h) < RoundedBytes n"
proof -
  obtain L where inv: "bfc_inv s L {}" using ok by (auto simp: bfc_ok_def)
  have "\<exists>s1. FindChunkPtr s (BinNumForSize (RoundedBytes n)) (RoundedBytes n) n = Some (None, s1)"
    using run n(1) by (auto simp: AllocateRawInternal_def Let_def bind_eq_Some_conv split: if_splits)
  then show ?thesis using FindChunkPtr_refused [OF ok inv n] h by blast
qed

text \<open>A region recorded after backpedalling is smaller than the block behind it.\<close>

lemma Extend_backpedalled:
  assumes ok: "bfc_ok sub_alloc owned s" and r: "256 dvd r" "2304 \<le> r"
    and run: "Extend sub_alloc s r = Some (True, s')" and b: "\<not> started_backpedal s" "started_backpedal s'"
  shows "\<exists>p b k. set (region_bounds (regions s')) = insert (p, b) (set (region_bounds (regions s))) \<and>
    (p, b) \<notin> set (region_bounds (regions s)) \<and>
    owned (suballocator s') = insert (p, k) (owned (suballocator s)) \<and>
    r < k \<and> b = RoundedBytes (times_kBackpedalFactor k) \<and> b < k"
proof -
  define avail where "avail = (memory_limit s - total_region_allocated_bytes s) div 256 * 256"
  obtain L where inv: "bfc_inv s L {}" using ok by (auto simp: bfc_ok_def)
  have sub_ok: "sub_allocator_ok sub_alloc owned" and g: "growth_ok s"
    and ro: "regions_owned (owned (suballocator s)) (set (region_bounds (regions s)))"
    using ok by (auto simp: bfc_ok_def)
  have g': "memory_limit s \<le> 2 ^ 39" "0 < curr_region_allocation_bytes s" "256 dvd curr_region_allocation_bytes s"
    using g unfolding growth_ok_def by blast+
  obtain cur m b t where more: "r \<le> avail" "grow_loop r (curr_region_allocation_bytes s) = Some cur"
      "obtain_memory sub_alloc (s\<lparr>curr_region_allocation_bytes := cur\<rparr>) r (min cur avail) = Some (m, b, t)"
      "case m of None \<Rightarrow> False
        | Some p \<Rightarrow> add_region_chunk (t\<lparr>
             curr_region_allocation_bytes := (if r > curr_region_allocation_bytes s then cur else cur * 2 mod 2 ^ 64),
             total_region_allocated_bytes := (total_region_allocated_bytes t + b) mod 2 ^ 64\<rparr>) p b = Some s'"
    using Extend_unfold [OF run g] unfolding avail_def by (auto split: option.splits)
  obtain p where p: "m = Some p" using more(4) by (cases m) auto
  have av: "avail \<le> 2 ^ 39" "256 dvd avail" using round_down(1) [of "memory_limit s - total_region_allocated_bytes s"] g'(1) unfolding avail_def by auto
  have cur: "r \<le> cur" "256 dvd cur" using grow_loop_returns [OF g'(2), of r] more(1,2) av(1) g'(3) by (auto intro: dvd_trans)
  have n: "256 dvd min cur avail" "0 < min cur avail" "min cur avail \<le> 2 ^ 62" "min cur avail \<le> 2 ^ 39"
    using cur av r(2) more(1) by (auto simp: min_def)
  obtain sub where t: "t = s\<lparr>curr_region_allocation_bytes := cur, suballocator := sub, started_backpedal := started_backpedal t\<rparr>"
    "obtained (owned (suballocator s)) (min cur avail) m b (owned sub)" using obtain_memory_obtained(1) [OF more(3) sub_ok n(1-3)] by auto
  define u where "u = t\<lparr>curr_region_allocation_bytes := (if r > curr_region_allocation_bytes s then cur else cur * 2 mod 2 ^ 64),
    total_region_allocated_bytes := (total_region_allocated_bytes t + b) mod 2 ^ 64\<rparr>"
  have add: "add_region_chunk u p b = Some s'" using more(4) p unfolding u_def by simp
  have uu: "regions u = regions s" "bfc_inv u L {}" using inv unfolding u_def by (subst t(1), simp add: bfc_inv_def)+
  have "arena s' = arena u" by (rule add_region_arena [OF add])
  then have s': "suballocator s' = suballocator t" "started_backpedal t" using b(2) by (simp_all add: arena_def u_def)
  have fresh: "fresh_block (regions s) p b"
    using obtained_fresh(1) [OF t(2) [unfolded p] heap_okD(4) [OF bfc_inv_heap [OF inv]] ro] t(2) n(4) by (auto simp: obtained_def)
  have "set (region_bounds (regions s')) = insert (p, b) (set (region_bounds (regions s)))"
    using add_region_chunk_ok [OF uu(2), of p b] fresh uu(1) add by auto
  moreover have "(p, b) \<notin> set (region_bounds (regions s))"
    using fresh heap_okD(4) [OF bfc_inv_heap [OF inv]]
    by (fastforce simp: fresh_block_def region_bounds_def regions_ok_def list_all_iff region_ok_def)
  ultimately show ?thesis
    using obtain_memory_backpedalled [OF more(3) [unfolded p] sub_ok n(1,3) r(2)] b(1) s' by auto
qed

section \<open>The constructor\<close>

lemma BinNumForSize_eq:
  assumes "b < 21" "256 * 2 ^ b \<le> n" "n < 512 * 2 ^ b \<or> b = 20" "n < 2 ^ 64"
  shows "BinNumForSize n = b"
proof -
  have "1 \<le> (2::nat) ^ b" by simp
  then have "256 \<le> n" using assms(2) by linarith
  moreover have q: "2 ^ b \<le> n div 256" using div_le_mono [OF assms(2), of 256] by simp
  ultimately have eq: "BinNumForSize n = min 20 (log2_floor (n div 256))" by (simp add: BinNumForSize_log2 [OF assms(4)] max_def)
  show ?thesis
  proof (cases "n < 512 * 2 ^ b")
    case True
    then have "n div 256 < 2 * 2 ^ b" by (simp add: div_less_iff_less_mult)
    then have "log2_floor (n div 256) = b" by (rule log2_floor_unique [OF q])
    then show ?thesis using assms(1) by (simp add: eq)
  next
    case False
    then have "b = 20" using assms(3) by blast
    moreover have "log2_floor (2 ^ 20) \<le> log2_floor (n div 256)" using q \<open>b = 20\<close> by (intro log2_floor_mono) simp
    moreover have "log2_floor (2 ^ 20) = 20" by (rule log2_floor_unique) simp_all
    ultimately show ?thesis by (simp add: eq)
  qed
qed

lemma bin_checks_hold: "b < 21 \<Longrightarrow> bin_checks b"
proof -
  assume b: "b < 21"
  define x where "x = (2::nat) ^ b"
  have "(2::nat) ^ b \<le> 2 ^ 20" using b by (intro power_increasing) auto
  then have p: "1 \<le> x" "x \<le> 1048576" by (simp_all add: x_def)
  have here: "BinNumForSize m = b" if "256 * x \<le> m" "m < 512 * x" for m
    using that p by (intro BinNumForSize_eq b) (auto simp: x_def)
  have "BinNumForSize (512 * x) = Suc b" if "b + 1 < 21" using that p by (intro BinNumForSize_eq) (auto simp: x_def)
  then show "bin_checks b"
    using here [of "256 * x"] here [of "256 * x + 255"] here [of "512 * x - 1"] p
    unfolding bin_checks_def BinNumToSize_def Let_def x_def [symmetric] by (simp add: mult.commute)
qed

lemma BFCAllocator_ok:
  assumes "sub_allocator_ok sub_alloc owned" "0 < total_memory" "total_memory \<le> 2 ^ 39"
  shows "\<exists>s. BFCAllocator sub total_memory g = Some s \<and> bfc_ok sub_alloc owned s \<and> live s = Map.empty"
proof -
  obtain s where s: "BFCAllocator sub total_memory g = Some s" "regions s = []" "chunks s = []" "bins s = (\<lambda>_. [])"
    "free_chunks_list s = None" "next_allocation_id s = 1" "bytes_in_use (stats s) = 0" "memory_limit s = total_memory"
    "total_region_allocated_bytes s = 0" "started_backpedal s = False" "suballocator s = sub"
    "curr_region_allocation_bytes s = (if g then RoundedBytes (min total_memory 1048576) else RoundedBytes total_memory)"
    using bin_checks_hold by (simp add: BFCAllocator_def list_all_iff)
  have inv: "bfc_inv s {} {}"
    using s by (auto simp: bfc_inv_def heap_ok_def heap_defs regions_ok_def free_list_ok_def ids_ok_def used_def
        addressable_def region_bounds_def intro!: exI [of _ "[]"])
  have cur: "0 < curr_region_allocation_bytes s" "256 dvd curr_region_allocation_bytes s"
    "curr_region_allocation_bytes s \<le> 2 * (total_memory + 256)"
  proof -
    obtain m where m: "curr_region_allocation_bytes s = RoundedBytes m" "0 < m" "m \<le> total_memory"
      using s(12) assms(2) by (cases g) auto
    then show "0 < curr_region_allocation_bytes s" "256 dvd curr_region_allocation_bytes s"
      "curr_region_allocation_bytes s \<le> 2 * (total_memory + 256)"
      using RoundedBytes_bounds [of m] assms(3) by auto
  qed
  have "growth_factor s \<ge> 2" by (simp add: growth_factor_def)
  then have "2 * (total_memory + 256) \<le> growth_factor s * (total_memory + 256)" by (rule mult_le_mono1)
  then have "growth_ok s" using s assms(3) cur unfolding growth_ok_def by (auto simp: region_bounds_def)
  then have "bfc_ok sub_alloc owned s" using inv assms(1) s by (auto simp: bfc_ok_def regions_owned_def region_bounds_def)
  moreover have "live s = Map.empty"
  proof
    show "live s p = None" for p using live_iff [OF inv, of p] by (cases "live s p") (auto simp: used_def)
  qed
  ultimately show ?thesis using s(1) by blast
qed

end
