(* ===== verification/Bfc_System.thy ===== *)
theory Bfc_System
  imports Bfc_Properties "HOL-Library.Code_Target_Nat"
begin

text \<open>
  The BFC allocator as a transition system over its public operations, the abstract
  specification it refines, and the properties of every reachable state.
\<close>

section \<open>The transition system\<close>

text \<open>
  A client asks for any number of bytes whose rounding does not wrap, and frees null or an
  address it was given and has not freed since.
\<close>

inductive bfc_step :: "('s \<Rightarrow> nat \<Rightarrow> nat option \<times> 's) \<Rightarrow> 's bfc \<Rightarrow> 's bfc \<Rightarrow> bool" for sub_alloc where
  allocate: "n + 255 < 2 ^ 64 \<Longrightarrow> AllocateRawInternal sub_alloc s n = Some (p, s') \<Longrightarrow> bfc_step sub_alloc s s'"
| deallocate: "live s p \<noteq> None \<Longrightarrow> DeallocateRawInternal s (Some p) = Some s' \<Longrightarrow> bfc_step sub_alloc s s'"
| deallocate_null: "DeallocateRawInternal s None = Some s' \<Longrightarrow> bfc_step sub_alloc s s'"

definition bfc_start :: "('s \<Rightarrow> nat \<Rightarrow> nat option \<times> 's) \<Rightarrow> ('s \<Rightarrow> (nat \<times> nat) set) \<Rightarrow> 's bfc \<Rightarrow> bool" where
  "bfc_start sub_alloc owned s \<longleftrightarrow> sub_allocator_ok sub_alloc owned \<and>
     (\<exists>sub total_memory allow_growth. 0 < total_memory \<and> total_memory \<le> 2 ^ 39 \<and>
        BFCAllocator sub total_memory allow_growth = Some s)"

lemma Deallocate_ok:
  assumes "bfc_ok sub_alloc owned s" "live s p = Some v"
  shows "\<exists>s'. DeallocateRawInternal s (Some p) = Some s' \<and> bfc_ok sub_alloc owned s' \<and> live s' = (live s)(p := None)"
proof -
  obtain L where inv: "bfc_inv s L {}" using assms(1) by (auto simp: bfc_ok_def)
  obtain s' L' where s': "DeallocateRawInternal s (Some p) = Some s'" "bfc_inv s' L' {}" "live s' = (live s)(p := None)"
    "region_bounds (regions s') = region_bounds (regions s)" using DeallocateRaw_ok [OF inv assms(2)] by blast
  then show ?thesis using bfc_ok_arena [OF assms(1) s'(2) Deallocate_arena [OF s'(1)] s'(4)] by blast
qed

interpretation bfc: transition_system "bfc_start sub_alloc owned" "bfc_step sub_alloc" "bfc_ok sub_alloc owned"
  for sub_alloc :: "'s \<Rightarrow> nat \<Rightarrow> nat option \<times> 's" and owned
proof
  show "bfc_ok sub_alloc owned s" if "bfc_start sub_alloc owned s" for s
    using that BFCAllocator_ok [of sub_alloc owned] unfolding bfc_start_def by (metis option.inject)
  show "bfc_ok sub_alloc owned t" if "bfc_ok sub_alloc owned s" "bfc_step sub_alloc s t" for s t
    using that(2,1)
  proof cases
    case allocate
    then show ?thesis using AllocateRaw_effect [OF that(1)] by blast
  next
    case (deallocate p)
    then show ?thesis using Deallocate_ok [OF that(1), of p] by auto
  next
    case deallocate_null
    then show ?thesis using that(1) by (simp add: DeallocateRawInternal_def)
  qed
qed

section \<open>Facts of well-formed states\<close>

lemma live_facts:
  assumes ok: "bfc_ok sub_alloc owned s" and p: "live s p = Some (n, rn, i)"
  shows "rn \<le> n" "0 < n" "256 dvd n" "0 < i" "i < next_allocation_id s"
    and "\<exists>r \<in> set (region_bounds (regions s)). fst r \<le> p \<and> p + n \<le> fst r + snd r \<and> 256 dvd (p - fst r)"
    and "\<exists>b \<in> owned (suballocator s). fst b \<le> p \<and> p + n \<le> fst b + snd b"
proof -
  obtain L where inv: "bfc_inv s L {}" using ok by (auto simp: bfc_ok_def)
  note heap = bfc_inv_heap [OF inv]
  obtain h where h: "h \<in> L" "in_use (chunks s ! h)" "c_ptr (chunks s ! h) = p" "c_size (chunks s ! h) = n"
    "requested_size (chunks s ! h) = rn" "allocation_id (chunks s ! h) = i"
    using live_iff [OF inv, of p "(n, rn, i)"] p by (auto simp: used_def)
  show "rn \<le> n" "0 < i" "i < next_allocation_id s" using inv h unfolding bfc_inv_def ids_ok_def by blast+
  show "0 < n" "256 dvd n" using chunk_size_bound(2,3) [OF heap h(1)] h(4) by auto
  obtain r where r: "r \<in> set (region_bounds (regions s))" "chunk_in r (chunks s ! h)"
    using heap_okD(6) [OF heap] h(1) by (auto simp: space_ok_def)
  then show "\<exists>r \<in> set (region_bounds (regions s)). fst r \<le> p \<and> p + n \<le> fst r + snd r \<and> 256 dvd (p - fst r)"
    using h by (auto simp: chunk_in_def)
  obtain b where "b \<in> owned (suballocator s)" "fst b \<le> fst r" "fst r + snd r \<le> fst b + snd b"
    using ok r(1) by (auto simp: bfc_ok_def regions_owned_def)
  then show "\<exists>b \<in> owned (suballocator s). fst b \<le> p \<and> p + n \<le> fst b + snd b"
    using r(2) h by (intro bexI [of _ b]) (auto simp: chunk_in_def)
qed

lemma live_apart:
  assumes ok: "bfc_ok sub_alloc owned s" and p: "live s p = Some (n, rn, i)" and q: "live s q = Some (m, rm, j)" and "p \<noteq> q"
  shows "apart (p, n) (q, m)" "i \<noteq> j"
proof -
  obtain L where inv: "bfc_inv s L {}" using ok by (auto simp: bfc_ok_def)
  note heap = bfc_inv_heap [OF inv]
  obtain h where h: "h \<in> L" "in_use (chunks s ! h)" "c_ptr (chunks s ! h) = p" "c_size (chunks s ! h) = n"
    "allocation_id (chunks s ! h) = i" using live_iff [OF inv, of p "(n, rn, i)"] p by (auto simp: used_def)
  obtain k where k: "k \<in> L" "in_use (chunks s ! k)" "c_ptr (chunks s ! k) = q" "c_size (chunks s ! k) = m"
    "allocation_id (chunks s ! k) = j" using live_iff [OF inv, of q "(m, rm, j)"] q by (auto simp: used_def)
  have hk: "h \<noteq> k" using h k assms(4) by auto
  then have "disjoint_chunks (chunks s ! h) (chunks s ! k)" using heap_okD(7) [OF heap] h(1) k(1) unfolding disjoint_ok_def by blast
  then show "apart (p, n) (q, m)" using h k by (simp add: disjoint_chunks_def apart_def)
  show "i \<noteq> j" using inv h k hk unfolding bfc_inv_def ids_ok_def by blast
qed

lemma live_finite: "bfc_inv s L {} \<Longrightarrow> finite (dom (live s))"
proof -
  assume inv: "bfc_inv s L {}"
  have "dom (live s) = (\<lambda>h. c_ptr (chunks s ! h)) ` used (chunks s) L"
    by (auto simp: dom_def live_iff [OF inv])
  then show ?thesis using heap_ok_finite [OF bfc_inv_heap [OF inv]] by (simp add: used_def)
qed

lemma bytes_in_use_live:
  assumes inv: "bfc_inv s L {}"
  shows "bytes_in_use (stats s) = (\<Sum>p \<in> dom (live s). int (fst (the (live s p))))"
proof -
  note heap = bfc_inv_heap [OF inv]
  have dom: "dom (live s) = (\<lambda>h. c_ptr (chunks s ! h)) ` used (chunks s) L"
    by (auto simp: dom_def live_iff [OF inv])
  have inj: "inj_on (\<lambda>h. c_ptr (chunks s ! h)) (used (chunks s) L)"
    using heap_ptr_inject [OF heap] by (auto simp: inj_on_def used_def)
  have "live s (c_ptr (chunks s ! h)) = Some (c_size (chunks s ! h), requested_size (chunks s ! h), allocation_id (chunks s ! h))"
    if "h \<in> used (chunks s) L" for h using that live_iff [OF inv] by blast
  then have "(\<Sum>p \<in> dom (live s). int (fst (the (live s p)))) = (\<Sum>h \<in> used (chunks s) L. int (c_size (chunks s ! h)))"
    unfolding dom by (subst sum.reindex [OF inj]) simp
  then show ?thesis using inv by (simp add: bfc_inv_def)
qed

lemma regions_distinct: "regions_ok rs \<Longrightarrow> distinct (region_bounds rs)"
proof -
  assume ok: "regions_ok rs"
  have pos: "r_ptr r < end_ptr r" if "r \<in> set rs" for r
    using ok that by (auto simp: regions_ok_def list_all_iff region_ok_def)
  have "sorted_wrt (\<lambda>r r'. end_ptr r \<le> r_ptr r') rs" using ok by (simp add: regions_ok_def)
  then have "sorted_wrt (\<lambda>r r'. r_ptr r < r_ptr r') rs"
    by (rule sorted_wrt_mono_rel [rotated]) (use pos in \<open>blast intro: less_le_trans\<close>)
  then have "sorted_wrt (<) (map fst (region_bounds rs))" by (simp add: region_bounds_def sorted_wrt_map comp_def)
  then have "distinct (map fst (region_bounds rs))" by (simp add: strict_sorted_iff)
  then show ?thesis by (simp add: distinct_map)
qed

text \<open>With every allocation freed, the chunks are exactly the regions.\<close>

lemma all_free_whole_region:
  assumes inv: "bfc_inv s L {}" and none: "used (chunks s) L = {}" and r: "r \<in> set (region_bounds (regions s))"
  shows "\<exists>h \<in> L. c_ptr (chunks s ! h) = fst r \<and> c_size (chunks s ! h) = snd r \<and> \<not> in_use (chunks s ! h)"
proof -
  note heap = bfc_inv_heap [OF inv]
  note d = heap_okD [OF heap]
  let ?C = "chunks s" and ?B = "set (region_bounds (regions s))" and ?f = "\<lambda>h. (c_ptr (chunks s ! h), c_size (chunks s ! h))"
  have free: "\<not> in_use (?C ! h)" if "h \<in> L" for h using none that by (auto simp: used_def)
  have whole: "?f h \<in> ?B" if h: "h \<in> L" for h
  proof -
    have "c_next (?C ! h) = None"
      using d(10) h free links_next [OF d(5) h] unfolding coalesced_def by (cases "c_next (?C ! h)") auto
    moreover have "c_prev (?C ! h) = None"
      using d(10) h free links_prev [OF d(5) h] unfolding coalesced_def by (cases "c_prev (?C ! h)") auto
    moreover obtain b where "b \<in> ?B" "chunk_in b (?C ! h)" using d(6) h unfolding space_ok_def by blast
    ultimately show ?thesis by (cases b) (auto simp: chunk_in_def)
  qed
  have inj: "inj_on ?f L" using heap_ptr_inject [OF heap] by (auto simp: inj_on_def)
  have "(\<Sum>b \<in> ?B. snd b) = (\<Sum>h \<in> L. c_size (?C ! h))"
    using d(11) regions_distinct [OF d(4)] by (simp add: sum_list_distinct_conv_sum_set)
  also have "\<dots> = (\<Sum>b \<in> ?f ` L. snd b)" by (subst sum.reindex [OF inj]) simp
  finally have eq: "(\<Sum>b \<in> ?B. snd b) = (\<Sum>b \<in> ?f ` L. snd b)" .
  have sub: "?f ` L \<subseteq> ?B" using whole by auto
  have "(\<Sum>b \<in> ?B - ?f ` L. snd b) = 0" using sum.subset_diff [OF sub, of snd] eq by simp
  moreover have "0 < snd r" using d(4) r by (auto simp: regions_ok_def list_all_iff region_ok_def region_bounds_def)
  ultimately have "r \<in> ?f ` L" using r by (metis (no_types, lifting) DiffI List.finite_set finite_Diff less_irrefl sum_eq_0_iff)
  then show ?thesis using free by force
qed

lemma live_empty_iff:
  assumes ok: "bfc_ok sub_alloc owned s" and "bytes_in_use (stats s) = 0"
  shows "live s = Map.empty"
proof
  fix p
  obtain L where inv: "bfc_inv s L {}" using ok by (auto simp: bfc_ok_def)
  have "\<forall>p \<in> dom (live s). int (fst (the (live s p))) = 0"
    using assms(2) bytes_in_use_live [OF inv] live_finite [OF inv] by (simp add: sum_nonneg_eq_0_iff)
  moreover have "0 < fst v" if "live s p = Some v" for v using live_facts(2) [OF ok, of p] that by (cases v) auto
  ultimately have "live s p \<noteq> Some v" for v by (metis domI less_irrefl of_nat_eq_0_iff option.sel)
  then show "live s p = None" by (cases "live s p") auto
qed

section \<open>The abstract specification\<close>

text \<open>
  The contract of an allocator towards its client, over the map of live allocations and the
  next id. A step is labelled with the call and its answer: an allocation that answers an address adds a block
  there, of at least the requested size, that overlaps no live block, under a fresh id; a null answer
  changes nothing; freeing an address removes the block at that address and no other; freeing null
  changes nothing.
\<close>

type_synonym heap_map = "nat \<Rightarrow> (nat \<times> nat \<times> int) option"

datatype heap_call = AllocateRaw nat | DeallocateRaw "nat option"

inductive spec_step :: "heap_call \<Rightarrow> nat option \<Rightarrow> heap_map \<times> int \<Rightarrow> heap_map \<times> int \<Rightarrow> bool" where
  grant: "m p = None \<Longrightarrow> 0 < req \<Longrightarrow> req \<le> sz \<Longrightarrow> (\<And>q v. m q = Some v \<Longrightarrow> apart (p, sz) (q, fst v)) \<Longrightarrow>
     spec_step (AllocateRaw req) (Some p) (m, i) (m(p \<mapsto> (sz, req, i)), i + 1)"
| refuse: "spec_step (AllocateRaw req) None (m, i) (m, i)"
| release: "m p = Some v \<Longrightarrow> spec_step (DeallocateRaw (Some p)) None (m, i) (m(p := None), i)"
| release_null: "spec_step (DeallocateRaw None) None (m, i) (m, i)"

inductive_cases spec_step_cases:
  "spec_step (AllocateRaw n) (Some p) a b" "spec_step (AllocateRaw n) None a b"
  "spec_step (DeallocateRaw (Some p)) res a b" "spec_step (DeallocateRaw None) res a b"




lemma write_chunk_id [simp]: "next_allocation_id (write_chunk h g s) = next_allocation_id s"
  by (simp add: write_chunk_def)

lemma Remove_id: "RemoveFreeChunkFromBin s h = Some s' \<Longrightarrow> next_allocation_id s' = next_allocation_id s"
  by (auto simp: RemoveFreeChunkFromBin_def bind_eq_Some_conv Let_def split: if_splits)

lemma Insert_id: "InsertFreeChunkIntoBin s h = Some s' \<Longrightarrow> next_allocation_id s' = next_allocation_id s"
  by (auto simp: InsertFreeChunkIntoBin_def bind_eq_Some_conv Let_def split: if_splits)

lemma Merge_id: "Merge s h1 h2 = Some s' \<Longrightarrow> next_allocation_id s' = next_allocation_id s"
  by (auto simp: Merge_def DeleteChunk_def DeallocateChunk_def bind_eq_Some_conv Let_def split: if_splits option.splits)

lemma coalesce_id:
  "coalesce_next s h = Some s' \<Longrightarrow> next_allocation_id s' = next_allocation_id s"
  "coalesce_prev s h = Some (h', s') \<Longrightarrow> next_allocation_id s' = next_allocation_id s"
  by (auto simp: coalesce_next_def coalesce_prev_def bind_eq_Some_conv split: if_splits option.splits
      dest!: Remove_id Merge_id)

lemma Deallocate_id: "DeallocateRawInternal s p = Some s' \<Longrightarrow> next_allocation_id s' = next_allocation_id s"
  by (auto simp: DeallocateRawInternal_def FreeAndMaybeCoalesce_def bind_eq_Some_conv Let_def split: option.splits if_splits
      dest!: coalesce_id Insert_id)



section \<open>A concrete run\<close>

text \<open>
  A sub-allocator that hands out the addresses above everything it handed out before, and
  a run over it, on which the properties below are exercised.
\<close>

definition bump_top :: "(nat \<times> nat) list \<Rightarrow> nat" where
  "bump_top bs = foldr (\<lambda>b m. max m (fst b + snd b)) bs 4096"

definition bump_alloc :: "(nat \<times> nat) list \<Rightarrow> nat \<Rightarrow> nat option \<times> (nat \<times> nat) list" where
  "bump_alloc bs n =
     (let p = bump_top bs in if p + n < 2 ^ 48 then (Some p, (p, n) # bs) else (None, bs))"

lemma bump_top_above: "b \<in> set bs \<Longrightarrow> fst b + snd b \<le> bump_top bs"
  by (induction bs) (auto simp: bump_top_def)

lemma bump_ok: "sub_allocator_ok bump_alloc set"
  using bump_top_above by (fastforce simp: sub_allocator_ok_def bump_alloc_def Let_def apart_def split: if_splits)

datatype client_op = Alloc nat | Free nat

fun run :: "('s \<Rightarrow> nat \<Rightarrow> nat option \<times> 's) \<Rightarrow> client_op list \<Rightarrow> 's bfc \<Rightarrow> 's bfc option" where
  "run sub_alloc [] s = Some s"
| "run sub_alloc (Alloc n # ops) s =
     (if n + 255 < 2 ^ 64 then do { (_, s) \<leftarrow> AllocateRawInternal sub_alloc s n; run sub_alloc ops s } else None)"
| "run sub_alloc (Free p # ops) s =
     (if live s p \<noteq> None then do { s \<leftarrow> DeallocateRawInternal s (Some p); run sub_alloc ops s } else None)"

lemma run_steps: "run sub_alloc ops s = Some t \<Longrightarrow> (bfc_step sub_alloc)\<^sup>*\<^sup>* s t"
proof (induction ops arbitrary: s)
  case (Cons op ops)
  have "\<exists>u. bfc_step sub_alloc s u \<and> run sub_alloc ops u = Some t"
  proof (cases op)
    case (Alloc n)
    then show ?thesis using Cons.prems allocate [of n sub_alloc s] by (auto simp: bind_eq_Some_conv split: if_splits)
  next
    case (Free p)
    then show ?thesis using Cons.prems deallocate [of s p _ sub_alloc] by (auto simp: bind_eq_Some_conv split: if_splits)
  qed
  then show ?case using Cons.IH converse_rtranclp_into_rtranclp [of "bfc_step sub_alloc" s] by blast
qed simp

definition run_from :: "nat \<Rightarrow> client_op list \<Rightarrow> (nat \<times> nat) list bfc option" where
  "run_from total_memory ops = do { s \<leftarrow> BFCAllocator [] total_memory False; run bump_alloc ops s }"

lemma run_from_reachable:
  assumes "run_from total_memory ops = Some s" "0 < total_memory" "total_memory \<le> 2 ^ 39"
  shows "\<exists>s0. bfc_start bump_alloc set s0 \<and> (bfc_step bump_alloc)\<^sup>*\<^sup>* s0 s"
  using assms bump_ok run_steps unfolding run_from_def bfc_start_def by (auto simp: bind_eq_Some_conv) blast

lemma run_from_two:
  "\<exists>s. run_from 1024 [Alloc 300, Alloc 200] = Some s \<and> live s 4096 = Some (512, 300, 1) \<and> live s 4608 = Some (256, 200, 2)"
proof -
  have "case run_from 1024 [Alloc 300, Alloc 200] of None \<Rightarrow> False
    | Some s \<Rightarrow> live s 4096 = Some (512, 300, 1) \<and> live s 4608 = Some (256, 200, 2)" by code_simp
  then show ?thesis by (simp split: option.splits)
qed

section \<open>Properties\<close>

text \<open>
  C1. In every state that clients can bring the allocator into, each live allocation is at least as
  large as requested and lies inside a block obtained from the sub-allocator, and two live
  allocations never overlap and have different ids.
\<close>

theorem bfc_live_disjoint:
  assumes "bfc_start sub_alloc owned s0" and "(bfc_step sub_alloc)\<^sup>*\<^sup>* s0 s" and "live s p = Some (n, rn, i)"
  shows "rn \<le> n \<and> (\<exists>b \<in> owned (suballocator s). fst b \<le> p \<and> p + n \<le> fst b + snd b) \<and>
    (\<forall>q m rm j. live s q = Some (m, rm, j) \<and> p \<noteq> q \<longrightarrow> apart (p, n) (q, m) \<and> i \<noteq> j)"
proof -
  have ok: "bfc_ok sub_alloc owned s" by (rule bfc.inv_reachable [OF assms(1,2)])
  show ?thesis using live_apart [OF ok assms(3)] live_facts(1,7) [OF ok assms(3)] by blast
qed

theorem bfc_live_disjoint_witness:
  "\<exists>s. run_from 1024 [Alloc 300, Alloc 200] = Some s \<and> apart (4096, 512) (4608, 256) \<and> (1::int) \<noteq> 2 \<and> (300::nat) \<le> 512"
proof -
  obtain s where s: "run_from 1024 [Alloc 300, Alloc 200] = Some s" "live s 4096 = Some (512, 300, 1)"
    "live s 4608 = Some (256, 200, 2)" using run_from_two by blast
  obtain s0 where "bfc_start bump_alloc set s0" "(bfc_step bump_alloc)\<^sup>*\<^sup>* s0 s" using run_from_reachable [OF s(1)] by auto
  then show ?thesis using s bfc_live_disjoint [of bump_alloc set s0 s 4096 512 300 1] by fastforce
qed



text \<open>
  C3. Freeing a live allocation of a reachable state returns: no \<open>CHECK\<close> fails, no handle
  is read out of range; exactly that allocation is gone afterwards.
\<close>

theorem DeallocateRaw_returns:
  assumes "bfc_start sub_alloc owned s0" and "(bfc_step sub_alloc)\<^sup>*\<^sup>* s0 s" and "live s p \<noteq> None"
  shows "\<exists>s'. DeallocateRawInternal s (Some p) = Some s' \<and> live s' = (live s)(p := None) \<and>
    next_allocation_id s' = next_allocation_id s"
  using Deallocate_ok [OF bfc.inv_reachable [OF assms(1,2)]] assms(3) Deallocate_id by blast

theorem DeallocateRaw_returns_witness:
  "\<exists>s s'. run_from 1024 [Alloc 300, Alloc 200] = Some s \<and> DeallocateRawInternal s (Some 4096) = Some s' \<and>
    live s' 4096 = None \<and> live s' 4608 = Some (256, 200, 2)"
proof -
  obtain s where s: "run_from 1024 [Alloc 300, Alloc 200] = Some s" "live s 4096 = Some (512, 300, 1)"
    "live s 4608 = Some (256, 200, 2)" using run_from_two by blast
  obtain s0 where r: "bfc_start bump_alloc set s0" "(bfc_step bump_alloc)\<^sup>*\<^sup>* s0 s" using run_from_reachable [OF s(1)] by auto
  show ?thesis using DeallocateRaw_returns [OF r, of 4096] s by auto
qed

text \<open>
  C5. An allocation from a reachable state returns, with the address of a fresh block or with null, if it asks
  for more than 2048 bytes, if the arena has backpedalled before, if a free chunk is large enough, or if the
  sub-allocator would grant a request of any size up to the memory limit in its present state. (A smaller first request
  against a sub-allocator that refuses may not return, see below.)
\<close>

theorem AllocateRaw_terminates:
  assumes "bfc_start sub_alloc owned s0" and "(bfc_step sub_alloc)\<^sup>*\<^sup>* s0 s" and "n + 255 < 2 ^ 64"
    and "2048 < n \<or> started_backpedal s \<or>
      (\<exists>h < length (chunks s). bin_num (chunks s ! h) \<noteq> None \<and> RoundedBytes n \<le> c_size (chunks s ! h)) \<or>
      (\<forall>m. 0 < m \<and> m \<le> memory_limit s \<longrightarrow> fst (sub_alloc (suballocator s) m) \<noteq> None)"
  shows "\<exists>res s'. AllocateRawInternal sub_alloc s n = Some (res, s') \<and>
    (\<forall>p. res = Some p \<longrightarrow> live s p = None \<and> (\<exists>sz \<ge> n. live s' p = Some (sz, n, next_allocation_id s)))"
proof -
  have ok: "bfc_ok sub_alloc owned s" by (rule bfc.inv_reachable [OF assms(1,2)])
  obtain res s' where run: "AllocateRawInternal sub_alloc s n = Some (res, s')"
    using AllocateRaw_returns [OF ok assms(3,4)] by auto
  then show ?thesis using AllocateRaw_effect [OF ok assms(3) run] by (auto simp: alloc_effect_def split: option.splits)
qed

lemma BFCAllocator_fresh:
  "\<exists>s. run_from total_memory [] = Some s \<and> suballocator s = [] \<and> memory_limit s = total_memory"
  using bin_checks_hold by (simp add: run_from_def BFCAllocator_def list_all_iff)

theorem AllocateRaw_terminates_witness:
  "\<exists>s res s'. run_from 1024 [] = Some s \<and> AllocateRawInternal bump_alloc s 300 = Some (res, s') \<and>
    (\<forall>p. res = Some p \<longrightarrow> (\<exists>sz \<ge> 300. live s' p = Some (sz, 300, next_allocation_id s)))"
proof -
  obtain s where s: "run_from 1024 [] = Some s" "suballocator s = []" "memory_limit s = 1024" using BFCAllocator_fresh by blast
  obtain s0 where r: "bfc_start bump_alloc set s0" "(bfc_step bump_alloc)\<^sup>*\<^sup>* s0 s" using run_from_reachable [OF s(1)] by auto
  have "fst (bump_alloc (suballocator s) m) \<noteq> None" if "m \<le> memory_limit s" for m
    using that s by (simp add: bump_alloc_def bump_top_def)
  then show ?thesis using AllocateRaw_terminates [OF r, of 300] s by fastforce
qed

text \<open>
  C4. Best fit: the chunk \<open>FindChunkPtr\<close> grants is, among the free chunks that are large
  enough, the smallest, and the one with the lowest address among those of that size; if it
  returns null there is no free chunk that is large enough. What is granted is at least the
  rounded request and less than twice as much.
\<close>

theorem FindChunkPtr_best_fit:
  assumes "bfc_start sub_alloc owned s0" and "(bfc_step sub_alloc)\<^sup>*\<^sup>* s0 s" and "0 < n" and "n + 255 < 2 ^ 64"
    and "FindChunkPtr s (BinNumForSize (RoundedBytes n)) (RoundedBytes n) n = Some (res, s')"
    and fits: "h < length (chunks s)" "bin_num (chunks s ! h) \<noteq> None" "RoundedBytes n \<le> c_size (chunks s ! h)"
  shows "\<exists>p c sz. res = Some p \<and> chunk_of_ptr s p = Some c \<and> \<not> in_use c \<and> RoundedBytes n \<le> c_size c \<and>
    (c_size c < c_size (chunks s ! h) \<or> c_size c = c_size (chunks s ! h) \<and> p \<le> c_ptr (chunks s ! h)) \<and>
    live s' p = Some (sz, n, next_allocation_id s) \<and> RoundedBytes n \<le> sz \<and> sz < 2 * RoundedBytes n"
proof -
  have ok: "bfc_ok sub_alloc owned s" by (rule bfc.inv_reachable [OF assms(1,2)])
  obtain L where inv: "bfc_inv s L {}" using ok by (auto simp: bfc_ok_def)
  note heap = bfc_inv_heap [OF inv]
  note ro = RoundedBytes_ok [OF assms(3,4)]
  have fl: "free_list_ok (chunks s) (free_chunks_list s) ({..<length (chunks s)} - L)" using inv by (simp add: bfc_inv_def)
  have hL: "h \<in> L" using fl fits(1,2) by (auto simp: free_list_ok_def)
  have hfree: "\<not> in_use (chunks s ! h)" using bins_okD(3) [OF heap_okD(9) [OF heap] hL] fits(2) by (auto split: if_splits)
  obtain b k where found: "search_bins s (RoundedBytes n) [BinNumForSize (RoundedBytes n)..<21] = Some (b, k)"
    using FindChunkPtr_none(2) [OF inv _ hL hfree] fits(3)
    by (cases "search_bins s (RoundedBytes n) [BinNumForSize (RoundedBytes n)..<21]") (auto dest: leD)
  note best = search_best_fit [OF inv found]
  obtain L' where g: "res = Some (c_ptr (chunks s ! k))" "bfc_inv s' L' {}" "granted s L k n s' L'"
    "c_ptr (chunks s' ! k) = c_ptr (chunks s ! k)"
    "c_size (chunks s' ! k) = (if 2 * RoundedBytes n \<le> c_size (chunks s ! k) then RoundedBytes n else c_size (chunks s ! k))"
    using FindChunkPtr_some [OF inv found ro] assms(5) by auto
  have "chunk_of_ptr s (c_ptr (chunks s ! k)) = Some (chunks s ! k)"
    using heap_okD(8) [OF heap] best(1) heap unfolding table_ok_def by (simp add: chunk_of_ptr_def)
  moreover have "live s' (c_ptr (chunks s ! k)) = Some (c_size (chunks s' ! k), n, next_allocation_id s)"
    using live_granted(1) [OF inv g(2,3)] g(4) by simp
  moreover have "c_size (chunks s ! k) < c_size (chunks s ! h) \<or>
      c_size (chunks s ! k) = c_size (chunks s ! h) \<and> c_ptr (chunks s ! k) \<le> c_ptr (chunks s ! h)"
    using best(5) [OF hL hfree fits(3)] by (auto simp: ChunkComparator_def Let_def split: if_splits)
  moreover have "RoundedBytes n \<le> c_size (chunks s' ! k)" "c_size (chunks s' ! k) < 2 * RoundedBytes n"
    using g(5) best(4) ro(1) by auto
  ultimately show ?thesis using g(1) best(2,4) by blast
qed

lemma run_from_fit:
  "\<exists>s s'. run_from 1024 [Alloc 300] = Some s \<and> FindChunkPtr s 0 256 100 = Some (Some 4608, s') \<and> length (chunks s) = 2 \<and>
    bin_num (chunks s ! 1) = Some 1 \<and> c_size (chunks s ! 1) = 512 \<and> c_ptr (chunks s ! 1) = 4608"
proof -
  have "case run_from 1024 [Alloc 300] of None \<Rightarrow> False
    | Some s \<Rightarrow> map_option fst (FindChunkPtr s 0 256 100) = Some (Some 4608) \<and> length (chunks s) = 2 \<and>
        bin_num (chunks s ! 1) = Some 1 \<and> c_size (chunks s ! 1) = 512 \<and> c_ptr (chunks s ! 1) = 4608" by code_simp
  then show ?thesis by (auto split: option.splits)
qed

theorem FindChunkPtr_best_fit_witness:
  "\<exists>s s' sz. run_from 1024 [Alloc 300] = Some s \<and> FindChunkPtr s 0 256 100 = Some (Some 4608, s') \<and>
    live s' 4608 = Some (sz, 100, next_allocation_id s) \<and> 256 \<le> sz \<and> sz < 512"
proof -
  obtain s s' where s: "run_from 1024 [Alloc 300] = Some s" "FindChunkPtr s 0 256 100 = Some (Some 4608, s')"
    "length (chunks s) = 2" "bin_num (chunks s ! 1) = Some 1" "c_size (chunks s ! 1) = 512"
    using run_from_fit by blast
  obtain s0 where r: "bfc_start bump_alloc set s0" "(bfc_step bump_alloc)\<^sup>*\<^sup>* s0 s" using run_from_reachable [OF s(1)] by auto
  have e: "RoundedBytes 100 = 256" "BinNumForSize 256 = 0" by code_simp+
  show ?thesis using FindChunkPtr_best_fit [OF r, of 100 "Some 4608" s' 1] s e by auto
qed

text \<open>
  C6. Between operations no two neighbouring chunks are both free: every free chunk was
  merged with its free neighbours.
\<close>

theorem bfc_coalesced:
  assumes "bfc_start sub_alloc owned s0" and "(bfc_step sub_alloc)\<^sup>*\<^sup>* s0 s"
    and "h < length (chunks s)" and "bin_num (chunks s ! h) \<noteq> None"
  shows "(\<forall>n. c_next (chunks s ! h) = Some n \<longrightarrow> in_use (chunks s ! n)) \<and>
    (\<forall>p. c_prev (chunks s ! h) = Some p \<longrightarrow> in_use (chunks s ! p))"
proof -
  obtain L where inv: "bfc_inv s L {}" using bfc.inv_reachable [OF assms(1,2)] by (auto simp: bfc_ok_def)
  note heap = bfc_inv_heap [OF inv]
  have "free_list_ok (chunks s) (free_chunks_list s) ({..<length (chunks s)} - L)" using inv by (simp add: bfc_inv_def)
  then have hL: "h \<in> L" using assms(3,4) by (auto simp: free_list_ok_def)
  then have "\<not> in_use (chunks s ! h)" using bins_okD(3) [OF heap_okD(9) [OF heap]] assms(4) by (auto split: if_splits)
  then show ?thesis using binned_neighbours [OF heap hL] by auto
qed

theorem bfc_coalesced_witness:
  "\<exists>s. run_from 1024 [Alloc 300] = Some s \<and> bin_num (chunks s ! 1) = Some 1 \<and>
    (\<forall>p. c_prev (chunks s ! 1) = Some p \<longrightarrow> in_use (chunks s ! p))"
proof -
  obtain s where s: "run_from 1024 [Alloc 300] = Some s" "length (chunks s) = 2" "bin_num (chunks s ! 1) = Some 1"
    using run_from_fit by blast
  obtain s0 where r: "bfc_start bump_alloc set s0" "(bfc_step bump_alloc)\<^sup>*\<^sup>* s0 s" using run_from_reachable [OF s(1)] by auto
  show ?thesis using bfc_coalesced [OF r, of 1] s by auto
qed

text \<open>
  When everything has been freed, each region is one free chunk again: nothing stays
  fragmented.
\<close>

theorem bfc_all_freed:
  assumes "bfc_start sub_alloc owned s0" and "(bfc_step sub_alloc)\<^sup>*\<^sup>* s0 s" and "live s = Map.empty"
    and "r \<in> set (regions s)"
  shows "\<exists>c. chunk_of_ptr s (r_ptr r) = Some c \<and> \<not> in_use c \<and> c_ptr c = r_ptr r \<and> c_size c = memory_size r"
proof -
  obtain L where inv: "bfc_inv s L {}" using bfc.inv_reachable [OF assms(1,2)] by (auto simp: bfc_ok_def)
  note heap = bfc_inv_heap [OF inv]
  have none: "used (chunks s) L = {}" using live_iff [OF inv] assms(3) by fastforce
  have "(r_ptr r, memory_size r) \<in> set (region_bounds (regions s))" using assms(4) by (simp add: region_bounds_def)
  then obtain h where h: "h \<in> L" "c_ptr (chunks s ! h) = r_ptr r" "c_size (chunks s ! h) = memory_size r" "\<not> in_use (chunks s ! h)"
    using all_free_whole_region [OF inv none, of "(r_ptr r, memory_size r)"] by auto
  then have "chunk_of_ptr s (r_ptr r) = Some (chunks s ! h)"
    using heap_okD(8) [OF heap] heap unfolding table_ok_def by (auto simp: chunk_of_ptr_def)
  then show ?thesis using h by blast
qed

lemma run_from_freed:
  "\<exists>s r. run_from 1024 [Alloc 300, Alloc 200, Free 4096, Free 4608] = Some s \<and> regions s = [r] \<and> r_ptr r = 4096 \<and> memory_size r = 1024 \<and>
    next_allocation_id s = 3 \<and> bytes_in_use (stats s) = 0"
proof -
  have "case run_from 1024 [Alloc 300, Alloc 200, Free 4096, Free 4608] of None \<Rightarrow> False
    | Some s \<Rightarrow> map (\<lambda>r. (r_ptr r, memory_size r)) (regions s) = [(4096, 1024)] \<and> next_allocation_id s = 3 \<and>
       bytes_in_use (stats s) = 0" by code_simp
  then show ?thesis by (auto split: option.splits)
qed

theorem bfc_all_freed_witness:
  "\<exists>s c. run_from 1024 [Alloc 300, Alloc 200, Free 4096, Free 4608] = Some s \<and> chunk_of_ptr s 4096 = Some c \<and> c_size c = 1024"
proof -
  obtain s r where s: "run_from 1024 [Alloc 300, Alloc 200, Free 4096, Free 4608] = Some s" "regions s = [r]" "r_ptr r = 4096"
    "memory_size r = 1024" "bytes_in_use (stats s) = 0" using run_from_freed by blast
  obtain s0 where rr: "bfc_start bump_alloc set s0" "(bfc_step bump_alloc)\<^sup>*\<^sup>* s0 s" using run_from_reachable [OF s(1)] by auto
  have "live s = Map.empty" by (rule live_empty_iff [OF bfc.inv_reachable [OF rr] s(5)])
  then show ?thesis using bfc_all_freed [OF rr, of r] s by auto
qed

text \<open>
  C7. The statistics are exact: the bytes in use are the sum of the sizes of the live
  allocations, and the regions together never exceed the memory limit.
\<close>

theorem bfc_stats_exact:
  assumes "bfc_start sub_alloc owned s0" and "(bfc_step sub_alloc)\<^sup>*\<^sup>* s0 s"
  shows "finite (dom (live s)) \<and> bytes_in_use (stats s) = (\<Sum>p \<in> dom (live s). int (fst (the (live s p)))) \<and>
    total_region_allocated_bytes s = (\<Sum>r \<leftarrow> regions s. memory_size r) \<and> total_region_allocated_bytes s \<le> memory_limit s"
proof -
  have ok: "bfc_ok sub_alloc owned s" by (rule bfc.inv_reachable [OF assms])
  obtain L where inv: "bfc_inv s L {}" using ok by (auto simp: bfc_ok_def)
  have "(\<Sum>r \<leftarrow> region_bounds (regions s). snd r) = (\<Sum>r \<leftarrow> regions s. memory_size r)" by (simp add: region_bounds_def comp_def)
  then show ?thesis using live_finite [OF inv] bytes_in_use_live [OF inv] ok unfolding bfc_ok_def growth_ok_def by simp
qed

theorem bfc_stats_exact_witness:
  "\<exists>s. run_from 1024 [Alloc 300, Alloc 200] = Some s \<and>
    bytes_in_use (stats s) = (\<Sum>p \<in> dom (live s). int (fst (the (live s p))))"
proof -
  obtain s where s: "run_from 1024 [Alloc 300, Alloc 200] = Some s" using run_from_two by blast
  obtain s0 where r: "bfc_start bump_alloc set s0" "(bfc_step bump_alloc)\<^sup>*\<^sup>* s0 s" using run_from_reachable [OF s(1)] by auto
  show ?thesis using bfc_stats_exact [OF r] s by blast
qed

text \<open>
  The constructor's \<open>CHECK\<close>s on its bins hold, so it always yields an allocator, without
  live allocations. A size belongs to the bin of its highest power of two above 256 bytes,
  and sizes of \<open>256 * 2 ^ 20\<close> bytes and more to the last bin.
\<close>

theorem BFCAllocator_constructs:
  "(\<exists>s. BFCAllocator sub total_memory allow_growth = Some s \<and> live s = Map.empty) \<and>
   (\<forall>b < 20. \<forall>n. n < 2 ^ 64 \<longrightarrow> 256 \<le> n \<longrightarrow>
      (BinNumForSize n = b \<longleftrightarrow> BinNumToSize b \<le> n \<and> n < BinNumToSize (b + 1))) \<and>
   (\<forall>n. n < 2 ^ 64 \<longrightarrow> (BinNumForSize n = 20 \<longleftrightarrow> BinNumToSize 20 \<le> n))"
proof -
  have one: "BinNumForSize n = b \<longleftrightarrow> 256 * 2 ^ b \<le> n \<and> n < 512 * 2 ^ b" if b: "b < 20" "n < 2 ^ 64" "256 \<le> n" for b n
  proof
    assume "BinNumForSize n = b"
    then have l: "log2_floor (n div 256) = b" using b by (simp add: BinNumForSize_log2 max_def split: if_splits)
    have "0 < n div 256" using b(3) by (simp add: div_greater_zero_iff)
    then have "2 ^ b \<le> n div 256" "n div 256 < 2 * 2 ^ b" using log2_floor_bounds l by blast+
    then show "256 * 2 ^ b \<le> n \<and> n < 512 * 2 ^ b" by (simp add: less_eq_div_iff_mult_less_eq div_less_iff_less_mult mult.commute)
  qed (use b in \<open>auto intro: BinNumForSize_eq\<close>)
  have last: "BinNumForSize n = 20 \<longleftrightarrow> 256 * 2 ^ 20 \<le> n" if n: "n < 2 ^ 64" for n
  proof
    assume "BinNumForSize n = 20"
    then have l: "20 \<le> log2_floor (max n 256 div 256)" using n by (simp add: BinNumForSize_log2)
    have "0 < max n 256 div 256" by (simp add: div_greater_zero_iff)
    then have "2 ^ log2_floor (max n 256 div 256) \<le> max n 256 div 256" using log2_floor_bounds by blast
    moreover have "(2::nat) ^ 20 \<le> 2 ^ log2_floor (max n 256 div 256)" using l by (intro power_increasing) auto
    ultimately have "2 ^ 20 \<le> max n 256 div 256" by linarith
    then have "2 ^ 20 * 256 \<le> max n 256" by (simp only: less_eq_div_iff_mult_less_eq zero_less_numeral)
    then show "256 * 2 ^ 20 \<le> n" by (simp add: max_def split: if_splits)
  qed (use n BinNumForSize_eq [of 20 n] in auto)
  obtain s where s: "BFCAllocator sub total_memory allow_growth = Some s" "regions s = []"
    using bin_checks_hold by (simp add: BFCAllocator_def list_all_iff)
  then have "live s = Map.empty"
    by (auto simp: live_def chunk_of_ptr_def get_handle_def RegionFor_def upper_bound_def)
  then show ?thesis using s one last by (auto simp: BinNumToSize_def)
qed

theorem BFCAllocator_constructs_witness:
  "BinNumForSize 1000 = 1 \<and> BinNumForSize 268435456 = 20"
proof -
  note c = conjunct2 [OF BFCAllocator_constructs [of "()" 1 False]]
  from conjunct1 [OF c, rule_format, of 1 1000] conjunct2 [OF c, rule_format, of 268435456]
  show ?thesis by (simp add: BinNumToSize_def)
qed

text \<open>
  C8. A defect of \<open>Extend\<close>: when the sub-allocator grants a request of the backpedalling
  loop, the number of bytes is reduced once more before the region is recorded. Whenever \<open>Extend\<close> succeeds after
  backpedalling for a request of 2304 bytes or more, it obtains a block of \<open>k\<close> bytes, more than were asked for, and
  records a region of \<open>RoundedBytes (0.9 k)\<close> bytes at its address, fewer than \<open>k\<close>; the rest of the block is lost.
\<close>

theorem Extend_backpedal_undersized:
  assumes "bfc_start sub_alloc owned s0" and "(bfc_step sub_alloc)\<^sup>*\<^sup>* s0 s" and "256 dvd r" and "2304 \<le> r"
    and "Extend sub_alloc s r = Some (True, s')" and "\<not> started_backpedal s" and "started_backpedal s'"
  shows "\<exists>p b k. set (region_bounds (regions s')) = insert (p, b) (set (region_bounds (regions s))) \<and>
    (p, b) \<notin> set (region_bounds (regions s)) \<and>
    owned (suballocator s') = insert (p, k) (owned (suballocator s)) \<and>
    r < k \<and> b = RoundedBytes (times_kBackpedalFactor k) \<and> b < k"
  by (rule Extend_backpedalled [OF bfc.inv_reachable [OF assms(1,2)] assms(3-7)])

text \<open>A sub-allocator that refuses more than 5120 bytes: the recorded region is even smaller than the 4864 bytes asked for.\<close>

definition small_alloc :: "(nat \<times> nat) list \<Rightarrow> nat \<Rightarrow> nat option \<times> (nat \<times> nat) list" where
  "small_alloc bs n = (if n \<le> 5120 then bump_alloc bs n else (None, bs))"

lemma small_ok: "sub_allocator_ok small_alloc set"
  using bump_ok unfolding sub_allocator_ok_def small_alloc_def by (auto split: if_splits)

lemma small_extend:
  "\<exists>s s'. BFCAllocator [] 5632 False = Some s \<and> Extend small_alloc s 4864 = Some (True, s') \<and>
    \<not> started_backpedal s \<and> started_backpedal s' \<and> region_bounds (regions s') = [(4096, 4608)] \<and> suballocator s' = [(4096, 5120)]"
proof -
  have "case BFCAllocator [] 5632 False of None \<Rightarrow> False
    | Some s \<Rightarrow> \<not> started_backpedal s \<and> (case Extend small_alloc s 4864 of None \<Rightarrow> False
        | Some (e, s') \<Rightarrow> e \<and> started_backpedal s' \<and> region_bounds (regions s') = [(4096, 4608)] \<and> suballocator s' = [(4096, 5120)])"
    by code_simp
  then show ?thesis by (auto split: option.splits)
qed

theorem Extend_backpedal_undersized_witness:
  "\<exists>s s'. BFCAllocator [] 5632 False = Some s \<and> Extend small_alloc s 4864 = Some (True, s') \<and>
    (\<exists>p b k. (p, b) \<in> set (region_bounds (regions s')) \<and> (p, k) \<in> set (suballocator s') \<and> 4864 < k \<and> b < k) \<and>
    region_bounds (regions s') = [(4096, 4608)]"
proof -
  obtain s s' where s: "BFCAllocator [] 5632 False = Some s" "Extend small_alloc s 4864 = Some (True, s')"
    "\<not> started_backpedal s" "started_backpedal s'" "region_bounds (regions s') = [(4096, 4608)]"
    using small_extend by blast
  have "bfc_start small_alloc set s" using small_ok s(1) unfolding bfc_start_def by (auto intro!: exI [of _ "[]"] exI [of _ 5632])
  from Extend_backpedal_undersized [OF this rtranclp.rtrancl_refl _ _ s(2-4)]
  obtain p b k where "set (region_bounds (regions s')) = insert (p, b) (set (region_bounds (regions s)))"
    "set (suballocator s') = insert (p, k) (set (suballocator s))" "4864 < k" "b < k" by auto
  then have "(p, b) \<in> set (region_bounds (regions s'))" "(p, k) \<in> set (suballocator s')" "4864 < k" "b < k" by blast+
  then show ?thesis using s(1,2,5) by blast
qed

text \<open>
  C9. A defect of \<open>Extend\<close>: the backpedalling loop does not end when the sub-allocator has
  no memory left and the request has between one and nine units of 256 bytes more than asked
  for, because rounding up undoes the reduction by a tenth.
\<close>

theorem Extend_backpedal_diverges:
  assumes "1 \<le> k" and "k \<le> 9" and "r < 256 * k" and "\<And>sub n. fst (sub_alloc sub n) = None"
  shows "backpedal_loop sub_alloc r None (256 * k) sub = None"
  using backpedal_loop_diverges [of k r sub_alloc sub] assms by auto

theorem Extend_backpedal_diverges_witness:
  "backpedal_loop (\<lambda>sub n. (None, sub)) 256 None 1024 () = None"
  using Extend_backpedal_diverges [of 4 256 "\<lambda>sub n. (None, sub)" "()"] by simp

text \<open>
  A defect of the portable branch of \<open>Log2FloorNonZero\<close>: it counts one bit too many,
  so that it disagrees with the branch for GCC on every argument.
\<close>

theorem Log2FloorNonZero_portable_off_by_one:
  assumes "0 < n" and "n < 2 ^ 64"
  shows "Log2FloorNonZero_portable n = Log2FloorNonZero n + 1"
proof -
  have "Log2FloorNonZero_portable_loop n r = r + log2_floor n + 1" if "0 < n" for n r
    using that
  proof (induction n arbitrary: r rule: log2_floor.induct)
    case (1 n)
    then show ?case
      by (subst Log2FloorNonZero_portable_loop.simps, subst log2_floor.simps)
        (auto simp: Log2FloorNonZero_portable_loop.simps [of 0])
  qed
  then show ?thesis using assms by (simp add: Log2FloorNonZero_portable_def Log2FloorNonZero_log2)
qed

theorem Log2FloorNonZero_portable_off_by_one_witness:
  "Log2FloorNonZero_portable 8 = Log2FloorNonZero 8 + 1"
  using Log2FloorNonZero_portable_off_by_one [of 8] by simp

end
