(* ===== verification/HeapAlgorithm.thy ===== *)
theory HeapAlgorithm
  imports Tf_Prelude "HOL-Library.Monad_Syntax" "HOL-Library.Product_Lexorder"
begin

text \<open>
  The heap algorithms of \<^verbatim>\<open>compiler/xla/service/heap_simulator.cc\<close>, which assign
  buffer offsets for a program whose allocations are known in advance, with the rounding helpers
  of \<^verbatim>\<open>core/lib/math/math_util.h\<close> they use. A \<open>LogicalBuffer*\<close> is the unique
  id of the buffer. \<open>int64\<close> values are integers; the bound shown for the heap size is the
  condition under which they fit. \<open>None\<close> is a failed \<open>CHECK\<close>. The contract of a
  \<open>HeapAlgorithm\<close> is the locale \<open>heap_algorithm\<close>: for every well-formed sequence of
  calls the offsets it returns keep buffers apart that are live at the same time.
\<close>

section \<open>Rounding\<close>

definition CeilOfRatio :: "int \<Rightarrow> int \<Rightarrow> int" where
  "CeilOfRatio numerator denominator =
     (let rounded_toward_zero = cdiv numerator denominator;
          intermediate_product = rounded_toward_zero * denominator;
          needs_adjustment = rounded_toward_zero \<ge> 0 \<and>
            (denominator > 0 \<and> numerator > intermediate_product \<or>
             denominator < 0 \<and> numerator < intermediate_product)
      in rounded_toward_zero + (if needs_adjustment then 1 else 0))"

definition FloorOfRatio :: "int \<Rightarrow> int \<Rightarrow> int" where
  "FloorOfRatio numerator denominator =
     (let rounded_toward_zero = cdiv numerator denominator;
          intermediate_product = rounded_toward_zero * denominator;
          needs_adjustment = rounded_toward_zero \<le> 0 \<and>
            (denominator > 0 \<and> numerator < intermediate_product \<or>
             denominator < 0 \<and> numerator > intermediate_product)
      in rounded_toward_zero - (if needs_adjustment then 1 else 0))"

definition RoundUpToNearest :: "int \<Rightarrow> int \<Rightarrow> int" where
  "RoundUpToNearest v divisor = CeilOfRatio v divisor * divisor"

section \<open>Chunks and results\<close>

type_synonym buffer = int

record heap_chunk =
  offset :: int
  csize :: int

definition chunk_end :: "heap_chunk \<Rightarrow> int" where
  "chunk_end c = offset c + csize c"

abbreviation Chunk :: "int \<Rightarrow> int \<Rightarrow> heap_chunk" where
  "Chunk off sz \<equiv> \<lparr>offset = off, csize = sz\<rparr>"

datatype event_kind = ALLOC | FREE | SHARE_WITH

record event =
  ev_kind :: event_kind
  ev_buffer_id :: int
  ev_share_with_canonical_id :: "int option"

record heap_result =
  chunk_map :: "(buffer \<times> heap_chunk) list"
  heap_size :: int
  fragmentation_size :: int
  debug_trace :: "event list"

definition new_Result :: heap_result where
  "new_Result = \<lparr>chunk_map = [], heap_size = 0, fragmentation_size = 0, debug_trace = []\<rparr>"

text \<open>\<open>emplace\<close> of a map leaves an existing entry in place.\<close>

definition emplace :: "'k \<Rightarrow> 'v \<Rightarrow> ('k \<times> 'v) list \<Rightarrow> ('k \<times> 'v) list" where
  "emplace k v m = (if map_of m k = None then m @ [(k, v)] else m)"

text \<open>A write through an iterator of the map.\<close>

definition set_mapped :: "'k \<Rightarrow> 'v \<Rightarrow> ('k \<times> 'v) list \<Rightarrow> ('k \<times> 'v) list" where
  "set_mapped k v m = map (\<lambda>(k', v'). (k', if k' = k then v else v')) m"

section \<open>NoFragmentationStatsHeap\<close>

record stats_heap =
  current_heap_size :: int
  max_heap_size :: int

definition new_stats :: stats_heap where
  "new_stats = \<lparr>current_heap_size = 0, max_heap_size = 0\<rparr>"

definition stats_Alloc :: "stats_heap \<Rightarrow> buffer \<Rightarrow> int \<Rightarrow> stats_heap" where
  "stats_Alloc h b sz =
     (let h = h\<lparr>current_heap_size := current_heap_size h + sz\<rparr>
      in if current_heap_size h > max_heap_size h then h\<lparr>max_heap_size := current_heap_size h\<rparr> else h)"

definition stats_Free :: "stats_heap \<Rightarrow> buffer \<Rightarrow> int \<Rightarrow> stats_heap" where
  "stats_Free h b sz = h\<lparr>current_heap_size := current_heap_size h - sz\<rparr>"

definition stats_Finish :: "stats_heap \<Rightarrow> heap_result" where
  "stats_Finish h = new_Result\<lparr>heap_size := max_heap_size h\<rparr>"

section \<open>LazyBestFitHeap\<close>

definition kLazyAllocOffset :: int where
  "kLazyAllocOffset = -1"

text \<open>The free chunks are a \<open>std::set\<close>: the list of its elements in iteration order.\<close>

definition OrderChunkByIncreasingSize :: "heap_chunk \<Rightarrow> heap_chunk \<Rightarrow> bool" where
  "OrderChunkByIncreasingSize a b = (if csize a \<noteq> csize b then csize a < csize b else offset a < offset b)"

fun free_emplace :: "heap_chunk \<Rightarrow> heap_chunk list \<Rightarrow> heap_chunk list" where
  "free_emplace c [] = [c]"
| "free_emplace c (f # fs) =
     (if OrderChunkByIncreasingSize c f then c # f # fs
      else if OrderChunkByIncreasingSize f c then f # free_emplace c fs
      else f # fs)"

record lazy_heap =
  alignment :: int
  lb_result :: heap_result
  free_set :: "heap_chunk list"

definition new_lazy :: "int \<Rightarrow> lazy_heap" where
  "new_lazy al = \<lparr>alignment = al, lb_result = new_Result, free_set = []\<rparr>"

text \<open>The loop of \<open>AddFreeChunk\<close>: the grown chunk and the chunks that stay.\<close>

fun coalesce :: "heap_chunk \<Rightarrow> heap_chunk list \<Rightarrow> heap_chunk \<times> heap_chunk list" where
  "coalesce c [] = (c, [])"
| "coalesce c (f # fs) =
     (if chunk_end f = offset c \<or> offset f = chunk_end c
      then coalesce (Chunk (min (offset c) (offset f)) (csize c + csize f)) fs
      else (case coalesce c fs of (c', fs') \<Rightarrow> (c', f # fs')))"

definition AddFreeChunk :: "int \<Rightarrow> int \<Rightarrow> heap_chunk list \<Rightarrow> heap_chunk list" where
  "AddFreeChunk off sz fs =
     (if sz \<le> 0 then fs else (case coalesce (Chunk off sz) fs of (c, fs') \<Rightarrow> free_emplace c fs'))"

text \<open>The loop over \<open>free_\<close> from \<open>lower_bound\<close> on: the first chunk that fits when aligned.\<close>

definition best_fit :: "int \<Rightarrow> int \<Rightarrow> heap_chunk list \<Rightarrow> heap_chunk option" where
  "best_fit al sz fs =
     List.find (\<lambda>c. \<not> RoundUpToNearest (offset c) al + sz > chunk_end c)
       (dropWhile (\<lambda>c. OrderChunkByIncreasingSize c (Chunk 0 sz)) fs)"

text \<open>The last chunk of the heap, when it is free and alignment leaves room in it.\<close>

definition last_fit :: "int \<Rightarrow> int \<Rightarrow> heap_chunk list \<Rightarrow> heap_chunk option" where
  "last_fit al hsize fs =
     (case List.find (\<lambda>c. chunk_end c = hsize) fs of
        None \<Rightarrow> None
      | Some c \<Rightarrow> if RoundUpToNearest (offset c) al \<ge> chunk_end c then None else Some c)"

definition lazy_Alloc :: "lazy_heap \<Rightarrow> buffer \<Rightarrow> int \<Rightarrow> lazy_heap option" where
  "lazy_Alloc h b sz =
     (let r = (if sz = 0 then (lb_result h)\<lparr>chunk_map := emplace b (Chunk 0 0) (chunk_map (lb_result h))\<rparr>
               else lb_result h);
          fs = free_set h
      in case best_fit (alignment h) sz fs of
           Some best \<Rightarrow>
             let new_offset = RoundUpToNearest (offset best) (alignment h);
                 new_end = new_offset + sz;
                 fs = remove1 best fs;
                 fs = AddFreeChunk (offset best) (new_offset - offset best) fs;
                 fs = AddFreeChunk new_end (chunk_end best - new_end) fs
             in Some (h\<lparr>lb_result := r\<lparr>chunk_map := emplace b (Chunk new_offset sz) (chunk_map r)\<rparr>, free_set := fs\<rparr>)
         | None \<Rightarrow>
             (case last_fit (alignment h) (heap_size r) fs of
                Some lst \<Rightarrow>
                  let new_offset = RoundUpToNearest (offset lst) (alignment h);
                      fs = remove1 lst fs;
                      fs = AddFreeChunk (offset lst) (new_offset - offset lst) fs;
                      new_end = new_offset + sz
                  in if new_end > heap_size r \<and> new_end < heap_size r + sz then
                       Some (h\<lparr>lb_result := r\<lparr>chunk_map := emplace b (Chunk new_offset sz) (chunk_map r),
                                               heap_size := new_end\<rparr>, free_set := fs\<rparr>)
                     else None
              | None \<Rightarrow>
                  Some (h\<lparr>lb_result := r\<lparr>chunk_map := emplace b (Chunk kLazyAllocOffset sz) (chunk_map r)\<rparr>\<rparr>)))"

definition lazy_Free :: "lazy_heap \<Rightarrow> buffer \<Rightarrow> int \<Rightarrow> lazy_heap option" where
  "lazy_Free h b sz =
     (let r = lb_result h
      in case map_of (chunk_map r) b of
           None \<Rightarrow> None
         | Some c \<Rightarrow>
             if csize c \<noteq> sz then None
             else if offset c \<noteq> kLazyAllocOffset
             then Some (h\<lparr>free_set := AddFreeChunk (offset c) (csize c) (free_set h)\<rparr>)
             else
               let c = c\<lparr>offset := RoundUpToNearest (heap_size r) (alignment h)\<rparr>;
                   new_end = chunk_end c;
                   fs = AddFreeChunk (heap_size r) (new_end - heap_size r) (free_set h)
               in if new_end > heap_size r \<and> new_end \<ge> heap_size r + csize c
                  then Some (h\<lparr>lb_result := r\<lparr>chunk_map := set_mapped b c (chunk_map r), heap_size := new_end\<rparr>, free_set := fs\<rparr>)
                  else None)"

definition lazy_Finish :: "lazy_heap \<Rightarrow> heap_result option" where
  "lazy_Finish h =
     (case free_set h of
        [] \<Rightarrow> Some (lb_result h)
      | c # cs \<Rightarrow>
          if cs = [] \<and> offset c = 0 \<and> csize c = heap_size (lb_result h) then Some (lb_result h) else None)"

section \<open>DecreasingSizeRunsHeap\<close>

text \<open>The operations of the algorithm it delegates to are arguments.\<close>

datatype run_mode = kInit | kAlloc | kFree

record 'h runs_heap =
  algorithm :: 'h
  run :: "(buffer \<times> int) list"
  mode :: run_mode

definition new_runs :: "'h \<Rightarrow> 'h runs_heap" where
  "new_runs h = \<lparr>algorithm = h, run = [], mode = kInit\<rparr>"

fun call_all :: "('h \<Rightarrow> buffer \<Rightarrow> int \<Rightarrow> 'h option) \<Rightarrow> 'h \<Rightarrow> (buffer \<times> int) list \<Rightarrow> 'h option" where
  "call_all f h [] = Some h"
| "call_all f h ((b, sz) # xs) = do { h \<leftarrow> f h b sz; call_all f h xs }"

definition CallAndDrainRun :: "('h \<Rightarrow> buffer \<Rightarrow> int \<Rightarrow> 'h option) \<Rightarrow> ('h \<Rightarrow> buffer \<Rightarrow> int \<Rightarrow> 'h option) \<Rightarrow>
    'h runs_heap \<Rightarrow> 'h runs_heap option" where
  "CallAndDrainRun ha_Alloc ha_Free h =
     (if mode h = kInit then if run h = [] then Some h else None
      else do {
        let ops = sort_key (\<lambda>(b, sz). (- sz, b)) (run h);
        a \<leftarrow> call_all (if mode h = kAlloc then ha_Alloc else ha_Free) (algorithm h) ops;
        Some (h\<lparr>algorithm := a, run := []\<rparr>)
      })"

definition SetMode :: "('h \<Rightarrow> buffer \<Rightarrow> int \<Rightarrow> 'h option) \<Rightarrow> ('h \<Rightarrow> buffer \<Rightarrow> int \<Rightarrow> 'h option) \<Rightarrow>
    'h runs_heap \<Rightarrow> run_mode \<Rightarrow> 'h runs_heap option" where
  "SetMode ha_Alloc ha_Free h m =
     (if mode h \<noteq> m then do { h \<leftarrow> CallAndDrainRun ha_Alloc ha_Free h; Some (h\<lparr>mode := m\<rparr>) } else Some h)"

definition runs_Alloc :: "('h \<Rightarrow> buffer \<Rightarrow> int \<Rightarrow> 'h option) \<Rightarrow> ('h \<Rightarrow> buffer \<Rightarrow> int \<Rightarrow> 'h option) \<Rightarrow>
    'h runs_heap \<Rightarrow> buffer \<Rightarrow> int \<Rightarrow> 'h runs_heap option" where
  "runs_Alloc ha_Alloc ha_Free h b sz = do {
     h \<leftarrow> SetMode ha_Alloc ha_Free h kAlloc;
     Some (h\<lparr>run := run h @ [(b, sz)]\<rparr>)
   }"

definition runs_Free :: "('h \<Rightarrow> buffer \<Rightarrow> int \<Rightarrow> 'h option) \<Rightarrow> ('h \<Rightarrow> buffer \<Rightarrow> int \<Rightarrow> 'h option) \<Rightarrow>
    'h runs_heap \<Rightarrow> buffer \<Rightarrow> int \<Rightarrow> 'h runs_heap option" where
  "runs_Free ha_Alloc ha_Free h b sz =
     (if mode h = kInit then None
      else do {
        h \<leftarrow> SetMode ha_Alloc ha_Free h kFree;
        Some (h\<lparr>run := run h @ [(b, sz)]\<rparr>)
      })"

definition runs_Finish :: "('h \<Rightarrow> buffer \<Rightarrow> int \<Rightarrow> 'h option) \<Rightarrow> ('h \<Rightarrow> buffer \<Rightarrow> int \<Rightarrow> 'h option) \<Rightarrow>
    ('h \<Rightarrow> heap_result option) \<Rightarrow> 'h runs_heap \<Rightarrow> heap_result option" where
  "runs_Finish ha_Alloc ha_Free ha_Finish h = do {
     h \<leftarrow> CallAndDrainRun ha_Alloc ha_Free h;
     ha_Finish (algorithm h)
   }"

section \<open>Sequences of calls\<close>

datatype heap_op = OpAlloc buffer | OpFree buffer

fun run_ops :: "('h \<Rightarrow> buffer \<Rightarrow> int \<Rightarrow> 'h option) \<Rightarrow> ('h \<Rightarrow> buffer \<Rightarrow> int \<Rightarrow> 'h option) \<Rightarrow>
    (buffer \<Rightarrow> int) \<Rightarrow> heap_op list \<Rightarrow> 'h \<Rightarrow> 'h option" where
  "run_ops al fr size_fn [] h = Some h"
| "run_ops al fr size_fn (OpAlloc b # ops) h = do { h \<leftarrow> al h b (size_fn b); run_ops al fr size_fn ops h }"
| "run_ops al fr size_fn (OpFree b # ops) h = do { h \<leftarrow> fr h b (size_fn b); run_ops al fr size_fn ops h }"

fun allocs :: "heap_op list \<Rightarrow> buffer list" where
  "allocs [] = []"
| "allocs (OpAlloc b # ops) = b # allocs ops"
| "allocs (OpFree b # ops) = allocs ops"

fun frees :: "heap_op list \<Rightarrow> buffer list" where
  "frees [] = []"
| "frees (OpAlloc b # ops) = frees ops"
| "frees (OpFree b # ops) = b # frees ops"

definition live :: "heap_op list \<Rightarrow> buffer set" where
  "live ops = set (allocs ops) - set (frees ops)"

text \<open>Every buffer is allocated at most once, and freed at most once after it was allocated.\<close>

definition op_ok :: "heap_op list \<Rightarrow> heap_op \<Rightarrow> bool" where
  "op_ok ops x = (case x of OpAlloc b \<Rightarrow> b \<notin> set (allocs ops) | OpFree b \<Rightarrow> b \<in> live ops)"

definition wf_ops :: "heap_op list \<Rightarrow> bool" where
  "wf_ops ops \<longleftrightarrow> (\<forall>i < length ops. op_ok (take i ops) (ops ! i))"

text \<open>Two buffers interfere when they are live at the same time.\<close>

definition interfere :: "heap_op list \<Rightarrow> buffer \<Rightarrow> buffer \<Rightarrow> bool" where
  "interfere ops a b \<longleftrightarrow> (\<exists>i \<le> length ops. a \<in> live (take i ops) \<and> b \<in> live (take i ops))"

definition chunks_disjoint :: "heap_chunk \<Rightarrow> heap_chunk \<Rightarrow> bool" where
  "chunks_disjoint c d \<longleftrightarrow> chunk_end c \<le> offset d \<or> chunk_end d \<le> offset c"

text \<open>What a heap algorithm promises for the result of a sequence of calls.\<close>

definition packed :: "(buffer \<Rightarrow> int) \<Rightarrow> int \<Rightarrow> heap_op list \<Rightarrow> heap_result \<Rightarrow> bool" where
  "packed size_fn al ops r \<longleftrightarrow>
     set (map fst (chunk_map r)) = set (allocs ops) \<and> distinct (map fst (chunk_map r)) \<and>
     (\<forall>(b, c) \<in> set (chunk_map r). csize c = size_fn b \<and> 0 \<le> offset c \<and> al dvd offset c \<and> chunk_end c \<le> heap_size r) \<and>
     (\<forall>(a, c) \<in> set (chunk_map r). \<forall>(b, d) \<in> set (chunk_map r).
        a \<noteq> b \<longrightarrow> interfere ops a b \<longrightarrow> chunks_disjoint c d \<or> csize c = 0 \<or> csize d = 0) \<and>
     0 \<le> heap_size r \<and> heap_size r \<le> (\<Sum>b \<leftarrow> allocs ops. size_fn b + al - 1)"

locale heap_algorithm =
  fixes ha_Alloc ha_Free :: "'h \<Rightarrow> buffer \<Rightarrow> int \<Rightarrow> 'h option"
    and ha_Finish :: "'h \<Rightarrow> heap_result option"
    and init :: 'h
    and al :: int
  assumes al_pos: "0 < al"
    and packs: "\<forall>b. 0 \<le> size_fn b \<Longrightarrow> wf_ops ops \<Longrightarrow> live ops = {} \<Longrightarrow>
      \<exists>h r. run_ops ha_Alloc ha_Free size_fn ops init = Some h \<and> ha_Finish h = Some r \<and> packed size_fn al ops r"

section \<open>Lemmas on call sequences\<close>

lemma allocs_append [simp]: "allocs (xs @ ys) = allocs xs @ allocs ys"
  by (induction xs rule: allocs.induct) auto

lemma frees_append [simp]: "frees (xs @ ys) = frees xs @ frees ys"
  by (induction xs rule: frees.induct) auto

lemma allocs_map [simp]: "allocs (map OpAlloc bs) = bs" "allocs (map OpFree bs) = []"
  by (induction bs) auto

lemma frees_map [simp]: "frees (map OpAlloc bs) = []" "frees (map OpFree bs) = bs"
  by (induction bs) auto

lemma run_ops_append:
  "run_ops f g sz (xs @ ys) h = Option.bind (run_ops f g sz xs h) (run_ops f g sz ys)"
proof (induction xs arbitrary: h)
  case (Cons x xs)
  then show ?case by (cases x) (auto simp: Option.bind_eq_Some_conv split: bind_splits)
qed simp

lemma wf_ops_Nil [simp]: "wf_ops []"
  by (simp add: wf_ops_def)

lemma wf_ops_snoc: "wf_ops (ops @ [x]) \<longleftrightarrow> wf_ops ops \<and> op_ok ops x"
  by (auto simp: wf_ops_def nth_append less_Suc_eq)

lemma wf_frees: "wf_ops ops \<Longrightarrow> set (frees ops) \<subseteq> set (allocs ops)"
proof (induction ops rule: rev_induct)
  case (snoc x ops)
  then show ?case by (cases x) (auto simp: wf_ops_snoc op_ok_def live_def)
qed simp

lemma live_snoc_alloc: "wf_ops (ops @ [OpAlloc b]) \<Longrightarrow> live (ops @ [OpAlloc b]) = insert b (live ops)"
  using wf_frees [of ops] by (auto simp: live_def wf_ops_snoc op_ok_def)

lemma live_snoc_free: "live (ops @ [OpFree b]) = live ops - {b}"
  by (auto simp: live_def)


lemma prefixes_snoc:
  "(\<exists>i \<le> length (ops @ [x]). P (take i (ops @ [x]))) \<longleftrightarrow> (\<exists>i \<le> length ops. P (take i ops)) \<or> P (ops @ [x])"
proof
  assume "\<exists>i \<le> length (ops @ [x]). P (take i (ops @ [x]))"
  then obtain i where i: "i \<le> Suc (length ops)" "P (take i (ops @ [x]))" by auto
  show "(\<exists>i \<le> length ops. P (take i ops)) \<or> P (ops @ [x])"
    using i by (cases "i \<le> length ops") (auto simp: le_Suc_eq)
next
  assume "(\<exists>i \<le> length ops. P (take i ops)) \<or> P (ops @ [x])"
  then show "\<exists>i \<le> length (ops @ [x]). P (take i (ops @ [x]))"
  proof
    assume "\<exists>i \<le> length ops. P (take i ops)"
    then obtain i where "i \<le> length ops" "P (take i ops)" by blast
    then show ?thesis by (intro exI [of _ i]) simp
  next
    assume "P (ops @ [x])"
    then show ?thesis by (intro exI [of _ "length (ops @ [x])"]) simp
  qed
qed

lemma interfere_snoc:
  "interfere (ops @ [x]) a b \<longleftrightarrow> interfere ops a b \<or> a \<in> live (ops @ [x]) \<and> b \<in> live (ops @ [x])"
  unfolding interfere_def by (rule prefixes_snoc)

lemma interfere_live: "a \<in> live ops \<Longrightarrow> b \<in> live ops \<Longrightarrow> interfere ops a b"
  by (auto simp: interfere_def intro: exI [of _ "length ops"])

lemma live_take_allocs: "set (allocs (take i ops)) \<subseteq> set (allocs ops)"
  by (metis append_take_drop_id allocs_append set_append sup_ge1)

lemma interfere_allocs: "interfere ops a b \<Longrightarrow> a \<in> set (allocs ops) \<and> b \<in> set (allocs ops)"
  using live_take_allocs by (fastforce simp: interfere_def live_def)

lemma interfere_sym: "interfere ops a b \<longleftrightarrow> interfere ops b a"
  by (auto simp: interfere_def)

section \<open>Lemmas on rounding\<close>

lemma cdiv_nonneg: "0 \<le> a \<Longrightarrow> 0 < b \<Longrightarrow> cdiv a b = a div b"
  by (auto simp: cdiv_def sgn_if)

lemma mult_div_less: "(a div b) * b < a \<longleftrightarrow> a mod b \<noteq> 0" "\<not> a < (a div b) * b" if "0 < b" for a b :: int
proof -
  have "a = a div b * b + a mod b" "0 \<le> a mod b" using that by simp_all
  then show "(a div b) * b < a \<longleftrightarrow> a mod b \<noteq> 0" "\<not> a < (a div b) * b" by linarith+
qed

lemma ratio_rounding_pos:
  assumes "0 < b"
  shows "CeilOfRatio a b = - (- a div b)" "FloorOfRatio a b = a div b"
proof -
  have "CeilOfRatio a b = - (- a div b) \<and> FloorOfRatio a b = a div b"
  proof (cases "0 \<le> a")
    case True
    then have "cdiv a b = a div b" "0 \<le> a div b" using assms by (auto simp: cdiv_nonneg pos_imp_zdiv_nonneg_iff)
    then show ?thesis using assms mult_div_less [OF assms, of a]
      by (auto simp: CeilOfRatio_def FloorOfRatio_def Let_def zdiv_zminus1_eq_if)
  next
    case False
    let ?c = "- a"
    have c: "cdiv a b = - (?c div b)" "0 \<le> ?c div b" using assms False
      by (auto simp: cdiv_def sgn_if pos_imp_zdiv_nonneg_iff)
    have e: "a div b = (if ?c mod b = 0 then - (?c div b) else - (?c div b) - 1)"
      using zdiv_zminus1_eq_if [of b "?c"] assms by simp
    have m: "?c = ?c div b * b + ?c mod b" "0 \<le> ?c mod b" "?c mod b < b" using assms by simp_all
    have f: "FloorOfRatio a b = a div b"
    proof -
      have "a < - (?c div b) * b \<longleftrightarrow> ?c mod b \<noteq> 0" 
      proof -
        have "- (?c div b) * b = - (?c div b * b)" by simp
        then show ?thesis using mult_div_less(1) [OF assms, of ?c] by linarith
      qed
      then show ?thesis using assms c e by (auto simp: FloorOfRatio_def Let_def)
    qed
    have "\<not> (- (?c div b) \<ge> 0 \<and> a > - (?c div b) * b)"
    proof
      assume h: "- (?c div b) \<ge> 0 \<and> a > - (?c div b) * b"
      then have "?c div b = 0" using c(2) by simp
      then show False using h False by simp
    qed
    then have "CeilOfRatio a b = - (?c div b)" using assms c by (auto simp: CeilOfRatio_def Let_def)
    then show ?thesis using f by simp
  qed
  then show "CeilOfRatio a b = - (- a div b)" "FloorOfRatio a b = a div b" by simp_all
qed

lemma ratio_negate: "CeilOfRatio (- a) (- b) = CeilOfRatio a b" "FloorOfRatio (- a) (- b) = FloorOfRatio a b"
proof -
  have c: "cdiv (- a) (- b) = cdiv a b" by (auto simp: cdiv_def sgn_if)
  show "CeilOfRatio (- a) (- b) = CeilOfRatio a b" "FloorOfRatio (- a) (- b) = FloorOfRatio a b"
    unfolding CeilOfRatio_def FloorOfRatio_def c Let_def by auto
qed

text \<open>
  \<open>CeilOfRatio\<close> and \<open>FloorOfRatio\<close> return the exact ceiling and floor of the quotient for
  every sign of numerator and denominator.
\<close>
theorem ratio_rounding:
  assumes "b \<noteq> 0"
  shows "CeilOfRatio a b = - (- a div b) \<and> FloorOfRatio a b = a div b"
proof (cases "0 < b")
  case False
  then have "0 < - b" using assms by simp
  from ratio_rounding_pos [OF this, of "- a"] show ?thesis unfolding ratio_negate by (simp add: div_minus_right)
qed (simp add: ratio_rounding_pos)

theorem ratio_rounding_witness:
  "CeilOfRatio (- 7) (- 2) = - (- (- 7) div (- 2)) \<and> FloorOfRatio (- 7) (- 2) = - 7 div (- 2 :: int)"
  using ratio_rounding [of "- 2" "- 7"] by simp

lemma RoundUpToNearest_props:
  assumes "0 \<le> a" "0 < b"
  shows "a \<le> RoundUpToNearest a b" "RoundUpToNearest a b \<le> a + b - 1" "b dvd RoundUpToNearest a b"
proof -
  let ?q = "- a div b"
  have e: "RoundUpToNearest a b = - (?q * b)" using assms by (simp add: RoundUpToNearest_def ratio_rounding_pos)
  have d: "- a = ?q * b + - a mod b" by simp
  have m: "0 \<le> - a mod b" "- a mod b < b" using assms by simp_all
  show "a \<le> RoundUpToNearest a b" "RoundUpToNearest a b \<le> a + b - 1" using e d m by linarith+
  show "b dvd RoundUpToNearest a b" using e by simp
qed

end
