(* ===== verification/HeapLazy.thy ===== *)
theory HeapLazy
  imports HeapAlgorithm
begin

text \<open>
  \<open>LazyBestFitHeap\<close> keeps its contract. The free chunks are separated intervals, together
  with the assigned live buffers they tile the heap, and a buffer whose assignment is postponed
  gets an offset beyond everything assigned while it was live.
\<close>

section \<open>Free chunks\<close>

definition cells :: "heap_chunk \<Rightarrow> int set" where
  "cells c = {offset c ..< chunk_end c}"

definition covered :: "heap_chunk list \<Rightarrow> int set" where
  "covered fs = (\<Union>c \<in> set fs. cells c)"

text \<open>Neither overlapping nor adjacent.\<close>

definition separated :: "heap_chunk \<Rightarrow> heap_chunk \<Rightarrow> bool" where
  "separated c d \<longleftrightarrow> chunk_end c < offset d \<or> chunk_end d < offset c"

definition free_ok :: "heap_chunk list \<Rightarrow> bool" where
  "free_ok fs \<longleftrightarrow> (\<forall>c \<in> set fs. 0 < csize c) \<and> sorted_wrt separated fs \<and> sorted_wrt OrderChunkByIncreasingSize fs"

lemma covered_simps [simp]:
  "covered [] = {}" "covered (c # fs) = cells c \<union> covered fs"
  by (auto simp: covered_def)

lemma separated_sym: "separated c d \<longleftrightarrow> separated d c"
  by (auto simp: separated_def)

lemma separated_disjoint: "separated c d \<Longrightarrow> cells c \<inter> cells d = {}"
  by (auto simp: separated_def cells_def)

lemma cells_disjoint_iff:
  "0 < csize c \<Longrightarrow> 0 < csize d \<Longrightarrow> cells c \<inter> cells d = {} \<longleftrightarrow> chunks_disjoint c d"
  by (auto simp: cells_def chunks_disjoint_def chunk_end_def)

lemma sorted_wrt_subseq: "subseq xs ys \<Longrightarrow> sorted_wrt R ys \<Longrightarrow> sorted_wrt R xs"
proof (induction rule: list_emb.induct)
  case (list_emb_Cons2 x y xs ys)
  then show ?case using list_emb_set [OF list_emb_Cons2.hyps(2)] by fastforce
qed auto

lemma subseq_set: "subseq xs ys \<Longrightarrow> set xs \<subseteq> set ys"
  by (induction rule: list_emb.induct) auto

lemma coalesce_separated:
  assumes "coalesce c fs = (c', fs')" "separated g c" "\<forall>f \<in> set fs. separated g f"
    "0 < csize g" "0 < csize c" "\<forall>f \<in> set fs. 0 < csize f"
  shows "separated g c'"
  using assms
proof (induction c fs arbitrary: c' fs' rule: coalesce.induct)
  case (2 c f fs)
  show ?case
  proof (cases "chunk_end f = offset c \<or> offset f = chunk_end c")
    case True
    have "separated g (Chunk (min (offset c) (offset f)) (csize c + csize f))"
      using True 2(4-8) by (auto simp: separated_def chunk_end_def min_def)
    then show ?thesis using True 2 by simp
  next
    case False
    then show ?thesis using 2 by (auto split: prod.splits)
  qed
qed simp

lemma merged_cells:
  assumes "chunk_end f = offset c \<or> offset f = chunk_end c" "0 < csize c" "0 < csize f"
  shows "cells (Chunk (min (offset c) (offset f)) (csize c + csize f)) = cells c \<union> cells f"
  using assms by (auto simp: cells_def chunk_end_def min_def)

lemma coalesce_spec:
  assumes "coalesce c fs = (c', fs')" "sorted_wrt separated fs" "\<forall>f \<in> set fs. 0 < csize f" "0 < csize c"
    "cells c \<inter> covered fs = {}"
  shows "subseq fs' fs \<and> 0 < csize c' \<and> cells c' \<union> covered fs' = cells c \<union> covered fs \<and>
    (\<forall>f \<in> set fs'. separated f c')"
  using assms
proof (induction c fs arbitrary: c' fs' rule: coalesce.induct)
  case (2 c f fs)
  have pos: "0 < csize f" "\<forall>g \<in> set fs. 0 < csize g" and sep: "\<forall>g \<in> set fs. separated f g" "sorted_wrt separated fs"
    using 2(4,5) by auto
  have cov: "cells f \<inter> covered fs = {}"
    using sep separated_disjoint by (fastforce simp: covered_def)
  show ?case
  proof (cases "chunk_end f = offset c \<or> offset f = chunk_end c")
    case True
    let ?c = "Chunk (min (offset c) (offset f)) (csize c + csize f)"
    have m: "cells ?c = cells c \<union> cells f" using merged_cells [OF True] pos 2(6) by simp
    have "subseq fs' fs \<and> 0 < csize c' \<and> cells c' \<union> covered fs' = cells ?c \<union> covered fs \<and> (\<forall>f \<in> set fs'. separated f c')"
    proof (rule "2.IH"(1) [OF True])
      show "coalesce ?c fs = (c', fs')" using 2(3) True by simp
      show "cells ?c \<inter> covered fs = {}" unfolding m using 2(7) cov by auto
    qed (use sep pos 2(6) in auto)
    then show ?thesis using m by auto
  next
    case False
    obtain c1 fs1 where e: "coalesce c fs = (c1, fs1)" by fastforce
    have r: "c' = c1" "fs' = f # fs1" using 2(3) False e by auto
    have ih: "subseq fs1 fs \<and> 0 < csize c1 \<and> cells c1 \<union> covered fs1 = cells c \<union> covered fs \<and> (\<forall>f \<in> set fs1. separated f c1)"
      using "2.IH"(2) [OF False e] sep pos 2(6,7) by auto
    have "separated f c"
    proof -
      have "cells c \<inter> cells f = {}" using 2(7) by auto
      then have "chunks_disjoint c f" using cells_disjoint_iff 2(6) pos by blast
      then show ?thesis using False by (auto simp: chunks_disjoint_def separated_def)
    qed
    then have "separated f c1" using coalesce_separated [OF e] sep pos 2(6) by blast
    then show ?thesis using ih r by auto
  qed
qed auto

lemma set_free_emplace:
  "\<forall>f \<in> set fs. separated f c \<Longrightarrow> 0 < csize c \<Longrightarrow> set (free_emplace c fs) = insert c (set fs)"
  by (induction fs) (auto simp: OrderChunkByIncreasingSize_def separated_def chunk_end_def split: if_splits)

lemma order_trans_chunk:
  "OrderChunkByIncreasingSize a b \<Longrightarrow> OrderChunkByIncreasingSize b c \<Longrightarrow> OrderChunkByIncreasingSize a c"
  by (auto simp: OrderChunkByIncreasingSize_def split: if_splits)

lemma set_free_emplace_subset: "set (free_emplace c fs) \<subseteq> insert c (set fs)"
  by (induction fs) auto

lemma sorted_free_emplace:
  "sorted_wrt OrderChunkByIncreasingSize fs \<Longrightarrow> sorted_wrt OrderChunkByIncreasingSize (free_emplace c fs)"
proof (induction fs)
  case (Cons f fs)
  then show ?case using set_free_emplace_subset [of c fs] by (auto dest: order_trans_chunk)
qed simp

lemma separated_free_emplace:
  "sorted_wrt separated fs \<Longrightarrow> \<forall>f \<in> set fs. separated f c \<Longrightarrow> sorted_wrt separated (free_emplace c fs)"
proof (induction fs)
  case (Cons f fs)
  then show ?case using set_free_emplace_subset [of c fs] by (auto simp: separated_sym)
qed simp

lemma free_ok_AddFreeChunk:
  assumes "free_ok fs" "{off ..< off + sz} \<inter> covered fs = {}"
  shows "free_ok (AddFreeChunk off sz fs) \<and> covered (AddFreeChunk off sz fs) = covered fs \<union> {off ..< off + sz}"
proof (cases "sz \<le> 0")
  case False
  obtain c fs' where e: "coalesce (Chunk off sz) fs = (c, fs')" by fastforce
  have s: "subseq fs' fs" "0 < csize c" "cells c \<union> covered fs' = cells (Chunk off sz) \<union> covered fs"
    "\<forall>f \<in> set fs'. separated f c"
    using coalesce_spec [OF e] assms False by (auto simp: free_ok_def cells_def chunk_end_def)
  have srt: "sorted_wrt separated fs'" "sorted_wrt OrderChunkByIncreasingSize fs'" "\<forall>f \<in> set fs'. 0 < csize f"
    using assms(1) sorted_wrt_subseq [OF s(1)] subseq_set [OF s(1)] by (auto simp: free_ok_def)
  have "covered (free_emplace c fs') = cells c \<union> covered fs'"
    by (simp add: covered_def set_free_emplace [OF s(4,2)])
  then show ?thesis using False e s srt sorted_free_emplace separated_free_emplace
    by (simp add: AddFreeChunk_def free_ok_def set_free_emplace) (auto simp: cells_def chunk_end_def)
qed (use assms in \<open>simp add: AddFreeChunk_def\<close>)

lemma free_ok_separated: "free_ok fs \<Longrightarrow> c \<in> set fs \<Longrightarrow> d \<in> set fs \<Longrightarrow> c \<noteq> d \<Longrightarrow> separated c d"
proof -
  have "sorted_wrt separated fs \<Longrightarrow> c \<in> set fs \<Longrightarrow> d \<in> set fs \<Longrightarrow> c \<noteq> d \<Longrightarrow> separated c d"
    by (induction fs) (auto simp: separated_sym)
  then show "free_ok fs \<Longrightarrow> c \<in> set fs \<Longrightarrow> d \<in> set fs \<Longrightarrow> c \<noteq> d \<Longrightarrow> separated c d"
    by (simp add: free_ok_def)
qed

lemma free_ok_distinct: "free_ok fs \<Longrightarrow> distinct fs"
proof -
  have "sorted_wrt OrderChunkByIncreasingSize fs \<Longrightarrow> distinct fs"
    by (induction fs) (auto simp: OrderChunkByIncreasingSize_def)
  then show "free_ok fs \<Longrightarrow> distinct fs" by (simp add: free_ok_def)
qed

lemma free_ok_remove:
  assumes "free_ok fs" "c \<in> set fs"
  shows "free_ok (remove1 c fs) \<and> covered (remove1 c fs) = covered fs - cells c \<and> cells c \<subseteq> covered fs"
proof -
  have sub: "subseq (remove1 c fs) fs" by (induction fs) auto
  have dis: "\<forall>d \<in> set fs - {c}. cells d \<inter> cells c = {}"
    using free_ok_separated [OF assms(1)] assms(2) separated_disjoint by blast
  have st: "set (remove1 c fs) = set fs - {c}" using free_ok_distinct [OF assms(1)] by simp
  have "free_ok (remove1 c fs)" using assms(1) sorted_wrt_subseq [OF sub] st by (auto simp: free_ok_def)
  moreover have "covered (remove1 c fs) = covered fs - cells c" using dis assms(2) by (auto simp: covered_def st)
  ultimately show ?thesis using assms(2) by (auto simp: covered_def)
qed

lemma free_ok_single:
  assumes "free_ok fs" "covered fs = {0 ..< hs}" "fs \<noteq> []"
  shows "fs = [Chunk 0 hs]"
proof -
  obtain c cs where fs: "fs = c # cs" using assms(3) by (cases fs) auto
  have pos: "\<forall>d \<in> set fs. 0 < csize d" using assms(1) by (simp add: free_ok_def)
  have gap: "\<not> chunk_end d < offset e" if de: "d \<in> set fs" "e \<in> set fs" for d e
  proof
    assume less: "chunk_end d < offset e"
    have "offset d \<in> cells d" "offset e \<in> cells e" using pos de by (auto simp: cells_def chunk_end_def)
    then have "0 \<le> offset d" "offset e < hs" using assms(2) de unfolding covered_def by auto
    then have "chunk_end d \<in> covered fs" using assms(2) less pos de by (auto simp: chunk_end_def)
    then obtain g where g: "g \<in> set fs" "chunk_end d \<in> cells g" by (auto simp: covered_def)
    then have "g \<noteq> d" by (auto simp: cells_def)
    moreover have "offset d < chunk_end d" using pos de by (simp add: chunk_end_def)
    ultimately show False using free_ok_separated [OF assms(1) de(1) g(1)] g(2) by (auto simp: separated_def cells_def)
  qed
  have "cs = []"
  proof (cases cs)
    case (Cons d ds)
    then have "separated c d" using assms(1) fs by (simp add: free_ok_def)
    then show ?thesis using gap [of c d] gap [of d c] fs Cons by (auto simp: separated_def)
  qed simp
  then have "cells c = {0 ..< hs}" "0 < csize c" using assms(2) fs pos by simp_all
  then have iff: "offset c \<le> x \<and> x < chunk_end c \<longleftrightarrow> 0 \<le> x \<and> x < hs" and lt: "offset c < chunk_end c" for x
    by (auto simp: cells_def chunk_end_def set_eq_iff)
  have "offset c = 0" "chunk_end c = hs"
    using iff [of "offset c"] iff [of 0] iff [of "chunk_end c - 1"] iff [of "hs - 1"] lt by linarith+
  then show ?thesis using fs \<open>cs = []\<close> by (simp add: chunk_end_def)
qed

section \<open>The invariant\<close>

definition asg :: "(buffer \<rightharpoonup> heap_chunk) \<Rightarrow> buffer \<Rightarrow> heap_chunk \<Rightarrow> bool" where
  "asg m b c \<longleftrightarrow> m b = Some c \<and> offset c \<noteq> kLazyAllocOffset"

definition charge :: "(buffer \<Rightarrow> int) \<Rightarrow> int \<Rightarrow> (buffer \<rightharpoonup> heap_chunk) \<Rightarrow> buffer \<Rightarrow> int" where
  "charge sz al m b = (if (\<exists>c. asg m b c) then sz b + al - 1 else 0)"

definition chunk_ok :: "(buffer \<Rightarrow> int) \<Rightarrow> int \<Rightarrow> heap_op list \<Rightarrow> int \<Rightarrow> buffer \<Rightarrow> heap_chunk \<Rightarrow> bool" where
  "chunk_ok sz al ops hs b c \<longleftrightarrow> csize c = sz b \<and>
     (if offset c = kLazyAllocOffset then b \<in> live ops \<and> 0 < sz b
      else 0 \<le> offset c \<and> al dvd offset c \<and> chunk_end c \<le> hs)"

definition lazy_inv :: "(buffer \<Rightarrow> int) \<Rightarrow> int \<Rightarrow> heap_op list \<Rightarrow> (buffer \<rightharpoonup> heap_chunk) \<Rightarrow> int \<Rightarrow> heap_chunk list \<Rightarrow> bool" where
  "lazy_inv sz al ops m hs fs \<longleftrightarrow>
     free_ok fs \<and> 0 \<le> hs \<and> dom m = set (allocs ops) \<and>
     (\<forall>b c. m b = Some c \<longrightarrow> chunk_ok sz al ops hs b c) \<and>
     covered fs \<union> (\<Union>{cells c |b c. b \<in> live ops \<and> asg m b c}) = {0 ..< hs} \<and>
     (\<forall>b c. b \<in> live ops \<longrightarrow> asg m b c \<longrightarrow> cells c \<inter> covered fs = {}) \<and>
     (\<forall>a b c d. a \<noteq> b \<longrightarrow> interfere ops a b \<longrightarrow> asg m a c \<longrightarrow> asg m b d \<longrightarrow> cells c \<inter> cells d = {}) \<and>
     hs \<le> (\<Sum>b \<leftarrow> allocs ops. charge sz al m b)"

lemma lazy_inv_alloc:
  assumes inv: "lazy_inv sz al ops m hs fs" and wf: "wf_ops (ops @ [OpAlloc b])"
    and c: "csize c = sz b" "0 \<le> offset c" "al dvd offset c" "chunk_end c \<le> hs'" "hs \<le> hs'" "hs' \<le> hs + sz b"
      "cells c \<subseteq> covered fs \<union> {hs ..< hs'}"
    and fs': "free_ok fs'" "covered fs' = covered fs \<union> {hs ..< hs'} - cells c" and al: "0 < al"
  shows "lazy_inv sz al (ops @ [OpAlloc b]) (m(b \<mapsto> c)) hs' fs'"
proof -
  let ?ops = "ops @ [OpAlloc b]" and ?m = "m(b \<mapsto> c)"
  have lv: "live ?ops = insert b (live ops)" using live_snoc_alloc [OF wf] .
  have fresh: "b \<notin> set (allocs ops)" "wf_ops ops" using wf by (auto simp: wf_ops_snoc op_ok_def)
  have nl: "b \<notin> live ops" "m b = None" using fresh inv by (auto simp: live_def lazy_inv_def)
  have as: "asg ?m a d \<longleftrightarrow> (if a = b then d = c else asg m a d)" for a d
    using c(2) by (auto simp: asg_def kLazyAllocOffset_def)
  have ok: "chunk_ok sz al ops hs a d" if "m a = Some d" for a d using inv that by (simp add: lazy_inv_def)
  have below: "cells d \<subseteq> {0 ..< hs}" if "asg m a d" for a d
    using ok [of a d] that by (auto simp: asg_def chunk_ok_def cells_def)
  have apart: "cells c \<inter> cells d = {}" if "a \<in> live ops" "asg m a d" for a d
  proof -
    have "cells d \<inter> covered fs = {}" using inv that by (simp add: lazy_inv_def)
    then show ?thesis using c(7) below [OF that(2)] by fastforce
  qed
  have un: "{cells d |a d. a \<in> live ?ops \<and> asg ?m a d} = insert (cells c) {cells d |a d. a \<in> live ops \<and> asg m a d}"
    using nl by (auto simp: lv as)
  have hs0: "0 \<le> hs" "covered fs \<subseteq> {0..<hs}" using inv by (auto simp: lazy_inv_def)
  show ?thesis unfolding lazy_inv_def
  proof (intro conjI allI impI)
    show "0 \<le> hs'" using hs0 c(5) by simp
    show "dom ?m = set (allocs ?ops)" using inv by (auto simp: lazy_inv_def)
    show "chunk_ok sz al ?ops hs' a d" if "?m a = Some d" for a d
    proof (cases "a = b")
      case True
      then show ?thesis using that c by (auto simp: chunk_ok_def kLazyAllocOffset_def)
    next
      case False
      then show ?thesis using ok [of a d] that c(5) by (auto simp: chunk_ok_def lv)
    qed
    have cov: "covered fs \<union> \<Union>{cells d |a d. a \<in> live ops \<and> asg m a d} = {0 ..< hs}" using inv by (simp add: lazy_inv_def)
    have "covered fs' \<union> \<Union>{cells d |a d. a \<in> live ?ops \<and> asg ?m a d} =
        (covered fs \<union> \<Union>{cells d |a d. a \<in> live ops \<and> asg m a d}) \<union> {hs ..< hs'}"
      unfolding un fs'(2) using c(7) by blast
    also have "\<dots> = {0 ..< hs'}" unfolding cov using hs0 c(5) by auto
    finally show "covered fs' \<union> \<Union>{cells d |a d. a \<in> live ?ops \<and> asg ?m a d} = {0 ..< hs'}" .
    show "cells d \<inter> covered fs' = {}" if "a \<in> live ?ops" "asg ?m a d" for a d
    proof (cases "a = b")
      case True
      then show ?thesis using that as fs'(2) by auto
    next
      case False
      then have "a \<in> live ops" "asg m a d" using that as lv by auto
      then have "cells d \<inter> covered fs = {}" "cells d \<subseteq> {0..<hs}" using inv below by (auto simp: lazy_inv_def)
      then show ?thesis using fs'(2) by fastforce
    qed
    show "cells d \<inter> cells e = {}" if ab: "x \<noteq> y" "interfere ?ops x y" "asg ?m x d" "asg ?m y e" for x y d e
    proof -
      consider "interfere ops x y" | "x \<in> live ?ops" "y \<in> live ?ops" using ab(2) by (auto simp: interfere_snoc)
      then show ?thesis
      proof cases
        case 1
        then have "x \<noteq> b" "y \<noteq> b" using interfere_allocs [OF 1] fresh by auto
        then show ?thesis using inv ab(1,3,4) 1 as unfolding lazy_inv_def by metis
      next
        case 2
        then show ?thesis
        proof (cases "x = b \<or> y = b")
          case True
          then show ?thesis
          proof
            assume "x = b"
            then show ?thesis using 2 ab as lv apart [of y e] by auto
          next
            assume "y = b"
            then show ?thesis using 2 ab as lv apart [of x d] by auto
          qed
        next
          case False
          then have "interfere ops x y" using 2 lv interfere_live by auto
          then show ?thesis using inv ab(1,3,4) as False unfolding lazy_inv_def by metis
        qed
      qed
    qed
    have "charge sz al ?m b = sz b + al - 1" by (auto simp: charge_def as)
    moreover have "(\<Sum>b \<leftarrow> allocs ops. charge sz al ?m b) = (\<Sum>b \<leftarrow> allocs ops. charge sz al m b)"
      using fresh by (intro arg_cong [where f = sum_list] map_cong refl) (auto simp: charge_def as)
    ultimately show "hs' \<le> (\<Sum>b \<leftarrow> allocs ?ops. charge sz al ?m b)" using inv c(6) al by (simp add: lazy_inv_def)
  qed (rule fs'(1))
qed

lemma lazy_inv_defer:
  assumes inv: "lazy_inv sz al ops m hs fs" and wf: "wf_ops (ops @ [OpAlloc b])" and pos: "0 < sz b"
  shows "lazy_inv sz al (ops @ [OpAlloc b]) (m(b \<mapsto> Chunk kLazyAllocOffset (sz b))) hs fs"
proof -
  let ?ops = "ops @ [OpAlloc b]" and ?m = "m(b \<mapsto> Chunk kLazyAllocOffset (sz b))"
  have lv: "live ?ops = insert b (live ops)" using live_snoc_alloc [OF wf] .
  have fresh: "b \<notin> set (allocs ops)" using wf by (auto simp: wf_ops_snoc op_ok_def)
  have nl: "b \<notin> live ops" "m b = None" using fresh inv by (auto simp: live_def lazy_inv_def)
  have as: "asg ?m a d \<longleftrightarrow> asg m a d" for a d using nl by (auto simp: asg_def)
  have nb: "\<not> asg m b d" for d using nl by (simp add: asg_def)
  have un: "{cells d |a d. a \<in> live ?ops \<and> asg ?m a d} = {cells d |a d. a \<in> live ops \<and> asg m a d}"
    using nb by (auto simp: lv as)
  show ?thesis unfolding lazy_inv_def
  proof (intro conjI allI impI)
    show "free_ok fs" "0 \<le> hs" using inv by (simp_all add: lazy_inv_def)
    show "dom ?m = set (allocs ?ops)" using inv by (auto simp: lazy_inv_def)
    show "chunk_ok sz al ?ops hs a d" if "?m a = Some d" for a d
    proof (cases "a = b")
      case False
      then have "chunk_ok sz al ops hs a d" using that inv by (simp add: lazy_inv_def)
      then show ?thesis by (auto simp: chunk_ok_def lv)
    qed (use that pos in \<open>auto simp: chunk_ok_def lv\<close>)
    show "covered fs \<union> \<Union>{cells d |a d. a \<in> live ?ops \<and> asg ?m a d} = {0 ..< hs}"
      unfolding un using inv by (simp add: lazy_inv_def)
    show "cells d \<inter> covered fs = {}" if "a \<in> live ?ops" "asg ?m a d" for a d
    proof -
      have "a \<in> live ops" "asg m a d" using that nb lv as by auto
      then show ?thesis using inv unfolding lazy_inv_def by blast
    qed
    show "cells d \<inter> cells e = {}" if ab: "x \<noteq> y" "interfere ?ops x y" "asg ?m x d" "asg ?m y e" for x y d e
    proof -
      have "x \<noteq> b" "y \<noteq> b" using ab nb as by auto
      then have "interfere ops x y" using ab(2) lv interfere_live by (auto simp: interfere_snoc)
      then show ?thesis using inv ab(1,3,4) as unfolding lazy_inv_def by metis
    qed
    have "charge sz al ?m = charge sz al m" by (auto simp: charge_def as fun_eq_iff)
    moreover have "charge sz al m b = 0" by (simp add: charge_def nb)
    ultimately show "hs \<le> (\<Sum>b \<leftarrow> allocs ?ops. charge sz al ?m b)" using inv by (simp add: lazy_inv_def)
  qed
qed

lemma charge_le: "0 < al \<Longrightarrow> \<forall>b. 0 \<le> sz b \<Longrightarrow> charge sz al m b \<le> sz b + al - 1"
  by (auto simp: charge_def intro: add_nonneg_pos)

lemma sum_list_grows:
  fixes f g :: "'a \<Rightarrow> int"
  shows "x \<in> set xs \<Longrightarrow> \<forall>y. g y \<ge> f y \<Longrightarrow> g x \<ge> f x + k \<Longrightarrow> sum_list (map g xs) \<ge> sum_list (map f xs) + k"
proof (induction xs)
  case (Cons y xs)
  show ?case
  proof (cases "x \<in> set xs")
    case True
    then show ?thesis using Cons.IH [OF True Cons.prems(2,3)] spec [OF Cons.prems(2), of y] by simp
  next
    case False
    then show ?thesis using Cons.prems sum_list_mono [of xs f g] by auto
  qed
qed simp

text \<open>
  Freeing a buffer: its chunk, assigned when it was allocated or now at the end of the heap,
  becomes free.
\<close>

lemma lazy_inv_free:
  assumes inv: "lazy_inv sz al ops m hs fs" and wf: "wf_ops (ops @ [OpFree b])"
    and c: "asg m b c \<and> hs' = hs \<or>
      (\<exists>d. m b = Some d \<and> offset d = kLazyAllocOffset) \<and> hs \<le> offset c \<and> hs' = chunk_end c \<and> csize c = sz b \<and>
        al dvd offset c \<and> offset c \<le> hs + al - 1"
    and fs': "free_ok fs'" "covered fs' = covered fs \<union> {hs ..< hs'} \<union> cells c" and al: "0 < al" "\<forall>b. 0 \<le> sz b"
  shows "lazy_inv sz al (ops @ [OpFree b]) (m(b \<mapsto> c)) hs' fs'"
proof -
  let ?ops = "ops @ [OpFree b]" and ?m = "m(b \<mapsto> c)"
  have lv: "live ?ops = live ops - {b}" by (rule live_snoc_free)
  have bl: "b \<in> live ops" using wf by (simp add: wf_ops_snoc op_ok_def)
  have ok: "chunk_ok sz al ops hs a d" if "m a = Some d" for a d using inv that by (simp add: lazy_inv_def)
  have hs0: "0 \<le> hs" "covered fs \<subseteq> {0..<hs}" using inv by (auto simp: lazy_inv_def)
  have cok: "chunk_ok sz al ops hs' b c" "hs \<le> hs'" "offset c \<noteq> kLazyAllocOffset"
    using c ok [of b c] hs0 al(1) spec [OF al(2), of b]
    by (auto simp: asg_def chunk_ok_def kLazyAllocOffset_def chunk_end_def)
  have as: "asg ?m a d \<longleftrightarrow> (if a = b then d = c else asg m a d)" for a d
    using cok(3) by (auto simp: asg_def)
  have below: "cells d \<subseteq> {0 ..< hs}" if "asg m a d" for a d
    using ok [of a d] that by (auto simp: asg_def chunk_ok_def cells_def)
  have apart: "cells d \<inter> cells c = {}" if "interfere ops a b" "a \<noteq> b" "asg m a d" for a d
    using c
  proof
    assume "asg m b c \<and> hs' = hs"
    then show ?thesis using inv that unfolding lazy_inv_def by blast
  qed (use below [OF that(3)] in \<open>auto simp: cells_def\<close>)
  have int: "interfere ?ops x y \<Longrightarrow> interfere ops x y" for x y
    using interfere_live by (auto simp: interfere_snoc lv)
  show ?thesis unfolding lazy_inv_def
  proof (intro conjI allI impI)
    show "0 \<le> hs'" using hs0 cok by simp
    show "dom ?m = set (allocs ?ops)" using inv bl by (auto simp: lazy_inv_def live_def)
    show "chunk_ok sz al ?ops hs' a d" if "?m a = Some d" for a d
    proof (cases "a = b")
      case True
      then show ?thesis using that cok by (auto simp: chunk_ok_def)
    next
      case False
      then show ?thesis using ok [of a d] that cok(2) by (auto simp: chunk_ok_def lv)
    qed
    have cov: "covered fs \<union> \<Union>{cells d |a d. a \<in> live ops \<and> asg m a d} = {0 ..< hs}" using inv by (simp add: lazy_inv_def)
    have sub: "cells c \<subseteq> {0 ..< hs'}" using cok by (auto simp: chunk_ok_def cells_def)
    have old: "{cells d |a d. a \<in> live ops \<and> asg m a d} \<subseteq> insert (cells c) {cells d |a d. a \<in> live ?ops \<and> asg ?m a d} "
    proof
      fix s
      assume "s \<in> {cells d |a d. a \<in> live ops \<and> asg m a d}"
      then obtain a d where ad: "s = cells d" "a \<in> live ops" "asg m a d" by blast
      show "s \<in> insert (cells c) {cells d |a d. a \<in> live ?ops \<and> asg ?m a d}"
      proof (cases "a = b")
        case True
        then have "d = c" using c ad(3) by (auto simp: asg_def)
        then show ?thesis using ad by simp
      next
        case False
        then have "a \<in> live ?ops" "asg ?m a d" using ad lv as by auto
        then show ?thesis using ad(1) by blast
      qed
    qed
    have new: "{cells d |a d. a \<in> live ?ops \<and> asg ?m a d} \<subseteq> {cells d |a d. a \<in> live ops \<and> asg m a d}"
      by (auto simp: lv as split: if_splits)
    define L where "L = \<Union>{cells d |a d. a \<in> live ops \<and> asg m a d}"
    define L' where "L' = \<Union>{cells d |a d. a \<in> live ?ops \<and> asg ?m a d}"
    have L: "covered fs \<union> L = {0 ..< hs}" "L \<subseteq> cells c \<union> L'" "L' \<subseteq> L"
      using cov Union_mono [OF old] Union_mono [OF new] by (simp_all only: L_def L'_def Union_insert)
    have split: "{0 ..< hs'} = {0 ..< hs} \<union> {hs ..< hs'}" using hs0 cok(2) by auto
    have "covered fs' \<union> L' = {0 ..< hs'}"
      unfolding fs'(2) using L sub split by blast
    then show "covered fs' \<union> \<Union>{cells d |a d. a \<in> live ?ops \<and> asg ?m a d} = {0 ..< hs'}"
      unfolding L'_def .
    show "cells d \<inter> covered fs' = {}" if "a \<in> live ?ops" "asg ?m a d" for a d
    proof -
      have a: "a \<in> live ops" "a \<noteq> b" "asg m a d" using that as lv by auto
      have "cells d \<inter> covered fs = {}" using inv a unfolding lazy_inv_def by blast
      moreover have "cells d \<inter> cells c = {}" using apart a bl interfere_live by blast
      moreover have "cells d \<inter> {hs ..< hs'} = {}" using below [OF a(3)] by fastforce
      ultimately show ?thesis unfolding fs'(2) by blast
    qed
    show "cells d \<inter> cells e = {}" if ab: "x \<noteq> y" "interfere ?ops x y" "asg ?m x d" "asg ?m y e" for x y d e
    proof -
      have i: "interfere ops x y" by (rule int [OF ab(2)])
      consider "x = b" | "y = b" | "x \<noteq> b" "y \<noteq> b" by blast
      then show ?thesis
      proof cases
        case 1
        then show ?thesis using ab as i apart [of y e] by (auto simp: interfere_sym)
      next
        case 2
        then show ?thesis using ab as i apart [of x d] by auto
      next
        case 3
        then show ?thesis using inv ab(1,3,4) as i unfolding lazy_inv_def by metis
      qed
    qed
    show "hs' \<le> (\<Sum>b \<leftarrow> allocs ?ops. charge sz al ?m b)"
      using c
    proof
      assume a: "asg m b c \<and> hs' = hs"
      then have "?m = m" by (auto simp: asg_def)
      then show ?thesis using a inv by (simp add: lazy_inv_def)
    next
      assume a: "(\<exists>d. m b = Some d \<and> offset d = kLazyAllocOffset) \<and> hs \<le> offset c \<and> hs' = chunk_end c \<and> csize c = sz b \<and>
        al dvd offset c \<and> offset c \<le> hs + al - 1"
      have "b \<in> set (allocs ops)" using bl by (simp add: live_def)
      moreover have "charge sz al ?m b \<ge> charge sz al m b + (sz b + al - 1)"
        using a cok(3) by (auto simp: charge_def asg_def)
      ultimately have "(\<Sum>b \<leftarrow> allocs ops. charge sz al ?m b) \<ge> (\<Sum>b \<leftarrow> allocs ops. charge sz al m b) + (sz b + al - 1)"
      proof (intro sum_list_grows allI)
        show "charge sz al m y \<le> charge sz al ?m y" for y
          using charge_le [of al sz m y] al as by (cases "y = b") (auto simp: charge_def)
      qed
      then show ?thesis using a inv by (simp add: lazy_inv_def chunk_end_def)
    qed
  qed (rule fs'(1))
qed

section \<open>The operations\<close>

lemma map_of_emplace: "map_of m k = None \<Longrightarrow> map_of (emplace k v m) = (map_of m)(k \<mapsto> v)"
  by (auto simp: emplace_def fun_eq_iff map_add_def split: option.splits)

lemma emplace_twice: "emplace k v (emplace k w m) = emplace k w m"
  by (auto simp: emplace_def split: option.splits)

lemma keys_emplace: "map_of m k = None \<Longrightarrow> map fst (emplace k v m) = map fst m @ [k]"
  by (simp add: emplace_def)

lemma map_of_set_mapped: "map_of (set_mapped k v m) x = (if x = k then map_option (\<lambda>_. v) (map_of m k) else map_of m x)"
  by (induction m) (auto simp: set_mapped_def)

lemma keys_set_mapped [simp]: "map fst (set_mapped k v m) = map fst m"
  by (induction m) (auto simp: set_mapped_def)

definition lazy_state :: "(buffer \<Rightarrow> int) \<Rightarrow> int \<Rightarrow> heap_op list \<Rightarrow> lazy_heap \<Rightarrow> bool" where
  "lazy_state sz al ops h \<longleftrightarrow> alignment h = al \<and> map fst (chunk_map (lb_result h)) = allocs ops \<and>
     lazy_inv sz al ops (map_of (chunk_map (lb_result h))) (heap_size (lb_result h)) (free_set h)"

lemma best_fitD:
  assumes "best_fit al sz fs = Some c"
  shows "c \<in> set fs" "RoundUpToNearest (offset c) al + sz \<le> chunk_end c"
  using assms unfolding best_fit_def by (auto simp: find_Some_iff dest!: nth_mem set_dropWhileD)

lemma best_fit_NoneD:
  assumes "best_fit al sz fs = None" "c \<in> set fs" "0 \<le> offset c" "0 < al"
  shows "chunk_end c < RoundUpToNearest (offset c) al + sz"
proof (cases "OrderChunkByIncreasingSize c (Chunk 0 sz)")
  case True
  then have "csize c < sz" using assms(3) by (auto simp: OrderChunkByIncreasingSize_def split: if_splits)
  then show ?thesis using RoundUpToNearest_props(1) [OF assms(3,4)] by (simp add: chunk_end_def)
next
  case False
  then have "c \<in> set (dropWhile (\<lambda>c. OrderChunkByIncreasingSize c (Chunk 0 sz)) fs)"
    using assms(2) by (induction fs) auto
  then show ?thesis using assms(1) unfolding best_fit_def by (auto simp: find_None_iff)
qed

lemma free_within:
  assumes "lazy_inv sz al ops m hs fs" "c \<in> set fs"
  shows "0 \<le> offset c" "chunk_end c \<le> hs" "0 < csize c"
proof -
  show p: "0 < csize c" using assms by (simp add: lazy_inv_def free_ok_def)
  have "cells c \<subseteq> {0 ..< hs}" using assms by (auto simp: lazy_inv_def covered_def)
  moreover have "offset c \<in> cells c" "chunk_end c - 1 \<in> cells c" using p by (auto simp: cells_def chunk_end_def)
  ultimately show "0 \<le> offset c" "chunk_end c \<le> hs" by auto
qed

text \<open>Taking a part \<open>[o, e)\<close> out of a free chunk.\<close>

lemma carve:
  assumes "free_ok fs" "c \<in> set fs" "offset c \<le> o1" "o1 \<le> e1" "e1 \<le> chunk_end c"
  shows "free_ok (AddFreeChunk e1 (chunk_end c - e1) (AddFreeChunk (offset c) (o1 - offset c) (remove1 c fs)))"
    "covered (AddFreeChunk e1 (chunk_end c - e1) (AddFreeChunk (offset c) (o1 - offset c) (remove1 c fs))) =
      covered fs - {o1 ..< e1}"
proof -
  note r = free_ok_remove [OF assms(1,2)]
  have c: "cells c = {offset c ..< chunk_end c}" by (simp add: cells_def)
  let ?f = "AddFreeChunk (offset c) (o1 - offset c) (remove1 c fs)"
  have f: "free_ok ?f" "covered ?f = covered fs - cells c \<union> {offset c ..< o1}"
  proof -
    have d: "{offset c ..< offset c + (o1 - offset c)} \<inter> covered (remove1 c fs) = {}" using r c assms(4,5) by fastforce
    show "free_ok ?f" "covered ?f = covered fs - cells c \<union> {offset c ..< o1}"
      using free_ok_AddFreeChunk [OF conjunct1 [OF r] d] r by simp_all
  qed
  have g: "free_ok (AddFreeChunk e1 (chunk_end c - e1) ?f) \<and>
      covered (AddFreeChunk e1 (chunk_end c - e1) ?f) = covered ?f \<union> {e1 ..< e1 + (chunk_end c - e1)}"
  proof (rule free_ok_AddFreeChunk [OF f(1)])
    show "{e1 ..< e1 + (chunk_end c - e1)} \<inter> covered ?f = {}" unfolding f(2) c using assms(3-5) by fastforce
  qed
  show "free_ok (AddFreeChunk e1 (chunk_end c - e1) ?f)" using g ..
  have "covered (AddFreeChunk e1 (chunk_end c - e1) ?f) = covered fs - cells c \<union> {offset c ..< o1} \<union> {e1 ..< chunk_end c}"
    using g f(2) by simp
  also have "\<dots> = covered fs - {o1 ..< e1}" using r assms(3-5) unfolding c by fastforce
  finally show "covered (AddFreeChunk e1 (chunk_end c - e1) ?f) = covered fs - {o1 ..< e1}" .
qed

lemma lazy_Alloc_ok:
  assumes st: "lazy_state sz al ops h" and wf: "wf_ops (ops @ [OpAlloc b])" and al: "0 < al" and nn: "\<forall>b. 0 \<le> sz b"
  shows "\<exists>h'. lazy_Alloc h b (sz b) = Some h' \<and> lazy_state sz al (ops @ [OpAlloc b]) h'"
proof -
  let ?cm = "chunk_map (lb_result h)" and ?hs = "heap_size (lb_result h)" and ?fs = "free_set h"
  have inv: "lazy_inv sz al ops (map_of ?cm) ?hs ?fs" and ha: "alignment h = al" and keys: "map fst ?cm = allocs ops"
    using st by (auto simp: lazy_state_def)
  have fok: "free_ok ?fs" "0 \<le> ?hs" and cov: "covered ?fs \<subseteq> {0 ..< ?hs}" using inv by (auto simp: lazy_inv_def)
  have "b \<notin> set (allocs ops)" using wf by (auto simp: wf_ops_snoc op_ok_def)
  then have none: "map_of ?cm b = None" using keys by (metis map_of_eq_None_iff set_map)
  define r where "r = (if sz b = 0 then (lb_result h)\<lparr>chunk_map := emplace b (Chunk 0 0) ?cm\<rparr> else lb_result h)"
  define z where "z = (\<lambda>c. if sz b = 0 then Chunk 0 0 else c)"
  have r: "emplace b c (chunk_map r) = emplace b (z c) ?cm" "heap_size r = ?hs" for c
    by (auto simp: r_def z_def emplace_twice)
  have fin: "lazy_state sz al (ops @ [OpAlloc b]) (h\<lparr>lb_result := r\<lparr>chunk_map := emplace b c (chunk_map r), heap_size := hs'\<rparr>, free_set := fs'\<rparr>)"
    if "lazy_inv sz al (ops @ [OpAlloc b]) ((map_of ?cm)(b \<mapsto> z c)) hs' fs'" for c hs' fs'
    using that keys ha by (simp add: lazy_state_def r map_of_emplace [OF none] keys_emplace [OF none])
  have same: "r\<lparr>chunk_map := x, heap_size := ?hs\<rparr> = r\<lparr>chunk_map := x\<rparr>" for x using r(2) by simp
  show ?thesis
  proof (cases "best_fit al (sz b) ?fs")
    case (Some c)
    let ?o = "RoundUpToNearest (offset c) al"
    note c = best_fitD [OF Some]
    note w = free_within [OF inv c(1)]
    note o = RoundUpToNearest_props [OF w(1) al]
    note k = carve [OF fok(1) c(1) o(1), of "?o + sz b"]
    have cz: "cells (z (Chunk ?o (sz b))) = {?o ..< ?o + sz b}" by (auto simp: z_def cells_def chunk_end_def)
    have sub: "{?o ..< ?o + sz b} \<subseteq> covered ?fs"
      using c o(1) by (force simp: covered_def cells_def)
    have "lazy_inv sz al (ops @ [OpAlloc b]) ((map_of ?cm)(b \<mapsto> z (Chunk ?o (sz b)))) ?hs
        (AddFreeChunk (?o + sz b) (chunk_end c - (?o + sz b)) (AddFreeChunk (offset c) (?o - offset c) (remove1 c ?fs)))"
    proof (rule lazy_inv_alloc [OF inv wf])
      show "chunk_end (z (Chunk ?o (sz b))) \<le> ?hs" using w c(2) fok(2) by (auto simp: z_def chunk_end_def)
    qed (use k sub cz o w c nn al fok in \<open>auto simp: z_def\<close>)
    from fin [OF this, unfolded same] show ?thesis
      using Some ha unfolding lazy_Alloc_def r_def [symmetric] by (simp add: Let_def)
  next
    case None
    show ?thesis
    proof (cases "last_fit al ?hs ?fs")
      case (Some c)
      let ?o = "RoundUpToNearest (offset c) al"
      have c: "c \<in> set ?fs" "chunk_end c = ?hs" "?o < chunk_end c"
        using Some unfolding last_fit_def by (auto simp: find_Some_iff split: option.splits if_splits)
      note w = free_within [OF inv c(1)]
      note o = RoundUpToNearest_props [OF w(1) al]
      have big: "?hs < ?o + sz b" using best_fit_NoneD [OF None c(1) w(1) al] c(2) by simp
      then have pos: "0 < sz b" using c by simp
      note k = carve [OF fok(1) c(1) o(1), of "chunk_end c"]
      have cz: "z (Chunk ?o (sz b)) = Chunk ?o (sz b)" using pos by (simp add: z_def)
      have cc: "cells (Chunk ?o (sz b)) = {?o ..< ?o + sz b}" by (simp add: cells_def chunk_end_def)
      have "{?o ..< ?hs} \<subseteq> covered ?fs" using c o(1) by (force simp: covered_def cells_def)
      then have sub: "{?o ..< ?o + sz b} \<subseteq> covered ?fs \<union> {?hs ..< ?o + sz b}" by fastforce
      have cv: "covered ?fs - {?o ..< ?hs} = covered ?fs \<union> {?hs ..< ?o + sz b} - {?o ..< ?o + sz b}"
        using cov c(2,3) big by fastforce
      have "lazy_inv sz al (ops @ [OpAlloc b]) ((map_of ?cm)(b \<mapsto> z (Chunk ?o (sz b)))) (?o + sz b)
          (AddFreeChunk (offset c) (?o - offset c) (remove1 c ?fs))"
        unfolding cz
      proof (rule lazy_inv_alloc [OF inv wf])
        show "free_ok (AddFreeChunk (offset c) (?o - offset c) (remove1 c ?fs))"
          using k(1) c by (simp add: AddFreeChunk_def)
        show "covered (AddFreeChunk (offset c) (?o - offset c) (remove1 c ?fs)) =
            covered ?fs \<union> {?hs ..< ?o + sz b} - cells (Chunk ?o (sz b))"
          using k(2) c cv cc by (simp add: AddFreeChunk_def)
      qed (use sub cc o w c big al in \<open>auto simp: chunk_end_def\<close>)
      from fin [OF this] show ?thesis
        using Some None ha big c unfolding lazy_Alloc_def r_def [symmetric] by (simp add: Let_def r)
    next
      case no: None
      have "lazy_inv sz al (ops @ [OpAlloc b]) ((map_of ?cm)(b \<mapsto> z (Chunk kLazyAllocOffset (sz b)))) ?hs ?fs"
      proof (cases "sz b = 0")
        case True
        then show ?thesis using lazy_inv_alloc [OF inv wf, of "Chunk 0 0" ?hs ?fs] fok al
          by (simp add: z_def cells_def chunk_end_def)
      next
        case False
        then have "0 < sz b" using nn by (metis order_le_less)
        then show ?thesis using lazy_inv_defer [OF inv wf] by (simp add: z_def)
      qed
      from fin [OF this, unfolded same] show ?thesis
        using no None ha unfolding lazy_Alloc_def r_def [symmetric] by (simp add: Let_def r)
    qed
  qed
qed

lemma lazy_Free_ok:
  assumes st: "lazy_state sz al ops h" and wf: "wf_ops (ops @ [OpFree b])" and al: "0 < al" and nn: "\<forall>b. 0 \<le> sz b"
  shows "\<exists>h'. lazy_Free h b (sz b) = Some h' \<and> lazy_state sz al (ops @ [OpFree b]) h'"
proof -
  let ?cm = "chunk_map (lb_result h)" and ?hs = "heap_size (lb_result h)" and ?fs = "free_set h"
  have inv: "lazy_inv sz al ops (map_of ?cm) ?hs ?fs" and ha: "alignment h = al" and keys: "map fst ?cm = allocs ops"
    using st by (auto simp: lazy_state_def)
  have fok: "free_ok ?fs" "0 \<le> ?hs" and cov: "covered ?fs \<subseteq> {0 ..< ?hs}" using inv by (auto simp: lazy_inv_def)
  have bl: "b \<in> live ops" using wf by (auto simp: wf_ops_snoc op_ok_def)
  then have "b \<in> dom (map_of ?cm)" using inv by (simp add: lazy_inv_def live_def)
  then obtain c where c: "map_of ?cm b = Some c" by auto
  have ok: "chunk_ok sz al ops ?hs b c" using inv c by (simp add: lazy_inv_def)
  show ?thesis
  proof (cases "offset c = kLazyAllocOffset")
    case False
    then have as: "asg (map_of ?cm) b c" using c by (simp add: asg_def)
    then have "cells c \<inter> covered ?fs = {}" using inv bl unfolding lazy_inv_def by blast
    then have "{offset c ..< offset c + csize c} \<inter> covered ?fs = {}" by (simp add: cells_def chunk_end_def)
    note a = free_ok_AddFreeChunk [OF fok(1) this]
    have "lazy_inv sz al (ops @ [OpFree b]) ((map_of ?cm)(b \<mapsto> c)) ?hs (AddFreeChunk (offset c) (csize c) ?fs)"
      by (rule lazy_inv_free [OF inv wf]) (use as a al nn in \<open>auto simp: cells_def chunk_end_def\<close>)
    moreover have "(map_of ?cm)(b \<mapsto> c) = map_of ?cm" using c by auto
    ultimately show ?thesis using False c ok keys ha
      by (simp add: lazy_Free_def lazy_state_def chunk_ok_def)
  next
    case True
    let ?o = "RoundUpToNearest ?hs al"
    let ?c = "Chunk ?o (sz b)"
    note o = RoundUpToNearest_props [OF fok(2) al]
    have pos: "0 < sz b" "csize c = sz b" using ok True by (auto simp: chunk_ok_def)
    have "{?hs ..< ?hs + (?o + sz b - ?hs)} \<inter> covered ?fs = {}" using cov by fastforce
    note a = free_ok_AddFreeChunk [OF fok(1) this]
    have l: "lazy_inv sz al (ops @ [OpFree b]) ((map_of ?cm)(b \<mapsto> ?c)) (?o + sz b) (AddFreeChunk ?hs (?o + sz b - ?hs) ?fs)"
    proof (rule lazy_inv_free [OF inv wf])
      show "covered (AddFreeChunk ?hs (?o + sz b - ?hs) ?fs) = covered ?fs \<union> {?hs ..< ?o + sz b} \<union> cells ?c"
      proof -
        have "cells ?c \<subseteq> {?hs ..< ?o + sz b}" using o(1) by (simp add: cells_def chunk_end_def)
        then show ?thesis using a by (simp add: Un_assoc Un_absorb2)
      qed
    qed (use a True c al nn o in \<open>auto simp: chunk_end_def\<close>)
    have u: "c\<lparr>offset := ?o\<rparr> = ?c" using pos by simp
    have "map_of (set_mapped b ?c ?cm) = (map_of ?cm)(b \<mapsto> ?c)" using c by (auto simp: map_of_set_mapped fun_eq_iff)
    then show ?thesis using l True c pos keys ha o
      unfolding lazy_Free_def Let_def by (simp add: lazy_state_def u chunk_end_def)
  qed
qed

lemma lazy_state_init: "lazy_state sz al [] (new_lazy al)"
  by (simp add: lazy_state_def new_lazy_def new_Result_def lazy_inv_def free_ok_def live_def asg_def)

lemma lazy_run_ok:
  assumes "wf_ops ops" "0 < al" "\<forall>b. 0 \<le> sz b"
  shows "\<exists>h. run_ops lazy_Alloc lazy_Free sz ops (new_lazy al) = Some h \<and> lazy_state sz al ops h"
  using assms(1)
proof (induction ops rule: rev_induct)
  case (snoc x ops)
  then obtain h where h: "run_ops lazy_Alloc lazy_Free sz ops (new_lazy al) = Some h" "lazy_state sz al ops h"
    by (auto simp: wf_ops_snoc)
  show ?case
  proof (cases x)
    case (OpAlloc b)
    then show ?thesis using lazy_Alloc_ok [OF h(2) _ assms(2,3), of b] snoc.prems h(1) by (auto simp: run_ops_append)
  next
    case (OpFree b)
    then show ?thesis using lazy_Free_ok [OF h(2) _ assms(2,3), of b] snoc.prems h(1) by (auto simp: run_ops_append)
  qed
qed (simp add: lazy_state_init)

lemma wf_distinct_allocs: "wf_ops ops \<Longrightarrow> distinct (allocs ops)"
proof (induction ops rule: rev_induct)
  case (snoc x ops)
  then show ?case by (cases x) (auto simp: wf_ops_snoc op_ok_def)
qed simp

lemma lazy_packed:
  assumes st: "lazy_state sz al ops h" and wf: "wf_ops ops" "live ops = {}" and al: "0 < al" "\<forall>b. 0 \<le> sz b"
  shows "lazy_Finish h = Some (lb_result h)" "packed sz al ops (lb_result h)"
proof -
  let ?r = "lb_result h"
  let ?m = "map_of (chunk_map ?r)"
  have inv: "lazy_inv sz al ops ?m (heap_size ?r) (free_set h)" and keys: "map fst (chunk_map ?r) = allocs ops"
    using st by (auto simp: lazy_state_def)
  have dist: "distinct (map fst (chunk_map ?r))" using wf_distinct_allocs [OF wf(1)] keys by simp
  have ok: "csize c = sz b \<and> offset c \<noteq> kLazyAllocOffset \<and> 0 \<le> offset c \<and> al dvd offset c \<and> chunk_end c \<le> heap_size ?r"
    if "?m b = Some c" for b c
    using inv that wf(2) by (auto simp: lazy_inv_def chunk_ok_def split: if_splits)
  have "free_ok (free_set h)" "covered (free_set h) = {0 ..< heap_size ?r}" using inv wf(2) by (simp_all add: lazy_inv_def)
  then have "free_set h \<noteq> [] \<Longrightarrow> free_set h = [Chunk 0 (heap_size ?r)]" by (rule free_ok_single)
  then show "lazy_Finish h = Some ?r" by (cases "free_set h") (auto simp: lazy_Finish_def)
  have mem: "(b, c) \<in> set (chunk_map ?r) \<longleftrightarrow> ?m b = Some c" for b c using dist by simp
  have *: "chunks_disjoint c d \<or> csize c = 0 \<or> csize d = 0"
    if m: "?m a = Some c" "?m b = Some d" "a \<noteq> b" "interfere ops a b" for a b c d
  proof -
    have "asg ?m a c" "asg ?m b d" using m ok by (simp_all add: asg_def)
    then have "cells c \<inter> cells d = {}" using inv m(3,4) unfolding lazy_inv_def by blast
    moreover have "0 \<le> csize c" "0 \<le> csize d" using ok m al by simp_all
    ultimately show ?thesis using cells_disjoint_iff [of c d] by fastforce
  qed
  have size: "heap_size ?r \<le> (\<Sum>b \<leftarrow> allocs ops. sz b + al - 1)"
  proof -
    have "(\<Sum>b \<leftarrow> allocs ops. charge sz al ?m b) \<le> (\<Sum>b \<leftarrow> allocs ops. sz b + al - 1)"
      using charge_le [OF al] by (intro sum_list_mono) simp
    then show ?thesis using inv by (simp add: lazy_inv_def)
  qed
  show "packed sz al ops ?r"
    unfolding packed_def
  proof (intro conjI ballI)
    show "set (map fst (chunk_map ?r)) = set (allocs ops)" using keys by simp
    show "distinct (map fst (chunk_map ?r))" by (rule dist)
    show "0 \<le> heap_size ?r" using inv by (simp add: lazy_inv_def)
    fix p assume p: "p \<in> set (chunk_map ?r)"
    obtain b c where bc: "p = (b, c)" by fastforce
    have m: "?m b = Some c" using p mem by (simp add: bc)
    show "case p of (b, c) \<Rightarrow> csize c = sz b \<and> 0 \<le> offset c \<and> al dvd offset c \<and> chunk_end c \<le> heap_size ?r"
      using ok [OF m] by (simp add: bc)
    have "\<forall>(a, d) \<in> set (chunk_map ?r). b \<noteq> a \<longrightarrow> interfere ops b a \<longrightarrow> chunks_disjoint c d \<or> csize c = 0 \<or> csize d = 0"
      using * [OF m] mem by auto
    then show "case p of (a, c) \<Rightarrow> \<forall>(b, d) \<in> set (chunk_map ?r).
        a \<noteq> b \<longrightarrow> interfere ops a b \<longrightarrow> chunks_disjoint c d \<or> csize c = 0 \<or> csize d = 0"
      by (simp add: bc)
  qed (rule size)
qed

theorem lazy_best_fit_packs:
  assumes "0 < al"
  shows "heap_algorithm lazy_Alloc lazy_Free lazy_Finish (new_lazy al) al"
proof
  show "\<exists>h r. run_ops lazy_Alloc lazy_Free size_fn ops (new_lazy al) = Some h \<and> lazy_Finish h = Some r \<and> packed size_fn al ops r"
    if "\<forall>b. 0 \<le> size_fn b" "wf_ops ops" "live ops = {}" for size_fn ops
    using lazy_run_ok [OF that(2) assms that(1)] lazy_packed [OF _ that(2,3) assms that(1)] by blast
qed (rule assms)

end
