(* ===== verification/HeapRuns.thy ===== *)
theory HeapRuns
  imports HeapLazy "HOL-Library.Multiset"
begin

text \<open>
  \<open>DecreasingSizeRunsHeap\<close> keeps the contract of the algorithm it delegates to: reordering
  the calls within a run of allocations or a run of frees leaves the sequence well formed and
  loses no interference. The composition that buffer assignment uses is an instance of
  \<open>heap_algorithm\<close>.
\<close>

section \<open>Runs of calls of one kind\<close>

lemma wf_ops_alloc_run:
  "wf_ops (ops @ map OpAlloc bs) \<longleftrightarrow> wf_ops ops \<and> distinct bs \<and> set bs \<inter> set (allocs ops) = {}"
proof (induction bs rule: rev_induct)
  case (snoc b bs)
  have "wf_ops (ops @ map OpAlloc (bs @ [b])) \<longleftrightarrow> wf_ops (ops @ map OpAlloc bs) \<and> b \<notin> set (allocs ops) \<union> set bs"
    using wf_ops_snoc [of "ops @ map OpAlloc bs" "OpAlloc b"] by (simp add: op_ok_def)
  then show ?case using snoc by auto
qed simp

lemma live_alloc_run: "wf_ops (ops @ map OpAlloc bs) \<Longrightarrow> live (ops @ map OpAlloc bs) = live ops \<union> set bs"
  using wf_frees [of ops] by (auto simp: live_def wf_ops_alloc_run)

lemma live_free_run: "live (ops @ map OpFree bs) = live ops - set bs"
  by (auto simp: live_def)

lemma wf_ops_free_run:
  "wf_ops (ops @ map OpFree bs) \<longleftrightarrow> wf_ops ops \<and> distinct bs \<and> set bs \<subseteq> live ops"
proof (induction bs rule: rev_induct)
  case (snoc b bs)
  have "wf_ops (ops @ map OpFree (bs @ [b])) \<longleftrightarrow> wf_ops (ops @ map OpFree bs) \<and> b \<in> live ops - set bs"
    using wf_ops_snoc [of "ops @ map OpFree bs" "OpFree b"] by (simp add: op_ok_def live_free_run)
  then show ?case using snoc by auto
qed simp

lemma interfere_alloc_run:
  "wf_ops (ops @ map OpAlloc bs) \<Longrightarrow> interfere (ops @ map OpAlloc bs) a b \<longleftrightarrow>
     interfere ops a b \<or> a \<in> live ops \<union> set bs \<and> b \<in> live ops \<union> set bs"
proof (induction bs rule: rev_induct)
  case Nil
  then show ?case using interfere_live by auto
next
  case (snoc x bs)
  have w: "wf_ops (ops @ map OpAlloc bs)" using snoc.prems wf_ops_alloc_run [of ops "bs @ [x]"] wf_ops_alloc_run [of ops bs] by auto
  have "interfere (ops @ map OpAlloc (bs @ [x])) a b \<longleftrightarrow>
      interfere (ops @ map OpAlloc bs) a b \<or> a \<in> live ops \<union> set (bs @ [x]) \<and> b \<in> live ops \<union> set (bs @ [x])"
    using interfere_snoc [of "ops @ map OpAlloc bs" "OpAlloc x" a b] live_alloc_run [OF snoc.prems] by simp
  then show ?case using snoc.IH [OF w] by auto
qed

lemma interfere_free_run: "interfere (ops @ map OpFree bs) a b \<longleftrightarrow> interfere ops a b"
proof (induction bs rule: rev_induct)
  case (snoc x bs)
  have "interfere (ops @ map OpFree (bs @ [x])) a b \<longleftrightarrow>
      interfere (ops @ map OpFree bs) a b \<or> a \<in> live ops - set (bs @ [x]) \<and> b \<in> live ops - set (bs @ [x])"
    using interfere_snoc [of "ops @ map OpFree bs" "OpFree x" a b] live_free_run [of ops "bs @ [x]"] by simp
  then show ?case using snoc interfere_live by auto
qed simp

text \<open>Call sequences that differ by the order within runs.\<close>

definition reordered :: "heap_op list \<Rightarrow> heap_op list \<Rightarrow> bool" where
  "reordered ops ops' \<longleftrightarrow> wf_ops ops' \<and> mset (allocs ops') = mset (allocs ops) \<and> live ops' = live ops \<and>
     (\<forall>a b. interfere ops a b \<longrightarrow> interfere ops' a b)"

lemma reordered_alloc_run:
  assumes "reordered ops ops'" "wf_ops (ops @ map OpAlloc bs)" "mset bs' = mset bs"
  shows "reordered (ops @ map OpAlloc bs) (ops' @ map OpAlloc bs')"
proof -
  have s: "set bs' = set bs" "distinct bs' = distinct bs" "set (allocs ops') = set (allocs ops)"
    using assms by (metis set_mset_mset, metis mset_eq_imp_distinct_iff, metis reordered_def set_mset_mset)
  have w: "wf_ops (ops' @ map OpAlloc bs')" using assms s by (simp add: wf_ops_alloc_run reordered_def)
  show ?thesis unfolding reordered_def
    using w assms s by (simp add: live_alloc_run [OF w] live_alloc_run [OF assms(2)] interfere_alloc_run [OF w]
        interfere_alloc_run [OF assms(2)] reordered_def)
qed

lemma reordered_free_run:
  assumes "reordered ops ops'" "wf_ops (ops @ map OpFree bs)" "mset bs' = mset bs"
  shows "reordered (ops @ map OpFree bs) (ops' @ map OpFree bs')"
proof -
  have s: "set bs' = set bs" "distinct bs' = distinct bs"
    using assms by (metis set_mset_mset, metis mset_eq_imp_distinct_iff)
  then show ?thesis using assms
    by (simp add: reordered_def wf_ops_free_run live_free_run interfere_free_run)
qed

lemma reordered_packed:
  assumes "reordered ops ops'" "packed sz al ops' r"
  shows "packed sz al ops r"
proof -
  have m: "mset (allocs ops') = mset (allocs ops)" using assms(1) by (simp add: reordered_def)
  have "sum_list (map f xs) = sum_mset (image_mset f (mset xs))" for f :: "buffer \<Rightarrow> int" and xs
    by (induction xs) auto
  then have "set (allocs ops') = set (allocs ops)" "sum_list (map f (allocs ops')) = sum_list (map f (allocs ops))"
    for f :: "buffer \<Rightarrow> int" using m mset_eq_setD [OF m] by simp_all
  note eq = this
  have i: "interfere ops a b \<longrightarrow> interfere ops' a b" for a b using assms(1) by (simp add: reordered_def)
  show ?thesis using assms(2) i unfolding packed_def eq Ball_def split_paired_All case_prod_conv by blast
qed

section \<open>The wrapper\<close>

definition ops_of :: "run_mode \<Rightarrow> buffer list \<Rightarrow> heap_op list" where
  "ops_of m bs = map (if m = kAlloc then OpAlloc else OpFree) bs"

lemma call_all_run_ops:
  "call_all (if m = kAlloc then f else g) h (map (\<lambda>b. (b, sz b)) bs) = run_ops f g sz (ops_of m bs) h"
  by (induction bs arbitrary: h) (auto simp: ops_of_def split: bind_splits)

lemma reordered_run:
  "reordered ops ops' \<Longrightarrow> wf_ops (ops @ ops_of m bs) \<Longrightarrow> mset bs' = mset bs \<Longrightarrow>
     reordered (ops @ ops_of m bs) (ops' @ ops_of m bs')"
  by (auto simp: ops_of_def intro: reordered_alloc_run reordered_free_run)

lemma sort_run:
  obtains bs' where "sort_key (\<lambda>(b, s). (- s, b)) (map (\<lambda>b. (b, sz b)) bs) = map (\<lambda>b. (b, sz b :: int)) bs'" "mset bs' = mset bs"
proof
  let ?s = "sort_key (\<lambda>(b, s). (- s, b)) (map (\<lambda>b. (b, sz b)) bs)"
  have "\<forall>p \<in> set ?s. p = (fst p, sz (fst p))" by auto
  then have "map (\<lambda>p. (fst p, sz (fst p))) ?s = ?s" by (intro map_idI) auto
  then show "?s = map (\<lambda>b. (b, sz b)) (map fst ?s)" by (simp only: map_map comp_def)
  have "mset (map fst ?s) = image_mset fst (mset (map (\<lambda>b. (b, sz b)) bs))" by (simp only: mset_map mset_sort)
  then show "mset (map fst ?s) = mset bs" by (simp add: multiset.map_comp comp_def)
qed

context heap_algorithm
begin

definition runs_state :: "(buffer \<Rightarrow> int) \<Rightarrow> heap_op list \<Rightarrow> 'h runs_heap \<Rightarrow> bool" where
  "runs_state sz ops h \<longleftrightarrow> (\<exists>ops1 ops1' bs. ops = ops1 @ ops_of (mode h) bs \<and> reordered ops1 ops1' \<and>
     run_ops ha_Alloc ha_Free sz ops1' init = Some (algorithm h) \<and> run h = map (\<lambda>b. (b, sz b)) bs \<and>
     (mode h = kInit \<longrightarrow> ops1 = [] \<and> bs = []))"

lemma run_total:
  assumes "\<forall>b. 0 \<le> sz b" "wf_ops ops"
  shows "\<exists>a. run_ops ha_Alloc ha_Free sz ops init = Some a"
proof -
  have "finite (live ops)" by (simp add: live_def)
  then obtain bs where bs: "set bs = live ops" "distinct bs" using finite_distinct_list by blast
  let ?ops = "ops @ map OpFree bs"
  have "wf_ops ?ops" "live ?ops = {}" using assms(2) bs by (auto simp: wf_ops_free_run live_free_run)
  from packs [OF assms(1) this] show ?thesis by (auto simp: run_ops_append bind_eq_Some_conv)
qed

lemma drain_ok:
  assumes st: "runs_state sz ops h" and wf: "wf_ops ops" and m: "mode h \<noteq> kInit"
    and runs: "\<And>ops'. wf_ops ops' \<Longrightarrow> \<exists>a. run_ops ha_Alloc ha_Free sz ops' init = Some a"
  obtains a ops' where "CallAndDrainRun ha_Alloc ha_Free h = Some (h\<lparr>algorithm := a, run := []\<rparr>)"
    "reordered ops ops'" "run_ops ha_Alloc ha_Free sz ops' init = Some a"
proof -
  obtain ops1 ops1' bs where o: "ops = ops1 @ ops_of (mode h) bs" "reordered ops1 ops1'"
      "run_ops ha_Alloc ha_Free sz ops1' init = Some (algorithm h)" "run h = map (\<lambda>b. (b, sz b)) bs"
    using st unfolding runs_state_def by blast
  obtain bs' where bs': "sort_key (\<lambda>(b, s). (- s, b)) (map (\<lambda>b. (b, sz b)) bs) = map (\<lambda>b. (b, sz b)) bs'" "mset bs' = mset bs"
    by (rule sort_run)
  let ?ops' = "ops1' @ ops_of (mode h) bs'"
  have re: "reordered ops ?ops'" using reordered_run [OF o(2) _ bs'(2)] wf o(1) by simp
  then obtain a where a: "run_ops ha_Alloc ha_Free sz ?ops' init = Some a" using runs [of ?ops'] unfolding reordered_def by blast
  then have "run_ops ha_Alloc ha_Free sz (ops_of (mode h) bs') (algorithm h) = Some a" using o(3) by (simp add: run_ops_append)
  then have "CallAndDrainRun ha_Alloc ha_Free h = Some (h\<lparr>algorithm := a, run := []\<rparr>)"
    using m by (simp add: CallAndDrainRun_def o(4) bs'(1) call_all_run_ops)
  then show ?thesis using that re a by blast
qed

lemma SetMode_ok:
  assumes st: "runs_state sz ops h" and wf: "wf_ops ops" and m: "m \<noteq> kInit" "mode h = kInit \<Longrightarrow> m = kAlloc"
    and runs: "\<And>ops'. wf_ops ops' \<Longrightarrow> \<exists>a. run_ops ha_Alloc ha_Free sz ops' init = Some a"
  obtains h' where "SetMode ha_Alloc ha_Free h m = Some h'" "runs_state sz ops h'" "mode h' = m"
proof (cases "mode h = m")
  case True
  then show ?thesis using that st by (simp add: SetMode_def)
next
  case False
  show ?thesis
  proof (cases "mode h = kInit")
    case True
    then have "run h = []" using st by (auto simp: runs_state_def)
    then have "SetMode ha_Alloc ha_Free h m = Some (h\<lparr>mode := m\<rparr>)" using True False by (simp add: SetMode_def CallAndDrainRun_def)
    moreover have "runs_state sz ops (h\<lparr>mode := m\<rparr>)" using st True m(1) by (auto simp: runs_state_def ops_of_def)
    ultimately show ?thesis using that by fastforce
  next
    case i: False
    obtain a ops' where d: "CallAndDrainRun ha_Alloc ha_Free h = Some (h\<lparr>algorithm := a, run := []\<rparr>)"
      "reordered ops ops'" "run_ops ha_Alloc ha_Free sz ops' init = Some a"
      using drain_ok [OF st wf i runs] by blast
    let ?h = "h\<lparr>algorithm := a, run := [], mode := m\<rparr>"
    have "runs_state sz ops ?h" unfolding runs_state_def using d m(1)
      by (intro exI [of _ ops] exI [of _ ops'] exI [of _ "[]"]) (simp add: ops_of_def)
    then show ?thesis using that [of ?h] d(1) False by (simp add: SetMode_def)
  qed
qed

lemma runs_state_snoc:
  assumes "runs_state sz ops h" "mode h = m" "m \<noteq> kInit"
  shows "runs_state sz (ops @ ops_of m [b]) (h\<lparr>run := run h @ [(b, sz b)]\<rparr>)"
proof -
  obtain ops1 ops1' bs where o: "ops = ops1 @ ops_of (mode h) bs" "reordered ops1 ops1'"
      "run_ops ha_Alloc ha_Free sz ops1' init = Some (algorithm h)" "run h = map (\<lambda>b. (b, sz b)) bs"
    using assms(1) unfolding runs_state_def by blast
  show ?thesis unfolding runs_state_def
    by (intro exI [of _ ops1] exI [of _ ops1'] exI [of _ "bs @ [b]"]) (use o assms in \<open>simp add: ops_of_def\<close>)
qed

lemma runs_packs:
  assumes nn: "\<forall>b. 0 \<le> sz b" and wf: "wf_ops ops" and fin: "live ops = {}"
  shows "\<exists>h r. run_ops (runs_Alloc ha_Alloc ha_Free) (runs_Free ha_Alloc ha_Free) sz ops (new_runs init) = Some h \<and>
    runs_Finish ha_Alloc ha_Free ha_Finish h = Some r \<and> packed sz al ops r"
proof -
  note runs = run_total [OF nn]
  have "\<exists>h. run_ops (runs_Alloc ha_Alloc ha_Free) (runs_Free ha_Alloc ha_Free) sz ops (new_runs init) = Some h \<and>
      runs_state sz ops h" using wf
  proof (induction ops rule: rev_induct)
    case Nil
    have "runs_state sz [] (new_runs init)" unfolding runs_state_def
      by (intro exI [of _ "[]"]) (simp add: new_runs_def ops_of_def reordered_def)
    then show ?case by simp
  next
    case (snoc x ops)
    then obtain h where h: "run_ops (runs_Alloc ha_Alloc ha_Free) (runs_Free ha_Alloc ha_Free) sz ops (new_runs init) = Some h"
      "runs_state sz ops h" by (auto simp: wf_ops_snoc)
    have w: "wf_ops ops" "op_ok ops x" using snoc.prems by (auto simp: wf_ops_snoc)
    show ?case
    proof (cases x)
      case (OpAlloc b)
      obtain h' where "SetMode ha_Alloc ha_Free h kAlloc = Some h'" "runs_state sz ops h'" "mode h' = kAlloc"
        using SetMode_ok [OF h(2) w(1) _ _ runs, of kAlloc] by blast
      moreover from this have "runs_Alloc ha_Alloc ha_Free h b (sz b) = Some (h'\<lparr>run := run h' @ [(b, sz b)]\<rparr>)"
        by (simp add: runs_Alloc_def)
      ultimately show ?thesis using h OpAlloc runs_state_snoc [of sz ops h' kAlloc b]
        by (simp add: run_ops_append ops_of_def)
    next
      case (OpFree b)
      have i: "mode h \<noteq> kInit" using h(2) w(2) OpFree by (auto simp: runs_state_def op_ok_def live_def ops_of_def)
      obtain h' where "SetMode ha_Alloc ha_Free h kFree = Some h'" "runs_state sz ops h'" "mode h' = kFree"
        using SetMode_ok [OF h(2) w(1) _ _ runs, of kFree] i by blast
      moreover from this have "runs_Free ha_Alloc ha_Free h b (sz b) = Some (h'\<lparr>run := run h' @ [(b, sz b)]\<rparr>)"
        using i by (simp add: runs_Free_def)
      ultimately show ?thesis using h OpFree runs_state_snoc [of sz ops h' kFree b]
        by (simp add: run_ops_append ops_of_def)
    qed
  qed
  then obtain h where h: "run_ops (runs_Alloc ha_Alloc ha_Free) (runs_Free ha_Alloc ha_Free) sz ops (new_runs init) = Some h"
    "runs_state sz ops h" by blast
  have "\<exists>ops' a. CallAndDrainRun ha_Alloc ha_Free h = Some (h\<lparr>algorithm := a, run := []\<rparr>) \<and> reordered ops ops' \<and>
      run_ops ha_Alloc ha_Free sz ops' init = Some a"
  proof (cases "mode h = kInit")
    case True
    then have "ops = []" "run h = []" "\<exists>ops'. reordered [] ops' \<and> run_ops ha_Alloc ha_Free sz ops' init = Some (algorithm h)"
      using h(2) by (auto simp: runs_state_def ops_of_def)
    moreover from this have "h\<lparr>algorithm := algorithm h, run := []\<rparr> = h" by (cases h) simp
    ultimately show ?thesis using True by (metis CallAndDrainRun_def)
  next
    case False
    then show ?thesis using drain_ok [OF h(2) wf False runs] by metis
  qed
  then obtain ops' a where f: "CallAndDrainRun ha_Alloc ha_Free h = Some (h\<lparr>algorithm := a, run := []\<rparr>)"
    "reordered ops ops'" "run_ops ha_Alloc ha_Free sz ops' init = Some a" by blast
  have "wf_ops ops'" "live ops' = {}" using f(2) fin by (auto simp: reordered_def)
  from packs [OF nn this] obtain r where "ha_Finish a = Some r" "packed sz al ops' r" using f(3) by auto
  then show ?thesis using h(1) f reordered_packed by (auto simp: runs_Finish_def)
qed

lemma runs_heap_algorithm:
  "heap_algorithm (runs_Alloc ha_Alloc ha_Free) (runs_Free ha_Alloc ha_Free) (runs_Finish ha_Alloc ha_Free ha_Finish)
     (new_runs init) al"
  by unfold_locales (rule al_pos, rule runs_packs)

end

text \<open>The heap that \<open>BufferAssigner\<close> creates, for a positive alignment.\<close>

abbreviation xla_Alloc :: "lazy_heap runs_heap \<Rightarrow> buffer \<Rightarrow> int \<Rightarrow> lazy_heap runs_heap option" where
  "xla_Alloc \<equiv> runs_Alloc lazy_Alloc lazy_Free"

abbreviation xla_Free :: "lazy_heap runs_heap \<Rightarrow> buffer \<Rightarrow> int \<Rightarrow> lazy_heap runs_heap option" where
  "xla_Free \<equiv> runs_Free lazy_Alloc lazy_Free"

abbreviation xla_Finish :: "lazy_heap runs_heap \<Rightarrow> heap_result option" where
  "xla_Finish \<equiv> runs_Finish lazy_Alloc lazy_Free lazy_Finish"

locale heap_alignment =
  fixes al :: int
  assumes pos: "0 < al"

sublocale heap_alignment \<subseteq> lazy: heap_algorithm lazy_Alloc lazy_Free lazy_Finish "new_lazy al" al
  by (rule lazy_best_fit_packs [OF pos])

sublocale heap_alignment \<subseteq> xla: heap_algorithm xla_Alloc xla_Free xla_Finish "new_runs (new_lazy al)" al
  by (rule lazy.runs_heap_algorithm)

lemma xla_heap_algorithm:
  assumes "0 < al"
  shows "heap_algorithm xla_Alloc xla_Free xla_Finish (new_runs (new_lazy al)) al"
  by (rule heap_algorithm.runs_heap_algorithm [OF lazy_best_fit_packs [OF assms]])

text \<open>The alignments of the CPU and the GPU compiler.\<close>

interpretation cpu_heap: heap_alignment 16
  by unfold_locales simp

interpretation gpu_heap: heap_alignment 256
  by unfold_locales simp

end
