(* ===== verification/HeapSimulator.thy ===== *)
theory HeapSimulator
  imports HeapRuns
begin

text \<open>
  \<open>HeapSimulator\<close> of \<^verbatim>\<open>compiler/xla/service/heap_simulator.cc\<close>: allocation,
  reference-counted sharing and release of buffers over a heap algorithm, and the final
  assignment. The control blocks behind \<open>std::shared_ptr<SharedGroup>\<close> are a list indexed by
  the pointers. The names of instructions in the debug trace are left out. The lemmas here are about
  any sequence of calls that introduces every buffer once and frees it at most once; the walk over the
  instructions of a computation that issues such a sequence is in the theory \<open>HeapComputation\<close>.
\<close>

record shared_group =
  canonical :: buffer
  refcount :: int

record 'h heap_sim =
  no_fragmentation_stats :: stats_heap
  sim_algorithm :: 'h
  buffers_to_assign :: "buffer set option"
  groups :: "shared_group list"
  shared_buffers :: "(buffer \<times> nat) list"
  allocated_buffers :: "buffer set"
  freed_buffers :: "buffer set"
  sim_debug_trace :: "event list"

definition new_HeapSimulator :: "'h \<Rightarrow> buffer set option \<Rightarrow> 'h heap_sim" where
  "new_HeapSimulator a to_assign =
     \<lparr>no_fragmentation_stats = new_stats, sim_algorithm = a, buffers_to_assign = to_assign, groups = [],
      shared_buffers = [], allocated_buffers = {}, freed_buffers = {}, sim_debug_trace = []\<rparr>"

definition FillDebugTrace :: "event_kind \<Rightarrow> buffer \<Rightarrow> buffer option \<Rightarrow> 'h heap_sim \<Rightarrow> 'h heap_sim option" where
  "FillDebugTrace kind b share s =
     (if (kind = SHARE_WITH) = (share \<noteq> None)
      then Some (s\<lparr>sim_debug_trace := sim_debug_trace s @
             [\<lparr>ev_kind = kind, ev_buffer_id = b, ev_share_with_canonical_id = share\<rparr>]\<rparr>)
      else None)"

definition sim_Alloc :: "('h \<Rightarrow> buffer \<Rightarrow> int \<Rightarrow> 'h option) \<Rightarrow> (buffer \<Rightarrow> int) \<Rightarrow> 'h heap_sim \<Rightarrow> buffer \<Rightarrow> 'h heap_sim option" where
  "sim_Alloc ha_Alloc size_fn s b =
     (if b \<in> allocated_buffers s \<or> b \<in> freed_buffers s then None
      else do {
        let s = s\<lparr>allocated_buffers := insert b (allocated_buffers s)\<rparr>;
        let sz = size_fn b;
        a \<leftarrow> ha_Alloc (sim_algorithm s) b sz;
        let s = s\<lparr>sim_algorithm := a, no_fragmentation_stats := stats_Alloc (no_fragmentation_stats s) b sz\<rparr>;
        FillDebugTrace ALLOC b None s
      })"

text \<open>The part of \<open>Free\<close> after the shared groups have been looked at.\<close>

definition free_canonical :: "('h \<Rightarrow> buffer \<Rightarrow> int \<Rightarrow> 'h option) \<Rightarrow> (buffer \<Rightarrow> int) \<Rightarrow> 'h heap_sim \<Rightarrow> buffer \<Rightarrow> 'h heap_sim option" where
  "free_canonical ha_Free size_fn s b =
     (if b \<notin> allocated_buffers s \<or> b \<in> freed_buffers s then None
      else do {
        let s = s\<lparr>freed_buffers := insert b (freed_buffers s)\<rparr>;
        let sz = size_fn b;
        a \<leftarrow> ha_Free (sim_algorithm s) b sz;
        let s = s\<lparr>sim_algorithm := a, no_fragmentation_stats := stats_Free (no_fragmentation_stats s) b sz\<rparr>;
        FillDebugTrace FREE b None s
      })"

definition sim_Free :: "('h \<Rightarrow> buffer \<Rightarrow> int \<Rightarrow> 'h option) \<Rightarrow> (buffer \<Rightarrow> int) \<Rightarrow> 'h heap_sim \<Rightarrow> buffer \<Rightarrow> 'h heap_sim option" where
  "sim_Free ha_Free size_fn s b =
     (case map_of (shared_buffers s) b of
        None \<Rightarrow> free_canonical ha_Free size_fn s b
      | Some g \<Rightarrow>
          let group = (groups s ! g)\<lparr>refcount := refcount (groups s ! g) - 1\<rparr>;
              s = s\<lparr>groups := (groups s)[g := group]\<rparr>
          in if refcount group > 0 then Some s
             else if refcount group \<noteq> 0 then None
             else free_canonical ha_Free size_fn s (canonical group))"

definition ShareBuffer :: "(buffer \<Rightarrow> int) \<Rightarrow> 'h heap_sim \<Rightarrow> buffer \<Rightarrow> buffer \<Rightarrow> 'h heap_sim option" where
  "ShareBuffer size_fn s b shared =
     (if size_fn b > size_fn shared \<or> b \<in> allocated_buffers s \<or> b \<in> freed_buffers s \<or> shared \<in> freed_buffers s then None
      else case map_of (shared_buffers s) shared of
        Some g \<Rightarrow>
          let group = (groups s ! g)\<lparr>refcount := refcount (groups s ! g) + 1\<rparr>;
              s = s\<lparr>groups := (groups s)[g := group], shared_buffers := emplace b g (shared_buffers s)\<rparr>
          in FillDebugTrace SHARE_WITH b (Some (canonical group)) s
      | None \<Rightarrow>
          if shared \<notin> allocated_buffers s then None
          else
            let g = length (groups s);
                s = s\<lparr>groups := groups s @ [\<lparr>canonical = shared, refcount = 2\<rparr>],
                      shared_buffers := emplace shared g (emplace b g (shared_buffers s))\<rparr>
            in FillDebugTrace SHARE_WITH b (Some shared) s)"

text \<open>The loop of \<open>Finish\<close> over the shared buffers.\<close>

fun add_shared :: "(buffer \<Rightarrow> int) \<Rightarrow> shared_group list \<Rightarrow> (buffer \<times> nat) list \<Rightarrow>
    (buffer \<times> heap_chunk) list \<Rightarrow> (buffer \<times> heap_chunk) list option" where
  "add_shared size_fn gs [] cm = Some cm"
| "add_shared size_fn gs ((b, g) # sh) cm =
     (if b \<noteq> canonical (gs ! g) then do {
        c \<leftarrow> map_of cm (canonical (gs ! g));
        add_shared size_fn gs sh (emplace b (c\<lparr>csize := size_fn b\<rparr>) cm)
      } else add_shared size_fn gs sh cm)"

definition sim_Finish :: "('h \<Rightarrow> heap_result option) \<Rightarrow> (buffer \<Rightarrow> int) \<Rightarrow> 'h heap_sim \<Rightarrow> heap_result option" where
  "sim_Finish ha_Finish size_fn s = do {
     r \<leftarrow> ha_Finish (sim_algorithm s);
     r \<leftarrow> (if chunk_map r \<noteq> [] then do {
             cm \<leftarrow> add_shared size_fn (groups s) (shared_buffers s) (chunk_map r);
             (case buffers_to_assign s of
                None \<Rightarrow> Some (r\<lparr>chunk_map := cm\<rparr>)
              | Some bs \<Rightarrow> if card bs = length cm then Some (r\<lparr>chunk_map := cm\<rparr>) else None)
           } else Some r);
     let no_frag_result = stats_Finish (no_fragmentation_stats s);
     Some (r\<lparr>fragmentation_size := heap_size r - heap_size no_frag_result, debug_trace := sim_debug_trace s\<rparr>)
   }"

section \<open>Call sequences\<close>

datatype sim_op = SimAlloc buffer | SimShare buffer buffer | SimFree buffer

fun sim_step :: "('h \<Rightarrow> buffer \<Rightarrow> int \<Rightarrow> 'h option) \<Rightarrow> ('h \<Rightarrow> buffer \<Rightarrow> int \<Rightarrow> 'h option) \<Rightarrow> (buffer \<Rightarrow> int) \<Rightarrow>
    sim_op \<Rightarrow> 'h heap_sim \<Rightarrow> 'h heap_sim option" where
  "sim_step ha_Alloc ha_Free size_fn (SimAlloc b) s = sim_Alloc ha_Alloc size_fn s b"
| "sim_step ha_Alloc ha_Free size_fn (SimShare b shared) s = ShareBuffer size_fn s b shared"
| "sim_step ha_Alloc ha_Free size_fn (SimFree b) s = sim_Free ha_Free size_fn s b"

fun run_sim :: "('h \<Rightarrow> buffer \<Rightarrow> int \<Rightarrow> 'h option) \<Rightarrow> ('h \<Rightarrow> buffer \<Rightarrow> int \<Rightarrow> 'h option) \<Rightarrow> (buffer \<Rightarrow> int) \<Rightarrow>
    sim_op list \<Rightarrow> 'h heap_sim \<Rightarrow> 'h heap_sim option" where
  "run_sim ha_Alloc ha_Free size_fn [] s = Some s"
| "run_sim ha_Alloc ha_Free size_fn (x # xs) s =
     do { s \<leftarrow> sim_step ha_Alloc ha_Free size_fn x s; run_sim ha_Alloc ha_Free size_fn xs s }"

fun introduced :: "sim_op list \<Rightarrow> buffer list" where
  "introduced [] = []"
| "introduced (SimAlloc b # ops) = b # introduced ops"
| "introduced (SimShare b _ # ops) = b # introduced ops"
| "introduced (SimFree _ # ops) = introduced ops"

fun released :: "sim_op list \<Rightarrow> buffer list" where
  "released [] = []"
| "released (SimFree b # ops) = b # released ops"
| "released (_ # ops) = released ops"

definition slive :: "sim_op list \<Rightarrow> buffer set" where
  "slive ops = set (introduced ops) - set (released ops)"

text \<open>The buffer whose memory a buffer uses.\<close>

definition canon :: "sim_op list \<Rightarrow> buffer \<Rightarrow> buffer" where
  "canon ops = foldl (\<lambda>f x. case x of SimShare b shared \<Rightarrow> f(b := f shared) | _ \<Rightarrow> f) id ops"

definition sim_ok :: "(buffer \<Rightarrow> int) \<Rightarrow> sim_op list \<Rightarrow> sim_op \<Rightarrow> bool" where
  "sim_ok size_fn ops x = (case x of
     SimAlloc b \<Rightarrow> b \<notin> set (introduced ops)
   | SimShare b shared \<Rightarrow> b \<notin> set (introduced ops) \<and> shared \<in> slive ops \<and> size_fn b \<le> size_fn shared
   | SimFree b \<Rightarrow> b \<in> slive ops)"

definition wf_sim :: "(buffer \<Rightarrow> int) \<Rightarrow> sim_op list \<Rightarrow> bool" where
  "wf_sim size_fn ops \<longleftrightarrow> (\<forall>i < length ops. sim_ok size_fn (take i ops) (ops ! i))"

definition sinterfere :: "sim_op list \<Rightarrow> buffer \<Rightarrow> buffer \<Rightarrow> bool" where
  "sinterfere ops a b \<longleftrightarrow> (\<exists>i \<le> length ops. a \<in> slive (take i ops) \<and> b \<in> slive (take i ops))"

text \<open>
  A correct assignment: every buffer gets a chunk of its size, at the offset of the buffer it
  shares with, inside the heap, and buffers of different groups that are live at the same time
  do not overlap.
\<close>

definition assigned :: "(buffer \<Rightarrow> int) \<Rightarrow> int \<Rightarrow> sim_op list \<Rightarrow> heap_result \<Rightarrow> bool" where
  "assigned size_fn al ops r \<longleftrightarrow>
     set (map fst (chunk_map r)) = set (introduced ops) \<and> distinct (map fst (chunk_map r)) \<and>
     (\<forall>(b, c) \<in> set (chunk_map r). csize c = size_fn b \<and> 0 \<le> offset c \<and> al dvd offset c \<and> chunk_end c \<le> heap_size r) \<and>
     (\<forall>(a, c) \<in> set (chunk_map r). \<forall>(b, d) \<in> set (chunk_map r).
        if canon ops a = canon ops b then offset c = offset d
        else sinterfere ops a b \<longrightarrow> chunks_disjoint c d \<or> csize c = 0 \<or> csize d = 0) \<and>
     heap_size r \<le> (\<Sum>b \<leftarrow> introduced ops. size_fn b + al - 1)"

section \<open>Lemmas on call sequences\<close>

lemma introduced_append [simp]: "introduced (xs @ ys) = introduced xs @ introduced ys"
  by (induction xs rule: introduced.induct) auto

lemma released_append [simp]: "released (xs @ ys) = released xs @ released ys"
  by (induction xs rule: released.induct) auto

lemma run_sim_append: "run_sim f g sz (xs @ ys) s = Option.bind (run_sim f g sz xs s) (run_sim f g sz ys)"
  by (induction xs arbitrary: s) (auto split: bind_splits)

lemma wf_sim_snoc: "wf_sim sz (ops @ [x]) \<longleftrightarrow> wf_sim sz ops \<and> sim_ok sz ops x"
  by (auto simp: wf_sim_def nth_append less_Suc_eq)

lemma sinterfere_snoc:
  "sinterfere (ops @ [x]) a b \<longleftrightarrow> sinterfere ops a b \<or> a \<in> slive (ops @ [x]) \<and> b \<in> slive (ops @ [x])"
  unfolding sinterfere_def by (rule prefixes_snoc)

lemma sinterfere_introduced: "sinterfere ops a b \<Longrightarrow> a \<in> set (introduced ops) \<and> b \<in> set (introduced ops)"
proof -
  have "set (introduced (take i ops)) \<subseteq> set (introduced ops)" for i
    by (metis append_take_drop_id introduced_append set_append sup_ge1)
  then show "sinterfere ops a b \<Longrightarrow> a \<in> set (introduced ops) \<and> b \<in> set (introduced ops)"
    by (fastforce simp: sinterfere_def slive_def)
qed

lemma wf_released: "wf_sim sz ops \<Longrightarrow> set (released ops) \<subseteq> set (introduced ops)"
proof (induction ops rule: rev_induct)
  case (snoc x ops)
  then show ?case by (cases x) (auto simp: wf_sim_snoc sim_ok_def slive_def)
qed simp

lemma slive_intro:
  assumes "wf_sim sz ops" "b \<notin> set (introduced ops)"
  shows "slive (ops @ [SimAlloc b]) = insert b (slive ops)" "slive (ops @ [SimShare b s]) = insert b (slive ops)"
  using assms wf_released by (fastforce simp: slive_def)+

lemma slive_free: "slive (ops @ [SimFree b]) = slive ops - {b}"
  by (auto simp: slive_def)

lemma canon_snoc [simp]:
  "canon [] = id" "canon (ops @ [SimAlloc b]) = canon ops" "canon (ops @ [SimFree b]) = canon ops"
  "canon (ops @ [SimShare b s]) = (canon ops)(b := canon ops s)"
  by (simp_all add: canon_def)

end
