(* ===== verification/HeapSimulatorInv.thy ===== *)
theory HeapSimulatorInv
  imports HeapSimulator
begin

text \<open>
  The invariant of \<open>HeapSimulator\<close>: the calls it has passed on to the heap algorithm keep
  exactly the canonical buffers of the live ones live, and every group counts its live members.
\<close>

definition members :: "sim_op list \<Rightarrow> buffer \<Rightarrow> buffer set" where
  "members ops b = {x \<in> slive ops. canon ops x = canon ops b}"

definition canon_ok :: "(buffer \<Rightarrow> int) \<Rightarrow> sim_op list \<Rightarrow> heap_op list \<Rightarrow> bool" where
  "canon_ok sz ops eops \<longleftrightarrow>
     set (allocs eops) = {b \<in> set (introduced ops). canon ops b = b} \<and>
     (\<forall>b \<in> set (introduced ops). canon ops b \<in> set (allocs eops) \<and> sz b \<le> sz (canon ops b)) \<and>
     live eops = canon ops ` slive ops \<and>
     (\<forall>a b. sinterfere ops a b \<longrightarrow> interfere eops (canon ops a) (canon ops b))"

definition groups_ok :: "sim_op list \<Rightarrow> shared_group list \<Rightarrow> (buffer \<rightharpoonup> nat) \<Rightarrow> bool" where
  "groups_ok ops gs sh \<longleftrightarrow>
     (\<forall>b g. sh b = Some g \<longrightarrow> b \<in> set (introduced ops) \<and> g < length gs \<and> canonical (gs ! g) = canon ops b \<and>
        refcount (gs ! g) = int (card (members ops b))) \<and>
     (\<forall>a \<in> set (introduced ops). \<forall>b \<in> set (introduced ops). canon ops a = canon ops b \<longrightarrow> a \<noteq> b \<longrightarrow> sh a = sh b \<and> sh a \<noteq> None) \<and>
     (\<forall>b \<in> set (introduced ops). sh b = None \<longrightarrow> canon ops b = b)"

fun run_stats :: "(buffer \<Rightarrow> int) \<Rightarrow> heap_op list \<Rightarrow> stats_heap \<Rightarrow> stats_heap" where
  "run_stats sz [] h = h"
| "run_stats sz (OpAlloc b # ops) h = run_stats sz ops (stats_Alloc h b (sz b))"
| "run_stats sz (OpFree b # ops) h = run_stats sz ops (stats_Free h b (sz b))"

lemma run_stats_append: "run_stats sz (xs @ ys) h = run_stats sz ys (run_stats sz xs h)"
  by (induction sz xs h rule: run_stats.induct) auto

lemma finite_slive [simp]: "finite (slive ops)"
  by (simp add: slive_def)

lemma finite_members [simp]: "finite (members ops b)"
  by (simp add: members_def)

lemma groups_ok_same:
  "groups_ok ops gs sh \<Longrightarrow> a \<in> set (introduced ops) \<Longrightarrow> b \<in> set (introduced ops) \<Longrightarrow> canon ops a = canon ops b \<Longrightarrow>
     a \<noteq> b \<Longrightarrow> sh a = sh b \<and> sh a \<noteq> None"
  unfolding groups_ok_def by blast

lemma groups_ok_Some:
  "groups_ok ops gs sh \<Longrightarrow> sh b = Some g \<Longrightarrow> b \<in> set (introduced ops) \<and> g < length gs \<and>
     canonical (gs ! g) = canon ops b \<and> refcount (gs ! g) = int (card (members ops b))"
  unfolding groups_ok_def by blast

lemma groups_ok_None:
  "groups_ok ops gs sh \<Longrightarrow> b \<in> set (introduced ops) \<Longrightarrow> sh b = None \<Longrightarrow> canon ops b = b"
  unfolding groups_ok_def by blast

lemma canon_okD: "canon_ok sz ops eops \<Longrightarrow> b \<in> set (introduced ops) \<Longrightarrow> canon ops b \<in> set (allocs eops) \<and> sz b \<le> sz (canon ops b)"
  unfolding canon_ok_def by blast

lemma canon_fresh: "x \<notin> set (introduced ops) \<Longrightarrow> canon ops x = x"
proof (induction ops rule: rev_induct)
  case (snoc y ops)
  then show ?case by (cases y) auto
qed simp

lemma slive_introduced: "x \<in> slive ops \<Longrightarrow> x \<in> set (introduced ops)"
  by (simp add: slive_def)

context heap_algorithm
begin

definition sim_inv :: "(buffer \<Rightarrow> int) \<Rightarrow> sim_op list \<Rightarrow> heap_op list \<Rightarrow> 'h heap_sim \<Rightarrow> bool" where
  "sim_inv sz ops eops s \<longleftrightarrow>
     wf_ops eops \<and> run_ops ha_Alloc ha_Free sz eops init = Some (sim_algorithm s) \<and>
     no_fragmentation_stats s = run_stats sz eops new_stats \<and>
     allocated_buffers s = set (allocs eops) \<and> freed_buffers s = set (frees eops) \<and>
     canon_ok sz ops eops \<and> groups_ok ops (groups s) (map_of (shared_buffers s)) \<and>
     distinct (map fst (shared_buffers s))"

lemma sim_inv_alloc:
  assumes inv: "sim_inv sz ops eops s" and wf: "wf_sim sz (ops @ [SimAlloc b])" and nn: "\<forall>b. 0 \<le> sz b"
  shows "\<exists>s'. sim_Alloc ha_Alloc sz s b = Some s' \<and> sim_inv sz (ops @ [SimAlloc b]) (eops @ [OpAlloc b]) s' \<and>
    buffers_to_assign s' = buffers_to_assign s"
proof -
  let ?ops = "ops @ [SimAlloc b]" and ?e = "eops @ [OpAlloc b]"
  have w: "wf_sim sz ops" and nb: "b \<notin> set (introduced ops)" using wf by (auto simp: wf_sim_snoc sim_ok_def)
  have cb: "canon ops b = b" by (rule canon_fresh [OF nb])
  have ok: "canon_ok sz ops eops" "groups_ok ops (groups s) (map_of (shared_buffers s))" "wf_ops eops"
    using inv by (simp_all add: sim_inv_def)
  have nb': "b \<notin> set (allocs eops)" "b \<notin> set (frees eops)" using ok nb wf_frees [of eops] by (auto simp: canon_ok_def)
  have we: "wf_ops ?e" using ok nb' by (simp add: wf_ops_snoc op_ok_def)
  have sl: "slive ?ops = insert b (slive ops)" by (rule slive_intro(1) [OF w nb])
  have lv: "live ?e = insert b (live eops)" by (rule live_snoc_alloc [OF we])
  have nsl: "b \<notin> slive ops" using nb by (auto simp: slive_def)
  have not_b: "canon ops x \<noteq> b" if "x \<in> set (introduced ops)" for x
    using ok(1) that nb' by (auto simp: canon_ok_def)
  have c: "canon_ok sz ?ops ?e"
    unfolding canon_ok_def
  proof (intro conjI allI ballI impI)
    show "set (allocs ?e) = {b' \<in> set (introduced ?ops). canon ?ops b' = b'}"
      using ok(1) cb by (auto simp: canon_ok_def)
    show "live ?e = canon ?ops ` slive ?ops" using ok(1) cb sl lv by (simp add: canon_ok_def)
    show "interfere ?e (canon ?ops x) (canon ?ops y)" if "sinterfere ?ops x y" for x y
    proof (cases "sinterfere ops x y")
      case True
      then show ?thesis using ok(1) by (simp add: canon_ok_def interfere_snoc)
    next
      case False
      then have "x \<in> slive ?ops" "y \<in> slive ?ops" using that by (auto simp: sinterfere_snoc)
      then show ?thesis using ok(1) cb sl lv by (intro interfere_live) (auto simp: canon_ok_def)
    qed
  qed (use ok(1) cb in \<open>auto simp: canon_ok_def\<close>)
  have m: "members ?ops x = members ops x" if "x \<in> set (introduced ops)" for x
    using not_b [OF that] cb by (auto simp: members_def sl)
  have g: "groups_ok ?ops (groups s) (map_of (shared_buffers s))"
    unfolding groups_ok_def
  proof (intro conjI ballI allI impI)
    fix x g assume x: "map_of (shared_buffers s) x = Some g"
    then have xi: "x \<in> set (introduced ops)" using ok(2) by (simp add: groups_ok_def)
    then show "x \<in> set (introduced ?ops)" by simp
    show "g < length (groups s)" "canonical (groups s ! g) = canon ?ops x"
      "refcount (groups s ! g) = int (card (members ?ops x))"
      using ok(2) x m [OF xi] by (simp_all add: groups_ok_def)
  next
    fix x y assume xy: "x \<in> set (introduced ?ops)" "y \<in> set (introduced ?ops)" "canon ?ops x = canon ?ops y" "x \<noteq> y"
    have "x \<noteq> b" "y \<noteq> b" using not_b [of x] not_b [of y] cb xy by auto
    then have "map_of (shared_buffers s) x = map_of (shared_buffers s) y \<and> map_of (shared_buffers s) x \<noteq> None"
      using xy by (intro groups_ok_same [OF ok(2)]) simp_all
    then show "map_of (shared_buffers s) x = map_of (shared_buffers s) y" "map_of (shared_buffers s) x \<noteq> None"
      by blast+
  next
    fix x assume "x \<in> set (introduced ?ops)" "map_of (shared_buffers s) x = None"
    then show "canon ?ops x = x" using groups_ok_None [OF ok(2), of x] cb by (cases "x = b") simp_all
  qed
  obtain a where a: "run_ops ha_Alloc ha_Free sz ?e init = Some a" using run_total [OF nn we] by blast
  then have a': "ha_Alloc (sim_algorithm s) b (sz b) = Some a" using inv by (auto simp: sim_inv_def run_ops_append bind_eq_Some_conv)
  show ?thesis
    using inv a a' we c g nb' by (simp add: sim_Alloc_def FillDebugTrace_def sim_inv_def run_stats_append)
qed

lemma free_canonical_ok:
  assumes inv: "sim_inv sz ops eops s" and lv: "c \<in> live eops" and nn: "\<forall>b. 0 \<le> sz b"
  shows "\<exists>s'. free_canonical ha_Free sz s c = Some s' \<and> wf_ops (eops @ [OpFree c]) \<and>
    run_ops ha_Alloc ha_Free sz (eops @ [OpFree c]) init = Some (sim_algorithm s') \<and>
    no_fragmentation_stats s' = run_stats sz (eops @ [OpFree c]) new_stats \<and>
    allocated_buffers s' = set (allocs eops) \<and> freed_buffers s' = insert c (set (frees eops)) \<and>
    groups s' = groups s \<and> shared_buffers s' = shared_buffers s \<and> buffers_to_assign s' = buffers_to_assign s"
proof -
  have we: "wf_ops (eops @ [OpFree c])" using inv lv by (simp add: sim_inv_def wf_ops_snoc op_ok_def)
  obtain a where a: "run_ops ha_Alloc ha_Free sz (eops @ [OpFree c]) init = Some a" using run_total [OF nn we] by blast
  then have "ha_Free (sim_algorithm s) c (sz c) = Some a" using inv by (auto simp: sim_inv_def run_ops_append bind_eq_Some_conv)
  then show ?thesis using inv a we lv
    by (simp add: free_canonical_def FillDebugTrace_def sim_inv_def run_stats_append live_def)
qed

end

text \<open>How freeing a buffer changes the group it belongs to.\<close>

lemma members_free:
  "members (ops @ [SimFree b]) x = (if canon ops x = canon ops b then members ops b - {b} else members ops x)"
  by (auto simp: members_def slive_free)

lemma card_members_free:
  assumes "b \<in> slive ops"
  shows "int (card (members ops b)) = int (card (members ops b - {b})) + 1"
proof -
  have "b \<in> members ops b" using assms by (simp add: members_def)
  from card_Suc_Diff1 [OF finite_members this] show ?thesis by linarith
qed

lemma canon_image_free:
  "canon ops ` (slive ops - {b}) = (if members ops b - {b} = {} then canon ops ` slive ops - {canon ops b} else canon ops ` slive ops)"
  if "b \<in> slive ops"
proof (cases "members ops b - {b} = {}")
  case True
  then show ?thesis using that by (auto simp: members_def)
next
  case False
  then obtain y where "y \<in> slive ops" "y \<noteq> b" "canon ops y = canon ops b" by (auto simp: members_def)
  then have "canon ops b \<in> canon ops ` (slive ops - {b})" by (metis DiffI empty_iff image_eqI insert_iff)
  then have "canon ops ` (slive ops - {b}) = canon ops ` slive ops" using that by blast
  then show ?thesis using False by (simp only: if_False)
qed

lemma sinterfere_live: "x \<in> slive ops \<Longrightarrow> y \<in> slive ops \<Longrightarrow> sinterfere ops x y"
  by (auto simp: sinterfere_def intro: exI [of _ "length ops"])

lemma sinterfere_free: "sinterfere (ops @ [SimFree b]) x y \<longleftrightarrow> sinterfere ops x y"
  using sinterfere_live by (auto simp: sinterfere_snoc slive_free)

lemma canon_ok_free:
  assumes ok: "canon_ok sz ops eops" and b: "b \<in> slive ops" and we: "wf_ops eops"
    and e: "e = (if members ops b - {b} = {} then eops @ [OpFree (canon ops b)] else eops)"
  shows "canon_ok sz (ops @ [SimFree b]) e"
  unfolding canon_ok_def
proof (intro conjI allI ballI impI)
  have al: "set (allocs e) = set (allocs eops)" using e by simp
  show "set (allocs e) = {b' \<in> set (introduced (ops @ [SimFree b])). canon (ops @ [SimFree b]) b' = b'}"
    using ok al by (simp add: canon_ok_def)
  show "live e = canon (ops @ [SimFree b]) ` slive (ops @ [SimFree b])"
    using ok by (simp add: slive_free canon_image_free [OF b] e live_snoc_free canon_ok_def)
  show "interfere e (canon (ops @ [SimFree b]) x) (canon (ops @ [SimFree b]) y)"
    if "sinterfere (ops @ [SimFree b]) x y" for x y
  proof -
    have "interfere eops (canon ops x) (canon ops y)" using that ok by (simp add: sinterfere_free canon_ok_def)
    then show ?thesis by (simp add: e interfere_snoc)
  qed
  show "canon (ops @ [SimFree b]) x \<in> set (allocs e)" "sz x \<le> sz (canon (ops @ [SimFree b]) x)"
    if "x \<in> set (introduced (ops @ [SimFree b]))" for x
    using that ok unfolding al by (auto simp: canon_ok_def)
qed

text \<open>Adding a buffer to the group of another one.\<close>

lemma canon_ok_share:
  assumes ok: "canon_ok sz ops eops" and w: "wf_sim sz ops" and nb: "b \<notin> set (introduced ops)"
    and d: "d \<in> slive ops" and le: "sz b \<le> sz d"
  shows "canon_ok sz (ops @ [SimShare b d]) eops"
proof -
  let ?ops = "ops @ [SimShare b d]"
  have di: "d \<in> set (introduced ops)" "d \<noteq> b" using slive_introduced [OF d] nb by auto
  have cd: "canon ops d \<in> set (allocs eops)" "sz d \<le> sz (canon ops d)" using ok di by (auto simp: canon_ok_def)
  have ncd: "canon ops d \<noteq> b" using cd ok nb by (auto simp: canon_ok_def)
  have sl: "slive ?ops = insert b (slive ops)" by (rule slive_intro(2) [OF w nb])
  have nsl: "b \<notin> slive ops" using nb slive_introduced by blast
  have lv: "live eops = canon ?ops ` slive ?ops"
  proof -
    have "canon ?ops ` slive ?ops = insert (canon ops d) (canon ops ` slive ops)" using sl nsl by auto
    then show ?thesis using ok d by (auto simp: canon_ok_def)
  qed
  show ?thesis unfolding canon_ok_def
  proof (intro conjI allI ballI impI)
    show "live eops = canon ?ops ` slive ?ops" by (rule lv)
    show "set (allocs eops) = {b' \<in> set (introduced ?ops). canon ?ops b' = b'}" using ok ncd nb by (auto simp: canon_ok_def)
    show "canon ?ops x \<in> set (allocs eops)" "sz x \<le> sz (canon ?ops x)" if "x \<in> set (introduced ?ops)" for x
      using that ok cd le by (auto simp: canon_ok_def)
    show "interfere eops (canon ?ops x) (canon ?ops y)" if xy: "sinterfere ?ops x y" for x y
    proof (cases "sinterfere ops x y")
      case True
      then have "x \<noteq> b" "y \<noteq> b" using sinterfere_introduced [OF True] nb by auto
      then show ?thesis using True ok by (simp add: canon_ok_def)
    next
      case False
      then have "x \<in> slive ?ops" "y \<in> slive ?ops" using xy by (auto simp: sinterfere_snoc)
      then show ?thesis unfolding lv by (intro interfere_live) (auto simp: lv)
    qed
  qed
qed

lemma members_share:
  assumes w: "wf_sim sz ops" and nb: "b \<notin> set (introduced ops)" and d: "d \<in> slive ops"
    and x: "x \<in> insert b (set (introduced ops))"
  shows "members (ops @ [SimShare b d]) x =
    (if x = b \<or> canon ops x = canon ops d then insert b (members ops d) else members ops x)"
proof -
  have sl: "slive (ops @ [SimShare b d]) = insert b (slive ops)" by (rule slive_intro(2) [OF w nb])
  have nsl: "b \<notin> slive ops" "b \<noteq> d" using nb d slive_introduced by blast+
  then show ?thesis by (auto simp: members_def sl)
qed

lemma card_members_share:
  assumes "b \<notin> set (introduced ops)" shows "int (card (insert b (members ops d))) = int (card (members ops d)) + 1"
proof -
  have "b \<notin> members ops d" using assms slive_introduced by (fastforce simp: members_def)
  then show ?thesis by simp
qed

lemma groups_ok_share_old:
  assumes ok: "groups_ok ops gs sh" and w: "wf_sim sz ops" and nb: "b \<notin> set (introduced ops)" and d: "d \<in> slive ops"
    and g: "sh d = Some g"
  shows "groups_ok (ops @ [SimShare b d]) (gs[g := (gs ! g)\<lparr>refcount := refcount (gs ! g) + 1\<rparr>]) (sh(b \<mapsto> g))"
    (is "groups_ok ?ops ?gs ?sh")
  unfolding groups_ok_def
proof (intro conjI allI ballI impI)
  note go = groups_ok_Some [OF ok g]
  have di: "d \<in> set (introduced ops)" "d \<noteq> b" using slive_introduced [OF d] nb by auto
  fix x h assume x: "?sh x = Some h"
  have xi: "x \<in> insert b (set (introduced ops))" using x groups_ok_Some [OF ok, of x h] by (auto split: if_splits)
  then show "x \<in> set (introduced ?ops)" by auto
  show "h < length ?gs" using x go groups_ok_Some [OF ok, of x h] by (auto split: if_splits)
  have "canonical (?gs ! h) = canon ?ops x \<and> refcount (?gs ! h) = int (card (members ?ops x))"
  proof (cases "x = b \<or> canon ops x = canon ops d")
    case True
    have "h = g"
    proof (cases "x = b")
      case False
      then have "sh x = Some h" "x \<in> set (introduced ops)" using x xi by auto
      then show ?thesis using groups_ok_same [OF ok, of x d] di g True False by (cases "x = d") auto
    qed (use x in simp)
    then show ?thesis using True go di members_share [OF w nb d xi] card_members_share [OF nb, of d] by auto
  next
    case False
    then have sx: "sh x = Some h" using x by auto
    have "h \<noteq> g" using groups_ok_Some [OF ok sx] go False by auto
    then show ?thesis using False groups_ok_Some [OF ok sx] members_share [OF w nb d xi] by simp
  qed
  then show "canonical (?gs ! h) = canon ?ops x" "refcount (?gs ! h) = int (card (members ?ops x))" by simp_all
next
  fix x y assume xy: "x \<in> set (introduced ?ops)" "y \<in> set (introduced ?ops)" "canon ?ops x = canon ?ops y" "x \<noteq> y"
  have di: "d \<in> set (introduced ops)" using slive_introduced [OF d] .
  have same: "sh z = Some g" if "z \<in> set (introduced ops)" "canon ops z = canon ops d" for z
    using groups_ok_same [OF ok that(1) di that(2)] g by (cases "z = d") auto
  have "?sh x = ?sh y \<and> ?sh x \<noteq> None"
  proof (cases "x = b \<or> y = b")
    case True
    then show ?thesis using xy same [of x] same [of y] by auto
  next
    case False
    then have "sh x = sh y \<and> sh x \<noteq> None" using xy by (intro groups_ok_same [OF ok]) auto
    then show ?thesis using False by (metis fun_upd_apply)
  qed
  then show "?sh x = ?sh y" "?sh x \<noteq> None" by blast+
next
  fix x assume "x \<in> set (introduced ?ops)" "?sh x = None"
  then show "canon ?ops x = x" using groups_ok_None [OF ok, of x] by (auto split: if_splits)
qed

lemma groups_ok_share_new:
  assumes ok: "groups_ok ops gs sh" and w: "wf_sim sz ops" and nb: "b \<notin> set (introduced ops)" and d: "d \<in> slive ops"
    and none: "sh d = None"
  shows "groups_ok (ops @ [SimShare b d]) (gs @ [\<lparr>canonical = d, refcount = 2\<rparr>]) (sh(b \<mapsto> length gs, d \<mapsto> length gs))"
    (is "groups_ok ?ops ?gs ?sh")
proof -
  have di: "d \<in> set (introduced ops)" "d \<noteq> b" using slive_introduced [OF d] nb by auto
  have cd: "canon ops d = d" by (rule groups_ok_None [OF ok di(1) none])
  have alone: "z = d" if "z \<in> set (introduced ops)" "canon ops z = d" for z
    using groups_ok_same [OF ok that(1) di(1)] that cd none by metis
  have md: "members ops d = {d}" using d cd alone slive_introduced by (fastforce simp: members_def)
  have two: "card (insert b (members ops d)) = 2" using di md by simp
  show ?thesis unfolding groups_ok_def
  proof (intro conjI allI ballI impI)
    fix x h assume x: "?sh x = Some h"
    have xi: "x \<in> insert b (set (introduced ops))" using x groups_ok_Some [OF ok, of x h] di by (auto split: if_splits)
    then show "x \<in> set (introduced ?ops)" by auto
    show "h < length ?gs" using x groups_ok_Some [OF ok, of x h] by (auto split: if_splits)
    have "canonical (?gs ! h) = canon ?ops x \<and> refcount (?gs ! h) = int (card (members ?ops x))"
    proof (cases "x = b \<or> x = d")
      case True
      then show ?thesis using x cd di two members_share [OF w nb d xi] by auto
    next
      case False
      then have sx: "sh x = Some h" using x by (auto split: if_splits)
      note xo = groups_ok_Some [OF ok sx]
      then have "canon ops x \<noteq> canon ops d" using alone False cd by auto
      then show ?thesis using False xo members_share [OF w nb d xi] by (simp add: nth_append)
    qed
    then show "canonical (?gs ! h) = canon ?ops x" "refcount (?gs ! h) = int (card (members ?ops x))" by simp_all
  next
    fix x y assume xy: "x \<in> set (introduced ?ops)" "y \<in> set (introduced ?ops)" "canon ?ops x = canon ?ops y" "x \<noteq> y"
    have "?sh x = ?sh y \<and> ?sh x \<noteq> None"
    proof (cases "x = b \<or> y = b")
      case True
      then show ?thesis using xy alone [of x] alone [of y] cd by auto
    next
      case False
      then have s: "sh x = sh y \<and> sh x \<noteq> None" using xy by (intro groups_ok_same [OF ok]) auto
      then have "x \<noteq> d" "y \<noteq> d" using none by auto
      then show ?thesis using False s by (metis fun_upd_apply)
    qed
    then show "?sh x = ?sh y" "?sh x \<noteq> None" by blast+
  next
    fix x assume "x \<in> set (introduced ?ops)" "?sh x = None"
    then show "canon ?ops x = x" using groups_ok_None [OF ok, of x] by (auto split: if_splits)
  qed
qed

lemma groups_ok_free:
  assumes ok: "groups_ok ops gs sh" and b: "b \<in> slive ops"
    and gs': "gs' = (case sh b of None \<Rightarrow> gs | Some g \<Rightarrow> gs[g := (gs ! g)\<lparr>refcount := refcount (gs ! g) - 1\<rparr>])"
  shows "groups_ok (ops @ [SimFree b]) gs' sh"
  unfolding groups_ok_def
proof (intro conjI allI ballI impI)
  fix x h assume x: "sh x = Some h"
  note xo = groups_ok_Some [OF ok x]
  have bi: "b \<in> set (introduced ops)" by (rule slive_introduced [OF b])
  show "x \<in> set (introduced (ops @ [SimFree b]))" using xo by simp
  show "h < length gs'" using xo gs' by (auto split: option.splits)
  have "canonical (gs' ! h) = canon ops x \<and> refcount (gs' ! h) = int (card (members (ops @ [SimFree b]) x))"
  proof (cases "canon ops x = canon ops b")
    case True
    then have "sh b = Some h" using groups_ok_same [OF ok, of x b] xo bi x by (cases "x = b") auto
    then show ?thesis using True xo gs' groups_ok_Some [OF ok, of b h] card_members_free [OF b]
      by (simp add: members_free)
  next
    case False
    have "sh b \<noteq> Some h" using groups_ok_Some [OF ok, of b h] xo False by auto
    then have "gs' ! h = gs ! h" using gs' by (auto split: option.splits)
    then show ?thesis using xo False by (simp add: members_free)
  qed
  then show "canonical (gs' ! h) = canon (ops @ [SimFree b]) x" "refcount (gs' ! h) = int (card (members (ops @ [SimFree b]) x))"
    by simp_all
next
  fix x y assume "x \<in> set (introduced (ops @ [SimFree b]))" "y \<in> set (introduced (ops @ [SimFree b]))"
    "canon (ops @ [SimFree b]) x = canon (ops @ [SimFree b]) y" "x \<noteq> y"
  then have "sh x = sh y \<and> sh x \<noteq> None" by (intro groups_ok_same [OF ok]) simp_all
  then show "sh x = sh y" "sh x \<noteq> None" by blast+
next
  fix x assume "x \<in> set (introduced (ops @ [SimFree b]))" "sh x = None"
  then show "canon (ops @ [SimFree b]) x = x" using groups_ok_None [OF ok] by simp
qed

context heap_algorithm
begin

lemma sim_inv_free:
  assumes inv: "sim_inv sz ops eops s" and wf: "wf_sim sz (ops @ [SimFree b])" and nn: "\<forall>b. 0 \<le> sz b"
  shows "\<exists>s' e. sim_Free ha_Free sz s b = Some s' \<and> sim_inv sz (ops @ [SimFree b]) e s' \<and>
    buffers_to_assign s' = buffers_to_assign s"
proof -
  have b: "b \<in> slive ops" using wf by (auto simp: wf_sim_snoc sim_ok_def)
  have bi: "b \<in> set (introduced ops)" by (rule slive_introduced [OF b])
  have ok: "canon_ok sz ops eops" "groups_ok ops (groups s) (map_of (shared_buffers s))" "wf_ops eops"
    using inv by (simp_all add: sim_inv_def)
  define gs where "gs = (case map_of (shared_buffers s) b of None \<Rightarrow> groups s
    | Some g \<Rightarrow> (groups s)[g := (groups s ! g)\<lparr>refcount := refcount (groups s ! g) - 1\<rparr>])"
  let ?s = "s\<lparr>groups := gs\<rparr>"
  define e where "e = (if members ops b - {b} = {} then eops @ [OpFree (canon ops b)] else eops)"
  have c: "canon_ok sz (ops @ [SimFree b]) e" using canon_ok_free [OF ok(1) b ok(3) e_def] .
  have g: "groups_ok (ops @ [SimFree b]) gs (map_of (shared_buffers s))" using groups_ok_free [OF ok(2) b gs_def] .
  have lv: "canon ops b \<in> live eops" using ok(1) b by (simp add: canon_ok_def)
  have free: "\<exists>s'. free_canonical ha_Free sz ?s (canon ops b) = Some s' \<and> sim_inv sz (ops @ [SimFree b]) e s' \<and>
    buffers_to_assign s' = buffers_to_assign s"
    if "members ops b - {b} = {}"
  proof -
    have e_eq: "e = eops @ [OpFree (canon ops b)]" unfolding e_def using that by (rule if_P)
    from free_canonical_ok [OF inv lv nn] obtain s' where s': "free_canonical ha_Free sz s (canon ops b) = Some s'" "wf_ops e"
      "run_ops ha_Alloc ha_Free sz e init = Some (sim_algorithm s')" "no_fragmentation_stats s' = run_stats sz e new_stats"
      "allocated_buffers s' = set (allocs e)" "freed_buffers s' = set (frees e)" "shared_buffers s' = shared_buffers s"
      "groups s' = groups s" "buffers_to_assign s' = buffers_to_assign s"
      unfolding e_eq by auto
    have "free_canonical ha_Free sz ?s (canon ops b) = Some (s'\<lparr>groups := gs\<rparr>)"
      using s'(1) by (auto simp: free_canonical_def FillDebugTrace_def Let_def split: bind_splits if_splits)
    moreover have "sim_inv sz (ops @ [SimFree b]) e (s'\<lparr>groups := gs\<rparr>)" using s' c g inv by (simp add: sim_inv_def)
    ultimately show ?thesis using s'(9) by simp
  qed
  show ?thesis
  proof (cases "map_of (shared_buffers s) b")
    case None
    have cb: "canon ops b = b" using groups_ok_None [OF ok(2) bi None] .
    have "members ops b - {b} = {}"
      using groups_ok_same [OF ok(2) bi] None slive_introduced by (fastforce simp: members_def)
    moreover have "?s = s" using None by (simp add: gs_def)
    ultimately show ?thesis using free None cb by (auto simp: sim_Free_def)
  next
    case (Some h)
    note ho = groups_ok_Some [OF ok(2) Some]
    have rc: "refcount (groups s ! h) - 1 = int (card (members ops b - {b}))" using ho card_members_free [OF b] by simp
    have gs: "gs = (groups s)[h := (groups s ! h)\<lparr>refcount := refcount (groups s ! h) - 1\<rparr>]" using Some by (simp add: gs_def)
    show ?thesis
    proof (cases "members ops b - {b} = {}")
      case True
      then have "refcount (groups s ! h) - 1 = 0" using rc by (simp only: card.empty)
      then have "sim_Free ha_Free sz s b = free_canonical ha_Free sz ?s (canon ops b)"
        using Some ho by (simp add: sim_Free_def gs Let_def)
      then show ?thesis using free [OF True] by auto
    next
      case False
      then have "0 < card (members ops b - {b})" by (simp only: card_gt_0_iff finite_Diff finite_members) simp
      then have "sim_Free ha_Free sz s b = Some ?s" using Some rc by (simp add: sim_Free_def gs Let_def)
      moreover have "sim_inv sz (ops @ [SimFree b]) e ?s" using inv c g False by (simp add: sim_inv_def e_def)
      ultimately show ?thesis by auto
    qed
  qed
qed

lemma sim_inv_share:
  assumes inv: "sim_inv sz ops eops s" and wf: "wf_sim sz (ops @ [SimShare b d])"
  shows "\<exists>s'. ShareBuffer sz s b d = Some s' \<and> sim_inv sz (ops @ [SimShare b d]) eops s' \<and>
    buffers_to_assign s' = buffers_to_assign s"
proof -
  let ?ops = "ops @ [SimShare b d]" and ?sh = "map_of (shared_buffers s)"
  have w: "wf_sim sz ops" and nb: "b \<notin> set (introduced ops)" and d: "d \<in> slive ops" and le: "sz b \<le> sz d"
    using wf by (auto simp: wf_sim_snoc sim_ok_def)
  have ok: "canon_ok sz ops eops" "groups_ok ops (groups s) ?sh" "wf_ops eops" and dist: "distinct (map fst (shared_buffers s))"
    using inv by (simp_all add: sim_inv_def)
  have di: "d \<in> set (introduced ops)" "b \<noteq> d" using slive_introduced [OF d] nb by auto
  have nb': "b \<notin> set (allocs eops)" "b \<notin> set (frees eops)" using ok nb wf_frees [of eops] by (auto simp: canon_ok_def)
  have df: "d \<notin> set (frees eops)"
  proof (cases "canon ops d = d")
    case True
    then have "d \<in> live eops" using ok(1) d by (metis canon_ok_def image_eqI)
    then show ?thesis by (simp add: live_def)
  next
    case False
    then show ?thesis using ok wf_frees [of eops] by (auto simp: canon_ok_def)
  qed
  have nsh: "?sh b = None" using groups_ok_Some [OF ok(2), of b] nb by (cases "?sh b") auto
  have c: "canon_ok sz ?ops eops" by (rule canon_ok_share [OF ok(1) w nb d le])
  have pass: "allocated_buffers s = set (allocs eops)" "freed_buffers s = set (frees eops)" using inv by (simp_all add: sim_inv_def)
  show ?thesis
  proof (cases "?sh d")
    case (Some g)
    let ?gs = "(groups s)[g := (groups s ! g)\<lparr>refcount := refcount (groups s ! g) + 1\<rparr>]"
    have "groups_ok ?ops ?gs (?sh(b \<mapsto> g))" by (rule groups_ok_share_old [OF ok(2) w nb d Some])
    then show ?thesis using Some inv c nsh nb' df le dist
      by (simp add: ShareBuffer_def FillDebugTrace_def Let_def sim_inv_def map_of_emplace)
        (simp add: emplace_def map_of_eq_None_iff)
  next
    case None
    have cd: "canon ops d = d" by (rule groups_ok_None [OF ok(2) di(1) None])
    then have da: "d \<in> set (allocs eops)" using ok(1) di by (simp add: canon_ok_def)
    let ?gs = "groups s @ [\<lparr>canonical = d, refcount = 2\<rparr>]" and ?g = "length (groups s)"
    have "groups_ok ?ops ?gs (?sh(b \<mapsto> ?g, d \<mapsto> ?g))" by (rule groups_ok_share_new [OF ok(2) w nb d None])
    moreover have "map_of (emplace d ?g (emplace b ?g (shared_buffers s))) = ?sh(b \<mapsto> ?g, d \<mapsto> ?g)"
      using nsh None di by (simp add: map_of_emplace)
    moreover have "distinct (map fst (emplace d ?g (emplace b ?g (shared_buffers s))))"
      using nsh None di dist by (simp add: emplace_def map_of_eq_None_iff)
    ultimately show ?thesis using None inv c nb' df le da
      by (simp add: ShareBuffer_def FillDebugTrace_def Let_def sim_inv_def)
  qed
qed

lemma sim_run_ok:
  assumes "wf_sim sz ops" "\<forall>b. 0 \<le> sz b"
  shows "\<exists>s eops. run_sim ha_Alloc ha_Free sz ops (new_HeapSimulator init ba) = Some s \<and> sim_inv sz ops eops s \<and>
    buffers_to_assign s = ba"
  using assms(1)
proof (induction ops rule: rev_induct)
  case Nil
  have "sim_inv sz [] [] (new_HeapSimulator init ba)"
    by (simp add: sim_inv_def new_HeapSimulator_def canon_ok_def groups_ok_def slive_def live_def sinterfere_def)
  then show ?case by (auto simp: new_HeapSimulator_def)
next
  case (snoc x ops)
  then obtain s eops where s: "run_sim ha_Alloc ha_Free sz ops (new_HeapSimulator init ba) = Some s" "sim_inv sz ops eops s"
    "buffers_to_assign s = ba" by (auto simp: wf_sim_snoc)
  show ?case
  proof (cases x)
    case (SimAlloc b)
    then show ?thesis using sim_inv_alloc [OF s(2) _ assms(2), of b] snoc.prems s by (auto simp: run_sim_append)
  next
    case (SimShare b d)
    then show ?thesis using sim_inv_share [OF s(2), of b d] snoc.prems s by (auto simp: run_sim_append)
  next
    case (SimFree b)
    then show ?thesis using sim_inv_free [OF s(2) _ assms(2), of b] snoc.prems s by (auto simp: run_sim_append)
  qed
qed

end

section \<open>The assignment\<close>

lemma add_shared_spec:
  assumes "\<forall>q \<in> set sh. canonical (gs ! snd q) \<in> fst ` set cm" "distinct (map fst sh)"
    "\<forall>q \<in> set sh. fst q \<noteq> canonical (gs ! snd q) \<longrightarrow> fst q \<notin> fst ` set cm" "distinct (map fst cm)"
    "\<forall>q \<in> set sh. \<forall>q' \<in> set sh. fst q \<noteq> canonical (gs ! snd q) \<longrightarrow> canonical (gs ! snd q') \<noteq> fst q"
  shows "\<exists>cm'. add_shared sz gs sh cm = Some cm' \<and> distinct (map fst cm') \<and>
    map_of cm' = (\<lambda>x. case map_of sh x of None \<Rightarrow> map_of cm x
       | Some g \<Rightarrow> if x = canonical (gs ! g) then map_of cm x
                   else map_option (\<lambda>c. c\<lparr>csize := sz x\<rparr>) (map_of cm (canonical (gs ! g))))"
  using assms
proof (induction sh arbitrary: cm)
  case (Cons p sh)
  obtain b g where p: "p = (b, g)" by fastforce
  let ?k = "canonical (gs ! g)"
  have bsh: "map_of sh b = None" using Cons.prems(2) p by (simp add: map_of_eq_None_iff)
  show ?case
  proof (cases "b = ?k")
    case True
    have "\<forall>q \<in> set sh. canonical (gs ! snd q) \<in> fst ` set cm" "distinct (map fst sh)"
      "\<forall>q \<in> set sh. fst q \<noteq> canonical (gs ! snd q) \<longrightarrow> fst q \<notin> fst ` set cm"
      "\<forall>q \<in> set sh. \<forall>q' \<in> set sh. fst q \<noteq> canonical (gs ! snd q) \<longrightarrow> canonical (gs ! snd q') \<noteq> fst q"
      using Cons.prems(1,2,3,5) by simp_all
    from Cons.IH [OF this(1-3) Cons.prems(4) this(4)]
    obtain cm' where cm': "add_shared sz gs sh cm = Some cm'" "distinct (map fst cm')"
      "map_of cm' = (\<lambda>x. case map_of sh x of None \<Rightarrow> map_of cm x
       | Some g \<Rightarrow> if x = canonical (gs ! g) then map_of cm x
                   else map_option (\<lambda>c. c\<lparr>csize := sz x\<rparr>) (map_of cm (canonical (gs ! g))))"
      by blast
    have "map_of cm' = (\<lambda>x. case map_of (p # sh) x of None \<Rightarrow> map_of cm x
       | Some g \<Rightarrow> if x = canonical (gs ! g) then map_of cm x
                   else map_option (\<lambda>c. c\<lparr>csize := sz x\<rparr>) (map_of cm (canonical (gs ! g))))"
      using bsh p True by (auto simp: cm'(3) fun_eq_iff)
    then show ?thesis using cm' True p by auto
  next
    case False
    have "?k \<in> fst ` set cm" using Cons.prems(1) p by auto
    then obtain c where c: "map_of cm ?k = Some c" by (metis map_of_eq_None_iff not_None_eq)
    have nb: "map_of cm b = None" using Cons.prems(3) p False by (auto simp: map_of_eq_None_iff)
    let ?cm = "emplace b (c\<lparr>csize := sz b\<rparr>) cm"
    have e: "?cm = cm @ [(b, c\<lparr>csize := sz b\<rparr>)]" using nb by (simp add: emplace_def)
    have m: "map_of ?cm = (map_of cm)(b \<mapsto> c\<lparr>csize := sz b\<rparr>)" by (rule map_of_emplace [OF nb])
    have other: "canonical (gs ! g') \<noteq> b" if "(b', g') \<in> set sh" for b' g'
      using Cons.prems(5) p False that by fastforce
    have ih: "\<exists>cm'. add_shared sz gs sh ?cm = Some cm' \<and> distinct (map fst cm') \<and>
        map_of cm' = (\<lambda>x. case map_of sh x of None \<Rightarrow> map_of ?cm x
       | Some g \<Rightarrow> if x = canonical (gs ! g) then map_of ?cm x
                   else map_option (\<lambda>c. c\<lparr>csize := sz x\<rparr>) (map_of ?cm (canonical (gs ! g))))"
    proof (rule Cons.IH)
      show "\<forall>q \<in> set sh. canonical (gs ! snd q) \<in> fst ` set ?cm" using Cons.prems(1) e by auto
      show "distinct (map fst sh)" using Cons.prems(2) by simp
      have "b \<notin> fst ` set sh" using Cons.prems(2) p by auto
      then show "\<forall>q \<in> set sh. fst q \<noteq> canonical (gs ! snd q) \<longrightarrow> fst q \<notin> fst ` set ?cm"
        using Cons.prems(3) e by force
      show "distinct (map fst ?cm)" using Cons.prems(4) nb e by (simp add: map_of_eq_None_iff)
      show "\<forall>q \<in> set sh. \<forall>q' \<in> set sh. fst q \<noteq> canonical (gs ! snd q) \<longrightarrow> canonical (gs ! snd q') \<noteq> fst q"
        using Cons.prems(5) by auto
    qed
    then obtain cm' where cm': "add_shared sz gs sh ?cm = Some cm'" "distinct (map fst cm')"
      "map_of cm' = (\<lambda>x. case map_of sh x of None \<Rightarrow> map_of ?cm x
       | Some g \<Rightarrow> if x = canonical (gs ! g) then map_of ?cm x
                   else map_option (\<lambda>c. c\<lparr>csize := sz x\<rparr>) (map_of ?cm (canonical (gs ! g))))" by blast
    have "map_of cm' x = (case map_of (p # sh) x of None \<Rightarrow> map_of cm x
       | Some g \<Rightarrow> if x = canonical (gs ! g) then map_of cm x
                   else map_option (\<lambda>c. c\<lparr>csize := sz x\<rparr>) (map_of cm (canonical (gs ! g))))" for x
    proof (cases "x = b")
      case True
      then show ?thesis using p False c bsh by (simp add: cm'(3) m)
    next
      case x: False
      show ?thesis
      proof (cases "map_of sh x")
        case None
        then show ?thesis using x p by (simp add: cm'(3) m)
      next
        case (Some g')
        then have "canonical (gs ! g') \<noteq> b" using other map_of_SomeD by metis
        then show ?thesis using x p Some by (simp add: cm'(3) m)
      qed
    qed
    then show ?thesis using cm' False p c by auto
  qed
qed simp

lemma stats_current: "wf_ops ops \<Longrightarrow> current_heap_size (run_stats sz ops new_stats) = (\<Sum>b \<in> live ops. sz b)"
proof (induction ops rule: rev_induct)
  case Nil
  then show ?case by (simp add: new_stats_def live_def)
next
  case (snoc x ops)
  have w: "wf_ops ops" using snoc.prems by (simp add: wf_ops_snoc)
  show ?case
  proof (cases x)
    case (OpAlloc b)
    have "b \<notin> live ops" using snoc.prems OpAlloc by (auto simp: wf_ops_snoc op_ok_def live_def)
    then show ?thesis using snoc w OpAlloc live_snoc_alloc [of ops b]
      by (simp add: run_stats_append stats_Alloc_def Let_def live_def)
  next
    case (OpFree b)
    have "b \<in> live ops" "finite (live ops)" using snoc.prems OpFree by (auto simp: wf_ops_snoc op_ok_def live_def)
    then show ?thesis using snoc w OpFree by (simp add: run_stats_append stats_Free_def live_snoc_free sum_diff1)
  qed
qed

lemma stats_max:
  assumes "wf_ops ops" "\<forall>i \<le> length ops. (\<Sum>b \<in> live (take i ops). sz b) \<le> H"
  shows "max_heap_size (run_stats sz ops new_stats) \<le> max 0 H"
  using assms
proof (induction ops rule: rev_induct)
  case Nil
  then show ?case by (simp add: new_stats_def)
next
  case (snoc x ops)
  have w: "wf_ops ops" using snoc.prems(1) by (simp add: wf_ops_snoc)
  have pre: "\<forall>i \<le> length ops. (\<Sum>b \<in> live (take i ops). sz b) \<le> H"
  proof (intro allI impI)
    fix i assume "i \<le> length ops"
    then show "(\<Sum>b \<in> live (take i ops). sz b) \<le> H" using spec [OF snoc.prems(2), of i] by simp
  qed
  have ih: "max_heap_size (run_stats sz ops new_stats) \<le> max 0 H" by (rule snoc.IH [OF w pre])
  have cur: "current_heap_size (run_stats sz (ops @ [x]) new_stats) \<le> H"
    using stats_current [OF snoc.prems(1)] spec [OF snoc.prems(2), of "length (ops @ [x])"] by simp
  show ?case using ih cur by (cases x) (auto simp: run_stats_append stats_Alloc_def stats_Free_def Let_def)
qed

lemma packed_volume:
  assumes pk: "packed sz al ops r" and nn: "\<forall>b. 0 \<le> sz b" and i: "i \<le> length ops"
  shows "(\<Sum>b \<in> live (take i ops). sz b) \<le> heap_size r"
proof -
  let ?L = "live (take i ops)" and ?m = "map_of (chunk_map r)"
  define C where "C = (\<lambda>b. cells (the (?m b)))"
  have fin: "finite ?L" by (simp add: live_def)
  have ex: "\<exists>c. (b, c) \<in> set (chunk_map r) \<and> ?m b = Some c" if "b \<in> ?L" for b
  proof -
    have "b \<in> set (allocs ops)" using that live_take_allocs by (auto simp: live_def)
    then have "b \<in> fst ` set (chunk_map r)" using pk by (simp add: packed_def)
    then show ?thesis by (metis map_of_SomeD map_of_eq_None_iff not_None_eq)
  qed
  have ok: "csize c = sz b \<and> 0 \<le> offset c \<and> chunk_end c \<le> heap_size r" if "(b, c) \<in> set (chunk_map r)" for b c
    using pk that by (auto simp: packed_def)
  have cs: "int (card (C b)) = sz b" "C b \<subseteq> {0 ..< heap_size r}" if b: "b \<in> ?L" for b
  proof -
    obtain c where c: "(b, c) \<in> set (chunk_map r)" "?m b = Some c" using ex [OF b] by blast
    show "int (card (C b)) = sz b" "C b \<subseteq> {0 ..< heap_size r}"
      using ok [OF c(1)] c(2) nn by (auto simp: C_def cells_def chunk_end_def)
  qed
  have dis: "C a \<inter> C b = {}" if ab: "a \<in> ?L" "b \<in> ?L" "a \<noteq> b" for a b
  proof -
    obtain c d where c: "(a, c) \<in> set (chunk_map r)" "?m a = Some c" and d: "(b, d) \<in> set (chunk_map r)" "?m b = Some d"
      using ex [OF ab(1)] ex [OF ab(2)] by blast
    have "interfere ops a b" using ab i by (auto simp: interfere_def)
    then have "chunks_disjoint c d \<or> csize c = 0 \<or> csize d = 0" using pk c(1) d(1) ab(3) unfolding packed_def by blast
    then show ?thesis using c(2) d(2) by (auto simp: C_def cells_def chunks_disjoint_def chunk_end_def)
  qed
  have "(\<Sum>b \<in> ?L. sz b) = (\<Sum>b \<in> ?L. int (card (C b)))" using cs by simp
  also have "\<dots> = int (card (\<Union>b \<in> ?L. C b))"
  proof -
    have "card (\<Union>b \<in> ?L. C b) = (\<Sum>b \<in> ?L. card (C b))"
      by (rule card_UN_disjoint) (use fin dis in \<open>auto simp: C_def cells_def\<close>)
    then show ?thesis by simp
  qed
  also have "\<dots> \<le> int (card {0 ..< heap_size r})"
    using cs(2) by (intro of_nat_mono card_mono) auto
  also have "\<dots> = max 0 (heap_size r)" by simp
  finally show ?thesis using pk by (simp add: packed_def)
qed

end
