(* ===== verification/HeapSimulatorSystem.thy ===== *)
theory HeapSimulatorSystem
  imports HeapSimulatorInv
begin

text \<open>
  The heap simulator over the heap that buffer assignment uses: the assignment it returns is
  correct for every well-formed sequence of calls.
\<close>

lemma sum_list_introduced:
  fixes f :: "buffer \<Rightarrow> int"
  assumes "distinct xs" "distinct ys" "set xs \<subseteq> set ys" "\<forall>x. 0 \<le> f x"
  shows "sum_list (map f xs) \<le> sum_list (map f ys)"
  using assms by (simp add: sum_list_distinct_conv_sum_set sum_mono2)

lemma wf_distinct_introduced: "wf_sim sz ops \<Longrightarrow> distinct (introduced ops)"
proof (induction ops rule: rev_induct)
  case (snoc x ops)
  then show ?case by (cases x) (auto simp: wf_sim_snoc sim_ok_def)
qed simp

context heap_algorithm
begin

lemma final_chunks:
  assumes inv: "sim_inv sz ops eops s" and pk: "packed sz al eops r"
  shows "\<exists>cm. add_shared sz (groups s) (shared_buffers s) (chunk_map r) = Some cm \<and> distinct (map fst cm) \<and>
    (\<forall>x. map_of cm x = (if x \<in> set (introduced ops)
       then map_option (\<lambda>c. c\<lparr>csize := sz x\<rparr>) (map_of (chunk_map r) (canon ops x)) else None))"
proof -
  let ?cm = "chunk_map r" and ?sh = "shared_buffers s" and ?gs = "groups s"
  have ok: "canon_ok sz ops eops" "groups_ok ops ?gs (map_of ?sh)" "distinct (map fst ?sh)"
    using inv by (simp_all add: sim_inv_def)
  have keys: "fst ` set ?cm = set (allocs eops)" "distinct (map fst ?cm)" using pk by (simp_all add: packed_def)
  have al: "set (allocs eops) = {b \<in> set (introduced ops). canon ops b = b}" using ok(1) by (simp add: canon_ok_def)
  have q: "fst q \<in> set (introduced ops) \<and> canonical (?gs ! snd q) = canon ops (fst q)" if "q \<in> set ?sh" for q
  proof -
    have "map_of ?sh (fst q) = Some (snd q)" using that ok(3) by simp
    from groups_ok_Some [OF ok(2) this] show ?thesis by simp
  qed
  have cal: "canon ops x \<in> set (allocs eops)" if "x \<in> set (introduced ops)" for x using canon_okD [OF ok(1) that] ..
  have "\<exists>cm'. add_shared sz ?gs ?sh ?cm = Some cm' \<and> distinct (map fst cm') \<and>
    map_of cm' = (\<lambda>x. case map_of ?sh x of None \<Rightarrow> map_of ?cm x
       | Some g \<Rightarrow> if x = canonical (?gs ! g) then map_of ?cm x
                   else map_option (\<lambda>c. c\<lparr>csize := sz x\<rparr>) (map_of ?cm (canonical (?gs ! g))))"
  proof (rule add_shared_spec)
    show "\<forall>p \<in> set ?sh. canonical (?gs ! snd p) \<in> fst ` set ?cm" using q cal keys by simp
    show "\<forall>p \<in> set ?sh. fst p \<noteq> canonical (?gs ! snd p) \<longrightarrow> fst p \<notin> fst ` set ?cm" using q keys al by auto
    show "\<forall>p \<in> set ?sh. \<forall>p' \<in> set ?sh. fst p \<noteq> canonical (?gs ! snd p) \<longrightarrow> canonical (?gs ! snd p') \<noteq> fst p"
    proof (intro ballI impI notI)
      fix p p' assume p: "p \<in> set ?sh" "p' \<in> set ?sh" "fst p \<noteq> canonical (?gs ! snd p)" "canonical (?gs ! snd p') = fst p"
      then have "fst p \<in> set (allocs eops)" using q [of p'] cal by metis
      then show False using al q [OF p(1)] p(3) by simp
    qed
  qed (rule ok(3), rule keys(2))
  then obtain cm where cm: "add_shared sz ?gs ?sh ?cm = Some cm" "distinct (map fst cm)"
    "map_of cm = (\<lambda>x. case map_of ?sh x of None \<Rightarrow> map_of ?cm x
       | Some g \<Rightarrow> if x = canonical (?gs ! g) then map_of ?cm x
                   else map_option (\<lambda>c. c\<lparr>csize := sz x\<rparr>) (map_of ?cm (canonical (?gs ! g))))" by blast
  have own: "map_option (\<lambda>c. c\<lparr>csize := sz x\<rparr>) (map_of ?cm x) = map_of ?cm x" for x
  proof (cases "map_of ?cm x")
    case (Some c)
    then have "csize c = sz x" using pk map_of_SomeD [OF Some] by (auto simp: packed_def)
    then show ?thesis using Some by simp
  qed simp
  have "map_of cm x = (if x \<in> set (introduced ops)
       then map_option (\<lambda>c. c\<lparr>csize := sz x\<rparr>) (map_of ?cm (canon ops x)) else None)" for x
  proof (cases "map_of ?sh x")
    case None
    show ?thesis
    proof (cases "x \<in> set (introduced ops)")
      case True
      then show ?thesis using groups_ok_None [OF ok(2) True None] None own by (simp add: cm(3))
    next
      case False
      then have "map_of ?cm x = None" using keys(1) al by (auto simp: map_of_eq_None_iff)
      then show ?thesis using False None by (simp add: cm(3))
    qed
  next
    case (Some g)
    then show ?thesis using groups_ok_Some [OF ok(2) Some] own [of x] by (auto simp: cm(3))
  qed
  then show ?thesis using cm(1,2) by blast
qed

lemma sim_assigned:
  assumes inv: "sim_inv sz ops eops s" and pk: "packed sz al eops r" and wf: "wf_sim sz ops" and nn: "\<forall>b. 0 \<le> sz b"
    and cm: "distinct (map fst cm)" "\<forall>x. map_of cm x = (if x \<in> set (introduced ops)
       then map_option (\<lambda>c. c\<lparr>csize := sz x\<rparr>) (map_of (chunk_map r) (canon ops x)) else None)"
    and r': "chunk_map r' = cm" "heap_size r' = heap_size r"
  shows "assigned sz al ops r'"
proof -
  have ok: "canon_ok sz ops eops" using inv by (simp add: sim_inv_def)
  have keys: "fst ` set (chunk_map r) = set (allocs eops)" "distinct (map fst (chunk_map r))"
    using pk by (simp_all add: packed_def)
  have mem: "\<exists>C. (canon ops x, C) \<in> set (chunk_map r) \<and> c = C\<lparr>csize := sz x\<rparr> \<and> csize C = sz (canon ops x) \<and>
      sz x \<le> csize C \<and> x \<in> set (introduced ops)" if "(x, c) \<in> set cm" for x c
  proof -
    have "map_of cm x = Some c" using that cm(1) by simp
    then have x: "x \<in> set (introduced ops)" "map_option (\<lambda>c. c\<lparr>csize := sz x\<rparr>) (map_of (chunk_map r) (canon ops x)) = Some c"
      using cm(2) by (auto split: if_splits)
    then obtain C where C: "map_of (chunk_map r) (canon ops x) = Some C" "c = C\<lparr>csize := sz x\<rparr>" by auto
    have "csize C = sz (canon ops x)" using pk map_of_SomeD [OF C(1)] by (auto simp: packed_def)
    moreover have "sz x \<le> sz (canon ops x)" using ok x(1) by (simp add: canon_ok_def)
    ultimately show ?thesis using C map_of_SomeD [OF C(1)] x(1) by auto
  qed
  have dom: "fst ` set cm = set (introduced ops)"
  proof -
    have "map_of (chunk_map r) (canon ops x) \<noteq> None" if "x \<in> set (introduced ops)" for x
      using canon_okD [OF ok that] keys(1) by (simp add: map_of_eq_None_iff)
    then have "map_of cm x \<noteq> None \<longleftrightarrow> x \<in> set (introduced ops)" for x using cm(2) by auto
    then have "x \<in> fst ` set cm \<longleftrightarrow> x \<in> set (introduced ops)" for x using map_of_eq_None_iff [of cm x] by metis
    then show ?thesis by blast
  qed
  show ?thesis unfolding assigned_def r' Ball_def split_paired_All case_prod_conv
  proof (intro conjI allI impI)
    show "set (map fst cm) = set (introduced ops)" using dom by simp
    show "distinct (map fst cm)" by (rule cm(1))
    have "heap_size r \<le> (\<Sum>b \<leftarrow> allocs eops. sz b + al - 1)" using pk by (simp add: packed_def)
    also have "\<dots> \<le> (\<Sum>b \<leftarrow> introduced ops. sz b + al - 1)"
    proof (rule sum_list_introduced)
      show "distinct (allocs eops)" using inv wf_distinct_allocs by (simp add: sim_inv_def)
      show "set (allocs eops) \<subseteq> set (introduced ops)" using ok by (auto simp: canon_ok_def)
      show "\<forall>x. 0 \<le> sz x + al - 1" using nn al_pos by (metis add_nonneg_pos zle_diff1_eq)
    qed (rule wf_distinct_introduced [OF wf])
    finally show "heap_size r \<le> (\<Sum>b \<leftarrow> introduced ops. sz b + al - 1)" .
    show "csize c = sz x" "0 \<le> offset c" "al dvd offset c" "chunk_end c \<le> heap_size r" if x: "(x, c) \<in> set cm" for x c
    proof -
      obtain C where C: "(canon ops x, C) \<in> set (chunk_map r)" "c = C\<lparr>csize := sz x\<rparr>" "sz x \<le> csize C" using mem [OF x] by blast
      have "0 \<le> offset C \<and> al dvd offset C \<and> chunk_end C \<le> heap_size r" using pk C(1) by (auto simp: packed_def)
      then show "csize c = sz x" "0 \<le> offset c" "al dvd offset c" "chunk_end c \<le> heap_size r"
        using C(2,3) by (auto simp: chunk_end_def)
    qed
    show "if canon ops x = canon ops y then offset c = offset d
        else sinterfere ops x y \<longrightarrow> chunks_disjoint c d \<or> csize c = 0 \<or> csize d = 0"
      if xy: "(x, c) \<in> set cm" "(y, d) \<in> set cm" for x c y d
    proof -
      obtain C where C: "(canon ops x, C) \<in> set (chunk_map r)" "c = C\<lparr>csize := sz x\<rparr>" "sz x \<le> csize C" using mem [OF xy(1)] by blast
      obtain D where D: "(canon ops y, D) \<in> set (chunk_map r)" "d = D\<lparr>csize := sz y\<rparr>" "sz y \<le> csize D" using mem [OF xy(2)] by blast
      show ?thesis
      proof (cases "canon ops x = canon ops y")
        case True
        then have "C = D" using C(1) D(1) keys(2) by (metis map_of_is_SomeI option.inject)
        then show ?thesis using True C D by simp
      next
        case False
        show ?thesis
        proof (cases "sinterfere ops x y")
          case True
          then have "interfere eops (canon ops x) (canon ops y)" using ok by (simp add: canon_ok_def)
          then have "chunks_disjoint C D \<or> csize C = 0 \<or> csize D = 0" using pk C(1) D(1) False unfolding packed_def by blast
          moreover have "0 \<le> sz x" "0 \<le> sz y" using nn by simp_all
          ultimately show ?thesis using False C(2,3) D(2,3) by (auto simp: chunks_disjoint_def chunk_end_def)
        qed (use False in simp)
      qed
    qed
  qed
qed

lemma sim_assigns:
  assumes wf: "wf_sim sz ops" and fin: "slive ops = {}" and nn: "\<forall>b. 0 \<le> sz b"
    and ba: "ba = None \<or> ba = Some (set (introduced ops))"
  shows "\<exists>s r. run_sim ha_Alloc ha_Free sz ops (new_HeapSimulator init ba) = Some s \<and> sim_Finish ha_Finish sz s = Some r \<and>
    assigned sz al ops r \<and> 0 \<le> fragmentation_size r"
proof -
  obtain s eops where s: "run_sim ha_Alloc ha_Free sz ops (new_HeapSimulator init ba) = Some s" "sim_inv sz ops eops s"
    "buffers_to_assign s = ba" using sim_run_ok [OF wf nn] by blast
  have we: "wf_ops eops" "live eops = {}" using s(2) fin by (auto simp: sim_inv_def canon_ok_def)
  obtain r where r: "ha_Finish (sim_algorithm s) = Some r" "packed sz al eops r"
    using packs [OF nn we] s(2) by (auto simp: sim_inv_def)
  obtain cm where cm: "add_shared sz (groups s) (shared_buffers s) (chunk_map r) = Some cm" "distinct (map fst cm)"
    "\<forall>x. map_of cm x = (if x \<in> set (introduced ops)
       then map_option (\<lambda>c. c\<lparr>csize := sz x\<rparr>) (map_of (chunk_map r) (canon ops x)) else None)"
    using final_chunks [OF s(2) r(2)] by blast
  have "max_heap_size (no_fragmentation_stats s) \<le> max 0 (heap_size r)"
    using stats_max [OF we(1)] packed_volume [OF r(2) nn] s(2) by (simp add: sim_inv_def)
  then have frag: "max_heap_size (no_fragmentation_stats s) \<le> heap_size r" using r(2) by (simp add: packed_def)
  define fin where "fin = (\<lambda>c. r\<lparr>chunk_map := c, fragmentation_size := heap_size r - max_heap_size (no_fragmentation_stats s),
    debug_trace := sim_debug_trace s\<rparr>)"
  have as: "assigned sz al ops (fin cm)" by (rule sim_assigned [OF s(2) r(2) wf nn cm(2,3)]) (simp_all add: fin_def)
  have "sim_Finish ha_Finish sz s = Some (fin cm)"
  proof (cases "chunk_map r = []")
    case True
    then have "allocs eops = []" using r(2) by (simp add: packed_def)
    then have "introduced ops = []" using s(2) by (cases "introduced ops") (auto simp: sim_inv_def canon_ok_def)
    then have "cm = []" using as by (simp add: assigned_def fin_def)
    then show ?thesis using True r by (simp add: sim_Finish_def fin_def stats_Finish_def)
  next
    case False
    have "card (set (introduced ops)) = length cm"
    proof -
      have "set (introduced ops) = set (map fst cm)" using as by (simp add: assigned_def fin_def)
      then show ?thesis using distinct_card [OF cm(2)] by simp
    qed
    then show ?thesis using False r cm(1) s(3) ba
      by (auto simp: sim_Finish_def fin_def stats_Finish_def new_Result_def)
  qed
  then show ?thesis using s(1) as frag by (auto simp: fin_def)
qed

end

text \<open>
  C14. For every positive alignment, every size function and every sequence of \<open>Alloc\<close>,
  \<open>ShareBuffer\<close> and \<open>Free\<close> calls that introduces each buffer once, shares only with live
  buffers that are large enough and frees every buffer once, the heap simulation over
  \<open>DecreasingSizeRunsHeap(LazyBestFitHeap)\<close> fails no \<open>CHECK\<close> and returns an assignment
  in which every buffer has an aligned chunk of its size inside the heap, sharing buffers have
  the same offset, buffers live at the same time are disjoint, the heap is no larger than the
  sum of the padded sizes, and the fragmentation reported is never negative.
\<close>
theorem heap_simulation_assigns:
  assumes "0 < al" "\<forall>b. 0 \<le> size_fn b" "wf_sim size_fn ops" "slive ops = {}"
    and "ba = None \<or> ba = Some (set (introduced ops))"
  shows "\<exists>s r. run_sim xla_Alloc xla_Free size_fn ops (new_HeapSimulator (new_runs (new_lazy al)) ba) = Some s \<and>
    sim_Finish xla_Finish size_fn s = Some r \<and> assigned size_fn al ops r \<and> 0 \<le> fragmentation_size r"
  by (rule heap_algorithm.sim_assigns [OF xla_heap_algorithm [OF assms(1)] assms(3,4,2,5)])

text \<open>
  Witness: the buffer 4 of size 10 takes the memory of buffer 1, and buffer 3 reuses freed
  memory.
\<close>
definition example_sizes :: "buffer \<Rightarrow> int" where
  "example_sizes b = (if b = 1 then 20 else if b = 2 then 7 else if b = 3 then 5 else if b = 4 then 10 else 0)"

definition example_calls :: "sim_op list" where
  "example_calls = [SimAlloc 1, SimAlloc 2, SimShare 4 1, SimFree 1, SimFree 2, SimAlloc 3, SimFree 4, SimFree 3]"

lemma example_calls_ok: "wf_sim example_sizes example_calls" "slive example_calls = {}"
  by (auto simp: wf_sim_def example_calls_def example_sizes_def sim_ok_def slive_def less_Suc_eq numeral_eq_Suc)

theorem heap_simulation_assigns_witness:
  "\<exists>s r. run_sim xla_Alloc xla_Free example_sizes example_calls (new_HeapSimulator (new_runs (new_lazy 8)) None) = Some s \<and>
    sim_Finish xla_Finish example_sizes s = Some r \<and> assigned example_sizes 8 example_calls r \<and> 0 \<le> fragmentation_size r"
  by (rule heap_simulation_assigns) (simp_all add: example_calls_ok example_sizes_def)

end
