(* ===== verification/HeapComputation.thy ===== *)
theory HeapComputation
  imports HeapSimulatorSystem
begin

text \<open>
  \<open>HeapSimulator::RunComputation\<close> and \<open>Run\<close>: the walk over the instructions of a
  computation that drives the heap simulation. The computation and the results of
  \<open>TuplePointsToAnalysis\<close> it reads are the fields of the record \<open>hlo\<close>; instructions and
  computations are numbers. Nested computations are entered by recursion, whose depth is the
  first argument: the call graph of a module has no cycle, so that the number of its
  computations is enough. Hash maps are visited in the order of insertion.
\<close>

type_synonym instr = int
type_synonym comp = int

datatype opcode = kParameter | kConstant | kCopy | kCall | kWhile | kOther

record hlo =
  opcode_of :: "instr \<Rightarrow> opcode"
  operands :: "instr \<Rightarrow> instr list"
  users :: "instr \<Rightarrow> instr list"
  called_computations :: "instr \<Rightarrow> comp list"
  root_instruction :: "comp \<Rightarrow> instr"
  entry_computation :: comp
  points_to :: "instr \<Rightarrow> buffer list"
  buffers_defined :: "instr \<Rightarrow> buffer list"
  alias_instructions :: "buffer \<Rightarrow> instr list"
  buffer_instruction :: "buffer \<Rightarrow> instr"
  can_share :: "buffer \<Rightarrow> buffer \<Rightarrow> bool"

type_synonym live_map = "(buffer \<times> instr option set) list"

definition UniqueOperandSourceBuffers :: "hlo \<Rightarrow> instr \<Rightarrow> buffer list" where
  "UniqueOperandSourceBuffers H i = remdups_adj (sort (concat (map (points_to H) (operands H i))))"

definition IgnoreBuffer :: "hlo \<Rightarrow> 'h heap_sim \<Rightarrow> buffer \<Rightarrow> bool" where
  "IgnoreBuffer H s b \<longleftrightarrow> opcode_of H (buffer_instruction H b) = kConstant \<or>
     (case buffers_to_assign s of None \<Rightarrow> False | Some bs \<Rightarrow> b \<notin> bs)"

text \<open>\<open>operator[]\<close>, assignment through it and \<open>erase\<close> on \<open>live_buffers\<close>.\<close>

definition live_at :: "live_map \<Rightarrow> buffer \<Rightarrow> instr option set" where
  "live_at lb b = (case map_of lb b of None \<Rightarrow> {} | Some p \<Rightarrow> p)"

definition set_live :: "buffer \<Rightarrow> instr option set \<Rightarrow> live_map \<Rightarrow> live_map" where
  "set_live b p lb = (if map_of lb b = None then lb @ [(b, p)] else set_mapped b p lb)"

definition erase_live :: "buffer \<Rightarrow> live_map \<Rightarrow> live_map" where
  "erase_live b lb = filter (\<lambda>x. fst x \<noteq> b) lb"

fun add_users :: "hlo \<Rightarrow> buffer \<Rightarrow> instr list \<Rightarrow> live_map \<Rightarrow> live_map" where
  "add_users H b [] lb = lb"
| "add_users H b (a # as) lb =
     add_users H b as
       (if users H a \<noteq> [] then set_live b (live_at lb b \<union> Some ` set (users H a)) lb else lb)"

text \<open>The first loop over the buffers defined by an instruction: their pending users and the dead ones.\<close>

fun init_live :: "hlo \<Rightarrow> 'h heap_sim \<Rightarrow> comp \<Rightarrow> buffer list \<Rightarrow> live_map \<Rightarrow> buffer list \<Rightarrow> live_map \<times> buffer list" where
  "init_live H s computation [] lb dead = (lb, dead)"
| "init_live H s computation (b # bs) lb dead =
     (if IgnoreBuffer H s b then init_live H s computation bs lb dead
      else
        let lb = add_users H b (alias_instructions H b) lb;
            entry_parameter = (computation = entry_computation H \<and> opcode_of H (buffer_instruction H b) = kParameter);
            output = (b \<in> set (points_to H (root_instruction H computation)));
            lb = (if entry_parameter \<or> output then set_live b (insert None (live_at lb b)) lb else lb)
        in init_live H s computation bs lb (if map_of lb b = None then dead @ [b] else dead))"

text \<open>The loop over the operand buffers: the buffers whose last user this instruction is.\<close>

fun visit_operands :: "hlo \<Rightarrow> 'h heap_sim \<Rightarrow> instr \<Rightarrow> buffer list \<Rightarrow> live_map \<Rightarrow> buffer list \<Rightarrow> live_map \<times> buffer list" where
  "visit_operands H s i [] lb to_free = (lb, to_free)"
| "visit_operands H s i (b # bs) lb to_free =
     (if IgnoreBuffer H s b then visit_operands H s i bs lb to_free
      else
        let lb = set_live b (live_at lb b - {Some i}) lb
        in if live_at lb b = {} then visit_operands H s i bs (erase_live b lb) (to_free @ [b])
           else visit_operands H s i bs lb to_free)"

definition shares :: "hlo \<Rightarrow> buffer \<Rightarrow> buffer \<Rightarrow> bool" where
  "shares H b ob \<longleftrightarrow> buffer_instruction H b \<in> set (users H (buffer_instruction H ob)) \<and>
     opcode_of H (buffer_instruction H b) \<noteq> kCopy \<and> can_share H ob b"

fun alloc_buffers :: "('h \<Rightarrow> buffer \<Rightarrow> int \<Rightarrow> 'h option) \<Rightarrow> (buffer \<Rightarrow> int) \<Rightarrow> hlo \<Rightarrow> buffer list \<Rightarrow> buffer list \<Rightarrow>
    'h heap_sim \<Rightarrow> 'h heap_sim option" where
  "alloc_buffers ha_Alloc size_fn H to_free [] s = Some s"
| "alloc_buffers ha_Alloc size_fn H to_free (b # bs) s =
     (if IgnoreBuffer H s b then alloc_buffers ha_Alloc size_fn H to_free bs s
      else do {
        s \<leftarrow> (case List.find (shares H b) to_free of
                Some ob \<Rightarrow> ShareBuffer size_fn s b ob
              | None \<Rightarrow> sim_Alloc ha_Alloc size_fn s b);
        alloc_buffers ha_Alloc size_fn H to_free bs s
      })"

fun free_buffers :: "('h \<Rightarrow> buffer \<Rightarrow> int \<Rightarrow> 'h option) \<Rightarrow> (buffer \<Rightarrow> int) \<Rightarrow> buffer list \<Rightarrow> 'h heap_sim \<Rightarrow> 'h heap_sim option" where
  "free_buffers ha_Free size_fn [] s = Some s"
| "free_buffers ha_Free size_fn (b # bs) s = do { s \<leftarrow> sim_Free ha_Free size_fn s b; free_buffers ha_Free size_fn bs s }"

text \<open>The computations called by an instruction, with their sequences; \<open>None\<close> is \<open>FindOrDie\<close>.\<close>

fun run_called :: "(comp \<Rightarrow> instr list \<Rightarrow> 'h heap_sim \<Rightarrow> 'h heap_sim option) \<Rightarrow> (comp \<times> instr list) list \<Rightarrow> comp list \<Rightarrow>
    'h heap_sim \<Rightarrow> 'h heap_sim option" where
  "run_called rec module_sequence [] s = Some s"
| "run_called rec module_sequence (c # cs) s = do {
     called_sequence \<leftarrow> map_of module_sequence c;
     s \<leftarrow> rec c called_sequence s;
     run_called rec module_sequence cs s
   }"

fun run_instructions :: "('h \<Rightarrow> buffer \<Rightarrow> int \<Rightarrow> 'h option) \<Rightarrow> ('h \<Rightarrow> buffer \<Rightarrow> int \<Rightarrow> 'h option) \<Rightarrow> (buffer \<Rightarrow> int) \<Rightarrow> hlo \<Rightarrow>
    (comp \<Rightarrow> instr list \<Rightarrow> 'h heap_sim \<Rightarrow> 'h heap_sim option) \<Rightarrow> (comp \<times> instr list) list option \<Rightarrow> comp \<Rightarrow> instr list \<Rightarrow>
    live_map \<Rightarrow> 'h heap_sim \<Rightarrow> (live_map \<times> 'h heap_sim) option" where
  "run_instructions ha_Alloc ha_Free size_fn H rec module_sequence computation [] lb s = Some (lb, s)"
| "run_instructions ha_Alloc ha_Free size_fn H rec module_sequence computation (i # is) lb s = do {
     let (lb, dead_buffers_to_free) = init_live H s computation (buffers_defined H i) lb [];
     let (lb, operand_buffers_to_free) = visit_operands H s i (UniqueOperandSourceBuffers H i) lb [];
     s \<leftarrow> alloc_buffers ha_Alloc size_fn H operand_buffers_to_free (buffers_defined H i) s;
     s \<leftarrow> (case module_sequence of
             None \<Rightarrow> Some s
           | Some ms \<Rightarrow>
               if opcode_of H i = kCall \<or> opcode_of H i = kWhile
               then run_called rec ms (called_computations H i) s else Some s);
     s \<leftarrow> free_buffers ha_Free size_fn dead_buffers_to_free s;
     s \<leftarrow> free_buffers ha_Free size_fn operand_buffers_to_free s;
     run_instructions ha_Alloc ha_Free size_fn H rec module_sequence computation is lb s
   }"

text \<open>The last loop: what is still pending waits only for the null sentry.\<close>

fun free_remaining :: "('h \<Rightarrow> buffer \<Rightarrow> int \<Rightarrow> 'h option) \<Rightarrow> (buffer \<Rightarrow> int) \<Rightarrow> live_map \<Rightarrow> 'h heap_sim \<Rightarrow> 'h heap_sim option" where
  "free_remaining ha_Free size_fn [] s = Some s"
| "free_remaining ha_Free size_fn ((b, pending) # lb) s =
     (if pending = {None} then do { s \<leftarrow> sim_Free ha_Free size_fn s b; free_remaining ha_Free size_fn lb s } else None)"

primrec RunComputation :: "nat \<Rightarrow> ('h \<Rightarrow> buffer \<Rightarrow> int \<Rightarrow> 'h option) \<Rightarrow> ('h \<Rightarrow> buffer \<Rightarrow> int \<Rightarrow> 'h option) \<Rightarrow> (buffer \<Rightarrow> int) \<Rightarrow>
    hlo \<Rightarrow> (comp \<times> instr list) list option \<Rightarrow> comp \<Rightarrow> instr list \<Rightarrow> 'h heap_sim \<Rightarrow> 'h heap_sim option" where
  "RunComputation 0 ha_Alloc ha_Free size_fn H module_sequence computation seq s = None"
| "RunComputation (Suc depth) ha_Alloc ha_Free size_fn H module_sequence computation seq s = do {
     (lb, s) \<leftarrow> run_instructions ha_Alloc ha_Free size_fn H
       (RunComputation depth ha_Alloc ha_Free size_fn H module_sequence) module_sequence computation seq [] s;
     free_remaining ha_Free size_fn lb s
   }"

definition Run :: "nat \<Rightarrow> ('h \<Rightarrow> buffer \<Rightarrow> int \<Rightarrow> 'h option) \<Rightarrow> ('h \<Rightarrow> buffer \<Rightarrow> int \<Rightarrow> 'h option) \<Rightarrow> ('h \<Rightarrow> heap_result option) \<Rightarrow>
    'h \<Rightarrow> hlo \<Rightarrow> (buffer \<Rightarrow> int) \<Rightarrow> buffer set option \<Rightarrow> comp \<Rightarrow> instr list \<Rightarrow> heap_result option" where
  "Run depth ha_Alloc ha_Free ha_Finish a H size_fn to_assign computation seq = do {
     s \<leftarrow> RunComputation depth ha_Alloc ha_Free size_fn H None computation seq (new_HeapSimulator a to_assign);
     sim_Finish ha_Finish size_fn s
   }"

definition Run_module :: "nat \<Rightarrow> ('h \<Rightarrow> buffer \<Rightarrow> int \<Rightarrow> 'h option) \<Rightarrow> ('h \<Rightarrow> buffer \<Rightarrow> int \<Rightarrow> 'h option) \<Rightarrow> ('h \<Rightarrow> heap_result option) \<Rightarrow>
    'h \<Rightarrow> hlo \<Rightarrow> (buffer \<Rightarrow> int) \<Rightarrow> buffer set option \<Rightarrow> (comp \<times> instr list) list \<Rightarrow> heap_result option" where
  "Run_module depth ha_Alloc ha_Free ha_Finish a H size_fn to_assign module_sequence = do {
     seq \<leftarrow> map_of module_sequence (entry_computation H);
     s \<leftarrow> RunComputation depth ha_Alloc ha_Free size_fn H (Some module_sequence) (entry_computation H) seq
           (new_HeapSimulator a to_assign);
     sim_Finish ha_Finish size_fn s
   }"

end
