(* ===== verification/HeapComputationInv.thy ===== *)
theory HeapComputationInv
  imports HeapComputation
begin

text \<open>
  The walk over a computation keeps a buffer live from the instruction that defines it to its
  last user: the invariant of the loop of \<open>RunComputation\<close>.
\<close>

section \<open>Well-formed computations\<close>

definition uses :: "hlo \<Rightarrow> buffer \<Rightarrow> instr set" where
  "uses H b = (\<Union>a \<in> set (alias_instructions H b). set (users H a))"

definition sources :: "hlo \<Rightarrow> instr \<Rightarrow> buffer set" where
  "sources H i = (\<Union>x \<in> set (operands H i). set (points_to H x))"

definition keep :: "hlo \<Rightarrow> comp \<Rightarrow> buffer \<Rightarrow> bool" where
  "keep H c b \<longleftrightarrow> c = entry_computation H \<and> opcode_of H (buffer_instruction H b) = kParameter \<or>
     b \<in> set (points_to H (root_instruction H c))"

definition ign :: "hlo \<Rightarrow> buffer set option \<Rightarrow> buffer \<Rightarrow> bool" where
  "ign H ba b \<longleftrightarrow> opcode_of H (buffer_instruction H b) = kConstant \<or> (case ba of None \<Rightarrow> False | Some bs \<Rightarrow> b \<notin> bs)"

definition assignable :: "hlo \<Rightarrow> buffer set option \<Rightarrow> instr \<Rightarrow> buffer list" where
  "assignable H ba i = filter (\<lambda>b. \<not> ign H ba b) (buffers_defined H i)"

definition all_assignable :: "hlo \<Rightarrow> buffer set option \<Rightarrow> instr list \<Rightarrow> buffer list" where
  "all_assignable H ba seq = concat (map (assignable H ba) seq)"

text \<open>
  What the simulation relies on: each instruction and each buffer occurs once, the users of a
  buffer are exactly the later instructions that have it among the sources of their operands,
  and operands come before their users.
\<close>

definition hlo_ok :: "hlo \<Rightarrow> buffer set option \<Rightarrow> instr list \<Rightarrow> bool" where
  "hlo_ok H ba seq \<longleftrightarrow> distinct seq \<and> distinct (concat (map (buffers_defined H) seq)) \<and>
     (\<forall>k < length seq. \<forall>b \<in> set (assignable H ba (seq ! k)). uses H b = {i \<in> set (drop (Suc k) seq). b \<in> sources H i}) \<and>
     (\<forall>k < length seq. \<forall>b \<in> sources H (seq ! k). ign H ba b \<or> b \<in> set (all_assignable H ba (take k seq)))"

definition pend :: "hlo \<Rightarrow> comp \<Rightarrow> instr list \<Rightarrow> nat \<Rightarrow> buffer \<Rightarrow> instr option set" where
  "pend H c seq k b = Some ` (uses H b - set (take k seq)) \<union> (if keep H c b then {None} else {})"

text \<open>
  The buffers needed while instruction \<open>k\<close> runs: those it defines, and earlier ones that it
  or a later instruction uses or that outlive the computation.
\<close>

definition needed :: "hlo \<Rightarrow> buffer set option \<Rightarrow> comp \<Rightarrow> instr list \<Rightarrow> nat \<Rightarrow> buffer set" where
  "needed H ba c seq k = set (assignable H ba (seq ! k)) \<union>
     {b \<in> set (all_assignable H ba (take k seq)). pend H c seq k b \<noteq> {}}"

lemma IgnoreBuffer_ign: "IgnoreBuffer H s b = ign H (buffers_to_assign s) b"
  by (simp add: IgnoreBuffer_def ign_def)

section \<open>The maps of pending users\<close>

lemma map_of_set_live: "map_of (set_live b p lb) = (map_of lb)(b \<mapsto> p)"
  by (auto simp: set_live_def fun_eq_iff map_of_set_mapped map_add_def split: option.splits)

lemma distinct_set_live: "distinct (map fst lb) \<Longrightarrow> distinct (map fst (set_live b p lb))"
  by (auto simp: set_live_def map_of_eq_None_iff)

lemma map_of_erase_live: "map_of (erase_live b lb) = (map_of lb)(b := None)"
proof (rule ext)
  fix x
  show "map_of (erase_live b lb) x = ((map_of lb)(b := None)) x"
    by (induction lb) (auto simp: erase_live_def)
qed

lemma distinct_erase_live: "distinct (map fst lb) \<Longrightarrow> distinct (map fst (erase_live b lb))"
  by (induction lb) (auto simp: erase_live_def)

lemma live_at_upd: "live_at (set_live b p lb) x = (if x = b then p else live_at lb x)"
  by (simp add: live_at_def map_of_set_live)

lemma add_users_spec:
  "map_of (add_users H b as lb) = (let U = (\<Union>a \<in> set as. set (users H a)) in
     if U = {} then map_of lb else (map_of lb)(b \<mapsto> live_at lb b \<union> Some ` U)) \<and>
   (distinct (map fst lb) \<longrightarrow> distinct (map fst (add_users H b as lb)))"
proof (induction as arbitrary: lb)
  case (Cons a as)
  let ?U = "\<Union>a \<in> set as. set (users H a)"
  show ?case
  proof (cases "users H a = []")
    case True
    then show ?thesis using Cons [of lb] by simp
  next
    case False
    let ?lb = "set_live b (live_at lb b \<union> Some ` set (users H a)) lb"
    have "map_of (add_users H b as ?lb) = (map_of lb)(b \<mapsto> live_at lb b \<union> Some ` (set (users H a) \<union> ?U))"
      using Cons [of ?lb] by (cases "?U = {}") (auto simp: Let_def map_of_set_live live_at_upd image_Un Un_assoc)
    moreover have "distinct (map fst lb) \<longrightarrow> distinct (map fst (add_users H b as ?lb))"
      using Cons [of ?lb] distinct_set_live by blast
    moreover have "set (users H a) \<union> ?U \<noteq> {}" using False by simp
    ultimately show ?thesis using False by (simp add: Let_def)
  qed
qed simp

definition first_pending :: "hlo \<Rightarrow> comp \<Rightarrow> buffer \<Rightarrow> instr option set" where
  "first_pending H c b = Some ` uses H b \<union> (if keep H c b then {None} else {})"

abbreviation some_nonempty :: "'a set \<Rightarrow> 'a set option" where
  "some_nonempty p \<equiv> (if p = {} then None else Some p)"

lemma init_live_spec:
  assumes "distinct bs" "\<forall>b \<in> set bs. map_of lb b = None" "distinct (map fst lb)"
  shows "\<exists>lb'. init_live H s c bs lb dead = (lb', dead @ filter (\<lambda>b. \<not> IgnoreBuffer H s b \<and> first_pending H c b = {}) bs) \<and>
    distinct (map fst lb') \<and>
    map_of lb' = (\<lambda>x. if x \<in> set bs \<and> \<not> IgnoreBuffer H s x then some_nonempty (first_pending H c x) else map_of lb x)"
  using assms
proof (induction bs arbitrary: lb dead)
  case (Cons b bs)
  show ?case
  proof (cases "IgnoreBuffer H s b")
    case True
    then show ?thesis using Cons.IH [of lb dead] Cons.prems by (auto simp: fun_eq_iff)
  next
    case False
    define lb1 where "lb1 = add_users H b (alias_instructions H b) lb"
    define lb2 where "lb2 = (if keep H c b then set_live b (insert None (live_at lb1 b)) lb1 else lb1)"
    have none: "map_of lb b = None" "live_at lb b = {}" using Cons.prems(2) by (simp_all add: live_at_def)
    have m1: "map_of lb1 = (if uses H b = {} then map_of lb else (map_of lb)(b \<mapsto> Some ` uses H b))" "distinct (map fst lb1)"
      using add_users_spec [of H b "alias_instructions H b" lb] none Cons.prems(3) by (auto simp: lb1_def uses_def Let_def)
    have l1: "live_at lb1 b = Some ` uses H b" using m1(1) none by (simp add: live_at_def)
    have m2: "map_of lb2 = (map_of lb)(b := some_nonempty (first_pending H c b))" "distinct (map fst lb2)"
      using m1 l1 none distinct_set_live [OF m1(2)]
      by (auto simp: lb2_def first_pending_def map_of_set_live fun_eq_iff)
    have step: "init_live H s c (b # bs) lb dead = init_live H s c bs lb2 (if first_pending H c b = {} then dead @ [b] else dead)"
      using False m2(1) by (simp add: Let_def lb1_def [symmetric] keep_def [symmetric] lb2_def [symmetric])
    have db: "distinct bs" using Cons.prems(1) by simp
    have fresh: "\<forall>b' \<in> set bs. map_of lb2 b' = None" using Cons.prems(1,2) m2(1) by auto
    obtain lb' where lb': "init_live H s c bs lb2 (if first_pending H c b = {} then dead @ [b] else dead) =
        (lb', (if first_pending H c b = {} then dead @ [b] else dead) @ filter (\<lambda>b. \<not> IgnoreBuffer H s b \<and> first_pending H c b = {}) bs)"
      "distinct (map fst lb')"
      "map_of lb' = (\<lambda>x. if x \<in> set bs \<and> \<not> IgnoreBuffer H s x then some_nonempty (first_pending H c x) else map_of lb2 x)"
      using Cons.IH [OF db fresh m2(2)] by blast
    have "map_of lb' = (\<lambda>x. if x \<in> set (b # bs) \<and> \<not> IgnoreBuffer H s x then some_nonempty (first_pending H c x) else map_of lb x)"
      using lb'(3) m2(1) False Cons.prems(1) by (auto simp: fun_eq_iff)
    then show ?thesis using step lb'(1,2) False by auto
  qed
qed simp

lemma visit_operands_spec:
  assumes "distinct bs" "\<forall>b \<in> set bs. IgnoreBuffer H s b \<or> map_of lb b \<noteq> None" "distinct (map fst lb)"
  shows "\<exists>lb'. visit_operands H s i bs lb fr =
      (lb', fr @ filter (\<lambda>b. \<not> IgnoreBuffer H s b \<and> live_at lb b - {Some i} = {}) bs) \<and> distinct (map fst lb') \<and>
    map_of lb' = (\<lambda>x. if x \<in> set bs \<and> \<not> IgnoreBuffer H s x then some_nonempty (live_at lb x - {Some i}) else map_of lb x)"
  using assms
proof (induction bs arbitrary: lb fr)
  case (Cons b bs)
  show ?case
  proof (cases "IgnoreBuffer H s b")
    case True
    then show ?thesis using Cons.IH [of lb fr] Cons.prems by (auto simp: fun_eq_iff)
  next
    case False
    let ?p = "live_at lb b - {Some i}"
    define lb1 where "lb1 = (if ?p = {} then erase_live b (set_live b ?p lb) else set_live b ?p lb)"
    have m1: "map_of lb1 = (map_of lb)(b := some_nonempty ?p)" "distinct (map fst lb1)"
      using Cons.prems(3) by (auto simp: lb1_def map_of_erase_live map_of_set_live distinct_set_live distinct_erase_live)
    have l1: "live_at lb1 x = (if x = b then ?p else live_at lb x)" for x by (simp add: live_at_def m1(1))
    have step: "visit_operands H s i (b # bs) lb fr = visit_operands H s i bs lb1 (if ?p = {} then fr @ [b] else fr)"
      using False by (simp add: Let_def lb1_def live_at_upd)
    have db: "distinct bs" using Cons.prems(1) by simp
    have pre: "\<forall>b' \<in> set bs. IgnoreBuffer H s b' \<or> map_of lb1 b' \<noteq> None" using Cons.prems(1,2) m1(1) by auto
    have eq: "filter (\<lambda>b. \<not> IgnoreBuffer H s b \<and> live_at lb1 b - {Some i} = {}) bs =
        filter (\<lambda>b. \<not> IgnoreBuffer H s b \<and> live_at lb b - {Some i} = {}) bs"
      using Cons.prems(1) l1 by (intro filter_cong) auto
    obtain lb' where lb': "visit_operands H s i bs lb1 (if ?p = {} then fr @ [b] else fr) =
        (lb', (if ?p = {} then fr @ [b] else fr) @ filter (\<lambda>b. \<not> IgnoreBuffer H s b \<and> live_at lb b - {Some i} = {}) bs)"
      "distinct (map fst lb')"
      "map_of lb' = (\<lambda>x. if x \<in> set bs \<and> \<not> IgnoreBuffer H s x then some_nonempty (live_at lb1 x - {Some i}) else map_of lb1 x)"
      using Cons.IH [OF db pre m1(2)] unfolding eq by blast
    have "map_of lb' = (\<lambda>x. if x \<in> set (b # bs) \<and> \<not> IgnoreBuffer H s x then some_nonempty (live_at lb x - {Some i}) else map_of lb x)"
      using lb'(3) m1(1) l1 False Cons.prems(1) by (auto simp: fun_eq_iff)
    then show ?thesis using step lb'(1,2) False by auto
  qed
qed simp

lemma sources_list: "set (UniqueOperandSourceBuffers H i) = sources H i" "distinct (UniqueOperandSourceBuffers H i)"
proof -
  show "set (UniqueOperandSourceBuffers H i) = sources H i" by (simp add: UniqueOperandSourceBuffers_def sources_def)
  have "sorted xs \<Longrightarrow> distinct (remdups_adj xs)" for xs :: "int list"
    by (induction xs rule: remdups_adj.induct) (auto simp: order_less_le)
  then show "distinct (UniqueOperandSourceBuffers H i)" by (simp add: UniqueOperandSourceBuffers_def)
qed

section \<open>The calls of one instruction\<close>

lemma wf_sim_prefix: "wf_sim sz (ops @ xs) \<Longrightarrow> wf_sim sz ops"
proof (induction xs rule: rev_induct)
  case (snoc x xs)
  then show ?case using wf_sim_snoc [of sz "ops @ xs" x] by simp
qed simp

lemma slive_append_intro:
  assumes "wf_sim sz (ops @ xs)" "released xs = []"
  shows "slive (ops @ xs) = slive ops \<union> set (introduced xs)"
proof -
  have "wf_sim sz ops" by (rule wf_sim_prefix [OF assms(1)])
  then have "set (released ops) \<subseteq> set (introduced ops)" by (rule wf_released)
  moreover have "set (introduced xs) \<inter> set (introduced ops) = {}" using wf_distinct_introduced [OF assms(1)] by auto
  ultimately show ?thesis using assms(2) by (auto simp: slive_def)
qed

lemma introduced_free [simp]: "introduced (map SimFree bs) = []" "released (map SimFree bs) = bs"
  by (induction bs) auto

lemma slive_append_free: "slive (ops @ map SimFree bs) = slive ops - set bs"
  by (auto simp: slive_def)

context heap_algorithm
begin

definition tracked :: "(buffer \<Rightarrow> int) \<Rightarrow> buffer set option \<Rightarrow> sim_op list \<Rightarrow> 'h heap_sim \<Rightarrow> bool" where
  "tracked sz ba ops s \<longleftrightarrow> run_sim ha_Alloc ha_Free sz ops (new_HeapSimulator init ba) = Some s \<and> wf_sim sz ops"

lemma tracked_assign: "tracked sz ba ops s \<Longrightarrow> \<forall>b. 0 \<le> sz b \<Longrightarrow> buffers_to_assign s = ba"
  using sim_run_ok [of sz ops ba] by (auto simp: tracked_def)

lemma tracked_step:
  assumes "tracked sz ba ops s" "\<forall>b. 0 \<le> sz b" "sim_ok sz ops x"
  shows "\<exists>s'. sim_step ha_Alloc ha_Free sz x s = Some s' \<and> tracked sz ba (ops @ [x]) s'"
proof -
  have w: "wf_sim sz (ops @ [x])" using assms by (simp add: tracked_def wf_sim_snoc)
  from sim_run_ok [OF this assms(2), of ba] show ?thesis using assms(1) w
    by (auto simp: tracked_def run_sim_append bind_eq_Some_conv)
qed

lemma free_buffers_ok:
  assumes "tracked sz ba ops s" "\<forall>b. 0 \<le> sz b" "distinct bs" "set bs \<subseteq> slive ops"
  shows "\<exists>s'. free_buffers ha_Free sz bs s = Some s' \<and> tracked sz ba (ops @ map SimFree bs) s'"
  using assms
proof (induction bs arbitrary: ops s)
  case (Cons b bs)
  obtain s1 where s1: "sim_Free ha_Free sz s b = Some s1" "tracked sz ba (ops @ [SimFree b]) s1"
    using tracked_step [OF Cons.prems(1,2), of "SimFree b"] Cons.prems(4) by (auto simp: sim_ok_def)
  have "set bs \<subseteq> slive (ops @ [SimFree b])" using Cons.prems(3,4) by (auto simp: slive_free)
  from Cons.IH [OF s1(2) Cons.prems(2) _ this] show ?case using s1(1) Cons.prems(3) by auto
qed simp

lemma alloc_buffers_ok:
  assumes "tracked sz ba ops s" "\<forall>b. 0 \<le> sz b" "distinct bs" "set bs \<inter> set (introduced ops) = {}"
    "set fr \<subseteq> slive ops" "\<forall>b d. shares H b d \<longrightarrow> sz b \<le> sz d"
  shows "\<exists>s' xs. alloc_buffers ha_Alloc sz H fr bs s = Some s' \<and> tracked sz ba (ops @ xs) s' \<and>
    introduced xs = filter (\<lambda>b. \<not> ign H ba b) bs \<and> released xs = [] \<and> (\<forall>b d. SimShare b d \<in> set xs \<longrightarrow> shares H b d)"
  using assms
proof (induction bs arbitrary: ops s)
  case Nil
  then show ?case by (intro exI [of _ s] exI [of _ "[]"]) simp
next
  case (Cons b bs)
  have ig: "IgnoreBuffer H s b = ign H ba b" using tracked_assign [OF Cons.prems(1,2)] by (simp add: IgnoreBuffer_ign)
  show ?case
  proof (cases "ign H ba b")
    case True
    then show ?thesis using Cons.IH [OF Cons.prems(1,2) _ _ Cons.prems(5,6)] Cons.prems(3,4) ig by auto
  next
    case False
    define x where "x = (case List.find (shares H b) fr of Some d \<Rightarrow> SimShare b d | None \<Rightarrow> SimAlloc b)"
    have w: "wf_sim sz ops" and nb: "b \<notin> set (introduced ops)" using Cons.prems(1,4) by (auto simp: tracked_def)
    have fd: "d \<in> set fr \<and> shares H b d" if "List.find (shares H b) fr = Some d" for d
      using that by (auto simp: find_Some_iff)
    have ok: "sim_ok sz ops x" using nb Cons.prems(5,6) fd by (auto simp: sim_ok_def x_def split: option.splits)
    obtain s1 where s1: "sim_step ha_Alloc ha_Free sz x s = Some s1" "tracked sz ba (ops @ [x]) s1"
      using tracked_step [OF Cons.prems(1,2) ok] by blast
    have st: "(case List.find (shares H b) fr of Some ob \<Rightarrow> ShareBuffer sz s b ob | None \<Rightarrow> sim_Alloc ha_Alloc sz s b) = Some s1"
      using s1(1) by (simp add: x_def split: option.splits)
    have ix: "introduced [x] = [b]" "released [x] = []" by (simp_all add: x_def split: option.splits)
    have sx: "\<forall>c d. SimShare c d \<in> set [x] \<longrightarrow> shares H c d" using fd by (auto simp: x_def split: option.splits)
    have "slive (ops @ [x]) = insert b (slive ops)" using slive_intro [OF w nb] by (simp add: x_def split: option.splits)
    then have "set fr \<subseteq> slive (ops @ [x])" using Cons.prems(5) by auto
    moreover have "set bs \<inter> set (introduced (ops @ [x])) = {}" using Cons.prems(3,4) ix(1) by auto
    ultimately obtain s' xs where xs: "alloc_buffers ha_Alloc sz H fr bs s1 = Some s'" "tracked sz ba ((ops @ [x]) @ xs) s'"
      "introduced xs = filter (\<lambda>b. \<not> ign H ba b) bs" "released xs = []" "\<forall>b d. SimShare b d \<in> set xs \<longrightarrow> shares H b d"
      using Cons.IH [OF s1(2) Cons.prems(2) _ _ _ Cons.prems(6)] Cons.prems(3) by auto
    have ix': "introduced (x # xs) = b # introduced xs" "released (x # xs) = released xs"
      using ix introduced_append [of "[x]" xs] released_append [of "[x]" xs] by simp_all
    show ?thesis
      by (intro exI [of _ s'] exI [of _ "x # xs"]) (use xs st sx ix' False ig in auto)
  qed
qed

end

end
