(* ===== verification/HeapComputationSystem.thy ===== *)
theory HeapComputationSystem
  imports HeapComputationInv
begin

text \<open>
  The heap simulation of a whole computation: from the liveness of buffers in the instruction
  sequence to disjoint chunks.
\<close>

section \<open>Pending users\<close>

lemma all_assignable_Suc:
  "k < length seq \<Longrightarrow> all_assignable H ba (take (Suc k) seq) = all_assignable H ba (take k seq) @ assignable H ba (seq ! k)"
  by (simp add: all_assignable_def take_Suc_conv_app_nth)

lemma all_assignable_defined: "b \<in> set (all_assignable H ba xs) \<Longrightarrow> b \<in> set (concat (map (buffers_defined H) xs))"
  by (auto simp: all_assignable_def assignable_def)

lemma all_assignable_nth:
  "b \<in> set (all_assignable H ba (take k seq)) \<Longrightarrow> \<exists>j < k. j < length seq \<and> b \<in> set (assignable H ba (seq ! j))"
  by (auto simp: all_assignable_def in_set_conv_nth) (metis nth_take)

lemma assignable_not_ign: "b \<in> set (all_assignable H ba xs) \<Longrightarrow> \<not> ign H ba b"
  by (auto simp: all_assignable_def assignable_def)

lemma pend_Suc: "k < length seq \<Longrightarrow> pend H c seq (Suc k) b = pend H c seq k b - {Some (seq ! k)}"
  by (auto simp: pend_def take_Suc_conv_app_nth)

lemma hlo_ok_uses:
  "hlo_ok H ba seq \<Longrightarrow> k < length seq \<Longrightarrow> b \<in> set (assignable H ba (seq ! k)) \<Longrightarrow>
     uses H b = {i \<in> set (drop (Suc k) seq). b \<in> sources H i}"
  by (simp add: hlo_ok_def)

lemma pend_defined:
  assumes ok: "hlo_ok H ba seq" and k: "k < length seq" and b: "b \<in> set (assignable H ba (seq ! k))"
  shows "pend H c seq k b = first_pending H c b" "pend H c seq (Suc k) b = first_pending H c b"
proof -
  have d: "distinct (take (Suc k) seq @ drop (Suc k) seq)" using ok by (simp add: hlo_ok_def)
  then have e: "set (take (Suc k) seq) \<inter> uses H b = {}" unfolding hlo_ok_uses [OF ok k b] distinct_append by blast
  then have "uses H b - set (take (Suc k) seq) = uses H b" by blast
  then show "pend H c seq (Suc k) b = first_pending H c b" by (simp add: pend_def first_pending_def)
  have "set (take k seq) \<subseteq> set (take (Suc k) seq)" by (simp add: set_take_subset_set_take)
  then have "uses H b - set (take k seq) = uses H b" using e by blast
  then show "pend H c seq k b = first_pending H c b" by (simp add: pend_def first_pending_def)
qed

lemma source_pending:
  assumes ok: "hlo_ok H ba seq" and k: "k < length seq" and b: "b \<in> set (all_assignable H ba (take k seq))"
  shows "Some (seq ! k) \<in> pend H c seq k b \<longleftrightarrow> b \<in> sources H (seq ! k)"
proof -
  obtain j where j: "j < k" "j < length seq" "b \<in> set (assignable H ba (seq ! j))" using all_assignable_nth [OF b] by blast
  have d: "distinct seq" using ok by (simp add: hlo_ok_def)
  have "seq ! k \<notin> set (take k seq)" using d k by (auto simp: in_set_conv_nth nth_eq_iff_index_eq)
  moreover have "seq ! k \<in> set (drop (Suc j) seq)" 
  proof -
    have "drop (Suc j) seq ! (k - Suc j) = seq ! k" "k - Suc j < length (drop (Suc j) seq)" using j k by simp_all
    then show ?thesis by (metis nth_mem)
  qed
  ultimately show ?thesis unfolding pend_def hlo_ok_uses [OF ok j(2,3)] by auto
qed

definition shares_ok :: "hlo \<Rightarrow> sim_op list \<Rightarrow> bool" where
  "shares_ok H ops \<longleftrightarrow> (\<forall>b d. SimShare b d \<in> set ops \<longrightarrow> shares H b d)"

text \<open>Chains of permitted sharing.\<close>

definition share_chain :: "hlo \<Rightarrow> buffer \<Rightarrow> buffer \<Rightarrow> bool" where
  "share_chain H = (\<lambda>a b. shares H a b \<or> shares H b a)\<^sup>*\<^sup>*"

lemma share_chain_canon:
  assumes "shares_ok H ops" "wf_sim sz ops" shows "share_chain H b (canon ops b)"
  using assms
proof (induction ops arbitrary: b rule: rev_induct)
  case Nil
  then show ?case by (simp add: share_chain_def)
next
  case (snoc x ops)
  have ih: "share_chain H a (canon ops a)" for a using snoc by (simp add: shares_ok_def wf_sim_snoc)
  show ?case
  proof (cases x)
    case (SimShare a d)
    have "share_chain H a (canon ops d)" 
      using snoc.prems(1) SimShare ih [of d] unfolding shares_ok_def share_chain_def
      by (auto intro: converse_rtranclp_into_rtranclp)
    then show ?thesis using SimShare ih by simp
  qed (use ih in simp_all)
qed

lemma share_chain_same:
  assumes "shares_ok H ops" "wf_sim sz ops" "canon ops a = canon ops b" shows "share_chain H a b"
proof -
  have "share_chain H (canon ops b) b"
  proof -
    have "symp (share_chain H)" unfolding share_chain_def by (rule symp_rtranclp) (auto simp: symp_def)
    then show ?thesis using share_chain_canon [OF assms(1,2), of b] by (rule sympD)
  qed
  moreover have "share_chain H a (canon ops b)" using share_chain_canon [OF assms(1,2), of a] assms(3) by simp
  ultimately show ?thesis unfolding share_chain_def by (blast intro: rtranclp_trans)
qed

section \<open>The loop\<close>

context heap_algorithm
begin

definition loop_inv :: "(buffer \<Rightarrow> int) \<Rightarrow> hlo \<Rightarrow> buffer set option \<Rightarrow> comp \<Rightarrow> instr list \<Rightarrow> nat \<Rightarrow> live_map \<Rightarrow>
    'h heap_sim \<Rightarrow> sim_op list \<Rightarrow> bool" where
  "loop_inv sz H ba c seq k lb s ops \<longleftrightarrow>
     tracked sz ba ops s \<and> introduced ops = all_assignable H ba (take k seq) \<and> distinct (map fst lb) \<and>
     map_of lb = (\<lambda>b. if b \<in> set (all_assignable H ba (take k seq)) then some_nonempty (pend H c seq k b) else None) \<and>
     slive ops = {b \<in> set (all_assignable H ba (take k seq)). pend H c seq k b \<noteq> {}} \<and>
     (\<forall>j < k. \<exists>i \<le> length ops. needed H ba c seq j \<subseteq> slive (take i ops)) \<and> shares_ok H ops"

lemma instruction_step:
  assumes inv: "loop_inv sz H ba c seq k lb s ops" and ok: "hlo_ok H ba seq" and k: "k < length seq"
    and nn: "\<forall>b. 0 \<le> sz b" and sh: "\<forall>b d. shares H b d \<longrightarrow> sz b \<le> sz d"
  shows "\<exists>lb1 dead lb2 fr s1 s2 s3 ops'. init_live H s c (buffers_defined H (seq ! k)) lb [] = (lb1, dead) \<and>
    visit_operands H s (seq ! k) (UniqueOperandSourceBuffers H (seq ! k)) lb1 [] = (lb2, fr) \<and>
    alloc_buffers ha_Alloc sz H fr (buffers_defined H (seq ! k)) s = Some s1 \<and>
    free_buffers ha_Free sz dead s1 = Some s2 \<and> free_buffers ha_Free sz fr s2 = Some s3 \<and>
    loop_inv sz H ba c seq (Suc k) lb2 s3 ops'"
proof -
  let ?i = "seq ! k" and ?D = "set (all_assignable H ba (take k seq))"
  let ?A = "assignable H ba ?i" and ?B = "buffers_defined H ?i"
  have tr: "tracked sz ba ops s" and it: "introduced ops = all_assignable H ba (take k seq)" and dl: "distinct (map fst lb)"
    and ml: "map_of lb = (\<lambda>b. if b \<in> ?D then some_nonempty (pend H c seq k b) else None)"
    and sl: "slive ops = {b \<in> ?D. pend H c seq k b \<noteq> {}}"
    using inv by (simp_all add: loop_inv_def)
  have ig: "IgnoreBuffer H s = ign H ba" using tracked_assign [OF tr nn] by (simp add: IgnoreBuffer_ign fun_eq_iff)
  have db: "distinct (concat (map (buffers_defined H) (take k seq)) @ ?B)"
  proof -
    have "distinct (concat (map (buffers_defined H) (take (Suc k) seq)) @ concat (map (buffers_defined H) (drop (Suc k) seq)))"
      using ok by (simp add: hlo_ok_def flip: concat_append map_append)
    then show ?thesis using k unfolding take_Suc_conv_app_nth [OF k] by (simp only: map_append concat_append append_assoc distinct_append) auto
  qed
  have BD: "set ?B \<inter> ?D = {}" using db all_assignable_defined [of _ H ba "take k seq"] by (auto simp del: set_concat)
  have AB: "b \<in> set ?A \<longleftrightarrow> b \<in> set ?B \<and> \<not> ign H ba b" for b by (simp add: assignable_def)
  have dB: "distinct ?B" using db by simp
  have nl: "\<forall>b \<in> set ?B. map_of lb b = None" unfolding ml using BD by auto
  obtain lb1 where l1: "init_live H s c ?B lb [] = (lb1, filter (\<lambda>b. \<not> IgnoreBuffer H s b \<and> first_pending H c b = {}) ?B)"
    "distinct (map fst lb1)"
    "map_of lb1 = (\<lambda>x. if x \<in> set ?B \<and> \<not> IgnoreBuffer H s x then some_nonempty (first_pending H c x) else map_of lb x)"
    using init_live_spec [OF dB nl dl, of H s c "[]"] unfolding append_Nil by blast
  define dead where "dead = filter (\<lambda>b. first_pending H c b = {}) ?A"
  have dd: "filter (\<lambda>b. \<not> IgnoreBuffer H s b \<and> first_pending H c b = {}) ?B = dead"
    by (simp add: dead_def assignable_def ig conj_commute)
  have src: "b \<in> ?D \<and> Some ?i \<in> pend H c seq k b" if "b \<in> sources H ?i" "\<not> ign H ba b" for b
  proof -
    have "b \<in> ?D" using ok k that unfolding hlo_ok_def by blast
    then show ?thesis using source_pending [OF ok k] that by blast
  qed
  have la1: "live_at lb1 b = pend H c seq k b" if "b \<in> ?D" for b
    using that BD ml unfolding live_at_def l1(3) by auto
  have pre: "\<forall>b \<in> set (UniqueOperandSourceBuffers H ?i). IgnoreBuffer H s b \<or> map_of lb1 b \<noteq> None"
  proof
    fix b assume "b \<in> set (UniqueOperandSourceBuffers H ?i)"
    then have b: "b \<in> sources H ?i" by (simp add: sources_list)
    show "IgnoreBuffer H s b \<or> map_of lb1 b \<noteq> None"
    proof (cases "ign H ba b")
      case False
      then have "b \<in> ?D" "pend H c seq k b \<noteq> {}" "b \<notin> set ?B" using src [OF b] BD by auto
      then show ?thesis unfolding l1(3) ml by simp
    qed (simp add: ig)
  qed
  define fr where "fr = filter (\<lambda>b. \<not> ign H ba b \<and> live_at lb1 b - {Some ?i} = {}) (UniqueOperandSourceBuffers H ?i)"
  obtain lb2 where l2: "visit_operands H s ?i (UniqueOperandSourceBuffers H ?i) lb1 [] = (lb2, fr)" "distinct (map fst lb2)"
    "map_of lb2 = (\<lambda>x. if x \<in> sources H ?i \<and> \<not> ign H ba x then some_nonempty (live_at lb1 x - {Some ?i}) else map_of lb1 x)"
    using visit_operands_spec [OF sources_list(2) pre l1(2), of ?i "[]"] by (auto simp: ig sources_list(1) fr_def)
  have frd: "distinct fr" by (simp add: fr_def sources_list)
  have frs: "b \<in> set fr \<longleftrightarrow> b \<in> sources H ?i \<and> b \<in> ?D \<and> pend H c seq (Suc k) b = {}" for b
    using src [of b] la1 [of b] pend_Suc [OF k, of H c b] all_assignable_nth [of b H ba k seq]
    by (auto simp: fr_def sources_list AB assignable_def)
  have frl: "set fr \<subseteq> slive ops"
  proof
    fix b assume "b \<in> set fr"
    then have b: "b \<in> sources H ?i" "b \<in> ?D" using frs by auto
    then show "b \<in> slive ops" using source_pending [OF ok k b(2)] by (auto simp: sl)
  qed
  have fresh: "set ?B \<inter> set (introduced ops) = {}" using BD it by simp
  obtain s1 xs where a: "alloc_buffers ha_Alloc sz H fr ?B s = Some s1" "tracked sz ba (ops @ xs) s1"
    "introduced xs = ?A" "released xs = []" "\<forall>b d. SimShare b d \<in> set xs \<longrightarrow> shares H b d"
    using alloc_buffers_ok [OF tr nn dB fresh frl sh] by (auto simp: assignable_def)
  have sl1: "slive (ops @ xs) = slive ops \<union> set ?A"
    using slive_append_intro [of sz ops xs] a by (simp add: tracked_def)
  have "distinct dead" "set dead \<subseteq> slive (ops @ xs)" using dB sl1 by (auto simp: dead_def assignable_def)
  then obtain s2 where f1: "free_buffers ha_Free sz dead s1 = Some s2" "tracked sz ba ((ops @ xs) @ map SimFree dead) s2"
    using free_buffers_ok [OF a(2) nn] by blast
  have "set fr \<subseteq> slive ((ops @ xs) @ map SimFree dead)"
    using frl sl1 frs BD AB unfolding slive_append_free by (auto simp: dead_def)
  then obtain s3 where f2: "free_buffers ha_Free sz fr s2 = Some s3"
    "tracked sz ba (((ops @ xs) @ map SimFree dead) @ map SimFree fr) s3"
    using free_buffers_ok [OF f1(2) nn frd] by blast
  let ?ops = "((ops @ xs) @ map SimFree dead) @ map SimFree fr"
  have "loop_inv sz H ba c seq (Suc k) lb2 s3 ?ops"
    unfolding loop_inv_def
  proof (intro conjI allI impI)
    show "tracked sz ba ?ops s3" by (rule f2(2))
    show "introduced ?ops = all_assignable H ba (take (Suc k) seq)" using it a(3) by (simp add: all_assignable_Suc [OF k])
    show "distinct (map fst lb2)" by (rule l2(2))
    show "map_of lb2 = (\<lambda>b. if b \<in> set (all_assignable H ba (take (Suc k) seq)) then some_nonempty (pend H c seq (Suc k) b) else None)"
    proof
      fix b
      show "map_of lb2 b = (if b \<in> set (all_assignable H ba (take (Suc k) seq)) then some_nonempty (pend H c seq (Suc k) b) else None)"
      proof -
        consider "b \<in> set ?A" | "b \<in> ?D" "b \<notin> set ?A" | "b \<notin> ?D" "b \<notin> set ?A" by blast
        then show ?thesis
        proof cases
          case 1
          then have b: "b \<in> set ?B" "\<not> ign H ba b" "b \<notin> ?D" using AB BD by auto
          then have "b \<notin> sources H ?i" using src by blast
          then have "map_of lb2 b = some_nonempty (first_pending H c b)" using b unfolding l2(3) l1(3) ig by simp
          then show ?thesis using 1 pend_defined(2) [OF ok k 1] by (simp add: all_assignable_Suc [OF k])
        next
          case 2
          have nb: "b \<notin> set ?B" "\<not> ign H ba b" using 2(1) BD assignable_not_ign [OF 2(1)] by auto
          show ?thesis
          proof (cases "b \<in> sources H ?i")
            case True
            then show ?thesis using 2 nb la1 [OF 2(1)] unfolding l2(3) by (simp add: pend_Suc [OF k] all_assignable_Suc [OF k])
          next
            case False
            then have "Some ?i \<notin> pend H c seq k b" using source_pending [OF ok k 2(1)] by blast
            then have "pend H c seq (Suc k) b = pend H c seq k b" by (simp add: pend_Suc [OF k])
            then show ?thesis using 2 nb False unfolding l2(3) l1(3) ml by (simp add: all_assignable_Suc [OF k])
          qed
        next
          case 3
          then have "b \<notin> sources H ?i \<or> ign H ba b" "b \<notin> set ?B \<or> ign H ba b" using src AB by auto
          then show ?thesis using 3 unfolding l2(3) l1(3) ml ig by (auto simp: all_assignable_Suc [OF k])
        qed
      qed
    qed
    show "slive ?ops = {b \<in> set (all_assignable H ba (take (Suc k) seq)). pend H c seq (Suc k) b \<noteq> {}}"
    proof (rule set_eqI)
      fix b
      have e: "b \<in> slive ?ops \<longleftrightarrow> (b \<in> ?D \<and> pend H c seq k b \<noteq> {} \<or> b \<in> set ?A) \<and> b \<notin> set dead \<and> b \<notin> set fr"
        unfolding slive_append_free sl1 sl by blast
      show "b \<in> slive ?ops \<longleftrightarrow> b \<in> {b \<in> set (all_assignable H ba (take (Suc k) seq)). pend H c seq (Suc k) b \<noteq> {}}"
      proof (cases "b \<in> set ?A")
        case True
        then have "b \<notin> ?D" using AB BD by blast
        then have "b \<notin> set fr" using frs by blast
        then show ?thesis using e True pend_defined(2) [OF ok k True] by (simp add: dead_def all_assignable_Suc [OF k])
      next
        case False
        then have "b \<notin> set dead" by (simp add: dead_def)
        moreover have "pend H c seq k b \<noteq> {} \<and> b \<notin> set fr \<longleftrightarrow> pend H c seq (Suc k) b \<noteq> {}" if "b \<in> ?D"
          using that frs [of b] source_pending [OF ok k that, of c] pend_Suc [OF k, of H c b] by auto
        ultimately show ?thesis using e False by (auto simp: all_assignable_Suc [OF k])
      qed
    qed
    show "\<exists>i \<le> length ?ops. needed H ba c seq j \<subseteq> slive (take i ?ops)" if j: "j < Suc k" for j
    proof (cases "j = k")
      case True
      have "needed H ba c seq j \<subseteq> slive (ops @ xs)" using True sl1 sl by (auto simp: needed_def)
      then show ?thesis by (intro exI [of _ "length (ops @ xs)"]) simp
    next
      case False
      then obtain i where i: "i \<le> length ops" "needed H ba c seq j \<subseteq> slive (take i ops)"
        using inv j unfolding loop_inv_def by (metis less_SucE)
      then show ?thesis by (intro exI [of _ i]) simp
    qed
    show "shares_ok H ?ops" using inv a(5) by (auto simp: loop_inv_def shares_ok_def)
  qed
  then show ?thesis using l1(1) dd l2(1) a(1) f1(1) f2(1) by auto
qed

lemma run_instructions_ok:
  assumes ok: "hlo_ok H ba seq" and nn: "\<forall>b. 0 \<le> sz b" and sh: "\<forall>b d. shares H b d \<longrightarrow> sz b \<le> sz d"
    and inv: "loop_inv sz H ba c seq k lb s ops" and k: "k \<le> length seq"
  shows "\<exists>lb' s' ops'. run_instructions ha_Alloc ha_Free sz H rec None c (drop k seq) lb s = Some (lb', s') \<and>
    loop_inv sz H ba c seq (length seq) lb' s' ops'"
  using inv k
proof (induction "length seq - k" arbitrary: k lb s ops)
  case 0
  then show ?case by auto
next
  case (Suc n)
  then have k: "k < length seq" by simp
  obtain lb1 dead lb2 fr s1 s2 s3 ops' where st: "init_live H s c (buffers_defined H (seq ! k)) lb [] = (lb1, dead)"
    "visit_operands H s (seq ! k) (UniqueOperandSourceBuffers H (seq ! k)) lb1 [] = (lb2, fr)"
    "alloc_buffers ha_Alloc sz H fr (buffers_defined H (seq ! k)) s = Some s1"
    "free_buffers ha_Free sz dead s1 = Some s2" "free_buffers ha_Free sz fr s2 = Some s3"
    "loop_inv sz H ba c seq (Suc k) lb2 s3 ops'"
    using instruction_step [OF Suc.prems(1) ok k nn sh] by blast
  have "run_instructions ha_Alloc ha_Free sz H rec None c (drop k seq) lb s =
      run_instructions ha_Alloc ha_Free sz H rec None c (drop (Suc k) seq) lb2 s3"
    unfolding Cons_nth_drop_Suc [OF k, symmetric] using st(1-5) by simp
  moreover have "\<exists>lb' s' ops'. run_instructions ha_Alloc ha_Free sz H rec None c (drop (Suc k) seq) lb2 s3 = Some (lb', s') \<and>
      loop_inv sz H ba c seq (length seq) lb' s' ops'"
    using Suc.hyps(1) [OF _ st(6)] Suc.hyps(2) k by simp
  ultimately show ?case by simp
qed

lemma free_remaining_ok:
  assumes "tracked sz ba ops s" "\<forall>b. 0 \<le> sz b" "distinct (map fst lb)" "fst ` set lb \<subseteq> slive ops" "\<forall>x \<in> set lb. snd x = {None}"
  shows "\<exists>s'. free_remaining ha_Free sz lb s = Some s' \<and> tracked sz ba (ops @ map SimFree (map fst lb)) s'"
  using assms
proof (induction lb arbitrary: ops s)
  case (Cons p lb)
  obtain b q where p: "p = (b, q)" by fastforce
  obtain s1 where s1: "sim_Free ha_Free sz s b = Some s1" "tracked sz ba (ops @ [SimFree b]) s1"
    using tracked_step [OF Cons.prems(1,2), of "SimFree b"] Cons.prems(4) p by (auto simp: sim_ok_def)
  have "fst ` set lb \<subseteq> slive (ops @ [SimFree b])" using Cons.prems(3,4) p by (auto simp: slive_free)
  from Cons.IH [OF s1(2) Cons.prems(2) _ this] show ?case using s1(1) Cons.prems(3,5) p by auto
qed simp

lemma RunComputation_ok:
  assumes ok: "hlo_ok H ba seq" and nn: "\<forall>b. 0 \<le> sz b" and sh: "\<forall>b d. shares H b d \<longrightarrow> sz b \<le> sz d"
  shows "\<exists>s ops. RunComputation (Suc d) ha_Alloc ha_Free sz H None c seq (new_HeapSimulator init ba) = Some s \<and>
    tracked sz ba ops s \<and> introduced ops = all_assignable H ba seq \<and> slive ops = {} \<and> shares_ok H ops \<and>
    (\<forall>j < length seq. \<exists>i \<le> length ops. needed H ba c seq j \<subseteq> slive (take i ops))"
proof -
  have i0: "loop_inv sz H ba c seq 0 [] (new_HeapSimulator init ba) []"
    by (simp add: loop_inv_def tracked_def wf_sim_def all_assignable_def slive_def shares_ok_def)
  obtain lb s ops where l: "run_instructions ha_Alloc ha_Free sz H (RunComputation d ha_Alloc ha_Free sz H None) None c seq []
      (new_HeapSimulator init ba) = Some (lb, s)" "loop_inv sz H ba c seq (length seq) lb s ops"
    using run_instructions_ok [OF ok nn sh i0, of "RunComputation d ha_Alloc ha_Free sz H None"] by auto
  have tr: "tracked sz ba ops s" and dl: "distinct (map fst lb)"
    and ml: "map_of lb = (\<lambda>b. if b \<in> set (all_assignable H ba seq) then some_nonempty (pend H c seq (length seq) b) else None)"
    and sl: "slive ops = {b \<in> set (all_assignable H ba seq). pend H c seq (length seq) b \<noteq> {}}"
    and it: "introduced ops = all_assignable H ba seq" and so: "shares_ok H ops"
    and nd: "\<forall>j < length seq. \<exists>i \<le> length ops. needed H ba c seq j \<subseteq> slive (take i ops)"
    using l(2) by (simp_all add: loop_inv_def)
  have keys: "fst ` set lb = slive ops"
  proof -
    have "fst ` set lb = dom (map_of lb)" by (simp add: dom_map_of_conv_image_fst)
    also have "\<dots> = slive ops" unfolding ml sl by (auto split: if_splits)
    finally show ?thesis .
  qed
  have last: "\<forall>x \<in> set lb. snd x = {None}"
  proof
    fix x assume x: "x \<in> set lb"
    then have m: "map_of lb (fst x) = Some (snd x)" using dl by simp
    then have b: "fst x \<in> set (all_assignable H ba seq)" "snd x = pend H c seq (length seq) (fst x)" "snd x \<noteq> {}"
      unfolding ml by (auto split: if_splits)
    obtain j where j: "j < length seq" "fst x \<in> set (assignable H ba (seq ! j))"
      using all_assignable_nth [of "fst x" H ba "length seq" seq] b(1) by auto
    have "uses H (fst x) \<subseteq> set seq" unfolding hlo_ok_uses [OF ok j] using set_drop_subset [of "Suc j" seq] by blast
    then have e: "uses H (fst x) - set seq = {}" by blast
    have "snd x = Some ` (uses H (fst x) - set seq) \<union> (if keep H c (fst x) then {None} else {})" using b(2) by (simp add: pend_def)
    then have "snd x = (if keep H c (fst x) then {None} else {})" unfolding e by (simp only: image_empty Un_empty_left)
    then show "snd x = {None}" using b(3) by (simp split: if_splits)
  qed
  obtain s' where s': "free_remaining ha_Free sz lb s = Some s'" "tracked sz ba (ops @ map SimFree (map fst lb)) s'"
    using free_remaining_ok [OF tr nn dl _ last] keys by blast
  let ?ops = "ops @ map SimFree (map fst lb)"
  have "slive ?ops = {}" unfolding slive_append_free using keys by simp
  moreover have "shares_ok H ?ops" using so by (auto simp: shares_ok_def)
  moreover have "\<exists>i \<le> length ?ops. needed H ba c seq j \<subseteq> slive (take i ?ops)" if "j < length seq" for j
  proof -
    from nd [rule_format, OF that] obtain i where "i \<le> length ops" "needed H ba c seq j \<subseteq> slive (take i ops)" by (elim exE conjE)
    then show ?thesis by (intro exI [of _ i]) simp
  qed
  moreover have "introduced ?ops = all_assignable H ba seq" using it by (simp del: map_map)
  moreover have "RunComputation (Suc d) ha_Alloc ha_Free sz H None c seq (new_HeapSimulator init ba) = Some s'"
    using l(1) s'(1) by simp
  ultimately show ?thesis using s'(2) by blast
qed

end

text \<open>
  The assignment in terms of the computation: every assignable buffer has its chunk; two
  buffers needed by the same instruction are disjoint unless a chain of permitted in-place
  results connects them, and then they start at the same offset.
\<close>

definition computation_assigned :: "(buffer \<Rightarrow> int) \<Rightarrow> int \<Rightarrow> hlo \<Rightarrow> buffer set option \<Rightarrow> comp \<Rightarrow> instr list \<Rightarrow> heap_result \<Rightarrow> bool" where
  "computation_assigned size_fn al H ba c seq r \<longleftrightarrow>
     set (map fst (chunk_map r)) = set (all_assignable H ba seq) \<and> distinct (map fst (chunk_map r)) \<and>
     (\<forall>(b, ch) \<in> set (chunk_map r). csize ch = size_fn b \<and> 0 \<le> offset ch \<and> al dvd offset ch \<and> chunk_end ch \<le> heap_size r) \<and>
     (\<forall>(a, ch) \<in> set (chunk_map r). \<forall>(b, dh) \<in> set (chunk_map r). \<forall>k < length seq.
        a \<in> needed H ba c seq k \<longrightarrow> b \<in> needed H ba c seq k \<longrightarrow>
          chunks_disjoint ch dh \<or> size_fn a = 0 \<or> size_fn b = 0 \<or> share_chain H a b \<and> offset ch = offset dh)"

text \<open>
  C13. Running the heap simulation on a computation: when every buffer is defined once, the users
  of a buffer are the later instructions that read it, and a result only shares the memory of an
  operand that is large enough, the simulation over
  \<open>DecreasingSizeRunsHeap(LazyBestFitHeap)\<close> fails no \<open>CHECK\<close> and returns an aligned
  chunk of the right size for every buffer, such that any two buffers needed by the same
  instruction are disjoint or related by in-place sharing.
\<close>
theorem heap_simulation_of_computation:
  assumes "0 < al" "\<forall>b. 0 \<le> size_fn b" "hlo_ok H ba seq" "\<forall>b d. shares H b d \<longrightarrow> size_fn b \<le> size_fn d"
    and "ba = None \<or> ba = Some (set (all_assignable H ba seq))"
  shows "\<exists>r. Run (Suc d) xla_Alloc xla_Free xla_Finish (new_runs (new_lazy al)) H size_fn ba c seq = Some r \<and>
    computation_assigned size_fn al H ba c seq r \<and> 0 \<le> fragmentation_size r"
proof -
  note ha = xla_heap_algorithm [OF assms(1)]
  obtain s ops where s: "RunComputation (Suc d) xla_Alloc xla_Free size_fn H None c seq (new_HeapSimulator (new_runs (new_lazy al)) ba) = Some s"
    "heap_algorithm.tracked xla_Alloc xla_Free (new_runs (new_lazy al)) size_fn ba ops s"
    "introduced ops = all_assignable H ba seq" "slive ops = {}" "shares_ok H ops"
    "\<forall>j < length seq. \<exists>i \<le> length ops. needed H ba c seq j \<subseteq> slive (take i ops)"
    using heap_algorithm.RunComputation_ok [OF ha assms(3,2,4)] by blast
  have tr: "run_sim xla_Alloc xla_Free size_fn ops (new_HeapSimulator (new_runs (new_lazy al)) ba) = Some s" "wf_sim size_fn ops"
    using s(2) heap_algorithm.tracked_def [OF ha] by auto
  obtain r where r: "sim_Finish xla_Finish size_fn s = Some r" "assigned size_fn al ops r" "0 \<le> fragmentation_size r"
    using heap_algorithm.sim_assigns [OF ha tr(2) s(4) assms(2), of ba] assms(5) tr(1) s(3) by auto
  have "computation_assigned size_fn al H ba c seq r"
    unfolding computation_assigned_def Ball_def split_paired_All case_prod_conv
  proof (intro conjI allI impI)
    show "set (map fst (chunk_map r)) = set (all_assignable H ba seq)" "distinct (map fst (chunk_map r))"
      using r(2) s(3) by (simp_all add: assigned_def)
    show "csize ch = size_fn b" "0 \<le> offset ch" "al dvd offset ch" "chunk_end ch \<le> heap_size r"
      if "(b, ch) \<in> set (chunk_map r)" for b ch using r(2) that by (auto simp: assigned_def)
    fix a ch b dh k
    assume m: "(a, ch) \<in> set (chunk_map r)" "(b, dh) \<in> set (chunk_map r)" and k: "k < length seq"
      and n: "a \<in> needed H ba c seq k" "b \<in> needed H ba c seq k"
    have as: "if canon ops a = canon ops b then offset ch = offset dh
        else sinterfere ops a b \<longrightarrow> chunks_disjoint ch dh \<or> csize ch = 0 \<or> csize dh = 0"
      using r(2) m unfolding assigned_def by blast
    have cs: "csize ch = size_fn a" "csize dh = size_fn b" using r(2) m by (auto simp: assigned_def)
    have "sinterfere ops a b"
    proof -
      from s(6) [rule_format, OF k] obtain i where "i \<le> length ops" "needed H ba c seq k \<subseteq> slive (take i ops)" by (elim exE conjE)
      then show ?thesis using n unfolding sinterfere_def by (intro exI [of _ i]) (simp add: subset_iff)
    qed
    then show "chunks_disjoint ch dh \<or> size_fn a = 0 \<or> size_fn b = 0 \<or> share_chain H a b \<and> offset ch = offset dh"
      using as cs share_chain_same [OF s(5) tr(2), of a b] by (auto split: if_splits)
  qed
  then show ?thesis using s(1) r by (auto simp: Run_def)
qed

text \<open>
  Witness: a parameter (buffer 10), a sum of the parameter with itself (buffer 11) and its
  negation (buffer 12, the output), which may overwrite the sum.
\<close>
definition example_hlo :: hlo where
  "example_hlo = \<lparr>opcode_of = (\<lambda>i. if i = 0 then kParameter else kOther),
     operands = (\<lambda>i. if i = 1 then [0, 0] else if i = 2 then [1] else []),
     users = (\<lambda>i. if i = 0 then [1] else if i = 1 then [2] else []),
     called_computations = (\<lambda>_. []), root_instruction = (\<lambda>_. 2), entry_computation = 0,
     points_to = (\<lambda>i. [i + 10]), buffers_defined = (\<lambda>i. [i + 10]), alias_instructions = (\<lambda>b. [b - 10]),
     buffer_instruction = (\<lambda>b. b - 10), can_share = (\<lambda>ob b. ob = 11 \<and> b = 12)\<rparr>"

lemma example_hlo_ok: "hlo_ok example_hlo None [0, 1, 2]"
  by (simp add: hlo_ok_def All_less_Suc example_hlo_def uses_def sources_def assignable_def all_assignable_def ign_def) auto

theorem heap_simulation_of_computation_witness:
  "\<exists>r. Run (Suc 0) xla_Alloc xla_Free xla_Finish (new_runs (new_lazy 8)) example_hlo (\<lambda>_. 16) None 0 [0, 1, 2] = Some r \<and>
    computation_assigned (\<lambda>_. 16) 8 example_hlo None 0 [0, 1, 2] r \<and> 0 \<le> fragmentation_size r"
  by (rule heap_simulation_of_computation [OF _ _ example_hlo_ok]) simp_all

end
