(* ===== verification/DeviceName.thy ===== *)
theory DeviceName
  imports Numbers
begin

text \<open>
  Device names, \<^verbatim>\<open>core/util/device_name_utils.{h,cc}\<close>, with the text-consuming helpers of
  \<^verbatim>\<open>core/lib/strings/str_util.cc\<close> that the parser calls. A consumer returns the consumed
  value and the rest of the text, or \<open>None\<close> where the C++ returns false; what a failed
  \<open>ParseFullName\<close> leaves in its output argument is not part of the model. An \<open>int\<close>
  field of \<open>ParsedName\<close> holds the value of a 32-bit signed integer. A failed \<open>CHECK\<close> is
  \<open>None\<close>.
\<close>

section \<open>Consuming text\<close>

definition ConsumePrefix :: "string \<Rightarrow> string \<Rightarrow> string option" where
  "ConsumePrefix expected s = (if take (length expected) s = expected then Some (drop (length expected) s) else None)"

fun leading_digits :: "uint64 \<Rightarrow> string \<Rightarrow> (uint64 \<times> string) option" where
  "leading_digits v [] = Some (v, [])"
| "leading_digits v (c # p) =
     (if \<not> isdigit c then Some (v, c # p)
      else let new_v = v * 10 + word_of_int (digit_of c) in
           if new_v div 8 < v then None else leading_digits new_v p)"

definition ConsumeLeadingDigits :: "string \<Rightarrow> (uint64 \<times> string) option" where
  "ConsumeLeadingDigits s =
     (case leading_digits 0 s of
        None \<Rightarrow> None
      | Some (v, p) \<Rightarrow> if length p < length s then Some (v, p) else None)"

definition tolower :: "char \<Rightarrow> char" where
  "tolower c = (if 65 \<le> (of_char c :: nat) \<and> (of_char c :: nat) \<le> 90 then char_of ((of_char c :: nat) + 32) else c)"

definition Lowercase :: "string \<Rightarrow> string" where
  "Lowercase s = map tolower s"

section \<open>Model\<close>

definition IsAlpha :: "char \<Rightarrow> bool" where
  "IsAlpha c \<longleftrightarrow> 97 \<le> (of_char c :: nat) \<and> (of_char c :: nat) \<le> 122 \<or> 65 \<le> (of_char c :: nat) \<and> (of_char c :: nat) \<le> 90"

definition IsAlphaNum :: "char \<Rightarrow> bool" where
  "IsAlphaNum c \<longleftrightarrow> IsAlpha c \<or> 48 \<le> (of_char c :: nat) \<and> (of_char c :: nat) \<le> 57"

abbreviation name_char :: "char \<Rightarrow> bool" where
  "name_char c \<equiv> IsAlphaNum c \<or> c = CHR ''_''"

fun IsJobName :: "string \<Rightarrow> bool" where
  "IsJobName [] = False"
| "IsJobName (c # cs) = (IsAlpha c \<and> list_all name_char cs)"

text \<open>The scanning loop of the two name consumers, which differ in the characters that end a name.\<close>

fun scan_name :: "(char \<Rightarrow> bool) \<Rightarrow> string \<Rightarrow> (string \<times> string) option" where
  "scan_name stop [] = Some ([], [])"
| "scan_name stop (c # cs) =
     (if stop c then Some ([], c # cs)
      else if \<not> name_char c then None
      else map_option (\<lambda>(name, rest). (c # name, rest)) (scan_name stop cs))"

fun consume_name :: "(char \<Rightarrow> bool) \<Rightarrow> string \<Rightarrow> (string \<times> string) option" where
  "consume_name stop [] = None"
| "consume_name stop (c # cs) =
     (if \<not> IsAlpha c then None else map_option (\<lambda>(name, rest). (c # name, rest)) (scan_name stop cs))"

definition ConsumeJobName :: "string \<Rightarrow> (string \<times> string) option" where
  "ConsumeJobName = consume_name (\<lambda>c. c = CHR ''/'')"

definition ConsumeDeviceType :: "string \<Rightarrow> (string \<times> string) option" where
  "ConsumeDeviceType = consume_name (\<lambda>c. c = CHR ''/'' \<or> c = CHR '':'')"

text \<open>\<open>*val = tmp\<close> converts the \<open>uint64\<close> to an \<open>int\<close>: the low 32 bits, read as a signed number.\<close>

definition ConsumeNumber :: "string \<Rightarrow> (int \<times> string) option" where
  "ConsumeNumber s = map_option (\<lambda>(tmp, rest). (sint (ucast tmp :: uint32), rest)) (ConsumeLeadingDigits s)"

record ParsedName =
  has_job :: bool
  job :: string
  has_replica :: bool
  replica :: int
  has_task :: bool
  task :: int
  has_type :: bool
  dev_type :: string
  has_id :: bool
  dev_id :: int

definition ParsedName_Clear :: ParsedName where
  "ParsedName_Clear = \<lparr>has_job = False, job = [], has_replica = False, replica = 0, has_task = False, task = 0,
     has_type = False, dev_type = [], has_id = False, dev_id = 0\<rparr>"

definition ParsedName_eq :: "ParsedName \<Rightarrow> ParsedName \<Rightarrow> bool" where
  "ParsedName_eq p q \<longleftrightarrow>
     (if has_job p then has_job q \<and> job p = job q else \<not> has_job q) \<and>
     (if has_replica p then has_replica q \<and> replica p = replica q else \<not> has_replica q) \<and>
     (if has_task p then has_task q \<and> task p = task q else \<not> has_task q) \<and>
     (if has_type p then has_type q \<and> dev_type p = dev_type q else \<not> has_type q) \<and>
     (if has_id p then has_id q \<and> dev_id p = dev_id q else \<not> has_id q)"

definition HasSomeDetails :: "ParsedName \<Rightarrow> bool" where
  "HasSomeDetails p \<longleftrightarrow> has_job p \<or> has_replica p \<or> has_task p \<or> has_type p \<or> has_id p"

definition StrCat_full :: "string \<Rightarrow> int \<Rightarrow> int \<Rightarrow> string" where
  "StrCat_full j r t = ''/job:'' @ j @ ''/replica:'' @ FastInt32ToBufferLeft r @ ''/task:'' @ FastInt32ToBufferLeft t"

definition FullName :: "string \<Rightarrow> int \<Rightarrow> int \<Rightarrow> string \<Rightarrow> int \<Rightarrow> string option" where
  "FullName j r t ty i =
     (if IsJobName j \<and> 0 \<le> r \<and> 0 \<le> t \<and> ty \<noteq> [] \<and> 0 \<le> i
      then Some (StrCat_full j r t @ ''/device:'' @ ty @ '':'' @ FastInt32ToBufferLeft i) else None)"

definition LegacyName :: "string \<Rightarrow> int \<Rightarrow> int \<Rightarrow> string \<Rightarrow> int \<Rightarrow> string option" where
  "LegacyName j r t ty i =
     (if IsJobName j \<and> 0 \<le> r \<and> 0 \<le> t \<and> ty \<noteq> [] \<and> 0 \<le> i
      then Some (StrCat_full j r t @ ''/'' @ Lowercase ty @ '':'' @ FastInt32ToBufferLeft i) else None)"

text \<open>
  One section of the loop of \<open>ParseFullName\<close> maps the rest of the name, the fields parsed so
  far and the flag \<open>progress\<close>; \<open>None\<close> is \<open>return false\<close>. A field that is given as \<open>*\<close>
  clears its flag and keeps the old value.
\<close>

type_synonym parse_state = "string \<times> ParsedName \<times> bool"

definition consume_field :: "(string \<Rightarrow> ('a \<times> string) option) \<Rightarrow> 'a \<Rightarrow> string \<Rightarrow> (bool \<times> 'a \<times> string) option" where
  "consume_field consume old s =
     (case ConsumePrefix ''*'' s of
        Some s' \<Rightarrow> Some (False, old, s')
      | None \<Rightarrow> map_option (\<lambda>(v, s'). (True, v, s')) (consume s))"

fun parse_job :: "parse_state \<Rightarrow> parse_state option" where
  "parse_job (s, p, progress) =
     (case ConsumePrefix ''/job:'' s of
        None \<Rightarrow> Some (s, p, progress)
      | Some s \<Rightarrow> map_option (\<lambda>(h, v, s). (s, p\<lparr>has_job := h, job := v\<rparr>, True)) (consume_field ConsumeJobName (job p) s))"

fun parse_replica :: "parse_state \<Rightarrow> parse_state option" where
  "parse_replica (s, p, progress) =
     (case ConsumePrefix ''/replica:'' s of
        None \<Rightarrow> Some (s, p, progress)
      | Some s \<Rightarrow> map_option (\<lambda>(h, v, s). (s, p\<lparr>has_replica := h, replica := v\<rparr>, True)) (consume_field ConsumeNumber (replica p) s))"

fun parse_task :: "parse_state \<Rightarrow> parse_state option" where
  "parse_task (s, p, progress) =
     (case ConsumePrefix ''/task:'' s of
        None \<Rightarrow> Some (s, p, progress)
      | Some s \<Rightarrow> map_option (\<lambda>(h, v, s). (s, p\<lparr>has_task := h, task := v\<rparr>, True)) (consume_field ConsumeNumber (task p) s))"

fun parse_device :: "parse_state \<Rightarrow> parse_state option" where
  "parse_device (s, p, progress) =
     (case ConsumePrefix ''/device:'' s of
        None \<Rightarrow> Some (s, p, progress)
      | Some s \<Rightarrow>
          (case consume_field ConsumeDeviceType (dev_type p) s of
             None \<Rightarrow> None
           | Some (h, v, s) \<Rightarrow>
               let p = p\<lparr>has_type := h, dev_type := v\<rparr> in
               (case ConsumePrefix '':'' s of
                  None \<Rightarrow> Some (s, p\<lparr>has_id := False\<rparr>, True)
                | Some s \<Rightarrow> map_option (\<lambda>(h, v, s). (s, p\<lparr>has_id := h, dev_id := v\<rparr>, True)) (consume_field ConsumeNumber (dev_id p) s))))"

fun parse_legacy :: "string \<Rightarrow> string \<Rightarrow> string \<Rightarrow> parse_state \<Rightarrow> parse_state option" where
  "parse_legacy lower upper ty (s, p, progress) =
     (case (case ConsumePrefix lower s of None \<Rightarrow> ConsumePrefix upper s | Some s \<Rightarrow> Some s) of
        None \<Rightarrow> Some (s, p, progress)
      | Some s \<Rightarrow>
          let p = p\<lparr>has_type := True, dev_type := ty\<rparr> in
          map_option (\<lambda>(h, v, s). (s, p\<lparr>has_id := h, dev_id := v\<rparr>, True)) (consume_field ConsumeNumber (dev_id p) s))"

definition parse_round :: "parse_state \<Rightarrow> parse_state option" where
  "parse_round st =
     Option.bind (Option.bind (Option.bind (Option.bind (Option.bind (parse_job st) parse_replica) parse_task) parse_device)
       (parse_legacy ''/cpu:'' ''/CPU:'' ''CPU'')) (parse_legacy ''/gpu:'' ''/GPU:'' ''GPU'')"


lemma ConsumePrefixD: "ConsumePrefix e s = Some s' \<Longrightarrow> s = e @ s'"
  by (auto simp: ConsumePrefix_def split: if_splits) (metis append_take_drop_id)

lemma ConsumePrefix_append [simp]: "ConsumePrefix e (e @ s) = Some s"
  by (simp add: ConsumePrefix_def)

text \<open>
  What a section consumes is a part of the text without a semicolon; a section that makes progress
  consumes something. The separator of rendezvous keys therefore never occurs in a device name.
\<close>

definition consumed :: "string \<Rightarrow> string \<Rightarrow> bool" where
  "consumed s s' \<longleftrightarrow> (\<exists>u. s = u @ s' \<and> CHR '';'' \<notin> set u)"

lemma consumed_refl: "consumed s s"
  by (simp add: consumed_def)

lemma consumed_trans: "consumed s s' \<Longrightarrow> consumed s' s'' \<Longrightarrow> consumed s s''"
  unfolding consumed_def by (elim exE conjE) (rule_tac x = "u @ ua" in exI, simp)

lemma consumed_length: "consumed s s' \<Longrightarrow> length s' \<le> length s"
  by (auto simp: consumed_def)

lemma consumed_prefix: "ConsumePrefix e s = Some s' \<Longrightarrow> CHR '';'' \<notin> set e \<Longrightarrow> consumed s s'"
  unfolding consumed_def by (blast dest: ConsumePrefixD)

lemma name_char_semicolon: "name_char c \<Longrightarrow> c \<noteq> CHR '';''"
  by (auto simp: IsAlphaNum_def IsAlpha_def)

lemma scan_name_consumed: "scan_name stop s = Some (v, s') \<Longrightarrow> consumed s s' \<and> s = v @ s' \<and> list_all name_char v \<and> (s' = [] \<or> stop (hd s'))"
proof (induction s arbitrary: v)
  case (Cons c s)
  then show ?case using name_char_semicolon [of c]
    by (fastforce simp: consumed_def split: if_splits)
qed (simp add: consumed_def)

lemma consume_name_consumed: "consume_name stop s = Some (v, s') \<Longrightarrow> consumed s s' \<and> IsJobName v \<and> s = v @ s'"
proof (cases s)
  case (Cons c cs)
  assume "consume_name stop s = Some (v, s')"
  then obtain n where n: "IsAlpha c" "scan_name stop cs = Some (n, s')" "v = c # n" using Cons by (auto split: if_splits)
  have "c \<noteq> CHR '';''" using n(1) name_char_semicolon [of c] by (simp add: IsAlphaNum_def)
  then show ?thesis using scan_name_consumed [OF n(2)] n Cons by (auto simp: consumed_def list_all_iff)
qed simp

lemma leading_digits_consumed: "leading_digits v s = Some (w, s') \<Longrightarrow> consumed s s'"
proof (induction v s rule: leading_digits.induct)
  case (2 v c p)
  show ?case
  proof (cases "isdigit c")
    case True
    then have "c \<noteq> CHR '';''" by (auto simp: isdigit_def)
    moreover have "consumed p s'" using 2 True by (auto simp: Let_def split: if_splits)
    ultimately show ?thesis unfolding consumed_def by (elim exE conjE) (rule_tac x = "c # u" in exI, simp)
  next
    case False
    then show ?thesis using 2 by (simp add: consumed_refl)
  qed
qed (simp add: consumed_refl)

lemma ConsumeNumber_consumed: "ConsumeNumber s = Some (v, s') \<Longrightarrow> consumed s s' \<and> - (2 ^ 31) \<le> v \<and> v < 2 ^ 31"
  using leading_digits_consumed sint_greater_eq [where 'a = 32] sint_less [where 'a = 32]
  by (fastforce simp: ConsumeNumber_def ConsumeLeadingDigits_def split: option.splits if_splits)

lemma consume_field_consumed:
  assumes "consume_field consume old s = Some (h, v, s')"
    and "\<And>w s''. consume s = Some (w, s'') \<Longrightarrow> consumed s s'' \<and> P w"
  shows "consumed s s' \<and> (h \<longrightarrow> P v)"
  using assms consumed_prefix [of "''*''" s]
  by (auto simp: consume_field_def split: option.splits)

text \<open>The fields that are present are well formed.\<close>

definition parsed_ok :: "ParsedName \<Rightarrow> bool" where
  "parsed_ok p \<longleftrightarrow> (has_job p \<longrightarrow> IsJobName (job p)) \<and>
     (has_replica p \<longrightarrow> - (2 ^ 31) \<le> replica p \<and> replica p < 2 ^ 31) \<and>
     (has_task p \<longrightarrow> - (2 ^ 31) \<le> task p \<and> task p < 2 ^ 31) \<and>
     (has_type p \<longrightarrow> IsJobName (dev_type p)) \<and>
     (has_id p \<longrightarrow> - (2 ^ 31) \<le> dev_id p \<and> dev_id p < 2 ^ 31)"

definition section_ok :: "(parse_state \<Rightarrow> parse_state option) \<Rightarrow> bool" where
  "section_ok f \<longleftrightarrow> (\<forall>s p pr s' p' pr'. f (s, p, pr) = Some (s', p', pr') \<longrightarrow>
     consumed s s' \<and> (pr' \<longrightarrow> pr \<or> length s' < length s) \<and> (parsed_ok p \<longrightarrow> parsed_ok p'))"


lemma section_okI:
  assumes "\<And>s p pr s' p' pr'. f (s, p, pr) = Some (s', p', pr') \<Longrightarrow> (s', p', pr') \<noteq> (s, p, pr) \<Longrightarrow>
    \<exists>e s1. ConsumePrefix e s = Some s1 \<and> e \<noteq> [] \<and> CHR '';'' \<notin> set e \<and> consumed s1 s' \<and> (parsed_ok p \<longrightarrow> parsed_ok p')"
  shows "section_ok f"
  unfolding section_ok_def
proof (intro allI impI)
  fix s p pr s' p' pr'
  assume f: "f (s, p, pr) = Some (s', p', pr')"
  show "consumed s s' \<and> (pr' \<longrightarrow> pr \<or> length s' < length s) \<and> (parsed_ok p \<longrightarrow> parsed_ok p')"
  proof (cases "(s', p', pr') = (s, p, pr)")
    case False
    then obtain e s1 where e: "ConsumePrefix e s = Some s1" "e \<noteq> []" "CHR '';'' \<notin> set e" "consumed s1 s'" "parsed_ok p \<longrightarrow> parsed_ok p'"
      using assms [OF f] by blast
    have "length s1 < length s" using ConsumePrefixD [OF e(1)] e(2) by simp
    then show ?thesis using consumed_trans [OF consumed_prefix [OF e(1,3)] e(4)] consumed_length [OF e(4)] e(5) by auto
  qed (auto simp: consumed_refl)
qed

lemma parse_job_ok: "section_ok parse_job"
proof (rule section_okI)
  fix s p pr s' p' pr'
  assume a: "parse_job (s, p, pr) = Some (s', p', pr')" "(s', p', pr') \<noteq> (s, p, pr)"
  then obtain s1 h v where s1: "ConsumePrefix ''/job:'' s = Some s1" "consume_field ConsumeJobName (job p) s1 = Some (h, v, s')"
    "p' = p\<lparr>has_job := h, job := v\<rparr>" by (auto split: option.splits)
  have "consumed s1 s' \<and> (h \<longrightarrow> IsJobName v)"
    using s1(2) by (rule consume_field_consumed) (auto simp: ConsumeJobName_def dest: consume_name_consumed)
  then show "\<exists>e s1. ConsumePrefix e s = Some s1 \<and> e \<noteq> [] \<and> CHR '';'' \<notin> set e \<and> consumed s1 s' \<and> (parsed_ok p \<longrightarrow> parsed_ok p')"
    using s1(1,3) by (intro exI [of _ "''/job:''"] exI [of _ s1]) (simp add: parsed_ok_def)
qed

abbreviation int32 :: "int \<Rightarrow> bool" where
  "int32 v \<equiv> - (2 ^ 31) \<le> v \<and> v < 2 ^ 31"

lemma consume_number_field:
  "consume_field ConsumeNumber old s = Some (h, v, s') \<Longrightarrow> consumed s s' \<and> (h \<longrightarrow> int32 v)"
  by (rule consume_field_consumed) (auto dest: ConsumeNumber_consumed)

lemma parse_replica_ok: "section_ok parse_replica"
proof (rule section_okI)
  fix s p pr s' p' pr'
  assume a: "parse_replica (s, p, pr) = Some (s', p', pr')" "(s', p', pr') \<noteq> (s, p, pr)"
  then obtain s1 h v where s1: "ConsumePrefix ''/replica:'' s = Some s1" "consume_field ConsumeNumber (replica p) s1 = Some (h, v, s')"
    "p' = p\<lparr>has_replica := h, replica := v\<rparr>" by (auto split: option.splits)
  then show "\<exists>e s1. ConsumePrefix e s = Some s1 \<and> e \<noteq> [] \<and> CHR '';'' \<notin> set e \<and> consumed s1 s' \<and> (parsed_ok p \<longrightarrow> parsed_ok p')"
    using consume_number_field [OF s1(2)] by (intro exI [of _ "''/replica:''"] exI [of _ s1]) (simp add: parsed_ok_def)
qed

lemma parse_task_ok: "section_ok parse_task"
proof (rule section_okI)
  fix s p pr s' p' pr'
  assume a: "parse_task (s, p, pr) = Some (s', p', pr')" "(s', p', pr') \<noteq> (s, p, pr)"
  then obtain s1 h v where s1: "ConsumePrefix ''/task:'' s = Some s1" "consume_field ConsumeNumber (task p) s1 = Some (h, v, s')"
    "p' = p\<lparr>has_task := h, task := v\<rparr>" by (auto split: option.splits)
  then show "\<exists>e s1. ConsumePrefix e s = Some s1 \<and> e \<noteq> [] \<and> CHR '';'' \<notin> set e \<and> consumed s1 s' \<and> (parsed_ok p \<longrightarrow> parsed_ok p')"
    using consume_number_field [OF s1(2)] by (intro exI [of _ "''/task:''"] exI [of _ s1]) (simp add: parsed_ok_def)
qed

lemma parse_device_ok: "section_ok parse_device"
proof (rule section_okI)
  fix s p pr s' p' pr'
  assume a: "parse_device (s, p, pr) = Some (s', p', pr')" "(s', p', pr') \<noteq> (s, p, pr)"
  then obtain s1 h v s2 where s1: "ConsumePrefix ''/device:'' s = Some s1" "consume_field ConsumeDeviceType (dev_type p) s1 = Some (h, v, s2)"
    by (auto split: option.splits)
  have c2: "consumed s1 s2 \<and> (h \<longrightarrow> IsJobName v)"
    using s1(2) by (rule consume_field_consumed) (auto simp: ConsumeDeviceType_def dest: consume_name_consumed)
  have "consumed s2 s' \<and> (parsed_ok p \<longrightarrow> parsed_ok p')"
  proof (cases "ConsumePrefix '':'' s2")
    case None
    then have "s' = s2" "p' = p\<lparr>has_type := h, dev_type := v, has_id := False\<rparr>" using a(1) s1 by (simp_all add: Let_def)
    then show ?thesis using c2 by (simp add: parsed_ok_def consumed_refl)
  next
    case (Some s3)
    then obtain h' v' where f: "consume_field ConsumeNumber (dev_id p) s3 = Some (h', v', s')"
      "p' = p\<lparr>has_type := h, dev_type := v, has_id := h', dev_id := v'\<rparr>" using a(1) s1 by (auto simp: Let_def)
    note n = consume_number_field [OF f(1)]
    have "consumed s2 s3" using consumed_prefix [OF Some] by simp
    then have "consumed s2 s'" using n by (blast intro: consumed_trans)
    then show ?thesis using n c2 f(2) by (simp add: parsed_ok_def)
  qed
  then show "\<exists>e s1. ConsumePrefix e s = Some s1 \<and> e \<noteq> [] \<and> CHR '';'' \<notin> set e \<and> consumed s1 s' \<and> (parsed_ok p \<longrightarrow> parsed_ok p')"
    using s1(1) c2 consumed_trans [of s1 s2 s'] by (intro exI [of _ "''/device:''"] exI [of _ s1]) simp
qed

lemma parse_legacy_ok:
  assumes "CHR '';'' \<notin> set lower" "CHR '';'' \<notin> set upper" "lower \<noteq> []" "upper \<noteq> []" "IsJobName ty"
  shows "section_ok (parse_legacy lower upper ty)"
proof (rule section_okI)
  fix s p pr s' p' pr'
  assume a: "parse_legacy lower upper ty (s, p, pr) = Some (s', p', pr')" "(s', p', pr') \<noteq> (s, p, pr)"
  then obtain e s1 where s1: "ConsumePrefix e s = Some s1" "e \<in> {lower, upper}"
    "(case ConsumePrefix lower s of None \<Rightarrow> ConsumePrefix upper s | Some s \<Rightarrow> Some s) = Some s1"
    by (auto split: option.splits)
  obtain h v where f: "consume_field ConsumeNumber (dev_id p) s1 = Some (h, v, s')"
    "p' = p\<lparr>has_type := True, dev_type := ty, has_id := h, dev_id := v\<rparr>"
    using a(1) unfolding parse_legacy.simps s1(3) by (auto simp: Let_def)
  show "\<exists>e s1. ConsumePrefix e s = Some s1 \<and> e \<noteq> [] \<and> CHR '';'' \<notin> set e \<and> consumed s1 s' \<and> (parsed_ok p \<longrightarrow> parsed_ok p')"
    using s1(1,2) consume_number_field [OF f(1)] f(2) assms
    by (intro exI [of _ e] exI [of _ s1]) (auto simp: parsed_ok_def)
qed


lemma section_ok_bind:
  assumes "section_ok f" "section_ok g"
  shows "section_ok (\<lambda>st. Option.bind (f st) g)"
  unfolding section_ok_def
proof (intro allI impI)
  fix s p pr s' p' pr'
  assume "Option.bind (f (s, p, pr)) g = Some (s', p', pr')"
  then obtain s1 p1 pr1 where f: "f (s, p, pr) = Some (s1, p1, pr1)" and g: "g (s1, p1, pr1) = Some (s', p', pr')"
    by (auto simp: bind_eq_Some_conv)
  note F = assms(1) [unfolded section_ok_def, rule_format, OF f] and G = assms(2) [unfolded section_ok_def, rule_format, OF g]
  show "consumed s s' \<and> (pr' \<longrightarrow> pr \<or> length s' < length s) \<and> (parsed_ok p \<longrightarrow> parsed_ok p')"
    using F G consumed_trans [of s s1 s'] consumed_length [of s s1] consumed_length [of s1 s'] by auto
qed


lemma parse_round_ok: "section_ok parse_round"
  unfolding parse_round_def
  by (intro section_ok_bind parse_job_ok parse_replica_ok parse_task_ok parse_device_ok parse_legacy_ok)
    (simp_all add: IsAlpha_def IsAlphaNum_def)

lemmas parse_roundD = parse_round_ok [unfolded section_ok_def, rule_format]

function parse_loop :: "string \<Rightarrow> ParsedName \<Rightarrow> ParsedName option" where
  "parse_loop fullname p =
     (if fullname = [] then Some p
      else case parse_round (fullname, p, False) of
             None \<Rightarrow> None
           | Some (rest, p', progress) \<Rightarrow> if progress then parse_loop rest p' else None)"
  by pat_completeness auto
termination
  by (relation "measure (\<lambda>(s, p). length s)") (auto dest: parse_roundD)

declare parse_loop.simps [simp del]

definition ParseFullName :: "string \<Rightarrow> ParsedName option" where
  "ParseFullName fullname = (if fullname = ''/'' then Some ParsedName_Clear else parse_loop fullname ParsedName_Clear)"

lemma parse_loop_ok: "parse_loop s p = Some q \<Longrightarrow> CHR '';'' \<notin> set s \<and> (parsed_ok p \<longrightarrow> parsed_ok q)"
proof (induction s p rule: parse_loop.induct)
  case (1 s p)
  show ?case
  proof (cases "s = []")
    case False
    then obtain s' p' where r: "parse_round (s, p, False) = Some (s', p', True)" "parse_loop s' p' = Some q"
      using 1(2) by (subst (asm) parse_loop.simps) (auto split: option.splits if_splits)
    have "CHR '';'' \<notin> set s' \<and> (parsed_ok p' \<longrightarrow> parsed_ok q)" using 1(1) [OF False r(1)] r(2) by simp
    then show ?thesis using parse_roundD [OF r(1)] by (auto simp: consumed_def)
  qed (use 1 in \<open>simp add: parse_loop.simps\<close>)
qed

lemma ParseFullName_no_semicolon: "ParseFullName s = Some p \<Longrightarrow> CHR '';'' \<notin> set s"
  using parse_loop_ok [of s ParsedName_Clear p] by (auto simp: ParseFullName_def split: if_splits)

text \<open>
  C30. A name that \<open>ParseFullName\<close> accepts contains no semicolon, and the parsed fields that are
  present are well formed: the job and the device type are identifiers that start with a letter,
  and the numbers are values of a 32-bit \<open>int\<close>.
\<close>
theorem ParseFullName_type:
  assumes "ParseFullName s = Some p"
  shows "CHR '';'' \<notin> set s \<and> parsed_ok p"
  using assms parse_loop_ok [of s ParsedName_Clear p]
  by (auto simp: ParseFullName_def parsed_ok_def ParsedName_Clear_def split: if_splits)

theorem ParseFullName_type_witness:
  "CHR '';'' \<notin> set ''/job:ps/task:7'' \<and>
   parsed_ok (ParsedName_Clear\<lparr>has_job := True, job := ''ps'', has_task := True, task := 7\<rparr>)"
proof -
  have "ParseFullName ''/job:ps/task:7'' = Some (ParsedName_Clear\<lparr>has_job := True, job := ''ps'', has_task := True, task := 7\<rparr>)"
    by code_simp
  then show ?thesis by (rule ParseFullName_type)
qed

section \<open>Printing\<close>

definition ParsedNameToString :: "ParsedName \<Rightarrow> string" where
  "ParsedNameToString pn =
     (if has_job pn then ''/job:'' @ job pn else []) @
     (if has_replica pn then ''/replica:'' @ FastInt32ToBufferLeft (replica pn) else []) @
     (if has_task pn then ''/task:'' @ FastInt32ToBufferLeft (task pn) else []) @
     (if has_type pn then ''/device:'' @ dev_type pn @ '':'' @
        (if has_id pn then FastInt32ToBufferLeft (dev_id pn) else ''*'') else [])"

text \<open>The digits of a number below \<open>2\<^sup>6\<^sup>4\<close> are read back exactly: the overflow test of \<open>ConsumeLeadingDigits\<close> is exact.\<close>

lemma leading_digits_eq:
  assumes "\<forall>c \<in> set ds. isdigit c" "stops rest"
  shows "leading_digits v (ds @ rest) =
    (if dec_from (uint v) ds < 2 ^ 64 then Some (word_of_int (dec_from (uint v) ds), rest) else None)"
  using assms(1)
proof (induction ds arbitrary: v)
  case Nil
  then show ?case using assms(2) uint_lt2p [of v] by (cases rest) (auto simp: dec_from_def)
next
  case (Cons c ds)
  then have d: "isdigit c" "0 \<le> digit_of c" "digit_of c \<le> 9" using digit_range [of c] by simp_all
  let ?n = "uint v * 10 + digit_of c"
  define w where "w = v * 10 + word_of_int (digit_of c)"
  have uw: "uint w = ?n mod 2 ^ 64"
    unfolding w_def using d by (simp add: uint_word_ariths mod_simps uint_word_of_int)
  have b: "uint v < 2 ^ 64" "0 \<le> uint v" using uint_lt2p [of v] by simp_all
  have chk: "w div 8 < v \<longleftrightarrow> 2 ^ 64 \<le> ?n"
  proof -
    have "w div 8 < v \<longleftrightarrow> uint w div 8 < uint v" by (simp add: word_less_def uint_div_distrib)
    moreover have "uint w div 8 < uint v \<longleftrightarrow> uint w < 8 * uint v" by linarith
    moreover have "uint w < 8 * uint v \<longleftrightarrow> 2 ^ 64 \<le> ?n"
    proof -
      define k where "k = ?n div 2 ^ 64"
      have w: "uint w = ?n - 2 ^ 64 * k" using uw by (simp add: k_def minus_mult_div_eq_mod)
      have "?n mod 2 ^ 64 < 2 ^ 64" "0 \<le> ?n mod 2 ^ 64" by simp_all
      then have k: "2 ^ 64 * k \<le> ?n" "?n < 2 ^ 64 * k + 2 ^ 64" using uw w by linarith+
      have "0 \<le> k" using b d by (simp add: k_def pos_imp_zdiv_nonneg_iff)
      then consider "k = 0" | "1 \<le> k" by linarith
      then show ?thesis
      proof cases
        case 1
        then have "uint w = ?n" "?n < 2 ^ 64" using w k by simp_all
        then show ?thesis using b d by linarith
      next
        case 2
        then show ?thesis using w k b d by simp
      qed
    qed
    ultimately show ?thesis by simp
  qed
  show ?case
  proof (cases "?n < 2 ^ 64")
    case True
    then have "uint w = ?n" using uw b d by simp
    then show ?thesis using Cons.IH [of w] Cons.prems True chk d(1) by (simp add: dec_from_def w_def Let_def)
  next
    case False
    then have "\<not> dec_from (uint v) (c # ds) < 2 ^ 64"
      using dec_from_ge [of ds ?n] Cons.prems b d by (simp add: dec_from_def)
    then show ?thesis using chk False d(1) by (simp add: w_def Let_def)
  qed
qed

lemma ucast_word_of_int: "(ucast (word_of_int n :: uint64) :: uint32) = word_of_int n"
  by (rule bit_word_eqI) (simp add: bit_simps)

lemma ConsumeNumber_text:
  assumes "ds \<noteq> []" "\<forall>c \<in> set ds. isdigit c" "stops rest"
  shows "ConsumeNumber (ds @ rest) =
    (if dec ds < 2 ^ 64 then Some (sint (word_of_int (dec ds) :: uint32), rest) else None)"
proof -
  have "length rest < length (ds @ rest)" using assms(1) by simp
  then show ?thesis
    unfolding ConsumeNumber_def ConsumeLeadingDigits_def leading_digits_eq [OF assms(2,3), of 0] unsigned_0 dec_dec_from [symmetric]
    by (simp only: if_distrib [where f = "map_option _"] option.case if_split prod.case if_True option.map) (simp add: ucast_word_of_int)
qed

lemma unat_word_of_int32: "0 \<le> i \<Longrightarrow> i < 2 ^ 31 \<Longrightarrow> unat (word_of_int i :: uint32) = nat i"
  by (simp add: unat_eq_nat_uint uint_word_of_int)

lemma sint_word_of_int32: "0 \<le> i \<Longrightarrow> i < 2 ^ 31 \<Longrightarrow> sint (word_of_int i :: uint32) = i"
  by (simp add: sint_uint uint_word_of_int take_bit_int_eq_self signed_take_bit_int_eq_self)

lemma ConsumeNumber_printed:
  assumes "0 \<le> i" "i < 2 ^ 31" "stops rest"
  shows "ConsumeNumber (FastInt32ToBufferLeft i @ rest) = Some (i, rest)"
proof -
  let ?ds = "rev (digit_loop (nat i))"
  have f: "FastInt32ToBufferLeft i = ?ds" using assms(1) unat_word_of_int32 [OF assms(1,2)]
    by (simp add: FastInt32ToBufferLeft_def FastUInt32ToBufferLeft_def Let_def)
  have d: "?ds \<noteq> []" "\<forall>c \<in> set ?ds. isdigit c" "dec ?ds = i" using digits_printed [of "nat i"] assms(1) by simp_all
  have "i < 2 ^ 64" using assms(2) by simp
  then show ?thesis unfolding f ConsumeNumber_text [OF d(1,2) assms(3)] d(3) sint_word_of_int32 [OF assms(1,2)] by (rule if_P)
qed

end
