(* ===== verification/DeviceNameOps.thy ===== *)
theory DeviceNameOps
  imports DeviceName
begin

text \<open>
  The operations of \<^verbatim>\<open>core/util/device_name_utils.cc\<close> on parsed names, and what holds of
  them: printing and parsing are inverse, \<open>IsSpecification\<close> is a preorder, \<open>MergeDevNames\<close>
  computes least upper bounds in it.
\<close>

section \<open>Reading back a printed name\<close>

abbreviation ends_part :: "string \<Rightarrow> bool" where
  "ends_part rest \<equiv> rest = [] \<or> hd rest = CHR ''/''"

lemma ends_part_stops: "ends_part rest \<Longrightarrow> stops rest"
  by (auto simp: isdigit_def)

lemma scan_name_app:
  assumes "list_all name_char n" "rest = [] \<or> stop (hd rest)" "\<And>c. name_char c \<Longrightarrow> \<not> stop c"
  shows "scan_name stop (n @ rest) = Some (n, rest)"
  using assms(1)
proof (induction n)
  case Nil
  then show ?case using assms(2) by (cases rest) auto
qed (use assms(3) in auto)

lemma consume_name_app:
  assumes "IsJobName n" "rest = [] \<or> stop (hd rest)" "\<And>c. name_char c \<Longrightarrow> \<not> stop c"
  shows "consume_name stop (n @ rest) = Some (n, rest)"
proof -
  have "scan_name stop (cs @ rest) = Some (cs, rest)" if "list_all name_char cs" for cs
    using that assms(2,3) by (rule scan_name_app)
  then show ?thesis using assms(1) by (cases n) auto
qed

lemma ConsumePrefix_star: "s = [] \<or> hd s \<noteq> CHR ''*'' \<Longrightarrow> ConsumePrefix ''*'' s = None"
  by (cases s) (auto simp: ConsumePrefix_def)

lemma consume_field_star [simp]: "consume_field consume old (CHR ''*'' # s) = Some (False, old, s)"
  by (simp add: consume_field_def ConsumePrefix_def)

lemma job_name_star: "IsJobName n \<Longrightarrow> n \<noteq> [] \<and> hd n \<noteq> CHR ''*''"
  by (cases n) (auto simp: IsAlpha_def)

lemma consume_job_field:
  assumes "IsJobName n" "ends_part rest"
  shows "consume_field ConsumeJobName old (n @ rest) = Some (True, n, rest)"
proof -
  have "ConsumeJobName (n @ rest) = Some (n, rest)"
    unfolding ConsumeJobName_def using assms by (intro consume_name_app) (auto simp: IsAlphaNum_def IsAlpha_def)
  then show ?thesis using job_name_star [OF assms(1)] by (simp add: consume_field_def ConsumePrefix_star)
qed

lemma consume_type_field:
  assumes "IsJobName n"
  shows "consume_field ConsumeDeviceType old (n @ CHR '':'' # rest) = Some (True, n, CHR '':'' # rest)"
proof -
  have "ConsumeDeviceType (n @ CHR '':'' # rest) = Some (n, CHR '':'' # rest)"
    unfolding ConsumeDeviceType_def using assms by (intro consume_name_app) (auto simp: IsAlphaNum_def IsAlpha_def)
  then show ?thesis using job_name_star [OF assms(1)] by (simp add: consume_field_def ConsumePrefix_star)
qed

abbreviation nat32 :: "int \<Rightarrow> bool" where
  "nat32 i \<equiv> 0 \<le> i \<and> i < 2 ^ 31"

lemma consume_int_field:
  assumes "nat32 i" "ends_part rest"
  shows "consume_field ConsumeNumber old (FastInt32ToBufferLeft i @ rest) = Some (True, i, rest)"
proof -
  have c: "ConsumeNumber (FastInt32ToBufferLeft i @ rest) = Some (i, rest)"
    using assms ends_part_stops by (intro ConsumeNumber_printed) auto
  have "hd (FastInt32ToBufferLeft i @ rest) \<noteq> CHR ''*''"
  proof
    assume "hd (FastInt32ToBufferLeft i @ rest) = CHR ''*''"
    then have "leading_digits 0 (FastInt32ToBufferLeft i @ rest) = Some (0, FastInt32ToBufferLeft i @ rest)"
      by (cases "FastInt32ToBufferLeft i @ rest") (auto simp: isdigit_def)
    then show False using c by (simp add: ConsumeNumber_def ConsumeLeadingDigits_def)
  qed
  then show ?thesis using c by (simp add: consume_field_def ConsumePrefix_star)
qed

text \<open>A name whose printed form determines it: its parts are well formed, and an id comes with a type.\<close>

definition printable :: "ParsedName \<Rightarrow> bool" where
  "printable p \<longleftrightarrow> (has_job p \<longrightarrow> IsJobName (job p)) \<and> (has_replica p \<longrightarrow> nat32 (replica p)) \<and>
     (has_task p \<longrightarrow> nat32 (task p)) \<and> (has_type p \<longrightarrow> IsJobName (dev_type p)) \<and>
     (has_id p \<longrightarrow> has_type p \<and> nat32 (dev_id p))"

definition job_text :: "ParsedName \<Rightarrow> string" where
  "job_text p = (if has_job p then ''/job:'' @ job p else [])"

definition replica_text :: "ParsedName \<Rightarrow> string" where
  "replica_text p = (if has_replica p then ''/replica:'' @ FastInt32ToBufferLeft (replica p) else [])"

definition task_text :: "ParsedName \<Rightarrow> string" where
  "task_text p = (if has_task p then ''/task:'' @ FastInt32ToBufferLeft (task p) else [])"

definition device_text :: "ParsedName \<Rightarrow> string" where
  "device_text p = (if has_type p then ''/device:'' @ dev_type p @ '':'' @
     (if has_id p then FastInt32ToBufferLeft (dev_id p) else ''*'') else [])"

lemmas part_texts = job_text_def replica_text_def task_text_def device_text_def

lemma ParsedNameToString_parts:
  "ParsedNameToString p = job_text p @ replica_text p @ task_text p @ device_text p"
  by (simp add: ParsedNameToString_def part_texts)

lemma parse_job_text:
  assumes "printable p"
  shows "parse_job (job_text p @ replica_text p @ task_text p @ device_text p, q, pr) =
    Some (replica_text p @ task_text p @ device_text p,
      (if has_job p then q\<lparr>has_job := True, job := job p\<rparr> else q), pr \<or> has_job p)"
proof (cases "has_job p")
  case True
  have "ends_part (replica_text p @ task_text p @ device_text p)" by (simp add: part_texts)
  then show ?thesis using True assms consume_job_field [of "job p"]
    by (simp add: printable_def job_text_def ConsumePrefix_def)
next
  case False
  then show ?thesis by (simp add: part_texts ConsumePrefix_def)
qed

lemma parse_replica_text:
  assumes "printable p"
  shows "parse_replica (replica_text p @ task_text p @ device_text p, q, pr) =
    Some (task_text p @ device_text p,
      (if has_replica p then q\<lparr>has_replica := True, replica := replica p\<rparr> else q), pr \<or> has_replica p)"
proof (cases "has_replica p")
  case True
  have "ends_part (task_text p @ device_text p)" by (simp add: part_texts)
  then show ?thesis using True assms consume_int_field [of "replica p"]
    by (simp add: printable_def replica_text_def ConsumePrefix_def)
next
  case False
  then show ?thesis by (simp add: part_texts ConsumePrefix_def)
qed

lemma parse_task_text:
  assumes "printable p"
  shows "parse_task (task_text p @ device_text p, q, pr) =
    Some (device_text p, (if has_task p then q\<lparr>has_task := True, task := task p\<rparr> else q), pr \<or> has_task p)"
proof (cases "has_task p")
  case True
  have "ends_part (device_text p)" by (simp add: part_texts)
  then show ?thesis using True assms consume_int_field [of "task p"]
    by (simp add: printable_def task_text_def ConsumePrefix_def)
next
  case False
  then show ?thesis by (simp add: part_texts ConsumePrefix_def)
qed

lemma parse_device_text:
  assumes "printable p"
  shows "parse_device (device_text p, q, pr) =
    Some ([], (if has_type p then q\<lparr>has_type := True, dev_type := dev_type p, has_id := has_id p,
      dev_id := (if has_id p then dev_id p else dev_id q)\<rparr> else q), pr \<or> has_type p)"
proof (cases "has_type p")
  case True
  then have t: "consume_field ConsumeDeviceType old (dev_type p @ CHR '':'' # s) = Some (True, dev_type p, CHR '':'' # s)" for old s
    using assms by (intro consume_type_field) (simp add: printable_def)
  have c: "ConsumePrefix '':'' (CHR '':'' # s) = Some s" for s by (simp add: ConsumePrefix_def)
  show ?thesis
  proof (cases "has_id p")
    case True
    have "consume_field ConsumeNumber old (FastInt32ToBufferLeft (dev_id p)) = Some (True, dev_id p, [])" for old
      using consume_int_field [of "dev_id p" "[]"] assms True by (simp add: printable_def)
    then show ?thesis using t c True \<open>has_type p\<close> by (simp add: device_text_def ConsumePrefix_def [of "''/device:''"])
  next
    case False
    then show ?thesis using t c \<open>has_type p\<close> by (simp add: device_text_def ConsumePrefix_def [of "''/device:''"])
  qed
qed (simp add: device_text_def ConsumePrefix_def)

lemma ParseFullName_printed:
  assumes "printable p"
  obtains q where "ParseFullName (ParsedNameToString p) = Some q" "ParsedName_eq q p"
    "has_job p \<and> has_replica p \<and> has_task p \<and> has_type p \<and> has_id p \<Longrightarrow> q = p"
proof -
  let ?s = "ParsedNameToString p"
  define q where "q = ParsedName_Clear
    \<lparr>has_job := has_job p, job := (if has_job p then job p else []),
     has_replica := has_replica p, replica := (if has_replica p then replica p else 0),
     has_task := has_task p, task := (if has_task p then task p else 0),
     has_type := has_type p, dev_type := (if has_type p then dev_type p else []),
     has_id := has_id p, dev_id := (if has_id p then dev_id p else 0)\<rparr>"
  let ?pr = "has_job p \<or> has_replica p \<or> has_task p \<or> has_type p"
  have l: "parse_legacy lo up ty ([], q, pr) = Some ([], q, pr)" if "lo \<noteq> []" "up \<noteq> []" for lo up ty q pr
    using that by (simp add: ConsumePrefix_def)
  have id: "has_id p \<Longrightarrow> has_type p" using assms by (simp add: printable_def)
  have "parse_round (?s, ParsedName_Clear, False) = Some ([], q, ?pr)"
    unfolding parse_round_def ParsedNameToString_parts parse_job_text [OF assms] bind.bind_lunit
      parse_replica_text [OF assms] parse_task_text [OF assms] parse_device_text [OF assms]
    using id by (auto simp: l q_def ParsedName_Clear_def simp del: parse_legacy.simps)
  moreover have "?s \<noteq> [] \<longleftrightarrow> ?pr" by (auto simp: ParsedNameToString_def)
  moreover have "?s = [] \<Longrightarrow> q = ParsedName_Clear" using id by (auto simp: ParsedNameToString_def q_def ParsedName_Clear_def split: if_splits)
  ultimately have "parse_loop ?s ParsedName_Clear = Some q"
    by (subst parse_loop.simps) (auto simp: parse_loop.simps [of "[]"])
  moreover have "?s \<noteq> ''/''" by (auto simp: ParsedNameToString_def)
  ultimately have "ParseFullName ?s = Some q" by (simp add: ParseFullName_def)
  moreover have "ParsedName_eq q p" by (simp add: ParsedName_eq_def q_def)
  moreover have "q = p" if "has_job p \<and> has_replica p \<and> has_task p \<and> has_type p \<and> has_id p"
    using that by (simp add: q_def ParsedName_Clear_def)
  ultimately show ?thesis using that by blast
qed

section \<open>Operations on parsed names\<close>

definition IsSpecification :: "ParsedName \<Rightarrow> ParsedName \<Rightarrow> bool" where
  "IsSpecification less_specific more_specific \<longleftrightarrow>
     \<not> (has_job less_specific \<and> (\<not> has_job more_specific \<or> job less_specific \<noteq> job more_specific)) \<and>
     \<not> (has_replica less_specific \<and> (\<not> has_replica more_specific \<or> replica less_specific \<noteq> replica more_specific)) \<and>
     \<not> (has_task less_specific \<and> (\<not> has_task more_specific \<or> task less_specific \<noteq> task more_specific)) \<and>
     \<not> (has_type less_specific \<and> (\<not> has_type more_specific \<or> dev_type less_specific \<noteq> dev_type more_specific)) \<and>
     \<not> (has_id less_specific \<and> (\<not> has_id more_specific \<or> dev_id less_specific \<noteq> dev_id more_specific))"

definition complete_name :: "ParsedName \<Rightarrow> bool" where
  "complete_name p \<longleftrightarrow> has_job p \<and> has_replica p \<and> has_task p \<and> has_type p \<and> has_id p"

definition IsCompleteSpecification :: "ParsedName \<Rightarrow> ParsedName \<Rightarrow> bool option" where
  "IsCompleteSpecification pattern name =
     (if \<not> complete_name name then None
      else Some (\<not> (has_job pattern \<and> job pattern \<noteq> job name) \<and>
        \<not> (has_replica pattern \<and> replica pattern \<noteq> replica name) \<and>
        \<not> (has_task pattern \<and> task pattern \<noteq> task name) \<and>
        \<not> (has_type pattern \<and> dev_type pattern \<noteq> dev_type name) \<and>
        \<not> (has_id pattern \<and> dev_id pattern \<noteq> dev_id name)))"

definition AreCompatibleDevNames :: "ParsedName \<Rightarrow> ParsedName \<Rightarrow> bool" where
  "AreCompatibleDevNames a b \<longleftrightarrow> IsSpecification a b \<or> IsSpecification b a"

text \<open>The status and the value that \<open>*target\<close> has on return, also after an error.\<close>

definition MergeDevNames :: "ParsedName \<Rightarrow> ParsedName \<Rightarrow> bool \<Rightarrow> unit status_or \<times> ParsedName" where
  "MergeDevNames target other allow_soft_placement =
     (if has_job other \<and> has_job target \<and> job target \<noteq> job other then (Err INVALID_ARGUMENT, target)
      else let target = (if has_job other then target\<lparr>has_job := has_job other, job := job other\<rparr> else target) in
      if has_replica other \<and> has_replica target \<and> replica target \<noteq> replica other then (Err INVALID_ARGUMENT, target)
      else let target = (if has_replica other then target\<lparr>has_replica := has_replica other, replica := replica other\<rparr> else target) in
      if has_task other \<and> has_task target \<and> task target \<noteq> task other then (Err INVALID_ARGUMENT, target)
      else let target = (if has_task other then target\<lparr>has_task := has_task other, task := task other\<rparr> else target) in
      if has_type other \<and> has_type target \<and> dev_type target \<noteq> dev_type other then
        (if \<not> allow_soft_placement then (Err INVALID_ARGUMENT, target)
         else (Ok (), target\<lparr>has_id := False, has_type := False\<rparr>))
      else let target = (if has_type other then target\<lparr>has_type := has_type other, dev_type := dev_type other\<rparr> else target) in
      if has_id other \<and> has_id target \<and> dev_id target \<noteq> dev_id other then
        (if \<not> allow_soft_placement then (Err INVALID_ARGUMENT, target)
         else (Ok (), target\<lparr>has_id := False\<rparr>))
      else (Ok (), if has_id other then target\<lparr>has_id := has_id other, dev_id := dev_id other\<rparr> else target))"

definition IsSameAddressSpace_parsed :: "ParsedName \<Rightarrow> ParsedName \<Rightarrow> bool" where
  "IsSameAddressSpace_parsed a b \<longleftrightarrow>
     (has_job a \<and> has_job b \<and> job a = job b) \<and>
     (has_replica a \<and> has_replica b \<and> replica a = replica b) \<and>
     (has_task a \<and> has_task b \<and> task a = task b)"

definition IsSameAddressSpace :: "string \<Rightarrow> string \<Rightarrow> bool" where
  "IsSameAddressSpace src dst =
     (case ParseFullName src of
        None \<Rightarrow> False
      | Some x \<Rightarrow> (case ParseFullName dst of None \<Rightarrow> False | Some y \<Rightarrow> IsSameAddressSpace_parsed x y))"

definition LocalName :: "string \<Rightarrow> int \<Rightarrow> string" where
  "LocalName ty i = ty @ '':'' @ FastInt32ToBufferLeft i"

definition LocalName_full :: "string \<Rightarrow> string option" where
  "LocalName_full fullname = map_option (\<lambda>x. LocalName (dev_type x) (dev_id x)) (ParseFullName fullname)"

definition ParseLocalName :: "string \<Rightarrow> ParsedName \<Rightarrow> ParsedName option" where
  "ParseLocalName name p =
     (case ConsumeDeviceType name of
        None \<Rightarrow> None
      | Some (ty, name) \<Rightarrow>
          (case ConsumePrefix '':'' name of
             None \<Rightarrow> None
           | Some name \<Rightarrow>
               (case ConsumeNumber name of
                  None \<Rightarrow> None
                | Some (i, name) \<Rightarrow> if name = [] then Some (p\<lparr>dev_type := ty, dev_id := i\<rparr>) else None)))"

definition SplitDeviceName :: "string \<Rightarrow> (string \<times> string) option" where
  "SplitDeviceName name =
     (case ParseFullName name of
        None \<Rightarrow> None
      | Some pn \<Rightarrow>
          if has_type pn \<and> has_id pn then
            Some ((if has_job pn then ''/job:'' @ job pn else []) @
                  (if has_replica pn then ''/replica:'' @ FastInt32ToBufferLeft (replica pn) else []) @
                  (if has_task pn then ''/task:'' @ FastInt32ToBufferLeft (task pn) else []),
                  dev_type pn @ '':'' @ FastInt32ToBufferLeft (dev_id pn))
          else None)"

section \<open>Properties\<close>

lemma ParseLocalName_printed:
  assumes "IsJobName ty" "nat32 i"
  shows "ParseLocalName (LocalName ty i) p = Some (p\<lparr>dev_type := ty, dev_id := i\<rparr>)"
proof -
  have "ConsumeDeviceType (ty @ CHR '':'' # s) = Some (ty, CHR '':'' # s)" for s
    unfolding ConsumeDeviceType_def using assms by (intro consume_name_app) (auto simp: IsAlphaNum_def IsAlpha_def)
  moreover have "ConsumeNumber (FastInt32ToBufferLeft i) = Some (i, [])"
    using ConsumeNumber_printed [of i "[]"] assms(2) by simp
  ultimately show ?thesis by (simp add: ParseLocalName_def LocalName_def ConsumePrefix_def)
qed

text \<open>
  C26. Printing a device name whose numbers are not negative and that has an id only together with a
  type, and parsing it back gives an equal name (in the sense of the
  \<open>operator==\<close> of \<open>ParsedName\<close>). For a complete name, what is printed is what \<open>FullName\<close>
  builds from the five components, the parser returns exactly these, and \<open>SplitDeviceName\<close>
  separates the task part, which parses on its own, from a local name, which
  \<open>ParseLocalName\<close> reads back.
\<close>
theorem device_name_roundtrip:
  assumes "printable p"
  shows "(\<exists>q. ParseFullName (ParsedNameToString p) = Some q \<and> ParsedName_eq q p) \<and>
    (complete_name p \<longrightarrow>
      FullName (job p) (replica p) (task p) (dev_type p) (dev_id p) = Some (ParsedNameToString p) \<and>
      ParseFullName (ParsedNameToString p) = Some p \<and>
      (\<exists>t q. SplitDeviceName (ParsedNameToString p) = Some (t, LocalName (dev_type p) (dev_id p)) \<and>
        ParseFullName t = Some q \<and> ParsedName_eq q (p\<lparr>has_type := False, has_id := False\<rparr>) \<and>
        ParseLocalName (LocalName (dev_type p) (dev_id p)) q = Some (q\<lparr>dev_type := dev_type p, dev_id := dev_id p\<rparr>)))"
proof -
  obtain q where q: "ParseFullName (ParsedNameToString p) = Some q" "ParsedName_eq q p"
    "has_job p \<and> has_replica p \<and> has_task p \<and> has_type p \<and> has_id p \<Longrightarrow> q = p"
    using ParseFullName_printed [OF assms] by blast
  have "FullName (job p) (replica p) (task p) (dev_type p) (dev_id p) = Some (ParsedNameToString p) \<and>
      ParseFullName (ParsedNameToString p) = Some p \<and>
      (\<exists>t q. SplitDeviceName (ParsedNameToString p) = Some (t, LocalName (dev_type p) (dev_id p)) \<and>
        ParseFullName t = Some q \<and> ParsedName_eq q (p\<lparr>has_type := False, has_id := False\<rparr>) \<and>
        ParseLocalName (LocalName (dev_type p) (dev_id p)) q = Some (q\<lparr>dev_type := dev_type p, dev_id := dev_id p\<rparr>))"
    if c: "complete_name p"
  proof -
    let ?t = "p\<lparr>has_type := False, has_id := False\<rparr>"
    have pp: "ParseFullName (ParsedNameToString p) = Some p" using q c by (simp add: complete_name_def)
    have "printable ?t" using assms by (simp add: printable_def)
    then obtain r where r: "ParseFullName (ParsedNameToString ?t) = Some r" "ParsedName_eq r ?t"
      using ParseFullName_printed by blast
    have f: "FullName (job p) (replica p) (task p) (dev_type p) (dev_id p) = Some (ParsedNameToString p)"
      using assms c job_name_star [of "dev_type p"]
      by (simp add: FullName_def StrCat_full_def ParsedNameToString_def complete_name_def printable_def)
    have s: "SplitDeviceName (ParsedNameToString p) = Some (ParsedNameToString ?t, LocalName (dev_type p) (dev_id p))"
      using c unfolding SplitDeviceName_def pp by (simp add: complete_name_def ParsedNameToString_def LocalName_def)
    have "ParseLocalName (LocalName (dev_type p) (dev_id p)) r = Some (r\<lparr>dev_type := dev_type p, dev_id := dev_id p\<rparr>)"
      using assms c by (intro ParseLocalName_printed) (simp_all add: printable_def complete_name_def)
    then show ?thesis using pp f s r by blast
  qed
  then show ?thesis using q by blast
qed

definition worker_gpu :: ParsedName where
  "worker_gpu = \<lparr>has_job = True, job = ''worker'', has_replica = True, replica = 0, has_task = True, task = 12,
     has_type = True, dev_type = ''GPU'', has_id = True, dev_id = 3\<rparr>"

theorem device_name_roundtrip_witness:
  "printable worker_gpu \<and> ParseFullName (ParsedNameToString worker_gpu) = Some worker_gpu"
proof -
  have "printable worker_gpu" by (simp add: printable_def worker_gpu_def IsAlpha_def IsAlphaNum_def)
  moreover have "complete_name worker_gpu" by (simp add: complete_name_def worker_gpu_def)
  ultimately show ?thesis using device_name_roundtrip [of worker_gpu] by blast
qed

lemma IsSpecification_iff:
  "IsSpecification a b \<longleftrightarrow> (has_job a \<longrightarrow> has_job b \<and> job a = job b) \<and> (has_replica a \<longrightarrow> has_replica b \<and> replica a = replica b) \<and>
     (has_task a \<longrightarrow> has_task b \<and> task a = task b) \<and> (has_type a \<longrightarrow> has_type b \<and> dev_type a = dev_type b) \<and>
     (has_id a \<longrightarrow> has_id b \<and> dev_id a = dev_id b)"
  unfolding IsSpecification_def by blast

lemma IsSpecification_refl: "IsSpecification p p"
  by (simp add: IsSpecification_iff)

lemma IsSpecification_trans: "IsSpecification a b \<Longrightarrow> IsSpecification b c \<Longrightarrow> IsSpecification a c"
  by (simp add: IsSpecification_iff)

lemma IsCompleteSpecification_eq: "complete_name name \<Longrightarrow> IsCompleteSpecification pattern name = Some (IsSpecification pattern name)"
  unfolding IsCompleteSpecification_def IsSpecification_iff complete_name_def by simp

text \<open>Two names conflict in a component that both give and that differs.\<close>

definition task_conflict :: "ParsedName \<Rightarrow> ParsedName \<Rightarrow> bool" where
  "task_conflict a b \<longleftrightarrow> has_job a \<and> has_job b \<and> job a \<noteq> job b \<or>
     has_replica a \<and> has_replica b \<and> replica a \<noteq> replica b \<or>
     has_task a \<and> has_task b \<and> task a \<noteq> task b"

definition device_conflict :: "ParsedName \<Rightarrow> ParsedName \<Rightarrow> bool" where
  "device_conflict a b \<longleftrightarrow> has_type a \<and> has_type b \<and> dev_type a \<noteq> dev_type b \<or>
     has_id a \<and> has_id b \<and> dev_id a \<noteq> dev_id b"

definition joined :: "ParsedName \<Rightarrow> ParsedName \<Rightarrow> ParsedName" where
  "joined a b =
     \<lparr>has_job = has_job b \<or> has_job a, job = (if has_job b then job b else job a),
      has_replica = has_replica b \<or> has_replica a, replica = (if has_replica b then replica b else replica a),
      has_task = has_task b \<or> has_task a, task = (if has_task b then task b else task a),
      has_type = has_type b \<or> has_type a, dev_type = (if has_type b then dev_type b else dev_type a),
      has_id = has_id b \<or> has_id a, dev_id = (if has_id b then dev_id b else dev_id a)\<rparr>"

lemma conflict_no_common:
  assumes "IsSpecification a c" "IsSpecification b c"
  shows "\<not> task_conflict a b" "\<not> device_conflict a b"
  using assms unfolding task_conflict_def device_conflict_def IsSpecification_iff by (elim conjE, metis)+

lemma joined_upper:
  assumes "\<not> task_conflict a b" "\<not> device_conflict a b"
  shows "IsSpecification a (joined a b)" "IsSpecification b (joined a b)"
  using assms unfolding task_conflict_def device_conflict_def IsSpecification_iff joined_def ParsedName.simps
  by (intro conjI impI; blast | simp)+

lemma joined_least: "IsSpecification a c \<Longrightarrow> IsSpecification b c \<Longrightarrow> IsSpecification (joined a b) c"
  unfolding IsSpecification_iff joined_def ParsedName.simps by (elim conjE, intro conjI) metis+

text \<open>The assignments of \<open>MergeDevNames\<close> and what they leave of each field.\<close>

definition set_job :: "ParsedName \<Rightarrow> ParsedName \<Rightarrow> ParsedName" where
  "set_job b a = (if has_job b then a\<lparr>has_job := has_job b, job := job b\<rparr> else a)"

definition set_replica :: "ParsedName \<Rightarrow> ParsedName \<Rightarrow> ParsedName" where
  "set_replica b a = (if has_replica b then a\<lparr>has_replica := has_replica b, replica := replica b\<rparr> else a)"

definition set_task :: "ParsedName \<Rightarrow> ParsedName \<Rightarrow> ParsedName" where
  "set_task b a = (if has_task b then a\<lparr>has_task := has_task b, task := task b\<rparr> else a)"

definition set_type :: "ParsedName \<Rightarrow> ParsedName \<Rightarrow> ParsedName" where
  "set_type b a = (if has_type b then a\<lparr>has_type := has_type b, dev_type := dev_type b\<rparr> else a)"

definition set_id :: "ParsedName \<Rightarrow> ParsedName \<Rightarrow> ParsedName" where
  "set_id b a = (if has_id b then a\<lparr>has_id := has_id b, dev_id := dev_id b\<rparr> else a)"

lemma set_task_part:
  "has_job (set_job b a) = (has_job b \<or> has_job a)" "job (set_job b a) = (if has_job b then job b else job a)"
  "has_replica (set_job b a) = has_replica a" "replica (set_job b a) = replica a"
  "has_task (set_job b a) = has_task a" "task (set_job b a) = task a"
  "has_type (set_job b a) = has_type a" "dev_type (set_job b a) = dev_type a"
  "has_id (set_job b a) = has_id a" "dev_id (set_job b a) = dev_id a"
  "has_job (set_replica b a) = has_job a" "job (set_replica b a) = job a"
  "has_replica (set_replica b a) = (has_replica b \<or> has_replica a)" "replica (set_replica b a) = (if has_replica b then replica b else replica a)"
  "has_task (set_replica b a) = has_task a" "task (set_replica b a) = task a"
  "has_type (set_replica b a) = has_type a" "dev_type (set_replica b a) = dev_type a"
  "has_id (set_replica b a) = has_id a" "dev_id (set_replica b a) = dev_id a"
  "has_job (set_task b a) = has_job a" "job (set_task b a) = job a"
  "has_replica (set_task b a) = has_replica a" "replica (set_task b a) = replica a"
  "has_task (set_task b a) = (has_task b \<or> has_task a)" "task (set_task b a) = (if has_task b then task b else task a)"
  "has_type (set_task b a) = has_type a" "dev_type (set_task b a) = dev_type a"
  "has_id (set_task b a) = has_id a" "dev_id (set_task b a) = dev_id a"
  by (simp_all add: set_job_def set_replica_def set_task_def)

lemma set_device_part:
  "has_job (set_type b a) = has_job a" "job (set_type b a) = job a"
  "has_replica (set_type b a) = has_replica a" "replica (set_type b a) = replica a"
  "has_task (set_type b a) = has_task a" "task (set_type b a) = task a"
  "has_type (set_type b a) = (has_type b \<or> has_type a)" "dev_type (set_type b a) = (if has_type b then dev_type b else dev_type a)"
  "has_id (set_type b a) = has_id a" "dev_id (set_type b a) = dev_id a"
  "has_job (set_id b a) = has_job a" "job (set_id b a) = job a"
  "has_replica (set_id b a) = has_replica a" "replica (set_id b a) = replica a"
  "has_task (set_id b a) = has_task a" "task (set_id b a) = task a"
  "has_type (set_id b a) = has_type a" "dev_type (set_id b a) = dev_type a"
  "has_id (set_id b a) = (has_id b \<or> has_id a)" "dev_id (set_id b a) = (if has_id b then dev_id b else dev_id a)"
  by (simp_all add: set_type_def set_id_def)

lemmas set_parts = set_task_part set_device_part

lemma set_all_joined: "set_id b (set_type b (set_task b (set_replica b (set_job b a)))) = joined a b"
  by (rule ParsedName.equality) (simp_all add: set_parts joined_def)

lemma MergeDevNames_stages:
  "MergeDevNames a b soft =
     (if has_job b \<and> has_job a \<and> job a \<noteq> job b then (Err INVALID_ARGUMENT, a)
      else if has_replica b \<and> has_replica a \<and> replica a \<noteq> replica b then (Err INVALID_ARGUMENT, set_job b a)
      else if has_task b \<and> has_task a \<and> task a \<noteq> task b then (Err INVALID_ARGUMENT, set_replica b (set_job b a))
      else let t = set_task b (set_replica b (set_job b a)) in
      if has_type b \<and> has_type a \<and> dev_type a \<noteq> dev_type b then
        (if \<not> soft then (Err INVALID_ARGUMENT, t) else (Ok (), t\<lparr>has_id := False, has_type := False\<rparr>))
      else if has_id b \<and> has_id a \<and> dev_id a \<noteq> dev_id b then
        (if \<not> soft then (Err INVALID_ARGUMENT, set_type b t) else (Ok (), (set_type b t)\<lparr>has_id := False\<rparr>))
      else (Ok (), joined a b))"
  unfolding set_all_joined [symmetric] MergeDevNames_def Let_def
    set_job_def [symmetric] set_replica_def [symmetric] set_task_def [symmetric] set_type_def [symmetric] set_id_def [symmetric]
  by (simp only: set_parts)

lemma MergeDevNames_joined:
  assumes "\<not> task_conflict a b" "\<not> device_conflict a b"
  shows "MergeDevNames a b soft = (Ok (), joined a b)"
proof -
  have "\<not> (has_job b \<and> has_job a \<and> job a \<noteq> job b)" "\<not> (has_replica b \<and> has_replica a \<and> replica a \<noteq> replica b)"
    "\<not> (has_task b \<and> has_task a \<and> task a \<noteq> task b)" "\<not> (has_type b \<and> has_type a \<and> dev_type a \<noteq> dev_type b)"
    "\<not> (has_id b \<and> has_id a \<and> dev_id a \<noteq> dev_id b)"
    using assms unfolding task_conflict_def device_conflict_def by blast+
  then show ?thesis unfolding MergeDevNames_stages Let_def by (simp only: if_False)
qed

lemma MergeDevNames_task_conflict:
  assumes "task_conflict a b"
  shows "fst (MergeDevNames a b soft) = Err INVALID_ARGUMENT"
  using assms unfolding MergeDevNames_stages task_conflict_def Let_def by (elim disjE) simp_all

lemma MergeDevNames_device_conflict:
  assumes "\<not> task_conflict a b" "device_conflict a b"
  defines "t \<equiv> set_task b (set_replica b (set_job b a))"
  shows "MergeDevNames a b soft =
    (if has_type b \<and> has_type a \<and> dev_type a \<noteq> dev_type b then
       (if \<not> soft then (Err INVALID_ARGUMENT, t) else (Ok (), t\<lparr>has_id := False, has_type := False\<rparr>))
     else (if \<not> soft then (Err INVALID_ARGUMENT, set_type b t) else (Ok (), (set_type b t)\<lparr>has_id := False\<rparr>)))"
proof -
  have n: "\<not> (has_job b \<and> has_job a \<and> job a \<noteq> job b)" "\<not> (has_replica b \<and> has_replica a \<and> replica a \<noteq> replica b)"
    "\<not> (has_task b \<and> has_task a \<and> task a \<noteq> task b)"
    using assms(1) unfolding task_conflict_def by blast+
  note stages = MergeDevNames_stages [of a b soft, unfolded Let_def if_not_P [OF n(1)] if_not_P [OF n(2)] if_not_P [OF n(3)], folded t_def]
  show ?thesis
  proof (cases "has_type b \<and> has_type a \<and> dev_type a \<noteq> dev_type b")
    case True
    show ?thesis unfolding stages if_P [OF True] by (rule refl)
  next
    case False
    then have "has_id b \<and> has_id a \<and> dev_id a \<noteq> dev_id b" using assms(2) unfolding device_conflict_def by blast
    then show ?thesis unfolding stages if_not_P [OF False] by (rule if_P)
  qed
qed

lemma set_task_joined: "IsSpecification ((set_task b (set_replica b (set_job b a)))\<lparr>has_id := False, has_type := False\<rparr>) (joined a b)"
  and set_type_joined: "IsSpecification ((set_type b (set_task b (set_replica b (set_job b a))))\<lparr>has_id := False\<rparr>) (joined a b)"
  unfolding IsSpecification_iff joined_def by (simp_all add: set_parts)

text \<open>
  C27. \<open>MergeDevNames\<close> without soft placement computes the least upper bound in the order
  \<open>IsSpecification\<close>: it succeeds exactly when some name specifies both arguments, and then
  \<open>*target\<close> specifies both and is specified by every name that does. With soft placement it fails
  only for a conflicting job, replica or task; a conflict in the device drops the id, and the type
  too when the types differ, and the result is never more specific than the two names allow.
\<close>
theorem MergeDevNames_lub:
  "(case MergeDevNames target other False of
      (Inr _, t) \<Rightarrow> IsSpecification target t \<and> IsSpecification other t \<and>
        (\<forall>c. IsSpecification target c \<and> IsSpecification other c \<longrightarrow> IsSpecification t c)
    | (Inl e, _) \<Rightarrow> e = INVALID_ARGUMENT \<and> (\<nexists>c. IsSpecification target c \<and> IsSpecification other c)) \<and>
   (case MergeDevNames target other True of
      (Inr _, t) \<Rightarrow> \<not> task_conflict target other \<and> IsSpecification t (joined target other) \<and>
        (device_conflict target other \<longrightarrow> \<not> has_id t) \<and>
        (has_type target \<and> has_type other \<and> dev_type target \<noteq> dev_type other \<longrightarrow> \<not> has_type t) \<and>
        (\<not> device_conflict target other \<longrightarrow> t = snd (MergeDevNames target other False))
    | (Inl e, _) \<Rightarrow> e = INVALID_ARGUMENT \<and> task_conflict target other)"
proof (intro conjI)
  let ?a = target and ?b = other
  show "case MergeDevNames ?a ?b False of
      (Inr _, t) \<Rightarrow> IsSpecification ?a t \<and> IsSpecification ?b t \<and>
        (\<forall>c. IsSpecification ?a c \<and> IsSpecification ?b c \<longrightarrow> IsSpecification t c)
    | (Inl e, _) \<Rightarrow> e = INVALID_ARGUMENT \<and> (\<nexists>c. IsSpecification ?a c \<and> IsSpecification ?b c)"
  proof (cases "task_conflict ?a ?b \<or> device_conflict ?a ?b")
    case True
    then have "fst (MergeDevNames ?a ?b False) = Err INVALID_ARGUMENT"
      using MergeDevNames_task_conflict [of ?a ?b False] MergeDevNames_device_conflict [of ?a ?b False]
      by (cases "task_conflict ?a ?b") simp_all
    then show ?thesis using True conflict_no_common by (cases "MergeDevNames ?a ?b False") auto
  next
    case False
    then show ?thesis using joined_upper [of ?a ?b] joined_least by (simp add: MergeDevNames_joined)
  qed
  show "case MergeDevNames ?a ?b True of
      (Inr _, t) \<Rightarrow> \<not> task_conflict ?a ?b \<and> IsSpecification t (joined ?a ?b) \<and>
        (device_conflict ?a ?b \<longrightarrow> \<not> has_id t) \<and>
        (has_type ?a \<and> has_type ?b \<and> dev_type ?a \<noteq> dev_type ?b \<longrightarrow> \<not> has_type t) \<and>
        (\<not> device_conflict ?a ?b \<longrightarrow> t = snd (MergeDevNames ?a ?b False))
    | (Inl e, _) \<Rightarrow> e = INVALID_ARGUMENT \<and> task_conflict ?a ?b"
  proof (cases "task_conflict ?a ?b")
    case True
    then show ?thesis using MergeDevNames_task_conflict [OF True, of True] by (cases "MergeDevNames ?a ?b True") simp
  next
    case False
    show ?thesis
    proof (cases "device_conflict ?a ?b")
      case True
      show ?thesis
        unfolding MergeDevNames_device_conflict [OF \<open>\<not> task_conflict ?a ?b\<close> True]
        using \<open>\<not> task_conflict ?a ?b\<close> True set_task_joined [of ?b ?a] set_type_joined [of ?b ?a]
        by (cases "has_type ?b \<and> has_type ?a \<and> dev_type ?a \<noteq> dev_type ?b") auto
    next
      case False
      then show ?thesis using \<open>\<not> task_conflict ?a ?b\<close>
        by (auto simp: MergeDevNames_joined IsSpecification_refl device_conflict_def)
    qed
  qed
qed

theorem MergeDevNames_lub_witness:
  "let a = ParsedName_Clear\<lparr>has_job := True, job := ''ps''\<rparr>; b = ParsedName_Clear\<lparr>has_task := True, task := 7\<rparr>;
       t = ParsedName_Clear\<lparr>has_job := True, job := ''ps'', has_task := True, task := 7\<rparr>
   in MergeDevNames a b False = (Ok (), t) \<and> IsSpecification a t \<and> IsSpecification b t"
proof -
  let ?a = "ParsedName_Clear\<lparr>has_job := True, job := ''ps''\<rparr>" and ?b = "ParsedName_Clear\<lparr>has_task := True, task := 7\<rparr>"
  have "MergeDevNames ?a ?b False = (Ok (), ParsedName_Clear\<lparr>has_job := True, job := ''ps'', has_task := True, task := 7\<rparr>)"
    by (simp add: MergeDevNames_def ParsedName_Clear_def)
  then show ?thesis using MergeDevNames_lub [of ?a ?b] by (simp add: Let_def)
qed

lemma complete_extension:
  "\<exists>c. complete_name c \<and> IsSpecification p c"
proof
  show "complete_name (p\<lparr>has_job := True, has_replica := True, has_task := True, has_type := True, has_id := True\<rparr>) \<and>
    IsSpecification p (p\<lparr>has_job := True, has_replica := True, has_task := True, has_type := True, has_id := True\<rparr>)"
    by (simp add: complete_name_def IsSpecification_iff)
qed

text \<open>
  C28. Names that \<open>MergeDevNames\<close> accepts are those with a complete name that specifies both;
  \<open>AreCompatibleDevNames\<close> implies this but not conversely: a job alone and a task alone have common
  complete specifications and are reported as incompatible.
\<close>
theorem AreCompatibleDevNames_incomplete:
  "((\<exists>c. complete_name c \<and> IsCompleteSpecification a c = Some True \<and> IsCompleteSpecification b c = Some True) \<longleftrightarrow>
      is_ok (fst (MergeDevNames a b False))) \<and>
   (AreCompatibleDevNames a b \<longrightarrow> is_ok (fst (MergeDevNames a b False))) \<and>
   (\<exists>x y. is_ok (fst (MergeDevNames x y False)) \<and> \<not> AreCompatibleDevNames x y)"
proof (intro conjI impI)
  have ok: "is_ok (fst (MergeDevNames a b False)) \<longleftrightarrow> (\<exists>c. IsSpecification a c \<and> IsSpecification b c)" for a b
  proof (cases "task_conflict a b \<or> device_conflict a b")
    case True
    then have "fst (MergeDevNames a b False) = Err INVALID_ARGUMENT"
      using MergeDevNames_task_conflict [of a b False] MergeDevNames_device_conflict [of a b False]
      by (cases "task_conflict a b") simp_all
    then show ?thesis using True conflict_no_common by auto
  next
    case False
    then show ?thesis using joined_upper [of a b] by (auto simp: MergeDevNames_joined)
  qed
  show "(\<exists>c. complete_name c \<and> IsCompleteSpecification a c = Some True \<and> IsCompleteSpecification b c = Some True) \<longleftrightarrow>
      is_ok (fst (MergeDevNames a b False))"
    unfolding ok
  proof
    assume "\<exists>c. complete_name c \<and> IsCompleteSpecification a c = Some True \<and> IsCompleteSpecification b c = Some True"
    then show "\<exists>c. IsSpecification a c \<and> IsSpecification b c" by (metis IsCompleteSpecification_eq option.inject)
  next
    assume "\<exists>c. IsSpecification a c \<and> IsSpecification b c"
    then obtain c where c: "IsSpecification a c" "IsSpecification b c" by blast
    obtain d where d: "complete_name d" "IsSpecification c d" using complete_extension by blast
    have "IsSpecification a d" "IsSpecification b d" using c d(2) IsSpecification_trans by blast+
    then show "\<exists>c. complete_name c \<and> IsCompleteSpecification a c = Some True \<and> IsCompleteSpecification b c = Some True"
      using d(1) by (intro exI [of _ d]) (simp add: IsCompleteSpecification_eq)
  qed
  show "is_ok (fst (MergeDevNames a b False))" if "AreCompatibleDevNames a b"
    using that IsSpecification_refl unfolding ok AreCompatibleDevNames_def by blast
  have "is_ok (fst (MergeDevNames (ParsedName_Clear\<lparr>has_job := True\<rparr>) (ParsedName_Clear\<lparr>has_task := True\<rparr>) False))"
    by (simp add: MergeDevNames_def ParsedName_Clear_def)
  moreover have "\<not> AreCompatibleDevNames (ParsedName_Clear\<lparr>has_job := True\<rparr>) (ParsedName_Clear\<lparr>has_task := True\<rparr>)"
    by (simp add: AreCompatibleDevNames_def IsSpecification_def ParsedName_Clear_def)
  ultimately show "\<exists>x y. is_ok (fst (MergeDevNames x y False)) \<and> \<not> AreCompatibleDevNames x y" by blast
qed

theorem AreCompatibleDevNames_incomplete_witness:
  "AreCompatibleDevNames ParsedName_Clear worker_gpu \<and> is_ok (fst (MergeDevNames ParsedName_Clear worker_gpu False))"
proof -
  have "AreCompatibleDevNames ParsedName_Clear worker_gpu"
    by (simp add: AreCompatibleDevNames_def IsSpecification_def ParsedName_Clear_def)
  then show ?thesis using AreCompatibleDevNames_incomplete [of ParsedName_Clear worker_gpu] by blast
qed

text \<open>
  C29. Numbers in device names, here of a task: \<open>ParseFullName\<close> accepts every decimal number below \<open>2\<^sup>6\<^sup>4\<close> and
  keeps only its low 32 bits, read as a signed number; larger numbers are rejected. Different task
  numbers can therefore denote the same task, and a number of \<open>2\<^sup>3\<^sup>1\<close> or more can become negative.
\<close>
theorem ParseFullName_number:
  assumes "ds \<noteq> []" "\<forall>c \<in> set ds. isdigit c"
  shows "ParseFullName (''/task:'' @ ds) =
    (if dec ds < 2 ^ 64 then Some (ParsedName_Clear\<lparr>has_task := True, task := sint (word_of_int (dec ds) :: uint32)\<rparr>) else None)"
proof -
  have "ConsumePrefix ''*'' ds = None" using assms by (cases ds) (auto simp: ConsumePrefix_def isdigit_def)
  then have f: "consume_field ConsumeNumber old ds =
    (if dec ds < 2 ^ 64 then Some (True, sint (word_of_int (dec ds) :: uint32), []) else None)" for old
    using ConsumeNumber_text [OF assms, of "[]"] by (simp add: consume_field_def)
  have l: "parse_legacy lo up ty ([], q, pr) = Some ([], q, pr)" if "lo \<noteq> []" "up \<noteq> []" for lo up ty q pr
    using that by (simp add: ConsumePrefix_def)
  have "parse_job (''/task:'' @ ds, q, pr) = Some (''/task:'' @ ds, q, pr)"
    "parse_replica (''/task:'' @ ds, q, pr) = Some (''/task:'' @ ds, q, pr)"
    "parse_device ([], q, pr) = Some ([], q, pr)" for q pr
    by (simp_all add: ConsumePrefix_def)
  moreover have "parse_task (''/task:'' @ ds, q, pr) =
    (if dec ds < 2 ^ 64 then Some ([], q\<lparr>has_task := True, task := sint (word_of_int (dec ds) :: uint32)\<rparr>, True) else None)" for q pr
    unfolding parse_task.simps ConsumePrefix_append option.case f
    by (cases "dec ds < 2 ^ 64") (simp_all only: if_True if_False option.map prod.case)
  ultimately have r: "parse_round (''/task:'' @ ds, ParsedName_Clear, False) =
    (if dec ds < 2 ^ 64 then Some ([], ParsedName_Clear\<lparr>has_task := True, task := sint (word_of_int (dec ds) :: uint32)\<rparr>, True) else None)"
    unfolding parse_round_def
    by (cases "dec ds < 2 ^ 64")
      (simp_all only: bind.simps if_True if_False l not_Cons_self2 list.distinct simp_thms)
  have "parse_loop [] q = Some q" for q by (simp add: parse_loop.simps)
  then have "parse_loop (''/task:'' @ ds) ParsedName_Clear =
    (if dec ds < 2 ^ 64 then Some (ParsedName_Clear\<lparr>has_task := True, task := sint (word_of_int (dec ds) :: uint32)\<rparr>) else None)"
    unfolding parse_loop.simps [of "''/task:'' @ ds"] r by (cases "dec ds < 2 ^ 64") (simp_all only: if_True if_False option.case prod.case append.simps list.distinct)
  then show ?thesis by (simp add: ParseFullName_def)
qed

theorem ParseFullName_number_witness:
  "ParseFullName (''/task:'' @ ''4294967303'') = Some (ParsedName_Clear\<lparr>has_task := True, task := 7\<rparr>) \<and>
   ParseFullName (''/task:'' @ ''2147483648'') = Some (ParsedName_Clear\<lparr>has_task := True, task := - (2 ^ 31)\<rparr>)"
proof -
  have "\<forall>c \<in> set ''4294967303''. isdigit c" "\<forall>c \<in> set ''2147483648''. isdigit c" by (simp_all add: isdigit_def)
  then show ?thesis using ParseFullName_number [of "''4294967303''"] ParseFullName_number [of "''2147483648''"]
    by (simp add: dec_def digit_of_def sint_uint signed_take_bit_eq_take_bit_minus)
qed

end
