(* ===== verification/RendezvousKey.thy ===== *)
theory RendezvousKey
  imports DeviceNameOps
begin

text \<open>
  The keys of a rendezvous, \<open>CreateKey\<close> and \<open>ParseKey\<close> of
  \<^verbatim>\<open>core/framework/rendezvous.cc\<close>, with the hexadecimal conversions of
  \<^verbatim>\<open>core/lib/strings/numbers.cc\<close>. The \<open>StringPiece\<close>s of a \<open>ParsedKey\<close>, which
  point into its own buffer, are strings.
\<close>

section \<open>Model\<close>

definition hexdigits :: string where
  "hexdigits = ''0123456789abcdef''"

fun hex_loop :: "nat \<Rightarrow> uint64 \<Rightarrow> string \<Rightarrow> string" where
  "hex_loop 0 v buf = buf"
| "hex_loop (Suc i) v buf = hex_loop i (drop_bit 4 v) (hexdigits ! unat (v AND 0xf) # buf)"

definition Uint64ToHexString :: "uint64 \<Rightarrow> string" where
  "Uint64ToHexString v = hex_loop 16 v []"

fun hex_read :: "uint64 \<Rightarrow> string \<Rightarrow> uint64 option" where
  "hex_read v [] = Some v"
| "hex_read v (c # s) =
     (let n = of_char c :: nat in
      if 48 \<le> n \<and> n \<le> 57 then hex_read (push_bit 4 v + word_of_nat (n - 48)) s
      else if 97 \<le> n \<and> n \<le> 102 then hex_read (push_bit 4 v + 10 + word_of_nat (n - 97)) s
      else if 65 \<le> n \<and> n \<le> 70 then hex_read (push_bit 4 v + 10 + word_of_nat (n - 65)) s
      else None)"

definition HexStringToUint64 :: "string \<Rightarrow> uint64 option" where
  "HexStringToUint64 s = (if s = [] then None else hex_read 0 s)"

record FrameAndIter =
  frame_id :: uint64
  iter_id :: int

definition CreateKey :: "string \<Rightarrow> uint64 \<Rightarrow> string \<Rightarrow> string \<Rightarrow> FrameAndIter \<Rightarrow> string" where
  "CreateKey sd incarnation dd name frame_iter =
     sd @ '';'' @ Uint64ToHexString incarnation @ '';'' @ dd @ '';'' @ name @ '';'' @
     FastUInt64ToBufferLeft (frame_id frame_iter) @ '':'' @ FastInt64ToBufferLeft (iter_id frame_iter)"

fun ConsumeNextPart :: "string \<Rightarrow> char \<Rightarrow> string \<times> string" where
  "ConsumeNextPart [] delim = ([], [])"
| "ConsumeNextPart (c # s) delim =
     (if c = delim then ([], s) else (case ConsumeNextPart s delim of (part, rest) \<Rightarrow> (c # part, rest)))"

record ParsedKey =
  buf :: string
  src_device :: string
  src :: ParsedName
  src_incarnation :: uint64
  dst_device :: string
  dst :: ParsedName
  edge_name :: string

abbreviation FullKey :: "ParsedKey \<Rightarrow> string" where
  "FullKey \<equiv> buf"

definition ParseKey :: "string \<Rightarrow> ParsedKey status_or" where
  "ParseKey key =
     (let (part0, s) = ConsumeNextPart key (CHR '';'');
          (part1, s) = ConsumeNextPart s (CHR '';'');
          (part2, s) = ConsumeNextPart s (CHR '';'');
          (part3, s) = ConsumeNextPart s (CHR '';'');
          (part4, s) = ConsumeNextPart s (CHR '';'')
      in if s = [] \<and> part4 \<noteq> [] then
           (case ParseFullName part0 of
              None \<Rightarrow> Err INVALID_ARGUMENT
            | Some ps \<Rightarrow>
                (case HexStringToUint64 part1 of
                   None \<Rightarrow> Err INVALID_ARGUMENT
                 | Some inc \<Rightarrow>
                     (case ParseFullName part2 of
                        None \<Rightarrow> Err INVALID_ARGUMENT
                      | Some pd \<Rightarrow>
                          if part3 \<noteq> [] then
                            Ok \<lparr>buf = key, src_device = part0, src = ps, src_incarnation = inc,
                                dst_device = part2, dst = pd, edge_name = part3\<rparr>
                          else Err INVALID_ARGUMENT)))
         else Err INVALID_ARGUMENT)"

section \<open>Hexadecimal numbers\<close>

lemma hex_digit_read:
  assumes "k < 16"
  shows "hex_read v (hexdigits ! k # s) = hex_read (push_bit 4 v + word_of_nat k) s"
proof -
  have "k = 0 \<or> k = 1 \<or> k = 2 \<or> k = 3 \<or> k = 4 \<or> k = 5 \<or> k = 6 \<or> k = 7 \<or>
    k = 8 \<or> k = 9 \<or> k = 10 \<or> k = 11 \<or> k = 12 \<or> k = 13 \<or> k = 14 \<or> k = 15" using assms by arith
  then show ?thesis by (elim disjE) (simp_all add: hexdigits_def add.assoc)
qed

lemma hex_step: "push_bit 4 (push_bit (4 * n) w OR take_bit (4 * n) (drop_bit 4 v)) + (v AND 0xf) =
    push_bit (4 * Suc n) w OR take_bit (4 * Suc n) v" for v w :: uint64
proof -
  let ?x = "push_bit 4 (push_bit (4 * n) w OR take_bit (4 * n) (drop_bit 4 v))"
  have m: "v AND 0xf = take_bit 4 v" by (simp add: take_bit_eq_mask mask_numeral)
  have "?x AND take_bit 4 v = 0" by (rule bit_eqI) (auto simp: bit_simps)
  then have "?x + take_bit 4 v = ?x OR take_bit 4 v" using word_plus_and_or [of ?x "take_bit 4 v"] by (simp only: add_0_left)
  also have "\<dots> = push_bit (4 * Suc n) w OR take_bit (4 * Suc n) v"
    by (rule bit_eqI) (auto simp: bit_simps)
  finally show ?thesis unfolding m .
qed

lemma low_nibble: "unat (v AND 0xf) < 16" for v :: uint64
proof -
  have "v AND 0xf \<le> 0xf" by (rule word_and_le1)
  then show ?thesis by (simp add: word_le_nat_alt)
qed

lemma hex_read_loop: "hex_read w (hex_loop n v acc) = hex_read (push_bit (4 * n) w OR take_bit (4 * n) v) acc"
proof (induction n arbitrary: v acc)
  case (Suc n)
  have c: "word_of_nat (unat x) = x" for x :: uint64 by simp
  show ?case unfolding hex_loop.simps Suc.IH hex_digit_read [OF low_nibble] c hex_step by (rule refl)
qed simp

lemma hex_round_trip: "HexStringToUint64 (Uint64ToHexString v) = Some v"
proof -
  have "hex_loop n u acc = [] \<longleftrightarrow> n = 0 \<and> acc = []" for n u acc by (induction n arbitrary: u acc) auto
  then show ?thesis using hex_read_loop [of 0 16 v "[]"]
    by (simp add: HexStringToUint64_def Uint64ToHexString_def take_bit_word_eq_self)
qed

section \<open>Keys\<close>

lemma ConsumeNextPart_app: "d \<notin> set p \<Longrightarrow> ConsumeNextPart (p @ d # s) d = (p, s)"
  by (induction p) auto

lemma ConsumeNextPart_all: "d \<notin> set p \<Longrightarrow> ConsumeNextPart p d = (p, [])"
  by (induction p) auto

lemma hex_semicolon: "CHR '';'' \<notin> set (Uint64ToHexString v)"
proof -
  have "CHR '';'' \<notin> set hexdigits" by (simp add: hexdigits_def)
  moreover have "unat (u AND 0xf) < length hexdigits" for u :: uint64
    using low_nibble [of u] by (simp add: hexdigits_def)
  ultimately have "CHR '';'' \<noteq> hexdigits ! unat (u AND 0xf)" for u :: uint64 by (metis nth_mem)
  then have "CHR '';'' \<notin> set acc \<Longrightarrow> CHR '';'' \<notin> set (hex_loop n u acc)" for n u acc
    by (induction n arbitrary: u acc) auto
  then show ?thesis by (simp add: Uint64ToHexString_def)
qed

lemma frame_chars:
  "\<forall>c \<in> set (FastUInt64ToBufferLeft u). isdigit c" "FastUInt64ToBufferLeft u \<noteq> []"
  "\<forall>c \<in> set (FastInt64ToBufferLeft i). isdigit c \<or> c = CHR ''-''"
  using digits_printed by (auto simp: FastInt64ToBufferLeft_def FastUInt64ToBufferLeft_def Let_def)

lemma frame_text:
  "CHR '';'' \<notin> set (FastUInt64ToBufferLeft u @ '':'' @ FastInt64ToBufferLeft i)"
  "CHR '':'' \<notin> set (FastUInt64ToBufferLeft u)"
  using frame_chars(1) [of u] frame_chars(3) [of i] by (auto simp: isdigit_def)

lemma key_parts:
  assumes "CHR '';'' \<notin> set sd" "CHR '';'' \<notin> set dd" "CHR '';'' \<notin> set name"
  shows "ConsumeNextPart (CreateKey sd inc dd name fi) (CHR '';'') =
      (sd, Uint64ToHexString inc @ '';'' @ dd @ '';'' @ name @ '';'' @ FastUInt64ToBufferLeft (frame_id fi) @ '':'' @ FastInt64ToBufferLeft (iter_id fi))"
    "ConsumeNextPart (Uint64ToHexString inc @ '';'' @ s) (CHR '';'') = (Uint64ToHexString inc, s)"
    "ConsumeNextPart (dd @ '';'' @ s) (CHR '';'') = (dd, s)"
    "ConsumeNextPart (name @ '';'' @ s) (CHR '';'') = (name, s)"
  using assms hex_semicolon by (simp_all add: CreateKey_def ConsumeNextPart_app)

text \<open>
  A key that \<open>CreateKey\<close> builds for two device names that the parser accepts and a tensor name
  that is not empty and contains no semicolon is parsed back by \<open>ParseKey\<close> to these names, their
  parsed forms and the incarnation number.
\<close>
theorem rendezvous_key_roundtrip:
  assumes "ParseFullName sd = Some ps" "ParseFullName dd = Some pd" "name \<noteq> []" "CHR '';'' \<notin> set name"
  shows "ParseKey (CreateKey sd inc dd name fi) =
    Ok \<lparr>buf = CreateKey sd inc dd name fi, src_device = sd, src = ps, src_incarnation = inc,
        dst_device = dd, dst = pd, edge_name = name\<rparr>"
proof -
  have "CHR '';'' \<notin> set sd" "CHR '';'' \<notin> set dd"
    using assms(1,2) ParseFullName_no_semicolon by blast+
  note parts = key_parts [OF this assms(4)]
  show ?thesis
    unfolding ParseKey_def parts Let_def prod.case ConsumeNextPart_all [OF frame_text(1)]
    using assms frame_chars(2) [of "frame_id fi"] by (simp add: hex_round_trip)
qed

lemma cpu_names: "ParseFullName ''/cpu:0'' = Some (ParsedName_Clear\<lparr>has_type := True, dev_type := ''CPU'', has_id := True, dev_id := 0\<rparr>)"
  "ParseFullName ''/gpu:1'' = Some (ParsedName_Clear\<lparr>has_type := True, dev_type := ''GPU'', has_id := True, dev_id := 1\<rparr>)"
  by code_simp+

theorem rendezvous_key_roundtrip_witness:
  "is_ok (ParseKey (CreateKey ''/cpu:0'' 5 ''/gpu:1'' ''edge_3'' \<lparr>frame_id = 0, iter_id = 0\<rparr>))"
  by (subst rendezvous_key_roundtrip [OF cpu_names]) simp_all

text \<open>
  Keys identify what they are made of: two keys of \<open>CreateKey\<close> are equal only if the devices, the
  incarnation, the tensor name, the frame and the iteration are.
\<close>
theorem CreateKey_inj:
  assumes "ParseFullName sd = Some ps" "ParseFullName dd = Some pd" "CHR '';'' \<notin> set name"
    and "ParseFullName sd' = Some ps'" "ParseFullName dd' = Some pd'" "CHR '';'' \<notin> set name'"
    and "- (2 ^ 63) \<le> iter_id fi" "iter_id fi < 2 ^ 63" "- (2 ^ 63) \<le> iter_id fi'" "iter_id fi' < 2 ^ 63"
    and eq: "CreateKey sd inc dd name fi = CreateKey sd' inc' dd' name' fi'"
  shows "sd = sd' \<and> inc = inc' \<and> dd = dd' \<and> name = name' \<and> fi = fi'"
proof -
  have "CHR '';'' \<notin> set sd" "CHR '';'' \<notin> set dd" "CHR '';'' \<notin> set sd'" "CHR '';'' \<notin> set dd'"
    using assms(1,2,4,5) ParseFullName_no_semicolon by blast+
  note k = key_parts [OF this(1,2) assms(3)] and k' = key_parts [OF this(3,4) assms(6)]
  have s: "sd = sd'" and r1: "Uint64ToHexString inc @ '';'' @ dd @ '';'' @ name @ '';'' @ FastUInt64ToBufferLeft (frame_id fi) @ '':'' @ FastInt64ToBufferLeft (iter_id fi) =
      Uint64ToHexString inc' @ '';'' @ dd' @ '';'' @ name' @ '';'' @ FastUInt64ToBufferLeft (frame_id fi') @ '':'' @ FastInt64ToBufferLeft (iter_id fi')"
    using k(1) [of inc fi] k'(1) [of inc' fi'] unfolding eq by simp_all
  have h: "Uint64ToHexString inc = Uint64ToHexString inc'"
    and r2: "dd @ '';'' @ name @ '';'' @ FastUInt64ToBufferLeft (frame_id fi) @ '':'' @ FastInt64ToBufferLeft (iter_id fi) =
      dd' @ '';'' @ name' @ '';'' @ FastUInt64ToBufferLeft (frame_id fi') @ '':'' @ FastInt64ToBufferLeft (iter_id fi')"
    using arg_cong [OF r1, of "\<lambda>s. ConsumeNextPart s (CHR '';'')"] unfolding k(2) k'(2) by (simp_all only: prod.inject)
  have d: "dd = dd'" and r3: "name @ '';'' @ FastUInt64ToBufferLeft (frame_id fi) @ '':'' @ FastInt64ToBufferLeft (iter_id fi) =
      name' @ '';'' @ FastUInt64ToBufferLeft (frame_id fi') @ '':'' @ FastInt64ToBufferLeft (iter_id fi')"
    using arg_cong [OF r2, of "\<lambda>s. ConsumeNextPart s (CHR '';'')"] unfolding k(3) k'(3) by (simp_all only: prod.inject)
  have n: "name = name'" and r4: "FastUInt64ToBufferLeft (frame_id fi) @ '':'' @ FastInt64ToBufferLeft (iter_id fi) =
      FastUInt64ToBufferLeft (frame_id fi') @ '':'' @ FastInt64ToBufferLeft (iter_id fi')"
    using arg_cong [OF r3, of "\<lambda>s. ConsumeNextPart s (CHR '';'')"] unfolding k(4) k'(4) by (simp_all only: prod.inject)
  have "ConsumeNextPart (FastUInt64ToBufferLeft u @ '':'' @ t) (CHR '':'') = (FastUInt64ToBufferLeft u, t)" for u t
    using frame_text(2) [of u] by (simp add: ConsumeNextPart_app)
  then have f: "FastUInt64ToBufferLeft (frame_id fi) = FastUInt64ToBufferLeft (frame_id fi')" "FastInt64ToBufferLeft (iter_id fi) = FastInt64ToBufferLeft (iter_id fi')"
    using arg_cong [OF r4, of "\<lambda>s. ConsumeNextPart s (CHR '':'')"] by (simp_all only: prod.inject)
  have "inc = inc'" using h hex_round_trip by (metis option.inject)
  moreover have "iter_id fi = iter_id fi'" using f(2) safe_strto64_printed assms(7-10) by (metis option.inject)
  moreover have "frame_id fi = frame_id fi'"
  proof -
    have "dec (FastUInt64ToBufferLeft u) = uint u" for u using digits_printed(3) [of "unat u"] by (simp add: FastUInt64ToBufferLeft_def)
    then have "uint (frame_id fi) = uint (frame_id fi')" using f(1) by metis
    then show ?thesis by (rule word_uint_eqI)
  qed
  ultimately show ?thesis using s d n by simp
qed

theorem CreateKey_inj_witness:
  "CreateKey ''/cpu:0'' 5 ''/gpu:1'' ''edge_3'' \<lparr>frame_id = 0, iter_id = 0\<rparr> \<noteq>
   CreateKey ''/cpu:0'' 5 ''/gpu:1'' ''edge_3'' \<lparr>frame_id = 0, iter_id = 1\<rparr>"
proof
  assume "CreateKey ''/cpu:0'' 5 ''/gpu:1'' ''edge_3'' \<lparr>frame_id = 0, iter_id = 0\<rparr> =
    CreateKey ''/cpu:0'' 5 ''/gpu:1'' ''edge_3'' \<lparr>frame_id = 0, iter_id = 1\<rparr>"
  from CreateKey_inj [OF cpu_names _ cpu_names _ _ _ _ _ this] show False by simp
qed

end
