(* ===== verification/Hash.thy ===== *)
theory Hash
  imports Coding
begin

text \<open>
  \<^verbatim>\<open>core/lib/hash/hash.cc\<close>: the hash functions by which the rendezvous identifies
  its keys, and the fact that they are far from injective: flipping one bit of the mixed values
  of two neighbouring blocks leaves the hash unchanged.
\<close>

definition ByteAs32 :: "byte \<Rightarrow> uint32" where
  "ByteAs32 c = ucast c AND 0xff"

definition ByteAs64 :: "byte \<Rightarrow> uint64" where
  "ByteAs64 c = ucast c AND 0xff"

definition mix32 :: "uint32 \<Rightarrow> uint32" where
  "mix32 k = (let k = k * 0x5bd1e995; k = k XOR drop_bit 24 k in k * 0x5bd1e995)"

function hash32_loop :: "bool \<Rightarrow> uint32 \<Rightarrow> bytes \<Rightarrow> uint32 \<times> bytes" where
  "hash32_loop le h data =
     (case DecodeFixed32 le data of
        None \<Rightarrow> (h, data)
      | Some k \<Rightarrow> hash32_loop le (h * 0x5bd1e995 XOR mix32 k) (drop 4 data))"
  by pat_completeness auto
termination
  by (relation "measure (\<lambda>(le, h, data). length data)") (auto simp: DecodeFixed32_def split: if_splits)

text \<open>The switch over the remaining bytes; the cases fall through.\<close>

fun switch32 :: "nat \<Rightarrow> bytes \<Rightarrow> uint32 \<Rightarrow> uint32" where
  "switch32 0 data h = h"
| "switch32 (Suc 0) data h = (h XOR ByteAs32 (data ! 0)) * 0x5bd1e995"
| "switch32 (Suc (Suc n)) data h = switch32 (Suc n) data (h XOR push_bit (8 * Suc n) (ByteAs32 (data ! Suc n)))"

definition Hash32 :: "bool \<Rightarrow> bytes \<Rightarrow> uint32 \<Rightarrow> uint32" where
  "Hash32 le data seed =
     (case hash32_loop le (seed XOR word_of_nat (length data)) data of
        (h, rest) \<Rightarrow>
          let h = switch32 (length rest) rest h;
              h = (h XOR drop_bit 13 h) * 0x5bd1e995
          in h XOR drop_bit 15 h)"

definition mix64 :: "uint64 \<Rightarrow> uint64" where
  "mix64 k = (let k = k * 0xc6a4a7935bd1e995; k = k XOR drop_bit 47 k in k * 0xc6a4a7935bd1e995)"

function hash64_loop :: "bool \<Rightarrow> uint64 \<Rightarrow> bytes \<Rightarrow> uint64 \<times> bytes" where
  "hash64_loop le h data =
     (case DecodeFixed64 le data of
        None \<Rightarrow> (h, data)
      | Some k \<Rightarrow> hash64_loop le ((h XOR mix64 k) * 0xc6a4a7935bd1e995) (drop 8 data))"
  by pat_completeness auto
termination
  by (relation "measure (\<lambda>(le, h, data). length data)") (auto simp: DecodeFixed64_def split: if_splits)

declare hash32_loop.simps [simp del] hash64_loop.simps [simp del]

fun switch64 :: "nat \<Rightarrow> bytes \<Rightarrow> uint64 \<Rightarrow> uint64" where
  "switch64 0 data h = h"
| "switch64 (Suc 0) data h = (h XOR ByteAs64 (data ! 0)) * 0xc6a4a7935bd1e995"
| "switch64 (Suc (Suc n)) data h = switch64 (Suc n) data (h XOR push_bit (8 * Suc n) (ByteAs64 (data ! Suc n)))"

definition Hash64_seed :: "bool \<Rightarrow> bytes \<Rightarrow> uint64 \<Rightarrow> uint64" where
  "Hash64_seed le data seed =
     (case hash64_loop le (seed XOR (word_of_nat (length data) * 0xc6a4a7935bd1e995)) data of
        (h, rest) \<Rightarrow>
          let h = switch64 (length rest) rest h;
              h = (h XOR drop_bit 47 h) * 0xc6a4a7935bd1e995
          in h XOR drop_bit 47 h)"

definition Hash64 :: "bool \<Rightarrow> bytes \<Rightarrow> uint64" where
  "Hash64 le data = Hash64_seed le data 0xDECAFCAFFE"

section \<open>Collisions\<close>

lemma bit_top: "bit (0x8000000000000000 :: uint64) n \<longleftrightarrow> n = 63"
proof -
  have "(0x8000000000000000 :: uint64) = 2 ^ 63" by simp
  then show ?thesis by (simp only: bit_exp_iff possible_bit_word) auto
qed

lemma xor_top_bit: "x XOR 0x8000000000000000 = x + 0x8000000000000000" for x :: uint64
proof -
  let ?t = "0x8000000000000000 :: uint64"
  have dis: "y + ?t = y OR ?t" if "\<not> bit y 63" for y
  proof -
    have "y AND ?t = 0"
    proof (rule bit_eqI)
      show "bit (y AND ?t) n = bit (0 :: uint64) n" for n
        unfolding bit_and_iff bit_top using that by (cases "n = 63") simp_all
    qed
    then show ?thesis using word_plus_and_or [of y ?t] by (simp only: add_0_left)
  qed
  show ?thesis
  proof (cases "bit x 63")
    case False
    have "bit (x OR ?t) n = bit (x XOR ?t) n" for n
      unfolding bit_or_iff bit_xor_iff bit_top using False by (cases "n = 63") simp_all
    then have "x OR ?t = x XOR ?t" by (rule bit_eqI)
    then show ?thesis using dis [OF False] by simp
  next
    case True
    let ?y = "x XOR ?t"
    have n63: "\<not> bit ?y 63" unfolding bit_xor_iff bit_top using True by simp
    have "bit (?y OR ?t) n = bit x n" for n
      unfolding bit_or_iff bit_xor_iff bit_top using True by (cases "n = 63") simp_all
    then have "?y OR ?t = x" by (rule bit_eqI)
    then have e: "x = ?y + ?t" unfolding dis [OF n63] by (rule sym)
    have "x + ?t = ?y + (?t + ?t)" using arg_cong [OF e, of "\<lambda>z. z + ?t"] by (simp only: add.assoc)
    moreover have "?t + ?t = 0" by simp
    ultimately show ?thesis by (simp only: add_0_right)
  qed
qed

lemma xor_top_mult: "(x XOR 0x8000000000000000) * 0xc6a4a7935bd1e995 = (x * 0xc6a4a7935bd1e995) XOR 0x8000000000000000"
  for x :: uint64
  unfolding xor_top_bit by (simp add: distrib_right)

lemma mix64_surj: "\<exists>k. mix64 k = y"
proof -
  let ?m = "0xc6a4a7935bd1e995 :: uint64" and ?i = "0x5f7a0ea7e59b19bd :: uint64"
  have inv: "?i * ?m = 1" by simp
  have sh: "(z XOR drop_bit 47 z) XOR drop_bit 47 (z XOR drop_bit 47 z) = z" for z :: uint64
    by (auto simp: bit_eq_iff bit_simps dest: bit_imp_le_length)
  define z where "z = y * ?i"
  define k where "k = (z XOR drop_bit 47 z) * ?i"
  have "k * ?m = z XOR drop_bit 47 z" unfolding k_def mult.assoc inv by simp
  then have "mix64 k = z * ?m" unfolding mix64_def Let_def by (simp only: sh)
  also have "\<dots> = y" unfolding z_def mult.assoc inv by simp
  finally show ?thesis by blast
qed

lemma hash64_loop_blocks:
  assumes "length a = 8"
  shows "hash64_loop le h (a @ s) = hash64_loop le ((h XOR mix64 (memcpy_to a)) * 0xc6a4a7935bd1e995) s"
  using assms by (subst hash64_loop.simps) (simp add: DecodeFixed_memcpy)

lemma hash64_loop_prefix:
  "8 dvd length p \<Longrightarrow> \<exists>h'. \<forall>s. hash64_loop le h (p @ s) = hash64_loop le h' s"
proof (induction "length p" arbitrary: p h rule: less_induct)
  case less
  show ?case
  proof (cases "p = []")
    case False
    then have l: "8 \<le> length p" using less.prems by (simp add: dvd_imp_le)
    let ?h = "(h XOR mix64 (memcpy_to (take 8 p))) * 0xc6a4a7935bd1e995"
    have "8 dvd length (drop 8 p)" "length (drop 8 p) < length p" using less.prems l by (simp_all add: dvd_diff_nat)
    then obtain h' where "\<forall>s. hash64_loop le ?h (drop 8 p @ s) = hash64_loop le h' s" using less.hyps by blast
    moreover have "hash64_loop le h (p @ s) = hash64_loop le ?h (drop 8 p @ s)" for s
    proof -
      have "p @ s = take 8 p @ drop 8 p @ s" by simp
      moreover have "length (take 8 p) = 8" using l by simp
      ultimately show ?thesis by (simp only: hash64_loop_blocks)
    qed
    ultimately show ?thesis by auto
  qed auto
qed

lemma mix64_flip: "\<exists>a'. length a' = 8 \<and> mix64 (memcpy_to a') = mix64 k XOR 0x8000000000000000"
proof -
  obtain k' where "mix64 k' = mix64 k XOR 0x8000000000000000" using mix64_surj by blast
  moreover have "memcpy_to (memcpy_from 8 k') = k'" by (simp add: memcpy_round_trip take_bit_word_eq_self)
  moreover have "length (memcpy_from 8 k') = 8" by (simp add: memcpy_from_def)
  ultimately show ?thesis by metis
qed

text \<open>
  For any two neighbouring 8-byte blocks of a key there are two other blocks with which the
  key has the same \<open>Hash64\<close>, whatever stands before and after them.
\<close>
theorem Hash64_collision:
  assumes "8 dvd length p" "length a = 8" "length b = 8"
  shows "\<exists>a' b'. length a' = 8 \<and> length b' = 8 \<and> a' \<noteq> a \<and> (\<forall>s. Hash64 le (p @ a' @ b' @ s) = Hash64 le (p @ a @ b @ s))"
proof -
  let ?m = "0xc6a4a7935bd1e995 :: uint64" and ?t = "0x8000000000000000 :: uint64"
  obtain a' where a': "length a' = 8" "mix64 (memcpy_to a') = mix64 (memcpy_to a) XOR ?t" using mix64_flip by blast
  obtain b' where b': "length b' = 8" "mix64 (memcpy_to b') = mix64 (memcpy_to b) XOR ?t" using mix64_flip by blast
  have ne: "a' \<noteq> a"
  proof
    assume "a' = a"
    then have "mix64 (memcpy_to a) = mix64 (memcpy_to a) + ?t" using a'(2) by (simp only: xor_top_bit)
    then show False by simp
  qed
  have step: "((h XOR (x XOR ?t)) * ?m XOR (y XOR ?t)) * ?m = ((h XOR x) * ?m XOR y) * ?m" for h x y
  proof -
    have "(h XOR (x XOR ?t)) * ?m = ((h XOR x) * ?m) XOR ?t" by (simp only: xor.assoc [symmetric] xor_top_mult)
    moreover have "(z XOR ?t) XOR (y XOR ?t) = z XOR y" for z by (auto simp: bit_eq_iff bit_xor_iff)
    ultimately show ?thesis by (simp only:)
  qed
  have "hash64_loop le h (a' @ b' @ s) = hash64_loop le h (a @ b @ s)" for h s
    using assms(2,3) a' b' step by (simp only: hash64_loop_blocks)
  then have "hash64_loop le h (p @ a' @ b' @ s) = hash64_loop le h (p @ a @ b @ s)" for h s
    using hash64_loop_prefix [OF assms(1), of le h] by metis
  moreover have "length (p @ a' @ b' @ s) = length (p @ a @ b @ s)" for s using assms a' b' by simp
  ultimately have "Hash64 le (p @ a' @ b' @ s) = Hash64 le (p @ a @ b @ s)" for s
    unfolding Hash64_def Hash64_seed_def by (simp only:)
  then show ?thesis using a' b' ne by blast
qed

theorem Hash64_collision_witness:
  "\<exists>a' b'. length a' = 8 \<and> length b' = 8 \<and> a' \<noteq> replicate 8 (65 :: byte) \<and>
    (\<forall>s. Hash64 True ([] @ a' @ b' @ s) = Hash64 True ([] @ replicate 8 65 @ replicate 8 66 @ s))"
  by (rule Hash64_collision) simp_all

end
