(* ===== verification/Rendezvous.thy ===== *)
theory Rendezvous
  imports RendezvousKey Hash "HOL-Library.Multiset"
begin

text \<open>
  The local rendezvous, \<open>LocalRendezvousImpl\<close> of \<^verbatim>\<open>core/framework/rendezvous.cc\<close>. A tensor is an
  abstract value with \<open>None\<close> for the default-constructed \<open>Tensor()\<close>; callbacks and device
  contexts are numbers that identify them. An operation is split where the code releases the mutex:
  its result is the new state of the rendezvous, the references that it takes while it holds the
  mutex, the actions that its thread still has to perform without it, in program order, and the
  status that it returns. The table is an association list, in which a new key is added at the end;
  only \<open>StartAbort\<close> and the destructor iterate over it. The message of a status is not modelled.
\<close>

section \<open>Model\<close>

record args =
  device_context :: "nat option"
  alloc_attrs :: uint32

definition Args :: args where
  "Args = \<lparr>device_context = None, alloc_attrs = 0\<rparr>"

record 'v item =
  waiter :: "nat option"
  val :: "'v option"
  is_dead :: bool
  has_been_recvd :: bool
  send_dev_context :: "nat option"
  recv_dev_context :: "nat option"
  send_alloc_attrs :: uint32
  recv_alloc_attrs :: uint32

definition new_Item :: "'v item" where
  "new_Item = \<lparr>waiter = None, val = None, is_dead = False, has_been_recvd = False, send_dev_context = None,
     recv_dev_context = None, send_alloc_attrs = 0, recv_alloc_attrs = 0\<rparr>"

type_synonym 'v rv_table = "(uint64 \<times> 'v item) list"

record 'v rendezvous =
  tolerate_dup_recv :: bool
  table :: "'v rv_table"
  status :: "error_code option"

definition NewLocalRendezvous :: "bool \<Rightarrow> 'v rendezvous" where
  "NewLocalRendezvous tolerate = \<lparr>tolerate_dup_recv = tolerate, table = [], status = None\<rparr>"

text \<open>\<open>done(s, send_args, recv_args, v, is_dead)\<close> with the callback's number first; \<open>None\<close> is the status OK.\<close>

datatype 'v action =
    Callback nat "error_code option" args args "'v option" bool
  | Unref nat

type_synonym 'v outcome = "'v rendezvous \<times> nat list \<times> 'v action list \<times> unit status_or"

definition KeyHash :: "bool \<Rightarrow> string \<Rightarrow> uint64" where
  "KeyHash le k = Hash64 le (map of_char k)"

definition opt_list :: "'a option \<Rightarrow> 'a list" where
  "opt_list x = (case x of None \<Rightarrow> [] | Some y \<Rightarrow> [y])"

text \<open>The destructor of an \<open>Item\<close>.\<close>

definition delete_Item :: "'v item \<Rightarrow> 'v action list" where
  "delete_Item it = map Unref (opt_list (send_dev_context it)) @ map Unref (opt_list (recv_dev_context it))"

fun update_item :: "uint64 \<Rightarrow> 'v item \<Rightarrow> 'v rv_table \<Rightarrow> 'v rv_table" where
  "update_item h it [] = []"
| "update_item h it ((h', it') # t) = (if h' = h then (h', it) # t else (h', it') # update_item h it t)"

definition Send :: "bool \<Rightarrow> string \<Rightarrow> args \<Rightarrow> 'v option \<Rightarrow> bool \<Rightarrow> 'v rendezvous \<Rightarrow> 'v outcome" where
  "Send le key send_args v dead rv =
     (let key_hash = KeyHash le key in
      case status rv of
        Some e \<Rightarrow> (rv, [], [], Err e)
      | None \<Rightarrow>
          (case map_of (table rv) key_hash of
             None \<Rightarrow>
               let it = new_Item\<lparr>waiter := None, val := v, is_dead := dead,
                          send_dev_context := device_context send_args, recv_dev_context := None,
                          send_alloc_attrs := alloc_attrs send_args\<rparr>
               in (rv\<lparr>table := table rv @ [(key_hash, it)]\<rparr>, opt_list (device_context send_args), [], Ok ())
           | Some it \<Rightarrow>
               (case waiter it of
                  None \<Rightarrow> (rv, [], [], Err ABORTED)
                | Some w \<Rightarrow>
                    let recv_args = \<lparr>device_context = recv_dev_context it, alloc_attrs = recv_alloc_attrs it\<rparr>;
                        it = it\<lparr>has_been_recvd := True, waiter := None, recv_dev_context := None\<rparr>;
                        it = (if tolerate_dup_recv rv then
                                let it = it\<lparr>val := v, is_dead := dead\<rparr>;
                                    it = (if device_context send_args \<noteq> None
                                          then it\<lparr>send_dev_context := device_context send_args\<rparr> else it)
                                in it\<lparr>send_alloc_attrs := alloc_attrs send_args\<rparr>
                              else it)
                    in (rv\<lparr>table := update_item key_hash it (table rv)\<rparr>,
                        (if tolerate_dup_recv rv then opt_list (device_context send_args) else []),
                        Callback w None send_args recv_args v dead # map Unref (opt_list (device_context recv_args)),
                        Ok ()))))"

definition RecvAsync :: "bool \<Rightarrow> string \<Rightarrow> args \<Rightarrow> nat \<Rightarrow> 'v rendezvous \<Rightarrow> 'v outcome" where
  "RecvAsync le key recv_args w rv =
     (let key_hash = KeyHash le key in
      case status rv of
        Some e \<Rightarrow> (rv, [], [Callback w (Some e) Args recv_args None False], Ok ())
      | None \<Rightarrow>
          (case map_of (table rv) key_hash of
             Some it \<Rightarrow>
               if has_been_recvd it \<and> \<not> tolerate_dup_recv rv then
                 (rv, [], [Callback w (Some ABORTED) Args recv_args None False], Ok ())
               else if waiter it = None \<or> tolerate_dup_recv rv then
                 let v = val it;
                     it' = (if \<not> tolerate_dup_recv rv then it\<lparr>val := None\<rparr> else it);
                     it' = it'\<lparr>has_been_recvd := True\<rparr>;
                     send_args = \<lparr>device_context = send_dev_context it, alloc_attrs = send_alloc_attrs it\<rparr>
                 in (rv\<lparr>table := update_item key_hash it' (table rv)\<rparr>,
                     opt_list (send_dev_context it),
                     Callback w None send_args recv_args v (is_dead it) # map Unref (opt_list (send_dev_context it)),
                     Ok ())
               else (rv, [], [Callback w (Some ABORTED) Args recv_args None False], Ok ())
           | None \<Rightarrow>
               let it = new_Item\<lparr>waiter := Some w, recv_alloc_attrs := alloc_attrs recv_args,
                          recv_dev_context := device_context recv_args\<rparr>
               in (rv\<lparr>table := table rv @ [(key_hash, it)]\<rparr>, opt_list (device_context recv_args), [], Ok ())))"

definition abort_item :: "error_code \<Rightarrow> 'v item \<Rightarrow> 'v action list" where
  "abort_item e it =
     (case waiter it of None \<Rightarrow> [] | Some w \<Rightarrow> [Callback w (Some e) Args Args None False]) @ delete_Item it"

text \<open>The argument is an error: \<open>CHECK(!status.ok())\<close>.\<close>

definition StartAbort :: "error_code \<Rightarrow> 'v rendezvous \<Rightarrow> 'v outcome" where
  "StartAbort e rv =
     (if status rv \<noteq> None then (rv, [], [], Ok ())
      else (rv\<lparr>status := Some e, table := []\<rparr>, [], concat (map (\<lambda>p. abort_item e (snd p)) (table rv)), Ok ()))"

text \<open>The destructor of the rendezvous deletes the items; their waiters are not invoked.\<close>

definition delete_Rendezvous :: "'v rendezvous \<Rightarrow> 'v action list" where
  "delete_Rendezvous rv = concat (map (\<lambda>p. delete_Item (snd p)) (table rv))"

datatype 'v rv_call =
    CallSend string args "'v option" bool
  | CallRecv string args nat
  | CallAbort error_code

fun rv_exec :: "bool \<Rightarrow> 'v rv_call \<Rightarrow> 'v rendezvous \<Rightarrow> 'v outcome" where
  "rv_exec le (CallSend k a v d) rv = Send le k a v d rv"
| "rv_exec le (CallRecv k a w) rv = RecvAsync le k a w rv"
| "rv_exec le (CallAbort e) rv = StartAbort e rv"

section \<open>The table\<close>

lemma map_of_update_item: "map_of (update_item h it t) h' = (if h' = h \<and> map_of t h \<noteq> None then Some it else map_of t h')"
  by (induction t) auto

lemma keys_update_item [simp]: "map fst (update_item h it t) = map fst t"
  by (induction t) auto

lemma map_of_append_fresh: "map_of t h = None \<Longrightarrow> map_of (t @ [(h, it)]) h' = (if h' = h then Some it else map_of t h')"
  by (auto simp: map_add_def split: option.splits)

end
