(* ===== verification/RendezvousSpec.thy ===== *)
theory RendezvousSpec
  imports Rendezvous
begin

text \<open>
  What a rendezvous promises: for each key a slot that is filled by one \<open>Send\<close> and emptied by one
  \<open>RecvAsync\<close>, in either order. A rendezvous that does not tolerate duplicate receives implements
  this for any set of keys with different hashes. Two deviations are stated as well: keys with the
  same hash share a slot, and a rendezvous that tolerates duplicate receives answers the second
  of two early receives with an empty tensor.
\<close>

section \<open>Abstract specification\<close>

datatype 'v slot = Idle | Sent "'v option" bool args | Waiting nat args | Received

fun slot_send :: "args \<Rightarrow> 'v option \<Rightarrow> bool \<Rightarrow> 'v slot \<Rightarrow> 'v slot \<times> 'v action list \<times> unit status_or" where
  "slot_send a v d Idle = (Sent v d a, [], Ok ())"
| "slot_send a v d (Waiting w ra) = (Received, [Callback w None a ra v d], Ok ())"
| "slot_send a v d (Sent v' d' a') = (Sent v' d' a', [], Err ABORTED)"
| "slot_send a v d Received = (Received, [], Err ABORTED)"

fun slot_recv :: "args \<Rightarrow> nat \<Rightarrow> 'v slot \<Rightarrow> 'v slot \<times> 'v action list \<times> unit status_or" where
  "slot_recv ra w Idle = (Waiting w ra, [], Ok ())"
| "slot_recv ra w (Sent v d a) = (Received, [Callback w None a ra v d], Ok ())"
| "slot_recv ra w (Waiting w' ra') = (Waiting w' ra', [Callback w (Some ABORTED) Args ra None False], Ok ())"
| "slot_recv ra w Received = (Received, [Callback w (Some ABORTED) Args ra None False], Ok ())"

type_synonym 'v spec_state = "(string \<Rightarrow> 'v slot) \<times> error_code option"

text \<open>A call gives the new state, the set of callbacks that are invoked, and the returned status.\<close>

fun spec_exec :: "'v rv_call \<Rightarrow> 'v spec_state \<Rightarrow> 'v spec_state \<times> 'v action set \<times> unit status_or" where
  "spec_exec (CallSend k a v d) (m, Some e) = ((m, Some e), {}, Err e)"
| "spec_exec (CallSend k a v d) (m, None) = (case slot_send a v d (m k) of (s, cs, r) \<Rightarrow> ((m(k := s), None), set cs, r))"
| "spec_exec (CallRecv k ra w) (m, Some e) = ((m, Some e), {Callback w (Some e) Args ra None False}, Ok ())"
| "spec_exec (CallRecv k ra w) (m, None) = (case slot_recv ra w (m k) of (s, cs, r) \<Rightarrow> ((m(k := s), None), set cs, r))"
| "spec_exec (CallAbort e) (m, Some e') = ((m, Some e'), {}, Ok ())"
| "spec_exec (CallAbort e) (m, None) =
     ((\<lambda>_. Idle, Some e), {Callback w (Some e) Args Args None False | k w ra. m k = Waiting w ra}, Ok ())"

fun spec_run :: "'v rv_call list \<Rightarrow> 'v spec_state \<Rightarrow> ('v action set \<times> unit status_or) list" where
  "spec_run [] m = []"
| "spec_run (c # cs) m = (case spec_exec c m of (m', out) \<Rightarrow> out # spec_run cs m')"

text \<open>The same observations of the rendezvous.\<close>

fun is_callback :: "'v action \<Rightarrow> bool" where
  "is_callback (Callback w e a ra v d) = True"
| "is_callback (Unref c) = False"

abbreviation callbacks_of :: "'v action list \<Rightarrow> 'v action list" where
  "callbacks_of \<equiv> filter is_callback"

fun rv_run :: "bool \<Rightarrow> 'v rv_call list \<Rightarrow> 'v rendezvous \<Rightarrow> ('v action set \<times> unit status_or) list" where
  "rv_run le [] rv = []"
| "rv_run le (c # cs) rv = (case rv_exec le c rv of (rv', refs, acts, r) \<Rightarrow> (set (callbacks_of acts), r) # rv_run le cs rv')"

fun call_key :: "'v rv_call \<Rightarrow> string option" where
  "call_key (CallSend k a v d) = Some k"
| "call_key (CallRecv k ra w) = Some k"
| "call_key (CallAbort e) = None"

section \<open>One slot\<close>

definition slot_of :: "'v item \<Rightarrow> 'v slot" where
  "slot_of it =
     (case waiter it of
        Some w \<Rightarrow> Waiting w \<lparr>device_context = recv_dev_context it, alloc_attrs = recv_alloc_attrs it\<rparr>
      | None \<Rightarrow> if has_been_recvd it then Received
                else Sent (val it) (is_dead it) \<lparr>device_context = send_dev_context it, alloc_attrs = send_alloc_attrs it\<rparr>)"

definition slot_at :: "uint64 \<Rightarrow> 'v rendezvous \<Rightarrow> 'v slot" where
  "slot_at h rv = (case map_of (table rv) h of None \<Rightarrow> Idle | Some it \<Rightarrow> slot_of it)"

lemma callbacks_of_unrefs [simp]: "callbacks_of (map Unref xs) = []"
  by (induction xs) auto

lemma Send_slot:
  assumes "status rv = None" "\<not> tolerate_dup_recv rv" "Send le k a v d rv = (rv', refs, acts, r)"
  shows "slot_send a v d (slot_at (KeyHash le k) rv) = (slot_at (KeyHash le k) rv', callbacks_of acts, r)"
    "h \<noteq> KeyHash le k \<Longrightarrow> slot_at h rv' = slot_at h rv"
    "status rv' = None \<and> \<not> tolerate_dup_recv rv'"
    "map fst (table rv') = map fst (table rv) \<or>
      map_of (table rv) (KeyHash le k) = None \<and> map fst (table rv') = map fst (table rv) @ [KeyHash le k]"
  using assms
  by (auto simp: Send_def Let_def slot_at_def slot_of_def new_Item_def map_of_append_fresh map_of_update_item simp del: map_of_append split: option.splits)

lemma Recv_slot:
  assumes "status rv = None" "\<not> tolerate_dup_recv rv" "RecvAsync le k ra w rv = (rv', refs, acts, r)"
  shows "slot_recv ra w (slot_at (KeyHash le k) rv) = (slot_at (KeyHash le k) rv', callbacks_of acts, r)"
    "h \<noteq> KeyHash le k \<Longrightarrow> slot_at h rv' = slot_at h rv"
    "status rv' = None \<and> \<not> tolerate_dup_recv rv'"
    "map fst (table rv') = map fst (table rv) \<or>
      map_of (table rv) (KeyHash le k) = None \<and> map fst (table rv') = map fst (table rv) @ [KeyHash le k]"
  using assms
  by (auto simp: RecvAsync_def Let_def slot_at_def slot_of_def new_Item_def map_of_append_fresh map_of_update_item
      simp del: map_of_append split: option.splits if_splits)

section \<open>Refinement\<close>

text \<open>
  \<open>K\<close> is a set of keys on which the hash is injective and that contains the keys in use.
\<close>

definition rv_ok :: "bool \<Rightarrow> string set \<Rightarrow> 'v rendezvous \<Rightarrow> bool" where
  "rv_ok le K rv \<longleftrightarrow> \<not> tolerate_dup_recv rv \<and> distinct (map fst (table rv)) \<and>
     set (map fst (table rv)) \<subseteq> KeyHash le ` K \<and> (status rv \<noteq> None \<longrightarrow> table rv = [])"

definition abs_rv :: "bool \<Rightarrow> string set \<Rightarrow> 'v rendezvous \<Rightarrow> 'v spec_state" where
  "abs_rv le K rv = (\<lambda>k. if k \<in> K then slot_at (KeyHash le k) rv else Idle, status rv)"

lemma abs_rv_update:
  assumes "inj_on (KeyHash le) K" "k \<in> K" "\<And>h. h \<noteq> KeyHash le k \<Longrightarrow> slot_at h rv' = slot_at h rv"
    and "status rv = None" "status rv' = None"
  shows "abs_rv le K rv' = ((fst (abs_rv le K rv))(k := slot_at (KeyHash le k) rv'), None)"
proof -
  have "slot_at (KeyHash le x) rv' = slot_at (KeyHash le x) rv" if "x \<in> K" "x \<noteq> k" for x
    using assms(1-3) that by (metis inj_onD)
  then show ?thesis using assms(2,4,5) by (auto simp: abs_rv_def fun_eq_iff)
qed

lemma rv_ok_keys:
  assumes "rv_ok le K rv" "k \<in> K" "status rv' = None \<and> \<not> tolerate_dup_recv rv'"
    and "map fst (table rv') = map fst (table rv) \<or>
      map_of (table rv) (KeyHash le k) = None \<and> map fst (table rv') = map fst (table rv) @ [KeyHash le k]"
  shows "rv_ok le K rv'"
proof -
  have "set (map fst (table rv')) \<subseteq> insert (KeyHash le k) (set (map fst (table rv)))"
    using assms(4) by (elim disjE conjE) (simp_all only: set_append, auto)
  moreover have "distinct (map fst (table rv'))"
    using assms(1,4) by (elim disjE) (simp_all add: rv_ok_def map_of_eq_None_iff)
  ultimately show ?thesis using assms(1-3) by (auto simp: rv_ok_def simp del: set_map)
qed

lemma abs_rv_empty: "table rv = [] \<Longrightarrow> abs_rv le K rv = (\<lambda>_. Idle, status rv)"
  by (simp add: abs_rv_def slot_at_def fun_eq_iff)

lemma abort_callbacks:
  fixes rv :: "'a rendezvous"
  assumes "rv_ok le K rv"
  shows "set (callbacks_of (concat (map (\<lambda>p. abort_item e (snd p)) (table rv)))) =
    {Callback w (Some e) Args Args None False | k w ra. fst (abs_rv le K rv) k = Waiting w ra}" (is "?A = ?B")
proof -
  have d: "distinct (map fst (table rv))" and s: "set (map fst (table rv)) \<subseteq> KeyHash le ` K"
    using assms by (simp_all add: rv_ok_def)
  have cb: "set (callbacks_of (abort_item e it)) = {Callback w (Some e) Args Args None False | w. waiter it = Some w}" for it
    by (auto simp: abort_item_def delete_Item_def split: option.splits)
  have "?A = {Callback w (Some e) Args Args None False | h it w. (h, it) \<in> set (table rv) \<and> waiter it = Some w}"
  proof -
    have "?A = (\<Union>p \<in> set (table rv). set (callbacks_of (abort_item e (snd p))))"
      by (simp add: filter_concat)
    then show ?thesis unfolding cb by force
  qed
  also have "\<dots> = ?B"
  proof (intro equalityI subsetI)
    fix c :: "'a action" assume "c \<in> {Callback w (Some e) Args Args None False | h it w. (h, it) \<in> set (table rv) \<and> waiter it = Some w}"
    then obtain h it w where i: "(h, it) \<in> set (table rv)" "waiter it = Some w" "c = Callback w (Some e) Args Args None False" by blast
    then obtain k where "k \<in> K" "h = KeyHash le k" using s by force
    then have "\<exists>ra. fst (abs_rv le K rv) k = Waiting w ra"
      using i d by (simp add: abs_rv_def slot_at_def slot_of_def)
    then show "c \<in> ?B" using i(3) by blast
  next
    fix c :: "'a action" assume "c \<in> ?B"
    then obtain k w ra where k: "fst (abs_rv le K rv) k = Waiting w ra" "c = Callback w (Some e) Args Args None False" by blast
    then obtain it where it: "map_of (table rv) (KeyHash le k) = Some it" "slot_of it = Waiting w ra"
      by (auto simp: abs_rv_def slot_at_def split: if_splits option.splits)
    have "waiter it = Some w" using it(2) by (auto simp: slot_of_def split: option.splits if_splits)
    then show "c \<in> {Callback w (Some e) Args Args None False | h it w. (h, it) \<in> set (table rv) \<and> waiter it = Some w}"
      using map_of_SomeD [OF it(1)] k(2) by blast
  qed
  finally show ?thesis .
qed

lemma exec_refines:
  assumes ok: "rv_ok le K rv" and inj: "inj_on (KeyHash le) K" and k: "set_option (call_key c) \<subseteq> K"
    and ex: "rv_exec le c rv = (rv', refs, acts, r)"
  shows "spec_exec c (abs_rv le K rv) = (abs_rv le K rv', set (callbacks_of acts), r) \<and> rv_ok le K rv'"
proof (cases "status rv")
  case (Some e)
  then show ?thesis using ex ok
    by (cases c) (auto simp: Send_def RecvAsync_def StartAbort_def abs_rv_def Let_def)
next
  case None
  have nt: "\<not> tolerate_dup_recv rv" using ok by (simp add: rv_ok_def)
  show ?thesis
  proof (cases c)
    case (CallSend k a v d)
    then have s: "Send le k a v d rv = (rv', refs, acts, r)" and "k \<in> K" using ex k by simp_all
    note S = Send_slot [OF None nt s]
    have "fst (abs_rv le K rv) k = slot_at (KeyHash le k) rv" "snd (abs_rv le K rv) = None"
      using \<open>k \<in> K\<close> None by (simp_all add: abs_rv_def)
    then show ?thesis using abs_rv_update [OF inj \<open>k \<in> K\<close> S(2) None] S(1,3) rv_ok_keys [OF ok \<open>k \<in> K\<close> S(3,4)] CallSend
      by (cases "abs_rv le K rv") simp
  next
    case (CallRecv k ra w)
    then have s: "RecvAsync le k ra w rv = (rv', refs, acts, r)" and "k \<in> K" using ex k by simp_all
    note S = Recv_slot [OF None nt s]
    have "fst (abs_rv le K rv) k = slot_at (KeyHash le k) rv" "snd (abs_rv le K rv) = None"
      using \<open>k \<in> K\<close> None by (simp_all add: abs_rv_def)
    then show ?thesis using abs_rv_update [OF inj \<open>k \<in> K\<close> S(2) None] S(1,3) rv_ok_keys [OF ok \<open>k \<in> K\<close> S(3,4)] CallRecv
      by (cases "abs_rv le K rv") simp
  next
    case (CallAbort e)
    then have "rv' = rv\<lparr>status := Some e, table := []\<rparr>" "r = Ok ()"
      "set (callbacks_of acts) = {Callback w (Some e) Args Args None False | k w ra. fst (abs_rv le K rv) k = Waiting w ra}"
      using ex None abort_callbacks [OF ok, of e] by (auto simp: StartAbort_def)
    moreover have "snd (abs_rv le K rv) = None" using None by (simp add: abs_rv_def)
    ultimately show ?thesis using CallAbort ok
      by (cases "abs_rv le K rv") (simp add: rv_ok_def abs_rv_empty)
  qed
qed

lemma run_refines:
  "rv_ok le K rv \<Longrightarrow> inj_on (KeyHash le) K \<Longrightarrow> \<forall>c \<in> set cs. set_option (call_key c) \<subseteq> K \<Longrightarrow>
    rv_run le cs rv = spec_run cs (abs_rv le K rv)"
proof (induction cs arbitrary: rv)
  case (Cons c cs)
  obtain rv' refs acts r where ex: "rv_exec le c rv = (rv', refs, acts, r)" by (metis prod_cases4)
  have "spec_exec c (abs_rv le K rv) = (abs_rv le K rv', set (callbacks_of acts), r) \<and> rv_ok le K rv'"
    using Cons.prems by (intro exec_refines [OF _ _ _ ex]) simp_all
  then show ?case using Cons.IH [of rv'] Cons.prems(2,3) ex by simp
qed simp

lemma rv_ok_new: "rv_ok le K (NewLocalRendezvous False)" "abs_rv le K (NewLocalRendezvous False) = (\<lambda>_. Idle, None)"
  by (simp_all add: rv_ok_def NewLocalRendezvous_def abs_rv_empty)

text \<open>
  C15. A new rendezvous that does not tolerate duplicate receives behaves like one slot per key: for
  every sequence of sends, receives and aborts over keys with different hashes, each call returns
  the status and invokes the callbacks, with their statuses, arguments and tensors, that the
  abstract specification gives for it.
\<close>
theorem rendezvous_refines:
  assumes "inj_on (KeyHash le) K" "\<forall>c \<in> set cs. set_option (call_key c) \<subseteq> K"
  shows "rv_run le cs (NewLocalRendezvous False) = spec_run cs (\<lambda>_. Idle, None)"
  using run_refines [OF rv_ok_new(1) assms] by (simp only: rv_ok_new(2))

theorem rendezvous_refines_witness:
  "rv_run True [CallRecv ''k'' Args 7, CallSend ''k'' Args (Some (5 :: nat)) False, CallSend ''k'' Args (Some 6) False] (NewLocalRendezvous False) =
    [({}, Ok ()), ({Callback 7 None Args Args (Some 5) False}, Ok ()), ({}, Err ABORTED)]"
proof -
  have "rv_run True [CallRecv ''k'' Args 7, CallSend ''k'' Args (Some (5 :: nat)) False, CallSend ''k'' Args (Some 6) False] (NewLocalRendezvous False) =
    spec_run [CallRecv ''k'' Args 7, CallSend ''k'' Args (Some 5) False, CallSend ''k'' Args (Some 6) False] (\<lambda>_. Idle, None)"
    by (rule rendezvous_refines [of True "{''k''}"]) simp_all
  then show ?thesis by simp
qed

section \<open>One send and one receive\<close>

text \<open>The callbacks that the calls on one key lead to, in the order of the calls.\<close>

fun deliveries :: "bool \<Rightarrow> string \<Rightarrow> 'v rv_call list \<Rightarrow> 'v rendezvous \<Rightarrow> 'v action list" where
  "deliveries le k [] rv = []"
| "deliveries le k (c # cs) rv =
     (case rv_exec le c rv of (rv', refs, acts, r) \<Rightarrow>
        (if call_key c = Some k then callbacks_of acts else []) @ deliveries le k cs rv')"

fun slot_exec :: "'v rv_call \<Rightarrow> 'v slot \<Rightarrow> 'v slot \<times> 'v action list \<times> unit status_or" where
  "slot_exec (CallSend k a v d) s = slot_send a v d s"
| "slot_exec (CallRecv k ra w) s = slot_recv ra w s"
| "slot_exec (CallAbort e) s = (s, [], Ok ())"

fun slot_deliveries :: "'v rv_call list \<Rightarrow> 'v slot \<Rightarrow> 'v action list" where
  "slot_deliveries [] s = []"
| "slot_deliveries (c # cs) s = (case slot_exec c s of (s', acts, r) \<Rightarrow> acts @ slot_deliveries cs s')"

lemma deliveries_slot:
  assumes "inj_on (KeyHash le) K" "k \<in> K"
    and "\<forall>c \<in> set cs. \<exists>x \<in> K. call_key c = Some x" "status rv = None" "\<not> tolerate_dup_recv rv"
  shows "deliveries le k cs rv = slot_deliveries (filter (\<lambda>c. call_key c = Some k) cs) (slot_at (KeyHash le k) rv)"
  using assms(3-5)
proof (induction cs arbitrary: rv)
  case (Cons c cs)
  obtain rv' refs acts r where ex: "rv_exec le c rv = (rv', refs, acts, r)" by (metis prod_cases4)
  obtain x where x: "x \<in> K" "call_key c = Some x" using Cons.prems(1) by auto
  have s: "slot_exec c (slot_at (KeyHash le x) rv) = (slot_at (KeyHash le x) rv', callbacks_of acts, r) \<and>
      (\<forall>h. h \<noteq> KeyHash le x \<longrightarrow> slot_at h rv' = slot_at h rv) \<and> status rv' = None \<and> \<not> tolerate_dup_recv rv'"
    using x(2) ex Send_slot [OF Cons.prems(2,3)] Recv_slot [OF Cons.prems(2,3)] by (cases c) auto
  have IH: "deliveries le k cs rv' = slot_deliveries (filter (\<lambda>c. call_key c = Some k) cs) (slot_at (KeyHash le k) rv')"
    using Cons.IH [of rv'] Cons.prems(1) s by simp
  show ?case
  proof (cases "x = k")
    case True
    then show ?thesis using ex IH s x(2) by simp
  next
    case False
    then have "slot_at (KeyHash le k) rv' = slot_at (KeyHash le k) rv" using s assms(1,2) x(1) by (metis inj_onD)
    then show ?thesis using False ex IH x(2) by simp
  qed
qed simp

text \<open>
  C16. A consumer may ask for a tensor before or after it has been produced. In a rendezvous that does not
  tolerate duplicate receives, let the calls be sends and receives, no aborts, over a set of keys whose hashes are
  pairwise different (the table stores only the hash, and \<open>rendezvous_collision\<close> shows that the claim fails
  without this). If the calls on one of the keys are
  one \<open>Send\<close> and one \<open>RecvAsync\<close>, in either order and interleaved in any way with the calls on the other
  keys, exactly one callback is invoked for the key, the one of the receive, with status OK, the sent
  tensor and the arguments of both sides.
\<close>
theorem rendezvous_pairs:
  assumes "inj_on (KeyHash le) K" "k \<in> K" "\<forall>c \<in> set cs. \<exists>x \<in> K. call_key c = Some x"
    and "filter (\<lambda>c. call_key c = Some k) cs \<in>
      {[CallSend k a v d, CallRecv k ra w], [CallRecv k ra w, CallSend k a v d]}"
  shows "deliveries le k cs (NewLocalRendezvous False) = [Callback w None a ra v d]"
proof -
  have "deliveries le k cs (NewLocalRendezvous False) =
    slot_deliveries (filter (\<lambda>c. call_key c = Some k) cs) (slot_at (KeyHash le k) (NewLocalRendezvous False))"
    using assms(1-3) by (rule deliveries_slot) (simp_all add: NewLocalRendezvous_def)
  also have "slot_at (KeyHash le k) (NewLocalRendezvous False) = Idle" by (simp add: slot_at_def NewLocalRendezvous_def)
  finally show ?thesis using assms(4) by auto
qed

theorem rendezvous_pairs_witness:
  "deliveries True ''k'' [CallRecv ''k'' Args 7, CallSend ''k'' Args (Some (5 :: nat)) False] (NewLocalRendezvous False) =
    [Callback 7 None Args Args (Some 5) False]"
  by (rule rendezvous_pairs [of True "{''k''}"]) simp_all

section \<open>Deviations\<close>

text \<open>
  C19. A rendezvous that tolerates duplicate receives: if two receives on a key come before the send,
  the callback of the second is invoked at once with status OK and an empty tensor that nobody sent.
\<close>
theorem early_dup_recv:
  "deliveries le k [CallRecv k ra w, CallRecv k rb w', CallSend k a v d] (NewLocalRendezvous True) =
    [Callback w' None Args rb None False, Callback w None a ra v d]"
  by (simp add: RecvAsync_def Send_def NewLocalRendezvous_def new_Item_def opt_list_def Args_def Let_def split: option.splits)

lemma KeyHash_collision:
  assumes "16 \<le> length k"
  obtains k' where "k' \<noteq> k" "length k' = length k" "KeyHash le k' = KeyHash le k"
proof -
  let ?b = "map of_char k :: bytes"
  have l: "length (take 8 ?b) = 8" "length (take 8 (drop 8 ?b)) = 8" using assms by simp_all
  obtain a b where ab: "length a = 8" "length b = 8" "a \<noteq> take 8 ?b"
    "Hash64 le ([] @ a @ b @ drop 16 ?b) = Hash64 le ([] @ take 8 ?b @ take 8 (drop 8 ?b) @ drop 16 ?b)"
    using Hash64_collision [of "[]" "take 8 ?b" "take 8 (drop 8 ?b)" le, OF _ l] by (metis dvd_0_right list.size(3))
  have split: "take 8 ?b @ take 8 (drop 8 ?b) @ drop 16 ?b = ?b"
    using append_take_drop_id [of 8 ?b] append_take_drop_id [of 8 "drop 8 ?b"] by (simp add: add.commute)
  define k' where "k' = map (\<lambda>x. char_of (unat x)) (a @ b @ drop 16 ?b)"
  have inv: "map of_char (map (\<lambda>x :: byte. char_of (unat x)) xs) = xs" for xs :: bytes
  proof -
    have "of_char (char_of (unat x)) = x" for x :: byte
    proof -
      have "of_char (char_of (unat x)) = (of_nat (of_char (char_of (unat x) :: char)) :: byte)" by (simp only: of_nat_of_char)
      also have "\<dots> = x" using unsigned_less [where 'a = nat, of x] by simp
      finally show ?thesis .
    qed
    then show ?thesis by (simp add: map_idI)
  qed
  have "KeyHash le k' = KeyHash le k" using ab(4) split by (simp only: KeyHash_def k'_def inv append_Nil)
  moreover have "length k' = length k" using ab(1,2) assms by (simp add: k'_def)
  moreover have "k' \<noteq> k"
  proof
    assume "k' = k"
    then have "?b = a @ b @ drop 16 ?b" using inv [of "a @ b @ drop 16 ?b"] by (simp only: k'_def)
    then have "take 8 ?b = a" using ab(1) by (metis append_eq_conv_conj)
    then show False using ab(3) by simp
  qed
  ultimately show ?thesis using that by blast
qed

text \<open>
  Only the hash of a key is stored: for every key of at least 16 bytes there is a different key of
  the same length whose receiver is handed the tensor that was sent under the first.
\<close>
theorem rendezvous_collision:
  assumes "16 \<le> length k"
  shows "\<exists>k'. k' \<noteq> k \<and> length k' = length k \<and>
    deliveries le k' [CallSend k a v d, CallRecv k' ra w] (NewLocalRendezvous False) = [Callback w None a ra v d]"
proof -
  obtain k' where k': "k' \<noteq> k" "length k' = length k" "KeyHash le k' = KeyHash le k" using KeyHash_collision [OF assms] .
  have "deliveries le k' [CallSend k a v d, CallRecv k' ra w] (NewLocalRendezvous False) = [Callback w None a ra v d]"
    using k'(1,3) by (simp add: RecvAsync_def Send_def NewLocalRendezvous_def new_Item_def Let_def)
  then show ?thesis using k' by blast
qed

theorem rendezvous_collision_witness:
  "\<exists>k'. k' \<noteq> ''/cpu:0;1;/cpu:1;a;0:0'' \<and> length k' = length ''/cpu:0;1;/cpu:1;a;0:0'' \<and>
    deliveries True k' [CallSend ''/cpu:0;1;/cpu:1;a;0:0'' Args (Some (5 :: nat)) False, CallRecv k' Args 7] (NewLocalRendezvous False) =
      [Callback 7 None Args Args (Some 5) False]"
  by (rule rendezvous_collision) simp

end
