(* ===== verification/RendezvousSystem.thy ===== *)
theory RendezvousSystem
  imports RendezvousSpec
begin

text \<open>
  Threads that share a rendezvous. A call runs in one step while it holds the mutex; what it still has
  to do afterwards (invoke callbacks, drop references) is left to its thread and interleaves with the
  other threads in any way, action by action. The state records the references that are held on each
  device context beyond those of the callers, the callbacks that have been asked for and those that have
  been invoked.
\<close>

section \<open>Model\<close>

record 'v rv_system =
  rv :: "'v rendezvous"
  threads :: "'v action list list"
  refs :: "nat \<Rightarrow> int"
  asked :: "nat list"
  invoked :: "'v action list"

definition rv_start :: "bool \<Rightarrow> 'v rv_system" where
  "rv_start tolerate = \<lparr>rv = NewLocalRendezvous tolerate, threads = [], refs = (\<lambda>_. 0), asked = [], invoked = []\<rparr>"

fun asks :: "'v rv_call \<Rightarrow> nat list" where
  "asks (CallRecv k ra w) = [w]"
| "asks (CallSend k a v d) = []"
| "asks (CallAbort e) = []"

definition call_step :: "bool \<Rightarrow> 'v rv_call \<Rightarrow> 'v rv_system \<Rightarrow> 'v rv_system" where
  "call_step le c s =
     (case rv_exec le c (rv s) of
        (rv', taken, acts, r) \<Rightarrow>
          s\<lparr>rv := rv', threads := threads s @ [acts],
             refs := (\<lambda>x. refs s x + int (count (mset taken) x)), asked := asked s @ asks c\<rparr>)"

fun perform :: "'v action \<Rightarrow> 'v rv_system \<Rightarrow> 'v rv_system" where
  "perform (Callback w e a ra v d) s = s\<lparr>invoked := invoked s @ [Callback w e a ra v d]\<rparr>"
| "perform (Unref x) s = s\<lparr>refs := (refs s)(x := refs s x - 1)\<rparr>"

definition run_step :: "nat \<Rightarrow> 'v rv_system \<Rightarrow> 'v rv_system" where
  "run_step i s =
     (if i < length (threads s) then
        (case threads s ! i of
           [] \<Rightarrow> s
         | act # rest \<Rightarrow> perform act (s\<lparr>threads := (threads s)[i := rest]\<rparr>))
      else s)"

inductive rv_step :: "bool \<Rightarrow> 'v rv_system \<Rightarrow> 'v rv_system \<Rightarrow> bool" for le where
  call: "rv_step le s (call_step le c s)"
| run: "rv_step le s (run_step i s)"

section \<open>Accounting\<close>

fun unrefs :: "'v action \<Rightarrow> nat multiset" where
  "unrefs (Unref x) = {#x#}"
| "unrefs (Callback w e a ra v d) = {#}"

fun invokes :: "'v action \<Rightarrow> nat multiset" where
  "invokes (Unref x) = {#}"
| "invokes (Callback w e a ra v d) = {#w#}"

text \<open>The references and the callback that an item of the table stands for.\<close>

definition item_refs :: "'v item \<Rightarrow> nat multiset" where
  "item_refs it = mset (opt_list (send_dev_context it)) + mset (opt_list (recv_dev_context it))"

definition item_waits :: "'v item \<Rightarrow> nat multiset" where
  "item_waits it = mset (opt_list (waiter it))"

definition table_refs :: "'v rv_table \<Rightarrow> nat multiset" where
  "table_refs t = sum_list (map (\<lambda>p. item_refs (snd p)) t)"

definition table_waits :: "'v rv_table \<Rightarrow> nat multiset" where
  "table_waits t = sum_list (map (\<lambda>p. item_waits (snd p)) t)"

definition acts_refs :: "'v action list \<Rightarrow> nat multiset" where
  "acts_refs acts = sum_list (map unrefs acts)"

definition acts_invokes :: "'v action list \<Rightarrow> nat multiset" where
  "acts_invokes acts = sum_list (map invokes acts)"

lemma acts_simps [simp]:
  "acts_refs [] = {#}" "acts_refs (a # as) = unrefs a + acts_refs as" "acts_refs (as @ bs) = acts_refs as + acts_refs bs"
  "acts_invokes [] = {#}" "acts_invokes (a # as) = invokes a + acts_invokes as" "acts_invokes (as @ bs) = acts_invokes as + acts_invokes bs"
  by (simp_all add: acts_refs_def acts_invokes_def)

lemma acts_unrefs [simp]: "acts_refs (map Unref xs) = mset xs" "acts_invokes (map Unref xs) = {#}"
  by (induction xs) simp_all

lemma table_simps [simp]:
  "table_refs [] = {#}" "table_refs (p # t) = item_refs (snd p) + table_refs t" "table_refs (t @ u) = table_refs t + table_refs u"
  "table_waits [] = {#}" "table_waits (p # t) = item_waits (snd p) + table_waits t" "table_waits (t @ u) = table_waits t + table_waits u"
  by (simp_all add: table_refs_def table_waits_def)

lemma opt_list_simps [simp]: "opt_list None = []" "opt_list (Some x) = [x]"
  by (simp_all add: opt_list_def)

lemma table_update:
  assumes "map_of t h = Some it"
  shows "table_refs (update_item h it' t) + item_refs it = table_refs t + item_refs it'"
    "table_waits (update_item h it' t) + item_waits it = table_waits t + item_waits it'"
  using assms by (induction t) (auto simp: ac_simps split: if_splits)

lemma delete_Item_acts: "acts_refs (delete_Item it) = item_refs it" "acts_invokes (delete_Item it) = {#}"
  by (simp_all add: delete_Item_def item_refs_def)

lemma abort_item_acts: "acts_refs (abort_item e it) = item_refs it" "acts_invokes (abort_item e it) = item_waits it"
  by (simp_all add: abort_item_def delete_Item_acts item_waits_def split: option.splits)

lemma abort_table_acts:
  "acts_refs (concat (map (\<lambda>p. abort_item e (snd p)) t)) = table_refs t"
  "acts_invokes (concat (map (\<lambda>p. abort_item e (snd p)) t)) = table_waits t"
  by (induction t) (simp_all add: abort_item_acts)

lemma delete_table_acts: "acts_refs (delete_Rendezvous r) = table_refs (table r)" "acts_invokes (delete_Rendezvous r) = {#}"
proof -
  have "acts_refs (concat (map (\<lambda>p. delete_Item (snd p)) t)) = table_refs t \<and>
    acts_invokes (concat (map (\<lambda>p. delete_Item (snd p)) t)) = {#}" for t :: "'a rv_table"
    by (induction t) (simp_all add: delete_Item_acts)
  then show "acts_refs (delete_Rendezvous r) = table_refs (table r)" "acts_invokes (delete_Rendezvous r) = {#}"
    by (simp_all add: delete_Rendezvous_def)
qed

text \<open>An item with a waiter has not been sent yet, so it holds no context of a sender; this is why \<open>Send\<close> never overwrites a held reference.\<close>

definition waiters_ok :: "'v rv_table \<Rightarrow> bool" where
  "waiters_ok t \<longleftrightarrow> (\<forall>p \<in> set t. waiter (snd p) \<noteq> None \<longrightarrow> send_dev_context (snd p) = None)"

lemma waiters_okD: "waiters_ok t \<Longrightarrow> map_of t h = Some it \<Longrightarrow> waiter it = Some w \<Longrightarrow> send_dev_context it = None"
  by (auto simp: waiters_ok_def dest!: map_of_SomeD)

lemma set_update_item: "set (update_item h it t) \<subseteq> insert (h, it) (set t)"
  by (induction t) (auto split: if_splits)

lemma waiters_ok_update: "waiters_ok t \<Longrightarrow> (waiter it \<noteq> None \<Longrightarrow> send_dev_context it = None) \<Longrightarrow> waiters_ok (update_item h it t)"
  using set_update_item [of h it t] by (fastforce simp: waiters_ok_def)

lemma waiters_ok_append: "waiters_ok t \<Longrightarrow> (waiter it \<noteq> None \<Longrightarrow> send_dev_context it = None) \<Longrightarrow> waiters_ok (t @ [(h, it)])"
  by (auto simp: waiters_ok_def)

section \<open>Every operation balances\<close>

definition balanced :: "'v rendezvous \<Rightarrow> nat list \<Rightarrow> 'v outcome \<Rightarrow> bool" where
  "balanced r ws out =
     (case out of (r', taken, acts, st) \<Rightarrow>
        waiters_ok (table r') \<and> (status r' \<noteq> None \<longrightarrow> table r' = []) \<and>
        table_refs (table r) + mset taken = table_refs (table r') + acts_refs acts \<and>
        table_waits (table r) + mset ws = table_waits (table r') + acts_invokes acts)"

lemma balanced_update:
  "status r = None \<Longrightarrow> waiters_ok t \<Longrightarrow> table_refs (table r) + mset taken = table_refs t + acts_refs acts \<Longrightarrow>
   table_waits (table r) + mset ws = table_waits t + acts_invokes acts \<Longrightarrow> balanced r ws (r\<lparr>table := t\<rparr>, taken, acts, st)"
  by (simp add: balanced_def)

lemma table_update_eq:
  assumes "map_of t h = Some it" "item_refs it + A = item_refs it' + B" "item_waits it + C = item_waits it' + D"
  shows "table_refs t + A = table_refs (update_item h it' t) + B" "table_waits t + C = table_waits (update_item h it' t) + D"
proof -
  have "table_refs t + A + (item_refs it + item_refs it') = table_refs (update_item h it' t) + B + (item_refs it + item_refs it')"
    using table_update(1) [OF assms(1), of it'] assms(2) by (metis (no_types) add.assoc add.commute)
  then show "table_refs t + A = table_refs (update_item h it' t) + B" by simp
  have "table_waits t + C + (item_waits it + item_waits it') = table_waits (update_item h it' t) + D + (item_waits it + item_waits it')"
    using table_update(2) [OF assms(1), of it'] assms(3) by (metis (no_types) add.assoc add.commute)
  then show "table_waits t + C = table_waits (update_item h it' t) + D" by simp
qed

lemma Send_balanced:
  assumes ok: "waiters_ok (table r)" "status r \<noteq> None \<longrightarrow> table r = []"
  shows "balanced r [] (Send le k a v d r)"
proof (cases "status r")
  case (Some e)
  then show ?thesis using ok by (simp add: Send_def balanced_def)
next
  case st: None
  show ?thesis
  proof (cases "map_of (table r) (KeyHash le k)")
    case None
    then show ?thesis using ok(1) st
      by (auto simp: Send_def balanced_def Let_def new_Item_def item_refs_def item_waits_def intro!: waiters_ok_append)
  next
    case (Some it)
    show ?thesis
    proof (cases "waiter it")
      case None
      then show ?thesis using ok Some st by (simp add: Send_def balanced_def)
    next
      case w: (Some w)
      have sc: "send_dev_context it = None" using waiters_okD [OF ok(1) Some w] .
      define it' where "it' = (if tolerate_dup_recv r then it\<lparr>has_been_recvd := True, waiter := None, recv_dev_context := None,
          val := v, is_dead := d, send_dev_context := device_context a, send_alloc_attrs := alloc_attrs a\<rparr>
        else it\<lparr>has_been_recvd := True, waiter := None, recv_dev_context := None\<rparr>)"
      let ?taken = "if tolerate_dup_recv r then opt_list (device_context a) else []"
      let ?acts = "Callback w None a \<lparr>device_context = recv_dev_context it, alloc_attrs = recv_alloc_attrs it\<rparr> v d #
        map Unref (opt_list (recv_dev_context it))"
      have e: "Send le k a v d r = (r\<lparr>table := update_item (KeyHash le k) it' (table r)\<rparr>, ?taken, ?acts, Ok ())"
        using Some w st sc unfolding Send_def Let_def it'_def by (cases "device_context a"; cases it) simp_all
      have "waiter it' = None" by (simp add: it'_def)
      then have t: "waiters_ok (update_item (KeyHash le k) it' (table r))" by (intro waiters_ok_update [OF ok(1)]) simp
      have i: "item_refs it + mset ?taken = item_refs it' + acts_refs ?acts"
        by (simp add: item_refs_def it'_def sc)
      have "item_waits it + mset [] = item_waits it' + acts_invokes ?acts"
        by (simp add: item_waits_def it'_def w)
      then show ?thesis unfolding e by (intro balanced_update [OF st t] table_update_eq [OF Some i])
    qed
  qed
qed

lemma Recv_balanced:
  assumes ok: "waiters_ok (table r)" "status r \<noteq> None \<longrightarrow> table r = []"
  shows "balanced r [w] (RecvAsync le k ra w r)"
proof (cases "status r")
  case (Some e)
  then show ?thesis using ok by (simp add: RecvAsync_def balanced_def)
next
  case st: None
  show ?thesis
  proof (cases "map_of (table r) (KeyHash le k)")
    case None
    then show ?thesis using ok(1) st
      by (auto simp: RecvAsync_def balanced_def Let_def new_Item_def item_refs_def item_waits_def intro!: waiters_ok_append)
  next
    case (Some it)
    show ?thesis
    proof (cases "\<not> (has_been_recvd it \<and> \<not> tolerate_dup_recv r) \<and> (waiter it = None \<or> tolerate_dup_recv r)")
      case False
      then show ?thesis using ok Some st by (auto simp: RecvAsync_def balanced_def)
    next
      case True
      define it' where "it' = (if \<not> tolerate_dup_recv r then it\<lparr>val := None\<rparr> else it)\<lparr>has_been_recvd := True\<rparr>"
      let ?acts = "Callback w None \<lparr>device_context = send_dev_context it, alloc_attrs = send_alloc_attrs it\<rparr> ra (val it) (is_dead it) #
        map Unref (opt_list (send_dev_context it))"
      have e: "RecvAsync le k ra w r =
        (r\<lparr>table := update_item (KeyHash le k) it' (table r)\<rparr>, opt_list (send_dev_context it), ?acts, Ok ())"
        using Some True st unfolding RecvAsync_def Let_def it'_def by auto
      have same: "waiter it' = waiter it" "send_dev_context it' = send_dev_context it" "recv_dev_context it' = recv_dev_context it"
        by (simp_all add: it'_def)
      have t: "waiters_ok (update_item (KeyHash le k) it' (table r))"
        using waiters_okD [OF ok(1) Some] same by (intro waiters_ok_update [OF ok(1)]) auto
      have i: "item_refs it + mset (opt_list (send_dev_context it)) = item_refs it' + acts_refs ?acts"
        by (simp add: item_refs_def same)
      have "item_waits it + mset [w] = item_waits it' + acts_invokes ?acts"
        by (simp add: item_waits_def same)
      then show ?thesis unfolding e by (intro balanced_update [OF st t] table_update_eq [OF Some i])
    qed
  qed
qed

lemma Abort_balanced:
  assumes "waiters_ok (table r)" "status r \<noteq> None \<longrightarrow> table r = []"
  shows "balanced r [] (StartAbort e r)"
  using assms by (auto simp: StartAbort_def balanced_def abort_table_acts waiters_ok_def)

lemma exec_balanced:
  assumes "waiters_ok (table r)" "status r \<noteq> None \<longrightarrow> table r = []"
  shows "balanced r (asks c) (rv_exec le c r)"
  using Send_balanced [OF assms] Recv_balanced [OF assms] Abort_balanced [OF assms] by (cases c) simp_all

section \<open>Invariant\<close>

definition sys_ok :: "'v rv_system \<Rightarrow> bool" where
  "sys_ok s \<longleftrightarrow> waiters_ok (table (rv s)) \<and> (status (rv s) \<noteq> None \<longrightarrow> table (rv s) = []) \<and>
     (\<forall>x. refs s x = int (count (table_refs (table (rv s)) + acts_refs (concat (threads s))) x)) \<and>
     mset (asked s) = table_waits (table (rv s)) + acts_invokes (concat (threads s)) + acts_invokes (invoked s)"

lemma sys_ok_start: "sys_ok (rv_start tolerate)"
  by (simp add: sys_ok_def rv_start_def NewLocalRendezvous_def waiters_ok_def)

lemma sys_ok_call:
  assumes "sys_ok s"
  shows "sys_ok (call_step le c s)"
proof -
  obtain r' taken acts st where ex: "rv_exec le c (rv s) = (r', taken, acts, st)" by (metis prod_cases4)
  have ok: "waiters_ok (table (rv s))" "status (rv s) \<noteq> None \<longrightarrow> table (rv s) = []" using assms by (simp_all add: sys_ok_def)
  have b: "waiters_ok (table r')" "status r' \<noteq> None \<longrightarrow> table r' = []"
    "table_refs (table (rv s)) + mset taken = table_refs (table r') + acts_refs acts"
    "table_waits (table (rv s)) + mset (asks c) = table_waits (table r') + acts_invokes acts"
    using exec_balanced [OF ok, of c le] unfolding ex balanced_def by simp_all
  have "refs s x + int (count (mset taken) x) = int (count (table_refs (table r') + acts_refs (concat (threads s) @ acts)) x)" for x
  proof -
    have "count (table_refs (table (rv s))) x + count (mset taken) x = count (table_refs (table r')) x + count (acts_refs acts) x"
      using arg_cong [OF b(3), of "\<lambda>m. count m x"] by simp
    moreover have "refs s x = int (count (table_refs (table (rv s)) + acts_refs (concat (threads s))) x)"
      using assms by (simp add: sys_ok_def)
    ultimately show ?thesis by simp
  qed
  moreover have "mset (asked s @ asks c) =
      table_waits (table r') + acts_invokes (concat (threads s) @ acts) + acts_invokes (invoked s)"
    using assms b(4) by (simp add: sys_ok_def ac_simps)
  ultimately show ?thesis using b(1,2) by (simp add: sys_ok_def call_step_def ex)
qed

lemma concat_update:
  assumes "i < length ts" "ts ! i = act # rest"
  shows "acts_refs (concat ts) = unrefs act + acts_refs (concat (ts[i := rest]))"
    "acts_invokes (concat ts) = invokes act + acts_invokes (concat (ts[i := rest]))"
    "length (concat ts) = Suc (length (concat (ts[i := rest])))"
proof -
  have t: "concat ts = concat (take i ts) @ (act # rest) @ concat (drop (Suc i) ts)"
    using id_take_nth_drop [OF assms(1)] assms(2) by (metis concat.simps(2) concat_append)
  have u: "concat (ts[i := rest]) = concat (take i ts) @ rest @ concat (drop (Suc i) ts)"
    using assms(1) by (simp add: upd_conv_take_nth_drop)
  show "acts_refs (concat ts) = unrefs act + acts_refs (concat (ts[i := rest]))"
    "acts_invokes (concat ts) = invokes act + acts_invokes (concat (ts[i := rest]))"
    "length (concat ts) = Suc (length (concat (ts[i := rest])))"
    unfolding t u by (simp_all add: ac_simps)
qed

lemma sys_ok_run:
  assumes "sys_ok s"
  shows "sys_ok (run_step i s)"
proof (cases "i < length (threads s) \<and> threads s ! i \<noteq> []")
  case False
  then show ?thesis using assms by (auto simp: run_step_def split: list.splits)
next
  case True
  then obtain act rest where t: "i < length (threads s)" "threads s ! i = act # rest" by (cases "threads s ! i") auto
  note c = concat_update [OF t]
  show ?thesis
  proof (cases act)
    case (Callback w e a ra v d)
    then show ?thesis using assms t c by (simp add: sys_ok_def run_step_def)
  next
    case (Unref x)
    then show ?thesis using assms t c by (auto simp: sys_ok_def run_step_def)
  qed
qed

interpretation rvs: transition_system "\<lambda>s. \<exists>tolerate. s = rv_start tolerate" "rv_step le" sys_ok for le
  by unfold_locales (auto intro: sys_ok_start sys_ok_call sys_ok_run elim: rv_step.cases)

lemma reachable_ok: "(rv_step le)\<^sup>*\<^sup>* (rv_start tolerate) s \<Longrightarrow> sys_ok s"
  by (rule rvs.inv_reachable) auto

text \<open>The threads can finish: running them one action at a time ends with nothing left to do.\<close>

lemma perform_rv [simp]: "rv (perform act s) = rv s" "asked (perform act s) = asked s"
  by (cases act; simp)+

lemma run_rv: "rv (run_step i s) = rv s" "asked (run_step i s) = asked s"
  by (simp_all add: run_step_def split: list.splits)

lemma run_threads:
  assumes "i < length (threads s)" "threads s ! i = act # rest"
  shows "threads (run_step i s) = (threads s)[i := rest]"
  using assms by (cases act) (simp_all add: run_step_def)

lemma threads_finish:
  "\<exists>s'. (rv_step le)\<^sup>*\<^sup>* s s' \<and> rv s' = rv s \<and> asked s' = asked s \<and> concat (threads s') = []"
proof (induction "length (concat (threads s))" arbitrary: s rule: less_induct)
  case less
  show ?case
  proof (cases "concat (threads s) = []")
    case False
    then obtain ts where "ts \<in> set (threads s)" "ts \<noteq> []" by (auto simp: concat_eq_Nil_conv)
    then obtain i act rest where t: "i < length (threads s)" "threads s ! i = act # rest"
      by (metis in_set_conv_nth neq_Nil_conv)
    have "length (concat (threads (run_step i s))) < length (concat (threads s))"
      unfolding run_threads [OF t] using concat_update(3) [OF t] by simp
    then obtain s' where "(rv_step le)\<^sup>*\<^sup>* (run_step i s) s'" "rv s' = rv s" "asked s' = asked s" "concat (threads s') = []"
      using less.hyps [of "run_step i s"] by (auto simp: run_rv)
    moreover have "rv_step le s (run_step i s)" by (rule rv_step.run)
    ultimately show ?thesis by (meson converse_rtranclp_into_rtranclp)
  qed blast
qed

text \<open>
  C18. The accounts of a rendezvous that any number of threads use, in every reachable state: each
  callback that a \<open>RecvAsync\<close> was given is either kept by an item of the table, or in the hands of
  a thread that is about to invoke it, or has been invoked, and is in exactly one of these places; the
  references held on a device context are exactly those that items of the table and pending actions will drop, so
  a context is never released early; and when no thread is active, the destructor drops them all.
\<close>
theorem rendezvous_accounts:
  assumes "(rv_step le)\<^sup>*\<^sup>* (rv_start tolerate) s"
  shows "mset (asked s) = table_waits (table (rv s)) + acts_invokes (concat (threads s)) + acts_invokes (invoked s) \<and>
    (\<forall>x. refs s x = int (count (table_refs (table (rv s)) + acts_refs (concat (threads s))) x)) \<and>
    (concat (threads s) = [] \<longrightarrow> (\<forall>x. refs s x = int (count (acts_refs (delete_Rendezvous (rv s))) x)))"
proof (intro conjI impI)
  note ok = reachable_ok [OF assms, unfolded sys_ok_def]
  show "mset (asked s) = table_waits (table (rv s)) + acts_invokes (concat (threads s)) + acts_invokes (invoked s)"
    and r: "\<forall>x. refs s x = int (count (table_refs (table (rv s)) + acts_refs (concat (threads s))) x)"
    using ok by blast+
  show "\<forall>x. refs s x = int (count (acts_refs (delete_Rendezvous (rv s))) x)" if "concat (threads s) = []"
    using r unfolding that delete_table_acts by simp
qed

text \<open>
  C17. Aborting answers everybody: from every reachable state, once \<open>StartAbort\<close> has been called and
  the threads have finished, which they can, every callback has been invoked exactly as often as
  it was passed to \<open>RecvAsync\<close>, and no reference to a device context is held.
\<close>
theorem rendezvous_abort_answers:
  assumes "(rv_step le)\<^sup>*\<^sup>* (rv_start tolerate) s"
  shows "(status (rv s) \<noteq> None \<and> concat (threads s) = [] \<longrightarrow>
      acts_invokes (invoked s) = mset (asked s) \<and> refs s = (\<lambda>_. 0)) \<and>
    (\<exists>s'. (rv_step le)\<^sup>*\<^sup>* (call_step le (CallAbort e) s) s' \<and> status (rv s') \<noteq> None \<and> concat (threads s') = [] \<and>
      acts_invokes (invoked s') = mset (asked s) \<and> refs s' = (\<lambda>_. 0))"
proof -
  have idle: "acts_invokes (invoked t) = mset (asked t) \<and> refs t = (\<lambda>_. 0)"
    if "sys_ok t" "status (rv t) \<noteq> None" "concat (threads t) = []" for t :: "'a rv_system"
    using that by (simp add: sys_ok_def fun_eq_iff)
  have ok: "sys_ok s" using assms by (rule reachable_ok)
  let ?a = "call_step le (CallAbort e) s"
  have a: "status (rv ?a) \<noteq> None" "asked ?a = asked s" by (auto simp: call_step_def StartAbort_def)
  obtain s' where s': "(rv_step le)\<^sup>*\<^sup>* ?a s'" "rv s' = rv ?a" "asked s' = asked ?a" "concat (threads s') = []"
    using threads_finish by blast
  have "sys_ok s'" using rvs.inv_steps [OF sys_ok_call [OF ok] s'(1)] .
  then have "acts_invokes (invoked s') = mset (asked s) \<and> refs s' = (\<lambda>_. 0)" using idle [of s'] s' a by simp
  then show ?thesis using idle [OF ok] s' a by metis
qed

lemma one_receive_reachable:
  "(rv_step True)\<^sup>*\<^sup>* (rv_start False) (call_step True (CallRecv ''k'' Args 7) (rv_start False))"
  by (rule r_into_rtranclp) (rule rv_step.call)

theorem rendezvous_accounts_witness:
  "let s = call_step True (CallRecv ''k'' \<lparr>device_context = Some 2, alloc_attrs = 0\<rparr> 7) (rv_start False :: nat rv_system)
   in mset (asked s) = {#7#} \<and> table_waits (table (rv s)) = {#7#} \<and> refs s 2 = 1"
proof -
  let ?s = "call_step True (CallRecv ''k'' \<lparr>device_context = Some 2, alloc_attrs = 0\<rparr> 7) (rv_start False :: nat rv_system)"
  have "(rv_step True)\<^sup>*\<^sup>* (rv_start False) ?s" by (rule r_into_rtranclp) (rule rv_step.call)
  moreover have "table_refs (table (rv ?s)) = {#2#}" "table_waits (table (rv ?s)) = {#7#}" "threads ?s = [[]]" "invoked ?s = []"
    by (simp_all add: call_step_def rv_start_def NewLocalRendezvous_def RecvAsync_def Let_def new_Item_def item_refs_def item_waits_def)
  ultimately show ?thesis using rendezvous_accounts [of True False ?s] by (simp add: Let_def)
qed

theorem rendezvous_abort_answers_witness:
  "let s = call_step True (CallRecv ''k'' Args 7) (rv_start False :: nat rv_system)
   in asked s = [7] \<and> (\<exists>s'. (rv_step True)\<^sup>*\<^sup>* (call_step True (CallAbort CANCELLED) s) s' \<and> acts_invokes (invoked s') = {#7#} \<and> refs s' = (\<lambda>_. 0))"
proof -
  let ?s = "call_step True (CallRecv ''k'' Args 7) (rv_start False :: nat rv_system)"
  have a: "asked ?s = [7]" by (simp add: call_step_def rv_start_def NewLocalRendezvous_def RecvAsync_def Let_def)
  have "\<exists>s'. (rv_step True)\<^sup>*\<^sup>* (call_step True (CallAbort CANCELLED) ?s) s' \<and> acts_invokes (invoked s') = mset (asked ?s) \<and> refs s' = (\<lambda>_. 0)"
    using rendezvous_abort_answers [OF one_receive_reachable, of CANCELLED] by blast
  then show ?thesis unfolding Let_def a by simp
qed

end
