(* ===== verification/Spec2Isabelle.thy ===== *)
theory Spec2Isabelle
  imports OrderedCode StridedSlice BCast TensorSliceSet TableSystem GraphCyclesSystem Bfc_System HeapComputationSystem RendezvousSystem
begin

text \<open>
  \<^bold>\<open>A verification library for the C++ core of the repository.\<close>

  The repository is a distribution of TensorFlow: a client builds a graph of operations, the
  runtime places, partitions and executes it on devices, kernels compute on tensors, and
  libraries below the runtime manage memory, shapes, files and byte encodings. The library
  models components of that core whose logic does not depend on a device or a service. Paths
  are relative to \<^verbatim>\<open>src/tensorflow\<close>.

  \<^bold>\<open>The parts and their theories\<close>

  \<^item> \<open>Tf_Prelude\<close>: the fixed-width types, \<open>Status\<close> codes as the error side of a
    sum, truncating division, byte strings and their order, and the interfaces that several
    components provide: \<open>codec\<close>, \<open>ordered_codec\<close> and \<open>transition_system\<close>.
  \<^item> \<open>Bfc_Region\<close>, \<open>Bfc_Allocator\<close>, \<open>Bfc_Invariant\<close>, \<open>Bfc_Split\<close>,
    \<open>Bfc_Grant\<close>, \<open>Bfc_Extend\<close>, \<open>Bfc_Properties\<close>, \<open>Bfc_System\<close>: the
    best-fit-with-coalescing allocator of \<^verbatim>\<open>core/common_runtime/bfc_allocator.cc\<close>.
    The record \<open>bfc\<close> has the fields of the class (chunk vector with its free list, bins,
    regions, statistics); each method is a function on it. \<open>Bfc_Region\<close> states the table
    from addresses to chunk handles as the locale \<open>handle_table\<close> and interprets it by the
    region manager; the invariant of \<open>Bfc_Invariant\<close> tiles every region by its chain of
    chunks and is kept by each operation. \<open>Bfc_System\<close> interprets \<open>transition_system\<close>
    by the public operations and shows that live allocations are disjoint, that every call
    has the effect that a contract on the map of live blocks gives for this call and its answer, that freeing never fails a check, that the search is best
    fit, that free neighbours are always merged, that the statistics are exact, and when an
    allocation terminates.
  \<^item> \<open>Coding\<close> (\<^verbatim>\<open>core/lib/core/coding.cc\<close>): fixed-width integers and
    varints, interpretations of \<open>codec\<close>; \<open>Crc32c\<close>
    (\<^verbatim>\<open>core/lib/hash/crc32c.cc\<close>, \<^verbatim>\<open>crc32c_accelerate.cc\<close>): the
    table-driven and the SSE4.2 checksum, both equal to the bitwise CRC-32C.
  \<^item> \<open>PosixFile\<close> (\<^verbatim>\<open>core/platform/posix/posix_file_system.cc\<close>): the file
    interfaces as the locales \<open>random_access_file\<close>, \<open>reliable_file\<close> and
    \<open>writable_file\<close>, provided by the loops over \<open>pread\<close> and \<open>fwrite\<close>;
    \<open>RecordIO\<close> (\<^verbatim>\<open>core/lib/io/record_writer.cc\<close>,
    \<^verbatim>\<open>record_reader.cc\<close>): record files over these interfaces and the checksum, with
    round trip, soundness on arbitrary files and the behaviour on truncated files.
  \<^item> \<open>TableBlock\<close>, \<open>TableIterator\<close>, \<open>TwoLevelIterator\<close>, \<open>TableFormat\<close>,
    \<open>TableBuilder\<close>, \<open>TableWrite\<close>, \<open>TableReader\<close>, \<open>TableSystem\<close>: the
    sorted tables of \<^verbatim>\<open>core/lib/io\<close> (\<^verbatim>\<open>block_builder.cc\<close>,
    \<^verbatim>\<open>block.cc\<close>, \<^verbatim>\<open>iterator.cc\<close>,
    \<^verbatim>\<open>two_level_iterator.cc\<close>, \<^verbatim>\<open>format.cc\<close>,
    \<^verbatim>\<open>table_builder.cc\<close>, \<^verbatim>\<open>table.cc\<close>) that checkpoints are stored
    in. The iterator interface is the locale \<open>sorted_iterator\<close>; the block iterator and
    the two-level iterator over such iterators are interpretations of it. A block, and then a
    whole file, is shown to be read as the sorted list of the entries that were written, and
    building a table is shown to return for all options and write errors.
  \<^item> \<open>GraphCycles\<close>, \<open>GraphCyclesDfs\<close>, \<open>GraphCyclesInv\<close>,
    \<open>GraphCyclesOps\<close>, \<open>GraphCyclesPath\<close>, \<open>GraphCyclesSystem\<close>: incremental
    cycle detection for the clustering pass of the JIT,
    \<^verbatim>\<open>compiler/jit/graphcycles/graphcycles.cc\<close>. The hash sets of edges are the
    locale \<open>unordered_set\<close>; every call sequence refines an abstract acyclic graph and
    keeps the ranks topologically ordered.
  \<^item> \<open>TensorShape\<close> (\<^verbatim>\<open>core/framework/tensor_shape.cc\<close>,
    \<^verbatim>\<open>core/util/overflow.h\<close>): shapes in their three packed representations, with
    the abstraction to the list of sizes; its clients \<open>StridedSlice\<close>
    (\<^verbatim>\<open>core/util/strided_slice_op.cc\<close>) and \<open>BCast\<close>
    (\<^verbatim>\<open>core/util/bcast.cc\<close>), proved against the positions a slice selects and
    against numpy's broadcasting rule.
  \<^item> \<open>Numbers\<close> (\<^verbatim>\<open>core/lib/strings/numbers.cc\<close>,
    \<^verbatim>\<open>str_util.h\<close>), \<open>TensorSlice\<close>
    (\<^verbatim>\<open>core/framework/tensor_slice.cc\<close>) and \<open>TensorSliceSet\<close>
    (\<^verbatim>\<open>core/util/tensor_slice_set.cc\<close>): the pieces of a partitioned variable in a
    checkpoint, as sets of index vectors, when they cover a query, and how a slice whose end overflows
    passes for data it does not hold.
  \<^item> \<open>HeapAlgorithm\<close>, \<open>HeapLazy\<close>, \<open>HeapRuns\<close>, \<open>HeapSimulator\<close>,
    \<open>HeapSimulatorInv\<close>, \<open>HeapSimulatorSystem\<close>, \<open>HeapComputation\<close>,
    \<open>HeapComputationInv\<close>, \<open>HeapComputationSystem\<close>: the buffer layout of the XLA
    compiler, \<^verbatim>\<open>compiler/xla/service/heap_simulator.cc\<close>. The heap algorithms (no
    fragmentation, lazy best fit, decreasing size) are records with functions for \<open>Alloc\<close>,
    \<open>Free\<close> and \<open>Finish\<close>; the locale \<open>heap_algorithm\<close> states what a simulation
    relies on, and \<open>heap_alignment\<close> gives it for the lazy algorithm and the one the compiler
    uses, at the alignments of the CPU and the GPU backend. \<open>HeapSimulator\<close> adds the sharing of
    buffers, \<open>HeapComputation\<close> the walk over the instructions of a computation and of the
    computations it calls. Buffers that an instruction needs together get disjoint, aligned places
    inside the reported heap, and no check fails.
  \<^item> \<open>DeviceName\<close>, \<open>DeviceNameOps\<close>
    (\<^verbatim>\<open>core/util/device_name_utils.cc\<close>): parsing, printing, comparing and merging
    device names. Printed names parse back, \<open>MergeDevNames\<close> is the least upper bound of the
    order \<open>IsSpecification\<close>, and the truncation of numbers is stated exactly.
  \<^item> \<open>Hash\<close> (\<^verbatim>\<open>core/lib/hash/hash.cc\<close>), \<open>RendezvousKey\<close>,
    \<open>Rendezvous\<close>, \<open>RendezvousSpec\<close>, \<open>RendezvousSystem\<close>
    (\<^verbatim>\<open>core/framework/rendezvous.cc\<close>): the rendezvous through which producers hand tensors
    to consumers. Keys parse back and identify what they are made of. An operation is split into the
    part under the mutex and the actions its thread performs afterwards. \<open>RendezvousSpec\<close>
    refines one slot per key and states two deviations; \<open>RendezvousSystem\<close> interleaves the
    threads, interprets \<open>transition_system\<close>, and shows that callbacks are invoked exactly once
    and references to device contexts are balanced.
  \<^item> \<open>OrderedCode\<close> (\<^verbatim>\<open>core/lib/strings/ordered_code.cc\<close>): encodings
    whose byte order is the order of the values, interpretations of \<open>ordered_codec\<close>.

  \<^bold>\<open>Conventions\<close>

  A class is a record, a method a function that returns the updated record, an enumeration a
  datatype. \<open>Status\<close> results are sums with the error code on the left. A result of type
  \<open>'a option\<close> is \<open>None\<close> where the process aborts on a \<open>CHECK\<close>, leaves the bounds
  of an array or does not return; \<open>DCHECK\<close>s are compiled out. Machine integers are words
  where wrap-around can happen; elsewhere they are integers or naturals with the range or the
  modulus written out. Signed 64-bit sums and products that the code leaves unguarded
  (\<open>TensorSlice::end\<close> and what is computed from it, the products of \<open>BCast\<close>) wrap around
  through \<open>int64_wrap\<close>, and the theorems name the range in which they are exact. The heap offsets of
  \<open>HeapAlgorithm\<close> and the allocation ids of the allocator are unbounded: the former are bounded by the sum of the
  padded sizes, as proved, the latter by the number of allocations. Pointers into a buffer are offsets or the bytes from there on.

  \<^bold>\<open>Termination\<close>

  No function has fuel, except that the walk over nested computations in \<open>HeapComputation\<close>
  takes the nesting depth as an argument, which bounds the recursion; its property is about the
  simulation of a single computation and holds for every depth. Loops that the code does not bound are \<open>partial_function\<close>s in the
  option monad (the growth and the backpedalling loop of the allocator, the searches of the
  block iterator, the depth-first searches and the path search on graphs), and the properties
  show that they return, or, for the backpedalling loop, when they do not.

  \<^bold>\<open>Code outside the repository\<close>

  The sub-allocator of the device, \<open>pread\<close> and \<open>fwrite\<close>, the Snappy library, the
  SSE4.2 instructions and \<open>std::unordered_set\<close> are arguments of the definitions that use
  them. What the code relies on is a named hypothesis or the assumption of a locale, and each
  is shown satisfiable by a concrete instance in a witness or an interpretation.

  \<^bold>\<open>Not modelled\<close>

  Locking: the mutex of a class makes its methods run one after the other; only the rendezvous does
  work after it has released its mutex, and there the interleaving is modelled. Logging, error
  messages, debug rendering, and destructors that only free memory. Within the
  components: region visitors and the retry helper of the allocator, compressed record files,
  floating-point text, the copying of floats in \<open>TensorSliceSet::Query\<close>, the signed
  encodings of \<open>OrderedCode\<close>, the blocking \<open>Rendezvous::Recv\<close>. The instruction graph
  and the points-to analysis of XLA are arguments of the heap simulation; hash maps are iterated in
  insertion order, on which no property depends. The rest of the program (operation registrations, kernels,
  the executor and sessions, graph construction and partitioning, the distributed runtime, the
  rest of the XLA compiler, stream executors, language bindings and tools) is left out: it is numeric code
  on device libraries, glue over generated protocol buffers and remote procedure calls, or
  larger than this library reaches so far.
\<close>

end
